(* ===== verification/NsPrelude.thy ===== *)
theory NsPrelude
  imports Complex_Main "HOL-Library.Word" "HOL-Library.Multiset"
begin

text \<open>
  Shared vocabulary of the development: the names of the C++ integer types, the result type of
  code that can abort, a small calculus for chaining such code, and the list operations behind
  the BSD list macros (scan for the first match, rewrite it, unlink it).
\<close>

section \<open>Types of the C++ code\<close>

type_synonym u8 = "8 word"
type_synonym u16 = "16 word"
type_synonym u32 = "32 word"

text \<open>
  \<open>nsaddr_t\<close> is a 32-bit integer that the routing code only compares for equality, so the
  signed and the unsigned reading agree. Simulated time is a C++ \<open>double\<close>; the model takes the
  real numbers, so the rounding of floating point arithmetic is not modelled.
\<close>

type_synonym nsaddr = "32 word"
type_synonym time = real

section \<open>Conversions of numbers\<close>

text \<open>A conversion to \<open>int\<close> and \<open>fmod\<close> round towards zero.\<close>

definition c_trunc :: "real \<Rightarrow> int" where
  "c_trunc x = (if 0 \<le> x then \<lfloor>x\<rfloor> else \<lceil>x\<rceil>)"

definition fmod :: "real \<Rightarrow> real \<Rightarrow> real" where
  "fmod x y = x - y * of_int (c_trunc (x / y))"

lemma trunc_nonneg: "0 \<le> x \<Longrightarrow> 0 \<le> c_trunc x"
  by (simp add: c_trunc_def)

lemma trunc_mono: "x \<le> y \<Longrightarrow> c_trunc x \<le> c_trunc y"
  by (auto simp: c_trunc_def floor_mono ceiling_mono intro: order_trans [of _ 0])

lemma trunc_le: "0 \<le> x \<Longrightarrow> of_int (c_trunc x) \<le> x"
  by (simp add: c_trunc_def)

section \<open>Code that can abort\<close>

text \<open>
  A failed \<open>assert\<close>, a call of \<open>abort()\<close>, of \<open>exit(1)\<close>, a write beyond an array and a
  dereferenced null pointer all end the simulator; a loop that never ends hangs it. Each is a value
  of type \<open>cerr\<close>, on the left of the result type.
\<close>

datatype cerr = AssertFail | Aborted | Exited | OutOfBounds | NullDeref | UseAfterFree | Hangs

type_synonym 'a res = "cerr + 'a"

named_theorems res_simps \<open>evaluation of chained results\<close>

definition bindR :: "'a res \<Rightarrow> ('a \<Rightarrow> 'b res) \<Rightarrow> 'b res" where
  "bindR m f = (case m of Inl e \<Rightarrow> Inl e | Inr x \<Rightarrow> f x)"

definition assertC :: "bool \<Rightarrow> unit res" where
  "assertC b = (if b then Inr () else Inl AssertFail)"

definition succeeds :: "('a \<Rightarrow> bool) \<Rightarrow> 'a res \<Rightarrow> bool" where
  "succeeds P m = (case m of Inl e \<Rightarrow> False | Inr x \<Rightarrow> P x)"

lemma bindR_Inr [simp, res_simps]: "bindR (Inr x) f = f x"
  by (simp add: bindR_def)

lemma bindR_Inl [simp, res_simps]: "bindR (Inl e) f = Inl e"
  by (simp add: bindR_def)

lemma bindR_eq_Inr: "bindR m f = Inr y \<longleftrightarrow> (\<exists>x. m = Inr x \<and> f x = Inr y)"
  by (cases m) auto

lemma bindR_assoc: "bindR (bindR m f) g = bindR m (\<lambda>x. bindR (f x) g)"
  by (cases m) auto

lemma assertC_True [simp, res_simps]: "assertC True = Inr ()"
  by (simp add: assertC_def)

lemma assertC_False [simp, res_simps]: "assertC False = Inl AssertFail"
  by (simp add: assertC_def)

lemma assertC_eq_Inr [simp]: "assertC b = Inr u \<longleftrightarrow> b"
  by (simp add: assertC_def)

lemma succeeds_Inr [simp]: "succeeds P (Inr x) \<longleftrightarrow> P x"
  by (simp add: succeeds_def)

lemma succeeds_Inl [simp]: "\<not> succeeds P (Inl e)"
  by (simp add: succeeds_def)

lemma succeeds_iff: "succeeds P m \<longleftrightarrow> (\<exists>x. m = Inr x \<and> P x)"
  by (cases m) auto

lemma succeeds_bindI:
  "succeeds Q m \<Longrightarrow> (\<And>x. Q x \<Longrightarrow> succeeds P (f x)) \<Longrightarrow> succeeds P (bindR m f)"
  by (cases m) auto

lemma succeeds_assertI: "b \<Longrightarrow> succeeds P (f ()) \<Longrightarrow> succeeds P (bindR (assertC b) f)"
  by simp

lemma succeeds_mono: "succeeds P m \<Longrightarrow> (\<And>x. P x \<Longrightarrow> Q x) \<Longrightarrow> succeeds Q m"
  by (cases m) auto

section \<open>Intrusive lists\<close>

text \<open>
  The agents keep their tables in BSD \<open>LIST\<close>s. A lookup returns a pointer to the first entry
  that matches; later writes through the pointer change that entry in place, and
  \<open>LIST_REMOVE\<close> unlinks it. In the model the list is a HOL list, a write through the pointer is
  \<open>map_first\<close> and an unlink is \<open>remove_first\<close>, both at the entry the lookup finds.
\<close>

fun remove_first :: "('a \<Rightarrow> bool) \<Rightarrow> 'a list \<Rightarrow> 'a list" where
  "remove_first P [] = []"
| "remove_first P (x # xs) = (if P x then xs else x # remove_first P xs)"

fun map_first :: "('a \<Rightarrow> bool) \<Rightarrow> ('a \<Rightarrow> 'a) \<Rightarrow> 'a list \<Rightarrow> 'a list" where
  "map_first P f [] = []"
| "map_first P f (x # xs) = (if P x then f x # xs else x # map_first P f xs)"

lemma find_SomeD: "find P xs = Some x \<Longrightarrow> x \<in> set xs \<and> P x"
  by (induction xs) (auto split: if_splits)

lemma set_map_first_sub: "set (map_first P f xs) \<subseteq> set xs \<union> f ` {x \<in> set xs. P x}"
  by (induction xs) auto

lemma set_remove_first_sub: "set (remove_first P xs) \<subseteq> set xs"
  by (induction xs) auto

lemma in_set_remove1D [dest]: "x \<in> set (remove1 e xs) \<Longrightarrow> x \<in> set xs"
  using set_remove1_subset by fast

lemma length_map_first [simp]: "length (map_first P f xs) = length xs"
  by (induction xs) auto

lemma remove_first_absent: "find P xs = None \<Longrightarrow> remove_first P xs = xs"
  by (induction xs) (auto split: if_splits)

lemma map_first_absent: "find P xs = None \<Longrightarrow> map_first P f xs = xs"
  by (induction xs) (auto split: if_splits)

lemma map_key_map_first:
  "(\<And>x. P x \<Longrightarrow> k (f x) = k x) \<Longrightarrow> map k (map_first P f xs) = map k xs"
  by (induction xs) auto

lemma distinct_map_remove_first: "distinct (map k xs) \<Longrightarrow> distinct (map k (remove_first P xs))"
  by (induction xs) (use set_remove_first_sub in \<open>fastforce+\<close>)

lemma find_key_map_first:
  assumes "\<And>x. P x \<Longrightarrow> k (f x) = k x" and "\<And>x. P x \<longleftrightarrow> k x = a"
  shows "find (\<lambda>x. k x = b) (map_first P f xs)
    = (if a = b then map_option f (find (\<lambda>x. k x = b) xs) else find (\<lambda>x. k x = b) xs)"
  using assms by (induction xs) auto

lemma find_key_None: "find (\<lambda>x. k x = a) xs = None \<longleftrightarrow> a \<notin> k ` set xs"
  by (induction xs) auto

lemma find_key_unique:
  "distinct (map k xs) \<Longrightarrow> x \<in> set xs \<Longrightarrow> find (\<lambda>y. k y = k x) xs = Some x"
  by (induction xs) (auto simp: image_iff)

lemma find_key_iff:
  "distinct (map k xs) \<Longrightarrow> find (\<lambda>x. k x = a) xs = Some x \<longleftrightarrow> x \<in> set xs \<and> k x = a"
  using find_key_unique [of k xs x] find_SomeD [of "\<lambda>x. k x = a" xs x] by auto

lemma find_key_perm:
  assumes "distinct (map k xs)" and "distinct (map k ys)" and "set xs = set ys"
  shows "find (\<lambda>x. k x = a) xs = find (\<lambda>x. k x = a) ys"
  using find_key_iff [OF assms(1), of a] find_key_iff [OF assms(2), of a] assms(3)
  by (metis option.exhaust)

lemma take_ballD: "\<forall>x \<in> set (take n xs). P x \<Longrightarrow> n \<le> length xs \<Longrightarrow> i < n \<Longrightarrow> P (xs ! i)"
  using nth_mem [of i "take n xs"] by simp

lemma remove_first_eq_remove1:
  "distinct (map k xs) \<Longrightarrow> e \<in> set xs \<Longrightarrow> remove_first (\<lambda>x. k x = k e) xs = remove1 e xs"
  by (induction xs) (auto simp: image_iff)

section \<open>Strictly ordered lists\<close>

text \<open>A list that is strictly ordered by an irreflexive transitive relation is determined by its set.\<close>

lemma sorted_wrt_unique:
  assumes "\<And>a b c. R a b \<Longrightarrow> R b c \<Longrightarrow> R a c" and "\<And>a. \<not> R a a"
    and "sorted_wrt R xs" and "sorted_wrt R ys" and "set xs = set ys"
  shows "xs = ys"
  using assms(3-5)
proof (induction xs arbitrary: ys)
  case Nil
  then show ?case by simp
next
  case (Cons x xs)
  then obtain y ys' where ys: "ys = y # ys'" by (cases ys) auto
  have "x = y"
  proof (rule ccontr)
    assume "x \<noteq> y"
    with Cons.prems ys have "x \<in> set ys'" and "y \<in> set xs" by auto
    with Cons.prems ys have "R y x" and "R x y" by auto
    then show False using assms(1,2) by blast
  qed
  moreover from this Cons.prems ys assms(2) have "x \<notin> set xs" and "x \<notin> set ys'" by auto
  with \<open>x = y\<close> Cons.prems(3) ys have "set xs = set ys'" by (metis insert_ident list.simps(15))
  ultimately show ?case using Cons.IH [of ys'] Cons.prems ys by simp
qed

lemma sorted_wrt_irrefl_distinct: "(\<And>a. \<not> R a a) \<Longrightarrow> sorted_wrt R xs \<Longrightarrow> distinct xs"
  by (induction xs) auto

lemma sorted_wrt_remove1: "sorted_wrt R xs \<Longrightarrow> sorted_wrt R (remove1 x xs)"
  by (induction xs) (use set_remove1_subset in fastforce)+

lemma map_remove1_inj:
  "inj_on f (set xs) \<Longrightarrow> x \<in> set xs \<Longrightarrow> map f (remove1 x xs) = remove1 (f x) (map f xs)"
  by (induction xs) (auto simp: inj_on_def)

section \<open>Machine integers\<close>

lemma word_inc_unat:
  assumes "x < y"
  shows "unat (x + 1 :: 'a::len word) = unat x + 1"
proof -
  have "unat y < 2 ^ LENGTH('a)" by (rule unsigned_less)
  moreover have "unat x < unat y" using assms by (simp add: word_less_nat_alt)
  ultimately have "unat x + 1 < 2 ^ LENGTH('a)" by linarith
  then show ?thesis by (simp add: unat_word_ariths(1))
qed

lemma u8_less_inc: "x < 255 \<Longrightarrow> (x :: u8) < x + 1"
  using word_inc_unat [of x 255] by (simp add: word_less_nat_alt)

lemma u32_less_inc: "x < 0xffffffff \<Longrightarrow> (x :: u32) < x + 1"
  using word_inc_unat [of x "0xffffffff"] by (simp add: word_less_nat_alt)

lemma word_mod_2 [simp]: "(x :: 'a::len word) mod 2 = 0 \<longleftrightarrow> even x"
  by (simp add: even_iff_mod_2_eq_zero)

end
