(* ===== verification/Sched.thy ===== *)
theory Sched
  imports NsPrelude
begin

text \<open>
  The discrete-event scheduler of \<open>common/scheduler.cc\<close>: events, the operations every queue
  discipline shares (\<open>schedule\<close>, \<open>dispatch\<close>, \<open>run\<close>, \<open>reset\<close>) and the interface
  \<open>event_queue\<close> that a discipline (list, heap, splay tree) has to satisfy. The theorems about
  \<open>run\<close> are proved once, from the interface.
\<close>

section \<open>Events\<close>

text \<open>
  An event is known by its \<open>uid_\<close> while it is queued (the scheduler hands out a fresh positive
  one); a dispatched or cancelled event has the negated uid. The link fields \<open>next_\<close> and
  \<open>prev_\<close> belong to the queue discipline and are not part of the record.
\<close>

record 'h event =
  ev_time :: time
  ev_uid :: int
  ev_handler :: 'h

text \<open>
  \<open>scheduler_uid_t\<close> is \<open>int64_t\<close>; the exhaustion test \<open>uid_ < 0\<close> relies on the
  increment wrapping round.
\<close>

definition wrap64 :: "int \<Rightarrow> int" where
  "wrap64 x = signed_take_bit 63 x"

definition uid_max :: int where
  "uid_max = 2 ^ 63 - 1"

record ('h, 'q) sched =
  clock :: time
  halted :: bool
  next_uid :: int
  queue :: 'q

section \<open>The operations shared by all disciplines\<close>

text \<open>\<open>SCHED_START\<close> is 0, the first uid is 1.\<close>

definition sched_init :: "'q \<Rightarrow> ('h, 'q) sched" where
  "sched_init q = \<lparr>clock = 0, halted = False, next_uid = 1, queue = q\<rparr>"

text \<open>
  \<open>Scheduler::schedule\<close>: a null handler, an event that is still queued and an exhausted uid
  space abort. A negative delay only prints a warning.
\<close>

definition schedule ::
  "('q \<Rightarrow> 'h event \<Rightarrow> 'q res) \<Rightarrow> ('h, 'q) sched \<Rightarrow> 'h option \<Rightarrow> 'h event \<Rightarrow> time \<Rightarrow> ('h, 'q) sched res"
where
  "schedule ins s h e delay =
     (case h of
        None \<Rightarrow> Inl Aborted
      | Some hnd \<Rightarrow>
          if ev_uid e > 0 then Inl Aborted
          else if next_uid s < 0 then Inl Aborted
          else
            (let e' = e\<lparr>ev_uid := next_uid s, ev_handler := hnd, ev_time := clock s + delay\<rparr>
             in bindR (ins (queue s) e')
                  (\<lambda>q'. Inr (s\<lparr>next_uid := wrap64 (next_uid s + 1), queue := q'\<rparr>))))"

text \<open>
  A handler is client code: it receives the clock and the event and asks the scheduler to
  schedule events, to cancel a queued event, or to halt. These requests are its only effect on
  the scheduler; its own state is \<open>'c\<close>.
\<close>

datatype 'h request = ReqSchedule 'h time | ReqCancel int | ReqHalt

text \<open>
  One request, as the code serves it: \<open>schedule\<close> on a fresh event (\<open>uid_ = 0\<close>),
  \<open>lookup\<close> followed by \<open>cancel\<close> when the event is found (the Tcl command
  \<open>cancel\<close>), \<open>halted_ = 1\<close>.
\<close>

definition serve ::
  "('q \<Rightarrow> 'h event \<Rightarrow> 'q res) \<Rightarrow> ('q \<Rightarrow> 'h event \<Rightarrow> ('q \<times> 'h event) res) \<Rightarrow> ('q \<Rightarrow> int \<Rightarrow> 'h event option)
   \<Rightarrow> 'h request \<Rightarrow> ('h, 'q) sched \<Rightarrow> ('h, 'q) sched res"
where
  "serve ins can look r s =
     (case r of
        ReqSchedule h delay \<Rightarrow> schedule ins s (Some h) \<lparr>ev_time = 0, ev_uid = 0, ev_handler = h\<rparr> delay
      | ReqCancel uid \<Rightarrow>
          (case look (queue s) uid of
             None \<Rightarrow> Inr s
           | Some e \<Rightarrow> bindR (can (queue s) e) (\<lambda>(q', e'). Inr (s\<lparr>queue := q'\<rparr>)))
      | ReqHalt \<Rightarrow> Inr (s\<lparr>halted := True\<rparr>))"

fun serve_all ::
  "('q \<Rightarrow> 'h event \<Rightarrow> 'q res) \<Rightarrow> ('q \<Rightarrow> 'h event \<Rightarrow> ('q \<times> 'h event) res) \<Rightarrow> ('q \<Rightarrow> int \<Rightarrow> 'h event option)
   \<Rightarrow> 'h request list \<Rightarrow> ('h, 'q) sched \<Rightarrow> ('h, 'q) sched res"
where
  "serve_all ins can look [] s = Inr s"
| "serve_all ins can look (r # rs) s = bindR (serve ins can look r s) (serve_all ins can look rs)"

text \<open>
  \<open>Scheduler::dispatch\<close>: going back in time aborts; otherwise the clock is set, the uid of the
  event is negated and its handler runs. The dispatched event is returned for the trace of a run.
\<close>

definition dispatch ::
  "('q \<Rightarrow> 'h event \<Rightarrow> 'q res) \<Rightarrow> ('q \<Rightarrow> 'h event \<Rightarrow> ('q \<times> 'h event) res) \<Rightarrow> ('q \<Rightarrow> int \<Rightarrow> 'h event option)
   \<Rightarrow> ('c \<Rightarrow> time \<Rightarrow> 'h event \<Rightarrow> 'c \<times> 'h request list)
   \<Rightarrow> 'c \<Rightarrow> ('h, 'q) sched \<Rightarrow> 'h event \<Rightarrow> time \<Rightarrow> ('c \<times> ('h, 'q) sched) res"
where
  "dispatch ins can look handle c s p t =
     (if t < clock s then Inl Aborted
      else
        (let s1 = s\<lparr>clock := t\<rparr>;
             (c', rs) = handle c t (p\<lparr>ev_uid := - ev_uid p\<rparr>)
         in bindR (serve_all ins can look rs s1) (\<lambda>s2. Inr (c', s2))))"

text \<open>
  \<open>Scheduler::run\<close>: dispatch until halted or out of events. The loop need not end, so the
  model has fuel; \<open>None\<close> means that the fuel ran out. The result carries the events
  dispatched, latest first.
\<close>

fun run ::
  "('q \<Rightarrow> 'h event \<Rightarrow> 'q res) \<Rightarrow> ('q \<Rightarrow> 'h event \<Rightarrow> ('q \<times> 'h event) res) \<Rightarrow> ('q \<Rightarrow> int \<Rightarrow> 'h event option)
   \<Rightarrow> ('q \<Rightarrow> ('h event \<times> 'q) option res) \<Rightarrow> ('c \<Rightarrow> time \<Rightarrow> 'h event \<Rightarrow> 'c \<times> 'h request list)
   \<Rightarrow> nat \<Rightarrow> 'h event list \<Rightarrow> 'c \<Rightarrow> ('h, 'q) sched
   \<Rightarrow> ('h event list \<times> 'c \<times> ('h, 'q) sched) res option"
where
  "run ins can look deq handle n tr c s =
     (if halted s then Some (Inr (tr, c, s))
      else
        (case deq (queue s) of
           Inl er \<Rightarrow> Some (Inl er)
         | Inr None \<Rightarrow> Some (Inr (tr, c, s))
         | Inr (Some (p, q')) \<Rightarrow>
             (case n of
                0 \<Rightarrow> None
              | Suc m \<Rightarrow>
                  (case dispatch ins can look handle c (s\<lparr>queue := q'\<rparr>) p (ev_time p) of
                     Inl e \<Rightarrow> Some (Inl e)
                   | Inr (c', s') \<Rightarrow> run ins can look deq handle m (p # tr) c' s'))))"

declare run.simps [simp del]

definition sched_reset :: "('h, 'q) sched \<Rightarrow> ('h, 'q) sched" where
  "sched_reset s = s\<lparr>clock := 0\<rparr>"

text \<open>
  The commands of the Tcl interface. \<open>at\<close> takes an absolute time, or with a negative
  argument a delay; \<open>at\<close> with one argument is treated as \<open>cancel\<close>. \<open>run\<close> and
  \<open>resume\<close> prepare the state for the loop. A reply is what the command leaves in the
  interpreter.
\<close>

datatype 'h command =
  CmdRun | CmdResume | CmdNow | CmdHalt | CmdIsRunning | CmdCancel int | CmdAt1 int
  | CmdAtNow 'h | CmdAt time 'h

datatype reply = Ok | RTime time | RBool bool | RUid int | RError

definition sched_command ::
  "('q \<Rightarrow> 'h event \<Rightarrow> 'q res) \<Rightarrow> ('q \<Rightarrow> 'h event \<Rightarrow> ('q \<times> 'h event) res) \<Rightarrow> ('q \<Rightarrow> int \<Rightarrow> 'h event option)
   \<Rightarrow> 'h command \<Rightarrow> ('h, 'q) sched \<Rightarrow> (('h, 'q) sched \<times> reply) res"
where
  "sched_command ins can look cmd s =
     (let sch = (\<lambda>h delay. bindR (serve ins can look (ReqSchedule h delay) s)
                   (\<lambda>s'. Inr (s', RUid (next_uid s))))
      in case cmd of
        CmdRun \<Rightarrow> Inr (sched_reset s, Ok)
      | CmdNow \<Rightarrow> Inr (s, RTime (clock s))
      | CmdResume \<Rightarrow> Inr (s\<lparr>halted := False\<rparr>, Ok)
      | CmdHalt \<Rightarrow> Inr (s\<lparr>halted := True\<rparr>, Ok)
      | CmdIsRunning \<Rightarrow> Inr (s, RBool (\<not> halted s))
      | CmdCancel u \<Rightarrow> bindR (serve ins can look (ReqCancel u) s) (\<lambda>s'. Inr (s', Ok))
      | CmdAt1 u \<Rightarrow> bindR (serve ins can look (ReqCancel u) s) (\<lambda>s'. Inr (s', Ok))
      | CmdAtNow h \<Rightarrow> sch h 0
      | CmdAt t h \<Rightarrow>
          (let delay = (if t < 0 then - t else t - clock s)
           in if delay < 0 then Inr (s, RError) else sch h delay))"

text \<open>\<open>dumpq\<close> empties the queue and prints the events; fuel as for \<open>run\<close>.\<close>

fun dumpq :: "('q \<Rightarrow> ('h event \<times> 'q) option res) \<Rightarrow> nat \<Rightarrow> 'q \<Rightarrow> ('h event list \<times> 'q) res option" where
  "dumpq deq n q =
     (case deq q of
        Inl er \<Rightarrow> Some (Inl er)
      | Inr None \<Rightarrow> Some (Inr ([], q))
      | Inr (Some (p, q')) \<Rightarrow>
          (case n of
             0 \<Rightarrow> None
           | Suc m \<Rightarrow> map_option (map_sum (\<lambda>e. e) (apfst (\<lambda>ps. p # ps))) (dumpq deq m q')))"

declare dumpq.simps [simp del]

section \<open>The abstract event list\<close>

text \<open>
  What a discipline promises: the queue stands for a list of events in dispatch order; an
  insertion goes after every event that is not later (first come, first served among equal
  times).
\<close>

fun ins_time :: "'h event \<Rightarrow> 'h event list \<Rightarrow> 'h event list" where
  "ins_time e [] = [e]"
| "ins_time e (x # xs) = (if ev_time e < ev_time x then e # x # xs else x # ins_time e xs)"

text \<open>Dispatch order: by time, and by uid where the times are equal.\<close>

definition ev_before :: "'h event \<Rightarrow> 'h event \<Rightarrow> bool" where
  "ev_before a b \<longleftrightarrow> ev_time a < ev_time b \<or> (ev_time a = ev_time b \<and> ev_uid a < ev_uid b)"

definition ev_sorted :: "'h event list \<Rightarrow> bool" where
  "ev_sorted xs \<longleftrightarrow> sorted_wrt ev_before xs"

lemma ev_before_trans: "ev_before a b \<Longrightarrow> ev_before b c \<Longrightarrow> ev_before a c"
  by (auto simp: ev_before_def)

lemma ev_before_irrefl [simp]: "\<not> ev_before a a"
  by (simp add: ev_before_def)

lemma set_ins_time [simp]: "set (ins_time e xs) = insert e (set xs)"
  by (induction xs) auto

lemma mset_ins_time: "mset (ins_time e xs) = add_mset e (mset xs)"
  by (induction xs) auto

lemma ev_sorted_Nil [simp]: "ev_sorted []"
  by (simp add: ev_sorted_def)

lemma ev_sorted_Cons [simp]:
  "ev_sorted (x # xs) \<longleftrightarrow> (\<forall>y \<in> set xs. ev_before x y) \<and> ev_sorted xs"
  by (simp add: ev_sorted_def)

lemma ev_sorted_ins_time:
  assumes "ev_sorted xs" and "\<forall>x \<in> set xs. ev_uid x < ev_uid e"
  shows "ev_sorted (ins_time e xs)"
  using assms
  by (induction xs) (auto simp: ev_before_def intro: order_less_trans)

lemma ev_sorted_remove_first: "ev_sorted xs \<Longrightarrow> ev_sorted (remove_first P xs)"
  by (induction xs) (use set_remove_first_sub in fastforce)+

lemma ev_sorted_distinct: "ev_sorted xs \<Longrightarrow> distinct xs"
  by (induction xs) auto

lemma ev_sorted_append:
  "ev_sorted (xs @ ys) \<longleftrightarrow>
     ev_sorted xs \<and> ev_sorted ys \<and> (\<forall>x \<in> set xs. \<forall>y \<in> set ys. ev_before x y)"
  by (simp add: ev_sorted_def sorted_wrt_append)

text \<open>Two event lists in dispatch order with the same events are equal.\<close>

lemma ev_sorted_unique:
  assumes "ev_sorted xs" and "ev_sorted ys" and "set xs = set ys"
  shows "xs = ys"
  using sorted_wrt_unique [of ev_before xs ys] assms ev_before_trans by (auto simp: ev_sorted_def)

section \<open>The interface of a queue discipline\<close>

text \<open>
  An insertion may abort, and so may taking the next event; under the contract neither does.
  \<open>room q n\<close> says that \<open>n\<close> more events can be inserted before an internal counter of the
  discipline wraps round; a discipline without such a counter always has room.
\<close>

locale event_queue =
  fixes ins :: "'q \<Rightarrow> 'h event \<Rightarrow> 'q res"
    and can :: "'q \<Rightarrow> 'h event \<Rightarrow> ('q \<times> 'h event) res"
    and look :: "'q \<Rightarrow> int \<Rightarrow> 'h event option"
    and deq :: "'q \<Rightarrow> ('h event \<times> 'q) option res"
    and invq :: "'q \<Rightarrow> bool"
    and room :: "'q \<Rightarrow> nat \<Rightarrow> bool"
    and absq :: "'q \<Rightarrow> 'h event list"
  assumes invq_sorted: "invq q \<Longrightarrow> ev_sorted (absq q) \<and> distinct (map ev_uid (absq q))"
    and room_mono: "room q n \<Longrightarrow> m \<le> n \<Longrightarrow> room q m"
    and ins_spec: "invq q \<Longrightarrow> room q (Suc n) \<Longrightarrow> \<forall>x \<in> set (absq q). ev_uid x < ev_uid e \<Longrightarrow> 0 \<le> ev_time e
      \<Longrightarrow> \<exists>q'. ins q e = Inr q' \<and> invq q' \<and> room q' n \<and> absq q' = ins_time e (absq q)"
    and deq_empty: "invq q \<Longrightarrow> absq q = [] \<Longrightarrow> deq q = Inr None"
    and deq_next: "invq q \<Longrightarrow> absq q = e # es
      \<Longrightarrow> \<exists>q'. deq q = Inr (Some (e, q')) \<and> invq q' \<and> absq q' = es \<and> (\<forall>n. room q n \<longrightarrow> room q' n)"
    and can_spec: "invq q \<Longrightarrow> e \<in> set (absq q) \<Longrightarrow> ev_uid e > 0
      \<Longrightarrow> \<exists>q'. can q e = Inr (q', e\<lparr>ev_uid := - ev_uid e\<rparr>) \<and> invq q'
              \<and> absq q' = remove1 e (absq q) \<and> (\<forall>n. room q n \<longrightarrow> room q' n)"
    and look_spec: "invq q \<Longrightarrow> look q u = find (\<lambda>e. ev_uid e = u) (absq q)"

section \<open>A scheduler in good order\<close>

text \<open>
  The queued uids lie between 1 and the next uid, no queued event is in the past, and there is
  room for \<open>n\<close> more events in the queue and in the uid space.
\<close>

definition sched_ok ::
  "('q \<Rightarrow> bool) \<Rightarrow> ('q \<Rightarrow> nat \<Rightarrow> bool) \<Rightarrow> ('q \<Rightarrow> 'h event list) \<Rightarrow> nat \<Rightarrow> ('h, 'q) sched \<Rightarrow> bool"
where
  "sched_ok invq room absq n s \<longleftrightarrow>
     invq (queue s) \<and> room (queue s) n \<and> 0 \<le> clock s \<and> 0 < next_uid s \<and> next_uid s + int n \<le> uid_max
     \<and> (\<forall>x \<in> set (absq (queue s)). 0 < ev_uid x \<and> ev_uid x < next_uid s \<and> clock s \<le> ev_time x)"

definition req_ok :: "'h request \<Rightarrow> bool" where
  "req_ok r = (case r of ReqSchedule h d \<Rightarrow> 0 \<le> d | _ \<Rightarrow> True)"

text \<open>A handler that makes at most \<open>k\<close> requests per event, none with a negative delay.\<close>

definition handler_ok :: "nat \<Rightarrow> ('c \<Rightarrow> time \<Rightarrow> 'h event \<Rightarrow> 'c \<times> 'h request list) \<Rightarrow> bool" where
  "handler_ok k handle \<longleftrightarrow>
     (\<forall>c t e. length (snd (handle c t e)) \<le> k \<and> list_all req_ok (snd (handle c t e)))"

text \<open>A trace, latest event first, whose times do not increase towards the past.\<close>

definition trace_ok :: "time \<Rightarrow> 'h event list \<Rightarrow> bool" where
  "trace_ok t tr \<longleftrightarrow> sorted_wrt (\<lambda>a b. ev_time b \<le> ev_time a) tr \<and> (\<forall>x \<in> set tr. ev_time x \<le> t)"

lemma wrap64_small: "0 \<le> x \<Longrightarrow> x \<le> uid_max \<Longrightarrow> wrap64 x = x"
  unfolding wrap64_def uid_max_def by (rule signed_take_bit_int_eq_self) auto

lemma wrap64_overflow: "wrap64 (uid_max + 1) = - (2 ^ 63)"
  by (simp add: wrap64_def uid_max_def signed_take_bit_def mask_eq_exp_minus_1 not_int_def)

context event_queue
begin

abbreviation ok :: "nat \<Rightarrow> ('h, 'q) sched \<Rightarrow> bool" where
  "ok \<equiv> sched_ok invq room absq"

lemma ok_mono: "ok n s \<Longrightarrow> m \<le> n \<Longrightarrow> ok m s"
  unfolding sched_ok_def using room_mono by fastforce

lemma deq_None: "invq q \<Longrightarrow> deq q = Inr None \<longleftrightarrow> absq q = []"
  using deq_empty deq_next by (cases "absq q") fastforce+

lemma deq_Some:
  assumes "invq q" and "deq q = Inr (Some (e, q'))"
  shows "invq q' \<and> absq q = e # absq q' \<and> (room q n \<longrightarrow> room q' n)"
  using assms deq_empty [OF assms(1)] deq_next [OF assms(1)] by (cases "absq q") fastforce+

lemma deq_cases:
  assumes "invq q"
  obtains "deq q = Inr None" "absq q = []"
  | p q' where "deq q = Inr (Some (p, q'))" "absq q = p # absq q'"
  using deq_empty [OF assms] deq_next [OF assms] by (cases "absq q") fastforce+

lemma ok_invq: "ok n s \<Longrightarrow> invq (queue s)"
  by (simp add: sched_ok_def)

lemma ok_deq_None: "ok n s \<Longrightarrow> deq (queue s) = Inr None \<longleftrightarrow> absq (queue s) = []"
  by (simp add: sched_ok_def deq_None)

lemma schedule_ok:
  assumes "ok (Suc n) s" and "ev_uid e \<le> 0" and "0 \<le> d"
  shows "\<exists>s' e'. schedule ins s (Some h) e d = Inr s' \<and> ok n s' \<and> clock s' = clock s
    \<and> halted s' = halted s
    \<and> e' = e\<lparr>ev_uid := next_uid s, ev_handler := h, ev_time := clock s + d\<rparr>
    \<and> absq (queue s') = ins_time e' (absq (queue s)) \<and> next_uid s' = next_uid s + 1"
proof -
  let ?e = "e\<lparr>ev_uid := next_uid s, ev_handler := h, ev_time := clock s + d\<rparr>"
  have fresh: "\<forall>x \<in> set (absq (queue s)). ev_uid x < ev_uid ?e" and t: "0 \<le> ev_time ?e"
    using assms(1,3) by (auto simp: sched_ok_def)
  from ins_spec [OF _ _ fresh t, of n] assms(1) obtain q'
    where "ins (queue s) ?e = Inr q'" "invq q'" "room q' n" "absq q' = ins_time ?e (absq (queue s))"
    by (auto simp: sched_ok_def)
  then show ?thesis
    using assms by (fastforce simp: schedule_def sched_ok_def wrap64_small Let_def)
qed

lemma cancel_ok:
  assumes "ok n s" and "e \<in> set (absq (queue s))"
  shows "\<exists>q'. can (queue s) e = Inr (q', e\<lparr>ev_uid := - ev_uid e\<rparr>) \<and> ok n (s\<lparr>queue := q'\<rparr>)
    \<and> absq q' = remove1 e (absq (queue s))"
proof -
  from assms have "ev_uid e > 0" and "invq (queue s)" by (auto simp: sched_ok_def)
  moreover have "\<forall>x \<in> set (remove1 e (absq (queue s))).
      0 < ev_uid x \<and> ev_uid x < next_uid s \<and> clock s \<le> ev_time x"
    using assms(1) set_remove1_subset [of e "absq (queue s)"] by (fastforce simp: sched_ok_def)
  ultimately show ?thesis
    using can_spec [OF _ assms(2)] assms(1) by (fastforce simp: sched_ok_def)
qed

lemma serve_ok:
  assumes "ok (Suc n) s" and "req_ok r"
  shows "\<exists>s'. serve ins can look r s = Inr s' \<and> ok n s' \<and> clock s' = clock s"
proof (cases r)
  case (ReqSchedule h d)
  then show ?thesis
    using schedule_ok [OF assms(1), of "\<lparr>ev_time = 0, ev_uid = 0, ev_handler = h\<rparr>" d h] assms(2)
    by (auto simp: serve_def req_ok_def)
next
  case (ReqCancel u)
  show ?thesis
  proof (cases "look (queue s) u")
    case None
    with ReqCancel show ?thesis using ok_mono [OF assms(1)] by (auto simp: serve_def)
  next
    case (Some e)
    with assms(1) have "e \<in> set (absq (queue s))"
      by (auto simp: look_spec sched_ok_def dest: find_SomeD)
    from cancel_ok [OF ok_mono [OF assms(1), of n] this] ReqCancel Some
    show ?thesis by (auto simp: serve_def)
  qed
next
  case ReqHalt
  then show ?thesis using ok_mono [OF assms(1), of n] by (auto simp: serve_def sched_ok_def)
qed

lemma serve_all_ok:
  "ok (length rs + n) s \<Longrightarrow> list_all req_ok rs
   \<Longrightarrow> \<exists>s'. serve_all ins can look rs s = Inr s' \<and> ok n s' \<and> clock s' = clock s"
proof (induction rs arbitrary: s)
  case Nil
  then show ?case by simp
next
  case (Cons r rs)
  from serve_ok [of "length rs + n" s r] Cons.prems obtain s1
    where "serve ins can look r s = Inr s1" and "ok (length rs + n) s1" and "clock s1 = clock s"
    by auto
  with Cons.IH [of s1] Cons.prems show ?case by auto
qed

text \<open>Taking the next event keeps the order: no event left is earlier than the clock it sets.\<close>

lemma deq_ok:
  assumes "ok n s" and "deq (queue s) = Inr (Some (p, q'))"
  shows "clock s \<le> ev_time p \<and> ok n (s\<lparr>queue := q', clock := ev_time p\<rparr>)
    \<and> absq (queue s) = p # absq q'"
proof -
  from deq_Some [OF _ assms(2), of n] assms(1)
  have q': "invq q'" "room q' n" "absq (queue s) = p # absq q'"
    by (auto simp: sched_ok_def)
  moreover from invq_sorted assms(1) q'(3) have "\<forall>x \<in> set (absq q'). ev_before p x"
    by (fastforce simp: sched_ok_def)
  then have "\<forall>x \<in> set (absq q'). ev_time p \<le> ev_time x" by (auto simp: ev_before_def)
  ultimately show ?thesis using assms(1) by (auto simp: sched_ok_def)
qed

lemma dispatch_ok:
  assumes "ok (k + n) s" and "deq (queue s) = Inr (Some (p, q'))"
    and "handler_ok k handle"
  shows "\<exists>c' s'. dispatch ins can look handle c (s\<lparr>queue := q'\<rparr>) p (ev_time p) = Inr (c', s')
    \<and> ok n s' \<and> clock s' = ev_time p"
proof -
  obtain c' rs where h: "handle c (ev_time p) (p\<lparr>ev_uid := - ev_uid p\<rparr>) = (c', rs)"
    by (cases "handle c (ev_time p) (p\<lparr>ev_uid := - ev_uid p\<rparr>)")
  let ?s1 = "s\<lparr>queue := q', clock := ev_time p\<rparr>"
  from deq_ok [OF assms(1,2)] have le: "clock s \<le> ev_time p" and "ok (k + n) ?s1" by auto
  moreover from assms(3) h have "length rs \<le> k" and rs: "list_all req_ok rs"
    unfolding handler_ok_def by (metis snd_conv)+
  ultimately have "ok (length rs + n) ?s1" by (auto intro: ok_mono)
  from serve_all_ok [OF this rs] le h show ?thesis by (auto simp: dispatch_def)
qed

text \<open>
  A run under handlers that make at most \<open>k\<close> requests, none with a negative delay: it never
  aborts, the clock never goes back, the events are dispatched in the order of their times, and
  it stops only when halted or out of events.
\<close>

lemma run_ok:
  assumes "ok (n * k) s" and "trace_ok (clock s) tr"
    and h: "handler_ok k handle"
    and "run ins can look deq handle n tr c s = Some r"
  shows "succeeds (\<lambda>(tr', c', s'). trace_ok (clock s') tr' \<and> clock s \<le> clock s'
    \<and> (halted s' \<or> absq (queue s') = [])) r"
  using assms(1,2,4)
proof (induction n arbitrary: tr c s)
  case 0
  from 0(3) 0(2) show ?case
    by (rule_tac deq_cases [OF ok_invq [OF 0(1)]]) (subst (asm) (1) run.simps, auto split: if_splits)+
next
  case (Suc n)
  show ?case
  proof (cases "halted s \<or> deq (queue s) = Inr None")
    case True
    with Suc.prems(2,3) ok_deq_None [OF Suc.prems(1)] show ?thesis
      by (subst (asm) run.simps) (auto split: if_splits)
  next
    case False
    then obtain p q' where d: "deq (queue s) = Inr (Some (p, q'))" and "\<not> halted s"
      using deq_cases [OF ok_invq [OF Suc.prems(1)]] by metis
    from Suc.prems(1) have "ok (k + n * k) s" by simp
    from dispatch_ok [OF this d h] obtain c' s'
      where s': "dispatch ins can look handle c (s\<lparr>queue := q'\<rparr>) p (ev_time p) = Inr (c', s')"
        "ok (n * k) s'" "clock s' = ev_time p" by blast
    from Suc.prems(3) d s'(1) \<open>\<not> halted s\<close>
    have run: "run ins can look deq handle n (p # tr) c' s' = Some r"
      by (subst (asm) run.simps) simp
    from deq_ok [OF Suc.prems(1) d] have le: "clock s \<le> ev_time p" by simp
    with Suc.prems(2) s'(3) have "trace_ok (clock s') (p # tr)"
      by (fastforce simp: trace_ok_def)
    from Suc.IH [OF s'(2) this run] le s'(3) show ?thesis
      by (auto simp: succeeds_iff)
  qed
qed

text \<open>Without requests the queue is drained, in dispatch order, in as many rounds as it has events.\<close>

lemma run_drains:
  assumes "ok 0 s" and "\<not> halted s" and "length (absq (queue s)) \<le> n"
    and h: "\<And>c t e. handle c t e = (c, [])"
  shows "\<exists>s'. run ins can look deq handle n tr c s = Some (Inr (rev (absq (queue s)) @ tr, c, s'))
    \<and> absq (queue s') = []"
  using assms(1-3)
proof (induction n arbitrary: tr s)
  case 0
  with ok_deq_None [OF 0(1)] show ?case by (subst run.simps) auto
next
  case (Suc n)
  show ?case
  proof (rule deq_cases [OF ok_invq [OF Suc.prems(1)]])
    assume "deq (queue s) = Inr None" "absq (queue s) = []"
    with Suc.prems show ?thesis by (subst run.simps) auto
  next
    fix p q' assume d: "deq (queue s) = Inr (Some (p, q'))" and a: "absq (queue s) = p # absq q'"
    let ?s = "s\<lparr>queue := q', clock := ev_time p\<rparr>"
    from deq_ok [OF Suc.prems(1) d] have le: "clock s \<le> ev_time p" and ok: "ok 0 ?s" by auto
    have "dispatch ins can look handle c (s\<lparr>queue := q'\<rparr>) p (ev_time p) = Inr (c, ?s)"
      using le by (simp add: dispatch_def h)
    with Suc.IH [OF ok] Suc.prems a d show ?thesis by (subst run.simps) auto
  qed
qed

text \<open>Every command of the interface keeps a scheduler in good order.\<close>

lemma command_ok:
  assumes "ok (Suc n) s" and "cmd = CmdRun \<Longrightarrow> absq (queue s) = []"
  shows "\<exists>s' r. sched_command ins can look cmd s = Inr (s', r) \<and> ok n s'
    \<and> (clock s' = clock s \<or> cmd = CmdRun)"
proof -
  have n: "ok n s" using ok_mono [OF assms(1)] by simp
  have sv: "req_ok r \<Longrightarrow> \<exists>s'. serve ins can look r s = Inr s' \<and> ok n s' \<and> clock s' = clock s" for r
    by (rule serve_ok [OF assms(1)])
  have at: "0 \<le> d \<Longrightarrow> \<exists>s'. serve ins can look (ReqSchedule h d) s = Inr s' \<and> ok n s' \<and> clock s' = clock s" for h d
    by (rule sv) (simp add: req_ok_def)
  have ca: "\<exists>s'. serve ins can look (ReqCancel u) s = Inr s' \<and> ok n s' \<and> clock s' = clock s" for u
    by (rule sv) (simp add: req_ok_def)
  show ?thesis
  proof (cases cmd)
    case (CmdAt t h)
    then show ?thesis
      using n at [of "if t < 0 then - t else t - clock s" h] by (auto simp: sched_command_def Let_def)
  next
    case CmdRun
    then show ?thesis
      using n assms(2) by (auto simp: sched_command_def sched_reset_def sched_ok_def)
  next
    case (CmdAtNow h)
    then show ?thesis using at [of 0 h] by (auto simp: sched_command_def)
  next
    case (CmdCancel u)
    then show ?thesis using ca [of u] by (auto simp: sched_command_def)
  next
    case (CmdAt1 u)
    then show ?thesis using ca [of u] by (auto simp: sched_command_def)
  qed (use n in \<open>auto simp: sched_command_def sched_ok_def\<close>)
qed

lemma dumpq_sorted:
  "invq q \<Longrightarrow> length (absq q) \<le> n
   \<Longrightarrow> \<exists>q'. dumpq deq n q = Some (Inr (absq q, q')) \<and> invq q' \<and> absq q' = []"
proof (induction n arbitrary: q)
  case 0
  with deq_empty [OF 0(1)] show ?case by (subst dumpq.simps) auto
next
  case (Suc n)
  show ?case
  proof (rule deq_cases [OF Suc.prems(1)])
    assume "deq q = Inr None" "absq q = []"
    with Suc.prems show ?thesis by (subst dumpq.simps) auto
  next
    fix p q' assume d: "deq q = Inr (Some (p, q'))" and a: "absq q = p # absq q'"
    from deq_Some [OF Suc.prems(1) d] have "invq q'" by simp
    with Suc.IH [OF this] Suc.prems(2) d a show ?thesis by (subst dumpq.simps) auto
  qed
qed

text \<open>A queue with one fresh event, as the examples use it.\<close>

lemma ok_single:
  assumes "invq q" and "room q (Suc n)" and "absq q = []" and "0 < ev_uid e" and "0 \<le> ev_time e"
    and "ev_uid e + 1 + int n \<le> uid_max"
  obtains q' where "ins q e = Inr q'" "ok n ((sched_init q')\<lparr>next_uid := ev_uid e + 1\<rparr>)"
proof -
  from ins_spec [OF assms(1,2) _ assms(5)] assms(3) obtain q'
    where "ins q e = Inr q'" "invq q'" "room q' n" "absq q' = [e]" by auto
  with assms that show ?thesis by (auto simp: sched_ok_def sched_init_def)
qed

end

section \<open>Disciplines that cannot abort\<close>

text \<open>The operations of a discipline without assertions, as the interface wants them.\<close>

definition sure_ins :: "('q \<Rightarrow> 'h event \<Rightarrow> 'q) \<Rightarrow> 'q \<Rightarrow> 'h event \<Rightarrow> 'q res" where
  "sure_ins f q e = Inr (f q e)"

definition sure_deq :: "('q \<Rightarrow> ('h event \<times> 'q) option) \<Rightarrow> 'q \<Rightarrow> ('h event \<times> 'q) option res" where
  "sure_deq f q = Inr (f q)"

lemma sure_eqs [simp]:
  "sure_ins f q e = Inr q' \<longleftrightarrow> f q e = q'" "sure_deq g q = Inr x \<longleftrightarrow> g q = x"
  "bindR (sure_ins f q e) h = h (f q e)" "case_sum a b (sure_deq g q) = b (g q)"
  by (auto simp: sure_ins_def sure_deq_def)

end
