(* ===== verification/SchedList.thy ===== *)
theory SchedList
  imports Sched
begin

text \<open>
  \<open>ListScheduler\<close> of \<open>common/scheduler.cc\<close>: the queue is a singly linked list in dispatch
  order. It is the simplest discipline and serves as the reference: every discipline that
  satisfies \<open>event_queue\<close> dispatches exactly the events the list scheduler dispatches, in the
  same order (\<open>run_refines\<close>).
\<close>

section \<open>The operations of ListScheduler\<close>

text \<open>\<open>insert\<close> walks to the first event that is later and links the new one before it.\<close>

fun list_insert :: "'h event list \<Rightarrow> 'h event \<Rightarrow> 'h event list" where
  "list_insert [] e = [e]"
| "list_insert (x # xs) e = (if ev_time e < ev_time x then e # x # xs else x # list_insert xs e)"

text \<open>
  \<open>cancel\<close> returns at once for an event that is not queued (\<open>uid_ <= 0\<close>), aborts when the
  walk reaches the end, and otherwise unlinks the event and negates its uid. The pointer
  comparison is a comparison of uids.
\<close>

fun list_unlink :: "'h event list \<Rightarrow> 'h event \<Rightarrow> 'h event list res" where
  "list_unlink [] e = Inl Aborted"
| "list_unlink (x # xs) e =
     (if ev_uid x = ev_uid e then Inr xs else bindR (list_unlink xs e) (\<lambda>xs'. Inr (x # xs')))"

definition list_cancel :: "'h event list \<Rightarrow> 'h event \<Rightarrow> ('h event list \<times> 'h event) res" where
  "list_cancel q e =
     (if ev_uid e \<le> 0 then Inr (q, e)
      else bindR (list_unlink q e) (\<lambda>q'. Inr (q', e\<lparr>ev_uid := - ev_uid e\<rparr>)))"

fun list_lookup :: "'h event list \<Rightarrow> int \<Rightarrow> 'h event option" where
  "list_lookup [] u = None"
| "list_lookup (x # xs) u = (if ev_uid x = u then Some x else list_lookup xs u)"

definition list_deque :: "'h event list \<Rightarrow> ('h event \<times> 'h event list) option" where
  "list_deque q = (case q of [] \<Rightarrow> None | e # q' \<Rightarrow> Some (e, q'))"

definition list_head :: "'h event list \<Rightarrow> 'h event option" where
  "list_head q = (case q of [] \<Rightarrow> None | e # q' \<Rightarrow> Some e)"

section \<open>ListScheduler satisfies the interface\<close>

definition list_inv :: "'h event list \<Rightarrow> bool" where
  "list_inv q \<longleftrightarrow> ev_sorted q \<and> distinct (map ev_uid q)"

definition always_room :: "'q \<Rightarrow> nat \<Rightarrow> bool" where
  "always_room q n \<longleftrightarrow> True"

lemma always_room [simp]: "always_room q n"
  by (simp add: always_room_def)

lemma list_insert_eq: "list_insert q e = ins_time e q"
  by (induction q) auto

lemma list_lookup_eq: "list_lookup q u = find (\<lambda>e. ev_uid e = u) q"
  by (induction q) auto

lemma list_unlink_eq:
  "list_unlink q e = (if ev_uid e \<in> ev_uid ` set q
     then Inr (remove_first (\<lambda>x. ev_uid x = ev_uid e) q) else Inl Aborted)"
  by (induction q) auto

lemma distinct_uid_ins_time:
  assumes "distinct (map ev_uid q)" and "\<forall>x \<in> set q. ev_uid x < ev_uid e"
  shows "distinct (map ev_uid (ins_time e q))"
proof -
  have "distinct (map ev_uid (e # q))" using assms by auto
  moreover have "mset (map ev_uid (ins_time e q)) = mset (map ev_uid (e # q))"
    by (simp add: mset_ins_time)
  ultimately show ?thesis by (metis distinct_count_atmost_1 set_mset_mset)
qed

interpretation lq: event_queue "sure_ins list_insert" list_cancel list_lookup "sure_deq list_deque" list_inv always_room "\<lambda>q. q"
proof (standard, goal_cases)
  case (3 q n e)
  then show ?case
    by (simp add: list_insert_eq list_inv_def ev_sorted_ins_time distinct_uid_ins_time)
next
  case (5 q e es)
  then show ?case by (auto simp: list_deque_def list_inv_def)
next
  case (6 q e)
  then have eq: "remove_first (\<lambda>x. ev_uid x = ev_uid e) q = remove1 e q"
    by (simp add: list_inv_def remove_first_eq_remove1)
  from 6 have "list_inv (remove_first (\<lambda>x. ev_uid x = ev_uid e) q)"
    by (simp add: list_inv_def ev_sorted_remove_first distinct_map_remove_first)
  with 6 eq show ?case by (auto simp: list_cancel_def list_unlink_eq)
qed (auto simp: list_inv_def list_deque_def list_lookup_eq split: list.splits)

section \<open>Every discipline refines the list scheduler\<close>

definition abs_sched :: "('q \<Rightarrow> 'h event list) \<Rightarrow> ('h, 'q) sched \<Rightarrow> ('h, 'h event list) sched" where
  "abs_sched absq s =
     \<lparr>clock = clock s, halted = halted s, next_uid = next_uid s, queue = absq (queue s)\<rparr>"

lemma abs_sched_simps [simp]:
  "clock (abs_sched absq s) = clock s" "halted (abs_sched absq s) = halted s"
  "next_uid (abs_sched absq s) = next_uid s" "queue (abs_sched absq s) = absq (queue s)"
  by (simp_all add: abs_sched_def)

definition abs_run ::
  "('q \<Rightarrow> 'h event list) \<Rightarrow> ('h event list \<times> 'c \<times> ('h, 'q) sched) res option
   \<Rightarrow> ('h event list \<times> 'c \<times> ('h, 'h event list) sched) res option"
where
  "abs_run absq r = map_option (map_sum (\<lambda>e. e) (\<lambda>(tr, c, s). (tr, c, abs_sched absq s))) r"

abbreviation list_run ::
  "('c \<Rightarrow> time \<Rightarrow> 'h event \<Rightarrow> 'c \<times> 'h request list) \<Rightarrow> nat \<Rightarrow> 'h event list \<Rightarrow> 'c
   \<Rightarrow> ('h, 'h event list) sched \<Rightarrow> ('h event list \<times> 'c \<times> ('h, 'h event list) sched) res option"
where
  "list_run \<equiv> run (sure_ins list_insert) list_cancel list_lookup (sure_deq list_deque)"

context event_queue
begin

abbreviation absS :: "('h, 'q) sched \<Rightarrow> ('h, 'h event list) sched" where
  "absS \<equiv> abs_sched absq"

lemma serve_refines:
  assumes "ok (Suc n) s" and "req_ok r"
  shows "map_sum (\<lambda>e. e) absS (serve ins can look r s)
    = serve (sure_ins list_insert) list_cancel list_lookup r (absS s)"
proof (cases r)
  case (ReqSchedule h d)
  with schedule_ok [OF assms(1), of "\<lparr>ev_time = 0, ev_uid = 0, ev_handler = h\<rparr>" d h] assms
  show ?thesis
    by (auto simp: serve_def req_ok_def schedule_def abs_sched_def list_insert_eq Let_def bindR_eq_Inr
        split: if_splits)
next
  case (ReqCancel u)
  have inv: "invq (queue s)" using assms(1) by (simp add: sched_ok_def)
  then have look: "look (queue s) u = list_lookup (absq (queue s)) u"
    by (simp add: look_spec list_lookup_eq)
  show ?thesis
  proof (cases "look (queue s) u")
    case None
    with ReqCancel look show ?thesis by (auto simp: serve_def)
  next
    case (Some e)
    with inv have e: "e \<in> set (absq (queue s))" by (auto simp: look_spec dest: find_SomeD)
    with assms(1) have pos: "0 < ev_uid e" by (auto simp: sched_ok_def)
    have linv: "list_inv (absq (queue s))"
      using invq_sorted inv by (simp add: list_inv_def)
    from cancel_ok [OF ok_mono [OF assms(1), of n] e] lq.can_spec [OF linv e pos] ReqCancel Some look
    show ?thesis by (auto simp: serve_def abs_sched_def)
  qed
next
  case ReqHalt
  then show ?thesis by (simp add: serve_def abs_sched_def)
qed

lemma serve_all_refines:
  "ok (length rs + n) s \<Longrightarrow> list_all req_ok rs
   \<Longrightarrow> map_sum (\<lambda>e. e) absS (serve_all ins can look rs s)
     = serve_all (sure_ins list_insert) list_cancel list_lookup rs (absS s)"
proof (induction rs arbitrary: s)
  case Nil
  then show ?case by simp
next
  case (Cons r rs)
  from serve_ok [of "length rs + n" s r] Cons.prems obtain s1
    where s1: "serve ins can look r s = Inr s1" "ok (length rs + n) s1"
    by auto
  with serve_refines [of "length rs + n" s r] Cons.prems
  have "serve (sure_ins list_insert) list_cancel list_lookup r (absS s) = Inr (absS s1)"
    by (metis Suc_eq_plus1 add.commute add_Suc length_Cons list.pred_inject(2) map_sum.simps(2))
  with Cons.IH [OF s1(2)] Cons.prems(2) s1(1) show ?case by simp
qed

lemma deq_refines:
  "invq q \<Longrightarrow> map_sum (\<lambda>e. e) (map_option (apsnd absq)) (deq q) = sure_deq list_deque (absq q)"
  by (erule deq_cases) (auto simp: list_deque_def sure_deq_def)

lemma dispatch_refines:
  assumes "ok (k + n) s" and "deq (queue s) = Inr (Some (p, q'))" and "handler_ok k handle"
  shows "map_sum (\<lambda>e. e) (apsnd absS) (dispatch ins can look handle c (s\<lparr>queue := q'\<rparr>) p (ev_time p))
    = dispatch (sure_ins list_insert) list_cancel list_lookup handle c (absS (s\<lparr>queue := q'\<rparr>)) p (ev_time p)"
proof -
  obtain c' rs where h: "handle c (ev_time p) (p\<lparr>ev_uid := - ev_uid p\<rparr>) = (c', rs)"
    by (cases "handle c (ev_time p) (p\<lparr>ev_uid := - ev_uid p\<rparr>)")
  let ?s1 = "s\<lparr>queue := q', clock := ev_time p\<rparr>"
  from assms(3) h have "length rs \<le> k" and rs: "list_all req_ok rs"
    unfolding handler_ok_def by (metis snd_conv)+
  with deq_ok [OF assms(1,2)] have "ok (length rs + n) ?s1" by (auto intro: ok_mono)
  from serve_all_refines [OF this rs, symmetric] h
  show ?thesis
    by (cases "serve_all ins can look rs ?s1") (auto simp: dispatch_def abs_sched_def)
qed

lemma run_refines:
  assumes "ok (n * k) s" and h: "handler_ok k handle"
  shows "abs_run absq (run ins can look deq handle n tr c s) = list_run handle n tr c (absS s)"
  using assms(1)
proof (induction n arbitrary: tr c s)
  case 0
  show ?case
    by (rule deq_cases [OF ok_invq [OF 0]]; subst (1 2) run.simps) (auto simp: abs_run_def list_deque_def sure_deq_def)
next
  case (Suc n)
  then have ok: "ok (k + n * k) s" by simp
  show ?case
  proof (cases "halted s \<or> deq (queue s) = Inr None")
    case True
    with deq_refines [OF ok_invq [OF ok]] show ?thesis
      by (subst (1 2) run.simps) (auto simp: abs_run_def sure_deq_def)
  next
    case False
    then obtain p q' where d: "deq (queue s) = Inr (Some (p, q'))" and "\<not> halted s"
      using deq_cases [OF ok_invq [OF ok]] by metis
    from dispatch_ok [OF ok d h] obtain c' s'
      where s': "dispatch ins can look handle c (s\<lparr>queue := q'\<rparr>) p (ev_time p) = Inr (c', s')"
        "ok (n * k) s'" by blast
    from dispatch_refines [OF ok d h, of c] s'(1)
    have "dispatch (sure_ins list_insert) list_cancel list_lookup handle c (absS (s\<lparr>queue := q'\<rparr>)) p (ev_time p)
      = Inr (c', absS s')" by simp
    moreover have "absS (s\<lparr>queue := q'\<rparr>) = (absS s)\<lparr>queue := absq q'\<rparr>"
      by (simp add: abs_sched_def)
    moreover from deq_refines [OF ok_invq [OF ok]] d
    have "list_deque (absq (queue s)) = Some (p, absq q')" by (simp add: sure_deq_def)
    ultimately show ?thesis
      using Suc.IH [OF s'(2)] d s'(1) \<open>\<not> halted s\<close> by (subst (1 2) run.simps) simp
  qed
qed

end

end
