(* ===== verification/SchedHeap.thy ===== *)
theory SchedHeap
  imports SchedList
begin

text \<open>
  \<open>Heap\<close> (\<open>common/heap.h\<close> and \<open>common/scheduler.cc\<close>) and \<open>HeapScheduler\<close>: a binary heap
  in an array. A secondary key, counted up at every insertion, makes events with equal times
  leave in the order of their insertion.
\<close>

section \<open>The heap\<close>

text \<open>
  \<open>h_elems\<close> is the allocated array, of length \<open>h_maxsize\<close>; only its first \<open>h_size\<close>
  cells are in use. A null element pointer is \<open>None\<close>. The secondary key is an
  \<open>unsigned int\<close>.
\<close>

record 'e heap_elem =
  he_key :: time
  he_s_key :: u32
  he_elem :: "'e option"

record 'e heap =
  h_elems :: "'e heap_elem list"
  h_s_key :: u32
  h_size :: nat
  h_maxsize :: nat
  h_iter :: nat

definition he_zero :: "'e heap_elem" where
  "he_zero = \<lparr>he_key = 0, he_s_key = 0, he_elem = None\<rparr>"

definition heap_new :: "nat \<Rightarrow> 'e heap" where
  "heap_new sz = \<lparr>h_elems = replicate sz he_zero, h_s_key = 0, h_size = 0,
     h_maxsize = sz, h_iter = 0\<rparr>"

definition parent :: "nat \<Rightarrow> nat" where
  "parent i = (i - 1) div 2"

definition left :: "nat \<Rightarrow> nat" where
  "left i = i * 2 + 1"

definition right :: "nat \<Rightarrow> nat" where
  "right i = (i + 1) * 2"

definition h_swap :: "'a list \<Rightarrow> nat \<Rightarrow> nat \<Rightarrow> 'a list" where
  "h_swap xs i j = (let he = xs ! i; xs1 = xs[i := xs ! j] in xs1[j := he])"

definition key_less_than :: "time \<Rightarrow> u32 \<Rightarrow> time \<Rightarrow> u32 \<Rightarrow> bool" where
  "key_less_than k1 ks1 k2 ks2 \<longleftrightarrow> k1 < k2 \<or> (k1 = k2 \<and> ks1 < ks2)"

text \<open>\<open>heap_member\<close>: one more than the index of the element, or 0.\<close>

function member_loop :: "'e heap_elem list \<Rightarrow> nat \<Rightarrow> 'e \<Rightarrow> nat \<Rightarrow> nat" where
  "member_loop xs n e i =
     (if i < n then (if he_elem (xs ! i) = Some e then Suc i else member_loop xs n e (Suc i)) else 0)"
  by pat_completeness auto
termination by (relation "measure (\<lambda>(xs, n, e, i). n - i)") auto

declare member_loop.simps [simp del]

definition heap_member :: "'e heap \<Rightarrow> 'e \<Rightarrow> nat" where
  "heap_member h e = member_loop (h_elems h) (h_size h) e 0"

text \<open>The loop of \<open>heap_insert\<close>: parents that are later move down; the result has the free cell.\<close>

function sift_up :: "'e heap_elem list \<Rightarrow> time \<Rightarrow> u32 \<Rightarrow> nat \<Rightarrow> 'e heap_elem list \<times> nat" where
  "sift_up xs key ks i =
     (if 0 < i \<and> key_less_than key ks (he_key (xs ! parent i)) (he_s_key (xs ! parent i))
      then sift_up (xs[i := xs ! parent i]) key ks (parent i)
      else (xs, i))"
  by pat_completeness auto
termination by (relation "measure (\<lambda>(xs, key, ks, i). i)") (auto simp: parent_def)

declare sift_up.simps [simp del]

text \<open>A full array is copied into one of twice the size, whose new cells are not initialised.\<close>

definition heap_grow :: "'e heap \<Rightarrow> 'e heap" where
  "heap_grow h =
     (if h_maxsize h = h_size h
      then h\<lparr>h_maxsize := h_maxsize h * 2, h_elems := h_elems h @ replicate (h_maxsize h) he_zero\<rparr>
      else h)"

definition heap_insert :: "'e heap \<Rightarrow> time \<Rightarrow> 'e \<Rightarrow> 'e heap" where
  "heap_insert h0 key e =
     (let h = heap_grow h0;
          (xs, i) = sift_up (h_elems h) key (h_s_key h) (h_size h)
      in h\<lparr>h_elems := xs[i := \<lparr>he_key = key, he_s_key = h_s_key h, he_elem = Some e\<rparr>],
           h_s_key := h_s_key h + 1, h_size := h_size h + 1\<rparr>)"

text \<open>The loop of \<open>heap_extract_min\<close>: the smaller child moves up until the order holds again.\<close>

definition smaller_child :: "'e heap_elem list \<Rightarrow> nat \<Rightarrow> nat \<Rightarrow> nat" where
  "smaller_child xs n i =
     (if right i < n
      then (if key_less_than (he_key (xs ! left i)) (he_s_key (xs ! left i))
                (he_key (xs ! right i)) (he_s_key (xs ! right i))
            then left i else right i)
      else (if left i < n then left i else i))"

function heapify :: "'e heap_elem list \<Rightarrow> nat \<Rightarrow> nat \<Rightarrow> 'e heap_elem list" where
  "heapify xs n i =
     (if i < n
      then (let x = smaller_child xs n i
            in if x \<noteq> i \<and> key_less_than (he_key (xs ! x)) (he_s_key (xs ! x))
                    (he_key (xs ! i)) (he_s_key (xs ! i))
               then heapify (h_swap xs i x) n x
               else xs)
      else xs)"
  by pat_completeness auto
termination
  by (relation "measure (\<lambda>(xs, n, i). n - i)")
     (auto simp: smaller_child_def left_def right_def split: if_splits)

declare heapify.simps [simp del]

definition heap_extract_min :: "'e heap \<Rightarrow> 'e option \<times> 'e heap" where
  "heap_extract_min h =
     (if h_size h = 0 then (None, h)
      else
        (let n = h_size h - 1;
             xs = (h_elems h)[0 := h_elems h ! n]
         in (he_elem (h_elems h ! 0), h\<lparr>h_elems := heapify xs n 0, h_size := n\<rparr>)))"

text \<open>\<open>heap_delete\<close>: the element is swapped up to the root and extracted.\<close>

function to_root :: "'a list \<Rightarrow> nat \<Rightarrow> 'a list" where
  "to_root xs i = (if i = 0 then xs else to_root (h_swap xs i (parent i)) (parent i))"
  by pat_completeness auto
termination by (relation "measure (\<lambda>(xs, i). i)") (auto simp: parent_def)

declare to_root.simps [simp del]

definition heap_delete :: "'e heap \<Rightarrow> 'e \<Rightarrow> nat \<times> 'e heap" where
  "heap_delete h e =
     (case heap_member h e of
        0 \<Rightarrow> (0, h)
      | Suc i \<Rightarrow> (1, snd (heap_extract_min (h\<lparr>h_elems := to_root (h_elems h) i\<rparr>))))"

definition heap_min :: "'e heap \<Rightarrow> 'e option" where
  "heap_min h = (if h_size h > 0 then he_elem (h_elems h ! 0) else None)"

definition heap_iter_init :: "'e heap \<Rightarrow> 'e option \<times> 'e heap" where
  "heap_iter_init h = (heap_min h, h\<lparr>h_iter := 1\<rparr>)"

definition heap_iter :: "'e heap \<Rightarrow> 'e option \<times> 'e heap" where
  "heap_iter h =
     (if h_iter h \<ge> h_size h then (None, h\<lparr>h_iter := 0\<rparr>)
      else (he_elem (h_elems h ! h_iter h), h\<lparr>h_iter := h_iter h + 1\<rparr>))"

section \<open>The operations of HeapScheduler\<close>

definition hs_insert :: "'h event heap \<Rightarrow> 'h event \<Rightarrow> 'h event heap" where
  "hs_insert h e = heap_insert h (ev_time e) e"

text \<open>
  \<open>cancel\<close> ignores the result of \<open>heap_delete\<close>: an event that is not in the heap is not
  reported. The elements are pointers; equal model events stand for the same pointer.
\<close>

definition hs_cancel :: "'h event heap \<Rightarrow> 'h event \<Rightarrow> ('h event heap \<times> 'h event) res" where
  "hs_cancel h e =
     (if ev_uid e \<le> 0 then Inr (h, e)
      else Inr (snd (heap_delete h e), e\<lparr>ev_uid := - ev_uid e\<rparr>))"

text \<open>The iterator position left behind by \<open>lookup\<close> is reset by the next \<open>heap_iter_init\<close>.\<close>

function lookup_loop :: "'h event heap \<Rightarrow> 'h event option \<Rightarrow> int \<Rightarrow> 'h event option" where
  "lookup_loop h eo u =
     (case eo of
        None \<Rightarrow> None
      | Some e \<Rightarrow>
          if ev_uid e = u then Some e
          else (case heap_iter h of (eo', h') \<Rightarrow> lookup_loop h' eo' u))"
  by pat_completeness auto
termination
  by (relation "measure (\<lambda>(h, eo, u). case eo of None \<Rightarrow> 0 | Some e \<Rightarrow> Suc (h_size h - h_iter h))")
     (auto simp: heap_iter_def split: if_splits option.splits)

declare lookup_loop.simps [simp del]

definition hs_lookup :: "'h event heap \<Rightarrow> int \<Rightarrow> 'h event option" where
  "hs_lookup h u = (case heap_iter_init h of (eo, h') \<Rightarrow> lookup_loop h' eo u)"

definition hs_deque :: "'h event heap \<Rightarrow> ('h event \<times> 'h event heap) option" where
  "hs_deque h = (case heap_extract_min h of (None, h') \<Rightarrow> None | (Some e, h') \<Rightarrow> Some (e, h'))"

definition hs_head :: "'h event heap \<Rightarrow> 'h event option" where
  "hs_head h = heap_min h"

section \<open>Heap order\<close>

definition he_less :: "'e heap_elem \<Rightarrow> 'e heap_elem \<Rightarrow> bool" where
  "he_less a b \<longleftrightarrow> key_less_than (he_key a) (he_s_key a) (he_key b) (he_s_key b)"

lemma he_less_trans: "he_less a b \<Longrightarrow> he_less b c \<Longrightarrow> he_less a c"
  by (auto simp: he_less_def key_less_than_def)

lemma he_less_irrefl [simp]: "\<not> he_less a a"
  by (simp add: he_less_def key_less_than_def)

lemma he_less_total: "he_s_key a \<noteq> he_s_key b \<Longrightarrow> \<not> he_less a b \<Longrightarrow> he_less b a"
  by (auto simp: he_less_def key_less_than_def)

text \<open>The cells in use have pairwise different secondary keys, hence are totally ordered.\<close>

definition skeys :: "'e heap_elem list \<Rightarrow> nat \<Rightarrow> bool" where
  "skeys xs n \<longleftrightarrow> n \<le> length xs \<and> distinct (map he_s_key (take n xs))"

lemma skeys_total:
  assumes "skeys xs n" and "i < n" and "j < n" and "i \<noteq> j" and "\<not> he_less (xs ! i) (xs ! j)"
  shows "he_less (xs ! j) (xs ! i)"
proof -
  from assms have "map he_s_key (take n xs) ! i \<noteq> map he_s_key (take n xs) ! j"
    using nth_eq_iff_index_eq [of "map he_s_key (take n xs)" i j] by (simp add: skeys_def)
  with assms show ?thesis by (auto simp: skeys_def intro: he_less_total)
qed

lemma skeys_mset:
  assumes "skeys xs n" and "mset (take n ys) = mset (take n xs)" and "length ys = length xs"
  shows "skeys ys n"
proof -
  have "mset (map he_s_key (take n ys)) = mset (map he_s_key (take n xs))"
    by (simp only: mset_map assms(2))
  then have "distinct (map he_s_key (take n ys)) = distinct (map he_s_key (take n xs))"
    by (rule mset_eq_imp_distinct_iff)
  with assms(1,3) show ?thesis by (simp add: skeys_def)
qed

definition hord :: "'e heap_elem list \<Rightarrow> nat \<Rightarrow> bool" where
  "hord xs n \<longleftrightarrow> (\<forall>j. 0 < j \<and> j < n \<longrightarrow> he_less (xs ! parent j) (xs ! j))"

text \<open>
  The order with a hole at \<open>i\<close>: the cell \<open>i\<close> may be out of order with its parent and its
  children, but its children are later than its parent.
\<close>

definition hole :: "'e heap_elem list \<Rightarrow> nat \<Rightarrow> nat \<Rightarrow> bool" where
  "hole xs n i \<longleftrightarrow>
     (\<forall>j. 0 < j \<and> j < n \<and> j \<noteq> i \<and> parent j \<noteq> i \<longrightarrow> he_less (xs ! parent j) (xs ! j))
     \<and> (\<forall>j. 0 < j \<and> j < n \<and> parent j = i \<and> 0 < i \<longrightarrow> he_less (xs ! parent i) (xs ! j))"

lemma parent_less: "0 < i \<Longrightarrow> parent i < i"
  by (auto simp: parent_def)

lemma parent_ne [simp]: "0 < i \<Longrightarrow> parent i \<noteq> i" "0 < i \<Longrightarrow> i \<noteq> parent i"
  using parent_less [of i] by auto

lemma parent_children: "parent j = i \<and> 0 < j \<longleftrightarrow> j = left i \<or> j = right i"
  by (auto simp: parent_def left_def right_def)

lemma length_h_swap [simp]: "length (h_swap xs i j) = length xs"
  by (simp add: h_swap_def Let_def)

lemma nth_h_swap:
  "i < length xs \<Longrightarrow> j < length xs \<Longrightarrow>
   h_swap xs i j ! k = (if k = j then xs ! i else if k = i then xs ! j else xs ! k)"
  by (simp add: h_swap_def Let_def nth_list_update)

lemma mset_take_h_swap:
  assumes "i < n" and "j < n" and "n \<le> length xs"
  shows "mset (take n (h_swap xs i j)) = mset (take n xs)"
  using assms mset_swap [of j "take n xs" i]
  by (simp add: h_swap_def Let_def take_update_swap)

lemma hole_up:
  assumes "hole xs n i" and "0 < i" and "i < n" and "n \<le> length xs"
  shows "hole (h_swap xs i (parent i)) n (parent i)"
proof -
  let ?p = "parent i" and ?ys = "h_swap xs i (parent i)"
  have p: "?p < i" using assms(2) by (rule parent_less)
  then have nth: "?ys ! k = (if k = ?p then xs ! i else if k = i then xs ! ?p else xs ! k)" for k
    using assms(3,4) by (simp add: nth_h_swap)
  have above: "he_less (xs ! parent ?p) (xs ! ?p)" if "0 < ?p"
    using assms p that parent_less [OF that] unfolding hole_def by auto
  have "he_less (?ys ! parent j) (?ys ! j)"
    if "0 < j" "j < n" "j \<noteq> ?p" "parent j \<noteq> ?p" for j
    using assms(1,2) that unfolding nth hole_def by auto
  moreover have "he_less (?ys ! parent ?p) (?ys ! j)"
    if "0 < j" "j < n" "parent j = ?p" "0 < ?p" for j
  proof (cases "j = i")
    case True
    then show ?thesis using above [OF that(4)] that(4) p parent_less [OF that(4)] by (simp add: nth)
  next
    case False
    then have "he_less (xs ! ?p) (xs ! j)" using assms(1) that p unfolding hole_def by metis
    then show ?thesis using above [OF that(4)] False that p parent_less [OF that(4)]
      by (auto simp: nth intro: he_less_trans)
  qed
  ultimately show ?thesis unfolding hole_def by blast
qed

subsection \<open>Moving up\<close>

text \<open>The loop of \<open>heap_insert\<close>, written with swaps.\<close>

function swap_up :: "'e heap_elem list \<Rightarrow> nat \<Rightarrow> 'e heap_elem list" where
  "swap_up xs i =
     (if 0 < i \<and> he_less (xs ! i) (xs ! parent i) then swap_up (h_swap xs i (parent i)) (parent i)
      else xs)"
  by pat_completeness auto
termination by (relation "measure (\<lambda>(xs, i). i)") (auto simp: parent_def)

declare swap_up.simps [simp del]

lemma sift_up_swap:
  assumes "i < length xs"
  shows "(case sift_up xs (he_key x) (he_s_key x) i of (ys, k) \<Rightarrow> ys[k := x]) = swap_up (xs[i := x]) i"
  using assms
proof (induction xs "he_key x" "he_s_key x" i rule: sift_up.induct)
  case (1 xs i)
  show ?case
  proof (cases "0 < i \<and> he_less x (xs ! parent i)")
    case True
    then have p: "parent i < length xs" "parent i \<noteq> i" "i \<noteq> parent i" using 1(2) parent_less [of i] by auto
    then have "h_swap (xs[i := x]) i (parent i) = (xs[i := xs ! parent i])[parent i := x]"
      using 1(2) by (simp add: h_swap_def Let_def list_update_swap)
    with True 1 p show ?thesis
      by (subst sift_up.simps, subst swap_up.simps) (simp add: he_less_def)
  next
    case False
    with 1(2) show ?thesis
      by (subst sift_up.simps, subst swap_up.simps) (auto simp: he_less_def)
  qed
qed

lemma length_swap_up [simp]: "length (swap_up xs i) = length xs"
  by (induction xs i rule: swap_up.induct) (subst swap_up.simps, simp)

lemma mset_swap_up: "i < n \<Longrightarrow> n \<le> length xs \<Longrightarrow> mset (take n (swap_up xs i)) = mset (take n xs)"
proof (induction xs i rule: swap_up.induct)
  case (1 xs i)
  then show ?case
    using parent_less [of i] by (subst swap_up.simps) (auto simp: mset_take_h_swap)
qed

lemma hord_swap_up:
  "hole xs n i \<Longrightarrow> skeys xs n \<Longrightarrow> i < n \<Longrightarrow>
   \<forall>j. 0 < j \<and> j < n \<and> parent j = i \<longrightarrow> he_less (xs ! i) (xs ! j) \<Longrightarrow> hord (swap_up xs i) n"
proof (induction xs i rule: swap_up.induct)
  case (1 xs i)
  have n: "n \<le> length xs" using 1(3) by (simp add: skeys_def)
  show ?case
  proof (cases "0 < i \<and> he_less (xs ! i) (xs ! parent i)")
    case True
    let ?p = "parent i" and ?ys = "h_swap xs i (parent i)"
    have p: "?p < n" using True 1(4) parent_less [of i] by auto
    have nth: "?ys ! k = (if k = ?p then xs ! i else if k = i then xs ! ?p else xs ! k)" for k
      using 1(4) p n by (simp add: nth_h_swap)
    have "he_less (?ys ! ?p) (?ys ! j)" if j: "0 < j" "j < n" "parent j = ?p" for j
    proof (cases "j = i")
      case True
      then show ?thesis using \<open>0 < i \<and> _\<close> by (simp add: nth)
    next
      case False
      with 1(2) j True have "he_less (xs ! ?p) (xs ! j)" unfolding hole_def by (metis parent_ne)
      with False j True show ?thesis by (auto simp: nth intro: he_less_trans)
    qed
    moreover have "skeys ?ys n" using 1(3,4) p n by (auto intro: skeys_mset simp: mset_take_h_swap)
    moreover have "hole ?ys n ?p" using hole_up [OF 1(2) _ 1(4) n] True by simp
    ultimately show ?thesis using 1(1) True p by (subst swap_up.simps) simp
  next
    case False
    have "he_less (xs ! parent j) (xs ! j)" if j: "0 < j" "j < n" for j
    proof -
      consider "j = i" | "parent j = i" | "j \<noteq> i" "parent j \<noteq> i" by blast
      then show ?thesis
      proof cases
        case 1
        then show ?thesis using False j skeys_total [OF \<open>skeys xs n\<close>, of i "parent i"]
            parent_less [of i] by auto
      next
        case 2
        then show ?thesis using \<open>\<forall>j. _ \<longrightarrow> he_less (xs ! i) (xs ! j)\<close> j by auto
      next
        case 3
        then show ?thesis using \<open>hole xs n i\<close> j unfolding hole_def by blast
      qed
    qed
    with False show ?thesis by (subst swap_up.simps) (auto simp: hord_def)
  qed
qed

subsection \<open>Moving down\<close>

lemma length_heapify [simp]: "length (heapify xs n i) = length xs"
  by (induction xs n i rule: heapify.induct) (subst heapify.simps, simp add: Let_def)

lemma smaller_child_bounds:
  assumes "i < n"
  shows "smaller_child xs n i < n"
    and "smaller_child xs n i \<noteq> i \<Longrightarrow> parent (smaller_child xs n i) = i \<and> 0 < smaller_child xs n i"
  using assms by (auto simp: smaller_child_def parent_def left_def right_def split: if_splits)

lemma smaller_child_less:
  assumes "skeys xs n" and "i < n" and "0 < j" and "j < n" and "parent j = i"
  shows "smaller_child xs n i \<noteq> i"
    and "j \<noteq> smaller_child xs n i \<Longrightarrow> he_less (xs ! smaller_child xs n i) (xs ! j)"
proof -
  from assms(3,5) have j: "j = left i \<or> j = right i" using parent_children by blast
  then show "smaller_child xs n i \<noteq> i"
    using assms(4) by (auto simp: smaller_child_def left_def right_def)
  assume "j \<noteq> smaller_child xs n i"
  with j assms show "he_less (xs ! smaller_child xs n i) (xs ! j)"
    using skeys_total [OF assms(1), of "left i" "right i"]
    by (auto simp: smaller_child_def he_less_def left_def right_def split: if_splits)
qed

lemma mset_heapify: "n \<le> length xs \<Longrightarrow> mset (take n (heapify xs n i)) = mset (take n xs)"
proof (induction xs n i rule: heapify.induct)
  case (1 xs n i)
  then show ?case
    using smaller_child_bounds(1) [of i n xs]
    by (subst heapify.simps) (auto simp: Let_def mset_take_h_swap)
qed

lemma hord_heapify:
  "hole xs n i \<Longrightarrow> skeys xs n \<Longrightarrow> (0 < i \<Longrightarrow> i < n \<Longrightarrow> he_less (xs ! parent i) (xs ! i))
   \<Longrightarrow> hord (heapify xs n i) n"
proof (induction xs n i rule: heapify.induct)
  case (1 xs n i)
  let ?x = "smaller_child xs n i"
  have n: "n \<le> length xs" using 1(3) by (simp add: skeys_def)
  show ?case
  proof (cases "i < n \<and> ?x \<noteq> i \<and> he_less (xs ! ?x) (xs ! i)")
    case True
    let ?ys = "h_swap xs i ?x"
    have x: "?x < n" "parent ?x = i" "0 < ?x" "i < n" using True smaller_child_bounds [of i n xs] by auto
    have nth: "?ys ! k = (if k = ?x then xs ! i else if k = i then xs ! ?x else xs ! k)" for k
      using x n by (simp add: nth_h_swap)
    have up: "he_less (xs ! parent i) (xs ! j)" if "0 < j" "j < n" "parent j = i" "0 < i" for j
      using 1(2) that unfolding hole_def by blast
    have "he_less (?ys ! parent j) (?ys ! j)"
      if j: "0 < j" "j < n" "j \<noteq> ?x" "parent j \<noteq> ?x" for j
    proof -
      consider "j = i" | "parent j = i" "j \<noteq> i" | "j \<noteq> i" "parent j \<noteq> i" by blast
      then show ?thesis
      proof cases
        case 1
        then show ?thesis using up [of ?x] x j parent_less [of i] by (auto simp: nth)
      next
        case 2
        then show ?thesis
          using smaller_child_less(2) [OF \<open>skeys xs n\<close> x(4) j(1,2)] j x by (auto simp: nth)
      next
        case 3
        then show ?thesis using \<open>hole xs n i\<close> j unfolding nth hole_def by auto
      qed
    qed
    moreover have "he_less (?ys ! parent ?x) (?ys ! j)" if "0 < j" "j < n" "parent j = ?x" for j
    proof -
      have "j \<noteq> i" "j \<noteq> ?x" using that x parent_less [of j] parent_less [of ?x] by auto
      then show ?thesis using 1(2) that x True unfolding hole_def nth by auto
    qed
    ultimately have "hole ?ys n ?x" unfolding hole_def by blast
    moreover have "skeys ?ys n" using 1(3) x n by (auto intro: skeys_mset simp: mset_take_h_swap)
    moreover have "he_less (?ys ! parent ?x) (?ys ! ?x)" using True x by (auto simp: nth)
    ultimately show ?thesis using 1(1) True
      by (subst heapify.simps) (simp add: Let_def he_less_def)
  next
    case False
    have "he_less (xs ! parent j) (xs ! j)" if j: "0 < j" "j < n" for j
    proof -
      consider (self) "j = i" | (child) "parent j = i" "j \<noteq> i" | (other) "j \<noteq> i" "parent j \<noteq> i" by blast
      then show ?thesis
      proof cases
        case self
        then show ?thesis using 1(4) j \<open>j = i\<close> by auto
      next
        case child
        then have "i < n" using j parent_less [of j] by auto
        note sc = smaller_child_less [OF 1(3) this j child(1)]
          and b = smaller_child_bounds(1) [OF this, of xs]
        have "he_less (xs ! i) (xs ! ?x)"
          using False sc(1) \<open>i < n\<close> skeys_total [OF \<open>skeys xs n\<close> b \<open>i < n\<close>] by auto
        with sc(2) child show ?thesis by (cases "j = ?x") (auto intro: he_less_trans)
      next
        case other
        then show ?thesis using \<open>hole xs n i\<close> j unfolding hole_def by blast
      qed
    qed
    with False show ?thesis
      by (subst heapify.simps) (auto simp: hord_def Let_def he_less_def)
  qed
qed

text \<open>The root of an ordered heap is earlier than every other cell.\<close>

lemma hord_root: "hord xs n \<Longrightarrow> 0 < j \<Longrightarrow> j < n \<Longrightarrow> he_less (xs ! 0) (xs ! j)"
proof (induction j rule: less_induct)
  case (less j)
  then have "he_less (xs ! parent j) (xs ! j)" by (simp add: hord_def)
  moreover have "parent j = 0 \<or> he_less (xs ! 0) (xs ! parent j)"
    using less parent_less [of j] by (cases "parent j = 0") auto
  ultimately show ?case by (auto intro: he_less_trans)
qed

subsection \<open>Extraction and deletion\<close>

lemma length_to_root [simp]: "length (to_root xs i) = length xs"
  by (induction xs i rule: to_root.induct) (subst to_root.simps, simp)

lemma to_root_facts:
  assumes "hole xs n i" and "i < n" and "n \<le> length xs"
  shows "hole (to_root xs i) n 0 \<and> to_root xs i ! 0 = xs ! i
    \<and> mset (take n (to_root xs i)) = mset (take n xs)"
  using assms
proof (induction xs i rule: to_root.induct)
  case (1 xs i)
  show ?case
  proof (cases "i = 0")
    case True
    with 1 show ?thesis by (subst (1 2 3) to_root.simps) simp
  next
    case False
    then have "parent i < n" using 1(3) parent_less [of i] by auto
    with False 1 hole_up [OF 1(2) _ 1(3,4)] show ?thesis
      by (subst (1 2 3) to_root.simps) (simp add: mset_take_h_swap nth_h_swap)
  qed
qed

lemma hord_hole: "hord xs n \<Longrightarrow> hole xs n i"
proof -
  assume h: "hord xs n"
  have "he_less (xs ! parent i) (xs ! j)" if "0 < j" "j < n" "parent j = i" "0 < i" for j
    using h that parent_less [of j] he_less_trans [of "xs ! parent i" "xs ! i" "xs ! j"]
    by (auto simp: hord_def)
  with h show ?thesis by (auto simp: hole_def hord_def)
qed

text \<open>Moving the last cell to the root takes the root out of the cells in use.\<close>

lemma take_extract:
  assumes "0 < n" and "n \<le> length xs"
  shows "add_mset (xs ! 0) (mset (take (n - 1) (xs[0 := xs ! (n - 1)]))) = mset (take n xs)"
proof -
  obtain m where n: "n = Suc m" using assms(1) by (cases n) auto
  obtain y ys where xs: "xs = y # ys" using assms by (cases xs) auto
  show ?thesis
  proof (cases m)
    case 0
    then show ?thesis by (simp add: n xs)
  next
    case (Suc k)
    then have "take (Suc k) ys = take k ys @ [ys ! k]"
      using assms(2) n xs by (simp add: take_Suc_conv_app_nth)
    then show ?thesis by (simp add: n xs Suc)
  qed
qed

lemma hole_extract: "hole xs n 0 \<Longrightarrow> 0 < n \<Longrightarrow> n \<le> length xs \<Longrightarrow> hole (xs[0 := z]) (n - 1) 0"
  by (auto simp: hole_def nth_list_update)

lemma skeys_extract:
  assumes "skeys xs n" and "0 < n"
  shows "skeys (xs[0 := xs ! (n - 1)]) (n - 1)"
proof -
  from assms have n: "n \<le> length xs" by (simp add: skeys_def)
  let ?ys = "xs[0 := xs ! (n - 1)]"
  have "mset (map he_s_key (xs ! 0 # take (n - 1) ?ys)) = mset (map he_s_key (take n xs))"
    by (simp only: mset_map mset.simps(2) take_extract [OF assms(2) n])
  then have "distinct (map he_s_key (xs ! 0 # take (n - 1) ?ys)) = distinct (map he_s_key (take n xs))"
    by (rule mset_eq_imp_distinct_iff)
  with assms(1) n show ?thesis by (simp add: skeys_def)
qed

text \<open>
  What extraction does to any array that is ordered but for its root: the root element is
  returned, the other cells stay and are in heap order.
\<close>

lemma extract_facts:
  assumes "hole (h_elems h) (h_size h) 0" and "skeys (h_elems h) (h_size h)" and "0 < h_size h"
    and "heap_extract_min h = (e, h')"
  shows "e = he_elem (h_elems h ! 0) \<and> hord (h_elems h') (h_size h') \<and> skeys (h_elems h') (h_size h')
    \<and> add_mset (h_elems h ! 0) (mset (take (h_size h') (h_elems h'))) = mset (take (h_size h) (h_elems h))
    \<and> h_size h' = h_size h - 1 \<and> h_maxsize h' = h_maxsize h \<and> h_s_key h' = h_s_key h
    \<and> length (h_elems h') = length (h_elems h)"
proof -
  let ?n = "h_size h" and ?xs = "h_elems h"
  let ?ys = "?xs[0 := ?xs ! (?n - 1)]"
  have n: "?n \<le> length ?xs" using assms(2) by (simp add: skeys_def)
  have sk: "skeys ?ys (?n - 1)" by (rule skeys_extract [OF assms(2,3)])
  have "hole ?ys (?n - 1) 0" by (rule hole_extract [OF assms(1,3) n])
  then have "hord (heapify ?ys (?n - 1) 0) (?n - 1)" using sk by (rule hord_heapify) simp
  moreover have m: "mset (take (?n - 1) (heapify ?ys (?n - 1) 0)) = mset (take (?n - 1) ?ys)"
    using n by (intro mset_heapify) auto
  moreover from sk m have "skeys (heapify ?ys (?n - 1) 0) (?n - 1)" by (rule skeys_mset) simp
  ultimately show ?thesis
    using assms(3,4) take_extract [OF assms(3) n] by (auto simp: heap_extract_min_def Let_def)
qed

section \<open>The heap stands for a list in dispatch order\<close>

fun he_ins :: "'e heap_elem \<Rightarrow> 'e heap_elem list \<Rightarrow> 'e heap_elem list" where
  "he_ins x [] = [x]"
| "he_ins x (y # ys) = (if he_less x y then x # y # ys else y # he_ins x ys)"

fun he_sort :: "'e heap_elem list \<Rightarrow> 'e heap_elem list" where
  "he_sort [] = []"
| "he_sort (x # xs) = he_ins x (he_sort xs)"

definition he_list :: "'e heap \<Rightarrow> 'e heap_elem list" where
  "he_list h = he_sort (take (h_size h) (h_elems h))"

definition heap_abs :: "'e heap \<Rightarrow> 'e list" where
  "heap_abs h = map (\<lambda>x. the (he_elem x)) (he_list h)"

lemma mset_he_ins: "mset (he_ins x ys) = add_mset x (mset ys)"
  by (induction ys) auto

lemma mset_he_sort: "mset (he_sort xs) = mset xs"
  by (induction xs) (auto simp: mset_he_ins)

lemma mset_he_list: "mset (he_list h) = mset (take (h_size h) (h_elems h))"
  by (simp add: he_list_def mset_he_sort)

lemma set_he_ins [simp]: "set (he_ins x ys) = insert x (set ys)"
  by (induction ys) auto

lemma sorted_he_ins:
  "sorted_wrt he_less ys \<Longrightarrow> \<forall>y \<in> set ys. he_s_key y \<noteq> he_s_key x \<Longrightarrow> sorted_wrt he_less (he_ins x ys)"
proof (induction ys)
  case Nil
  then show ?case by simp
next
  case (Cons y ys)
  then show ?case
    using he_less_total [of x y] by (auto intro: he_less_trans)
qed

lemma sorted_he_sort: "distinct (map he_s_key xs) \<Longrightarrow> sorted_wrt he_less (he_sort xs)"
proof (induction xs)
  case Nil
  then show ?case by simp
next
  case (Cons x xs)
  have "set (he_sort xs) = set xs" by (metis mset_he_sort set_mset_mset)
  then have "\<forall>y \<in> set (he_sort xs). he_s_key y \<noteq> he_s_key x"
    using Cons.prems by (metis distinct.simps(2) image_eqI list.set_map list.simps(9))
  with Cons show ?case by (simp add: sorted_he_ins)
qed

lemma sorted_he_list: "skeys (h_elems h) (h_size h) \<Longrightarrow> sorted_wrt he_less (he_list h)"
  by (simp add: he_list_def skeys_def sorted_he_sort)

lemma he_list_unique:
  assumes "skeys (h_elems h) (h_size h)" and "sorted_wrt he_less ys" and "mset ys = mset (take (h_size h) (h_elems h))"
  shows "he_list h = ys"
proof (rule sorted_wrt_unique [of he_less])
  show "set (he_list h) = set ys" by (metis assms(3) mset_he_list set_mset_mset)
qed (use assms(1,2) he_less_trans in \<open>auto simp: sorted_he_list\<close>)

text \<open>
  The invariant. Besides the heap order: every cell in use holds an event under its time, the
  secondary keys are below the counter and grow with the uids.
\<close>

definition heap_inv :: "'h event heap \<Rightarrow> bool" where
  "heap_inv h \<longleftrightarrow>
     length (h_elems h) = h_maxsize h \<and> 0 < h_maxsize h
     \<and> skeys (h_elems h) (h_size h) \<and> hord (h_elems h) (h_size h)
     \<and> (\<forall>x \<in> set (take (h_size h) (h_elems h)).
           \<exists>e. he_elem x = Some e \<and> he_key x = ev_time e \<and> he_s_key x < h_s_key h)
     \<and> (\<forall>x \<in> set (take (h_size h) (h_elems h)). \<forall>y \<in> set (take (h_size h) (h_elems h)).
           he_s_key x < he_s_key y \<longrightarrow> ev_uid (the (he_elem x)) < ev_uid (the (he_elem y)))"

definition heap_room :: "'h event heap \<Rightarrow> nat \<Rightarrow> bool" where
  "heap_room h n \<longleftrightarrow> unat (h_s_key h) + n < 2 ^ 32"

lemma set_he_list: "set (he_list h) = set (take (h_size h) (h_elems h))"
  by (metis mset_he_list set_mset_mset)

lemma heap_inv_cell:
  assumes "heap_inv h" and "x \<in> set (he_list h)"
  shows "he_elem x = Some (the (he_elem x))" "he_key x = ev_time (the (he_elem x))"
    "he_s_key x < h_s_key h"
  using assms unfolding heap_inv_def set_he_list by fastforce+

lemma heap_inv_uids:
  "heap_inv h \<Longrightarrow> x \<in> set (he_list h) \<Longrightarrow> y \<in> set (he_list h) \<Longrightarrow> he_s_key x < he_s_key y
   \<Longrightarrow> ev_uid (the (he_elem x)) < ev_uid (the (he_elem y))"
  unfolding heap_inv_def set_he_list by blast

lemma heap_inv_skeys: "heap_inv h \<Longrightarrow> skeys (h_elems h) (h_size h)"
  by (simp add: heap_inv_def)

lemma heap_inv_distinct_skeys: "heap_inv h \<Longrightarrow> distinct (map he_s_key (he_list h))"
proof -
  assume "heap_inv h"
  then have "distinct (map he_s_key (take (h_size h) (h_elems h)))"
    by (simp add: heap_inv_def skeys_def)
  moreover have "mset (map he_s_key (he_list h)) = mset (map he_s_key (take (h_size h) (h_elems h)))"
    by (simp only: mset_map mset_he_list)
  ultimately show ?thesis using mset_eq_imp_distinct_iff by blast
qed

lemma heap_abs_sorted:
  assumes "heap_inv h"
  shows "ev_sorted (heap_abs h)"
proof -
  have "sorted_wrt he_less (he_list h)" using assms by (simp add: heap_inv_skeys sorted_he_list)
  then show ?thesis
    unfolding ev_sorted_def heap_abs_def sorted_wrt_map
  proof (rule sorted_wrt_mono_rel [rotated])
    fix x y
    assume xy: "x \<in> set (he_list h)" "y \<in> set (he_list h)" and "he_less x y"
    then show "ev_before (the (he_elem x)) (the (he_elem y))"
      using heap_inv_cell(2) [OF assms] heap_inv_uids [OF assms xy]
      by (auto simp: he_less_def key_less_than_def ev_before_def)
  qed
qed

lemma heap_abs_distinct:
  assumes "heap_inv h"
  shows "distinct (map ev_uid (heap_abs h))"
proof -
  have "inj_on (\<lambda>x. ev_uid (the (he_elem x))) (set (he_list h))"
  proof (rule inj_onI)
    fix x y
    assume xy: "x \<in> set (he_list h)" "y \<in> set (he_list h)"
      and eq: "ev_uid (the (he_elem x)) = ev_uid (the (he_elem y))"
    with heap_inv_uids [OF assms xy] heap_inv_uids [OF assms xy(2,1)]
    have "he_s_key x = he_s_key y" by (metis less_irrefl linorder_less_linear)
    with xy heap_inv_distinct_skeys [OF assms] show "x = y"
      by (auto simp: distinct_map dest: inj_onD)
  qed
  moreover have "distinct (he_list h)"
    using heap_inv_distinct_skeys [OF assms] by (simp add: distinct_map)
  ultimately show ?thesis by (simp add: heap_abs_def distinct_map comp_def inj_on_def)
qed

subsection \<open>Insertion\<close>

lemma heap_grow_facts:
  assumes "heap_inv h"
  shows "heap_inv (heap_grow h) \<and> h_size (heap_grow h) < h_maxsize (heap_grow h)
    \<and> take (h_size h) (h_elems (heap_grow h)) = take (h_size h) (h_elems h)
    \<and> h_size (heap_grow h) = h_size h \<and> h_s_key (heap_grow h) = h_s_key h"
proof -
  have n: "h_size h \<le> length (h_elems h)" using assms by (simp add: heap_inv_def skeys_def)
  then have nth: "(h_elems h @ ys) ! i = h_elems h ! i" if "i < h_size h" for i ys
    using that by (simp add: nth_append)
  have par: "parent j < h_size h" if "0 < j" "j < h_size h" for j
    using that parent_less [of j] by simp
  show ?thesis
    using assms n by (auto simp: heap_grow_def heap_inv_def skeys_def hord_def nth par)
qed

lemma map_he_ins:
  assumes "\<forall>y \<in> set L. he_key y = ev_time (the (he_elem y)) \<and> he_s_key y < he_s_key x"
    and "he_elem x = Some e" and "he_key x = ev_time e"
  shows "map (\<lambda>x. the (he_elem x)) (he_ins x L) = ins_time e (map (\<lambda>x. the (he_elem x)) L)"
  using assms by (induction L) (auto simp: he_less_def key_less_than_def)

lemma hs_insert_spec:
  assumes inv: "heap_inv h0" and room: "heap_room h0 (Suc n)"
    and fresh: "\<forall>y \<in> set (heap_abs h0). ev_uid y < ev_uid e"
  shows "heap_inv (hs_insert h0 e) \<and> heap_room (hs_insert h0 e) n
    \<and> heap_abs (hs_insert h0 e) = ins_time e (heap_abs h0)"
proof -
  define h where "h = heap_grow h0"
  let ?m = "h_size h" and ?x = "\<lparr>he_key = ev_time e, he_s_key = h_s_key h, he_elem = Some e\<rparr>"
  let ?ys = "(h_elems h)[?m := ?x]"
  from heap_grow_facts [OF inv] have h: "heap_inv h" "?m < h_maxsize h" "he_list h = he_list h0"
    "heap_room h (Suc n)" "heap_abs h = heap_abs h0"
    using room by (auto simp: h_def he_list_def heap_abs_def heap_room_def)
  have len: "length (h_elems h) = h_maxsize h" using h(1) by (simp add: heap_inv_def)
  have tk: "take (Suc ?m) ?ys = take ?m (h_elems h) @ [?x]"
    using h(2) len by (simp add: take_Suc_conv_app_nth)
  note old = heap_inv_cell [OF h(1), unfolded set_he_list]
  have sk: "skeys ?ys (Suc ?m)"
    using h(1,2) len old(3) unfolding skeys_def tk by (fastforce simp: heap_inv_def skeys_def)
  have "hole ?ys (Suc ?m) ?m"
    using h(1) len h(2) unfolding hole_def hord_def heap_inv_def
    by (auto simp: nth_list_update less_Suc_eq dest: parent_less)
  then have hord: "hord (swap_up ?ys ?m) (Suc ?m)"
    using sk by (rule hord_swap_up) (auto simp: less_Suc_eq dest: parent_less)
  have ms: "mset (take (Suc ?m) (swap_up ?ys ?m)) = mset (take (Suc ?m) ?ys)"
    using h(2) len by (intro mset_swap_up) auto
  have sk': "skeys (swap_up ?ys ?m) (Suc ?m)" using sk ms by (rule skeys_mset) simp
  have "(case sift_up (h_elems h) (he_key ?x) (he_s_key ?x) ?m of (xs, i) \<Rightarrow> xs[i := ?x]) = swap_up ?ys ?m"
    using h(2) len by (intro sift_up_swap) simp
  then have h': "hs_insert h0 e = h\<lparr>h_elems := swap_up ?ys ?m, h_s_key := h_s_key h + 1, h_size := Suc ?m\<rparr>"
    by (simp add: hs_insert_def heap_insert_def h_def [symmetric] split: prod.splits)
  have ctr: "unat (h_s_key h + 1) = unat (h_s_key h) + 1"
    using h(4) by (auto simp: heap_room_def unat_word_ariths)
  have lt: "k \<le> h_s_key h \<Longrightarrow> k < h_s_key h + 1" for k
    using ctr by (simp add: word_less_nat_alt word_le_nat_alt)
  have st: "set (take (Suc ?m) (swap_up ?ys ?m)) = insert ?x (set (take ?m (h_elems h)))"
    using arg_cong [OF ms, of set_mset] tk by simp
  have up: "ev_uid (the (he_elem y)) < ev_uid e" if "y \<in> set (take ?m (h_elems h))" for y
    using fresh that h(3) by (auto simp: heap_abs_def set_he_list [symmetric])
  have "heap_inv (hs_insert h0 e)"
    unfolding heap_inv_def h' using h(1,2) len sk' hord
  proof (simp add: st del: One_nat_def, intro conjI ballI)
    show "h_s_key h < h_s_key h + 1" by (rule lt) simp
    show "\<exists>ea. he_elem x = Some ea \<and> he_key x = ev_time ea \<and> he_s_key x < h_s_key h + 1"
      if "x \<in> set (take ?m (h_elems h))" for x
      using old [OF that] lt [of "he_s_key x"] by (metis order_less_imp_le)
  qed (use old(3) up heap_inv_uids [OF h(1), unfolded set_he_list] in \<open>auto dest: order_less_asym\<close>)
  moreover have "heap_room (hs_insert h0 e) n" using h(4) ctr by (simp add: h' heap_room_def)
  moreover have "heap_abs (hs_insert h0 e) = ins_time e (heap_abs h0)"
  proof -
    have "he_list (hs_insert h0 e) = he_ins ?x (he_list h)"
    proof (rule he_list_unique)
      show "sorted_wrt he_less (he_ins ?x (he_list h))"
        using h(1) heap_inv_cell(3) [OF h(1)]
        by (fastforce intro!: sorted_he_ins simp: heap_inv_skeys sorted_he_list)
    qed (use sk' ms tk in \<open>auto simp: h' mset_he_ins mset_he_list\<close>)
    then show ?thesis
      using map_he_ins [of "he_list h" ?x e] heap_inv_cell [OF h(1)] h(5)
      by (simp add: heap_abs_def)
  qed
  ultimately show ?thesis by blast
qed

subsection \<open>Removal\<close>

lemma heap_inv_sub:
  assumes inv: "heap_inv h" and "length (h_elems h') = h_maxsize h'" and "h_maxsize h' = h_maxsize h"
    and "h_s_key h' = h_s_key h" and "skeys (h_elems h') (h_size h')" and "hord (h_elems h') (h_size h')"
    and "mset (take (h_size h') (h_elems h')) \<subseteq># mset (take (h_size h) (h_elems h))"
  shows "heap_inv h'"
proof -
  from assms(7) have "set (take (h_size h') (h_elems h')) \<subseteq> set (take (h_size h) (h_elems h))"
    by (metis set_mset_mono set_mset_mset)
  with assms(1-6) show ?thesis unfolding heap_inv_def by (simp, blast)
qed

text \<open>Extraction from an array whose order holds except at the root, where element \<open>x\<close> sits.\<close>

lemma extract_abs:
  assumes inv: "heap_inv h"
    and g: "hole (h_elems g) (h_size h) 0" "mset (take (h_size h) (h_elems g)) = mset (take (h_size h) (h_elems h))"
      "g = h\<lparr>h_elems := h_elems g\<rparr>" "length (h_elems g) = length (h_elems h)"
    and "0 < h_size h" and "heap_extract_min g = (e, h')"
  shows "e = he_elem (h_elems g ! 0) \<and> heap_inv h' \<and> he_list h' = remove1 (h_elems g ! 0) (he_list h)
    \<and> (heap_room h n \<longrightarrow> heap_room h' n) \<and> h_elems g ! 0 \<in> set (he_list h)"
proof -
  have size: "h_size g = h_size h" "h_maxsize g = h_maxsize h" "h_s_key g = h_s_key h"
    by (subst g(3), simp)+
  have sk: "skeys (h_elems g) (h_size g)"
    using skeys_mset [OF heap_inv_skeys [OF inv] g(2,4)] size by simp
  note ex = extract_facts [OF _ sk _ assms(7), unfolded size, OF g(1) assms(6)]
  let ?x = "h_elems g ! 0"
  have ms: "add_mset ?x (mset (take (h_size h') (h_elems h'))) = mset (take (h_size h) (h_elems h))"
    using ex unfolding g(2) by blast
  then have rm: "mset (remove1 ?x (he_list h)) = mset (take (h_size h') (h_elems h'))"
    by (simp add: mset_he_list flip: ms)
  have inv': "heap_inv h'"
  proof (rule heap_inv_sub [OF inv])
    show "mset (take (h_size h') (h_elems h')) \<subseteq># mset (take (h_size h) (h_elems h))"
      unfolding ms [symmetric] subseteq_mset_def by simp
  qed (use ex inv g(4) in \<open>auto simp: heap_inv_def\<close>)
  have "he_list h' = remove1 ?x (he_list h)"
    using inv inv' rm
    by (intro he_list_unique) (auto simp: heap_inv_skeys sorted_he_list sorted_wrt_remove1)
  moreover have "?x \<in> set (he_list h)"
    unfolding set_he_list using arg_cong [OF ms, of set_mset] by auto
  ultimately show ?thesis using ex inv' by (auto simp: heap_room_def)
qed

lemma heap_abs_remove1:
  assumes "heap_inv h" and "x \<in> set (he_list h)" and "he_list h' = remove1 x (he_list h)"
  shows "heap_abs h' = remove1 (the (he_elem x)) (heap_abs h)"
proof -
  have "inj_on (\<lambda>x. the (he_elem x)) (set (he_list h))"
    using heap_abs_distinct [OF assms(1)]
    by (auto simp: heap_abs_def distinct_map comp_def inj_on_def)
  from map_remove1_inj [OF this assms(2)] assms(3) show ?thesis by (simp add: heap_abs_def)
qed

lemma he_list_Cons:
  assumes inv: "heap_inv h" and "0 < h_size h"
  shows "he_list h = h_elems h ! 0 # remove1 (h_elems h ! 0) (he_list h)"
proof (rule he_list_unique [OF heap_inv_skeys [OF inv]])
  have n: "h_size h \<le> length (h_elems h)" using inv by (simp add: heap_inv_def skeys_def)
  have mem: "h_elems h ! 0 \<in> set (he_list h)"
    using assms(2) n unfolding set_he_list by (auto simp: in_set_conv_nth intro!: exI [of _ 0])
  then show "mset (h_elems h ! 0 # remove1 (h_elems h ! 0) (he_list h)) = mset (take (h_size h) (h_elems h))"
    by (simp add: mset_he_list [symmetric])
  have s: "sorted_wrt he_less (he_list h)" using inv by (simp add: heap_inv_skeys sorted_he_list)
  have "he_less (h_elems h ! 0) y" if y: "y \<in> set (remove1 (h_elems h ! 0) (he_list h))" for y
  proof -
    have "distinct (he_list h)" using sorted_wrt_irrefl_distinct [OF _ s] by simp
    then have "y \<in> set (take (h_size h) (h_elems h))" "y \<noteq> h_elems h ! 0"
      using y by (auto simp: set_he_list [symmetric])
    then obtain j where "j < h_size h" "h_elems h ! j = y" and ne: "h_elems h ! j \<noteq> h_elems h ! 0"
      by (auto simp: in_set_conv_nth)
    moreover from ne have "0 < j" by (cases j) auto
    ultimately show ?thesis using hord_root [of "h_elems h" "h_size h" j] inv by (simp add: heap_inv_def)
  qed
  then show "sorted_wrt he_less (h_elems h ! 0 # remove1 (h_elems h ! 0) (he_list h))"
    using s by (simp add: sorted_wrt_remove1)
qed

lemma heap_abs_empty: "heap_inv h \<Longrightarrow> heap_abs h = [] \<longleftrightarrow> h_size h = 0"
proof -
  assume "heap_inv h"
  have "length (he_list h) = length (take (h_size h) (h_elems h))"
    by (metis mset_he_list size_mset)
  with \<open>heap_inv h\<close> show ?thesis by (auto simp: heap_abs_def heap_inv_def skeys_def)
qed

lemma hs_deque_spec:
  assumes inv: "heap_inv h" and "0 < h_size h"
  obtains e h' where "hs_deque h = Some (e, h')" "heap_inv h'" "heap_abs h = e # heap_abs h'"
    "\<And>n. heap_room h n \<Longrightarrow> heap_room h' n"
proof -
  obtain eo h' where x: "heap_extract_min h = (eo, h')" by (cases "heap_extract_min h")
  have "hole (h_elems h) (h_size h) 0" using inv by (simp add: heap_inv_def hord_hole)
  note ex = extract_abs [OF inv this _ _ _ assms(2) x]
  then have e: "eo = Some (the (he_elem (h_elems h ! 0)))" using heap_inv_cell(1) [OF inv] by force
  have "heap_abs h = the (he_elem (h_elems h ! 0)) # heap_abs h'"
    using arg_cong [OF he_list_Cons [OF assms], of "map (\<lambda>x. the (he_elem x))"] ex
    by (simp add: heap_abs_def)
  with that [of "the (he_elem (h_elems h ! 0))" h'] ex x e show thesis
    by (auto simp: hs_deque_def)
qed

lemma member_loop_Suc:
  "member_loop xs n e i = Suc k \<Longrightarrow> i \<le> k \<and> k < n \<and> he_elem (xs ! k) = Some e"
proof (induction xs n e i rule: member_loop.induct)
  case (1 xs n e i)
  then show ?case by (subst (asm) (2) member_loop.simps) (auto split: if_splits)
qed

lemma member_loop_zero:
  "member_loop xs n e i = 0 \<Longrightarrow> i \<le> j \<Longrightarrow> j < n \<Longrightarrow> he_elem (xs ! j) \<noteq> Some e"
proof (induction xs n e i rule: member_loop.induct)
  case (1 xs n e i)
  show ?case
  proof (cases "i = j")
    case True
    with 1 show ?thesis by (subst (asm) (2) member_loop.simps) (auto split: if_splits)
  next
    case False
    with 1 show ?thesis by (subst (asm) (2) member_loop.simps) (auto split: if_splits)
  qed
qed

lemma heap_member_found:
  assumes "heap_inv h" and "e \<in> set (heap_abs h)"
  obtains i where "heap_member h e = Suc i" "i < h_size h" "he_elem (h_elems h ! i) = Some e"
proof -
  have n: "h_size h \<le> length (h_elems h)" using assms(1) by (simp add: heap_inv_def skeys_def)
  from assms(2) obtain x where x: "x \<in> set (he_list h)" "e = the (he_elem x)"
    by (auto simp: heap_abs_def)
  with heap_inv_cell(1) [OF assms(1)] obtain j where "j < h_size h" "he_elem (h_elems h ! j) = Some e"
    unfolding set_he_list by (force simp: in_set_conv_nth)
  with member_loop_zero [of "h_elems h" "h_size h" e 0 j] obtain k where k: "heap_member h e = Suc k"
    by (cases "heap_member h e") (auto simp: heap_member_def)
  with member_loop_Suc [of "h_elems h" "h_size h" e 0 k] that [of k] show thesis
    by (auto simp: heap_member_def)
qed

lemma hs_cancel_spec:
  assumes inv: "heap_inv h" and mem: "e \<in> set (heap_abs h)" and "ev_uid e > 0"
  shows "\<exists>h'. hs_cancel h e = Inr (h', e\<lparr>ev_uid := - ev_uid e\<rparr>) \<and> heap_inv h'
    \<and> heap_abs h' = remove1 e (heap_abs h) \<and> (\<forall>n. heap_room h n \<longrightarrow> heap_room h' n)"
proof -
  from heap_member_found [OF inv mem] obtain i where i: "heap_member h e = Suc i" "i < h_size h"
    "he_elem (h_elems h ! i) = Some e" by blast
  have n: "h_size h \<le> length (h_elems h)" using inv by (simp add: heap_inv_def skeys_def)
  let ?g = "h\<lparr>h_elems := to_root (h_elems h) i\<rparr>"
  have "hole (h_elems h) (h_size h) i" using inv by (simp add: heap_inv_def hord_hole)
  from to_root_facts [OF this i(2) n] have g: "hole (h_elems ?g) (h_size h) 0"
    "h_elems ?g ! 0 = h_elems h ! i"
    "mset (take (h_size h) (h_elems ?g)) = mset (take (h_size h) (h_elems h))" by auto
  obtain eo h' where x: "heap_extract_min ?g = (eo, h')" by (cases "heap_extract_min ?g")
  from i(2) have "0 < h_size h" by simp
  note ex = extract_abs [OF inv g(1,3) _ _ this x]
  have "heap_abs h' = remove1 e (heap_abs h)"
    using heap_abs_remove1 [OF inv, of "h_elems h ! i" h'] ex g(2) i(3) by auto
  then show ?thesis
    using ex x i(1) assms(3) by (auto simp: hs_cancel_def heap_delete_def)
qed

subsection \<open>Lookup\<close>

lemma lookup_loop_find:
  assumes "\<forall>x \<in> set (take (h_size h) (h_elems h)). he_elem x \<noteq> None" and "h_size h \<le> length (h_elems h)"
  shows "lookup_loop h (Some e) u = find (\<lambda>e. ev_uid e = u)
    (e # map (\<lambda>x. the (he_elem x)) (drop (h_iter h) (take (h_size h) (h_elems h))))"
  using assms
proof (induction "h_size h - h_iter h" arbitrary: h e)
  case 0
  then show ?case
    by (subst lookup_loop.simps) (auto simp: heap_iter_def lookup_loop.simps [of _ None])
next
  case (Suc k)
  let ?i = "h_iter h" and ?h = "h\<lparr>h_iter := Suc (h_iter h)\<rparr>"
  from Suc(2) have i: "?i < h_size h" by simp
  from Suc.prems this have "he_elem (h_elems h ! ?i) \<noteq> None" by (rule take_ballD)
  then obtain e' where e': "he_elem (h_elems h ! ?i) = Some e'" by auto
  have "drop ?i (take (h_size h) (h_elems h)) = h_elems h ! ?i # drop (Suc ?i) (take (h_size h) (h_elems h))"
    using i Suc.prems(2) by (subst Cons_nth_drop_Suc [symmetric]) auto
  with Suc(1) [of ?h e'] Suc(2) Suc.prems i e' show ?case
    by (subst lookup_loop.simps) (auto simp: heap_iter_def)
qed

lemma hs_lookup_spec:
  assumes "heap_inv h"
  shows "hs_lookup h u = find (\<lambda>e. ev_uid e = u) (heap_abs h)"
proof -
  let ?f = "\<lambda>x. the (he_elem x)"
  have n: "h_size h \<le> length (h_elems h)" using assms by (simp add: heap_inv_def skeys_def)
  have some: "\<forall>x \<in> set (take (h_size h) (h_elems h)). he_elem x \<noteq> None"
    using assms by (auto simp: heap_inv_def)
  have "hs_lookup h u = find (\<lambda>e. ev_uid e = u) (map ?f (take (h_size h) (h_elems h)))"
  proof (cases "h_size h = 0")
    case True
    then show ?thesis
      by (simp add: hs_lookup_def heap_iter_init_def heap_min_def lookup_loop.simps [of _ None])
  next
    case False
    then have eq: "take (h_size h) (h_elems h) = h_elems h ! 0 # drop 1 (take (h_size h) (h_elems h))"
      using n by (cases "h_elems h"; cases "h_size h") auto
    from False have "he_elem (h_elems h ! 0) \<noteq> None" using take_ballD [OF some n, of 0] by simp
    then obtain e where e: "he_elem (h_elems h ! 0) = Some e" by auto
    have "map ?f (take (h_size h) (h_elems h)) = e # map ?f (drop 1 (take (h_size h) (h_elems h)))"
      by (subst eq) (simp add: e)
    with lookup_loop_find [of "h\<lparr>h_iter := 1\<rparr>" e u] some n False e show ?thesis
      by (simp add: hs_lookup_def heap_iter_init_def heap_min_def del: find.simps)
  qed
  also have "\<dots> = find (\<lambda>e. ev_uid e = u) (heap_abs h)"
  proof (rule find_key_perm)
    have "mset (map ev_uid (map ?f (take (h_size h) (h_elems h)))) = mset (map ev_uid (heap_abs h))"
      by (simp only: heap_abs_def map_map mset_map mset_he_list)
    with heap_abs_distinct [OF assms]
    show "distinct (map ev_uid (map ?f (take (h_size h) (h_elems h))))"
      using mset_eq_imp_distinct_iff by blast
    show "distinct (map ev_uid (heap_abs h))" by (rule heap_abs_distinct [OF assms])
    show "set (map ?f (take (h_size h) (h_elems h))) = set (heap_abs h)"
      by (simp add: heap_abs_def set_he_list)
  qed
  finally show ?thesis .
qed

section \<open>HeapScheduler satisfies the interface\<close>

lemma heap_room_mono: "heap_room h n \<Longrightarrow> m \<le> n \<Longrightarrow> heap_room h m"
  by (simp add: heap_room_def)

interpretation hq: event_queue "sure_ins hs_insert" hs_cancel hs_lookup "sure_deq hs_deque" heap_inv heap_room heap_abs
proof (standard, goal_cases)
  case (4 q)
  then have "h_size q = 0" using hs_deque_spec [of q] by fastforce
  then show ?case by (simp add: hs_deque_def heap_extract_min_def)
next
  case (5 q e es)
  then have "0 < h_size q" using heap_abs_empty [of q] by fastforce
  with hs_deque_spec [OF 5(1)] 5(2) show ?case by fastforce
qed (simp_all add: heap_abs_sorted heap_abs_distinct heap_room_mono hs_insert_spec hs_cancel_spec
      hs_lookup_spec)

lemma heap_inv_new: "0 < n \<Longrightarrow> heap_inv (heap_new n)"
  by (simp add: heap_inv_def heap_new_def skeys_def hord_def)

lemma heap_room_new: "n < 2 ^ 32 \<Longrightarrow> heap_room (heap_new m) n"
  by (simp add: heap_room_def heap_new_def)

lemma heap_abs_new: "heap_abs (heap_new n) = []"
  by (simp add: heap_abs_def he_list_def heap_new_def)

end
