(* ===== verification/SchedSplay.thy ===== *)
theory SchedSplay
  imports SchedList "HOL-Library.Tree"
begin

text \<open>
  \<open>SplayScheduler\<close> of \<open>common/splay-scheduler.cc\<close>: the queue is a binary search tree by
  time; \<open>insert\<close> and \<open>deque\<close> restructure it by top-down splaying. The links \<open>prev_\<close> and
  \<open>next_\<close> of an event are the left and right child; here the tree is a value of the library's
  tree type, a null link is \<open>Leaf\<close>.
\<close>

record 'h splay =
  sroot :: "'h event tree"
  qsize :: int

definition splay_new :: "'h splay" where
  "splay_new = \<lparr>sroot = Leaf, qsize = 0\<rparr>"

section \<open>Insertion\<close>

text \<open>
  The code grows a left and a right tree, both hanging from the new event; \<open>l\<close> points to the
  bottom right of the one, \<open>r\<close> to the bottom left of the other. The model keeps the nodes on
  the way to these two open ends, deepest first; \<open>LINK_LEFT\<close> and \<open>LINK_RIGHT\<close> add one, and
  closing an end with a tree is \<open>plug_left\<close>, \<open>plug_right\<close>.
\<close>

fun plug_left :: "('h event tree \<times> 'h event) list \<Rightarrow> 'h event tree \<Rightarrow> 'h event tree" where
  "plug_left [] t = t"
| "plug_left ((lt, a) # ls) t = plug_left ls (Node lt a t)"

fun plug_right :: "('h event \<times> 'h event tree) list \<Rightarrow> 'h event tree \<Rightarrow> 'h event tree" where
  "plug_right [] t = t"
| "plug_right ((a, rt) # rs) t = plug_right rs (Node t a rt)"

text \<open>The loop: two levels per round, with a rotation when both go the same way.\<close>

fun splay_loop ::
  "time \<Rightarrow> 'h event tree \<Rightarrow> ('h event tree \<times> 'h event) list \<Rightarrow> ('h event \<times> 'h event tree) list
   \<Rightarrow> 'h event tree \<times> 'h event tree"
where
  "splay_loop tm Leaf ls rs = (plug_left ls Leaf, plug_right rs Leaf)"
| "splay_loop tm (Node lc e rc) ls rs =
     (if tm < ev_time e then
        (case lc of
           Leaf \<Rightarrow> (plug_left ls Leaf, plug_right rs (Node Leaf e rc))
         | Node xl x xr \<Rightarrow>
             if tm < ev_time x then splay_loop tm xl ls ((x, Node xr e rc) # rs)
             else splay_loop tm (Node xl x xr) ls ((e, rc) # rs))
      else
        (case rc of
           Leaf \<Rightarrow> (plug_left ls (Node lc e Leaf), plug_right rs Leaf)
         | Node xl x xr \<Rightarrow>
             if tm \<ge> ev_time x then splay_loop tm xr ((Node lc e xl, x) # ls) rs
             else splay_loop tm (Node xl x xr) ((lc, e) # ls) rs))"

definition splay_insert :: "'h splay \<Rightarrow> 'h event \<Rightarrow> 'h splay" where
  "splay_insert s n =
     (case sroot s of
        Leaf \<Rightarrow> s\<lparr>qsize := qsize s + 1, sroot := Node Leaf n Leaf\<rparr>
      | t \<Rightarrow>
          (case splay_loop (ev_time n) t [] [] of
             (lt, rt) \<Rightarrow> s\<lparr>qsize := qsize s + 1, sroot := Node lt n rt\<rparr>))"

section \<open>Removal of the first event\<close>

fun leftmost :: "'h event tree \<Rightarrow> 'h event option" where
  "leftmost Leaf = None"
| "leftmost (Node l a r) = (case l of Leaf \<Rightarrow> Some a | Node ll b lr \<Rightarrow> leftmost l)"

definition splay_head :: "'h splay \<Rightarrow> 'h event option" where
  "splay_head s = leftmost (sroot s)"

text \<open>
  The loop of \<open>deque\<close> below a node whose left child is given: the event found and the new
  left child. Two levels at a time are rotated (zig-zig).
\<close>

fun deque_loop :: "'h event tree \<Rightarrow> ('h event \<times> 'h event tree) option" where
  "deque_loop Leaf = None"
| "deque_loop (Node l b r) =
     (case l of
        Leaf \<Rightarrow> Some (b, r)
      | Node ll c lr \<Rightarrow>
          (case ll of
             Leaf \<Rightarrow> Some (c, Node lr b r)
           | Node x d y \<Rightarrow>
               (case deque_loop ll of
                  None \<Rightarrow> None
                | Some (m, ll') \<Rightarrow> Some (m, Node ll' c (Node lr b r)))))"

definition splay_deque :: "'h splay \<Rightarrow> ('h event \<times> 'h splay) option" where
  "splay_deque s =
     (case sroot s of
        Leaf \<Rightarrow> None
      | Node l a r \<Rightarrow>
          (case l of
             Leaf \<Rightarrow> Some (a, s\<lparr>qsize := qsize s - 1, sroot := r\<rparr>)
           | Node ll b lr \<Rightarrow>
               (case deque_loop l of
                  None \<Rightarrow> None
                | Some (m, l') \<Rightarrow> Some (m, s\<lparr>qsize := qsize s - 1, sroot := Node l' a r\<rparr>))))"

section \<open>Cancellation and lookup\<close>

text \<open>
  \<open>cancel\<close> searches by time and, among equal times, by uid; the event found is replaced by
  its child or by its successor. Not finding it aborts.
\<close>

fun unlink_min :: "'h event tree \<Rightarrow> ('h event \<times> 'h event tree) option" where
  "unlink_min Leaf = None"
| "unlink_min (Node l p r) =
     (case l of
        Leaf \<Rightarrow> Some (p, r)
      | Node x q y \<Rightarrow>
          (case unlink_min l of None \<Rightarrow> None | Some (m, l') \<Rightarrow> Some (m, Node l' p r)))"

definition drop_node :: "'h event tree \<Rightarrow> 'h event tree \<Rightarrow> 'h event tree" where
  "drop_node l r =
     (if r = Leaf then l
      else if l = Leaf then r
      else (case unlink_min r of None \<Rightarrow> l | Some (q, r') \<Rightarrow> Node l q r'))"

fun cancel_walk :: "'h event tree \<Rightarrow> 'h event \<Rightarrow> 'h event tree res" where
  "cancel_walk Leaf e = Inl Aborted"
| "cancel_walk (Node l a r) e =
     (if ev_uid a = ev_uid e then Inr (drop_node l r)
      else if ev_time e > ev_time a \<or> (ev_time e = ev_time a \<and> ev_uid e > ev_uid a)
      then bindR (cancel_walk r e) (\<lambda>r'. Inr (Node l a r'))
      else bindR (cancel_walk l e) (\<lambda>l'. Inr (Node l' a r)))"

definition splay_cancel :: "'h splay \<Rightarrow> 'h event \<Rightarrow> ('h splay \<times> 'h event) res" where
  "splay_cancel s e =
     (if ev_uid e \<le> 0 then Inr (s, e)
      else bindR (cancel_walk (sroot s) e)
             (\<lambda>t. Inr (s\<lparr>sroot := t, qsize := qsize s - 1\<rparr>, e\<lparr>ev_uid := - ev_uid e\<rparr>)))"

fun uid_lookup :: "'h event tree \<Rightarrow> int \<Rightarrow> 'h event option" where
  "uid_lookup Leaf u = None"
| "uid_lookup (Node l a r) u =
     (if ev_uid a = u then Some a
      else (case uid_lookup l u of Some res \<Rightarrow> Some res | None \<Rightarrow> uid_lookup r u))"

definition splay_lookup :: "'h splay \<Rightarrow> int \<Rightarrow> 'h event option" where
  "splay_lookup s u = uid_lookup (sroot s) u"

text \<open>\<open>validate\<close>: the size of the tree, or a failed assertion about a child on the wrong side.\<close>

fun validate :: "'h event tree \<Rightarrow> int res" where
  "validate Leaf = Inr 0"
| "validate (Node l a r) =
     bindR (assertC (case l of Leaf \<Rightarrow> True | Node x b y \<Rightarrow> ev_time a \<ge> ev_time b)) (\<lambda>_.
     bindR (assertC (case r of Leaf \<Rightarrow> True | Node x b y \<Rightarrow> ev_time a \<le> ev_time b)) (\<lambda>_.
     bindR (validate l) (\<lambda>m. bindR (validate r) (\<lambda>n. Inr (1 + m + n)))))"

section \<open>The tree stands for its events in order\<close>

definition splay_abs :: "'h splay \<Rightarrow> 'h event list" where
  "splay_abs s = inorder (sroot s)"

definition splay_inv :: "'h splay \<Rightarrow> bool" where
  "splay_inv s \<longleftrightarrow> ev_sorted (splay_abs s) \<and> distinct (map ev_uid (splay_abs s))
     \<and> qsize s = int (length (splay_abs s))"

lemma ins_time_split:
  "\<forall>x \<in> set xs. ev_time x \<le> ev_time e \<Longrightarrow> \<forall>y \<in> set ys. ev_time e < ev_time y
   \<Longrightarrow> ins_time e (xs @ ys) = xs @ e # ys"
proof (induction xs)
  case Nil
  then show ?case by (cases ys) auto
next
  case (Cons x xs)
  then show ?case by auto
qed

fun open_left :: "('h event tree \<times> 'h event) list \<Rightarrow> 'h event list" where
  "open_left [] = []"
| "open_left ((lt, a) # ls) = open_left ls @ inorder lt @ [a]"

fun open_right :: "('h event \<times> 'h event tree) list \<Rightarrow> 'h event list" where
  "open_right [] = []"
| "open_right ((a, rt) # rs) = a # inorder rt @ open_right rs"

lemma inorder_plug_left: "inorder (plug_left ls t) = open_left ls @ inorder t"
  by (induction ls t rule: plug_left.induct) auto

lemma inorder_plug_right: "inorder (plug_right rs t) = inorder t @ open_right rs"
  by (induction rs t rule: plug_right.induct) auto

text \<open>
  The loop cuts the tree at the given time: events that are not later go to the left tree, the
  later ones to the right tree, the order is kept.
\<close>

lemma splay_loop_cut:
  assumes "splay_loop tm t ls rs = (lt, rt)" and "ev_sorted (inorder t)"
  shows "\<exists>as bs. inorder t = as @ bs \<and> inorder lt = open_left ls @ as \<and> inorder rt = bs @ open_right rs
    \<and> (\<forall>x \<in> set as. ev_time x \<le> tm) \<and> (\<forall>y \<in> set bs. tm < ev_time y)"
  using assms
proof (induction tm t ls rs rule: splay_loop.induct)
  case (1 tm ls rs)
  then show ?case by (auto simp: inorder_plug_left inorder_plug_right)
next
  case (2 tm lc e rc ls rs)
  have srt: "ev_sorted (inorder lc)" "ev_sorted (inorder rc)"
    "\<forall>x \<in> set (inorder lc). ev_time x \<le> ev_time e" "\<forall>y \<in> set (inorder rc). ev_time e \<le> ev_time y"
    using 2(6) by (auto simp: ev_sorted_append ev_before_def)
  show ?case
  proof (cases "tm < ev_time e")
    case T: True
    have late: "\<forall>y \<in> set (inorder rc). tm < ev_time y" using T srt(4) by auto
    show ?thesis
    proof (cases lc)
      case Leaf
      with T 2(5) late show ?thesis
        by (intro exI [of _ "[]"] exI [of _ "e # inorder rc"])
           (auto simp: inorder_plug_left inorder_plug_right)
    next
      case (Node xl x xr)
      show ?thesis
      proof (cases "tm < ev_time x")
        case True
        have "\<forall>y \<in> set (inorder xr). tm < ev_time y"
          using True srt(1) Node by (auto simp: ev_sorted_append ev_before_def)
        moreover obtain as bs where "inorder xl = as @ bs" "inorder lt = open_left ls @ as"
          "inorder rt = bs @ open_right ((x, Node xr e rc) # rs)"
          "\<forall>x \<in> set as. ev_time x \<le> tm" "\<forall>y \<in> set bs. tm < ev_time y"
          using 2(1) [OF T Node True] 2(5) T True Node srt(1) by (auto simp: ev_sorted_append)
        ultimately show ?thesis using T True Node late
          by (intro exI [of _ as] exI [of _ "bs @ x # inorder xr @ e # inorder rc"]) auto
      next
        case False
        obtain as bs where "inorder lc = as @ bs" "inorder lt = open_left ls @ as"
          "inorder rt = bs @ open_right ((e, rc) # rs)"
          "\<forall>x \<in> set as. ev_time x \<le> tm" "\<forall>y \<in> set bs. tm < ev_time y"
          using 2(2) [OF T Node False] 2(5) T False Node srt(1) by auto
        then show ?thesis using T late
          by (intro exI [of _ as] exI [of _ "bs @ e # inorder rc"]) auto
      qed
    qed
  next
    case F: False
    have early: "\<forall>y \<in> set (inorder lc). ev_time y \<le> tm" using F srt(3) by auto
    show ?thesis
    proof (cases rc)
      case Leaf
      with F 2(5) early show ?thesis
        by (intro exI [of _ "inorder lc @ [e]"] exI [of _ "[]"])
           (auto simp: inorder_plug_left inorder_plug_right)
    next
      case (Node xl x xr)
      show ?thesis
      proof (cases "ev_time x \<le> tm")
        case True
        have "\<forall>y \<in> set (inorder xl). ev_time y \<le> tm"
          using True srt(2) Node by (auto simp: ev_sorted_append ev_before_def)
        moreover obtain as bs where "inorder xr = as @ bs"
          "inorder lt = open_left ((Node lc e xl, x) # ls) @ as" "inorder rt = bs @ open_right rs"
          "\<forall>x \<in> set as. ev_time x \<le> tm" "\<forall>y \<in> set bs. tm < ev_time y"
          using 2(3) [OF F Node True] 2(5) F True Node srt(2) by (auto simp: ev_sorted_append)
        ultimately show ?thesis using F True Node early
          by (intro exI [of _ "inorder lc @ e # inorder xl @ x # as"] exI [of _ bs]) auto
      next
        case False
        obtain as bs where "inorder rc = as @ bs" "inorder lt = open_left ((lc, e) # ls) @ as"
          "inorder rt = bs @ open_right rs"
          "\<forall>x \<in> set as. ev_time x \<le> tm" "\<forall>y \<in> set bs. tm < ev_time y"
          using 2(4) [OF F Node False] 2(5) F False Node srt(2) by auto
        then show ?thesis using F early
          by (intro exI [of _ "inorder lc @ e # as"] exI [of _ bs]) auto
      qed
    qed
  qed
qed

lemma splay_insert_spec:
  assumes "splay_inv s" and "\<forall>x \<in> set (splay_abs s). ev_uid x < ev_uid e"
  shows "splay_inv (splay_insert s e) \<and> splay_abs (splay_insert s e) = ins_time e (splay_abs s)"
proof -
  have abs: "splay_abs (splay_insert s e) = ins_time e (splay_abs s)"
  proof (cases "sroot s")
    case Leaf
    then show ?thesis by (simp add: splay_insert_def splay_abs_def)
  next
    case (Node l a r)
    obtain lt rt where p: "splay_loop (ev_time e) (sroot s) [] [] = (lt, rt)"
      by (cases "splay_loop (ev_time e) (sroot s) [] []")
    from splay_loop_cut [OF p] assms(1) obtain as bs
      where ab: "inorder (sroot s) = as @ bs" "inorder lt = as" "inorder rt = bs"
        "\<forall>x \<in> set as. ev_time x \<le> ev_time e" "\<forall>y \<in> set bs. ev_time e < ev_time y"
      by (auto simp: splay_inv_def splay_abs_def)
    from Node p have "splay_insert s e = s\<lparr>qsize := qsize s + 1, sroot := Node lt e rt\<rparr>"
      by (simp add: splay_insert_def)
    with ab ins_time_split [OF ab(4,5)] show ?thesis by (simp add: splay_abs_def)
  qed
  moreover have "qsize (splay_insert s e) = qsize s + 1"
  proof (cases "sroot s")
    case Leaf
    then show ?thesis by (simp add: splay_insert_def)
  next
    case (Node l a r)
    then show ?thesis
      by (cases "splay_loop (ev_time e) (Node l a r) [] []") (simp add: splay_insert_def)
  qed
  moreover have "length (ins_time e xs) = Suc (length xs)" for xs :: "'a event list"
    by (induction xs) auto
  ultimately show ?thesis
    using assms by (simp add: splay_inv_def ev_sorted_ins_time distinct_uid_ins_time)
qed

lemma deque_loop_inorder:
  "t \<noteq> Leaf \<Longrightarrow> \<exists>m t'. deque_loop t = Some (m, t') \<and> inorder t = m # inorder t'"
proof (induction t rule: deque_loop.induct)
  case 1
  then show ?case by simp
next
  case (2 l b r)
  show ?case
  proof (cases l)
    case Leaf
    then show ?thesis by simp
  next
    case l: (Node ll c lr)
    show ?thesis
    proof (cases ll)
      case Leaf
      with l show ?thesis by simp
    next
      case (Node x d y)
      with 2(1) [OF l Node] l show ?thesis by fastforce
    qed
  qed
qed

lemma splay_deque_Leaf: "sroot s = Leaf \<Longrightarrow> splay_deque s = None"
  by (simp add: splay_deque_def)

lemma splay_deque_Node:
  assumes "sroot s \<noteq> Leaf"
  shows "\<exists>m s'. splay_deque s = Some (m, s') \<and> splay_abs s = m # splay_abs s' \<and> qsize s' = qsize s - 1"
proof -
  from assms obtain l a r where s: "sroot s = Node l a r" by (cases "sroot s") auto
  show ?thesis
  proof (cases l)
    case Leaf
    with s show ?thesis by (simp add: splay_deque_def splay_abs_def)
  next
    case (Node ll b lr)
    with deque_loop_inorder [of l] obtain m l' where "deque_loop l = Some (m, l')" "inorder l = m # inorder l'"
      by auto
    with s Node show ?thesis by (simp add: splay_deque_def splay_abs_def)
  qed
qed

lemma unlink_min_inorder:
  "t \<noteq> Leaf \<Longrightarrow> \<exists>m t'. unlink_min t = Some (m, t') \<and> inorder t = m # inorder t'"
proof (induction t)
  case (Node l a r)
  show ?case
  proof (cases l)
    case (Node x q y)
    with Node.IH(1) show ?thesis by fastforce
  qed simp
qed simp

lemma drop_node_inorder: "inorder (drop_node l r) = inorder l @ inorder r"
proof -
  consider "r = Leaf" | "l = Leaf" | m r' where "r \<noteq> Leaf" "unlink_min r = Some (m, r')" "inorder r = m # inorder r'"
    using unlink_min_inorder [of r] by blast
  then show ?thesis by cases (auto simp: drop_node_def)
qed

lemma cancel_walk_inorder:
  "ev_sorted (inorder t) \<Longrightarrow> distinct (map ev_uid (inorder t)) \<Longrightarrow> e \<in> set (inorder t)
   \<Longrightarrow> \<exists>t'. cancel_walk t e = Inr t' \<and> inorder t' = remove1 e (inorder t)"
proof (induction t)
  case Leaf
  then show ?case by simp
next
  case (Node l a r)
  consider (root) "ev_uid a = ev_uid e" | (right) "ev_uid a \<noteq> ev_uid e" "e \<in> set (inorder r)"
    | (left) "ev_uid a \<noteq> ev_uid e" "e \<in> set (inorder l)"
    using Node.prems(3) by auto
  then show ?case
  proof cases
    case root
    with Node.prems(2,3) have "a = e" and "e \<notin> set (inorder l)" by (auto simp: image_iff)
    then show ?thesis by (simp add: drop_node_inorder remove1_append)
  next
    case right
    from right Node.prems have b: "ev_before a e" "a \<noteq> e" by (auto simp: ev_sorted_append)
    have nl: "e \<notin> set (inorder l)" using right Node.prems(2) by (auto simp: image_iff)
    from Node.prems have "ev_sorted (inorder r)" "distinct (map ev_uid (inorder r))"
      by (auto simp: ev_sorted_append)
    from Node.IH(2) [OF this right(2)] obtain r'
      where "cancel_walk r e = Inr r'" "inorder r' = remove1 e (inorder r)" by blast
    with right b nl show ?thesis by (auto simp: ev_before_def remove1_append)
  next
    case left
    from left Node.prems have b: "ev_before e a" by (auto simp: ev_sorted_append)
    from Node.prems have "ev_sorted (inorder l)" "distinct (map ev_uid (inorder l))"
      by (auto simp: ev_sorted_append)
    from Node.IH(1) [OF this left(2)] obtain l'
      where "cancel_walk l e = Inr l'" "inorder l' = remove1 e (inorder l)" by blast
    with left b show ?thesis by (auto simp: ev_before_def remove1_append)
  qed
qed

lemma uid_lookup_find:
  "distinct (map ev_uid (inorder t)) \<Longrightarrow> uid_lookup t u = find (\<lambda>e. ev_uid e = u) (inorder t)"
proof (induction t)
  case Leaf
  then show ?case by simp
next
  case (Node l a r)
  have app: "find P (xs @ ys) = (case find P xs of None \<Rightarrow> find P ys | Some x \<Rightarrow> Some x)"
    for P and xs ys :: "'a event list"
    by (induction xs) auto
  from Node have "ev_uid a = u \<Longrightarrow> find (\<lambda>e. ev_uid e = u) (inorder l) = None"
    by (auto simp: find_key_None)
  with Node show ?case by (auto simp: app split: option.splits)
qed

interpretation sq: event_queue "sure_ins splay_insert" splay_cancel splay_lookup "sure_deq splay_deque" splay_inv always_room splay_abs
proof (standard, goal_cases)
  case (3 q n e)
  then show ?case using splay_insert_spec by auto
next
  case (4 q)
  then show ?case using splay_deque_Leaf [of q] splay_deque_Node [of q]
    by (cases "sroot q = Leaf") (auto simp: splay_abs_def)
next
  case (5 q e es)
  then have "sroot q \<noteq> Leaf" by (auto simp: splay_abs_def)
  with splay_deque_Node [of q] 5 show ?case by (auto simp: splay_inv_def)
next
  case (6 q e)
  from 6(1) have s: "ev_sorted (inorder (sroot q))" "distinct (map ev_uid (inorder (sroot q)))"
    by (auto simp: splay_inv_def splay_abs_def)
  from 6(2) have mem: "e \<in> set (inorder (sroot q))" by (simp add: splay_abs_def)
  from cancel_walk_inorder [OF s mem] obtain t'
    where t': "cancel_walk (sroot q) e = Inr t'" "inorder t' = remove1 e (inorder (sroot q))" by blast
  have eq: "remove1 e (inorder (sroot q)) = remove_first (\<lambda>x. ev_uid x = ev_uid e) (inorder (sroot q))"
    using remove_first_eq_remove1 [OF s(2) mem] by simp
  have "ev_sorted (inorder t')" "distinct (map ev_uid (inorder t'))"
    using s by (simp_all only: t'(2) eq ev_sorted_remove_first distinct_map_remove_first)
  moreover have "int (length (inorder t')) = int (length (inorder (sroot q))) - 1"
    using length_pos_if_in_set [OF mem] mem unfolding t'(2) by (simp add: length_remove1 of_nat_diff)
  ultimately have "splay_inv (q\<lparr>sroot := t', qsize := qsize q - 1\<rparr>)"
    using 6(1) by (simp add: splay_inv_def splay_abs_def)
  with 6(3) t' show ?case by (simp add: splay_cancel_def splay_abs_def)
qed (auto simp: splay_inv_def splay_lookup_def uid_lookup_find splay_abs_def)

text \<open>In a tree in order \<open>validate\<close> finds no fault and counts the events.\<close>

lemma validate_sorted: "ev_sorted (inorder t) \<Longrightarrow> validate t = Inr (int (size t))"
proof (induction t)
  case Leaf
  then show ?case by simp
next
  case (Node l a r)
  then have "ev_sorted (inorder l)" "ev_sorted (inorder r)"
    "\<forall>x \<in> set (inorder l). ev_time x \<le> ev_time a" "\<forall>y \<in> set (inorder r). ev_time a \<le> ev_time y"
    by (auto simp: ev_sorted_append ev_before_def)
  with Node.IH show ?case by (cases l; cases r) auto
qed

end
