(* ===== verification/SchedCalendar.thy ===== *)
theory SchedCalendar
  imports SchedList
begin

text \<open>
  \<open>CalendarScheduler\<close> of \<open>common/scheduler.cc\<close>, the default discipline of the simulator: a
  calendar queue. The year has \<open>nbuckets\<close> days of length \<open>width\<close>; a bucket holds the events of
  one day of every year, in order of time. Taking the next event walks through the days of one
  year and accepts the first event that falls within the year; the number and the length of the
  days are adjusted to the events. The counters \<open>int\<close> and \<open>double\<close> are integers and reals.
\<close>

section \<open>State\<close>

text \<open>
  A bucket: the circular list from its head, and the number of different times in it. The
  counters of search steps are \<open>unsigned long\<close>.
\<close>

record 'h bucket =
  b_list :: "'h event list"
  b_count :: int

record 'h calendar =
  min_bin_width :: time
  adjust_interval :: u32
  time_to_newwidth :: u32
  head_search :: "64 word"
  insert_search :: "64 word"
  round_num :: int
  gap_num :: int
  last_time :: time
  avg_gap :: time
  width :: time
  diff0 :: time
  diff1 :: time
  diff2 :: time
  stat_qsize :: int
  nbuckets :: nat
  lastbucket :: nat
  top_threshold :: int
  bot_threshold :: int
  buckets :: "'h bucket list"
  cal_qsize :: int
  cal_clock :: time

text \<open>\<open>CALENDAR_HASH\<close>; it is negative for times far enough below 0.\<close>

definition cal_hash :: "time \<Rightarrow> nat \<Rightarrow> time \<Rightarrow> int" where
  "cal_hash w n t = c_trunc (fmod (t / w) (real n))"

section \<open>Inserting into a bucket\<close>

text \<open>
  \<open>insert\<close> looks for the place from the tail backwards, behind all events that are not later,
  and counts its steps. The first list is reversed; the head stops the walk.
\<close>

fun walk_back :: "time \<Rightarrow> 'h event list \<Rightarrow> 'h event list \<Rightarrow> 64 word \<Rightarrow> 'h event list \<times> 'h event list \<times> 64 word" where
  "walk_back tm [] later k = ([], later, k)"
| "walk_back tm (a # front) later k =
     (if tm < ev_time a then walk_back tm front (a # later) (k + 1) else (a # front, later, k))"

text \<open>The new bucket, whether the time is new in it, and the number of steps.\<close>

definition bucket_insert :: "'h event \<Rightarrow> 'h bucket \<Rightarrow> 'h bucket \<times> bool \<times> 64 word" where
  "bucket_insert e b =
     (case b_list b of
        [] \<Rightarrow> (\<lparr>b_list = [e], b_count = b_count b + 1\<rparr>, True, 0)
      | h # _ \<Rightarrow>
          if ev_time e < ev_time h then
            (\<lparr>b_list = e # b_list b, b_count = b_count b + 1\<rparr>, True, 1)
          else
            (let (front, later, k) = walk_back (ev_time e) (rev (b_list b)) [] 1;
                 fresh = ev_time (hd front) < ev_time e
             in (\<lparr>b_list = rev front @ e # later, b_count = b_count b + (if fresh then 1 else 0)\<rparr>,
                 fresh, k)))"

text \<open>
  \<open>insert2\<close> puts the event before all events that are not earlier. It looks at the tail first;
  the next event of an event at the tail is the head.
\<close>

definition bucket_insert2 :: "'h event \<Rightarrow> 'h bucket \<Rightarrow> 'h bucket \<times> bool" where
  "bucket_insert2 e b =
     (case b_list b of
        [] \<Rightarrow> (\<lparr>b_list = [e], b_count = b_count b + 1\<rparr>, True)
      | h # _ \<Rightarrow>
          (let (front, back) =
                 (if ev_time e > ev_time (last (b_list b)) then (b_list b, [])
                  else (takeWhile (\<lambda>x. ev_time e > ev_time x) (b_list b),
                        dropWhile (\<lambda>x. ev_time e > ev_time x) (b_list b)));
               fresh = ev_time (hd (back @ [h])) \<noteq> ev_time e
           in (\<lparr>b_list = front @ e # back, b_count = b_count b + (if fresh then 1 else 0)\<rparr>, fresh)))"

text \<open>A bucket index outside the array ends the simulator.\<close>

definition cal_insert2 :: "'h calendar \<Rightarrow> 'h event \<Rightarrow> 'h calendar res" where
  "cal_insert2 q e =
     (let i = cal_hash (width q) (nbuckets q) (ev_time e)
      in if i < 0 \<or> int (length (buckets q)) \<le> i then Inl OutOfBounds
         else
           (let (b, fresh) = bucket_insert2 e (buckets q ! nat i)
            in Inr (q\<lparr>buckets := (buckets q)[nat i := b],
                      stat_qsize := stat_qsize q + (if fresh then 1 else 0),
                      cal_qsize := cal_qsize q + 1\<rparr>)))"

section \<open>Adjusting the year\<close>

definition cal_reinit :: "nat \<Rightarrow> time \<Rightarrow> time \<Rightarrow> 'h calendar \<Rightarrow> 'h calendar" where
  "cal_reinit nbuck bwidth start q =
     q\<lparr>buckets := replicate nbuck \<lparr>b_list = [], b_count = 0\<rparr>, width := bwidth, nbuckets := nbuck,
       cal_qsize := 0, stat_qsize := 0, lastbucket := nat (cal_hash bwidth nbuck start),
       diff0 := bwidth * real nbuck / 2, diff1 := bwidth * real nbuck / 2 + bwidth,
       diff2 := bwidth * real nbuck, bot_threshold := int (nbuck div 2) - 2,
       top_threshold := int (nbuck * 2)\<rparr>"

text \<open>The index of the first bucket with the most times.\<close>

fun fullest :: "'h bucket list \<Rightarrow> nat \<Rightarrow> nat \<Rightarrow> nat" where
  "fullest bs 0 m = m"
| "fullest bs (Suc k) m =
     (let i = length bs - Suc k
      in fullest bs k (if b_count (bs ! i) > b_count (bs ! m) then i else m))"

definition cal_newwidth :: "nat \<Rightarrow> 'h calendar \<Rightarrow> (time \<times> 'h calendar) res" where
  "cal_newwidth newsize q =
     (let q1 = (if adjust_interval q \<noteq> 0 then q\<lparr>time_to_newwidth := adjust_interval q\<rparr> else q)
      in if adjust_interval q \<noteq> 0 \<and> avg_gap q > 0 then Inr (avg_gap q * 4, q1)
         else
           (let b = buckets q ! fullest (buckets q) (nbuckets q - 1) 0;
                nsamples = b_count b
            in if nsamples \<le> 4 then Inr (width q, q1)
               else if b_list b = [] then Inl NullDeref
               else
                 (let nw = ev_time (last (b_list b)) - ev_time (hd (b_list b))
                  in bindR (assertC (nw > 0)) (\<lambda>_.
                       Inr (nw / of_int (if int newsize < nsamples then int newsize else nsamples) * 4, q1)))))"

text \<open>The events of the old buckets, each from its tail to its head, are inserted anew.\<close>

fun insert2_all :: "'h event list \<Rightarrow> 'h calendar \<Rightarrow> 'h calendar res" where
  "insert2_all [] q = Inr q"
| "insert2_all (e # es) q = bindR (cal_insert2 q e) (insert2_all es)"

definition cal_rebuild :: "nat \<Rightarrow> time \<Rightarrow> time \<Rightarrow> 'h calendar \<Rightarrow> 'h calendar res" where
  "cal_rebuild newsize bwidth start q =
     bindR (insert2_all (concat (map (\<lambda>b. rev (b_list b)) (buckets q))) (cal_reinit newsize bwidth start q))
       (\<lambda>q'. Inr (q'\<lparr>head_search := 0, insert_search := 0, round_num := 0\<rparr>))"

definition cal_resize :: "nat \<Rightarrow> time \<Rightarrow> 'h calendar \<Rightarrow> 'h calendar res" where
  "cal_resize newsize start q =
     (if newsize = nbuckets q then
        (let b1 = (if head_search q \<noteq> 0 then real (unat (head_search q)) else 1);
             b2 = (if insert_search q \<noteq> 0 then b1 / real (unat (insert_search q)) else b1);
             bwidth = sqrt b2 * width q
         in if bwidth < min_bin_width q then
              (if time_to_newwidth q > 0 then
                 Inr (q\<lparr>time_to_newwidth := time_to_newwidth q - 1, head_search := 0,
                        insert_search := 0, round_num := 0\<rparr>)
               else
                 bindR (cal_newwidth newsize q) (\<lambda>(bw, q1). cal_rebuild newsize bw start q1))
            else cal_rebuild newsize bwidth start q)
      else
        bindR (cal_newwidth newsize q)
          (\<lambda>(bw, q1). cal_rebuild (if newsize < 4 then 4 else newsize) bw start q1))"

text \<open>
  The constructor; \<open>raw\<close> is the memory of the object, \<open>mbw\<close> and \<open>interval\<close> are the values bound
  from Tcl.
\<close>

definition cal_new :: "'h calendar \<Rightarrow> time \<Rightarrow> u32 \<Rightarrow> 'h calendar" where
  "cal_new raw mbw interval =
     (let q = raw\<lparr>cal_clock := 0, min_bin_width := mbw, adjust_interval := interval\<rparr>;
          q1 = (if interval \<noteq> 0 then
                  q\<lparr>avg_gap := -2, last_time := -2, gap_num := 0, head_search := 0,
                    insert_search := 0, round_num := 0, time_to_newwidth := interval\<rparr>
                else q)
      in cal_reinit 4 1 0 q1)"

section \<open>The operations of the scheduler\<close>

definition cal_insert :: "'h calendar \<Rightarrow> 'h event \<Rightarrow> 'h calendar res" where
  "cal_insert q e =
     (let newtime = ev_time e;
          i = cal_hash (width q) (nbuckets q) newtime;
          q1 = (if cal_clock q > newtime then q\<lparr>cal_clock := newtime, lastbucket := nat i\<rparr> else q)
      in if i < 0 \<or> int (length (buckets q)) \<le> i then Inl OutOfBounds
         else
           (let (b, fresh, k) = bucket_insert e (buckets q ! nat i);
                q2 = q1\<lparr>buckets := (buckets q)[nat i := b], insert_search := insert_search q + k,
                        stat_qsize := stat_qsize q + (if fresh then 1 else 0),
                        cal_qsize := cal_qsize q + 1\<rparr>
            in if stat_qsize q2 > top_threshold q2 then cal_resize (nbuckets q2 * 2) (cal_clock q2) q2
               else Inr q2))"

text \<open>
  \<open>CAL_DEQUEUE\<close>, applied once for each bound in the list: a bucket whose first event is less
  than the bound after the clock ends the search; otherwise the earliest event seen is kept, with
  its bucket. The result is the event found, or the index reached and the earliest event; and the
  number of buckets searched.
\<close>

fun cal_scan :: "'h bucket list \<Rightarrow> time \<Rightarrow> time list \<Rightarrow> nat \<Rightarrow> (nat \<times> 'h event) option \<Rightarrow> 64 word
    \<Rightarrow> ((nat \<times> 'h event) + (nat \<times> (nat \<times> 'h event) option)) \<times> 64 word" where
  "cal_scan bs c [] i m k = (Inr (i, m), k)"
| "cal_scan bs c (d # ds) i m k =
     (let i' = (if Suc i = length bs then 0 else Suc i)
      in case b_list (bs ! i) of
           [] \<Rightarrow> cal_scan bs c ds i' m (k + 1)
         | e # _ \<Rightarrow>
             if ev_time e - c < d then (Inl (i, e), k + 1)
             else
               cal_scan bs c ds i'
                 (case m of
                    None \<Rightarrow> Some (i, e)
                  | Some (l, f) \<Rightarrow> if ev_time f > ev_time e then Some (i, e) else m) (k + 1))"

text \<open>
  The loop over the buckets ends before the one that precedes \<open>lastbucket\<close>: with the first two
  it looks at all \<open>nbuckets\<close> buckets but one. That one only takes part in the minimum.
\<close>

definition cal_head :: "'h calendar \<Rightarrow> ('h event option \<times> 'h calendar) res" where
  "cal_head q =
     (if cal_qsize q = 0 then Inr (None, q)
      else
        (let (r, k) = cal_scan (buckets q) (cal_clock q)
               (diff0 q # diff1 q # replicate (nbuckets q - 3) (diff2 q)) (lastbucket q) None 0;
             q1 = q\<lparr>head_search := head_search q + k\<rparr>;
             final = (\<lambda>(l, e). Inr (Some e, q1\<lparr>lastbucket := l, cal_clock := ev_time e\<rparr>))
         in case r of
              Inl found \<Rightarrow> final found
            | Inr (i, m) \<Rightarrow>
                (case (m, b_list (buckets q ! i)) of
                   (None, []) \<Rightarrow> Inl NullDeref
                 | (None, e # _) \<Rightarrow> final (i, e)
                 | (Some (l, f), []) \<Rightarrow> final (l, f)
                 | (Some (l, f), e # _) \<Rightarrow> if ev_time f < ev_time e then final (l, f) else final (i, e))))"

text \<open>The statistics of \<open>deque\<close>: the average gap between departures, and when to change the width.\<close>

definition cal_adjust :: "'h event \<Rightarrow> 'h calendar \<Rightarrow> 'h calendar res" where
  "cal_adjust e q =
     (if adjust_interval q = 0 then Inr q
      else if last_time q < 0 then Inr (q\<lparr>last_time := ev_time e\<rparr>)
      else
        (let q1 = q\<lparr>gap_num := gap_num q + 1\<rparr>
         in if gap_num q1 \<ge> cal_qsize q1 then
              (let tt_gap = ev_time e - last_time q1;
                   q2 = q1\<lparr>avg_gap := tt_gap / of_int (gap_num q1), gap_num := 0,
                           last_time := ev_time e, round_num := round_num q1 + 1\<rparr>
               in if round_num q2 > 20
                     \<and> (head_search q2 > push_bit 1 (insert_search q2)
                        \<or> insert_search q2 > push_bit 1 (head_search q2)) then
                    bindR (cal_resize (nbuckets q2) (cal_clock q2) q2)
                      (\<lambda>q3. Inr (q3\<lparr>round_num := 0\<rparr>))
                  else if round_num q2 > 100 then
                    Inr (q2\<lparr>round_num := 0, head_search := 0, insert_search := 0\<rparr>)
                  else Inr q2)
            else Inr q1))"

text \<open>
  Unlinking an event from the circular list of its bucket. The list then starts with the event
  after it; \<open>None\<close> when the event is not in the bucket.
\<close>

fun unlink_from :: "'h event list \<Rightarrow> 'h event \<Rightarrow> 'h event list \<Rightarrow> ('h event list \<times> 'h event list) option" where
  "unlink_from front e [] = None"
| "unlink_from front e (x # xs) =
     (if ev_uid x = ev_uid e then Some (rev front, xs) else unlink_from (x # front) e xs)"

definition cal_deque :: "'h calendar \<Rightarrow> ('h event \<times> 'h calendar) option res" where
  "cal_deque q =
     bindR (cal_head q) (\<lambda>(ev, q1).
       case ev of
         None \<Rightarrow> Inr None
       | Some e \<Rightarrow>
           bindR (cal_adjust e q1) (\<lambda>q2.
             let l = lastbucket q2; b = buckets q2 ! l
             in case unlink_from [] e (b_list b) of
                  None \<Rightarrow> Inl OutOfBounds
                | Some (front, back) \<Rightarrow>
                    (let rest = back @ front;
                         alone = (rest = [] \<or> ev_time (hd rest) \<noteq> ev_time e);
                         q3 = q2\<lparr>buckets := (buckets q2)[l :=
                                   \<lparr>b_list = rest, b_count = b_count b - (if alone then 1 else 0)\<rparr>],
                                 stat_qsize := stat_qsize q2 - (if alone then 1 else 0),
                                 cal_qsize := cal_qsize q2 - 1\<rparr>
                     in if stat_qsize q3 < bot_threshold q3 then
                          bindR (cal_resize (nbuckets q3 div 2) (cal_clock q3) q3)
                            (\<lambda>q4. Inr (Some (e, q4)))
                        else Inr (Some (e, q3)))))"

text \<open>
  Whether an event is the only one of its time in its bucket, as \<open>cancel\<close> decides it: from its
  two neighbours in the circular list.
\<close>

definition only_of_time :: "'h event \<Rightarrow> 'h event list \<Rightarrow> 'h event list \<Rightarrow> bool" where
  "only_of_time e front back \<longleftrightarrow>
     front @ back = [] \<or> ev_time (hd (back @ front)) \<noteq> ev_time e \<and> ev_time (last (back @ front)) \<noteq> ev_time e"

text \<open>
  \<open>cancel\<close>: an event that is not queued is left alone; the links of an event that is in no
  bucket are null.
\<close>

definition cal_cancel :: "'h calendar \<Rightarrow> 'h event \<Rightarrow> ('h calendar \<times> 'h event) res" where
  "cal_cancel q e =
     (if ev_uid e \<le> 0 then Inr (q, e)
      else
        (let i = cal_hash (width q) (nbuckets q) (ev_time e)
         in if i < 0 \<or> int (length (buckets q)) \<le> i then Inl OutOfBounds
            else
              (let b = buckets q ! nat i
               in case unlink_from [] e (b_list b) of
                    None \<Rightarrow> Inl NullDeref
                  | Some (front, back) \<Rightarrow>
                      (let rest = front @ back;
                           alone = only_of_time e front back;
                           d = (if alone then 1 else 0)
                       in bindR (assertC (alone \<longrightarrow> stat_qsize q - 1 \<ge> 0 \<and> b_count b - 1 \<ge> 0)) (\<lambda>_.
                          bindR (assertC (b_count b - d = 0 \<longrightarrow> rest = [])) (\<lambda>_.
                            Inr (q\<lparr>buckets := (buckets q)[nat i := \<lparr>b_list = rest, b_count = b_count b - d\<rparr>],
                                   stat_qsize := stat_qsize q - d, cal_qsize := cal_qsize q - 1\<rparr>,
                                 e\<lparr>ev_uid := - ev_uid e\<rparr>)))))))"

definition cal_lookup :: "'h calendar \<Rightarrow> int \<Rightarrow> 'h event option" where
  "cal_lookup q uid = find (\<lambda>p. ev_uid p = uid) (concat (map b_list (buckets q)))"

end
