(* ===== verification/SchedCalendarInv.thy ===== *)
theory SchedCalendarInv
  imports SchedCalendar
begin

text \<open>
  The calendar queue satisfies the interface of a discipline: the invariant, the days of a year,
  and that each operation does to the sorted list of all events what it should.
\<close>

section \<open>Hashing\<close>

lemma cal_hash_eq:
  assumes "0 \<le> t" and "0 < w"
  shows "cal_hash w n t = \<lfloor>t / w\<rfloor> mod int n"
proof -
  let ?x = "t / w"
  have x: "0 \<le> ?x" using assms by simp
  then have "fmod ?x (real n) = ?x - real_of_int (int n * (\<lfloor>?x\<rfloor> div int n))"
    using floor_divide_real_eq_div [of "int n" ?x] assms by (simp add: fmod_def c_trunc_def)
  then have f: "\<lfloor>fmod ?x (real n)\<rfloor> = \<lfloor>?x\<rfloor> mod int n"
    by (simp only: floor_diff_of_int minus_mult_div_eq_mod)
  have "0 \<le> \<lfloor>fmod ?x (real n)\<rfloor>"
    unfolding f using x by (cases "n = 0") auto
  then have "0 \<le> fmod ?x (real n)" by (simp only: zero_le_floor)
  with f show ?thesis by (simp add: cal_hash_def c_trunc_def)
qed

lemma cal_hash_range: "0 \<le> t \<Longrightarrow> 0 < w \<Longrightarrow> 0 < n \<Longrightarrow> 0 \<le> cal_hash w n t \<and> cal_hash w n t < int n"
  by (simp add: cal_hash_eq)

section \<open>The invariant\<close>

definition bucket_ok :: "time \<Rightarrow> time \<Rightarrow> nat \<Rightarrow> nat \<Rightarrow> 'h bucket \<Rightarrow> bool" where
  "bucket_ok c w n i b \<longleftrightarrow>
     ev_sorted (b_list b) \<and> b_count b = int (card (ev_time ` set (b_list b)))
     \<and> (\<forall>x \<in> set (b_list b). c \<le> ev_time x \<and> cal_hash w n (ev_time x) = int i)"

definition cal_events :: "'h bucket list \<Rightarrow> 'h event list" where
  "cal_events bs = concat (map b_list bs)"

definition buckets_ok :: "time \<Rightarrow> time \<Rightarrow> nat \<Rightarrow> 'h bucket list \<Rightarrow> bool" where
  "buckets_ok c w n bs \<longleftrightarrow> length bs = n \<and> (\<forall>i < n. bucket_ok c w n i (bs ! i))"

text \<open>The sizes and thresholds that \<open>reinit\<close> sets, the counters, and distinct uids.\<close>

definition cal_frame :: "'h calendar \<Rightarrow> bool" where
  "cal_frame q \<longleftrightarrow>
     4 \<le> nbuckets q \<and> 0 < width q \<and> 0 \<le> cal_clock q
     \<and> int (lastbucket q) = cal_hash (width q) (nbuckets q) (cal_clock q)
     \<and> diff0 q = width q * real (nbuckets q) / 2 \<and> diff1 q = diff0 q + width q
     \<and> diff2 q = width q * real (nbuckets q)
     \<and> bot_threshold q = int (nbuckets q div 2) - 2"

definition cal_inv :: "'h calendar \<Rightarrow> bool" where
  "cal_inv q \<longleftrightarrow>
     cal_frame q \<and> buckets_ok (cal_clock q) (width q) (nbuckets q) (buckets q)
     \<and> stat_qsize q = sum_list (map b_count (buckets q))
     \<and> cal_qsize q = int (length (cal_events (buckets q)))
     \<and> distinct (map ev_uid (cal_events (buckets q)))"

text \<open>The events in dispatch order.\<close>

definition cal_abs :: "'h calendar \<Rightarrow> 'h event list" where
  "cal_abs q = sort_key ev_time (sort_key ev_uid (cal_events (buckets q)))"

lemma ev_sorted_insort_uid:
  "ev_sorted xs \<Longrightarrow> \<forall>x \<in> set xs. ev_uid e < ev_uid x \<Longrightarrow> ev_sorted (insort_key ev_time e xs)"
  by (induction xs) (auto simp: ev_before_def set_insort_key)

lemma ev_sorted_sort:
  "sorted (map ev_uid ys) \<Longrightarrow> distinct (map ev_uid ys) \<Longrightarrow> ev_sorted (sort_key ev_time ys)"
proof (induction ys)
  case (Cons y ys)
  then have "\<forall>x \<in> set ys. ev_uid y < ev_uid x" by (fastforce simp: less_le)
  with Cons show ?case by (simp add: ev_sorted_insort_uid)
qed simp

lemma distinct_map_sort_key: "distinct (map f (sort_key k xs)) \<longleftrightarrow> distinct (map f xs)"
  by (simp flip: distinct_count_atmost_1 add: mset_eq_imp_distinct_iff [of "map f (sort_key k xs)" "map f xs"])

lemma cal_abs_sorted:
  assumes "distinct (map ev_uid (cal_events (buckets q)))"
  shows "ev_sorted (cal_abs q)" and "distinct (map ev_uid (cal_abs q))"
  using assms by (auto simp: cal_abs_def distinct_map_sort_key intro!: ev_sorted_sort)

lemma set_cal_abs [simp]: "set (cal_abs q) = set (cal_events (buckets q))"
  by (simp add: cal_abs_def)

lemma cal_abs_eqI:
  "distinct (map ev_uid (cal_events (buckets q))) \<Longrightarrow> ev_sorted xs \<Longrightarrow> set xs = set (cal_events (buckets q))
   \<Longrightarrow> cal_abs q = xs"
  by (rule ev_sorted_unique) (simp_all add: cal_abs_sorted)


section \<open>Changing one bucket\<close>

lemma cal_events_update:
  assumes "i < length bs"
  shows "mset (cal_events (bs[i := b])) + mset (b_list (bs ! i)) = mset (cal_events bs) + mset (b_list b)"
  using assms
proof (induction bs arbitrary: i)
  case (Cons a bs)
  then show ?case by (cases i) (auto simp: cal_events_def add_ac)
qed simp

lemma sum_count_update:
  "i < length bs \<Longrightarrow> sum_list (map b_count (bs[i := b])) = sum_list (map b_count bs) - b_count (bs ! i) + b_count b"
proof (induction bs arbitrary: i)
  case (Cons a bs)
  then show ?case by (cases i) auto
qed simp

lemma buckets_ok_update:
  "buckets_ok c w n bs \<Longrightarrow> bucket_ok c w n i b \<Longrightarrow> i < n \<Longrightarrow> buckets_ok c w n (bs[i := b])"
  by (auto simp: buckets_ok_def nth_list_update)

lemma set_cal_events: "set (cal_events bs) = (\<Union>b \<in> set bs. set (b_list b))"
  by (simp add: cal_events_def)

lemma cal_events_in: "i < length bs \<Longrightarrow> x \<in> set (b_list (bs ! i)) \<Longrightarrow> x \<in> set (cal_events bs)"
  by (auto simp: set_cal_events intro: nth_mem)

lemma cal_events_ok:
  assumes "buckets_ok c w n bs" and "x \<in> set (cal_events bs)"
  obtains i where "i < n" "x \<in> set (b_list (bs ! i))" "c \<le> ev_time x" "cal_hash w n (ev_time x) = int i"
    "nat (cal_hash w n (ev_time x)) = i"
proof -
  from assms(2) obtain b where "b \<in> set bs" "x \<in> set (b_list b)" by (auto simp: set_cal_events)
  then obtain i where i: "i < length bs" "x \<in> set (b_list (bs ! i))" by (auto simp: in_set_conv_nth [of b])
  with assms(1) have "bucket_ok c w n i (bs ! i)" "i < n" by (auto simp: buckets_ok_def)
  with i(2) that [of i] show ?thesis by (simp add: bucket_ok_def)
qed

text \<open>Adding one event to its bucket.\<close>

lemma add_event:
  assumes "i < length bs" and "mset (b_list b) = add_mset e (mset (b_list (bs ! i)))"
  shows "mset (cal_events (bs[i := b])) = add_mset e (mset (cal_events bs))"
  using cal_events_update [OF assms(1), of b] assms(2) by simp

lemma card_times_insert:
  "card (ev_time ` insert e (set xs))
    = card (ev_time ` set xs) + (if ev_time e \<in> ev_time ` set xs then 0 else 1)"
  by (simp add: insert_absorb)

lemma bucket_ok_add:
  assumes "bucket_ok c w n i b" and "ev_sorted (b_list b')" and "set (b_list b') = insert e (set (b_list b))"
    and "b_count b' = b_count b + (if ev_time e \<in> ev_time ` set (b_list b) then 0 else 1)"
    and "c \<le> ev_time e" and "cal_hash w n (ev_time e) = int i"
  shows "bucket_ok c w n i b'"
  using assms card_times_insert [of e "b_list b"] by (auto simp: bucket_ok_def)

lemma ev_sorted_times: "ev_sorted xs \<Longrightarrow> sorted (map ev_time xs)"
  by (induction xs) (auto simp: ev_before_def)

text \<open>\<open>insert\<close> in a bucket.\<close>

lemma walk_back_spec:
  "walk_back tm rs later k = (front, later', k') \<Longrightarrow> rev rs @ later = rev front @ later' \<and>
    (front \<noteq> [] \<longrightarrow> ev_time (hd front) \<le> tm) \<and> (front = [] \<longrightarrow> (\<forall>x \<in> set rs. tm < ev_time x)) \<and>
    ((\<forall>x \<in> set later. tm < ev_time x) \<longrightarrow> (\<forall>x \<in> set later'. tm < ev_time x))"
proof (induction tm rs later k rule: walk_back.induct)
  case (2 tm a rs later k)
  then show ?case by (cases "tm < ev_time a") auto
qed auto

lemma bucket_insert_spec:
  assumes "ev_sorted (b_list b)" and "\<forall>x \<in> set (b_list b). ev_uid x < ev_uid e"
    and r: "bucket_insert e b = (b', fresh, k)"
  shows "ev_sorted (b_list b')" and "mset (b_list b') = add_mset e (mset (b_list b))"
    and "b_count b' = b_count b + (if fresh then 1 else 0)"
    and "fresh \<longleftrightarrow> ev_time e \<notin> ev_time ` set (b_list b)"
proof -
  have "ev_sorted (b_list b') \<and> mset (b_list b') = add_mset e (mset (b_list b))
    \<and> b_count b' = b_count b + (if fresh then 1 else 0) \<and> (fresh \<longleftrightarrow> ev_time e \<notin> ev_time ` set (b_list b))"
  proof (cases "b_list b")
    case Nil
    with r show ?thesis by (auto simp: bucket_insert_def)
  next
    case (Cons h t)
    show ?thesis
    proof (cases "ev_time e < ev_time h")
      case True
      with r Cons assms(1) show ?thesis by (fastforce simp: bucket_insert_def ev_before_def)
    next
      case False
      obtain front later k' where w: "walk_back (ev_time e) (rev (b_list b)) [] 1 = (front, later, k')"
        by (cases "walk_back (ev_time e) (rev (b_list b)) [] 1")
      from walk_back_spec [OF w] have eq: "b_list b = rev front @ later"
        and ne: "front \<noteq> [] \<Longrightarrow> ev_time (hd front) \<le> ev_time e" "front = [] \<Longrightarrow> \<forall>x \<in> set (b_list b). ev_time e < ev_time x"
        and l: "\<forall>x \<in> set later. ev_time e < ev_time x" by auto
      from ne(2) False Cons have "front \<noteq> []" by auto
      then obtain a as where f: "front = a # as" by (cases front) auto
      from assms(1) have s: "ev_sorted (rev as @ a # later)" by (simp add: eq f)
      then have "\<forall>x \<in> set as. ev_before x a" and "ev_sorted (rev as)" "ev_sorted later" by (auto simp: ev_sorted_append)
      moreover have a: "ev_time a \<le> ev_time e" using ne(1) f by simp
      moreover have "\<forall>x \<in> set (rev front). ev_uid x < ev_uid e" using assms(2) by (simp add: eq)
      ultimately have "ev_sorted (rev front @ e # later)"
        using s l by (auto simp: ev_sorted_append f ev_before_def)
      moreover from r Cons False w have "b' = \<lparr>b_list = rev front @ e # later, b_count = b_count b + (if fresh then 1 else 0)\<rparr>"
        "fresh = (ev_time a < ev_time e)" by (auto simp: bucket_insert_def Let_def f)
      moreover have "ev_time a < ev_time e \<longleftrightarrow> ev_time e \<notin> ev_time ` set (b_list b)"
        using a l \<open>\<forall>x \<in> set as. ev_before x a\<close> by (auto simp: eq f ev_before_def)
      ultimately show ?thesis by (simp add: eq)
    qed
  qed
  then show "ev_sorted (b_list b')" "mset (b_list b') = add_mset e (mset (b_list b))"
    "b_count b' = b_count b + (if fresh then 1 else 0)" "fresh \<longleftrightarrow> ev_time e \<notin> ev_time ` set (b_list b)" by auto
qed

text \<open>\<open>insert2\<close> in a bucket.\<close>

lemma span_sorted:
  "ev_sorted xs \<Longrightarrow> \<forall>x \<in> set (takeWhile (\<lambda>x. tm > ev_time x) xs). ev_time x < tm"
  "ev_sorted xs \<Longrightarrow> \<forall>x \<in> set (dropWhile (\<lambda>x. tm > ev_time x) xs). tm \<le> ev_time x"
  by (induction xs) (auto simp: ev_before_def)

lemma ev_sorted_mid:
  assumes "ev_sorted (xs @ ys)" and "\<forall>x \<in> set xs. ev_time x < ev_time e"
    and "\<forall>y \<in> set ys. ev_time e \<le> ev_time y" and "\<forall>y \<in> set ys. ev_time y = ev_time e \<longrightarrow> ev_uid e < ev_uid y"
  shows "ev_sorted (xs @ e # ys)"
  using assms by (fastforce simp: ev_sorted_append ev_before_def)

lemma sorted_wrt_last: "sorted_wrt R xs \<Longrightarrow> x \<in> set xs \<Longrightarrow> x = last xs \<or> R x (last xs)"
  by (induction xs) (auto split: if_splits)

lemma bucket_insert2_spec:
  assumes sorted: "ev_sorted (b_list b)" and uid: "\<forall>x \<in> set (b_list b). ev_time x = ev_time e \<longrightarrow> ev_uid e < ev_uid x"
    and r: "bucket_insert2 e b = (b', fresh)"
  shows "ev_sorted (b_list b') \<and> mset (b_list b') = add_mset e (mset (b_list b))
    \<and> b_count b' = b_count b + (if fresh then 1 else 0) \<and> (fresh \<longleftrightarrow> ev_time e \<notin> ev_time ` set (b_list b))"
proof (cases "b_list b")
  case Nil
  with r show ?thesis by (auto simp: bucket_insert2_def)
next
  case (Cons h t)
  let ?late = "ev_time e > ev_time (last (b_list b))"
  obtain fr bk where fb: "(if ?late then (b_list b, [])
      else (takeWhile (\<lambda>x. ev_time e > ev_time x) (b_list b),
            dropWhile (\<lambda>x. ev_time e > ev_time x) (b_list b))) = (fr, bk)" by fastforce
  then have eq: "b_list b = fr @ bk" by (auto split: if_splits)
  have ft: "\<forall>x \<in> set fr. ev_time x < ev_time e"
  proof (cases ?late)
    case True
    have "x = last (b_list b) \<or> ev_before x (last (b_list b))" if "x \<in> set (b_list b)" for x
      using sorted_wrt_last [OF sorted [unfolded ev_sorted_def] that] .
    with True fb show ?thesis by (fastforce simp: ev_before_def)
  qed (use span_sorted(1) [OF sorted] fb in auto)
  have bk: "\<forall>x \<in> set bk. ev_time e \<le> ev_time x"
    using span_sorted(2) [OF sorted] fb by (auto split: if_splits)
  have b': "b' = \<lparr>b_list = fr @ e # bk, b_count = b_count b + (if fresh then 1 else 0)\<rparr>"
    and fresh: "fresh \<longleftrightarrow> ev_time (hd (bk @ [h])) \<noteq> ev_time e"
    using r [unfolded bucket_insert2_def fb] by (auto simp: Cons Let_def)
  have "ev_time (hd (bk @ [h])) \<noteq> ev_time e \<longleftrightarrow> ev_time e \<notin> ev_time ` set (b_list b)"
  proof (cases bk)
    case Nil
    with eq Cons have "h \<in> set fr" by (metis append_Nil2 list.set_intros(1))
    with ft Nil show ?thesis by (fastforce simp: eq)
  next
    case (Cons y ys)
    with sorted have "\<forall>x \<in> set ys. ev_time y \<le> ev_time x" by (auto simp: eq ev_sorted_append ev_before_def)
    with Cons ft bk show ?thesis by (fastforce simp: eq)
  qed
  moreover have "ev_sorted (fr @ e # bk)"
    by (rule ev_sorted_mid) (use sorted ft bk uid eq in auto)
  ultimately show ?thesis by (simp add: b' fresh eq)
qed

section \<open>Adding an event\<close>

lemma bucket_ok_earlier: "bucket_ok c w n i b \<Longrightarrow> c' \<le> c \<Longrightarrow> bucket_ok c' w n i b"
  by (fastforce simp: bucket_ok_def)

lemma bucket_ok_sorted: "bucket_ok c w n i b \<Longrightarrow> ev_sorted (b_list b)"
  by (simp add: bucket_ok_def)

lemma distinct_uid_add:
  assumes "mset ys = add_mset e (mset xs)"
  shows "distinct (map ev_uid ys) \<longleftrightarrow> distinct (map ev_uid xs) \<and> ev_uid e \<notin> ev_uid ` set xs"
proof -
  have "mset (map ev_uid ys) = mset (map ev_uid (e # xs))" using assms by simp
  then show ?thesis using mset_eq_imp_distinct_iff by fastforce
qed

lemma cal_inv_bucket:
  "cal_inv q \<Longrightarrow> i < nbuckets q \<Longrightarrow> bucket_ok (cal_clock q) (width q) (nbuckets q) i (buckets q ! i)"
  by (simp add: cal_inv_def buckets_ok_def)

lemma cal_inv_hash:
  assumes "cal_inv q" and "0 \<le> t"
  shows "0 \<le> cal_hash (width q) (nbuckets q) t" "cal_hash (width q) (nbuckets q) t < int (nbuckets q)"
    "length (buckets q) = nbuckets q"
  using assms cal_hash_range [of t "width q" "nbuckets q"]
  by (auto simp: cal_inv_def cal_frame_def buckets_ok_def)

lemma cal_inv_add:
  assumes inv: "cal_inv q" and frame: "cal_frame q'"
    and same: "width q' = width q" "nbuckets q' = nbuckets q" "cal_clock q' \<le> cal_clock q"
    and i: "i = nat (cal_hash (width q) (nbuckets q) (ev_time e))"
    and t: "0 \<le> ev_time e" "cal_clock q' \<le> ev_time e"
    and bs: "buckets q' = (buckets q)[i := b']"
    and b': "ev_sorted (b_list b')" "mset (b_list b') = add_mset e (mset (b_list (buckets q ! i)))"
      "b_count b' = b_count (buckets q ! i) + (if fresh then 1 else 0)"
      "fresh \<longleftrightarrow> ev_time e \<notin> ev_time ` set (b_list (buckets q ! i))"
    and cnt: "stat_qsize q' = stat_qsize q + (if fresh then 1 else 0)" "cal_qsize q' = cal_qsize q + 1"
    and uid: "ev_uid e \<notin> ev_uid ` set (cal_events (buckets q))"
  shows "cal_inv q'" and "mset (cal_events (buckets q')) = add_mset e (mset (cal_events (buckets q)))"
proof -
  note h = cal_inv_hash [OF inv t(1)]
  then have il: "i < length (buckets q)" and ih: "cal_hash (width q) (nbuckets q) (ev_time e) = int i"
    using i by auto
  show m: "mset (cal_events (buckets q')) = add_mset e (mset (cal_events (buckets q)))"
    unfolding bs by (rule add_event [OF il b'(2)])
  have earlier: "buckets_ok (cal_clock q') (width q) (nbuckets q) (buckets q)"
    using inv same(3) by (auto simp: cal_inv_def buckets_ok_def intro: bucket_ok_earlier)
  have "bucket_ok (cal_clock q') (width q) (nbuckets q) i b'"
  proof (rule bucket_ok_add)
    show "bucket_ok (cal_clock q') (width q) (nbuckets q) i (buckets q ! i)"
      using earlier il h(3) by (simp add: buckets_ok_def)
    show "set (b_list b') = insert e (set (b_list (buckets q ! i)))"
      using arg_cong [OF b'(2), of set_mset] by simp
  qed (use b' t ih in auto)
  with earlier il h(3) have "buckets_ok (cal_clock q') (width q') (nbuckets q') (buckets q')"
    by (simp add: bs same buckets_ok_update)
  moreover have "stat_qsize q' = sum_list (map b_count (buckets q'))"
    using inv il by (simp add: bs sum_count_update cnt(1) b'(3) cal_inv_def)
  moreover have "cal_qsize q' = int (length (cal_events (buckets q')))"
    using inv arg_cong [OF m, of size] by (simp add: cnt(2) cal_inv_def)
  moreover have "distinct (map ev_uid (cal_events (buckets q')))"
    using inv uid by (simp add: distinct_uid_add [OF m] cal_inv_def)
  ultimately show "cal_inv q'" using frame by (simp add: cal_inv_def)
qed

text \<open>What \<open>insert2\<close> leaves alone.\<close>

definition same_year :: "'h calendar \<Rightarrow> 'h calendar \<Rightarrow> bool" where
  "same_year q q' \<longleftrightarrow> cal_clock q' = cal_clock q \<and> nbuckets q' = nbuckets q \<and> width q' = width q"

lemma cal_insert2_spec:
  assumes inv: "cal_inv q" and t: "cal_clock q \<le> ev_time e"
    and uid: "\<forall>x \<in> set (cal_events (buckets q)). ev_uid x \<noteq> ev_uid e \<and> (ev_time x = ev_time e \<longrightarrow> ev_uid e < ev_uid x)"
  shows "\<exists>q'. cal_insert2 q e = Inr q' \<and> cal_inv q' \<and> same_year q q'
    \<and> mset (cal_events (buckets q')) = add_mset e (mset (cal_events (buckets q)))"
proof -
  let ?i = "nat (cal_hash (width q) (nbuckets q) (ev_time e))"
  obtain b' fresh where r: "bucket_insert2 e (buckets q ! ?i) = (b', fresh)" by fastforce
  have t0: "0 \<le> ev_time e" using inv t by (simp add: cal_inv_def cal_frame_def)
  note h = cal_inv_hash [OF inv t0]
  then have il: "?i < nbuckets q" by simp
  have sorted: "ev_sorted (b_list (buckets q ! ?i))"
    by (rule bucket_ok_sorted [OF cal_inv_bucket [OF inv il]])
  have "\<forall>x \<in> set (b_list (buckets q ! ?i)). ev_time x = ev_time e \<longrightarrow> ev_uid e < ev_uid x"
    using uid cal_events_in [of ?i "buckets q"] il h(3) by auto
  note b = bucket_insert2_spec [OF sorted this r]
  let ?q = "q\<lparr>buckets := (buckets q)[?i := b'], stat_qsize := stat_qsize q + (if fresh then 1 else 0),
    cal_qsize := cal_qsize q + 1\<rparr>"
  have eq: "cal_insert2 q e = Inr ?q" using h r by (simp add: cal_insert2_def Let_def)
  have fr: "cal_frame ?q" using inv by (simp add: cal_inv_def cal_frame_def)
  have fresh: "ev_uid e \<notin> ev_uid ` set (cal_events (buckets q))" using uid by (auto simp: image_iff)
  have "cal_inv ?q" "mset (cal_events (buckets ?q)) = add_mset e (mset (cal_events (buckets q)))"
    by (rule cal_inv_add [OF inv fr, of ?i e b' fresh]; use b t t0 fresh in simp)+
  with eq show ?thesis by (intro exI [of _ ?q]) (simp add: same_year_def)
qed

lemma insert2_all_spec:
  assumes "cal_inv q" and "\<forall>e \<in> set es. cal_clock q \<le> ev_time e"
    and "distinct (map ev_uid es)" and "\<forall>e \<in> set es. ev_uid e \<notin> ev_uid ` set (cal_events (buckets q))"
    and "\<forall>e \<in> set es. \<forall>x \<in> set (cal_events (buckets q)). ev_time x = ev_time e \<longrightarrow> ev_uid e < ev_uid x"
    and "sorted_wrt (\<lambda>a b. ev_time a = ev_time b \<longrightarrow> ev_uid b < ev_uid a) es"
  shows "\<exists>q'. insert2_all es q = Inr q' \<and> cal_inv q' \<and> same_year q q'
    \<and> mset (cal_events (buckets q')) = mset es + mset (cal_events (buckets q))"
  using assms
proof (induction es arbitrary: q)
  case Nil
  then show ?case by (simp add: same_year_def)
next
  case (Cons e es)
  from Cons.prems have uid: "\<forall>x \<in> set (cal_events (buckets q)). ev_uid x \<noteq> ev_uid e \<and> (ev_time x = ev_time e \<longrightarrow> ev_uid e < ev_uid x)"
    by (auto simp: image_iff)
  from Cons.prems have "cal_clock q \<le> ev_time e" by simp
  from cal_insert2_spec [OF Cons.prems(1) this uid] obtain q1
    where q1: "cal_insert2 q e = Inr q1" "cal_inv q1" "same_year q q1"
      "mset (cal_events (buckets q1)) = add_mset e (mset (cal_events (buckets q)))" by blast
  from arg_cong [OF q1(4), of set_mset] have s: "set (cal_events (buckets q1)) = insert e (set (cal_events (buckets q)))" by simp
  from Cons.prems(3) have ne: "\<forall>x \<in> set es. ev_uid x \<noteq> ev_uid e" by (auto simp: image_iff)
  have "\<exists>q'. insert2_all es q1 = Inr q' \<and> cal_inv q' \<and> same_year q1 q'
    \<and> mset (cal_events (buckets q')) = mset es + mset (cal_events (buckets q1))"
    by (rule Cons.IH [OF q1(2)]) (use Cons.prems q1(3) s ne in \<open>auto simp: same_year_def\<close>)
  with q1 show ?case by (auto simp: same_year_def)
qed

section \<open>Adjusting the year\<close>

text \<open>Statistics are not part of the invariant.\<close>

lemma cal_inv_stats [simp]:
  "cal_inv (q\<lparr>head_search := h\<rparr>) = cal_inv q" "cal_inv (q\<lparr>insert_search := k\<rparr>) = cal_inv q"
  "cal_inv (q\<lparr>round_num := r\<rparr>) = cal_inv q" "cal_inv (q\<lparr>gap_num := g\<rparr>) = cal_inv q"
  "cal_inv (q\<lparr>last_time := t\<rparr>) = cal_inv q" "cal_inv (q\<lparr>avg_gap := t\<rparr>) = cal_inv q"
  "cal_inv (q\<lparr>time_to_newwidth := n\<rparr>) = cal_inv q"
  by (simp_all add: cal_inv_def cal_frame_def)

lemma cal_events_replicate: "cal_events (replicate n \<lparr>b_list = [], b_count = c\<rparr>) = []"
  by (induction n) (auto simp: cal_events_def)

lemma cal_reinit_inv:
  assumes "4 \<le> n" and "0 < bw" and "0 \<le> cal_clock q"
  shows "cal_inv (cal_reinit n bw (cal_clock q) q)"
  using cal_hash_range [OF assms(3,2), of n] assms
  by (simp add: cal_inv_def cal_frame_def cal_reinit_def buckets_ok_def bucket_ok_def
      cal_events_replicate sum_list_replicate)

lemma cal_reinit_events: "cal_events (buckets (cal_reinit n bw c q)) = []"
  by (simp add: cal_reinit_def cal_events_replicate)

lemma mset_rev_events: "mset (concat (map (\<lambda>b. rev (b_list b)) bs)) = mset (cal_events bs)"
  by (induction bs) (auto simp: cal_events_def)

text \<open>Within the list that \<open>resize\<close> copies, events of the same time come with decreasing uids.\<close>

lemma rev_events_order:
  assumes "\<And>i. i < length bs \<Longrightarrow> ev_sorted (b_list (bs ! i)) \<and> (\<forall>x \<in> set (b_list (bs ! i)). H (ev_time x) = int (k + i))"
  shows "sorted_wrt (\<lambda>a b. ev_time a = ev_time b \<longrightarrow> ev_uid b < ev_uid a) (concat (map (\<lambda>b. rev (b_list b)) bs))"
  using assms
proof (induction bs arbitrary: k)
  case (Cons b bs)
  from Cons.prems [of 0] have b: "ev_sorted (b_list b)" "\<forall>x \<in> set (b_list b). H (ev_time x) = int k" by auto
  have tl: "ev_sorted (b_list (bs ! i)) \<and> (\<forall>x \<in> set (b_list (bs ! i)). H (ev_time x) = int (Suc k + i))"
    if "i < length bs" for i using Cons.prems [of "Suc i"] that by simp
  have "H (ev_time x) \<noteq> int k" if x: "x \<in> set (concat (map (\<lambda>b. rev (b_list b)) bs))" for x
  proof -
    from x obtain i where "i < length bs" "x \<in> set (b_list (bs ! i))" by (auto simp: in_set_conv_nth [of _ bs])
    with tl have "H (ev_time x) = int (Suc k + i)" by blast
    then show ?thesis by simp
  qed
  moreover have "sorted_wrt (\<lambda>a b. ev_time a = ev_time b \<longrightarrow> ev_uid b < ev_uid a) (rev (b_list b))"
    using b(1) by (auto simp: ev_sorted_def sorted_wrt_rev ev_before_def elim: sorted_wrt_mono_rel [rotated])
  ultimately show ?case using Cons.IH [OF tl] b(2) by (force simp: sorted_wrt_append)
qed simp

lemma cal_rebuild_spec:
  assumes inv: "cal_inv q" and n: "4 \<le> n" and bw: "0 < bw"
  shows "\<exists>q'. cal_rebuild n bw (cal_clock q) q = Inr q' \<and> cal_inv q' \<and> cal_clock q' = cal_clock q
    \<and> mset (cal_events (buckets q')) = mset (cal_events (buckets q))"
proof -
  let ?r = "cal_reinit n bw (cal_clock q) q" and ?es = "concat (map (\<lambda>b. rev (b_list b)) (buckets q))"
  have c: "0 \<le> cal_clock q" using inv by (simp add: cal_inv_def cal_frame_def)
  have ok: "buckets_ok (cal_clock q) (width q) (nbuckets q) (buckets q)" using inv by (simp add: cal_inv_def)
  have d: "distinct (map ev_uid (cal_events (buckets q)))" using inv by (simp add: cal_inv_def)
  have mset: "mset ?es = mset (cal_events (buckets q))" by (rule mset_rev_events)
  have "\<forall>e \<in> set ?es. cal_clock q \<le> ev_time e"
    using cal_events_ok [OF ok] unfolding mset_eq_setD [OF mset] by blast
  moreover have "distinct (map ev_uid ?es)"
    using d mset_eq_imp_distinct_iff [of "map ev_uid ?es" "map ev_uid (cal_events (buckets q))"] mset by simp
  moreover have "sorted_wrt (\<lambda>a b. ev_time a = ev_time b \<longrightarrow> ev_uid b < ev_uid a) ?es"
    by (rule rev_events_order [where k = 0 and H = "cal_hash (width q) (nbuckets q)"])
       (use ok in \<open>auto simp: buckets_ok_def bucket_ok_def\<close>)
  ultimately have "\<exists>q'. insert2_all ?es ?r = Inr q' \<and> cal_inv q' \<and> same_year ?r q'
    \<and> mset (cal_events (buckets q')) = mset ?es + mset (cal_events (buckets ?r))"
    by (intro insert2_all_spec cal_reinit_inv n bw c) (auto simp: cal_reinit_events, simp add: cal_reinit_def)
  then obtain q' where "insert2_all ?es ?r = Inr q'" "cal_inv q'" "same_year ?r q'"
    "mset (cal_events (buckets q')) = mset ?es" by (auto simp: cal_reinit_events)
  with mset show ?thesis by (auto simp: cal_rebuild_def same_year_def cal_reinit_def)
qed

lemma fullest_range: "m < length bs \<Longrightarrow> fullest bs k m < length bs"
  by (induction bs k m rule: fullest.induct) (auto simp: Let_def)

lemma cal_newwidth_spec:
  assumes inv: "cal_inv q" and n: "0 < newsize"
  shows "\<exists>bw q1. cal_newwidth newsize q = Inr (bw, q1) \<and> 0 < bw \<and> (q1 = q \<or> (\<exists>t. q1 = q\<lparr>time_to_newwidth := t\<rparr>))"
proof -
  let ?i = "fullest (buckets q) (nbuckets q - 1) 0" and ?b = "buckets q ! fullest (buckets q) (nbuckets q - 1) 0"
  have len: "length (buckets q) = nbuckets q" "4 \<le> nbuckets q" and w: "0 < width q"
    using inv by (auto simp: cal_inv_def cal_frame_def buckets_ok_def)
  then have "?i < nbuckets q" using fullest_range [of 0 "buckets q" "nbuckets q - 1"] by simp
  from cal_inv_bucket [OF inv this] have b: "ev_sorted (b_list ?b)" "b_count ?b = int (card (ev_time ` set (b_list ?b)))"
    by (auto simp: bucket_ok_def)
  have nw: "ev_time (last (b_list ?b)) - ev_time (hd (b_list ?b)) > 0" if big: "\<not> b_count ?b \<le> 4"
  proof (rule ccontr)
    assume neg: "\<not> ?thesis"
    have "b_list ?b \<noteq> []" using b(2) big by auto
    then obtain h t where ht: "b_list ?b = h # t" by (cases "b_list ?b") auto
    have "ev_time x = ev_time h" if "x \<in> set (b_list ?b)" for x
      using sorted_wrt_last [OF b(1) [unfolded ev_sorted_def] that] b(1) neg ht that
      by (auto simp: ev_before_def split: if_splits)
    then have "ev_time ` set (b_list ?b) \<subseteq> {ev_time h}" by auto
    from card_mono [OF _ this] b(2) big show False by simp
  qed
  have ne: "\<not> b_count ?b \<le> 4 \<Longrightarrow> b_list ?b \<noteq> []" using b(2) by auto
  show ?thesis
  proof (cases "adjust_interval q \<noteq> 0 \<and> avg_gap q > 0")
    case True
    then show ?thesis by (auto simp: cal_newwidth_def)
  next
    case False
    with w nw ne n show ?thesis
      by (cases "b_count ?b \<le> 4"; cases "adjust_interval q = 0") (auto simp: cal_newwidth_def Let_def)
  qed
qed

lemma unsigned_pos: "x \<noteq> 0 \<Longrightarrow> 0 < (unsigned (x :: 'a::len word) :: real)"
  by (metis of_nat_0_less_iff of_nat_unat unat_gt_0)

lemma cal_resize_spec:
  assumes inv: "cal_inv q" and n: "0 < newsize"
  shows "\<exists>q'. cal_resize newsize (cal_clock q) q = Inr q' \<and> cal_inv q' \<and> cal_clock q' = cal_clock q
    \<and> mset (cal_events (buckets q')) = mset (cal_events (buckets q))"
proof -
  have len: "4 \<le> nbuckets q" and w: "0 < width q" using inv by (auto simp: cal_inv_def cal_frame_def)
  from cal_newwidth_spec [OF inv n] obtain bw q1
    where nw: "cal_newwidth newsize q = Inr (bw, q1)" "0 < bw" and q1: "q1 = q \<or> (\<exists>t. q1 = q\<lparr>time_to_newwidth := t\<rparr>)"
    by blast
  from q1 inv have inv1: "cal_inv q1" and same: "cal_clock q1 = cal_clock q" "buckets q1 = buckets q" by auto
  from cal_rebuild_spec [OF inv1 _ nw(2)]
  have by_width: "\<exists>q'. bindR (cal_newwidth newsize q) (\<lambda>(bw, q1). cal_rebuild m bw (cal_clock q) q1) = Inr q'
    \<and> cal_inv q' \<and> cal_clock q' = cal_clock q \<and> mset (cal_events (buckets q')) = mset (cal_events (buckets q))"
    if "4 \<le> m" for m using that nw(1) same by simp
  show ?thesis
  proof (cases "newsize = nbuckets q")
    case False
    with by_width [of "if newsize < 4 then 4 else newsize"] show ?thesis by (simp add: cal_resize_def)
  next
    case True
    let ?b1 = "if head_search q \<noteq> 0 then real (unat (head_search q)) else 1"
    let ?b2 = "if insert_search q \<noteq> 0 then ?b1 / real (unat (insert_search q)) else ?b1"
    have "0 < ?b2" by (simp add: unsigned_pos)
    then have "0 < sqrt ?b2 * width q" using w by (simp only: mult_pos_pos real_sqrt_gt_zero)
    from cal_rebuild_spec [OF inv len this] by_width [OF len] True inv show ?thesis
      by (auto simp: cal_resize_def Let_def simp del: unat_eq_zero)
  qed
qed

lemma cal_insert_spec:
  assumes inv: "cal_inv q" and t: "0 \<le> ev_time e"
    and uid: "\<forall>x \<in> set (cal_events (buckets q)). ev_uid x < ev_uid e"
  shows "\<exists>q'. cal_insert q e = Inr q' \<and> cal_inv q'
    \<and> mset (cal_events (buckets q')) = add_mset e (mset (cal_events (buckets q)))"
proof -
  let ?i = "nat (cal_hash (width q) (nbuckets q) (ev_time e))"
  obtain b' fresh k where r: "bucket_insert e (buckets q ! ?i) = (b', fresh, k)" using prod_cases3 by blast
  note h = cal_inv_hash [OF inv t]
  then have il: "?i < nbuckets q" by simp
  have sorted: "ev_sorted (b_list (buckets q ! ?i))"
    by (rule bucket_ok_sorted [OF cal_inv_bucket [OF inv il]])
  have "\<forall>x \<in> set (b_list (buckets q ! ?i)). ev_uid x < ev_uid e"
    using uid cal_events_in [of ?i "buckets q"] il h(3) by auto
  note b = bucket_insert_spec [OF sorted this r]
  let ?q1 = "if cal_clock q > ev_time e then q\<lparr>cal_clock := ev_time e, lastbucket := ?i\<rparr> else q"
  let ?q2 = "?q1\<lparr>buckets := (buckets q)[?i := b'], insert_search := insert_search q + k,
    stat_qsize := stat_qsize q + (if fresh then 1 else 0), cal_qsize := cal_qsize q + 1\<rparr>"
  have eq: "cal_insert q e = (if stat_qsize ?q2 > top_threshold ?q2 then cal_resize (nbuckets ?q2 * 2) (cal_clock ?q2) ?q2
      else Inr ?q2)"
    using h r by (simp only: cal_insert_def Let_def) auto
  have fr: "cal_frame ?q2" using inv t h by (auto simp: cal_inv_def cal_frame_def)
  have fresh: "ev_uid e \<notin> ev_uid ` set (cal_events (buckets q))" using uid by (auto simp: image_iff)
  have inv2: "cal_inv ?q2" and m2: "mset (cal_events (buckets ?q2)) = add_mset e (mset (cal_events (buckets q)))"
    by (rule cal_inv_add [OF inv fr, of ?i e b' fresh]; use b t fresh in auto)+
  have "0 < nbuckets ?q2 * 2" using fr by (simp add: cal_frame_def)
  from cal_resize_spec [OF inv2 this] inv2 m2 eq show ?thesis
    by (cases "stat_qsize ?q2 > top_threshold ?q2") auto
qed

section \<open>The next event\<close>

text \<open>The number of the day of a time, counted from the day of the clock.\<close>

definition day :: "time \<Rightarrow> time \<Rightarrow> time \<Rightarrow> int" where
  "day w c t = \<lfloor>t / w\<rfloor> - \<lfloor>c / w\<rfloor>"

lemma day_mono: "0 < w \<Longrightarrow> t \<le> t' \<Longrightarrow> day w c t \<le> day w c t'"
  by (simp add: day_def floor_mono divide_right_mono)

lemma day_bounds:
  assumes "0 < w"
  shows "t - c < w * (of_int (day w c t) + 1)" and "w * (of_int (day w c t) - 1) < t - c"
proof -
  have "t / w - c / w < of_int (day w c t) + 1" and "of_int (day w c t) - 1 < t / w - c / w"
    unfolding day_def by linarith+
  then show "t - c < w * (of_int (day w c t) + 1)" "w * (of_int (day w c t) - 1) < t - c"
    using assms by (simp_all add: field_simps)
qed

lemma day_bucket:
  assumes "0 < w" and "0 \<le> c" and "c \<le> t" and "k < n"
    and "int L = cal_hash w n c" and "cal_hash w n t = int ((L + k) mod n)"
  shows "day w c t = int k \<or> int k + int n \<le> day w c t"
proof -
  have "\<lfloor>t / w\<rfloor> mod int n = (\<lfloor>c / w\<rfloor> + int k) mod int n"
    using assms by (simp add: cal_hash_eq zmod_int mod_add_left_eq)
  then have k: "day w c t mod int n = int k"
    unfolding day_def using assms(4) by (metis add_diff_cancel_left' mod_diff_left_eq mod_pos_pos_trivial of_nat_0_le_iff of_nat_less_iff)
  have "0 \<le> day w c t" using day_mono [OF assms(1,3), of c] by (simp add: day_def)
  then have pos: "0 \<le> day w c t div int n" by (simp add: pos_imp_zdiv_nonneg_iff assms(4) div_int_pos_iff)
  have eq: "day w c t = int n * (day w c t div int n) + int k" using k mult_div_mod_eq [of "int n" "day w c t"] by simp
  show ?thesis
  proof (cases "day w c t div int n = 0")
    case False
    with pos have "1 \<le> day w c t div int n" by simp
    from mult_left_mono [OF this, of "int n"] have "int n \<le> int n * (day w c t div int n)" by simp
    with eq show ?thesis by linarith
  qed (use eq in simp)
qed

text \<open>The bounds of the search tell a day of this year from the same day of a later year.\<close>

definition cal_bounds :: "'h calendar \<Rightarrow> time list" where
  "cal_bounds q = diff0 q # diff1 q # replicate (nbuckets q - 3) (diff2 q)"

lemma cal_bounds_accept:
  assumes fr: "cal_frame q" and k: "k < nbuckets q - 1"
    and d: "day (width q) (cal_clock q) t = int k \<or> int k + int (nbuckets q) \<le> day (width q) (cal_clock q) t"
  shows "t - cal_clock q < cal_bounds q ! k \<longleftrightarrow> day (width q) (cal_clock q) t = int k"
proof -
  let ?w = "width q" and ?n = "nbuckets q" and ?d = "day (width q) (cal_clock q) t" and ?c = "cal_clock q"
  have n: "4 \<le> ?n" and w: "0 < ?w" using fr by (auto simp: cal_frame_def)
  obtain m where m: "cal_bounds q ! k = ?w * m" "real k + 1 \<le> m" "m \<le> real k + real ?n - 1"
  proof -
    consider "k = 0" | "k = 1" | "2 \<le> k" by linarith
    then show ?thesis
    proof cases
      case 1
      with that [of "real ?n / 2"] n fr show ?thesis by (simp add: cal_bounds_def cal_frame_def)
    next
      case 2
      with that [of "real ?n / 2 + 1"] n fr show ?thesis by (simp add: cal_bounds_def cal_frame_def algebra_simps)
    next
      case 3
      then obtain j where "k = Suc (Suc j)" by (metis One_nat_def Suc_1 Suc_le_D Suc_le_mono)
      with that [of "real ?n"] k fr show ?thesis by (simp add: cal_bounds_def cal_frame_def)
    qed
  qed
  note b = day_bounds [OF w, where t = t and c = ?c]
  show ?thesis
  proof
    assume "?d = int k"
    then have "?w * (of_int ?d + 1) \<le> ?w * m" using m(2) w by (simp add: mult_le_cancel_left_pos)
    with b(1) m(1) show "t - ?c < cal_bounds q ! k" by linarith
  next
    assume lt: "t - ?c < cal_bounds q ! k"
    show "?d = int k"
    proof (rule ccontr)
      assume "?d \<noteq> int k"
      with d have "int k + int ?n \<le> ?d" by simp
      then have "real k + real ?n \<le> of_int ?d" by linarith
      then have "?w * m \<le> ?w * (of_int ?d - 1)" using m(3) w by (simp add: mult_le_cancel_left_pos)
      with b(2) m(1) lt show False by linarith
    qed
  qed
qed

text \<open>
  Every event lies in a bucket that is a number of steps after the bucket of the clock; when it is
  not of the day of this year, it is of a later year.
\<close>

abbreviation nth_bucket :: "'h calendar \<Rightarrow> nat \<Rightarrow> 'h event list" where
  "nth_bucket q k \<equiv> b_list (buckets q ! ((lastbucket q + k) mod nbuckets q))"

lemma cal_inv_lens:
  assumes "cal_inv q"
  shows "length (buckets q) = nbuckets q" "4 \<le> nbuckets q" "0 < width q" "0 \<le> cal_clock q"
    "lastbucket q < nbuckets q"
  using assms cal_hash_range [of "cal_clock q" "width q" "nbuckets q"]
  by (auto simp: cal_inv_def cal_frame_def buckets_ok_def)

lemma nth_bucket_day:
  assumes inv: "cal_inv q" and k: "k < nbuckets q" and x: "x \<in> set (nth_bucket q k)"
  shows "day (width q) (cal_clock q) (ev_time x) = int k
    \<or> int k + int (nbuckets q) \<le> day (width q) (cal_clock q) (ev_time x)"
proof -
  note l = cal_inv_lens [OF inv]
  from cal_inv_bucket [OF inv, of "(lastbucket q + k) mod nbuckets q"] x l
  have "cal_clock q \<le> ev_time x" "cal_hash (width q) (nbuckets q) (ev_time x) = int ((lastbucket q + k) mod nbuckets q)"
    by (auto simp: bucket_ok_def)
  moreover have "int (lastbucket q) = cal_hash (width q) (nbuckets q) (cal_clock q)"
    using inv by (simp add: cal_inv_def cal_frame_def)
  ultimately show ?thesis using day_bucket [OF l(3,4) _ k] by blast
qed

lemma events_nth_bucket:
  assumes inv: "cal_inv q" and x: "x \<in> set (cal_events (buckets q))"
  obtains k where "k < nbuckets q" "x \<in> set (nth_bucket q k)"
proof -
  note l = cal_inv_lens [OF inv]
  obtain i where i: "i < nbuckets q" "x \<in> set (b_list (buckets q ! i))"
    using inv cal_events_ok [OF _ x] by (metis cal_inv_def)
  have "(lastbucket q + (i + nbuckets q - lastbucket q)) mod nbuckets q = i" using i(1) l(5) by simp
  then have "(lastbucket q + (i + nbuckets q - lastbucket q) mod nbuckets q) mod nbuckets q = i"
    by (simp add: mod_add_right_eq)
  with i(2) l(2) that [of "(i + nbuckets q - lastbucket q) mod nbuckets q"] show ?thesis by simp
qed

text \<open>
  The search after \<open>k\<close> buckets: none of them holds an event of this year, and the event kept is
  the first of its bucket and no later than any event of the buckets seen.
\<close>

definition scan_ok :: "'h calendar \<Rightarrow> nat \<Rightarrow> (nat \<times> 'h event) option \<Rightarrow> bool" where
  "scan_ok q k m \<longleftrightarrow>
     (\<forall>j < k. \<forall>x \<in> set (nth_bucket q j). int (nbuckets q) \<le> day (width q) (cal_clock q) (ev_time x))
     \<and> (case m of
          None \<Rightarrow> \<forall>j < k. nth_bucket q j = []
        | Some (l, f) \<Rightarrow> l < nbuckets q \<and> (\<exists>es. b_list (buckets q ! l) = f # es)
            \<and> (\<forall>j < k. \<forall>x \<in> set (nth_bucket q j). ev_time f \<le> ev_time x))"

definition found_ok :: "'h calendar \<Rightarrow> nat \<times> 'h event \<Rightarrow> bool" where
  "found_ok q r \<longleftrightarrow> fst r < nbuckets q \<and> (\<exists>es. b_list (buckets q ! fst r) = snd r # es)
     \<and> (\<forall>x \<in> set (cal_events (buckets q)). ev_time (snd r) \<le> ev_time x)"

lemma bucket_head_first:
  assumes "cal_inv q" and "i < nbuckets q" and "b_list (buckets q ! i) = e # es" and "x \<in> set (b_list (buckets q ! i))"
  shows "ev_time e \<le> ev_time x"
  using bucket_ok_sorted [OF cal_inv_bucket [OF assms(1,2)]] assms(3,4) by (auto simp: ev_before_def)

lemma found_this_year:
  assumes inv: "cal_inv q" and k: "k < nbuckets q" and m: "scan_ok q k m" and b: "nth_bucket q k = e # es"
    and d: "day (width q) (cal_clock q) (ev_time e) = int k"
  shows "found_ok q ((lastbucket q + k) mod nbuckets q, e)"
proof -
  note l = cal_inv_lens [OF inv]
  have le: "ev_time e \<le> ev_time x" if x: "x \<in> set (cal_events (buckets q))" for x
  proof -
    from events_nth_bucket [OF inv x] obtain j where j: "j < nbuckets q" "x \<in> set (nth_bucket q j)" .
    show ?thesis
    proof (cases "j = k")
      case True
      with bucket_head_first [OF inv _ b] j(2) l show ?thesis by simp
    next
      case False
      have "int k < day (width q) (cal_clock q) (ev_time x)"
      proof (cases "j < k")
        case True
        with m j(2) k show ?thesis by (fastforce simp: scan_ok_def)
      qed (use nth_bucket_day [OF inv j] False in auto)
      with d day_mono [OF l(3), of "ev_time x" "ev_time e" "cal_clock q"] show ?thesis by linarith
    qed
  qed
  with b l show ?thesis by (auto simp: found_ok_def)
qed

lemma scan_ok_step:
  assumes inv: "cal_inv q" and k: "k < nbuckets q" and m: "scan_ok q k m"
  shows "nth_bucket q k = [] \<Longrightarrow> scan_ok q (Suc k) m"
    and "nth_bucket q k = e # es \<Longrightarrow> int (nbuckets q) \<le> day (width q) (cal_clock q) (ev_time e)
      \<Longrightarrow> scan_ok q (Suc k) (case m of None \<Rightarrow> Some ((lastbucket q + k) mod nbuckets q, e)
          | Some (l, f) \<Rightarrow> if ev_time f > ev_time e then Some ((lastbucket q + k) mod nbuckets q, e) else m)"
proof -
  show "nth_bucket q k = [] \<Longrightarrow> scan_ok q (Suc k) m"
    using m by (auto simp: scan_ok_def less_Suc_eq split: option.splits)
next
  note l = cal_inv_lens [OF inv]
  let ?i = "(lastbucket q + k) mod nbuckets q"
  assume b: "nth_bucket q k = e # es" and d: "int (nbuckets q) \<le> day (width q) (cal_clock q) (ev_time e)"
  have first: "\<forall>x \<in> set (nth_bucket q k). ev_time e \<le> ev_time x"
    using bucket_head_first [OF inv _ b] l by simp
  with d day_mono [OF l(3)] have "\<forall>x \<in> set (nth_bucket q k). int (nbuckets q) \<le> day (width q) (cal_clock q) (ev_time x)"
    by (meson order_trans)
  with m have days: "\<forall>j < Suc k. \<forall>x \<in> set (nth_bucket q j). int (nbuckets q) \<le> day (width q) (cal_clock q) (ev_time x)"
    by (auto simp: scan_ok_def less_Suc_eq)
  have new: "scan_ok q (Suc k) (Some (?i, e))" if "\<forall>j < k. \<forall>x \<in> set (nth_bucket q j). ev_time e \<le> ev_time x"
    using days first that b l by (auto simp: scan_ok_def less_Suc_eq)
  show "scan_ok q (Suc k) (case m of None \<Rightarrow> Some (?i, e)
      | Some (l, f) \<Rightarrow> if ev_time f > ev_time e then Some (?i, e) else m)"
  proof (cases m)
    case None
    with m have "\<forall>j < k. nth_bucket q j = []" by (simp add: scan_ok_def)
    with new None show ?thesis by simp
  next
    case (Some lf)
    then obtain l f where lf: "m = Some (l, f)" by (cases lf) auto
    with m have f: "\<forall>j < k. \<forall>x \<in> set (nth_bucket q j). ev_time f \<le> ev_time x"
      "l < nbuckets q" "\<exists>es. b_list (buckets q ! l) = f # es" by (simp_all add: scan_ok_def)
    show ?thesis
    proof (cases "ev_time f > ev_time e")
      case True
      with f(1) have "\<forall>j < k. \<forall>x \<in> set (nth_bucket q j). ev_time e \<le> ev_time x" by fastforce
      with new True lf show ?thesis by simp
    next
      case False
      with first have "\<forall>x \<in> set (nth_bucket q k). ev_time f \<le> ev_time x" by fastforce
      with f days False lf show ?thesis by (simp add: scan_ok_def less_Suc_eq)
    qed
  qed
qed

lemma cal_scan_spec:
  assumes inv: "cal_inv q"
  shows "scan_ok q k m \<Longrightarrow> k < nbuckets q
    \<Longrightarrow> case fst (cal_scan (buckets q) (cal_clock q) (drop k (cal_bounds q)) ((lastbucket q + k) mod nbuckets q) m s) of
        Inl r \<Rightarrow> found_ok q r
      | Inr (i, m') \<Rightarrow> i = (lastbucket q + (nbuckets q - 1)) mod nbuckets q \<and> scan_ok q (nbuckets q - 1) m'"
proof (induction "nbuckets q - 1 - k" arbitrary: k m s)
  case 0
  then have "k = nbuckets q - 1" by simp
  moreover have "length (cal_bounds q) = nbuckets q - 1" using cal_inv_lens [OF inv] by (simp add: cal_bounds_def)
  ultimately show ?case using 0 by simp
next
  case (Suc d)
  note l = cal_inv_lens [OF inv]
  let ?i = "(lastbucket q + k) mod nbuckets q"
  have len: "length (cal_bounds q) = nbuckets q - 1" using l by (simp add: cal_bounds_def)
  have k: "k < nbuckets q - 1" "k < nbuckets q" "Suc k < nbuckets q" "d = nbuckets q - 1 - Suc k" using Suc by auto
  then have ds: "drop k (cal_bounds q) = cal_bounds q ! k # drop (Suc k) (cal_bounds q)"
    by (simp add: Cons_nth_drop_Suc len)
  have i': "(if Suc ?i = length (buckets q) then 0 else Suc ?i) = (lastbucket q + Suc k) mod nbuckets q"
    using l by (simp add: mod_Suc)
  note IH = Suc.hyps(1) [OF k(4) _ k(3)]
  show ?case
  proof (cases "nth_bucket q k")
    case Nil
    from IH [OF scan_ok_step(1) [OF inv k(2) Suc.prems(1) Nil], of "s + 1"] show ?thesis
      unfolding ds by (simp only: cal_scan.simps Let_def i' Nil list.case)
  next
    case (Cons e es)
    have day: "day (width q) (cal_clock q) (ev_time e) = int k \<or> int k + int (nbuckets q) \<le> day (width q) (cal_clock q) (ev_time e)"
      by (rule nth_bucket_day [OF inv k(2)]) (simp add: Cons)
    have fr: "cal_frame q" using inv by (simp add: cal_inv_def)
    note accept = cal_bounds_accept [OF fr k(1) day]
    show ?thesis
    proof (cases "ev_time e - cal_clock q < cal_bounds q ! k")
      case True
      with found_this_year [OF inv k(2) Suc.prems(1) Cons] accept show ?thesis
        unfolding ds by (simp add: Cons Let_def)
    next
      case False
      with day accept have "int (nbuckets q) \<le> day (width q) (cal_clock q) (ev_time e)" by linarith
      from IH [OF scan_ok_step(2) [OF inv k(2) Suc.prems(1) Cons this], of "s + 1"] False show ?thesis
        unfolding ds by (simp only: cal_scan.simps Let_def i' Cons list.case if_False)
    qed
  qed
qed

lemma scan_last:
  assumes inv: "cal_inv q" and m: "scan_ok q (nbuckets q - 1) m" and ne: "cal_events (buckets q) \<noteq> []"
  shows "case (m, nth_bucket q (nbuckets q - 1)) of
      (None, []) \<Rightarrow> False
    | (None, e # _) \<Rightarrow> found_ok q ((lastbucket q + (nbuckets q - 1)) mod nbuckets q, e)
    | (Some (l, f), []) \<Rightarrow> found_ok q (l, f)
    | (Some (l, f), e # _) \<Rightarrow> found_ok q (if ev_time f < ev_time e then (l, f)
        else ((lastbucket q + (nbuckets q - 1)) mod nbuckets q, e))"
proof -
  note l = cal_inv_lens [OF inv]
  let ?n = "nbuckets q - 1"
  have split: "\<exists>j \<le> ?n. x \<in> set (nth_bucket q j)" if "x \<in> set (cal_events (buckets q))" for x
    using events_nth_bucket [OF inv that] by (metis Suc_diff_1 gr_implies_not0 less_Suc_eq_le not_gr_zero)
  have first: "\<forall>x \<in> set (nth_bucket q ?n). ev_time e \<le> ev_time x" if "nth_bucket q ?n = e # es" for e es
    using bucket_head_first [OF inv _ that] l by simp
  have found: "found_ok q (i, e)" if "i < nbuckets q" "\<exists>es. b_list (buckets q ! i) = e # es"
    "\<forall>j \<le> ?n. \<forall>x \<in> set (nth_bucket q j). ev_time e \<le> ev_time x" for i e
    using that split by (fastforce simp: found_ok_def)
  show ?thesis
  proof (cases m)
    case None
    then have none: "\<forall>j < ?n. nth_bucket q j = []" using m by (simp add: scan_ok_def)
    show ?thesis
    proof (cases "nth_bucket q ?n")
      case Nil
      with none have "\<forall>j \<le> ?n. nth_bucket q j = []" by (simp add: le_less)
      moreover from ne obtain x where "x \<in> set (cal_events (buckets q))" by (cases "cal_events (buckets q)") auto
      ultimately show ?thesis using split by fastforce
    next
      case (Cons e es)
      have "\<forall>j \<le> ?n. \<forall>x \<in> set (nth_bucket q j). ev_time e \<le> ev_time x"
        using none first [OF Cons] by (auto simp: le_less)
      from found [OF _ _ this] Cons l have "found_ok q ((lastbucket q + ?n) mod nbuckets q, e)" by simp
      with None Cons show ?thesis by simp
    qed
  next
    case (Some lf)
    then obtain k f where lf: "m = Some (k, f)" by (cases lf) auto
    with m have f: "\<forall>j < ?n. \<forall>x \<in> set (nth_bucket q j). ev_time f \<le> ev_time x"
      "k < nbuckets q" "\<exists>es. b_list (buckets q ! k) = f # es" by (simp_all add: scan_ok_def)
    show ?thesis
    proof (cases "nth_bucket q ?n")
      case Nil
      then have "\<forall>j \<le> ?n. \<forall>x \<in> set (nth_bucket q j). ev_time f \<le> ev_time x"
        using f(1) by (auto simp: le_less)
      from found [OF f(2,3) this] have "found_ok q (k, f)" .
      with lf Nil show ?thesis by simp
    next
      case (Cons e es)
      show ?thesis
      proof (cases "ev_time f < ev_time e")
        case True
        then have "\<forall>j \<le> ?n. \<forall>x \<in> set (nth_bucket q j). ev_time f \<le> ev_time x"
          using f(1) first [OF Cons] by (fastforce simp: le_less)
        from found [OF f(2,3) this] have "found_ok q (k, f)" .
        with lf Cons True show ?thesis by simp
      next
        case False
        then have "\<forall>j \<le> ?n. \<forall>x \<in> set (nth_bucket q j). ev_time e \<le> ev_time x"
          using f(1) first [OF Cons] by (fastforce simp: le_less)
        from found [OF _ _ this] Cons l have "found_ok q ((lastbucket q + ?n) mod nbuckets q, e)" by simp
        with lf Cons False show ?thesis by simp
      qed
    qed
  qed
qed

lemma buckets_ok_later:
  assumes "buckets_ok c w n bs" and "\<forall>x \<in> set (cal_events bs). c' \<le> ev_time x"
  shows "buckets_ok c' w n bs"
proof -
  have "bucket_ok c' w n i (bs ! i)" if "i < n" for i
    using assms that cal_events_in [of i bs] by (auto simp: buckets_ok_def bucket_ok_def)
  with assms(1) show ?thesis by (simp add: buckets_ok_def)
qed

lemma cal_inv_advance:
  assumes inv: "cal_inv q" and f: "found_ok q (l, e)"
  shows "cal_inv (q\<lparr>lastbucket := l, cal_clock := ev_time e\<rparr>)" and "e \<in> set (cal_events (buckets q))"
    and "\<forall>x \<in> set (cal_events (buckets q)). x = e \<or> ev_before e x"
proof -
  note n = cal_inv_lens [OF inv]
  from f have l: "l < nbuckets q" "\<exists>es. b_list (buckets q ! l) = e # es"
    and least: "\<forall>x \<in> set (cal_events (buckets q)). ev_time e \<le> ev_time x" by (auto simp: found_ok_def)
  then have mem: "e \<in> set (b_list (buckets q ! l))" by auto
  then show e: "e \<in> set (cal_events (buckets q))" using cal_events_in [of l "buckets q"] n l(1) by simp
  note b = cal_inv_bucket [OF inv l(1)]
  with mem have h: "cal_hash (width q) (nbuckets q) (ev_time e) = int l" and c: "cal_clock q \<le> ev_time e"
    by (auto simp: bucket_ok_def)
  have ok: "buckets_ok (cal_clock q) (width q) (nbuckets q) (buckets q)" using inv by (simp add: cal_inv_def)
  from buckets_ok_later [OF this least] have "buckets_ok (ev_time e) (width q) (nbuckets q) (buckets q)" .
  moreover have "cal_frame (q\<lparr>lastbucket := l, cal_clock := ev_time e\<rparr>)"
    using inv h c n by (simp add: cal_inv_def cal_frame_def)
  ultimately show "cal_inv (q\<lparr>lastbucket := l, cal_clock := ev_time e\<rparr>)" using inv by (simp add: cal_inv_def)
  show "\<forall>x \<in> set (cal_events (buckets q)). x = e \<or> ev_before e x"
  proof
    fix x assume x: "x \<in> set (cal_events (buckets q))"
    show "x = e \<or> ev_before e x"
    proof (cases "ev_time x = ev_time e")
      case True
      from cal_events_ok [OF ok x] have "x \<in> set (b_list (buckets q ! l))" using True h by (metis nat_int)
      with bucket_ok_sorted [OF b] l(2) show ?thesis by auto
    qed (use least x in \<open>force simp: ev_before_def\<close>)
  qed
qed

lemma cal_head_spec:
  assumes inv: "cal_inv q"
  shows "cal_events (buckets q) = [] \<Longrightarrow> cal_head q = Inr (None, q)"
    and "cal_events (buckets q) \<noteq> [] \<Longrightarrow> \<exists>e l h. cal_head q = Inr (Some e, q\<lparr>head_search := h, lastbucket := l, cal_clock := ev_time e\<rparr>)
      \<and> found_ok q (l, e)"
proof -
  show "cal_events (buckets q) = [] \<Longrightarrow> cal_head q = Inr (None, q)"
    using inv by (simp add: cal_head_def cal_inv_def)
next
  assume ne: "cal_events (buckets q) \<noteq> []"
  then have size: "cal_qsize q \<noteq> 0" using inv by (simp add: cal_inv_def)
  note l = cal_inv_lens [OF inv]
  obtain r k where scan: "cal_scan (buckets q) (cal_clock q) (cal_bounds q) (lastbucket q) None 0 = (r, k)" by fastforce
  have "scan_ok q 0 None" by (simp add: scan_ok_def)
  from cal_scan_spec [OF inv this, of 0] l scan
  have r: "case r of Inl r \<Rightarrow> found_ok q r
      | Inr (i, m') \<Rightarrow> i = (lastbucket q + (nbuckets q - 1)) mod nbuckets q \<and> scan_ok q (nbuckets q - 1) m'"
    by simp
  note eq = cal_head_def [of q, folded cal_bounds_def, unfolded scan Let_def]
  show "\<exists>e l h. cal_head q = Inr (Some e, q\<lparr>head_search := h, lastbucket := l, cal_clock := ev_time e\<rparr>) \<and> found_ok q (l, e)"
  proof (cases r)
    case (Inl f)
    with r size show ?thesis by (cases f) (auto simp: eq)
  next
    case (Inr im)
    then obtain m where m: "r = Inr ((lastbucket q + (nbuckets q - 1)) mod nbuckets q, m)" "scan_ok q (nbuckets q - 1) m"
      using r by (cases im) auto
    note last = scan_last [OF inv m(2) ne]
    show ?thesis
    proof (cases m)
      case None
      with last size show ?thesis by (cases "nth_bucket q (nbuckets q - 1)") (auto simp: eq m(1))
    next
      case (Some lf)
      obtain l' f where "lf = (l', f)" by (cases lf)
      with Some last size show ?thesis
        by (cases "nth_bucket q (nbuckets q - 1)") (auto simp: eq m(1) split: if_splits)
    qed
  qed
qed

section \<open>Removing an event\<close>

lemma cal_adjust_spec:
  assumes inv: "cal_inv q"
  shows "\<exists>q'. cal_adjust e q = Inr q' \<and> cal_inv q' \<and> cal_clock q' = cal_clock q
    \<and> mset (cal_events (buckets q')) = mset (cal_events (buckets q))"
proof -
  note l = cal_inv_lens [OF inv]
  let ?q2 = "q\<lparr>gap_num := gap_num q + 1, avg_gap := (ev_time e - last_time q) / of_int (gap_num q + 1), gap_num := 0,
    last_time := ev_time e, round_num := round_num q + 1\<rparr>"
  have "0 < nbuckets ?q2" "cal_inv ?q2" using l inv by simp_all
  from cal_resize_spec [OF this(2,1)] inv show ?thesis by (auto simp: cal_adjust_def Let_def)
qed

lemma cal_inv_remove:
  assumes inv: "cal_inv q" and frame: "cal_frame q'"
    and same: "width q' = width q" "nbuckets q' = nbuckets q" "cal_clock q' = cal_clock q"
    and i: "i < nbuckets q" and e: "e \<in> set (b_list (buckets q ! i))"
    and bs: "buckets q' = (buckets q)[i := \<lparr>b_list = rest, b_count = b_count (buckets q ! i) - (if alone then 1 else 0)\<rparr>]"
    and rest: "rest = remove1 e (b_list (buckets q ! i))" and alone: "alone \<longleftrightarrow> ev_time e \<notin> ev_time ` set rest"
    and cnt: "stat_qsize q' = stat_qsize q - (if alone then 1 else 0)" "cal_qsize q' = cal_qsize q - 1"
  shows "cal_inv q'" and "mset (cal_events (buckets q)) = add_mset e (mset (cal_events (buckets q')))"
proof -
  note l = cal_inv_lens [OF inv]
  note b = cal_inv_bucket [OF inv i]
  let ?b = "\<lparr>b_list = rest, b_count = b_count (buckets q ! i) - (if alone then 1 else 0)\<rparr>"
  have m: "mset (b_list (buckets q ! i)) = add_mset e (mset rest)" using e by (simp add: rest)
  have sub: "set (b_list (buckets q ! i)) = insert e (set rest)" using arg_cong [OF m, of set_mset] by simp
  from cal_events_update [of i "buckets q" ?b] i l m
  show mq: "mset (cal_events (buckets q)) = add_mset e (mset (cal_events (buckets q')))" by (simp add: bs)
  have "ev_sorted rest" using bucket_ok_sorted [OF b] by (simp add: rest ev_sorted_def sorted_wrt_remove1)
  moreover have "b_count ?b = int (card (ev_time ` set rest))"
    using b card_times_insert [of e rest] alone by (auto simp: bucket_ok_def sub)
  ultimately have "bucket_ok (cal_clock q) (width q) (nbuckets q) i ?b"
    using b sub by (auto simp: bucket_ok_def)
  then have "buckets_ok (cal_clock q') (width q') (nbuckets q') (buckets q')"
    using inv i by (simp add: bs same cal_inv_def buckets_ok_update)
  moreover have "stat_qsize q' = sum_list (map b_count (buckets q'))"
    using inv i l by (simp add: bs sum_count_update cnt(1) cal_inv_def)
  moreover have "cal_qsize q' = int (length (cal_events (buckets q')))"
    using inv arg_cong [OF mq, of size] by (simp add: cnt(2) cal_inv_def)
  moreover have "distinct (map ev_uid (cal_events (buckets q')))"
    using inv by (simp add: distinct_uid_add [OF mq] cal_inv_def)
  ultimately show "cal_inv q'" using frame by (simp add: cal_inv_def)
qed

lemma cal_abs_remove:
  assumes "cal_inv q" and "cal_inv q'" and "mset (cal_events (buckets q)) = add_mset e (mset (cal_events (buckets q')))"
  shows "cal_abs q' = remove1 e (cal_abs q)"
proof -
  have d: "distinct (map ev_uid (cal_events (buckets q)))" "distinct (map ev_uid (cal_events (buckets q')))"
    using assms(1,2) by (auto simp: cal_inv_def)
  have "mset (cal_abs q) = add_mset e (mset (cal_abs q'))" using assms(3) by (simp add: cal_abs_def)
  then have "mset (remove1 e (cal_abs q)) = mset (cal_abs q')" by simp
  from mset_eq_setD [OF this] have "set (remove1 e (cal_abs q)) = set (cal_events (buckets q'))"
    by (simp only: set_cal_abs)
  moreover have "ev_sorted (remove1 e (cal_abs q))"
    using cal_abs_sorted(1) [OF d(1)] by (simp add: ev_sorted_def sorted_wrt_remove1)
  ultimately show ?thesis by (intro cal_abs_eqI d(2))
qed

lemma cal_deque_spec:
  assumes inv: "cal_inv q"
  shows "cal_events (buckets q) = [] \<Longrightarrow> cal_deque q = Inr None"
    and "cal_events (buckets q) \<noteq> [] \<Longrightarrow> \<exists>e q'. cal_deque q = Inr (Some (e, q')) \<and> cal_inv q'
      \<and> mset (cal_events (buckets q)) = add_mset e (mset (cal_events (buckets q')))
      \<and> (\<forall>x \<in> set (cal_events (buckets q)). x = e \<or> ev_before e x)"
proof -
  show "cal_events (buckets q) = [] \<Longrightarrow> cal_deque q = Inr None"
    using cal_head_spec(1) [OF inv] by (simp add: cal_deque_def)
next
  assume "cal_events (buckets q) \<noteq> []"
  from cal_head_spec(2) [OF inv this] obtain e l h
    where hd: "cal_head q = Inr (Some e, q\<lparr>head_search := h, lastbucket := l, cal_clock := ev_time e\<rparr>)"
      and f: "found_ok q (l, e)" by blast
  let ?q1 = "q\<lparr>head_search := h, lastbucket := l, cal_clock := ev_time e\<rparr>"
  note adv = cal_inv_advance [OF inv f]
  have "?q1 = (q\<lparr>lastbucket := l, cal_clock := ev_time e\<rparr>)\<lparr>head_search := h\<rparr>" by simp
  then have "cal_inv ?q1" using adv(1) by (simp only: cal_inv_stats)
  from cal_adjust_spec [OF this] obtain q2 where q2: "cal_adjust e ?q1 = Inr q2" "cal_inv q2"
    "cal_clock q2 = ev_time e" "mset (cal_events (buckets q2)) = mset (cal_events (buckets q))" by auto
  from mset_eq_setD [OF q2(4)] adv have e: "e \<in> set (cal_events (buckets q2))"
    and least: "\<forall>x \<in> set (cal_events (buckets q2)). x = e \<or> ev_before e x" by auto
  let ?i = "lastbucket q2"
  note l2 = cal_inv_lens [OF q2(2)]
  have ok: "buckets_ok (cal_clock q2) (width q2) (nbuckets q2) (buckets q2)"
    and hash: "int ?i = cal_hash (width q2) (nbuckets q2) (ev_time e)"
    using q2(2,3) by (auto simp: cal_inv_def cal_frame_def)
  have mem: "e \<in> set (b_list (buckets q2 ! ?i))"
    using cal_events_ok [OF ok e] hash by (metis nat_int)
  have sorted: "ev_sorted (b_list (buckets q2 ! ?i))" by (rule bucket_ok_sorted [OF cal_inv_bucket [OF q2(2) l2(5)]])
  obtain es where es: "b_list (buckets q2 ! ?i) = e # es"
  proof (cases "b_list (buckets q2 ! ?i)")
    case (Cons x xs)
    have "x \<in> set (cal_events (buckets q2))" using cal_events_in [of ?i "buckets q2" x] l2 Cons by simp
    with least have "x = e \<or> ev_before e x" by blast
    moreover have "e = x \<or> ev_before x e" using sorted mem Cons by auto
    ultimately have "x = e" using ev_before_trans ev_before_irrefl by blast
    with Cons that show ?thesis by simp
  qed (use mem in simp)
  let ?alone = "es = [] \<or> ev_time (hd es) \<noteq> ev_time e"
  have alone: "?alone \<longleftrightarrow> ev_time e \<notin> ev_time ` set es"
    using sorted es by (cases es) (auto simp: ev_before_def)
  let ?q3 = "q2\<lparr>buckets := (buckets q2)[?i := \<lparr>b_list = es, b_count = b_count (buckets q2 ! ?i) - (if ?alone then 1 else 0)\<rparr>],
    stat_qsize := stat_qsize q2 - (if ?alone then 1 else 0), cal_qsize := cal_qsize q2 - 1\<rparr>"
  have fr: "cal_frame ?q3" using q2(2) by (simp add: cal_inv_def cal_frame_def)
  have inv3: "cal_inv ?q3" and m3: "mset (cal_events (buckets q2)) = add_mset e (mset (cal_events (buckets ?q3)))"
    by (rule cal_inv_remove [OF q2(2) fr _ _ _ l2(5) mem _ _ alone]; simp add: es)+
  have "0 < nbuckets ?q3 div 2" using l2 by simp
  from cal_resize_spec [OF inv3 this] obtain q4 where q4: "cal_resize (nbuckets ?q3 div 2) (cal_clock ?q3) ?q3 = Inr q4"
    "cal_inv q4" "mset (cal_events (buckets q4)) = mset (cal_events (buckets ?q3))" by blast
  have "cal_deque q = (if stat_qsize ?q3 < bot_threshold ?q3
      then bindR (cal_resize (nbuckets ?q3 div 2) (cal_clock ?q3) ?q3) (\<lambda>q4. Inr (Some (e, q4))) else Inr (Some (e, ?q3)))"
    unfolding cal_deque_def hd bindR_Inr prod.case option.case q2(1) by (simp add: es Let_def)
  with q4 inv3 m3 q2(4) adv(3)
  show "\<exists>e q'. cal_deque q = Inr (Some (e, q')) \<and> cal_inv q'
      \<and> mset (cal_events (buckets q)) = add_mset e (mset (cal_events (buckets q')))
      \<and> (\<forall>x \<in> set (cal_events (buckets q)). x = e \<or> ev_before e x)"
    by (cases "stat_qsize ?q3 < bot_threshold ?q3") auto
qed

lemma unlink_from_split:
  "distinct (map ev_uid xs) \<Longrightarrow> e \<in> set xs \<Longrightarrow> \<exists>ys zs. unlink_from front e xs = Some (rev front @ ys, zs) \<and> xs = ys @ e # zs"
proof (induction xs arbitrary: front)
  case (Cons x xs)
  show ?case
  proof (cases "ev_uid x = ev_uid e")
    case True
    with Cons.prems have "x = e" by (auto simp: image_iff)
    then show ?thesis by auto
  next
    case False
    with Cons.prems Cons.IH [of "x # front"] obtain ys zs
      where "unlink_from (x # front) e xs = Some (rev (x # front) @ ys, zs)" "xs = ys @ e # zs" by fastforce
    with False show ?thesis by (intro exI [of _ "x # ys"] exI [of _ zs]) simp
  qed
qed simp

text \<open>
  In a list in order, another event of the same time is a neighbour in the circular list.
\<close>

lemma alone_iff:
  assumes s: "ev_sorted (ys @ e # zs)"
  shows "only_of_time e ys zs \<longleftrightarrow> ev_time e \<notin> ev_time ` set (ys @ zs)"
  unfolding only_of_time_def
proof
  assume "ev_time e \<notin> ev_time ` set (ys @ zs)"
  moreover have "hd (zs @ ys) \<in> set (ys @ zs)" "last (zs @ ys) \<in> set (ys @ zs)" if "ys @ zs \<noteq> []"
    using that hd_in_set [of "zs @ ys"] last_in_set [of "zs @ ys"] by auto
  ultimately show "ys @ zs = [] \<or> ev_time (hd (zs @ ys)) \<noteq> ev_time e \<and> ev_time (last (zs @ ys)) \<noteq> ev_time e"
    by (metis imageI)
next
  assume l: "ys @ zs = [] \<or> ev_time (hd (zs @ ys)) \<noteq> ev_time e \<and> ev_time (last (zs @ ys)) \<noteq> ev_time e"
  have before: "\<forall>x \<in> set ys. ev_before x e" and after: "\<forall>x \<in> set zs. ev_before e x"
    and sy: "ev_sorted ys" and sz: "ev_sorted zs" using s by (auto simp: ev_sorted_append)
  have "ev_time x \<noteq> ev_time e" if x: "x \<in> set zs" for x
  proof -
    from x obtain z zs' where z: "zs = z # zs'" by (cases zs) auto
    with l sz after x show ?thesis by (auto simp: ev_before_def)
  qed
  moreover have "ev_time x \<noteq> ev_time e" if x: "x \<in> set ys" for x
  proof -
    from x have "ys \<noteq> []" by auto
    then have "last (zs @ ys) = last ys" "last ys \<in> set ys" by (simp_all add: last_append)
    with sorted_wrt_last [OF sy [unfolded ev_sorted_def] x] l before x show ?thesis
      by (auto simp: ev_before_def)
  qed
  ultimately show "ev_time e \<notin> ev_time ` set (ys @ zs)" by fastforce
qed

lemma bindR_assertC: "b \<Longrightarrow> bindR (assertC b) f = f ()"
  by simp

lemma cal_cancel_eq:
  assumes "0 < ev_uid e" and "cal_hash (width q) (nbuckets q) (ev_time e) = int i" and "i < length (buckets q)"
    and "unlink_from [] e (b_list (buckets q ! i)) = Some (ys, zs)"
    and "0 \<le> stat_qsize q - (if only_of_time e ys zs then 1 else 0)"
    and "0 \<le> b_count (buckets q ! i) - (if only_of_time e ys zs then 1 else 0)"
    and "b_count (buckets q ! i) - (if only_of_time e ys zs then 1 else 0) = 0 \<longrightarrow> ys @ zs = []"
  shows "cal_cancel q e = Inr (q\<lparr>buckets := (buckets q)[i := \<lparr>b_list = ys @ zs,
      b_count = b_count (buckets q ! i) - (if only_of_time e ys zs then 1 else 0)\<rparr>],
    stat_qsize := stat_qsize q - (if only_of_time e ys zs then 1 else 0), cal_qsize := cal_qsize q - 1\<rparr>,
    e\<lparr>ev_uid := - ev_uid e\<rparr>)"
proof -
  have "\<not> ev_uid e \<le> 0" "\<not> (int i < 0 \<or> int (length (buckets q)) \<le> int i)" using assms(1,3) by auto
  moreover have "only_of_time e ys zs \<longrightarrow> stat_qsize q - 1 \<ge> 0 \<and> b_count (buckets q ! i) - 1 \<ge> 0"
    using assms(5,6) by auto
  note b1 = bindR_assertC [OF this] and b2 = bindR_assertC [OF assms(7)]
  ultimately show ?thesis
    unfolding cal_cancel_def Let_def assms(2) nat_int assms(4) by (simp only: if_False option.case prod.case b1 b2)
qed

lemma cal_cancel_spec:
  assumes inv: "cal_inv q" and mem: "e \<in> set (cal_events (buckets q))" and pos: "0 < ev_uid e"
  shows "\<exists>q'. cal_cancel q e = Inr (q', e\<lparr>ev_uid := - ev_uid e\<rparr>) \<and> cal_inv q'
    \<and> mset (cal_events (buckets q)) = add_mset e (mset (cal_events (buckets q')))"
proof -
  note l = cal_inv_lens [OF inv]
  have ok: "buckets_ok (cal_clock q) (width q) (nbuckets q) (buckets q)" using inv by (simp add: cal_inv_def)
  obtain i where i: "i < nbuckets q" "e \<in> set (b_list (buckets q ! i))" "cal_hash (width q) (nbuckets q) (ev_time e) = int i"
    using cal_events_ok [OF ok mem] by blast
  note b = cal_inv_bucket [OF inv i(1)]
  have "cal_events (buckets q) = cal_events (take i (buckets q)) @ b_list (buckets q ! i) @ cal_events (drop (Suc i) (buckets q))"
    using id_take_nth_drop [of i "buckets q"] i(1) l(1) by (metis cal_events_def concat_append concat.simps(2) list.simps(9) map_append)
  then have "distinct (map ev_uid (b_list (buckets q ! i)))" using inv by (simp add: cal_inv_def)
  from unlink_from_split [OF this i(2), of "[]"] obtain ys zs
    where u: "unlink_from [] e (b_list (buckets q ! i)) = Some (ys, zs)" and yz: "b_list (buckets q ! i) = ys @ e # zs"
    by auto
  let ?alone = "only_of_time e ys zs"
  have sorted: "ev_sorted (ys @ e # zs)" using bucket_ok_sorted [OF b] by (simp add: yz)
  note alone = alone_iff [OF sorted]
  have "e \<notin> set ys" using ev_sorted_distinct [OF sorted] by simp
  then have rest: "ys @ zs = remove1 e (b_list (buckets q ! i))" by (simp add: yz remove1_append)
  let ?q = "q\<lparr>buckets := (buckets q)[i := \<lparr>b_list = ys @ zs, b_count = b_count (buckets q ! i) - (if ?alone then 1 else 0)\<rparr>],
    stat_qsize := stat_qsize q - (if ?alone then 1 else 0), cal_qsize := cal_qsize q - 1\<rparr>"
  have fr: "cal_frame ?q" using inv by (simp add: cal_inv_def cal_frame_def)
  have inv': "cal_inv ?q" and m: "mset (cal_events (buckets q)) = add_mset e (mset (cal_events (buckets ?q)))"
    by (rule cal_inv_remove [OF inv fr _ _ _ i(1,2) _ rest alone]; simp)+
  from cal_inv_bucket [OF inv', of i] i l have c: "b_count (buckets q ! i) - (if ?alone then 1 else 0) = int (card (ev_time ` set (ys @ zs)))"
    by (simp add: bucket_ok_def)
  then have "0 \<le> b_count (buckets q ! i) - (if ?alone then 1 else 0)"
    "b_count (buckets q ! i) - (if ?alone then 1 else 0) = 0 \<longrightarrow> ys @ zs = []" unfolding c by auto
  moreover have "0 \<le> stat_qsize ?q"
    using inv' by (auto simp: cal_inv_def buckets_ok_def bucket_ok_def in_set_conv_nth intro!: sum_list_nonneg)
  ultimately have "cal_cancel q e = Inr (?q, e\<lparr>ev_uid := - ev_uid e\<rparr>)"
    using cal_cancel_eq [OF pos i(3) _ u] i(1) l(1) by simp
  with inv' m show ?thesis by blast
qed

lemma cal_lookup_spec:
  assumes "cal_inv q"
  shows "cal_lookup q u = find (\<lambda>e. ev_uid e = u) (cal_abs q)"
proof -
  have d: "distinct (map ev_uid (cal_events (buckets q)))" using assms by (simp add: cal_inv_def)
  show ?thesis unfolding cal_lookup_def
    by (rule find_key_perm) (use d cal_abs_sorted(2) [OF d] in \<open>simp_all flip: cal_events_def\<close>)
qed

section \<open>CalendarScheduler satisfies the interface\<close>

interpretation cq: event_queue cal_insert cal_cancel cal_lookup cal_deque cal_inv always_room cal_abs
proof (standard, goal_cases)
  case (1 q)
  then show ?case using cal_abs_sorted [of q] by (simp add: cal_inv_def)
next
  case (3 q n e)
  from cal_insert_spec [OF 3(1,4)] 3(3) obtain q'
    where q': "cal_insert q e = Inr q'" "cal_inv q'" "mset (cal_events (buckets q')) = add_mset e (mset (cal_events (buckets q)))"
    by auto
  have d: "distinct (map ev_uid (cal_events (buckets q)))" "distinct (map ev_uid (cal_events (buckets q')))"
    using 3(1) q'(2) by (auto simp: cal_inv_def)
  have "cal_abs q' = ins_time e (cal_abs q)"
    by (rule cal_abs_eqI [OF d(2)])
       (use ev_sorted_ins_time [OF cal_abs_sorted(1) [OF d(1)] 3(3)] mset_eq_setD [of "cal_events (buckets q')" "e # cal_events (buckets q)"] q'(3) in auto)
  with q' show ?case by simp
next
  case (4 q)
  then have "cal_events (buckets q) = []" by (metis set_cal_abs set_empty)
  with cal_deque_spec(1) [OF 4(1)] show ?case .
next
  case (5 q e es)
  then have "cal_events (buckets q) \<noteq> []" by (metis list.distinct(1) set_cal_abs set_empty)
  from cal_deque_spec(2) [OF 5(1) this] obtain e' q'
    where q': "cal_deque q = Inr (Some (e', q'))" "cal_inv q'"
      "mset (cal_events (buckets q)) = add_mset e' (mset (cal_events (buckets q')))"
      "\<forall>x \<in> set (cal_events (buckets q)). x = e' \<or> ev_before e' x" by blast
  have "ev_sorted (e # es)" using cal_abs_sorted(1) [of q] 5 by (simp add: cal_inv_def)
  moreover have "e \<in> set (cal_abs q)" using 5(2) by simp
  then have "e = e' \<or> ev_before e' e" using q'(4) by simp
  moreover have "e' \<in> set (cal_abs q)" using mset_eq_setD [of "cal_events (buckets q)" "e' # cal_events (buckets q')"] q'(3) by simp
  then have "e' \<in> set (e # es)" using 5(2) by simp
  moreover have "\<not> (ev_before e' e \<and> ev_before e e')" using ev_before_trans ev_before_irrefl by blast
  ultimately have "e' = e" by auto
  with cal_abs_remove [OF 5(1) q'(2,3)] q' 5(2) show ?case by simp
next
  case (6 q e)
  then have "e \<in> set (cal_events (buckets q))" by simp
  from cal_cancel_spec [OF 6(1) this 6(3)] cal_abs_remove [OF 6(1)] show ?case by auto
qed (simp_all add: cal_lookup_spec)

lemma cal_abs_empty: "cal_abs q = [] \<longleftrightarrow> cal_events (buckets q) = []"
  by (metis set_cal_abs set_empty)

lemma cal_new_inv: "cal_inv (cal_new raw mbw interval)"
proof -
  let ?q = "raw\<lparr>cal_clock := 0, min_bin_width := mbw, adjust_interval := interval\<rparr>"
  let ?q1 = "if interval \<noteq> 0 then ?q\<lparr>avg_gap := -2, last_time := -2, gap_num := 0, head_search := 0,
    insert_search := 0, round_num := 0, time_to_newwidth := interval\<rparr> else ?q"
  have "cal_clock ?q1 = 0" by simp
  with cal_reinit_inv [of 4 1 ?q1] show ?thesis by (simp add: cal_new_def Let_def)
qed

lemma cal_abs_new: "cal_abs (cal_new raw mbw interval) = []"
  by (simp add: cal_abs_def cal_new_def Let_def cal_reinit_events)

end
