(* ===== verification/SchedRuns.thy ===== *)
theory SchedRuns
  imports SchedHeap SchedSplay SchedCalendarInv
begin

text \<open>
  The properties of the scheduler with its queue disciplines: what the interface gives for every
  discipline is stated for the calendar queue, the heap and the splay tree, beside what they are known by only
  in a run: stable order, the end of the uid space, the end of the heap's secondary keys.
\<close>

section \<open>Events that arrive before a run\<close>

text \<open>The events for a list of handlers and delays, numbered from a first uid.\<close>

fun arrivals :: "int \<Rightarrow> ('h \<times> time) list \<Rightarrow> 'h event list" where
  "arrivals u [] = []"
| "arrivals u ((h, d) # hs) = \<lparr>ev_time = d, ev_uid = u, ev_handler = h\<rparr> # arrivals (u + 1) hs"

definition arrival_requests :: "('h \<times> time) list \<Rightarrow> 'h request list" where
  "arrival_requests hs = map (\<lambda>(h, d). ReqSchedule h d) hs"

lemma length_arrivals [simp]: "length (arrivals u hs) = length hs"
  by (induction u hs rule: arrivals.induct) auto

lemma arrivals_uid: "e \<in> set (arrivals u hs) \<Longrightarrow> u \<le> ev_uid e"
  by (induction u hs rule: arrivals.induct) fastforce+

lemma ev_sorted_insort:
  "ev_sorted xs \<Longrightarrow> \<forall>x \<in> set xs. ev_uid e < ev_uid x \<Longrightarrow> ev_sorted (insort_key ev_time e xs)"
proof (induction xs)
  case (Cons x xs)
  then show ?case by (auto simp: ev_before_def set_insort_key)
qed simp

lemma ev_sorted_sort_arrivals: "ev_sorted (sort_key ev_time (arrivals u hs))"
proof (induction u hs rule: arrivals.induct)
  case (2 u h d hs)
  moreover have "\<forall>x \<in> set (arrivals (u + 1) hs). u < ev_uid x" using arrivals_uid by fastforce
  ultimately show ?case by (auto intro!: ev_sorted_insort)
qed simp

context event_queue
begin

lemma serve_arrivals:
  "ok (length hs) s \<Longrightarrow> clock s = 0 \<Longrightarrow> \<not> halted s \<Longrightarrow> \<forall>(h, d) \<in> set hs. 0 \<le> d
   \<Longrightarrow> \<exists>s'. serve_all ins can look (arrival_requests hs) s = Inr s' \<and> ok 0 s' \<and> \<not> halted s'
     \<and> set (absq (queue s')) = set (absq (queue s)) \<union> set (arrivals (next_uid s) hs)
     \<and> length (absq (queue s')) = length (absq (queue s)) + length hs"
proof (induction hs arbitrary: s)
  case Nil
  then show ?case by (auto simp: arrival_requests_def)
next
  case (Cons hd hs)
  obtain h d where hd: "hd = (h, d)" by (cases hd)
  let ?e = "\<lparr>ev_time = 0, ev_uid = 0, ev_handler = h\<rparr>"
  from Cons.prems have "ok (Suc (length hs)) s" "0 \<le> d" by (auto simp: hd)
  from schedule_ok [OF this(1), of ?e d h] this(2) Cons.prems(2) obtain s1
    where s1: "schedule ins s (Some h) ?e d = Inr s1" "ok (length hs) s1" "clock s1 = 0"
      "halted s1 = halted s" "next_uid s1 = next_uid s + 1"
      "absq (queue s1) = ins_time \<lparr>ev_time = d, ev_uid = next_uid s, ev_handler = h\<rparr> (absq (queue s))"
    by auto
  have len: "length (absq (queue s1)) = Suc (length (absq (queue s)))"
    using arg_cong [OF mset_ins_time, of size] by (simp add: s1(6))
  from Cons.IH [OF s1(2,3)] s1(4) Cons.prems(3,4) obtain s'
    where "serve_all ins can look (arrival_requests hs) s1 = Inr s'" "ok 0 s'" "\<not> halted s'"
      "set (absq (queue s')) = set (absq (queue s1)) \<union> set (arrivals (next_uid s1) hs)"
      "length (absq (queue s')) = length (absq (queue s1)) + length hs" by auto
  with s1(1,5,6) len show ?case
    by (intro exI [of _ s']) (auto simp: arrival_requests_def serve_def hd)
qed

text \<open>
  Events scheduled on an empty queue are dispatched in the stable order of their times: first the
  earlier ones, in the order of their arrival where the times are equal.
\<close>

lemma arrivals_dispatched:
  assumes ok: "ok (length hs) (sched_init q)" and empty: "absq q = []"
    and d: "\<forall>(h, d) \<in> set hs. 0 \<le> d" and silent: "\<And>c t e. handle c t e = (c, [])"
  shows "\<exists>s s'. serve_all ins can look (arrival_requests hs) (sched_init q) = Inr s
    \<and> run ins can look deq handle (length hs) [] c s = Some (Inr (rev (sort_key ev_time (arrivals 1 hs)), c, s'))
    \<and> absq (queue s') = []"
proof -
  let ?xs = "sort_key ev_time (arrivals 1 hs)"
  from serve_arrivals [OF ok _ _ d] empty obtain s
    where s: "serve_all ins can look (arrival_requests hs) (sched_init q) = Inr s" "ok 0 s" "\<not> halted s"
      "set (absq (queue s)) = set (arrivals 1 hs)" "length (absq (queue s)) = length hs"
    by (auto simp: sched_init_def)
  have "ev_sorted (absq (queue s))" using invq_sorted s(2) by (simp add: sched_ok_def)
  from ev_sorted_unique [OF this ev_sorted_sort_arrivals, of 1 hs] s(4)
  have eq: "absq (queue s) = ?xs" by simp
  from run_drains [OF s(2,3), of "length hs" handle "[]" c] s(5) silent
  obtain s' where "run ins can look deq handle (length hs) [] c s = Some (Inr (rev (absq (queue s)) @ [], c, s'))"
    "absq (queue s') = []" by auto
  with s(1) eq show ?thesis by auto
qed

end


text \<open>What every handler call keeps of the client's state, a run keeps.\<close>

lemma run_client:
  assumes "\<And>c t e. P c \<Longrightarrow> P (fst (handle c t e))"
  shows "P c \<Longrightarrow> run ins can look deq handle n tr c s = Some (Inr (tr', c', s')) \<Longrightarrow> P c'"
proof (induction n arbitrary: tr c s)
  case 0
  then show ?case by (subst (asm) run.simps) (auto split: if_splits option.splits sum.splits)
next
  case (Suc n)
  show ?case
  proof (cases "halted s \<or> deq (queue s) = Inr None")
    case True
    with Suc.prems show ?thesis by (subst (asm) run.simps) (auto split: if_splits)
  next
    case False
    with Suc.prems(2) obtain p q' where d: "deq (queue s) = Inr (Some (p, q'))" and "\<not> halted s"
      by (subst (asm) run.simps) (auto split: sum.splits option.splits)
    with Suc.prems(2) obtain c1 s1
      where c1: "dispatch ins can look handle c (s\<lparr>queue := q'\<rparr>) p (ev_time p) = Inr (c1, s1)"
        "run ins can look deq handle n (p # tr) c1 s1 = Some (Inr (tr', c', s'))"
      by (subst (asm) run.simps) (auto split: sum.splits)
    then have "c1 = fst (handle c (ev_time p) (p\<lparr>ev_uid := - ev_uid p\<rparr>))"
      by (auto simp: dispatch_def bindR_eq_Inr Let_def split: if_splits prod.splits)
    with assms Suc.prems(1) have "P c1" by simp
    with Suc.IH c1(2) show ?thesis by blast
  qed
qed

section \<open>A run\<close>

abbreviation heap_run ::
  "('c \<Rightarrow> time \<Rightarrow> 'h event \<Rightarrow> 'c \<times> 'h request list) \<Rightarrow> nat \<Rightarrow> 'h event list \<Rightarrow> 'c
   \<Rightarrow> ('h, 'h event heap) sched \<Rightarrow> ('h event list \<times> 'c \<times> ('h, 'h event heap) sched) res option"
where
  "heap_run \<equiv> run (sure_ins hs_insert) hs_cancel hs_lookup (sure_deq hs_deque)"

abbreviation splay_run ::
  "('c \<Rightarrow> time \<Rightarrow> 'h event \<Rightarrow> 'c \<times> 'h request list) \<Rightarrow> nat \<Rightarrow> 'h event list \<Rightarrow> 'c
   \<Rightarrow> ('h, 'h splay) sched \<Rightarrow> ('h event list \<times> 'c \<times> ('h, 'h splay) sched) res option"
where
  "splay_run \<equiv> run (sure_ins splay_insert) splay_cancel splay_lookup (sure_deq splay_deque)"

abbreviation calendar_run ::
  "('c \<Rightarrow> time \<Rightarrow> 'h event \<Rightarrow> 'c \<times> 'h request list) \<Rightarrow> nat \<Rightarrow> 'h event list \<Rightarrow> 'c
   \<Rightarrow> ('h, 'h calendar) sched \<Rightarrow> ('h event list \<times> 'c \<times> ('h, 'h calendar) sched) res option"
where
  "calendar_run \<equiv> run cal_insert cal_cancel cal_lookup cal_deque"

text \<open>Three schedulers with one event at time 2, and a handler that reschedules three times.\<close>

definition demo_event :: "nat event" where
  "demo_event = \<lparr>ev_time = 2, ev_uid = 1, ev_handler = 0\<rparr>"

definition demo_heap :: "(nat, nat event heap) sched" where
  "demo_heap = (sched_init (hs_insert (heap_new 4) demo_event))\<lparr>next_uid := 2\<rparr>"

definition demo_splay :: "(nat, nat splay) sched" where
  "demo_splay = (sched_init (splay_insert splay_new demo_event))\<lparr>next_uid := 2\<rparr>"

definition cal_zero :: "'h calendar" where
  "cal_zero =
     \<lparr>min_bin_width = 0, adjust_interval = 0, time_to_newwidth = 0, head_search = 0, insert_search = 0,
      round_num = 0, gap_num = 0, last_time = 0, avg_gap = 0, width = 0, diff0 = 0, diff1 = 0, diff2 = 0,
      stat_qsize = 0, nbuckets = 0, lastbucket = 0, top_threshold = 0, bot_threshold = 0, buckets = [],
      cal_qsize = 0, cal_clock = 0\<rparr>"

definition demo_calendar :: "(nat, nat calendar) sched" where
  "demo_calendar =
     (case cal_insert (cal_new cal_zero 0 10) demo_event of
        Inl _ \<Rightarrow> sched_init cal_zero
      | Inr q \<Rightarrow> (sched_init q)\<lparr>next_uid := 2\<rparr>)"

text \<open>A square root is not computed by rewriting; no instance comes to it.\<close>

declare sqrt_def [code del]

definition demo_ticks :: "nat \<Rightarrow> time \<Rightarrow> nat event \<Rightarrow> nat \<times> nat request list" where
  "demo_ticks c t e = (if c < 3 then (Suc c, [ReqSchedule c 1]) else (c, []))"

lemma demo_ticks_ok: "handler_ok 1 demo_ticks"
  by (simp add: handler_ok_def demo_ticks_def req_ok_def)

lemma demo_heap_ok: "sched_ok heap_inv heap_room heap_abs 10 demo_heap"
  by (rule hq.ok_single [of "heap_new 4" 10 demo_event])
     (auto simp: heap_inv_new heap_room_new heap_abs_new uid_max_def demo_heap_def demo_event_def)

lemma demo_splay_ok: "sched_ok splay_inv always_room splay_abs 10 demo_splay"
  by (rule sq.ok_single [of splay_new 10 demo_event])
     (auto simp: splay_inv_def splay_abs_def splay_new_def uid_max_def demo_splay_def demo_event_def)

lemma demo_calendar_ok: "sched_ok cal_inv always_room cal_abs 10 demo_calendar"
  by (rule cq.ok_single [of "cal_new cal_zero 0 10" 10 demo_event])
     (auto simp: cal_new_inv cal_abs_new uid_max_def demo_calendar_def demo_event_def)

text \<open>
  A run of the calendar scheduler, the default of the simulator, under handlers that make at
  most k requests per event and none with a negative delay, never aborts within n events: whatever
  the calendar does to the number and the length of its days, no assertion fails, no bucket index
  leaves the array, the events are dispatched in the order of their times, the clock never goes
  back, and the run stops only when halted or when no event is left.
\<close>

theorem calendar_run_safe:
  assumes "sched_ok cal_inv always_room cal_abs (n * k) s" and "handler_ok k handle"
  shows "case calendar_run handle n [] c s of
      None \<Rightarrow> True
    | Some r \<Rightarrow> succeeds (\<lambda>(tr, c', s'). trace_ok (clock s') tr \<and> clock s \<le> clock s'
        \<and> (halted s' \<or> cal_events (buckets (queue s')) = [])) r"
  using cq.run_ok [OF assms(1) _ assms(2), of "[]" c] cal_abs_empty
  by (fastforce simp: trace_ok_def split: option.split elim!: succeeds_mono)

theorem calendar_run_safe_witness:
  "\<exists>r. calendar_run demo_ticks 5 [] 0 demo_calendar = Some r \<and> succeeds (\<lambda>(tr, c', s'). trace_ok (clock s') tr
     \<and> (halted s' \<or> cal_events (buckets (queue s')) = [])) r"
proof -
  have "sched_ok cal_inv always_room cal_abs (5 * 1) demo_calendar"
    by (rule cq.ok_mono [OF demo_calendar_ok]) simp
  from calendar_run_safe [OF this demo_ticks_ok, of 0]
  have "case calendar_run demo_ticks 5 [] 0 demo_calendar of None \<Rightarrow> True | Some r \<Rightarrow>
    succeeds (\<lambda>(tr, c', s'). trace_ok (clock s') tr \<and> clock demo_calendar \<le> clock s'
      \<and> (halted s' \<or> cal_events (buckets (queue s')) = [])) r" .
  moreover have "calendar_run demo_ticks 5 [] 0 demo_calendar \<noteq> None" by code_simp
  ultimately show ?thesis by (auto elim!: succeeds_mono)
qed

text \<open>
  C8: The calendar scheduler refines the list scheduler: a run dispatches the same events, leaves
  the clients in the same state and the queue with the same events as the run of the list scheduler
  on the events of the calendar in dispatch order.
\<close>

theorem calendar_refines_list:
  assumes "sched_ok cal_inv always_room cal_abs (n * k) s" and "handler_ok k handle"
  shows "abs_run cal_abs (calendar_run handle n tr c s) = list_run handle n tr c (abs_sched cal_abs s)"
  by (rule cq.run_refines [OF assms])

theorem calendar_refines_list_witness:
  "abs_run cal_abs (calendar_run demo_ticks 5 [] 0 demo_calendar)
     = list_run demo_ticks 5 [] 0 (abs_sched cal_abs demo_calendar)"
proof -
  have "sched_ok cal_inv always_room cal_abs (5 * 1) demo_calendar"
    by (rule cq.ok_mono [OF demo_calendar_ok]) simp
  from calendar_refines_list [OF this demo_ticks_ok] show ?thesis .
qed

text \<open>
  C9: Events scheduled on a new calendar scheduler are all dispatched, in the stable order of their
  times: the earlier ones first, and in the order of their arrival where the times are equal,
  although growing and shrinking the calendar moves every event to another bucket.
\<close>

theorem calendar_dispatches_stable:
  assumes "\<forall>(h, d) \<in> set hs. 0 \<le> d" and "int (length hs) < uid_max"
  shows "\<exists>s s'. serve_all cal_insert cal_cancel cal_lookup (arrival_requests hs) (sched_init (cal_new raw mbw interval)) = Inr s
    \<and> calendar_run (\<lambda>c t e. (c, [])) (length hs) [] () s
      = Some (Inr (rev (sort_key ev_time (arrivals 1 hs)), (), s'))"
proof -
  have "sched_ok cal_inv always_room cal_abs (length hs) (sched_init (cal_new raw mbw interval))"
    using assms(2) by (simp add: sched_ok_def sched_init_def cal_new_inv cal_abs_new)
  from cq.arrivals_dispatched [OF this _ assms(1), of "\<lambda>c t e. (c, [])" "()"] show ?thesis
    by (auto simp: cal_abs_new)
qed

theorem calendar_dispatches_stable_witness:
  "\<exists>s. serve_all cal_insert cal_cancel cal_lookup (arrival_requests [(CHR ''a'', 3), (CHR ''b'', 1), (CHR ''c'', 3)])
        (sched_init (cal_new cal_zero 0 10)) = Inr s
    \<and> map_option (map_sum (\<lambda>e. e) (\<lambda>(tr, c, s). map ev_handler tr))
        (calendar_run (\<lambda>c t e. (c, [])) 3 [] () s) = Some (Inr [CHR ''c'', CHR ''a'', CHR ''b''])"
proof -
  let ?hs = "[(CHR ''a'', 3), (CHR ''b'', 1), (CHR ''c'', 3)] :: (char \<times> time) list"
  have "map ev_handler (sort_key ev_time (arrivals 1 ?hs)) = [CHR ''b'', CHR ''a'', CHR ''c'']" by simp
  moreover from calendar_dispatches_stable [of ?hs cal_zero 0 10] obtain s s'
    where "serve_all cal_insert cal_cancel cal_lookup (arrival_requests ?hs) (sched_init (cal_new cal_zero 0 10)) = Inr s"
      "calendar_run (\<lambda>c t e. (c, [])) (length ?hs) [] () s = Some (Inr (rev (sort_key ev_time (arrivals 1 ?hs)), (), s'))"
    by (auto simp: uid_max_def)
  ultimately show ?thesis by (intro exI [of _ s]) (simp add: numeral_3_eq_3)
qed

text \<open>
  A run of the heap scheduler, under handlers that make at most k requests per event and none
  with a negative delay, never aborts within n events (given room for n * k insertions): the
  events are dispatched in the order of their times, the clock never goes back, and the run stops
  only when halted or when no event is left.
\<close>

theorem heap_run_safe:
  assumes "sched_ok heap_inv heap_room heap_abs (n * k) s" and "handler_ok k handle"
  shows "case heap_run handle n [] c s of
      None \<Rightarrow> True
    | Some r \<Rightarrow> succeeds (\<lambda>(tr, c', s'). trace_ok (clock s') tr \<and> clock s \<le> clock s'
        \<and> (halted s' \<or> heap_abs (queue s') = [])) r"
  using hq.run_ok [OF assms(1) _ assms(2), of "[]" c] by (simp add: trace_ok_def split: option.split)

theorem heap_run_safe_witness:
  "\<exists>r. heap_run demo_ticks 5 [] 0 demo_heap = Some r \<and> succeeds (\<lambda>(tr, c', s'). trace_ok (clock s') tr
     \<and> (halted s' \<or> heap_abs (queue s') = [])) r"
proof -
  have "sched_ok heap_inv heap_room heap_abs (5 * 1) demo_heap"
    by (rule hq.ok_mono [OF demo_heap_ok]) simp
  from heap_run_safe [OF this demo_ticks_ok, of 0]
  have "case heap_run demo_ticks 5 [] 0 demo_heap of None \<Rightarrow> True | Some r \<Rightarrow>
    succeeds (\<lambda>(tr, c', s'). trace_ok (clock s') tr \<and> clock demo_heap \<le> clock s' \<and> (halted s' \<or> heap_abs (queue s') = [])) r" .
  moreover have "heap_run demo_ticks 5 [] 0 demo_heap \<noteq> None" by code_simp
  ultimately show ?thesis by (auto elim!: succeeds_mono)
qed


text \<open>
  A run of the splay tree scheduler, under handlers that make at most k requests per event and
  none with a negative delay, never aborts within n events: the events are dispatched in the order
  of their times, the clock never goes back, and the run stops only when halted or when no event
  is left.
\<close>

theorem splay_run_safe:
  assumes "sched_ok splay_inv always_room splay_abs (n * k) s" and "handler_ok k handle"
  shows "case splay_run handle n [] c s of
      None \<Rightarrow> True
    | Some r \<Rightarrow> succeeds (\<lambda>(tr, c', s'). trace_ok (clock s') tr \<and> clock s \<le> clock s'
        \<and> (halted s' \<or> splay_abs (queue s') = [])) r"
  using sq.run_ok [OF assms(1) _ assms(2), of "[]" c] by (simp add: trace_ok_def split: option.split)

theorem splay_run_safe_witness:
  "\<exists>r. splay_run demo_ticks 5 [] 0 demo_splay = Some r \<and> succeeds (\<lambda>(tr, c', s'). trace_ok (clock s') tr
     \<and> (halted s' \<or> splay_abs (queue s') = [])) r"
proof -
  have "sched_ok splay_inv always_room splay_abs (5 * 1) demo_splay"
    by (rule sq.ok_mono [OF demo_splay_ok]) simp
  from splay_run_safe [OF this demo_ticks_ok, of 0]
  have "case splay_run demo_ticks 5 [] 0 demo_splay of None \<Rightarrow> True | Some r \<Rightarrow>
    succeeds (\<lambda>(tr, c', s'). trace_ok (clock s') tr \<and> clock demo_splay \<le> clock s' \<and> (halted s' \<or> splay_abs (queue s') = [])) r" .
  moreover have "splay_run demo_ticks 5 [] 0 demo_splay \<noteq> None" by code_simp
  ultimately show ?thesis by (auto elim!: succeeds_mono)
qed

text \<open>
  C10: The heap scheduler refines the list scheduler: a run dispatches the same events, leaves the
  clients in the same state and the queue with the same events as the run of the list scheduler on
  the events of the heap.
\<close>

theorem heap_refines_list:
  assumes "sched_ok heap_inv heap_room heap_abs (n * k) s" and "handler_ok k handle"
  shows "abs_run heap_abs (heap_run handle n tr c s) = list_run handle n tr c (abs_sched heap_abs s)"
  by (rule hq.run_refines [OF assms])

theorem heap_refines_list_witness:
  "abs_run heap_abs (heap_run demo_ticks 5 [] 0 demo_heap) = list_run demo_ticks 5 [] 0 (abs_sched heap_abs demo_heap)"
proof -
  have "sched_ok heap_inv heap_room heap_abs (5 * 1) demo_heap"
    by (rule hq.ok_mono [OF demo_heap_ok]) simp
  from heap_refines_list [OF this demo_ticks_ok] show ?thesis .
qed

text \<open>
  C11: The splay tree scheduler refines the list scheduler: a run dispatches the same events,
  leaves the clients in the same state and the queue with the same events as the run of the list
  scheduler on the events of the tree.
\<close>

theorem splay_refines_list:
  assumes "sched_ok splay_inv always_room splay_abs (n * k) s" and "handler_ok k handle"
  shows "abs_run splay_abs (splay_run handle n tr c s) = list_run handle n tr c (abs_sched splay_abs s)"
  by (rule sq.run_refines [OF assms])

theorem splay_refines_list_witness:
  "abs_run splay_abs (splay_run demo_ticks 5 [] 0 demo_splay)
     = list_run demo_ticks 5 [] 0 (abs_sched splay_abs demo_splay)"
proof -
  have "sched_ok splay_inv always_room splay_abs (5 * 1) demo_splay"
    by (rule sq.ok_mono [OF demo_splay_ok]) simp
  from splay_refines_list [OF this demo_ticks_ok] show ?thesis .
qed

text \<open>
  Events scheduled on an empty heap scheduler are all dispatched, in the stable order of their
  times: the earlier ones first, and in the order of their arrival where the times are equal.
\<close>

theorem heap_dispatches_stable:
  assumes "\<forall>(h, d) \<in> set hs. 0 \<le> d" and "length hs < 2 ^ 32" and "0 < m"
  shows "\<exists>s s'. serve_all (sure_ins hs_insert) hs_cancel hs_lookup (arrival_requests hs) (sched_init (heap_new m)) = Inr s
    \<and> heap_run (\<lambda>c t e. (c, [])) (length hs) [] () s
      = Some (Inr (rev (sort_key ev_time (arrivals 1 hs)), (), s'))"
proof -
  have "sched_ok heap_inv heap_room heap_abs (length hs) (sched_init (heap_new m))"
    using assms(2,3) by (simp add: sched_ok_def sched_init_def heap_inv_new heap_abs_new heap_room_new uid_max_def)
  from hq.arrivals_dispatched [OF this _ assms(1), of "\<lambda>c t e. (c, [])" "()"] show ?thesis
    by (auto simp: heap_abs_new)
qed

theorem heap_dispatches_stable_witness:
  "\<exists>s. serve_all (sure_ins hs_insert) hs_cancel hs_lookup (arrival_requests [(CHR ''a'', 3), (CHR ''b'', 1), (CHR ''c'', 3)])
        (sched_init (heap_new 2)) = Inr s
    \<and> map_option (map_sum (\<lambda>e. e) (\<lambda>(tr, c, s). map ev_handler tr))
        (heap_run (\<lambda>c t e. (c, [])) 3 [] () s) = Some (Inr [CHR ''c'', CHR ''a'', CHR ''b''])"
proof -
  let ?hs = "[(CHR ''a'', 3), (CHR ''b'', 1), (CHR ''c'', 3)] :: (char \<times> time) list"
  have "map ev_handler (sort_key ev_time (arrivals 1 ?hs)) = [CHR ''b'', CHR ''a'', CHR ''c'']" by simp
  moreover from heap_dispatches_stable [of ?hs 2] obtain s s'
    where "serve_all (sure_ins hs_insert) hs_cancel hs_lookup (arrival_requests ?hs) (sched_init (heap_new 2)) = Inr s"
      "heap_run (\<lambda>c t e. (c, [])) (length ?hs) [] () s = Some (Inr (rev (sort_key ev_time (arrivals 1 ?hs)), (), s'))"
    by auto
  ultimately show ?thesis by (intro exI [of _ s]) (simp add: numeral_3_eq_3)
qed

section \<open>Commands\<close>

text \<open>
  Every command of the Tcl interface leaves a heap scheduler in good order and, except for
  \<open>run\<close>, which is issued on an empty queue, leaves its clock alone; \<open>at\<close> with a time in
  the past is answered with an error, not with an event in the past.
\<close>

theorem heap_command_safe:
  assumes "sched_ok heap_inv heap_room heap_abs (Suc n) s" and "cmd \<noteq> CmdRun"
  shows "\<exists>s' r. sched_command (sure_ins hs_insert) hs_cancel hs_lookup cmd s = Inr (s', r)
    \<and> sched_ok heap_inv heap_room heap_abs n s' \<and> clock s' = clock s"
  using hq.command_ok [OF assms(1), of cmd] assms(2) by blast

theorem heap_command_safe_witness:
  "\<exists>s' r. sched_command (sure_ins hs_insert) hs_cancel hs_lookup (CmdAt 7 1) demo_heap = Inr (s', r)
    \<and> sched_ok heap_inv heap_room heap_abs 9 s'"
proof -
  have "sched_ok heap_inv heap_room heap_abs (Suc 9) demo_heap" using demo_heap_ok by simp
  from heap_command_safe [OF this, of "CmdAt 7 1"] show ?thesis by auto
qed

text \<open>
  The consistency check of the splay tree, \<open>validate\<close>, finds no fault in the tree of a
  scheduler in good order, and what it counts is the size the scheduler keeps.
\<close>

theorem splay_validates:
  assumes "splay_inv q"
  shows "validate (sroot q) = Inr (qsize q)"
  using assms validate_sorted [of "sroot q"] by (simp add: splay_inv_def splay_abs_def)

theorem splay_validates_witness: "validate (sroot (queue demo_splay)) = Inr (qsize (queue demo_splay))"
  by (rule splay_validates) (use demo_splay_ok in \<open>simp add: sched_ok_def\<close>)

section \<open>Counters that end\<close>

text \<open>
  The uid space ends after 2^63 - 1 events: the last uid is still handed out, and the next
  \<open>schedule\<close> aborts, whatever the discipline (without assertions of its own).
\<close>

theorem uid_space_ends:
  "\<exists>s'. schedule (sure_ins ins) (s\<lparr>next_uid := uid_max\<rparr>) (Some h) (e\<lparr>ev_uid := 0\<rparr>) d = Inr s'
    \<and> next_uid s' = - (2 ^ 63) \<and> schedule (sure_ins ins) s' (Some h') e' d' = Inl Aborted"
proof -
  have "\<not> uid_max < 0" by (simp add: uid_max_def)
  then show ?thesis by (auto simp: schedule_def Let_def wrap64_overflow)
qed

lemma sift_up_0: "sift_up xs k ks 0 = (xs, 0)"
  by (subst sift_up.simps) simp

lemma heap_new_2:
  "heap_new 2 = \<lparr>h_elems = [he_zero, he_zero], h_s_key = 0, h_size = 0, h_maxsize = 2, h_iter = 0\<rparr>"
  by (simp add: heap_new_def numeral_2_eq_2)

text \<open>
  The 32-bit secondary key of the heap wraps round after 2^32 insertions, long before the uids
  end: at that point two events with the same time leave in the wrong order, the later arrival
  first.
\<close>

theorem heap_ties_wrap:
  "\<exists>h'. hs_deque (hs_insert (hs_insert ((heap_new 2)\<lparr>h_s_key := 0xffffffff\<rparr>) e) (e\<lparr>ev_uid := u\<rparr>))
    = Some (e\<lparr>ev_uid := u\<rparr>, h')"
proof -
  let ?a = "\<lparr>he_key = ev_time e, he_s_key = 0xffffffff, he_elem = Some e\<rparr>"
  let ?b = "\<lparr>he_key = ev_time e, he_s_key = 0, he_elem = Some (e\<lparr>ev_uid := u\<rparr>)\<rparr>"
  let ?h = "\<lparr>h_elems = [?a, he_zero], h_s_key = 0, h_size = 1, h_maxsize = 2, h_iter = 0\<rparr>"
  have a: "hs_insert ((heap_new 2)\<lparr>h_s_key := 0xffffffff\<rparr>) e = ?h"
    by (simp add: hs_insert_def heap_insert_def heap_grow_def Let_def heap_new_2 sift_up_0)
  have "sift_up [?a, he_zero] (ev_time e) 0 1 = ([?a, ?a], 0)"
    by (subst sift_up.simps) (simp add: parent_def key_less_than_def sift_up_0)
  then have "hs_insert ?h (e\<lparr>ev_uid := u\<rparr>)
      = \<lparr>h_elems = [?b, ?a], h_s_key = 1, h_size = 2, h_maxsize = 2, h_iter = 0\<rparr>"
    by (simp add: hs_insert_def heap_insert_def heap_grow_def Let_def)
  with a show ?thesis by (simp add: hs_deque_def heap_extract_min_def)
qed

end
