(* ===== verification/MobileNode.thy ===== *)
theory MobileNode
  imports NsPrelude
begin

text \<open>
  The mobile node of \<open>common/mobilenode.cc\<close>: movement in a straight line towards a destination,
  and the list of way points a car follows, which the vehicular agent uses to estimate
  distances. Coordinates are real numbers.
\<close>

section \<open>Way points\<close>

text \<open>\<open>CarRoute\<close>: a coordinate is kept as text, cut at the first dot.\<close>

record car_route =
  cr_x :: string
  cr_y :: string
  cr_z :: string

definition set_coord :: "string \<Rightarrow> string" where
  "set_coord t = takeWhile (\<lambda>c. c \<noteq> CHR ''.'') t"

definition car_route_new :: "string \<Rightarrow> string \<Rightarrow> string \<Rightarrow> car_route" where
  "car_route_new x y z = \<lparr>cr_x = set_coord x, cr_y = set_coord y, cr_z = set_coord z\<rparr>"

definition cr_to_string :: "car_route \<Rightarrow> string" where
  "cr_to_string c = ''('' @ cr_x c @ '', '' @ cr_y c @ '' ,'' @ cr_z c @ '')''"

section \<open>State\<close>

record topography =
  maxX :: real
  maxY :: real
  grid_resolution :: real

definition lowerX :: "topography \<Rightarrow> real" where "lowerX T = 0"
definition upperX :: "topography \<Rightarrow> real" where "upperX T = maxX T * grid_resolution T"
definition lowerY :: "topography \<Rightarrow> real" where "lowerY T = 0"
definition upperY :: "topography \<Rightarrow> real" where "upperY T = maxY T * grid_resolution T"

record mobile_node =
  mn_X :: real
  mn_Y :: real
  mn_Z :: real
  mn_speed :: real
  mn_dX :: real
  mn_dY :: real
  mn_dZ :: real
  mn_destX :: real
  mn_destY :: real
  mn_update_time :: time
  mn_kind :: int
  mn_firstWalk :: bool
  mn_route :: "car_route list"

definition mobile_node_new :: "int \<Rightarrow> mobile_node" where
  "mobile_node_new k =
     \<lparr>mn_X = 0, mn_Y = 0, mn_Z = 0, mn_speed = 0, mn_dX = 0, mn_dY = 0, mn_dZ = 0, mn_destX = 0,
      mn_destY = 0, mn_update_time = 0, mn_kind = k, mn_firstWalk = True, mn_route = []\<rparr>"

definition MAX_SPEED :: real where "MAX_SPEED = 5"
definition SPEED_OF_LIGHT :: real where "SPEED_OF_LIGHT = 300000000"

text \<open>A node that has a topography and a trace target.\<close>

definition initialized :: "topography \<Rightarrow> mobile_node \<Rightarrow> bool" where
  "initialized T m \<longleftrightarrow> mn_X m \<ge> lowerX T \<and> mn_X m \<le> upperX T \<and> mn_Y m \<ge> lowerY T \<and> mn_Y m \<le> upperY T"

section \<open>Movement\<close>

definition update_pos :: "time \<Rightarrow> mobile_node \<Rightarrow> mobile_node" where
  "update_pos now m =
     (let interval = now - mn_update_time m in
      if interval = 0 \<and> mn_update_time m \<noteq> 0 then m
      else
        (let X1 = mn_X m + mn_dX m * (mn_speed m * interval);
             Y1 = mn_Y m + mn_dY m * (mn_speed m * interval);
             X2 = (if (mn_dX m > 0 \<and> X1 > mn_destX m) \<or> (mn_dX m < 0 \<and> X1 < mn_destX m)
                   then mn_destX m else X1);
             Y2 = (if (mn_dY m > 0 \<and> Y1 > mn_destY m) \<or> (mn_dY m < 0 \<and> Y1 < mn_destY m)
                   then mn_destY m else Y1)
         in m\<lparr>mn_X := X2, mn_Y := Y2, mn_update_time := now\<rparr>))"

text \<open>\<open>set_destination\<close> returns -1 for a destination that is not inside the topography.\<close>

definition set_destination ::
  "topography \<Rightarrow> time \<Rightarrow> real \<Rightarrow> real \<Rightarrow> real \<Rightarrow> mobile_node \<Rightarrow> (int \<times> mobile_node) res"
where
  "set_destination T now x y s m =
     bindR (assertC (initialized T m)) (\<lambda>_.
       if x \<ge> upperX T \<or> x \<le> lowerX T then Inr (- 1, m)
       else if y \<ge> upperY T \<or> y \<le> lowerY T then Inr (- 1, m)
       else
         (let m = update_pos now m;
              m = m\<lparr>mn_destX := x, mn_destY := y, mn_speed := s\<rparr>;
              m = m\<lparr>mn_dX := mn_destX m - mn_X m, mn_dY := mn_destY m - mn_Y m, mn_dZ := 0\<rparr>;
              m = (if mn_destX m \<noteq> mn_X m \<or> mn_destY m \<noteq> mn_Y m
                   then (let len = sqrt (mn_dX m * mn_dX m + mn_dY m * mn_dY m)
                         in m\<lparr>mn_dX := mn_dX m / len, mn_dY := mn_dY m / len\<rparr>)
                   else m)
          in Inr (0, m\<lparr>mn_update_time := now\<rparr>)))"

text \<open>\<open>random_destination\<close> and \<open>random_position\<close> take the numbers \<open>Random::uniform()\<close> returns.\<close>

definition random_speed :: "real \<Rightarrow> mobile_node \<Rightarrow> mobile_node" where
  "random_speed u m = m\<lparr>mn_speed := u * MAX_SPEED\<rparr>"

definition random_destination ::
  "topography \<Rightarrow> time \<Rightarrow> real \<Rightarrow> real \<Rightarrow> real \<Rightarrow> mobile_node \<Rightarrow> mobile_node res"
where
  "random_destination T now u1 u2 u3 m =
     (let m = random_speed u1 m
      in bindR (set_destination T now (u2 * upperX T) (u3 * upperY T) (mn_speed m) m) (\<lambda>(r, m'). Inr m'))"

definition random_position ::
  "topography \<Rightarrow> (real \<Rightarrow> real \<Rightarrow> real) \<Rightarrow> real \<Rightarrow> real \<Rightarrow> mobile_node \<Rightarrow> mobile_node"
where
  "random_position T height u1 u2 m =
     (let X = u1 * upperX T; Y = u2 * upperY T
      in m\<lparr>mn_X := X, mn_Y := Y, mn_Z := height X Y, mn_update_time := 0\<rparr>)"

text \<open>\<open>PositionHandler::handle\<close>, without the rescheduling of the handler.\<close>

definition position_handle ::
  "topography \<Rightarrow> time \<Rightarrow> real \<Rightarrow> real \<Rightarrow> real \<Rightarrow> mobile_node \<Rightarrow> mobile_node res"
where
  "position_handle T now u1 u2 u3 m = random_destination T now u1 u2 u3 (update_pos now m)"

definition mn_distance :: "time \<Rightarrow> mobile_node \<Rightarrow> mobile_node \<Rightarrow> real \<times> mobile_node \<times> mobile_node" where
  "mn_distance now a b =
     (let a = update_pos now a; b = update_pos now b;
          Xpos = (mn_X a - mn_X b) * (mn_X a - mn_X b);
          Ypos = (mn_Y a - mn_Y b) * (mn_Y a - mn_Y b);
          Zpos = (mn_Z a - mn_Z b) * (mn_Z a - mn_Z b)
      in (sqrt (Xpos + Ypos + Zpos), a, b))"

definition propdelay :: "time \<Rightarrow> mobile_node \<Rightarrow> mobile_node \<Rightarrow> real" where
  "propdelay now a b = fst (mn_distance now a b) / SPEED_OF_LIGHT"

section \<open>Routes\<close>

text \<open>
  \<open>read_route\<close> takes three arguments at a time; the null pointer behind the last argument is
  dereferenced when their number is not a multiple of three.
\<close>

fun read_route :: "string list \<Rightarrow> mobile_node \<Rightarrow> mobile_node res" where
  "read_route [] m = Inr m"
| "read_route (a # b # c # as) m = read_route as (m\<lparr>mn_route := mn_route m @ [car_route_new a b c]\<rparr>)"
| "read_route [a] m = Inl NullDeref"
| "read_route [a, b] m = Inl NullDeref"

definition getPositions :: "mobile_node \<Rightarrow> string" where
  "getPositions m = concat (map cr_to_string (mn_route m))"

text \<open>\<open>pop_front\<close> of an empty list is undefined behaviour.\<close>

definition remove_first_object :: "mobile_node \<Rightarrow> mobile_node res" where
  "remove_first_object m =
     bindR (if \<not> mn_firstWalk m
            then (case mn_route m of [] \<Rightarrow> Inl OutOfBounds | r # rs \<Rightarrow> Inr (m\<lparr>mn_route := rs\<rparr>))
            else Inr m)
       (\<lambda>m. Inr (m\<lparr>mn_firstWalk := False\<rparr>))"

text \<open>The command \<open>setdest\<close>.\<close>

definition setdest_command ::
  "topography \<Rightarrow> time \<Rightarrow> real \<Rightarrow> real \<Rightarrow> real \<Rightarrow> mobile_node \<Rightarrow> (bool \<times> mobile_node) res"
where
  "setdest_command T now x y s m =
     bindR (set_destination T now x y s m) (\<lambda>(r, m).
       if r < 0 then Inr (False, m)
       else if mn_kind m = 2 then bindR (remove_first_object m) (\<lambda>m. Inr (True, m))
       else Inr (True, m))"

fun check_distance :: "car_route list \<Rightarrow> string \<Rightarrow> string \<Rightarrow> int \<Rightarrow> int" where
  "check_distance [] x y d = - 1"
| "check_distance (r # rs) x y d = (if cr_y r = y \<and> cr_x r = x then d else check_distance rs x y (d + 1))"

text \<open>The overload on coordinates prints them with \<open>operator<<\<close>, here the parameter \<open>fmt\<close>.\<close>

definition check_distance_at :: "(real \<Rightarrow> string) \<Rightarrow> mobile_node \<Rightarrow> real \<Rightarrow> real \<Rightarrow> int" where
  "check_distance_at fmt m x y = check_distance (mn_route m) (fmt x) (fmt y) 0"

section \<open>Motion along one axis\<close>

text \<open>Position after the distance \<open>t\<close> from \<open>x\<close> with direction \<open>d\<close>, stopping at \<open>e\<close>.\<close>

definition advance :: "real \<Rightarrow> real \<Rightarrow> real \<Rightarrow> real \<Rightarrow> real" where
  "advance d e x t = (if (d > 0 \<and> x + d * t > e) \<or> (d < 0 \<and> x + d * t < e) then e else x + d * t)"

definition heads :: "real \<Rightarrow> real \<Rightarrow> real \<Rightarrow> bool" where
  "heads d e x \<longleftrightarrow> (0 < d \<longrightarrow> x \<le> e) \<and> (d < 0 \<longrightarrow> e \<le> x)"

lemma heads_0 [simp]: "heads 0 e x"
  by (simp add: heads_def)

lemma advance_0: "heads d e x \<Longrightarrow> advance d e x 0 = x"
  by (auto simp: advance_def heads_def)

lemma advance_heads: "heads d e x \<Longrightarrow> heads d e (advance d e x t)"
  by (auto simp: advance_def heads_def)

lemma advance_between:
  assumes "heads d e x" and "0 \<le> t"
  shows "min x e \<le> advance d e x t \<and> advance d e x t \<le> max x e"
proof -
  consider "d > 0" "0 \<le> d * t" | "d < 0" "d * t \<le> 0" | "d = 0"
    using assms(2) by (cases d "0 :: real" rule: linorder_cases) (auto simp: mult_nonpos_nonneg)
  then show ?thesis using assms(1) by cases (auto simp: advance_def heads_def)
qed

lemma advance_advance:
  assumes "heads d e x" and "0 \<le> s" and "0 \<le> t"
  shows "advance d e (advance d e x s) t = advance d e x (s + t)"
proof -
  consider "d > 0" "0 \<le> d * t" "0 \<le> d * s" | "d < 0" "d * t \<le> 0" "d * s \<le> 0" | "d = 0"
    using assms(2,3) by (cases d "0 :: real" rule: linorder_cases) (auto simp: mult_nonpos_nonneg)
  then show ?thesis using assms(1) by cases (auto simp: advance_def heads_def distrib_left)
qed

text \<open>Moving straight from \<open>x\<close> to \<open>e\<close>, a distance of \<open>l\<close> along the path.\<close>

lemma advance_straight:
  assumes "0 < l" and "0 \<le> t"
  shows "advance ((e - x) / l) e x t = (if l \<le> t then e else x + (e - x) / l * t)"
proof (cases "l \<le> t")
  case True
  consider "0 < e - x" | "e - x < 0" | "e = x" by fastforce
  then show ?thesis
  proof cases
    case 1
    with True assms have "(e - x) * l \<le> (e - x) * t" by (simp add: mult_left_mono)
    with 1 True assms show ?thesis by (auto simp: advance_def field_simps)
  next
    case 2
    with True assms have "(e - x) * t \<le> (e - x) * l" by (simp add: mult_left_mono_neg)
    with 2 True assms show ?thesis by (auto simp: advance_def field_simps)
  qed (simp add: advance_def)
next
  case False
  consider "0 < e - x" | "e - x < 0" | "e = x" by fastforce
  then show ?thesis
  proof cases
    case 1
    with False have "(e - x) * t \<le> (e - x) * l" by (simp add: mult_left_mono)
    with 1 False assms show ?thesis by (auto simp: advance_def field_simps)
  next
    case 2
    with False have "(e - x) * l \<le> (e - x) * t" by (simp add: mult_left_mono_neg)
    with 2 False assms show ?thesis by (auto simp: advance_def field_simps)
  qed (simp add: advance_def)
qed

section \<open>Motion of a node\<close>

definition on_course :: "mobile_node \<Rightarrow> bool" where
  "on_course m \<longleftrightarrow> 0 \<le> mn_speed m \<and> heads (mn_dX m) (mn_destX m) (mn_X m)
     \<and> heads (mn_dY m) (mn_destY m) (mn_Y m)"

lemma update_pos_eq:
  assumes "on_course m"
  shows "update_pos now m =
    m\<lparr>mn_X := advance (mn_dX m) (mn_destX m) (mn_X m) (mn_speed m * (now - mn_update_time m)),
      mn_Y := advance (mn_dY m) (mn_destY m) (mn_Y m) (mn_speed m * (now - mn_update_time m)),
      mn_update_time := now\<rparr>"
proof (cases "now - mn_update_time m = 0 \<and> mn_update_time m \<noteq> 0")
  case True
  with assms show ?thesis by (simp add: update_pos_def Let_def on_course_def advance_0)
next
  case False
  then show ?thesis
    by (simp only: update_pos_def Let_def advance_def if_False)
qed

lemma on_course_update: "on_course m \<Longrightarrow> on_course (update_pos now m)"
  by (simp add: update_pos_eq) (simp add: on_course_def advance_heads)

definition in_topo :: "topography \<Rightarrow> mobile_node \<Rightarrow> bool" where
  "in_topo T m \<longleftrightarrow> initialized T m \<and> (mn_dX m \<noteq> 0 \<longrightarrow> lowerX T \<le> mn_destX m \<and> mn_destX m \<le> upperX T)
     \<and> (mn_dY m \<noteq> 0 \<longrightarrow> lowerY T \<le> mn_destY m \<and> mn_destY m \<le> upperY T)"

lemma advance_range:
  assumes "heads d e x" and "0 \<le> t" and "lo \<le> x" and "x \<le> hi" and "d \<noteq> 0 \<longrightarrow> lo \<le> e \<and> e \<le> hi"
  shows "lo \<le> advance d e x t \<and> advance d e x t \<le> hi"
proof (cases "d = 0")
  case True
  with assms show ?thesis by (simp add: advance_def)
next
  case False
  with assms advance_between [OF assms(1,2)] show ?thesis by auto
qed

lemma in_topo_update:
  assumes "on_course m" and "in_topo T m" and "mn_update_time m \<le> now"
  shows "in_topo T (update_pos now m)"
proof -
  have t: "0 \<le> mn_speed m * (now - mn_update_time m)" using assms(1,3) by (simp add: on_course_def)
  show ?thesis
    using advance_range [OF _ t, of "mn_dX m" "mn_destX m" "mn_X m" "lowerX T" "upperX T"]
      advance_range [OF _ t, of "mn_dY m" "mn_destY m" "mn_Y m" "lowerY T" "upperY T"] assms(1,2)
    by (simp add: update_pos_eq [OF assms(1)]) (auto simp: in_topo_def initialized_def on_course_def)
qed

text \<open>The length of the way to a destination, and the node that sets out for it.\<close>

definition way :: "mobile_node \<Rightarrow> real \<Rightarrow> real \<Rightarrow> real" where
  "way m x y = sqrt ((x - mn_X m) * (x - mn_X m) + (y - mn_Y m) * (y - mn_Y m))"

lemma way_pos: "x \<noteq> mn_X m \<or> y \<noteq> mn_Y m \<Longrightarrow> 0 < way m x y"
  by (auto simp: way_def sum_squares_gt_zero_iff)

lemma set_destination_eq:
  assumes "initialized T m" and "lowerX T < x" and "x < upperX T" and "lowerY T < y" and "y < upperY T"
  shows "set_destination T now x y s m =
    (let n = update_pos now m in
     Inr (0, n\<lparr>mn_destX := x, mn_destY := y, mn_speed := s,
       mn_dX := (if x \<noteq> mn_X n \<or> y \<noteq> mn_Y n then (x - mn_X n) / way n x y else 0),
       mn_dY := (if x \<noteq> mn_X n \<or> y \<noteq> mn_Y n then (y - mn_Y n) / way n x y else 0),
       mn_dZ := 0, mn_update_time := now\<rparr>))"
  using assms by (simp add: set_destination_def Let_def way_def not_le)

lemma heads_straight: "0 < l \<Longrightarrow> heads ((e - x) / l) e x"
  by (auto simp: heads_def field_simps)

lemma set_destination_course:
  assumes "on_course m" and "in_topo T m" and "mn_update_time m \<le> now" and "0 \<le> s"
  shows "succeeds (\<lambda>(r, m'). on_course m' \<and> in_topo T m' \<and> mn_update_time m' \<le> now) (set_destination T now x y s m)"
proof (cases "lowerX T < x \<and> x < upperX T \<and> lowerY T < y \<and> y < upperY T")
  case True
  let ?n = "update_pos now m"
  have ini: "initialized T m" using assms(2) by (simp add: in_topo_def)
  have n: "on_course ?n" "in_topo T ?n"
    using assms by (simp_all add: on_course_update in_topo_update)
  show ?thesis
  proof (cases "x \<noteq> mn_X ?n \<or> y \<noteq> mn_Y ?n")
    case moves: True
    from heads_straight [OF way_pos [OF moves]] n True assms(4) show ?thesis
      by (simp add: set_destination_eq [OF ini] moves Let_def)
         (simp add: on_course_def in_topo_def initialized_def moves)
  next
    case False
    with n True assms(4) show ?thesis
      by (simp add: set_destination_eq [OF ini] Let_def)
         (simp add: on_course_def in_topo_def initialized_def heads_def)
  qed
next
  case False
  then show ?thesis
    using assms by (auto simp: set_destination_def in_topo_def not_le)
qed

section \<open>Way points without a match\<close>

lemma set_coord_no_dot: "CHR ''.'' \<notin> set (set_coord t)"
  unfolding set_coord_def by (metis set_takeWhileD)

definition dotless :: "mobile_node \<Rightarrow> bool" where
  "dotless m \<longleftrightarrow> (\<forall>r \<in> set (mn_route m). CHR ''.'' \<notin> set (cr_x r) \<and> CHR ''.'' \<notin> set (cr_y r))"

lemma read_route_dotless: "dotless m \<Longrightarrow> succeeds (\<lambda>m. dotless m) (read_route as m) \<or> read_route as m = Inl NullDeref"
  by (induction as m rule: read_route.induct) (auto simp: dotless_def car_route_new_def set_coord_no_dot)

lemma read_route_dotlessD: "read_route as m = Inr m' \<Longrightarrow> dotless m \<Longrightarrow> dotless m'"
  using read_route_dotless [of m as] by auto

lemma check_distance_no_match:
  "\<forall>r \<in> set rs. cr_x r \<noteq> x \<or> cr_y r \<noteq> y \<Longrightarrow> check_distance rs x y d = - 1"
  by (induction rs arbitrary: d) auto

lemma check_distance_first:
  "check_distance rs x y d = (case find (\<lambda>i. cr_x (rs ! i) = x \<and> cr_y (rs ! i) = y) [0..<length rs] of
     None \<Rightarrow> - 1 | Some i \<Rightarrow> d + int i)"
proof (induction rs arbitrary: d)
  case Nil
  then show ?case by simp
next
  case (Cons r rs)
  have shift: "find (\<lambda>i. P ((r # rs) ! i)) (map Suc is) = map_option Suc (find (\<lambda>i. P (rs ! i)) is)" for P "is"
    by (induction "is") auto
  have up: "[0..<length (r # rs)] = 0 # map Suc [0..<length rs]"
    by (simp add: upt_conv_Cons map_Suc_upt del: upt_Suc)
  show ?case
    unfolding up using shift [of "\<lambda>r. cr_x r = x \<and> cr_y r = y" "[0..<length rs]"] Cons.IH [of "d + 1"]
    by (auto split: option.splits)
qed

text \<open>Updating at an intermediate time and again later is one update at the later time.\<close>

lemma update_pos_update:
  assumes "on_course m" and "mn_update_time m \<le> t1" and "t1 \<le> t2"
  shows "update_pos t2 (update_pos t1 m) = update_pos t2 m"
proof -
  have a: "0 \<le> mn_speed m * (t1 - mn_update_time m)" and b: "0 \<le> mn_speed m * (t2 - t1)"
    using assms by (simp_all add: on_course_def)
  have sum: "mn_speed m * (t1 - mn_update_time m) + mn_speed m * (t2 - t1) = mn_speed m * (t2 - mn_update_time m)"
    by (simp add: right_diff_distrib)
  from assms(1) have h: "heads (mn_dX m) (mn_destX m) (mn_X m)" "heads (mn_dY m) (mn_destY m) (mn_Y m)"
    by (simp_all add: on_course_def)
  have c: "on_course (update_pos t1 m)" by (rule on_course_update [OF assms(1)])
  show ?thesis
    unfolding update_pos_eq [OF c] unfolding update_pos_eq [OF assms(1)]
    by (simp add: advance_advance [OF h(1) a b] advance_advance [OF h(2) a b] sum)
qed

section \<open>Properties\<close>

definition demo_car :: mobile_node where
  "demo_car = (mobile_node_new 2)\<lparr>mn_X := 1, mn_destX := 9, mn_dX := 1, mn_speed := 2\<rparr>"

text \<open>A node inside its topography, under way to a point inside it, never leaves it, whatever
  destinations are set and however often it moves.\<close>

theorem mobile_stays_inside:
  assumes "on_course m" and "in_topo T m" and "mn_update_time m \<le> now" and "0 \<le> s"
  shows "in_topo T (update_pos now m)
    \<and> succeeds (\<lambda>(r, m'). on_course m' \<and> in_topo T m' \<and> mn_update_time m' \<le> now) (set_destination T now x y s m)"
  using set_destination_course [OF assms] in_topo_update [OF assms(1-3)] by simp

lemma mobile_stays_inside_witness:
  "in_topo \<lparr>maxX = 10, maxY = 10, grid_resolution = 1\<rparr> (update_pos 100 demo_car)"
  using mobile_stays_inside [of demo_car "\<lparr>maxX = 10, maxY = 10, grid_resolution = 1\<rparr>" 100 1 5 5]
  by (simp add: on_course_def demo_car_def mobile_node_new_def heads_def in_topo_def initialized_def
      lowerX_def lowerY_def upperX_def upperY_def)

text \<open>A node that sets out for a destination moves towards it in a straight line at its speed, and
  from the time it has covered the distance on it is exactly there.\<close>

theorem mobile_arrives:
  assumes "on_course m" and "initialized T m" and "mn_update_time m \<le> now" and "0 \<le> s" and "0 \<le> t"
    and "lowerX T < x" and "x < upperX T" and "lowerY T < y" and "y < upperY T"
    and "x \<noteq> mn_X (update_pos now m) \<or> y \<noteq> mn_Y (update_pos now m)"
  shows "\<exists>m'. set_destination T now x y s m = Inr (0, m')
    \<and> (let n = update_pos now m; l = way n x y; q = update_pos (now + t) m' in
       if l \<le> s * t then mn_X q = x \<and> mn_Y q = y
       else mn_X q = mn_X n + (x - mn_X n) / l * (s * t) \<and> mn_Y q = mn_Y n + (y - mn_Y n) / l * (s * t))"
proof -
  let ?n = "update_pos now m" and ?st = "s * t"
  let ?l = "way ?n x y"
  let ?m = "?n\<lparr>mn_destX := x, mn_destY := y, mn_speed := s, mn_dX := (x - mn_X ?n) / ?l,
    mn_dY := (y - mn_Y ?n) / ?l, mn_dZ := 0, mn_update_time := now\<rparr>"
  have l: "0 < ?l" by (rule way_pos [OF assms(10)])
  have set: "set_destination T now x y s m = Inr (0, ?m)"
    using assms by (simp only: set_destination_eq [OF assms(2,6-9)] Let_def if_True)
  have c: "on_course ?m" using heads_straight [OF l] assms(4) by (simp add: on_course_def)
  have st: "0 \<le> ?st" using assms(4,5) by simp
  show ?thesis
    unfolding set Let_def
    by (rule exI [of _ ?m])
       (simp only: update_pos_eq [OF c], simp add: advance_straight [OF l st])
qed

lemma mobile_arrives_witness:
  "\<exists>m'. set_destination \<lparr>maxX = 10, maxY = 10, grid_resolution = 1\<rparr> 1 4 4 1 (mobile_node_new 2) = Inr (0, m')
     \<and> mn_X (update_pos 9 m') = 4 \<and> mn_Y (update_pos 9 m') = 4"
proof -
  have start: "mn_X (update_pos 1 (mobile_node_new 2)) = 0" "mn_Y (update_pos 1 (mobile_node_new 2)) = 0"
    by (simp_all add: update_pos_def mobile_node_new_def)
  have "way (update_pos 1 (mobile_node_new 2)) 4 4 = sqrt 32" by (simp add: way_def start)
  moreover have "sqrt 32 \<le> (8 :: real)" by (rule real_le_lsqrt) simp_all
  moreover have "on_course (mobile_node_new 2)" "mn_update_time (mobile_node_new 2) = 0"
    "initialized \<lparr>maxX = 10, maxY = 10, grid_resolution = 1\<rparr> (mobile_node_new 2)"
    by (simp_all add: on_course_def initialized_def mobile_node_new_def lowerX_def lowerY_def
        upperX_def upperY_def)
  ultimately show ?thesis
    using mobile_arrives [of "mobile_node_new 2" "\<lparr>maxX = 10, maxY = 10, grid_resolution = 1\<rparr>" 1 1 8 4 4]
    by (simp add: start Let_def lowerX_def lowerY_def upperX_def upperY_def)
qed

text \<open>A node on the move: positions are updated and destinations are set, at any times.\<close>

datatype move = At time | Go time real real real

fun move_time :: "move \<Rightarrow> time" where
  "move_time (At t) = t"
| "move_time (Go t x y s) = t"

fun run_moves :: "topography \<Rightarrow> move list \<Rightarrow> mobile_node \<Rightarrow> mobile_node res" where
  "run_moves T [] m = Inr m"
| "run_moves T (At t # ms) m = run_moves T ms (update_pos t m)"
| "run_moves T (Go t x y s # ms) m = bindR (set_destination T t x y s m) (\<lambda>(r, m). run_moves T ms m)"

definition forward :: "move \<Rightarrow> bool" where
  "forward a \<longleftrightarrow> (case a of Go t x y s \<Rightarrow> 0 \<le> s | _ \<Rightarrow> True)"

lemma update_pos_time: "on_course m \<Longrightarrow> mn_update_time (update_pos t m) = t"
  by (simp add: update_pos_eq)

lemma run_moves_inside:
  "on_course m \<Longrightarrow> in_topo T m \<Longrightarrow> sorted (mn_update_time m # map move_time ms) \<Longrightarrow> \<forall>a \<in> set ms. forward a
   \<Longrightarrow> \<exists>m'. run_moves T ms m = Inr m' \<and> on_course m' \<and> in_topo T m' \<and> mn_update_time m' \<le> last (mn_update_time m # map move_time ms)"
proof (induction ms arbitrary: m)
  case (Cons a ms)
  show ?case
  proof (cases a)
    case (At t)
    let ?m = "update_pos t m"
    have m: "on_course ?m" "in_topo T ?m" "mn_update_time ?m = t"
      using Cons.prems At by (simp_all add: on_course_update in_topo_update update_pos_time)
    from Cons.IH [OF m(1,2)] Cons.prems m(3) At show ?thesis by (auto split: if_splits)
  next
    case (Go t x y s)
    from set_destination_course [OF Cons.prems(1,2), of t s x y] Cons.prems(3,4) Go obtain r m1
      where m: "set_destination T t x y s m = Inr (r, m1)" "on_course m1" "in_topo T m1" "mn_update_time m1 \<le> t"
      by (auto simp: forward_def succeeds_iff)
    have "sorted (mn_update_time m1 # map move_time ms)" using Cons.prems(3) Go m(4) by auto
    from Cons.IH [OF m(2,3) this] Cons.prems(4) obtain m' where m': "run_moves T ms m1 = Inr m'" "on_course m'" "in_topo T m'"
      "mn_update_time m' \<le> last (mn_update_time m1 # map move_time ms)" by auto
    with m(1,4) Go show ?thesis by (cases "ms = []") auto
  qed
qed simp

lemma updates_last:
  "on_course m \<Longrightarrow> sorted (mn_update_time m # ts) \<Longrightarrow> fold update_pos ts m = (if ts = [] then m else update_pos (last ts) m)"
proof (induction ts arbitrary: m)
  case (Cons t ts)
  let ?m = "update_pos t m"
  have m: "on_course ?m" "mn_update_time ?m = t" using Cons.prems by (simp_all add: on_course_update update_pos_time)
  have "t \<le> last ts" if "ts \<noteq> []" using Cons.prems(2) that by simp
  with Cons.IH [OF m(1)] Cons.prems m(2) update_pos_update [OF Cons.prems(1), of t "last ts"] show ?case by simp
qed simp

lemma straight:
  assumes "0 \<le> t"
  shows "advance (if x \<noteq> mn_X m \<or> y \<noteq> mn_Y m then (x - mn_X m) / way m x y else 0) x (mn_X m) t
      = (if way m x y \<le> t then x else mn_X m + (x - mn_X m) / way m x y * t)"
    and "advance (if x \<noteq> mn_X m \<or> y \<noteq> mn_Y m then (y - mn_Y m) / way m x y else 0) y (mn_Y m) t
      = (if way m x y \<le> t then y else mn_Y m + (y - mn_Y m) / way m x y * t)"
proof (atomize (full), cases "x \<noteq> mn_X m \<or> y \<noteq> mn_Y m")
  case True
  then show "advance (if x \<noteq> mn_X m \<or> y \<noteq> mn_Y m then (x - mn_X m) / way m x y else 0) x (mn_X m) t
      = (if way m x y \<le> t then x else mn_X m + (x - mn_X m) / way m x y * t)
    \<and> advance (if x \<noteq> mn_X m \<or> y \<noteq> mn_Y m then (y - mn_Y m) / way m x y else 0) y (mn_Y m) t
      = (if way m x y \<le> t then y else mn_Y m + (y - mn_Y m) / way m x y * t)"
    unfolding if_P [OF True] by (intro conjI advance_straight [OF way_pos [OF True] assms])
qed (use assms in \<open>simp add: advance_def way_def\<close>)

definition inside :: "topography \<Rightarrow> mobile_node \<Rightarrow> bool" where
  "inside T m \<longleftrightarrow> 0 \<le> mn_X m \<and> mn_X m \<le> maxX T * grid_resolution T \<and> 0 \<le> mn_Y m \<and> mn_Y m \<le> maxY T * grid_resolution T"

lemma inside_initialized: "inside T m = initialized T m"
  by (simp add: inside_def initialized_def lowerX_def lowerY_def upperX_def upperY_def conj_ac)

text \<open>C39: A node goes straight to its destination, never beyond it, and stays there. Take a node that
  rests inside its topography, and let its position be updated and destinations be set, inside or
  outside, with speeds from 0 on, in any order at times that do not go back: no assertion fails and
  the node is inside. When it then sets out from its place for a point strictly inside, and its position is
  updated at any times, it is in each coordinate between the two; it has moved in a straight line by
  the speed times the time, and it is exactly at the destination from the time it has covered the
  distance on. Coordinates and times are real numbers here, rounding is not modelled.\<close>

theorem mobile_journey:
  assumes "inside T m" and "mn_dX m = 0" and "mn_dY m = 0" and "0 \<le> mn_speed m"
    and "sorted (mn_update_time m # map move_time us @ now # ts)" and "\<forall>a \<in> set us. forward a" and "0 \<le> s"
    and "0 < x" and "x < maxX T * grid_resolution T" and "0 < y" and "y < maxY T * grid_resolution T"
  shows "\<exists>m1 m2. run_moves T us m = Inr m1 \<and> inside T m1 \<and> set_destination T now x y s m1 = Inr (0, m2)
    \<and> (let a = update_pos now m1; q = fold update_pos ts m2; l = way a x y; d = s * (last (now # ts) - now) in
       inside T q
       \<and> min (mn_X a) x \<le> mn_X q \<and> mn_X q \<le> max (mn_X a) x \<and> min (mn_Y a) y \<le> mn_Y q \<and> mn_Y q \<le> max (mn_Y a) y
       \<and> (if l \<le> d then mn_X q = x \<and> mn_Y q = y
          else mn_X q = mn_X a + (x - mn_X a) / l * d \<and> mn_Y q = mn_Y a + (y - mn_Y a) / l * d))"
proof -
  have m: "on_course m" "in_topo T m" using assms(1-4) by (simp_all add: on_course_def in_topo_def inside_initialized)
  have srt: "sorted (mn_update_time m # map move_time us)" "last (mn_update_time m # map move_time us) \<le> now" "sorted (now # ts)"
    using assms(5) by (auto simp: sorted_append last_map)
  obtain m1 where m1: "run_moves T us m = Inr m1" "on_course m1" "in_topo T m1" "mn_update_time m1 \<le> now"
    using run_moves_inside [OF m srt(1) assms(6)] srt(2) by auto
  let ?a = "update_pos now m1" and ?e = "last (now # ts)"
  have a: "on_course ?a" "in_topo T ?a" "mn_update_time ?a = now"
    using m1 by (simp_all add: on_course_update in_topo_update update_pos_time)
  define m2 where "m2 = ?a\<lparr>mn_destX := x, mn_destY := y, mn_speed := s,
    mn_dX := (if x \<noteq> mn_X ?a \<or> y \<noteq> mn_Y ?a then (x - mn_X ?a) / way ?a x y else 0),
    mn_dY := (if x \<noteq> mn_X ?a \<or> y \<noteq> mn_Y ?a then (y - mn_Y ?a) / way ?a x y else 0),
    mn_dZ := 0, mn_update_time := now\<rparr>"
  have set: "set_destination T now x y s m1 = Inr (0, m2)"
    using m1(3) assms(8-11) by (simp add: set_destination_eq in_topo_def lowerX_def lowerY_def upperX_def upperY_def Let_def m2_def)
  have c: "on_course m2" "in_topo T m2" "mn_update_time m2 = now"
    using set_destination_course [OF m1(2-4) assms(7), of x y] set by (simp_all add: m2_def)
  have e: "now \<le> ?e" using srt(3) by (cases "ts = []") auto
  then have d: "0 \<le> s * (?e - now)" using assms(7) by simp
  have q: "fold update_pos ts m2 = update_pos ?e m2"
    using updates_last [OF c(1), of ts] srt(3) c by (cases "ts = []") (simp_all add: update_pos_eq advance_0 on_course_def)
  have f: "mn_X m2 = mn_X ?a" "mn_Y m2 = mn_Y ?a" "mn_destX m2 = x" "mn_destY m2 = y" "mn_speed m2 = s"
    "mn_dX m2 = (if x \<noteq> mn_X ?a \<or> y \<noteq> mn_Y ?a then (x - mn_X ?a) / way ?a x y else 0)"
    "mn_dY m2 = (if x \<noteq> mn_X ?a \<or> y \<noteq> mn_Y ?a then (y - mn_Y ?a) / way ?a x y else 0)"
    by (simp_all add: m2_def)
  have p: "mn_X (update_pos ?e m2) = advance (mn_dX m2) x (mn_X ?a) (s * (?e - now))"
    "mn_Y (update_pos ?e m2) = advance (mn_dY m2) y (mn_Y ?a) (s * (?e - now))"
    unfolding update_pos_eq [OF c(1)] by (simp_all add: c(3) f(1-5))
  have q': "mn_X (update_pos ?e m2) = (if way ?a x y \<le> s * (?e - now) then x else mn_X ?a + (x - mn_X ?a) / way ?a x y * (s * (?e - now)))"
    "mn_Y (update_pos ?e m2) = (if way ?a x y \<le> s * (?e - now) then y else mn_Y ?a + (y - mn_Y ?a) / way ?a x y * (s * (?e - now)))"
    unfolding p f(6,7) by (rule straight [OF d])+
  have "min (mn_X ?a) x \<le> mn_X (update_pos ?e m2) \<and> mn_X (update_pos ?e m2) \<le> max (mn_X ?a) x
    \<and> min (mn_Y ?a) y \<le> mn_Y (update_pos ?e m2) \<and> mn_Y (update_pos ?e m2) \<le> max (mn_Y ?a) y"
    using advance_between [OF _ d, of "mn_dX m2" x "mn_X ?a"] advance_between [OF _ d, of "mn_dY m2" y "mn_Y ?a"] c(1)
    unfolding on_course_def p f(1-4) by blast
  moreover have "inside T (update_pos ?e m2)"
    using in_topo_update [OF c(1,2), of ?e] c(3) e by (simp add: inside_initialized in_topo_def)
  ultimately have "let a = ?a; q = fold update_pos ts m2; l = way a x y; d = s * (?e - now) in inside T q
       \<and> min (mn_X a) x \<le> mn_X q \<and> mn_X q \<le> max (mn_X a) x \<and> min (mn_Y a) y \<le> mn_Y q \<and> mn_Y q \<le> max (mn_Y a) y
       \<and> (if l \<le> d then mn_X q = x \<and> mn_Y q = y
          else mn_X q = mn_X a + (x - mn_X a) / l * d \<and> mn_Y q = mn_Y a + (y - mn_Y a) / l * d)"
    unfolding Let_def q using q' by (metis (no_types, lifting))
  moreover have "inside T m1" using m1(3) by (simp add: inside_initialized in_topo_def)
  ultimately show ?thesis using m1(1) set by blast
qed

definition demo_topo :: topography where
  "demo_topo = \<lparr>maxX = 10, maxY = 10, grid_resolution = 1\<rparr>"

lemma sqrt_25: "sqrt 25 = 5"
  by (rule real_sqrt_unique) simp_all

lemma mobile_journey_witness:
  "\<exists>m1 m2. run_moves demo_topo [Go 1 3 4 5, At 3, Go 3 20 5 1] (mobile_node_new 2) = Inr m1
     \<and> set_destination demo_topo 4 6 8 1 m1 = Inr (0, m2) \<and> mn_X m1 = 3 \<and> mn_Y m1 = 4
     \<and> mn_X (fold update_pos [5, 6, 100] m2) = 6 \<and> mn_Y (fold update_pos [5, 6, 100] m2) = 8"
proof -
  note defs = mobile_node_new_def demo_topo_def
  have run: "run_moves demo_topo [Go 1 3 4 5, At 3, Go 3 20 5 1] (mobile_node_new 2)
    = Inr ((mobile_node_new 2)\<lparr>mn_X := 3, mn_Y := 4, mn_destX := 3, mn_destY := 4, mn_dX := 3 / 5, mn_dY := 4 / 5, mn_speed := 5, mn_update_time := 3\<rparr>)"
    by (simp add: defs set_destination_def update_pos_def initialized_def lowerX_def lowerY_def upperX_def upperY_def Let_def sqrt_25)
  obtain m1 m2 where r: "run_moves demo_topo [Go 1 3 4 5, At 3, Go 3 20 5 1] (mobile_node_new 2) = Inr m1"
    "set_destination demo_topo 4 6 8 1 m1 = Inr (0, m2)"
    "way (update_pos 4 m1) 6 8 \<le> 96 \<Longrightarrow> mn_X (fold update_pos [5, 6, 100] m2) = 6 \<and> mn_Y (fold update_pos [5, 6, 100] m2) = 8"
    using mobile_journey [of demo_topo "mobile_node_new 2" "[Go 1 3 4 5, At 3, Go 3 20 5 1]" 4 "[5, 6, 100]" 1 6 8]
    by (auto simp: inside_def forward_def defs Let_def simp del: run_moves.simps split: if_splits)
  from r(1) run have m1: "m1 = (mobile_node_new 2)\<lparr>mn_X := 3, mn_Y := 4, mn_destX := 3, mn_destY := 4, mn_dX := 3 / 5, mn_dY := 4 / 5, mn_speed := 5, mn_update_time := 3\<rparr>"
    by (simp del: run_moves.simps)
  then have "way (update_pos 4 m1) 6 8 \<le> 96" by (simp add: way_def update_pos_def sqrt_25)
  with r m1 show ?thesis by (intro exI [of _ m1] exI [of _ m2]) (simp del: run_moves.simps)
qed

text \<open>A car whose way points were read from the command line has distance -1 to every point whose
  printed coordinate has a decimal point: way points are cut at the dot, positions are not.\<close>

theorem mobile_fraction_unreachable:
  assumes "read_route as (mobile_node_new k) = Inr m" and "CHR ''.'' \<in> set (fmt x)"
  shows "check_distance_at fmt m x y = - 1"
proof -
  have "dotless (mobile_node_new k)" by (simp add: dotless_def mobile_node_new_def)
  with assms(1) have "dotless m" by (rule read_route_dotlessD)
  with assms(2) show ?thesis
    unfolding check_distance_at_def by (intro check_distance_no_match) (auto simp: dotless_def)
qed

definition demo_fmt :: "real \<Rightarrow> string" where
  "demo_fmt x = (if x = 5 / 2 then ''2.5'' else ''2'')"

lemma mobile_fraction_unreachable_witness:
  "\<exists>m. read_route [''2.5'', ''2'', ''0''] (mobile_node_new 2) = Inr m
     \<and> check_distance_at demo_fmt m (5 / 2) 2 = - 1 \<and> check_distance_at demo_fmt m 2 2 = 0"
proof -
  obtain m where m: "read_route [''2.5'', ''2'', ''0''] (mobile_node_new 2) = Inr m" by simp
  moreover from m have "check_distance_at demo_fmt m 2 2 = 0"
    by (auto simp: mobile_node_new_def car_route_new_def set_coord_def check_distance_at_def demo_fmt_def)
  ultimately show ?thesis
    using mobile_fraction_unreachable [OF m, of demo_fmt "5 / 2" 2] by (simp add: demo_fmt_def)
qed

end
