(* ===== verification/NsPacket.thy ===== *)
theory NsPacket
  imports NsPrelude
begin

text \<open>
  Packets as the routing agents see them (\<open>hdr_cmn\<close> of \<open>common/packet.h\<close>, \<open>hdr_ip\<close> of
  \<open>common/ip.h\<close>), and the effects of an agent on the rest of the simulator. Each protocol
  instantiates the type of the protocol header.
\<close>

section \<open>Headers\<close>

datatype ptype =
  PT_TCP | PT_TELNET | PT_CBR | PT_AUDIO | PT_VIDEO | PT_ACK | PT_SCTP | PT_SCTP_APP1
  | PT_AODV | PT_WFRP | PT_XFXVanets | PT_OTHER nat

definition DATA_PACKET :: "ptype \<Rightarrow> bool" where
  "DATA_PACKET t \<longleftrightarrow> t \<in> {PT_TCP, PT_TELNET, PT_CBR, PT_AUDIO, PT_VIDEO, PT_ACK, PT_SCTP, PT_SCTP_APP1}"

datatype dir = DOWN | NONE | UP

datatype af = NS_AF_NONE | NS_AF_ILINK | NS_AF_INET

text \<open>
  The common header and the IP header. \<open>uid\<close> identifies the packet; the C++ \<open>int\<close> fields are
  integers (the agents only count them up and down in small steps).
\<close>

record 'b packet =
  uid :: int
  ptype :: ptype
  psize :: int
  perror :: int
  iface :: int
  tstamp :: time
  direction :: dir
  prev_hop :: nsaddr
  next_hop :: nsaddr
  last_hop :: nsaddr
  addr_type :: af
  num_forwards :: int
  saddr :: nsaddr
  daddr :: nsaddr
  sport :: int
  dport :: int
  ttl :: int
  body :: 'b

definition IP_BROADCAST :: nsaddr where "IP_BROADCAST = 0xffffffff"
definition IP_HDR_LEN :: int where "IP_HDR_LEN = 20"
definition RT_PORT :: int where "RT_PORT = 255"

text \<open>
  \<open>Packet::alloc\<close>: all header bits zero, except for the hops (\<open>-2\<close>) and the direction.
  The zero packet type is \<open>PT_TCP\<close>, the zero address type \<open>NS_AF_NONE\<close>. The zeroed
  protocol header is an argument, and so is the uid, by which the model tells packets apart.
\<close>

definition packet_alloc :: "int \<Rightarrow> 'b \<Rightarrow> 'b packet" where
  "packet_alloc u b =
     \<lparr>uid = u, ptype = PT_TCP, psize = 0, perror = 0, iface = 0, tstamp = 0, direction = DOWN,
      prev_hop = 0, next_hop = - 2, last_hop = - 2, addr_type = NS_AF_NONE, num_forwards = 0,
      saddr = 0, daddr = 0, sport = 0, dport = 0, ttl = 0, body = b\<rparr>"

lemma packet_alloc_simps [simp]:
  "uid (packet_alloc u b) = u" "ptype (packet_alloc u b) = PT_TCP" "saddr (packet_alloc u b) = 0"
  "daddr (packet_alloc u b) = 0" "ttl (packet_alloc u b) = 0" "body (packet_alloc u b) = b"
  "num_forwards (packet_alloc u b) = 0" "sport (packet_alloc u b) = 0" "dport (packet_alloc u b) = 0"
  by (simp_all add: packet_alloc_def)

text \<open>The same packet with another reading of the protocol header.\<close>

definition map_body :: "('a \<Rightarrow> 'b) \<Rightarrow> 'a packet \<Rightarrow> 'b packet" where
  "map_body f p =
     \<lparr>uid = uid p, ptype = ptype p, psize = psize p, perror = perror p, iface = iface p,
      tstamp = tstamp p, direction = direction p, prev_hop = prev_hop p, next_hop = next_hop p,
      last_hop = last_hop p, addr_type = addr_type p, num_forwards = num_forwards p,
      saddr = saddr p, daddr = daddr p, sport = sport p, dport = dport p, ttl = ttl p,
      body = f (body p)\<rparr>"

lemma map_body_simps [simp]:
  "uid (map_body f p) = uid p" "ptype (map_body f p) = ptype p" "saddr (map_body f p) = saddr p"
  "daddr (map_body f p) = daddr p" "sport (map_body f p) = sport p" "dport (map_body f p) = dport p"
  "ttl (map_body f p) = ttl p" "body (map_body f p) = f (body p)" "psize (map_body f p) = psize p"
  by (simp_all add: map_body_def)

section \<open>Effects\<close>

text \<open>
  What an agent does to a packet it gives away: \<open>schedule(target_, p, delay)\<close> hands it down
  the stack, \<open>drop(p, reason)\<close> to the drop target, \<open>Packet::free(p)\<close> back to the pool,
  \<open>dmux_->recv(p)\<close> up to an agent of the node, and \<open>schedule(&timer, p, delay)\<close> gives it to a
  timer of the agent. An effect carries the packet as it is at
  that moment.
\<close>

datatype reason =
  DROP_RTR_NO_ROUTE | DROP_RTR_ROUTE_LOOP | DROP_RTR_TTL | DROP_RTR_QFULL | DROP_RTR_QTIMEOUT
  | DROP_RTR_MAC_CALLBACK

datatype 'b act =
  Sched (act_pkt: "'b packet") time
| Drop (act_pkt: "'b packet") reason
| Free (act_pkt: "'b packet")
| Deliver (act_pkt: "'b packet")
| Timer (act_pkt: "'b packet") time

definition act_uid :: "'b act \<Rightarrow> int" where
  "act_uid a = uid (act_pkt a)"

lemma act_uid_simps [simp]:
  "act_uid (Sched p d) = uid p" "act_uid (Drop p r) = uid p"
  "act_uid (Free p) = uid p" "act_uid (Deliver p) = uid p" "act_uid (Timer p d) = uid p"
  by (simp_all add: act_uid_def)

text \<open>The number of times a list of effects gives the packet with a uid away.\<close>

definition handled :: "int \<Rightarrow> 'b act list \<Rightarrow> nat" where
  "handled u as = length (filter (\<lambda>a. act_uid a = u) as)"

lemma handled_simps [simp]:
  "handled u [] = 0"
  "handled u (a # as) = (if act_uid a = u then 1 else 0) + handled u as"
  "handled u (as @ bs) = handled u as + handled u bs"
  by (simp_all add: handled_def)

section \<open>The interface queue\<close>

text \<open>
  \<open>PriQueue::filter\<close> of \<open>queue/priqueue.cc\<close> takes the first packet for a next hop out of the
  queue below the agents. The agents call it until it finds nothing.
\<close>

definition ifq_filter :: "nsaddr \<Rightarrow> 'b packet list \<Rightarrow> ('b packet \<times> 'b packet list) option" where
  "ifq_filter i q =
     (case find (\<lambda>p. next_hop p = i) q of
        None \<Rightarrow> None
      | Some p \<Rightarrow> Some (p, remove_first (\<lambda>p. next_hop p = i) q))"

lemma length_remove_first: "find P xs = Some x \<Longrightarrow> Suc (length (remove_first P xs)) = length xs"
  by (induction xs) (auto split: if_splits)

function ifq_drain :: "nsaddr \<Rightarrow> 'b packet list \<Rightarrow> 'b packet list \<times> 'b packet list" where
  "ifq_drain i q =
     (case ifq_filter i q of
        None \<Rightarrow> ([], q)
      | Some (p, q') \<Rightarrow> (case ifq_drain i q' of (ps, q'') \<Rightarrow> (p # ps, q'')))"
  by pat_completeness auto
termination
  by (relation "measure (\<lambda>(i, q). length q)")
     (auto simp: ifq_filter_def dest!: length_remove_first split: option.splits)

declare ifq_drain.simps [simp del]

lemma filter_remove_first:
  "find P xs = Some x \<Longrightarrow> filter P xs = x # filter P (remove_first P xs)
     \<and> filter (\<lambda>y. \<not> P y) (remove_first P xs) = filter (\<lambda>y. \<not> P y) xs"
  by (induction xs) (auto split: if_splits)

lemma ifq_drain_eq: "ifq_drain i q = (filter (\<lambda>p. next_hop p = i) q, filter (\<lambda>p. next_hop p \<noteq> i) q)"
proof (induction i q rule: ifq_drain.induct)
  case (1 i q)
  show ?case
  proof (cases "find (\<lambda>p. next_hop p = i) q")
    case None
    then have "\<forall>p \<in> set q. next_hop p \<noteq> i" by (simp add: find_None_iff)
    with None show ?thesis
      by (subst ifq_drain.simps) (simp add: ifq_filter_def filter_empty_conv filter_id_conv)
  next
    case (Some p)
    then have f: "ifq_filter i q = Some (p, remove_first (\<lambda>p. next_hop p = i) q)"
      by (simp add: ifq_filter_def)
    from 1 [OF f refl] filter_remove_first [OF Some] f show ?thesis
      by (subst ifq_drain.simps) simp
  qed
qed

end
