(* ===== verification/KeyedTable.thy ===== *)
theory KeyedTable
  imports NsPrelude
begin

text \<open>
  The contract of a table with one entry per key: what a lookup finds after an insertion, an
  update through the pointer a lookup returned, or a removal. The routing agents use their route
  caches, routing tables and neighbour tables through exactly these operations; the lemmas about
  the pattern ``look the entry up, insert it if it is missing, refresh it otherwise'' are proved
  here once.
\<close>

locale keyed_table =
  fixes look :: "'t \<Rightarrow> 'k \<Rightarrow> 'e option"
    and key :: "'e \<Rightarrow> 'k"
    and add :: "'t \<Rightarrow> 'e \<Rightarrow> 't"
    and upd :: "'t \<Rightarrow> 'k \<Rightarrow> ('e \<Rightarrow> 'e) \<Rightarrow> 't"
    and invt :: "'t \<Rightarrow> bool"
    and room :: "'t \<Rightarrow> bool"
  assumes look_key: "look t k = Some e \<Longrightarrow> key e = k"
    and add_inv: "invt t \<Longrightarrow> room t \<Longrightarrow> look t (key e) = None \<Longrightarrow> invt (add t e)"
    and look_add: "invt t \<Longrightarrow> room t \<Longrightarrow> look t (key e) = None
      \<Longrightarrow> look (add t e) k = (if k = key e then Some e else look t k)"
    and upd_inv: "invt t \<Longrightarrow> (\<And>e. key (f e) = key e) \<Longrightarrow> invt (upd t k f)"
    and look_upd: "invt t \<Longrightarrow> (\<And>e. key (f e) = key e)
      \<Longrightarrow> look (upd t k f) k' = (if k = k' then map_option f (look t k) else look t k')"
begin

definition upsert :: "'t \<Rightarrow> 'e \<Rightarrow> ('e \<Rightarrow> 'e) \<Rightarrow> 't" where
  "upsert t e f = (case look t (key e) of None \<Rightarrow> add t e | Some x \<Rightarrow> upd t (key e) f)"

lemma upsert_inv:
  "invt t \<Longrightarrow> room t \<Longrightarrow> (\<And>e. key (f e) = key e) \<Longrightarrow> invt (upsert t e f)"
  by (auto simp: upsert_def intro: add_inv upd_inv split: option.split)

lemma look_upsert_same:
  "invt t \<Longrightarrow> room t \<Longrightarrow> (\<And>e. key (f e) = key e)
   \<Longrightarrow> look (upsert t e f) (key e) = Some (case look t (key e) of None \<Rightarrow> e | Some x \<Rightarrow> f x)"
  by (auto simp: upsert_def look_add look_upd split: option.split)

lemma look_upsert_other:
  "invt t \<Longrightarrow> room t \<Longrightarrow> (\<And>e. key (f e) = key e) \<Longrightarrow> k \<noteq> key e
   \<Longrightarrow> look (upsert t e f) k = look t k"
  by (auto simp: upsert_def look_add look_upd split: option.split)

lemma upsert_keeps:
  assumes "invt t" and "room t" and "\<And>e. key (f e) = key e" and "look t k \<noteq> None"
  shows "look (upsert t e f) k \<noteq> None"
proof (cases "k = key e")
  case True
  show ?thesis unfolding True by (subst look_upsert_same [OF assms(1-3)]) simp
next
  case False
  show ?thesis using look_upsert_other [OF assms(1-3) False] assms(4) by simp
qed

end

text \<open>A table whose entries can also be removed.\<close>

locale keyed_table_del = keyed_table look key add upd invt room
  for look :: "'t \<Rightarrow> 'k \<Rightarrow> 'e option" and key :: "'e \<Rightarrow> 'k" and add :: "'t \<Rightarrow> 'e \<Rightarrow> 't"
    and upd :: "'t \<Rightarrow> 'k \<Rightarrow> ('e \<Rightarrow> 'e) \<Rightarrow> 't" and invt :: "'t \<Rightarrow> bool" and room :: "'t \<Rightarrow> bool" +
  fixes del :: "'t \<Rightarrow> 'k \<Rightarrow> 't"
  assumes del_inv: "invt t \<Longrightarrow> invt (del t k)"
    and look_del: "invt t \<Longrightarrow> look (del t k) k' = (if k = k' then None else look t k')"
begin

lemma del_upsert_other:
  "invt t \<Longrightarrow> room t \<Longrightarrow> (\<And>e. key (f e) = key e) \<Longrightarrow> look (del (upsert t e f) (key e)) k
     = look (del t (key e)) k"
  by (auto simp: look_del upsert_inv look_upsert_other)

end

text \<open>
  Every intrusive list with a lookup that returns the first entry with a key, insertion at the
  head, an update through the pointer and \<open>LIST_REMOVE\<close> satisfies the contract, as long as
  the keys are distinct. The agents' tables are instances of this shape.
\<close>

definition key_inv :: "('e \<Rightarrow> 'k) \<Rightarrow> 'e list \<Rightarrow> bool" where
  "key_inv k xs \<longleftrightarrow> distinct (map k xs)"

lemma find_remove_first:
  "distinct (map k xs) \<Longrightarrow> find (\<lambda>x. k x = b) (remove_first (\<lambda>x. k x = a) xs)
     = (if a = b then None else find (\<lambda>x. k x = b) xs)"
proof (induction xs)
  case Nil
  then show ?case by simp
next
  case (Cons x xs)
  then show ?case by (auto simp: find_key_None)
qed

lemma key_inv_Cons: "key_inv k xs \<Longrightarrow> find (\<lambda>x. k x = k e) xs = None \<Longrightarrow> key_inv k (e # xs)"
  by (simp add: key_inv_def find_key_None)

lemma key_inv_map_first: "key_inv k xs \<Longrightarrow> (\<And>e. k (f e) = k e) \<Longrightarrow> key_inv k (map_first P f xs)"
  by (simp add: key_inv_def map_key_map_first)

lemma key_inv_remove_first: "key_inv k xs \<Longrightarrow> key_inv k (remove_first P xs)"
  by (simp add: key_inv_def distinct_map_remove_first)

lemma key_inv_map: "key_inv k xs \<Longrightarrow> (\<And>e. k (f e) = k e) \<Longrightarrow> key_inv k (map f xs)"
  by (simp add: key_inv_def comp_def)

lemma find_map_key: "(\<And>e. k (f e) = k e) \<Longrightarrow> find (\<lambda>x. k x = b) (map f xs) = map_option f (find (\<lambda>x. k x = b) xs)"
  by (induction xs) auto

end
