(* ===== verification/VanetsTables.thy ===== *)
theory VanetsTables
  imports KeyedTable
begin

text \<open>
  The containers of the vehicular protocol in \<open>avanets/\<close>: the queue of way points
  (\<open>vanets_queue\<close>), the message buffer (\<open>vanets_buffer_msgs\<close>) and the neighbour table
  (\<open>vanets_neighbor_table\<close>). An allocated block is a list of cells, so a write behind its end
  is an error; whether \<open>realloc\<close> finds memory is an argument.
\<close>

section \<open>The queue of way points\<close>

text \<open>The doubly linked list is the list of its elements from \<open>first\<close> to \<open>last\<close>.\<close>

record vqueue =
  vq_size :: u32
  vq_items :: "(u32 \<times> u32) list"

definition vq_new :: vqueue where "vq_new = \<lparr>vq_size = 0, vq_items = []\<rparr>"

definition vq_enqueue :: "vqueue \<Rightarrow> u32 \<times> u32 \<Rightarrow> vqueue" where
  "vq_enqueue q e =
     (if vq_size q = 0 then q\<lparr>vq_items := [e], vq_size := vq_size q + 1\<rparr>
      else q\<lparr>vq_items := vq_items q @ [e], vq_size := vq_size q + 1\<rparr>)"

fun vq_search_list :: "(u32 \<times> u32) list \<Rightarrow> u32 \<Rightarrow> u32 \<Rightarrow> (u32 \<times> u32) option" where
  "vq_search_list [] x y = None"
| "vq_search_list (e # es) x y = (if fst e = x \<and> snd e = y then Some e else vq_search_list es x y)"

definition vq_search :: "vqueue \<Rightarrow> u32 \<Rightarrow> u32 \<Rightarrow> (u32 \<times> u32) option" where
  "vq_search q x y = vq_search_list (vq_items q) x y"

definition vq_dequeue :: "vqueue \<Rightarrow> ((u32 \<times> u32) option \<times> vqueue) res" where
  "vq_dequeue q =
     (if vq_size q = 0 then Inr (None, q)
      else if vq_size q > 1 then
        (case vq_items q of
           a # b # es \<Rightarrow> Inr (Some a, q\<lparr>vq_items := b # es, vq_size := vq_size q - 1\<rparr>)
         | _ \<Rightarrow> Inl NullDeref)
      else
        (case vq_items q of
           a # es \<Rightarrow> Inr (Some a, q\<lparr>vq_items := [], vq_size := vq_size q - 1\<rparr>)
         | [] \<Rightarrow> Inl NullDeref))"

definition vq_inv :: "vqueue \<Rightarrow> bool" where
  "vq_inv q \<longleftrightarrow> unat (vq_size q) = length (vq_items q)"

lemma vq_inv_new: "vq_inv vq_new"
  by (simp add: vq_inv_def vq_new_def)

lemma vq_enqueue_ok:
  assumes "vq_inv q" and "vq_size q < 0xffffffff"
  shows "vq_inv (vq_enqueue q e) \<and> vq_items (vq_enqueue q e) = vq_items q @ [e]"
proof -
  have "unat (vq_size q + 1) = unat (vq_size q) + 1" by (rule word_inc_unat [OF assms(2)])
  with assms(1) show ?thesis by (auto simp: vq_inv_def vq_enqueue_def unat_eq_0)
qed

lemma vq_dequeue_ok:
  assumes "vq_inv q"
  shows "\<exists>r q'. vq_dequeue q = Inr (r, q') \<and> vq_inv q'
    \<and> (case r of None \<Rightarrow> vq_items q = [] \<and> vq_items q' = [] | Some e \<Rightarrow> vq_items q = e # vq_items q')"
proof (cases "vq_items q")
  case Nil
  with assms show ?thesis by (auto simp: vq_inv_def vq_dequeue_def unat_eq_zero)
next
  case (Cons a es)
  with assms have sz: "unat (vq_size q) = Suc (length es)" by (simp add: vq_inv_def)
  then have nz: "vq_size q \<noteq> 0" by auto
  then have dec: "unat (vq_size q - 1) = length es" using sz by (simp add: unat_minus_one)
  show ?thesis
  proof (cases es)
    case Nil
    with sz have "vq_size q = 1" by (simp add: word_unat_eq_iff)
    with Cons Nil show ?thesis by (auto simp: vq_dequeue_def vq_inv_def)
  next
    case (Cons b es')
    with sz have "vq_size q > 1" by (simp add: word_less_nat_alt)
    with \<open>vq_items q = a # es\<close> Cons nz dec show ?thesis by (auto simp: vq_dequeue_def vq_inv_def)
  qed
qed

section \<open>The message buffer\<close>

record general_message =
  id_msg :: nsaddr
  destination :: "64 word"
  msg_ttl :: u16

definition msg_zero :: general_message where
  "msg_zero = \<lparr>id_msg = 0, destination = 0, msg_ttl = 0\<rparr>"

record vbuffer =
  vb_size :: u32
  vb_capacity :: u32
  vb_block :: "general_message list"

text \<open>The constructor announces a capacity of 256 and allocates \<open>size\<close>, that is 0, cells.\<close>

definition vb_new :: vbuffer where
  "vb_new = \<lparr>vb_size = 0, vb_capacity = 256, vb_block = replicate 0 msg_zero\<rparr>"

definition resize_block :: "'a \<Rightarrow> nat \<Rightarrow> 'a list \<Rightarrow> 'a list" where
  "resize_block z n xs = take n xs @ replicate (n - length xs) z"

text \<open>
  \<open>realloc_list\<close>: the size in bytes is computed in \<open>size_t\<close>, the new capacity in 32 bits.
\<close>

definition vb_realloc :: "bool \<Rightarrow> vbuffer \<Rightarrow> vbuffer" where
  "vb_realloc mem b =
     (let cap = (if vb_capacity b > 0 then vb_capacity b else 1) in
      if mem then b\<lparr>vb_block := resize_block msg_zero (unat cap * 2) (vb_block b), vb_capacity := cap * 2\<rparr>
      else b\<lparr>vb_block := [], vb_size := 0, vb_capacity := 0\<rparr>)"

text \<open>\<open>insert\<close> returns the index of the cell written, or null.\<close>

definition vb_insert :: "bool \<Rightarrow> vbuffer \<Rightarrow> general_message \<Rightarrow> (nat option \<times> vbuffer) res" where
  "vb_insert mem b msg =
     (let b = (if vb_size b = vb_capacity b \<or> vb_size b = 0 \<or> vb_capacity b = 0
               then vb_realloc mem b else b) in
      if vb_size b \<noteq> vb_capacity b then
        (if unat (vb_size b) < length (vb_block b)
         then Inr (Some (unat (vb_size b)),
                   b\<lparr>vb_block := (vb_block b)[unat (vb_size b) := msg], vb_size := vb_size b + 1\<rparr>)
         else Inl OutOfBounds)
      else Inr (None, b))"

definition compare_message :: "general_message \<Rightarrow> general_message \<Rightarrow> bool" where
  "compare_message a b \<longleftrightarrow> id_msg a = id_msg b \<and> destination a = destination b"

text \<open>The elements in use.\<close>

definition vb_items :: "vbuffer \<Rightarrow> general_message list" where
  "vb_items b = take (unat (vb_size b)) (vb_block b)"

definition vb_search :: "vbuffer \<Rightarrow> general_message \<Rightarrow> nat option" where
  "vb_search b msg = find (\<lambda>i. compare_message msg (vb_block b ! i)) [0..<unat (vb_size b)]"

definition vb_delete_object :: "vbuffer \<Rightarrow> u32 \<Rightarrow> vbuffer" where
  "vb_delete_object b pos =
     (if pos \<ge> vb_size b then b
      else b\<lparr>vb_block := (vb_block b)[unat pos := vb_block b ! unat (vb_size b - 1)],
             vb_size := vb_size b - 1\<rparr>)"

definition vb_get_object :: "vbuffer \<Rightarrow> u32 \<Rightarrow> general_message option" where
  "vb_get_object b pos = (if pos \<ge> vb_size b then None else Some (vb_block b ! unat pos))"

text \<open>The block is as long as announced, except that an empty buffer may not have it yet.\<close>

definition vb_inv :: "vbuffer \<Rightarrow> bool" where
  "vb_inv b \<longleftrightarrow> (vb_size b = 0 \<or> length (vb_block b) = unat (vb_capacity b)) \<and> vb_size b \<le> vb_capacity b"

lemma vb_inv_new: "vb_inv vb_new"
  by (simp add: vb_inv_def vb_new_def)

lemma length_resize_block [simp]: "length (resize_block z n xs) = n"
  by (simp add: resize_block_def)

lemma take_resize_block: "m \<le> length xs \<Longrightarrow> m \<le> n \<Longrightarrow> take m (resize_block z n xs) = take m xs"
  by (simp add: resize_block_def)

lemma unat_double:
  assumes "c < 0x80000000"
  shows "unat (c * 2 :: u32) = unat c * 2"
proof -
  have "unat c < 0x80000000" using assms by (simp add: word_less_nat_alt)
  then show ?thesis by (simp add: unat_word_ariths(2))
qed

text \<open>After the reallocation an insertion has a cell to write, and the elements are still there.\<close>

lemma vb_realloc_ok:
  assumes "vb_inv b" and "vb_capacity b < 0x80000000"
  shows "vb_inv (vb_realloc True b) \<and> length (vb_block (vb_realloc True b)) = unat (vb_capacity (vb_realloc True b))
    \<and> vb_size (vb_realloc True b) = vb_size b \<and> vb_size b < vb_capacity (vb_realloc True b)
    \<and> vb_items (vb_realloc True b) = vb_items b"
proof -
  let ?cap = "if vb_capacity b > 0 then vb_capacity b else 1"
  have c: "?cap < 0x80000000" using assms(2) by simp
  have pos: "0 < unat ?cap" by (simp add: word_less_nat_alt unat_gt_0)
  have sz: "unat (vb_size b) \<le> unat ?cap"
    using assms(1) by (cases "vb_capacity b = 0") (auto simp: vb_inv_def word_le_nat_alt word_gt_0)
  then have lt: "vb_size b < ?cap * 2"
    using pos unat_double [OF c] by (simp add: word_less_nat_alt)
  have "vb_items (vb_realloc True b) = vb_items b"
  proof (cases "vb_size b = 0")
    case True
    then show ?thesis by (simp add: vb_items_def vb_realloc_def Let_def)
  next
    case False
    with assms(1) have "unat (vb_size b) \<le> length (vb_block b)"
      by (auto simp: vb_inv_def word_le_nat_alt)
    with sz show ?thesis by (simp add: vb_items_def vb_realloc_def Let_def take_resize_block)
  qed
  with lt unat_double [OF c] show ?thesis
    by (auto simp: vb_realloc_def Let_def vb_inv_def order.strict_implies_order)
qed

lemma vb_insert_ok:
  assumes inv: "vb_inv b" and cap: "vb_capacity b < 0x80000000"
  shows "\<exists>b'. vb_insert True b msg = Inr (Some (unat (vb_size b)), b') \<and> vb_inv b'
    \<and> vb_items b' = vb_items b @ [msg]"
proof -
  let ?c = "if vb_size b = vb_capacity b \<or> vb_size b = 0 \<or> vb_capacity b = 0 then vb_realloc True b else b"
  have c: "length (vb_block ?c) = unat (vb_capacity ?c)" "vb_size ?c = vb_size b"
    "vb_size b < vb_capacity ?c" "vb_items ?c = vb_items b"
    using vb_realloc_ok [OF inv cap] inv by (auto simp: vb_inv_def)
  have lt: "unat (vb_size b) < length (vb_block ?c)" using c(1,3) by (simp add: word_less_nat_alt)
  have inc: "unat (vb_size b + 1) = unat (vb_size b) + 1" by (rule word_inc_unat [OF c(3)])
  let ?b = "?c\<lparr>vb_block := (vb_block ?c)[unat (vb_size b) := msg], vb_size := vb_size b + 1\<rparr>"
  have r: "vb_insert True b msg = Inr (Some (unat (vb_size b)), ?b)"
    using c(2,3) lt unfolding vb_insert_def Let_def by auto
  have "vb_items ?b = vb_items ?c @ [msg]"
    using lt inc c(2) by (simp add: vb_items_def take_Suc_conv_app_nth)
  moreover have "vb_inv ?b"
    using c(1,3) inc by (simp add: vb_inv_def word_le_nat_alt word_less_nat_alt)
  ultimately show ?thesis using r c(4) by auto
qed

text \<open>Deleting moves the last element into the gap: the others stay, in another order.\<close>

lemma vb_delete_ok:
  assumes inv: "vb_inv b" and pos: "pos < vb_size b"
  shows "vb_inv (vb_delete_object b pos)
    \<and> mset (vb_items b) = add_mset (vb_items b ! unat pos) (mset (vb_items (vb_delete_object b pos)))"
proof -
  let ?n = "unat (vb_size b)" and ?p = "unat pos" and ?xs = "vb_block b"
  have nz: "vb_size b \<noteq> 0" using pos by auto
  then have last: "unat (vb_size b - 1) = ?n - 1" and n: "0 < ?n"
    by (simp_all add: unat_minus_one unat_gt_0)
  have len: "?n \<le> length ?xs" using inv nz by (auto simp: vb_inv_def word_le_nat_alt)
  have p: "?p < ?n" using pos by (simp add: word_less_nat_alt)
  have "vb_items (vb_delete_object b pos) = (take (?n - 1) ?xs)[?p := ?xs ! (?n - 1)]"
    using pos last by (simp add: vb_items_def vb_delete_object_def take_update_swap not_le [symmetric])
  moreover have split: "take ?n ?xs = take (?n - 1) ?xs @ [?xs ! (?n - 1)]"
    using n len by (metis Suc_pred' less_le_trans lessI take_Suc_conv_app_nth)
  have "mset (take ?n ?xs) = add_mset (?xs ! ?p) (mset ((take (?n - 1) ?xs)[?p := ?xs ! (?n - 1)]))"
  proof (cases "?p = ?n - 1")
    case True
    then show ?thesis by (simp add: split list_update_beyond)
  next
    case False
    with p have lt: "?p < length (take (?n - 1) ?xs)" using len by simp
    have at: "take (?n - 1) ?xs ! ?p = ?xs ! ?p" using lt by simp
    have "?xs ! ?p \<in># mset (take (?n - 1) ?xs)" using nth_mem [OF lt] at by simp
    with mset_update [OF lt, of "?xs ! (?n - 1)"] split at show ?thesis by (simp add: insert_DiffM)
  qed
  moreover have "vb_items b ! ?p = ?xs ! ?p" using p by (simp add: vb_items_def)
  moreover have "vb_inv (vb_delete_object b pos)"
    using inv pos nz last by (auto simp: vb_inv_def vb_delete_object_def word_le_nat_alt)
  ultimately show ?thesis by (simp add: vb_items_def)
qed

section \<open>The neighbour table\<close>

record neighbor =
  id_vehicle :: nsaddr
  nb_path :: vqueue
  nb_ttl :: u16

definition neighbor_zero :: neighbor where
  "neighbor_zero = \<lparr>id_vehicle = 0, nb_path = vq_new, nb_ttl = 0\<rparr>"

record ntable =
  nt_size :: u32
  nt_capacity :: u32
  nt_block :: "neighbor list"

definition nt_new :: ntable where
  "nt_new = \<lparr>nt_size = 0, nt_capacity = 16, nt_block = replicate 16 neighbor_zero\<rparr>"

definition nt_realloc :: "bool \<Rightarrow> ntable \<Rightarrow> ntable" where
  "nt_realloc mem t =
     (let cap = (if nt_capacity t > 0 then nt_capacity t else 1) in
      if mem then t\<lparr>nt_block := resize_block neighbor_zero (unat cap * 2) (nt_block t), nt_capacity := cap * 2\<rparr>
      else t\<lparr>nt_block := [], nt_size := 0, nt_capacity := 0\<rparr>)"

definition nt_insert :: "bool \<Rightarrow> ntable \<Rightarrow> neighbor \<Rightarrow> ntable res" where
  "nt_insert mem t obj =
     (let t = (if nt_size t = nt_capacity t then nt_realloc mem t else t) in
      if unat (nt_size t) < length (nt_block t)
      then Inr (t\<lparr>nt_block := (nt_block t)[unat (nt_size t) := obj], nt_size := nt_size t + 1\<rparr>)
      else Inl OutOfBounds)"

text \<open>\<open>search\<close> compares the ids and returns a pointer, here the index of the cell.\<close>

definition nt_search :: "ntable \<Rightarrow> nsaddr \<Rightarrow> nat option" where
  "nt_search t i = find (\<lambda>n. id_vehicle (nt_block t ! n) = i) [0..<unat (nt_size t)]"

text \<open>A write through the pointer.\<close>

definition nt_write :: "ntable \<Rightarrow> nat \<Rightarrow> (neighbor \<Rightarrow> neighbor) \<Rightarrow> ntable" where
  "nt_write t n f = t\<lparr>nt_block := (nt_block t)[n := f (nt_block t ! n)]\<rparr>"

text \<open>
  \<open>update_ttl\<close> from cell \<open>i\<close> on. The field is unsigned; for the comparison with 0 it is
  converted to a signed \<open>int\<close>, which keeps its value.
\<close>

function update_ttl_from :: "nat \<Rightarrow> ntable \<Rightarrow> ntable" where
  "update_ttl_from i t =
     (if i < unat (nt_size t) then
        (let t1 = nt_write t i (\<lambda>x. x\<lparr>nb_ttl := nb_ttl x - 1\<rparr>) in
         if uint (nb_ttl (nt_block t1 ! i)) < 0
         then update_ttl_from i
                (t1\<lparr>nt_block := (nt_block t1)[i := nt_block t1 ! unat (nt_size t1 - 1)],
                    nt_size := nt_size t1 - 1\<rparr>)
         else update_ttl_from (Suc i) t1)
      else t)"
  by pat_completeness auto
termination
  by (relation "measure (\<lambda>(i, t). unat (nt_size t) - i)") (auto simp: nt_write_def)

declare update_ttl_from.simps [simp del]

definition update_ttl :: "ntable \<Rightarrow> ntable" where
  "update_ttl t = update_ttl_from 0 t"

definition nt_items :: "ntable \<Rightarrow> neighbor list" where
  "nt_items t = take (unat (nt_size t)) (nt_block t)"

definition nt_inv :: "ntable \<Rightarrow> bool" where
  "nt_inv t \<longleftrightarrow> length (nt_block t) = unat (nt_capacity t) \<and> nt_size t \<le> nt_capacity t
     \<and> 0 < nt_capacity t \<and> key_inv id_vehicle (nt_items t)"

definition nt_room :: "ntable \<Rightarrow> bool" where
  "nt_room t \<longleftrightarrow> nt_capacity t < 0x80000000"

lemma nt_inv_new: "nt_inv nt_new"
  by (simp add: nt_inv_def nt_new_def nt_items_def key_inv_def)

text \<open>What the table holds for a vehicle, and the table after an insertion that finds memory.\<close>

definition nt_lookup :: "ntable \<Rightarrow> nsaddr \<Rightarrow> neighbor option" where
  "nt_lookup t i = map_option (\<lambda>n. nt_block t ! n) (nt_search t i)"

definition nt_add :: "ntable \<Rightarrow> neighbor \<Rightarrow> ntable" where
  "nt_add t e = (case nt_insert True t e of Inl err \<Rightarrow> t | Inr t' \<Rightarrow> t')"

definition nt_update :: "ntable \<Rightarrow> nsaddr \<Rightarrow> (neighbor \<Rightarrow> neighbor) \<Rightarrow> ntable" where
  "nt_update t i f = (case nt_search t i of None \<Rightarrow> t | Some n \<Rightarrow> nt_write t n f)"

lemma find_nth_take:
  "n \<le> length xs \<Longrightarrow> map_option (\<lambda>i. xs ! i) (find (\<lambda>i. P (xs ! i)) [0..<n]) = find P (take n xs)"
proof (induction n)
  case 0
  then show ?case by simp
next
  case (Suc n)
  have app: "find Q (ys @ zs) = (case find Q ys of None \<Rightarrow> find Q zs | Some x \<Rightarrow> Some x)" for Q and ys zs :: "'c list"
    by (induction ys) auto
  from Suc have ih: "find P (take n xs) = map_option (\<lambda>i. xs ! i) (find (\<lambda>i. P (xs ! i)) [0..<n])" by simp
  from Suc.prems show ?case
    by (cases "find (\<lambda>i. P (xs ! i)) [0..<n]") (simp_all add: app take_Suc_conv_app_nth ih)
qed

lemma nt_lookup_find: "nt_inv t \<Longrightarrow> nt_lookup t i = find (\<lambda>x. id_vehicle x = i) (nt_items t)"
  unfolding nt_lookup_def nt_search_def nt_items_def
  by (rule find_nth_take) (simp add: nt_inv_def word_le_nat_alt)

lemma nt_realloc_ok:
  assumes inv: "nt_inv t" and room: "nt_room t"
  shows "length (nt_block (nt_realloc True t)) = unat (nt_capacity (nt_realloc True t))
    \<and> nt_size (nt_realloc True t) = nt_size t \<and> nt_size t < nt_capacity (nt_realloc True t)
    \<and> nt_items (nt_realloc True t) = nt_items t"
proof -
  have cap: "0 < nt_capacity t" "unat (nt_capacity t * 2) = unat (nt_capacity t) * 2"
    using inv room unat_double by (auto simp: nt_inv_def nt_room_def)
  moreover have "unat (nt_size t) \<le> length (nt_block t)" "unat (nt_size t) \<le> unat (nt_capacity t)"
    using inv by (auto simp: nt_inv_def word_le_nat_alt)
  moreover have "0 < unat (nt_capacity t)" using cap(1) by (simp add: unat_gt_0 word_gt_0)
  ultimately show ?thesis
    by (simp add: nt_realloc_def Let_def nt_items_def take_resize_block word_less_nat_alt)
qed

lemma nt_insert_ok:
  assumes inv: "nt_inv t" and room: "nt_room t"
  shows "\<exists>t'. nt_insert True t e = Inr t' \<and> nt_items t' = nt_items t @ [e]
    \<and> (id_vehicle e \<notin> id_vehicle ` set (nt_items t) \<longrightarrow> nt_inv t')"
proof -
  let ?c = "if nt_size t = nt_capacity t then nt_realloc True t else t"
  have c: "length (nt_block ?c) = unat (nt_capacity ?c)" "nt_size ?c = nt_size t"
    "nt_size t < nt_capacity ?c" "nt_items ?c = nt_items t"
    using nt_realloc_ok [OF inv room] inv by (auto simp: nt_inv_def)
  have lt: "unat (nt_size t) < length (nt_block ?c)" using c(1,3) by (simp add: word_less_nat_alt)
  have inc: "unat (nt_size t + 1) = unat (nt_size t) + 1" by (rule word_inc_unat [OF c(3)])
  let ?t = "?c\<lparr>nt_block := (nt_block ?c)[unat (nt_size t) := e], nt_size := nt_size t + 1\<rparr>"
  have r: "nt_insert True t e = Inr ?t" using c(2) lt unfolding nt_insert_def Let_def by auto
  have items: "nt_items ?t = nt_items t @ [e]"
    using lt inc c(2,4) by (simp add: nt_items_def take_Suc_conv_app_nth)
  have "nt_inv ?t" if "id_vehicle e \<notin> id_vehicle ` set (nt_items t)"
    using that c(1,3) inc inv items
    by (auto simp: nt_inv_def key_inv_def word_le_nat_alt word_less_nat_alt word_gt_0)
  with r items show ?thesis by blast
qed

lemma nt_search_Some: "nt_search t i = Some n \<Longrightarrow> n < unat (nt_size t) \<and> id_vehicle (nt_block t ! n) = i"
  unfolding nt_search_def by (drule find_SomeD) auto

lemma nt_items_write:
  "nt_items (nt_write t n f) = (nt_items t)[n := f (nt_block t ! n)]"
  by (simp add: nt_items_def nt_write_def take_update_swap)

lemma nt_update_items:
  assumes inv: "nt_inv t" and key: "\<And>e. id_vehicle (f e) = id_vehicle e"
  shows "nt_items (nt_update t i f) = map_first (\<lambda>x. id_vehicle x = i) f (nt_items t)"
proof (cases "nt_search t i")
  case None
  then have "find (\<lambda>x. id_vehicle x = i) (nt_items t) = None"
    using nt_lookup_find [OF inv, of i] by (simp add: nt_lookup_def)
  with None show ?thesis by (simp add: nt_update_def map_first_absent)
next
  case (Some n)
  have upd: "map_first (\<lambda>x. k x = k (xs ! n)) f xs = xs[n := f (xs ! n)]"
    if "distinct (map k xs)" "n < length xs" for n and k :: "neighbor \<Rightarrow> nsaddr" and xs
    using that
  proof (induction xs arbitrary: n)
    case Nil
    then show ?case by simp
  next
    case (Cons x xs)
    then show ?case by (cases n) auto
  qed
  from nt_search_Some [OF Some] have n: "n < unat (nt_size t)" "id_vehicle (nt_block t ! n) = i" by auto
  have len: "length (nt_items t) = unat (nt_size t)"
    using inv by (simp add: nt_items_def nt_inv_def word_le_nat_alt)
  have at: "nt_items t ! n = nt_block t ! n" using n by (simp add: nt_items_def)
  have "distinct (map id_vehicle (nt_items t))" using inv by (simp add: nt_inv_def key_inv_def)
  from upd [OF this, of n] n len at Some show ?thesis
    by (simp add: nt_update_def nt_items_write)
qed

lemma nt_update_inv:
  assumes inv: "nt_inv t" and key: "\<And>e. id_vehicle (f e) = id_vehicle e"
  shows "nt_inv (nt_update t i f)"
proof -
  have "key_inv id_vehicle (nt_items (nt_update t i f))"
    unfolding nt_update_items [OF inv key]
    by (rule key_inv_map_first) (use inv key in \<open>auto simp: nt_inv_def\<close>)
  moreover have "length (nt_block (nt_update t i f)) = length (nt_block t)"
    "nt_size (nt_update t i f) = nt_size t" "nt_capacity (nt_update t i f) = nt_capacity t"
    by (simp_all add: nt_update_def nt_write_def split: option.split)
  ultimately show ?thesis using inv by (simp add: nt_inv_def)
qed

interpretation nt: keyed_table nt_lookup id_vehicle nt_add nt_update nt_inv nt_room
proof (standard, goal_cases)
  case (1 t k e)
  then show ?case by (auto simp: nt_lookup_def dest: nt_search_Some)
next
  case (2 t e)
  with nt_insert_ok [OF 2(1,2), of e] show ?case
    by (auto simp: nt_add_def nt_lookup_find find_key_None)
next
  case (3 t e k)
  from 3(3) have new: "id_vehicle e \<notin> id_vehicle ` set (nt_items t)"
    by (simp add: nt_lookup_find [OF 3(1)] find_key_None)
  with nt_insert_ok [OF 3(1,2), of e] have a: "nt_inv (nt_add t e)" "nt_items (nt_add t e) = nt_items t @ [e]"
    by (auto simp: nt_add_def)
  have app: "find Q (ys @ zs) = (case find Q ys of None \<Rightarrow> find Q zs | Some x \<Rightarrow> Some x)" for Q and ys zs :: "neighbor list"
    by (induction ys) auto
  have none: "find (\<lambda>x. id_vehicle x = id_vehicle e) (nt_items t) = None"
    using new by (simp add: find_key_None)
  show ?case
    unfolding nt_lookup_find [OF a(1)] nt_lookup_find [OF 3(1)] a(2) app
    by (cases "k = id_vehicle e") (auto simp: none split: option.split)
next
  case (4 t f k)
  then show ?case by (simp add: nt_update_inv)
next
  case (5 t f k k')
  show ?case
    unfolding nt_lookup_find [OF nt_update_inv [OF 5]] nt_lookup_find [OF 5(1)] nt_update_items [OF 5]
    using find_key_map_first [of "\<lambda>x. id_vehicle x = k" id_vehicle f k k' "nt_items t"] 5(2) by auto
qed

section \<open>Ageing removes nobody\<close>

lemma update_ttl_from_eq:
  "unat (nt_size t) \<le> length (nt_block t) \<Longrightarrow> i \<le> unat (nt_size t)
   \<Longrightarrow> update_ttl_from i t = t\<lparr>nt_block := take i (nt_block t)
         @ map (\<lambda>x. x\<lparr>nb_ttl := nb_ttl x - 1\<rparr>) (drop i (nt_items t)) @ drop (unat (nt_size t)) (nt_block t)\<rparr>"
proof (induction i t rule: update_ttl_from.induct)
  case (1 i t)
  show ?case
  proof (cases "i < unat (nt_size t)")
    case True
    let ?f = "\<lambda>x. x\<lparr>nb_ttl := nb_ttl x - 1\<rparr>"
    let ?t = "nt_write t i ?f"
    have sz: "nt_size ?t = nt_size t" "nt_block ?t = (nt_block t)[i := ?f (nt_block t ! i)]"
      by (simp_all add: nt_write_def)
    have nn: "\<not> uint (nb_ttl (nt_block ?t ! i)) < 0" by (simp add: not_less)
    have "update_ttl_from i t = update_ttl_from (Suc i) ?t"
      using True nn by (subst update_ttl_from.simps) (simp add: Let_def)
    moreover have "update_ttl_from (Suc i) ?t = ?t\<lparr>nt_block := take (Suc i) (nt_block ?t)
         @ map ?f (drop (Suc i) (nt_items ?t)) @ drop (unat (nt_size ?t)) (nt_block ?t)\<rparr>"
      using 1(2) [OF True refl nn] 1(3) True sz by simp
    moreover have "drop i (nt_items t) = nt_block t ! i # drop (Suc i) (nt_items t)"
      using True 1(3) by (simp add: nt_items_def Cons_nth_drop_Suc [symmetric])
    moreover have "drop (Suc i) (nt_items ?t) = drop (Suc i) (nt_items t)"
      by (simp add: nt_items_write)
    moreover have "take (Suc i) (nt_block ?t) = take i (nt_block t) @ [?f (nt_block t ! i)]"
      using True 1(3) sz by (simp add: take_Suc_conv_app_nth)
    ultimately show ?thesis
      using True sz by (simp add: nt_write_def)
  next
    case False
    with 1(4) have i: "i = unat (nt_size t)" by simp
    with 1(3) show ?thesis
      by (subst update_ttl_from.simps) (simp add: nt_items_def)
  qed
qed

lemma update_ttl_items:
  assumes "nt_inv t"
  shows "nt_items (update_ttl t) = map (\<lambda>x. x\<lparr>nb_ttl := nb_ttl x - 1\<rparr>) (nt_items t) \<and> nt_inv (update_ttl t)"
proof -
  have len: "unat (nt_size t) \<le> length (nt_block t)" using assms by (simp add: nt_inv_def word_le_nat_alt)
  have it: "length (nt_items t) = unat (nt_size t)" using len by (simp add: nt_items_def)
  have eq: "update_ttl t = t\<lparr>nt_block := map (\<lambda>x. x\<lparr>nb_ttl := nb_ttl x - 1\<rparr>) (nt_items t)
      @ drop (unat (nt_size t)) (nt_block t)\<rparr>"
    using update_ttl_from_eq [OF len, of 0] by (simp add: update_ttl_def)
  have "nt_items (update_ttl t) = map (\<lambda>x. x\<lparr>nb_ttl := nb_ttl x - 1\<rparr>) (nt_items t)"
    using it by (simp add: eq nt_items_def)
  with assms len it show ?thesis
    by (simp add: nt_inv_def eq) (simp add: key_inv_map nt_inv_def)
qed

section \<open>Properties\<close>

text \<open>The way point queue is first-in first-out: an enqueued element comes out after all that were
  there, dequeue takes the oldest one and never follows a null link, and the size counter
  counts the elements.\<close>

theorem vq_fifo:
  assumes "vq_inv q" and "vq_size q < 0xffffffff"
  shows "vq_inv (vq_enqueue q e) \<and> vq_items (vq_enqueue q e) = vq_items q @ [e]
    \<and> (\<exists>q'. vq_dequeue (vq_enqueue q e) = Inr (Some (hd (vq_items q @ [e])), q')
          \<and> vq_inv q' \<and> vq_items q' = tl (vq_items q @ [e]))"
proof -
  from vq_enqueue_ok [OF assms] have enq: "vq_inv (vq_enqueue q e)" "vq_items (vq_enqueue q e) = vq_items q @ [e]"
    by auto
  from vq_dequeue_ok [OF enq(1)] obtain r q' where r: "vq_dequeue (vq_enqueue q e) = Inr (r, q')"
    "vq_inv q'" and "case r of None \<Rightarrow> vq_items (vq_enqueue q e) = [] \<and> vq_items q' = []
      | Some a \<Rightarrow> vq_items (vq_enqueue q e) = a # vq_items q'" by blast
  then obtain a where "r = Some a" "vq_items q @ [e] = a # vq_items q'"
    using enq(2) by (cases r) auto
  with r enq show ?thesis by simp
qed

lemma vq_fifo_witness:
  "\<exists>q'. vq_dequeue (vq_enqueue (vq_enqueue vq_new (1, 2)) (3, 4)) = Inr (Some (1, 2), q')
     \<and> vq_items q' = [(3, 4)]"
  using vq_fifo [of "vq_enqueue vq_new (1, 2)" "(3, 4)"] vq_enqueue_ok [OF vq_inv_new, of "(1, 2)"]
  by (auto simp: vq_new_def vq_enqueue_def)

text \<open>While the capacity is below 2^31 and memory is found, an insertion into the message buffer
  never writes outside the allocated block and appends the message (although the constructor
  allocates nothing), and a deletion removes exactly the message at its position.\<close>

theorem vb_insert_delete:
  assumes "vb_inv b" and "vb_capacity b < 0x80000000"
  shows "\<exists>b'. vb_insert True b msg = Inr (Some (unat (vb_size b)), b') \<and> vb_inv b'
    \<and> vb_items b' = vb_items b @ [msg]
    \<and> (pos < vb_size b' \<longrightarrow> vb_inv (vb_delete_object b' pos)
        \<and> mset (vb_items b @ [msg]) = add_mset (vb_items b' ! unat pos) (mset (vb_items (vb_delete_object b' pos))))"
proof -
  from vb_insert_ok [OF assms] obtain b' where b': "vb_insert True b msg = Inr (Some (unat (vb_size b)), b')"
    "vb_inv b'" "vb_items b' = vb_items b @ [msg]" by blast
  with vb_delete_ok [OF b'(2), of pos] show ?thesis by fastforce
qed

lemma vb_insert_delete_witness:
  "\<exists>b'. vb_insert True vb_new msg_zero = Inr (Some 0, b') \<and> vb_items b' = [msg_zero]"
  using vb_insert_delete [of vb_new msg_zero 0] vb_inv_new
  by (auto simp: vb_new_def vb_items_def)

text \<open>Every insertion into an empty message buffer doubles the block: a buffer that never holds
  more than one message grows without bound when messages come and go.\<close>

theorem vb_empty_grows:
  assumes "vb_size b = 0" and "0 < vb_capacity b" and "vb_capacity b < 0x80000000"
  shows "\<exists>b'. vb_insert True b msg = Inr (Some 0, b')
    \<and> vb_size (vb_delete_object b' 0) = 0
    \<and> unat (vb_capacity (vb_delete_object b' 0)) = 2 * unat (vb_capacity b)
    \<and> length (vb_block (vb_delete_object b' 0)) = 2 * unat (vb_capacity b)"
proof -
  have c: "unat (vb_capacity b * 2) = unat (vb_capacity b) * 2" by (rule unat_double [OF assms(3)])
  have pos: "0 < unat (vb_capacity b)" using assms(2) by (simp add: unat_gt_0 word_gt_0)
  then have "unat (vb_capacity b * 2) \<noteq> unat 0" using c by simp
  then have "vb_capacity b * 2 \<noteq> 0" by (metis)
  with assms c pos show ?thesis
    by (simp add: vb_insert_def Let_def vb_realloc_def vb_delete_object_def)
qed

lemma vb_empty_grows_witness:
  "\<exists>b'. vb_insert True vb_new msg_zero = Inr (Some 0, b')
     \<and> length (vb_block (vb_delete_object b' 0)) = 512"
  using vb_empty_grows [of vb_new msg_zero] by (auto simp: vb_new_def)

text \<open>Ageing the neighbour table decrements every ttl modulo 2^16 and removes no neighbour: the
  unsigned counter is never below zero, so the removal the comment announces does not happen.\<close>

theorem nt_never_forgets:
  assumes "nt_inv t"
  shows "nt_items (update_ttl t) = map (\<lambda>x. x\<lparr>nb_ttl := nb_ttl x - 1\<rparr>) (nt_items t)
    \<and> nt_size (update_ttl t) = nt_size t \<and> nt_inv (update_ttl t)"
proof -
  have "unat (nt_size t) \<le> length (nt_block t)" using assms by (simp add: nt_inv_def word_le_nat_alt)
  from update_ttl_from_eq [OF this, of 0] update_ttl_items [OF assms] show ?thesis
    by (simp add: update_ttl_def)
qed

lemma nt_never_forgets_witness:
  "nt_size (update_ttl (nt_add nt_new neighbor_zero)) = 1
   \<and> map nb_ttl (nt_items (update_ttl (nt_add nt_new neighbor_zero))) = [0xffff]"
proof -
  from nt_insert_ok [OF nt_inv_new, of neighbor_zero]
  have a: "nt_inv (nt_add nt_new neighbor_zero)" "nt_items (nt_add nt_new neighbor_zero) = [neighbor_zero]"
    by (auto simp: nt_add_def nt_room_def nt_new_def nt_items_def)
  have "nt_size (nt_add nt_new neighbor_zero) = 1"
    by (simp add: nt_add_def nt_insert_def nt_new_def Let_def)
  with nt_never_forgets [OF a(1)] a(2) show ?thesis by (simp add: neighbor_zero_def)
qed

end
