(* ===== verification/VanetsAgent.thy ===== *)
theory VanetsAgent
  imports NsPacket VanetsTables MobileNode Sched
begin

text \<open>
  The vehicular routing agent of \<open>avanets/vanets.cc\<close>: every node says hello each second; a car
  carries messages in a buffer, hands them to a car that is closer to their destination along
  its way points, and delivers them when it hears the static destination node.
\<close>

section \<open>State and packets\<close>

definition XFX_MSG_HELLO_MOVEL :: u8 where "XFX_MSG_HELLO_MOVEL = 0x1"
definition XFX_MSG_HELLO_STATIC :: u8 where "XFX_MSG_HELLO_STATIC = 0x2"
definition XFX_MSG_NORMAL :: u8 where "XFX_MSG_NORMAL = 0x3"
definition XFX_MSG_FORWARD :: u8 where "XFX_MSG_FORWARD = 0x4"
definition TIME_HELLO_MESSAGE :: time where "TIME_HELLO_MESSAGE = 1"
definition TIME_BROADCAST_MESSAGE :: time where "TIME_BROADCAST_MESSAGE = 1"

text \<open>
  The header fields the code uses. A forward packet carries a whole data packet as a field of
  its header; a data packet carries no other packet.
\<close>

record xfx_reply =
  rp_type :: u8
  rp_dst :: nsaddr
  rp_dst_seqno :: u32
  rp_lifetime :: real

type_synonym data_packet = "xfx_reply packet"

record xfx_forward = xfx_reply +
  rp_data :: "data_packet option"

type_synonym xfx_packet = "xfx_forward packet"

definition xfx_zero :: xfx_forward where
  "xfx_zero = \<lparr>rp_type = 0, rp_dst = 0, rp_dst_seqno = 0, rp_lifetime = 0, rp_data = None\<rparr>"

definition as_data :: "xfx_packet \<Rightarrow> data_packet" where
  "as_data p = map_body (\<lambda>b. \<lparr>rp_type = rp_type b, rp_dst = rp_dst b, rp_dst_seqno = rp_dst_seqno b,
     rp_lifetime = rp_lifetime b\<rparr>) p"

definition as_xfx :: "data_packet \<Rightarrow> xfx_packet" where
  "as_xfx p = map_body (\<lambda>b. \<lparr>rp_type = rp_type b, rp_dst = rp_dst b, rp_dst_seqno = rp_dst_seqno b,
     rp_lifetime = rp_lifetime b, rp_data = None\<rparr>) p"

text \<open>
  What the code takes from its surroundings: whether \<open>realloc\<close> finds memory, how a stream prints
  a coordinate, the nodes of the simulation, \<open>sizeof(Packet)\<close>, and the bytes from the agent's header to
  the end of the headers of a packet. The agent registers a header without room for a packet, so the
  packet a forward packet carries is written over the headers that follow, if there are any.
\<close>

record xfx_env =
  env_mem :: bool
  env_fmt :: "real \<Rightarrow> string"
  env_nodes :: "mobile_node list"
  env_packet_size :: int
  env_room :: int

definition reply_size :: int where "reply_size = 7 * 4"
definition forward_size :: "xfx_env \<Rightarrow> int" where "forward_size E = 7 * 4 + env_packet_size E"

text \<open>\<open>sizeof(hdr_xfx_forward)\<close>: four words with their padding, two doubles, the packet.\<close>

definition forward_bytes :: "xfx_env \<Rightarrow> int" where "forward_bytes E = 4 * 4 + 2 * 8 + env_packet_size E"

record vanets =
  x_index :: nsaddr
  x_seqno :: u32
  x_posx :: u32
  x_posy :: u32
  neighbor_vehicles :: ntable
  bufferMsgs :: "data_packet list"

definition vanets_new :: "nsaddr \<Rightarrow> vanets" where
  "vanets_new i = \<lparr>x_index = i, x_seqno = 1, x_posx = 0, x_posy = 0, neighbor_vehicles = nt_new,
     bufferMsgs = []\<rparr>"

text \<open>
  \<open>list_mobile_nodes\<close>: the nodes of the simulation in the order of their creation. The code
  indexes the vector with a node address; an index behind the end is undefined behaviour.
\<close>

definition mobile_nodes_add :: "mobile_node list \<Rightarrow> mobile_node \<Rightarrow> mobile_node list" where
  "mobile_nodes_add ns m = ns @ [m]"

definition node_at :: "mobile_node list \<Rightarrow> nsaddr \<Rightarrow> mobile_node res" where
  "node_at ns i = (if unat i < length ns then Inr (ns ! unat i) else Inl OutOfBounds)"

section \<open>Sending\<close>

definition send_hello :: "xfx_env \<Rightarrow> int \<Rightarrow> vanets \<Rightarrow> xfx_forward act list res" where
  "send_hello E u v =
     bindR (node_at (env_nodes E) (x_index v)) (\<lambda>m.
       (let p = packet_alloc u xfx_zero;
            t = (if mn_kind m = 2 then XFX_MSG_HELLO_MOVEL else XFX_MSG_HELLO_STATIC);
            b = (body p)\<lparr>rp_type := t, rp_dst := x_index v, rp_dst_seqno := x_seqno v, rp_lifetime := 4\<rparr>;
            p = p\<lparr>ptype := PT_XFXVanets, psize := IP_HDR_LEN + reply_size, iface := - 2, perror := 0,
                  addr_type := NS_AF_NONE, prev_hop := x_index v\<rparr>;
            p = p\<lparr>saddr := x_index v, daddr := IP_BROADCAST, sport := RT_PORT, dport := RT_PORT, ttl := 1\<rparr>
        in Inr [Sched (p\<lparr>body := b\<rparr>) 0]))"

text \<open>
  \<open>forward\<close> wraps a data packet into a new packet for the given node. The assignment to
  \<open>rh->data\<close> runs over the end of the headers when they are too short; otherwise the packet is
  taken to survive there, although it shares its place with the headers that follow.
\<close>

definition vanets_forward :: "xfx_env \<Rightarrow> int \<Rightarrow> vanets \<Rightarrow> nsaddr \<Rightarrow> data_packet \<Rightarrow> xfx_forward act res" where
  "vanets_forward E u v ip d =
     (if env_room E < forward_bytes E then Inl OutOfBounds else
      let p = packet_alloc u xfx_zero;
          b = (body p)\<lparr>rp_type := XFX_MSG_FORWARD, rp_dst := x_index v, rp_dst_seqno := x_seqno v,
                       rp_lifetime := 4, rp_data := Some d\<rparr>;
          p = p\<lparr>ptype := PT_XFXVanets, psize := IP_HDR_LEN + forward_size E, iface := - 2, perror := 0,
                addr_type := NS_AF_NONE, prev_hop := x_index v\<rparr>;
          p = p\<lparr>saddr := x_index v, daddr := ip, sport := RT_PORT, dport := RT_PORT, ttl := 30\<rparr>
      in Inr (Sched (p\<lparr>body := b\<rparr>) 0))"

text \<open>
  \<open>sendMsgMinorDistance\<close>: the messages for which the neighbour is closer along its route are
  handed over and removed from the buffer. \<open>fmt\<close> prints a coordinate, \<open>u\<close> numbers the new
  packets.
\<close>

definition closer :: "(real \<Rightarrow> string) \<Rightarrow> mobile_node \<Rightarrow> mobile_node \<Rightarrow> mobile_node \<Rightarrow> bool" where
  "closer fmt store ipM nM =
     (let dist_store_msg = check_distance_at fmt store (mn_X nM) (mn_Y nM);
          dist_ipn_msg = check_distance_at fmt ipM (mn_X nM) (mn_Y nM)
      in dist_ipn_msg \<noteq> - 1 \<and> (dist_store_msg = - 1 \<or> dist_store_msg > dist_ipn_msg))"

fun minor_distance_loop ::
  "xfx_env \<Rightarrow> mobile_node \<Rightarrow> mobile_node \<Rightarrow> int \<Rightarrow> vanets \<Rightarrow> nsaddr
   \<Rightarrow> data_packet list \<Rightarrow> (data_packet list \<times> xfx_forward act list) res"
where
  "minor_distance_loop E store ipM u v ip [] = Inr ([], [])"
| "minor_distance_loop E store ipM u v ip (d # ds) =
     bindR (node_at (env_nodes E) (daddr d)) (\<lambda>nM.
       if closer (env_fmt E) store ipM nM
       then bindR (vanets_forward E u v ip d) (\<lambda>a.
            bindR (minor_distance_loop E store ipM (u + 1) v ip ds) (\<lambda>(keep, as). Inr (keep, a # as)))
       else bindR (minor_distance_loop E store ipM u v ip ds)
              (\<lambda>(keep, as). Inr (d # keep, as)))"

definition send_minor_distance ::
  "xfx_env \<Rightarrow> int \<Rightarrow> vanets \<Rightarrow> nsaddr \<Rightarrow> (vanets \<times> xfx_forward act list) res"
where
  "send_minor_distance E u v ip =
     bindR (node_at (env_nodes E) (x_index v)) (\<lambda>store.
     bindR (node_at (env_nodes E) ip) (\<lambda>ipM.
     bindR (minor_distance_loop E store ipM u v ip (bufferMsgs v)) (\<lambda>(keep, as).
       Inr (v\<lparr>bufferMsgs := keep\<rparr>, as))))"

text \<open>
  \<open>sendMsgStNodo\<close>: the messages for the static node \<open>p\<close> came from are sent as they are. For
  a message without hops left the code drops the packet received, not the message.
\<close>

definition deliverable :: "data_packet \<Rightarrow> data_packet" where
  "deliverable d =
     d\<lparr>body := (body d)\<lparr>rp_type := XFX_MSG_NORMAL\<rparr>, ptype := PT_XFXVanets, iface := - 2, perror := 0,
       addr_type := NS_AF_NONE, sport := RT_PORT, dport := RT_PORT\<rparr>"

fun st_nodo_loop ::
  "xfx_packet \<Rightarrow> data_packet list \<Rightarrow> data_packet list \<times> xfx_forward act list"
where
  "st_nodo_loop p [] = ([], [])"
| "st_nodo_loop p (d # ds) =
     (case st_nodo_loop p ds of
        (keep, as) \<Rightarrow>
          if daddr d = saddr p
          then (keep, (if ttl d \<ge> 0 then Sched (as_xfx (deliverable d)) 0 else Drop p DROP_RTR_TTL) # as)
          else (d # keep, as))"

definition send_st_nodo :: "vanets \<Rightarrow> xfx_packet \<Rightarrow> vanets \<times> xfx_forward act list" where
  "send_st_nodo v p =
     (case st_nodo_loop p (bufferMsgs v) of (keep, as) \<Rightarrow> (v\<lparr>bufferMsgs := keep\<rparr>, as))"

section \<open>Receiving\<close>

text \<open>
  \<open>recvHelloMsg\<close>: the sender is inserted into the neighbour table, or its ttl is set to 3
  through the pointer \<open>search\<close> returned.
\<close>

definition hello_entry :: "nsaddr \<Rightarrow> neighbor" where
  "hello_entry i = \<lparr>id_vehicle = i, nb_path = vq_new, nb_ttl = 3\<rparr>"

definition note_neighbor :: "bool \<Rightarrow> ntable \<Rightarrow> nsaddr \<Rightarrow> ntable res" where
  "note_neighbor mem t i =
     (case nt_search t i of
        Some n \<Rightarrow> Inr (nt_write t n (\<lambda>x. x\<lparr>nb_ttl := 3\<rparr>))
      | None \<Rightarrow> nt_insert mem t (hello_entry i))"

definition recv_hello ::
  "xfx_env \<Rightarrow> int \<Rightarrow> vanets \<Rightarrow> xfx_packet \<Rightarrow> (vanets \<times> xfx_forward act list) res"
where
  "recv_hello E u v p =
     bindR (note_neighbor (env_mem E) (neighbor_vehicles v) (rp_dst (body p))) (\<lambda>t.
     bindR (send_minor_distance E u (v\<lparr>neighbor_vehicles := t\<rparr>) (rp_dst (body p))) (\<lambda>(v, as).
       Inr (v, as @ [Free p])))"

definition handle_forward :: "vanets \<Rightarrow> xfx_packet \<Rightarrow> (vanets \<times> xfx_forward act list) res" where
  "handle_forward v p =
     (case rp_data (body p) of
        None \<Rightarrow> Inl NullDeref
      | Some d \<Rightarrow> Inr (v\<lparr>bufferMsgs := bufferMsgs v @ [d]\<rparr>, []))"

definition recv_xfx ::
  "xfx_env \<Rightarrow> int \<Rightarrow> vanets \<Rightarrow> xfx_packet \<Rightarrow> (vanets \<times> xfx_forward act list) res"
where
  "recv_xfx E u v p =
     bindR (assertC (sport p = RT_PORT)) (\<lambda>_.
     bindR (assertC (dport p = RT_PORT)) (\<lambda>_.
       if rp_type (body p) = XFX_MSG_HELLO_MOVEL then
         bindR (node_at (env_nodes E) (x_index v)) (\<lambda>m.
           if mn_kind m = 2 then recv_hello E u v p else Inr (v, []))
       else if rp_type (body p) = XFX_MSG_HELLO_STATIC then Inr (send_st_nodo v p)
       else if rp_type (body p) = XFX_MSG_NORMAL then Inr (v, [])
       else if rp_type (body p) = XFX_MSG_FORWARD then handle_forward v p
       else Inr (v, [])))"

definition vanets_recv ::
  "xfx_env \<Rightarrow> int \<Rightarrow> vanets \<Rightarrow> xfx_packet \<Rightarrow> (vanets \<times> xfx_forward act list) res"
where
  "vanets_recv E u v p =
     (if ptype p = PT_XFXVanets then recv_xfx E u v (p\<lparr>ttl := ttl p - 1\<rparr>)
      else if saddr p = x_index v \<and> num_forwards p = 0 then
        (let p = (if ptype p \<noteq> PT_TCP \<and> ptype p \<noteq> PT_ACK then p\<lparr>psize := psize p + IP_HDR_LEN\<rparr> else p)
         in Inr (v\<lparr>bufferMsgs := bufferMsgs v @ [as_data p]\<rparr>, []))
      else if saddr p = x_index v then Inr (v, [Drop p DROP_RTR_ROUTE_LOOP])
      else
        (let p = p\<lparr>ttl := ttl p - 1\<rparr> in
         if ttl p = 0 then Inr (v, [Drop p DROP_RTR_TTL])
         else Inr (v\<lparr>bufferMsgs := bufferMsgs v @ [as_data p]\<rparr>, [])))"

section \<open>Timers and commands\<close>

datatype vanets_handler = BTimerXfx | HTimerXfx | XfxTarget xfx_packet

definition id_purge :: "vanets \<Rightarrow> vanets" where
  "id_purge v = v\<lparr>neighbor_vehicles := update_ttl (neighbor_vehicles v)\<rparr>"

definition broadcast_timer_handle :: "vanets \<Rightarrow> vanets \<times> vanets_handler request list" where
  "broadcast_timer_handle v = (id_purge v, [ReqSchedule BTimerXfx TIME_BROADCAST_MESSAGE])"

definition xfx_request :: "xfx_forward act \<Rightarrow> vanets_handler request list" where
  "xfx_request a = (case a of Sched p d \<Rightarrow> [ReqSchedule (XfxTarget p) d] | _ \<Rightarrow> [])"

definition hello_timer_handle ::
  "xfx_env \<Rightarrow> int \<Rightarrow> vanets \<Rightarrow> (vanets \<times> vanets_handler request list) res"
where
  "hello_timer_handle E u v =
     bindR (send_hello E u v) (\<lambda>as.
       Inr (v, concat (map xfx_request as) @ [ReqSchedule HTimerXfx TIME_HELLO_MESSAGE]))"

text \<open>The command \<open>start\<close>: only cars age their neighbour table.\<close>

definition vanets_start ::
  "xfx_env \<Rightarrow> int \<Rightarrow> vanets \<Rightarrow> (vanets \<times> vanets_handler request list) res"
where
  "vanets_start E u v =
     bindR (node_at (env_nodes E) (x_index v)) (\<lambda>m.
       (let (v, rs) = (if mn_kind m = 2 then broadcast_timer_handle v else (v, []))
        in bindR (hello_timer_handle E u v) (\<lambda>(v, qs). Inr (v, rs @ qs))))"

end
