(* ===== verification/VanetsProps.thy ===== *)
theory VanetsProps
  imports VanetsAgent
begin

text \<open>
  What the vehicular agent does with the messages it carries and with the neighbours it hears.
\<close>

section \<open>The neighbour table\<close>

text \<open>Noting a neighbour is the look-up-or-insert pattern of a keyed table.\<close>

lemma note_neighbor_upsert:
  assumes "nt_inv t" and "nt_room t"
  shows "note_neighbor True t i = Inr (nt.upsert t (hello_entry i) (\<lambda>x. x\<lparr>nb_ttl := 3\<rparr>))"
proof (cases "nt_search t i")
  case None
  from nt_insert_ok [OF assms, of "hello_entry i"] None show ?thesis
    by (auto simp: note_neighbor_def nt.upsert_def nt_lookup_def nt_add_def hello_entry_def)
next
  case (Some n)
  then show ?thesis
    by (simp add: note_neighbor_def nt.upsert_def nt_lookup_def nt_update_def hello_entry_def)
qed

lemma note_neighbor_ok:
  assumes "nt_inv t" and "nt_room t"
  shows "\<exists>t'. note_neighbor True t i = Inr t' \<and> nt_inv t'
    \<and> (\<exists>e. nt_lookup t' i = Some e \<and> nb_ttl e = 3)
    \<and> (\<forall>j. j \<noteq> i \<longrightarrow> nt_lookup t' j = nt_lookup t j)"
proof -
  let ?f = "\<lambda>x :: neighbor. x\<lparr>nb_ttl := 3\<rparr>" and ?e = "hello_entry i"
  have key: "\<And>e. id_vehicle (?f e) = id_vehicle e" by simp
  have id: "id_vehicle ?e = i" "nb_ttl ?e = 3" by (simp_all add: hello_entry_def)
  note same = nt.look_upsert_same [OF assms, of ?f ?e, OF key]
    and other = nt.look_upsert_other [OF assms, of ?f _ ?e, OF key]
    and inv = nt.upsert_inv [OF assms, of ?f ?e, OF key]
  from same have "\<exists>e. nt_lookup (nt.upsert t ?e ?f) i = Some e \<and> nb_ttl e = 3"
    by (auto simp: id split: option.split)
  with inv other note_neighbor_upsert [OF assms] id(1) show ?thesis by auto
qed

section \<open>Messages handed to a closer car\<close>

text \<open>The destination nodes of all buffered messages, the node itself and the neighbour exist.\<close>

definition known_nodes :: "xfx_env \<Rightarrow> vanets \<Rightarrow> nsaddr \<Rightarrow> bool" where
  "known_nodes E v i \<longleftrightarrow> unat (x_index v) < length (env_nodes E) \<and> unat i < length (env_nodes E)
     \<and> (\<forall>d \<in> set (bufferMsgs v). unat (daddr d) < length (env_nodes E))"

text \<open>
  How far along the route of a car a point is: the number of way points before the first whose text
  is the printed point. A message is handed over if the other car has the place of its destination
  on its route, and the car itself has not or only further on.
\<close>

definition stops :: "(real \<Rightarrow> string) \<Rightarrow> mobile_node \<Rightarrow> mobile_node \<Rightarrow> nat option" where
  "stops fmt car n = find (\<lambda>i. cr_x (mn_route car ! i) = fmt (mn_X n) \<and> cr_y (mn_route car ! i) = fmt (mn_Y n))
     [0..<length (mn_route car)]"

definition hand_over :: "xfx_env \<Rightarrow> vanets \<Rightarrow> nsaddr \<Rightarrow> data_packet \<Rightarrow> bool" where
  "hand_over E v i d =
     (let n = env_nodes E ! unat (daddr d);
          mine = stops (env_fmt E) (env_nodes E ! unat (x_index v)) n;
          its = stops (env_fmt E) (env_nodes E ! unat i) n
      in case (its, mine) of (None, _) \<Rightarrow> False | (Some k, None) \<Rightarrow> True | (Some k, Some j) \<Rightarrow> k < j)"

lemma closer_stops:
  "closer fmt store ipM n = (case (stops fmt ipM n, stops fmt store n) of
     (None, _) \<Rightarrow> False | (Some k, None) \<Rightarrow> True | (Some k, Some j) \<Rightarrow> k < j)"
  by (auto simp: closer_def check_distance_at_def check_distance_first stops_def conj_commute split: option.splits)

lemma hand_over_closer:
  "hand_over E v i d = closer (env_fmt E) (env_nodes E ! unat (x_index v)) (env_nodes E ! unat i) (env_nodes E ! unat (daddr d))"
  by (simp add: hand_over_def closer_stops Let_def)

text \<open>The message a scheduled forward packet carries, and the address it goes to.\<close>

definition carried :: "xfx_forward act \<Rightarrow> data_packet option" where
  "carried a = rp_data (body (act_pkt a))"

lemma vanets_forward_room:
  "env_room E < forward_bytes E \<Longrightarrow> vanets_forward E u v ip d = Inl OutOfBounds"
  "\<not> env_room E < forward_bytes E
   \<Longrightarrow> \<exists>a. vanets_forward E u v ip d = Inr a \<and> carried a = Some d \<and> daddr (act_pkt a) = ip"
  by (simp_all add: vanets_forward_def Let_def carried_def)

lemma minor_distance_loop_eq:
  assumes "\<forall>d \<in> set ds. unat (daddr d) < length (env_nodes E)" and "\<not> env_room E < forward_bytes E"
  shows "\<exists>as. minor_distance_loop E store ipM u v ip ds
      = Inr (filter (\<lambda>d. \<not> closer (env_fmt E) store ipM (env_nodes E ! unat (daddr d))) ds, as)
    \<and> map carried as = map Some (filter (\<lambda>d. closer (env_fmt E) store ipM (env_nodes E ! unat (daddr d))) ds)
    \<and> (\<forall>a \<in> set as. daddr (act_pkt a) = ip)"
  using assms(1)
proof (induction ds arbitrary: u)
  case (Cons d ds)
  let ?c = "\<lambda>d. closer (env_fmt E) store ipM (env_nodes E ! unat (daddr d))"
  obtain a where a: "vanets_forward E u v ip d = Inr a" "carried a = Some d" "daddr (act_pkt a) = ip"
    using vanets_forward_room(2) [OF assms(2)] by blast
  from Cons.prems have ds: "\<forall>d \<in> set ds. unat (daddr d) < length (env_nodes E)" and d: "unat (daddr d) < length (env_nodes E)"
    by auto
  obtain as where "minor_distance_loop E store ipM (if ?c d then u + 1 else u) v ip ds = Inr (filter (\<lambda>d. \<not> ?c d) ds, as)"
    "map carried as = map Some (filter ?c ds)" "\<forall>a \<in> set as. daddr (act_pkt a) = ip"
    using Cons.IH [OF ds] by blast
  with a d show ?case by (cases "?c d") (simp_all add: node_at_def)
qed simp

text \<open>Without room for a packet the first message handed over runs over the end of the headers.\<close>

lemma minor_distance_loop_overrun:
  assumes "\<forall>d \<in> set ds. unat (daddr d) < length (env_nodes E)" and "env_room E < forward_bytes E"
  shows "minor_distance_loop E store ipM u v ip ds
    = (if \<exists>d \<in> set ds. closer (env_fmt E) store ipM (env_nodes E ! unat (daddr d)) then Inl OutOfBounds else Inr (ds, []))"
  using assms(1) by (induction ds) (auto simp: node_at_def vanets_forward_room(1) [OF assms(2)])

lemma send_minor_distance_eq:
  assumes "known_nodes E v i"
  shows "if env_room E < forward_bytes E \<and> (\<exists>d \<in> set (bufferMsgs v). hand_over E v i d)
    then send_minor_distance E u v i = Inl OutOfBounds
    else \<exists>as. send_minor_distance E u v i
        = Inr (v\<lparr>bufferMsgs := filter (\<lambda>d. \<not> hand_over E v i d) (bufferMsgs v)\<rparr>, as)
      \<and> map carried as = map Some (filter (hand_over E v i) (bufferMsgs v))
      \<and> (\<forall>a \<in> set as. daddr (act_pkt a) = i)"
proof -
  from assms have ds: "\<forall>d \<in> set (bufferMsgs v). unat (daddr d) < length (env_nodes E)"
    and n: "unat (x_index v) < length (env_nodes E)" "unat i < length (env_nodes E)"
    by (auto simp: known_nodes_def)
  show ?thesis
  proof (cases "env_room E < forward_bytes E")
    case True
    from minor_distance_loop_overrun [OF ds this] n True show ?thesis
      by (auto simp: send_minor_distance_def node_at_def hand_over_closer [abs_def] filter_empty_conv filter_id_conv)
  next
    case False
    from minor_distance_loop_eq [OF ds False, of "env_nodes E ! unat (x_index v)" "env_nodes E ! unat i" u v i] n False
    show ?thesis by (auto simp: send_minor_distance_def node_at_def hand_over_closer [abs_def])
  qed
qed

section \<open>Messages delivered to a static node\<close>

lemma st_nodo_loop_eq:
  "st_nodo_loop p ds = (filter (\<lambda>d. daddr d \<noteq> saddr p) ds,
     map (\<lambda>d. if ttl d \<ge> 0 then Sched (as_xfx (deliverable d)) 0 else Drop p DROP_RTR_TTL)
       (filter (\<lambda>d. daddr d = saddr p) ds))"
  by (induction ds) auto

section \<open>Properties\<close>

text \<open>C40: A car that hears the hello of another car hands over exactly the messages whose
  destination the other car has on its route while it has not itself, or has further on. If the packet's headers
  end too early for the packet a forward packet carries, for which the agent registers no room, then
  the first such message is written over their end. Otherwise the other car is noted with a ttl of 3,
  the other neighbours are left alone, each message handed over travels in a packet to that car, the other
  messages stay in order, and the hello is freed.\<close>

theorem vanets_hello:
  assumes "nt_inv (neighbor_vehicles v)" and "nt_room (neighbor_vehicles v)" and "env_mem E"
    and "known_nodes E v (rp_dst (body p))"
    and "ptype p = PT_XFXVanets" and "sport p = RT_PORT" and "dport p = RT_PORT"
    and "rp_type (body p) = XFX_MSG_HELLO_MOVEL" and "mn_kind (env_nodes E ! unat (x_index v)) = 2"
  shows "if env_room E < 32 + env_packet_size E \<and> (\<exists>d \<in> set (bufferMsgs v). hand_over E v (rp_dst (body p)) d)
    then vanets_recv E u v p = Inl OutOfBounds
    else \<exists>v' as. vanets_recv E u v p = Inr (v', as @ [Free (p\<lparr>ttl := ttl p - 1\<rparr>)])
      \<and> nt_inv (neighbor_vehicles v')
      \<and> map_option nb_ttl (nt_lookup (neighbor_vehicles v') (rp_dst (body p))) = Some 3
      \<and> (\<forall>j. j \<noteq> rp_dst (body p) \<longrightarrow> nt_lookup (neighbor_vehicles v') j = nt_lookup (neighbor_vehicles v) j)
      \<and> bufferMsgs v' = filter (\<lambda>d. \<not> hand_over E v (rp_dst (body p)) d) (bufferMsgs v)
      \<and> map carried as = map Some (filter (hand_over E v (rp_dst (body p))) (bufferMsgs v))
      \<and> (\<forall>a \<in> set as. daddr (act_pkt a) = rp_dst (body p))"
proof -
  let ?i = "rp_dst (body p)"
  obtain t where t: "note_neighbor True (neighbor_vehicles v) ?i = Inr t" "nt_inv t"
    "map_option nb_ttl (nt_lookup t ?i) = Some 3"
    "\<forall>j. j \<noteq> ?i \<longrightarrow> nt_lookup t j = nt_lookup (neighbor_vehicles v) j"
    using note_neighbor_ok [OF assms(1,2), of ?i] by auto
  let ?v = "v\<lparr>neighbor_vehicles := t\<rparr>"
  have h: "hand_over E ?v ?i d = hand_over E v ?i d" for d by (simp add: hand_over_def)
  have k: "known_nodes E ?v ?i" using assms(4) by (simp add: known_nodes_def)
  have r: "vanets_recv E u v p = bindR (send_minor_distance E u ?v ?i) (\<lambda>(v, as). Inr (v, as @ [Free (p\<lparr>ttl := ttl p - 1\<rparr>)]))"
    using t(1) assms by (simp add: vanets_recv_def recv_xfx_def recv_hello_def node_at_def known_nodes_def)
  show ?thesis
  proof (cases "env_room E < forward_bytes E \<and> (\<exists>d \<in> set (bufferMsgs v). hand_over E v ?i d)")
    case True
    with send_minor_distance_eq [OF k, of u] show ?thesis by (simp add: r h forward_bytes_def)
  next
    case False
    with send_minor_distance_eq [OF k, of u] obtain as where as: "send_minor_distance E u ?v ?i
        = Inr (?v\<lparr>bufferMsgs := filter (\<lambda>d. \<not> hand_over E v ?i d) (bufferMsgs v)\<rparr>, as)"
      "map carried as = map Some (filter (hand_over E v ?i) (bufferMsgs v))" "\<forall>a \<in> set as. daddr (act_pkt a) = ?i"
      by (auto simp: h [abs_def] split: if_splits)
    have room: "\<not> (env_room E < 32 + env_packet_size E \<and> (\<exists>d \<in> set (bufferMsgs v). hand_over E v ?i d))"
      using False by (simp add: forward_bytes_def)
    show ?thesis unfolding if_not_P [OF room]
      by (intro exI [of _ "?v\<lparr>bufferMsgs := filter (\<lambda>d. \<not> hand_over E v ?i d) (bufferMsgs v)\<rparr>"] exI [of _ as])
        (use as t in \<open>simp add: r\<close>)
  qed
qed

text \<open>Two cars: car 0 carries a message for node 1; car 1 stands at the first way point of its route.\<close>

definition demo_point :: mobile_node where
  "demo_point = (mobile_node_new 2)\<lparr>mn_X := 3, mn_route := [car_route_new ''3'' ''3'' ''0'']\<rparr>"

definition demo_env :: xfx_env where
  "demo_env = \<lparr>env_mem = True, env_fmt = (\<lambda>x. ''3''), env_nodes = [mobile_node_new 2, demo_point],
     env_packet_size = 88, env_room = 120\<rparr>"

definition demo_message :: data_packet where
  "demo_message = as_data ((packet_alloc 7 xfx_zero)\<lparr>daddr := 1, ttl := 5\<rparr>)"

definition demo_vanets :: vanets where
  "demo_vanets = (vanets_new 0)\<lparr>bufferMsgs := [demo_message]\<rparr>"

definition demo_hello :: xfx_packet where
  "demo_hello = (packet_alloc 8 (xfx_zero\<lparr>rp_type := XFX_MSG_HELLO_MOVEL, rp_dst := 1\<rparr>))
     \<lparr>ptype := PT_XFXVanets, sport := RT_PORT, dport := RT_PORT, saddr := 1, ttl := 1\<rparr>"

lemma demo_hello_simps [simp]:
  "ptype demo_hello = PT_XFXVanets" "sport demo_hello = RT_PORT" "dport demo_hello = RT_PORT"
  "saddr demo_hello = 1" "rp_type (body demo_hello) = XFX_MSG_HELLO_MOVEL" "rp_dst (body demo_hello) = 1"
  "uid demo_hello = 8"
  by (simp_all add: demo_hello_def)

lemma demo_over: "hand_over (demo_env\<lparr>env_room := r\<rparr>) demo_vanets 1 demo_message"
  by (simp add: hand_over_closer closer_def demo_env_def demo_vanets_def vanets_new_def demo_message_def
      check_distance_at_def demo_point_def mobile_node_new_def car_route_new_def set_coord_def as_data_def)

lemma vanets_hello_witness:
  "(\<exists>v' as. vanets_recv (demo_env\<lparr>env_room := 120\<rparr>) 9 demo_vanets demo_hello = Inr (v', as) \<and> bufferMsgs v' = []
     \<and> nt_lookup (neighbor_vehicles v') 1 \<noteq> None \<and> carried (hd as) = Some demo_message)
   \<and> vanets_recv (demo_env\<lparr>env_room := 24\<rparr>) 9 demo_vanets demo_hello = Inl OutOfBounds"
proof -
  have "known_nodes (demo_env\<lparr>env_room := r\<rparr>) demo_vanets 1" for r
    by (simp add: known_nodes_def demo_env_def demo_vanets_def vanets_new_def demo_message_def as_data_def)
  moreover have "nt_inv (neighbor_vehicles demo_vanets)" "nt_room (neighbor_vehicles demo_vanets)"
    using nt_inv_new by (simp_all add: demo_vanets_def vanets_new_def nt_room_def nt_new_def)
  moreover have "mn_kind (env_nodes demo_env ! unat (x_index demo_vanets)) = 2"
    by (simp add: demo_env_def demo_vanets_def vanets_new_def mobile_node_new_def)
  moreover have "env_mem demo_env" "bufferMsgs demo_vanets = [demo_message]" "env_packet_size demo_env = 88"
    by (simp_all add: demo_env_def demo_vanets_def)
  ultimately have "\<exists>v' as. vanets_recv (demo_env\<lparr>env_room := 120\<rparr>) 9 demo_vanets demo_hello
      = Inr (v', as @ [Free (demo_hello\<lparr>ttl := ttl demo_hello - 1\<rparr>)])
    \<and> map_option nb_ttl (nt_lookup (neighbor_vehicles v') 1) = Some 3 \<and> bufferMsgs v' = [] \<and> map carried as = [Some demo_message]"
    and "vanets_recv (demo_env\<lparr>env_room := 24\<rparr>) 9 demo_vanets demo_hello = Inl OutOfBounds"
    using vanets_hello [of demo_vanets "demo_env\<lparr>env_room := 120\<rparr>" demo_hello 9]
      vanets_hello [of demo_vanets "demo_env\<lparr>env_room := 24\<rparr>" demo_hello 9] demo_over by (auto simp del: not_less)
  then show ?thesis by (fastforce simp: Cons_eq_map_conv map_eq_Cons_conv)
qed

text \<open>Hearing a static node, the agent sends it every buffered message addressed to it whose ttl is
  not negative, and only those, and removes from the buffer all messages addressed to it.\<close>

theorem vanets_static:
  assumes "ptype p = PT_XFXVanets" and "sport p = RT_PORT" and "dport p = RT_PORT"
    and "rp_type (body p) = XFX_MSG_HELLO_STATIC"
  shows "\<exists>v' as. vanets_recv E u v p = Inr (v', as)
    \<and> bufferMsgs v' = filter (\<lambda>d. daddr d \<noteq> saddr p) (bufferMsgs v)
    \<and> [q. Sched q t \<leftarrow> as] = map (as_xfx \<circ> deliverable) (filter (\<lambda>d. daddr d = saddr p \<and> ttl d \<ge> 0) (bufferMsgs v))"
proof -
  have loop: "[q. Sched q t \<leftarrow> map (\<lambda>d. if ttl d \<ge> 0 then Sched (as_xfx (deliverable d)) 0 else Drop q' DROP_RTR_TTL)
      (filter (\<lambda>d. daddr d = a) ds)] = map (as_xfx \<circ> deliverable) (filter (\<lambda>d. daddr d = a \<and> ttl d \<ge> 0) ds)"
    for q' :: xfx_packet and a and ds :: "data_packet list"
    by (induction ds) auto
  have kinds: "XFX_MSG_HELLO_STATIC \<noteq> XFX_MSG_HELLO_MOVEL"
    by (simp add: XFX_MSG_HELLO_STATIC_def XFX_MSG_HELLO_MOVEL_def)
  show ?thesis
    using assms kinds loop [of "p\<lparr>ttl := ttl p - 1\<rparr>" "saddr p" "bufferMsgs v"]
    by (simp add: vanets_recv_def recv_xfx_def send_st_nodo_def st_nodo_loop_eq)
qed

definition demo_static :: xfx_packet where
  "demo_static = demo_hello\<lparr>body := (body demo_hello)\<lparr>rp_type := XFX_MSG_HELLO_STATIC\<rparr>\<rparr>"

lemma vanets_static_witness:
  "\<exists>v' as. vanets_recv demo_env 9 demo_vanets demo_static = Inr (v', as) \<and> bufferMsgs v' = []
     \<and> length [q. Sched q t \<leftarrow> as] = 1"
  using vanets_static [of demo_static demo_env 9 demo_vanets]
  by (auto simp: demo_static_def demo_vanets_def demo_message_def as_data_def packet_alloc_def)

text \<open>For each message addressed to the static node whose ttl is negative, the code drops the
  received packet instead of the message: with two such messages it is dropped twice, and the
  messages leave the buffer without being sent or dropped.\<close>

theorem vanets_static_drops_hello:
  assumes "ptype p = PT_XFXVanets" and "sport p = RT_PORT" and "dport p = RT_PORT"
    and "rp_type (body p) = XFX_MSG_HELLO_STATIC"
    and "\<forall>d \<in> set (bufferMsgs v). daddr d = saddr p \<and> ttl d < 0 \<and> uid d \<noteq> uid p"
  shows "\<exists>v' as. vanets_recv E u v p = Inr (v', as) \<and> bufferMsgs v' = []
    \<and> handled (uid p) as = length (bufferMsgs v) \<and> (\<forall>d \<in> set (bufferMsgs v). handled (uid d) as = 0)"
proof -
  have kinds: "XFX_MSG_HELLO_STATIC \<noteq> XFX_MSG_HELLO_MOVEL"
    by (simp add: XFX_MSG_HELLO_STATIC_def XFX_MSG_HELLO_MOVEL_def)
  have rep: "map (\<lambda>d. if ttl d \<ge> 0 then Sched (as_xfx (deliverable d)) 0 else Drop q DROP_RTR_TTL) ds
      = replicate (length ds) (Drop q DROP_RTR_TTL)" if "\<forall>d \<in> set ds. ttl d < 0"
    for q :: xfx_packet and ds :: "data_packet list"
    using that by (induction ds) auto
  have h: "handled k (replicate n (Drop q DROP_RTR_TTL)) = (if uid q = k then n else 0)"
    for k n and q :: xfx_packet
    by (induction n) auto
  from assms(5) have f: "filter (\<lambda>d. daddr d = saddr p) (bufferMsgs v) = bufferMsgs v"
    "filter (\<lambda>d. daddr d \<noteq> saddr p) (bufferMsgs v) = []"
    and neg: "\<forall>d \<in> set (bufferMsgs v). ttl d < 0"
    by (auto simp: filter_empty_conv filter_id_conv)
  show ?thesis
    using assms kinds
    by (auto simp: vanets_recv_def recv_xfx_def send_st_nodo_def st_nodo_loop_eq f rep [OF neg] h)
qed

lemma vanets_static_drops_hello_witness:
  "\<exists>v' as. vanets_recv demo_env 9 (demo_vanets\<lparr>bufferMsgs := [demo_message\<lparr>ttl := - 1\<rparr>, demo_message\<lparr>ttl := - 1\<rparr>]\<rparr>)
     demo_static = Inr (v', as) \<and> handled (uid demo_static) as = 2"
  using vanets_static_drops_hello [of demo_static
      "demo_vanets\<lparr>bufferMsgs := [demo_message\<lparr>ttl := - 1\<rparr>, demo_message\<lparr>ttl := - 1\<rparr>]\<rparr>" demo_env 9]
  by (auto simp: demo_static_def demo_message_def as_data_def packet_alloc_def)

end
