(* ===== verification/WfrpAgent.thy ===== *)
theory WfrpAgent
  imports NsPacket KeyedTable Sched
begin

text \<open>
  The sink-rooted routing protocol of \<open>wfrp/wfrp.cc\<close>: a sink floods numbered beacons, every
  node remembers for each sink the neighbour that delivered the newest beacon over the fewest
  hops, and data follows these neighbours.
\<close>

section \<open>State\<close>

definition ROUTE_FRESH :: u8 where "ROUTE_FRESH = 0x01"
definition ROUTE_EXPIRED :: u8 where "ROUTE_EXPIRED = 0x02"
definition ROUTE_FAILED :: u8 where "ROUTE_FAILED = 0x03"
definition WFRP_BEACON :: u8 where "WFRP_BEACON = 0x01"
definition WFRP_ERROR :: u8 where "WFRP_ERROR = 0x02"
definition NETWORK_DIAMETER :: int where "NETWORK_DIAMETER = 64"
definition DEFAULT_BEACON_INTERVAL :: time where "DEFAULT_BEACON_INTERVAL = 10"
definition DEFAULT_ROUTE_EXPIRE :: time where "DEFAULT_ROUTE_EXPIRE = 2 * DEFAULT_BEACON_INTERVAL"
definition ROUTE_PURGE_FREQUENCY :: time where "ROUTE_PURGE_FREQUENCY = 2"

record route_cache =
  rt_dst :: nsaddr
  rt_seqno :: u32
  rt_nexthop :: nsaddr
  rt_xpos :: u32
  rt_ypos :: u32
  rt_state :: u8
  rt_hopcount :: u8
  rt_expire :: time

record wfrp =
  w_index :: nsaddr
  w_seqno :: u32
  w_posx :: u32
  w_posy :: u32
  rthead :: "route_cache list"

text \<open>
  The beacon header. The three header structs of the protocol overlay each other and all begin
  with \<open>pkt_type\<close>; no code reads another field of an error header. Its size is that of the
  struct on a 64-bit platform.
\<close>

record beacon =
  pkt_type :: u8
  beacon_hops :: u8
  beacon_id :: u32
  beacon_src :: nsaddr
  beacon_posx :: u32
  beacon_posy :: u32
  b_timestamp :: time

type_synonym wfrp_packet = "beacon packet"
type_synonym wfrp_act = "beacon act"

definition beacon_zero :: beacon where
  "beacon_zero = \<lparr>pkt_type = 0, beacon_hops = 0, beacon_id = 0, beacon_src = 0, beacon_posx = 0,
     beacon_posy = 0, b_timestamp = 0\<rparr>"

definition beacon_size :: int where "beacon_size = 32"

definition wfrp_new :: "nsaddr \<Rightarrow> wfrp" where
  "wfrp_new i = \<lparr>w_index = i, w_seqno = 1, w_posx = 0, w_posy = 0, rthead = []\<rparr>"

section \<open>The route cache\<close>

text \<open>\<open>LIST_INSERT_HEAD\<close>.\<close>

definition rt_link :: "route_cache list \<Rightarrow> route_cache \<Rightarrow> route_cache list" where
  "rt_link rs r = r # rs"

definition rt_insert ::
  "time \<Rightarrow> nsaddr \<Rightarrow> u32 \<Rightarrow> nsaddr \<Rightarrow> u32 \<Rightarrow> u32 \<Rightarrow> u8 \<Rightarrow> route_cache list \<Rightarrow> route_cache list"
where
  "rt_insert now src bid nexthop xpos ypos hops rs = rt_link rs
     \<lparr>rt_dst = src, rt_seqno = bid, rt_nexthop = nexthop, rt_xpos = xpos, rt_ypos = ypos,
      rt_state = ROUTE_FRESH, rt_hopcount = hops, rt_expire = now + DEFAULT_ROUTE_EXPIRE\<rparr>"

fun rt_lookup :: "route_cache list \<Rightarrow> nsaddr \<Rightarrow> route_cache option" where
  "rt_lookup [] dst = None"
| "rt_lookup (r # rs) dst = (if rt_dst r = dst then Some r else rt_lookup rs dst)"

fun rt_purge :: "time \<Rightarrow> route_cache list \<Rightarrow> route_cache list" where
  "rt_purge now [] = []"
| "rt_purge now (r # rs) =
     (if rt_expire r \<le> now then r\<lparr>rt_state := ROUTE_EXPIRED\<rparr> else r) # rt_purge now rs"

definition rt_remove :: "route_cache \<Rightarrow> route_cache list \<Rightarrow> route_cache list" where
  "rt_remove rt rs = remove_first (\<lambda>r. rt_dst r = rt_dst rt) rs"

section \<open>Sending\<close>

definition update_position :: "wfrp \<Rightarrow> wfrp" where
  "update_position w = w"

text \<open>\<open>send_beacon\<close>; \<open>u\<close> is the uid of the packet it allocates.\<close>

definition send_beacon :: "time \<Rightarrow> int \<Rightarrow> wfrp \<Rightarrow> wfrp \<times> wfrp_act list" where
  "send_beacon now u w =
     (let p = packet_alloc u beacon_zero;
          p = p\<lparr>ptype := PT_WFRP, psize := IP_HDR_LEN + beacon_size, addr_type := NS_AF_NONE,
                prev_hop := w_index w\<rparr>;
          p = p\<lparr>saddr := w_index w, daddr := IP_BROADCAST, sport := RT_PORT, dport := RT_PORT,
                ttl := NETWORK_DIAMETER\<rparr>;
          b = (body p)\<lparr>pkt_type := WFRP_BEACON, beacon_hops := 1, beacon_id := w_seqno w,
                beacon_src := w_index w\<rparr>;
          w = update_position w;
          b = b\<lparr>beacon_posx := w_posx w, beacon_posy := w_posy w, b_timestamp := now\<rparr>;
          w = w\<lparr>w_seqno := w_seqno w + 1\<rparr>
      in (w, [Sched (p\<lparr>body := b\<rparr>) 0]))"

text \<open>\<open>send_error\<close> and \<open>recv_error\<close> have empty bodies.\<close>

definition send_error :: "nsaddr \<Rightarrow> wfrp \<Rightarrow> wfrp \<times> wfrp_act list" where
  "send_error dst w = (w, [])"

text \<open>
  \<open>forward\<close>. A packet without hops left is dropped, but there is no return: the code goes on
  to schedule the same packet.
\<close>

definition wfrp_forward :: "wfrp \<Rightarrow> wfrp_packet \<Rightarrow> nsaddr \<Rightarrow> time \<Rightarrow> wfrp_act list res" where
  "wfrp_forward w p nexthop delay =
     (let dropped = (if ttl p = 0 then [Drop p DROP_RTR_TTL] else []) in
      if nexthop \<noteq> IP_BROADCAST then
        Inr (dropped @ [Sched (p\<lparr>next_hop := nexthop, prev_hop := w_index w,
               addr_type := NS_AF_INET, direction := DOWN\<rparr>) delay])
      else bindR (assertC (daddr p = IP_BROADCAST)) (\<lambda>_.
        Inr (dropped @ [Sched (p\<lparr>prev_hop := w_index w, addr_type := NS_AF_NONE,
               direction := DOWN\<rparr>) delay])))"

section \<open>Receiving\<close>

definition recv_data :: "wfrp \<Rightarrow> wfrp_packet \<Rightarrow> (wfrp \<times> wfrp_act list) res" where
  "recv_data w p =
     (case rt_lookup (rthead w) (daddr p) of
        None \<Rightarrow> Inr (w, [])
      | Some rt \<Rightarrow>
          if rt_state rt \<noteq> ROUTE_FAILED
          then bindR (wfrp_forward w p (rt_nexthop rt) 0) (\<lambda>as. Inr (w, as))
          else Inr (w, []))"

text \<open>The writes of \<open>recv_beacon\<close> through the pointer \<open>rt\<close>.\<close>

definition rt_refresh :: "time \<Rightarrow> wfrp_packet \<Rightarrow> route_cache \<Rightarrow> route_cache" where
  "rt_refresh now p rt =
     rt\<lparr>rt_seqno := beacon_id (body p), rt_nexthop := saddr p, rt_xpos := beacon_posx (body p),
        rt_ypos := beacon_posy (body p), rt_state := ROUTE_FRESH,
        rt_hopcount := beacon_hops (body p), rt_expire := now + DEFAULT_ROUTE_EXPIRE\<rparr>"

definition rt_write ::
  "route_cache list \<Rightarrow> nsaddr \<Rightarrow> (route_cache \<Rightarrow> route_cache) \<Rightarrow> route_cache list"
where
  "rt_write rs dst f = map_first (\<lambda>r. rt_dst r = dst) f rs"

text \<open>
  \<open>recv_beacon\<close>; \<open>rnd\<close> is the number \<open>Random::uniform()\<close> returns. The last branch, a
  beacon that is neither newer nor shorter, changes nothing and does not free the packet.
\<close>

definition recv_beacon :: "time \<Rightarrow> real \<Rightarrow> wfrp \<Rightarrow> wfrp_packet \<Rightarrow> (wfrp \<times> wfrp_act list) res" where
  "recv_beacon now rnd w p =
     (let b = body p in
      if beacon_src b = w_index w then Inr (w, [Free p])
      else
        (let p' = p\<lparr>saddr := w_index w, body := b\<lparr>beacon_hops := beacon_hops b + 1\<rparr>\<rparr>;
             delay = 1 / 10 + rnd
         in case rt_lookup (rthead w) (beacon_src b) of
              None \<Rightarrow>
                (let w' = w\<lparr>rthead := rt_insert now (beacon_src b) (beacon_id b) (saddr p)
                              (beacon_posx b) (beacon_posy b) (beacon_hops b) (rthead w)\<rparr>
                 in bindR (wfrp_forward w' p' IP_BROADCAST delay) (\<lambda>as. Inr (w', as)))
            | Some rt \<Rightarrow>
                (let w' = w\<lparr>rthead := rt_write (rthead w) (beacon_src b) (rt_refresh now p)\<rparr> in
                 if beacon_id b > rt_seqno rt
                 then bindR (wfrp_forward w' p' IP_BROADCAST delay) (\<lambda>as. Inr (w', as))
                 else if beacon_id b = rt_seqno rt \<and> beacon_hops b < rt_hopcount rt
                 then Inr (w', [])
                 else Inr (w, []))))"

definition recv_error :: "wfrp \<Rightarrow> wfrp_packet \<Rightarrow> (wfrp \<times> wfrp_act list) res" where
  "recv_error w p = Inr (w, [])"

definition recv_wfrp :: "time \<Rightarrow> real \<Rightarrow> wfrp \<Rightarrow> wfrp_packet \<Rightarrow> (wfrp \<times> wfrp_act list) res" where
  "recv_wfrp now rnd w p =
     bindR (assertC (sport p = RT_PORT)) (\<lambda>_.
     bindR (assertC (dport p = RT_PORT)) (\<lambda>_.
       if pkt_type (body p) = WFRP_BEACON then recv_beacon now rnd w p
       else if pkt_type (body p) = WFRP_ERROR then recv_error w p
       else Inl Exited))"

definition wfrp_recv :: "time \<Rightarrow> real \<Rightarrow> wfrp \<Rightarrow> wfrp_packet \<Rightarrow> (wfrp \<times> wfrp_act list) res" where
  "wfrp_recv now rnd w p =
     (if ptype p = PT_WFRP then recv_wfrp now rnd w (p\<lparr>ttl := ttl p - 1\<rparr>)
      else if saddr p = w_index w \<and> num_forwards p = 0 then
        recv_data w (if ptype p \<noteq> PT_TCP \<and> ptype p \<noteq> PT_ACK
                     then p\<lparr>psize := psize p + IP_HDR_LEN\<rparr> else p)
      else if saddr p = w_index w then Inr (w, [Drop p DROP_RTR_ROUTE_LOOP])
      else
        (let p' = p\<lparr>ttl := ttl p - 1\<rparr> in
         if ttl p' = 0 then Inr (w, [Drop p' DROP_RTR_TTL]) else recv_data w p'))"

section \<open>Timers and commands\<close>

text \<open>
  The two timers re-arm themselves. The handlers named in the requests stand for the timer
  objects; a scheduled packet becomes an event for the target.
\<close>

datatype wfrp_handler = RtcTimer | BcnTimer | Target wfrp_packet

definition act_request :: "wfrp_act \<Rightarrow> wfrp_handler request list" where
  "act_request a = (case a of Sched p d \<Rightarrow> [ReqSchedule (Target p) d] | _ \<Rightarrow> [])"

definition rtc_timer_handle :: "time \<Rightarrow> wfrp \<Rightarrow> wfrp \<times> wfrp_handler request list" where
  "rtc_timer_handle now w =
     (w\<lparr>rthead := rt_purge now (rthead w)\<rparr>, [ReqSchedule RtcTimer ROUTE_PURGE_FREQUENCY])"

definition bcn_timer_handle :: "time \<Rightarrow> int \<Rightarrow> wfrp \<Rightarrow> wfrp \<times> wfrp_handler request list" where
  "bcn_timer_handle now u w =
     (case send_beacon now u w of
        (w', as) \<Rightarrow> (w', concat (map act_request as) @ [ReqSchedule BcnTimer DEFAULT_BEACON_INTERVAL]))"

text \<open>The commands of the Tcl interface that reach the protocol.\<close>

datatype wfrp_cmd = CmdStart | CmdSink | CmdIndex nsaddr

definition wfrp_command ::
  "time \<Rightarrow> int \<Rightarrow> wfrp_cmd \<Rightarrow> wfrp \<Rightarrow> wfrp \<times> wfrp_handler request list"
where
  "wfrp_command now u c w =
     (case c of
        CmdStart \<Rightarrow> rtc_timer_handle now w
      | CmdSink \<Rightarrow> bcn_timer_handle now u w
      | CmdIndex i \<Rightarrow> (w\<lparr>w_index := i\<rparr>, []))"

text \<open>
  A node as a client of the scheduler: its two timers, and packets that reach the target and
  leave the model.
\<close>

definition wfrp_handle ::
  "wfrp \<Rightarrow> time \<Rightarrow> wfrp_handler event \<Rightarrow> wfrp \<times> wfrp_handler request list"
where
  "wfrp_handle w now e =
     (case ev_handler e of
        RtcTimer \<Rightarrow> rtc_timer_handle now w
      | BcnTimer \<Rightarrow> bcn_timer_handle now (ev_uid e) w
      | Target p \<Rightarrow> (w, []))"

section \<open>The cache is a table keyed by the sink\<close>

lemma rt_lookup_find: "rt_lookup rs d = find (\<lambda>r. rt_dst r = d) rs"
  by (induction rs) auto

interpretation wc: keyed_table rt_lookup rt_dst rt_link rt_write "key_inv rt_dst" "\<lambda>_. True"
proof (standard, goal_cases)
  case (1 t k e)
  then show ?case by (auto simp: rt_lookup_find dest: find_SomeD)
next
  case (5 t f k k')
  then show ?case
    using find_key_map_first [of "\<lambda>r. rt_dst r = k" rt_dst f k k' t]
    by (auto simp: rt_lookup_find rt_write_def)
qed (auto simp: rt_lookup_find rt_link_def rt_write_def key_inv_Cons key_inv_map_first)

lemma rt_purge_map:
  "rt_purge now rs = map (\<lambda>r. if rt_expire r \<le> now then r\<lparr>rt_state := ROUTE_EXPIRED\<rparr> else r) rs"
  by (induction rs) auto

lemma rt_lookup_purge:
  "rt_lookup (rt_purge now rs) d
   = map_option (\<lambda>r. if rt_expire r \<le> now then r\<lparr>rt_state := ROUTE_EXPIRED\<rparr> else r) (rt_lookup rs d)"
  unfolding rt_lookup_find rt_purge_map by (rule find_map_key) simp

lemma rt_refresh_dst [simp]: "rt_dst (rt_refresh now p r) = rt_dst r"
  by (simp add: rt_refresh_def)

text \<open>The route a beacon brings, and when a node takes it.\<close>

definition beacon_route :: "time \<Rightarrow> wfrp_packet \<Rightarrow> route_cache" where
  "beacon_route now p =
     \<lparr>rt_dst = beacon_src (body p), rt_seqno = beacon_id (body p), rt_nexthop = saddr p,
      rt_xpos = beacon_posx (body p), rt_ypos = beacon_posy (body p), rt_state = ROUTE_FRESH,
      rt_hopcount = beacon_hops (body p), rt_expire = now + DEFAULT_ROUTE_EXPIRE\<rparr>"

definition newer :: "wfrp_packet \<Rightarrow> route_cache option \<Rightarrow> bool" where
  "newer p ro = (case ro of None \<Rightarrow> True | Some r \<Rightarrow> rt_seqno r < beacon_id (body p))"

definition shorter :: "wfrp_packet \<Rightarrow> route_cache option \<Rightarrow> bool" where
  "shorter p ro = (case ro of None \<Rightarrow> False | Some r \<Rightarrow> beacon_id (body p) = rt_seqno r \<and> beacon_hops (body p) < rt_hopcount r)"

lemma rt_refresh_beacon_route:
  "rt_dst r = beacon_src (body p) \<Longrightarrow> rt_refresh now p r = beacon_route now p"
  by (simp add: rt_refresh_def beacon_route_def)

text \<open>Both writes of \<open>recv_beacon\<close> store the route the beacon brings, and nothing else.\<close>

lemma rt_lookup_insert:
  "key_inv rt_dst rs \<Longrightarrow> rt_lookup rs (beacon_src (body p)) = None
   \<Longrightarrow> rt_lookup (rt_insert now (beacon_src (body p)) (beacon_id (body p)) (saddr p)
         (beacon_posx (body p)) (beacon_posy (body p)) (beacon_hops (body p)) rs) d
     = (if d = beacon_src (body p) then Some (beacon_route now p) else rt_lookup rs d)"
  using wc.look_add [of rs "beacon_route now p" d]
  by (simp add: rt_insert_def beacon_route_def)

lemma rt_lookup_refresh:
  assumes "key_inv rt_dst rs" and "rt_lookup rs (beacon_src (body p)) = Some r"
  shows "rt_lookup (rt_write rs (beacon_src (body p)) (rt_refresh now p)) d
     = (if d = beacon_src (body p) then Some (beacon_route now p) else rt_lookup rs d)"
  using wc.look_upd [OF assms(1), of "rt_refresh now p" "beacon_src (body p)" d]
    wc.look_key [OF assms(2)] assms(2)
  by (auto simp: rt_refresh_beacon_route)

section \<open>A node in good order\<close>

text \<open>
  One route per sink, none to the node itself, none over the broadcast address, none marked
  failed.
\<close>

definition wfrp_inv :: "wfrp \<Rightarrow> bool" where
  "wfrp_inv w \<longleftrightarrow> key_inv rt_dst (rthead w) \<and> rt_lookup (rthead w) (w_index w) = None
     \<and> (\<forall>d r. rt_lookup (rthead w) d = Some r
          \<longrightarrow> rt_nexthop r \<noteq> IP_BROADCAST \<and> rt_state r \<in> {ROUTE_FRESH, ROUTE_EXPIRED})"

text \<open>A protocol packet as \<open>send_beacon\<close> and \<open>forward\<close> make it.\<close>

definition wfrp_pkt_ok :: "wfrp_packet \<Rightarrow> bool" where
  "wfrp_pkt_ok p \<longleftrightarrow> (ptype p = PT_WFRP \<longrightarrow> sport p = RT_PORT \<and> dport p = RT_PORT
     \<and> pkt_type (body p) \<in> {WFRP_BEACON, WFRP_ERROR}
     \<and> saddr p \<noteq> IP_BROADCAST \<and> daddr p = IP_BROADCAST)"

definition scheduled :: "wfrp_act list \<Rightarrow> wfrp_packet list" where
  "scheduled as = concat (map (\<lambda>a. case a of Sched p d \<Rightarrow> [p] | _ \<Rightarrow> []) as)"

lemma scheduled_simps [simp]:
  "scheduled [] = []" "scheduled (Sched p d # as) = p # scheduled as"
  "scheduled (Drop p r # as) = scheduled as" "scheduled (Free p # as) = scheduled as"
  "scheduled (Deliver p # as) = scheduled as"
  "scheduled (as @ bs) = scheduled as @ scheduled bs"
  by (simp_all add: scheduled_def)

lemma route_consts [simp]:
  "ROUTE_FRESH \<noteq> ROUTE_FAILED" "ROUTE_EXPIRED \<noteq> ROUTE_FAILED"
  "ROUTE_FAILED \<noteq> ROUTE_FRESH" "ROUTE_FAILED \<noteq> ROUTE_EXPIRED" "WFRP_BEACON \<noteq> WFRP_ERROR" "WFRP_ERROR \<noteq> WFRP_BEACON"
  by (simp_all add: ROUTE_FRESH_def ROUTE_EXPIRED_def ROUTE_FAILED_def WFRP_BEACON_def WFRP_ERROR_def)

end
