(* ===== verification/WfrpProps.thy ===== *)
theory WfrpProps
  imports WfrpAgent
begin

text \<open>
  What one node of the sink-rooted protocol does: the full effect of a beacon, the invariant
  that every operation keeps, and the fate of data packets.
\<close>

section \<open>The effect of a beacon\<close>

text \<open>The beacon a node passes on.\<close>

definition relayed :: "wfrp \<Rightarrow> wfrp_packet \<Rightarrow> wfrp_packet" where
  "relayed w p =
     p\<lparr>saddr := w_index w, body := (body p)\<lparr>beacon_hops := beacon_hops (body p) + 1\<rparr>,
       prev_hop := w_index w, addr_type := NS_AF_NONE, direction := DOWN\<rparr>"

lemma forward_broadcast:
  "daddr p = IP_BROADCAST \<Longrightarrow> wfrp_forward w p IP_BROADCAST delay
   = Inr ((if ttl p = 0 then [Drop p DROP_RTR_TTL] else [])
       @ [Sched (p\<lparr>prev_hop := w_index w, addr_type := NS_AF_NONE, direction := DOWN\<rparr>) delay])"
  by (simp add: wfrp_forward_def Let_def)

lemma forward_unicast:
  "nexthop \<noteq> IP_BROADCAST \<Longrightarrow> wfrp_forward w p nexthop delay
   = Inr ((if ttl p = 0 then [Drop p DROP_RTR_TTL] else [])
       @ [Sched (p\<lparr>next_hop := nexthop, prev_hop := w_index w, addr_type := NS_AF_INET,
            direction := DOWN\<rparr>) delay])"
  by (simp add: wfrp_forward_def Let_def)

lemma key_inv_insert:
  "key_inv rt_dst rs \<Longrightarrow> rt_lookup rs src = None
   \<Longrightarrow> key_inv rt_dst (rt_insert now src bid nh x y h rs)"
  by (simp add: rt_insert_def wc.add_inv)

lemma key_inv_refresh: "key_inv rt_dst rs \<Longrightarrow> key_inv rt_dst (rt_write rs d (rt_refresh now p))"
  by (simp add: wc.upd_inv)

lemma recv_beacon_effect:
  assumes inv: "key_inv rt_dst (rthead w)" and bc: "daddr p = IP_BROADCAST"
    and src: "beacon_src (body p) \<noteq> w_index w"
    and ro: "ro = rt_lookup (rthead w) (beacon_src (body p))"
  shows "\<exists>w' as. recv_beacon now rnd w p = Inr (w', as)
    \<and> w' = w\<lparr>rthead := rthead w'\<rparr> \<and> key_inv rt_dst (rthead w')
    \<and> (\<forall>d. rt_lookup (rthead w') d
          = (if d = beacon_src (body p) \<and> (newer p ro \<or> shorter p ro)
             then Some (beacon_route now p) else rt_lookup (rthead w) d))
    \<and> scheduled as = (if newer p ro then [relayed w p] else [])"
proof (cases "rt_lookup (rthead w) (beacon_src (body p))")
  case None
  with src show ?thesis
    by (simp add: recv_beacon_def Let_def forward_broadcast bc relayed_def ro newer_def
        rt_lookup_insert [OF inv None] key_inv_insert [OF inv None])
next
  case (Some r)
  show ?thesis
  proof (cases "newer p ro \<or> shorter p ro")
    case True
    with src Some show ?thesis
      by (auto simp: recv_beacon_def Let_def forward_broadcast bc relayed_def ro newer_def
          shorter_def rt_lookup_refresh [OF inv Some] key_inv_refresh [OF inv])
  next
    case False
    with src Some inv show ?thesis
      by (auto simp: recv_beacon_def Let_def ro newer_def shorter_def)
  qed
qed

lemma recv_own_beacon:
  "beacon_src (body p) = w_index w \<Longrightarrow> recv_beacon now rnd w p = Inr (w, [Free p])"
  by (simp add: recv_beacon_def Let_def)

section \<open>The invariant\<close>

lemma wfrp_new_simps [simp]: "w_index (wfrp_new i) = i" "rthead (wfrp_new i) = []"
  by (simp_all add: wfrp_new_def)

lemma wfrp_inv_new [simp]: "wfrp_inv (wfrp_new i)"
  by (simp add: wfrp_inv_def wfrp_new_def key_inv_def)

lemma recv_beacon_inv:
  assumes "wfrp_inv w" and "daddr p = IP_BROADCAST" and "saddr p \<noteq> IP_BROADCAST"
  shows "succeeds (\<lambda>(w', as). wfrp_inv w' \<and> w_index w' = w_index w \<and> set (scheduled as) \<subseteq> {relayed w p})
           (recv_beacon now rnd w p)"
proof (cases "beacon_src (body p) = w_index w")
  case True
  with assms show ?thesis by (simp add: recv_own_beacon)
next
  case False
  from assms(1) have inv: "key_inv rt_dst (rthead w)" by (simp add: wfrp_inv_def)
  from recv_beacon_effect [OF inv assms(2) False refl, of now rnd] obtain w' as
    where r: "recv_beacon now rnd w p = Inr (w', as)" "w' = w\<lparr>rthead := rthead w'\<rparr>"
      "key_inv rt_dst (rthead w')"
      and look: "\<And>d. rt_lookup (rthead w') d
          = (if d = beacon_src (body p)
                \<and> (newer p (rt_lookup (rthead w) (beacon_src (body p)))
                   \<or> shorter p (rt_lookup (rthead w) (beacon_src (body p))))
             then Some (beacon_route now p) else rt_lookup (rthead w) d)"
      and sch: "scheduled as
          = (if newer p (rt_lookup (rthead w) (beacon_src (body p))) then [relayed w p] else [])"
    by blast
  have idx: "w_index w' = w_index w" using r(2) by (metis wfrp.select_convs(1) wfrp.surjective wfrp.update_convs(5))
  have "wfrp_inv w'"
    unfolding wfrp_inv_def idx look
    using r(3) assms False by (auto simp: wfrp_inv_def beacon_route_def)
  with r(1) idx sch show ?thesis by auto
qed

lemma recv_data_ok:
  assumes "wfrp_inv w"
  shows "succeeds (\<lambda>(w', as). w' = w
    \<and> (\<forall>q \<in> set (scheduled as). \<exists>r. rt_lookup (rthead w) (daddr p) = Some r \<and> next_hop q = rt_nexthop r
         \<and> ptype q = ptype p \<and> daddr q = daddr p)) (recv_data w p)"
proof (cases "rt_lookup (rthead w) (daddr p)")
  case None
  then show ?thesis by (simp add: recv_data_def)
next
  case (Some r)
  with assms have "rt_nexthop r \<noteq> IP_BROADCAST" by (auto simp: wfrp_inv_def)
  with Some show ?thesis by (simp add: recv_data_def forward_unicast)
qed

lemma wfrp_pkt_ok_relayed:
  "wfrp_pkt_ok p \<Longrightarrow> w_index w \<noteq> IP_BROADCAST \<Longrightarrow> wfrp_pkt_ok (relayed w p)"
  by (simp add: wfrp_pkt_ok_def relayed_def)

lemma wfrp_recv_keeps:
  assumes inv: "wfrp_inv w" and "w_index w \<noteq> IP_BROADCAST" and ok: "wfrp_pkt_ok p"
  shows "succeeds (\<lambda>(w', as). wfrp_inv w' \<and> w_index w' = w_index w \<and> list_all wfrp_pkt_ok (scheduled as))
           (wfrp_recv now rnd w p)"
proof (cases "ptype p = PT_WFRP")
  case True
  let ?p = "p\<lparr>ttl := ttl p - 1\<rparr>"
  from True ok have "daddr ?p = IP_BROADCAST" "saddr ?p \<noteq> IP_BROADCAST" and "wfrp_pkt_ok ?p"
    by (auto simp: wfrp_pkt_ok_def)
  note keeps = recv_beacon_inv [OF inv this(1,2), of now rnd]
  have "succeeds (\<lambda>(w', as). wfrp_inv w' \<and> w_index w' = w_index w
      \<and> list_all wfrp_pkt_ok (scheduled as)) (recv_beacon now rnd w ?p)"
    by (rule succeeds_mono [OF keeps])
       (use wfrp_pkt_ok_relayed [OF \<open>wfrp_pkt_ok ?p\<close> assms(2)] in \<open>auto simp: list_all_iff\<close>)
  with True ok inv show ?thesis
    by (auto simp: wfrp_recv_def recv_wfrp_def recv_error_def wfrp_pkt_ok_def)
next
  case False
  have data: "succeeds (\<lambda>(w', as). wfrp_inv w' \<and> w_index w' = w_index w
      \<and> list_all wfrp_pkt_ok (scheduled as)) (recv_data w q)" if "ptype q \<noteq> PT_WFRP" for q
    by (rule succeeds_mono [OF recv_data_ok [OF inv]])
       (use inv that in \<open>auto simp: list_all_iff wfrp_pkt_ok_def\<close>)
  from False inv show ?thesis by (auto simp: wfrp_recv_def Let_def intro!: data)
qed

section \<open>Routes only improve\<close>

text \<open>A route is at least as good as another: a newer beacon, or the same over no more hops.\<close>

definition at_least_as_good :: "route_cache \<Rightarrow> route_cache \<Rightarrow> bool" where
  "at_least_as_good r s \<longleftrightarrow>
     rt_seqno s < rt_seqno r \<or> (rt_seqno r = rt_seqno s \<and> rt_hopcount r \<le> rt_hopcount s)"

lemma at_least_as_good_refl [simp]: "at_least_as_good r r"
  by (simp add: at_least_as_good_def)

definition routes_improve :: "wfrp \<Rightarrow> wfrp \<Rightarrow> bool" where
  "routes_improve w w' \<longleftrightarrow>
     (\<forall>d r. rt_lookup (rthead w) d = Some r
        \<longrightarrow> (\<exists>r'. rt_lookup (rthead w') d = Some r' \<and> at_least_as_good r' r))"

lemma routes_improve_refl [simp]: "routes_improve w w"
  by (simp add: routes_improve_def)

lemma recv_beacon_improves:
  assumes "key_inv rt_dst (rthead w)" and "daddr p = IP_BROADCAST"
    and "recv_beacon now rnd w p = Inr (w', as)"
  shows "routes_improve w w'"
proof (cases "beacon_src (body p) = w_index w")
  case True
  with assms(3) show ?thesis by (simp add: recv_own_beacon)
next
  case False
  from recv_beacon_effect [OF assms(1,2) False refl, of now rnd] assms(3)
  show ?thesis
    by (auto simp: routes_improve_def at_least_as_good_def beacon_route_def newer_def shorter_def
        split: if_splits)
qed

lemma recv_data_same: "recv_data w p = Inr (w', as) \<Longrightarrow> w' = w"
  by (auto simp: recv_data_def bindR_eq_Inr split: option.splits if_splits)

lemma wfrp_recv_cases:
  assumes "wfrp_recv now rnd w p = Inr (w', as)"
  shows "(ptype p = PT_WFRP \<and> pkt_type (body p) = WFRP_BEACON
        \<and> recv_beacon now rnd w (p\<lparr>ttl := ttl p - 1\<rparr>) = Inr (w', as))
    \<or> (ptype p = PT_WFRP \<and> w' = w \<and> as = [])
    \<or> (ptype p \<noteq> PT_WFRP \<and> w' = w)"
  using assms
  by (auto simp: wfrp_recv_def recv_wfrp_def recv_error_def bindR_eq_Inr Let_def
      dest: recv_data_same split: if_splits)

section \<open>Properties\<close>

text \<open>A node in good order that receives a well-formed packet never fails an assertion or exits,
  stays in good order, keeps its address, and every packet it schedules is well-formed again.\<close>

theorem wfrp_recv_safe:
  assumes "wfrp_inv w" and "w_index w \<noteq> IP_BROADCAST" and "wfrp_pkt_ok p"
  shows "succeeds (\<lambda>(w', as). wfrp_inv w' \<and> w_index w' = w_index w \<and> list_all wfrp_pkt_ok (scheduled as))
           (wfrp_recv now rnd w p)"
  by (rule wfrp_recv_keeps [OF assms])

text \<open>A beacon of sink 1, as node 2 hears it.\<close>

definition demo_beacon :: wfrp_packet where
  "demo_beacon = hd (scheduled (snd (send_beacon 5 1 (wfrp_new 1))))"

lemma demo_beacon_simps [simp]:
  "ptype demo_beacon = PT_WFRP" "sport demo_beacon = RT_PORT" "dport demo_beacon = RT_PORT"
  "saddr demo_beacon = 1" "daddr demo_beacon = IP_BROADCAST" "ttl demo_beacon = 64"
  "pkt_type (body demo_beacon) = WFRP_BEACON" "beacon_src (body demo_beacon) = 1"
  "beacon_hops (body demo_beacon) = 1" "beacon_id (body demo_beacon) = 1"
  by (simp_all add: demo_beacon_def send_beacon_def Let_def update_position_def wfrp_new_def
      packet_alloc_def NETWORK_DIAMETER_def)

lemma wfrp_recv_safe_witness:
  "succeeds (\<lambda>(w', as). wfrp_inv w' \<and> w_index w' = 2 \<and> list_all wfrp_pkt_ok (scheduled as))
     (wfrp_recv 6 (1 / 2) (wfrp_new 2) demo_beacon)"
  using wfrp_recv_safe [of "wfrp_new 2" demo_beacon 6 "1 / 2"]
  by (simp add: wfrp_pkt_ok_def IP_BROADCAST_def)

text \<open>What a beacon does, completely: a beacon that is newer than the route held for its sink (or
  brings the first one), or equally new over fewer hops, replaces that route by the one it came
  over; no other route changes; and exactly the newer beacons are relayed, with the node's own
  address as the sender and one more hop.\<close>

theorem wfrp_beacon_effect:
  assumes "wfrp_inv w" and "ptype p = PT_WFRP" and "wfrp_pkt_ok p" and "pkt_type (body p) = WFRP_BEACON"
    and "beacon_src (body p) \<noteq> w_index w"
  shows "\<exists>w' as. wfrp_recv now rnd w p = Inr (w', as)
    \<and> (\<forall>d. rt_lookup (rthead w') d =
          (let ro = rt_lookup (rthead w) (beacon_src (body p)) in
           if d = beacon_src (body p) \<and> (newer p ro \<or> shorter p ro)
           then Some (beacon_route now p) else rt_lookup (rthead w) d))
    \<and> scheduled as = (if newer p (rt_lookup (rthead w) (beacon_src (body p)))
          then [relayed w (p\<lparr>ttl := ttl p - 1\<rparr>)] else [])"
proof -
  have same: "newer (p\<lparr>ttl := ttl p - 1\<rparr>) ro = newer p ro" "shorter (p\<lparr>ttl := ttl p - 1\<rparr>) ro = shorter p ro"
    "beacon_route now (p\<lparr>ttl := ttl p - 1\<rparr>) = beacon_route now p" for ro
    by (auto simp: newer_def shorter_def beacon_route_def split: option.splits)
  from assms have "key_inv rt_dst (rthead w)" "daddr (p\<lparr>ttl := ttl p - 1\<rparr>) = IP_BROADCAST"
    "beacon_src (body (p\<lparr>ttl := ttl p - 1\<rparr>)) \<noteq> w_index w"
    by (auto simp: wfrp_inv_def wfrp_pkt_ok_def)
  from recv_beacon_effect [OF this refl, of now rnd] assms show ?thesis
    by (auto simp: wfrp_recv_def recv_wfrp_def wfrp_pkt_ok_def Let_def same)
qed

lemma wfrp_beacon_effect_witness:
  "\<exists>w' as. wfrp_recv 6 (1 / 2) (wfrp_new 2) demo_beacon = Inr (w', as)
     \<and> map_option rt_nexthop (rt_lookup (rthead w') 1) = Some 1
     \<and> map (beacon_hops \<circ> body) (scheduled as) = [2]"
  using wfrp_beacon_effect [of "wfrp_new 2" demo_beacon 6 "1 / 2"]
  by (auto simp: wfrp_pkt_ok_def newer_def relayed_def beacon_route_def IP_BROADCAST_def)

text \<open>A data packet from another node that still has hops left goes, unchanged but for the hop
  fields and the ttl, to the next hop of the route to its destination, also over a route that has
  expired, and nowhere when there is no route; the node's state does not change.\<close>

theorem wfrp_data_forwarded:
  assumes "wfrp_inv w" and "ptype p \<noteq> PT_WFRP" and "saddr p \<noteq> w_index w" and "ttl p \<noteq> 1"
  shows "wfrp_recv now rnd w p = Inr (w,
    case rt_lookup (rthead w) (daddr p) of
      None \<Rightarrow> []
    | Some r \<Rightarrow> [Sched (p\<lparr>ttl := ttl p - 1, next_hop := rt_nexthop r, prev_hop := w_index w,
                   addr_type := NS_AF_INET, direction := DOWN\<rparr>) 0])"
proof (cases "rt_lookup (rthead w) (daddr p)")
  case None
  with assms show ?thesis by (simp add: wfrp_recv_def Let_def recv_data_def)
next
  case (Some r)
  with assms(1) have "rt_nexthop r \<noteq> IP_BROADCAST" "rt_state r \<in> {ROUTE_FRESH, ROUTE_EXPIRED}"
    by (auto simp: wfrp_inv_def)
  moreover from this(2) have "rt_state r \<noteq> ROUTE_FAILED" by (auto simp: route_consts)
  ultimately show ?thesis
    using Some assms by (simp add: wfrp_recv_def Let_def recv_data_def forward_unicast)
qed

definition demo_node :: wfrp where
  "demo_node = (wfrp_new 2)\<lparr>rthead := rt_insert 0 1 1 7 0 0 3 []\<rparr>"

lemma wfrp_data_forwarded_witness:
  "\<exists>q. wfrp_recv 6 0 demo_node ((packet_alloc 9 beacon_zero)\<lparr>saddr := 4, daddr := 1, ttl := 9\<rparr>)
     = Inr (demo_node, [Sched q 0]) \<and> next_hop q = 7 \<and> ttl q = 8"
proof -
  have "wfrp_inv demo_node"
    by (auto simp: wfrp_inv_def demo_node_def wfrp_new_def rt_insert_def rt_link_def key_inv_def
        IP_BROADCAST_def split: if_splits)
  from wfrp_data_forwarded [OF this,
      of "(packet_alloc 9 beacon_zero)\<lparr>saddr := 4, daddr := 1, ttl := 9\<rparr>" 6 0]
  show ?thesis
    by (simp add: packet_alloc_def demo_node_def wfrp_new_def rt_insert_def rt_link_def)
qed

text \<open>A beacon that arrives with its last hop and brings a new route is handled twice: the packet is
  dropped for its ttl and then scheduled all the same.\<close>

theorem wfrp_ttl_handled_twice:
  assumes "ptype p = PT_WFRP" and "wfrp_pkt_ok p" and "pkt_type (body p) = WFRP_BEACON" and "ttl p = 1"
    and "beacon_src (body p) \<noteq> w_index w" and "rt_lookup (rthead w) (beacon_src (body p)) = None"
  shows "\<exists>w' as. wfrp_recv now rnd w p = Inr (w', as) \<and> handled (uid p) as = 2"
  using assms
  by (auto simp: wfrp_recv_def recv_wfrp_def wfrp_pkt_ok_def recv_beacon_def forward_broadcast Let_def)

lemma wfrp_ttl_handled_twice_witness:
  "\<exists>w' as. wfrp_recv 6 0 (wfrp_new 2) (demo_beacon\<lparr>ttl := 1\<rparr>) = Inr (w', as)
     \<and> handled (uid demo_beacon) as = 2"
  using wfrp_ttl_handled_twice [of "demo_beacon\<lparr>ttl := 1\<rparr>" "wfrp_new 2" 6 0]
  by (simp add: wfrp_pkt_ok_def IP_BROADCAST_def)

end
