(* ===== verification/WfrpNode.thy ===== *)
theory WfrpNode
  imports SchedRuns WfrpProps
begin

text \<open>
  A WFRP node on a scheduler: its two timers re-arm themselves, so a run does not end and its first
  turns are looked at, with the events dispatched in them and those that wait.
\<close>

section \<open>The first turns of a run\<close>

text \<open>The state of \<open>Scheduler::run\<close> after \<open>n\<close> turns of its loop, or where the loop ends before.\<close>

fun turns ::
  "('q \<Rightarrow> 'h event \<Rightarrow> 'q res) \<Rightarrow> ('q \<Rightarrow> 'h event \<Rightarrow> ('q \<times> 'h event) res) \<Rightarrow> ('q \<Rightarrow> int \<Rightarrow> 'h event option)
   \<Rightarrow> ('q \<Rightarrow> ('h event \<times> 'q) option res) \<Rightarrow> ('c \<Rightarrow> time \<Rightarrow> 'h event \<Rightarrow> 'c \<times> 'h request list)
   \<Rightarrow> nat \<Rightarrow> 'h event list \<Rightarrow> 'c \<Rightarrow> ('h, 'q) sched \<Rightarrow> ('h event list \<times> 'c \<times> ('h, 'q) sched) res"
where
  "turns ins can look deq handle n tr c s =
     (case n of
        0 \<Rightarrow> Inr (tr, c, s)
      | Suc m \<Rightarrow>
          if halted s then Inr (tr, c, s)
          else bindR (deq (queue s)) (\<lambda>r.
            case r of
              None \<Rightarrow> Inr (tr, c, s)
            | Some (p, q') \<Rightarrow>
                bindR (dispatch ins can look handle c (s\<lparr>queue := q'\<rparr>) p (ev_time p)) (\<lambda>(c', s').
                  turns ins can look deq handle m (p # tr) c' s')))"

declare turns.simps [simp del]

text \<open>A run that ends within \<open>n\<close> events has done so after \<open>n\<close> turns.\<close>

lemma run_turns:
  "run ins can look deq handle n tr c s = Some (Inr x) \<Longrightarrow> turns ins can look deq handle n tr c s = Inr x"
proof (induction n arbitrary: tr c s)
  case 0
  then show ?case by (subst turns.simps, subst (asm) run.simps) (auto split: if_splits sum.splits option.splits)
next
  case (Suc n)
  then show ?case
    by (subst turns.simps, subst (asm) run.simps) (auto split: if_splits sum.splits option.splits)
qed

text \<open>The events a handler asks for, numbered from the next uid.\<close>

fun new_events :: "time \<Rightarrow> int \<Rightarrow> ('h \<times> time) list \<Rightarrow> 'h event list" where
  "new_events t u [] = []"
| "new_events t u ((h, d) # hs) = \<lparr>ev_time = t + d, ev_uid = u, ev_handler = h\<rparr> # new_events t (u + 1) hs"

context event_queue
begin

lemma serve_schedules:
  "ok (length hs + n) s \<Longrightarrow> \<forall>(h, d) \<in> set hs. 0 \<le> d
   \<Longrightarrow> \<exists>s'. serve_all ins can look (arrival_requests hs) s = Inr s' \<and> ok n s' \<and> clock s' = clock s \<and> halted s' = halted s
     \<and> absq (queue s') = fold ins_time (new_events (clock s) (next_uid s) hs) (absq (queue s))"
proof (induction hs arbitrary: s)
  case (Cons hd hs)
  obtain h d where hd: "hd = (h, d)" by (cases hd)
  let ?e = "\<lparr>ev_time = 0, ev_uid = 0, ev_handler = h\<rparr>"
  from Cons.prems have "ok (Suc (length hs + n)) s" "0 \<le> d" by (auto simp: hd)
  from schedule_ok [OF this(1), of ?e d h] this(2) obtain s1
    where s1: "schedule ins s (Some h) ?e d = Inr s1" "ok (length hs + n) s1" "clock s1 = clock s"
      "halted s1 = halted s" "next_uid s1 = next_uid s + 1"
      "absq (queue s1) = ins_time \<lparr>ev_time = clock s + d, ev_uid = next_uid s, ev_handler = h\<rparr> (absq (queue s))"
    by auto
  from Cons.IH [OF s1(2)] Cons.prems(2) s1 show ?case by (auto simp: arrival_requests_def serve_def hd)
qed (simp add: arrival_requests_def)

lemma turn:
  assumes "ok (length hs + n) s" and "\<not> halted s" and "absq (queue s) = p # es"
    and h: "handle c (ev_time p) (p\<lparr>ev_uid := - ev_uid p\<rparr>) = (c', arrival_requests hs)" "\<forall>(h, d) \<in> set hs. 0 \<le> d"
  obtains s' where "turns ins can look deq handle (Suc m) tr c s = turns ins can look deq handle m (p # tr) c' s'"
    "ok n s'" "\<not> halted s'" "clock s' = ev_time p" "clock s \<le> ev_time p"
    "absq (queue s') = fold ins_time (new_events (ev_time p) (next_uid s) hs) es"
proof -
  from deq_cases [OF ok_invq [OF assms(1)]] assms(3) obtain q' where d: "deq (queue s) = Inr (Some (p, q'))" "absq q' = es"
    by (metis list.distinct(1) list.inject)
  let ?s = "s\<lparr>queue := q', clock := ev_time p\<rparr>"
  from deq_ok [OF assms(1) d(1)] have o: "clock s \<le> ev_time p" "ok (length hs + n) ?s" by auto
  from serve_schedules [OF o(2) h(2)] obtain s' where s': "serve_all ins can look (arrival_requests hs) ?s = Inr s'" "ok n s'"
    "clock s' = ev_time p" "halted s' = halted s" "absq (queue s') = fold ins_time (new_events (ev_time p) (next_uid s) hs) es"
    using d(2) by auto
  have "dispatch ins can look handle c (s\<lparr>queue := q'\<rparr>) p (ev_time p) = Inr (c', s')"
    using o(1) h(1) s'(1) by (simp add: dispatch_def Let_def)
  then have "turns ins can look deq handle (Suc m) tr c s = turns ins can look deq handle m (p # tr) c' s'"
    using assms(2) d(1) by (subst turns.simps) simp
  with that s' o(1) assms(2) show thesis by blast
qed

end

section \<open>The timers\<close>

text \<open>The times of a timer in a list of events, and the beacons, with their times and numbers.\<close>

definition ticks :: "wfrp_handler \<Rightarrow> wfrp_handler event list \<Rightarrow> time list" where
  "ticks h es = map ev_time (filter (\<lambda>e. ev_handler e = h) es)"

definition beacons :: "wfrp_handler event list \<Rightarrow> (time \<times> u32) list" where
  "beacons es = List.map_filter (\<lambda>e. case ev_handler e of Target p \<Rightarrow> Some (ev_time e, beacon_id (body p)) | _ \<Rightarrow> None) es"

lemma ticks_simps [simp]:
  "ticks h [] = []" "ticks h (e # es) = (if ev_handler e = h then ev_time e # ticks h es else ticks h es)"
  "ticks h (xs @ ys) = ticks h xs @ ticks h ys"
  by (simp_all add: ticks_def)

lemma beacons_simps [simp]:
  "beacons [] = []"
  "beacons (e # es) = (case ev_handler e of Target p \<Rightarrow> (ev_time e, beacon_id (body p)) # beacons es | _ \<Rightarrow> beacons es)"
  by (simp_all add: beacons_def List.map_filter_simps split: wfrp_handler.splits)

lemma beacons_append [simp]: "beacons (xs @ ys) = beacons xs @ beacons ys"
  by (induction xs) (auto split: wfrp_handler.splits)

lemma ticks_ins: "ev_handler e \<noteq> h \<Longrightarrow> ticks h (ins_time e es) = ticks h es"
  by (induction es) auto

lemma ticks_ins_first: "ev_handler e = h \<Longrightarrow> ticks h es = [] \<Longrightarrow> ticks h (ins_time e es) = [ev_time e]"
  by (induction es) (auto split: if_splits)

lemma beacons_ins: "(\<And>p. ev_handler e \<noteq> Target p) \<Longrightarrow> beacons (ins_time e es) = beacons es"
proof (induction es)
  case Nil
  then show ?case by (auto split: wfrp_handler.splits)
next
  case (Cons x es)
  then show ?case by (cases "ev_handler e") (auto split: wfrp_handler.splits)
qed

lemma beacons_late: "\<forall>x \<in> set es. t < ev_time x \<Longrightarrow> \<forall>b \<in> set (beacons es). fst b \<le> t \<Longrightarrow> beacons es = []"
  by (induction es) (auto split: wfrp_handler.splits)

lemma beacons_ins_last:
  assumes "ev_handler e = Target p"
  shows "ev_sorted es \<Longrightarrow> \<forall>b \<in> set (beacons es). fst b \<le> ev_time e
   \<Longrightarrow> beacons (ins_time e es) = beacons es @ [(ev_time e, beacon_id (body p))]"
proof (induction es)
  case (Cons x es)
  show ?case
  proof (cases "ev_time e < ev_time x")
    case True
    then have "\<forall>y \<in> set (x # es). ev_time e < ev_time y" using Cons.prems(1) by (auto simp: ev_before_def)
    from beacons_late [OF this Cons.prems(2)] True assms show ?thesis by simp
  next
    case False
    with Cons show ?thesis by (auto split: wfrp_handler.splits)
  qed
qed (simp add: assms)

text \<open>
  The node after \<open>k\<close> purges, the first at time \<open>a\<close>, and \<open>l\<close> beacons, the first at time \<open>b\<close> with number
  \<open>q\<close>, that began with the routes \<open>rs\<close>; \<open>tr\<close> has the events dispatched, \<open>es\<close> those that wait.
\<close>

definition purged :: "time list \<Rightarrow> route_cache list \<Rightarrow> route_cache list" where
  "purged ts = map (\<lambda>r. if \<exists>t \<in> set ts. rt_expire r \<le> t then r\<lparr>rt_state := ROUTE_EXPIRED\<rparr> else r)"

lemma purged_simps: "purged [] rs = rs" "rt_purge t (purged ts rs) = purged (t # ts) rs"
  by (auto simp: purged_def rt_purge_map)

definition sink_at :: "time \<Rightarrow> time \<Rightarrow> u32 \<Rightarrow> nsaddr \<Rightarrow> route_cache list \<Rightarrow> nat \<Rightarrow> nat \<Rightarrow> wfrp_handler event list \<Rightarrow> wfrp \<Rightarrow> wfrp_handler event list \<Rightarrow> bool" where
  "sink_at a b q i rs k l tr w es \<longleftrightarrow>
     wfrp_inv w \<and> w_index w = i \<and> rthead w = purged (ticks RtcTimer tr) rs \<and> w_seqno w = q + of_nat l
     \<and> ticks RtcTimer (rev tr) = map (\<lambda>j. a + 2 * real j) [0..<k] \<and> ticks RtcTimer es = [a + 2 * real k]
     \<and> ticks BcnTimer (rev tr) = map (\<lambda>j. b + 10 * real j) [0..<l] \<and> ticks BcnTimer es = [b + 10 * real l]
     \<and> beacons (rev tr) @ beacons es = map (\<lambda>j. (b + 10 * real j, q + of_nat j)) [0..<l]"

lemma purge_inv:
  assumes "wfrp_inv w"
  shows "wfrp_inv (w\<lparr>rthead := rt_purge now (rthead w)\<rparr>)"
proof -
  have "key_inv rt_dst (rt_purge now (rthead w))"
    using assms by (simp add: wfrp_inv_def rt_purge_map key_inv_map)
  moreover have "(if b then r\<lparr>rt_state := ROUTE_EXPIRED\<rparr> else r) = r' \<Longrightarrow> rt_nexthop r' = rt_nexthop r
      \<and> (rt_state r' = rt_state r \<or> rt_state r' = ROUTE_EXPIRED)" for b and r r' :: route_cache by auto
  ultimately show ?thesis using assms by (fastforce simp: wfrp_inv_def rt_lookup_purge)
qed

text \<open>What the handlers ask for.\<close>

definition beacon_sent :: "time \<Rightarrow> int \<Rightarrow> wfrp \<Rightarrow> wfrp_packet" where
  "beacon_sent now u w = (case snd (send_beacon now u w) of Sched p d # _ \<Rightarrow> p | _ \<Rightarrow> undefined)"

lemma wfrp_handle_requests:
  "ev_handler e = RtcTimer \<Longrightarrow> wfrp_handle w t e = (w\<lparr>rthead := rt_purge t (rthead w)\<rparr>, arrival_requests [(RtcTimer, 2)])"
  "ev_handler e = BcnTimer \<Longrightarrow> wfrp_handle w t e
     = (w\<lparr>w_seqno := w_seqno w + 1\<rparr>, arrival_requests [(Target (beacon_sent t (ev_uid e) w), 0), (BcnTimer, 10)])"
  "ev_handler e = Target p \<Longrightarrow> wfrp_handle w t e = (w, arrival_requests [])"
  "beacon_id (body (beacon_sent t u w)) = w_seqno w"
  by (simp_all add: wfrp_handle_def rtc_timer_handle_def bcn_timer_handle_def send_beacon_def update_position_def act_request_def beacon_sent_def
      arrival_requests_def ROUTE_PURGE_FREQUENCY_def DEFAULT_BEACON_INTERVAL_def Let_def)

abbreviation heap_turns where
  "heap_turns \<equiv> turns (sure_ins hs_insert) hs_cancel hs_lookup (sure_deq hs_deque)"

text \<open>A node with its two timers armed and nothing else in the queue.\<close>

lemma sink_at_start:
  assumes "wfrp_inv w" and "mset (map (\<lambda>e. (ev_handler e, ev_time e)) es) = {#(RtcTimer, a), (BcnTimer, b)#}"
  shows "sink_at a b (w_seqno w) (w_index w) (rthead w) 0 0 [] w es"
proof -
  have "length es = 2" using arg_cong [OF assms(2), of size] by simp
  then obtain e f where es: "es = [e, f]" by (auto simp: numeral_2_eq_2 length_Suc_conv)
  with assms(2) have "ev_handler e = RtcTimer \<and> ev_time e = a \<and> ev_handler f = BcnTimer \<and> ev_time f = b
    \<or> ev_handler e = BcnTimer \<and> ev_time e = b \<and> ev_handler f = RtcTimer \<and> ev_time f = a"
    by (auto simp: add_eq_conv_ex)
  with assms(1) es show ?thesis by (auto simp: sink_at_def purged_simps)
qed

text \<open>One turn: the next tick of a timer, or a beacon reaches the target.\<close>

lemma node_turn:
  assumes ok: "hq.ok (2 + n) s" "\<not> halted s" and J: "sink_at a b q i rs k l tr w (heap_abs (queue s))"
  obtains p w' s' k' l' where "heap_turns wfrp_handle (Suc m) tr w s = heap_turns wfrp_handle m (p # tr) w' s'"
    "hq.ok n s'" "\<not> halted s'" "clock s' = ev_time p" "clock s \<le> ev_time p" "sink_at a b q i rs k' l' (p # tr) w' (heap_abs (queue s'))"
proof -
  have "heap_abs (queue s) \<noteq> []" using J by (auto simp: sink_at_def)
  then obtain p es where es: "heap_abs (queue s) = p # es" by (cases "heap_abs (queue s)") auto
  have srt: "ev_sorted es" using ok(1) hq.invq_sorted [of "queue s"] es by (auto simp: sched_ok_def)
  let ?p = "p\<lparr>ev_uid := - ev_uid p\<rparr>"
  show thesis
  proof (cases "ev_handler p")
    case RtcTimer
    then have h: "wfrp_handle w (ev_time p) ?p = (w\<lparr>rthead := rt_purge (ev_time p) (rthead w)\<rparr>, arrival_requests [(RtcTimer, 2)])"
      by (simp add: wfrp_handle_requests)
    obtain s' where s': "heap_turns wfrp_handle (Suc m) tr w s = heap_turns wfrp_handle m (p # tr) (w\<lparr>rthead := rt_purge (ev_time p) (rthead w)\<rparr>) s'"
      "hq.ok (1 + n) s'" "\<not> halted s'" "clock s' = ev_time p" "clock s \<le> ev_time p"
      "heap_abs (queue s') = ins_time \<lparr>ev_time = ev_time p + 2, ev_uid = next_uid s, ev_handler = RtcTimer\<rparr> es"
      by (rule hq.turn [where handle = wfrp_handle and hs = "[(RtcTimer, 2)]" and n = "1 + n", OF _ ok(2) es h]) (use ok(1) in auto)
    have "sink_at a b q i rs (Suc k) l (p # tr) (w\<lparr>rthead := rt_purge (ev_time p) (rthead w)\<rparr>) (heap_abs (queue s'))"
      using J RtcTimer purge_inv [of w "ev_time p"]
      by (auto simp: sink_at_def es s'(6) purged_simps ticks_ins_first ticks_ins beacons_ins algebra_simps)
    with that s' hq.ok_mono [OF s'(2), of n] show thesis by auto
  next
    case BcnTimer
    let ?pk = "beacon_sent (ev_time p) (ev_uid ?p) w"
    let ?w = "w\<lparr>w_seqno := w_seqno w + 1\<rparr>" and ?t = "\<lparr>ev_time = ev_time p, ev_uid = next_uid s, ev_handler = Target ?pk\<rparr>"
    from BcnTimer have h: "wfrp_handle w (ev_time p) ?p = (?w, arrival_requests [(Target ?pk, 0), (BcnTimer, 10)])"
      by (simp add: wfrp_handle_requests)
    obtain s' where s': "heap_turns wfrp_handle (Suc m) tr w s = heap_turns wfrp_handle m (p # tr) ?w s'"
      "hq.ok n s'" "\<not> halted s'" "clock s' = ev_time p" "clock s \<le> ev_time p"
      "heap_abs (queue s') = ins_time \<lparr>ev_time = ev_time p + 10, ev_uid = next_uid s + 1, ev_handler = BcnTimer\<rparr> (ins_time ?t es)"
      by (rule hq.turn [where handle = wfrp_handle and hs = "[(Target ?pk, 0), (BcnTimer, 10)]" and n = n, OF _ ok(2) es h]) (use ok(1) in \<open>auto simp: numeral_2_eq_2\<close>)
    have t: "ev_time p = b + 10 * real l" "ticks BcnTimer es = []" using J BcnTimer by (simp_all add: sink_at_def es)
    have "\<forall>x \<in> set (beacons es). fst x \<le> ev_time ?t"
    proof
      fix x assume "x \<in> set (beacons es)"
      then have "x \<in> set (beacons (rev tr) @ beacons (heap_abs (queue s)))" using BcnTimer by (simp add: es)
      also have "\<dots> = (\<lambda>j. (b + 10 * real j, q + of_nat j)) ` {0..<l}" using J by (simp add: sink_at_def)
      finally show "fst x \<le> ev_time ?t" using t(1) by auto
    qed
    from beacons_ins_last [OF _ srt this, of ?pk] have be: "beacons (ins_time ?t es) = beacons es @ [(ev_time p, w_seqno w)]"
      by (simp add: wfrp_handle_requests)
    let ?q = "heap_abs (queue s')"
    have q: "beacons ?q = beacons es @ [(ev_time p, w_seqno w)]" "ticks RtcTimer ?q = ticks RtcTimer es" "ticks BcnTimer ?q = [ev_time p + 10]"
      unfolding s'(6) using be by (simp_all add: beacons_ins ticks_ins_first ticks_ins t(2))
    have "wfrp_inv w" using J by (simp add: sink_at_def)
    then have "wfrp_inv ?w" by (simp add: wfrp_inv_def)
    then have "sink_at a b q i rs k (Suc l) (p # tr) ?w ?q"
      using J BcnTimer t(1) by (simp add: sink_at_def es q algebra_simps)
    with that s' show thesis by auto
  next
    case (Target pk)
    then have h: "wfrp_handle w (ev_time p) ?p = (w, arrival_requests [])" by (simp add: wfrp_handle_requests)
    obtain s' where s': "heap_turns wfrp_handle (Suc m) tr w s = heap_turns wfrp_handle m (p # tr) w s'"
      "hq.ok (2 + n) s'" "\<not> halted s'" "clock s' = ev_time p" "clock s \<le> ev_time p" "heap_abs (queue s') = es"
      by (rule hq.turn [where handle = wfrp_handle and hs = "[]" and n = "2 + n", OF _ ok(2) es h]) (use ok(1) in auto)
    have "sink_at a b q i rs k l (p # tr) w (heap_abs (queue s'))" using J Target by (simp add: sink_at_def es s'(6))
    with that s' hq.ok_mono [OF s'(2), of n] show thesis by auto
  qed
qed

lemma ticks_rev: "length (ticks h (rev es)) = length (ticks h es)"
  by (induction es) auto

lemma node_turns:
  "hq.ok (n * 2) s \<Longrightarrow> \<not> halted s \<Longrightarrow> sink_at a b q i rs k l tr w (heap_abs (queue s)) \<Longrightarrow> trace_ok (clock s) tr
   \<Longrightarrow> \<exists>tr' w' s' k' l'. heap_turns wfrp_handle n tr w s = Inr (tr', w', s') \<and> length tr' = n + length tr \<and> hq.ok 0 s' \<and> \<not> halted s'
     \<and> sink_at a b q i rs k' l' tr' w' (heap_abs (queue s')) \<and> trace_ok (clock s') tr'"
proof (induction n arbitrary: tr w s k l)
  case 0
  then show ?case by (subst turns.simps) auto
next
  case (Suc n)
  have "hq.ok (2 + n * 2) s" using Suc.prems(1) by simp
  from node_turn [OF this Suc.prems(2,3)] obtain p w1 s1 k1 l1 where
    r: "heap_turns wfrp_handle (Suc n) tr w s = heap_turns wfrp_handle n (p # tr) w1 s1" "hq.ok (n * 2) s1" "\<not> halted s1" "clock s1 = ev_time p"
      "clock s \<le> ev_time p" "sink_at a b q i rs k1 l1 (p # tr) w1 (heap_abs (queue s1))" by metis
  have "trace_ok (clock s1) (p # tr)" using Suc.prems(4) r(4,5) by (fastforce simp: trace_ok_def)
  from Suc.IH [OF r(2,3,6) this] r(1) show ?case by auto
qed

end
