(* ===== verification/WfrpNet.thy ===== *)
theory WfrpNet
  imports WfrpProps
begin

text \<open>
  A network of nodes that all run the agent of \<open>wfrp/wfrp.cc\<close>. The medium is arbitrary: it may
  lose, delay, reorder and duplicate packets, and deliver them to any node. In every reachable
  state the next hops towards a sink form no cycle and lead to the sink.
\<close>

section \<open>The network\<close>

record net =
  nodes :: "nsaddr \<Rightarrow> wfrp"
  air :: "wfrp_packet list"

definition net_init :: "net" where
  "net_init = \<lparr>nodes = wfrp_new, air = []\<rparr>"

definition set_node :: "net \<Rightarrow> nsaddr \<Rightarrow> wfrp \<Rightarrow> wfrp_packet list \<Rightarrow> net" where
  "set_node n i w ps = \<lparr>nodes = (nodes n)(i := w), air = ps @ air n\<rparr>"

text \<open>
  The steps: a beacon timer or a purge timer expires, some packet in the air reaches a node, a
  packet is lost, an application injects a data packet. The hop count of a delivered beacon is
  below 255, the largest value of its 8-bit field (a network of fewer than 255 hops).
\<close>

inductive wfrp_step :: "net \<Rightarrow> net \<Rightarrow> bool" where
  beacon: "send_beacon now u (nodes n i) = (w', as) \<Longrightarrow> wfrp_step n (set_node n i w' (scheduled as))"
| purge: "rtc_timer_handle now (nodes n i) = (w', rs) \<Longrightarrow> wfrp_step n (set_node n i w' [])"
| deliver: "p \<in> set (air n) \<Longrightarrow> beacon_hops (body p) < 255
    \<Longrightarrow> wfrp_recv now rnd (nodes n i) p = Inr (w', as) \<Longrightarrow> wfrp_step n (set_node n i w' (scheduled as))"
| lose: "wfrp_step n (n\<lparr>air := remove1 p (air n)\<rparr>)"
| inject: "ptype p \<noteq> PT_WFRP \<Longrightarrow> wfrp_step n (n\<lparr>air := p # air n\<rparr>)"

inductive wfrp_reachable :: "net \<Rightarrow> bool" where
  init: "wfrp_reachable net_init"
| step: "wfrp_reachable n \<Longrightarrow> wfrp_step n n' \<Longrightarrow> wfrp_reachable n'"

section \<open>The invariant of the network\<close>

text \<open>
  Beacon \<open>s\<close> of sink \<open>d\<close>, received from \<open>j\<close> after \<open>h\<close> hops, is backed by
  \<open>j\<close>: either \<open>j\<close> is the sink, or \<open>j\<close> itself has a route that is newer, or equally new and
  shorter.
\<close>

definition backed :: "net \<Rightarrow> nsaddr \<Rightarrow> u32 \<Rightarrow> u8 \<Rightarrow> nsaddr \<Rightarrow> bool" where
  "backed n d s h j \<longleftrightarrow> j = d \<or>
     (\<exists>r. rt_lookup (rthead (nodes n j)) d = Some r
        \<and> (s < rt_seqno r \<or> (rt_seqno r = s \<and> rt_hopcount r < h)))"

definition beacon_ok :: "net \<Rightarrow> wfrp_packet \<Rightarrow> bool" where
  "beacon_ok n p \<longleftrightarrow> (ptype p = PT_WFRP \<longrightarrow> daddr p = IP_BROADCAST
     \<and> backed n (beacon_src (body p)) (beacon_id (body p)) (beacon_hops (body p)) (saddr p))"

definition node_ok :: "net \<Rightarrow> nsaddr \<Rightarrow> bool" where
  "node_ok n i \<longleftrightarrow> w_index (nodes n i) = i \<and> key_inv rt_dst (rthead (nodes n i))
     \<and> rt_lookup (rthead (nodes n i)) i = None
     \<and> (\<forall>d r. rt_lookup (rthead (nodes n i)) d = Some r
          \<longrightarrow> backed n d (rt_seqno r) (rt_hopcount r) (rt_nexthop r))"

definition net_inv :: "net \<Rightarrow> bool" where
  "net_inv n \<longleftrightarrow> (\<forall>i. node_ok n i) \<and> (\<forall>p \<in> set (air n). beacon_ok n p)"

lemma net_inv_init: "net_inv net_init"
  by (simp add: net_inv_def net_init_def node_ok_def wfrp_new_def key_inv_def)

text \<open>What is backed stays backed when routes improve.\<close>

lemma backed_mono:
  assumes "backed n d s h j" and "\<And>i. routes_improve (nodes n i) (nodes n' i)"
  shows "backed n' d s h j"
proof (cases "j = d")
  case True
  then show ?thesis by (simp add: backed_def)
next
  case False
  with assms(1) obtain r where r: "rt_lookup (rthead (nodes n j)) d = Some r"
    "s < rt_seqno r \<or> (rt_seqno r = s \<and> rt_hopcount r < h)" by (auto simp: backed_def)
  from assms(2) [of j] r(1) obtain r' where "rt_lookup (rthead (nodes n' j)) d = Some r'"
    "at_least_as_good r' r" by (auto simp: routes_improve_def)
  with r(2) show ?thesis by (auto simp: backed_def at_least_as_good_def)
qed

lemma beacon_ok_mono:
  "beacon_ok n p \<Longrightarrow> (\<And>i. routes_improve (nodes n i) (nodes n' i)) \<Longrightarrow> beacon_ok n' p"
  by (auto simp: beacon_ok_def intro: backed_mono)

text \<open>
  A step of node \<open>i\<close> keeps the invariant if its routes improve, and what is new, in its cache
  or on the air, is backed.
\<close>

lemma set_node_simps [simp]:
  "nodes (set_node n i w ps) j = (if j = i then w else nodes n j)"
  "air (set_node n i w ps) = ps @ air n"
  by (simp_all add: set_node_def)

lemma net_inv_set_node:
  assumes inv: "net_inv n" and better: "routes_improve (nodes n i) w"
    and own: "w_index w = i" "key_inv rt_dst (rthead w)" "rt_lookup (rthead w) i = None"
    and routes: "\<And>d r. rt_lookup (rthead w) d = Some r
      \<Longrightarrow> backed (set_node n i w ps) d (rt_seqno r) (rt_hopcount r) (rt_nexthop r)"
    and sent: "\<And>p. p \<in> set ps \<Longrightarrow> beacon_ok (set_node n i w ps) p"
  shows "net_inv (set_node n i w ps)"
proof -
  let ?n = "set_node n i w ps"
  have mono: "routes_improve (nodes n j) (nodes ?n j)" for j using better by simp
  have "node_ok ?n j" for j
  proof (cases "j = i")
    case True
    with own routes show ?thesis by (simp add: node_ok_def)
  next
    case False
    from inv have "node_ok n j" by (simp add: net_inv_def)
    with False show ?thesis by (auto simp: node_ok_def intro: backed_mono [OF _ mono])
  qed
  moreover have "beacon_ok ?n p" if "p \<in> set (air ?n)" for p
    using that sent inv beacon_ok_mono [OF _ mono] by (auto simp: net_inv_def)
  ultimately show ?thesis by (simp add: net_inv_def)
qed

text \<open>The same, with all old routes kept in place.\<close>

lemma old_routes_backed:
  assumes "net_inv n" and "routes_improve (nodes n i) w"
    and "rt_lookup (rthead (nodes n i)) d = Some r"
  shows "backed (set_node n i w ps) d (rt_seqno r) (rt_hopcount r) (rt_nexthop r)"
proof -
  from assms(1) have "node_ok n i" by (simp add: net_inv_def)
  with assms(3) have "backed n d (rt_seqno r) (rt_hopcount r) (rt_nexthop r)"
    by (simp add: node_ok_def)
  then show ?thesis by (rule backed_mono) (use assms(2) in simp)
qed

section \<open>Every step keeps the invariant\<close>

lemma send_beacon_effect:
  "send_beacon now u w = (w', as) \<Longrightarrow> w' = w\<lparr>w_seqno := w_seqno w + 1\<rparr>
     \<and> (\<exists>p. scheduled as = [p] \<and> daddr p = IP_BROADCAST \<and> saddr p = w_index w
          \<and> beacon_src (body p) = w_index w)"
  by (auto simp: send_beacon_def Let_def update_position_def packet_alloc_def)

lemma inv_beacon:
  assumes "net_inv n" and "send_beacon now u (nodes n i) = (w', as)"
  shows "net_inv (set_node n i w' (scheduled as))"
proof -
  note e = send_beacon_effect [OF assms(2)]
  from assms(1) have ok: "node_ok n i" by (simp add: net_inv_def)
  have better: "routes_improve (nodes n i) w'" using e by (simp add: routes_improve_def)
  show ?thesis
  proof (rule net_inv_set_node [OF assms(1) better])
    show "backed (set_node n i w' (scheduled as)) d (rt_seqno r) (rt_hopcount r) (rt_nexthop r)"
      if "rt_lookup (rthead w') d = Some r" for d r
      using old_routes_backed [OF assms(1) better] that e by simp
    show "beacon_ok (set_node n i w' (scheduled as)) p" if "p \<in> set (scheduled as)" for p
      using that e ok by (auto simp: beacon_ok_def backed_def node_ok_def)
  qed (use e ok in \<open>simp_all add: node_ok_def\<close>)
qed

lemma inv_purge:
  assumes "net_inv n" and "rtc_timer_handle now (nodes n i) = (w', rs)"
  shows "net_inv (set_node n i w' [])"
proof -
  from assms(2) have w': "w' = (nodes n i)\<lparr>rthead := rt_purge now (rthead (nodes n i))\<rparr>"
    by (simp add: rtc_timer_handle_def)
  from assms(1) have ok: "node_ok n i" by (simp add: net_inv_def)
  have better: "routes_improve (nodes n i) w'"
    by (auto simp: routes_improve_def w' rt_lookup_purge at_least_as_good_def)
  show ?thesis
  proof (rule net_inv_set_node [OF assms(1) better])
    show "backed (set_node n i w' []) d (rt_seqno r) (rt_hopcount r) (rt_nexthop r)"
      if "rt_lookup (rthead w') d = Some r" for d r
      using old_routes_backed [OF assms(1) better, of d] that
      by (auto simp: w' rt_lookup_purge split: if_splits)
    show "key_inv rt_dst (rthead w')"
      using ok by (simp add: w' rt_purge_map node_ok_def key_inv_map)
  qed (use ok in \<open>simp_all add: w' rt_lookup_purge node_ok_def\<close>)
qed

lemma inv_recv_beacon:
  assumes inv: "net_inv n" and p: "p \<in> set (air n)" "ptype p = PT_WFRP" "beacon_hops (body p) < 255"
    and r: "recv_beacon now rnd (nodes n i) (p\<lparr>ttl := ttl p - 1\<rparr>) = Inr (w', as)"
  shows "net_inv (set_node n i w' (scheduled as))"
proof -
  let ?p = "p\<lparr>ttl := ttl p - 1\<rparr>" and ?d = "beacon_src (body p)" and ?w = "nodes n i"
  let ?n = "set_node n i w' (scheduled as)"
  from inv have ok: "node_ok n i" and pok: "beacon_ok n p" using p(1) by (auto simp: net_inv_def)
  from ok have key: "key_inv rt_dst (rthead ?w)" and idx: "w_index ?w = i" by (auto simp: node_ok_def)
  from pok p(2) have bc: "daddr ?p = IP_BROADCAST" by (simp add: beacon_ok_def)
  have better: "routes_improve ?w w'" by (rule recv_beacon_improves [OF key bc r])
  have imp: "routes_improve (nodes n j) (nodes ?n j)" for j using better by simp
  show ?thesis
  proof (cases "?d = i")
    case True
    with r idx have "w' = ?w" "as = [Free ?p]" by (auto simp: recv_own_beacon)
    with net_inv_set_node [OF inv better, of "[]"] old_routes_backed [OF inv better] ok
    show ?thesis by (auto simp: node_ok_def)
  next
    case False
    from recv_beacon_effect [OF key bc _ refl, of now rnd] False idx r
    have w': "w' = ?w\<lparr>rthead := rthead w'\<rparr>" "key_inv rt_dst (rthead w')"
      and look: "\<And>d. rt_lookup (rthead w') d
        = (if d = ?d \<and> (newer ?p (rt_lookup (rthead ?w) ?d) \<or> shorter ?p (rt_lookup (rthead ?w) ?d))
           then Some (beacon_route now ?p) else rt_lookup (rthead ?w) d)"
      and sent: "scheduled as = (if newer ?p (rt_lookup (rthead ?w) ?d) then [relayed ?w ?p] else [])"
      by auto
    have "backed n ?d (beacon_id (body p)) (beacon_hops (body p)) (saddr p)"
      using pok p(2) by (simp add: beacon_ok_def)
    from backed_mono [OF this imp]
    have bk: "backed ?n ?d (beacon_id (body p)) (beacon_hops (body p)) (saddr p)" .
    show ?thesis
    proof (rule net_inv_set_node [OF inv better _ w'(2)])
      show "w_index w' = i" using w'(1) idx by (metis wfrp.select_convs(1) wfrp.surjective wfrp.update_convs(5))
      show "rt_lookup (rthead w') i = None" using ok False by (simp add: look node_ok_def)
      show "backed ?n d (rt_seqno r) (rt_hopcount r) (rt_nexthop r)"
        if "rt_lookup (rthead w') d = Some r" for d r
        using that bk old_routes_backed [OF inv better, of d r "scheduled as"]
        by (auto simp: look beacon_route_def split: if_splits)
      have "beacon_hops (body p) < beacon_hops (body p) + 1"
        using p(3) by (rule u8_less_inc)
      then show "beacon_ok ?n q" if "q \<in> set (scheduled as)" for q
        using that bc idx
        by (auto simp: sent beacon_ok_def relayed_def backed_def look beacon_route_def split: if_splits)
    qed
  qed
qed

lemma inv_unchanged:
  assumes "net_inv n" and "\<And>q. q \<in> set ps \<Longrightarrow> ptype q \<noteq> PT_WFRP"
  shows "net_inv (set_node n i (nodes n i) ps)"
proof -
  from assms(1) have ok: "node_ok n i" by (simp add: net_inv_def)
  show ?thesis
    by (rule net_inv_set_node [OF assms(1)])
       (use ok assms(2) old_routes_backed [OF assms(1) routes_improve_refl, of i _ _ ps]
        in \<open>auto simp: node_ok_def beacon_ok_def\<close>)
qed

lemma recv_data_ptype:
  "recv_data w p = Inr (w', as) \<Longrightarrow> q \<in> set (scheduled as) \<Longrightarrow> ptype q = ptype p"
  by (auto simp: recv_data_def wfrp_forward_def bindR_eq_Inr Let_def split: option.splits if_splits)

lemma wfrp_recv_other_sent:
  "wfrp_recv now rnd w p = Inr (w', as) \<Longrightarrow> ptype p \<noteq> PT_WFRP \<Longrightarrow> q \<in> set (scheduled as)
   \<Longrightarrow> ptype q \<noteq> PT_WFRP"
  by (auto simp: wfrp_recv_def Let_def dest: recv_data_ptype split: if_splits)

lemma wfrp_step_inv: "wfrp_step n n' \<Longrightarrow> net_inv n \<Longrightarrow> net_inv n'"
proof (induction rule: wfrp_step.induct)
  case (beacon now u n i w' as)
  then show ?case by (simp add: inv_beacon)
next
  case (purge now n i w' rs)
  then show ?case by (simp add: inv_purge)
next
  case (deliver p n now rnd i w' as)
  from wfrp_recv_cases [OF deliver(3)] consider
      "ptype p = PT_WFRP" "recv_beacon now rnd (nodes n i) (p\<lparr>ttl := ttl p - 1\<rparr>) = Inr (w', as)"
    | "w' = nodes n i" "as = []" | "ptype p \<noteq> PT_WFRP" "w' = nodes n i" by blast
  then show ?case
  proof cases
    case 1
    with deliver inv_recv_beacon show ?thesis by blast
  next
    case 2
    with inv_unchanged [OF deliver(4), of "[]" i] show ?thesis by simp
  next
    case 3
    with inv_unchanged [OF deliver(4), of "scheduled as" i] wfrp_recv_other_sent [OF deliver(3)]
    show ?thesis by simp
  qed
next
  case (lose n p)
  have "set (remove1 p (air n)) \<subseteq> set (air n)" by (rule set_remove1_subset)
  with lose show ?case
    by (auto simp: net_inv_def node_ok_def beacon_ok_def backed_def)
next
  case (inject p n)
  then show ?case by (auto simp: net_inv_def node_ok_def beacon_ok_def backed_def)
qed

lemma reachable_inv: "wfrp_reachable n \<Longrightarrow> net_inv n"
  by (induction rule: wfrp_reachable.induct) (auto simp: net_inv_init intro: wfrp_step_inv)

section \<open>Loop freedom\<close>

text \<open>The next-hop graph towards a sink.\<close>

definition next_hops :: "net \<Rightarrow> nsaddr \<Rightarrow> (nsaddr \<times> nsaddr) set" where
  "next_hops n d = {(i, j). \<exists>r. rt_lookup (rthead (nodes n i)) d = Some r \<and> j = rt_nexthop r}"

text \<open>How far a route is from being the best there can be.\<close>

definition badness :: "route_cache \<Rightarrow> nat" where
  "badness r = (2 ^ 32 - unat (rt_seqno r)) * 256 + unat (rt_hopcount r)"

lemma badness_less:
  assumes "rt_seqno r < rt_seqno r' \<or> (rt_seqno r' = rt_seqno r \<and> rt_hopcount r' < rt_hopcount r)"
  shows "badness r' < badness r"
proof -
  have b: "unat (rt_hopcount r') < 256" "unat (rt_seqno r') < 2 ^ 32"
    using unsigned_less [of "rt_hopcount r'"] unsigned_less [of "rt_seqno r'"] by simp_all
  from assms show ?thesis
  proof
    assume "rt_seqno r < rt_seqno r'"
    then have "unat (rt_seqno r) < unat (rt_seqno r')" by (simp add: word_less_nat_alt)
    with b show ?thesis by (simp add: badness_def)
  qed (simp add: badness_def word_less_nat_alt)
qed

text \<open>A hop leads to the sink or to a node with a better route.\<close>

lemma next_hop_better:
  assumes "net_inv n" and "(i, j) \<in> next_hops n d"
  shows "\<exists>r. rt_lookup (rthead (nodes n i)) d = Some r \<and> i \<noteq> d
    \<and> (j = d \<or> (\<exists>r'. rt_lookup (rthead (nodes n j)) d = Some r' \<and> badness r' < badness r))"
proof -
  from assms(2) obtain r where r: "rt_lookup (rthead (nodes n i)) d = Some r" "j = rt_nexthop r"
    by (auto simp: next_hops_def)
  from assms(1) have "node_ok n i" by (simp add: net_inv_def)
  with r have "backed n d (rt_seqno r) (rt_hopcount r) j" and "i \<noteq> d" by (auto simp: node_ok_def)
  with r(1) badness_less show ?thesis by (fastforce simp: backed_def)
qed

lemma next_hops_down:
  assumes "net_inv n" and "(i, j) \<in> (next_hops n d)\<^sup>+"
  shows "\<exists>r. rt_lookup (rthead (nodes n i)) d = Some r \<and> i \<noteq> d
    \<and> (j = d \<or> (\<exists>r'. rt_lookup (rthead (nodes n j)) d = Some r' \<and> badness r' < badness r))"
  using assms(2)
proof (induction rule: trancl_induct)
  case (base j)
  then show ?case by (rule next_hop_better [OF assms(1)])
next
  case (step j k)
  from next_hop_better [OF assms(1) step(2)] step(3) show ?case by fastforce
qed

lemma routes_reach_sink:
  assumes "net_inv n" and "rt_lookup (rthead (nodes n i)) d = Some r"
  shows "(i, d) \<in> (next_hops n d)\<^sup>+"
  using assms(2)
proof (induction "badness r" arbitrary: i r rule: less_induct)
  case less
  have hop: "(i, rt_nexthop r) \<in> next_hops n d" using less.prems by (auto simp: next_hops_def)
  from next_hop_better [OF assms(1) hop] less.prems
  consider "rt_nexthop r = d"
    | r' where "rt_lookup (rthead (nodes n (rt_nexthop r))) d = Some r'" "badness r' < badness r"
    by auto
  then show ?case
  proof cases
    case 1
    with hop show ?thesis by auto
  next
    case 2
    from less.hyps [OF 2(2,1)] hop show ?thesis by (rule trancl_into_trancl2 [rotated])
  qed
qed

section \<open>Properties\<close>

text \<open>C2: In every reachable state of a network of nodes, whatever the medium loses, reorders or
  duplicates, the next hops towards a sink form no cycle, and from every node that has a route
  to the sink (expired or not) they lead to the sink.\<close>

theorem wfrp_loop_free:
  assumes "wfrp_reachable n"
  shows "acyclic (next_hops n d)
    \<and> (\<forall>i. rt_lookup (rthead (nodes n i)) d = None \<or> (i, d) \<in> (next_hops n d)\<^sup>+)"
proof
  note inv = reachable_inv [OF assms]
  show "acyclic (next_hops n d)"
    using next_hops_down [OF inv] by (fastforce simp: acyclic_def)
  show "\<forall>i. rt_lookup (rthead (nodes n i)) d = None \<or> (i, d) \<in> (next_hops n d)\<^sup>+"
    by (metis option.exhaust routes_reach_sink [OF inv])
qed

text \<open>Sink 1 sends a beacon and node 2 hears it.\<close>

definition demo_sent :: net where
  "demo_sent = set_node net_init 1 (fst (send_beacon 5 1 (wfrp_new 1)))
     (scheduled (snd (send_beacon 5 1 (wfrp_new 1))))"

lemma demo_sent_reachable: "wfrp_reachable demo_sent"
proof -
  have "wfrp_step net_init demo_sent"
    unfolding demo_sent_def
    by (rule wfrp_step.beacon [where now = 5 and u = 1]) (simp add: net_init_def)
  then show ?thesis by (rule wfrp_reachable.step [OF wfrp_reachable.init])
qed

lemma demo_sent_air: "demo_beacon \<in> set (air demo_sent)"
  by (simp add: demo_sent_def demo_beacon_def net_init_def send_beacon_def Let_def update_position_def)

lemma wfrp_loop_free_witness:
  "\<exists>n. wfrp_reachable n \<and> rt_lookup (rthead (nodes n 2)) 1 \<noteq> None \<and> acyclic (next_hops n 1)
     \<and> (2, 1) \<in> (next_hops n 1)\<^sup>+"
proof -
  have n2: "nodes demo_sent 2 = wfrp_new 2" by (simp add: demo_sent_def net_init_def)
  have "key_inv rt_dst (rthead (wfrp_new 2))" "daddr (demo_beacon\<lparr>ttl := 63\<rparr>) = IP_BROADCAST"
    "beacon_src (body (demo_beacon\<lparr>ttl := 63\<rparr>)) \<noteq> w_index (wfrp_new 2)"
    by (simp_all add: wfrp_new_def key_inv_def)
  from recv_beacon_effect [OF this refl, of 6 0] obtain w' as
    where r: "recv_beacon 6 0 (wfrp_new 2) (demo_beacon\<lparr>ttl := 63\<rparr>) = Inr (w', as)"
      and route: "rt_lookup (rthead w') 1 \<noteq> None"
    by (auto simp: newer_def wfrp_new_def)
  from r have "wfrp_recv 6 0 (nodes demo_sent 2) demo_beacon = Inr (w', as)"
    by (simp add: wfrp_recv_def recv_wfrp_def n2)
  from wfrp_step.deliver [OF demo_sent_air _ this]
  have reach: "wfrp_reachable (set_node demo_sent 2 w' (scheduled as))"
    by (intro wfrp_reachable.step [OF demo_sent_reachable]) simp
  have at2: "nodes (set_node demo_sent 2 w' (scheduled as)) 2 = w'" by simp
  from wfrp_loop_free [OF reach, of 1] route reach show ?thesis
    by (intro exI [of _ "set_node demo_sent 2 w' (scheduled as)"]) (metis at2)
qed

end
