(* ===== verification/AodvTable.thy ===== *)
theory AodvTable
  imports NsPacket KeyedTable
begin

text \<open>
  The tables of the AODV agent: the routing table with its entries and precursor lists
  (\<open>aodv/aodv_rtable.cc\<close>), the neighbour cache and the cache of broadcast ids
  (\<open>aodv/aodv.cc\<close>).
\<close>

section \<open>Route entries\<close>

definition INFINITY2 :: int where "INFINITY2 = 0xff"
definition RTF_DOWN :: u8 where "RTF_DOWN = 0"
definition RTF_UP :: u8 where "RTF_UP = 1"
definition RTF_IN_REPAIR :: u8 where "RTF_IN_REPAIR = 2"
definition MAX_HISTORY :: nat where "MAX_HISTORY = 3"

record aodv_neighbor =
  nb_addr :: nsaddr
  nb_expire :: time

record rt_entry =
  r_dst :: nsaddr
  r_seqno :: u32
  r_hops :: u16
  r_last_hop_count :: int
  r_nexthop :: nsaddr
  r_pclist :: "nsaddr list"
  r_expire :: time
  r_flags :: u8
  r_disc_latency :: "time list"
  r_hist_indx :: nat
  r_req_last_ttl :: int
  r_req_timeout :: time
  r_req_cnt :: u8
  r_nblist :: "aodv_neighbor list"

definition rt_entry_new :: rt_entry where
  "rt_entry_new =
     \<lparr>r_dst = 0, r_seqno = 0, r_hops = word_of_int INFINITY2, r_last_hop_count = INFINITY2,
      r_nexthop = 0, r_pclist = [], r_expire = 0, r_flags = RTF_DOWN,
      r_disc_latency = replicate MAX_HISTORY 0, r_hist_indx = 0, r_req_last_ttl = 0,
      r_req_timeout = 0, r_req_cnt = 0, r_nblist = []\<rparr>"

text \<open>\<open>rt_hops\<close> is compared with \<open>INFINITY2\<close> as an \<open>int\<close>.\<close>

definition hops :: "rt_entry \<Rightarrow> int" where
  "hops rt = uint (r_hops rt)"

definition entry_nb_insert :: "nsaddr \<Rightarrow> rt_entry \<Rightarrow> rt_entry" where
  "entry_nb_insert i rt = rt\<lparr>r_nblist := \<lparr>nb_addr = i, nb_expire = 0\<rparr> # r_nblist rt\<rparr>"

fun nb_find :: "aodv_neighbor list \<Rightarrow> nsaddr \<Rightarrow> aodv_neighbor option" where
  "nb_find [] i = None"
| "nb_find (n # ns) i = (if nb_addr n = i then Some n else nb_find ns i)"

definition entry_nb_lookup :: "nsaddr \<Rightarrow> rt_entry \<Rightarrow> aodv_neighbor option" where
  "entry_nb_lookup i rt = nb_find (r_nblist rt) i"

fun pc_find :: "nsaddr list \<Rightarrow> nsaddr \<Rightarrow> nsaddr option" where
  "pc_find [] i = None"
| "pc_find (a # as) i = (if a = i then Some a else pc_find as i)"

definition pc_lookup :: "nsaddr \<Rightarrow> rt_entry \<Rightarrow> nsaddr option" where
  "pc_lookup i rt = pc_find (r_pclist rt) i"

definition pc_insert :: "nsaddr \<Rightarrow> rt_entry \<Rightarrow> rt_entry" where
  "pc_insert i rt = (if pc_lookup i rt = None then rt\<lparr>r_pclist := i # r_pclist rt\<rparr> else rt)"

definition pc_delete :: "nsaddr \<Rightarrow> rt_entry \<Rightarrow> rt_entry" where
  "pc_delete i rt = rt\<lparr>r_pclist := remove_first (\<lambda>a. a = i) (r_pclist rt)\<rparr>"

definition pc_delete_all :: "rt_entry \<Rightarrow> rt_entry" where
  "pc_delete_all rt = rt\<lparr>r_pclist := []\<rparr>"

definition pc_empty :: "rt_entry \<Rightarrow> bool" where
  "pc_empty rt = (case r_pclist rt of [] \<Rightarrow> True | a # as \<Rightarrow> False)"

section \<open>The routing table\<close>

fun art_lookup :: "rt_entry list \<Rightarrow> nsaddr \<Rightarrow> rt_entry option" where
  "art_lookup [] i = None"
| "art_lookup (r # rs) i = (if r_dst r = i then Some r else art_lookup rs i)"

definition art_link :: "rt_entry list \<Rightarrow> rt_entry \<Rightarrow> rt_entry list" where
  "art_link rs r = r # rs"

text \<open>\<open>rt_add\<close> asserts that there is no entry yet.\<close>

definition art_add :: "rt_entry list \<Rightarrow> nsaddr \<Rightarrow> rt_entry list res" where
  "art_add rs i =
     bindR (assertC (art_lookup rs i = None)) (\<lambda>_. Inr (art_link rs (rt_entry_new\<lparr>r_dst := i\<rparr>)))"

definition art_delete :: "rt_entry list \<Rightarrow> nsaddr \<Rightarrow> rt_entry list" where
  "art_delete rs i = (case art_lookup rs i of None \<Rightarrow> rs | Some r \<Rightarrow> remove_first (\<lambda>r. r_dst r = i) rs)"

text \<open>A write through a pointer to the entry for \<open>i\<close>.\<close>

definition art_write :: "rt_entry list \<Rightarrow> nsaddr \<Rightarrow> (rt_entry \<Rightarrow> rt_entry) \<Rightarrow> rt_entry list" where
  "art_write rs i f = map_first (\<lambda>r. r_dst r = i) f rs"

definition rt_update :: "u32 \<Rightarrow> u16 \<Rightarrow> nsaddr \<Rightarrow> time \<Rightarrow> rt_entry \<Rightarrow> rt_entry" where
  "rt_update sq metric nexthop expire rt =
     rt\<lparr>r_seqno := sq, r_hops := metric, r_flags := RTF_UP, r_nexthop := nexthop, r_expire := expire\<rparr>"

definition rt_down :: "rt_entry \<Rightarrow> rt_entry" where
  "rt_down rt =
     (if r_flags rt = RTF_DOWN then rt
      else rt\<lparr>r_last_hop_count := hops rt, r_hops := word_of_int INFINITY2, r_flags := RTF_DOWN,
              r_nexthop := 0, r_expire := 0\<rparr>)"

definition NODE_TRAVERSAL_TIME :: time where "NODE_TRAVERSAL_TIME = 3 / 100"

text \<open>\<open>PerHopTime\<close>: the mean of the latencies on record.\<close>

definition PerHopTime :: "rt_entry option \<Rightarrow> time" where
  "PerHopTime ro =
     (case ro of
        None \<Rightarrow> NODE_TRAVERSAL_TIME
      | Some rt \<Rightarrow>
          (let ls = filter (\<lambda>l. l > 0) (r_disc_latency rt)
           in if length ls > 0 then sum_list ls / real (length ls) else NODE_TRAVERSAL_TIME))"

section \<open>The neighbour cache and the broadcast id cache\<close>

definition nb_link :: "aodv_neighbor list \<Rightarrow> aodv_neighbor \<Rightarrow> aodv_neighbor list" where
  "nb_link ns n = n # ns"

definition nb_write :: "aodv_neighbor list \<Rightarrow> nsaddr \<Rightarrow> (aodv_neighbor \<Rightarrow> aodv_neighbor) \<Rightarrow> aodv_neighbor list" where
  "nb_write ns i f = map_first (\<lambda>n. nb_addr n = i) f ns"

definition nb_unlink :: "aodv_neighbor list \<Rightarrow> nsaddr \<Rightarrow> aodv_neighbor list" where
  "nb_unlink ns i = remove_first (\<lambda>n. nb_addr n = i) ns"

record broadcast_id =
  bi_src :: nsaddr
  bi_id :: u32
  bi_expire :: time

definition BCAST_ID_SAVE :: time where "BCAST_ID_SAVE = 6"

definition id_insert :: "time \<Rightarrow> nsaddr \<Rightarrow> u32 \<Rightarrow> broadcast_id list \<Rightarrow> broadcast_id list" where
  "id_insert now i b bs = \<lparr>bi_src = i, bi_id = b, bi_expire = now + BCAST_ID_SAVE\<rparr> # bs"

fun id_lookup :: "nsaddr \<Rightarrow> u32 \<Rightarrow> broadcast_id list \<Rightarrow> bool" where
  "id_lookup i b [] = False"
| "id_lookup i b (x # xs) = (if bi_src x = i \<and> bi_id x = b then True else id_lookup i b xs)"

fun bid_purge :: "time \<Rightarrow> broadcast_id list \<Rightarrow> broadcast_id list" where
  "bid_purge now [] = []"
| "bid_purge now (b # bs) = (if bi_expire b \<le> now then bid_purge now bs else b # bid_purge now bs)"

section \<open>The tables satisfy the contract\<close>

lemma art_lookup_find: "art_lookup rs i = find (\<lambda>r. r_dst r = i) rs"
  by (induction rs) auto

lemma nb_find_find: "nb_find ns i = find (\<lambda>n. nb_addr n = i) ns"
  by (induction ns) auto

interpretation at: keyed_table_del art_lookup r_dst art_link art_write "key_inv r_dst" "\<lambda>_. True" art_delete
proof (standard, goal_cases)
  case (1 t k e)
  then show ?case by (auto simp: art_lookup_find dest: find_SomeD)
next
  case (5 t f k k')
  then show ?case
    using find_key_map_first [of "\<lambda>r. r_dst r = k" r_dst f k k' t]
    by (auto simp: art_lookup_find art_write_def)
next
  case (6 t k)
  then show ?case by (auto simp: art_delete_def key_inv_remove_first split: option.split)
next
  case (7 t k k')
  then show ?case
    by (auto simp: art_delete_def art_lookup_find key_inv_def find_remove_first remove_first_absent
        split: option.split)
qed (auto simp: art_lookup_find art_link_def art_write_def key_inv_Cons key_inv_map_first)

interpretation nb: keyed_table_del nb_find nb_addr nb_link nb_write "key_inv nb_addr" "\<lambda>_. True" nb_unlink
proof (standard, goal_cases)
  case (1 t k e)
  then show ?case by (auto simp: nb_find_find dest: find_SomeD)
next
  case (5 t f k k')
  then show ?case
    using find_key_map_first [of "\<lambda>n. nb_addr n = k" nb_addr f k k' t]
    by (auto simp: nb_find_find nb_write_def)
next
  case (6 t k)
  then show ?case by (simp add: nb_unlink_def key_inv_remove_first)
next
  case (7 t k k')
  then show ?case by (simp add: nb_unlink_def nb_find_find key_inv_def find_remove_first)
qed (auto simp: nb_find_find nb_link_def nb_write_def key_inv_Cons key_inv_map_first)

text \<open>A precursor list is a set of addresses.\<close>

lemma pc_find_mem: "pc_find as i = (if i \<in> set as then Some i else None)"
  by (induction as) auto

lemma pc_insert_set: "set (r_pclist (pc_insert i rt)) = insert i (set (r_pclist rt))
    \<and> (distinct (r_pclist rt) \<longrightarrow> distinct (r_pclist (pc_insert i rt)))"
  by (auto simp: pc_insert_def pc_lookup_def pc_find_mem)

lemma pc_delete_set: "distinct (r_pclist rt) \<Longrightarrow> set (r_pclist (pc_delete i rt)) = set (r_pclist rt) - {i}
    \<and> distinct (r_pclist (pc_delete i rt))"
proof -
  have "distinct as \<Longrightarrow> set (remove_first (\<lambda>a. a = i) as) = set as - {i} \<and> distinct (remove_first (\<lambda>a. a = i) as)"
    for as :: "nsaddr list"
    by (induction as) (use set_remove_first_sub in auto)
  then show "distinct (r_pclist rt) \<Longrightarrow> ?thesis" by (simp add: pc_delete_def)
qed

lemma bid_purge_filter: "bid_purge now bs = filter (\<lambda>b. \<not> bi_expire b \<le> now) bs"
  by (induction bs) auto

lemma id_lookup_iff: "id_lookup i b bs \<longleftrightarrow> (\<exists>x \<in> set bs. bi_src x = i \<and> bi_id x = b)"
  by (induction bs) auto

end
