(* ===== verification/AodvQueue.thy ===== *)
theory AodvQueue
  imports NsPacket
begin

text \<open>
  The queue of \<open>aodv/aodv_rqueue.cc\<close> that keeps data packets until a route is found: at most 64
  packets, each for 30 seconds. Packets that have timed out are unlinked by every operation.
\<close>

definition AODV_RTQ_MAX_LEN :: int where "AODV_RTQ_MAX_LEN = 64"
definition AODV_RTQ_TIMEOUT :: time where "AODV_RTQ_TIMEOUT = 30"

text \<open>The linked list from \<open>head_\<close> to \<open>tail_\<close> is a list; its length is kept separately.\<close>

record 'b rqueue =
  q_list :: "'b packet list"
  q_len :: int
  q_limit :: int
  q_timeout :: time

definition rqueue_new :: "'b rqueue" where
  "rqueue_new = \<lparr>q_list = [], q_len = 0, q_limit = AODV_RTQ_MAX_LEN, q_timeout = AODV_RTQ_TIMEOUT\<rparr>"

section \<open>Operations\<close>

definition rq_remove_head :: "'b rqueue \<Rightarrow> 'b packet option \<times> 'b rqueue" where
  "rq_remove_head q =
     (case q_list q of
        [] \<Rightarrow> (None, q)
      | p # ps \<Rightarrow> (Some p, q\<lparr>q_list := ps, q_len := q_len q - 1\<rparr>))"

definition verifyQueue :: "'b rqueue \<Rightarrow> unit res" where
  "verifyQueue q = assertC (int (length (q_list q)) = q_len q)"

text \<open>Unlinking the first packet with a property, as \<open>deque\<close> and \<open>purge\<close> do it.\<close>

definition rq_unlink :: "('b packet \<Rightarrow> bool) \<Rightarrow> 'b rqueue \<Rightarrow> 'b rqueue" where
  "rq_unlink P q = q\<lparr>q_list := remove_first P (q_list q), q_len := q_len q - 1\<rparr>"

definition findAgedPacket :: "time \<Rightarrow> 'b rqueue \<Rightarrow> 'b packet option" where
  "findAgedPacket now q = find (\<lambda>p. tstamp p < now) (q_list q)"

function rq_purge :: "time \<Rightarrow> 'b rqueue \<Rightarrow> 'b rqueue res" where
  "rq_purge now q =
     (case findAgedPacket now q of
        None \<Rightarrow> Inr q
      | Some p \<Rightarrow>
          (case verifyQueue (rq_unlink (\<lambda>p. tstamp p < now) q) of
             Inl e \<Rightarrow> Inl e
           | Inr u \<Rightarrow> rq_purge now (rq_unlink (\<lambda>p. tstamp p < now) q)))"
  by pat_completeness auto
termination
  by (relation "measure (\<lambda>(now, q). length (q_list q))")
     (auto simp: findAgedPacket_def rq_unlink_def dest!: length_remove_first)

declare rq_purge.simps [simp del]

definition findPacketWithDst :: "nsaddr \<Rightarrow> 'b rqueue \<Rightarrow> 'b packet option" where
  "findPacketWithDst dst q = find (\<lambda>p. daddr p = dst) (q_list q)"

text \<open>\<open>enque\<close>: a full queue loses its oldest packet to the drop target.\<close>

definition rq_enque :: "time \<Rightarrow> 'b packet \<Rightarrow> 'b rqueue \<Rightarrow> ('b rqueue \<times> 'b act list) res" where
  "rq_enque now p q =
     bindR (rq_purge now q) (\<lambda>q.
       (let p = p\<lparr>tstamp := now + q_timeout q\<rparr> in
        bindR (if q_len q = q_limit q
               then (case rq_remove_head q of
                       (None, q) \<Rightarrow> Inl AssertFail
                     | (Some p0, q) \<Rightarrow>
                         Inr (q, [Drop p0 (if tstamp p0 > now then DROP_RTR_QFULL else DROP_RTR_QTIMEOUT)]))
               else Inr (q, []))
          (\<lambda>(q, as).
             (let q = q\<lparr>q_list := q_list q @ [p], q_len := q_len q + 1\<rparr>
              in bindR (verifyQueue q) (\<lambda>_. Inr (q, as))))))"

definition rq_deque_head :: "time \<Rightarrow> 'b rqueue \<Rightarrow> ('b packet option \<times> 'b rqueue) res" where
  "rq_deque_head now q =
     bindR (rq_purge now q) (\<lambda>q.
       (case rq_remove_head q of (p, q) \<Rightarrow> bindR (verifyQueue q) (\<lambda>_. Inr (p, q))))"

definition rq_deque :: "time \<Rightarrow> nsaddr \<Rightarrow> 'b rqueue \<Rightarrow> ('b packet option \<times> 'b rqueue) res" where
  "rq_deque now dst q =
     bindR (rq_purge now q) (\<lambda>q.
       (case findPacketWithDst dst q of
          None \<Rightarrow> Inr (None, q)
        | Some p \<Rightarrow>
            (let q = rq_unlink (\<lambda>p. daddr p = dst) q
             in bindR (verifyQueue q) (\<lambda>_. Inr (Some p, q)))))"

definition rq_find :: "nsaddr \<Rightarrow> 'b rqueue \<Rightarrow> bool" where
  "rq_find dst q = (findPacketWithDst dst q \<noteq> None)"

section \<open>Correctness\<close>

definition rq_inv :: "'b rqueue \<Rightarrow> bool" where
  "rq_inv q \<longleftrightarrow> q_len q = int (length (q_list q)) \<and> q_len q \<le> q_limit q \<and> 0 < q_limit q"

lemma rq_inv_new: "rq_inv rqueue_new"
  by (simp add: rq_inv_def rqueue_new_def AODV_RTQ_MAX_LEN_def)

definition fresh :: "time \<Rightarrow> 'b rqueue \<Rightarrow> 'b packet list" where
  "fresh now q = filter (\<lambda>p. \<not> tstamp p < now) (q_list q)"

lemma verify_unlink:
  "rq_inv q \<Longrightarrow> find P (q_list q) = Some p \<Longrightarrow> verifyQueue (rq_unlink P q) = Inr () \<and> rq_inv (rq_unlink P q)"
  by (auto simp: rq_inv_def verifyQueue_def rq_unlink_def dest!: length_remove_first)

text \<open>\<open>purge\<close> leaves the packets that have not timed out, in their order.\<close>

lemma rq_purge_eq:
  "rq_inv q \<Longrightarrow> rq_purge now q = Inr (q\<lparr>q_list := fresh now q, q_len := int (length (fresh now q))\<rparr>)
     \<and> rq_inv (q\<lparr>q_list := fresh now q, q_len := int (length (fresh now q))\<rparr>)"
proof (induction now q rule: rq_purge.induct)
  case (1 now q)
  show ?case
  proof (cases "findAgedPacket now q")
    case None
    then have "fresh now q = q_list q"
      by (auto simp: findAgedPacket_def fresh_def find_None_iff filter_id_conv)
    with None 1(2) show ?thesis by (subst rq_purge.simps) (simp add: rq_inv_def)
  next
    case (Some p)
    let ?q = "rq_unlink (\<lambda>p. tstamp p < now) q"
    from Some have f: "find (\<lambda>p. tstamp p < now) (q_list q) = Some p" by (simp add: findAgedPacket_def)
    from verify_unlink [OF 1(2) f] have v: "verifyQueue ?q = Inr ()" "rq_inv ?q" by auto
    have "fresh now ?q = fresh now q"
      using filter_remove_first [OF f] by (simp add: fresh_def rq_unlink_def)
    with 1(1) [OF Some v(1) v(2)] v Some show ?thesis
      by (subst rq_purge.simps) (simp add: rq_unlink_def)
  qed
qed

lemma rq_enque_ok:
  assumes "rq_inv q"
  shows "\<exists>q' as. rq_enque now p q = Inr (q', as) \<and> rq_inv q'
    \<and> q_timeout q' = q_timeout q \<and> q_limit q' = q_limit q
    \<and> (if int (length (fresh now q)) = q_limit q
       then (\<exists>p0 ps. fresh now q = p0 # ps \<and> q_list q' = ps @ [p\<lparr>tstamp := now + q_timeout q\<rparr>]
              \<and> (\<exists>r. as = [Drop p0 r]))
       else q_list q' = fresh now q @ [p\<lparr>tstamp := now + q_timeout q\<rparr>] \<and> as = [])"
proof (cases "int (length (fresh now q)) = q_limit q")
  case True
  with assms obtain p0 ps where ps: "fresh now q = p0 # ps"
    by (cases "fresh now q") (auto simp: rq_inv_def)
  with True rq_purge_eq [OF assms, of now] show ?thesis
    by (auto simp: rq_enque_def rq_remove_head_def verifyQueue_def rq_inv_def Let_def)
next
  case False
  with rq_purge_eq [OF assms, of now] show ?thesis
    by (auto simp: rq_enque_def verifyQueue_def rq_inv_def Let_def)
qed

lemma rq_deque_ok:
  assumes "rq_inv q"
  shows "\<exists>q'. rq_deque now dst q = Inr (find (\<lambda>p. daddr p = dst) (fresh now q), q') \<and> rq_inv q'
    \<and> q_list q' = remove_first (\<lambda>p. daddr p = dst) (fresh now q)
    \<and> q_timeout q' = q_timeout q \<and> q_limit q' = q_limit q"
proof -
  let ?q = "q\<lparr>q_list := fresh now q, q_len := int (length (fresh now q))\<rparr>"
  from rq_purge_eq [OF assms, of now] have p: "rq_purge now q = Inr ?q" "rq_inv ?q" by auto
  show ?thesis
  proof (cases "find (\<lambda>p. daddr p = dst) (fresh now q)")
    case None
    with p show ?thesis by (simp add: rq_deque_def findPacketWithDst_def remove_first_absent)
  next
    case (Some x)
    then have "find (\<lambda>p. daddr p = dst) (q_list ?q) = Some x" by simp
    from verify_unlink [OF p(2) this] p(1) Some show ?thesis
      by (simp add: rq_deque_def findPacketWithDst_def Let_def) (simp add: rq_unlink_def)
  qed
qed

section \<open>Emptying the queue for a destination\<close>

text \<open>
  The loops \<open>while ((p = rqueue.deque(dst)))\<close> of the agent take out all packets for a
  destination; what they do with each does not touch the queue.
\<close>

lemma rq_purge_length: "rq_purge now q = Inr q' \<Longrightarrow> length (q_list q') \<le> length (q_list q)"
proof (induction now q rule: rq_purge.induct)
  case (1 now q)
  show ?case
  proof (cases "findAgedPacket now q")
    case None
    with 1(2) show ?thesis by (subst (asm) rq_purge.simps) simp
  next
    case (Some p)
    let ?q = "rq_unlink (\<lambda>p. tstamp p < now) q"
    from Some have "Suc (length (q_list ?q)) = length (q_list q)"
      by (auto simp: findAgedPacket_def rq_unlink_def dest: length_remove_first)
    moreover from Some 1(2) obtain u where v: "verifyQueue ?q = Inr u" and "rq_purge now ?q = Inr q'"
      by (subst (asm) rq_purge.simps) (auto split: sum.splits)
    moreover from 1(1) [OF Some v] this have "length (q_list q') \<le> length (q_list ?q)" by simp
    ultimately show ?thesis by simp
  qed
qed

lemma rq_deque_length:
  assumes "rq_deque now dst q = Inr (Some p, q')"
  shows "length (q_list q') < length (q_list q)"
proof -
  from assms obtain q1 where q1: "rq_purge now q = Inr q1" by (auto simp: rq_deque_def bindR_eq_Inr)
  with assms obtain x where f: "find (\<lambda>p. daddr p = dst) (q_list q1) = Some x"
    by (auto simp: rq_deque_def findPacketWithDst_def split: option.splits)
  with assms q1 have "q' = rq_unlink (\<lambda>p. daddr p = dst) q1"
    by (auto simp: rq_deque_def findPacketWithDst_def bindR_eq_Inr Let_def)
  with length_remove_first [OF f] rq_purge_length [OF q1] show ?thesis by (simp add: rq_unlink_def)
qed

function rq_drain :: "time \<Rightarrow> nsaddr \<Rightarrow> 'b rqueue \<Rightarrow> ('b packet list \<times> 'b rqueue) res" where
  "rq_drain now dst q =
     (case rq_deque now dst q of
        Inl e \<Rightarrow> Inl e
      | Inr (None, q') \<Rightarrow> Inr ([], q')
      | Inr (Some p, q') \<Rightarrow>
          (case rq_drain now dst q' of
             Inl e \<Rightarrow> Inl e
           | Inr (ps, q'') \<Rightarrow> Inr (p # ps, q'')))"
  by pat_completeness auto
termination
  by (relation "measure (\<lambda>(now, dst, q). length (q_list q))") (auto dest: rq_deque_length)

declare rq_drain.simps [simp del]

lemma fresh_idem: "q_list q' = fresh now q \<Longrightarrow> fresh now q' = q_list q'"
  by (simp add: fresh_def)

lemma rq_drain_eq:
  "rq_inv q \<Longrightarrow> \<exists>q'. rq_drain now dst q = Inr (filter (\<lambda>p. daddr p = dst) (fresh now q), q') \<and> rq_inv q'
     \<and> q_list q' = filter (\<lambda>p. daddr p \<noteq> dst) (fresh now q)
     \<and> q_timeout q' = q_timeout q \<and> q_limit q' = q_limit q"
proof (induction now dst q rule: rq_drain.induct)
  case (1 now dst q)
  from rq_deque_ok [OF 1(2), of now dst] obtain q'
    where d: "rq_deque now dst q = Inr (find (\<lambda>p. daddr p = dst) (fresh now q), q')" "rq_inv q'"
      "q_list q' = remove_first (\<lambda>p. daddr p = dst) (fresh now q)"
      "q_timeout q' = q_timeout q" "q_limit q' = q_limit q" by blast
  show ?case
  proof (cases "find (\<lambda>p. daddr p = dst) (fresh now q)")
    case None
    then have "\<forall>p \<in> set (fresh now q). daddr p \<noteq> dst" by (simp add: find_None_iff)
    with None d show ?thesis
      by (subst rq_drain.simps) (auto simp: remove_first_absent filter_empty_conv filter_id_conv)
  next
    case (Some p)
    have "fresh now q' = q_list q'"
      unfolding fresh_def d(3) using set_remove_first_sub [of "\<lambda>p. daddr p = dst" "fresh now q"]
      by (auto simp: filter_id_conv fresh_def)
    moreover note filter_remove_first [OF Some]
    ultimately show ?thesis
      using 1(1) [OF d(1) _ _ d(2)] Some d by (subst rq_drain.simps) fastforce
  qed
qed


section \<open>Properties\<close>

lemma rq_deque_head_ok:
  assumes "rq_inv q"
  shows "\<exists>q' ps. rq_deque_head now q = Inr (case fresh now q of [] \<Rightarrow> None | p # ps \<Rightarrow> Some p, q') \<and> rq_inv q'
    \<and> q_list q' = drop 1 (fresh now q) \<and> q_timeout q' = q_timeout q \<and> q_limit q' = q_limit q"
proof -
  let ?q = "q\<lparr>q_list := fresh now q, q_len := int (length (fresh now q))\<rparr>"
  from rq_purge_eq [OF assms, of now] have "rq_purge now q = Inr ?q" "rq_inv ?q" by auto
  then show ?thesis
    by (cases "fresh now q") (auto simp: rq_deque_head_def rq_remove_head_def verifyQueue_def rq_inv_def)
qed

text \<open>Any sequence of operations, with the packets taken out; and the same on a plain list.\<close>

datatype 'b rq_op = Put_packet "'b packet" | Take_for nsaddr | Take_head

definition rq_do :: "time \<Rightarrow> 'b rq_op \<Rightarrow> 'b rqueue \<Rightarrow> ('b packet option \<times> 'b rqueue) res" where
  "rq_do now c q =
     (case c of
        Put_packet p \<Rightarrow> bindR (rq_enque now p q) (\<lambda>(q, as). Inr (None, q))
      | Take_for d \<Rightarrow> rq_deque now d q
      | Take_head \<Rightarrow> rq_deque_head now q)"

fun rq_run :: "(time \<times> 'b rq_op) list \<Rightarrow> 'b rqueue \<Rightarrow> ('b packet option list \<times> 'b rqueue) res" where
  "rq_run [] q = Inr ([], q)"
| "rq_run ((t, c) # cs) q = bindR (rq_do t c q) (\<lambda>(x, q). bindR (rq_run cs q) (\<lambda>(xs, q). Inr (x # xs, q)))"

definition live :: "time \<Rightarrow> 'b packet list \<Rightarrow> 'b packet list" where
  "live now ps = filter (\<lambda>p. \<not> tstamp p < now) ps"

definition spec_do :: "time \<Rightarrow> 'b rq_op \<Rightarrow> 'b packet list \<Rightarrow> 'b packet option \<times> 'b packet list" where
  "spec_do now c ps =
     (case c of
        Put_packet p \<Rightarrow>
          (None, (if length (live now ps) = 64 then drop 1 (live now ps) else live now ps) @ [p\<lparr>tstamp := now + 30\<rparr>])
      | Take_for d \<Rightarrow> (find (\<lambda>p. daddr p = d) (live now ps), remove_first (\<lambda>p. daddr p = d) (live now ps))
      | Take_head \<Rightarrow> (case live now ps of [] \<Rightarrow> None | p # ps \<Rightarrow> Some p, drop 1 (live now ps)))"

fun spec_run :: "(time \<times> 'b rq_op) list \<Rightarrow> 'b packet list \<Rightarrow> 'b packet option list \<times> 'b packet list" where
  "spec_run [] ps = ([], ps)"
| "spec_run ((t, c) # cs) ps = (case spec_do t c ps of (x, ps) \<Rightarrow> case spec_run cs ps of (xs, ps) \<Rightarrow> (x # xs, ps))"

definition rq_std :: "'b rqueue \<Rightarrow> bool" where
  "rq_std q \<longleftrightarrow> rq_inv q \<and> q_limit q = AODV_RTQ_MAX_LEN \<and> q_timeout q = AODV_RTQ_TIMEOUT"

lemma rq_do_spec:
  assumes "rq_std q"
  shows "\<exists>x q'. rq_do t c q = Inr (x, q') \<and> rq_std q' \<and> spec_do t c (q_list q) = (x, q_list q')"
proof -
  from assms have inv: "rq_inv q" by (simp add: rq_std_def)
  have live: "fresh t q = live t (q_list q)" by (simp add: fresh_def live_def)
  show ?thesis
  proof (cases c)
    case (Put_packet p)
    with rq_enque_ok [OF inv, of t p] assms show ?thesis
      by (auto simp: rq_do_def spec_do_def rq_std_def live AODV_RTQ_MAX_LEN_def AODV_RTQ_TIMEOUT_def split: if_splits)
  next
    case (Take_for d)
    with rq_deque_ok [OF inv, of t d] assms show ?thesis
      by (auto simp: rq_do_def spec_do_def rq_std_def live)
  next
    case Take_head
    with rq_deque_head_ok [OF inv, of t] assms show ?thesis
      by (auto simp: rq_do_def spec_do_def rq_std_def live)
  qed
qed

lemma rq_run_spec:
  "rq_std q \<Longrightarrow> \<exists>xs q'. rq_run cs q = Inr (xs, q') \<and> rq_std q' \<and> spec_run cs (q_list q) = (xs, q_list q')"
proof (induction cs arbitrary: q)
  case (Cons tc cs)
  obtain t c where tc: "tc = (t, c)" by (cases tc)
  from rq_do_spec [OF Cons.prems, of t c] obtain x q1
    where "rq_do t c q = Inr (x, q1)" "rq_std q1" "spec_do t c (q_list q) = (x, q_list q1)" by blast
  with Cons.IH [of q1] tc show ?case by fastforce
qed simp

lemma rq_std_new: "rq_std rqueue_new" "q_list rqueue_new = []"
  by (simp_all add: rq_std_def rq_inv_new) (simp_all add: rqueue_new_def)

text \<open>
  C37: The packet queue of AODV behaves, in every sequence of operations, as a list of packets that
  first loses its timed out packets, takes at most 64 packets and gives up the oldest for a new
  one, and hands out the oldest packet (for a destination); its own consistency check never fails.
\<close>

theorem rq_refines_list:
  "\<exists>xs q. rq_run cs rqueue_new = Inr (xs, q) \<and> spec_run cs [] = (xs, q_list q)
    \<and> q_len q = int (length (q_list q)) \<and> q_len q \<le> 64"
proof -
  from rq_run_spec [OF rq_std_new(1), of cs] obtain xs q
    where "rq_run cs rqueue_new = Inr (xs, q)" "rq_std q" "spec_run cs [] = (xs, q_list q)"
    by (auto simp: rq_std_new)
  then show ?thesis by (auto simp: rq_std_def rq_inv_def AODV_RTQ_MAX_LEN_def)
qed

text \<open>
  A packet that has timed out in the queue disappears with the next arrival without being
  handed to the drop target, so no trace tells of its loss.
\<close>

theorem rq_expired_vanish:
  assumes "rq_inv q" and "p \<in> set (q_list q)" "tstamp p < now" and "q_timeout q \<ge> 0"
  shows "\<exists>q' as. rq_enque now p' q = Inr (q', as) \<and> p \<notin> set (q_list q') \<and> (\<forall>r. Drop p r \<notin> set as)"
proof -
  have "p \<notin> set (fresh now q)" "p \<noteq> p'\<lparr>tstamp := now + q_timeout q\<rparr>"
    using assms(3,4) by (auto simp: fresh_def)
  with rq_enque_ok [OF assms(1), of now p'] show ?thesis by (fastforce split: if_splits)
qed

theorem rq_expired_vanish_witness:
  "\<exists>q' as. rq_enque 40 (packet_alloc 2 ()) (rqueue_new\<lparr>q_list := [packet_alloc 1 ()], q_len := 1\<rparr>) = Inr (q', as)
    \<and> packet_alloc 1 () \<notin> set (q_list q')"
proof -
  let ?q = "rqueue_new\<lparr>q_list := [packet_alloc 1 ()], q_len := 1\<rparr>"
  have "rq_inv ?q" "q_timeout ?q \<ge> 0"
    by (simp_all add: rq_inv_def rqueue_new_def AODV_RTQ_MAX_LEN_def AODV_RTQ_TIMEOUT_def)
  moreover have "tstamp (packet_alloc 1 ()) < (40 :: time)" by (simp add: packet_alloc_def)
  ultimately show ?thesis
    using rq_expired_vanish [of ?q "packet_alloc 1 ()" 40 "packet_alloc 2 ()"] by auto
qed

end
