(* ===== verification/AodvAgent.thy ===== *)
theory AodvAgent
  imports AodvTable AodvQueue Sched
begin

text \<open>
  The AODV routing agent of \<open>aodv/aodv.cc\<close>, with local repair and link layer detection switched
  on as in \<open>aodv.h\<close>. Every operation takes the agent to the agent, or to the assertion that
  fails; what it does to packets is appended to \<open>a_out\<close>.
\<close>

section \<open>Constants\<close>

definition MY_ROUTE_TIMEOUT :: nat where "MY_ROUTE_TIMEOUT = 10"
definition ACTIVE_ROUTE_TIMEOUT :: time where "ACTIVE_ROUTE_TIMEOUT = 10"
definition REV_ROUTE_LIFE :: time where "REV_ROUTE_LIFE = 6"
definition RREQ_RETRIES :: nat where "RREQ_RETRIES = 3"
definition MAX_RREQ_TIMEOUT :: time where "MAX_RREQ_TIMEOUT = 10"
definition TTL_START :: int where "TTL_START = 5"
definition TTL_THRESHOLD :: int where "TTL_THRESHOLD = 7"
definition TTL_INCREMENT :: int where "TTL_INCREMENT = 2"
definition AODV_NETWORK_DIAMETER :: int where "AODV_NETWORK_DIAMETER = 30"
definition DELAY :: time where "DELAY = 1"
definition NO_DELAY :: time where "NO_DELAY = - 1"
definition ARP_DELAY :: time where "ARP_DELAY = 1 / 100"
definition HELLO_INTERVAL :: time where "HELLO_INTERVAL = 1"
definition ALLOWED_HELLO_LOSS :: nat where "ALLOWED_HELLO_LOSS = 3"
definition MaxHelloInterval :: time where "MaxHelloInterval = 5 / 4 * HELLO_INTERVAL"
definition MinHelloInterval :: time where "MinHelloInterval = 3 / 4 * HELLO_INTERVAL"
definition FREQUENCY :: time where "FREQUENCY = 1 / 2"
definition AODV_MAX_ERRORS :: nat where "AODV_MAX_ERRORS = 100"

section \<open>Packets\<close>

record aodv_request =
  rq_hop_count :: u8
  rq_bcast_id :: u32
  rq_dst :: nsaddr
  rq_dst_seqno :: u32
  rq_src :: nsaddr
  rq_src_seqno :: u32
  rq_timestamp :: time

record aodv_reply =
  p_hop_count :: u8
  p_dst :: nsaddr
  p_dst_seqno :: u32
  p_src :: nsaddr
  p_lifetime :: time
  p_timestamp :: time

text \<open>The two arrays of an error packet have \<open>AODV_MAX_ERRORS\<close> cells each.\<close>

record aodv_error =
  DestCount :: u8
  unreachable :: "(nsaddr \<times> u32) list"

text \<open>
  The header structs overlay each other; the type field says which one is meant. A packet of
  another protocol has no AODV header.
\<close>

datatype aodv_hdr =
  RREQ aodv_request | RREP aodv_reply | RERR aodv_error | HELLO aodv_reply | AODVTYPE u8

type_synonym aodv_packet = "aodv_hdr packet"

definition request_size :: int where "request_size = 7 * 4"
definition reply_hdr_size :: int where "reply_hdr_size = 6 * 4"
definition error_size :: "aodv_error \<Rightarrow> int" where
  "error_size re = (uint (DestCount re) * 2 + 1) * 4"

definition error_new :: aodv_error where
  "error_new = \<lparr>DestCount = 0, unreachable = replicate AODV_MAX_ERRORS (0, 0)\<rparr>"

text \<open>\<open>unreachable_dst[DestCount] = ...; DestCount += 1\<close>, without a bound check in the code.\<close>

definition add_unreachable :: "nsaddr \<Rightarrow> u32 \<Rightarrow> aodv_error \<Rightarrow> aodv_error res" where
  "add_unreachable d s re =
     (if unat (DestCount re) < length (unreachable re)
      then Inr (re\<lparr>unreachable := (unreachable re)[unat (DestCount re) := (d, s)], DestCount := DestCount re + 1\<rparr>)
      else Inl OutOfBounds)"

section \<open>State\<close>

text \<open>
  Beside the data members: the address of the agent (\<open>here_\<close>), whether it has a target and a port
  classifier, the interface queue when there is one, the clock, the random numbers to come, the
  uid of the next packet allocated, and the effects so far. Use of a null \<open>ifqueue\<close> or \<open>dmux_\<close>
  ends the simulation.
\<close>

record aodv =
  a_index :: nsaddr
  a_here :: nsaddr
  a_target :: bool
  a_dmux :: bool
  a_seqno :: u32
  a_bid :: int
  rtable :: "rt_entry list"
  nbhead :: "aodv_neighbor list"
  bihead :: "broadcast_id list"
  rqueue :: "aodv_hdr rqueue"
  ifqueue :: "aodv_packet list option"
  a_now :: time
  a_rng :: "nat \<Rightarrow> real"
  a_uid :: int
  a_out :: "aodv_hdr act list"

definition aodv_new :: "nsaddr \<Rightarrow> (nat \<Rightarrow> real) \<Rightarrow> aodv" where
  "aodv_new i rng =
     \<lparr>a_index = i, a_here = i, a_target = False, a_dmux = False, a_seqno = 2, a_bid = 1, rtable = [],
      nbhead = [], bihead = [], rqueue = rqueue_new, ifqueue = None, a_now = 0, a_rng = rng, a_uid = 1, a_out = []\<rparr>"

text \<open>The commands \<open>target\<close>, \<open>port-dmux\<close> and \<open>if-queue\<close> with objects that exist; the queue is empty.\<close>

definition set_target :: "aodv \<Rightarrow> aodv" where
  "set_target s = s\<lparr>a_target := True\<rparr>"

definition set_port_dmux :: "aodv \<Rightarrow> aodv" where
  "set_port_dmux s = s\<lparr>a_dmux := True\<rparr>"

definition set_if_queue :: "aodv \<Rightarrow> aodv" where
  "set_if_queue s = s\<lparr>ifqueue := Some []\<rparr>"

definition aodv_attached :: "nsaddr \<Rightarrow> (nat \<Rightarrow> real) \<Rightarrow> aodv" where
  "aodv_attached i rng = set_if_queue (set_port_dmux (set_target (aodv_new i rng)))"

definition emit :: "aodv_hdr act \<Rightarrow> aodv \<Rightarrow> aodv" where
  "emit a s = s\<lparr>a_out := a_out s @ [a]\<rparr>"

definition emit_all :: "aodv_hdr act list \<Rightarrow> aodv \<Rightarrow> aodv" where
  "emit_all as s = s\<lparr>a_out := a_out s @ as\<rparr>"

definition alloc_pkt :: "aodv_hdr \<Rightarrow> aodv \<Rightarrow> aodv_packet \<times> aodv" where
  "alloc_pkt h s = (packet_alloc (a_uid s) h, s\<lparr>a_uid := a_uid s + 1\<rparr>)"

definition uniform :: "aodv \<Rightarrow> real \<times> aodv" where
  "uniform s = (a_rng s 0, s\<lparr>a_rng := \<lambda>n. a_rng s (Suc n)\<rparr>)"

text \<open>The entry behind a pointer, and a write through it.\<close>

definition entry :: "aodv \<Rightarrow> nsaddr \<Rightarrow> rt_entry option" where
  "entry s d = art_lookup (rtable s) d"

definition deref :: "aodv \<Rightarrow> nsaddr \<Rightarrow> rt_entry res" where
  "deref s d = (case entry s d of None \<Rightarrow> Inl NullDeref | Some rt \<Rightarrow> Inr rt)"

definition put :: "nsaddr \<Rightarrow> (rt_entry \<Rightarrow> rt_entry) \<Rightarrow> aodv \<Rightarrow> aodv" where
  "put d f s = s\<lparr>rtable := art_write (rtable s) d f\<rparr>"

text \<open>\<open>rt = rtable.rt_lookup(d); if (rt == 0) rt = rtable.rt_add(d)\<close>.\<close>

definition ensure :: "nsaddr \<Rightarrow> aodv \<Rightarrow> aodv res" where
  "ensure d s =
     (case entry s d of
        Some rt \<Rightarrow> Inr s
      | None \<Rightarrow> bindR (art_add (rtable s) d) (\<lambda>t. Inr (s\<lparr>rtable := t\<rparr>)))"

definition enque :: "aodv_packet \<Rightarrow> aodv \<Rightarrow> aodv res" where
  "enque p s =
     bindR (rq_enque (a_now s) p (rqueue s)) (\<lambda>(q, as). Inr (emit_all as (s\<lparr>rqueue := q\<rparr>)))"

definition drain :: "nsaddr \<Rightarrow> aodv \<Rightarrow> (aodv_packet list \<times> aodv) res" where
  "drain d s = bindR (rq_drain (a_now s) d (rqueue s)) (\<lambda>(ps, q). Inr (ps, s\<lparr>rqueue := q\<rparr>))"

section \<open>Transmission\<close>

text \<open>\<open>forward\<close>; the pointer to the route is the destination of the entry, null is \<open>None\<close>.\<close>

definition aodv_forward :: "nsaddr option \<Rightarrow> aodv_packet \<Rightarrow> time \<Rightarrow> aodv \<Rightarrow> aodv res" where
  "aodv_forward ro p delay s =
     (if ttl p = 0 then Inr (emit (Drop p DROP_RTR_TTL) s)
      else if (ptype p \<noteq> PT_AODV \<and> direction p = UP \<and> daddr p = IP_BROADCAST) \<or> daddr p = a_here s
      then (if a_dmux s then Inr (emit (Deliver p) s) else Inl NullDeref)
      else
        bindR
          (case ro of
             Some d \<Rightarrow>
               bindR (deref s d) (\<lambda>rt.
               bindR (assertC (r_flags rt = RTF_UP)) (\<lambda>_.
                 Inr (p\<lparr>next_hop := r_nexthop rt, addr_type := NS_AF_INET, direction := DOWN\<rparr>,
                      put d (\<lambda>rt. rt\<lparr>r_expire := a_now s + ACTIVE_ROUTE_TIMEOUT\<rparr>) s)))
           | None \<Rightarrow>
               bindR (assertC (daddr p = IP_BROADCAST)) (\<lambda>_.
                 Inr (p\<lparr>addr_type := NS_AF_NONE, direction := DOWN\<rparr>, s)))
          (\<lambda>(p, s).
             if daddr p = IP_BROADCAST then
               bindR (assertC (ro = None)) (\<lambda>_.
                 if ptype p = PT_AODV
                 then (case uniform s of (u, s) \<Rightarrow> Inr (emit (Sched p (1 / 100 * u)) s))
                 else Inr (emit (Sched p 0) s))
             else if delay > 0 then Inr (emit (Sched p delay) s)
             else Inr (emit (Sched p 0) s)))"

text \<open>The ttl of a request: the expanding ring search.\<close>

definition request_ttl :: "int \<Rightarrow> int" where
  "request_ttl lttl =
     (if lttl = 0 then TTL_START
      else if lttl < TTL_THRESHOLD then lttl + TTL_INCREMENT
      else AODV_NETWORK_DIAMETER)"

definition request_cnt :: "int \<Rightarrow> u8 \<Rightarrow> u8" where
  "request_cnt lttl cnt = (if lttl \<noteq> 0 \<and> \<not> lttl < TTL_THRESHOLD then cnt + 1 else cnt)"

text \<open>The entry after the timeout of the next request has been set.\<close>

definition request_entry :: "time \<Rightarrow> rt_entry \<Rightarrow> rt_entry" where
  "request_entry now rt =
     (let lttl = max (r_req_last_ttl rt) (r_last_hop_count rt);
          t = request_ttl lttl;
          cnt = request_cnt lttl (r_req_cnt rt);
          tout = 2 * real_of_int t * PerHopTime (Some rt);
          tout = (if cnt > 0 then tout * real (unat cnt) else tout);
          tout = tout + now;
          tout = (if tout > now + MAX_RREQ_TIMEOUT then now + MAX_RREQ_TIMEOUT else tout)
      in rt\<lparr>r_req_cnt := cnt, r_req_last_ttl := t, r_req_timeout := tout, r_expire := 0\<rparr>)"

definition drop_all :: "reason \<Rightarrow> aodv_packet list \<Rightarrow> aodv \<Rightarrow> aodv" where
  "drop_all r ps s = emit_all (map (\<lambda>p. Drop p r) ps) s"

text \<open>\<open>while ((p = ifqueue->filter(i))) drop(p, DROP_RTR_MAC_CALLBACK)\<close>.\<close>

definition ifq_drop :: "nsaddr \<Rightarrow> aodv \<Rightarrow> aodv res" where
  "ifq_drop i s =
     (case ifqueue s of
        None \<Rightarrow> Inl NullDeref
      | Some q \<Rightarrow> (case ifq_drain i q of
          (ps, q) \<Rightarrow> Inr (drop_all DROP_RTR_MAC_CALLBACK ps (s\<lparr>ifqueue := Some q\<rparr>))))"

definition sendRequest :: "nsaddr \<Rightarrow> aodv \<Rightarrow> aodv res" where
  "sendRequest dst s0 =
     (case alloc_pkt (AODVTYPE 0) s0 of
        (p, s) \<Rightarrow>
          bindR (assertC (entry s dst \<noteq> None)) (\<lambda>_.
          bindR (deref s dst) (\<lambda>rt.
            if r_flags rt = RTF_UP then
              bindR (assertC (hops rt \<noteq> INFINITY2)) (\<lambda>_. Inr (emit (Free p) s))
            else if r_req_timeout rt > a_now s then Inr (emit (Free p) s)
            else if unat (r_req_cnt rt) > RREQ_RETRIES then
              (let s = put dst (\<lambda>rt. rt\<lparr>r_req_timeout := a_now s + MAX_RREQ_TIMEOUT, r_req_cnt := 0\<rparr>) s in
               bindR (drain dst s) (\<lambda>(ps, s).
                 Inr (emit (Free p) (drop_all DROP_RTR_NO_ROUTE ps s))))
            else
              (let s = put dst (request_entry (a_now s)) s;
                   rt' = request_entry (a_now s) rt;
                   p = p\<lparr>ttl := r_req_last_ttl rt'\<rparr>;
                   p = p\<lparr>ptype := PT_AODV, psize := IP_HDR_LEN + request_size, iface := - 2,
                         perror := 0, addr_type := NS_AF_NONE, prev_hop := a_index s\<rparr>;
                   p = p\<lparr>saddr := a_index s, daddr := IP_BROADCAST, sport := RT_PORT, dport := RT_PORT\<rparr>;
                   b = a_bid s;
                   s = s\<lparr>a_bid := a_bid s + 1\<rparr>;
                   s = s\<lparr>a_seqno := a_seqno s + 2\<rparr>
               in bindR (assertC (a_seqno s mod 2 = 0)) (\<lambda>_.
                    Inr (emit (Sched (p\<lparr>body := RREQ
                       \<lparr>rq_hop_count = 1, rq_bcast_id = word_of_int b, rq_dst = dst,
                        rq_dst_seqno = r_seqno rt', rq_src = a_index s, rq_src_seqno = a_seqno s,
                        rq_timestamp = a_now s\<rparr>\<rparr>) 0) s))))))"

definition sendReply :: "nsaddr \<Rightarrow> u32 \<Rightarrow> nsaddr \<Rightarrow> u32 \<Rightarrow> u32 \<Rightarrow> time \<Rightarrow> aodv \<Rightarrow> aodv res" where
  "sendReply ipdst hop_count rpdst rpseq lifetime tstmp s0 =
     (case alloc_pkt (AODVTYPE 0) s0 of
        (p, s) \<Rightarrow>
          bindR (assertC (entry s ipdst \<noteq> None)) (\<lambda>_.
          bindR (deref s ipdst) (\<lambda>rt.
            (let p = p\<lparr>body := RREP \<lparr>p_hop_count = ucast hop_count, p_dst = rpdst, p_dst_seqno = rpseq,
                         p_src = a_index s, p_lifetime = real (unat lifetime), p_timestamp = tstmp\<rparr>\<rparr>;
                 p = p\<lparr>ptype := PT_AODV, psize := IP_HDR_LEN + reply_hdr_size, iface := - 2, perror := 0,
                       addr_type := NS_AF_INET, next_hop := r_nexthop rt, prev_hop := a_index s,
                       direction := DOWN\<rparr>;
                 p = p\<lparr>saddr := a_index s, daddr := ipdst, sport := RT_PORT, dport := RT_PORT,
                       ttl := AODV_NETWORK_DIAMETER\<rparr>
             in Inr (emit (Sched p 0) s)))))"

definition sendError :: "aodv_packet \<Rightarrow> aodv_error \<Rightarrow> bool \<Rightarrow> aodv \<Rightarrow> aodv" where
  "sendError p re jitter s =
     (let p = p\<lparr>body := RERR re\<rparr>;
          p = p\<lparr>ptype := PT_AODV, psize := IP_HDR_LEN + error_size re, iface := - 2, perror := 0,
                addr_type := NS_AF_NONE, next_hop := 0, prev_hop := a_index s, direction := DOWN\<rparr>;
          p = p\<lparr>saddr := a_index s, daddr := IP_BROADCAST, sport := RT_PORT, dport := RT_PORT, ttl := 1\<rparr>
      in if jitter then (case uniform s of (u, s) \<Rightarrow> emit (Sched p (1 / 100 * u)) s)
         else emit (Sched p 0) s)"

definition sendHello :: "aodv \<Rightarrow> aodv" where
  "sendHello s0 =
     (case alloc_pkt (AODVTYPE 0) s0 of
        (p, s) \<Rightarrow>
          (let p = p\<lparr>body := HELLO \<lparr>p_hop_count = 1, p_dst = a_index s, p_dst_seqno = a_seqno s, p_src = 0,
                       p_lifetime = (1 + real ALLOWED_HELLO_LOSS) * HELLO_INTERVAL, p_timestamp = 0\<rparr>\<rparr>;
               p = p\<lparr>ptype := PT_AODV, psize := IP_HDR_LEN + reply_hdr_size, iface := - 2, perror := 0,
                     addr_type := NS_AF_NONE, prev_hop := a_index s\<rparr>;
               p = p\<lparr>saddr := a_index s, daddr := IP_BROADCAST, sport := RT_PORT, dport := RT_PORT, ttl := 1\<rparr>
           in emit (Sched p 0) s))"

section \<open>Link failures\<close>

text \<open>The loop of \<open>handle_link_failure\<close> over the routing table.\<close>

fun link_failure_loop :: "nsaddr \<Rightarrow> rt_entry list \<Rightarrow> aodv_error \<Rightarrow> (rt_entry list \<times> aodv_error) res" where
  "link_failure_loop i [] re = Inr ([], re)"
| "link_failure_loop i (rt # rts) re =
     bindR
       (if hops rt \<noteq> INFINITY2 \<and> r_nexthop rt = i then
          bindR (assertC (r_flags rt = RTF_UP)) (\<lambda>_.
          bindR (assertC (r_seqno rt mod 2 = 0)) (\<lambda>_.
            (let rt = rt\<lparr>r_seqno := r_seqno rt + 1\<rparr> in
             bindR (add_unreachable (r_dst rt) (r_seqno rt) re) (\<lambda>re. Inr (rt_down rt, re)))))
        else Inr (rt, re))
       (\<lambda>(rt, re).
          bindR (link_failure_loop i rts re) (\<lambda>(rts, re). Inr (pc_delete i rt # rts, re)))"

definition handle_link_failure :: "nsaddr \<Rightarrow> aodv \<Rightarrow> aodv res" where
  "handle_link_failure i s0 =
     (case alloc_pkt (AODVTYPE 0) s0 of
        (rerr, s) \<Rightarrow>
          bindR (link_failure_loop i (rtable s) error_new) (\<lambda>(rts, re).
            (let s = s\<lparr>rtable := rts\<rparr> in
             if DestCount re > 0 then Inr (sendError rerr re False s) else Inr (emit (Free rerr) s))))"

text \<open>\<open>nb_insert\<close>, \<open>nb_delete\<close>: a change of the neighbour set raises the sequence number.\<close>

definition nb_lifetime :: time where
  "nb_lifetime = 3 / 2 * real ALLOWED_HELLO_LOSS * HELLO_INTERVAL"

definition nb_insert :: "nsaddr \<Rightarrow> aodv \<Rightarrow> aodv res" where
  "nb_insert i s =
     (let s = s\<lparr>nbhead := nb_link (nbhead s) \<lparr>nb_addr = i, nb_expire = a_now s + nb_lifetime\<rparr>,
                a_seqno := a_seqno s + 2\<rparr>
      in bindR (assertC (a_seqno s mod 2 = 0)) (\<lambda>_. Inr s))"

definition nb_lookup :: "nsaddr \<Rightarrow> aodv \<Rightarrow> aodv_neighbor option" where
  "nb_lookup i s = nb_find (nbhead s) i"

definition nb_delete :: "nsaddr \<Rightarrow> aodv \<Rightarrow> aodv res" where
  "nb_delete i s =
     (let s = s\<lparr>a_seqno := a_seqno s + 2\<rparr> in
      bindR (assertC (a_seqno s mod 2 = 0)) (\<lambda>_.
        handle_link_failure i (s\<lparr>nbhead := nb_unlink (nbhead s) i\<rparr>)))"

fun nb_purge_loop :: "aodv_neighbor list \<Rightarrow> aodv \<Rightarrow> aodv res" where
  "nb_purge_loop [] s = Inr s"
| "nb_purge_loop (n # ns) s =
     bindR (if nb_expire n \<le> a_now s then nb_delete (nb_addr n) s else Inr s) (nb_purge_loop ns)"

definition nb_purge :: "aodv \<Rightarrow> aodv res" where
  "nb_purge s = nb_purge_loop (nbhead s) s"

text \<open>
  \<open>local_rt_repair\<close>. The delay of the timer is \<open>rt_req_timeout\<close>, which holds a point in time.
  The copy is made of the packet in the queue, whose time stamp \<open>enque\<close> has set.
\<close>

definition local_rt_repair :: "nsaddr \<Rightarrow> aodv_packet \<Rightarrow> aodv \<Rightarrow> aodv res" where
  "local_rt_repair d p s =
     bindR (enque p s) (\<lambda>s.
     (let p = p\<lparr>tstamp := a_now s + q_timeout (rqueue s)\<rparr>;
          s = put d (\<lambda>rt. rt\<lparr>r_flags := RTF_IN_REPAIR\<rparr>) s in
      bindR (sendRequest d s) (\<lambda>s.
      bindR (deref s d) (\<lambda>rt.
        Inr (emit (Timer (p\<lparr>uid := a_uid s\<rparr>) (r_req_timeout rt)) (s\<lparr>a_uid := a_uid s + 1\<rparr>))))))"

text \<open>The link layer reports that it could not deliver a packet.\<close>

definition rt_ll_failed :: "aodv_packet \<Rightarrow> aodv \<Rightarrow> aodv res" where
  "rt_ll_failed p s =
     (if \<not> DATA_PACKET (ptype p) \<or> daddr p = IP_BROADCAST
      then Inr (emit (Drop p DROP_RTR_MAC_CALLBACK) s)
      else
        (case entry s (daddr p) of
           None \<Rightarrow> Inr (emit (Drop p DROP_RTR_MAC_CALLBACK) s)
         | Some rt \<Rightarrow>
             if num_forwards p > hops rt then local_rt_repair (daddr p) p s
             else
               (let s = emit (Drop p DROP_RTR_MAC_CALLBACK) s in
                bindR (ifq_drop (next_hop p) s) (nb_delete (next_hop p)))))"

section \<open>Data packets\<close>

definition rt_resolve :: "aodv_packet \<Rightarrow> aodv \<Rightarrow> aodv res" where
  "rt_resolve p s =
     bindR (ensure (daddr p) s) (\<lambda>s.
     bindR (deref s (daddr p)) (\<lambda>rt.
       if r_flags rt = RTF_UP then
         bindR (assertC (hops rt \<noteq> INFINITY2)) (\<lambda>_. aodv_forward (Some (daddr p)) p NO_DELAY s)
       else if saddr p = a_index s then bindR (enque p s) (sendRequest (daddr p))
       else if r_flags rt = RTF_IN_REPAIR then enque p s
       else
         (case alloc_pkt (AODVTYPE 0) s of
            (rerr, s) \<Rightarrow>
              bindR (assertC (r_flags rt = RTF_DOWN)) (\<lambda>_.
              bindR (add_unreachable (r_dst rt) (r_seqno rt) error_new) (\<lambda>re.
                Inr (emit (Drop p DROP_RTR_NO_ROUTE) (sendError rerr re False s)))))))"

text \<open>Queued packets that a route allows to send, each later than the one before.\<close>

fun send_spaced :: "nsaddr \<Rightarrow> time \<Rightarrow> aodv_packet list \<Rightarrow> aodv \<Rightarrow> (time \<times> aodv) res" where
  "send_spaced d delay [] s = Inr (delay, s)"
| "send_spaced d delay (p # ps) s =
     bindR (aodv_forward (Some d) p delay s) (send_spaced d (delay + ARP_DELAY) ps)"

text \<open>\<open>rt_purge\<close>, one entry after the other; the delay runs on from entry to entry.\<close>

definition rt_purge_entry :: "nsaddr \<Rightarrow> time \<times> aodv \<Rightarrow> (time \<times> aodv) res" where
  "rt_purge_entry d = (\<lambda>(delay, s).
     bindR (deref s d) (\<lambda>rt.
       if r_flags rt = RTF_UP \<and> r_expire rt < a_now s then
         bindR (assertC (hops rt \<noteq> INFINITY2)) (\<lambda>_.
         bindR (drain d s) (\<lambda>(ps, s).
           (let s = put d (\<lambda>rt. rt\<lparr>r_seqno := r_seqno rt + 1\<rparr>) (drop_all DROP_RTR_NO_ROUTE ps s) in
            bindR (assertC ((r_seqno rt + 1) mod 2 \<noteq> 0)) (\<lambda>_. Inr (delay, put d rt_down s)))))
       else if r_flags rt = RTF_UP then
         bindR (assertC (hops rt \<noteq> INFINITY2)) (\<lambda>_.
         bindR (drain d s) (\<lambda>(ps, s). send_spaced d delay ps s))
       else if rq_find d (rqueue s) then bindR (sendRequest d s) (\<lambda>s. Inr (delay, s))
       else Inr (delay, s)))"

fun rt_purge_loop :: "nsaddr list \<Rightarrow> time \<times> aodv \<Rightarrow> (time \<times> aodv) res" where
  "rt_purge_loop [] x = Inr x"
| "rt_purge_loop (d # ds) x = bindR (rt_purge_entry d x) (rt_purge_loop ds)"

definition aodv_rt_purge :: "aodv \<Rightarrow> aodv res" where
  "aodv_rt_purge s =
     bindR (rt_purge_loop (map r_dst (rtable s)) (0, s)) (\<lambda>(delay, s). Inr s)"

section \<open>Protocol packets\<close>

text \<open>Queued packets sent over a new reverse route; without the route they would be lost.\<close>

fun send_reverse :: "nsaddr \<Rightarrow> aodv_packet list \<Rightarrow> aodv \<Rightarrow> aodv res" where
  "send_reverse d [] s = Inr s"
| "send_reverse d (p # ps) s =
     bindR (deref s d) (\<lambda>rt.
     bindR (if r_flags rt = RTF_UP
            then bindR (assertC (hops rt \<noteq> INFINITY2)) (\<lambda>_. aodv_forward (Some d) p NO_DELAY s)
            else Inr s)
       (send_reverse d ps))"

text \<open>The request brings a fresher, or an equally fresh and shorter, reverse route.\<close>

definition fresher :: "u32 \<Rightarrow> int \<Rightarrow> rt_entry \<Rightarrow> bool" where
  "fresher sq hc rt \<longleftrightarrow> sq > r_seqno rt \<or> (sq = r_seqno rt \<and> hc < hops rt)"

definition reverse_entry :: "time \<Rightarrow> aodv_packet \<Rightarrow> aodv_request \<Rightarrow> rt_entry \<Rightarrow> rt_entry" where
  "reverse_entry now p rq rt =
     (let rt = rt_update (rq_src_seqno rq) (ucast (rq_hop_count rq)) (saddr p)
                 (max (r_expire rt) (now + REV_ROUTE_LIFE)) rt
      in if r_req_timeout rt > 0
         then rt\<lparr>r_req_cnt := 0, r_req_timeout := 0, r_req_last_ttl := uint (rq_hop_count rq),
                 r_expire := now + ACTIVE_ROUTE_TIMEOUT\<rparr>
         else rt)"

definition reverse_route :: "aodv_packet \<Rightarrow> aodv_request \<Rightarrow> aodv \<Rightarrow> aodv res" where
  "reverse_route p rq s =
     (let s = put (rq_src rq) (reverse_entry (a_now s) p rq) s in
      bindR (deref s (rq_src rq)) (\<lambda>rt0.
      bindR (assertC (r_flags rt0 = RTF_UP)) (\<lambda>_.
      bindR (drain (rq_src rq) s) (\<lambda>(ps, s). send_reverse (rq_src rq) ps s))))"

text \<open>The conversion of a \<open>double\<close> to \<open>u_int32_t\<close> truncates.\<close>

definition to_u32 :: "real \<Rightarrow> u32" where
  "to_u32 x = word_of_int (if x \<ge> 0 then \<lfloor>x\<rfloor> else \<lceil>x\<rceil>)"

text \<open>The answer to a request: as its destination, from a fresh enough route, or by passing it on.\<close>

definition reply_seqno :: "u32 \<Rightarrow> u32 \<Rightarrow> u32" where
  "reply_seqno own asked =
     (let sq = max own asked + 1 in if sq mod 2 \<noteq> 0 then sq + 1 else sq)"

definition answer_request :: "aodv_packet \<Rightarrow> aodv_request \<Rightarrow> aodv \<Rightarrow> aodv res" where
  "answer_request p rq s =
     (let ro = entry s (rq_dst rq) in
      if rq_dst rq = a_index s then
        (let s = s\<lparr>a_seqno := reply_seqno (a_seqno s) (rq_dst_seqno rq)\<rparr> in
         bindR (sendReply (rq_src rq) 1 (a_index s) (a_seqno s) (of_nat MY_ROUTE_TIMEOUT) (rq_timestamp rq) s)
           (\<lambda>s. Inr (emit (Free p) s)))
      else
        (case ro of
           Some rt \<Rightarrow>
             if hops rt \<noteq> INFINITY2 \<and> r_seqno rt \<ge> rq_dst_seqno rq then
               bindR (assertC (rq_dst rq = r_dst rt)) (\<lambda>_.
               bindR (sendReply (rq_src rq) (ucast (r_hops rt) + 1) (rq_dst rq) (r_seqno rt)
                        (to_u32 (r_expire rt - a_now s)) (rq_timestamp rq) s) (\<lambda>s.
               bindR (deref s (rq_src rq)) (\<lambda>rt0.
                 (let s = put (rq_dst rq) (pc_insert (r_nexthop rt0)) s;
                      s = put (rq_src rq) (pc_insert (r_nexthop rt)) s
                  in Inr (emit (Free p) s)))))
             else
               aodv_forward None (p\<lparr>saddr := a_index s, daddr := IP_BROADCAST,
                 body := RREQ (rq\<lparr>rq_hop_count := rq_hop_count rq + 1,
                                  rq_dst_seqno := max (r_seqno rt) (rq_dst_seqno rq)\<rparr>)\<rparr>) DELAY s
         | None \<Rightarrow>
             aodv_forward None (p\<lparr>saddr := a_index s, daddr := IP_BROADCAST,
               body := RREQ (rq\<lparr>rq_hop_count := rq_hop_count rq + 1\<rparr>)\<rparr>) DELAY s))"

definition recvRequest :: "aodv_packet \<Rightarrow> aodv_request \<Rightarrow> aodv \<Rightarrow> aodv res" where
  "recvRequest p rq s =
     (if rq_src rq = a_index s then Inr (emit (Free p) s)
      else if id_lookup (rq_src rq) (rq_bcast_id rq) (bihead s) then Inr (emit (Free p) s)
      else
        (let s = s\<lparr>bihead := id_insert (a_now s) (rq_src rq) (rq_bcast_id rq) (bihead s)\<rparr> in
         bindR (ensure (rq_src rq) s) (\<lambda>s.
         (let s = put (rq_src rq) (\<lambda>rt. rt\<lparr>r_expire := max (r_expire rt) (a_now s + REV_ROUTE_LIFE)\<rparr>) s in
          bindR (deref s (rq_src rq)) (\<lambda>rt0.
          bindR (if fresher (rq_src_seqno rq) (uint (rq_hop_count rq)) rt0
                 then reverse_route p rq s else Inr s)
            (answer_request p rq))))))"

text \<open>The entry after a reply has been accepted, at the source of the request with its latency.\<close>

definition reply_entry :: "time \<Rightarrow> bool \<Rightarrow> aodv_reply \<Rightarrow> rt_entry \<Rightarrow> rt_entry" where
  "reply_entry now mine rp rt =
     (let rt = rt_update (p_dst_seqno rp) (ucast (p_hop_count rp)) (p_src rp) (now + p_lifetime rp) rt;
          rt = rt\<lparr>r_req_cnt := 0, r_req_timeout := 0, r_req_last_ttl := uint (p_hop_count rp)\<rparr>
      in if mine
         then rt\<lparr>r_disc_latency := (r_disc_latency rt)[r_hist_indx rt :=
                   (now - p_timestamp rp) / real (unat (p_hop_count rp))],
                 r_hist_indx := (r_hist_indx rt + 1) mod MAX_HISTORY\<rparr>
         else rt)"

text \<open>The write of the latency goes to \<open>rt_disc_latency[hist_indx]\<close>.\<close>

definition latency_cell :: "bool \<Rightarrow> rt_entry \<Rightarrow> unit res" where
  "latency_cell mine rt =
     (if mine \<and> \<not> r_hist_indx rt < length (r_disc_latency rt) then Inl OutOfBounds else Inr ())"

text \<open>Queued packets sent over the new route, spaced for ARP.\<close>

fun send_replied :: "nsaddr \<Rightarrow> time \<Rightarrow> aodv_packet list \<Rightarrow> aodv \<Rightarrow> aodv res" where
  "send_replied d delay [] s = Inr s"
| "send_replied d delay (p # ps) s =
     bindR (deref s d) (\<lambda>rt.
       if hops rt \<noteq> INFINITY2 then
         bindR (assertC (r_flags rt = RTF_UP)) (\<lambda>_.
         bindR (aodv_forward (Some d) p delay s) (send_replied d (delay + ARP_DELAY) ps))
       else send_replied d delay ps s)"

definition relay_reply :: "aodv_packet \<Rightarrow> aodv_reply \<Rightarrow> aodv \<Rightarrow> aodv res" where
  "relay_reply p rp s =
     (case entry s (daddr p) of
        None \<Rightarrow> Inr (emit (Drop p DROP_RTR_NO_ROUTE) s)
      | Some rt0 \<Rightarrow>
          if hops rt0 \<noteq> INFINITY2 then
            bindR (assertC (r_flags rt0 = RTF_UP)) (\<lambda>_.
            bindR (aodv_forward (Some (daddr p))
                     (p\<lparr>body := RREP (rp\<lparr>p_hop_count := p_hop_count rp + 1, p_src := a_index s\<rparr>)\<rparr>) NO_DELAY s)
              (\<lambda>s. Inr (put (p_dst rp) (pc_insert (r_nexthop rt0)) s)))
          else Inr (emit (Drop p DROP_RTR_NO_ROUTE) s))"

definition recvReply :: "aodv_packet \<Rightarrow> aodv_reply \<Rightarrow> aodv \<Rightarrow> aodv res" where
  "recvReply p rp s =
     bindR (ensure (p_dst rp) s) (\<lambda>s.
     bindR (deref s (p_dst rp)) (\<lambda>rt.
     bindR
       (if fresher (p_dst_seqno rp) (uint (p_hop_count rp)) rt then
          bindR (latency_cell (daddr p = a_index s) rt) (\<lambda>_.
          (let s = put (p_dst rp) (reply_entry (a_now s) (daddr p = a_index s) rp) s in
           bindR (drain (p_dst rp) s) (\<lambda>(ps, s).
           bindR (send_replied (p_dst rp) 0 ps s) (\<lambda>s. Inr (False, s)))))
        else Inr (True, s))
       (\<lambda>(suppress, s).
          if daddr p = a_index s \<or> suppress then Inr (emit (Free p) s)
          else relay_reply p rp s)))"

text \<open>One unreachable destination of an error packet.\<close>

definition error_step :: "nsaddr \<Rightarrow> nsaddr \<times> u32 \<Rightarrow> aodv \<times> aodv_error \<Rightarrow> (aodv \<times> aodv_error) res" where
  "error_step from = (\<lambda>(d, sq) (s, nre).
     (case entry s d of
        None \<Rightarrow> Inr (s, nre)
      | Some rt \<Rightarrow>
          if hops rt \<noteq> INFINITY2 \<and> r_nexthop rt = from \<and> r_seqno rt \<le> sq then
            bindR (assertC (r_flags rt = RTF_UP)) (\<lambda>_.
            bindR (assertC (r_seqno rt mod 2 = 0)) (\<lambda>_.
              (let s = put d (\<lambda>rt. rt_down (rt\<lparr>r_seqno := sq\<rparr>)) s in
               bindR (ifq_drop from s) (\<lambda>s.
                 if \<not> pc_empty rt
                 then bindR (add_unreachable d sq nre) (\<lambda>nre. Inr (put d pc_delete_all s, nre))
                 else Inr (s, nre)))))
          else Inr (s, nre)))"

fun error_loop :: "nsaddr \<Rightarrow> (nsaddr \<times> u32) list \<Rightarrow> aodv \<times> aodv_error \<Rightarrow> (aodv \<times> aodv_error) res" where
  "error_loop from [] x = Inr x"
| "error_loop from (u # us) x = bindR (error_step from u x) (error_loop from us)"

definition recvError :: "aodv_packet \<Rightarrow> aodv_error \<Rightarrow> aodv \<Rightarrow> aodv res" where
  "recvError p re s0 =
     (case alloc_pkt (AODVTYPE 0) s0 of
        (rerr, s) \<Rightarrow>
          bindR (if unat (DestCount re) \<le> length (unreachable re)
                 then error_loop (saddr p) (take (unat (DestCount re)) (unreachable re)) (s, error_new)
                 else Inl OutOfBounds)
            (\<lambda>(s, nre).
               (let s = (if DestCount nre > 0 then sendError rerr nre True s else emit (Free rerr) s)
                in Inr (emit (Free p) s))))"

definition recvHello :: "aodv_packet \<Rightarrow> aodv_reply \<Rightarrow> aodv \<Rightarrow> aodv res" where
  "recvHello p rp s =
     bindR (case nb_lookup (p_dst rp) s of
              None \<Rightarrow> nb_insert (p_dst rp) s
            | Some n \<Rightarrow>
                Inr (s\<lparr>nbhead := nb_write (nbhead s) (p_dst rp) (\<lambda>n. n\<lparr>nb_expire := a_now s + nb_lifetime\<rparr>)\<rparr>))
       (\<lambda>s. Inr (emit (Free p) s))"

definition recvAODV :: "aodv_packet \<Rightarrow> aodv \<Rightarrow> aodv res" where
  "recvAODV p s =
     bindR (assertC (sport p = RT_PORT)) (\<lambda>_.
     bindR (assertC (dport p = RT_PORT)) (\<lambda>_.
       (case body p of
          RREQ rq \<Rightarrow> recvRequest p rq s
        | RREP rp \<Rightarrow> recvReply p rp s
        | RERR re \<Rightarrow> recvError p re s
        | HELLO rp \<Rightarrow> recvHello p rp s
        | AODVTYPE t \<Rightarrow> Inl Exited)))"

definition aodv_recv :: "aodv_packet \<Rightarrow> aodv \<Rightarrow> aodv res" where
  "aodv_recv p s =
     bindR (assertC (a_target s)) (\<lambda>_.
       if ptype p = PT_AODV then recvAODV (p\<lparr>ttl := ttl p - 1\<rparr>) s
       else
         (let pass = (\<lambda>p. if daddr p \<noteq> IP_BROADCAST then rt_resolve p s else aodv_forward None p NO_DELAY s) in
          if saddr p = a_index s \<and> num_forwards p = 0 then
            (let p = (if ptype p \<noteq> PT_TCP \<and> ptype p \<noteq> PT_ACK then p\<lparr>psize := psize p + IP_HDR_LEN\<rparr> else p);
                 p = (if daddr p \<noteq> IP_BROADCAST then p\<lparr>ttl := AODV_NETWORK_DIAMETER\<rparr> else p)
             in pass p)
          else if saddr p = a_index s then Inr (emit (Drop p DROP_RTR_ROUTE_LOOP) s)
          else
            (let p = p\<lparr>ttl := ttl p - 1\<rparr> in
             if ttl p = 0 then Inr (emit (Drop p DROP_RTR_TTL) s) else pass p)))"

section \<open>Timers\<close>

datatype aodv_handler =
  BTimer | HTimer | NTimer | RTimer | LRTimer aodv_packet | ATarget aodv_packet

definition aodv_request_of :: "aodv_hdr act \<Rightarrow> aodv_handler request list" where
  "aodv_request_of a =
     (case a of
        Sched p d \<Rightarrow> [ReqSchedule (ATarget p) d]
      | Timer p d \<Rightarrow> [ReqSchedule (LRTimer p) d]
      | _ \<Rightarrow> [])"

definition btimer_handle :: "aodv \<Rightarrow> aodv \<times> aodv_handler request list" where
  "btimer_handle s = (s\<lparr>bihead := bid_purge (a_now s) (bihead s)\<rparr>, [ReqSchedule BTimer BCAST_ID_SAVE])"

definition htimer_handle :: "aodv \<Rightarrow> (aodv \<times> aodv_handler request list) res" where
  "htimer_handle s =
     (case uniform (sendHello s) of
        (u, s) \<Rightarrow>
          (let interval = MinHelloInterval + (MaxHelloInterval - MinHelloInterval) * u
           in bindR (assertC (interval \<ge> 0)) (\<lambda>_. Inr (s, [ReqSchedule HTimer interval]))))"

definition ntimer_handle :: "aodv \<Rightarrow> (aodv \<times> aodv_handler request list) res" where
  "ntimer_handle s = bindR (nb_purge s) (\<lambda>s. Inr (s, [ReqSchedule NTimer HELLO_INTERVAL]))"

definition rtimer_handle :: "aodv \<Rightarrow> (aodv \<times> aodv_handler request list) res" where
  "rtimer_handle s = bindR (aodv_rt_purge s) (\<lambda>s. Inr (s, [ReqSchedule RTimer FREQUENCY]))"

definition lrtimer_handle :: "aodv_packet \<Rightarrow> aodv \<Rightarrow> aodv" where
  "lrtimer_handle p s =
     (case entry s (daddr p) of
        None \<Rightarrow> emit (Free p) s
      | Some rt \<Rightarrow> emit (Free p) (if r_flags rt \<noteq> RTF_UP then put (daddr p) rt_down s else s))"

text \<open>The command \<open>start\<close>, with link layer detection.\<close>

definition aodv_start :: "aodv \<Rightarrow> (aodv \<times> aodv_handler request list) res" where
  "aodv_start s =
     (case btimer_handle s of
        (s, rs) \<Rightarrow> bindR (rtimer_handle s) (\<lambda>(s, qs). Inr (s, rs @ qs)))"

end
