(* ===== verification/AodvSafety.thy ===== *)
theory AodvSafety
  imports AodvAgent
begin

text \<open>
  The assertions of the AODV agent. As long as no local repair is started, a well-formed packet,
  a timer and a link failure leave every assertion true and keep the invariant of the tables;
  local repair breaks it.
\<close>

section \<open>The invariant\<close>

text \<open>
  A route is up, with a valid hop count and an even sequence number, or down with an infinite
  hop count; the index into the latencies is within the array. The agent is attached.
\<close>

definition hist_ok :: "rt_entry \<Rightarrow> bool" where
  "hist_ok rt \<longleftrightarrow> r_hist_indx rt < MAX_HISTORY \<and> length (r_disc_latency rt) = MAX_HISTORY"

definition entry_ok :: "rt_entry \<Rightarrow> bool" where
  "entry_ok rt \<longleftrightarrow> ((r_flags rt = RTF_UP \<and> hops rt \<noteq> INFINITY2 \<and> even (r_seqno rt))
     \<or> (r_flags rt = RTF_DOWN \<and> hops rt = INFINITY2)) \<and> hist_ok rt"

lemma hist_ok_frame [simp]:
  "hist_ok (rt\<lparr>r_expire := t\<rparr>) = hist_ok rt" "hist_ok (rt\<lparr>r_req_cnt := c\<rparr>) = hist_ok rt"
  "hist_ok (rt\<lparr>r_req_timeout := t\<rparr>) = hist_ok rt" "hist_ok (rt\<lparr>r_req_last_ttl := l\<rparr>) = hist_ok rt"
  "hist_ok (rt\<lparr>r_pclist := ps\<rparr>) = hist_ok rt" "hist_ok (rt\<lparr>r_seqno := s\<rparr>) = hist_ok rt"
  "hist_ok (rt\<lparr>r_last_hop_count := h\<rparr>) = hist_ok rt" "hist_ok (rt\<lparr>r_hops := h2\<rparr>) = hist_ok rt"
  "hist_ok (rt\<lparr>r_flags := f\<rparr>) = hist_ok rt" "hist_ok (rt\<lparr>r_dst := d\<rparr>) = hist_ok rt"
  "hist_ok (rt\<lparr>r_nexthop := d\<rparr>) = hist_ok rt" "hist_ok rt_entry_new"
  by (simp_all add: hist_ok_def rt_entry_new_def MAX_HISTORY_def)

definition aodv_ok :: "aodv \<Rightarrow> bool" where
  "aodv_ok s \<longleftrightarrow> key_inv r_dst (rtable s)
     \<and> (\<forall>rt \<in> set (rtable s). entry_ok rt \<and> r_dst rt \<noteq> IP_BROADCAST)
     \<and> key_inv nb_addr (nbhead s) \<and> rq_inv (rqueue s) \<and> even (a_seqno s) \<and> a_target s \<and> a_dmux s \<and> ifqueue s \<noteq> None"

lemma rtf_distinct [simp]:
  "RTF_UP \<noteq> RTF_DOWN" "RTF_DOWN \<noteq> RTF_UP" "RTF_IN_REPAIR \<noteq> RTF_UP" "RTF_IN_REPAIR \<noteq> RTF_DOWN"
  "RTF_UP \<noteq> RTF_IN_REPAIR" "RTF_DOWN \<noteq> RTF_IN_REPAIR"
  by (simp_all add: RTF_UP_def RTF_DOWN_def RTF_IN_REPAIR_def)

lemma hops_simps [simp]:
  "hops (rt\<lparr>r_hops := word_of_int INFINITY2\<rparr>) = INFINITY2"
  "hops (rt\<lparr>r_seqno := a\<rparr>) = hops rt" "hops (rt\<lparr>r_expire := t\<rparr>) = hops rt"
  "hops (rt\<lparr>r_pclist := l\<rparr>) = hops rt" "hops (rt\<lparr>r_last_hop_count := h\<rparr>) = hops rt"
  "hops (rt\<lparr>r_flags := f\<rparr>) = hops rt" "hops (rt\<lparr>r_dst := d\<rparr>) = hops rt"
  "hops (rt\<lparr>r_nexthop := d\<rparr>) = hops rt" "hops (rt\<lparr>r_req_cnt := c\<rparr>) = hops rt"
  "hops (rt\<lparr>r_req_timeout := t\<rparr>) = hops rt" "hops (rt\<lparr>r_req_last_ttl := l2\<rparr>) = hops rt"
  "hops (rt\<lparr>r_disc_latency := ts\<rparr>) = hops rt" "hops (rt\<lparr>r_hist_indx := n\<rparr>) = hops rt"
  "hops (rt\<lparr>r_hops := h2\<rparr>) = uint h2"
  by (simp_all add: hops_def INFINITY2_def)

lemma entry_ok_new: "entry_ok (rt_entry_new\<lparr>r_dst := d\<rparr>)"
  by (simp add: entry_ok_def) (simp add: rt_entry_new_def hops_def INFINITY2_def)

lemma hist_ok_down [simp]: "hist_ok (rt_down rt) = hist_ok rt"
  by (simp add: rt_down_def)

lemma entry_ok_hist: "entry_ok rt \<Longrightarrow> hist_ok rt"
  by (simp add: entry_ok_def)

lemma entry_ok_down: "entry_ok (rt_down (rt\<lparr>r_seqno := a\<rparr>)) \<longleftrightarrow> (r_flags rt \<noteq> RTF_DOWN \<or> hops rt = INFINITY2) \<and> hist_ok rt"
  by (simp add: entry_ok_def) (simp add: rt_down_def)

lemma entry_ok_frame [simp]:
  "entry_ok (rt\<lparr>r_expire := t\<rparr>) = entry_ok rt" "entry_ok (rt\<lparr>r_req_cnt := c\<rparr>) = entry_ok rt"
  "entry_ok (rt\<lparr>r_req_timeout := t\<rparr>) = entry_ok rt" "entry_ok (rt\<lparr>r_req_last_ttl := l\<rparr>) = entry_ok rt"
  "entry_ok (rt\<lparr>r_pclist := ps\<rparr>) = entry_ok rt"
  by (simp_all add: entry_ok_def)

lemma rt_down_dst [simp]: "r_dst (rt_down rt) = r_dst rt"
  by (simp add: rt_down_def)

lemma aodv_ok_frame [simp]:
  "aodv_ok (s\<lparr>a_out := x1\<rparr>) = aodv_ok s" "aodv_ok (s\<lparr>a_uid := x2\<rparr>) = aodv_ok s"
  "aodv_ok (s\<lparr>a_rng := x3\<rparr>) = aodv_ok s" "ifqueue s \<noteq> None \<Longrightarrow> aodv_ok (s\<lparr>ifqueue := Some q\<rparr>) = aodv_ok s"
  "aodv_ok (s\<lparr>bihead := x5\<rparr>) = aodv_ok s" "aodv_ok (s\<lparr>a_bid := x6\<rparr>) = aodv_ok s"
  "aodv_ok (emit a s) = aodv_ok s" "aodv_ok (emit_all as s) = aodv_ok s"
  "aodv_ok (drop_all r ps s) = aodv_ok s"
  by (simp_all add: aodv_ok_def emit_def emit_all_def drop_all_def)

lemma entry_frame [simp]:
  "entry (s\<lparr>a_out := x1\<rparr>) d = entry s d" "entry (s\<lparr>a_uid := x2\<rparr>) d = entry s d"
  "entry (s\<lparr>a_rng := x3\<rparr>) d = entry s d" "entry (s\<lparr>ifqueue := x4\<rparr>) d = entry s d"
  "entry (s\<lparr>bihead := x5\<rparr>) d = entry s d" "entry (s\<lparr>a_bid := x6\<rparr>) d = entry s d"
  "entry (s\<lparr>a_seqno := x7\<rparr>) d = entry s d" "entry (s\<lparr>rqueue := x8\<rparr>) d = entry s d"
  "entry (s\<lparr>nbhead := x9\<rparr>) d = entry s d"
  "entry (emit a s) d = entry s d" "entry (emit_all as s) d = entry s d"
  "entry (drop_all r ps s) d = entry s d"
  by (simp_all add: entry_def emit_def emit_all_def drop_all_def)

lemma aodv_frame [simp]:
  "a_index (emit a s) = a_index s" "a_index (emit_all as s) = a_index s" "a_index (drop_all r ps s) = a_index s"
  "a_now (emit a s) = a_now s" "a_now (emit_all as s) = a_now s" "a_now (drop_all r ps s) = a_now s"
  "a_index (put d f s) = a_index s" "a_now (put d f s) = a_now s" "a_seqno (put d f s) = a_seqno s"
  "rqueue (put d f s) = rqueue s" "a_here (put d f s) = a_here s"
  by (simp_all add: emit_def emit_all_def drop_all_def put_def)

lemma entry_in: "aodv_ok s \<Longrightarrow> entry s d = Some rt \<longleftrightarrow> rt \<in> set (rtable s) \<and> r_dst rt = d"
  by (simp add: entry_def art_lookup_find aodv_ok_def key_inv_def find_key_iff)

lemma entry_okD: "aodv_ok s \<Longrightarrow> entry s d = Some rt \<Longrightarrow> entry_ok rt \<and> r_dst rt = d \<and> d \<noteq> IP_BROADCAST"
  by (auto simp: entry_in aodv_ok_def)

lemma entry_hist: "aodv_ok s \<Longrightarrow> entry s d = Some rt \<Longrightarrow> hist_ok rt"
  using entry_okD entry_ok_hist by blast

lemma entry_up: "aodv_ok s \<Longrightarrow> entry s d = Some rt \<Longrightarrow> hops rt \<noteq> INFINITY2 \<longleftrightarrow> r_flags rt = RTF_UP"
  by (auto dest!: entry_okD simp: entry_ok_def)

lemma entry_put:
  assumes "aodv_ok s" and "\<And>e. r_dst (f e) = r_dst e"
  shows "entry (put d f s) d' = (if d = d' then map_option f (entry s d) else entry s d')"
  using at.look_upd [of "rtable s" f d d'] assms by (auto simp: entry_def put_def aodv_ok_def)

lemma put_ok:
  assumes ok: "aodv_ok s" and dst: "\<And>e. r_dst (f e) = r_dst e"
    and f: "\<And>rt. entry s d = Some rt \<Longrightarrow> entry_ok (f rt)"
  shows "aodv_ok (put d f s)"
proof -
  have "entry_ok rt \<and> r_dst rt \<noteq> IP_BROADCAST" if "rt \<in> set (art_write (rtable s) d f)" for rt
  proof -
    from that set_map_first_sub [of "\<lambda>r. r_dst r = d" f "rtable s"]
    consider "rt \<in> set (rtable s)" | x where "x \<in> set (rtable s)" "r_dst x = d" "rt = f x"
      by (auto simp: art_write_def)
    then show ?thesis
    proof cases
      case 1
      with ok show ?thesis by (simp add: aodv_ok_def)
    next
      case 2
      then have "entry s d = Some x" using ok by (simp add: entry_in)
      with 2 f dst ok show ?thesis by (auto simp: aodv_ok_def)
    qed
  qed
  with ok at.upd_inv [of "rtable s" f d] dst show ?thesis
    by (simp add: aodv_ok_def put_def)
qed

section \<open>What an operation keeps\<close>

definition is_up :: "aodv \<Rightarrow> nsaddr \<Rightarrow> bool" where
  "is_up s d \<longleftrightarrow> (\<exists>rt. entry s d = Some rt \<and> r_flags rt = RTF_UP)"

text \<open>No entry disappears; routes that are up stay up; the address stays.\<close>

definition knows :: "aodv \<Rightarrow> aodv \<Rightarrow> bool" where
  "knows s s' \<longleftrightarrow> (\<forall>d. entry s d \<noteq> None \<longrightarrow> entry s' d \<noteq> None) \<and> a_index s' = a_index s"

definition keeps :: "aodv \<Rightarrow> aodv \<Rightarrow> bool" where
  "keeps s s' \<longleftrightarrow> knows s s' \<and> (\<forall>d. is_up s d \<longrightarrow> is_up s' d)"

lemma knows_refl [simp]: "knows s s"
  by (simp add: knows_def)

lemma keeps_refl [simp]: "keeps s s"
  by (simp add: keeps_def)

lemma knows_trans: "knows s s' \<Longrightarrow> knows s' s'' \<Longrightarrow> knows s s''"
  by (simp add: knows_def)

lemma keeps_trans: "keeps s s' \<Longrightarrow> keeps s' s'' \<Longrightarrow> keeps s s''"
  by (auto simp: keeps_def dest: knows_trans)

lemma keeps_knows: "keeps s s' \<Longrightarrow> knows s s'"
  by (simp add: keeps_def)

lemma is_up_frame [simp]:
  "is_up (s\<lparr>a_out := x1\<rparr>) d = is_up s d" "is_up (s\<lparr>a_uid := x2\<rparr>) d = is_up s d"
  "is_up (s\<lparr>a_rng := x3\<rparr>) d = is_up s d" "is_up (s\<lparr>ifqueue := x4\<rparr>) d = is_up s d"
  "is_up (s\<lparr>bihead := x5\<rparr>) d = is_up s d" "is_up (s\<lparr>a_bid := x6\<rparr>) d = is_up s d"
  "is_up (s\<lparr>a_seqno := x7\<rparr>) d = is_up s d" "is_up (s\<lparr>rqueue := x8\<rparr>) d = is_up s d"
  "is_up (s\<lparr>nbhead := x9\<rparr>) d = is_up s d" "is_up (emit a s) d = is_up s d"
  "is_up (emit_all as s) d = is_up s d" "is_up (drop_all r ps s) d = is_up s d"
  by (simp_all add: is_up_def)

lemma knows_frame [simp]:
  "knows s (s'\<lparr>a_out := x1\<rparr>) = knows s s'" "knows s (s'\<lparr>a_uid := x2\<rparr>) = knows s s'"
  "knows s (s'\<lparr>a_rng := x3\<rparr>) = knows s s'" "knows s (s'\<lparr>ifqueue := x4\<rparr>) = knows s s'"
  "knows s (s'\<lparr>bihead := x5\<rparr>) = knows s s'" "knows s (s'\<lparr>a_bid := x6\<rparr>) = knows s s'"
  "knows s (s'\<lparr>a_seqno := x7\<rparr>) = knows s s'" "knows s (s'\<lparr>rqueue := x8\<rparr>) = knows s s'"
  "knows s (s'\<lparr>nbhead := x9\<rparr>) = knows s s'" "knows s (emit a s') = knows s s'"
  "knows s (emit_all as s') = knows s s'" "knows s (drop_all r ps s') = knows s s'"
  by (simp_all add: knows_def)

lemma keeps_frame [simp]:
  "keeps s (s'\<lparr>a_out := x1\<rparr>) = keeps s s'" "keeps s (s'\<lparr>a_uid := x2\<rparr>) = keeps s s'"
  "keeps s (s'\<lparr>a_rng := x3\<rparr>) = keeps s s'" "keeps s (s'\<lparr>ifqueue := x4\<rparr>) = keeps s s'"
  "keeps s (s'\<lparr>bihead := x5\<rparr>) = keeps s s'" "keeps s (s'\<lparr>a_bid := x6\<rparr>) = keeps s s'"
  "keeps s (s'\<lparr>a_seqno := x7\<rparr>) = keeps s s'" "keeps s (s'\<lparr>rqueue := x8\<rparr>) = keeps s s'"
  "keeps s (s'\<lparr>nbhead := x9\<rparr>) = keeps s s'" "keeps s (emit a s') = keeps s s'"
  "keeps s (emit_all as s') = keeps s s'" "keeps s (drop_all r ps s') = keeps s s'"
  by (simp_all add: keeps_def)

lemma knows_put: "aodv_ok s \<Longrightarrow> (\<And>e. r_dst (f e) = r_dst e) \<Longrightarrow> knows s (put d f s)"
  by (auto simp: knows_def entry_put)

lemma keeps_put:
  assumes "aodv_ok s" and "\<And>e. r_dst (f e) = r_dst e"
    and "\<And>rt. entry s d = Some rt \<Longrightarrow> r_flags rt = RTF_UP \<Longrightarrow> r_flags (f rt) = RTF_UP"
  shows "keeps s (put d f s)"
proof -
  have "is_up (put d f s) d'" if "is_up s d'" for d'
    using that assms(3) by (auto simp: is_up_def entry_put [of s f, OF assms(1,2)])
  then show ?thesis using knows_put [of s f, OF assms(1,2)] by (simp add: keeps_def)
qed

text \<open>Composition of operations.\<close>

abbreviation safe :: "aodv \<Rightarrow> aodv res \<Rightarrow> bool" where
  "safe s m \<equiv> succeeds (\<lambda>s'. aodv_ok s' \<and> keeps s s') m"

abbreviation sound :: "aodv \<Rightarrow> aodv res \<Rightarrow> bool" where
  "sound s m \<equiv> succeeds (\<lambda>s'. aodv_ok s' \<and> knows s s') m"

lemma safe_bind:
  assumes "safe s m" and "\<And>s'. aodv_ok s' \<Longrightarrow> keeps s s' \<Longrightarrow> safe s' (f s')"
  shows "safe s (bindR m f)"
  by (rule succeeds_bindI [OF assms(1)])
     (use assms(2) keeps_trans in \<open>blast intro: succeeds_mono\<close>)

lemma sound_bind:
  assumes "sound s m" and "\<And>s'. aodv_ok s' \<Longrightarrow> knows s s' \<Longrightarrow> sound s' (f s')"
  shows "sound s (bindR m f)"
  by (rule succeeds_bindI [OF assms(1)])
     (use assms(2) knows_trans in \<open>blast intro: succeeds_mono\<close>)

lemma safe_sound: "safe s m \<Longrightarrow> sound s m"
  by (erule succeeds_mono) (simp add: keeps_knows)

lemma safe_from: "safe s' m \<Longrightarrow> keeps s s' \<Longrightarrow> safe s m"
  by (erule succeeds_mono) (blast intro: keeps_trans)

lemma sound_from: "sound s' m \<Longrightarrow> knows s s' \<Longrightarrow> sound s m"
  by (erule succeeds_mono) (blast intro: knows_trans)

section \<open>The operations\<close>

lemma ensure_safe:
  assumes ok: "aodv_ok s" and "d \<noteq> IP_BROADCAST"
  shows "succeeds (\<lambda>s'. aodv_ok s' \<and> keeps s s' \<and> entry s' d \<noteq> None \<and> rqueue s' = rqueue s) (ensure d s)"
proof (cases "entry s d")
  case (Some rt)
  with ok show ?thesis by (simp add: ensure_def)
next
  case None
  let ?e = "rt_entry_new\<lparr>r_dst := d\<rparr>" and ?s = "s\<lparr>rtable := art_link (rtable s) (rt_entry_new\<lparr>r_dst := d\<rparr>)\<rparr>"
  from None have none: "art_lookup (rtable s) (r_dst ?e) = None" by (simp add: entry_def)
  have key: "key_inv r_dst (rtable s)" using ok by (simp add: aodv_ok_def)
  have look: "entry ?s k = (if k = d then Some ?e else entry s k)" for k
    using at.look_add [OF key _ none, of k] by (simp add: entry_def)
  have "aodv_ok ?s"
    using ok at.add_inv [OF key _ none] assms(2) entry_ok_new [of d] by (simp add: aodv_ok_def art_link_def)
  moreover have "keeps s ?s" using None by (auto simp: keeps_def knows_def is_up_def look)
  ultimately show ?thesis using None none look by (simp add: ensure_def art_add_def)
qed

lemma deref_eq: "entry s d = Some rt \<Longrightarrow> deref s d = Inr rt"
  by (simp add: deref_def)

lemma enque_safe:
  assumes "aodv_ok s"
  shows "safe s (enque p s)"
proof -
  have "rq_inv (rqueue s)" using assms by (simp add: aodv_ok_def)
  from rq_enque_ok [OF this, of "a_now s" p] obtain q as
    where "rq_enque (a_now s) p (rqueue s) = Inr (q, as)" "rq_inv q" by blast
  with assms show ?thesis by (simp add: enque_def) (simp add: aodv_ok_def)
qed

lemma drain_safe:
  assumes "aodv_ok s"
  shows "succeeds (\<lambda>(ps, s'). aodv_ok s' \<and> keeps s s' \<and> (\<forall>e. entry s' e = entry s e) \<and> a_now s' = a_now s
      \<and> (\<forall>p \<in> set ps. daddr p = d)) (drain d s)"
proof -
  have "rq_inv (rqueue s)" using assms by (simp add: aodv_ok_def)
  from rq_drain_eq [OF this, of "a_now s" d] obtain q
    where "rq_drain (a_now s) d (rqueue s) = Inr (filter (\<lambda>p. daddr p = d) (fresh (a_now s) (rqueue s)), q)"
      "rq_inv q" by blast
  with assms show ?thesis by (simp add: drain_def) (simp add: aodv_ok_def)
qed

lemma uniform_eq: "uniform s = (a_rng s 0, s\<lparr>a_rng := \<lambda>n. a_rng s (Suc n)\<rparr>)"
  by (simp add: uniform_def)

lemma forward_route_safe:
  assumes ok: "aodv_ok s" and up: "is_up s d" and "daddr p \<noteq> IP_BROADCAST"
  shows "safe s (aodv_forward (Some d) p delay s)"
proof -
  from up obtain rt where e: "entry s d = Some rt" "r_flags rt = RTF_UP" by (auto simp: is_up_def)
  let ?s = "put d (\<lambda>rt. rt\<lparr>r_expire := a_now s + ACTIVE_ROUTE_TIMEOUT\<rparr>) s"
  have "aodv_ok ?s" using ok by (intro put_ok) (auto dest: entry_okD)
  moreover have "keeps s ?s" using ok by (intro keeps_put) auto
  moreover have "a_dmux s" using ok by (simp add: aodv_ok_def)
  ultimately show ?thesis
    using ok e assms(3) by (simp add: aodv_forward_def deref_eq)
qed

lemma forward_broadcast_safe:
  assumes "aodv_ok s" and "daddr p = IP_BROADCAST"
  shows "safe s (aodv_forward None p delay s)"
proof -
  have "a_dmux s" using assms(1) by (simp add: aodv_ok_def)
  with assms show ?thesis by (simp add: aodv_forward_def uniform_eq)
qed

lemma request_entry_simps [simp]:
  "r_dst (request_entry now rt) = r_dst rt" "r_flags (request_entry now rt) = r_flags rt"
  "r_hops (request_entry now rt) = r_hops rt" "r_seqno (request_entry now rt) = r_seqno rt"
  "hops (request_entry now rt) = hops rt" "entry_ok (request_entry now rt) = entry_ok rt"
  by (simp_all add: request_entry_def Let_def hops_def entry_ok_def)

lemma sendRequest_safe:
  assumes ok: "aodv_ok s" and known: "entry s d \<noteq> None"
  shows "safe s (sendRequest d s)"
proof -
  let ?s = "s\<lparr>a_uid := a_uid s + 1\<rparr>"
  have ok': "aodv_ok ?s" using ok by simp
  from known obtain rt where e: "entry ?s d = Some rt" by auto
  from entry_okD [OF ok' e] have eok: "entry_ok rt" by simp
  let ?give_up = "\<lambda>rt. rt\<lparr>r_req_timeout := a_now s + MAX_RREQ_TIMEOUT, r_req_cnt := 0\<rparr>"
  have g: "aodv_ok (put d ?give_up ?s)" "keeps s (put d ?give_up ?s)"
    using ok' keeps_put [OF ok', of ?give_up d]
    by (auto simp: keeps_def knows_def is_up_def dest: entry_okD intro!: put_ok)
  have r: "aodv_ok (put d (request_entry (a_now s)) ?s)" "keeps s (put d (request_entry (a_now s)) ?s)"
    using ok' keeps_put [OF ok', of "request_entry (a_now s)" d]
    by (auto simp: keeps_def knows_def is_up_def dest: entry_okD intro!: put_ok)
  have even: "aodv_ok (t\<lparr>a_seqno := a_seqno t + 2\<rparr>)" if "aodv_ok t" for t
    using that by (simp add: aodv_ok_def key_inv_def)
  consider (up) "r_flags rt = RTF_UP" | (wait) "r_flags rt \<noteq> RTF_UP" "r_req_timeout rt > a_now s"
    | (give_up) "r_flags rt \<noteq> RTF_UP" "\<not> r_req_timeout rt > a_now s" "unat (r_req_cnt rt) > RREQ_RETRIES"
    | (send) "r_flags rt \<noteq> RTF_UP" "\<not> r_req_timeout rt > a_now s" "\<not> unat (r_req_cnt rt) > RREQ_RETRIES"
    by blast
  then show ?thesis
  proof cases
    case up
    with eok have "hops rt \<noteq> INFINITY2" by (simp add: entry_ok_def)
    with up e ok show ?thesis by (simp add: sendRequest_def alloc_pkt_def deref_eq)
  next
    case wait
    with e ok show ?thesis by (simp add: sendRequest_def alloc_pkt_def deref_eq)
  next
    case give_up
    have "safe s (bindR (drain d (put d ?give_up ?s))
        (\<lambda>(ps, t). Inr (emit (Free (packet_alloc (a_uid s) (AODVTYPE 0))) (drop_all DROP_RTR_NO_ROUTE ps t))))"
      by (rule succeeds_bindI [OF drain_safe [OF g(1), of d]])
         (use keeps_trans [OF g(2)] in auto)
    with give_up e show ?thesis by (simp add: sendRequest_def alloc_pkt_def deref_eq)
  next
    case send
    have "even (a_seqno s + 2)" using ok by (simp add: aodv_ok_def)
    with send e even [OF r(1)] r(2) show ?thesis
      by (simp add: sendRequest_def alloc_pkt_def deref_eq Let_def) (simp add: aodv_ok_def keeps_def knows_def is_up_def entry_def)
  qed
qed

lemma sendReply_safe:
  assumes "aodv_ok s" and "entry s d \<noteq> None"
  shows "safe s (sendReply d hc rd rs lt ts s)"
  using assms by (auto simp: sendReply_def alloc_pkt_def deref_eq Let_def)

lemma sendError_frame [simp]:
  "aodv_ok (sendError p re j s) = aodv_ok s" "keeps s0 (sendError p re j s) = keeps s0 s"
  "knows s0 (sendError p re j s) = knows s0 s" "entry (sendError p re j s) d = entry s d"
  "a_index (sendError p re j s) = a_index s" "a_now (sendError p re j s) = a_now s"
  by (cases j; simp add: sendError_def Let_def uniform_eq emit_def)+

lemma send_spaced_safe:
  "aodv_ok s \<Longrightarrow> is_up s d \<Longrightarrow> \<forall>p \<in> set ps. daddr p \<noteq> IP_BROADCAST
   \<Longrightarrow> succeeds (\<lambda>(delay', s'). aodv_ok s' \<and> keeps s s') (send_spaced d delay ps s)"
proof (induction ps arbitrary: delay s)
  case Nil
  then show ?case by simp
next
  case (Cons p ps)
  show ?case
  proof (simp only: send_spaced.simps, rule succeeds_bindI [OF forward_route_safe [OF Cons.prems(1,2)]])
    show "daddr p \<noteq> IP_BROADCAST" using Cons.prems(3) by simp
    fix s' assume s': "aodv_ok s' \<and> keeps s s'"
    then have "is_up s' d" using Cons.prems(2) by (simp add: keeps_def)
    with Cons.IH [of s' "delay + ARP_DELAY"] s' Cons.prems(3)
    have "succeeds (\<lambda>(delay', s''). aodv_ok s'' \<and> keeps s' s'') (send_spaced d (delay + ARP_DELAY) ps s')" by simp
    then show "succeeds (\<lambda>(delay', s''). aodv_ok s'' \<and> keeps s s'') (send_spaced d (delay + ARP_DELAY) ps s')"
      by (rule succeeds_mono) (use s' in \<open>auto intro: keeps_trans\<close>)
  qed
qed

lemma send_reverse_safe:
  "aodv_ok s \<Longrightarrow> entry s d \<noteq> None \<Longrightarrow> \<forall>p \<in> set ps. daddr p \<noteq> IP_BROADCAST \<Longrightarrow> safe s (send_reverse d ps s)"
proof (induction ps arbitrary: s)
  case Nil
  then show ?case by simp
next
  case (Cons p ps)
  then obtain rt where e: "entry s d = Some rt" by auto
  show ?case
  proof (simp only: send_reverse.simps deref_eq [OF e] bindR_Inr, rule safe_bind)
    show "safe s (if r_flags rt = RTF_UP
        then bindR (assertC (hops rt \<noteq> INFINITY2)) (\<lambda>_. aodv_forward (Some d) p NO_DELAY s) else Inr s)"
    proof (cases "r_flags rt = RTF_UP")
      case True
      with entry_up [OF Cons.prems(1) e] have "hops rt \<noteq> INFINITY2" by simp
      moreover from True e have "is_up s d" by (simp add: is_up_def)
      ultimately show ?thesis using forward_route_safe [OF Cons.prems(1)] Cons.prems(3) True by simp
    qed (use Cons.prems in simp)
    fix s' assume "aodv_ok s'" "keeps s s'"
    moreover from this have "entry s' d \<noteq> None" using e by (auto simp: keeps_def knows_def)
    ultimately show "safe s' (send_reverse d ps s')" using Cons.IH Cons.prems(3) by simp
  qed
qed

lemma send_replied_safe:
  "aodv_ok s \<Longrightarrow> entry s d \<noteq> None \<Longrightarrow> \<forall>p \<in> set ps. daddr p \<noteq> IP_BROADCAST
   \<Longrightarrow> safe s (send_replied d delay ps s)"
proof (induction ps arbitrary: delay s)
  case Nil
  then show ?case by simp
next
  case (Cons p ps)
  then obtain rt where e: "entry s d = Some rt" by auto
  show ?case
  proof (cases "hops rt \<noteq> INFINITY2")
    case True
    with entry_up [OF Cons.prems(1) e] have up: "r_flags rt = RTF_UP" by simp
    with e have "is_up s d" by (simp add: is_up_def)
    then have "safe s (aodv_forward (Some d) p delay s)"
      using forward_route_safe [OF Cons.prems(1)] Cons.prems(3) by simp
    then have "safe s (bindR (aodv_forward (Some d) p delay s) (send_replied d (delay + ARP_DELAY) ps))"
    proof (rule safe_bind)
      fix s' assume "aodv_ok s'" "keeps s s'"
      moreover from this have "entry s' d \<noteq> None" using e by (auto simp: keeps_def knows_def)
      ultimately show "safe s' (send_replied d (delay + ARP_DELAY) ps s')" using Cons.IH Cons.prems(3) by simp
    qed
    with True up e show ?thesis by (simp add: deref_eq)
  next
    case False
    with Cons e show ?thesis by (simp add: deref_eq)
  qed
qed

section \<open>Packets received\<close>

text \<open>
  A protocol packet as AODV nodes make it: ports, an even sequence number of the sender of a
  request or reply, a hop count below 255, an error packet within its arrays.
\<close>

definition aodv_pkt_ok :: "aodv_packet \<Rightarrow> bool" where
  "aodv_pkt_ok p \<longleftrightarrow> (ptype p = PT_AODV \<longrightarrow> sport p = RT_PORT \<and> dport p = RT_PORT
     \<and> (case body p of
          RREQ rq \<Rightarrow> rq_src rq \<noteq> IP_BROADCAST \<and> rq_src_seqno rq mod 2 = 0 \<and> uint (rq_hop_count rq) < 255
        | RREP rp \<Rightarrow> p_dst rp \<noteq> IP_BROADCAST \<and> p_dst_seqno rp mod 2 = 0 \<and> uint (p_hop_count rp) < 255
        | RERR re \<Rightarrow> unat (DestCount re) \<le> AODV_MAX_ERRORS \<and> length (unreachable re) = AODV_MAX_ERRORS
        | HELLO rp \<Rightarrow> True
        | AODVTYPE t \<Rightarrow> False))"

lemma uint_ucast_u8 [simp]: "uint (ucast (x :: u8) :: u16) = uint x"
proof -
  have "uint x < 2 ^ LENGTH(8)" by (rule unsigned_less)
  then show ?thesis by (simp add: unsigned_ucast_eq take_bit_int_eq_self)
qed

lemma reverse_entry_simps:
  "r_dst (reverse_entry now p rq rt) = r_dst rt" "r_flags (reverse_entry now p rq rt) = RTF_UP"
  "r_seqno (reverse_entry now p rq rt) = rq_src_seqno rq"
  "hops (reverse_entry now p rq rt) = uint (rq_hop_count rq)"
  "r_nexthop (reverse_entry now p rq rt) = saddr p" "hist_ok (reverse_entry now p rq rt) = hist_ok rt"
  by (simp_all add: reverse_entry_def rt_update_def Let_def hops_def)

lemma reply_entry_simps:
  "r_dst (reply_entry now m rp rt) = r_dst rt" "r_flags (reply_entry now m rp rt) = RTF_UP"
  "r_seqno (reply_entry now m rp rt) = p_dst_seqno rp"
  "hops (reply_entry now m rp rt) = uint (p_hop_count rp)"
  "r_nexthop (reply_entry now m rp rt) = p_src rp"
  by (simp_all add: reply_entry_def rt_update_def Let_def hops_def)

lemma reply_entry_hist: "hist_ok rt \<Longrightarrow> hist_ok (reply_entry now m rp rt)"
  by (simp add: hist_ok_def reply_entry_def rt_update_def Let_def MAX_HISTORY_def)

lemma not_bcast: "aodv_ok s \<Longrightarrow> entry s d \<noteq> None \<Longrightarrow> d \<noteq> IP_BROADCAST"
  by (auto dest: entry_okD)

lemma reverse_route_safe:
  assumes ok: "aodv_ok s" and known: "entry s (rq_src rq) \<noteq> None"
    and rq: "even (rq_src_seqno rq)" "uint (rq_hop_count rq) < 255"
  shows "safe s (reverse_route p rq s)"
proof -
  let ?d = "rq_src rq" and ?s = "put (rq_src rq) (reverse_entry (a_now s) p rq) s"
  from known obtain rt where e: "entry s ?d = Some rt" by auto
  have e': "entry ?s ?d = Some (reverse_entry (a_now s) p rq rt)"
    by (simp add: entry_put [OF ok] reverse_entry_simps e)
  have s: "aodv_ok ?s" "keeps s ?s"
    using ok rq entry_okD [OF ok e] e by (auto intro!: put_ok keeps_put simp: reverse_entry_simps entry_ok_def INFINITY2_def)
  have "safe ?s (bindR (drain ?d ?s) (\<lambda>(ps, t). send_reverse ?d ps t))"
  proof (rule succeeds_bindI [OF drain_safe [OF s(1), of ?d]], clarsimp, goal_cases)
    case (1 ps t)
    then have "entry t ?d \<noteq> None" using e' by simp
    with 1 not_bcast [OF s(1), of ?d] e' have "safe t (send_reverse ?d ps t)"
      by (intro send_reverse_safe) auto
    then show ?case using 1 by (blast intro: safe_from)
  qed
  then have "safe s (bindR (drain ?d ?s) (\<lambda>(ps, t). send_reverse ?d ps t))"
    using s(2) by (rule safe_from)
  then show ?thesis by (simp add: reverse_route_def Let_def deref_eq [OF e'] reverse_entry_simps)
qed

lemma reply_seqno_even: "even (reply_seqno a b)"
  by (simp add: reply_seqno_def Let_def)

lemma pc_insert_simps [simp]:
  "r_dst (pc_insert i rt) = r_dst rt" "r_flags (pc_insert i rt) = r_flags rt"
  "r_seqno (pc_insert i rt) = r_seqno rt" "hops (pc_insert i rt) = hops rt" "r_nexthop (pc_insert i rt) = r_nexthop rt"
  "entry_ok (pc_insert i rt) = entry_ok rt"
  by (simp_all add: pc_insert_def)

lemma pc_insert_safe: "aodv_ok s \<Longrightarrow> aodv_ok (put d (pc_insert i) s) \<and> keeps s (put d (pc_insert i) s)"
  by (auto intro!: put_ok keeps_put dest: entry_okD)

lemma answer_request_safe:
  assumes ok: "aodv_ok s" and known: "entry s (rq_src rq) \<noteq> None"
  shows "safe s (answer_request p rq s)"
proof -
  have ok': "aodv_ok (s\<lparr>a_seqno := reply_seqno a b\<rparr>)" for a b
    using ok by (simp add: aodv_ok_def reply_seqno_even)
  consider (mine) "rq_dst rq = a_index s"
    | (reply) rt where "rq_dst rq \<noteq> a_index s" "entry s (rq_dst rq) = Some rt" "hops rt \<noteq> INFINITY2 \<and> r_seqno rt \<ge> rq_dst_seqno rq"
    | (pass) rt where "rq_dst rq \<noteq> a_index s" "entry s (rq_dst rq) = Some rt" "\<not> (hops rt \<noteq> INFINITY2 \<and> r_seqno rt \<ge> rq_dst_seqno rq)"
    | (new) "rq_dst rq \<noteq> a_index s" "entry s (rq_dst rq) = None"
    by (cases "entry s (rq_dst rq)") auto
  then show ?thesis
  proof cases
    case mine
    let ?s = "s\<lparr>a_seqno := reply_seqno (a_seqno s) (rq_dst_seqno rq)\<rparr>"
    have "safe ?s (bindR (sendReply (rq_src rq) 1 (a_index s) (a_seqno ?s) (of_nat MY_ROUTE_TIMEOUT) (rq_timestamp rq) ?s)
        (\<lambda>t. Inr (emit (Free p) t)))"
      by (rule safe_bind, rule sendReply_safe) (use ok' known in auto)
    then have "safe s (bindR (sendReply (rq_src rq) 1 (a_index s) (a_seqno ?s) (of_nat MY_ROUTE_TIMEOUT) (rq_timestamp rq) ?s)
        (\<lambda>t. Inr (emit (Free p) t)))" by (rule safe_from) simp
    with mine show ?thesis by (simp add: answer_request_def Let_def)
  next
    case reply
    have dst: "r_dst rt = rq_dst rq" using entry_okD [OF ok reply(2)] by simp
    let ?reply = "sendReply (rq_src rq) (ucast (r_hops rt) + 1) (rq_dst rq) (r_seqno rt)
      (to_u32 (r_expire rt - a_now s)) (rq_timestamp rq) s"
    have "safe s (bindR ?reply (\<lambda>s. bindR (deref s (rq_src rq)) (\<lambda>rt0.
        Inr (emit (Free p) (put (rq_src rq) (pc_insert (r_nexthop rt)) (put (rq_dst rq) (pc_insert (r_nexthop rt0)) s))))))"
    proof (rule safe_bind, rule sendReply_safe [OF ok known])
      fix t assume t: "aodv_ok t" "keeps s t"
      with known obtain rt0 where "entry t (rq_src rq) = Some rt0" by (auto simp: keeps_def knows_def)
      moreover note a = pc_insert_safe [OF t(1), of "rq_dst rq" "r_nexthop rt0"]
      moreover have "keeps t (put (rq_src rq) (pc_insert (r_nexthop rt)) (put (rq_dst rq) (pc_insert (r_nexthop rt0)) t))"
        using a pc_insert_safe [of "put (rq_dst rq) (pc_insert (r_nexthop rt0)) t" "rq_src rq" "r_nexthop rt"]
        by (blast intro: keeps_trans)
      ultimately show "safe t (bindR (deref t (rq_src rq)) (\<lambda>rt0.
          Inr (emit (Free p) (put (rq_src rq) (pc_insert (r_nexthop rt)) (put (rq_dst rq) (pc_insert (r_nexthop rt0)) t)))))"
        by (simp add: deref_eq pc_insert_safe)
    qed
    with reply dst show ?thesis by (simp add: answer_request_def Let_def)
  next
    case pass
    with ok show ?thesis by (auto simp: answer_request_def Let_def intro!: forward_broadcast_safe)
  next
    case new
    with ok show ?thesis by (auto simp: answer_request_def Let_def intro!: forward_broadcast_safe)
  qed
qed

lemma recvRequest_safe:
  assumes ok: "aodv_ok s" and rq: "rq_src rq \<noteq> IP_BROADCAST" "even (rq_src_seqno rq)" "uint (rq_hop_count rq) < 255"
  shows "safe s (recvRequest p rq s)"
proof -
  let ?d = "rq_src rq" and ?s0 = "s\<lparr>bihead := id_insert (a_now s) (rq_src rq) (rq_bcast_id rq) (bihead s)\<rparr>"
  let ?ext = "\<lambda>s rt. rt\<lparr>r_expire := max (r_expire rt) (a_now s + REV_ROUTE_LIFE)\<rparr>"
  let ?rest = "\<lambda>s. let s = put ?d (?ext s) s in
      bindR (deref s ?d) (\<lambda>rt0.
      bindR (if fresher (rq_src_seqno rq) (uint (rq_hop_count rq)) rt0 then reverse_route p rq s else Inr s)
        (answer_request p rq))"
  have "safe ?s0 (bindR (ensure ?d ?s0) ?rest)"
  proof (rule succeeds_bindI [OF ensure_safe [of ?s0 ?d]])
    fix t assume t: "aodv_ok t \<and> keeps ?s0 t \<and> entry t ?d \<noteq> None \<and> rqueue t = rqueue ?s0"
    let ?t = "put ?d (?ext t) t"
    have t': "aodv_ok ?t" "keeps t ?t"
      using t by (auto intro!: put_ok keeps_put dest: entry_okD)
    with t obtain rt0 where e: "entry ?t ?d = Some rt0" by (auto simp: entry_put)
    have "safe ?t (bindR (if fresher (rq_src_seqno rq) (uint (rq_hop_count rq)) rt0 then reverse_route p rq ?t else Inr ?t)
        (answer_request p rq))"
    proof (rule safe_bind)
      show "safe ?t (if fresher (rq_src_seqno rq) (uint (rq_hop_count rq)) rt0 then reverse_route p rq ?t else Inr ?t)"
        using reverse_route_safe [OF t'(1)] e rq(2,3) t'(1) by simp
      show "safe u (answer_request p rq u)" if "aodv_ok u" "keeps ?t u" for u
        using that e by (intro answer_request_safe) (auto simp: keeps_def knows_def)
    qed
    then have "safe ?t (?rest t)" by (simp add: Let_def deref_eq [OF e])
    moreover have "keeps ?s0 ?t" using t t'(2) by (blast intro: keeps_trans)
    ultimately show "safe ?s0 (?rest t)" by (rule safe_from)
  qed (use ok rq(1) in simp_all)
  then have "safe s (bindR (ensure ?d ?s0) ?rest)" by (rule safe_from) simp
  then show ?thesis using ok by (simp add: recvRequest_def Let_def)
qed

lemma relay_reply_safe:
  assumes ok: "aodv_ok s"
  shows "safe s (relay_reply p rp s)"
proof (cases "entry s (daddr p)")
  case None
  with ok show ?thesis by (simp add: relay_reply_def)
next
  case (Some rt0)
  show ?thesis
  proof (cases "hops rt0 \<noteq> INFINITY2")
    case True
    with entry_up [OF ok Some] have up: "r_flags rt0 = RTF_UP" by simp
    let ?q = "p\<lparr>body := RREP (rp\<lparr>p_hop_count := p_hop_count rp + 1, p_src := a_index s\<rparr>)\<rparr>"
    have "is_up s (daddr p)" "daddr ?q \<noteq> IP_BROADCAST"
      using Some up not_bcast [OF ok] by (auto simp: is_up_def)
    then have "safe s (bindR (aodv_forward (Some (daddr p)) ?q NO_DELAY s)
        (\<lambda>s. Inr (put (p_dst rp) (pc_insert (r_nexthop rt0)) s)))"
      by (intro safe_bind forward_route_safe) (use ok pc_insert_safe in auto)
    with True up Some show ?thesis by (simp add: relay_reply_def)
  qed (use ok Some in \<open>simp add: relay_reply_def\<close>)
qed

lemma recvReply_safe:
  assumes ok: "aodv_ok s" and rp: "p_dst rp \<noteq> IP_BROADCAST" "even (p_dst_seqno rp)" "uint (p_hop_count rp) < 255"
  shows "safe s (recvReply p rp s)"
proof -
  let ?d = "p_dst rp"
  let ?tail = "\<lambda>(suppress, s). if daddr p = a_index s \<or> suppress then Inr (emit (Free p) s) else relay_reply p rp s"
  have tail: "safe t (?tail (b, t))" if "aodv_ok t" for b t
    using that relay_reply_safe by simp
  show ?thesis
    unfolding recvReply_def
  proof (rule succeeds_bindI [OF ensure_safe [OF ok rp(1)]])
    fix t assume t: "aodv_ok t \<and> keeps s t \<and> entry t ?d \<noteq> None \<and> rqueue t = rqueue s"
    then obtain rt where e: "entry t ?d = Some rt" by auto
    let ?new = "reply_entry (a_now t) (daddr p = a_index t) rp"
    have u: "aodv_ok (put ?d ?new t)" "keeps t (put ?d ?new t)"
      using t rp reply_entry_hist entry_okD [of t, OF _ e] e
      by (auto intro!: put_ok keeps_put simp: reply_entry_simps entry_ok_def INFINITY2_def)
    have known: "entry (put ?d ?new t) ?d \<noteq> None" using e t by (simp add: entry_put reply_entry_simps)
    have cell: "latency_cell m rt = Inr ()" for m
      using entry_okD [of t, OF _ e] t by (simp add: latency_cell_def entry_ok_def hist_ok_def)
    have accept: "succeeds (\<lambda>(b, s'). aodv_ok s' \<and> keeps t s')
      (bindR (latency_cell (daddr p = a_index t) rt) (\<lambda>_. let s = put ?d ?new t in
        bindR (drain ?d s) (\<lambda>(ps, s). bindR (send_replied ?d 0 ps s) (\<lambda>s. Inr (False, s)))))"
      unfolding Let_def cell bindR_Inr
    proof (rule succeeds_bindI [OF drain_safe [OF u(1), of ?d]], clarify, goal_cases)
      case (1 ps v)
      then have "safe v (send_replied ?d 0 ps v)"
        using known not_bcast [OF u(1) known] by (intro send_replied_safe) auto
      then have "safe t (send_replied ?d 0 ps v)"
        using 1 u(2) by (blast intro: safe_from keeps_trans)
      then show ?case by (rule succeeds_bindI) simp
    qed
    have "safe t (bindR (if fresher (p_dst_seqno rp) (uint (p_hop_count rp)) rt
        then bindR (latency_cell (daddr p = a_index t) rt) (\<lambda>_. let s = put ?d ?new t in
          bindR (drain ?d s) (\<lambda>(ps, s). bindR (send_replied ?d 0 ps s) (\<lambda>s. Inr (False, s))))
        else Inr (True, t)) ?tail)"
    proof (rule succeeds_bindI)
      show "succeeds (\<lambda>(b, s'). aodv_ok s' \<and> keeps t s') (if fresher (p_dst_seqno rp) (uint (p_hop_count rp)) rt
        then bindR (latency_cell (daddr p = a_index t) rt) (\<lambda>_. let s = put ?d ?new t in
          bindR (drain ?d s) (\<lambda>(ps, s). bindR (send_replied ?d 0 ps s) (\<lambda>s. Inr (False, s))))
        else Inr (True, t))"
        using accept t by simp
      fix x :: "bool \<times> aodv" assume "case x of (b, s') \<Rightarrow> aodv_ok s' \<and> keeps t s'"
      then obtain b v where x: "x = (b, v)" "aodv_ok v" "keeps t v" by (cases x) simp
      from safe_from [OF tail [OF x(2)] x(3)] show "safe t (?tail x)" unfolding x(1) .
    qed
    then show "safe s (bindR (deref t ?d) (\<lambda>rt. bindR (if fresher (p_dst_seqno rp) (uint (p_hop_count rp)) rt
        then bindR (latency_cell (daddr p = a_index t) rt) (\<lambda>_. let s = put ?d ?new t in
          bindR (drain ?d s) (\<lambda>(ps, s). bindR (send_replied ?d 0 ps s) (\<lambda>s. Inr (False, s))))
        else Inr (True, t)) ?tail))"
      using t by (simp only: deref_eq [OF e] bindR_Inr) (blast intro: safe_from)
  qed
qed

end
