(* ===== verification/AodvLinks.thy ===== *)
theory AodvLinks
  imports AodvSafety
begin

text \<open>
  Hello and error packets, link failures, timers and the entry point of the agent: what
  \<open>AodvSafety\<close> shows of the operations on routes is carried to whole events.
\<close>

section \<open>Hello packets\<close>

lemma nb_insert_safe:
  assumes ok: "aodv_ok s" and none: "nb_lookup i s = None"
  shows "safe s (nb_insert i s)"
proof -
  let ?n = "\<lparr>nb_addr = i, nb_expire = a_now s + nb_lifetime\<rparr>"
  have "key_inv nb_addr (nb_link (nbhead s) ?n)"
    using nb.add_inv [of "nbhead s" ?n] ok none by (simp add: aodv_ok_def nb_lookup_def)
  with ok show ?thesis
    by (simp add: nb_insert_def Let_def) (simp add: aodv_ok_def)
qed

lemma recvHello_safe:
  assumes ok: "aodv_ok s"
  shows "safe s (recvHello p rp s)"
proof (cases "nb_lookup (p_dst rp) s")
  case None
  show ?thesis unfolding recvHello_def
    by (rule safe_bind) (use nb_insert_safe [OF ok None] None in simp_all)
next
  case (Some n)
  have "key_inv nb_addr (nb_write (nbhead s) (p_dst rp) (\<lambda>n. n\<lparr>nb_expire := a_now s + nb_lifetime\<rparr>))"
    using ok by (intro nb.upd_inv) (simp_all add: aodv_ok_def)
  with Some ok show ?thesis by (simp add: recvHello_def) (simp add: aodv_ok_def)
qed

section \<open>Error packets\<close>

text \<open>The error packet under construction has room for \<open>n\<close> more destinations.\<close>

definition room :: "nat \<Rightarrow> aodv_error \<Rightarrow> bool" where
  "room n re \<longleftrightarrow> unat (DestCount re) + n \<le> AODV_MAX_ERRORS \<and> length (unreachable re) = AODV_MAX_ERRORS"

lemma room_new: "n \<le> AODV_MAX_ERRORS \<Longrightarrow> room n error_new"
  by (simp add: room_def error_new_def)

lemma room_less: "room n re \<Longrightarrow> m \<le> n \<Longrightarrow> room m re"
  by (simp add: room_def)

lemma add_unreachable_room:
  assumes "room (Suc n) re"
  shows "succeeds (room n) (add_unreachable d sq re)"
proof -
  have "unat (DestCount re) < 255" using assms by (simp add: room_def AODV_MAX_ERRORS_def)
  then have "unat (DestCount re + 1) = Suc (unat (DestCount re))"
    using word_inc_unat [of "DestCount re" 255] by (simp add: word_less_nat_alt)
  with assms show ?thesis by (simp add: add_unreachable_def room_def)
qed

lemma down_ok: "aodv_ok s \<Longrightarrow> (\<And>rt. entry s d = Some rt \<Longrightarrow> r_flags rt = RTF_UP)
    \<Longrightarrow> aodv_ok (put d (\<lambda>rt. rt_down (rt\<lparr>r_seqno := f rt\<rparr>)) s) \<and> knows s (put d (\<lambda>rt. rt_down (rt\<lparr>r_seqno := f rt\<rparr>)) s)"
  by (auto intro!: put_ok knows_put simp: entry_ok_down intro: entry_hist)

text \<open>Packets for a lost neighbour are taken from the interface queue.\<close>

lemma ifq_drop_ok:
  assumes "aodv_ok s"
  shows "succeeds (\<lambda>s'. aodv_ok s' \<and> (\<forall>s0. knows s0 s' = knows s0 s) \<and> rtable s' = rtable s \<and> a_now s' = a_now s) (ifq_drop i s)"
proof -
  from assms have "ifqueue s \<noteq> None" by (simp add: aodv_ok_def)
  then obtain q where "ifqueue s = Some q" by blast
  with assms show ?thesis
    by (cases "ifq_drain i q") (simp add: ifq_drop_def, simp add: drop_all_def emit_all_def)
qed


lemma pc_delete_all_simps [simp]:
  "r_dst (pc_delete_all rt) = r_dst rt" "r_flags (pc_delete_all rt) = r_flags rt"
  "r_seqno (pc_delete_all rt) = r_seqno rt" "hops (pc_delete_all rt) = hops rt"
  "entry_ok (pc_delete_all rt) = entry_ok rt"
  by (simp_all add: pc_delete_all_def)

lemma pc_delete_simps [simp]:
  "r_dst (pc_delete i rt) = r_dst rt" "entry_ok (pc_delete i rt) = entry_ok rt"
  by (simp_all add: pc_delete_def entry_ok_def)

lemma pc_delete_all_sound: "aodv_ok s \<Longrightarrow> aodv_ok (put d pc_delete_all s) \<and> knows s (put d pc_delete_all s)"
  by (auto intro!: put_ok knows_put dest: entry_okD)

lemma error_step_sound:
  assumes ok: "aodv_ok s" and re: "room (Suc n) nre"
  shows "succeeds (\<lambda>(s', nre'). aodv_ok s' \<and> knows s s' \<and> room n nre') (error_step from u (s, nre))"
proof -
  obtain d sq where u: "u = (d, sq)" by (cases u)
  have less: "room n nre" using room_less [OF re] by simp
  show ?thesis
  proof (cases "\<exists>rt. entry s d = Some rt \<and> hops rt \<noteq> INFINITY2 \<and> r_nexthop rt = from \<and> r_seqno rt \<le> sq")
    case True
    then obtain rt where rt: "entry s d = Some rt" "hops rt \<noteq> INFINITY2" "r_nexthop rt = from" "r_seqno rt \<le> sq" by blast
    with entry_okD [OF ok rt(1)] have up: "r_flags rt = RTF_UP" "even (r_seqno rt)" by (auto simp: entry_ok_def)
    let ?s = "put d (\<lambda>rt. rt_down (rt\<lparr>r_seqno := sq\<rparr>)) s"
    have s: "aodv_ok ?s" "knows s ?s" using down_ok [OF ok, of d "\<lambda>_. sq"] rt(1) up(1) by auto
    have "succeeds (\<lambda>(s', nre'). aodv_ok s' \<and> knows s s' \<and> room n nre')
        (bindR (ifq_drop from ?s) (\<lambda>t. if \<not> pc_empty rt
           then bindR (add_unreachable d sq nre) (\<lambda>nre. Inr (put d pc_delete_all t, nre)) else Inr (t, nre)))"
    proof (rule succeeds_bindI [OF ifq_drop_ok [OF s(1)]], elim conjE)
      fix t assume "aodv_ok t" "\<forall>s0. knows s0 t = knows s0 ?s"
      with s have t: "aodv_ok t" "knows s t" by simp_all
      have p: "aodv_ok (put d pc_delete_all t)" "knows s (put d pc_delete_all t)"
        using pc_delete_all_sound [OF t(1), of d] knows_trans [OF t(2)] by blast+
      show "succeeds (\<lambda>(s', nre'). aodv_ok s' \<and> knows s s' \<and> room n nre')
        (if \<not> pc_empty rt then bindR (add_unreachable d sq nre) (\<lambda>nre. Inr (put d pc_delete_all t, nre)) else Inr (t, nre))"
        using t less p by (auto intro!: succeeds_bindI [OF add_unreachable_room [OF re]])
    qed
    then show ?thesis using rt up by (simp add: u error_step_def Let_def)
  next
    case False
    then show ?thesis using ok less by (auto simp: u error_step_def split: option.split)
  qed
qed

lemma error_loop_sound:
  "aodv_ok s \<Longrightarrow> room (length us) nre \<Longrightarrow>
   succeeds (\<lambda>(s', nre'). aodv_ok s' \<and> knows s s') (error_loop from us (s, nre))"
proof (induction us arbitrary: s nre)
  case Nil
  then show ?case by simp
next
  case (Cons u us)
  then have "room (Suc (length us)) nre" by simp
  note step = error_step_sound [OF Cons.prems(1) this, of "from" u]
  show ?case
  proof (simp only: error_loop.simps, rule succeeds_bindI [OF step], clarify)
    fix t re assume t: "aodv_ok t" "knows s t" "room (length us) re"
    show "succeeds (\<lambda>(s', nre'). aodv_ok s' \<and> knows s s') (error_loop from us (t, re))"
      by (rule succeeds_mono [OF Cons.IH [OF t(1,3)]]) (use t(2) in \<open>auto intro: knows_trans\<close>)
  qed
qed

lemma recvError_sound:
  assumes ok: "aodv_ok s" and re: "unat (DestCount re) \<le> AODV_MAX_ERRORS" "length (unreachable re) = AODV_MAX_ERRORS"
  shows "sound s (recvError p re s)"
proof -
  let ?us = "take (unat (DestCount re)) (unreachable re)" and ?s = "s\<lparr>a_uid := a_uid s + 1\<rparr>"
  have "room (length ?us) error_new" using re by (intro room_new) simp
  from error_loop_sound [of ?s, OF _ this, of "saddr p"] ok
  have "succeeds (\<lambda>(s', nre'). aodv_ok s' \<and> knows s s') (error_loop (saddr p) ?us (?s, error_new))"
    by (auto elim!: succeeds_mono simp: knows_def)
  then show ?thesis using re
    by (auto simp: recvError_def alloc_pkt_def Let_def intro!: succeeds_bindI)
qed

section \<open>Link failures\<close>

lemma link_failure_loop_sound:
  "\<forall>rt \<in> set rts. entry_ok rt \<Longrightarrow> room (length rts) re \<Longrightarrow>
   succeeds (\<lambda>(rts', re'). map r_dst rts' = map r_dst rts \<and> (\<forall>rt \<in> set rts'. entry_ok rt)) (link_failure_loop i rts re)"
proof (induction rts arbitrary: re)
  case Nil
  then show ?case by simp
next
  case (Cons rt rts)
  let ?R = "\<lambda>(rt', re'). r_dst rt' = r_dst rt \<and> entry_ok rt' \<and> room (length rts) re'"
  have "succeeds ?R
      (if hops rt \<noteq> INFINITY2 \<and> r_nexthop rt = i then
          bindR (assertC (r_flags rt = RTF_UP)) (\<lambda>_.
          bindR (assertC (r_seqno rt mod 2 = 0)) (\<lambda>_.
            (let rt = rt\<lparr>r_seqno := r_seqno rt + 1\<rparr> in
             bindR (add_unreachable (r_dst rt) (r_seqno rt) re) (\<lambda>re. Inr (rt_down rt, re)))))
        else Inr (rt, re))"
  proof (cases "hops rt \<noteq> INFINITY2 \<and> r_nexthop rt = i")
    case True
    with Cons.prems(1) have up: "r_flags rt = RTF_UP" "even (r_seqno rt)" by (auto simp: entry_ok_def)
    have "succeeds (room (length rts)) (add_unreachable (r_dst rt) (r_seqno rt + 1) re)"
      using Cons.prems(2) by (intro add_unreachable_room) simp
    moreover have "hist_ok rt" using Cons.prems(1) entry_ok_hist by simp
    ultimately show ?thesis
      using True up by (auto simp: Let_def entry_ok_down intro!: succeeds_bindI)
  next
    case False
    then show ?thesis using Cons.prems room_less by auto
  qed
  then show ?case
  proof (simp only: link_failure_loop.simps, elim succeeds_bindI, clarify)
    fix rt' re' assume rt': "r_dst rt' = r_dst rt" "entry_ok rt'" "room (length rts) re'"
    have "succeeds (\<lambda>(rts', re'). map r_dst rts' = map r_dst rts \<and> (\<forall>rt \<in> set rts'. entry_ok rt)) (link_failure_loop i rts re')"
      using Cons.prems(1) rt'(3) by (intro Cons.IH) auto
    then show "succeeds (\<lambda>(rts', re''). map r_dst rts' = map r_dst (rt # rts) \<and> (\<forall>rt \<in> set rts'. entry_ok rt))
        (bindR (link_failure_loop i rts re') (\<lambda>(rts, re). Inr (pc_delete i rt' # rts, re)))"
      by (rule succeeds_bindI) (use rt' in auto)
  qed
qed


lemma aodv_ok_rtable:
  assumes ok: "aodv_ok s" and dst: "map r_dst rts = map r_dst (rtable s)" and e: "\<forall>rt \<in> set rts. entry_ok rt"
  shows "aodv_ok (s\<lparr>rtable := rts\<rparr>) \<and> knows s (s\<lparr>rtable := rts\<rparr>)"
proof -
  from dst have set: "r_dst ` set rts = r_dst ` set (rtable s)" by (metis set_map)
  have "art_lookup ts d \<noteq> None \<longleftrightarrow> d \<in> r_dst ` set ts" for ts d
    by (auto simp: art_lookup_find find_None_iff)
  then have look: "(\<exists>y. art_lookup ts d = Some y) \<longleftrightarrow> d \<in> r_dst ` set ts" for ts d by simp
  have "key_inv r_dst rts" using ok dst by (simp add: aodv_ok_def key_inv_def)
  moreover have "r_dst rt \<noteq> IP_BROADCAST" if "rt \<in> set rts" for rt
  proof -
    from that set have "r_dst rt \<in> r_dst ` set (rtable s)" by blast
    then show ?thesis using ok by (auto simp: aodv_ok_def)
  qed
  ultimately show ?thesis
    using ok e set by (simp add: aodv_ok_def knows_def entry_def look)
qed

lemma handle_link_failure_sound:
  assumes ok: "aodv_ok s" and few: "length (rtable s) \<le> AODV_MAX_ERRORS"
  shows "succeeds (\<lambda>s'. aodv_ok s' \<and> knows s s' \<and> length (rtable s') = length (rtable s) \<and> a_now s' = a_now s)
    (handle_link_failure i s)"
proof -
  have "\<forall>rt \<in> set (rtable s). entry_ok rt" using ok by (simp add: aodv_ok_def)
  from link_failure_loop_sound [OF this room_new [OF few], of i] obtain rts re
    where loop: "link_failure_loop i (rtable s) error_new = Inr (rts, re)"
      "map r_dst rts = map r_dst (rtable s)" "\<forall>rt \<in> set rts. entry_ok rt"
    by (auto simp: succeeds_iff)
  let ?s = "s\<lparr>a_uid := a_uid s + 1, rtable := rts\<rparr>"
  have "aodv_ok (s\<lparr>a_uid := a_uid s + 1\<rparr>)" using ok by simp
  from aodv_ok_rtable [OF this, of rts] loop
  have "aodv_ok ?s \<and> knows s ?s" by (simp add: knows_def)
  moreover have "length rts = length (rtable s)" using loop(2) by (metis length_map)
  ultimately show ?thesis using loop(1)
    by (simp add: handle_link_failure_def alloc_pkt_def Let_def sendError_def uniform_eq emit_def)
qed

text \<open>The condition of \<open>handle_link_failure\<close>, as an invariant of its own.\<close>

abbreviation steady :: "aodv \<Rightarrow> aodv res \<Rightarrow> bool" where
  "steady s m \<equiv> succeeds (\<lambda>s'. aodv_ok s' \<and> knows s s' \<and> length (rtable s') = length (rtable s) \<and> a_now s' = a_now s) m"

lemma nb_delete_steady:
  assumes ok: "aodv_ok s" and few: "length (rtable s) \<le> AODV_MAX_ERRORS"
  shows "steady s (nb_delete i s)"
proof -
  let ?s = "s\<lparr>a_seqno := a_seqno s + 2, nbhead := nb_unlink (nbhead s) i\<rparr>"
  have "key_inv nb_addr (nb_unlink (nbhead s) i)"
    using nb.del_inv [of "nbhead s" i] ok by (simp add: aodv_ok_def)
  with ok have ok': "aodv_ok ?s" by (simp add: aodv_ok_def)
  have "steady ?s (handle_link_failure i ?s)"
    by (rule handle_link_failure_sound [OF ok']) (use few in simp)
  moreover have "even (a_seqno s + 2)" using ok by (simp add: aodv_ok_def)
  ultimately show ?thesis by (simp add: nb_delete_def knows_def)
qed

lemma nb_purge_loop_steady:
  "aodv_ok s \<Longrightarrow> length (rtable s) \<le> AODV_MAX_ERRORS \<Longrightarrow> steady s (nb_purge_loop ns s)"
proof (induction ns arbitrary: s)
  case Nil
  then show ?case by simp
next
  case (Cons n ns)
  have step: "steady s (if nb_expire n \<le> a_now s then nb_delete (nb_addr n) s else Inr s)"
    using nb_delete_steady Cons.prems by simp
  show ?case
  proof (simp only: nb_purge_loop.simps, rule succeeds_bindI [OF step])
    fix t assume t: "aodv_ok t \<and> knows s t \<and> length (rtable t) = length (rtable s) \<and> a_now t = a_now s"
    then have "aodv_ok t" "length (rtable t) \<le> AODV_MAX_ERRORS" using Cons.prems by simp_all
    note Cons.IH [OF this]
    then show "steady s (nb_purge_loop ns t)" by (rule succeeds_mono) (use t in \<open>auto intro: knows_trans\<close>)
  qed
qed

lemma local_ll_failed_steady:
  assumes ok: "aodv_ok s" and few: "length (rtable s) \<le> AODV_MAX_ERRORS"
    and near: "\<And>rt. entry s (daddr p) = Some rt \<Longrightarrow> num_forwards p \<le> hops rt"
  shows "sound s (rt_ll_failed p s)"
proof (cases "\<not> DATA_PACKET (ptype p) \<or> daddr p = IP_BROADCAST \<or> entry s (daddr p) = None")
  case True
  with ok show ?thesis by (auto simp: rt_ll_failed_def)
next
  case False
  then obtain rt where e: "entry s (daddr p) = Some rt" by auto
  let ?s = "emit (Drop p DROP_RTR_MAC_CALLBACK) s"
  have s: "aodv_ok ?s" "rtable ?s = rtable s" using ok by (simp, simp add: emit_def)
  have "sound s (bindR (ifq_drop (next_hop p) ?s) (nb_delete (next_hop p)))"
  proof (rule succeeds_bindI [OF ifq_drop_ok [OF s(1)]], elim conjE)
    fix t assume t: "aodv_ok t" "\<forall>s0. knows s0 t = knows s0 ?s" "rtable t = rtable ?s"
    then have "knows s t" by simp
    have "steady t (nb_delete (next_hop p) t)"
      by (rule nb_delete_steady) (use t few s(2) in simp_all)
    then show "sound s (nb_delete (next_hop p) t)"
      by (rule succeeds_mono) (use \<open>knows s t\<close> in \<open>auto intro: knows_trans\<close>)
  qed
  then show ?thesis using False e near [OF e] by (simp add: rt_ll_failed_def Let_def)
qed


section \<open>Data packets\<close>

lemma rt_resolve_safe:
  assumes ok: "aodv_ok s" and p: "daddr p \<noteq> IP_BROADCAST"
  shows "safe s (rt_resolve p s)"
  unfolding rt_resolve_def
proof (rule succeeds_bindI [OF ensure_safe [OF ok p]])
  let ?d = "daddr p"
  fix t assume t: "aodv_ok t \<and> keeps s t \<and> entry t ?d \<noteq> None \<and> rqueue t = rqueue s"
  then obtain rt where e: "entry t ?d = Some rt" by auto
  from t have ok': "aodv_ok t" by simp
  from entry_okD [OF ok' e] have eok: "entry_ok rt" by simp
  have add: "\<exists>re. add_unreachable a b error_new = Inr re" for a b
    by (simp add: add_unreachable_def error_new_def AODV_MAX_ERRORS_def)
  have "safe t (if r_flags rt = RTF_UP then
      bindR (assertC (hops rt \<noteq> INFINITY2)) (\<lambda>_. aodv_forward (Some ?d) p NO_DELAY t)
    else if saddr p = a_index t then bindR (enque p t) (sendRequest ?d)
    else if r_flags rt = RTF_IN_REPAIR then enque p t
    else (case alloc_pkt (AODVTYPE 0) t of (rerr, s) \<Rightarrow>
      bindR (assertC (r_flags rt = RTF_DOWN)) (\<lambda>_.
      bindR (add_unreachable (r_dst rt) (r_seqno rt) error_new) (\<lambda>re.
        Inr (emit (Drop p DROP_RTR_NO_ROUTE) (sendError rerr re False s))))))"
  proof (cases "r_flags rt = RTF_UP")
    case True
    with eok have "hops rt \<noteq> INFINITY2" by (simp add: entry_ok_def)
    moreover have "is_up t ?d" using e True by (simp add: is_up_def)
    ultimately show ?thesis using True forward_route_safe [OF ok' _ p] by simp
  next
    case False
    with eok have down: "r_flags rt = RTF_DOWN" by (simp add: entry_ok_def)
    have "safe t (bindR (enque p t) (sendRequest ?d))"
      by (rule safe_bind [OF enque_safe [OF ok']], rule sendRequest_safe)
         (use e in \<open>auto simp: keeps_def knows_def\<close>)
    then show ?thesis using False down ok' add [of "r_dst rt" "r_seqno rt"] by (auto simp: alloc_pkt_def)
  qed
  then show "safe s (bindR (deref t ?d) (\<lambda>rt. if r_flags rt = RTF_UP then
      bindR (assertC (hops rt \<noteq> INFINITY2)) (\<lambda>_. aodv_forward (Some ?d) p NO_DELAY t)
    else if saddr p = a_index t then bindR (enque p t) (sendRequest ?d)
    else if r_flags rt = RTF_IN_REPAIR then enque p t
    else (case alloc_pkt (AODVTYPE 0) t of (rerr, s) \<Rightarrow>
      bindR (assertC (r_flags rt = RTF_DOWN)) (\<lambda>_.
      bindR (add_unreachable (r_dst rt) (r_seqno rt) error_new) (\<lambda>re.
        Inr (emit (Drop p DROP_RTR_NO_ROUTE) (sendError rerr re False s)))))))"
    unfolding deref_eq [OF e] bindR_Inr by (rule safe_from) (use t in simp)
qed

section \<open>The entry point\<close>

lemma recvAODV_sound:
  assumes ok: "aodv_ok s" and p: "aodv_pkt_ok p" "ptype p = PT_AODV"
  shows "sound s (recvAODV p s)"
proof -
  have ports: "sport p = RT_PORT" "dport p = RT_PORT" using p by (auto simp: aodv_pkt_ok_def)
  show ?thesis
  proof (cases "body p")
    case (RREQ rq)
    with p have "rq_src rq \<noteq> IP_BROADCAST" "even (rq_src_seqno rq)" "uint (rq_hop_count rq) < 255"
      by (auto simp: aodv_pkt_ok_def)
    from safe_sound [OF recvRequest_safe [OF ok this]] show ?thesis by (simp add: recvAODV_def ports RREQ)
  next
    case (RREP rp)
    with p have "p_dst rp \<noteq> IP_BROADCAST" "even (p_dst_seqno rp)" "uint (p_hop_count rp) < 255"
      by (auto simp: aodv_pkt_ok_def)
    from safe_sound [OF recvReply_safe [OF ok this]] show ?thesis by (simp add: recvAODV_def ports RREP)
  next
    case (RERR re)
    with p have "unat (DestCount re) \<le> AODV_MAX_ERRORS" "length (unreachable re) = AODV_MAX_ERRORS"
      by (auto simp: aodv_pkt_ok_def)
    from recvError_sound [OF ok this] show ?thesis by (simp add: recvAODV_def ports RERR)
  next
    case (HELLO rp)
    with safe_sound [OF recvHello_safe [OF ok]] show ?thesis by (simp add: recvAODV_def ports)
  next
    case (AODVTYPE t)
    with p show ?thesis by (simp add: aodv_pkt_ok_def)
  qed
qed

lemma aodv_pkt_ok_ttl [simp]: "aodv_pkt_ok (p\<lparr>ttl := t\<rparr>) = aodv_pkt_ok p"
  by (simp add: aodv_pkt_ok_def)

lemma data_sound:
  assumes ok: "aodv_ok s"
  shows "sound s (if daddr p \<noteq> IP_BROADCAST then rt_resolve p s else aodv_forward None p NO_DELAY s)"
  using safe_sound [OF rt_resolve_safe [OF ok, of p]] safe_sound [OF forward_broadcast_safe [OF ok, of p NO_DELAY]]
  by simp

lemma recv_sound:
  assumes ok: "aodv_ok s" and p: "aodv_pkt_ok p"
  shows "sound s (aodv_recv p s)"
proof -
  have "a_target s" using ok by (simp add: aodv_ok_def)
  moreover have "sound s (Inr (emit a s))" for a using ok by simp
  moreover have "sound s (recvAODV (p\<lparr>ttl := ttl p - 1\<rparr>) s)" if "ptype p = PT_AODV"
    by (rule recvAODV_sound) (use ok p that in simp_all)
  ultimately show ?thesis
    using data_sound [OF ok]
    by (auto simp only: aodv_recv_def Let_def assertC_True bindR_Inr if_split aodv_pkt_ok_ttl)
qed


section \<open>Timers\<close>

lemma put_put:
  assumes "\<And>e. r_dst (f e) = r_dst e"
  shows "put d g (put d f s) = put d (\<lambda>e. g (f e)) s"
proof -
  have "art_write (art_write rs d f) d g = art_write rs d (\<lambda>e. g (f e))" for rs
    by (induction rs) (auto simp: art_write_def assms)
  then show ?thesis by (simp add: put_def)
qed

lemma put_emit_all: "put d f (drop_all r ps s) = drop_all r ps (put d f s)"
  by (simp add: put_def drop_all_def emit_all_def)

lemma rt_purge_entry_sound:
  assumes ok: "aodv_ok s" and known: "entry s d \<noteq> None"
  shows "succeeds (\<lambda>(delay', s'). aodv_ok s' \<and> knows s s') (rt_purge_entry d (delay, s))"
proof -
  from known obtain rt where e: "entry s d = Some rt" by auto
  note eok = entry_okD [OF ok e]
  consider (expired) "r_flags rt = RTF_UP" "r_expire rt < a_now s"
    | (up) "r_flags rt = RTF_UP" "\<not> r_expire rt < a_now s" | (down) "r_flags rt \<noteq> RTF_UP" by blast
  then show ?thesis
  proof cases
    case expired
    with eok have v: "hops rt \<noteq> INFINITY2" "even (r_seqno rt)" by (auto simp: entry_ok_def)
    have "succeeds (\<lambda>(delay', s'). aodv_ok s' \<and> knows s s') (bindR (drain d s) (\<lambda>(ps, s).
        let s = put d (\<lambda>rt. rt\<lparr>r_seqno := r_seqno rt + 1\<rparr>) (drop_all DROP_RTR_NO_ROUTE ps s) in
        bindR (assertC ((r_seqno rt + 1) mod 2 \<noteq> 0)) (\<lambda>_. Inr (delay, put d rt_down s))))"
    proof (rule succeeds_bindI [OF drain_safe [OF ok, of d]], clarify)
      fix ps :: "aodv_packet list" and t :: aodv assume t: "aodv_ok t" "keeps s t" "\<forall>d. entry t d = entry s d" "\<forall>p \<in> set ps. daddr p = d"
      from down_ok [OF t(1), of d "\<lambda>rt. r_seqno rt + 1"] t(3) e expired(1)
      have u: "aodv_ok (put d (\<lambda>rt. rt_down (rt\<lparr>r_seqno := r_seqno rt + 1\<rparr>)) t)"
        "knows t (put d (\<lambda>rt. rt_down (rt\<lparr>r_seqno := r_seqno rt + 1\<rparr>)) t)" by auto
      from knows_trans [OF keeps_knows [OF t(2)] u(2)] u(1) v(2)
      show "succeeds (\<lambda>(delay', s'). aodv_ok s' \<and> knows s s')
          (let s = put d (\<lambda>rt. rt\<lparr>r_seqno := r_seqno rt + 1\<rparr>) (drop_all DROP_RTR_NO_ROUTE ps t) in
           bindR (assertC ((r_seqno rt + 1) mod 2 \<noteq> 0)) (\<lambda>_. Inr (delay, put d rt_down s)))"
        by (simp add: Let_def put_emit_all put_put)
    qed
    with expired v(1) show ?thesis by (simp add: rt_purge_entry_def deref_eq [OF e])
  next
    case up
    with eok have v: "hops rt \<noteq> INFINITY2" by (simp add: entry_ok_def)
    have "succeeds (\<lambda>(delay', s'). aodv_ok s' \<and> knows s s') (bindR (drain d s) (\<lambda>(ps, s). send_spaced d delay ps s))"
    proof (rule succeeds_bindI [OF drain_safe [OF ok, of d]], clarify)
      fix ps :: "aodv_packet list" and t :: aodv assume t: "aodv_ok t" "keeps s t" "\<forall>d. entry t d = entry s d" "\<forall>p \<in> set ps. daddr p = d"
      then have "is_up t d" using e up by (simp add: is_up_def)
      with t eok have "succeeds (\<lambda>(delay', s'). aodv_ok s' \<and> keeps t s') (send_spaced d delay ps t)"
        by (intro send_spaced_safe) auto
      then show "succeeds (\<lambda>(delay', s'). aodv_ok s' \<and> knows s s') (send_spaced d delay ps t)"
        by (rule succeeds_mono) (use t(2) in \<open>auto intro: knows_trans dest: keeps_knows\<close>)
    qed
    with up v show ?thesis by (simp add: rt_purge_entry_def deref_eq [OF e])
  next
    case down
    have "succeeds (\<lambda>(delay', s'). aodv_ok s' \<and> knows s s') (bindR (sendRequest d s) (\<lambda>s. Inr (delay, s)))"
      by (rule succeeds_bindI [OF sendRequest_safe [OF ok known]]) (simp add: keeps_knows)
    with down ok show ?thesis by (simp add: rt_purge_entry_def deref_eq [OF e])
  qed
qed

lemma rt_purge_loop_sound:
  "aodv_ok s \<Longrightarrow> \<forall>d \<in> set ds. entry s d \<noteq> None \<Longrightarrow>
   succeeds (\<lambda>(delay', s'). aodv_ok s' \<and> knows s s') (rt_purge_loop ds (delay, s))"
proof (induction ds arbitrary: s delay)
  case Nil
  then show ?case by simp
next
  case (Cons d ds)
  from Cons.prems(2) have "entry s d \<noteq> None" by simp
  note step = rt_purge_entry_sound [OF Cons.prems(1) this, of delay]
  show ?case
  proof (simp only: rt_purge_loop.simps, rule succeeds_bindI [OF step], clarify)
    fix dl :: time and t :: aodv assume t: "aodv_ok t" "knows s t"
    then have "\<forall>d \<in> set ds. entry t d \<noteq> None" using Cons.prems(2) by (simp add: knows_def)
    from Cons.IH [OF t(1) this, of dl]
    show "succeeds (\<lambda>(delay', s'). aodv_ok s' \<and> knows s s') (rt_purge_loop ds (dl, t))"
      by (rule succeeds_mono) (use t(2) in \<open>auto intro: knows_trans\<close>)
  qed
qed

lemma rt_purge_sound:
  assumes ok: "aodv_ok s"
  shows "sound s (aodv_rt_purge s)"
proof -
  have "\<forall>d \<in> set (map r_dst (rtable s)). entry s d \<noteq> None"
    by (auto simp: entry_def art_lookup_find find_None_iff)
  from rt_purge_loop_sound [OF ok this] show ?thesis
    unfolding aodv_rt_purge_def by (rule succeeds_bindI) auto
qed

lemma nb_purge_sound:
  assumes "aodv_ok s" and "length (rtable s) \<le> AODV_MAX_ERRORS"
  shows "sound s (nb_purge s)"
  using nb_purge_loop_steady [OF assms] unfolding nb_purge_def by (rule succeeds_mono) simp

lemma sendHello_sound: "aodv_ok s \<Longrightarrow> aodv_ok (sendHello s) \<and> knows s (sendHello s)"
  by (simp add: sendHello_def alloc_pkt_def Let_def)

lemma lrtimer_sound:
  assumes ok: "aodv_ok s"
  shows "aodv_ok (lrtimer_handle p s) \<and> knows s (lrtimer_handle p s)"
proof (cases "entry s (daddr p)")
  case (Some rt)
  have "rt_down rt = rt" if "r_flags rt \<noteq> RTF_UP"
    using entry_okD [OF ok Some] that by (auto simp: entry_ok_def rt_down_def)
  then have "aodv_ok (put (daddr p) rt_down s) \<and> knows s (put (daddr p) rt_down s)" if "r_flags rt \<noteq> RTF_UP"
    using ok that Some by (auto intro!: put_ok knows_put dest: entry_okD)
  then show ?thesis using ok Some by (simp add: lrtimer_handle_def)
qed (use ok in \<open>simp add: lrtimer_handle_def\<close>)

end
