(* ===== verification/AodvFrame.thy ===== *)
theory AodvFrame
  imports AodvLinks
begin

text \<open>
  What the transmitting operations of the AODV agent leave alone: the cache of broadcast ids, and
  the sequence number, hop count, state and next hop of every route.
\<close>

definition route :: "rt_entry \<Rightarrow> u32 \<times> u16 \<times> u8 \<times> nsaddr" where
  "route rt = (r_seqno rt, r_hops rt, r_flags rt, r_nexthop rt)"

definition same :: "aodv \<Rightarrow> aodv \<Rightarrow> bool" where
  "same s s' \<longleftrightarrow> bihead s' = bihead s \<and> a_index s' = a_index s \<and> a_now s' = a_now s
     \<and> key_inv r_dst (rtable s') = key_inv r_dst (rtable s)
     \<and> (\<forall>d. map_option route (entry s' d) = map_option route (entry s d))"

lemma same_refl [simp]: "same s s"
  by (simp add: same_def)

lemma same_trans: "same s s' \<Longrightarrow> same s' s'' \<Longrightarrow> same s s''"
  by (simp add: same_def)

lemma same_frame [simp]:
  "same s (s'\<lparr>a_out := x1\<rparr>) = same s s'" "same s (s'\<lparr>a_uid := x2\<rparr>) = same s s'"
  "same s (s'\<lparr>a_rng := x3\<rparr>) = same s s'" "same s (s'\<lparr>ifqueue := x4\<rparr>) = same s s'"
  "same s (s'\<lparr>a_bid := x6\<rparr>) = same s s'" "same s (s'\<lparr>a_seqno := x7\<rparr>) = same s s'"
  "same s (s'\<lparr>rqueue := x8\<rparr>) = same s s'" "same s (emit a s') = same s s'"
  "same s (emit_all as s') = same s s'" "same s (drop_all r ps s') = same s s'"
  by (simp_all add: same_def emit_def emit_all_def drop_all_def entry_def)

lemma put_bihead [simp]: "bihead (put d f s) = bihead s"
  by (simp add: put_def)

lemma key_inv_put: "(\<And>e. r_dst (f e) = r_dst e) \<Longrightarrow> key_inv r_dst (rtable (put d f s)) = key_inv r_dst (rtable s)"
  by (simp add: put_def art_write_def key_inv_def map_key_map_first)

lemma entry_put': "(\<And>e. r_dst (f e) = r_dst e) \<Longrightarrow>
    entry (put d f s) d' = (if d = d' then map_option f (entry s d) else entry s d')"
proof -
  assume "\<And>e. r_dst (f e) = r_dst e"
  then show ?thesis
    using find_key_map_first [of "\<lambda>r. r_dst r = d" r_dst f d d' "rtable s"]
    by (simp add: entry_def put_def art_write_def art_lookup_find)
qed

lemma same_put:
  assumes "\<And>e. r_dst (f e) = r_dst e" and "\<And>e. route (f e) = route e"
  shows "same s (put d f s)"
  using assms by (auto simp: same_def entry_put' key_inv_put option.map_comp comp_def)

text \<open>Where an operation succeeds, it leaves the routes alone.\<close>

abbreviation leaves :: "aodv \<Rightarrow> aodv res \<Rightarrow> bool" where
  "leaves s m \<equiv> \<forall>s'. m = Inr s' \<longrightarrow> same s s'"

lemma leaves_bind: "leaves s m \<Longrightarrow> (\<And>s'. same s s' \<Longrightarrow> leaves s' (f s')) \<Longrightarrow> leaves s (bindR m f)"
  by (auto simp: bindR_eq_Inr intro: same_trans)

lemma drain_leaves: "drain d s = Inr (ps, s') \<Longrightarrow> same s s'"
  by (auto simp: drain_def bindR_eq_Inr)

lemma enque_leaves: "leaves s (enque p s)"
  by (auto simp: enque_def bindR_eq_Inr)

lemma forward_leaves: "leaves s (aodv_forward ro p delay s)"
proof -
  have "same s (put d (\<lambda>rt. rt\<lparr>r_expire := t\<rparr>) s)" for d t
    by (rule same_put) (simp_all add: route_def)
  then show ?thesis
    by (auto simp: aodv_forward_def bindR_eq_Inr uniform_eq split: option.splits if_splits)
qed

lemma send_reverse_leaves: "leaves s (send_reverse d ps s)"
proof (induction ps arbitrary: s)
  case (Cons p ps)
  then show ?case
    by (auto simp: bindR_eq_Inr split: if_splits dest!: forward_leaves [rule_format] intro: same_trans)
qed simp

lemma send_replied_leaves: "leaves s (send_replied d delay ps s)"
proof (induction ps arbitrary: delay s)
  case (Cons p ps)
  then show ?case
    by (auto simp: bindR_eq_Inr split: if_splits dest!: forward_leaves [rule_format] intro: same_trans)
qed simp

lemma sendReply_leaves: "leaves s (sendReply d hc rd rs lt ts s)"
  by (auto simp: sendReply_def alloc_pkt_def bindR_eq_Inr Let_def)

lemma pc_insert_route [simp]: "route (pc_insert i rt) = route rt"
  by (simp add: pc_insert_def route_def)

lemma same_pc_insert: "same s (put d (pc_insert i) s)"
  by (rule same_put) simp_all

lemma same_seqno: "same (s\<lparr>a_seqno := x\<rparr>) t = same s t"
  by (simp add: same_def entry_def)

lemma answer_request_leaves: "leaves s (answer_request p rq s)"
  by (auto simp: answer_request_def bindR_eq_Inr Let_def split: option.splits if_splits
      dest!: sendReply_leaves [rule_format] forward_leaves [rule_format]
      intro: same_trans same_pc_insert simp: same_seqno intro!: same_trans [OF _ same_pc_insert])

lemma relay_reply_leaves: "leaves s (relay_reply p rp s)"
  by (auto simp: relay_reply_def bindR_eq_Inr split: option.splits if_splits
      dest!: forward_leaves [rule_format] intro: same_trans same_pc_insert)

lemma same_entry: "same s s' \<Longrightarrow> entry s d = Some rt \<Longrightarrow> \<exists>rt'. entry s' d = Some rt' \<and> route rt' = route rt"
  unfolding same_def by (metis map_option_eq_Some option.simps(9))

end
