(* ===== verification/AodvProps.thy ===== *)
theory AodvProps
  imports AodvFrame
begin

text \<open>The properties of the AODV agent, each with an instance.\<close>

section \<open>Events\<close>

text \<open>
  What the simulator makes the agent do: a packet arrives from the link layer or an application,
  the link layer gives up on a packet, or a timer expires.
\<close>

datatype aodv_event =
  Receive aodv_packet | LinkFailed aodv_packet | BcastTick | HelloTick | NeighbourTick | RouteTick
| RepairTick aodv_packet

definition aodv_do :: "aodv_event \<Rightarrow> aodv \<Rightarrow> aodv res" where
  "aodv_do e s =
     (case e of
        Receive p \<Rightarrow> aodv_recv p s
      | LinkFailed p \<Rightarrow> rt_ll_failed p s
      | BcastTick \<Rightarrow> Inr (fst (btimer_handle s))
      | HelloTick \<Rightarrow> bindR (htimer_handle s) (\<lambda>(s, rs). Inr s)
      | NeighbourTick \<Rightarrow> bindR (ntimer_handle s) (\<lambda>(s, rs). Inr s)
      | RouteTick \<Rightarrow> bindR (rtimer_handle s) (\<lambda>(s, rs). Inr s)
      | RepairTick p \<Rightarrow> Inr (lrtimer_handle p s))"

fun aodv_run :: "(time \<times> aodv_event) list \<Rightarrow> aodv \<Rightarrow> aodv res" where
  "aodv_run [] s = Inr s"
| "aodv_run ((t, e) # es) s = bindR (aodv_do e (s\<lparr>a_now := t\<rparr>)) (aodv_run es)"

lemma aodv_attached_simps [simp]:
  "rtable (aodv_attached i rng) = []" "nbhead (aodv_attached i rng) = []" "a_index (aodv_attached i rng) = i"
  "rqueue (aodv_attached i rng) = rqueue_new" "a_seqno (aodv_attached i rng) = 2" "a_target (aodv_attached i rng)"
  "a_dmux (aodv_attached i rng)" "ifqueue (aodv_attached i rng) = Some []" "a_now (aodv_attached i rng) = 0"
  "a_out (aodv_attached i rng) = []"
  by (simp_all add: aodv_attached_def aodv_new_def set_target_def set_port_dmux_def set_if_queue_def)

text \<open>
  The events the assertions allow: packets as AODV nodes make them; no failed data packet that
  has come farther than its destination is away, which starts a local repair; at most as many
  routes as an error packet can list when a link fails; random numbers that are not negative.
\<close>

definition event_ok :: "aodv_event \<Rightarrow> aodv \<Rightarrow> bool" where
  "event_ok e s \<longleftrightarrow>
     (case e of
        Receive p \<Rightarrow> aodv_pkt_ok p
      | LinkFailed p \<Rightarrow> length (rtable s) \<le> AODV_MAX_ERRORS
          \<and> (case entry s (daddr p) of None \<Rightarrow> True | Some rt \<Rightarrow> num_forwards p \<le> hops rt)
      | BcastTick \<Rightarrow> True
      | HelloTick \<Rightarrow> 0 \<le> a_rng s 0
      | NeighbourTick \<Rightarrow> length (rtable s) \<le> AODV_MAX_ERRORS
      | RouteTick \<Rightarrow> True
      | RepairTick p \<Rightarrow> True)"

fun events_ok :: "(time \<times> aodv_event) list \<Rightarrow> aodv \<Rightarrow> bool" where
  "events_ok [] s = True"
| "events_ok ((t, e) # es) s =
     (event_ok e (s\<lparr>a_now := t\<rparr>)
      \<and> (case aodv_do e (s\<lparr>a_now := t\<rparr>) of Inl x \<Rightarrow> True | Inr s' \<Rightarrow> events_ok es s'))"

lemma a_now_ok: "aodv_ok (s\<lparr>a_now := t\<rparr>) = aodv_ok s"
  by (simp add: aodv_ok_def)

lemma event_sound:
  assumes ok: "aodv_ok s" and e: "event_ok e s"
  shows "sound s (aodv_do e s)"
proof (cases e)
  case (Receive p)
  with recv_sound [OF ok, of p] e show ?thesis by (simp add: aodv_do_def event_ok_def)
next
  case (LinkFailed p)
  with local_ll_failed_steady [OF ok, of p] e show ?thesis by (simp add: aodv_do_def event_ok_def split: option.splits)
next
  case BcastTick
  with ok show ?thesis by (simp add: aodv_do_def btimer_handle_def)
next
  case HelloTick
  have "a_rng (sendHello s) = a_rng s" by (simp add: sendHello_def alloc_pkt_def emit_def Let_def)
  moreover have "0 \<le> MinHelloInterval" "0 \<le> MaxHelloInterval - MinHelloInterval"
    by (simp_all add: MinHelloInterval_def MaxHelloInterval_def HELLO_INTERVAL_def)
  ultimately show ?thesis using HelloTick e sendHello_sound [OF ok]
    by (simp add: aodv_do_def htimer_handle_def uniform_eq Let_def event_ok_def)
next
  case NeighbourTick
  have "sound s (bindR (ntimer_handle s) (\<lambda>(s, rs). Inr s))"
    unfolding ntimer_handle_def bindR_assoc
    by (rule succeeds_bindI [OF nb_purge_sound [OF ok]]) (use NeighbourTick e in \<open>simp_all add: event_ok_def\<close>)
  with NeighbourTick show ?thesis by (simp add: aodv_do_def)
next
  case RouteTick
  have "sound s (bindR (rtimer_handle s) (\<lambda>(s, rs). Inr s))"
    unfolding rtimer_handle_def bindR_assoc
    by (rule succeeds_bindI [OF rt_purge_sound [OF ok]]) simp
  with RouteTick show ?thesis by (simp add: aodv_do_def)
next
  case (RepairTick p)
  with lrtimer_sound [OF ok, of p] show ?thesis by (simp add: aodv_do_def)
qed

lemma aodv_attached_ok: "aodv_ok (aodv_attached i rng)"
  by (simp add: aodv_ok_def key_inv_def rq_inv_new)

lemma aodv_run_ok: "aodv_ok s \<Longrightarrow> events_ok es s \<Longrightarrow> succeeds aodv_ok (aodv_run es s)"
proof (induction es arbitrary: s)
  case (Cons te es)
  obtain t e where te: "te = (t, e)" by (cases te)
  from Cons.prems have "aodv_ok (s\<lparr>a_now := t\<rparr>)" "event_ok e (s\<lparr>a_now := t\<rparr>)" by (simp_all add: te a_now_ok)
  from event_sound [OF this] obtain s' where s': "aodv_do e (s\<lparr>a_now := t\<rparr>) = Inr s'" "aodv_ok s'"
    by (auto simp: succeeds_iff)
  with Cons show ?case by (simp add: te)
qed simp


text \<open>Packets and states of the instances.\<close>

definition demo_aodv :: aodv where
  "demo_aodv = aodv_attached 1 (\<lambda>_. 0)"

definition demo_data :: aodv_packet where
  "demo_data = (packet_alloc 7 (AODVTYPE 0))\<lparr>saddr := 1, daddr := 5, ttl := 32\<rparr>"

definition demo_rreq :: aodv_request where
  "demo_rreq = \<lparr>rq_hop_count = 1, rq_bcast_id = 1, rq_dst = 9, rq_dst_seqno = 0, rq_src = 2,
                rq_src_seqno = 4, rq_timestamp = 0\<rparr>"

definition demo_request :: aodv_packet where
  "demo_request = (packet_alloc 8 (RREQ demo_rreq))
     \<lparr>ptype := PT_AODV, saddr := 2, daddr := IP_BROADCAST, sport := RT_PORT, dport := RT_PORT, ttl := 30\<rparr>"

definition demo_rrep :: aodv_reply where
  "demo_rrep = \<lparr>p_hop_count = 2, p_dst = 5, p_dst_seqno = 6, p_src = 3, p_lifetime = 10, p_timestamp = 1\<rparr>"

definition demo_reply :: aodv_packet where
  "demo_reply = (packet_alloc 9 (RREP demo_rrep))
     \<lparr>ptype := PT_AODV, saddr := 3, daddr := 1, sport := RT_PORT, dport := RT_PORT, ttl := 30\<rparr>"

definition demo_events :: "(time \<times> aodv_event) list" where
  "demo_events = [(1, Receive demo_data), (2, Receive demo_request), (3, Receive demo_reply),
     (4, RouteTick), (5, HelloTick), (6, LinkFailed demo_data), (7, NeighbourTick)]"

text \<open>
  C1: No assertion of the AODV agent fails, no null pointer is followed and no array is overrun,
  in any sequence of packets, link failures and timers of an agent that has been given its target,
  port classifier and interface queue, as long as packets are well-formed, no local repair is
  started and at most as many routes are known as an error packet can list.
\<close>

theorem aodv_run_safe:
  "events_ok es (aodv_attached i rng) \<Longrightarrow> \<exists>s'. aodv_run es (aodv_attached i rng) = Inr s' \<and> aodv_ok s'"
  using aodv_run_ok [OF aodv_attached_ok] by (auto simp: succeeds_iff)

theorem aodv_run_safe_witness:
  "\<exists>s'. aodv_run demo_events (aodv_attached 1 (\<lambda>_. 0)) = Inr s' \<and> aodv_ok s'"
proof (rule aodv_run_safe)
  show "events_ok demo_events (aodv_attached 1 (\<lambda>_. 0))" by code_simp
qed

section \<open>Requests and replies\<close>

lemma ensure_known: "entry s d = Some rt \<Longrightarrow> ensure d s = Inr s"
  by (simp add: ensure_def)

lemma id_lookup_insert [simp]: "id_lookup a b (id_insert now a b bs)"
  by (simp add: id_insert_def)

lemma ensure_bihead: "ensure d s = Inr t \<Longrightarrow> bihead t = bihead s \<and> a_index t = a_index s"
  by (auto simp: ensure_def bindR_eq_Inr split: option.splits)

lemma reverse_route_bihead: "reverse_route p rq s = Inr t \<Longrightarrow> bihead t = bihead s \<and> a_index t = a_index s"
  by (auto simp: reverse_route_def bindR_eq_Inr Let_def same_def
      dest!: drain_leaves send_reverse_leaves [rule_format])

text \<open>
  A request is handled once: after a node has handled a request, every copy of it that arrives
  (same source, same broadcast id) is freed and changes nothing else.
\<close>

theorem aodv_request_once:
  assumes "recvRequest p rq s = Inr s'"
    and "rq_src rq' = rq_src rq" "rq_bcast_id rq' = rq_bcast_id rq"
  shows "recvRequest p' rq' s' = Inr (emit (Free p') s')"
proof (cases "rq_src rq = a_index s \<or> id_lookup (rq_src rq) (rq_bcast_id rq) (bihead s)")
  case True
  with assms show ?thesis by (auto simp: recvRequest_def emit_def split: if_splits)
next
  case False
  let ?b = "id_insert (a_now s) (rq_src rq) (rq_bcast_id rq) (bihead s)"
  have "bihead s' = ?b"
    using assms(1) False
    by (auto simp: recvRequest_def bindR_eq_Inr Let_def same_def split: if_splits
        dest!: ensure_bihead reverse_route_bihead answer_request_leaves [rule_format])
  with assms(2,3) show ?thesis by (simp add: recvRequest_def)
qed

theorem aodv_request_once_witness:
  "\<exists>s'. recvRequest demo_request demo_rreq demo_aodv = Inr s'
    \<and> recvRequest demo_request demo_rreq s' = Inr (emit (Free demo_request) s')"
proof -
  have "case recvRequest demo_request demo_rreq demo_aodv of Inl e \<Rightarrow> False | Inr s \<Rightarrow> True" by code_simp
  then obtain s' where "recvRequest demo_request demo_rreq demo_aodv = Inr s'" by (auto split: sum.splits)
  from this aodv_request_once [OF this refl refl] show ?thesis by blast
qed

text \<open>
  C32: A reply installs the route it carries exactly when its sequence number is larger than that
  of the route on record, or equal and its hop count smaller; otherwise the route stays; the
  routes to other nodes stay.
\<close>

theorem aodv_reply_route:
  assumes "recvReply p rp s = Inr s'" and "entry s (p_dst rp) = Some rt"
  shows "map_option route (entry s' (p_dst rp)) =
      Some (if r_seqno rt < p_dst_seqno rp \<or> (p_dst_seqno rp = r_seqno rt \<and> uint (p_hop_count rp) < uint (r_hops rt))
            then (p_dst_seqno rp, ucast (p_hop_count rp), RTF_UP, p_src rp) else route rt)
    \<and> (\<forall>d. d \<noteq> p_dst rp \<longrightarrow> map_option route (entry s' d) = map_option route (entry s d))"
proof -
  have fresh: "r_seqno rt < p_dst_seqno rp \<or> (p_dst_seqno rp = r_seqno rt \<and> uint (p_hop_count rp) < uint (r_hops rt))
      \<longleftrightarrow> fresher (p_dst_seqno rp) (uint (p_hop_count rp)) rt"
    by (simp add: fresher_def hops_def)
  show ?thesis
  proof (cases "fresher (p_dst_seqno rp) (uint (p_hop_count rp)) rt")
    case False
    with assms have "same s s'"
      by (auto simp: recvReply_def bindR_eq_Inr ensure_known deref_eq split: if_splits
          dest!: relay_reply_leaves [rule_format])
    with False assms(2) show ?thesis by (simp add: same_def fresh)
  next
    case True
    let ?s = "put (p_dst rp) (reply_entry (a_now s) (daddr p = a_index s) rp) s"
    from True assms have "same ?s s'"
      by (auto simp: recvReply_def bindR_eq_Inr ensure_known deref_eq Let_def split: if_splits
          dest!: relay_reply_leaves [rule_format] drain_leaves send_replied_leaves [rule_format] intro: same_trans)
    moreover have "r_dst (reply_entry n m rp e) = r_dst e" "route (reply_entry n m rp e) =
        (p_dst_seqno rp, ucast (p_hop_count rp), RTF_UP, p_src rp)" for n m e
      by (simp_all add: reply_entry_simps route_def) (simp add: reply_entry_def rt_update_def Let_def)
    ultimately show ?thesis using True assms(2) by (auto simp: same_def entry_put' fresh)
  qed
qed

definition demo_reply_node :: aodv where
  "demo_reply_node = demo_aodv\<lparr>rtable := [rt_entry_new\<lparr>r_dst := 5\<rparr>], a_now := 2\<rparr>"

theorem aodv_reply_route_witness:
  "\<exists>s'. recvReply demo_reply demo_rrep demo_reply_node = Inr s'
    \<and> map_option route (entry s' 5) = Some (6, 2, RTF_UP, 3)"
proof -
  have "case recvReply demo_reply demo_rrep demo_reply_node of Inl e \<Rightarrow> False | Inr s \<Rightarrow> True" by code_simp
  then obtain s' where s': "recvReply demo_reply demo_rrep demo_reply_node = Inr s'" by (auto split: sum.splits)
  let ?rt = "rt_entry_new\<lparr>r_dst := 5\<rparr>"
  have "entry demo_reply_node (p_dst demo_rrep) = Some ?rt"
    by (simp add: entry_def demo_reply_node_def demo_rrep_def)
  from aodv_reply_route [OF s' this] s' show ?thesis
    by (simp add: demo_rrep_def fresher_def rt_entry_new_def)
qed


section \<open>Link failures\<close>

text \<open>The routes over a neighbour, what becomes of a route, and what the error packet says of it.\<close>

definition over :: "nsaddr \<Rightarrow> rt_entry \<Rightarrow> bool" where
  "over i rt \<longleftrightarrow> hops rt \<noteq> INFINITY2 \<and> r_nexthop rt = i"

definition failed :: "nsaddr \<Rightarrow> rt_entry \<Rightarrow> rt_entry" where
  "failed i rt = pc_delete i (if over i rt then rt_down (rt\<lparr>r_seqno := r_seqno rt + 1\<rparr>) else rt)"

definition listed :: "aodv_error \<Rightarrow> (nsaddr \<times> u32) list" where
  "listed re = take (unat (DestCount re)) (unreachable re)"

lemma add_unreachable_listed:
  assumes "room (Suc n) re"
  shows "\<exists>re'. add_unreachable d sq re = Inr re' \<and> room n re' \<and> listed re' = listed re @ [(d, sq)]
    \<and> unat (DestCount re') = Suc (unat (DestCount re))"
proof -
  have l: "unat (DestCount re) < length (unreachable re)" "unat (DestCount re) < 255"
    using assms by (simp_all add: room_def AODV_MAX_ERRORS_def)
  then have "unat (DestCount re + 1) = Suc (unat (DestCount re))"
    using word_inc_unat [of "DestCount re" 255] by (simp add: word_less_nat_alt)
  with assms l show ?thesis by (simp add: add_unreachable_def room_def listed_def take_Suc_conv_app_nth)
qed

lemma link_failure_loop_eq:
  "\<forall>rt \<in> set rts. entry_ok rt \<Longrightarrow> room (length rts) re \<Longrightarrow>
   \<exists>re'. link_failure_loop i rts re = Inr (map (failed i) rts, re')
     \<and> listed re' = listed re @ map (\<lambda>rt. (r_dst rt, r_seqno rt + 1)) (filter (over i) rts)
     \<and> unat (DestCount re') = unat (DestCount re) + length (filter (over i) rts)"
proof (induction rts arbitrary: re)
  case Nil
  then show ?case by simp
next
  case (Cons rt rts)
  show ?case
  proof (cases "over i rt")
    case True
    with Cons.prems(1) have up: "r_flags rt = RTF_UP" "even (r_seqno rt)" by (auto simp: entry_ok_def over_def)
    from Cons.prems(2) have "room (Suc (length rts)) re" by simp
    from add_unreachable_listed [OF this, of "r_dst rt" "r_seqno rt + 1"] obtain re1
      where re1: "add_unreachable (r_dst rt) (r_seqno rt + 1) re = Inr re1" "room (length rts) re1"
        "listed re1 = listed re @ [(r_dst rt, r_seqno rt + 1)]" "unat (DestCount re1) = Suc (unat (DestCount re))" by blast
    from Cons.prems(1) have "\<forall>rt \<in> set rts. entry_ok rt" by simp
    from Cons.IH [OF this re1(2)] True up re1 show ?thesis
      by (auto simp: over_def failed_def)
  next
    case False
    from Cons.prems have "\<forall>rt \<in> set rts. entry_ok rt" "room (length rts) re"
      using room_less by auto
    from Cons.IH [OF this] False show ?thesis by (auto simp: over_def failed_def)
  qed
qed

text \<open>
  When the link to a neighbour fails, exactly the routes over it go down, their sequence
  numbers are raised, the neighbour leaves every precursor list, and one error packet, sent to all
  neighbours and not relayed by the network layer, lists exactly the destinations lost with their
  new sequence numbers; none is sent when no route is lost.
\<close>

theorem aodv_link_failure_effect:
  assumes ok: "aodv_ok s" and few: "length (rtable s) \<le> AODV_MAX_ERRORS"
  shows "\<exists>s' p re. handle_link_failure i s = Inr s' \<and> rtable s' = map (failed i) (rtable s)
    \<and> a_out s' = a_out s @ [if \<exists>rt \<in> set (rtable s). over i rt then Sched p 0 else Free p]
    \<and> ((\<exists>rt \<in> set (rtable s). over i rt) \<longrightarrow>
        body p = RERR re \<and> daddr p = IP_BROADCAST \<and> ttl p = 1 \<and> addr_type p = NS_AF_NONE
        \<and> listed re = map (\<lambda>rt. (r_dst rt, r_seqno rt + 1)) (filter (over i) (rtable s)))"
proof -
  have "\<forall>rt \<in> set (rtable s). entry_ok rt" using ok by (simp add: aodv_ok_def)
  from link_failure_loop_eq [OF this room_new [OF few], of i] obtain re
    where re: "link_failure_loop i (rtable s) error_new = Inr (map (failed i) (rtable s), re)"
      "listed re = map (\<lambda>rt. (r_dst rt, r_seqno rt + 1)) (filter (over i) (rtable s))"
      "unat (DestCount re) = length (filter (over i) (rtable s))"
    by (auto simp: listed_def error_new_def)
  have "DestCount re > 0 \<longleftrightarrow> (\<exists>rt \<in> set (rtable s). over i rt)"
    using re(3) by (auto simp: word_gt_0 word_unat_eq_iff filter_empty_conv)
  with re(1,2) show ?thesis
    by (auto simp: handle_link_failure_def alloc_pkt_def Let_def sendError_def emit_def)
qed

definition demo_route :: rt_entry where
  "demo_route = rt_update 4 2 3 20 (rt_entry_new\<lparr>r_dst := 5\<rparr>)"

definition demo_routed :: aodv where
  "demo_routed = demo_aodv\<lparr>rtable := [demo_route]\<rparr>"

lemma demo_route_simps [simp]:
  "r_dst demo_route = 5" "r_flags demo_route = RTF_UP" "r_seqno demo_route = 4" "hops demo_route = 2"
  "r_nexthop demo_route = 3"
  by (simp_all add: demo_route_def rt_update_def hops_def)

lemma demo_routed_simps [simp]:
  "rtable demo_routed = [demo_route]" "a_out demo_routed = []" "entry demo_routed 5 = Some demo_route"
  "rqueue demo_routed = rqueue_new" "a_index demo_routed = 1"
  by (simp_all add: demo_routed_def demo_aodv_def entry_def)

lemma demo_routed_ok: "aodv_ok demo_routed"
  by (simp add: aodv_ok_def entry_ok_def INFINITY2_def key_inv_def rq_inv_new IP_BROADCAST_def)
     (simp add: demo_routed_def demo_aodv_def demo_route_def rt_update_def hist_ok_def rt_entry_new_def MAX_HISTORY_def)

theorem aodv_link_failure_effect_witness:
  "\<exists>s' p re. handle_link_failure 3 demo_routed = Inr s' \<and> a_out s' = [Sched p 0] \<and> body p = RERR re
    \<and> listed re = [(5, 5)]"
proof -
  have lost: "over 3 demo_route" by (simp add: over_def INFINITY2_def)
  have "length (rtable demo_routed) \<le> AODV_MAX_ERRORS" by (simp add: AODV_MAX_ERRORS_def)
  from aodv_link_failure_effect [OF demo_routed_ok this, of 3] lost show ?thesis by auto
qed

section \<open>Local repair\<close>

text \<open>What local repair makes of the routing table: one entry is in repair, with its old hop count.\<close>

lemma sendRequest_writes:
  assumes e: "entry s d = Some rt" and down: "r_flags rt \<noteq> RTF_UP" and sq: "even (a_seqno s)" and q: "rq_inv (rqueue s)"
  shows "\<exists>f s'. sendRequest d s = Inr s' \<and> rtable s' = art_write (rtable s) d f \<and> nbhead s' = nbhead s
    \<and> even (a_seqno s') \<and> (\<forall>e. r_dst (f e) = r_dst e \<and> r_hops (f e) = r_hops e \<and> r_nexthop (f e) = r_nexthop e \<and> r_flags (f e) = r_flags e)"
proof -
  let ?s = "s\<lparr>a_uid := a_uid s + 1\<rparr>"
  let ?give_up = "\<lambda>rt. rt\<lparr>r_req_timeout := a_now s + MAX_RREQ_TIMEOUT, r_req_cnt := 0\<rparr>"
  have e': "entry ?s d = Some rt" using e by simp
  consider (wait) "r_req_timeout rt > a_now s"
    | (give_up) "\<not> r_req_timeout rt > a_now s" "unat (r_req_cnt rt) > RREQ_RETRIES"
    | (send) "\<not> r_req_timeout rt > a_now s" "\<not> unat (r_req_cnt rt) > RREQ_RETRIES" by blast
  then show ?thesis
  proof cases
    case wait
    have "map_first P (\<lambda>e. e) rs = rs" for P and rs :: "rt_entry list" by (induction rs) auto
    then have "art_write (rtable s) d (\<lambda>e. e) = rtable s" by (simp add: art_write_def)
    with wait down e' sq show ?thesis
      by (intro exI [of _ "\<lambda>e. e"]) (simp add: sendRequest_def alloc_pkt_def deref_eq [OF e'] emit_def)
  next
    case give_up
    have "rq_inv (rqueue (put d ?give_up ?s))" using q by simp
    from rq_drain_eq [OF this, of "a_now s" d] obtain ps q' where
      "rq_drain (a_now s) d (rqueue (put d ?give_up ?s)) = Inr (ps, q')" by blast
    with give_up down e' sq show ?thesis
      by (intro exI [of _ ?give_up])
         (simp add: sendRequest_def alloc_pkt_def deref_eq [OF e'] emit_def drain_def drop_all_def emit_all_def put_def)
  next
    case send
    have "even (a_seqno s + 2)" "\<And>e. r_nexthop (request_entry (a_now s) e) = r_nexthop e"
      using sq by (simp_all add: request_entry_def Let_def)
    with send down e' sq show ?thesis
      by (intro exI [of _ "request_entry (a_now s)"])
         (simp add: sendRequest_def alloc_pkt_def deref_eq [OF e'] emit_def put_def Let_def)
  qed
qed

lemma map_first_split:
  "find P rs = Some rt \<Longrightarrow> \<exists>xs ys. rs = xs @ rt # ys \<and> (\<forall>f. map_first P f rs = xs @ f rt # ys)"
proof (induction rs)
  case (Cons r rs)
  show ?case
  proof (cases "P r")
    case True
    with Cons.prems show ?thesis by (intro exI [of _ "[]"] exI [of _ rs]) simp
  next
    case False
    with Cons obtain xs ys where "rs = xs @ rt # ys" "\<forall>f. map_first P f rs = xs @ f rt # ys" by auto
    with False show ?thesis by (intro exI [of _ "r # xs"] exI [of _ ys]) simp
  qed
qed simp

lemma link_failure_loop_aborts:
  "\<forall>rt \<in> set xs. entry_ok rt \<Longrightarrow> room (length xs) re \<Longrightarrow> over i bad \<Longrightarrow> r_flags bad \<noteq> RTF_UP
   \<Longrightarrow> link_failure_loop i (xs @ bad # ys) re = Inl AssertFail"
proof (induction xs arbitrary: re)
  case Nil
  then show ?case by (simp add: over_def)
next
  case (Cons rt xs)
  show ?case
  proof (cases "over i rt")
    case True
    with Cons.prems(1) have up: "r_flags rt = RTF_UP" "even (r_seqno rt)" by (auto simp: entry_ok_def over_def)
    from Cons.prems(2) have "room (Suc (length xs)) re" by simp
    from add_unreachable_room [OF this] obtain re1
      where re1: "add_unreachable (r_dst rt) (r_seqno rt + 1) re = Inr re1" "room (length xs) re1"
      by (auto simp: succeeds_iff)
    from Cons.prems(1) have "\<forall>rt \<in> set xs. entry_ok rt" by simp
    from Cons.IH [OF this re1(2) Cons.prems(3,4)] True up re1 show ?thesis by (auto simp: over_def)
  next
    case False
    from Cons.prems have "\<forall>rt \<in> set xs. entry_ok rt" "room (length xs) re" using room_less by auto
    from Cons.IH [OF this Cons.prems(3,4)] False show ?thesis by (auto simp: over_def)
  qed
qed


lemma local_rt_repair_table:
  assumes ok: "aodv_ok s" and e: "entry s d = Some rt"
  shows "\<exists>s' xs ys bad. local_rt_repair d p s = Inr s' \<and> rtable s = xs @ rt # ys \<and> rtable s' = xs @ bad # ys
    \<and> r_dst bad = d \<and> hops bad = hops rt \<and> r_nexthop bad = r_nexthop rt \<and> r_flags bad = RTF_IN_REPAIR
    \<and> even (a_seqno s')"
proof -
  let ?mark = "\<lambda>rt. rt\<lparr>r_flags := RTF_IN_REPAIR\<rparr>"
  have dst: "r_dst rt = d" using entry_okD [OF ok e] by simp
  from e have "find (\<lambda>r. r_dst r = d) (rtable s) = Some rt" by (simp add: entry_def art_lookup_find)
  from map_first_split [OF this] obtain xs ys
    where rs: "rtable s = xs @ rt # ys" "\<And>f. art_write (rtable s) d f = xs @ f rt # ys" by (auto simp: art_write_def)
  from ok have inv: "rq_inv (rqueue s)" "even (a_seqno s)" by (simp_all add: aodv_ok_def)
  from rq_enque_ok [OF inv(1), of "a_now s" p] obtain q as
    where q: "rq_enque (a_now s) p (rqueue s) = Inr (q, as)" "rq_inv q" by blast
  let ?s = "put d ?mark (emit_all as (s\<lparr>rqueue := q\<rparr>))"
  have s: "rtable ?s = xs @ ?mark rt # ys" "rqueue ?s = q" "a_seqno ?s = a_seqno s"
    by (simp_all add: put_def emit_all_def rs(2))
  have e': "entry ?s d = Some (?mark rt)" by (simp add: entry_put' e)
  from sendRequest_writes [OF e'] s q(2) inv(2) obtain f t
    where t: "sendRequest d ?s = Inr t" "rtable t = art_write (rtable ?s) d f" "even (a_seqno t)"
      "\<And>e. r_dst (f e) = r_dst e \<and> r_hops (f e) = r_hops e \<and> r_nexthop (f e) = r_nexthop e \<and> r_flags (f e) = r_flags e"
    by auto
  have et: "entry t d = Some (f (?mark rt))"
    using entry_put' [of f d ?s d] t(4) e' t(2) by (simp add: entry_def put_def)
  have "find (\<lambda>r. r_dst r = d) xs = None"
  proof (rule ccontr)
    assume "find (\<lambda>r. r_dst r = d) xs \<noteq> None"
    then obtain x where "x \<in> set xs" "r_dst x = d" by (auto dest: find_SomeD)
    moreover have "distinct (map r_dst (xs @ rt # ys))" using ok rs(1) by (simp add: aodv_ok_def key_inv_def)
    ultimately show False using dst by auto
  qed
  then have "art_write (xs @ ?mark rt # ys) d f = xs @ f (?mark rt) # ys"
    unfolding art_write_def by (induction xs) (auto simp: dst split: if_splits)
  with t s have "rtable t = xs @ f (?mark rt) # ys" by simp
  moreover have "local_rt_repair d p s = Inr (emit (Timer (p\<lparr>tstamp := a_now s + q_timeout q, uid := a_uid t\<rparr>)
      (r_req_timeout (f (?mark rt)))) (t\<lparr>a_uid := a_uid t + 1\<rparr>))"
    using q t(1) et by (simp add: local_rt_repair_def enque_def Let_def deref_eq) (simp add: emit_all_def)
  ultimately show ?thesis
    using rs(1) t(3,4) dst by (intro exI conjI) (assumption | simp add: hops_def emit_def)+
qed

text \<open>
  C31: A data packet that has come farther than its destination is away and cannot be delivered to
  the next hop starts a local repair, which succeeds; when after that the same neighbour is
  deleted (its hellos cease, or a packet to another destination fails), the assertion that a valid
  route is up fails and ends the simulation.
\<close>

theorem aodv_repair_aborts:
  assumes ok: "aodv_ok s" and few: "length (rtable s) \<le> AODV_MAX_ERRORS"
    and data: "DATA_PACKET (ptype p)" and e: "entry s (daddr p) = Some rt"
    and up: "hops rt \<noteq> INFINITY2" and far: "num_forwards p > hops rt"
  shows "\<exists>s'. rt_ll_failed p s = Inr s' \<and> nb_delete (r_nexthop rt) s' = Inl AssertFail"
proof -
  from entry_okD [OF ok e] have nb: "daddr p \<noteq> IP_BROADCAST" by simp
  from local_rt_repair_table [OF ok e] obtain s' xs ys bad
    where s': "local_rt_repair (daddr p) p s = Inr s'" "rtable s = xs @ rt # ys" "rtable s' = xs @ bad # ys"
      "hops bad = hops rt" "r_nexthop bad = r_nexthop rt" "r_flags bad = RTF_IN_REPAIR" "even (a_seqno s')" by blast
  have "\<forall>rt \<in> set xs. entry_ok rt" using ok s'(2) by (simp add: aodv_ok_def)
  moreover have "room (length xs) error_new" using few s'(2) by (intro room_new) simp
  ultimately have "link_failure_loop (r_nexthop rt) (xs @ bad # ys) error_new = Inl AssertFail"
    using s' up by (intro link_failure_loop_aborts) (simp_all add: over_def)
  moreover have "even (a_seqno s' + 2)" using s'(7) by simp
  ultimately have "nb_delete (r_nexthop rt) s' = Inl AssertFail"
    using s'(3) by (simp add: nb_delete_def handle_link_failure_def alloc_pkt_def)
  moreover have "rt_ll_failed p s = Inr s'" using data nb e far s'(1) by (simp add: rt_ll_failed_def)
  ultimately show ?thesis by blast
qed

theorem aodv_repair_aborts_witness:
  "\<exists>s'. rt_ll_failed (demo_data\<lparr>num_forwards := 4\<rparr>) demo_routed = Inr s' \<and> nb_delete 3 s' = Inl AssertFail"
proof -
  let ?p = "demo_data\<lparr>num_forwards := 4\<rparr>"
  have "DATA_PACKET (ptype ?p)" by (simp add: demo_data_def DATA_PACKET_def)
  moreover have "entry demo_routed (daddr ?p) = Some demo_route" by (simp add: demo_data_def)
  ultimately show ?thesis
    using aodv_repair_aborts [OF demo_routed_ok, of ?p demo_route] by (simp add: AODV_MAX_ERRORS_def INFINITY2_def)
qed


section \<open>Route discovery\<close>

text \<open>The request for a destination, and the state after it has been sent.\<close>

definition request_packet :: "nsaddr \<Rightarrow> rt_entry \<Rightarrow> aodv \<Rightarrow> aodv_packet" where
  "request_packet d rt s =
     (packet_alloc (a_uid s) (RREQ \<lparr>rq_hop_count = 1, rq_bcast_id = word_of_int (a_bid s), rq_dst = d,
        rq_dst_seqno = r_seqno rt, rq_src = a_index s, rq_src_seqno = a_seqno s + 2, rq_timestamp = a_now s\<rparr>))
     \<lparr>ttl := request_ttl (max (r_req_last_ttl rt) (r_last_hop_count rt)), ptype := PT_AODV,
      psize := IP_HDR_LEN + request_size, iface := - 2, prev_hop := a_index s,
      saddr := a_index s, daddr := IP_BROADCAST, sport := RT_PORT, dport := RT_PORT\<rparr>"

lemma request_packet_simps [simp]:
  "saddr (request_packet d rt s) = a_index s" "daddr (request_packet d rt s) = IP_BROADCAST"
  "ttl (request_packet d rt s) = request_ttl (max (r_req_last_ttl rt) (r_last_hop_count rt))"
  "body (request_packet d rt s) = RREQ \<lparr>rq_hop_count = 1, rq_bcast_id = word_of_int (a_bid s), rq_dst = d,
     rq_dst_seqno = r_seqno rt, rq_src = a_index s, rq_src_seqno = a_seqno s + 2, rq_timestamp = a_now s\<rparr>"
  by (simp_all add: request_packet_def)

lemma sendRequest_send:
  assumes e: "entry s d = Some rt" and due: "r_flags rt \<noteq> RTF_UP" "r_req_timeout rt \<le> a_now s"
    and cnt: "unat (r_req_cnt rt) \<le> RREQ_RETRIES" and sq: "even (a_seqno s)"
  shows "sendRequest d s = Inr (emit (Sched (request_packet d rt s) 0)
    (put d (request_entry (a_now s)) s\<lparr>a_uid := a_uid s + 1, a_bid := a_bid s + 1, a_seqno := a_seqno s + 2\<rparr>))"
proof -
  have e': "entry (s\<lparr>a_uid := a_uid s + 1\<rparr>) d = Some rt" using e by simp
  have "even (a_seqno s + 2)" using sq by simp
  moreover have "r_req_last_ttl (request_entry (a_now s) rt) = request_ttl (max (r_req_last_ttl rt) (r_last_hop_count rt))"
    by (simp add: request_entry_def Let_def)
  ultimately show ?thesis using due cnt e
    by (simp add: sendRequest_def alloc_pkt_def deref_eq [OF e'] Let_def)
       (simp add: emit_def put_def request_packet_def packet_alloc_def)
qed

text \<open>
  Where a request is due, exactly one is sent: broadcast from this node for the destination,
  with a fresh broadcast id, the raised sequence number of the node, the time to live of the ring
  search, and no further request before the timeout, which is at most ten seconds away.
\<close>

theorem aodv_request_sent:
  assumes e: "entry s d = Some rt" and due: "r_flags rt \<noteq> RTF_UP" "r_req_timeout rt \<le> a_now s"
    and cnt: "unat (r_req_cnt rt) \<le> RREQ_RETRIES" and sq: "even (a_seqno s)"
  shows "\<exists>s' q rt'. sendRequest d s = Inr s' \<and> a_out s' = a_out s @ [Sched q 0]
    \<and> saddr q = a_index s \<and> daddr q = IP_BROADCAST \<and> ttl q = request_ttl (max (r_req_last_ttl rt) (r_last_hop_count rt))
    \<and> body q = RREQ \<lparr>rq_hop_count = 1, rq_bcast_id = word_of_int (a_bid s), rq_dst = d, rq_dst_seqno = r_seqno rt,
                 rq_src = a_index s, rq_src_seqno = a_seqno s + 2, rq_timestamp = a_now s\<rparr>
    \<and> a_seqno s' = a_seqno s + 2 \<and> a_bid s' = a_bid s + 1
    \<and> entry s' d = Some rt' \<and> route rt' = route rt \<and> r_req_timeout rt' \<le> a_now s + MAX_RREQ_TIMEOUT"
proof -
  let ?s = "put d (request_entry (a_now s)) s"
  have "entry ?s d = Some (request_entry (a_now s) rt)" by (simp add: entry_put' e)
  moreover have "route (request_entry (a_now s) rt) = route rt"
    "r_req_timeout (request_entry (a_now s) rt) \<le> a_now s + MAX_RREQ_TIMEOUT"
    by (simp_all add: request_entry_def Let_def route_def)
  moreover have "a_out ?s = a_out s" by (simp add: put_def)
  ultimately show ?thesis using sendRequest_send [OF assms] by (simp add: emit_def entry_def)
qed

theorem aodv_request_sent_witness:
  "\<exists>s' q. sendRequest 5 (demo_aodv\<lparr>rtable := [rt_entry_new\<lparr>r_dst := 5\<rparr>]\<rparr>) = Inr s' \<and> a_out s' = [Sched q 0]
     \<and> daddr q = IP_BROADCAST \<and> ttl q = 30"
proof -
  let ?rt = "rt_entry_new\<lparr>r_dst := 5\<rparr>" and ?s = "demo_aodv\<lparr>rtable := [rt_entry_new\<lparr>r_dst := 5\<rparr>]\<rparr>"
  have "entry ?s 5 = Some ?rt" by (simp add: entry_def)
  moreover have "a_now ?s = 0" "a_out ?s = []" "even (a_seqno ?s)" "a_index ?s = 1"
    by (simp_all add: demo_aodv_def)
  moreover have "r_flags ?rt \<noteq> RTF_UP" "r_req_timeout ?rt = 0" "r_req_cnt ?rt = 0"
    "request_ttl (max (r_req_last_ttl ?rt) (r_last_hop_count ?rt)) = 30"
    by (simp_all add: rt_entry_new_def request_ttl_def INFINITY2_def TTL_THRESHOLD_def AODV_NETWORK_DIAMETER_def)
  ultimately show ?thesis using aodv_request_sent [of ?s 5 ?rt] by (fastforce simp: RREQ_RETRIES_def)
qed

text \<open>
  After four requests for a destination without an answer (a count above the three retries),
  no further request is sent: the packets waiting for the destination are dropped for want of a
  route, those that have timed out silently, and the search is blocked for ten seconds.
\<close>

theorem aodv_request_gives_up:
  assumes e: "entry s d = Some rt" and due: "r_flags rt \<noteq> RTF_UP" "r_req_timeout rt \<le> a_now s"
    and cnt: "unat (r_req_cnt rt) > RREQ_RETRIES" and q: "rq_inv (rqueue s)"
  shows "\<exists>s' f. sendRequest d s = Inr s'
    \<and> a_out s' = a_out s @ map (\<lambda>p. Drop p DROP_RTR_NO_ROUTE) (filter (\<lambda>p. daddr p = d) (fresh (a_now s) (rqueue s))) @ [Free f]
    \<and> q_list (rqueue s') = filter (\<lambda>p. daddr p \<noteq> d) (fresh (a_now s) (rqueue s))
    \<and> entry s' d = Some (rt\<lparr>r_req_timeout := a_now s + MAX_RREQ_TIMEOUT, r_req_cnt := 0\<rparr>)"
proof -
  let ?give_up = "\<lambda>rt. rt\<lparr>r_req_timeout := a_now s + MAX_RREQ_TIMEOUT, r_req_cnt := 0\<rparr>"
  let ?s = "s\<lparr>a_uid := a_uid s + 1\<rparr>"
  have e': "entry ?s d = Some rt" using e by simp
  from rq_drain_eq [OF q, of "a_now s" d] obtain q' where
    "rq_drain (a_now s) d (rqueue s) = Inr (filter (\<lambda>p. daddr p = d) (fresh (a_now s) (rqueue s)), q')"
    "q_list q' = filter (\<lambda>p. daddr p \<noteq> d) (fresh (a_now s) (rqueue s))" by blast
  moreover have "entry (put d ?give_up ?s) d = Some (?give_up rt)" by (simp add: entry_put' e)
  ultimately show ?thesis using due cnt e
    by (simp add: sendRequest_def alloc_pkt_def deref_eq [OF e'] drain_def drop_all_def emit_all_def emit_def)
       (simp add: entry_def put_def)
qed

theorem aodv_request_gives_up_witness:
  "\<exists>s'. sendRequest 5 (demo_aodv\<lparr>rtable := [rt_entry_new\<lparr>r_dst := 5, r_req_cnt := 4\<rparr>]\<rparr>) = Inr s'
     \<and> entry s' 5 = Some (rt_entry_new\<lparr>r_dst := 5, r_req_timeout := 10, r_req_cnt := 0\<rparr>)"
proof -
  let ?rt = "rt_entry_new\<lparr>r_dst := 5, r_req_cnt := 4\<rparr>"
  let ?s = "demo_aodv\<lparr>rtable := [?rt]\<rparr>"
  have "entry ?s 5 = Some ?rt" by (simp add: entry_def)
  moreover have "a_now ?s = 0" "rqueue ?s = rqueue_new" by (simp_all add: demo_aodv_def)
  moreover have "r_flags ?rt \<noteq> RTF_UP" "r_req_timeout ?rt = 0" "r_req_cnt ?rt = 4"
    by (simp_all add: rt_entry_new_def)
  ultimately show ?thesis
    using aodv_request_gives_up [of ?s 5 ?rt] by (auto simp: RREQ_RETRIES_def rq_inv_new MAX_RREQ_TIMEOUT_def)
qed

text \<open>
  The first packet a node sends to an unknown destination waits in the queue while a request
  is sent through the whole network: its time to live is 30, never the five hops of
  \<open>TTL_START\<close>, because a new entry counts as 255 hops away.
\<close>

theorem aodv_first_request_floods:
  assumes ok: "aodv_ok s" and none: "entry s (daddr p) = None" and p: "daddr p \<noteq> IP_BROADCAST" "saddr p = a_index s"
    and t: "a_now s \<ge> 0"
  shows "\<exists>s' q as rq. rt_resolve p s = Inr s' \<and> a_out s' = a_out s @ as @ [Sched q 0] \<and> body q = RREQ rq
    \<and> rq_dst rq = daddr p \<and> ttl q = 30 \<and> (\<exists>x \<in> set (q_list (rqueue s')). daddr x = daddr p \<and> uid x = uid p)"
proof -
  let ?d = "daddr p" and ?rt = "rt_entry_new\<lparr>r_dst := daddr p\<rparr>"
  let ?s = "s\<lparr>rtable := ?rt # rtable s\<rparr>"
  have ens: "ensure ?d s = Inr ?s" using none by (simp add: ensure_def art_add_def art_link_def entry_def)
  have e: "entry ?s ?d = Some ?rt" by (simp add: entry_def)
  have rt: "r_flags ?rt = RTF_DOWN" "r_req_timeout ?rt = 0" "r_req_cnt ?rt = 0"
    "request_ttl (max (r_req_last_ttl ?rt) (r_last_hop_count ?rt)) = 30"
    by (simp_all add: rt_entry_new_def request_ttl_def INFINITY2_def TTL_THRESHOLD_def AODV_NETWORK_DIAMETER_def)
  have inv: "rq_inv (rqueue s)" "even (a_seqno s)" using ok by (simp_all add: aodv_ok_def)
  from rq_enque_ok [OF inv(1), of "a_now s" p] obtain q as
    where q: "rq_enque (a_now s) p (rqueue s) = Inr (q, as)"
      "p\<lparr>tstamp := a_now s + q_timeout (rqueue s)\<rparr> \<in> set (q_list q)"
    by (auto split: if_splits)
  let ?t = "emit_all as (?s\<lparr>rqueue := q\<rparr>)"
  have enq: "enque p ?s = Inr ?t" using q(1) by (simp add: enque_def)
  have t: "entry ?t ?d = Some ?rt" "a_now ?t = a_now s" "a_seqno ?t = a_seqno s"
    "rqueue ?t = q" "a_out ?t = a_out s @ as" "a_out (put d f u) = a_out u" for d f u
    using e by (simp_all add: emit_all_def entry_def put_def)
  have "sendRequest ?d ?t = Inr (emit (Sched (request_packet ?d ?rt ?t) 0)
    (put ?d (request_entry (a_now ?t)) ?t\<lparr>a_uid := a_uid ?t + 1, a_bid := a_bid ?t + 1, a_seqno := a_seqno ?t + 2\<rparr>))"
    by (rule sendRequest_send [OF t(1)]) (use rt inv \<open>a_now s \<ge> 0\<close> t in simp_all)
  moreover have "rt_resolve p s = bindR (enque p ?s) (sendRequest ?d)"
    using p rt(1) by (simp add: rt_resolve_def ens deref_eq [OF e])
  ultimately have r: "rt_resolve p s = Inr (emit (Sched (request_packet ?d ?rt ?t) 0)
    (put ?d (request_entry (a_now ?t)) ?t\<lparr>a_uid := a_uid ?t + 1, a_bid := a_bid ?t + 1, a_seqno := a_seqno ?t + 2\<rparr>))"
    by (simp add: enq)
  let ?u = "emit (Sched (request_packet ?d ?rt ?t) 0)
    (put ?d (request_entry (a_now ?t)) ?t\<lparr>a_uid := a_uid ?t + 1, a_bid := a_bid ?t + 1, a_seqno := a_seqno ?t + 2\<rparr>)"
  have "a_out ?u = a_out s @ as @ [Sched (request_packet ?d ?rt ?t) 0]" "rqueue ?u = q"
    by (simp_all add: emit_def put_def emit_all_def)
  moreover have "ttl (request_packet ?d ?rt ?t) = 30" using rt(4) by simp
  moreover have "\<exists>x \<in> set (q_list q). daddr x = ?d \<and> uid x = uid p"
    by (rule bexI [OF _ q(2)]) simp
  moreover note request_packet_simps(4) [of ?d ?rt ?t]
  ultimately show ?thesis using r by fastforce
qed

theorem aodv_first_request_floods_witness:
  "\<exists>s' q as. rt_resolve demo_data demo_aodv = Inr s' \<and> a_out s' = a_out demo_aodv @ as @ [Sched q 0] \<and> ttl q = 30"
proof -
  have "aodv_ok demo_aodv" by (simp add: demo_aodv_def aodv_attached_ok)
  moreover have "entry demo_aodv (daddr demo_data) = None" "daddr demo_data \<noteq> IP_BROADCAST"
    "saddr demo_data = a_index demo_aodv" "a_now demo_aodv \<ge> 0"
    by (simp_all add: demo_data_def demo_aodv_def entry_def IP_BROADCAST_def)
  ultimately show ?thesis using aodv_first_request_floods [of demo_aodv demo_data] by blast
qed

text \<open>
  The sequence number in a reply of the destination is even and, up to the end of the 32-bit
  range, larger than its own last one and than the one the request asks for.
\<close>

theorem aodv_reply_seqno:
  assumes "max own asked < 0xfffffffe"
  shows "even (reply_seqno own asked) \<and> own < reply_seqno own asked \<and> asked < reply_seqno own asked"
proof -
  let ?m = "max own asked"
  from assms have m: "?m < ?m + 1" "?m + 1 < 0xffffffff"
    using u32_less_inc [of ?m] word_inc_unat [OF assms] by (auto simp: word_less_nat_alt)
  then have "?m + 1 < ?m + 1 + 1" using u32_less_inc by blast
  with m(1) have "?m < reply_seqno own asked" by (auto simp: reply_seqno_def Let_def)
  moreover have "own \<le> ?m" "asked \<le> ?m" by simp_all
  ultimately show ?thesis using reply_seqno_even [of own asked] by (meson order_le_less_trans)
qed

theorem aodv_reply_seqno_witness: "even (reply_seqno 4 7) \<and> (7 :: u32) < reply_seqno 4 7"
  using aodv_reply_seqno [of 4 7] by simp

end
