(* ===== verification/TcpAcker.thy ===== *)
theory TcpAcker
  imports NsPrelude
begin

text \<open>
  The receive window of the TCP receivers, class \<open>Acker\<close> of \<open>tcp/tcp-sink.cc\<close>: a ring that
  holds the size of each segment received above the first missing one. The ring grows when a
  segment arrives too far ahead. Whatever the order of arrival, the window tells the first missing
  segment, recognises duplicates and hands each byte to the application once.
\<close>

unbundle bit_operations_syntax

section \<open>State and operations\<close>

text \<open>
  Sequence numbers count segments; they and the byte counts are \<open>int\<close> in the code. The mask is
  the size of the ring minus one.
\<close>

record acker =
  nxt :: int
  maxseen :: int
  wndmask :: nat
  ecn_unacked :: bool
  seen :: "int list"
  ts_to_echo :: time
  is_dup :: bool
  last_ack_sent :: int

definition MWS :: nat where "MWS = 64"

definition acker_new :: acker where
  "acker_new =
     \<lparr>nxt = 0, maxseen = 0, wndmask = MWS - 1, ecn_unacked = False, seen = replicate MWS 0,
      ts_to_echo = 0, is_dup = False, last_ack_sent = 0\<rparr>"

definition acker_reset :: "acker \<Rightarrow> acker" where
  "acker_reset a = a\<lparr>nxt := 0, maxseen := 0, seen := replicate (wndmask a + 1) 0 @ drop (wndmask a + 1) (seen a)\<rparr>"

definition Seqno :: "acker \<Rightarrow> int" where
  "Seqno a = nxt a - 1"

text \<open>The cell of a segment, \<open>seen_[i & wndmask_]\<close>.\<close>

definition slot :: "nat \<Rightarrow> int \<Rightarrow> nat" where
  "slot m i = nat (i AND int m)"

definition cell :: "acker \<Rightarrow> int \<Rightarrow> int" where
  "cell a i = seen a ! slot (wndmask a) i"

definition set_cell :: "int \<Rightarrow> int \<Rightarrow> acker \<Rightarrow> acker" where
  "set_cell i v a = a\<lparr>seen := (seen a)[slot (wndmask a) i := v]\<rparr>"

definition resize_buffers :: "nat \<Rightarrow> acker \<Rightarrow> acker" where
  "resize_buffers sz a =
     a\<lparr>seen := fold (\<lambda>i new. new[slot (sz - 1) i := seen a ! slot (wndmask a) i])
                 [nxt a..maxseen a + 1] (replicate sz 0),
       wndmask := sz - 1\<rparr>"

definition update_ts :: "int \<Rightarrow> time \<Rightarrow> bool \<Rightarrow> acker \<Rightarrow> acker" where
  "update_ts seqno ts rfc1323 a =
     (if rfc1323 \<and> seqno = last_ack_sent a + 1 then a\<lparr>ts_to_echo := ts\<rparr>
      else if ts \<ge> ts_to_echo a \<and> seqno \<le> last_ack_sent a + 1 then a\<lparr>ts_to_echo := ts\<rparr>
      else a)"

text \<open>The first loop of \<open>update\<close>: the ring is doubled until the segment fits.\<close>

function grow :: "int \<Rightarrow> acker \<Rightarrow> acker" where
  "grow seq a =
     (if seq + 1 - nxt a \<ge> int (wndmask a) then grow seq (resize_buffers ((wndmask a + 1) * 2) a) else a)"
  by pat_completeness auto
termination
  by (relation "measure (\<lambda>(seq, a). nat (seq + 1 - nxt a - int (wndmask a) + 1))") (auto simp: resize_buffers_def)

declare grow.simps [simp del]

text \<open>A segment above all others: the cells between are cleared, and the one after it.\<close>

definition mark_new :: "int \<Rightarrow> int \<Rightarrow> acker \<Rightarrow> acker" where
  "mark_new seq numBytes a =
     (let a1 = fold (\<lambda>i. set_cell i 0) [maxseen a + 1..seq - 1] a
      in set_cell (seq + 1) 0 (set_cell seq numBytes (a1\<lparr>maxseen := seq\<rparr>)))"

text \<open>
  The last loop: count the bytes of the segments that are now in order. The cells do not change in
  the loop, so when all of them are marked it goes round for ever: \<open>None\<close>.
\<close>

fun take_in_order :: "nat \<Rightarrow> acker \<Rightarrow> int \<Rightarrow> int \<Rightarrow> (int \<times> int) option" where
  "take_in_order 0 a next numToDeliver = None"
| "take_in_order (Suc k) a next numToDeliver =
     (if cell a next \<noteq> 0 then take_in_order k a (next + 1) (numToDeliver + cell a next)
      else Some (next, numToDeliver))"

definition acker_update :: "int \<Rightarrow> int \<Rightarrow> acker \<Rightarrow> (int \<times> acker) option" where
  "acker_update seq numBytes a0 =
     (let a1 = grow seq (a0\<lparr>is_dup := False\<rparr>);
          just_marked = (seq > maxseen a1);
          a2 = (if just_marked then mark_new seq numBytes a1 else a1);
          a3 = (if seq < nxt a2 then a2\<lparr>is_dup := True\<rparr> else a2)
      in if seq \<ge> nxt a2 \<and> seq \<le> maxseen a2 then
           (let a4 = (if cell a3 seq \<noteq> 0 \<and> \<not> just_marked then a3\<lparr>is_dup := True\<rparr> else a3);
                a5 = set_cell seq numBytes a4
            in case take_in_order (wndmask a5 + 1) a5 (nxt a5) 0 of
                 None \<Rightarrow> None
               | Some (next, n) \<Rightarrow> Some (n, a5\<lparr>nxt := next\<rparr>))
         else Some (0, a3))"

section \<open>The ring\<close>

text \<open>The size of the ring is a power of two, so the cell of a segment is its number modulo the size.\<close>

definition ring_ok :: "acker \<Rightarrow> bool" where
  "ring_ok a \<longleftrightarrow> (\<exists>k. wndmask a + 1 = 2 ^ k) \<and> length (seen a) = wndmask a + 1"

lemma slot_mod: "m + 1 = 2 ^ k \<Longrightarrow> int (slot m i) = i mod (int m + 1)"
proof -
  assume m: "m + 1 = 2 ^ k"
  then have "int m = mask k" by (metis add_diff_cancel_right' mask_eq_exp_minus_1 of_nat_mask_eq)
  then have "i AND int m = i mod 2 ^ k" by (simp add: take_bit_eq_mask [symmetric] take_bit_eq_mod)
  moreover have "(2 :: int) ^ k = int m + 1" using m by (metis of_nat_1 of_nat_add of_nat_numeral of_nat_power)
  ultimately show ?thesis by (simp add: slot_def)
qed

lemma slot_less: "m + 1 = 2 ^ k \<Longrightarrow> slot m i < m + 1"
  using slot_mod [of m k i] pos_mod_bound [of "int m + 1" i] by linarith

text \<open>Two segments less than the size of the ring apart have different cells.\<close>

lemma slot_inj:
  assumes "m + 1 = 2 ^ k" and "slot m i = slot m j" and "\<bar>i - j\<bar> \<le> int m"
  shows "i = j"
proof -
  from assms(1,2) have "i mod (int m + 1) = j mod (int m + 1)" by (metis slot_mod)
  then have "(int m + 1) dvd (i - j)" by (simp add: mod_eq_dvd_iff)
  with assms(3) show ?thesis
    using zdvd_imp_le [of "int m + 1" "\<bar>i - j\<bar>"] by (cases "i = j") auto
qed

lemma cell_set_cell:
  assumes "ring_ok a" and "\<bar>i - j\<bar> \<le> int (wndmask a)"
  shows "cell (set_cell i v a) j = (if i = j then v else cell a j)"
proof -
  from assms(1) obtain k where k: "wndmask a + 1 = 2 ^ k" "length (seen a) = wndmask a + 1"
    by (auto simp: ring_ok_def)
  with slot_inj [OF k(1) _ assms(2)] slot_less [OF k(1), of i] show ?thesis
    by (auto simp: cell_def set_cell_def nth_list_update)
qed

lemma set_cell_simps [simp]:
  "nxt (set_cell i v a) = nxt a" "maxseen (set_cell i v a) = maxseen a" "wndmask (set_cell i v a) = wndmask a"
  "is_dup (set_cell i v a) = is_dup a" "ring_ok (set_cell i v a) = ring_ok a"
  "last_ack_sent (set_cell i v a) = last_ack_sent a" "ecn_unacked (set_cell i v a) = ecn_unacked a"
  "ts_to_echo (set_cell i v a) = ts_to_echo a"
  by (simp_all add: set_cell_def ring_ok_def)

lemma cell_update [simp]:
  "cell (a\<lparr>is_dup := b\<rparr>) i = cell a i" "cell (a\<lparr>nxt := n\<rparr>) i = cell a i" "cell (a\<lparr>maxseen := n\<rparr>) i = cell a i"
  "ring_ok (a\<lparr>is_dup := b\<rparr>) = ring_ok a" "ring_ok (a\<lparr>nxt := n\<rparr>) = ring_ok a" "ring_ok (a\<lparr>maxseen := n\<rparr>) = ring_ok a"
  by (simp_all add: cell_def ring_ok_def)

section \<open>The invariant and the abstract window\<close>

text \<open>
  The window ends at least two cells before the ring is full; the first cell is not marked, nor is
  the one after the last.
\<close>

definition acker_inv :: "acker \<Rightarrow> bool" where
  "acker_inv a \<longleftrightarrow>
     ring_ok a \<and> 0 \<le> nxt a \<and> 0 \<le> maxseen a \<and> nxt a \<le> maxseen a + 1 \<and> maxseen a + 1 - nxt a < int (wndmask a)
     \<and> cell a (nxt a) = 0 \<and> cell a (maxseen a + 1) = 0"

text \<open>The sizes of the segments received above the first missing one.\<close>

definition window :: "acker \<Rightarrow> int \<Rightarrow> int" where
  "window a i = (if nxt a \<le> i \<and> i \<le> maxseen a then cell a i else 0)"

lemma window_is_dup [simp]: "window (a\<lparr>is_dup := b\<rparr>) = window a"
  by (simp add: window_def fun_eq_iff)

lemma ring_ok_new: "ring_ok acker_new"
  unfolding ring_ok_def by (rule conjI, rule exI [of _ 6]) (simp_all add: acker_new_def MWS_def)

lemma slot_replicate: "n = 2 ^ k \<Longrightarrow> replicate n (0 :: int) ! slot (n - 1) i = 0"
  using slot_less [of "n - 1" k i] by simp

lemma acker_inv_new: "acker_inv acker_new"
proof -
  have "cell acker_new i = 0" for i
    using slot_replicate [of MWS 6 i] by (simp add: cell_def acker_new_def MWS_def)
  then show ?thesis using ring_ok_new by (simp add: acker_inv_def) (simp add: acker_new_def MWS_def)
qed

lemma window_new: "window acker_new i = 0"
  using slot_replicate [of MWS 6 i] by (simp add: window_def cell_def acker_new_def MWS_def)

section \<open>Growing\<close>

lemma fold_update_nth:
  assumes "inj_on f (set xs)" and "\<forall>x \<in> set xs. f x < length ys" and "distinct xs"
  shows "j \<in> set xs \<Longrightarrow> fold (\<lambda>i zs. zs[f i := g i]) xs ys ! f j = g j"
  using assms
proof (induction xs arbitrary: ys)
  case (Cons x xs)
  have other: "f j \<notin> f ` set as \<Longrightarrow> fold (\<lambda>i zs. zs[f i := g i]) as zs ! f j = zs ! f j" for as zs
    by (induction as arbitrary: zs) auto
  show ?case
  proof (cases "j = x")
    case True
    with Cons.prems have "f j \<notin> f ` set xs" by (auto simp: inj_on_def)
    with other [OF this] Cons.prems True show ?thesis by simp
  next
    case False
    with Cons show ?thesis by simp
  qed
qed simp

lemma length_fold_update: "length (fold (\<lambda>i zs. zs[f i := g i]) xs ys) = length ys"
  by (induction xs arbitrary: ys) auto

lemma resize_buffers_cell:
  assumes sz: "sz = 2 ^ k" and fit: "maxseen a + 1 - nxt a < int sz" and j: "nxt a \<le> j" "j \<le> maxseen a + 1"
  shows "cell (resize_buffers sz a) j = cell a j"
proof -
  have sz': "sz - 1 + 1 = 2 ^ k" using sz by simp
  have "inj_on (slot (sz - 1)) (set [nxt a..maxseen a + 1])"
    using slot_inj [OF sz'] fit sz by (intro inj_onI) auto
  moreover have "\<forall>i \<in> set [nxt a..maxseen a + 1]. slot (sz - 1) i < length (replicate sz (0 :: int))"
    using slot_less [OF sz'] sz by simp
  ultimately show ?thesis
    using fold_update_nth [of "slot (sz - 1)" "[nxt a..maxseen a + 1]" "replicate sz 0" j
        "\<lambda>i. seen a ! slot (wndmask a) i"] j
    by (simp add: resize_buffers_def cell_def)
qed

lemma resize_buffers_simps [simp]:
  "nxt (resize_buffers sz a) = nxt a" "maxseen (resize_buffers sz a) = maxseen a"
  "wndmask (resize_buffers sz a) = sz - 1" "is_dup (resize_buffers sz a) = is_dup a"
  "last_ack_sent (resize_buffers sz a) = last_ack_sent a"
  "ecn_unacked (resize_buffers sz a) = ecn_unacked a" "ts_to_echo (resize_buffers sz a) = ts_to_echo a"
  by (simp_all add: resize_buffers_def)

text \<open>Resizing keeps the window.\<close>

lemma resize_buffers_inv:
  assumes "acker_inv a"
  shows "acker_inv (resize_buffers ((wndmask a + 1) * 2) a) \<and> window (resize_buffers ((wndmask a + 1) * 2) a) = window a"
proof -
  obtain k where k: "wndmask a + 1 = 2 ^ k" using assms by (auto simp: acker_inv_def ring_ok_def)
  then have sz: "(wndmask a + 1) * 2 = 2 ^ Suc k" by (simp del: add_2_eq_Suc')
  have c: "cell (resize_buffers ((wndmask a + 1) * 2) a) j = cell a j" if "nxt a \<le> j" "j \<le> maxseen a + 1" for j
    by (rule resize_buffers_cell [OF sz _ that]) (use assms in \<open>simp add: acker_inv_def\<close>)
  have "ring_ok (resize_buffers ((wndmask a + 1) * 2) a)"
    unfolding ring_ok_def using sz by (auto simp: resize_buffers_def length_fold_update intro!: exI [of _ "Suc k"])
  with assms c show ?thesis by (auto simp: acker_inv_def window_def fun_eq_iff)
qed

lemma grow_spec:
  "acker_inv a \<Longrightarrow> acker_inv (grow seq a) \<and> window (grow seq a) = window a \<and> nxt (grow seq a) = nxt a
    \<and> maxseen (grow seq a) = maxseen a \<and> is_dup (grow seq a) = is_dup a \<and> last_ack_sent (grow seq a) = last_ack_sent a
    \<and> ecn_unacked (grow seq a) = ecn_unacked a \<and> ts_to_echo (grow seq a) = ts_to_echo a
    \<and> seq + 1 - nxt a < int (wndmask (grow seq a))"
proof (induction seq a rule: grow.induct)
  case (1 seq a)
  show ?case
  proof (cases "seq + 1 - nxt a \<ge> int (wndmask a)")
    case True
    from resize_buffers_inv [OF 1(2)] 1(1) [OF True] True show ?thesis by (subst (1 2 3 4 5 6 7 8 9) grow.simps) simp
  next
    case False
    with 1(2) show ?thesis by (subst (1 2 3 4 5 6 7 8 9) grow.simps) simp
  qed
qed

section \<open>One segment\<close>

lemma fold_set_cell_simps [simp]:
  "nxt (fold (\<lambda>i. set_cell i v) xs a) = nxt a" "maxseen (fold (\<lambda>i. set_cell i v) xs a) = maxseen a"
  "wndmask (fold (\<lambda>i. set_cell i v) xs a) = wndmask a" "is_dup (fold (\<lambda>i. set_cell i v) xs a) = is_dup a"
  "ring_ok (fold (\<lambda>i. set_cell i v) xs a) = ring_ok a"
  "last_ack_sent (fold (\<lambda>i. set_cell i v) xs a) = last_ack_sent a"
  "ecn_unacked (fold (\<lambda>i. set_cell i v) xs a) = ecn_unacked a" "ts_to_echo (fold (\<lambda>i. set_cell i v) xs a) = ts_to_echo a"
  by (induction xs arbitrary: a) simp_all

lemma cell_fold_set_cell:
  "ring_ok a \<Longrightarrow> \<forall>i \<in> set xs. \<bar>i - j\<bar> \<le> int (wndmask a)
   \<Longrightarrow> cell (fold (\<lambda>i. set_cell i v) xs a) j = (if j \<in> set xs then v else cell a j)"
proof (induction xs arbitrary: a)
  case (Cons x xs)
  then show ?case by (simp add: cell_set_cell)
qed simp

lemma mark_new_simps [simp]:
  "nxt (mark_new seq n a) = nxt a" "maxseen (mark_new seq n a) = seq" "wndmask (mark_new seq n a) = wndmask a"
  "is_dup (mark_new seq n a) = is_dup a" "ring_ok (mark_new seq n a) = ring_ok a"
  "last_ack_sent (mark_new seq n a) = last_ack_sent a" "ecn_unacked (mark_new seq n a) = ecn_unacked a"
  "ts_to_echo (mark_new seq n a) = ts_to_echo a"
  by (simp_all add: mark_new_def Let_def)

lemma mark_new_cell:
  assumes inv: "acker_inv a" and seq: "maxseen a < seq" "seq + 1 - nxt a < int (wndmask a)"
    and j: "nxt a \<le> j" "j \<le> seq + 1"
  shows "cell (mark_new seq n a) j = (if j = seq then n else if j \<le> maxseen a then cell a j else 0)"
proof -
  let ?a1 = "fold (\<lambda>i. set_cell i 0) [maxseen a + 1..seq - 1] a"
  have ok: "ring_ok a" and le: "nxt a \<le> maxseen a + 1" using inv by (auto simp: acker_inv_def)
  then have "\<forall>i \<in> set [maxseen a + 1..seq - 1]. \<bar>i - j\<bar> \<le> int (wndmask a)" using seq j by auto
  then have "cell ?a1 j = (if maxseen a < j \<and> j < seq then 0 else cell a j)"
    using cell_fold_set_cell [OF ok, of "[maxseen a + 1..seq - 1]" j 0] by auto
  moreover have "\<bar>seq - j\<bar> \<le> int (wndmask a)" "\<bar>seq + 1 - j\<bar> \<le> int (wndmask a)" using seq j by linarith+
  ultimately show ?thesis
    using ok j seq by (auto simp: mark_new_def Let_def cell_set_cell)
qed

text \<open>The last loop ends at the first cell that is not marked.\<close>

lemma take_in_order_spec:
  "cell a z = 0 \<Longrightarrow> next \<le> z \<Longrightarrow> z - next < int k
   \<Longrightarrow> \<exists>m. take_in_order k a next t = Some (m, t + (\<Sum>i\<in>{next..<m}. cell a i)) \<and> next \<le> m \<and> m \<le> z \<and> cell a m = 0
     \<and> (\<forall>i\<in>{next..<m}. cell a i \<noteq> 0)"
proof (induction k arbitrary: "next" t)
  case (Suc k)
  show ?case
  proof (cases "cell a next = 0")
    case True
    with Suc.prems show ?thesis by (intro exI [of _ "next"]) simp
  next
    case False
    with Suc.prems have "next < z" by (cases "next = z") auto
    with Suc.IH [of "next + 1" "t + cell a next"] Suc.prems obtain m
      where m: "take_in_order k a (next + 1) (t + cell a next) = Some (m, t + cell a next + (\<Sum>i\<in>{next + 1..<m}. cell a i))"
        "next + 1 \<le> m" "m \<le> z" "cell a m = 0" "\<forall>i\<in>{next + 1..<m}. cell a i \<noteq> 0" by auto
    have "{next..<m} = insert next {next + 1..<m}" using m(2) by auto
    with m False show ?thesis by (intro exI [of _ m]) auto
  qed
qed simp

text \<open>
  What a segment does to the window \<open>W\<close>: it is entered unless it lies below the first missing
  segment; then the first missing segment is looked for in the new window.
\<close>

definition enter :: "acker \<Rightarrow> int \<Rightarrow> int \<Rightarrow> int \<Rightarrow> int" where
  "enter a seq n = (if seq < nxt a then window a else (window a)(seq := n))"

lemma acker_update_spec:
  assumes inv: "acker_inv a" and n: "0 < n"
  shows "\<exists>d a'. acker_update seq n a = Some (d, a') \<and> acker_inv a' \<and> maxseen a' = max (maxseen a) seq
    \<and> (is_dup a' \<longleftrightarrow> seq < nxt a \<or> window a seq \<noteq> 0)
    \<and> nxt a \<le> nxt a' \<and> enter a seq n (nxt a') = 0 \<and> (\<forall>i\<in>{nxt a..<nxt a'}. enter a seq n i \<noteq> 0)
    \<and> d = (\<Sum>i\<in>{nxt a..<nxt a'}. enter a seq n i)
    \<and> window a' = (\<lambda>i. if nxt a' \<le> i then enter a seq n i else 0)
    \<and> last_ack_sent a' = last_ack_sent a \<and> ecn_unacked a' = ecn_unacked a \<and> ts_to_echo a' = ts_to_echo a"
proof -
  let ?a1 = "grow seq (a\<lparr>is_dup := False\<rparr>)"
  have "acker_inv (a\<lparr>is_dup := False\<rparr>)" using inv by (simp add: acker_inv_def)
  note g = grow_spec [OF this, of seq]
  from g have inv1: "acker_inv ?a1" and win1: "window ?a1 = window a" and
    same: "nxt ?a1 = nxt a" "maxseen ?a1 = maxseen a" "\<not> is_dup ?a1" "last_ack_sent ?a1 = last_ack_sent a"
    "ecn_unacked ?a1 = ecn_unacked a" "ts_to_echo ?a1 = ts_to_echo a" and
    room: "seq + 1 - nxt a < int (wndmask ?a1)" by auto
  have in1: "ring_ok ?a1" "0 \<le> nxt a" "0 \<le> maxseen a" "nxt a \<le> maxseen a + 1" "maxseen a + 1 - nxt a < int (wndmask ?a1)"
    "cell ?a1 (nxt a) = 0" "cell ?a1 (maxseen a + 1) = 0"
    using inv1 by (simp_all add: acker_inv_def same)
  have win: "window a i = (if nxt a \<le> i \<and> i \<le> maxseen a then cell ?a1 i else 0)" for i
    using fun_cong [OF win1, of i] by (simp add: window_def [of ?a1] same)
  show ?thesis
  proof (cases "seq < nxt a")
    case True
    then have "acker_update seq n a = Some (0, ?a1\<lparr>is_dup := True\<rparr>)" using in1 by (simp add: acker_update_def Let_def same)
    moreover have "acker_inv (?a1\<lparr>is_dup := True\<rparr>)" using inv1 by (simp add: acker_inv_def)
    moreover have "max (maxseen a) seq = maxseen a" using True in1(4) by linarith
    moreover have e: "enter a seq n = window a" using True by (simp add: enter_def fun_eq_iff)
    moreover have "window a (nxt a) = 0" using inv by (simp add: window_def acker_inv_def)
    moreover have "window (?a1\<lparr>is_dup := True\<rparr>) = (\<lambda>i. if nxt a \<le> i then enter a seq n i else 0)"
      unfolding e window_is_dup win1 by (auto simp: window_def)
    ultimately show ?thesis using True by (simp add: same)
  next
    case False
    let ?jm = "seq > maxseen a"
    let ?a2 = "if ?jm then mark_new seq n ?a1 else ?a1"
    let ?a4 = "if cell ?a2 seq \<noteq> 0 \<and> \<not> ?jm then ?a2\<lparr>is_dup := True\<rparr> else ?a2"
    let ?a5 = "set_cell seq n ?a4" and ?M = "max (maxseen a) seq"
    have s5: "nxt ?a5 = nxt a" "maxseen ?a5 = ?M" "wndmask ?a5 = wndmask ?a1" "last_ack_sent ?a5 = last_ack_sent a"
      "ecn_unacked ?a5 = ecn_unacked a" "ts_to_echo ?a5 = ts_to_echo a" "ring_ok ?a5"
      using in1(1) by (auto simp: same)
    have dup: "is_dup ?a5 \<longleftrightarrow> window a seq \<noteq> 0" using False by (auto simp: win same)
    have c2: "cell ?a2 j = (if j = seq \<and> ?jm then n else if j \<le> maxseen a then cell ?a1 j else 0)"
      if "nxt a \<le> j" "j \<le> ?M + 1" for j
    proof (cases ?jm)
      case True
      have "maxseen ?a1 < seq" "seq + 1 - nxt ?a1 < int (wndmask ?a1)" "nxt ?a1 \<le> j" "j \<le> seq + 1"
        using True room that by (simp_all add: same)
      from mark_new_cell [OF inv1 this, of n] True show ?thesis by (auto simp: same)
    next
      case no: False
      then have "j = maxseen a + 1 \<or> j \<le> maxseen a" using that by auto
      with no in1(7) show ?thesis by auto
    qed
    have c5: "cell ?a5 j = (if j = seq then n else if j \<le> maxseen a then cell ?a1 j else 0)"
      if "nxt a \<le> j" "j \<le> ?M + 1" for j
    proof -
      have "ring_ok ?a4" "wndmask ?a4 = wndmask ?a1" using in1(1) by auto
      moreover have "\<bar>seq - j\<bar> \<le> int (wndmask ?a1)" using False that room in1(5) by (auto simp: max_def split: if_splits)
      ultimately have "cell ?a5 j = (if seq = j then n else cell ?a4 j)" using cell_set_cell [of ?a4 seq j n] by simp
      moreover have "cell ?a4 j = cell ?a2 j" by simp
      ultimately show ?thesis using c2 [OF that] by auto
    qed
    have e5: "enter a seq n j = cell ?a5 j" if "nxt a \<le> j" "j \<le> ?M + 1" for j
      using c5 [OF that] False that by (auto simp: enter_def win)
    have z: "cell ?a5 (?M + 1) = 0" using c5 [of "?M + 1"] in1 by (auto simp: max_def)
    have "nxt a \<le> ?M + 1" "?M + 1 - nxt a < int (wndmask ?a5 + 1)" using in1 room s5(3) by auto
    from take_in_order_spec [OF z this, of 0] obtain m where m:
      "take_in_order (wndmask ?a5 + 1) ?a5 (nxt a) 0 = Some (m, \<Sum>i\<in>{nxt a..<m}. cell ?a5 i)"
      "nxt a \<le> m" "m \<le> ?M + 1" "cell ?a5 m = 0" "\<forall>i\<in>{nxt a..<m}. cell ?a5 i \<noteq> 0" by auto
    have eq: "acker_update seq n a = Some (\<Sum>i\<in>{nxt a..<m}. cell ?a5 i, ?a5\<lparr>nxt := m\<rparr>)"
    proof -
      have n2: "nxt ?a2 = nxt a" "maxseen ?a2 = ?M" "maxseen ?a1 = maxseen a" by (auto simp: same)
      have "acker_update seq n a = (case take_in_order (wndmask ?a5 + 1) ?a5 (nxt ?a5) 0 of
          None \<Rightarrow> None | Some (next, k) \<Rightarrow> Some (k, ?a5\<lparr>nxt := next\<rparr>))"
        unfolding acker_update_def Let_def n2 using False by (simp only: if_False if_True) simp
      with m(1) show ?thesis by (simp only: s5(1) option.case prod.case)
    qed
    have "enter a seq n i = 0" if "?M + 1 \<le> i" for i using that by (auto simp: enter_def win)
    then have W: "window (?a5\<lparr>nxt := m\<rparr>) = (\<lambda>i. if m \<le> i then enter a seq n i else 0)"
      using e5 m(2) s5(2) by (auto simp: window_def fun_eq_iff)
    have "acker_inv (?a5\<lparr>nxt := m\<rparr>)"
      using s5 m z in1 room by (auto simp: acker_inv_def)
    moreover have "\<forall>i\<in>{nxt a..<m}. enter a seq n i = cell ?a5 i" using e5 m(3) by auto
    moreover have "enter a seq n m = 0" using e5 [OF m(2,3)] m(4) by simp
    ultimately show ?thesis
      using m(2,5) False W dup s5
      by (intro exI [of _ "\<Sum>i\<in>{nxt a..<m}. cell ?a5 i"] exI [of _ "?a5\<lparr>nxt := m\<rparr>"]) (simp add: eq)
  qed
qed

section \<open>Any number of segments\<close>

text \<open>Segments with their sizes in the order of their arrival; the bytes delivered are added up.\<close>

fun acker_run :: "(int \<times> int) list \<Rightarrow> acker \<Rightarrow> (int \<times> acker) option" where
  "acker_run [] a = Some (0, a)"
| "acker_run ((seq, n) # ps) a =
     (case acker_update seq n a of
        None \<Rightarrow> None
      | Some (d, a1) \<Rightarrow> map_option (apfst (\<lambda>t. d + t)) (acker_run ps a1))"

text \<open>The window of an acker that has received the segments \<open>S\<close>, segment \<open>i\<close> of size \<open>sz i\<close>.\<close>

definition follows :: "acker \<Rightarrow> int set \<Rightarrow> (int \<Rightarrow> int) \<Rightarrow> bool" where
  "follows a S sz \<longleftrightarrow>
     acker_inv a \<and> {0..<nxt a} \<subseteq> S \<and> nxt a \<notin> S \<and> (\<forall>i \<in> S. i \<le> maxseen a)
     \<and> window a = (\<lambda>i. if nxt a \<le> i \<and> i \<in> S then sz i else 0)"

lemma follows_new: "follows acker_new {} sz"
  using acker_inv_new window_new by (auto simp: follows_def acker_new_def)

lemma follows_dup:
  assumes "follows a S sz" and "\<forall>i \<in> S. 0 < sz i"
  shows "seq < nxt a \<or> window a seq \<noteq> 0 \<longleftrightarrow> seq < 0 \<or> seq \<in> S"
proof -
  have "seq \<in> S" if "0 \<le> seq" "seq < nxt a" using that assms(1) by (auto simp: follows_def)
  moreover have "seq < nxt a" if "seq < 0" using that assms(1) by (auto simp: follows_def acker_inv_def)
  ultimately show ?thesis using assms by (auto simp: follows_def) force+
qed

lemma acker_update_follows:
  assumes f: "follows a S sz" and pos: "\<forall>i \<in> insert seq S. 0 < sz i"
  obtains d a' where "acker_update seq (sz seq) a = Some (d, a')" "follows a' (insert seq S) sz"
    "is_dup a' \<longleftrightarrow> seq < 0 \<or> seq \<in> S" "nxt a \<le> nxt a'" "d = (\<Sum>i\<in>{nxt a..<nxt a'}. sz i)"
    "last_ack_sent a' = last_ack_sent a" "ecn_unacked a' = ecn_unacked a" "ts_to_echo a' = ts_to_echo a"
proof -
  have inv: "acker_inv a" and W: "window a = (\<lambda>i. if nxt a \<le> i \<and> i \<in> S then sz i else 0)"
    using f by (auto simp: follows_def)
  from acker_update_spec [OF inv, of "sz seq" seq] pos obtain d a' where u:
    "acker_update seq (sz seq) a = Some (d, a')" "acker_inv a'" "maxseen a' = max (maxseen a) seq"
    "is_dup a' \<longleftrightarrow> seq < nxt a \<or> window a seq \<noteq> 0" "nxt a \<le> nxt a'" "enter a seq (sz seq) (nxt a') = 0"
    "\<forall>i\<in>{nxt a..<nxt a'}. enter a seq (sz seq) i \<noteq> 0" "d = (\<Sum>i\<in>{nxt a..<nxt a'}. enter a seq (sz seq) i)"
    "window a' = (\<lambda>i. if nxt a' \<le> i then enter a seq (sz seq) i else 0)"
    "last_ack_sent a' = last_ack_sent a" "ecn_unacked a' = ecn_unacked a" "ts_to_echo a' = ts_to_echo a" by auto
  have E: "enter a seq (sz seq) i = (if i \<in> insert seq S then sz i else 0)" if "nxt a \<le> i" for i
    using that by (auto simp: enter_def W)
  have new: "{nxt a..<nxt a'} \<subseteq> insert seq S"
  proof
    fix i assume i: "i \<in> {nxt a..<nxt a'}"
    with u(7) have "enter a seq (sz seq) i \<noteq> 0" by blast
    with E [of i] i show "i \<in> insert seq S" by (simp split: if_splits)
  qed
  have "nxt a' \<notin> insert seq S" using u(5,6) E [of "nxt a'"] pos by (auto split: if_splits)
  moreover have "{0..<nxt a'} \<subseteq> insert seq S"
  proof
    fix i assume "i \<in> {0..<nxt a'}"
    then have "i \<in> {0..<nxt a} \<or> i \<in> {nxt a..<nxt a'}" by auto
    with new f show "i \<in> insert seq S" by (auto simp: follows_def)
  qed
  moreover have "\<forall>i \<in> insert seq S. i \<le> maxseen a'" using f u(3) by (auto simp: follows_def)
  moreover have "window a' = (\<lambda>i. if nxt a' \<le> i \<and> i \<in> insert seq S then sz i else 0)"
    using u(5) E by (simp add: u(9) fun_eq_iff)
  ultimately have "follows a' (insert seq S) sz" using u(2) by (simp add: follows_def)
  moreover have "d = (\<Sum>i\<in>{nxt a..<nxt a'}. sz i)" unfolding u(8) using E new by (intro sum.cong) auto
  moreover have "is_dup a' \<longleftrightarrow> seq < 0 \<or> seq \<in> S" using u(4) follows_dup [OF f, of seq] pos by simp
  ultimately show ?thesis using that u(1,5,10-12) by blast
qed

lemma acker_run_follows:
  assumes "\<forall>(s, n) \<in> set ps. n = sz s \<and> 0 < n" and "follows a S sz" and "\<forall>i \<in> S. 0 < sz i"
  shows "\<exists>t a'. acker_run ps a = Some (t, a') \<and> follows a' (S \<union> fst ` set ps) sz \<and> nxt a \<le> nxt a'
    \<and> t = (\<Sum>i\<in>{nxt a..<nxt a'}. sz i)"
  using assms
proof (induction ps arbitrary: a S)
  case (Cons p ps)
  obtain seq where p: "p = (seq, sz seq)" and "0 < sz seq" using Cons.prems(1) by (cases p) auto
  then have "\<forall>i \<in> insert seq S. 0 < sz i" using Cons.prems(3) by simp
  from acker_update_follows [OF Cons.prems(2) this] obtain d a1
    where u: "acker_update seq (sz seq) a = Some (d, a1)" "follows a1 (insert seq S) sz" "nxt a \<le> nxt a1"
      "d = (\<Sum>i\<in>{nxt a..<nxt a1}. sz i)" by metis
  from Cons.IH [OF _ u(2)] Cons.prems(1,3) \<open>0 < sz seq\<close> obtain t a'
    where r: "acker_run ps a1 = Some (t, a')" "follows a' (insert seq S \<union> fst ` set ps) sz" "nxt a1 \<le> nxt a'"
      "t = (\<Sum>i\<in>{nxt a1..<nxt a'}. sz i)" by auto
  have "{nxt a..<nxt a'} = {nxt a..<nxt a1} \<union> {nxt a1..<nxt a'}" using u(3) r(3) by auto
  then have "(\<Sum>i\<in>{nxt a..<nxt a'}. sz i) = d + t" unfolding u(4) r(4) by (subst sum.union_disjoint [symmetric]) auto
  with u r p show ?case by (auto simp: Un_insert_left)
qed auto

text \<open>
  Whatever the order in which segments arrive, however often and however far ahead, processing
  them ends, the cumulative acknowledgement is the last segment before the first one missing, each
  byte before it has been handed to the application once, and the next segment is recognised as a
  duplicate just when it has arrived before (or has a negative number).
\<close>

theorem acker_cumulative:
  assumes "\<forall>(s, n) \<in> set ps. n = sz s \<and> 0 < n"
  shows "\<exists>t a. acker_run ps acker_new = Some (t, a)
    \<and> (\<forall>i. 0 \<le> i \<and> i \<le> Seqno a \<longrightarrow> i \<in> fst ` set ps) \<and> Seqno a + 1 \<notin> fst ` set ps
    \<and> t = (\<Sum>i\<in>{0..Seqno a}. sz i)
    \<and> (\<forall>s. 0 < sz s \<longrightarrow> (\<exists>d a'. acker_update s (sz s) a = Some (d, a') \<and> (is_dup a' \<longleftrightarrow> s < 0 \<or> s \<in> fst ` set ps)))"
proof -
  from acker_run_follows [OF assms follows_new] obtain t a where r:
    "acker_run ps acker_new = Some (t, a)" "follows a (fst ` set ps) sz" "t = (\<Sum>i\<in>{0..<nxt a}. sz i)"
    by (auto simp: acker_new_def)
  have "{0..<nxt a} = {0..Seqno a}" by (auto simp: Seqno_def)
  moreover have "\<exists>d a'. acker_update s (sz s) a = Some (d, a') \<and> (is_dup a' \<longleftrightarrow> s < 0 \<or> s \<in> fst ` set ps)"
    if "0 < sz s" for s
  proof -
    have "\<forall>i \<in> insert s (fst ` set ps). 0 < sz i" using assms that by fastforce
    from acker_update_follows [OF r(2) this] show ?thesis by metis
  qed
  ultimately show ?thesis using r by (auto simp: follows_def Seqno_def)
qed

theorem acker_cumulative_witness:
  "\<exists>t a. acker_run [(0, 10), (200, 10), (2, 10), (1, 10), (2, 10)] acker_new = Some (t, a) \<and> t = 30 \<and> Seqno a = 2"
proof -
  let ?ps = "[(0, 10), (200, 10), (2, 10), (1, 10), (2, 10)] :: (int \<times> int) list"
  have "\<forall>(s, n) \<in> set ?ps. n = (\<lambda>i. 10) s \<and> 0 < n" by simp
  from acker_cumulative [OF this] obtain t a where r: "acker_run ?ps acker_new = Some (t, a)"
    "\<forall>i. 0 \<le> i \<and> i \<le> Seqno a \<longrightarrow> i \<in> {0, 200, 2, 1}" "Seqno a + 1 \<notin> {0, 200, 2, 1}" "t = (\<Sum>i\<in>{0..Seqno a}. 10)" by auto
  have "\<not> 3 \<le> Seqno a" using r(2) [rule_format, of 3] by auto
  moreover have "-1 \<le> Seqno a" using acker_run_follows [of ?ps "\<lambda>i. 10" acker_new "{}"] follows_new r(1)
    by (auto simp: follows_def acker_inv_def Seqno_def)
  ultimately have "Seqno a = 2" using r(3) by auto
  with r(1,4) show ?thesis by simp
qed

end
