(* ===== verification/TcpSack.thy ===== *)
theory TcpSack
  imports TcpAcker
begin

text \<open>
  Selective acknowledgements: \<open>SackStack\<close> and class \<open>Sacker\<close> of \<open>tcp/tcp-sink.cc\<close>. An ACK
  lists the block of received segments around the one that has just arrived, then the blocks of
  earlier ACKs, latest first. Every block lists received segments only.
\<close>

section \<open>The stack of earlier blocks\<close>

text \<open>
  The array of pairs (left, right) has the size given to the constructor; unused entries are -1.
  An index beyond it is out of bounds.
\<close>

record sack_stack =
  sk_cnt :: nat
  sk_ents :: "(int \<times> int) list"

definition sk_new :: "nat \<Rightarrow> sack_stack" where
  "sk_new sz = \<lparr>sk_cnt = 0, sk_ents = replicate sz (-1, -1)\<rparr>"

definition sk_reset :: "sack_stack \<Rightarrow> sack_stack" where
  "sk_reset st = \<lparr>sk_cnt = 0, sk_ents = replicate (sk_cnt st) (-1, -1) @ drop (sk_cnt st) (sk_ents st)\<rparr>"

definition sk_get :: "nat \<Rightarrow> sack_stack \<Rightarrow> (int \<times> int) res" where
  "sk_get k st = (if k < length (sk_ents st) then Inr (sk_ents st ! k) else Inl OutOfBounds)"

text \<open>
  \<open>push\<close> moves the first entries down by one, the last of a full stack is lost; the caller then
  stores the new entry at the top.
\<close>

definition sk_push :: "int \<times> int \<Rightarrow> sack_stack \<Rightarrow> sack_stack res" where
  "sk_push b st =
     (let c = (if sk_cnt st \<ge> length (sk_ents st) then length (sk_ents st) - 1 else sk_cnt st)
      in if sk_ents st = [] then Inl OutOfBounds
         else Inr \<lparr>sk_cnt = c + 1, sk_ents = b # take c (sk_ents st) @ drop (c + 1) (sk_ents st)\<rparr>)"

text \<open>\<open>pop(k)\<close> moves the entries after \<open>k\<close> up by one and clears the last one moved.\<close>

definition sk_pop :: "nat \<Rightarrow> sack_stack \<Rightarrow> sack_stack res" where
  "sk_pop k st =
     (if k \<ge> length (sk_ents st) \<or> sk_cnt st > length (sk_ents st) then Inl OutOfBounds
      else if k + 1 < sk_cnt st then
        Inr \<lparr>sk_cnt = sk_cnt st - 1,
             sk_ents = take k (sk_ents st) @ drop (k + 1) (take (sk_cnt st) (sk_ents st))
                         @ (-1, -1) # drop (sk_cnt st) (sk_ents st)\<rparr>
      else Inr \<lparr>sk_cnt = sk_cnt st - 1, sk_ents = (sk_ents st)[k := (-1, -1)]\<rparr>)"

section \<open>Class \<open>Sacker\<close>\<close>

text \<open>
  A \<open>Sacker\<close> is an \<open>Acker\<close> with a stack. \<open>configure\<close> and the trace callback, called when the
  number of blocks is changed from Tcl, limit the number to the room in the header and start with
  an empty stack. \<open>NSA\<close> is 3; the header has room for one more block.
\<close>

definition NSA :: nat where "NSA = 3"

record sacker =
  s_acker :: acker
  base_nblocks :: int
  dsacks :: bool
  sf :: sack_stack

definition sacker_configure :: "int \<Rightarrow> sacker \<Rightarrow> sacker" where
  "sacker_configure nblocks s =
     (let n = (if nblocks > int NSA then int NSA else nblocks)
      in s\<lparr>base_nblocks := n, sf := sk_new (nat n)\<rparr>)"

definition sacker_reset :: "sacker \<Rightarrow> sacker" where
  "sacker_reset s = s\<lparr>sf := sk_reset (sf s), s_acker := acker_reset (s_acker s)\<rparr>"

text \<open>\<open>sack_area_\<close> of the header: the blocks of the ACK.\<close>

definition sa_put :: "nat \<Rightarrow> int \<times> int \<Rightarrow> (int \<times> int) list \<Rightarrow> (int \<times> int) list res" where
  "sa_put n b area = (if n < length area then Inr (area[n := b]) else Inl OutOfBounds)"

text \<open>The scan to the right for the first hole, from the segment just received.\<close>

definition hole_right :: "acker \<Rightarrow> int \<Rightarrow> int" where
  "hole_right a old_seqno =
     (case find (\<lambda>i. cell a i = 0) [old_seqno..maxseen a] of None \<Rightarrow> maxseen a + 1 | Some i \<Rightarrow> i)"

text \<open>The scan to the left; \<open>-1\<close> when there is no hole.\<close>

definition hole_left :: "acker \<Rightarrow> int \<Rightarrow> int" where
  "hole_left a sack_right =
     (case find (\<lambda>i. cell a i = 0) (rev [Seqno a + 1..sack_right - 1]) of None \<Rightarrow> -1 | Some i \<Rightarrow> i + 1)"

text \<open>
  The loop over the earlier blocks: one that the newest block covers is removed, the others are
  listed, until there is no room or no history.
\<close>

definition valid_block :: "int \<times> int \<Rightarrow> bool" where
  "valid_block b \<longleftrightarrow> 0 \<le> fst b \<and> 0 \<le> snd b"

lemma drop_split: "m \<le> c \<Longrightarrow> c \<le> length xs \<Longrightarrow> drop m xs = drop m (take c xs) @ drop c xs"
  by (metis append_take_drop_id drop_append diff_is_0_eq drop0 length_take min.absorb2)

lemma sk_pop_valid:
  assumes "sk_pop k st = Inr st'" and "valid_block (sk_ents st ! k)"
  shows "length (filter valid_block (sk_ents st')) < length (filter valid_block (sk_ents st))"
proof -
  let ?es = "sk_ents st"
  from assms(1) have k: "k < length ?es" "sk_cnt st \<le> length ?es" by (auto simp: sk_pop_def split: if_splits)
  then have es: "?es = take k ?es @ ?es ! k # drop (k + 1) ?es" by (simp add: id_take_nth_drop)
  show ?thesis
  proof (cases "k + 1 < sk_cnt st")
    case True
    have "drop (k + 1) ?es = drop (k + 1) (take (sk_cnt st) ?es) @ drop (sk_cnt st) ?es"
      by (rule drop_split) (use True k in auto)
    then have "length (filter valid_block ?es) = length (filter valid_block (take k ?es)) + 1
        + length (filter valid_block (drop (k + 1) (take (sk_cnt st) ?es))) + length (filter valid_block (drop (sk_cnt st) ?es))"
      using assms(2) by (subst es) simp
    with assms(1) True k show ?thesis by (auto simp: sk_pop_def valid_block_def)
  next
    case False
    with assms k have "sk_ents st' = take k ?es @ (-1, -1) # drop (k + 1) ?es"
      by (auto simp: sk_pop_def upd_conv_take_nth_drop)
    with assms(2) show ?thesis by (subst es) (simp add: valid_block_def)
  qed
qed

function sack_history ::
  "int \<Rightarrow> int \<Rightarrow> int \<times> int \<Rightarrow> nat \<Rightarrow> nat \<Rightarrow> sack_stack \<Rightarrow> (int \<times> int) list \<Rightarrow> (sack_stack \<times> (int \<times> int) list \<times> nat) res"
where
  "sack_history mx base recent k sack_index st area =
     (if int sack_index < base then
        (case sk_get k st of
           Inl er \<Rightarrow> Inl er
         | Inr b \<Rightarrow>
             if fst b < 0 \<or> snd b < 0 \<or> snd b > mx + 1 then Inr (st, area, sack_index)
             else if fst recent \<le> fst b \<and> snd recent \<ge> snd b then
               (case sk_pop k st of
                  Inl er \<Rightarrow> Inl er
                | Inr st' \<Rightarrow> sack_history mx base recent k sack_index st' area)
             else
               (case sa_put sack_index b area of
                  Inl er \<Rightarrow> Inl er
                | Inr area' \<Rightarrow> sack_history mx base recent (k + 1) (sack_index + 1) st area'))
      else Inr (st, area, sack_index))"
  by pat_completeness auto
termination
proof (relation "measures [\<lambda>(mx, base, recent, k, i, st, area). length (filter valid_block (sk_ents st)),
    \<lambda>(mx, base, recent, k, i, st, area). nat (base - int i)]", goal_cases)
  case (2 mx base recent k i st area b st')
  then have "valid_block (sk_ents st ! k)" by (auto simp: sk_get_def valid_block_def split: if_splits)
  from sk_pop_valid [OF 2(5) this] show ?case by simp
qed auto

declare sack_history.simps [simp del]

text \<open>
  \<open>append_ack\<close>: the stack, the blocks of the ACK and their number. The caller sets the length
  field and adds eight bytes per block to the size of the packet.
\<close>

definition sack_append :: "int \<Rightarrow> sacker \<Rightarrow> (int \<times> int) list \<Rightarrow> (sack_stack \<times> (int \<times> int) list \<times> nat) res" where
  "sack_append old_seqno s area =
     (let a = s_acker s; seqno = Seqno a
      in if old_seqno < 0 then Inr (sf s, area, 0)
         else if seqno \<ge> maxseen a \<and> sk_cnt (sf s) \<noteq> 0 then Inr (sk_reset (sf s), area, 0)
         else if (seqno < maxseen a \<or> is_dup a) \<and> base_nblocks s > 0 then
           bindR (if dsacks s \<and> is_dup a
                  then bindR (sa_put 0 (old_seqno, old_seqno + 1) area) (\<lambda>area1. Inr (area1, 1 :: nat))
                  else Inr (area, 0))
             (\<lambda>(area1, i1).
                if int i1 \<ge> base_nblocks s then Inr (sf s, area1, i1)
                else
                  (let sack_right = hole_right a old_seqno;
                       sack_left = (if old_seqno \<le> seqno then 0 else hole_left a sack_right)
                   in bindR (if old_seqno \<le> seqno then Inr (area1, i1)
                             else bindR (sa_put i1 (sack_left, sack_right) area1) (\<lambda>area2. Inr (area2, i1 + 1)))
                        (\<lambda>(area2, i2).
                          bindR (sack_history (maxseen a) (base_nblocks s) (sack_left, sack_right) 0 i2 (sf s) area2)
                            (\<lambda>(st, area3, i3).
                              if old_seqno > seqno
                              then bindR (sk_push (sack_left, sack_right) st) (\<lambda>st'. Inr (st', area3, i3))
                              else Inr (st, area3, i3)))))
         else Inr (sf s, area, 0))"

section \<open>Scans\<close>

lemma find_upto:
  "find P [l..h] = Some i \<Longrightarrow> l \<le> i \<and> i \<le> h \<and> P i \<and> (\<forall>j. l \<le> j \<and> j < i \<longrightarrow> \<not> P j)"
proof -
  assume "find P [l..h] = Some i"
  then obtain k where k: "k < nat (h - l + 1)" "P i" "i = l + int k" "\<forall>j<k. \<not> P (l + int j)"
    by (auto simp: find_Some_iff nth_upto)
  have "\<not> P j" if "l \<le> j" "j < i" for j
    using k(4) [rule_format, of "nat (j - l)"] k(3) that by auto
  with k show ?thesis by auto
qed

lemma find_rev_upto:
  "find P (rev [l..h]) = Some i \<Longrightarrow> l \<le> i \<and> i \<le> h \<and> P i \<and> (\<forall>j. i < j \<and> j \<le> h \<longrightarrow> \<not> P j)"
proof -
  assume "find P (rev [l..h]) = Some i"
  then obtain k where k: "k < nat (h - l + 1)" "P i" "i = h - int k" "\<forall>j<k. \<not> P (h - int j)"
    by (auto simp: find_Some_iff rev_nth nth_upto of_nat_diff)
  have "\<not> P j" if "i < j" "j \<le> h" for j
    using k(4) [rule_format, of "nat (h - j)"] k(3) that by auto
  with k show ?thesis by auto
qed

lemma find_None_upto: "find P [l..h] = None \<longleftrightarrow> (\<forall>j. l \<le> j \<and> j \<le> h \<longrightarrow> \<not> P j)"
  by (auto simp: find_None_iff)

text \<open>A marked cell of the window is a received segment.\<close>

lemma follows_cell:
  assumes "follows a S sz" and "\<forall>i \<in> S. 0 < sz i" and "nxt a \<le> i" and "i \<le> maxseen a"
  shows "cell a i \<noteq> 0 \<longleftrightarrow> i \<in> S"
proof -
  have "cell a i = window a i" using assms(3,4) by (simp add: window_def)
  moreover have "window a = (\<lambda>i. if nxt a \<le> i \<and> i \<in> S then sz i else 0)" using assms(1) by (simp add: follows_def)
  ultimately show ?thesis using assms(2,3) by auto
qed

lemma hole_right_spec:
  assumes f: "follows a S sz" and pos: "\<forall>i \<in> S. 0 < sz i" and old: "old \<in> S" "Seqno a < old"
  shows "old < hole_right a old \<and> {old..<hole_right a old} \<subseteq> S \<and> hole_right a old \<notin> S"
proof -
  have n: "nxt a \<le> old" using old(2) by (simp add: Seqno_def)
  have mx: "i \<le> maxseen a" if "i \<in> S" for i using f that by (simp add: follows_def)
  note c = follows_cell [OF f pos]
  show ?thesis
  proof (cases "find (\<lambda>i. cell a i = 0) [old..maxseen a]")
    case None
    then have "cell a j \<noteq> 0" if "old \<le> j" "j \<le> maxseen a" for j using that by (simp add: find_None_upto)
    then have "{old..<maxseen a + 1} \<subseteq> S" using c n by auto
    moreover have "maxseen a + 1 \<notin> S" using mx by fastforce
    ultimately show ?thesis using None mx [OF old(1)] by (simp add: hole_right_def)
  next
    case (Some i)
    from find_upto [OF Some] have i: "old \<le> i" "i \<le> maxseen a" "cell a i = 0" "\<forall>j. old \<le> j \<and> j < i \<longrightarrow> cell a j \<noteq> 0" by auto
    then have "i \<notin> S" "{old..<i} \<subseteq> S" using c [of i] c n by auto
    with i(1) old(1) show ?thesis using Some by (auto simp: hole_right_def less_le)
  qed
qed

lemma hole_left_spec:
  assumes f: "follows a S sz" and pos: "\<forall>i \<in> S. 0 < sz i" and old: "old \<in> S" "Seqno a < old"
    and r: "{old..<r} \<subseteq> S" "old < r"
  shows "0 \<le> hole_left a r \<and> hole_left a r \<le> old \<and> {hole_left a r..<r} \<subseteq> S \<and> hole_left a r - 1 \<notin> S"
proof -
  have inv: "acker_inv a" and miss: "nxt a \<notin> S" and mx: "\<forall>i \<in> S. i \<le> maxseen a" using f by (auto simp: follows_def)
  have n: "nxt a < old" using old miss by (cases "nxt a = old") (auto simp: Seqno_def)
  have "r - 1 \<in> S" using r by auto
  with mx have rm: "r - 1 \<le> maxseen a" by blast
  note c = follows_cell [OF f pos]
  have z: "cell a (nxt a) = 0" "0 \<le> nxt a" using inv by (auto simp: acker_inv_def)
  then have "find (\<lambda>i. cell a i = 0) (rev [nxt a..r - 1]) \<noteq> None"
    using n r(2) by (auto simp: find_None_iff intro!: exI [of _ "nxt a"])
  then obtain i where Some: "find (\<lambda>i. cell a i = 0) (rev [nxt a..r - 1]) = Some i" by auto
  from find_rev_upto [OF this] have i: "nxt a \<le> i" "i \<le> r - 1" "cell a i = 0" "\<forall>j. i < j \<and> j \<le> r - 1 \<longrightarrow> cell a j \<noteq> 0" by auto
  have "i \<notin> S" using c [of i] i rm by auto
  then have "i < old" using r i(2) by (cases "old \<le> i") auto
  moreover have "j \<in> S" if "i < j" "j < r" for j using c [of j] i that rm by auto
  ultimately show ?thesis using Some i(1) z(2) \<open>i \<notin> S\<close> by (auto simp: hole_left_def Seqno_def)
qed

section \<open>Blocks of received segments\<close>

definition block_ok :: "int set \<Rightarrow> int \<times> int \<Rightarrow> bool" where
  "block_ok S b \<longleftrightarrow> 0 \<le> fst b \<and> fst b < snd b \<and> {fst b..<snd b} \<subseteq> S"

text \<open>The entries of the stack are followed by unused ones.\<close>

definition stack_ok :: "int set \<Rightarrow> nat \<Rightarrow> sack_stack \<Rightarrow> bool" where
  "stack_ok S sz st \<longleftrightarrow>
     (\<exists>bs m. sk_ents st = bs @ replicate m (-1, -1) \<and> sk_cnt st = length bs \<and> length bs + m = sz \<and> (\<forall>b \<in> set bs. block_ok S b))"

definition blocks_ok :: "int set \<Rightarrow> nat \<Rightarrow> (int \<times> int) list \<Rightarrow> bool" where
  "blocks_ok S n area \<longleftrightarrow> length area = NSA + 1 \<and> n \<le> NSA \<and> (\<forall>i < n. block_ok S (area ! i))"

lemma block_ok_mono: "block_ok S b \<Longrightarrow> S \<subseteq> T \<Longrightarrow> block_ok T b"
  by (auto simp: block_ok_def)

lemma stack_okI:
  "\<forall>b \<in> set bs. block_ok S b \<Longrightarrow> length bs + m = sz
   \<Longrightarrow> stack_ok S sz \<lparr>sk_cnt = length bs, sk_ents = bs @ replicate m (-1, -1)\<rparr>"
  by (auto simp: stack_ok_def)

lemma stack_ok_mono: "stack_ok S sz st \<Longrightarrow> S \<subseteq> T \<Longrightarrow> stack_ok T sz st"
  unfolding stack_ok_def using block_ok_mono by metis

lemma stack_ok_new: "stack_ok S sz (sk_new sz)"
  by (auto simp: stack_ok_def sk_new_def)

lemma stack_ok_reset: "stack_ok S sz st \<Longrightarrow> stack_ok S sz (sk_reset st)"
  by (fastforce simp: stack_ok_def sk_reset_def simp flip: replicate_add)

lemma stack_ok_get:
  assumes "stack_ok S sz st" and "k < sz"
  shows "\<exists>b. sk_get k st = Inr b \<and> (valid_block b \<longrightarrow> block_ok S b \<and> k < sk_cnt st)"
proof -
  from assms(1) obtain bs m where bs: "sk_ents st = bs @ replicate m (-1, -1)" "sk_cnt st = length bs" "length bs + m = sz"
    "\<forall>b \<in> set bs. block_ok S b" by (auto simp: stack_ok_def)
  with assms(2) have "sk_get k st = Inr (sk_ents st ! k)" by (simp add: sk_get_def)
  moreover have "block_ok S (sk_ents st ! k) \<and> k < sk_cnt st" if "valid_block (sk_ents st ! k)"
    using that bs assms(2) by (cases "k < length bs") (auto simp: nth_append valid_block_def)
  ultimately show ?thesis by simp
qed

lemma stack_ok_pop:
  assumes "stack_ok S sz st" and "k < sk_cnt st"
  shows "\<exists>st'. sk_pop k st = Inr st' \<and> stack_ok S sz st'"
proof -
  from assms(1) obtain bs m where bs: "sk_ents st = bs @ replicate m (-1, -1)" "sk_cnt st = length bs" "length bs + m = sz"
    "\<forall>b \<in> set bs. block_ok S b" by (auto simp: stack_ok_def)
  let ?bs = "take k bs @ drop (k + 1) bs"
  have k: "k < length bs" using assms(2) bs(2) by simp
  have len: "length ?bs + Suc m = sz" using bs(3) k by simp
  have ok: "\<forall>b \<in> set ?bs. block_ok S b" using bs(4) by (auto dest: in_set_takeD in_set_dropD)
  have "sk_pop k st = Inr \<lparr>sk_cnt = length ?bs, sk_ents = ?bs @ replicate (Suc m) (-1, -1)\<rparr>"
  proof (cases "k + 1 < length bs")
    case True
    with bs k show ?thesis by (simp add: sk_pop_def)
  next
    case False
    with k have "k = length bs - 1" by simp
    with bs k show ?thesis by (simp add: sk_pop_def list_update_append upd_conv_take_nth_drop)
  qed
  with stack_okI [OF ok len] show ?thesis by simp
qed

lemma stack_ok_push:
  assumes "stack_ok S sz st" and "0 < sz" and "block_ok S b"
  shows "\<exists>st'. sk_push b st = Inr st' \<and> stack_ok S sz st'"
proof -
  from assms(1) obtain bs m where bs: "sk_ents st = bs @ replicate m (-1, -1)" "sk_cnt st = length bs" "length bs + m = sz"
    "\<forall>b \<in> set bs. block_ok S b" by (auto simp: stack_ok_def)
  show ?thesis
  proof (cases m)
    case 0
    let ?bs = "b # take (sz - 1) bs"
    from 0 bs assms(2) have "sk_push b st = Inr \<lparr>sk_cnt = length ?bs, sk_ents = ?bs @ replicate 0 (-1, -1)\<rparr>"
      by (auto simp: sk_push_def Let_def)
    moreover have "\<forall>b \<in> set ?bs. block_ok S b" "length ?bs + 0 = sz"
      using 0 bs assms(2,3) by (auto dest: in_set_takeD)
    ultimately show ?thesis using stack_okI by blast
  next
    case (Suc m')
    with bs have "sk_push b st = Inr \<lparr>sk_cnt = length (b # bs), sk_ents = (b # bs) @ replicate m' (-1, -1)\<rparr>"
      by (simp add: sk_push_def Let_def)
    moreover have "\<forall>c \<in> set (b # bs). block_ok S c" "length (b # bs) + m' = sz" using Suc bs assms(3) by auto
    ultimately show ?thesis using stack_okI by blast
  qed
qed

section \<open>Selective acknowledgements tell the truth\<close>

lemma sa_put_ok:
  assumes "blocks_ok S i area" and "i < NSA" and "block_ok S b"
  shows "\<exists>area'. sa_put i b area = Inr area' \<and> blocks_ok S (i + 1) area' \<and> area' ! i = b \<and> (\<forall>j < i. area' ! j = area ! j)"
  using assms by (auto simp: sa_put_def blocks_ok_def nth_list_update less_Suc_eq)

lemma sack_history_spec:
  "stack_ok S sz st \<Longrightarrow> base \<le> int sz \<Longrightarrow> base \<le> int NSA \<Longrightarrow> k \<le> i \<Longrightarrow> blocks_ok S i area
   \<Longrightarrow> \<exists>st' area' i'. sack_history mx base recent k i st area = Inr (st', area', i') \<and> stack_ok S sz st'
     \<and> blocks_ok S i' area' \<and> i \<le> i' \<and> (\<forall>j < i. area' ! j = area ! j)"
proof (induction mx base recent k i st area rule: sack_history.induct)
  case (1 mx base recent k i st area)
  show ?case
  proof (cases "int i < base")
    case True
    then have "k < sz" "i < NSA" using 1(4-6) by linarith+
    from stack_ok_get [OF 1(3) this(1)] obtain b where b: "sk_get k st = Inr b" "valid_block b \<longrightarrow> block_ok S b \<and> k < sk_cnt st" by auto
    show ?thesis
    proof (cases "fst b < 0 \<or> snd b < 0 \<or> snd b > mx + 1")
      case end_of_history: True
      with b(1) True 1(3,7) show ?thesis by (subst sack_history.simps) simp
    next
      case False
      then have blk: "block_ok S b" "k < sk_cnt st" using b(2) by (auto simp: valid_block_def)
      show ?thesis
      proof (cases "fst recent \<le> fst b \<and> snd recent \<ge> snd b")
        case covered: True
        from stack_ok_pop [OF 1(3) blk(2)] obtain st' where st': "sk_pop k st = Inr st'" "stack_ok S sz st'" by blast
        from 1(1) [OF True b(1) False covered st' 1(4-7)] show ?thesis
          using True b(1) False covered st'(1) by (subst sack_history.simps) simp
      next
        case fresh: False
        from sa_put_ok [OF 1(7) \<open>i < NSA\<close> blk(1)] obtain area' where ar: "sa_put i b area = Inr area'"
          "blocks_ok S (i + 1) area'" "\<forall>j < i. area' ! j = area ! j" by blast
        have "k + 1 \<le> i + 1" using 1(6) by simp
        from 1(2) [OF True b(1) False fresh ar(1) 1(3-5) this ar(2)] obtain st'' area'' i''
          where "sack_history mx base recent (k + 1) (i + 1) st area' = Inr (st'', area'', i'')" "stack_ok S sz st''"
            "blocks_ok S i'' area''" "i + 1 \<le> i''" "\<forall>j < i + 1. area'' ! j = area' ! j" by blast
        moreover have "sack_history mx base recent k i st area = sack_history mx base recent (k + 1) (i + 1) st area'"
          using True False fresh by (subst sack_history.simps) (simp only: if_True if_False b(1) ar(1) sum.case simp_thms)
        ultimately show ?thesis using ar(3) by auto
      qed
    qed
  next
    case False
    with 1(3,7) show ?thesis by (subst sack_history.simps) simp
  qed
qed

definition sacker_ok :: "int set \<Rightarrow> (int \<Rightarrow> int) \<Rightarrow> sacker \<Rightarrow> bool" where
  "sacker_ok S sz s \<longleftrightarrow>
     follows (s_acker s) S sz \<and> (\<forall>i \<in> S. 0 < sz i) \<and> base_nblocks s \<le> int NSA
     \<and> stack_ok S (nat (base_nblocks s)) (sf s)"

lemma sack_append_spec:
  assumes ok: "sacker_ok S sz s" and old: "old \<in> S" and area: "length area = NSA + 1"
  shows "\<exists>st area' n. sack_append old s area = Inr (st, area', n) \<and> stack_ok S (nat (base_nblocks s)) st
    \<and> blocks_ok S n area'
    \<and> (0 \<le> old \<and> Seqno (s_acker s) < old \<and> Seqno (s_acker s) < maxseen (s_acker s) \<and> 0 < base_nblocks s
         \<and> \<not> (dsacks s \<and> is_dup (s_acker s))
       \<longrightarrow> 0 < n \<and> fst (area' ! 0) \<le> old \<and> old < snd (area' ! 0) \<and> fst (area' ! 0) - 1 \<notin> S \<and> snd (area' ! 0) \<notin> S)"
proof -
  let ?a = "s_acker s" and ?base = "base_nblocks s"
  let ?dup = "dsacks s \<and> is_dup ?a"
  have f: "follows ?a S sz" and pos: "\<forall>i \<in> S. 0 < sz i" and nb: "?base \<le> int NSA" and st: "stack_ok S (nat ?base) (sf s)"
    using ok by (auto simp: sacker_ok_def)
  have szb: "?base \<le> int (nat ?base)" by simp
  have none: "blocks_ok S 0 area" using area by (simp add: blocks_ok_def)
  show ?thesis
  proof (cases "old < 0 \<or> (Seqno ?a \<ge> maxseen ?a \<and> sk_cnt (sf s) \<noteq> 0) \<or> \<not> ((Seqno ?a < maxseen ?a \<or> is_dup ?a) \<and> ?base > 0)")
    case True
    with st none stack_ok_reset [OF st] show ?thesis by (auto simp: sack_append_def Let_def)
  next
    case False
    then have go: "0 \<le> old" "\<not> (Seqno ?a \<ge> maxseen ?a \<and> sk_cnt (sf s) \<noteq> 0)" "Seqno ?a < maxseen ?a \<or> is_dup ?a" "0 < ?base" by auto
    have "\<exists>area1 i1. (if ?dup then bindR (sa_put 0 (old, old + 1) area) (\<lambda>area1. Inr (area1, 1 :: nat)) else Inr (area, 0)) = Inr (area1, i1)
      \<and> blocks_ok S i1 area1 \<and> (\<not> ?dup \<longrightarrow> i1 = 0)"
    proof (cases ?dup)
      case True
      have "{old..<old + 1} = {old}" by auto
      then have "block_ok S (old, old + 1)" using old go(1) by (simp add: block_ok_def)
      from sa_put_ok [OF none _ this] True show ?thesis by (auto simp: NSA_def)
    qed (use none in auto)
    then obtain area1 i1 where a1: "(if ?dup then bindR (sa_put 0 (old, old + 1) area) (\<lambda>area1. Inr (area1, 1 :: nat)) else Inr (area, 0)) = Inr (area1, i1)"
      "blocks_ok S i1 area1" "\<not> ?dup \<longrightarrow> i1 = 0" by blast
    note eq = sack_append_def [of old s area, unfolded Let_def a1(1) bindR_Inr prod.case]
    show ?thesis
    proof (cases "int i1 \<ge> ?base")
      case True
      with go a1 st show ?thesis by (auto simp: eq)
    next
      case room: False
      let ?r = "hole_right ?a old"
      show ?thesis
      proof (cases "old \<le> Seqno ?a")
        case True
        from sack_history_spec [OF st szb nb _ a1(2), of 0 "maxseen ?a" "(0, ?r)"] obtain st' area' i'
          where "sack_history (maxseen ?a) ?base (0, ?r) 0 i1 (sf s) area1 = Inr (st', area', i')" "stack_ok S (nat ?base) st'" "blocks_ok S i' area'"
          by auto
        with go room True show ?thesis by (auto simp: eq)
      next
        case False
        let ?b = "(hole_left ?a ?r, ?r)"
        have "Seqno ?a < old" using False by simp
        note R = hole_right_spec [OF f pos old this]
        then have "{old..<?r} \<subseteq> S" "old < ?r" by auto
        note L = hole_left_spec [OF f pos old \<open>Seqno ?a < old\<close> this]
        have blk: "block_ok S ?b" using L R by (auto simp: block_ok_def)
        have "i1 < NSA" using room nb by linarith
        from sa_put_ok [OF a1(2) this blk] obtain area2 where a2: "sa_put i1 ?b area1 = Inr area2" "blocks_ok S (i1 + 1) area2" "area2 ! i1 = ?b" by blast
        from sack_history_spec [OF st szb nb _ a2(2), of 0 "maxseen ?a" ?b] obtain st' area' i'
          where h: "sack_history (maxseen ?a) ?base ?b 0 (i1 + 1) (sf s) area2 = Inr (st', area', i')" "stack_ok S (nat ?base) st'" "blocks_ok S i' area'"
            "i1 + 1 \<le> i'" "\<forall>j < i1 + 1. area' ! j = area2 ! j"
          by auto
        have "0 < nat ?base" using go(4) by simp
        from stack_ok_push [OF h(2) this blk] obtain st'' where p: "sk_push ?b st' = Inr st''" "stack_ok S (nat ?base) st''" by blast
        have "sack_append old s area = Inr (st'', area', i')" using go room False a2(1) h(1) p(1) by (auto simp: eq)
        moreover have "\<not> ?dup \<longrightarrow> area' ! 0 = ?b" using a1(3) a2(3) h(5) by auto
        ultimately show ?thesis using p(2) h(3,4) L R by auto
      qed
    qed
  qed
qed

end
