(* ===== verification/TcpSink.thy ===== *)
theory TcpSink
  imports TcpSack NsPacket "HOL-Library.Signed_Division"
begin

text \<open>
  Class \<open>TcpSink\<close> of \<open>tcp/tcp-sink.cc\<close>, the TCP receiver that acknowledges every segment, over an
  \<open>Acker\<close> or a \<open>Sacker\<close>: the fields of an ACK, congestion notification, delivery to the
  application, and the reset.
\<close>

section \<open>Packets and state\<close>

text \<open>
  The fields of \<open>hdr_tcp\<close>, \<open>hdr_flags\<close>, \<open>hdr_qs\<close> and of the flow label that the receivers use;
  the flags are bytes that hold 0 or 1.
\<close>

datatype qs_state = QS_DISABLE | QS_REQUEST | QS_RESPONSE

record tcp_hdr =
  th_seqno :: int
  th_ts :: time
  th_ts_echo :: time
  sack_area :: "(int \<times> int) list"
  sa_length :: nat
  flowid :: int
  f_ect :: bool
  f_ce :: bool
  f_ecnecho :: bool
  f_cong_action :: bool
  f_no_ts :: bool
  f_eln :: bool
  qs_flag :: qs_state
  qs_ttl :: int
  qs_rate :: int

type_synonym tcp_packet = "tcp_hdr packet"

definition tcp_hdr_zero :: tcp_hdr where
  "tcp_hdr_zero =
     \<lparr>th_seqno = 0, th_ts = 0, th_ts_echo = 0, sack_area = replicate (NSA + 1) (0, 0), sa_length = 0,
      flowid = 0, f_ect = False, f_ce = False, f_ecnecho = False, f_cong_action = False,
      f_no_ts = False, f_eln = False, qs_flag = QS_DISABLE, qs_ttl = 0, qs_rate = 0\<rparr>"

text \<open>\<open>acker_\<close> points to an \<open>Acker\<close> or to a \<open>Sacker\<close>; of its functions only \<open>append_ack\<close> is virtual.\<close>

datatype receiver = PlainAcker acker | SackAcker sacker

fun acker_of :: "receiver \<Rightarrow> acker" where
  "acker_of (PlainAcker a) = a"
| "acker_of (SackAcker s) = s_acker s"

fun with_acker :: "acker \<Rightarrow> receiver \<Rightarrow> receiver" where
  "with_acker a (PlainAcker a') = PlainAcker a"
| "with_acker a (SackAcker s) = SackAcker (s\<lparr>s_acker := a\<rparr>)"

record tcp_sink =
  here_addr :: nsaddr
  here_port :: int
  dst_addr :: nsaddr
  dst_port :: int
  agent_size :: int
  agent_fid :: int
  agent_defttl :: int
  uidcnt :: int
  k_acker :: receiver
  ts_echo_bugfix :: bool
  ts_echo_rfc1323 :: bool
  qs_enabled :: bool
  RFC2581_immediate_ack :: bool
  ecn_syn :: bool
  k_bytes :: int
  save_pkt :: "tcp_packet option"
  lastreset :: time
  ack_interval :: time

text \<open>The effects in program order: a packet sent, bytes handed to the application, a packet freed.\<close>

datatype sink_act = SendAck tcp_packet | RecvBytes int | FreePkt tcp_packet

section \<open>Acknowledging\<close>

text \<open>\<open>Agent::allocpkt\<close> with \<open>initpkt\<close>; nix vector routing is not in use.\<close>

definition UNKN_IFACE :: int where "UNKN_IFACE = -1"

definition agent_allocpkt :: "time \<Rightarrow> tcp_sink \<Rightarrow> tcp_packet \<times> tcp_sink" where
  "agent_allocpkt now k =
     ((packet_alloc (uidcnt k) tcp_hdr_zero)
        \<lparr>ptype := PT_ACK, psize := agent_size k, tstamp := now, iface := UNKN_IFACE, direction := NONE,
         perror := 0, saddr := here_addr k, sport := here_port k, daddr := dst_addr k, dport := dst_port k,
         ttl := agent_defttl k, body := tcp_hdr_zero\<lparr>flowid := agent_fid k\<rparr>\<rparr>,
      k\<lparr>uidcnt := uidcnt k + 1\<rparr>)"

text \<open>The answer to a QuickStart request.\<close>

definition qs_answer :: "tcp_packet \<Rightarrow> tcp_hdr \<Rightarrow> tcp_hdr" where
  "qs_answer opkt n =
     (if th_seqno (body opkt) = 0 \<and> qs_flag (body opkt) = QS_REQUEST then
        n\<lparr>qs_flag := QS_RESPONSE, qs_ttl := (ttl opkt - qs_ttl (body opkt)) smod 256, qs_rate := qs_rate (body opkt)\<rparr>
      else n\<lparr>qs_flag := QS_DISABLE\<rparr>)"

text \<open>
  Congestion notification: what the receiver remembers, and the flags of the ACK. Both look at the
  segment and at the one saved by a delayed ACK.
\<close>

definition either :: "(tcp_hdr \<Rightarrow> bool) \<Rightarrow> tcp_hdr \<Rightarrow> tcp_hdr option \<Rightarrow> bool" where
  "either P h sv \<longleftrightarrow> (case sv of None \<Rightarrow> False | Some g \<Rightarrow> P g) \<or> P h"

definition ecn_remember :: "tcp_hdr \<Rightarrow> tcp_hdr option \<Rightarrow> bool \<Rightarrow> bool" where
  "ecn_remember h sv u =
     (let u1 = (if either f_cong_action h sv then False else u)
      in if either (\<lambda>g. f_ect g \<and> f_ce g) h sv then True else u1)"

definition ecn_flags :: "bool \<Rightarrow> tcp_hdr \<Rightarrow> tcp_hdr option \<Rightarrow> bool \<Rightarrow> tcp_hdr \<Rightarrow> tcp_hdr" where
  "ecn_flags syn h sv u n =
     (let n1 = (if either f_ect h sv then n\<lparr>f_ecnecho := u\<rparr> else n)
      in if either (\<lambda>g. \<not> f_ect g \<and> f_ecnecho g) h sv
         then (if syn then n1\<lparr>f_ecnecho := True, f_ect := True\<rparr> else n1\<lparr>f_ecnecho := True\<rparr>)
         else n1)"

text \<open>The virtual \<open>append_ack\<close>: an \<open>Acker\<close> adds nothing, a \<open>Sacker\<close> adds its blocks.\<close>

fun append_ack :: "int \<Rightarrow> tcp_packet \<Rightarrow> receiver \<Rightarrow> (tcp_packet \<times> receiver) res" where
  "append_ack old_seqno npkt (PlainAcker a) = Inr (npkt, PlainAcker a)"
| "append_ack old_seqno npkt (SackAcker s) =
     bindR (sack_append old_seqno s (sack_area (body npkt)))
       (\<lambda>(st, area, n).
          Inr (npkt\<lparr>psize := psize npkt + 8 * int n, body := (body npkt)\<lparr>sack_area := area, sa_length := n\<rparr>\<rparr>,
               SackAcker (s\<lparr>sf := st\<rparr>)))"

definition sink_ack :: "time \<Rightarrow> tcp_packet \<Rightarrow> tcp_sink \<Rightarrow> (tcp_packet \<times> tcp_sink) res" where
  "sink_ack now opkt k =
     (let (npkt, k0) = agent_allocpkt now k;
          old = body opkt;
          a = acker_of (k_acker k0);
          n1 = (if qs_enabled k0 then qs_answer opkt (body npkt) else body npkt);
          n2 = n1\<lparr>th_seqno := Seqno a, th_ts := now,
                  th_ts_echo := (if ts_echo_bugfix k0 then ts_to_echo a else th_ts old), flowid := flowid old\<rparr>;
          sv = map_option body (save_pkt k0);
          u = ecn_remember old sv (ecn_unacked a);
          n3 = ecn_flags (ecn_syn k0) old sv u n2
      in bindR (append_ack (th_seqno old) (npkt\<lparr>body := n3\<rparr>) (with_acker (a\<lparr>ecn_unacked := u\<rparr>) (k_acker k0)))
           (\<lambda>(npkt1, r).
              Inr (npkt1, k0\<lparr>k_acker := with_acker ((acker_of r)\<lparr>last_ack_sent := th_seqno (body npkt1)\<rparr>) r\<rparr>)))"

section \<open>Receiving\<close>

text \<open>The timestamp, the window and the delivery to the application, as both sinks do them.\<close>

definition sink_accept :: "tcp_packet \<Rightarrow> tcp_sink \<Rightarrow> (sink_act list \<times> tcp_sink) res" where
  "sink_accept p k =
     (let th = body p;
          a = update_ts (th_seqno th) (th_ts th) (ts_echo_rfc1323 k) (acker_of (k_acker k))
      in case acker_update (th_seqno th) (psize p) a of
           None \<Rightarrow> Inl Hangs
         | Some (n, a1) \<Rightarrow>
             (let k1 = k\<lparr>k_acker := with_acker a1 (k_acker k)\<rparr>
              in if n \<noteq> 0 then Inr ([RecvBytes n], k1\<lparr>k_bytes := k_bytes k1 + n\<rparr>) else Inr ([], k1)))"

definition sink_recv :: "time \<Rightarrow> tcp_packet \<Rightarrow> tcp_sink \<Rightarrow> (sink_act list \<times> tcp_sink) res" where
  "sink_recv now p k =
     (if th_ts (body p) < lastreset k then Inr ([FreePkt p], k)
      else bindR (sink_accept p k) (\<lambda>(as, k1).
             bindR (sink_ack now p k1) (\<lambda>(npkt, k2).
               Inr (as @ [SendAck npkt, FreePkt p], k2))))"

text \<open>
  \<open>reset\<close> calls \<open>Acker::reset\<close>, which is not virtual, whatever the receiver; the saved packet is
  forgotten, not freed.
\<close>

definition sink_reset :: "time \<Rightarrow> tcp_sink \<Rightarrow> tcp_sink" where
  "sink_reset now k =
     k\<lparr>k_acker := with_acker (acker_reset (acker_of (k_acker k))) (k_acker k), save_pkt := None, lastreset := now\<rparr>"

text \<open>Arrivals, each with its time.\<close>

fun sink_run :: "(time \<times> tcp_packet) list \<Rightarrow> tcp_sink \<Rightarrow> (sink_act list \<times> tcp_sink) res" where
  "sink_run [] k = Inr ([], k)"
| "sink_run ((now, p) # ps) k =
     bindR (sink_recv now p k) (\<lambda>(as, k1). bindR (sink_run ps k1) (\<lambda>(bs, k2). Inr (as @ bs, k2)))"

section \<open>The receiver invariant\<close>

text \<open>
  \<open>S\<close> holds the numbers of the segments received, \<open>sz\<close> the size of each; the fields outside the
  ring do not matter.
\<close>

definition receiver_ok :: "int set \<Rightarrow> (int \<Rightarrow> int) \<Rightarrow> receiver \<Rightarrow> bool" where
  "receiver_ok S sz r \<longleftrightarrow>
     (case r of PlainAcker a \<Rightarrow> follows a S sz \<and> (\<forall>i \<in> S. 0 < sz i) | SackAcker s \<Rightarrow> sacker_ok S sz s)"

definition packet_ok :: "(int \<Rightarrow> int) \<Rightarrow> tcp_packet \<Rightarrow> bool" where
  "packet_ok sz p \<longleftrightarrow> psize p = sz (th_seqno (body p)) \<and> 0 < psize p"

definition ack_ok :: "int set \<Rightarrow> tcp_packet \<Rightarrow> bool" where
  "ack_ok S p \<longleftrightarrow>
     -1 \<le> th_seqno (body p) \<and> {0..th_seqno (body p)} \<subseteq> S \<and> th_seqno (body p) + 1 \<notin> S \<and> blocks_ok S (sa_length (body p)) (sack_area (body p))"

lemma follows_fields:
  assumes "nxt b = nxt a" "maxseen b = maxseen a" "wndmask b = wndmask a" "seen b = seen a"
  shows "follows b S sz = follows a S sz"
proof -
  have "cell b = cell a" using assms by (simp add: cell_def fun_eq_iff)
  moreover from this assms have "window b = window a" by (simp add: window_def fun_eq_iff)
  ultimately show ?thesis using assms by (simp add: follows_def acker_inv_def ring_ok_def)
qed

lemma acker_of_with_acker [simp]: "acker_of (with_acker a r) = a"
  by (cases r) auto

lemma with_acker_twice [simp]: "with_acker b (with_acker a r) = with_acker b r"
  by (cases r) auto

lemma receiver_ok_follows: "receiver_ok S sz r \<Longrightarrow> follows (acker_of r) S sz \<and> (\<forall>i \<in> S. 0 < sz i)"
  by (cases r) (auto simp: receiver_ok_def sacker_ok_def)

lemma receiver_ok_with_acker:
  assumes "receiver_ok S sz r" and "follows a T sz" and "S \<subseteq> T" and "\<forall>i \<in> T. 0 < sz i"
  shows "receiver_ok T sz (with_acker a r)"
proof (cases r)
  case (SackAcker s)
  with assms stack_ok_mono [OF _ assms(3)] show ?thesis by (auto simp: receiver_ok_def sacker_ok_def)
qed (use assms in \<open>simp add: receiver_ok_def\<close>)

lemma receiver_ok_fields:
  assumes "receiver_ok S sz r" and "nxt a = nxt (acker_of r)" "maxseen a = maxseen (acker_of r)"
    "wndmask a = wndmask (acker_of r)" "seen a = seen (acker_of r)"
  shows "receiver_ok S sz (with_acker a r)"
  using receiver_ok_with_acker [OF assms(1), of a S] receiver_ok_follows [OF assms(1)] follows_fields [OF assms(2-5)]
  by blast

lemma update_ts_fields [simp]:
  "nxt (update_ts q t b a) = nxt a" "maxseen (update_ts q t b a) = maxseen a" "wndmask (update_ts q t b a) = wndmask a"
  "seen (update_ts q t b a) = seen a" "last_ack_sent (update_ts q t b a) = last_ack_sent a"
  "ecn_unacked (update_ts q t b a) = ecn_unacked a"
  by (simp_all add: update_ts_def)

section \<open>One segment\<close>

lemma sink_accept_ok:
  assumes r: "receiver_ok S sz (k_acker k)" and p: "packet_ok sz p"
  shows "\<exists>as k'. sink_accept p k = Inr (as, k') \<and> receiver_ok (insert (th_seqno (body p)) S) sz (k_acker k')
    \<and> ecn_unacked (acker_of (k_acker k')) = ecn_unacked (acker_of (k_acker k))
    \<and> (\<exists>b. k' = k\<lparr>k_acker := k_acker k', k_bytes := b\<rparr>)
    \<and> nxt (acker_of (k_acker k)) \<le> nxt (acker_of (k_acker k'))
    \<and> as = (let n = (\<Sum>i\<in>{nxt (acker_of (k_acker k))..<nxt (acker_of (k_acker k'))}. sz i) in if n \<noteq> 0 then [RecvBytes n] else [])"
proof -
  let ?q = "th_seqno (body p)" and ?a = "acker_of (k_acker k)"
  let ?u = "update_ts ?q (th_ts (body p)) (ts_echo_rfc1323 k) ?a"
  have f: "follows ?u S sz" using receiver_ok_follows [OF r] by (simp add: follows_fields [of ?u ?a])
  have pos: "\<forall>i \<in> insert ?q S. 0 < sz i" using receiver_ok_follows [OF r] p by (auto simp: packet_ok_def)
  from acker_update_follows [OF f pos] obtain d a' where u: "acker_update ?q (sz ?q) ?u = Some (d, a')"
    "follows a' (insert ?q S) sz" "nxt ?u \<le> nxt a'" "d = (\<Sum>i\<in>{nxt ?u..<nxt a'}. sz i)" "ecn_unacked a' = ecn_unacked ?u" by metis
  have "receiver_ok (insert ?q S) sz (with_acker a' (k_acker k))"
    by (rule receiver_ok_with_acker [OF r u(2) _ pos]) auto
  with u p show ?thesis
    by (cases "d = 0") (auto simp: sink_accept_def Let_def packet_ok_def intro!: exI [of _ "k_bytes k + d"])
qed

text \<open>What the virtual \<open>append_ack\<close> adds to an ACK without blocks.\<close>

lemma append_ack_ok:
  assumes r: "receiver_ok S sz r" and old: "old \<in> S" and area: "length (sack_area (body p)) = NSA + 1" "sa_length (body p) = 0"
  shows "\<exists>p' r'. append_ack old p r = Inr (p', r') \<and> receiver_ok S sz r' \<and> acker_of r' = acker_of r
    \<and> blocks_ok S (sa_length (body p')) (sack_area (body p'))
    \<and> (\<exists>ar n. body p' = (body p)\<lparr>sack_area := ar, sa_length := n\<rparr>)"
proof (cases r)
  case (PlainAcker a)
  with assms show ?thesis
    by (auto simp: blocks_ok_def intro!: exI [of _ "sack_area (body p)"] exI [of _ "sa_length (body p)"])
next
  case (SackAcker s)
  with r have "sacker_ok S sz s" by (simp add: receiver_ok_def)
  from sack_append_spec [OF this old area(1)] obtain st ar n where
    "sack_append old s (sack_area (body p)) = Inr (st, ar, n)" "stack_ok S (nat (base_nblocks s)) st" "blocks_ok S n ar" by auto
  with SackAcker r show ?thesis by (auto simp: receiver_ok_def sacker_ok_def)
qed

lemma qs_answer_fields [simp]:
  "sack_area (qs_answer p n) = sack_area n" "sa_length (qs_answer p n) = sa_length n"
  by (simp_all add: qs_answer_def)

lemma ecn_flags_fields [simp]:
  "sack_area (ecn_flags y h v u n) = sack_area n" "sa_length (ecn_flags y h v u n) = sa_length n"
  "th_seqno (ecn_flags y h v u n) = th_seqno n"
  by (simp_all add: ecn_flags_def Let_def)

lemma follows_acked: "follows a S sz \<Longrightarrow> -1 \<le> Seqno a \<and> {0..Seqno a} \<subseteq> S \<and> Seqno a + 1 \<notin> S"
  by (auto simp: follows_def Seqno_def acker_inv_def)

lemma sink_ack_ok:
  assumes r: "receiver_ok S sz (k_acker k)" and old: "th_seqno (body p) \<in> S"
  shows "\<exists>npkt k'. sink_ack now p k = Inr (npkt, k') \<and> receiver_ok S sz (k_acker k') \<and> ack_ok S npkt
    \<and> th_seqno (body npkt) = Seqno (acker_of (k_acker k)) \<and> nxt (acker_of (k_acker k')) = nxt (acker_of (k_acker k))
    \<and> last_ack_sent (acker_of (k_acker k')) = Seqno (acker_of (k_acker k'))
    \<and> (\<exists>b. k' = k\<lparr>k_acker := k_acker k', uidcnt := b\<rparr>)
    \<and> ecn_unacked (acker_of (k_acker k')) = ecn_remember (body p) (map_option body (save_pkt k)) (ecn_unacked (acker_of (k_acker k)))
    \<and> (either f_ect (body p) (map_option body (save_pkt k)) \<and> ecn_unacked (acker_of (k_acker k')) \<longrightarrow> f_ecnecho (body npkt))"
proof -
  obtain n0 k0 where al: "agent_allocpkt now k = (n0, k0)" by fastforce
  then have k0: "k0 = k\<lparr>uidcnt := uidcnt k + 1\<rparr>" and n0: "length (sack_area (body n0)) = NSA + 1" "sa_length (body n0) = 0"
    by (auto simp: agent_allocpkt_def tcp_hdr_zero_def)
  let ?a = "acker_of (k_acker k0)" and ?sv = "map_option body (save_pkt k0)"
  let ?u = "ecn_remember (body p) ?sv (ecn_unacked ?a)"
  let ?n1 = "if qs_enabled k0 then qs_answer p (body n0) else body n0"
  let ?n2 = "?n1\<lparr>th_seqno := Seqno ?a, th_ts := now,
    th_ts_echo := (if ts_echo_bugfix k0 then ts_to_echo ?a else th_ts (body p)), flowid := flowid (body p)\<rparr>"
  let ?n3 = "ecn_flags (ecn_syn k0) (body p) ?sv ?u ?n2"
  let ?r = "with_acker (?a\<lparr>ecn_unacked := ?u\<rparr>) (k_acker k0)"
  have "receiver_ok S sz ?r" using receiver_ok_fields [of S sz "k_acker k0"] r k0 by simp
  moreover have "length (sack_area (body (n0\<lparr>body := ?n3\<rparr>))) = NSA + 1" "sa_length (body (n0\<lparr>body := ?n3\<rparr>)) = 0"
    using n0 by simp_all
  ultimately obtain p' r' ar n where a: "append_ack (th_seqno (body p)) (n0\<lparr>body := ?n3\<rparr>) ?r = Inr (p', r')"
    "receiver_ok S sz r'" "acker_of r' = acker_of ?r" "blocks_ok S (sa_length (body p')) (sack_area (body p'))"
    "body p' = ?n3\<lparr>sack_area := ar, sa_length := n\<rparr>"
    using append_ack_ok [OF _ old, of sz ?r "n0\<lparr>body := ?n3\<rparr>"] by auto
  have q: "th_seqno (body p') = Seqno (acker_of (k_acker k))" using a(5) k0 by simp
  let ?k' = "k0\<lparr>k_acker := with_acker ((acker_of r')\<lparr>last_ack_sent := th_seqno (body p')\<rparr>) r'\<rparr>"
  have eq: "sink_ack now p k = Inr (p', ?k')" unfolding sink_ack_def al Let_def prod.case a(1) by simp
  have "receiver_ok S sz (k_acker ?k')" using receiver_ok_fields [OF a(2)] by simp
  moreover have "ack_ok S p'"
    using a(4) q follows_acked [OF conjunct1 [OF receiver_ok_follows [OF r]]] by (simp add: ack_ok_def)
  moreover have "f_ecnecho (body p')" if "either f_ect (body p) ?sv" "?u" using a(5) that by (simp add: ecn_flags_def Let_def)
  ultimately show ?thesis using eq a(3) q k0 by (auto simp: Seqno_def intro!: exI [of _ "uidcnt k + 1"])
qed

section \<open>Any sequence of segments\<close>

text \<open>The ACKs sent, the bytes delivered and the packets freed.\<close>

fun acks :: "sink_act list \<Rightarrow> tcp_packet list" where
  "acks [] = []"
| "acks (a # as) = (case a of SendAck p \<Rightarrow> p # acks as | _ \<Rightarrow> acks as)"

fun delivered :: "sink_act list \<Rightarrow> int" where
  "delivered [] = 0"
| "delivered (a # as) = (case a of RecvBytes n \<Rightarrow> n + delivered as | _ \<Rightarrow> delivered as)"

fun freed :: "sink_act list \<Rightarrow> tcp_packet list" where
  "freed [] = []"
| "freed (a # as) = (case a of FreePkt p \<Rightarrow> p # freed as | _ \<Rightarrow> freed as)"

lemma acts_append [simp]:
  "acks (as @ bs) = acks as @ acks bs" "delivered (as @ bs) = delivered as + delivered bs" "freed (as @ bs) = freed as @ freed bs"
  by (induction as) (auto split: sink_act.splits)

definition seqnos :: "(time \<times> tcp_packet) list \<Rightarrow> int set" where
  "seqnos ps = (\<lambda>(t, p). th_seqno (body p)) ` set ps"

lemma seqnos_simps [simp]: "seqnos [] = {}" "seqnos ((t, p) # ps) = insert (th_seqno (body p)) (seqnos ps)"
  by (auto simp: seqnos_def)

lemma sink_recv_ok:
  assumes r: "receiver_ok S sz (k_acker k)" and p: "packet_ok sz p" "lastreset k \<le> th_ts (body p)"
  obtains as npkt k' where "sink_recv now p k = Inr (as, k')" "acks as = [npkt]" "freed as = [p]"
    "receiver_ok (insert (th_seqno (body p)) S) sz (k_acker k')" "ack_ok (insert (th_seqno (body p)) S) npkt"
    "lastreset k' = lastreset k" "save_pkt k' = save_pkt k" "nxt (acker_of (k_acker k)) \<le> nxt (acker_of (k_acker k'))"
    "delivered as = (\<Sum>i\<in>{nxt (acker_of (k_acker k))..<nxt (acker_of (k_acker k'))}. sz i)"
    "ecn_unacked (acker_of (k_acker k')) = ecn_remember (body p) (map_option body (save_pkt k)) (ecn_unacked (acker_of (k_acker k)))"
    "either f_ect (body p) (map_option body (save_pkt k)) \<and> ecn_unacked (acker_of (k_acker k')) \<longrightarrow> f_ecnecho (body npkt)"
proof -
  let ?S = "insert (th_seqno (body p)) S"
  from sink_accept_ok [OF r p(1)] obtain as k1 b where a: "sink_accept p k = Inr (as, k1)" "receiver_ok ?S sz (k_acker k1)"
    "ecn_unacked (acker_of (k_acker k1)) = ecn_unacked (acker_of (k_acker k))" "k1 = k\<lparr>k_acker := k_acker k1, k_bytes := b\<rparr>"
    "nxt (acker_of (k_acker k)) \<le> nxt (acker_of (k_acker k1))"
    "as = (let n = (\<Sum>i\<in>{nxt (acker_of (k_acker k))..<nxt (acker_of (k_acker k1))}. sz i) in if n \<noteq> 0 then [RecvBytes n] else [])"
    by auto
  from sink_ack_ok [OF a(2), of p now] obtain npkt k2 c where g: "sink_ack now p k1 = Inr (npkt, k2)" "receiver_ok ?S sz (k_acker k2)"
    "ack_ok ?S npkt" "nxt (acker_of (k_acker k2)) = nxt (acker_of (k_acker k1))" "k2 = k1\<lparr>k_acker := k_acker k2, uidcnt := c\<rparr>"
    "ecn_unacked (acker_of (k_acker k2)) = ecn_remember (body p) (map_option body (save_pkt k1)) (ecn_unacked (acker_of (k_acker k1)))"
    "either f_ect (body p) (map_option body (save_pkt k1)) \<and> ecn_unacked (acker_of (k_acker k2)) \<longrightarrow> f_ecnecho (body npkt)" by auto
  have s: "save_pkt k1 = save_pkt k" "lastreset k1 = lastreset k" by (subst a(4), simp)+
  then have s2: "save_pkt k2 = save_pkt k" "lastreset k2 = lastreset k" by (subst g(5), simp)+
  have eq: "sink_recv now p k = Inr (as @ [SendAck npkt, FreePkt p], k2)" using p(2) a(1) g(1) by (simp add: sink_recv_def)
  show ?thesis
    by (rule that [OF eq]) (use a g s s2 in \<open>auto simp: Let_def\<close>)
qed

lemma sink_run_ok:
  assumes "receiver_ok S sz (k_acker k)" and "\<forall>(t, p) \<in> set ps. packet_ok sz p \<and> lastreset k \<le> th_ts (body p)"
  shows "\<exists>as k'. sink_run ps k = Inr (as, k') \<and> length (acks as) = length ps
    \<and> (\<forall>i < length ps. ack_ok (S \<union> seqnos (take (Suc i) ps)) (acks as ! i))
    \<and> freed as = map snd ps \<and> receiver_ok (S \<union> seqnos ps) sz (k_acker k')
    \<and> nxt (acker_of (k_acker k)) \<le> nxt (acker_of (k_acker k'))
    \<and> delivered as = (\<Sum>i\<in>{nxt (acker_of (k_acker k))..<nxt (acker_of (k_acker k'))}. sz i)"
  using assms
proof (induction ps arbitrary: k S)
  case (Cons tp ps)
  obtain t p where tp: "tp = (t, p)" by fastforce
  let ?S = "insert (th_seqno (body p)) S" and ?n = "\<lambda>k. nxt (acker_of (k_acker k))"
  have p: "packet_ok sz p" "lastreset k \<le> th_ts (body p)" using Cons.prems(2) tp by auto
  from sink_recv_ok [OF Cons.prems(1) p, of t] obtain as npkt k1 where r: "sink_recv t p k = Inr (as, k1)" "acks as = [npkt]" "freed as = [p]"
    "receiver_ok ?S sz (k_acker k1)" "ack_ok ?S npkt" "lastreset k1 = lastreset k" "?n k \<le> ?n k1" "delivered as = (\<Sum>i\<in>{?n k..<?n k1}. sz i)"
    by metis
  have "\<forall>(t, p) \<in> set ps. packet_ok sz p \<and> lastreset k1 \<le> th_ts (body p)" using Cons.prems(2) r(6) by auto
  from Cons.IH [OF r(4) this] obtain bs k2 where i: "sink_run ps k1 = Inr (bs, k2)" "length (acks bs) = length ps"
    "\<forall>i < length ps. ack_ok (?S \<union> seqnos (take (Suc i) ps)) (acks bs ! i)" "freed bs = map snd ps"
    "receiver_ok (?S \<union> seqnos ps) sz (k_acker k2)" "?n k1 \<le> ?n k2" "delivered bs = (\<Sum>i\<in>{?n k1..<?n k2}. sz i)" by auto
  have "{?n k..<?n k2} = {?n k..<?n k1} \<union> {?n k1..<?n k2}" using r(7) i(6) by auto
  then have d: "(\<Sum>i\<in>{?n k..<?n k2}. sz i) = delivered as + delivered bs" unfolding r(8) i(7) by (subst sum.union_disjoint [symmetric]) auto
  have k: "ack_ok (S \<union> seqnos (take (Suc j) (tp # ps))) (acks (as @ bs) ! j)" if "j < length (tp # ps)" for j
    using that r(2,5) i(3) tp by (cases j) auto
  have eq: "sink_run (tp # ps) k = Inr (as @ bs, k2)" using tp r(1) i(1) by simp
  show ?case unfolding eq
    by (intro exI [of _ "as @ bs"] exI [of _ k2] conjI allI impI k) (use r i d tp in auto)
qed simp

section \<open>Properties\<close>

text \<open>A sink whose receiver is as the constructors leave it.\<close>

definition fresh_sink :: "tcp_sink \<Rightarrow> bool" where
  "fresh_sink k \<longleftrightarrow>
     save_pkt k = None \<and>
     (case k_acker k of
        PlainAcker a \<Rightarrow> a = acker_new
      | SackAcker s \<Rightarrow> s_acker s = acker_new \<and> 0 \<le> base_nblocks s \<and> base_nblocks s \<le> int NSA
                      \<and> sf s = sk_new (nat (base_nblocks s)))"

lemma fresh_sink_ok: "fresh_sink k \<Longrightarrow> receiver_ok {} sz (k_acker k) \<and> acker_of (k_acker k) = acker_new"
  using follows_new [of sz] stack_ok_new [of "{}"]
  by (cases "k_acker k") (auto simp: fresh_sink_def receiver_ok_def sacker_ok_def)

text \<open>
  C28: A TCP sink, with or without selective acknowledgements, answers each segment with one ACK and
  frees it. Whatever the order of arrival, the ACK names the last segment before the first missing
  one, each block it lists holds only segments received so far, and the application gets each
  acknowledged byte once.
\<close>

theorem sink_acknowledges:
  assumes "fresh_sink k" and "\<forall>(t, p) \<in> set ps. packet_ok sz p \<and> lastreset k \<le> th_ts (body p)"
  shows "\<exists>as k'. sink_run ps k = Inr (as, k') \<and> length (acks as) = length ps
    \<and> (\<forall>i < length ps. ack_ok (seqnos (take (Suc i) ps)) (acks as ! i)) \<and> freed as = map snd ps
    \<and> delivered as = (\<Sum>i\<in>{0..Seqno (acker_of (k_acker k'))}. sz i)"
proof -
  from fresh_sink_ok [OF assms(1)] have f: "receiver_ok {} sz (k_acker k)" "nxt (acker_of (k_acker k)) = 0"
    by (auto simp: acker_new_def)
  have "{0..<n} = {0..n - 1}" for n :: int by auto
  with sink_run_ok [OF f(1) assms(2)] f(2) show ?thesis by (auto simp: Seqno_def)
qed

definition demo_sink :: tcp_sink where
  "demo_sink =
     \<lparr>here_addr = 1, here_port = 0, dst_addr = 2, dst_port = 0, agent_size = 40, agent_fid = 0, agent_defttl = 32,
      uidcnt = 0,
      k_acker = SackAcker \<lparr>s_acker = acker_new, base_nblocks = 3, dsacks = False, sf = sk_new 3\<rparr>,
      ts_echo_bugfix = True, ts_echo_rfc1323 = False, qs_enabled = False, RFC2581_immediate_ack = True,
      ecn_syn = False, k_bytes = 0, save_pkt = None, lastreset = 0, ack_interval = 1\<rparr>"

definition demo_segment :: "int \<Rightarrow> time \<Rightarrow> tcp_packet" where
  "demo_segment q t = (packet_alloc 0 (tcp_hdr_zero\<lparr>th_seqno := q, th_ts := t, f_ect := True, f_ce := q = 1\<rparr>))\<lparr>psize := 1000\<rparr>"

lemma demo_sink_fresh: "fresh_sink demo_sink"
  by (simp add: fresh_sink_def demo_sink_def NSA_def)

lemma demo_segment_ok [simp]:
  "packet_ok (\<lambda>i. 1000) (demo_segment q t)" "th_seqno (body (demo_segment q t)) = q" "th_ts (body (demo_segment q t)) = t"
  "f_ect (body (demo_segment q t))" "\<not> f_cong_action (body (demo_segment q t))" "f_ce (body (demo_segment q t)) \<longleftrightarrow> q = 1"
  by (simp_all add: packet_ok_def demo_segment_def tcp_hdr_zero_def)

theorem sink_acknowledges_witness:
  "\<exists>as k'. sink_run [(1, demo_segment 0 1), (2, demo_segment 2 2)] demo_sink = Inr (as, k')
    \<and> ack_ok {0} (acks as ! 0) \<and> ack_ok {0, 2} (acks as ! 1)"
proof -
  let ?ps = "[(1, demo_segment 0 1), (2, demo_segment 2 2)] :: (time \<times> tcp_packet) list"
  have "\<forall>(t, p) \<in> set ?ps. packet_ok (\<lambda>i. 1000) p \<and> lastreset demo_sink \<le> th_ts (body p)" by (simp add: demo_sink_def)
  from sink_acknowledges [OF demo_sink_fresh this] obtain as k' where r: "sink_run ?ps demo_sink = Inr (as, k')"
    "\<forall>i < length ?ps. ack_ok (seqnos (take (Suc i) ?ps)) (acks as ! i)" by blast
  from r(2) [rule_format, of 0] r(2) [rule_format, of 1] r(1) show ?thesis by (auto simp: insert_commute)
qed

text \<open>Congestion is remembered until the sender says it has acted.\<close>

lemma ecn_remember_marked: "f_ect h \<and> f_ce h \<Longrightarrow> ecn_remember h sv u"
  by (simp add: ecn_remember_def either_def Let_def)

lemma ecn_remember_kept: "\<not> f_cong_action h \<Longrightarrow> ecn_remember h None True"
  by (simp add: ecn_remember_def either_def Let_def)

lemma sink_run_echoes:
  assumes "receiver_ok S sz (k_acker k)" and "save_pkt k = None" and "ecn_unacked (acker_of (k_acker k))"
    and "\<forall>(t, p) \<in> set ps. packet_ok sz p \<and> lastreset k \<le> th_ts (body p) \<and> f_ect (body p) \<and> \<not> f_cong_action (body p)"
  shows "\<exists>as k'. sink_run ps k = Inr (as, k') \<and> (\<forall>q \<in> set (acks as). f_ecnecho (body q))"
  using assms
proof (induction ps arbitrary: k S)
  case (Cons tp ps)
  obtain t p where tp: "tp = (t, p)" by fastforce
  have p: "packet_ok sz p" "lastreset k \<le> th_ts (body p)" "f_ect (body p)" "\<not> f_cong_action (body p)" using Cons.prems(4) tp by auto
  from sink_recv_ok [OF Cons.prems(1) p(1,2), of t] obtain as npkt k1 where r: "sink_recv t p k = Inr (as, k1)" "acks as = [npkt]"
    "receiver_ok (insert (th_seqno (body p)) S) sz (k_acker k1)" "lastreset k1 = lastreset k" "save_pkt k1 = save_pkt k"
    "ecn_unacked (acker_of (k_acker k1)) = ecn_remember (body p) (map_option body (save_pkt k)) (ecn_unacked (acker_of (k_acker k)))"
    "either f_ect (body p) (map_option body (save_pkt k)) \<and> ecn_unacked (acker_of (k_acker k1)) \<longrightarrow> f_ecnecho (body npkt)"
    by metis
  have u: "ecn_unacked (acker_of (k_acker k1))" using r(6) Cons.prems(2,3) ecn_remember_kept [OF p(4)] by simp
  with r(7) p(3) have e: "f_ecnecho (body npkt)" by (simp add: either_def)
  have "\<exists>bs k2. sink_run ps k1 = Inr (bs, k2) \<and> (\<forall>q \<in> set (acks bs). f_ecnecho (body q))"
    by (rule Cons.IH [OF r(3) _ u]) (use r Cons.prems in auto)
  with r tp e show ?case by auto
qed simp

text \<open>
  After a segment that the network has marked as having met congestion, every ACK carries the
  echo until a segment arrives with which the sender says that it has reduced its window.
\<close>

theorem sink_ecn_echo:
  assumes "receiver_ok S sz (k_acker k)" and "save_pkt k = None" and "f_ect (body p)" and "f_ce (body p)"
    and "\<forall>(t, q) \<in> set ((t, p) # ps). packet_ok sz q \<and> lastreset k \<le> th_ts (body q)"
    and "\<forall>(t, q) \<in> set ps. f_ect (body q) \<and> \<not> f_cong_action (body q)"
  shows "\<exists>as k'. sink_run ((t, p) # ps) k = Inr (as, k') \<and> (\<forall>q \<in> set (acks as). f_ecnecho (body q))"
proof -
  from sink_recv_ok [OF assms(1), of p t] assms(5) obtain as npkt k1 where r: "sink_recv t p k = Inr (as, k1)" "acks as = [npkt]"
    "receiver_ok (insert (th_seqno (body p)) S) sz (k_acker k1)" "lastreset k1 = lastreset k" "save_pkt k1 = save_pkt k"
    "ecn_unacked (acker_of (k_acker k1)) = ecn_remember (body p) (map_option body (save_pkt k)) (ecn_unacked (acker_of (k_acker k)))"
    "either f_ect (body p) (map_option body (save_pkt k)) \<and> ecn_unacked (acker_of (k_acker k1)) \<longrightarrow> f_ecnecho (body npkt)"
    by (metis (no_types, lifting) case_prodD list.set_intros(1))
  have u: "ecn_unacked (acker_of (k_acker k1))" using r(6) ecn_remember_marked assms(3,4) by simp
  then have e: "f_ecnecho (body npkt)" using r(7) assms(3) by (simp add: either_def)
  have "\<exists>bs k2. sink_run ps k1 = Inr (bs, k2) \<and> (\<forall>q \<in> set (acks bs). f_ecnecho (body q))"
    by (rule sink_run_echoes [OF r(3) _ u]) (use r assms in \<open>auto simp: case_prod_beta\<close>)
  with r e show ?thesis by auto
qed

theorem sink_ecn_echo_witness:
  "\<exists>as k'. sink_run [(1, demo_segment 1 1), (2, demo_segment 0 2)] demo_sink = Inr (as, k')
    \<and> (\<forall>q \<in> set (acks as). f_ecnecho (body q))"
  by (rule sink_ecn_echo [of "{}" "\<lambda>i. 1000"]) (use fresh_sink_ok [OF demo_sink_fresh] in \<open>auto simp: demo_sink_def\<close>)

text \<open>Both reset functions empty the window; only that of \<open>Sacker\<close> empties the stack.\<close>

lemma acker_reset_follows:
  assumes f: "follows a S sz" and w: "1 < wndmask a"
  shows "follows (acker_reset a) {} sz'"
proof -
  from f obtain m where m: "wndmask a + 1 = 2 ^ m" and len: "length (seen a) = wndmask a + 1"
    by (auto simp: follows_def acker_inv_def ring_ok_def)
  have c: "cell (acker_reset a) i = 0" for i
    using slot_replicate [OF m, of i] len by (simp add: cell_def acker_reset_def)
  have r: "nxt (acker_reset a) = 0" "maxseen (acker_reset a) = 0" "wndmask (acker_reset a) = wndmask a"
    "length (seen (acker_reset a)) = wndmask a + 1"
    using len by (simp_all add: acker_reset_def)
  then have "acker_inv (acker_reset a)" using c m w by (auto simp: acker_inv_def ring_ok_def)
  then show ?thesis using c r by (simp add: follows_def window_def fun_eq_iff)
qed

lemma sacker_reset_ok: "sacker_ok S sz s \<Longrightarrow> 1 < wndmask (s_acker s) \<Longrightarrow> sacker_ok {} sz' (sacker_reset s)"
  using acker_reset_follows [of "s_acker s" S sz sz']
  by (auto simp: sacker_ok_def sacker_reset_def sk_reset_def stack_ok_def replicate_add [symmetric] intro!: exI [of _ "[]"])

lemma sink_reset_plain_ok:
  "receiver_ok S sz (k_acker k) \<Longrightarrow> k_acker k = PlainAcker a \<Longrightarrow> 1 < wndmask a \<Longrightarrow> receiver_ok {} sz' (k_acker (sink_reset now k))"
  using acker_reset_follows [of a S sz sz'] by (simp add: sink_reset_def receiver_ok_def)

definition blocks_of :: "tcp_packet \<Rightarrow> (int \<times> int) list" where
  "blocks_of p = take (sa_length (body p)) (sack_area (body p))"

text \<open>
  A reset does not empty the stack of a SACK receiver: \<open>Acker::reset\<close> is not virtual, so
  \<open>Sacker::reset\<close>, which would, is never called. After it the receiver of the witness
  acknowledges a segment that has not arrived since.
\<close>

theorem sink_reset_keeps_blocks:
  "\<exists>as k s as' k'. fresh_sink demo_sink \<and> sink_recv 1 (demo_segment 5 1) demo_sink = Inr (as, k)
    \<and> sink_recv 3 (demo_segment 9 3) (sink_reset 2 k) = Inr (as', k') \<and> map blocks_of (acks as') = [[(9, 10), (5, 6)]]
    \<and> list_all (\<lambda>p. \<not> ack_ok {9} p) (acks as')
    \<and> k_acker k = SackAcker s \<and> sf (sacker_reset s) = sk_new 3"
proof -
  have e1: "map_sum id (\<lambda>(as, k). case k_acker k of PlainAcker a \<Rightarrow> None | SackAcker s \<Rightarrow> Some (sf (sacker_reset s)))
      (sink_recv 1 (demo_segment 5 1) demo_sink) = Inr (Some (sk_new 3))" by code_simp
  have e2: "map_sum id (map blocks_of \<circ> acks \<circ> fst)
      (bindR (sink_recv 1 (demo_segment 5 1) demo_sink) (\<lambda>(as, k). sink_recv 3 (demo_segment 9 3) (sink_reset 2 k)))
    = Inr [[(9, 10), (5, 6)]]" by code_simp
  from e1 obtain as k s where r: "sink_recv 1 (demo_segment 5 1) demo_sink = Inr (as, k)" "k_acker k = SackAcker s"
    "sf (sacker_reset s) = sk_new 3"
    by (cases "sink_recv 1 (demo_segment 5 1) demo_sink") (auto split: receiver.splits)
  with e2 obtain as' k' where b: "sink_recv 3 (demo_segment 9 3) (sink_reset 2 k) = Inr (as', k')"
    "map blocks_of (acks as') = [[(9, 10), (5, 6)]]"
    by (cases "sink_recv 3 (demo_segment 9 3) (sink_reset 2 k)") auto
  obtain p where p: "acks as' = [p]" "blocks_of p = [(9, 10), (5, 6)]" using b(2) by (auto simp: map_eq_Cons_conv)
  have "\<not> blocks_ok {9} (sa_length (body p)) (sack_area (body p))"
  proof
    assume ok: "blocks_ok {9} (sa_length (body p)) (sack_area (body p))"
    then have n: "1 < sa_length (body p)" using arg_cong [OF p(2), of length] by (simp add: blocks_of_def)
    then have "sack_area (body p) ! 1 = (5, 6)" using arg_cong [OF p(2), of "\<lambda>l. l ! 1"] by (simp add: blocks_of_def)
    with ok n have "block_ok {9} (5, 6)" by (auto simp: blocks_ok_def)
    then have "{5..<6 :: int} \<subseteq> {9}" by (simp add: block_ok_def)
    from subsetD [OF this, of 5] show False by simp
  qed
  with p(1) r b demo_sink_fresh show ?thesis by (auto simp: ack_ok_def)
qed

end
