(* ===== verification/NsTimer.thy ===== *)
theory NsTimer
  imports SchedRuns
begin

text \<open>
  \<open>TimerHandler\<close> of \<open>common/timer-handler.cc\<close>: a timer owns one event and is idle, pending or
  handling; arming a timer that is not idle and cancelling one that is not pending abort. On a
  scheduler in good order the event of the timer is in the queue just when the timer is pending.
\<close>

section \<open>The timer\<close>

datatype timer_status = TIMER_IDLE | TIMER_PENDING | TIMER_HANDLING

text \<open>\<open>tm_event\<close> is the event \<open>event_\<close>, which is a field of the timer.\<close>

record 'h timer =
  tm_status :: timer_status
  tm_event :: "'h event"

definition timer_new :: "'h \<Rightarrow> 'h timer" where
  "timer_new h = \<lparr>tm_status = TIMER_IDLE, tm_event = \<lparr>ev_time = 0, ev_uid = 0, ev_handler = h\<rparr>\<rparr>"

text \<open>
  \<open>_sched\<close> and \<open>_cancel\<close> call the scheduler; \<open>schedule\<close> and \<open>cancel\<close> write the uid, the
  time and the handler of the event. The handler of a timer is the timer itself, \<open>h\<close>.
\<close>

definition raw_sched ::
  "('q \<Rightarrow> 'h event \<Rightarrow> 'q res) \<Rightarrow> 'h \<Rightarrow> time \<Rightarrow> 'h timer \<times> ('h, 'q) sched \<Rightarrow> ('h timer \<times> ('h, 'q) sched) res"
where
  "raw_sched ins h delay = (\<lambda>(tm, s).
     bindR (schedule ins s (Some h) (tm_event tm) delay)
       (\<lambda>s'. Inr (tm\<lparr>tm_event := (tm_event tm)\<lparr>ev_uid := next_uid s, ev_handler := h, ev_time := clock s + delay\<rparr>\<rparr>, s')))"

definition raw_cancel ::
  "('q \<Rightarrow> 'h event \<Rightarrow> ('q \<times> 'h event) res) \<Rightarrow> 'h timer \<times> ('h, 'q) sched \<Rightarrow> ('h timer \<times> ('h, 'q) sched) res"
where
  "raw_cancel can = (\<lambda>(tm, s).
     bindR (can (queue s) (tm_event tm)) (\<lambda>(q', e'). Inr (tm\<lparr>tm_event := e'\<rparr>, s\<lparr>queue := q'\<rparr>)))"

definition set_status :: "timer_status \<Rightarrow> 'h timer \<times> 'b \<Rightarrow> ('h timer \<times> 'b) res" where
  "set_status st = (\<lambda>(tm, s). Inr (tm\<lparr>tm_status := st\<rparr>, s))"

definition timer_cancel ::
  "('q \<Rightarrow> 'h event \<Rightarrow> ('q \<times> 'h event) res) \<Rightarrow> 'h timer \<times> ('h, 'q) sched \<Rightarrow> ('h timer \<times> ('h, 'q) sched) res"
where
  "timer_cancel can x =
     (if tm_status (fst x) \<noteq> TIMER_PENDING then Inl Aborted
      else bindR (raw_cancel can x) (set_status TIMER_IDLE))"

definition timer_sched ::
  "('q \<Rightarrow> 'h event \<Rightarrow> 'q res) \<Rightarrow> 'h \<Rightarrow> time \<Rightarrow> 'h timer \<times> ('h, 'q) sched \<Rightarrow> ('h timer \<times> ('h, 'q) sched) res"
where
  "timer_sched ins h delay x =
     (if tm_status (fst x) \<noteq> TIMER_IDLE then Inl Aborted
      else bindR (raw_sched ins h delay x) (set_status TIMER_PENDING))"

definition timer_resched ::
  "('q \<Rightarrow> 'h event \<Rightarrow> 'q res) \<Rightarrow> ('q \<Rightarrow> 'h event \<Rightarrow> ('q \<times> 'h event) res) \<Rightarrow> 'h \<Rightarrow> time \<Rightarrow> 'h timer \<times> ('h, 'q) sched \<Rightarrow> ('h timer \<times> ('h, 'q) sched) res"
where
  "timer_resched ins can h delay x =
     bindR (if tm_status (fst x) = TIMER_PENDING then raw_cancel can x else Inr x)
       (\<lambda>x1. bindR (raw_sched ins h delay x1) (set_status TIMER_PENDING))"

definition timer_force_cancel ::
  "('q \<Rightarrow> 'h event \<Rightarrow> ('q \<times> 'h event) res) \<Rightarrow> 'h timer \<times> ('h, 'q) sched \<Rightarrow> ('h timer \<times> ('h, 'q) sched) res"
where
  "timer_force_cancel can x =
     (if tm_status (fst x) = TIMER_PENDING then bindR (raw_cancel can x) (set_status TIMER_IDLE)
      else Inr x)"

text \<open>
  \<open>handle\<close>, called by \<open>dispatch\<close> with the event out of the queue and its uid negated. \<open>expire\<close> is
  the client's; it may arm the timer again.
\<close>

definition timer_handle ::
  "('h timer \<times> ('h, 'q) sched \<Rightarrow> ('h timer \<times> ('h, 'q) sched) res) \<Rightarrow> 'h timer \<times> ('h, 'q) sched \<Rightarrow> ('h timer \<times> ('h, 'q) sched) res"
where
  "timer_handle expire x =
     (if tm_status (fst x) \<noteq> TIMER_PENDING then Inl Aborted
      else bindR (set_status TIMER_HANDLING x) (\<lambda>x1.
             bindR (expire x1) (\<lambda>x2.
               if tm_status (fst x2) = TIMER_HANDLING then set_status TIMER_IDLE x2 else Inr x2)))"

text \<open>The event of a timer is dispatched: taken out of the queue, the clock set, the uid negated.\<close>

definition timer_fire ::
  "('q \<Rightarrow> ('h event \<times> 'q) option res) \<Rightarrow> ('h timer \<times> ('h, 'q) sched \<Rightarrow> ('h timer \<times> ('h, 'q) sched) res) \<Rightarrow> 'h timer \<times> ('h, 'q) sched \<Rightarrow> ('h timer \<times> ('h, 'q) sched) res"
where
  "timer_fire deq expire x =
     bindR (deq (queue (snd x))) (\<lambda>r.
       case r of
         None \<Rightarrow> Inl Aborted
       | Some (p, q') \<Rightarrow>
           if ev_time p < clock (snd x) then Inl Aborted
           else timer_handle expire
                  ((fst x)\<lparr>tm_event := p\<lparr>ev_uid := - ev_uid p\<rparr>\<rparr>, (snd x)\<lparr>queue := q', clock := ev_time p\<rparr>))"

section \<open>The timer and the queue\<close>

text \<open>The event is queued while the timer is pending; otherwise its uid says that it is not.\<close>

definition timer_ok :: "('q \<Rightarrow> 'h event list) \<Rightarrow> 'h timer \<times> ('h, 'q) sched \<Rightarrow> bool" where
  "timer_ok absq x \<longleftrightarrow>
     (if tm_status (fst x) = TIMER_PENDING then tm_event (fst x) \<in> set (absq (queue (snd x)))
      else ev_uid (tm_event (fst x)) \<le> 0)"

lemma timer_new_ok: "timer_ok absq (timer_new h, s)"
  by (simp add: timer_ok_def timer_new_def)

context event_queue
begin

lemma raw_cancel_ok:
  assumes "ok n (snd x)" and "tm_event (fst x) \<in> set (absq (queue (snd x)))"
  shows "\<exists>tm s. raw_cancel can x = Inr (tm, s) \<and> ok n s \<and> ev_uid (tm_event tm) < 0 \<and> clock s = clock (snd x)
    \<and> absq (queue s) = remove1 (tm_event (fst x)) (absq (queue (snd x))) \<and> next_uid s = next_uid (snd x)"
proof -
  have "0 < ev_uid (tm_event (fst x))" using assms by (auto simp: sched_ok_def)
  with cancel_ok [OF assms] show ?thesis by (cases x) (auto simp: raw_cancel_def)
qed

lemma raw_sched_ok:
  assumes "ok (Suc n) (snd x)" and "ev_uid (tm_event (fst x)) \<le> 0" and "0 \<le> d"
  shows "\<exists>tm s. raw_sched ins h d x = Inr (tm, s) \<and> ok n s \<and> tm_event tm \<in> set (absq (queue s))
    \<and> ev_time (tm_event tm) = clock (snd x) + d \<and> clock s = clock (snd x)
    \<and> set (absq (queue s)) = insert (tm_event tm) (set (absq (queue (snd x))))"
  using schedule_ok [OF assms, of h] by (cases x) (auto simp: raw_sched_def)

lemma arm_ok:
  assumes "ok (Suc n) (snd x)" and "ev_uid (tm_event (fst x)) \<le> 0" and "0 \<le> d"
  shows "\<exists>x'. bindR (raw_sched ins h d x) (set_status TIMER_PENDING) = Inr x' \<and> ok n (snd x') \<and> timer_ok absq x'
    \<and> tm_status (fst x') = TIMER_PENDING \<and> ev_time (tm_event (fst x')) = clock (snd x) + d
    \<and> set (absq (queue (snd x'))) = insert (tm_event (fst x')) (set (absq (queue (snd x))))"
proof -
  from raw_sched_ok [OF assms, of h] obtain tm s where "raw_sched ins h d x = Inr (tm, s)" "ok n s"
    "tm_event tm \<in> set (absq (queue s))" "ev_time (tm_event tm) = clock (snd x) + d"
    "set (absq (queue s)) = insert (tm_event tm) (set (absq (queue (snd x))))" by blast
  then show ?thesis
    by (intro exI [of _ "(tm\<lparr>tm_status := TIMER_PENDING\<rparr>, s)"]) (simp add: set_status_def timer_ok_def)
qed

text \<open>
  What each operation does to a timer in step with the queue: it aborts just when the protocol of
  the timer forbids it, and keeps timer and queue in step otherwise.
\<close>

lemma timer_sched_ok:
  assumes "ok (Suc n) (snd x)" and "timer_ok absq x" and "0 \<le> d"
  shows "if tm_status (fst x) = TIMER_IDLE
    then \<exists>x'. timer_sched ins h d x = Inr x' \<and> ok n (snd x') \<and> timer_ok absq x' \<and> tm_status (fst x') = TIMER_PENDING
      \<and> ev_time (tm_event (fst x')) = clock (snd x) + d
      \<and> set (absq (queue (snd x'))) = insert (tm_event (fst x')) (set (absq (queue (snd x))))
    else timer_sched ins h d x = Inl Aborted"
proof (cases "tm_status (fst x) = TIMER_IDLE")
  case True
  with arm_ok [OF assms(1) _ assms(3), of h] assms(2) show ?thesis by (simp add: timer_sched_def timer_ok_def)
qed (simp add: timer_sched_def)

lemma timer_cancel_ok:
  assumes "ok n (snd x)" and "timer_ok absq x"
  shows "if tm_status (fst x) = TIMER_PENDING
    then \<exists>x'. timer_cancel can x = Inr x' \<and> ok n (snd x') \<and> timer_ok absq x' \<and> tm_status (fst x') = TIMER_IDLE
      \<and> absq (queue (snd x')) = remove1 (tm_event (fst x)) (absq (queue (snd x)))
    else timer_cancel can x = Inl Aborted"
proof (cases "tm_status (fst x) = TIMER_PENDING")
  case True
  with raw_cancel_ok [OF assms(1)] assms(2) show ?thesis
    by (fastforce simp: timer_cancel_def timer_ok_def set_status_def)
qed (simp add: timer_cancel_def)

lemma timer_resched_ok:
  assumes "ok (Suc n) (snd x)" and "timer_ok absq x" and "0 \<le> d"
  shows "\<exists>x'. timer_resched ins can h d x = Inr x' \<and> ok n (snd x') \<and> timer_ok absq x' \<and> tm_status (fst x') = TIMER_PENDING
      \<and> ev_time (tm_event (fst x')) = clock (snd x) + d
      \<and> set (absq (queue (snd x'))) = insert (tm_event (fst x')) (set (absq (queue (snd x)))
          - (if tm_status (fst x) = TIMER_PENDING then {tm_event (fst x)} else {}))"
proof (cases "tm_status (fst x) = TIMER_PENDING")
  case True
  with assms(2) have mem: "tm_event (fst x) \<in> set (absq (queue (snd x)))" by (simp add: timer_ok_def)
  from raw_cancel_ok [OF assms(1) mem] obtain tm s where c: "raw_cancel can x = Inr (tm, s)" "ok (Suc n) s"
    "ev_uid (tm_event tm) < 0" "clock s = clock (snd x)" "absq (queue s) = remove1 (tm_event (fst x)) (absq (queue (snd x)))" by blast
  have "ev_sorted (absq (queue (snd x)))" using invq_sorted assms(1) by (simp add: sched_ok_def)
  then have "set (absq (queue s)) = set (absq (queue (snd x))) - {tm_event (fst x)}"
    by (simp add: c(5) ev_sorted_distinct set_remove1_eq)
  with arm_ok [of n "(tm, s)" d h] c assms(3) True show ?thesis by (simp add: timer_resched_def)
next
  case False
  with arm_ok [OF assms(1) _ assms(3), of h] assms(2) show ?thesis by (simp add: timer_resched_def timer_ok_def)
qed

lemma timer_fire_ok:
  assumes "ok n (snd x)" and "timer_ok absq x" and "tm_status (fst x) = TIMER_PENDING"
    and "absq (queue (snd x)) = tm_event (fst x) # es"
    and expire: "\<And>x1. ok n (snd x1) \<Longrightarrow> tm_status (fst x1) = TIMER_HANDLING \<Longrightarrow> timer_ok absq x1
      \<Longrightarrow> \<exists>x2. expire x1 = Inr x2 \<and> ok m (snd x2) \<and> timer_ok absq x2"
  shows "\<exists>x'. timer_fire deq expire x = Inr x' \<and> ok m (snd x') \<and> timer_ok absq x' \<and> tm_status (fst x') \<noteq> TIMER_HANDLING"
proof -
  have inv: "invq (queue (snd x))" using assms(1) by (simp add: sched_ok_def)
  from deq_next [OF inv assms(4)] obtain q' where q': "deq (queue (snd x)) = Inr (Some (tm_event (fst x), q'))" by blast
  note d = deq_ok [OF assms(1) q']
  have pos: "0 < ev_uid (tm_event (fst x))" using assms(1,4) by (auto simp: sched_ok_def)
  let ?p = "tm_event (fst x)"
  let ?x1 = "((fst x)\<lparr>tm_event := ?p\<lparr>ev_uid := - ev_uid ?p\<rparr>, tm_status := TIMER_HANDLING\<rparr>, (snd x)\<lparr>queue := q', clock := ev_time ?p\<rparr>)"
  from expire [of ?x1] d pos obtain x2 where x2: "expire ?x1 = Inr x2" "ok m (snd x2)" "timer_ok absq x2"
    by (auto simp: timer_ok_def)
  have "timer_fire deq expire x = (if tm_status (fst x2) = TIMER_HANDLING then set_status TIMER_IDLE x2 else Inr x2)"
    using d q' assms(3) x2(1) by (simp add: timer_fire_def timer_handle_def set_status_def)
  with x2 show ?thesis by (cases x2) (auto simp: set_status_def timer_ok_def)
qed

end

section \<open>The protocol of a timer\<close>

text \<open>What a client may do with its timer, and the automaton of the status alone.\<close>

datatype timer_op = OpSched time | OpResched time | OpCancel | OpForceCancel

definition timer_do ::
  "('q \<Rightarrow> 'h event \<Rightarrow> 'q res) \<Rightarrow> ('q \<Rightarrow> 'h event \<Rightarrow> ('q \<times> 'h event) res) \<Rightarrow> 'h \<Rightarrow> timer_op \<Rightarrow> 'h timer \<times> ('h, 'q) sched \<Rightarrow> ('h timer \<times> ('h, 'q) sched) res"
where
  "timer_do ins can h op x =
     (case op of
        OpSched d \<Rightarrow> timer_sched ins h d x
      | OpResched d \<Rightarrow> timer_resched ins can h d x
      | OpCancel \<Rightarrow> timer_cancel can x
      | OpForceCancel \<Rightarrow> timer_force_cancel can x)"

definition status_do :: "timer_op \<Rightarrow> timer_status \<Rightarrow> timer_status res" where
  "status_do op st =
     (case op of
        OpSched d \<Rightarrow> if st \<noteq> TIMER_IDLE then Inl Aborted else Inr TIMER_PENDING
      | OpResched d \<Rightarrow> Inr TIMER_PENDING
      | OpCancel \<Rightarrow> if st \<noteq> TIMER_PENDING then Inl Aborted else Inr TIMER_IDLE
      | OpForceCancel \<Rightarrow> Inr (if st = TIMER_PENDING then TIMER_IDLE else st))"

fun timer_run ::
  "('q \<Rightarrow> 'h event \<Rightarrow> 'q res) \<Rightarrow> ('q \<Rightarrow> 'h event \<Rightarrow> ('q \<times> 'h event) res) \<Rightarrow> 'h \<Rightarrow> timer_op list \<Rightarrow> 'h timer \<times> ('h, 'q) sched \<Rightarrow> ('h timer \<times> ('h, 'q) sched) res"
where
  "timer_run ins can h [] x = Inr x"
| "timer_run ins can h (op # ops) x = bindR (timer_do ins can h op x) (timer_run ins can h ops)"

fun status_run :: "timer_op list \<Rightarrow> timer_status \<Rightarrow> timer_status res" where
  "status_run [] st = Inr st"
| "status_run (op # ops) st = bindR (status_do op st) (status_run ops)"

definition op_ok :: "timer_op \<Rightarrow> bool" where
  "op_ok op = (case op of OpSched d \<Rightarrow> 0 \<le> d | OpResched d \<Rightarrow> 0 \<le> d | _ \<Rightarrow> True)"

context event_queue
begin

lemma timer_do_refines:
  assumes ok: "ok (Suc n) (snd x)" and t: "timer_ok absq x" and d: "op_ok op"
  shows "case status_do op (tm_status (fst x)) of
      Inl e \<Rightarrow> timer_do ins can h op x = Inl e
    | Inr st \<Rightarrow> \<exists>x'. timer_do ins can h op x = Inr x' \<and> ok n (snd x') \<and> timer_ok absq x' \<and> tm_status (fst x') = st"
proof (cases op)
  case (OpSched d)
  with timer_sched_ok [OF ok t, of d h] assms(3) show ?thesis by (auto simp: timer_do_def status_do_def op_ok_def split: if_splits)
next
  case (OpResched d)
  with timer_resched_ok [OF ok t, of d h] assms(3) show ?thesis by (auto simp: timer_do_def status_do_def op_ok_def)
next
  case OpCancel
  have "ok n (snd x)" using ok_mono [OF ok, of n] by simp
  from timer_cancel_ok [OF this t] OpCancel show ?thesis by (auto simp: timer_do_def status_do_def split: if_splits)
next
  case OpForceCancel
  have n: "ok n (snd x)" using ok_mono [OF ok, of n] by simp
  show ?thesis
  proof (cases "tm_status (fst x) = TIMER_PENDING")
    case True
    with timer_cancel_ok [OF n t] OpForceCancel show ?thesis
      by (auto simp: timer_do_def status_do_def timer_force_cancel_def timer_cancel_def)
  next
    case False
    with n t OpForceCancel show ?thesis
      by (intro iffD2 [OF sum.case_eq_if]) (auto simp: timer_do_def status_do_def timer_force_cancel_def)
  qed
qed

lemma timer_run_refines:
  "ok (length ops + n) (snd x) \<Longrightarrow> timer_ok absq x \<Longrightarrow> list_all op_ok ops
   \<Longrightarrow> case status_run ops (tm_status (fst x)) of
      Inl e \<Rightarrow> timer_run ins can h ops x = Inl e
    | Inr st \<Rightarrow> \<exists>x'. timer_run ins can h ops x = Inr x' \<and> ok n (snd x') \<and> timer_ok absq x' \<and> tm_status (fst x') = st"
proof (induction ops arbitrary: x)
  case (Cons op ops)
  from timer_do_refines [of "length ops + n" x op h] Cons.prems
  have r: "case status_do op (tm_status (fst x)) of
      Inl e \<Rightarrow> timer_do ins can h op x = Inl e
    | Inr st \<Rightarrow> \<exists>x'. timer_do ins can h op x = Inr x' \<and> ok (length ops + n) (snd x') \<and> timer_ok absq x' \<and> tm_status (fst x') = st"
    by simp
  show ?case
  proof (cases "status_do op (tm_status (fst x))")
    case (Inl e)
    with r show ?thesis by simp
  next
    case (Inr st)
    with r obtain x' where x': "timer_do ins can h op x = Inr x'" "ok (length ops + n) (snd x')" "timer_ok absq x'"
      "tm_status (fst x') = st" by auto
    from Cons.IH [OF x'(2,3)] Cons.prems(3) Inr x'(1,4) show ?thesis by (cases "status_run ops st") auto
  qed
qed simp

end

text \<open>
  C30: A timer on the calendar scheduler follows the automaton of its status: a sequence of calls
  with delays that are not negative aborts just when the automaton forbids one of them (arming a
  timer that is not idle, cancelling one that is not pending), never because of the scheduler, and
  otherwise ends in the state of the automaton, with the event of the timer in the queue just when
  the timer is pending.
\<close>

theorem timer_automaton:
  assumes "sched_ok cal_inv always_room cal_abs (length ops) s" and "timer_ok cal_abs (tm, s)" and "list_all op_ok ops"
  shows "case status_run ops (tm_status tm) of
      Inl e \<Rightarrow> timer_run cal_insert cal_cancel h ops (tm, s) = Inl e
    | Inr st \<Rightarrow> \<exists>tm' s'. timer_run cal_insert cal_cancel h ops (tm, s) = Inr (tm', s') \<and> tm_status tm' = st
        \<and> (if st = TIMER_PENDING then tm_event tm' \<in> set (cal_events (buckets (queue s'))) else ev_uid (tm_event tm') \<le> 0)"
proof -
  have "cq.ok (length ops + 0) (snd (tm, s))" using assms(1) by simp
  note r = cq.timer_run_refines [OF this assms(2,3), of h]
  show ?thesis
  proof (cases "status_run ops (tm_status tm)")
    case (Inl e)
    with r show ?thesis by simp
  next
    case (Inr st)
    with r obtain tm' s' where "timer_run cal_insert cal_cancel h ops (tm, s) = Inr (tm', s')" "timer_ok cal_abs (tm', s')"
      "tm_status tm' = st" by auto
    with Inr show ?thesis by (auto simp: timer_ok_def split: if_splits)
  qed
qed

theorem timer_automaton_witness:
  "(\<exists>tm' s'. timer_run cal_insert cal_cancel 7 [OpSched 1, OpResched 2] (timer_new 7, demo_calendar) = Inr (tm', s')
      \<and> tm_event tm' \<in> set (cal_events (buckets (queue s'))))
   \<and> timer_run cal_insert cal_cancel 7 [OpSched 1, OpCancel, OpCancel] (timer_new 7, demo_calendar) = Inl Aborted"
proof -
  have ok: "sched_ok cal_inv always_room cal_abs n demo_calendar" if "n \<le> 10" for n
    by (rule cq.ok_mono [OF demo_calendar_ok that])
  have t: "timer_ok cal_abs (timer_new 7, demo_calendar)" by (rule timer_new_ok)
  show ?thesis
    using timer_automaton [OF ok t, of "[OpSched 1, OpResched 2]" 7] timer_automaton [OF ok t, of "[OpSched 1, OpCancel, OpCancel]" 7]
    by (simp add: op_ok_def status_do_def timer_new_def) blast
qed

end
