(* ===== verification/TcpDelAck.thy ===== *)
theory TcpDelAck
  imports TcpSink NsTimer
begin

text \<open>
  Class \<open>DelAckSink\<close> of \<open>tcp/tcp-sink.cc\<close>: the ACK of a segment in sequence waits for the next
  segment or for a timer. The sink is modelled with its timer and the scheduler, whose queue holds
  the segments on their way and the event of the timer.
\<close>

section \<open>The sink\<close>

type_synonym ('h, 'q) delack = "tcp_sink \<times> 'h timer \<times> ('h, 'q) sched"

text \<open>Whether the ACK of the segment is to wait; \<open>recv\<close> asks after the segment has entered the window.\<close>

definition delack_waits :: "tcp_packet \<Rightarrow> tcp_sink \<Rightarrow> timer_status \<Rightarrow> bool" where
  "delack_waits p k st \<longleftrightarrow>
     st \<noteq> TIMER_PENDING \<and> th_seqno (body p) = Seqno (acker_of (k_acker k))
     \<and> \<not> (RFC2581_immediate_ack k \<and> th_seqno (body p) < maxseen (acker_of (k_acker k)))"

text \<open>\<open>h\<close> is the handler of the timer.\<close>

definition delack_recv ::
  "('q \<Rightarrow> 'h event \<Rightarrow> 'q res) \<Rightarrow> ('q \<Rightarrow> 'h event \<Rightarrow> ('q \<times> 'h event) res) \<Rightarrow> 'h \<Rightarrow> tcp_packet \<Rightarrow> ('h, 'q) delack
   \<Rightarrow> (sink_act list \<times> ('h, 'q) delack) res"
where
  "delack_recv ins can h p = (\<lambda>(k, x).
     if th_ts (body p) < lastreset k then Inr ([FreePkt p], k, x)
     else bindR (sink_accept p k) (\<lambda>(as, k1).
            if delack_waits p k1 (tm_status (fst x)) then
              bindR (timer_resched ins can h (ack_interval k1) x) (\<lambda>x1. Inr (as, k1\<lparr>save_pkt := Some p\<rparr>, x1))
            else
              bindR (if tm_status (fst x) = TIMER_PENDING then timer_cancel can x else Inr x) (\<lambda>x1.
                bindR (sink_ack (clock (snd x1)) p k1) (\<lambda>(npkt, k2).
                  Inr (as @ SendAck npkt # (case save_pkt k2 of None \<Rightarrow> [] | Some q \<Rightarrow> [FreePkt q]) @ [FreePkt p],
                       k2\<lparr>save_pkt := None\<rparr>, x1)))))"

definition delack_timeout :: "time \<Rightarrow> tcp_sink \<Rightarrow> (sink_act list \<times> tcp_sink) res" where
  "delack_timeout now k =
     (case save_pkt k of
        None \<Rightarrow> Inr ([], k)
      | Some p \<Rightarrow> bindR (sink_ack now p k) (\<lambda>(npkt, k1). Inr ([SendAck npkt, FreePkt p], k1\<lparr>save_pkt := None\<rparr>)))"

text \<open>
  The timer expires: \<open>DelayTimer::expire\<close> calls \<open>timeout\<close>, which leaves the timer alone, so the
  order in which the two parts of the state change does not matter.
\<close>

definition delack_expire ::
  "('q \<Rightarrow> ('h event \<times> 'q) option res) \<Rightarrow> ('h, 'q) delack \<Rightarrow> (sink_act list \<times> ('h, 'q) delack) res"
where
  "delack_expire deq = (\<lambda>(k, x).
     bindR (timer_fire deq Inr x) (\<lambda>x1.
       bindR (delack_timeout (clock (snd x1)) k) (\<lambda>(as, k1). Inr (as, k1, x1))))"

definition delack_reset ::
  "('q \<Rightarrow> 'h event \<Rightarrow> ('q \<times> 'h event) res) \<Rightarrow> ('h, 'q) delack \<Rightarrow> ('h, 'q) delack res"
where
  "delack_reset can = (\<lambda>(k, x).
     bindR (if tm_status (fst x) = TIMER_PENDING then timer_cancel can x else Inr x)
       (\<lambda>x1. Inr (sink_reset (clock (snd x1)) k, x1)))"

text \<open>
  The scheduler dispatches the next event: a segment, when its handler is that of a \<open>link\<close>, or the
  timer. \<open>None\<close> when the queue is empty.
\<close>

definition delack_step ::
  "('q \<Rightarrow> 'h event \<Rightarrow> 'q res) \<Rightarrow> ('q \<Rightarrow> 'h event \<Rightarrow> ('q \<times> 'h event) res) \<Rightarrow> ('q \<Rightarrow> ('h event \<times> 'q) option res)
   \<Rightarrow> ('h \<Rightarrow> tcp_packet option) \<Rightarrow> 'h \<Rightarrow> ('h, 'q) delack \<Rightarrow> (sink_act list \<times> ('h, 'q) delack) option res"
where
  "delack_step ins can deq link h = (\<lambda>(k, tm, s).
     bindR (deq (queue s)) (\<lambda>r.
       case r of
         None \<Rightarrow> Inr None
       | Some (e, q') \<Rightarrow>
           if ev_time e < clock s then Inl Aborted
           else bindR (case link (ev_handler e) of
                         Some p \<Rightarrow> delack_recv ins can h p (k, tm, s\<lparr>queue := q', clock := ev_time e\<rparr>)
                       | None \<Rightarrow> delack_expire deq (k, tm, s))
                  (\<lambda>x. Inr (Some x))))"

fun delack_run ::
  "('q \<Rightarrow> 'h event \<Rightarrow> 'q res) \<Rightarrow> ('q \<Rightarrow> 'h event \<Rightarrow> ('q \<times> 'h event) res) \<Rightarrow> ('q \<Rightarrow> ('h event \<times> 'q) option res)
   \<Rightarrow> ('h \<Rightarrow> tcp_packet option) \<Rightarrow> 'h \<Rightarrow> nat \<Rightarrow> ('h, 'q) delack \<Rightarrow> (sink_act list \<times> ('h, 'q) delack) res option"
where
  "delack_run ins can deq link h n x =
     (case delack_step ins can deq link h x of
        Inl er \<Rightarrow> Some (Inl er)
      | Inr None \<Rightarrow> Some (Inr ([], x))
      | Inr (Some (as, x1)) \<Rightarrow>
          (case n of
             0 \<Rightarrow> None
           | Suc m \<Rightarrow> map_option (\<lambda>r. bindR r (\<lambda>(bs, x2). Inr (as @ bs, x2))) (delack_run ins can deq link h m x1)))"

declare delack_run.simps [simp del]

section \<open>The invariant\<close>

text \<open>The segments on their way.\<close>

definition in_flight :: "('h \<Rightarrow> tcp_packet option) \<Rightarrow> 'h event list \<Rightarrow> tcp_packet list" where
  "in_flight link es = List.map_filter (\<lambda>e. link (ev_handler e)) es"

text \<open>
  An ACK may wait when its segment is the last before the first one missing and, with RFC 2581,
  nothing beyond it has arrived; \<open>S\<close> are the segments that have.
\<close>

definition may_wait :: "bool \<Rightarrow> int set \<Rightarrow> tcp_packet \<Rightarrow> bool" where
  "may_wait rfc S p \<longleftrightarrow>
     {0..th_seqno (body p)} \<subseteq> S \<and> th_seqno (body p) + 1 \<notin> S \<and> (rfc \<longrightarrow> (\<forall>i \<in> S. i \<le> th_seqno (body p)))"

text \<open>
  The timer is pending just when a packet is saved; its event is the only one in the queue that is
  not a segment; when no packet is saved the last ACK is up to date.
\<close>

definition sink_idle_ok :: "int set \<Rightarrow> tcp_sink \<Rightarrow> bool" where
  "sink_idle_ok S k \<longleftrightarrow>
     (case save_pkt k of
        None \<Rightarrow> S \<noteq> {} \<longrightarrow> last_ack_sent (acker_of (k_acker k)) = Seqno (acker_of (k_acker k))
      | Some p \<Rightarrow> th_seqno (body p) \<in> S \<and> may_wait (RFC2581_immediate_ack k) S p)"

definition delack_inv ::
  "('q \<Rightarrow> 'h event list) \<Rightarrow> ('h \<Rightarrow> tcp_packet option) \<Rightarrow> 'h \<Rightarrow> int set \<Rightarrow> (int \<Rightarrow> int) \<Rightarrow> ('h, 'q) delack \<Rightarrow> bool"
where
  "delack_inv absq link h S sz = (\<lambda>(k, tm, s).
     timer_ok absq (tm, s) \<and> tm_status tm \<noteq> TIMER_HANDLING \<and> (save_pkt k \<noteq> None \<longleftrightarrow> tm_status tm = TIMER_PENDING)
     \<and> (tm_status tm = TIMER_PENDING \<longrightarrow> ev_handler (tm_event tm) = h)
     \<and> receiver_ok S sz (k_acker k) \<and> sink_idle_ok S k \<and> 0 \<le> ack_interval k
     \<and> (\<forall>e \<in> set (absq (queue s)). link (ev_handler e) = None \<longrightarrow> tm_status tm = TIMER_PENDING \<and> e = tm_event tm)
     \<and> (\<forall>p \<in> set (in_flight link (absq (queue s))). packet_ok sz p \<and> lastreset k \<le> th_ts (body p)))"

lemma delack_invI:
  assumes "timer_ok absq (tm, s)" "tm_status tm \<noteq> TIMER_HANDLING" "save_pkt k \<noteq> None \<longleftrightarrow> tm_status tm = TIMER_PENDING"
    and "tm_status tm = TIMER_PENDING \<Longrightarrow> ev_handler (tm_event tm) = h"
    and "receiver_ok S sz (k_acker k)" "sink_idle_ok S k" "0 \<le> ack_interval k"
    and "\<And>e. e \<in> set (absq (queue s)) \<Longrightarrow> link (ev_handler e) = None \<Longrightarrow> tm_status tm = TIMER_PENDING \<and> e = tm_event tm"
    and "\<And>p. p \<in> set (in_flight link (absq (queue s))) \<Longrightarrow> packet_ok sz p \<and> lastreset k \<le> th_ts (body p)"
  shows "delack_inv absq link h S sz (k, tm, s)"
  using assms by (simp add: delack_inv_def)

lemma delack_invD:
  assumes "delack_inv absq link h S sz (k, tm, s)"
  shows "timer_ok absq (tm, s)" "tm_status tm \<noteq> TIMER_HANDLING" "save_pkt k \<noteq> None \<longleftrightarrow> tm_status tm = TIMER_PENDING"
    and "tm_status tm = TIMER_PENDING \<Longrightarrow> ev_handler (tm_event tm) = h"
    and "receiver_ok S sz (k_acker k)" "sink_idle_ok S k" "0 \<le> ack_interval k"
    and "e \<in> set (absq (queue s)) \<Longrightarrow> link (ev_handler e) = None \<Longrightarrow> tm_status tm = TIMER_PENDING \<and> e = tm_event tm"
    and "p \<in> set (in_flight link (absq (queue s))) \<Longrightarrow> packet_ok sz p \<and> lastreset k \<le> th_ts (body p)"
  using assms by (simp_all add: delack_inv_def)

lemma in_flight_simps [simp]:
  "in_flight link [] = []"
  "in_flight link (e # es) = (case link (ev_handler e) of None \<Rightarrow> in_flight link es | Some p \<Rightarrow> p # in_flight link es)"
  by (simp_all add: in_flight_def List.map_filter_simps split: option.splits)

lemma in_flight_filter: "in_flight link es = in_flight link (filter (\<lambda>e. link (ev_handler e) \<noteq> None) es)"
  by (induction es) (auto split: option.splits)

lemma length_in_flight: "\<forall>e \<in> set es. link (ev_handler e) \<noteq> None \<Longrightarrow> length (in_flight link es) = length es"
  by (induction es) auto

text \<open>An event of the timer enters or leaves the queue: the segments on their way are the same.\<close>

lemma in_flight_same:
  assumes "ev_sorted xs" and "ev_sorted ys" and "\<forall>e. link (ev_handler e) \<noteq> None \<longrightarrow> (e \<in> set xs \<longleftrightarrow> e \<in> set ys)"
  shows "in_flight link xs = in_flight link ys"
proof -
  let ?P = "\<lambda>e. link (ev_handler e) \<noteq> None"
  have "ev_sorted (filter ?P xs)" "ev_sorted (filter ?P ys)"
    using assms(1,2) unfolding ev_sorted_def by (simp_all add: sorted_wrt_filter)
  moreover have "set (filter ?P xs) = set (filter ?P ys)" using assms(3) by auto
  ultimately have "filter ?P xs = filter ?P ys" by (rule ev_sorted_unique)
  then show ?thesis using in_flight_filter by metis
qed

lemma timer_resched_handler:
  "timer_resched ins can h d x = Inr x' \<Longrightarrow> ev_handler (tm_event (fst x')) = h"
  by (auto simp: timer_resched_def bindR_eq_Inr raw_sched_def set_status_def)

text \<open>The packet whose ACK waits.\<close>

definition waiting :: "tcp_sink \<Rightarrow> tcp_packet list" where
  "waiting k = (case save_pkt k of None \<Rightarrow> [] | Some p \<Rightarrow> [p])"

definition segments :: "tcp_packet list \<Rightarrow> int set" where
  "segments ps = (\<lambda>p. th_seqno (body p)) ` set ps"

lemma segments_simps [simp]:
  "segments [] = {}" "segments (p # ps) = insert (th_seqno (body p)) (segments ps)" "segments (ps @ qs) = segments ps \<union> segments qs"
  by (auto simp: segments_def)

text \<open>The ACKs, each with the segments it answers: those freed before the next ACK.\<close>

fun is_ack :: "sink_act \<Rightarrow> bool" where
  "is_ack (SendAck q) = True"
| "is_ack a = False"

definition early :: "sink_act list \<Rightarrow> tcp_packet list" where
  "early as = freed (takeWhile (\<lambda>a. \<not> is_ack a) as)"

fun answers :: "sink_act list \<Rightarrow> (tcp_packet \<times> tcp_packet list) list" where
  "answers [] = []"
| "answers (a # as) = (case a of SendAck q \<Rightarrow> (q, early as) # answers as | _ \<Rightarrow> answers as)"

text \<open>
  An ACK answers one segment or two, the first of which could wait; it tells what has arrived. \<open>U\<close>
  are the segments answered before.
\<close>

definition answer_ok :: "bool \<Rightarrow> int set \<Rightarrow> tcp_packet \<Rightarrow> tcp_packet list \<Rightarrow> bool" where
  "answer_ok rfc U q F \<longleftrightarrow>
     ack_ok (U \<union> segments F) q
     \<and> (length F = 1 \<or> length F = 2 \<and> may_wait rfc (insert (th_seqno (body (hd F))) U) (hd F))"

fun answers_ok :: "bool \<Rightarrow> int set \<Rightarrow> (tcp_packet \<times> tcp_packet list) list \<Rightarrow> bool" where
  "answers_ok rfc U [] \<longleftrightarrow> True"
| "answers_ok rfc U ((q, F) # xs) \<longleftrightarrow> answer_ok rfc U q F \<and> answers_ok rfc (U \<union> segments F) xs"

lemma early_simps [simp]:
  "early [] = []" "early (SendAck q # as) = []" "early (RecvBytes n # as) = early as" "early (FreePkt p # as) = p # early as"
  by (simp_all add: early_def)

lemma answers_quiet:
  assumes "acks as = []" "freed as = []"
  shows "answers (as @ bs) = answers bs \<and> early (as @ bs) = early bs"
  using assms by (induction as) (auto split: sink_act.splits)

lemma answers_freed [simp]:
  "answers (map FreePkt F @ bs) = answers bs" "early (map FreePkt F @ bs) = F @ early bs" "freed (map FreePkt F) = F" "acks (map FreePkt F) = []"
  "delivered (map FreePkt F) = 0"
  by (induction F) auto

text \<open>A sink that has acknowledged all it has received.\<close>

definition acked :: "int set \<Rightarrow> (int \<Rightarrow> int) \<Rightarrow> tcp_sink \<Rightarrow> tcp_sink \<Rightarrow> bool" where
  "acked S sz k k' \<longleftrightarrow>
     receiver_ok S sz (k_acker k') \<and> save_pkt k' = None \<and> ack_interval k' = ack_interval k \<and> lastreset k' = lastreset k
     \<and> RFC2581_immediate_ack k' = RFC2581_immediate_ack k
     \<and> last_ack_sent (acker_of (k_acker k')) = Seqno (acker_of (k_acker k'))"

text \<open>
  What a step of the sink does: nothing is sent and the segments wait, or one ACK answers all that
  wait. \<open>U\<close> are the segments answered before, \<open>ps\<close> those that arrive.
\<close>

definition outcome :: "int set \<Rightarrow> (int \<Rightarrow> int) \<Rightarrow> tcp_packet list \<Rightarrow> tcp_sink \<Rightarrow> sink_act list \<Rightarrow> tcp_sink \<Rightarrow> bool" where
  "outcome U sz ps k as k' \<longleftrightarrow>
     (\<exists>as0 as1. as = as0 @ as1 \<and> acks as0 = [] \<and> freed as0 = []
       \<and> (as1 = [] \<and> waiting k' = waiting k @ ps
          \<or> (\<exists>q. as1 = SendAck q # map FreePkt (waiting k @ ps) \<and> answer_ok (RFC2581_immediate_ack k) U q (waiting k @ ps) \<and> waiting k' = [])))
     \<and> nxt (acker_of (k_acker k)) \<le> nxt (acker_of (k_acker k'))
     \<and> delivered as = (\<Sum>i\<in>{nxt (acker_of (k_acker k))..<nxt (acker_of (k_acker k'))}. sz i)
     \<and> lastreset k' = lastreset k \<and> RFC2581_immediate_ack k' = RFC2581_immediate_ack k"

text \<open>What any number of steps does: the segments are answered in order of arrival.\<close>

definition outcomes :: "int set \<Rightarrow> (int \<Rightarrow> int) \<Rightarrow> tcp_packet list \<Rightarrow> tcp_sink \<Rightarrow> sink_act list \<Rightarrow> tcp_sink \<Rightarrow> bool" where
  "outcomes U sz ps k as k' \<longleftrightarrow>
     early as = [] \<and> answers_ok (RFC2581_immediate_ack k) U (answers as) \<and> concat (map snd (answers as)) = freed as
     \<and> freed as @ waiting k' = waiting k @ ps
     \<and> nxt (acker_of (k_acker k)) \<le> nxt (acker_of (k_acker k'))
     \<and> delivered as = (\<Sum>i\<in>{nxt (acker_of (k_acker k))..<nxt (acker_of (k_acker k'))}. sz i)"

lemma outcomes_Nil: "outcomes U sz [] k [] k"
  by (simp add: outcomes_def)

lemma sum_upto_add:
  assumes "(l :: int) \<le> m" and "m \<le> n"
  shows "(\<Sum>i\<in>{l..<n}. f i) = (\<Sum>i\<in>{l..<m}. f i) + (\<Sum>i\<in>{m..<n}. f i)"
proof -
  have "{l..<n} = {l..<m} \<union> {m..<n}" using assms by auto
  then show ?thesis by (subst sum.union_disjoint [symmetric]) auto
qed

lemma outcomes_step:
  assumes o: "outcome U sz xs k as k1" and os: "outcomes (U \<union> segments (freed as)) sz ys k1 bs k2"
  shows "outcomes U sz (xs @ ys) k (as @ bs) k2"
proof -
  from o obtain as0 as1 where a: "as = as0 @ as1" "acks as0 = []" "freed as0 = []"
    "as1 = [] \<and> waiting k1 = waiting k @ xs
      \<or> (\<exists>q. as1 = SendAck q # map FreePkt (waiting k @ xs) \<and> answer_ok (RFC2581_immediate_ack k) U q (waiting k @ xs) \<and> waiting k1 = [])"
    by (auto simp: outcome_def)
  have r: "RFC2581_immediate_ack k1 = RFC2581_immediate_ack k" using o by (simp add: outcome_def)
  have qt: "answers (as0 @ zs) = answers zs" "early (as0 @ zs) = early zs" for zs using answers_quiet [OF a(2,3)] by simp_all
  have d: "delivered (as @ bs) = (\<Sum>i\<in>{nxt (acker_of (k_acker k))..<nxt (acker_of (k_acker k2))}. sz i)"
    using o os sum_upto_add [of "nxt (acker_of (k_acker k))" "nxt (acker_of (k_acker k1))" "nxt (acker_of (k_acker k2))" sz]
    by (simp add: outcome_def outcomes_def)
  have n: "nxt (acker_of (k_acker k)) \<le> nxt (acker_of (k_acker k2))" using o os by (simp add: outcome_def outcomes_def)
  from a(4) show ?thesis
  proof (elim disjE exE conjE)
    assume w: "as1 = []" "waiting k1 = waiting k @ xs"
    with a(1,3) os r d n qt show ?thesis by (simp add: outcomes_def)
  next
    fix q assume w: "as1 = SendAck q # map FreePkt (waiting k @ xs)" "answer_ok (RFC2581_immediate_ack k) U q (waiting k @ xs)" "waiting k1 = []"
    have f: "freed as = waiting k @ xs" using a(1,3) w(1) by simp
    have "early bs = []" using os by (simp add: outcomes_def)
    with w(1) have an: "answers (as @ bs) = (q, waiting k @ xs) # answers bs" "early (as @ bs) = []"
      unfolding a(1) append_assoc qt by (simp_all del: map_append)
    from os f r w(2,3) an d n show ?thesis by (simp add: outcomes_def)
  qed
qed

context event_queue
begin

lemma timer_fire_quiet:
  assumes "ok n s" and "tm_status tm = TIMER_PENDING" and "deq (queue s) = Inr (Some (tm_event tm, q'))"
  shows "\<exists>e. timer_fire deq Inr (tm, s) = Inr (\<lparr>tm_status = TIMER_IDLE, tm_event = e\<rparr>, s\<lparr>queue := q', clock := ev_time (tm_event tm)\<rparr>)
    \<and> ev_uid e \<le> 0"
proof -
  note d = deq_ok [OF assms(1,3)]
  moreover have "0 < ev_uid (tm_event tm)" using assms(1) d by (auto simp: sched_ok_def)
  ultimately show ?thesis using assms(2,3)
    by (cases tm) (simp add: timer_fire_def timer_handle_def set_status_def)
qed


lemma ok_absq_sorted: "ok n s \<Longrightarrow> ev_sorted (absq (queue s))"
  using invq_sorted by (simp add: sched_ok_def)

lemma delack_recv_waits:
  assumes ok: "ok (Suc n) s" and inv: "delack_inv absq link h S sz (k, tm, s)" and h: "link h = None"
    and idle: "tm_status tm \<noteq> TIMER_PENDING"
    and k': "receiver_ok S' sz (k_acker k')" "save_pkt k' = Some p" "th_seqno (body p) \<in> S'" "ack_interval k' = ack_interval k"
      "lastreset k' = lastreset k" "may_wait (RFC2581_immediate_ack k') S' p"
  shows "\<exists>tm' s'. timer_resched ins can h (ack_interval k) (tm, s) = Inr (tm', s') \<and> ok n s'
    \<and> delack_inv absq link h S' sz (k', tm', s') \<and> in_flight link (absq (queue s')) = in_flight link (absq (queue s))"
proof -
  have t: "timer_ok absq (tm, s)" "0 \<le> ack_interval k" using inv by (auto simp: delack_inv_def)
  from timer_resched_ok [of n "(tm, s)" "ack_interval k" h] ok t idle obtain tm' s' where r:
    "timer_resched ins can h (ack_interval k) (tm, s) = Inr (tm', s')" "ok n s'" "timer_ok absq (tm', s')" "tm_status tm' = TIMER_PENDING"
    "set (absq (queue s')) = insert (tm_event tm') (set (absq (queue s)))" by auto
  have e: "ev_handler (tm_event tm') = h" using timer_resched_handler [OF r(1)] by simp
  have same: "in_flight link (absq (queue s')) = in_flight link (absq (queue s))"
    by (rule in_flight_same [OF ok_absq_sorted [OF r(2)] ok_absq_sorted [OF ok]]) (use r(5) e h in auto)
  note D = delack_invD [OF inv]
  have "delack_inv absq link h S' sz (k', tm', s')"
  proof (rule delack_invI)
    fix x assume "x \<in> set (absq (queue s'))" "link (ev_handler x) = None"
    with r(4,5) D(8) [of x] idle show "tm_status tm' = TIMER_PENDING \<and> x = tm_event tm'" by auto
  qed (use D(7,9) r(3,4) e k' same in \<open>simp_all add: sink_idle_ok_def\<close>)
  with r same show ?thesis by blast
qed

lemma delack_recv_quiet:
  assumes ok: "ok n s" and inv: "delack_inv absq link h S sz (k, tm, s)" and h: "link h = None"
  obtains tm' s' where "(if tm_status tm = TIMER_PENDING then timer_cancel can (tm, s) else Inr (tm, s)) = Inr (tm', s')" "ok n s'"
    "in_flight link (absq (queue s')) = in_flight link (absq (queue s))"
    "\<And>k' S'. acked S' sz k k' \<Longrightarrow> delack_inv absq link h S' sz (k', tm', s')"
proof (cases "tm_status tm = TIMER_PENDING")
  note D = delack_invD [OF inv]
  case True
  from timer_cancel_ok [of n "(tm, s)"] ok D(1) True obtain tm' s' where r: "timer_cancel can (tm, s) = Inr (tm', s')" "ok n s'"
    "timer_ok absq (tm', s')" "tm_status tm' = TIMER_IDLE" "absq (queue s') = remove1 (tm_event tm) (absq (queue s))" by auto
  have st: "set (absq (queue s')) = set (absq (queue s)) - {tm_event tm}"
    using r(5) ev_sorted_distinct [OF ok_absq_sorted [OF ok]] by (simp add: set_remove1_eq)
  have same: "in_flight link (absq (queue s')) = in_flight link (absq (queue s))"
  proof (rule in_flight_same [OF ok_absq_sorted [OF r(2)] ok_absq_sorted [OF ok]], intro allI impI)
    fix x :: "'h event" assume "link (ev_handler x) \<noteq> None"
    with D(4) [OF True] h have "x \<noteq> tm_event tm" by metis
    with st show "x \<in> set (absq (queue s')) \<longleftrightarrow> x \<in> set (absq (queue s))" by simp
  qed
  have "delack_inv absq link h S' sz (k', tm', s')" if k': "acked S' sz k k'" for k' S'
  proof (rule delack_invI)
    fix x assume "x \<in> set (absq (queue s'))" "link (ev_handler x) = None"
    with st D(8) [of x] show "tm_status tm' = TIMER_PENDING \<and> x = tm_event tm'" by auto
  qed (use D(7,9) r(3,4) k' same in \<open>simp_all add: sink_idle_ok_def acked_def\<close>)
  with r True same that show ?thesis by auto
next
  note D = delack_invD [OF inv]
  case False
  have "delack_inv absq link h S' sz (k', tm, s)" if k': "acked S' sz k k'" for k' S'
  proof (rule delack_invI)
    fix e assume "e \<in> set (absq (queue s))" "link (ev_handler e) = None"
    from D(8) [OF this] show "tm_status tm = TIMER_PENDING \<and> e = tm_event tm" .
  qed (use D(1,2,7,9) k' False in \<open>simp_all add: sink_idle_ok_def acked_def\<close>)
  with ok False that show ?thesis by auto
qed

lemma sink_ack_acked:
  assumes "receiver_ok S sz (k_acker k)" and "th_seqno (body p) \<in> S"
  obtains npkt k' where "sink_ack now p k = Inr (npkt, k')" "ack_ok S npkt" "acked S sz k (k'\<lparr>save_pkt := None\<rparr>)"
    "save_pkt k' = save_pkt k" "nxt (acker_of (k_acker k')) = nxt (acker_of (k_acker k))"
proof -
  from sink_ack_ok [OF assms, of now] obtain npkt k' c where g: "sink_ack now p k = Inr (npkt, k')" "receiver_ok S sz (k_acker k')"
    "ack_ok S npkt" "nxt (acker_of (k_acker k')) = nxt (acker_of (k_acker k))"
    "last_ack_sent (acker_of (k_acker k')) = Seqno (acker_of (k_acker k'))" "k' = k\<lparr>k_acker := k_acker k', uidcnt := c\<rparr>" by auto
  have "save_pkt k' = save_pkt k" "lastreset k' = lastreset k" "ack_interval k' = ack_interval k"
    "RFC2581_immediate_ack k' = RFC2581_immediate_ack k" by (subst g(6), simp)+
  with g that show ?thesis by (simp add: acked_def)
qed

lemma waits_may_wait:
  assumes "delack_waits p k st" "receiver_ok S sz (k_acker k)"
  shows "may_wait (RFC2581_immediate_ack k) S p"
proof -
  let ?a = "acker_of (k_acker k)"
  have f: "follows ?a S sz" using receiver_ok_follows [OF assms(2)] by blast
  have w: "th_seqno (body p) = Seqno ?a" "RFC2581_immediate_ack k \<Longrightarrow> maxseen ?a \<le> th_seqno (body p)"
    using assms(1) by (auto simp: delack_waits_def)
  have "\<forall>i \<in> S. i \<le> maxseen ?a" using f by (simp add: follows_def)
  with w follows_acked [OF f] show ?thesis by (fastforce simp: may_wait_def)
qed

lemma delack_recv_ok:
  assumes ok: "ok (Suc n) s" and inv: "delack_inv absq link h S sz (k, tm, s)" and h: "link h = None"
    and p: "packet_ok sz p" "lastreset k \<le> th_ts (body p)" and U: "S = U \<union> segments (waiting k)"
  shows "\<exists>as k' tm' s'. delack_recv ins can h p (k, tm, s) = Inr (as, k', tm', s') \<and> ok n s'
    \<and> delack_inv absq link h (insert (th_seqno (body p)) S) sz (k', tm', s') \<and> in_flight link (absq (queue s')) = in_flight link (absq (queue s))
    \<and> outcome U sz [p] k as k' \<and> insert (th_seqno (body p)) S = U \<union> segments (freed as) \<union> segments (waiting k')"
proof -
  let ?S = "insert (th_seqno (body p)) S"
  note D = delack_invD [OF inv]
  from sink_accept_ok [OF D(5) p(1)] obtain as k1 b where a: "sink_accept p k = Inr (as, k1)" "receiver_ok ?S sz (k_acker k1)"
    "k1 = k\<lparr>k_acker := k_acker k1, k_bytes := b\<rparr>" "nxt (acker_of (k_acker k)) \<le> nxt (acker_of (k_acker k1))"
    "as = (let n = (\<Sum>i\<in>{nxt (acker_of (k_acker k))..<nxt (acker_of (k_acker k1))}. sz i) in if n \<noteq> 0 then [RecvBytes n] else [])"
    by auto
  have k1: "save_pkt k1 = save_pkt k" "lastreset k1 = lastreset k" "ack_interval k1 = ack_interval k"
    "RFC2581_immediate_ack k1 = RFC2581_immediate_ack k" by (subst a(3), simp)+
  have as: "acks as = []" "freed as = []" "delivered as = (\<Sum>i\<in>{nxt (acker_of (k_acker k))..<nxt (acker_of (k_acker k1))}. sz i)"
    unfolding a(5) by (auto simp: Let_def)
  have old: "\<not> th_ts (body p) < lastreset k" using p(2) by simp
  show ?thesis
  proof (cases "delack_waits p k1 (tm_status tm)")
    case True
    then have idle: "tm_status tm \<noteq> TIMER_PENDING" by (simp add: delack_waits_def)
    let ?k = "k1\<lparr>save_pkt := Some p\<rparr>"
    from delack_recv_waits [OF ok inv h idle, of ?S ?k p] a(2) k1 waits_may_wait [OF True a(2)] obtain tm' s' where r:
      "timer_resched ins can h (ack_interval k1) (tm, s) = Inr (tm', s')" "ok n s'" "delack_inv absq link h ?S sz (?k, tm', s')"
      "in_flight link (absq (queue s')) = in_flight link (absq (queue s))" by auto
    have "delack_recv ins can h p (k, tm, s) = Inr (as, ?k, tm', s')" using old True a(1) r(1) by (simp add: delack_recv_def)
    moreover have w: "waiting k = []" "waiting ?k = [p]" using D(3) idle by (simp_all add: waiting_def)
    moreover have "outcome U sz [p] k as ?k"
      unfolding outcome_def by (intro conjI exI [of _ as] exI [of _ "[]"]) (use as a(4) k1 w in simp_all)
    moreover have "?S = U \<union> segments (freed as) \<union> segments (waiting ?k)" using U w as by simp
    ultimately show ?thesis using r(2-4) by blast
  next
    case False
    from delack_recv_quiet [OF ok inv h] obtain tm' s' where r:
      "(if tm_status tm = TIMER_PENDING then timer_cancel can (tm, s) else Inr (tm, s)) = Inr (tm', s')" "ok (Suc n) s'"
      "in_flight link (absq (queue s')) = in_flight link (absq (queue s))"
      "\<And>k' S'. acked S' sz k k' \<Longrightarrow> delack_inv absq link h S' sz (k', tm', s')" by blast
    from sink_ack_acked [OF a(2), of p "clock s'"] obtain npkt k2 where g: "sink_ack (clock s') p k1 = Inr (npkt, k2)" "ack_ok ?S npkt"
      "acked ?S sz k1 (k2\<lparr>save_pkt := None\<rparr>)" "save_pkt k2 = save_pkt k1" "nxt (acker_of (k_acker k2)) = nxt (acker_of (k_acker k1))" by auto
    let ?as = "as @ SendAck npkt # (case save_pkt k2 of None \<Rightarrow> [] | Some q \<Rightarrow> [FreePkt q]) @ [FreePkt p]"
    have k: "acked ?S sz k (k2\<lparr>save_pkt := None\<rparr>)" using g(3) k1 by (simp add: acked_def)
    have eq: "delack_recv ins can h p (k, tm, s) = Inr (?as, k2\<lparr>save_pkt := None\<rparr>, tm', s')"
      using old False a(1) r(1) g(1) by (simp add: delack_recv_def)
    have sv: "save_pkt k2 = save_pkt k" using g(4) k1 by simp
    have shape: "?as = as @ SendAck npkt # map FreePkt (waiting k @ [p])" unfolding sv by (simp add: waiting_def split: option.splits)
    have w: "waiting (k2\<lparr>save_pkt := None\<rparr>) = []" by (simp add: waiting_def)
    have S: "?S = U \<union> segments (waiting k @ [p])" using U by auto
    have "answer_ok (RFC2581_immediate_ack k) U npkt (waiting k @ [p])"
    proof (cases "save_pkt k")
      case (Some w)
      with D(6) have "may_wait (RFC2581_immediate_ack k) S w" by (simp add: sink_idle_ok_def)
      with Some U g(2) show ?thesis by (simp add: answer_ok_def waiting_def insert_commute)
    qed (use g(2) U in \<open>simp add: answer_ok_def waiting_def\<close>)
    then have "outcome U sz [p] k ?as (k2\<lparr>save_pkt := None\<rparr>)"
      unfolding outcome_def shape
      by (intro conjI exI [of _ as] exI [of _ "SendAck npkt # map FreePkt (waiting k @ [p])"]) (use as g(5) k a(4) w in \<open>simp_all add: acked_def\<close>)
    moreover have "?S = U \<union> segments (freed ?as) \<union> segments (waiting (k2\<lparr>save_pkt := None\<rparr>))"
      unfolding shape S using as(2) w by simp
    ultimately show ?thesis using eq ok_mono [OF r(2), of n] r(3) r(4) [OF k] by fastforce
  qed
qed


lemma delack_expire_ok:
  assumes ok: "ok n s" and inv: "delack_inv absq link h S sz (k, tm, s)" and h: "link h = None"
    and deq: "deq (queue s) = Inr (Some (tm_event tm, q'))" and pend: "tm_status tm = TIMER_PENDING" and U: "S = U \<union> segments (waiting k)"
  shows "\<exists>as k' tm' s'. delack_expire deq (k, tm, s) = Inr (as, k', tm', s') \<and> ok n s' \<and> absq (queue s') = absq q'
    \<and> delack_inv absq link h S sz (k', tm', s') \<and> tm_status tm' = TIMER_IDLE \<and> outcome U sz [] k as k'
    \<and> S = U \<union> segments (freed as) \<union> segments (waiting k')"
proof -
  note D = delack_invD [OF inv]
  note d = deq_ok [OF ok deq]
  let ?s = "s\<lparr>queue := q', clock := ev_time (tm_event tm)\<rparr>"
  from timer_fire_quiet [OF ok pend deq] obtain e where e: "timer_fire deq Inr (tm, s) = Inr (\<lparr>tm_status = TIMER_IDLE, tm_event = e\<rparr>, ?s)"
    "ev_uid e \<le> 0" by blast
  from D(3) pend obtain p where p: "save_pkt k = Some p" by auto
  with D(6) have "th_seqno (body p) \<in> S" by (simp add: sink_idle_ok_def)
  then obtain npkt k1 where g: "sink_ack (ev_time (tm_event tm)) p k = Inr (npkt, k1)"
    "ack_ok S npkt" "acked S sz k (k1\<lparr>save_pkt := None\<rparr>)" "save_pkt k1 = save_pkt k" "nxt (acker_of (k_acker k1)) = nxt (acker_of (k_acker k))"
    by (rule sink_ack_acked [OF D(5)])
  let ?k = "k1\<lparr>save_pkt := None\<rparr>"
  have eq: "delack_expire deq (k, tm, s) = Inr ([SendAck npkt, FreePkt p], ?k, \<lparr>tm_status = TIMER_IDLE, tm_event = e\<rparr>, ?s)"
    using e(1) g(1) p by (simp add: delack_expire_def delack_timeout_def)
  have set: "absq (queue s) = tm_event tm # absq q'" using d by simp
  have "distinct (absq (queue s))" by (rule ev_sorted_distinct [OF ok_absq_sorted [OF ok]])
  with set have new: "tm_event tm \<notin> set (absq q')" by simp
  have "delack_inv absq link h S sz (?k, \<lparr>tm_status = TIMER_IDLE, tm_event = e\<rparr>, ?s)"
  proof (rule delack_invI)
    fix x assume "x \<in> set (absq (queue ?s))" "link (ev_handler x) = None"
    with D(8) [of x] set new show "tm_status \<lparr>tm_status = TIMER_IDLE, tm_event = e\<rparr> = TIMER_PENDING \<and> x = tm_event \<lparr>tm_status = TIMER_IDLE, tm_event = e\<rparr>"
      by auto
  next
    fix x assume "x \<in> set (in_flight link (absq (queue ?s)))"
    with D(9) [of x] set g(3) show "packet_ok sz x \<and> lastreset ?k \<le> th_ts (body x)" by (auto simp: acked_def split: option.splits)
  qed (use D(7) g(3) e(2) in \<open>simp_all add: timer_ok_def acked_def sink_idle_ok_def\<close>)
  moreover have w: "waiting k = [p]" "waiting ?k = []" using p by (simp_all add: waiting_def)
  moreover have "answer_ok (RFC2581_immediate_ack k) U npkt [p]" using g(2) U w by (simp add: answer_ok_def)
  then have "outcome U sz [] k [SendAck npkt, FreePkt p] ?k"
    unfolding outcome_def by (intro conjI exI [of _ "[]"] exI [of _ "[SendAck npkt, FreePkt p]"]) (use g w in \<open>simp_all add: acked_def\<close>)
  moreover have "S = U \<union> segments (freed [SendAck npkt, FreePkt p]) \<union> segments (waiting ?k)" using U w by simp
  ultimately show ?thesis using eq d by fastforce
qed

text \<open>One event: the next segment arrives, or the timer expires.\<close>

lemma delack_step_ok:
  assumes ok: "ok (length (in_flight link (absq (queue s)))) s" and inv: "delack_inv absq link h S sz (k, tm, s)" and h: "link h = None"
    and q: "absq (queue s) \<noteq> []" and U: "S = U \<union> segments (waiting k)"
  obtains as k' tm' s' new S' where "delack_step ins can deq link h (k, tm, s) = Inr (Some (as, k', tm', s'))"
    "ok (length (in_flight link (absq (queue s')))) s'" "delack_inv absq link h S' sz (k', tm', s')"
    "in_flight link (absq (queue s)) = new @ in_flight link (absq (queue s'))" "S' = S \<union> segments new"
    "outcome U sz new k as k'" "S' = U \<union> segments (freed as) \<union> segments (waiting k')"
    "2 * length (in_flight link (absq (queue s'))) + of_bool (tm_status tm' = TIMER_PENDING)
      < 2 * length (in_flight link (absq (queue s))) + (of_bool (tm_status tm = TIMER_PENDING) :: nat)"
proof -
  note D = delack_invD [OF inv]
  from ok_invq [OF ok] q obtain e q' where e: "deq (queue s) = Inr (Some (e, q'))" "absq (queue s) = e # absq q'"
    by (cases rule: deq_cases) auto
  note d = deq_ok [OF ok e(1)]
  show ?thesis
  proof (cases "link (ev_handler e)")
    case None
    then have pend: "tm_status tm = TIMER_PENDING" "e = tm_event tm" using D(8) e(2) by auto
    from delack_expire_ok [OF ok inv h _ pend(1) U] e(1) pend(2) obtain as k' tm' s' where r: "delack_expire deq (k, tm, s) = Inr (as, k', tm', s')"
      "ok (length (in_flight link (absq (queue s)))) s'" "absq (queue s') = absq q'" "delack_inv absq link h S sz (k', tm', s')" "tm_status tm' = TIMER_IDLE"
      "outcome U sz [] k as k'" "S = U \<union> segments (freed as) \<union> segments (waiting k')"
      by blast
    have st: "delack_step ins can deq link h (k, tm, s) = Inr (Some (as, k', tm', s'))"
      using e(1) d None r(1) by (simp add: delack_step_def)
    show ?thesis by (rule that [OF st _ r(4), of "[]"]) (use r e(2) None pend in auto)
  next
    case (Some p)
    let ?s = "s\<lparr>queue := q', clock := ev_time e\<rparr>"
    have len: "in_flight link (absq (queue s)) = p # in_flight link (absq q')" using e(2) Some by simp
    have inv': "delack_inv absq link h S sz (k, tm, ?s)"
    proof (rule delack_invI)
      show "timer_ok absq (tm, ?s)"
      proof (cases "tm_status tm = TIMER_PENDING")
        case True
        with D(1,4) h Some e(2) show ?thesis by (auto simp: timer_ok_def)
      qed (use D(1) in \<open>simp add: timer_ok_def\<close>)
    next
      fix x assume "x \<in> set (absq (queue ?s))" "link (ev_handler x) = None"
      with D(8) [of x] e(2) show "tm_status tm = TIMER_PENDING \<and> x = tm_event tm" by simp
    qed (use D(2-7,9) len in simp_all)
    have ok': "ok (Suc (length (in_flight link (absq q')))) ?s" using d len by simp
    have p: "packet_ok sz p" "lastreset k \<le> th_ts (body p)" using D(9) [of p] len by auto
    from delack_recv_ok [OF ok' inv' h p U] obtain as k' tm' s' where r: "delack_recv ins can h p (k, tm, ?s) = Inr (as, k', tm', s')"
      "ok (length (in_flight link (absq q'))) s'" "delack_inv absq link h (insert (th_seqno (body p)) S) sz (k', tm', s')"
      "in_flight link (absq (queue s')) = in_flight link (absq q')" "outcome U sz [p] k as k'"
      "insert (th_seqno (body p)) S = U \<union> segments (freed as) \<union> segments (waiting k')" by auto
    have st: "delack_step ins can deq link h (k, tm, s) = Inr (Some (as, k', tm', s'))"
      using e(1) d Some r(1) by (simp add: delack_step_def)
    show ?thesis by (rule that [OF st _ r(3), of "[p]"]) (use r len in auto)
  qed
qed


lemma delack_run_ok:
  assumes "ok (length (in_flight link (absq (queue s)))) s" and "delack_inv absq link h S sz (k, tm, s)" and h: "link h = None"
    and "2 * length (in_flight link (absq (queue s))) + of_bool (tm_status tm = TIMER_PENDING) \<le> n" and "S = U \<union> segments (waiting k)"
  shows "\<exists>as k' tm' s'. delack_run ins can deq link h n (k, tm, s) = Some (Inr (as, k', tm', s')) \<and> absq (queue s') = []
    \<and> delack_inv absq link h (S \<union> segments (in_flight link (absq (queue s)))) sz (k', tm', s')
    \<and> outcomes U sz (in_flight link (absq (queue s))) k as k'"
  using assms(1,2,4,5)
proof (induction n arbitrary: S U k tm s)
  have stop: "delack_run ins can deq link h n (k, tm, s) = Some (Inr ([], k, tm, s))"
    if "ok m s" "absq (queue s) = []" for n m k tm s
    using ok_deq_None [OF that(1)] that(2) by (subst delack_run.simps) (simp add: delack_step_def)
  {
    case 0
    have q: "absq (queue s) = []"
    proof (rule ccontr)
      assume q: "absq (queue s) \<noteq> []"
      show False by (rule delack_step_ok [OF 0(1,2) h q 0(4)]) (use 0(3) in simp)
    qed
    with stop [OF 0(1) q] 0(2) show ?case by (auto simp: outcomes_Nil)
  next
    case (Suc n)
    let ?ps = "in_flight link (absq (queue s))"
    show ?case
    proof (cases "absq (queue s) = []")
      case True
      with stop [OF Suc.prems(1) True] Suc.prems(2) show ?thesis by (auto simp: outcomes_Nil)
    next
      case False
      from delack_step_ok [OF Suc.prems(1,2) h False Suc.prems(4)] obtain as k1 tm1 s1 new where r:
        "delack_step ins can deq link h (k, tm, s) = Inr (Some (as, k1, tm1, s1))"
        "ok (length (in_flight link (absq (queue s1)))) s1" "delack_inv absq link h (S \<union> segments new) sz (k1, tm1, s1)"
        "?ps = new @ in_flight link (absq (queue s1))" "outcome U sz new k as k1"
        "2 * length (in_flight link (absq (queue s1))) + of_bool (tm_status tm1 = TIMER_PENDING)
          < 2 * length ?ps + (of_bool (tm_status tm = TIMER_PENDING) :: nat)"
        "S \<union> segments new = U \<union> segments (freed as) \<union> segments (waiting k1)"
        by metis
      have fuel: "2 * length (in_flight link (absq (queue s1))) + of_bool (tm_status tm1 = TIMER_PENDING) \<le> n"
        using r(6) Suc.prems(3) by linarith
      from Suc.IH [OF r(2,3) fuel r(7)] obtain bs k2 tm2 s2 where i:
        "delack_run ins can deq link h n (k1, tm1, s1) = Some (Inr (bs, k2, tm2, s2))" "absq (queue s2) = []"
        "delack_inv absq link h (S \<union> segments new \<union> segments (in_flight link (absq (queue s1)))) sz (k2, tm2, s2)"
        "outcomes (U \<union> segments (freed as)) sz (in_flight link (absq (queue s1))) k1 bs k2" by blast
      have "delack_run ins can deq link h (Suc n) (k, tm, s) = Some (Inr (as @ bs, k2, tm2, s2))"
        using r(1) i(1) by (subst delack_run.simps) simp
      moreover have "outcomes U sz ?ps k (as @ bs) k2" unfolding r(4) by (rule outcomes_step [OF r(5) i(4)])
      ultimately show ?thesis using i(2,3) by (auto simp: r(4) Un_assoc)
    qed
  }
qed

end

section \<open>A delayed ACK sink on the calendar scheduler\<close>

text \<open>The handlers of the events: the link that delivers a segment, and the timer.\<close>

datatype sink_handler = LinkH tcp_packet | DelayTimerH

fun sink_link :: "sink_handler \<Rightarrow> tcp_packet option" where
  "sink_link (LinkH p) = Some p"
| "sink_link DelayTimerH = None"

lemma fresh_delack_inv:
  assumes "fresh_sink k" and "0 \<le> ack_interval k"
    and "\<forall>e \<in> set (absq (queue s)). \<exists>p. link (ev_handler e) = Some p \<and> packet_ok sz p \<and> lastreset k \<le> th_ts (body p)"
  shows "delack_inv absq link h {} sz (k, timer_new h, s)"
proof (rule delack_invI)
  fix p assume "p \<in> set (in_flight link (absq (queue s)))"
  then obtain e where "e \<in> set (absq (queue s))" "link (ev_handler e) = Some p" by (auto simp: in_flight_def List.map_filter_def)
  with assms(3) show "packet_ok sz p \<and> lastreset k \<le> th_ts (body p)" by force
qed (use assms fresh_sink_ok [OF assms(1), of sz] in \<open>auto simp: timer_new_ok, auto simp: timer_new_def sink_idle_ok_def fresh_sink_def\<close>)

text \<open>
  C26: A sink with delayed ACKs on the calendar scheduler deals with all segments on their way,
  whatever their number, order and times: no timer call aborts and the queue runs empty within two
  events per segment. Every segment is answered by an ACK and freed with it, in order of arrival; an
  ACK answers one segment or two, and two only when the first was in sequence, with nothing missing
  before it and, under RFC 2581, nothing received beyond it, so that any other segment is
  acknowledged at once. Each ACK names the last segment before the first one missing among those that
  have arrived and lists received segments only; each byte in sequence is delivered once; at the end
  no packet stays saved and all that arrived has been acknowledged.
\<close>

theorem delack_acknowledges:
  assumes "fresh_sink k" and "0 \<le> ack_interval k" and "sched_ok cal_inv always_room cal_abs (length (cal_abs (queue s))) s"
    and "cal_abs (queue s) \<noteq> []"
    and "\<forall>e \<in> set (cal_abs (queue s)). \<exists>p. ev_handler e = LinkH p \<and> packet_ok sz p \<and> lastreset k \<le> th_ts (body p)"
  shows "\<exists>as k' tm' s'. delack_run cal_insert cal_cancel cal_deque sink_link DelayTimerH (2 * length (cal_abs (queue s)))
        (k, timer_new DelayTimerH, s) = Some (Inr (as, k', tm', s'))
    \<and> cal_abs (queue s') = [] \<and> tm_status tm' = TIMER_IDLE \<and> save_pkt k' = None
    \<and> concat (map snd (answers as)) = in_flight sink_link (cal_abs (queue s)) \<and> freed as = in_flight sink_link (cal_abs (queue s))
    \<and> answers_ok (RFC2581_immediate_ack k) {} (answers as)
    \<and> (let a = acker_of (k_acker k'); S = segments (in_flight sink_link (cal_abs (queue s)))
       in {0..last_ack_sent a} \<subseteq> S \<and> last_ack_sent a + 1 \<notin> S \<and> delivered as = (\<Sum>i\<in>{0..last_ack_sent a}. sz i))"
proof -
  let ?es = "cal_abs (queue s)" and ?ps = "in_flight sink_link (cal_abs (queue s))"
  have links: "\<forall>e \<in> set ?es. \<exists>p. sink_link (ev_handler e) = Some p \<and> packet_ok sz p \<and> lastreset k \<le> th_ts (body p)"
    using assms(5) by fastforce
  have len: "length ?ps = length ?es" by (rule length_in_flight) (use links in force)
  have inv: "delack_inv cal_abs sink_link DelayTimerH {} sz (k, timer_new DelayTimerH, s)"
    by (rule fresh_delack_inv [where link = sink_link and absq = cal_abs, OF assms(1,2) links])
  have idle: "tm_status (timer_new DelayTimerH) = TIMER_IDLE" by (simp add: timer_new_def)
  have ok: "cq.ok (length ?ps) s" using assms(3) len by simp
  have fuel: "2 * length ?ps + of_bool (tm_status (timer_new DelayTimerH) = TIMER_PENDING) \<le> 2 * length ?es"
    using idle len by simp
  have none: "save_pkt k = None" using assms(1) by (simp add: fresh_sink_def)
  then have "{} = {} \<union> segments (waiting k)" by (simp add: waiting_def)
  from cq.delack_run_ok [OF ok inv sink_link.simps(2) fuel this] obtain as k' tm' s' where r:
    "delack_run cal_insert cal_cancel cal_deque sink_link DelayTimerH (2 * length ?es) (k, timer_new DelayTimerH, s) = Some (Inr (as, k', tm', s'))"
    "cal_abs (queue s') = []" "delack_inv cal_abs sink_link DelayTimerH ({} \<union> segments ?ps) sz (k', tm', s')" "outcomes {} sz ?ps k as k'"
    by blast
  note D = delack_invD [OF r(3)]
  have "tm_status tm' \<noteq> TIMER_PENDING" using D(1) r(2) by (auto simp: timer_ok_def)
  then have st: "tm_status tm' = TIMER_IDLE" "save_pkt k' = None" using D(2,3) by (cases "tm_status tm'", auto)+
  have "?ps \<noteq> []" using len assms(4) by auto
  then have last: "last_ack_sent (acker_of (k_acker k')) = Seqno (acker_of (k_acker k'))"
    using D(6) st(2) by (simp add: sink_idle_ok_def segments_def)
  have "nxt (acker_of (k_acker k)) = 0" using fresh_sink_ok [OF assms(1), of sz] by (auto simp: acker_new_def)
  moreover have "{0..<n} = {0..n - 1}" for n :: int by auto
  moreover note follows_acked [OF conjunct1 [OF receiver_ok_follows [OF D(5)]]]
  ultimately have fin: "let a = acker_of (k_acker k'); S = segments ?ps
       in {0..last_ack_sent a} \<subseteq> S \<and> last_ack_sent a + 1 \<notin> S \<and> delivered as = (\<Sum>i\<in>{0..last_ack_sent a}. sz i)"
    using r(4) last by (simp add: outcomes_def Seqno_def Let_def)
  have fr: "freed as = ?ps" "concat (map snd (answers as)) = ?ps" "answers_ok (RFC2581_immediate_ack k) {} (answers as)"
    using r(4) st(2) none by (simp_all add: outcomes_def waiting_def)
  show ?thesis by (intro exI conjI) (rule r(1) r(2) st fr fin)+
qed

definition demo_arrival :: "int \<Rightarrow> time \<Rightarrow> int \<Rightarrow> sink_handler event" where
  "demo_arrival u t q = \<lparr>ev_time = t, ev_uid = u, ev_handler = LinkH (demo_segment q t)\<rparr>"

lemma demo_arrivals:
  "\<exists>q1 q2. cal_insert (cal_new cal_zero 0 10) (demo_arrival 1 1 0) = Inr q1 \<and> cal_insert q1 (demo_arrival 2 2 1) = Inr q2
    \<and> cal_inv q2 \<and> cal_abs q2 = [demo_arrival 1 1 0, demo_arrival 2 2 1]"
proof -
  from cq.ins_spec [OF cal_new_inv, of cal_zero 0 10 0 "demo_arrival 1 1 0"] obtain q1 where
    q1: "cal_insert (cal_new cal_zero 0 10) (demo_arrival 1 1 0) = Inr q1" "cal_inv q1" "cal_abs q1 = [demo_arrival 1 1 0]"
    by (auto simp: cal_abs_new demo_arrival_def)
  from cq.ins_spec [OF q1(2), of 0 "demo_arrival 2 2 1"] q1(3) obtain q2 where
    "cal_insert q1 (demo_arrival 2 2 1) = Inr q2" "cal_inv q2" "cal_abs q2 = [demo_arrival 1 1 0, demo_arrival 2 2 1]"
    by (auto simp: demo_arrival_def)
  with q1 show ?thesis by blast
qed

theorem delack_acknowledges_witness:
  "\<exists>s as k' tm' s'. cal_abs (queue s) = [demo_arrival 1 1 0, demo_arrival 2 2 1]
    \<and> delack_run cal_insert cal_cancel cal_deque sink_link DelayTimerH 4 (demo_sink, timer_new DelayTimerH, s) = Some (Inr (as, k', tm', s'))
    \<and> cal_abs (queue s') = [] \<and> save_pkt k' = None \<and> concat (map snd (answers as)) = [demo_segment 0 1, demo_segment 1 2]"
proof -
  from demo_arrivals obtain q where q: "cal_inv q" "cal_abs q = [demo_arrival 1 1 0, demo_arrival 2 2 1]" by blast
  let ?s = "(sched_init q)\<lparr>next_uid := 3\<rparr>"
  have ok: "sched_ok cal_inv always_room cal_abs (length (cal_abs (queue ?s))) ?s"
    using q by (simp add: sched_ok_def sched_init_def demo_arrival_def uid_max_def)
  have l: "\<forall>e \<in> set (cal_abs (queue ?s)). \<exists>p. ev_handler e = LinkH p \<and> packet_ok (\<lambda>i. 1000) p \<and> lastreset demo_sink \<le> th_ts (body p)"
    using q by (simp add: sched_init_def demo_arrival_def demo_sink_def)
  have iv: "0 \<le> ack_interval demo_sink" by (simp add: demo_sink_def)
  have ne: "cal_abs (queue ?s) \<noteq> []" using q by (simp add: sched_init_def)
  from delack_acknowledges [OF demo_sink_fresh iv ok ne l] obtain as k' tm' s' where r:
    "delack_run cal_insert cal_cancel cal_deque sink_link DelayTimerH (2 * length (cal_abs (queue ?s)))
       (demo_sink, timer_new DelayTimerH, ?s) = Some (Inr (as, k', tm', s'))"
    "cal_abs (queue s') = []" "save_pkt k' = None" "concat (map snd (answers as)) = in_flight sink_link (cal_abs (queue ?s))"
    by blast
  have qs: "cal_abs (queue ?s) = [demo_arrival 1 1 0, demo_arrival 2 2 1]" using q by (simp add: sched_init_def)
  have "2 * length (cal_abs (queue ?s)) = 4" by (simp only: qs) simp
  moreover have "in_flight sink_link (cal_abs (queue ?s)) = [demo_segment 0 1, demo_segment 1 2]"
    by (simp only: qs) (simp add: demo_arrival_def)
  ultimately show ?thesis using r qs by metis
qed

end
