(* ===== verification/RouteLogic.thy ===== *)
theory RouteLogic
  imports NsPrelude
begin

text \<open>
  Class \<open>RouteLogic\<close> of \<open>routing/route.cc\<close>, which computes the routes of static and session
  routing: the matrix of link costs, the computation of the shortest paths from every node, and the
  lookup of the next hop.
\<close>

section \<open>State\<close>

text \<open>
  Both matrices are arrays with \<open>size_\<close> rows; node \<open>i\<close> of the simulation has row \<open>i + 1\<close>, row and
  column 0 are not used. A link carries a cost and an opaque entry. The matrix of routes does not
  exist before the first computation.
\<close>

definition RT_INFINITY :: real where "RT_INFINITY = 0x3fff"

definition INDEX :: "nat \<Rightarrow> nat \<Rightarrow> nat \<Rightarrow> nat" where
  "INDEX i j N = N * i + j"

record 'e adj_entry =
  adj_cost :: real
  adj_ent :: "'e option"

record 'e route_entry =
  next_hop :: nat
  route_ent :: "'e option"

record 'e route_logic =
  adj :: "'e adj_entry list"
  route :: "'e route_entry list option"
  rsize :: nat

definition rl_new :: "'e route_logic" where
  "rl_new = \<lparr>adj = [], route = None, rsize = 0\<rparr>"

definition reset_all :: "'e route_logic \<Rightarrow> 'e route_logic" where
  "reset_all rl = rl\<lparr>adj := [], route := None, rsize := 0\<rparr>"

definition ADJ :: "'e route_logic \<Rightarrow> nat \<Rightarrow> nat \<Rightarrow> real" where
  "ADJ rl i j = adj_cost (adj rl ! INDEX i j (rsize rl))"

definition ADJ_ENTRY :: "'e route_logic \<Rightarrow> nat \<Rightarrow> nat \<Rightarrow> 'e option" where
  "ADJ_ENTRY rl i j = adj_ent (adj rl ! INDEX i j (rsize rl))"

section \<open>The matrix of link costs\<close>

definition rl_alloc :: "nat \<Rightarrow> 'e route_logic \<Rightarrow> 'e route_logic" where
  "rl_alloc n rl = rl\<lparr>rsize := n, adj := replicate (n * n) \<lparr>adj_cost = RT_INFINITY, adj_ent = None\<rparr>\<rparr>"

text \<open>The size is doubled until the node fits; it is never 0 there.\<close>

function doubled :: "nat \<Rightarrow> nat \<Rightarrow> nat" where
  "doubled n m = (if 0 < m \<and> m \<le> n then doubled n (2 * m) else m)"
  by pat_completeness auto
termination by (relation "measure (\<lambda>(n, m). Suc n - m)") auto

declare doubled.simps [simp del]

definition copy_costs :: "'e adj_entry list \<Rightarrow> nat \<Rightarrow> nat \<Rightarrow> 'e adj_entry list \<Rightarrow> 'e adj_entry list" where
  "copy_costs old osize m new0 =
     fold (\<lambda>i. fold (\<lambda>j new. new[INDEX i j m := (new ! INDEX i j m)\<lparr>adj_cost := adj_cost (old ! INDEX i j osize)\<rparr>])
                 [0..<osize])
       [0..<osize] new0"

definition rl_check :: "nat \<Rightarrow> 'e route_logic \<Rightarrow> 'e route_logic" where
  "rl_check n rl =
     (if n < rsize rl then rl
      else
        (let m = doubled n (if rsize rl = 0 then 16 else rsize rl);
             rl1 = rl_alloc m rl
         in rl1\<lparr>adj := copy_costs (adj rl) (rsize rl) m (adj rl1)\<rparr>))"

text \<open>\<open>insert\<close>, with an entry or without.\<close>

definition rl_insert :: "nat \<Rightarrow> nat \<Rightarrow> real \<Rightarrow> 'e route_logic \<Rightarrow> 'e route_logic" where
  "rl_insert src dst cost rl =
     (let rl1 = rl_check dst (rl_check src rl)
      in rl1\<lparr>adj := (adj rl1)[INDEX src dst (rsize rl1) := (adj rl1 ! INDEX src dst (rsize rl1))\<lparr>adj_cost := cost\<rparr>]\<rparr>)"

definition rl_insert_entry :: "nat \<Rightarrow> nat \<Rightarrow> real \<Rightarrow> 'e option \<Rightarrow> 'e route_logic \<Rightarrow> 'e route_logic" where
  "rl_insert_entry src dst cost entry rl =
     (let rl1 = rl_check dst (rl_check src rl)
      in rl1\<lparr>adj := (adj rl1)[INDEX src dst (rsize rl1) := \<lparr>adj_cost = cost, adj_ent = entry\<rparr>]\<rparr>)"

definition rl_reset :: "nat \<Rightarrow> nat \<Rightarrow> 'e route_logic \<Rightarrow> 'e route_logic res" where
  "rl_reset src dst rl =
     bindR (assertC (src < rsize rl)) (\<lambda>_.
     bindR (assertC (dst < rsize rl)) (\<lambda>_.
       Inr (rl\<lparr>adj := (adj rl)[INDEX src dst (rsize rl) := (adj rl ! INDEX src dst (rsize rl))\<lparr>adj_cost := RT_INFINITY\<rparr>]\<rparr>)))"

section \<open>The routes of one source\<close>

text \<open>
  \<open>parent_\<close> marks the nodes whose distance is final with the source; \<open>hopcnt\<close> holds the distances,
  and is not initialised. The row of the source in the matrix of routes is written on the way.
\<close>

record 'e dijkstra =
  parent :: "nat list"
  hopcnt :: "real list"
  row :: "'e route_entry list"

definition no_route :: "'e route_entry" where
  "no_route = \<lparr>next_hop = 0, route_ent = None\<rparr>"

definition set_neighbour :: "'e route_logic \<Rightarrow> nat \<Rightarrow> nat \<Rightarrow> 'e dijkstra \<Rightarrow> 'e dijkstra" where
  "set_neighbour rl k v st =
     (if parent st ! v \<noteq> k then
        (let st1 = st\<lparr>hopcnt := (hopcnt st)[v := ADJ rl k v]\<rparr>
         in if hopcnt st1 ! v \<noteq> RT_INFINITY
            then st1\<lparr>row := (row st1)[v := \<lparr>next_hop = v, route_ent = ADJ_ENTRY rl k v\<rparr>]\<rparr> else st1)
      else st)"

text \<open>The nearest node whose distance is not final; 0 when there is none nearer than infinity.\<close>

definition nearest :: "nat \<Rightarrow> nat \<Rightarrow> 'e dijkstra \<Rightarrow> nat" where
  "nearest n k st =
     fold (\<lambda>w o'. if parent st ! w \<noteq> k \<and> hopcnt st ! w < hopcnt st ! o' then w else o') [1..<n] 0"

definition relax :: "'e route_logic \<Rightarrow> nat \<Rightarrow> nat \<Rightarrow> nat \<Rightarrow> 'e dijkstra \<Rightarrow> 'e dijkstra" where
  "relax rl k o' w st =
     (if parent st ! w \<noteq> k \<and> hopcnt st ! o' + ADJ rl o' w < hopcnt st ! w then
        st\<lparr>row := (row st)[w := row st ! o'], hopcnt := (hopcnt st)[w := hopcnt st ! o' + ADJ rl o' w]\<rparr>
      else st)"

definition extend :: "'e route_logic \<Rightarrow> nat \<Rightarrow> 'e dijkstra \<Rightarrow> 'e dijkstra" where
  "extend rl k st =
     (let st1 = st\<lparr>hopcnt := (hopcnt st)[0 := RT_INFINITY]\<rparr>;
          o' = nearest (rsize rl) k st1;
          st2 = st1\<lparr>parent := (parent st1)[o' := k]\<rparr>
      in if o' = 0 then st2 else fold (relax rl k o') [1..<rsize rl] st2)"

definition source_routes :: "'e route_logic \<Rightarrow> nat \<Rightarrow> real list \<Rightarrow> 'e dijkstra" where
  "source_routes rl k hops =
     (let n = rsize rl;
          st = \<lparr>parent = [0..<n], hopcnt = hops, row = replicate n no_route\<rparr>
      in fold (\<lambda>_. extend rl k) [1..<n] (fold (set_neighbour rl k) [1..<n] st))"

section \<open>The routes of all sources\<close>

text \<open>\<open>raw\<close> is the memory of the array of distances, which all sources use in turn.\<close>

definition compute_rows :: "'e route_logic \<Rightarrow> real list \<Rightarrow> real list \<times> 'e route_entry list list" where
  "compute_rows rl raw =
     fold (\<lambda>k (hops, rows). let st = source_routes rl k hops in (hopcnt st, rows @ [row st]))
       [1..<rsize rl] (raw, [replicate (rsize rl) no_route])"

definition compute_routes :: "real list \<Rightarrow> 'e route_logic \<Rightarrow> 'e route_logic" where
  "compute_routes raw rl =
     (let n = rsize rl
      in rl\<lparr>route := Some (fold (\<lambda>k r. r[INDEX k k n := \<lparr>next_hop = k, route_ent = None\<rparr>]) [1..<n]
                            (concat (snd (compute_rows rl raw))))\<rparr>)"

text \<open>The command \<open>compute\<close> does nothing without links.\<close>

definition rl_compute :: "real list \<Rightarrow> 'e route_logic \<Rightarrow> 'e route_logic" where
  "rl_compute raw rl = (if rsize rl = 0 then rl else compute_routes raw rl)"

text \<open>
  \<open>lookup_flat\<close> for node numbers as the simulation counts them; the error codes are -1 and -2. A
  table that is older than the matrix of costs can be smaller.
\<close>

definition lookup_flat :: "int \<Rightarrow> int \<Rightarrow> 'e route_logic \<Rightarrow> int res" where
  "lookup_flat sid did rl =
     (let src = sid + 1; dst = did + 1
      in case route rl of
           None \<Rightarrow> Inr (-1)
         | Some rt \<Rightarrow>
             if src \<ge> int (rsize rl) \<or> dst \<ge> int (rsize rl) then Inr (-2)
             else
               (let i = int (rsize rl) * src + dst
                in if 0 \<le> i \<and> nat i < length rt then Inr (int (next_hop (rt ! nat i)) - 1) else Inl OutOfBounds))"

end
