(* ===== verification/RoutePaths.thy ===== *)
theory RoutePaths
  imports RouteLogic
begin

text \<open>
  The routes are shortest paths. Walks and their costs; the invariant of the computation for one
  source: the distances of the nodes that are done are exact, those of the others are the best over
  a last link from a node that is done; and what follows for the table of next hops.
\<close>

section \<open>Walks\<close>

definition nodes :: "nat \<Rightarrow> nat set" where
  "nodes n = {1..<n}"

definition is_link :: "(nat \<Rightarrow> nat \<Rightarrow> real) \<Rightarrow> nat \<Rightarrow> nat \<Rightarrow> nat \<Rightarrow> bool" where
  "is_link c n i j \<longleftrightarrow> i \<in> nodes n \<and> j \<in> nodes n \<and> c i j < RT_INFINITY"

inductive walk :: "(nat \<Rightarrow> nat \<Rightarrow> real) \<Rightarrow> nat \<Rightarrow> nat \<Rightarrow> nat \<Rightarrow> real \<Rightarrow> bool" for c n i where
  walk_refl: "i \<in> nodes n \<Longrightarrow> walk c n i i 0"
| walk_step: "walk c n i j d \<Longrightarrow> is_link c n j l \<Longrightarrow> walk c n i l (d + c j l)"

text \<open>Link costs are not negative; infinity means that there is no link.\<close>

definition costs_ok :: "(nat \<Rightarrow> nat \<Rightarrow> real) \<Rightarrow> nat \<Rightarrow> bool" where
  "costs_ok c n \<longleftrightarrow> (\<forall>i \<in> nodes n. \<forall>j \<in> nodes n. 0 \<le> c i j \<and> c i j \<le> RT_INFINITY)"

definition shortest :: "(nat \<Rightarrow> nat \<Rightarrow> real) \<Rightarrow> nat \<Rightarrow> nat \<Rightarrow> nat \<Rightarrow> real \<Rightarrow> bool" where
  "shortest c n i j d \<longleftrightarrow> walk c n i j d \<and> (\<forall>d'. walk c n i j d' \<longrightarrow> d \<le> d')"

text \<open>A walk of cost \<open>d\<close> whose first link goes to \<open>h\<close>.\<close>

definition via :: "(nat \<Rightarrow> nat \<Rightarrow> real) \<Rightarrow> nat \<Rightarrow> nat \<Rightarrow> nat \<Rightarrow> nat \<Rightarrow> real \<Rightarrow> bool" where
  "via c n i j h d \<longleftrightarrow> is_link c n i h \<and> walk c n h j (d - c i h)"

lemma walk_nodes: "walk c n i j d \<Longrightarrow> i \<in> nodes n \<and> j \<in> nodes n"
  by (induction rule: walk.induct) (auto simp: is_link_def)

lemma walk_nonneg: "walk c n i j d \<Longrightarrow> costs_ok c n \<Longrightarrow> 0 \<le> d"
  by (induction rule: walk.induct) (auto simp: is_link_def costs_ok_def)

lemma walk_trans: "walk c n j l e \<Longrightarrow> walk c n i j d \<Longrightarrow> walk c n i l (d + e)"
proof (induction rule: walk.induct)
  case (walk_step l' e' m)
  then show ?case using walk.walk_step [of c n i l' "d + e'" m] by (simp add: add.assoc)
qed simp

lemma walk_link: "is_link c n i j \<Longrightarrow> walk c n i j (c i j)"
  using walk_step [OF walk_refl, of i n c j] by (simp add: is_link_def)

lemma via_walk: "via c n i j h d \<Longrightarrow> walk c n i j d"
  using walk_trans [of c n h j "d - c i h" i "c i h"] walk_link by (fastforce simp: via_def)

lemma via_step: "via c n i j h d \<Longrightarrow> is_link c n j l \<Longrightarrow> via c n i l h (d + c j l)"
  using walk_step [of c n h j "d - c i h" l] by (simp add: via_def add.commute add_diff_eq)

lemma via_link: "is_link c n i j \<Longrightarrow> via c n i j j (c i j)"
  by (simp add: via_def is_link_def walk_refl)

lemma shortest_unique: "shortest c n i j d \<Longrightarrow> shortest c n i j d' \<Longrightarrow> d = d'"
  by (meson antisym shortest_def)

lemma shortest_self: "costs_ok c n \<Longrightarrow> i \<in> nodes n \<Longrightarrow> shortest c n i i 0"
  by (simp add: shortest_def walk_refl walk_nonneg)

text \<open>After its first hop a shortest path is a shortest path.\<close>

lemma shortest_via:
  assumes "shortest c n i j d" and "via c n i j h d"
  shows "shortest c n h j (d - c i h)"
  unfolding shortest_def
proof (intro conjI allI impI)
  fix e assume "walk c n h j e"
  moreover have "walk c n i h (c i h)" using assms(2) by (simp add: via_def walk_link)
  ultimately have "walk c n i j (c i h + e)" by (rule walk_trans)
  with assms(1) show "d - c i h \<le> e" by (auto simp: shortest_def)
qed (use assms(2) in \<open>simp add: via_def\<close>)

section \<open>One source\<close>

definition cost_to :: "nat \<Rightarrow> 'e dijkstra \<Rightarrow> nat \<Rightarrow> real" where
  "cost_to k st v = (if v = k then 0 else hopcnt st ! v)"

definition first_hop :: "'e dijkstra \<Rightarrow> nat \<Rightarrow> nat" where
  "first_hop st v = next_hop (row st ! v)"

text \<open>
  The nodes done have the source as their parent. Their distances are those of shortest walks. The
  others have the cost of a walk over nodes that are done, or no route.
\<close>

definition sized :: "nat \<Rightarrow> 'e dijkstra \<Rightarrow> bool" where
  "sized n st \<longleftrightarrow> length (parent st) = n \<and> length (hopcnt st) = n \<and> length (row st) = n"

definition done_ok :: "(nat \<Rightarrow> nat \<Rightarrow> real) \<Rightarrow> nat \<Rightarrow> nat \<Rightarrow> 'e dijkstra \<Rightarrow> nat \<Rightarrow> bool" where
  "done_ok c n k st v \<longleftrightarrow>
     (\<forall>d. walk c n k v d \<longrightarrow> cost_to k st v \<le> d)
     \<and> (v \<noteq> k \<longrightarrow> via c n k v (first_hop st v) (hopcnt st ! v) \<and> hopcnt st ! v < RT_INFINITY)"

definition open_ok :: "(nat \<Rightarrow> nat \<Rightarrow> real) \<Rightarrow> nat \<Rightarrow> nat \<Rightarrow> 'e dijkstra \<Rightarrow> nat \<Rightarrow> bool" where
  "open_ok c n k st v \<longleftrightarrow>
     hopcnt st ! v \<le> RT_INFINITY
     \<and> (if hopcnt st ! v < RT_INFINITY then via c n k v (first_hop st v) (hopcnt st ! v) else row st ! v = no_route)
     \<and> (\<forall>u \<in> nodes n. parent st ! u = k \<longrightarrow> hopcnt st ! v \<le> cost_to k st u + c u v)"

definition dij_inv :: "(nat \<Rightarrow> nat \<Rightarrow> real) \<Rightarrow> nat \<Rightarrow> nat \<Rightarrow> 'e dijkstra \<Rightarrow> bool" where
  "dij_inv c n k st \<longleftrightarrow>
     sized n st \<and> parent st ! k = k
     \<and> (\<forall>v \<in> nodes n. if parent st ! v = k then done_ok c n k st v else open_ok c n k st v)"

text \<open>No node that is open can be reached below infinity.\<close>

definition stuck :: "nat \<Rightarrow> nat \<Rightarrow> 'e dijkstra \<Rightarrow> bool" where
  "stuck n k st \<longleftrightarrow> (\<forall>v \<in> nodes n. parent st ! v \<noteq> k \<longrightarrow> RT_INFINITY \<le> hopcnt st ! v)"

text \<open>A walk that ends at an open node passes an open node whose distance it does not beat.\<close>

lemma walk_leaves:
  assumes inv: "dij_inv c n k st" and costs: "costs_ok c n" and "walk c n k v d" and "parent st ! v \<noteq> k"
  shows "\<exists>x \<in> nodes n. parent st ! x \<noteq> k \<and> hopcnt st ! x \<le> d"
  using assms(3,4)
proof (induction rule: walk.induct)
  case walk_refl
  with inv show ?case by (simp add: dij_inv_def)
next
  case (walk_step j d l)
  have jl: "j \<in> nodes n" "l \<in> nodes n" "0 \<le> c j l" using walk_step.hyps(2) costs by (auto simp: is_link_def costs_ok_def)
  show ?case
  proof (cases "parent st ! j = k")
    case True
    then have "done_ok c n k st j" "open_ok c n k st l" using inv jl walk_step.prems by (auto simp: dij_inv_def split: if_splits)
    then have "cost_to k st j \<le> d" "hopcnt st ! l \<le> cost_to k st j + c j l"
      using walk_step.hyps(1) jl True by (auto simp: done_ok_def open_ok_def)
    with jl walk_step.prems show ?thesis by force
  next
    case False
    with walk_step.IH jl show ?thesis by force
  qed
qed

section \<open>The steps of the computation\<close>

lemma nearest_fold:
  "let o' = fold (\<lambda>w o'. if P w \<and> h w < h o' then w else o') xs o0
   in (o' = o0 \<or> o' \<in> set xs \<and> P o') \<and> h o' \<le> h o0 \<and> (\<forall>w \<in> set xs. P w \<longrightarrow> (h o' :: real) \<le> h w) \<and> (o' \<noteq> o0 \<longrightarrow> h o' < h o0)"
proof (induction xs arbitrary: o0)
  case (Cons x xs)
  show ?case
  proof (cases "P x \<and> h x < h o0")
    case True
    with Cons [of x] show ?thesis by (auto simp: Let_def)
  next
    case False
    with Cons [of o0] show ?thesis by (auto simp: Let_def)
  qed
qed simp

lemma nearest_spec:
  assumes "hopcnt st ! 0 = RT_INFINITY"
  shows "nearest n k st = 0 \<and> stuck n k st
    \<or> nearest n k st \<in> nodes n \<and> parent st ! nearest n k st \<noteq> k \<and> hopcnt st ! nearest n k st < RT_INFINITY
      \<and> (\<forall>w \<in> nodes n. parent st ! w \<noteq> k \<longrightarrow> hopcnt st ! nearest n k st \<le> hopcnt st ! w)"
proof -
  have "set [1..<n] = nodes n" by (auto simp: nodes_def)
  with nearest_fold [of "\<lambda>w. parent st ! w \<noteq> k" "\<lambda>w. hopcnt st ! w" "[1..<n]" 0] assms show ?thesis
    unfolding nearest_def [symmetric] Let_def stuck_def by (cases "nearest n k st = 0") auto
qed

text \<open>The loops over the nodes, cell by cell.\<close>

lemma relax_simps [simp]:
  "parent (relax rl k o' w st) = parent st" "sized n (relax rl k o' w st) = sized n st"
  by (simp_all add: relax_def sized_def)

lemma relax_fold:
  assumes "sized n st" and "parent st ! o' = k" and "o' < n" and "\<forall>w \<in> set ws. w < n"
  shows "sized n (fold (relax rl k o') ws st) \<and> parent (fold (relax rl k o') ws st) = parent st
    \<and> (\<forall>v < n. let better = (v \<in> set ws \<and> parent st ! v \<noteq> k \<and> hopcnt st ! o' + ADJ rl o' v < hopcnt st ! v)
        in hopcnt (fold (relax rl k o') ws st) ! v = (if better then hopcnt st ! o' + ADJ rl o' v else hopcnt st ! v)
         \<and> row (fold (relax rl k o') ws st) ! v = (if better then row st ! o' else row st ! v))"
  using assms
proof (induction ws arbitrary: st)
  case (Cons w ws)
  let ?st = "relax rl k o' w st"
  have len: "w < n" "length (hopcnt st) = n" "length (row st) = n" using Cons.prems by (auto simp: sized_def)
  have o': "hopcnt ?st ! o' = hopcnt st ! o'" "row ?st ! o' = row st ! o'"
    using Cons.prems(2) by (cases "w = o'"; simp add: relax_def)+
  have v: "hopcnt ?st ! v = (if v = w \<and> parent st ! v \<noteq> k \<and> hopcnt st ! o' + ADJ rl o' v < hopcnt st ! v then hopcnt st ! o' + ADJ rl o' v else hopcnt st ! v)"
    "row ?st ! v = (if v = w \<and> parent st ! v \<noteq> k \<and> hopcnt st ! o' + ADJ rl o' v < hopcnt st ! v then row st ! o' else row st ! v)" for v
    using len by (auto simp: relax_def nth_list_update)
  have "sized n ?st" "parent ?st ! o' = k" "\<forall>w \<in> set ws. w < n" using Cons.prems by simp_all
  note IH = Cons.IH [OF this(1,2) Cons.prems(3) this(3), unfolded relax_simps o' Let_def]
  have "hopcnt (fold (relax rl k o') ws ?st) ! x
      = (if x \<in> set (w # ws) \<and> parent st ! x \<noteq> k \<and> hopcnt st ! o' + ADJ rl o' x < hopcnt st ! x then hopcnt st ! o' + ADJ rl o' x else hopcnt st ! x)
    \<and> row (fold (relax rl k o') ws ?st) ! x
      = (if x \<in> set (w # ws) \<and> parent st ! x \<noteq> k \<and> hopcnt st ! o' + ADJ rl o' x < hopcnt st ! x then row st ! o' else row st ! x)"
    if "x < n" for x
    using IH [THEN conjunct2, THEN conjunct2, rule_format, OF that] v [of x]
    by (cases "x = w"; cases "parent st ! x = k"; cases "hopcnt st ! o' + ADJ rl o' x < hopcnt st ! x") simp_all
  with IH show ?case by (simp add: Let_def)
qed (simp add: Let_def)

lemma set_neighbour_simps [simp]:
  "parent (set_neighbour rl k v st) = parent st" "sized n (set_neighbour rl k v st) = sized n st"
  by (simp_all add: set_neighbour_def sized_def Let_def)

lemma set_neighbour_fold:
  assumes "sized n st" and "\<forall>w \<in> set ws. w < n"
  shows "sized n (fold (set_neighbour rl k) ws st) \<and> parent (fold (set_neighbour rl k) ws st) = parent st
    \<and> (\<forall>v < n. hopcnt (fold (set_neighbour rl k) ws st) ! v = (if v \<in> set ws \<and> parent st ! v \<noteq> k then ADJ rl k v else hopcnt st ! v)
         \<and> row (fold (set_neighbour rl k) ws st) ! v
           = (if v \<in> set ws \<and> parent st ! v \<noteq> k \<and> ADJ rl k v \<noteq> RT_INFINITY then \<lparr>next_hop = v, route_ent = ADJ_ENTRY rl k v\<rparr> else row st ! v))"
  using assms
proof (induction ws arbitrary: st)
  case (Cons w ws)
  let ?st = "set_neighbour rl k w st"
  have len: "w < n" "length (hopcnt st) = n" "length (row st) = n" using Cons.prems by (auto simp: sized_def)
  have v: "hopcnt ?st ! v = (if v = w \<and> parent st ! v \<noteq> k then ADJ rl k v else hopcnt st ! v)"
    "row ?st ! v = (if v = w \<and> parent st ! v \<noteq> k \<and> ADJ rl k v \<noteq> RT_INFINITY then \<lparr>next_hop = v, route_ent = ADJ_ENTRY rl k v\<rparr> else row st ! v)" for v
    using len by (auto simp: set_neighbour_def nth_list_update Let_def)
  have "sized n ?st" "\<forall>w \<in> set ws. w < n" using Cons.prems by simp_all
  from Cons.IH [OF this] show ?case
    unfolding fold_simps set_neighbour_simps v by (auto split: if_splits)
qed simp

lemma set_upt_nodes: "set [1..<n] = nodes n"
  by (auto simp: nodes_def)

text \<open>After the loop over the neighbours only the source is done.\<close>

lemma init_inv:
  assumes k: "k \<in> nodes (rsize rl)" and costs: "costs_ok (ADJ rl) (rsize rl)" and hops: "length hops = rsize rl"
  shows "dij_inv (ADJ rl) (rsize rl) k (fold (set_neighbour rl k) [1..<rsize rl]
      \<lparr>parent = [0..<rsize rl], hopcnt = hops, row = replicate (rsize rl) no_route\<rparr>)
    \<and> (\<forall>v < rsize rl. parent (fold (set_neighbour rl k) [1..<rsize rl]
      \<lparr>parent = [0..<rsize rl], hopcnt = hops, row = replicate (rsize rl) no_route\<rparr>) ! v = v)"
proof -
  let ?n = "rsize rl"
  let ?init = "\<lparr>parent = [0..<?n], hopcnt = hops, row = replicate ?n no_route\<rparr>"
  have s0: "sized ?n ?init" using hops by (simp add: sized_def)
  have "\<forall>w \<in> set [1..<?n]. w < ?n" by simp
  obtain st where st: "fold (set_neighbour rl k) [1..<?n] ?init = st" by blast
  note F = set_neighbour_fold [OF s0 \<open>\<forall>w \<in> set [1..<?n]. w < ?n\<close>, of rl k, unfolded st set_upt_nodes]
  have par: "parent st ! v = v" if "v < ?n" for v using F that by simp
  have cell: "hopcnt st ! v = ADJ rl k v" "row st ! v = (if ADJ rl k v = RT_INFINITY then no_route else \<lparr>next_hop = v, route_ent = ADJ_ENTRY rl k v\<rparr>)"
    if "v \<in> nodes ?n" "v \<noteq> k" for v
    using F that by (auto simp: nodes_def)
  have "if parent st ! v = k then done_ok (ADJ rl) ?n k st v else open_ok (ADJ rl) ?n k st v" if v: "v \<in> nodes ?n" for v
  proof (cases "v = k")
    case True
    with par v walk_nonneg [OF _ costs] show ?thesis by (auto simp: done_ok_def cost_to_def nodes_def)
  next
    case False
    have c: "0 \<le> ADJ rl k v" "ADJ rl k v \<le> RT_INFINITY" using costs k v by (auto simp: costs_ok_def)
    have p: "parent st ! v = v" "\<And>u. u \<in> nodes ?n \<Longrightarrow> parent st ! u = u" using par v by (auto simp: nodes_def)
    have "via (ADJ rl) ?n k v v (ADJ rl k v)" if "ADJ rl k v < RT_INFINITY"
      by (rule via_link) (use that k v in \<open>simp add: is_link_def\<close>)
    then show ?thesis
      unfolding open_ok_def p(1) cell [OF v False] first_hop_def using False c by (auto simp: p(2) cost_to_def)
  qed
  moreover have "parent st ! k = k" using par k by (simp add: nodes_def)
  moreover have "sized ?n st" using F by blast
  ultimately show ?thesis unfolding st using par by (simp add: dij_inv_def)
qed

section \<open>The invariant of the computation\<close>

lemma dij_inv_cong:
  assumes "dij_inv c n k st" and "k \<in> nodes n" and "sized n st'"
    and "\<And>v. v \<in> nodes n \<Longrightarrow> parent st' ! v = parent st ! v \<and> hopcnt st' ! v = hopcnt st ! v \<and> row st' ! v = row st ! v"
  shows "dij_inv c n k st'"
proof -
  have "cost_to k st' v = cost_to k st v" if "v \<in> nodes n" for v using assms(4) [OF that] by (simp add: cost_to_def)
  then have "done_ok c n k st' v = done_ok c n k st v" "open_ok c n k st' v = open_ok c n k st v" if "v \<in> nodes n" for v
    using assms(4) that by (auto simp: done_ok_def open_ok_def first_hop_def)
  with assms show ?thesis by (simp add: dij_inv_def)
qed

text \<open>The nearest open node becomes done: its distance is exact, and the others are improved over it.\<close>

lemma extend_step:
  assumes inv: "dij_inv c n k st" and costs: "costs_ok c n" and w: "w \<in> nodes n" and opn: "parent st ! w \<noteq> k"
    and fin: "hopcnt st ! w < RT_INFINITY" and min: "\<forall>x \<in> nodes n. parent st ! x \<noteq> k \<longrightarrow> hopcnt st ! w \<le> hopcnt st ! x"
    and sz: "sized n st'"
    and par: "\<And>v. v \<in> nodes n \<Longrightarrow> parent st' ! v = (if v = w then k else parent st ! v)"
    and hop: "\<And>v. v \<in> nodes n \<Longrightarrow> hopcnt st' ! v = (if parent st' ! v \<noteq> k \<and> hopcnt st ! w + c w v < hopcnt st ! v then hopcnt st ! w + c w v else hopcnt st ! v)"
    and row: "\<And>v. v \<in> nodes n \<Longrightarrow> row st' ! v = (if parent st' ! v \<noteq> k \<and> hopcnt st ! w + c w v < hopcnt st ! v then row st ! w else row st ! v)"
    and k: "k \<in> nodes n"
  shows "dij_inv c n k st'"
  unfolding dij_inv_def
proof (intro conjI ballI)
  have wk: "w \<noteq> k" using opn inv by (auto simp: dij_inv_def)
  have ow: "open_ok c n k st w" using inv w opn by (auto simp: dij_inv_def split: if_splits)
  then have vw: "via c n k w (first_hop st w) (hopcnt st ! w)" using fin by (simp add: open_ok_def)
  have w0: "0 \<le> hopcnt st ! w" using walk_nonneg [OF via_walk [OF vw] costs] .
  have D: "cost_to k st' u = cost_to k st u" if "u \<in> nodes n" "parent st' ! u = k" for u
    using hop [OF that(1)] that(2) by (simp add: cost_to_def)
  show "sized n st'" by (rule sz)
  show "parent st' ! k = k" using par [OF k] inv by (simp add: dij_inv_def)
  fix v assume v: "v \<in> nodes n"
  show "if parent st' ! v = k then done_ok c n k st' v else open_ok c n k st' v"
  proof (cases "parent st' ! v = k")
    case True
    have same: "hopcnt st' ! v = hopcnt st ! v" "row st' ! v = row st ! v" using hop [OF v] row [OF v] True by simp_all
    show ?thesis
    proof (cases "v = w")
      case w': True
      have "cost_to k st' w \<le> d" if "walk c n k w d" for d
        using walk_leaves [OF inv costs that opn] min same wk w' by (auto simp: cost_to_def)
      with vw fin same w' True show ?thesis by (simp add: done_ok_def first_hop_def)
    next
      case False
      with True par v inv have "done_ok c n k st v" by (auto simp: dij_inv_def split: if_splits)
      with True D [OF v True] same show ?thesis by (simp add: done_ok_def first_hop_def)
    qed
  next
    case False
    with par [OF v] inv v have ov: "open_ok c n k st v" by (auto simp: dij_inv_def split: if_splits)
    have cw: "0 \<le> c w v" "c w v \<le> RT_INFINITY" using costs w v by (auto simp: costs_ok_def)
    have le: "hopcnt st' ! v \<le> hopcnt st ! v" "hopcnt st' ! v \<le> hopcnt st ! w + c w v" using hop [OF v] False by auto
    have "hopcnt st' ! v \<le> cost_to k st' u + c u v" if u: "u \<in> nodes n" "parent st' ! u = k" for u
    proof (cases "u = w")
      case True
      with D [OF u] wk le(2) show ?thesis by (simp add: cost_to_def)
    next
      case False
      with u par have "parent st ! u = k" by simp
      with ov u(1) have "hopcnt st ! v \<le> cost_to k st u + c u v" by (auto simp: open_ok_def)
      with le(1) D [OF u] show ?thesis by simp
    qed
    moreover have "if hopcnt st' ! v < RT_INFINITY then via c n k v (first_hop st' v) (hopcnt st' ! v) else row st' ! v = no_route"
    proof (cases "hopcnt st ! w + c w v < hopcnt st ! v")
      case True
      with ov w0 have "c w v < RT_INFINITY" by (simp add: open_ok_def)
      with w v have "is_link c n w v" by (simp add: is_link_def)
      from via_step [OF vw this] True ov False hop [OF v] row [OF v] show ?thesis by (simp add: first_hop_def open_ok_def)
    next
      case False
      with ov hop [OF v] row [OF v] show ?thesis by (simp add: first_hop_def open_ok_def split: if_splits)
    qed
    ultimately show ?thesis using False le(1) ov by (auto simp: open_ok_def)
  qed
qed

definition finished :: "nat \<Rightarrow> nat \<Rightarrow> 'e dijkstra \<Rightarrow> nat set" where
  "finished n k st = {v \<in> nodes n. parent st ! v = k}"

lemma extend_spec:
  assumes inv: "dij_inv (ADJ rl) (rsize rl) k st" and costs: "costs_ok (ADJ rl) (rsize rl)" and k: "k \<in> nodes (rsize rl)"
  shows "dij_inv (ADJ rl) (rsize rl) k (extend rl k st)
    \<and> (if stuck (rsize rl) k st then stuck (rsize rl) k (extend rl k st)
       else card (finished (rsize rl) k (extend rl k st)) = Suc (card (finished (rsize rl) k st)))"
proof -
  let ?n = "rsize rl"
  obtain st1 where st1: "st\<lparr>hopcnt := (hopcnt st)[0 := RT_INFINITY]\<rparr> = st1" by blast
  have n0: "0 < ?n" "0 \<notin> nodes ?n" using k by (auto simp: nodes_def)
  have sz: "sized ?n st" using inv by (simp add: dij_inv_def)
  then have s1: "sized ?n st1" "hopcnt st1 ! 0 = RT_INFINITY" using n0 unfolding st1 [symmetric] by (auto simp: sized_def)
  have c1: "parent st1 ! v = parent st ! v \<and> hopcnt st1 ! v = hopcnt st ! v \<and> row st1 ! v = row st ! v" if "v \<in> nodes ?n" for v
    using that n0 unfolding st1 [symmetric] by (auto simp: nodes_def)
  have inv1: "dij_inv (ADJ rl) ?n k st1" by (rule dij_inv_cong [OF inv k s1(1) c1])
  obtain w where w: "nearest ?n k st1 = w" by blast
  obtain st2 where st2: "st1\<lparr>parent := (parent st1)[w := k]\<rparr> = st2" by blast
  have ext: "extend rl k st = (if w = 0 then st2 else fold (relax rl k w) [1..<?n] st2)"
    by (simp only: extend_def Let_def st1 w st2)
  have s2: "sized ?n st2" using s1(1) unfolding st2 [symmetric] by (simp add: sized_def)
  from nearest_spec [OF s1(2), of ?n k] show ?thesis unfolding w
  proof
    assume z: "w = 0 \<and> stuck ?n k st1"
    then have c2: "parent st2 ! v = parent st1 ! v \<and> hopcnt st2 ! v = hopcnt st1 ! v \<and> row st2 ! v = row st1 ! v" if "v \<in> nodes ?n" for v
      using that n0 unfolding st2 [symmetric] by (auto simp: nodes_def)
    have "stuck ?n k st2" "stuck ?n k st" using z c1 c2 by (auto simp: stuck_def)
    with dij_inv_cong [OF inv1 k s2 c2] z show ?thesis by (simp add: ext)
  next
    assume m: "w \<in> nodes ?n \<and> parent st1 ! w \<noteq> k \<and> hopcnt st1 ! w < RT_INFINITY
      \<and> (\<forall>x \<in> nodes ?n. parent st1 ! x \<noteq> k \<longrightarrow> hopcnt st1 ! w \<le> hopcnt st1 ! x)"
    then have wn: "w < ?n" "w \<noteq> 0" by (auto simp: nodes_def)
    have p2: "parent st2 ! v = (if v = w then k else parent st1 ! v)" "hopcnt st2 = hopcnt st1" "row st2 = row st1" for v
      using wn s1(1) unfolding st2 [symmetric] by (auto simp: sized_def)
    have "parent st2 ! w = k" "\<forall>x \<in> set [1..<?n]. x < ?n" using p2(1) by simp_all
    obtain st3 where st3: "fold (relax rl k w) [1..<?n] st2 = st3" by blast
    note F = relax_fold [OF s2 \<open>parent st2 ! w = k\<close> wn(1) \<open>\<forall>x \<in> set [1..<?n]. x < ?n\<close>, of rl, unfolded st3 set_upt_nodes Let_def p2(2,3)]
    then have p3: "parent st3 = parent st2" "sized ?n st3" by simp_all
    have f3: "hopcnt st3 ! v = (if parent st3 ! v \<noteq> k \<and> hopcnt st1 ! w + ADJ rl w v < hopcnt st1 ! v then hopcnt st1 ! w + ADJ rl w v else hopcnt st1 ! v)"
      "row st3 ! v = (if parent st3 ! v \<noteq> k \<and> hopcnt st1 ! w + ADJ rl w v < hopcnt st1 ! v then row st1 ! w else row st1 ! v)"
      if "v \<in> nodes ?n" for v using F that p3(1) by (auto simp: nodes_def)
    have "dij_inv (ADJ rl) ?n k st3"
      by (rule extend_step [OF inv1 costs _ _ _ _ p3(2) _ f3 k]) (use m p2(1) p3(1) in auto)
    moreover have "finished ?n k st3 = insert w (finished ?n k st)" using m p2(1) p3(1) c1 by (auto simp: finished_def)
    moreover have "w \<notin> finished ?n k st" "finite (finished ?n k st)" using m c1 by (auto simp: finished_def nodes_def)
    moreover have "extend rl k st = st3" unfolding ext st3 using wn(2) by simp
    moreover have "\<not> stuck ?n k st" using m c1 by (auto simp: stuck_def)
    ultimately show ?thesis by simp
  qed
qed

lemma extend_all:
  assumes "dij_inv (ADJ rl) (rsize rl) k st" and costs: "costs_ok (ADJ rl) (rsize rl)" and k: "k \<in> nodes (rsize rl)"
  shows "dij_inv (ADJ rl) (rsize rl) k (fold (\<lambda>_. extend rl k) xs st)
    \<and> (stuck (rsize rl) k (fold (\<lambda>_. extend rl k) xs st)
       \<or> card (finished (rsize rl) k (fold (\<lambda>_. extend rl k) xs st)) = length xs + card (finished (rsize rl) k st))"
proof -
  have keep: "dij_inv (ADJ rl) (rsize rl) k st \<Longrightarrow> stuck (rsize rl) k st \<Longrightarrow> stuck (rsize rl) k (fold (\<lambda>_. extend rl k) xs st)" for st xs
  proof (induction xs arbitrary: st)
    case (Cons x xs)
    with extend_spec [OF Cons.prems(1) costs k] show ?case by simp
  qed simp
  show ?thesis using assms(1)
  proof (induction xs arbitrary: st)
    case (Cons x xs)
    note e = extend_spec [OF Cons.prems costs k]
    show ?case
    proof (cases "stuck (rsize rl) k st")
      case True
      with e keep [of "extend rl k st" xs] Cons.IH [of "extend rl k st"] show ?thesis by simp
    next
      case False
      with e Cons.IH [of "extend rl k st"] show ?thesis by auto
    qed
  qed simp
qed

text \<open>
  The row of a source: a node within reach below infinity has a first hop on a shortest walk, any
  other node has no route.
\<close>

definition row_ok :: "(nat \<Rightarrow> nat \<Rightarrow> real) \<Rightarrow> nat \<Rightarrow> nat \<Rightarrow> 'e route_entry list \<Rightarrow> bool" where
  "row_ok c n k r \<longleftrightarrow>
     (\<forall>v \<in> nodes n. v \<noteq> k \<longrightarrow>
        (if \<exists>d. walk c n k v d \<and> d < RT_INFINITY then \<exists>d. shortest c n k v d \<and> via c n k v (next_hop (r ! v)) d
         else r ! v = no_route))"

lemma source_routes_ok:
  assumes k: "k \<in> nodes (rsize rl)" and costs: "costs_ok (ADJ rl) (rsize rl)" and hops: "length hops = rsize rl"
  shows "sized (rsize rl) (source_routes rl k hops) \<and> row_ok (ADJ rl) (rsize rl) k (row (source_routes rl k hops))"
proof -
  let ?n = "rsize rl" and ?c = "ADJ rl"
  let ?init = "fold (set_neighbour rl k) [1..<?n] \<lparr>parent = [0..<?n], hopcnt = hops, row = replicate ?n no_route\<rparr>"
  obtain i where i: "?init = i" by blast
  from init_inv [OF k costs hops] have init: "dij_inv ?c ?n k i" "\<forall>v < ?n. parent i ! v = v" unfolding i by blast+
  obtain st where st: "source_routes rl k hops = st" by blast
  then have eq: "st = fold (\<lambda>_. extend rl k) [1..<?n] i" unfolding source_routes_def Let_def i by simp
  have "finished ?n k i = {k}" using init(2) k by (auto simp: finished_def nodes_def)
  with extend_all [OF init(1) costs k, of "[1..<?n]", folded eq] have inv: "dij_inv ?c ?n k st"
    and s: "stuck ?n k st \<or> card (finished ?n k st) = length [1..<?n] + 1" by simp_all
  have "card (finished ?n k st) \<le> card (nodes ?n)" by (rule card_mono) (auto simp: finished_def nodes_def)
  with s have stuck: "stuck ?n k st" by (auto simp: nodes_def)
  have "row_ok ?c ?n k (row st)"
    unfolding row_ok_def
  proof (intro ballI impI)
    fix v assume v: "v \<in> nodes ?n" "v \<noteq> k"
    show "if \<exists>d. walk ?c ?n k v d \<and> d < RT_INFINITY then \<exists>d. shortest ?c ?n k v d \<and> via ?c ?n k v (next_hop (row st ! v)) d
        else row st ! v = no_route"
    proof (cases "parent st ! v = k")
      case True
      with inv v have d: "done_ok ?c ?n k st v" by (auto simp: dij_inv_def split: if_splits)
      with v(2) have w: "walk ?c ?n k v (hopcnt st ! v)" "hopcnt st ! v < RT_INFINITY" by (auto simp: done_ok_def intro: via_walk)
      with d v(2) have "shortest ?c ?n k v (hopcnt st ! v) \<and> via ?c ?n k v (next_hop (row st ! v)) (hopcnt st ! v)"
        by (simp add: done_ok_def shortest_def cost_to_def first_hop_def)
      with w show ?thesis by auto
    next
      case False
      have "RT_INFINITY \<le> d" if "walk ?c ?n k v d" for d
        using walk_leaves [OF inv costs that False] stuck by (auto simp: stuck_def intro: order_trans)
      then have "\<not> (\<exists>d. walk ?c ?n k v d \<and> d < RT_INFINITY)" by (auto simp: not_less)
      moreover have "open_ok ?c ?n k st v" using inv v(1) False by (auto simp: dij_inv_def split: if_splits)
      moreover have "RT_INFINITY \<le> hopcnt st ! v" using stuck v(1) False by (simp add: stuck_def)
      ultimately show ?thesis by (auto simp: open_ok_def)
    qed
  qed
  with inv st show ?thesis by (simp add: dij_inv_def)
qed

section \<open>The table\<close>

lemma INDEX_inj:
  assumes "INDEX i j n = INDEX i' j' n" and "j < n" and "j' < n"
  shows "i = i' \<and> j = j'"
proof -
  have "(n * i + j) div n = i" "(n * i' + j') div n = i'" "(n * i + j) mod n = j" "(n * i' + j') mod n = j'" using assms(2,3) by auto
  with assms(1) show ?thesis by (simp add: INDEX_def)
qed

lemma INDEX_less: "i < m \<Longrightarrow> j < n \<Longrightarrow> INDEX i j n < n * m"
proof -
  assume "i < m" "j < n"
  then have "n * i + j < n * Suc i" by simp
  also have "\<dots> \<le> n * m" using \<open>i < m\<close> by (simp only: mult_le_mono2 Suc_leI)
  finally show ?thesis by (simp add: INDEX_def)
qed

lemma concat_nth:
  "\<forall>r \<in> set rows. length r = n \<Longrightarrow> i < length rows \<Longrightarrow> j < n \<Longrightarrow> concat rows ! INDEX i j n = rows ! i ! j"
proof (induction rows arbitrary: i)
  case (Cons r rows)
  then show ?case by (cases i) (auto simp: INDEX_def nth_append)
qed simp

lemma length_concat_rows: "\<forall>r \<in> set rows. length r = n \<Longrightarrow> length (concat rows) = n * length rows"
  by (induction rows) auto

definition rows_ok :: "'e route_logic \<Rightarrow> nat \<Rightarrow> real list \<times> 'e route_entry list list \<Rightarrow> bool" where
  "rows_ok rl m x \<longleftrightarrow>
     length (fst x) = rsize rl \<and> length (snd x) = m \<and> (\<forall>r \<in> set (snd x). length r = rsize rl)
     \<and> (\<forall>i \<in> nodes m. row_ok (ADJ rl) (rsize rl) i (snd x ! i))"

lemma compute_rows_ok:
  assumes costs: "costs_ok (ADJ rl) (rsize rl)" and raw: "length raw = rsize rl" and n: "0 < rsize rl"
  shows "rows_ok rl (rsize rl) (compute_rows rl raw)"
proof -
  let ?f = "\<lambda>k (hops, rows). let st = source_routes rl k hops in (hopcnt st, rows @ [row st])"
  have "rows_ok rl (Suc m) (fold ?f [1..<Suc m] (raw, [replicate (rsize rl) no_route]))" if "Suc m \<le> rsize rl" for m
    using that
  proof (induction m)
    case 0
    with raw show ?case by (simp add: rows_ok_def nodes_def)
  next
    case (Suc m)
    obtain hops rows where f: "fold ?f [1..<Suc m] (raw, [replicate (rsize rl) no_route]) = (hops, rows)" by fastforce
    with Suc have IH: "rows_ok rl (Suc m) (hops, rows)" by simp
    have k: "Suc m \<in> nodes (rsize rl)" using Suc.prems by (simp add: nodes_def)
    have hops: "length hops = rsize rl" using IH by (simp add: rows_ok_def)
    note r = source_routes_ok [OF k costs hops]
    have step: "fold ?f [1..<Suc (Suc m)] (raw, [replicate (rsize rl) no_route])
      = (hopcnt (source_routes rl (Suc m) hops), rows @ [row (source_routes rl (Suc m) hops)])"
      using f by (simp add: Let_def)
    have "row_ok (ADJ rl) (rsize rl) i ((rows @ [row (source_routes rl (Suc m) hops)]) ! i)" if i: "i \<in> nodes (Suc (Suc m))" for i
    proof (cases "i = Suc m")
      case True
      with IH r show ?thesis by (simp add: rows_ok_def nth_append)
    next
      case False
      with i have "i \<in> nodes (Suc m)" by (auto simp: nodes_def)
      with IH show ?thesis by (auto simp: rows_ok_def nth_append nodes_def)
    qed
    with IH r show ?case unfolding step by (simp add: rows_ok_def sized_def)
  qed
  from this [of "rsize rl - 1"] n show ?thesis by (simp add: compute_rows_def)
qed

lemma self_routes:
  assumes "\<forall>k \<in> set ks. k < n" and "length r = n * n" and "i < n" and "j < n"
  shows "fold (\<lambda>k r. r[INDEX k k n := x k]) ks r ! INDEX i j n = (if i = j \<and> i \<in> set ks then x i else r ! INDEX i j n)"
  using assms
proof (induction ks arbitrary: r)
  case (Cons k ks)
  have k: "k < n" "\<forall>k \<in> set ks. k < n" using Cons.prems(1) by simp_all
  then have "INDEX k k n < length r" using INDEX_less [of k n k n] Cons.prems(2) by simp
  moreover have "INDEX k k n = INDEX i j n \<longleftrightarrow> i = k \<and> j = k" using INDEX_inj [of k k n i j] k(1) Cons.prems(4) by auto
  ultimately have c: "r[INDEX k k n := x k] ! INDEX i j n = (if i = k \<and> j = k then x k else r ! INDEX i j n)" by (simp add: nth_list_update)
  have "length (r[INDEX k k n := x k]) = n * n" using Cons.prems(2) by simp
  note IH = Cons.IH [OF k(2) this Cons.prems(3,4), unfolded c]
  show ?case unfolding fold_simps IH by (cases "i = j"; cases "i = k") simp_all
qed simp

lemma length_self_routes: "length (fold (\<lambda>k r. r[INDEX k k n := x k]) ks r) = length r"
  by (induction ks arbitrary: r) auto

text \<open>The next hop towards a node, by the numbers of the matrices.\<close>

definition hop_to :: "'e route_logic \<Rightarrow> nat \<Rightarrow> nat \<Rightarrow> nat" where
  "hop_to rl i j = (case route rl of None \<Rightarrow> 0 | Some rt \<Rightarrow> next_hop (rt ! INDEX i j (rsize rl)))"

lemma compute_routes_ok:
  assumes costs: "costs_ok (ADJ rl) (rsize rl)" and raw: "length raw = rsize rl" and i: "i \<in> nodes (rsize rl)" and j: "j \<in> nodes (rsize rl)"
  shows "(\<exists>rt. route (compute_routes raw rl) = Some rt \<and> length rt = rsize rl * rsize rl)
    \<and> (if i = j then hop_to (compute_routes raw rl) i j = i
       else if \<exists>d. walk (ADJ rl) (rsize rl) i j d \<and> d < RT_INFINITY
       then \<exists>d. shortest (ADJ rl) (rsize rl) i j d \<and> via (ADJ rl) (rsize rl) i j (hop_to (compute_routes raw rl) i j) d
       else hop_to (compute_routes raw rl) i j = 0)"
proof -
  let ?n = "rsize rl"
  have n: "0 < ?n" "i < ?n" "j < ?n" using i j by (auto simp: nodes_def)
  obtain hops rows where r: "compute_rows rl raw = (hops, rows)" by fastforce
  with compute_rows_ok [OF costs raw n(1)] have ok: "length rows = ?n" "\<forall>r \<in> set rows. length r = ?n"
    "row_ok (ADJ rl) ?n i (rows ! i)" using i by (auto simp: rows_ok_def)
  let ?x = "\<lambda>k. \<lparr>next_hop = k, route_ent = None\<rparr>"
  let ?rt = "fold (\<lambda>k r. r[INDEX k k ?n := ?x k]) [1..<?n] (concat rows)"
  obtain rt where rt: "?rt = rt" by blast
  have eq: "compute_routes raw rl = rl\<lparr>route := Some rt\<rparr>" by (simp only: compute_routes_def Let_def r snd_conv rt)
  have len: "length (concat rows) = ?n * ?n" using length_concat_rows [OF ok(2)] ok(1) by simp
  have "\<forall>k \<in> set [1..<?n]. k < ?n" by simp
  from self_routes [OF this len n(2,3), of ?x] have cell: "rt ! INDEX i j ?n = (if i = j then ?x i else rows ! i ! j)"
    unfolding set_upt_nodes rt using i concat_nth [OF ok(2)] ok(1) n(2,3) by simp
  have hop: "hop_to (compute_routes raw rl) i j = (if i = j then i else next_hop (rows ! i ! j))"
    unfolding eq by (simp add: hop_to_def cell)
  have "length rt = ?n * ?n" using len unfolding rt [symmetric] by (simp only: length_self_routes)
  then have "\<exists>rt. route (compute_routes raw rl) = Some rt \<and> length rt = ?n * ?n" unfolding eq by simp
  then show ?thesis using ok(3) j hop by (auto simp: row_ok_def no_route_def)
qed

lemma lookup_flat_hop:
  assumes "route rl = Some rt" and "length rt = rsize rl * rsize rl" and "i < rsize rl" and "j < rsize rl"
  shows "lookup_flat (int i - 1) (int j - 1) rl = Inr (int (hop_to rl i j) - 1)"
proof -
  have "INDEX i j (rsize rl) < length rt" using INDEX_less [of i "rsize rl" j "rsize rl"] assms by simp
  moreover have "int (rsize rl) * int i + int j = int (INDEX i j (rsize rl))" by (simp add: INDEX_def)
  ultimately show ?thesis using assms(1,3,4) by (simp add: lookup_flat_def hop_to_def)
qed

section \<open>Following the next hops\<close>

text \<open>The nodes a packet passes when each sends it to its next hop; at most \<open>n\<close> hops.\<close>

fun follow :: "(nat \<Rightarrow> nat \<Rightarrow> nat) \<Rightarrow> nat \<Rightarrow> nat \<Rightarrow> nat \<Rightarrow> nat list option" where
  "follow hop n i j =
     (if i = j then Some [i]
      else if hop i j = 0 then None
      else (case n of 0 \<Rightarrow> None | Suc m \<Rightarrow> map_option (\<lambda>xs. i # xs) (follow hop m (hop i j) j)))"

declare follow.simps [simp del]

fun path_cost :: "(nat \<Rightarrow> nat \<Rightarrow> real) \<Rightarrow> nat list \<Rightarrow> real" where
  "path_cost c (i # j # xs) = c i j + path_cost c (j # xs)"
| "path_cost c xs = 0"

definition nearer :: "(nat \<Rightarrow> nat \<Rightarrow> real) \<Rightarrow> nat \<Rightarrow> nat \<Rightarrow> real \<Rightarrow> nat set" where
  "nearer c n j d = {u \<in> nodes n. \<exists>e < d. shortest c n u j e}"

lemma nearer_mono: "d \<le> e \<Longrightarrow> nearer c n j d \<subseteq> nearer c n j e"
  unfolding nearer_def by (blast intro: less_le_trans)

text \<open>Each hop is nearer to the destination, so the way ends there.\<close>

lemma follow_shortest:
  assumes table: "\<And>i d. i \<in> nodes n \<Longrightarrow> i \<noteq> j \<Longrightarrow> shortest c n i j d \<Longrightarrow> d < RT_INFINITY \<Longrightarrow> via c n i j (hop i j) d"
    and pos: "\<And>i j. i \<in> nodes n \<Longrightarrow> j \<in> nodes n \<Longrightarrow> 0 < c i j"
  shows "shortest c n i j d \<Longrightarrow> d < RT_INFINITY \<Longrightarrow> card (nearer c n j d) \<le> m
    \<Longrightarrow> \<exists>xs. follow hop m i j = Some xs \<and> xs \<noteq> [] \<and> hd xs = i \<and> last xs = j \<and> successively (is_link c n) xs \<and> path_cost c xs = d"
proof (induction m arbitrary: i d)
  have self: "d = 0" if "shortest c n j j d" for d
  proof -
    have "walk c n j j d" "j \<in> nodes n" using that walk_nodes by (auto simp: shortest_def)
    then have "d \<le> 0" using that walk_refl by (auto simp: shortest_def)
    moreover have "0 \<le> d" using \<open>walk c n j j d\<close>
    proof (induction rule: walk.induct)
      case (walk_step j' e l)
      then show ?case using pos [of j' l] by (auto simp: is_link_def)
    qed simp
    ultimately show ?thesis by simp
  qed
  have hop: "via c n i j (hop i j) d \<and> shortest c n (hop i j) j (d - c i (hop i j)) \<and> 0 < c i (hop i j) \<and> hop i j \<in> nodes n"
    if "i \<noteq> j" "shortest c n i j d" "d < RT_INFINITY" for i d
  proof -
    have "i \<in> nodes n" using that(2) walk_nodes by (auto simp: shortest_def)
    from table [OF this that] have v: "via c n i j (hop i j) d" .
    with shortest_via [OF that(2) v] pos \<open>i \<in> nodes n\<close> show ?thesis by (auto simp: via_def is_link_def)
  qed
  have near: "hop i j \<in> nearer c n j d" if "i \<noteq> j" "shortest c n i j d" "d < RT_INFINITY" for i d
    using hop [OF that] by (auto simp: nearer_def intro!: exI [of _ "d - c i (hop i j)"])
  have fin: "finite (nearer c n j d)" for d by (rule finite_subset [of _ "nodes n"]) (auto simp: nearer_def nodes_def)
  {
    case 0
    show ?case
    proof (cases "i = j")
      case True
      with self 0 show ?thesis by (subst follow.simps) auto
    next
      case False
      from near [OF this 0(1,2)] 0(3) fin [of d] show ?thesis by (auto simp: card_eq_0_iff)
    qed
  next
    case (Suc m)
    show ?case
    proof (cases "i = j")
      case True
      with self Suc.prems show ?thesis by (subst follow.simps) auto
    next
      case False
      let ?h = "hop i j"
      let ?e = "d - c i ?h"
      note h = hop [OF False Suc.prems(1,2)]
      have "nearer c n j ?e \<subset> nearer c n j d"
      proof (rule psubsetI)
        show "nearer c n j ?e \<subseteq> nearer c n j d" by (rule nearer_mono) (use h in simp)
        have "?h \<in> nearer c n j d" by (rule near [OF False Suc.prems(1,2)])
        moreover have "?h \<notin> nearer c n j ?e" using h shortest_unique by (fastforce simp: nearer_def)
        ultimately show "nearer c n j ?e \<noteq> nearer c n j d" by blast
      qed
      from psubset_card_mono [OF fin this] have "card (nearer c n j ?e) \<le> m" using Suc.prems(3) by linarith
      moreover have "?e < RT_INFINITY" using h Suc.prems(2) by linarith
      ultimately obtain xs where xs: "follow hop m ?h j = Some xs" "xs \<noteq> []" "hd xs = ?h" "last xs = j"
        "successively (is_link c n) xs" "path_cost c xs = ?e"
        using Suc.IH [of ?h ?e] h by blast
      have "?h \<noteq> 0" using h by (auto simp: nodes_def)
      with False xs(1) have "follow hop (Suc m) i j = Some (i # xs)" by (subst follow.simps) simp
      moreover obtain ys where ys: "xs = ?h # ys" using xs(2,3) by (cases xs) auto
      moreover have "is_link c n i ?h" using h by (simp add: via_def)
      ultimately show ?thesis using xs(2-6) by auto
    qed
  }
qed

section \<open>The matrix of costs\<close>

definition adj_ok :: "'e route_logic \<Rightarrow> bool" where
  "adj_ok rl \<longleftrightarrow> length (adj rl) = rsize rl * rsize rl"

text \<open>The cost of a link; there is none to a node the matrix does not hold yet.\<close>

definition link_cost :: "'e route_logic \<Rightarrow> nat \<Rightarrow> nat \<Rightarrow> real" where
  "link_cost rl i j = (if i < rsize rl \<and> j < rsize rl then ADJ rl i j else RT_INFINITY)"

lemma doubled_ge: "0 < m \<Longrightarrow> n < doubled n m \<and> m \<le> doubled n m"
proof (induction n m rule: doubled.induct)
  case (1 n m)
  show ?case
  proof (cases "m \<le> n")
    case True
    with 1 show ?thesis by (subst (1 2) doubled.simps) auto
  next
    case False
    then show ?thesis by (subst (1 2) doubled.simps) auto
  qed
qed

lemma copy_row:
  assumes "i < m" and "\<forall>j \<in> set js. j < m" and "length new = m * m" and "a < m" and "b < m"
  shows "length (fold (\<lambda>j new. new[INDEX i j m := (new ! INDEX i j m)\<lparr>adj_cost := f j\<rparr>]) js new) = m * m
    \<and> fold (\<lambda>j new. new[INDEX i j m := (new ! INDEX i j m)\<lparr>adj_cost := f j\<rparr>]) js new ! INDEX a b m
        = (if a = i \<and> b \<in> set js then (new ! INDEX a b m)\<lparr>adj_cost := f b\<rparr> else new ! INDEX a b m)"
  using assms(2,3)
proof (induction js arbitrary: new)
  case (Cons j js)
  have j: "j < m" "\<forall>j \<in> set js. j < m" using Cons.prems(1) by simp_all
  have "INDEX i j m < length new" using INDEX_less [OF assms(1) j(1)] Cons.prems(2) by simp
  moreover have "INDEX i j m = INDEX a b m \<longleftrightarrow> a = i \<and> b = j" using INDEX_inj [of i j m a b] j(1) assms(5) by auto
  ultimately have c: "new[INDEX i j m := (new ! INDEX i j m)\<lparr>adj_cost := f j\<rparr>] ! INDEX a b m
      = (if a = i \<and> b = j then (new ! INDEX a b m)\<lparr>adj_cost := f j\<rparr> else new ! INDEX a b m)" by (auto simp: nth_list_update)
  have "length (new[INDEX i j m := (new ! INDEX i j m)\<lparr>adj_cost := f j\<rparr>]) = m * m" using Cons.prems(2) by simp
  note IH = Cons.IH [OF j(2) this, unfolded c]
  show ?case unfolding fold_simps using IH by (cases "a = i"; cases "b = j") simp_all
qed simp

lemma copy_costs_rows:
  assumes "\<forall>i \<in> set is. i < m" and "osize \<le> m" and "length new = m * m" and "a < m" and "b < m"
  shows "length (fold (\<lambda>i. fold (\<lambda>j new. new[INDEX i j m := (new ! INDEX i j m)\<lparr>adj_cost := f i j\<rparr>]) [0..<osize]) is new) = m * m
    \<and> fold (\<lambda>i. fold (\<lambda>j new. new[INDEX i j m := (new ! INDEX i j m)\<lparr>adj_cost := f i j\<rparr>]) [0..<osize]) is new ! INDEX a b m
        = (if a \<in> set is \<and> b < osize then (new ! INDEX a b m)\<lparr>adj_cost := f a b\<rparr> else new ! INDEX a b m)"
  using assms(1,3)
proof (induction "is" arbitrary: new)
  case (Cons i "is")
  have i: "i < m" "\<forall>i \<in> set is. i < m" "\<forall>j \<in> set [0..<osize]. j < m" using Cons.prems(1) assms(2) by auto
  note R = copy_row [OF i(1,3) Cons.prems(2) assms(4,5), of "f i"]
  note IH = Cons.IH [OF i(2) conjunct1 [OF R], unfolded conjunct2 [OF R]]
  show ?case unfolding fold_simps using IH by (cases "a = i"; cases "b < osize") simp_all
qed simp

text \<open>Growing keeps the costs and drops the entries.\<close>

lemma rl_check_costs:
  assumes "adj_ok rl"
  shows "adj_ok (rl_check n rl) \<and> n < rsize (rl_check n rl) \<and> rsize rl \<le> rsize (rl_check n rl)
    \<and> (\<forall>i j. link_cost (rl_check n rl) i j = link_cost rl i j)"
proof (cases "n < rsize rl")
  case True
  with assms show ?thesis by (simp add: rl_check_def)
next
  case False
  obtain m where m': "doubled n (if rsize rl = 0 then 16 else rsize rl) = m" by blast
  then have m: "n < m" "rsize rl \<le> m"
    using doubled_ge [of "if rsize rl = 0 then 16 else rsize rl" n] by (auto split: if_splits)
  obtain z :: "'a adj_entry list" where z': "replicate (m * m) \<lparr>adj_cost = RT_INFINITY, adj_ent = None\<rparr> = z" by blast
  then have z: "length z = m * m" "\<And>i. i < m * m \<Longrightarrow> z ! i = \<lparr>adj_cost = RT_INFINITY, adj_ent = None\<rparr>" by auto
  have rows: "\<forall>i \<in> set [0..<rsize rl]. i < m" using m(2) by auto
  note C = copy_costs_rows [OF rows m(2) z(1), of _ _ "\<lambda>i j. adj_cost (adj rl ! INDEX i j (rsize rl))", folded copy_costs_def]
  obtain w where w: "copy_costs (adj rl) (rsize rl) m z = w" by blast
  have eq: "rl_check n rl = rl\<lparr>rsize := m, adj := w\<rparr>"
    using False w by (simp add: rl_check_def rl_alloc_def Let_def m' z')
  have cell: "adj_cost (w ! INDEX i j m) = (if i < rsize rl \<and> j < rsize rl then ADJ rl i j else RT_INFINITY)"
    if "i < m" "j < m" for i j
    using C [OF that] z(2) [OF INDEX_less [OF that]] unfolding w by (simp add: ADJ_def)
  have "length w = m * m" using C [OF m(1) m(1)] unfolding w by simp
  with m cell show ?thesis unfolding eq by (auto simp: adj_ok_def link_cost_def ADJ_def)
qed

text \<open>
  Adding a link grows the matrix until both nodes fit, sets the cost of that link and leaves the
  cost of every other link alone.
\<close>

lemma rl_insert_costs:
  assumes "adj_ok rl"
  shows "adj_ok (rl_insert src dst cost rl) \<and> src < rsize (rl_insert src dst cost rl) \<and> dst < rsize (rl_insert src dst cost rl)
    \<and> (\<forall>i j. link_cost (rl_insert src dst cost rl) i j = (if i = src \<and> j = dst then cost else link_cost rl i j))"
proof -
  note c1 = rl_check_costs [OF assms, of src]
  note c2 = rl_check_costs [OF conjunct1 [OF c1], of dst]
  let ?r = "rl_check dst (rl_check src rl)"
  let ?n = "rsize ?r"
  have n: "src < ?n" "dst < ?n" "length (adj ?r) = ?n * ?n" using c1 c2 by (auto simp: adj_ok_def)
  have eq: "rl_insert src dst cost rl = ?r\<lparr>adj := (adj ?r)[INDEX src dst ?n := (adj ?r ! INDEX src dst ?n)\<lparr>adj_cost := cost\<rparr>]\<rparr>"
    by (simp add: rl_insert_def Let_def)
  have "link_cost (rl_insert src dst cost rl) i j = (if i = src \<and> j = dst then cost else link_cost ?r i j)" for i j
  proof (cases "i < ?n \<and> j < ?n")
    case True
    then have "INDEX src dst ?n = INDEX i j ?n \<longleftrightarrow> i = src \<and> j = dst" using INDEX_inj [of src dst ?n i j] n(2) by auto
    with True INDEX_less [OF n(1,2)] n(3) show ?thesis
      unfolding eq link_cost_def ADJ_def by (auto simp: nth_list_update)
  next
    case False
    with n(1,2) show ?thesis unfolding eq link_cost_def by auto
  qed
  moreover have "link_cost ?r i j = link_cost rl i j" for i j using c1 c2 by simp
  ultimately show ?thesis using n by (simp add: eq adj_ok_def)
qed

section \<open>Properties\<close>

text \<open>
  C3: After a computation of the routes, with link costs above zero, a packet that is sent from hop
  to hop as the lookups say takes a shortest path: the way uses links only, arrives after fewer
  hops than the matrix has rows, and its cost is the least of all ways. A destination that cannot
  be reached below the cost that stands for infinity has no route.
\<close>

theorem routes_are_shortest:
  assumes costs: "costs_ok (ADJ rl) (rsize rl)" and raw: "length raw = rsize rl" and i: "i \<in> nodes (rsize rl)" and j: "j \<in> nodes (rsize rl)"
    and pos: "\<forall>i \<in> nodes (rsize rl). \<forall>j \<in> nodes (rsize rl). 0 < ADJ rl i j"
  shows "lookup_flat (int i - 1) (int j - 1) (compute_routes raw rl) = Inr (int (hop_to (compute_routes raw rl) i j) - 1)
    \<and> (if \<exists>d. walk (ADJ rl) (rsize rl) i j d \<and> d < RT_INFINITY
       then \<exists>d xs. shortest (ADJ rl) (rsize rl) i j d \<and> follow (hop_to (compute_routes raw rl)) (rsize rl) i j = Some xs
              \<and> hd xs = i \<and> last xs = j \<and> successively (is_link (ADJ rl) (rsize rl)) xs \<and> path_cost (ADJ rl) xs = d
       else hop_to (compute_routes raw rl) i j = 0)"
proof -
  let ?n = "rsize rl" and ?c = "ADJ rl"
  obtain r where r: "compute_routes raw rl = r" by blast
  then have rs: "rsize r = ?n" by (auto simp: compute_routes_def Let_def)
  note ok = compute_routes_ok [OF costs raw, unfolded r]
  from ok [OF i j] obtain rt where rt: "route r = Some rt" "length rt = ?n * ?n" by blast
  have n: "i < ?n" "j < ?n" using i j by (auto simp: nodes_def)
  have look: "lookup_flat (int i - 1) (int j - 1) r = Inr (int (hop_to r i j) - 1)"
    using lookup_flat_hop [of r rt i j] rt rs n by simp
  have table: "via ?c ?n i j (hop_to r i j) d" if "i \<in> nodes ?n" "i \<noteq> j" "shortest ?c ?n i j d" "d < RT_INFINITY" for i d
  proof -
    have "\<exists>d. walk ?c ?n i j d \<and> d < RT_INFINITY" using that(3,4) by (auto simp: shortest_def)
    with ok [OF that(1) j] that(2) obtain e where "shortest ?c ?n i j e" "via ?c ?n i j (hop_to r i j) e" by auto
    with shortest_unique that(3) show ?thesis by metis
  qed
  show ?thesis
  proof (cases "\<exists>d. walk ?c ?n i j d \<and> d < RT_INFINITY")
    case True
    have "\<exists>d. shortest ?c ?n i j d \<and> d < RT_INFINITY"
    proof (cases "i = j")
      case True
      with shortest_self [OF costs i] show ?thesis by (auto simp: RT_INFINITY_def)
    next
      case False
      from True ok [OF i j] False obtain d where "shortest ?c ?n i j d" by auto
      moreover from True obtain e where "walk ?c ?n i j e" "e < RT_INFINITY" by blast
      ultimately show ?thesis by (auto simp: shortest_def intro: le_less_trans)
    qed
    then obtain d where d: "shortest ?c ?n i j d" "d < RT_INFINITY" by blast
    have "card (nearer ?c ?n j d) \<le> card {..<?n}" by (rule card_mono) (auto simp: nearer_def nodes_def)
    then have "card (nearer ?c ?n j d) \<le> ?n" by simp
    moreover have "0 < ?c a b" if "a \<in> nodes ?n" "b \<in> nodes ?n" for a b using pos that by blast
    ultimately obtain xs where "follow (hop_to r) ?n i j = Some xs" "hd xs = i" "last xs = j" "successively (is_link ?c ?n) xs"
      "path_cost ?c xs = d"
      using follow_shortest [where hop = "hop_to r" and c = ?c and n = ?n and j = j, OF table _ d] by blast
    with d(1) look True show ?thesis unfolding r by auto
  next
    case False
    have "walk ?c ?n i i 0" "(0 :: real) < RT_INFINITY" using i by (auto simp: walk_refl RT_INFINITY_def)
    with False have "i \<noteq> j" by blast
    with False ok [OF i j] have "hop_to r i j = 0" by auto
    with False look show ?thesis unfolding r by auto
  qed
qed

text \<open>Links added one after the other, each with its ends and its cost.\<close>

definition add_links :: "((nat \<times> nat) \<times> real) list \<Rightarrow> 'e route_logic \<Rightarrow> 'e route_logic" where
  "add_links ls = fold (\<lambda>((src, dst), cost). rl_insert src dst cost) ls"

lemma add_links_costs:
  assumes "adj_ok rl"
  shows "adj_ok (add_links ls rl)
    \<and> link_cost (add_links ls rl) i j = (case map_of (rev ls) (i, j) of None \<Rightarrow> link_cost rl i j | Some c \<Rightarrow> c)
    \<and> (\<forall>((a, b), c) \<in> set ls. a < rsize (add_links ls rl) \<and> b < rsize (add_links ls rl)) \<and> rsize rl \<le> rsize (add_links ls rl)"
  using assms
proof (induction ls arbitrary: rl)
  case (Cons l ls)
  obtain a b c where l: "l = ((a, b), c)" by (cases l) auto
  note I = rl_insert_costs [OF Cons.prems, of a b c]
  have "rsize rl \<le> rsize (rl_insert a b c rl)"
    using rl_check_costs [OF Cons.prems, of a] rl_check_costs [of "rl_check a rl" b] by (auto simp: rl_insert_def Let_def)
  with Cons.IH [OF conjunct1 [OF I]] I l show ?case
    by (auto simp: add_links_def map_add_def split: option.splits)
qed (simp add: add_links_def)

lemma adj_ok_new: "adj_ok rl_new"
  by (simp add: adj_ok_def rl_new_def)

text \<open>
  After any sequence of links added to an empty matrix, the matrix holds every node named, the
  cost of a link is the one given last, and there is no link between two nodes that none was added
  for, however often the matrix has grown on the way.
\<close>

theorem route_links_costs:
  "let rl = (add_links ls rl_new :: 'e route_logic)
   in (\<forall>((a, b), c) \<in> set ls. a < rsize rl \<and> b < rsize rl)
    \<and> (\<forall>i < rsize rl. \<forall>j < rsize rl. ADJ rl i j = (case map_of (rev ls) (i, j) of None \<Rightarrow> RT_INFINITY | Some c \<Rightarrow> c))"
proof -
  have z: "link_cost (rl_new :: 'e route_logic) i j = RT_INFINITY" for i j by (simp add: link_cost_def rl_new_def)
  have "adj_ok (rl_new :: 'e route_logic)" by (rule adj_ok_new)
  note A = add_links_costs [OF this, of ls, unfolded z]
  have "ADJ rl i j = link_cost rl i j" if "i < rsize rl" "j < rsize rl" for i j and rl :: "'e route_logic"
    using that by (simp add: link_cost_def)
  note B = this
  show ?thesis
    unfolding Let_def
  proof (intro conjI allI impI)
    show "\<forall>((a, b), c) \<in> set ls. a < rsize (add_links ls rl_new :: 'e route_logic) \<and> b < rsize (add_links ls rl_new :: 'e route_logic)"
      by (rule A [THEN conjunct2, THEN conjunct2, THEN conjunct1])
    fix i j assume "i < rsize (add_links ls rl_new :: 'e route_logic)" "j < rsize (add_links ls rl_new :: 'e route_logic)"
    from B [OF this] show "ADJ (add_links ls rl_new :: 'e route_logic) i j = (case map_of (rev ls) (i, j) of None \<Rightarrow> RT_INFINITY | Some c \<Rightarrow> c)"
      by (rule trans) (rule A [THEN conjunct2, THEN conjunct1])
  qed
qed

theorem route_links_costs_witness:
  "let rl = (add_links [((1, 40), 2), ((1, 3), 5), ((1, 40), 7)] rl_new :: nat route_logic)
   in 40 < rsize rl \<and> ADJ rl 1 40 = 7 \<and> ADJ rl 1 3 = 5 \<and> ADJ rl 3 1 = RT_INFINITY"
proof -
  obtain rl :: "nat route_logic" where rl: "add_links [((1, 40), 2), ((1, 3), 5), ((1, 40), 7)] rl_new = rl" by blast
  from route_links_costs [of "[((1, 40), 2), ((1, 3), 5), ((1, 40), 7)]", where 'e = nat, unfolded rl Let_def]
  have "1 < rsize rl" "3 < rsize rl" "40 < rsize rl"
    "\<forall>i < rsize rl. \<forall>j < rsize rl. ADJ rl i j = (case map_of (rev [((1, 40), 2), ((1, 3), 5), ((1, 40), 7)]) (i, j) of None \<Rightarrow> RT_INFINITY | Some c \<Rightarrow> c)"
    by auto
  then show ?thesis unfolding rl Let_def by auto
qed

definition demo_links :: "((nat \<times> nat) \<times> real) list" where
  "demo_links = [((1, 2), 1), ((2, 3), 2), ((1, 3), 5)]"

definition demo_net :: "nat route_logic" where
  "demo_net = add_links demo_links rl_new"

lemma demo_net_cost:
  "i \<in> nodes (rsize demo_net) \<Longrightarrow> j \<in> nodes (rsize demo_net)
   \<Longrightarrow> ADJ demo_net i j = (if (i, j) = (1, 2) then 1 else if (i, j) = (2, 3) then 2 else if (i, j) = (1, 3) then 5 else RT_INFINITY)"
  using add_links_costs [OF adj_ok_new, of demo_links i j]
  by (auto simp: nodes_def link_cost_def demo_net_def demo_links_def rl_new_def split: if_splits)

theorem routes_are_shortest_witness:
  "\<exists>d xs. shortest (ADJ demo_net) (rsize demo_net) 1 3 d \<and> d \<le> 5
    \<and> follow (hop_to (compute_routes (replicate (rsize demo_net) 0) demo_net)) (rsize demo_net) 1 3 = Some xs
    \<and> path_cost (ADJ demo_net) xs = d"
proof -
  let ?n = "rsize demo_net"
  have n: "1 \<in> nodes ?n" "3 \<in> nodes ?n"
    using add_links_costs [OF adj_ok_new, of demo_links] by (auto simp: nodes_def demo_net_def demo_links_def)
  have pos: "0 < ADJ demo_net i j \<and> ADJ demo_net i j \<le> RT_INFINITY" if "i \<in> nodes ?n" "j \<in> nodes ?n" for i j
    using demo_net_cost [OF that] by (simp add: RT_INFINITY_def)
  then have ok: "costs_ok (ADJ demo_net) ?n" "\<forall>i \<in> nodes ?n. \<forall>j \<in> nodes ?n. 0 < ADJ demo_net i j"
    by (auto simp: costs_ok_def intro: less_imp_le)
  have c: "ADJ demo_net 1 3 = 5" using demo_net_cost [OF n] by simp
  with n have "walk (ADJ demo_net) ?n 1 3 5"
    using walk_link [of "ADJ demo_net" ?n 1 3] by (simp add: is_link_def RT_INFINITY_def)
  moreover from this have "\<exists>d. walk (ADJ demo_net) ?n 1 3 d \<and> d < RT_INFINITY" by (auto simp: RT_INFINITY_def)
  moreover note routes_are_shortest [OF ok(1) length_replicate n ok(2), of 0]
  ultimately show ?thesis by (auto simp: shortest_def)
qed

end
