(* ===== verification/NsQueue.thy ===== *)
theory NsQueue
  imports NsPacket "HOL-Library.Sublist"
begin

text \<open>
  The queues of the links: class \<open>PacketQueue\<close> and the base class \<open>Queue\<close> of \<open>queue/queue.cc\<close>, and
  the discipline \<open>DropTail\<close>. The interface \<open>queue_disc\<close> is what \<open>Queue\<close> wants of a discipline;
  within it, no packet is lost or doubled on the way through a link, and a link is idle only when
  nothing waits.
\<close>

section \<open>Packet queues\<close>

text \<open>
  The packets from \<open>head_\<close> to \<open>tail_\<close>, linked by \<open>next_\<close>, with the counters \<open>len_\<close> and \<open>bytes_\<close>.
  Two packets are the same when their uids are. The iterator is not modelled.
\<close>

record 'b pkt_queue =
  pq_items :: "'b packet list"
  pq_len :: int
  pq_bytes :: int

definition pq_new :: "'b pkt_queue" where
  "pq_new = \<lparr>pq_items = [], pq_len = 0, pq_bytes = 0\<rparr>"

text \<open>\<open>enque\<close> returns the previous tail.\<close>

definition pq_tail :: "'b pkt_queue \<Rightarrow> 'b packet option" where
  "pq_tail q = (if pq_items q = [] then None else Some (List.last (pq_items q)))"

definition pq_head :: "'b pkt_queue \<Rightarrow> 'b packet option" where
  "pq_head q = (case pq_items q of [] \<Rightarrow> None | p # ps \<Rightarrow> Some p)"

definition pq_enque :: "'b packet \<Rightarrow> 'b pkt_queue \<Rightarrow> 'b packet option \<times> 'b pkt_queue" where
  "pq_enque p q =
     (pq_tail q, \<lparr>pq_items = pq_items q @ [p], pq_len = pq_len q + 1, pq_bytes = pq_bytes q + psize p\<rparr>)"

definition pq_deque :: "'b pkt_queue \<Rightarrow> 'b packet option \<times> 'b pkt_queue" where
  "pq_deque q =
     (case pq_items q of
        [] \<Rightarrow> (None, q)
      | p # ps \<Rightarrow> (Some p, \<lparr>pq_items = ps, pq_len = pq_len q - 1, pq_bytes = pq_bytes q - psize p\<rparr>))"

definition pq_lookup :: "int \<Rightarrow> 'b pkt_queue \<Rightarrow> 'b packet option" where
  "pq_lookup n q = (if nat n < length (pq_items q) then Some (pq_items q ! nat n) else None)"

definition pq_enqueHead :: "'b packet \<Rightarrow> 'b pkt_queue \<Rightarrow> 'b pkt_queue" where
  "pq_enqueHead p q = \<lparr>pq_items = p # pq_items q, pq_len = pq_len q + 1, pq_bytes = pq_bytes q + psize p\<rparr>"

text \<open>A packet that is not in the queue ends the simulation.\<close>

definition pq_remove :: "'b packet \<Rightarrow> 'b pkt_queue \<Rightarrow> 'b pkt_queue res" where
  "pq_remove target q =
     (case find (\<lambda>p. uid p = uid target) (pq_items q) of
        None \<Rightarrow> Inl Aborted
      | Some p \<Rightarrow>
          Inr \<lparr>pq_items = remove_first (\<lambda>p. uid p = uid target) (pq_items q), pq_len = pq_len q - 1,
               pq_bytes = pq_bytes q - psize p\<rparr>)"

definition pq_inv :: "'b pkt_queue \<Rightarrow> bool" where
  "pq_inv q \<longleftrightarrow> pq_len q = int (length (pq_items q)) \<and> pq_bytes q = sum_list (map psize (pq_items q))"

lemma pq_inv_ops:
  assumes "pq_inv q"
  shows "pq_inv (snd (pq_enque p q))" "pq_inv (snd (pq_deque q))" "pq_inv (pq_enqueHead p q)"
  using assms by (auto simp: pq_inv_def pq_enque_def pq_deque_def pq_enqueHead_def split: list.splits)

lemma remove_first_sum:
  "find P xs = Some x \<Longrightarrow> sum_list (map f (remove_first P xs)) = sum_list (map f xs) - (f x :: int)
    \<and> Suc (length (remove_first P xs)) = length xs \<and> mset xs = add_mset x (mset (remove_first P xs))"
  by (induction xs) (auto split: if_splits)

lemma pq_remove_inv:
  assumes "pq_inv q" and "pq_remove p q = Inr q'"
  shows "pq_inv q'"
proof -
  obtain x where x: "find (\<lambda>y. uid y = uid p) (pq_items q) = Some x" using assms(2) by (auto simp: pq_remove_def split: option.splits)
  with remove_first_sum [OF x, of psize] assms show ?thesis by (auto simp: pq_remove_def pq_inv_def)
qed

section \<open>Statistics of a link\<close>

text \<open>
  The decaying average \<open>old_util_\<close> of the utilisation, and the buffer of the means over the last
  periods of \<open>util_check_intv_\<close> seconds. Times and averages are reals.
\<close>

record util =
  old_util :: real
  util_weight :: real
  util_check_intv :: real
  util_records :: int
  last_change :: real
  period_begin :: real
  cur_util :: real
  buf_slot :: nat
  util_buf :: "real list"

text \<open>The loop over the periods that have ended; \<open>guard\<close> counts its rounds.\<close>

function util_loop :: "int \<Rightarrow> real \<Rightarrow> real \<Rightarrow> real \<Rightarrow> real \<Rightarrow> util \<Rightarrow> util" where
  "util_loop guard tot intv int_end state u =
     (if tot + intv > util_check_intv u \<and> guard < util_records u then
        util_loop (guard + 1) tot (intv - util_check_intv u) int_end state
          (u\<lparr>period_begin := int_end, util_buf := (util_buf u)[buf_slot u := cur_util u],
            buf_slot := Suc (buf_slot u) mod nat (util_records u), cur_util := state\<rparr>)
      else u)"
  by pat_completeness auto
termination by (relation "measure (\<lambda>(g, _, _, _, _, u). nat (util_records u - g))") auto

declare util_loop.simps [simp del]

definition utilUpdate :: "real \<Rightarrow> real \<Rightarrow> real \<Rightarrow> util \<Rightarrow> util" where
  "utilUpdate int_begin int_end state u =
     (let u1 = u\<lparr>old_util := state + (old_util u - state) * exp (- util_weight u * (int_end - int_begin))\<rparr>;
          intv = int_end - int_begin;
          tot = int_begin - period_begin u
      in if util_records u = 0 then u1
         else if intv \<noteq> 0 \<or> tot \<noteq> 0 then
           util_loop 0 tot intv int_end state (u1\<lparr>cur_util := (state * intv + cur_util u * tot) / (intv + tot)\<rparr>)
         else u1)"

text \<open>Every caller passes the state of the link and moves \<open>last_change_\<close> to the present.\<close>

definition util_note :: "real \<Rightarrow> bool \<Rightarrow> util \<Rightarrow> util" where
  "util_note now b u = (utilUpdate (last_change u) now (of_bool b) u)\<lparr>last_change := now\<rparr>"

definition utilization :: "real \<Rightarrow> bool \<Rightarrow> util \<Rightarrow> real \<times> util" where
  "utilization now b u = (let u1 = util_note now b u in (old_util u1, u1))"

definition peak_utilization :: "real \<Rightarrow> bool \<Rightarrow> util \<Rightarrow> real \<times> util" where
  "peak_utilization now b u =
     (if util_records u = 0 then utilization now b u
      else let u1 = util_note now b u
           in (foldl (\<lambda>peak x. if x > peak then x else peak) 0 (take (nat (util_records u1)) (util_buf u1)), u1))"

definition util_inv :: "util \<Rightarrow> bool" where
  "util_inv u \<longleftrightarrow> 0 \<le> util_weight u \<and> old_util u \<in> {0..1} \<and> cur_util u \<in> {0..1} \<and> set (util_buf u) \<subseteq> {0..1}
     \<and> period_begin u \<le> last_change u \<and> int (length (util_buf u)) = max 0 (util_records u)
     \<and> (0 < util_records u \<longrightarrow> buf_slot u < length (util_buf u))"

lemma util_invI:
  assumes "0 \<le> util_weight u" "old_util u \<in> {0..1}" "cur_util u \<in> {0..1}" "set (util_buf u) \<subseteq> {0..1}"
    "period_begin u \<le> last_change u" "int (length (util_buf u)) = max 0 (util_records u)"
    "0 < util_records u \<Longrightarrow> buf_slot u < length (util_buf u)"
  shows "util_inv u"
  using assms by (simp add: util_inv_def)

lemma util_invD:
  assumes "util_inv u"
  shows "0 \<le> util_weight u" "old_util u \<in> {0..1}" "cur_util u \<in> {0..1}" "set (util_buf u) \<subseteq> {0..1}"
    "period_begin u \<le> last_change u" "int (length (util_buf u)) = max 0 (util_records u)"
    "0 < util_records u \<Longrightarrow> buf_slot u < length (util_buf u)"
  using assms by (simp_all add: util_inv_def)

text \<open>A weighted mean of two values between 0 and 1 is between 0 and 1.\<close>

lemma mean_unit:
  fixes x y :: real
  assumes "x \<in> {0..1}" "y \<in> {0..1}" "0 \<le> a" "0 \<le> b" "0 < a + b"
  shows "(x * a + y * b) / (a + b) \<in> {0..1}"
proof -
  have "x * a \<le> a" "y * b \<le> b" using assms by (auto intro: mult_left_le_one_le)
  moreover have "0 \<le> x * a" "0 \<le> y * b" using assms by auto
  ultimately show ?thesis using assms(5) by simp
qed

lemma util_loop_inv:
  assumes "util_inv (u\<lparr>last_change := max t (last_change u)\<rparr>)" and "state \<in> {0..1}" and "0 \<le> guard"
  shows "util_inv ((util_loop guard tot intv t state u)\<lparr>last_change := max t (last_change u)\<rparr>)
    \<and> last_change (util_loop guard tot intv t state u) = last_change u
    \<and> old_util (util_loop guard tot intv t state u) = old_util u
    \<and> util_weight (util_loop guard tot intv t state u) = util_weight u"
  using assms
proof (induction guard tot intv t state u rule: util_loop.induct)
  case (1 guard tot intv t state u)
  show ?case
  proof (cases "tot + intv > util_check_intv u \<and> guard < util_records u")
    case True
    let ?v = "u\<lparr>period_begin := t, util_buf := (util_buf u)[buf_slot u := cur_util u],
      buf_slot := Suc (buf_slot u) mod nat (util_records u), cur_util := state\<rparr>"
    note i = util_invD [OF 1(2)]
    have r: "0 < util_records u" using True 1(4) by linarith
    have "util_inv (?v\<lparr>last_change := max t (last_change ?v)\<rparr>)"
    proof (rule util_invI, goal_cases)
      case 4
      from i(3,4) show ?case by (simp add: set_update_subsetI)
    next
      case 7
      from i(6) r have "nat (util_records u) = length (util_buf u)" "0 < length (util_buf u)" by auto
      then show ?case by simp
    qed (use i r 1(3) in auto)
    moreover have "util_loop guard tot intv t state u = util_loop (guard + 1) tot (intv - util_check_intv u) t state ?v"
      by (subst util_loop.simps) (simp only: True if_True simp_thms)
    ultimately show ?thesis using 1(1) [OF True _ 1(3)] 1(4) by simp
  next
    case False
    then have "util_loop guard tot intv t state u = u" by (simp only: util_loop.simps [of guard] if_False)
    with 1(2) show ?thesis by simp
  qed
qed

lemma util_note_inv:
  assumes "util_inv u" and "last_change u \<le> now"
  shows "util_inv (util_note now b u) \<and> last_change (util_note now b u) = now"
proof -
  note i = util_invD [OF assms(1)]
  define s :: real where "s = of_bool b"
  define e where "e = exp (- util_weight u * (now - last_change u))"
  have s: "s \<in> {0..1}" by (simp add: s_def)
  have e: "e \<in> {0..1}" using i(1) assms(2) by (simp add: e_def)
  have "s + (old_util u - s) * e = (s * (1 - e) + old_util u * e) / ((1 - e) + e)" by (simp add: algebra_simps)
  with mean_unit [OF s i(2), of "1 - e" e] e have o: "s + (old_util u - s) * e \<in> {0..1}" by simp
  define u1 where "u1 = u\<lparr>old_util := s + (old_util u - s) * e\<rparr>"
  have inv1: "util_inv (u1\<lparr>cur_util := c, last_change := now\<rparr>)" if "c \<in> {0..1}" for c
    by (rule util_invI) (use i o assms(2) that in \<open>auto simp: u1_def\<close>)
  show ?thesis
  proof (cases "util_records u \<noteq> 0 \<and> (now - last_change u \<noteq> 0 \<or> last_change u - period_begin u \<noteq> 0)")
    case True
    define c where "c = (s * (now - last_change u) + cur_util u * (last_change u - period_begin u)) / (now - last_change u + (last_change u - period_begin u))"
    have c: "c \<in> {0..1}" unfolding c_def by (rule mean_unit [OF s i(3)]) (use True assms(2) i(5) in auto)
    have m: "max now (last_change u) = now" using assms(2) by simp
    have "util_inv ((u1\<lparr>cur_util := c\<rparr>)\<lparr>last_change := max now (last_change (u1\<lparr>cur_util := c\<rparr>))\<rparr>)"
      using inv1 [OF c] m by (simp add: u1_def)
    from util_loop_inv [OF this s, of 0] m True show ?thesis
      by (auto simp: util_note_def utilUpdate_def Let_def s_def e_def u1_def c_def)
  next
    case False
    with inv1 [OF i(3)] show ?thesis by (auto simp: util_note_def utilUpdate_def Let_def s_def e_def u1_def)
  qed
qed

text \<open>
  The average size of the queue over all time, \<open>true_ave_\<close>; \<open>total_time_\<close> is the time up to which
  it has been computed. \<open>n\<close> is the size since then.
\<close>

definition updateStats :: "real \<Rightarrow> int \<Rightarrow> real \<times> real \<Rightarrow> real \<times> real" where
  "updateStats now n st =
     (case st of (true_ave, total_time) \<Rightarrow>
        if now - total_time > 0 then
          ((total_time * true_ave + (now - total_time) * of_int n) / now, now)
        else (true_ave, total_time))"

text \<open>The area under the size of the queue, for samples \<open>(t, n)\<close>: the size was \<open>n\<close> until \<open>t\<close>.\<close>

fun area :: "real \<Rightarrow> (real \<times> int) list \<Rightarrow> real" where
  "area t0 [] = 0"
| "area t0 ((t, n) # ss) = (t - t0) * of_int n + area t ss"

lemma updateStats_area:
  assumes "0 \<le> t0" and "\<forall>(t, n) \<in> set ss. t0 \<le> t" and "sorted (map fst ss)"
    and "fold (\<lambda>(t, n). updateStats t n) ss (a, t0) = (a', t')"
  shows "t' * a' = t0 * a + area t0 ss"
  using assms
proof (induction ss arbitrary: t0 a)
  case (Cons x ss)
  obtain t n where x: "x = (t, n)" by fastforce
  have t: "t0 \<le> t" "\<forall>(s, n) \<in> set ss. t \<le> s" "sorted (map fst ss)" using Cons.prems(2,3) x by auto
  obtain a1 where a1: "updateStats t n (a, t0) = (a1, t)" "t * a1 = t0 * a + (t - t0) * of_int n"
    using t(1) Cons.prems(1) by (cases "t0 = t") (auto simp: updateStats_def)
  have "t' * a' = t * a1 + area t ss" by (rule Cons.IH) (use t Cons.prems(1,4) a1(1) x in auto)
  with a1(2) x show ?case by simp
qed simp

section \<open>Class \<open>Queue\<close>\<close>

text \<open>
  A queue in front of a link. It is blocked while the link transmits; the link calls \<open>resume\<close> when
  it is done. \<open>disc\<close> is the state of the discipline.
\<close>

record 'q link_queue =
  disc :: 'q
  blocked :: bool
  unblock_on_resume :: bool
  utl :: util

text \<open>Effects: a packet handed to the link, a packet dropped.\<close>

datatype 'b link_act = Transmit "'b packet" | DropPkt "'b packet"

definition queue_recv ::
  "('b packet \<Rightarrow> 'q \<Rightarrow> ('b packet list \<times> 'q) res) \<Rightarrow> ('q \<Rightarrow> ('b packet option \<times> 'q) res) \<Rightarrow> real \<Rightarrow> 'b packet \<Rightarrow> 'q link_queue
   \<Rightarrow> ('b link_act list \<times> 'q link_queue) res"
where
  "queue_recv enq deq now p q =
     bindR (enq p (disc q)) (\<lambda>(ds, d1).
       if \<not> blocked q then
         bindR (deq d1) (\<lambda>(r, d2).
           case r of
             None \<Rightarrow> Inr (map DropPkt ds, q\<lparr>disc := d2\<rparr>)
           | Some p' \<Rightarrow>
               Inr (map DropPkt ds @ [Transmit p'],
                    q\<lparr>disc := d2, blocked := True, utl := util_note now (blocked q) (utl q)\<rparr>))
       else Inr (map DropPkt ds, q\<lparr>disc := d1\<rparr>))"

definition queue_resume ::
  "('q \<Rightarrow> ('b packet option \<times> 'q) res) \<Rightarrow> real \<Rightarrow> 'q link_queue \<Rightarrow> ('b link_act list \<times> 'q link_queue) res"
where
  "queue_resume deq now q =
     bindR (deq (disc q)) (\<lambda>(r, d1).
       case r of
         None \<Rightarrow> Inr ([], q\<lparr>disc := d1, blocked := \<not> unblock_on_resume q, utl := util_note now (blocked q) (utl q)\<rparr>)
       | Some p \<Rightarrow> Inr ([Transmit p], q\<lparr>disc := d1\<rparr>))"

text \<open>\<open>reset\<close> drops what waits; at most \<open>n\<close> packets.\<close>

fun drain_all :: "('q \<Rightarrow> ('b packet option \<times> 'q) res) \<Rightarrow> nat \<Rightarrow> 'q \<Rightarrow> ('b packet list \<times> 'q) res option" where
  "drain_all deq n d =
     (case deq d of
        Inl er \<Rightarrow> Some (Inl er)
      | Inr (None, d1) \<Rightarrow> Some (Inr ([], d1))
      | Inr (Some p, d1) \<Rightarrow>
          (case n of
             0 \<Rightarrow> None
           | Suc m \<Rightarrow> map_option (\<lambda>r. bindR r (\<lambda>(ps, d2). Inr (p # ps, d2))) (drain_all deq m d1)))"

declare drain_all.simps [simp del]

definition queue_reset ::
  "('q \<Rightarrow> ('b packet option \<times> 'q) res) \<Rightarrow> nat \<Rightarrow> 'q link_queue \<Rightarrow> ('b link_act list \<times> 'q link_queue) res option"
where
  "queue_reset deq n q =
     map_option (\<lambda>r. bindR r (\<lambda>(ps, d1). Inr (map DropPkt ps, q\<lparr>disc := d1\<rparr>))) (drain_all deq n (disc q))"

section \<open>The interface of a discipline\<close>

text \<open>
  A discipline holds a multiset of packets. Adding a packet drops some, possibly the new one; taking
  one yields a packet that is held unless there is none.
\<close>

locale queue_disc =
  fixes enq :: "'b packet \<Rightarrow> 'q \<Rightarrow> ('b packet list \<times> 'q) res"
    and deq :: "'q \<Rightarrow> ('b packet option \<times> 'q) res"
    and inv :: "'q \<Rightarrow> bool"
    and held :: "'q \<Rightarrow> 'b packet multiset"
    and acceptable :: "'b packet \<Rightarrow> bool"
  assumes enq_spec: "inv d \<Longrightarrow> acceptable p \<Longrightarrow> \<exists>ds d'. enq p d = Inr (ds, d') \<and> inv d' \<and> mset ds + held d' = add_mset p (held d)"
    and deq_none: "inv d \<Longrightarrow> held d = {#} \<Longrightarrow> \<exists>d'. deq d = Inr (None, d') \<and> inv d' \<and> held d' = {#}"
    and deq_some: "inv d \<Longrightarrow> held d \<noteq> {#} \<Longrightarrow> \<exists>p d'. deq d = Inr (Some p, d') \<and> inv d' \<and> held d = add_mset p (held d')"

text \<open>What happens to a link: a packet arrives, or the transmission ends.\<close>

datatype 'b link_event = Arrive real "'b packet" | LinkDone real

definition link_step ::
  "('b packet \<Rightarrow> 'q \<Rightarrow> ('b packet list \<times> 'q) res) \<Rightarrow> ('q \<Rightarrow> ('b packet option \<times> 'q) res) \<Rightarrow> 'b link_event \<Rightarrow> 'q link_queue
   \<Rightarrow> ('b link_act list \<times> 'q link_queue) res"
where
  "link_step enq deq ev q = (case ev of Arrive t p \<Rightarrow> queue_recv enq deq t p q | LinkDone t \<Rightarrow> queue_resume deq t q)"

fun link_run ::
  "('b packet \<Rightarrow> 'q \<Rightarrow> ('b packet list \<times> 'q) res) \<Rightarrow> ('q \<Rightarrow> ('b packet option \<times> 'q) res) \<Rightarrow> 'b link_event list \<Rightarrow> 'q link_queue
   \<Rightarrow> ('b link_act list \<times> 'q link_queue) res"
where
  "link_run enq deq [] q = Inr ([], q)"
| "link_run enq deq (e # es) q =
     bindR (link_step enq deq e q) (\<lambda>(as, q1). bindR (link_run enq deq es q1) (\<lambda>(bs, q2). Inr (as @ bs, q2)))"

fun arrived :: "'b link_event list \<Rightarrow> 'b packet list" where
  "arrived [] = []"
| "arrived (e # es) = (case e of Arrive t p \<Rightarrow> p # arrived es | LinkDone t \<Rightarrow> arrived es)"

definition link_out :: "'b link_act \<Rightarrow> 'b packet" where
  "link_out a = (case a of Transmit p \<Rightarrow> p | DropPkt p \<Rightarrow> p)"

context queue_disc
begin

text \<open>An idle link has an empty queue.\<close>

definition link_ok :: "'q link_queue \<Rightarrow> bool" where
  "link_ok q \<longleftrightarrow> inv (disc q) \<and> (\<not> blocked q \<longrightarrow> held (disc q) = {#})"

lemma queue_recv_ok:
  assumes "link_ok q" and "acceptable p"
  shows "\<exists>as q'. queue_recv enq deq now p q = Inr (as, q') \<and> link_ok q'
    \<and> image_mset link_out (mset as) + held (disc q') = add_mset p (held (disc q)) \<and> unblock_on_resume q' = unblock_on_resume q"
proof -
  have "inv (disc q)" using assms(1) by (simp add: link_ok_def)
  from enq_spec [OF this assms(2)] obtain ds d1 where e: "enq p (disc q) = Inr (ds, d1)" "inv d1"
    "mset ds + held d1 = add_mset p (held (disc q))" by blast
  have out: "image_mset link_out (mset (map DropPkt ds)) = mset ds" by (induction ds) (auto simp: link_out_def)
  show ?thesis
  proof (cases "blocked q")
    case True
    with e out show ?thesis by (simp add: queue_recv_def link_ok_def)
  next
    case False
    show ?thesis
    proof (cases "held d1 = {#}")
      case True
      with deq_none [OF e(2) True] False e out show ?thesis by (auto simp: queue_recv_def link_ok_def)
    next
      case held: False
      from deq_some [OF e(2) held] obtain p' d2 where d: "deq d1 = Inr (Some p', d2)" "inv d2" "held d1 = add_mset p' (held d2)" by blast
      with False e out show ?thesis by (auto simp: queue_recv_def link_ok_def link_out_def)
    qed
  qed
qed

lemma queue_resume_ok:
  assumes "link_ok q"
  shows "\<exists>as q'. queue_resume deq now q = Inr (as, q') \<and> link_ok q'
    \<and> image_mset link_out (mset as) + held (disc q') = held (disc q) \<and> unblock_on_resume q' = unblock_on_resume q"
proof (cases "held (disc q) = {#}")
  case True
  with deq_none [OF _ True] assms show ?thesis by (fastforce simp: queue_resume_def link_ok_def)
next
  case False
  with deq_some [OF _ False] assms show ?thesis by (fastforce simp: queue_resume_def link_ok_def link_out_def)
qed

text \<open>Every packet that arrives is transmitted, dropped or still held, each once.\<close>

lemma link_run_ok:
  assumes "link_ok q" and "\<forall>p \<in> set (arrived es). acceptable p"
  shows "\<exists>as q'. link_run enq deq es q = Inr (as, q') \<and> link_ok q'
    \<and> image_mset link_out (mset as) + held (disc q') = mset (arrived es) + held (disc q)"
  using assms
proof (induction es arbitrary: q)
  case (Cons e es)
  have "\<exists>as q1. link_step enq deq e q = Inr (as, q1) \<and> link_ok q1
      \<and> image_mset link_out (mset as) + held (disc q1) = mset (arrived [e]) + held (disc q)"
    using queue_recv_ok [OF Cons.prems(1)] queue_resume_ok [OF Cons.prems(1)] Cons.prems(2)
    by (cases e) (fastforce simp: link_step_def)+
  then obtain as q1 where s: "link_step enq deq e q = Inr (as, q1)" "link_ok q1"
      "image_mset link_out (mset as) + held (disc q1) = mset (arrived [e]) + held (disc q)" by blast
  have "\<forall>p \<in> set (arrived es). acceptable p" using Cons.prems(2) by (cases e) auto
  from Cons.IH [OF s(2) this] obtain bs q2 where r: "link_run enq deq es q1 = Inr (bs, q2)" "link_ok q2"
    "image_mset link_out (mset bs) + held (disc q2) = mset (arrived es) + held (disc q1)" by blast
  have a: "mset (arrived (e # es)) = mset (arrived [e]) + mset (arrived es)" by (cases e) auto
  have "image_mset link_out (mset (as @ bs)) + held (disc q2) = mset (arrived (e # es)) + held (disc q)"
    unfolding a mset_append image_mset_union using s(3) r(3) by (metis (no_types, lifting) add.assoc add.commute)
  with s(1) r(1,2) show ?case by auto
qed simp

lemma link_run_keeps:
  assumes "\<And>d p ds d'. I d \<Longrightarrow> inv d \<Longrightarrow> acceptable p \<Longrightarrow> enq p d = Inr (ds, d') \<Longrightarrow> I d'"
    and "\<And>d r d'. I d \<Longrightarrow> inv d \<Longrightarrow> deq d = Inr (r, d') \<Longrightarrow> I d'"
  shows "link_ok q \<Longrightarrow> \<forall>p \<in> set (arrived es). acceptable p \<Longrightarrow> link_run enq deq es q = Inr (as, q') \<Longrightarrow> I (disc q) \<Longrightarrow> I (disc q')"
proof (induction es arbitrary: q as)
  case (Cons e es)
  from Cons.prems(3) obtain bs q1 cs where s: "link_step enq deq e q = Inr (bs, q1)" "link_run enq deq es q1 = Inr (cs, q')"
    by (auto simp: bindR_eq_Inr)
  have inv: "inv (disc q)" using Cons.prems(1) by (simp add: link_ok_def)
  have "link_ok q1 \<and> I (disc q1)"
  proof (cases e)
    case (Arrive t p)
    with Cons.prems(2) have p: "acceptable p" by simp
    from enq_spec [OF inv p] obtain ds d1 where d: "enq p (disc q) = Inr (ds, d1)" "inv d1" by blast
    have I1: "I d1" by (rule assms(1) [OF Cons.prems(4) inv p d(1)])
    have "I (disc q1)"
    proof (cases "blocked q")
      case True
      with s(1) d(1) I1 Arrive show ?thesis by (auto simp: link_step_def queue_recv_def)
    next
      case False
      with s(1) d(1) Arrive obtain r d2 where "deq d1 = Inr (r, d2)" "disc q1 = d2"
        by (auto simp: link_step_def queue_recv_def bindR_eq_Inr split: option.splits)
      with assms(2) [OF I1 d(2)] show ?thesis by blast
    qed
    with s(1) queue_recv_ok [OF Cons.prems(1) p, of t] Arrive show ?thesis by (auto simp: link_step_def)
  next
    case (LinkDone t)
    with s(1) obtain r d2 where "deq (disc q) = Inr (r, d2)" "disc q1 = d2"
      by (auto simp: link_step_def queue_resume_def bindR_eq_Inr split: option.splits)
    with assms(2) [OF Cons.prems(4) inv] have "I (disc q1)" by blast
    with s(1) queue_resume_ok [OF Cons.prems(1), of t] LinkDone show ?thesis by (auto simp: link_step_def)
  qed
  moreover have "\<forall>p \<in> set (arrived es). acceptable p" using Cons.prems(2) by (cases e) auto
  ultimately show ?case using Cons.IH s(2) by blast
qed simp

text \<open>\<open>reset\<close> empties the queue within as many rounds as it holds packets.\<close>

lemma drain_all_ok:
  assumes "inv d" and "size (held d) \<le> n"
  shows "\<exists>ps d'. drain_all deq n d = Some (Inr (ps, d')) \<and> inv d' \<and> held d' = {#} \<and> mset ps = held d"
  using assms
proof (induction n arbitrary: d)
  case 0
  with deq_none [of d] show ?case by (subst drain_all.simps) auto
next
  case (Suc n)
  show ?case
  proof (cases "held d = {#}")
    case True
    with deq_none [OF Suc.prems(1)] show ?thesis by (subst drain_all.simps) auto
  next
    case False
    from deq_some [OF Suc.prems(1) this] obtain p d1 where d: "deq d = Inr (Some p, d1)" "inv d1" "held d = add_mset p (held d1)" by blast
    with Suc.prems(2) have "size (held d1) \<le> n" by simp
    from Suc.IH [OF d(2) this] d show ?thesis by (subst drain_all.simps) auto
  qed
qed

end

section \<open>First in, first out\<close>

fun transmitted :: "'b link_act list \<Rightarrow> 'b packet list" where
  "transmitted [] = []"
| "transmitted (a # as) = (case a of Transmit p \<Rightarrow> p # transmitted as | DropPkt p \<Rightarrow> transmitted as)"

lemma transmitted_append [simp]: "transmitted (as @ bs) = transmitted as @ transmitted bs"
  by (induction as) (auto split: link_act.splits)

lemma transmitted_drops [simp]: "transmitted (map DropPkt ds) = []"
  by (induction ds) auto

text \<open>A discipline that keeps its packets in order and takes the first one.\<close>

locale fifo_disc = queue_disc enq deq inv held acceptable
  for enq :: "'b packet \<Rightarrow> 'q \<Rightarrow> ('b packet list \<times> 'q) res"
    and deq :: "'q \<Rightarrow> ('b packet option \<times> 'q) res"
    and inv :: "'q \<Rightarrow> bool"
    and held :: "'q \<Rightarrow> 'b packet multiset"
    and acceptable :: "'b packet \<Rightarrow> bool" +
  fixes order :: "'q \<Rightarrow> 'b packet list"
  assumes held_order: "held d = mset (order d)"
    and enq_order: "inv d \<Longrightarrow> acceptable p \<Longrightarrow> enq p d = Inr (ds, d') \<Longrightarrow> subseq (order d') (order d @ [p])"
    and deq_order: "inv d \<Longrightarrow> deq d = Inr (Some p, d') \<Longrightarrow> order d = p # order d'"

context fifo_disc
begin

lemma deq_none_order: "inv d \<Longrightarrow> deq d = Inr (None, d') \<Longrightarrow> order d = [] \<and> order d' = []"
  using deq_none [of d] deq_some [of d] held_order by fastforce

lemma step_order:
  assumes ok: "link_ok q" and acc: "\<forall>p \<in> set (arrived [e]). acceptable p" and s: "link_step enq deq e q = Inr (as, q')"
  shows "subseq (transmitted as @ order (disc q')) (order (disc q) @ arrived [e])"
proof -
  have inv: "inv (disc q)" using ok by (simp add: link_ok_def)
  have take: "subseq (transmitted bs @ order d2) (order d1)"
    if "inv d1" "deq d1 = Inr (r, d2)" "bs = (case r of None \<Rightarrow> [] | Some p \<Rightarrow> [Transmit p])" for d1 r d2 bs
    using that deq_order deq_none_order by (cases r) auto
  show ?thesis
  proof (cases e)
    case (Arrive t p)
    with acc have p: "acceptable p" by simp
    from enq_spec [OF inv p] obtain ds d1 where d: "enq p (disc q) = Inr (ds, d1)" "inv d1" by blast
    note sub = enq_order [OF inv p d(1)]
    show ?thesis
    proof (cases "blocked q")
      case True
      with s d sub Arrive show ?thesis by (auto simp: link_step_def queue_recv_def)
    next
      case False
      from deq_none [OF d(2)] deq_some [OF d(2)] obtain r d2 where t: "deq d1 = Inr (r, d2)" by (cases "held d1 = {#}") auto
      have "transmitted as @ order (disc q') = transmitted (case r of None \<Rightarrow> [] | Some p \<Rightarrow> [Transmit p]) @ order d2"
        using s Arrive d(1) False t by (auto simp: link_step_def queue_recv_def split: option.splits)
      then have "subseq (transmitted as @ order (disc q')) (order d1)" by (simp only: take [OF d(2) t refl])
      from subseq_order.order_trans [OF this sub] Arrive show ?thesis by simp
    qed
  next
    case (LinkDone t)
    from deq_none [OF inv] deq_some [OF inv] obtain r d2 where t: "deq (disc q) = Inr (r, d2)" by (cases "held (disc q) = {#}") auto
    have "transmitted as @ order (disc q') = transmitted (case r of None \<Rightarrow> [] | Some p \<Rightarrow> [Transmit p]) @ order d2"
      using s LinkDone t by (auto simp: link_step_def queue_resume_def split: option.splits)
    with take [OF inv t refl] LinkDone show ?thesis by simp
  qed
qed

text \<open>Packets leave in the order of their arrival.\<close>

lemma run_order:
  assumes "link_ok q" and "\<forall>p \<in> set (arrived es). acceptable p" and "link_run enq deq es q = Inr (as, q')"
  shows "subseq (transmitted as @ order (disc q')) (order (disc q) @ arrived es)"
  using assms
proof (induction es arbitrary: q as)
  case (Cons e es)
  have acc: "\<forall>p \<in> set (arrived [e]). acceptable p" "\<forall>p \<in> set (arrived es). acceptable p" using Cons.prems(2) by (cases e; auto)+
  from Cons.prems(3) obtain bs q1 cs where s: "link_step enq deq e q = Inr (bs, q1)" "link_run enq deq es q1 = Inr (cs, q')" "as = bs @ cs"
    by (auto simp: bindR_eq_Inr)
  have ok1: "link_ok q1"
  proof (cases e)
    case (Arrive t p)
    with acc(1) s(1) queue_recv_ok [OF Cons.prems(1), of p t] show ?thesis by (auto simp: link_step_def)
  next
    case (LinkDone t)
    with s(1) queue_resume_ok [OF Cons.prems(1), of t] show ?thesis by (auto simp: link_step_def)
  qed
  have a: "arrived (e # es) = arrived [e] @ arrived es" by (cases e) auto
  have "subseq (transmitted cs @ order (disc q')) (order (disc q1) @ arrived es)" by (rule Cons.IH [OF ok1 acc(2) s(2)])
  then have "subseq (transmitted bs @ transmitted cs @ order (disc q')) (transmitted bs @ order (disc q1) @ arrived es)"
    by (simp add: list_emb_append_mono)
  moreover have "subseq ((transmitted bs @ order (disc q1)) @ arrived es) ((order (disc q) @ arrived [e]) @ arrived es)"
    by (rule list_emb_append_mono [OF step_order [OF Cons.prems(1) acc(1) s(1)]]) simp
  ultimately show ?case unfolding a s(3) transmitted_append append_assoc by (rule subseq_order.order_trans)
qed simp

end

section \<open>Discipline \<open>DropTail\<close>\<close>

text \<open>The limit counts packets, or bytes in units of the mean packet size.\<close>

record 'b drop_tail =
  dt_q :: "'b pkt_queue"
  qlim :: int
  drop_front :: bool
  qib :: bool
  mean_pktsize :: int

definition dt_full :: "'b packet \<Rightarrow> 'b drop_tail \<Rightarrow> bool" where
  "dt_full p d \<longleftrightarrow>
     (\<not> qib d \<and> pq_len (dt_q d) + 1 \<ge> qlim d) \<or> (qib d \<and> pq_bytes (dt_q d) + psize p \<ge> qlim d * mean_pktsize d)"

definition dt_enque :: "'b packet \<Rightarrow> 'b drop_tail \<Rightarrow> ('b packet list \<times> 'b drop_tail) res" where
  "dt_enque p d =
     (if dt_full p d then
        (if drop_front d then
           (case pq_deque (snd (pq_enque p (dt_q d))) of
              (None, q1) \<Rightarrow> Inl NullDeref
            | (Some pp, q1) \<Rightarrow> Inr ([pp], d\<lparr>dt_q := q1\<rparr>))
         else Inr ([p], d))
      else Inr ([], d\<lparr>dt_q := snd (pq_enque p (dt_q d))\<rparr>))"

definition dt_deque :: "'b drop_tail \<Rightarrow> ('b packet option \<times> 'b drop_tail) res" where
  "dt_deque d = (case pq_deque (dt_q d) of (r, q1) \<Rightarrow> Inr (r, d\<lparr>dt_q := q1\<rparr>))"

text \<open>\<open>shrink_queue\<close>, called when the limit is lowered.\<close>

definition dt_over :: "'b drop_tail \<Rightarrow> bool" where
  "dt_over d \<longleftrightarrow> (\<not> qib d \<and> pq_len (dt_q d) > qlim d) \<or> (qib d \<and> pq_bytes (dt_q d) > qlim d * mean_pktsize d)"

definition dt_shrink_one :: "'b drop_tail \<Rightarrow> ('b packet \<times> 'b drop_tail) res" where
  "dt_shrink_one d =
     (if drop_front d then
        (case pq_deque (dt_q d) of (None, q1) \<Rightarrow> Inl NullDeref | (Some p, q1) \<Rightarrow> Inr (p, d\<lparr>dt_q := q1\<rparr>))
      else
        (case pq_tail (dt_q d) of
           None \<Rightarrow> Inl Aborted
         | Some p \<Rightarrow> bindR (pq_remove p (dt_q d)) (\<lambda>q1. Inr (p, d\<lparr>dt_q := q1\<rparr>))))"

lemma dt_shrink_one_less: "dt_shrink_one d = Inr (p, d') \<Longrightarrow> length (pq_items (dt_q d')) < length (pq_items (dt_q d))"
proof (cases "drop_front d")
  case True
  then show "dt_shrink_one d = Inr (p, d') \<Longrightarrow> ?thesis" by (auto simp: dt_shrink_one_def pq_deque_def split: list.splits)
next
  case False
  assume "dt_shrink_one d = Inr (p, d')"
  with False obtain q1 where q: "pq_remove p (dt_q d) = Inr q1" "d' = d\<lparr>dt_q := q1\<rparr>"
    by (auto simp: dt_shrink_one_def bindR_eq_Inr split: option.splits)
  then obtain x where "find (\<lambda>y. uid y = uid p) (pq_items (dt_q d)) = Some x" by (auto simp: pq_remove_def split: option.splits)
  from remove_first_sum [OF this, of psize] q this show ?thesis by (auto simp: pq_remove_def)
qed

function dt_shrink :: "'b drop_tail \<Rightarrow> ('b packet list \<times> 'b drop_tail) res" where
  "dt_shrink d =
     (if dt_over d then
        (case dt_shrink_one d of
           Inl er \<Rightarrow> Inl er
         | Inr (p, d1) \<Rightarrow> bindR (dt_shrink d1) (\<lambda>(ps, d2). Inr (p # ps, d2)))
      else Inr ([], d))"
  by pat_completeness auto
termination by (relation "measure (\<lambda>d. length (pq_items (dt_q d)))") (auto dest: dt_shrink_one_less)

declare dt_shrink.simps [simp del]

section \<open>A link with a \<open>DropTail\<close> queue\<close>

definition dt_inv :: "'b drop_tail \<Rightarrow> bool" where
  "dt_inv d \<longleftrightarrow> pq_inv (dt_q d)"

definition dt_items :: "'b drop_tail \<Rightarrow> 'b packet list" where
  "dt_items d = pq_items (dt_q d)"

definition any_packet :: "'b packet \<Rightarrow> bool" where
  "any_packet p \<longleftrightarrow> True"

lemma dt_enque_cases:
  obtains "dt_enque p d = Inr ([], d\<lparr>dt_q := snd (pq_enque p (dt_q d))\<rparr>)" "\<not> dt_full p d"
  | "dt_enque p d = Inr ([p], d)" "dt_full p d" "\<not> drop_front d"
  | pp q1 where "dt_enque p d = Inr ([pp], d\<lparr>dt_q := q1\<rparr>)" "dt_full p d" "drop_front d"
      "pq_deque (snd (pq_enque p (dt_q d))) = (Some pp, q1)"
proof (cases "dt_full p d")
  case True
  obtain pp q1 where "pq_deque (snd (pq_enque p (dt_q d))) = (Some pp, q1)"
    by (cases "pq_items (dt_q d)") (auto simp: pq_deque_def pq_enque_def)
  with True that(2,3) show thesis by (cases "drop_front d") (auto simp: dt_enque_def)
qed (use that(1) in \<open>auto simp: dt_enque_def\<close>)

lemma pq_deque_Some: "pq_deque q = (Some p, q') \<Longrightarrow> pq_items q = p # pq_items q'"
  by (auto simp: pq_deque_def split: list.splits)

lemma pq_enque_items [simp]: "pq_items (snd (pq_enque p q)) = pq_items q @ [p]"
  by (simp add: pq_enque_def)

lemma dt_enque_spec:
  assumes "dt_inv d"
  shows "\<exists>ds d'. dt_enque p d = Inr (ds, d') \<and> dt_inv d' \<and> mset ds + mset (dt_items d') = add_mset p (mset (dt_items d))
    \<and> subseq (dt_items d') (dt_items d @ [p]) \<and> d' = d\<lparr>dt_q := dt_q d'\<rparr>
    \<and> (\<not> qib d \<and> int (length (dt_items d)) < qlim d \<longrightarrow> int (length (dt_items d')) < qlim d)"
proof (cases rule: dt_enque_cases [of p d])
  case 1
  with assms pq_inv_ops(1) [of "dt_q d" p] show ?thesis by (auto simp: dt_inv_def dt_items_def dt_full_def pq_inv_def)
next
  case 2
  with assms show ?thesis by (auto simp: dt_items_def)
next
  case (3 pp q1)
  have inv: "pq_inv q1" using assms pq_inv_ops(2) [OF pq_inv_ops(1), of "dt_q d" p] 3(4) by (simp add: dt_inv_def)
  have i: "pq_items (dt_q d) @ [p] = pp # pq_items q1" using pq_deque_Some [OF 3(4)] by simp
  from arg_cong [OF i, of length] have len: "length (pq_items q1) = length (pq_items (dt_q d))" by simp
  from arg_cong [OF i, of mset] have m: "add_mset pp (mset (pq_items q1)) = add_mset p (mset (pq_items (dt_q d)))" by simp
  have "subseq (pq_items q1) (pp # pq_items q1)" by (rule list_emb_Cons) simp
  with i have "subseq (pq_items q1) (pq_items (dt_q d) @ [p])" by simp
  with 3 inv len m show ?thesis by (auto simp: dt_inv_def dt_items_def)
qed

lemma dt_deque_spec:
  assumes "dt_inv d"
  shows "\<exists>r d'. dt_deque d = Inr (r, d') \<and> dt_inv d' \<and> d' = d\<lparr>dt_q := dt_q d'\<rparr>
    \<and> dt_items d = (case r of None \<Rightarrow> [] | Some p \<Rightarrow> [p]) @ dt_items d' \<and> (r = None \<longleftrightarrow> dt_items d = [])"
proof -
  obtain r q1 where r: "pq_deque (dt_q d) = (r, q1)" by fastforce
  with assms pq_inv_ops(2) [of "dt_q d"] have "pq_inv q1" by (simp add: dt_inv_def)
  with r show ?thesis by (auto simp: dt_deque_def dt_inv_def dt_items_def pq_deque_def split: list.splits)
qed

lemma dt_same: "d' = d\<lparr>dt_q := dt_q d'\<rparr> \<Longrightarrow> qib d' = qib d \<and> qlim d' = qlim d"
  by (erule ssubst) simp

interpretation dt: fifo_disc dt_enque dt_deque dt_inv "\<lambda>d. mset (dt_items d)" any_packet dt_items
proof (unfold_locales, goal_cases)
  case (1 d p)
  with dt_enque_spec [OF 1(1), of p] show ?case by blast
next
  case (2 d)
  from dt_deque_spec [OF 2(1)] obtain r d' where "dt_deque d = Inr (r, d')" "dt_inv d'"
    "dt_items d = (case r of None \<Rightarrow> [] | Some p \<Rightarrow> [p]) @ dt_items d'" "r = None \<longleftrightarrow> dt_items d = []" by blast
  with 2(2) show ?case by auto
next
  case (3 d)
  from dt_deque_spec [OF 3(1)] obtain r d' where "dt_deque d = Inr (r, d')" "dt_inv d'"
    "dt_items d = (case r of None \<Rightarrow> [] | Some p \<Rightarrow> [p]) @ dt_items d'" "r = None \<longleftrightarrow> dt_items d = []" by blast
  with 3(2) show ?case by (cases r) auto
next
  case (5 d p ds d')
  with dt_enque_spec [OF 5(1), of p] show ?case by auto
next
  case (6 d p d')
  with dt_deque_spec [OF 6(1)] show ?case by auto
qed simp

text \<open>Lowering the limit drops packets until the queue fits.\<close>

lemma find_tail: "xs \<noteq> [] \<Longrightarrow> distinct (map uid xs) \<Longrightarrow> find (\<lambda>y. uid y = uid (List.last xs)) xs = Some (List.last xs)"
  by (rule find_key_unique) auto

lemma dt_shrink_ok:
  assumes "dt_inv d" and "distinct (map uid (dt_items d))" and "0 \<le> qlim d" and "0 \<le> mean_pktsize d"
  shows "\<exists>ps d'. dt_shrink d = Inr (ps, d') \<and> dt_inv d' \<and> \<not> dt_over d' \<and> mset ps + mset (dt_items d') = mset (dt_items d)
    \<and> (if drop_front d then ps @ dt_items d' = dt_items d else dt_items d' @ rev ps = dt_items d)"
  using assms
proof (induction d rule: dt_shrink.induct)
  case (1 d)
  show ?case
  proof (cases "dt_over d")
    case False
    with 1(2) show ?thesis by (subst dt_shrink.simps) auto
  next
    case True
    have ne: "dt_items d \<noteq> []"
      using True 1(2,4) mult_nonneg_nonneg [OF 1(4,5)] by (auto simp: dt_over_def dt_inv_def pq_inv_def dt_items_def)
    have "\<exists>p d1. dt_shrink_one d = Inr (p, d1) \<and> dt_inv d1 \<and> d1 = d\<lparr>dt_q := dt_q d1\<rparr>
      \<and> (if drop_front d then p # dt_items d1 = dt_items d else dt_items d1 @ [p] = dt_items d)"
    proof (cases "drop_front d")
      case True
      obtain p ps where i: "dt_items d = p # ps" using ne by (cases "dt_items d") auto
      with True 1(2) pq_inv_ops(2) [of "dt_q d"] show ?thesis
        by (auto simp: dt_shrink_one_def pq_deque_def dt_items_def dt_inv_def)
    next
      case False
      let ?p = "List.last (dt_items d)"
      have f: "find (\<lambda>y. uid y = uid ?p) (dt_items d) = Some ?p" by (rule find_tail [OF ne 1(3)])
      have "remove_first (\<lambda>y. uid y = uid ?p) (dt_items d) = remove1 ?p (dt_items d)"
        by (rule remove_first_eq_remove1 [OF 1(3)]) (use ne in simp)
      also have "\<dots> = butlast (dt_items d)"
      proof -
        have "distinct (dt_items d)" using 1(3) by (simp add: distinct_map)
        moreover have "dt_items d = butlast (dt_items d) @ [?p]" using ne by simp
        ultimately have "?p \<notin> set (butlast (dt_items d))" by (metis distinct_append disjoint_insert(1) list.simps(15))
        then show ?thesis using \<open>dt_items d = butlast (dt_items d) @ [?p]\<close> by (metis append_Nil2 remove1.simps(2) remove1_append)
      qed
      finally have r: "remove_first (\<lambda>y. uid y = uid ?p) (dt_items d) = butlast (dt_items d)" .
      obtain q1 where q1: "pq_remove ?p (dt_q d) = Inr q1" "pq_items q1 = butlast (dt_items d)"
        using f r by (auto simp: pq_remove_def dt_items_def)
      with False ne pq_remove_inv [of "dt_q d" ?p q1] 1(2) show ?thesis
        by (auto simp: dt_shrink_one_def pq_tail_def dt_items_def dt_inv_def)
    qed
    then obtain p d1 where s: "dt_shrink_one d = Inr (p, d1)" "dt_inv d1" "d1 = d\<lparr>dt_q := dt_q d1\<rparr>"
      "if drop_front d then p # dt_items d1 = dt_items d else dt_items d1 @ [p] = dt_items d" by blast
    have same: "qlim d1 = qlim d" "mean_pktsize d1 = mean_pktsize d" "drop_front d1 = drop_front d" by (subst s(3), simp)+
    have m: "mset (dt_items d) = add_mset p (mset (dt_items d1)) \<and> distinct (map uid (dt_items d1))"
    proof (cases "drop_front d")
      case True
      with s(4) have i: "dt_items d = p # dt_items d1" by simp
      from 1(3) show ?thesis unfolding i by simp
    next
      case False
      with s(4) have i: "dt_items d = dt_items d1 @ [p]" by simp
      from 1(3) show ?thesis unfolding i by simp
    qed
    from 1(1) [OF True s(1) refl s(2) conjunct2 [OF m]] 1(4,5) same obtain ps d2 where r:
      "dt_shrink d1 = Inr (ps, d2)" "dt_inv d2" "\<not> dt_over d2" "mset ps + mset (dt_items d2) = mset (dt_items d1)"
      "if drop_front d then ps @ dt_items d2 = dt_items d1 else dt_items d2 @ rev ps = dt_items d1" by auto
    have "dt_shrink d = Inr (p # ps, d2)" using True s(1) r(1) by (subst dt_shrink.simps) simp
    moreover have "mset (p # ps) + mset (dt_items d2) = mset (dt_items d)" using r(4) by (simp add: m)
    moreover have "if drop_front d then (p # ps) @ dt_items d2 = dt_items d else dt_items d2 @ rev (p # ps) = dt_items d"
    proof (cases "drop_front d")
      case True
      with r(5) s(4) show ?thesis by simp
    next
      case False
      with r(5) have "dt_items d2 @ rev (p # ps) = dt_items d1 @ [p]" by simp
      with s(4) False show ?thesis by simp
    qed
    ultimately show ?thesis using r(2,3) by blast
  qed
qed

text \<open>A queue that counts packets and is below its limit stays so.\<close>

definition dt_room :: "int \<Rightarrow> 'b drop_tail \<Rightarrow> bool" where
  "dt_room bound d \<longleftrightarrow> \<not> qib d \<and> qlim d = bound \<and> int (length (dt_items d)) < bound"

lemma dt_enque_room:
  assumes "dt_room bound d" "dt_inv d" "any_packet p" "dt_enque p d = Inr (ds, d')"
  shows "dt_room bound d'"
proof -
  from dt_enque_spec [OF assms(2), of p] assms(4)
  have "d' = d\<lparr>dt_q := dt_q d'\<rparr>" "\<not> qib d \<and> int (length (dt_items d)) < qlim d \<longrightarrow> int (length (dt_items d')) < qlim d" by auto
  with dt_same [OF this(1)] assms(1) show ?thesis by (simp add: dt_room_def)
qed

lemma dt_deque_room:
  assumes "dt_room bound d" "dt_inv d" "dt_deque d = Inr (r, d')"
  shows "dt_room bound d'"
  using assms by (auto simp: dt_room_def dt_deque_def pq_deque_def dt_items_def split: list.splits)

text \<open>
  A link with a \<open>DropTail\<close> queue never aborts. Each packet that arrives is transmitted, dropped or
  still waiting, exactly once; the packets transmitted, and behind them those that wait, are in the
  order of arrival; the link is idle only when nothing waits. A queue that counts packets holds
  fewer than its limit, always.
\<close>

theorem droptail_link:
  assumes "dt_inv (disc q)" and "\<not> blocked q \<longrightarrow> dt_items (disc q) = []"
  shows "\<exists>as q'. link_run dt_enque dt_deque es q = Inr (as, q')
    \<and> mset (map link_out as) + mset (dt_items (disc q')) = mset (arrived es) + mset (dt_items (disc q))
    \<and> subseq (transmitted as @ dt_items (disc q')) (dt_items (disc q) @ arrived es)
    \<and> (\<not> blocked q' \<longrightarrow> dt_items (disc q') = [])
    \<and> (\<not> qib (disc q) \<and> pq_len (dt_q (disc q)) < qlim (disc q) \<longrightarrow> pq_len (dt_q (disc q')) < qlim (disc q))"
proof -
  have ok: "dt.link_ok q" using assms by (simp add: dt.link_ok_def)
  have acc: "\<forall>p \<in> set (arrived es). any_packet p" by (simp add: any_packet_def)
  from dt.link_run_ok [OF ok acc] obtain as q' where r: "link_run dt_enque dt_deque es q = Inr (as, q')" "dt.link_ok q'"
    "image_mset link_out (mset as) + mset (dt_items (disc q')) = mset (arrived es) + mset (dt_items (disc q))" by blast
  have "dt_room (qlim (disc q)) (disc q) \<longrightarrow> dt_room (qlim (disc q)) (disc q')"
    by (intro impI dt.link_run_keeps [where I = "dt_room (qlim (disc q))", OF _ _ ok acc r(1)]) (blast intro: dt_enque_room dt_deque_room)+
  moreover have "pq_len (dt_q d) = int (length (dt_items d))" if "dt_inv d" for d :: "'a drop_tail"
    using that by (simp add: dt_inv_def pq_inv_def dt_items_def)
  ultimately show ?thesis using r dt.run_order [OF ok acc r(1)] assms(1) by (auto simp: dt.link_ok_def dt_room_def)
qed

definition demo_tail :: "unit drop_tail" where
  "demo_tail = \<lparr>dt_q = pq_new, qlim = 3, drop_front = False, qib = False, mean_pktsize = 500\<rparr>"

definition demo_util :: util where
  "demo_util = \<lparr>old_util = 0, util_weight = 1, util_check_intv = 1, util_records = 2, last_change = 0, period_begin = 0,
     cur_util = 0, buf_slot = 0, util_buf = [0, 0]\<rparr>"

definition demo_link :: "unit drop_tail link_queue" where
  "demo_link = \<lparr>disc = demo_tail, blocked = False, unblock_on_resume = True, utl = demo_util\<rparr>"

lemma demo_tail_ok: "dt_inv demo_tail" "dt_items demo_tail = []" "mean_pktsize demo_tail = 500" "qlim demo_tail = 3"
  "\<not> qib demo_tail" "pq_len (dt_q demo_tail) = 0"
  by (simp_all add: demo_tail_def dt_inv_def pq_inv_def pq_new_def dt_items_def)

theorem droptail_link_witness:
  "\<exists>as q'. link_run dt_enque dt_deque (map (\<lambda>n. Arrive (of_int n) (packet_alloc n ())) [1..4] @ [LinkDone 5]) demo_link = Inr (as, q')
    \<and> pq_len (dt_q (disc q')) < 3 \<and> qlim (disc demo_link) = 3"
proof -
  let ?es = "map (\<lambda>n. Arrive (of_int n) (packet_alloc n ())) [1..4] @ [LinkDone 5]"
  have d: "disc demo_link = demo_tail" by (simp add: demo_link_def)
  have "\<exists>as q'. link_run dt_enque dt_deque ?es demo_link = Inr (as, q')
    \<and> (\<not> qib demo_tail \<and> pq_len (dt_q demo_tail) < qlim demo_tail \<longrightarrow> pq_len (dt_q (disc q')) < qlim demo_tail)"
    using droptail_link [of demo_link ?es] demo_tail_ok(1,2) unfolding d by blast
  then show ?thesis by (simp add: demo_tail_ok d)
qed

text \<open>
  Lowering the limit drops packets, from the front or from the back, until the queue fits; what
  remains keeps its order. It ends, and never dereferences a null pointer, for a limit that is not
  negative and packets with different uids.
\<close>

theorem droptail_shrinks:
  assumes "dt_inv d" and "distinct (map uid (dt_items d))" and "0 \<le> qlim d" and "0 \<le> mean_pktsize d"
  shows "\<exists>ps d'. dt_shrink d = Inr (ps, d') \<and> dt_inv d' \<and> \<not> dt_over d'
    \<and> (if drop_front d then ps @ dt_items d' = dt_items d else dt_items d' @ rev ps = dt_items d)"
  using dt_shrink_ok [OF assms] by blast

definition demo_waiting :: "unit drop_tail" where
  "demo_waiting = demo_tail\<lparr>dt_q := \<lparr>pq_items = [packet_alloc 1 (), packet_alloc 2 ()], pq_len = 2, pq_bytes = 0\<rparr>, qlim := 1\<rparr>"

theorem droptail_shrinks_witness:
  "\<exists>ps d'. dt_shrink demo_waiting = Inr (ps, d') \<and> \<not> dt_over d' \<and> dt_items d' @ rev ps = dt_items demo_waiting"
proof -
  have "dt_inv demo_waiting" "distinct (map uid (dt_items demo_waiting))" "0 \<le> qlim demo_waiting" "0 \<le> mean_pktsize demo_waiting"
    "\<not> drop_front demo_waiting"
    by (simp_all add: demo_waiting_def demo_tail_def dt_inv_def pq_inv_def dt_items_def packet_alloc_def)
  with droptail_shrinks [of demo_waiting] show ?thesis by auto
qed

text \<open>
  The utilisation of a link is a number between 0 and 1 at all times: the decaying average, the
  mean of the current period and every recorded one, and the peak reported.
\<close>

theorem utilization_bounded:
  assumes "util_inv u" and "last_change u \<le> now"
  shows "(case utilization now b u of (x, u') \<Rightarrow> x \<in> {0..1} \<and> util_inv u' \<and> last_change u' = now)
    \<and> (case peak_utilization now b u of (x, u') \<Rightarrow> x \<in> {0..1} \<and> util_inv u' \<and> last_change u' = now)"
proof -
  note n = util_note_inv [OF assms, of b]
  have peak: "foldl (\<lambda>peak x. if x > peak then x else peak) (m :: real) xs \<in> {0..1}"
    if "m \<in> {0..1}" "set xs \<subseteq> {0..1}" for m xs
    using that by (induction xs arbitrary: m) auto
  have "foldl (\<lambda>peak x. if x > peak then x else peak) 0 (take k (util_buf (util_note now b u))) \<in> {0..1}" for k
    by (rule peak) (use util_invD(4) [OF conjunct1 [OF n]] set_take_subset in \<open>fastforce+\<close>)
  with n util_invD(2) [OF conjunct1 [OF n]] show ?thesis
    by (simp add: utilization_def peak_utilization_def Let_def)
qed

theorem utilization_bounded_witness:
  "(case utilization 3 True demo_util of (x, u') \<Rightarrow> x \<in> {0..1} \<and> util_inv u' \<and> last_change u' = 3)
    \<and> (case peak_utilization 3 True demo_util of (x, u') \<Rightarrow> x \<in> {0..1} \<and> util_inv u' \<and> last_change u' = 3)"
proof (rule utilization_bounded)
  show "util_inv demo_util" by (rule util_invI) (auto simp: demo_util_def)
  show "last_change demo_util \<le> 3" by (simp add: demo_util_def)
qed

text \<open>
  \<open>true_ave_\<close> is the average size of the queue over time: times \<open>total_time_\<close> it is the area under
  the size, for samples taken before each change, in any number and at times that may coincide.
\<close>

theorem true_average:
  assumes "\<forall>(t, n) \<in> set ss. 0 \<le> t" and "sorted (map fst ss)"
    and "fold (\<lambda>(t, n). updateStats t n) ss (0, 0) = (true_ave, total_time)"
  shows "total_time * true_ave = area 0 ss"
  using updateStats_area [OF _ assms] by simp

theorem true_average_witness:
  "fold (\<lambda>(t, n). updateStats t n) [(1, 0), (2, 3), (2, 4), (4, 5)] (0, 0) = (13 / 4, 4)
    \<and> (4 :: real) * (13 / 4) = area 0 [(1, 0), (2, 3), (2, 4), (4, 5)]"
proof
  show f: "fold (\<lambda>(t, n). updateStats t n) [(1, 0), (2, 3), (2, 4), (4, 5)] (0, 0) = (13 / 4, 4)" by (simp add: updateStats_def)
  show "(4 :: real) * (13 / 4) = area 0 [(1, 0), (2, 3), (2, 4), (4, 5)]" by (rule true_average [OF _ _ f]) simp_all
qed

text \<open>
  A queue that counts bytes and drops from the front admits a packet for which there is no room,
  and drops only the one at its head, whatever that one's size: its length in bytes grows by the
  difference, so it may exceed the limit without bound.
\<close>

theorem droptail_front_overflows:
  assumes "dt_inv d" and "qib d" and "drop_front d" and "dt_full p d" and "dt_items d = h # hs"
  shows "\<exists>d'. dt_enque p d = Inr ([h], d') \<and> dt_items d' = hs @ [p] \<and> qlim d' = qlim d \<and> mean_pktsize d' = mean_pktsize d
    \<and> pq_bytes (dt_q d') = pq_bytes (dt_q d) + psize p - psize h"
  using assms by (auto simp: dt_enque_def pq_enque_def pq_deque_def dt_items_def)

theorem droptail_front_overflows_witness:
  "\<exists>d'. dt_enque ((packet_alloc 2 ())\<lparr>psize := 1500\<rparr>)
      (demo_tail\<lparr>dt_q := \<lparr>pq_items = [(packet_alloc 1 ())\<lparr>psize := 40\<rparr>], pq_len = 1, pq_bytes = 40\<rparr>, qlim := 1, drop_front := True, qib := True\<rparr>)
      = Inr ([(packet_alloc 1 ())\<lparr>psize := 40\<rparr>], d') \<and> pq_bytes (dt_q d') = 1500 \<and> qlim d' * mean_pktsize d' = 500 \<and> dt_over d'"
proof -
  let ?h = "(packet_alloc 1 ())\<lparr>psize := 40\<rparr>" and ?p = "(packet_alloc 2 ())\<lparr>psize := 1500\<rparr>"
  let ?d = "demo_tail\<lparr>dt_q := \<lparr>pq_items = [?h], pq_len = 1, pq_bytes = 40\<rparr>, qlim := 1, drop_front := True, qib := True\<rparr>"
  have a: "dt_inv ?d" "qib ?d" "drop_front ?d" "dt_full ?p ?d" "dt_items ?d = ?h # []"
    by (simp_all add: demo_tail_def dt_inv_def pq_inv_def dt_full_def dt_items_def)
  obtain d' where d': "dt_enque ?p ?d = Inr ([?h], d')" "qlim d' = qlim ?d" "mean_pktsize d' = mean_pktsize ?d"
    "pq_bytes (dt_q d') = pq_bytes (dt_q ?d) + psize ?p - psize ?h" using droptail_front_overflows [OF a] by blast
  have "qib d'" using d'(1) a by (auto simp: dt_enque_def pq_enque_def pq_deque_def demo_tail_def)
  with d' show ?thesis by (auto simp: dt_over_def demo_tail_def)
qed

end
