(* ===== verification/RingList.thy ===== *)
theory RingList
  imports NsPrelude
begin

text \<open>
  A ring of nodes linked both ways, as a list: \<open>nx\<close> and \<open>pv\<close> are the two pointers of a node. The
  lemmas say what the usual pointer operations do to the list: adding a node at the end, removing a
  node, moving on by one.
\<close>

fun chain :: "(nat \<Rightarrow> nat option) \<Rightarrow> (nat \<Rightarrow> nat option) \<Rightarrow> nat list \<Rightarrow> bool" where
  "chain nx pv (x # y # zs) \<longleftrightarrow> nx x = Some y \<and> pv y = Some x \<and> chain nx pv (y # zs)"
| "chain nx pv _ \<longleftrightarrow> True"

definition ring :: "(nat \<Rightarrow> nat option) \<Rightarrow> (nat \<Rightarrow> nat option) \<Rightarrow> nat list \<Rightarrow> bool" where
  "ring nx pv xs \<longleftrightarrow> (xs = [] \<or> chain nx pv (xs @ [hd xs]))"

lemma ring_Nil [simp]: "ring nx pv []"
  by (simp add: ring_def)

lemma chain_append: "chain nx pv (xs @ y # ys) \<longleftrightarrow> chain nx pv (xs @ [y]) \<and> chain nx pv (y # ys)"
  by (induction nx pv xs rule: chain.induct) (auto simp: neq_Nil_conv elim: chain.elims)

lemma chain_cong:
  assumes "\<And>x. x \<in> set (butlast xs) \<Longrightarrow> nx' x = nx x" and "\<And>x. x \<in> set (tl xs) \<Longrightarrow> pv' x = pv x"
  shows "chain nx' pv' xs \<longleftrightarrow> chain nx pv xs"
  using assms by (induction nx pv xs rule: chain.induct) (auto split: if_splits)

lemma chain_Cons: "chain nx pv (x # xs @ [z]) \<longleftrightarrow>
    nx x = Some (hd (xs @ [z])) \<and> pv (hd (xs @ [z])) = Some x \<and> chain nx pv (xs @ [z])"
  by (cases xs) auto

lemma chain_snoc: "xs \<noteq> [] \<Longrightarrow> chain nx pv (xs @ [z]) \<longleftrightarrow> chain nx pv xs \<and> nx (List.last xs) = Some z \<and> pv z = Some (List.last xs)"
proof (induction xs rule: rev_induct)
  case (snoc x xs)
  show ?case using chain_append [of nx pv xs x "[z]"] by simp
qed simp

text \<open>The start of the ring is of no account.\<close>

lemma ring_rotate: "ring nx pv (xs @ ys) \<longleftrightarrow> ring nx pv (ys @ xs)"
proof (cases "xs = [] \<or> ys = []")
  case False
  then obtain x xs' y ys' where e: "xs = x # xs'" "ys = y # ys'" by (auto simp: neq_Nil_conv)
  have "chain nx pv (xs @ ys @ [x]) \<longleftrightarrow> chain nx pv (xs @ [y]) \<and> chain nx pv (ys @ [x])"
    unfolding e using chain_append [of nx pv "x # xs'" y "ys' @ [x]"] by simp
  moreover have "chain nx pv (ys @ xs @ [y]) \<longleftrightarrow> chain nx pv (ys @ [x]) \<and> chain nx pv (xs @ [y])"
    unfolding e using chain_append [of nx pv "y # ys'" x "xs' @ [y]"] by simp
  ultimately show ?thesis by (auto simp: ring_def e)
qed auto

lemma ring_first:
  assumes "ring nx pv (x # xs)"
  shows "nx x = Some (hd (xs @ [x]))" "pv x = Some (List.last (x # xs))"
proof -
  show "nx x = Some (hd (xs @ [x]))" using assms chain_Cons [of nx pv x xs x] by (simp add: ring_def)
  show "pv x = Some (List.last (x # xs))" using assms chain_snoc [of "x # xs" nx pv x] by (simp add: ring_def)
qed

lemma ring_next:
  assumes "ring nx pv (xs @ x # y # ys)"
  shows "nx x = Some y" "pv y = Some x"
proof -
  have "ring nx pv (x # (y # ys @ xs))" "ring nx pv (y # (ys @ xs @ [x]))"
    using assms ring_rotate [of nx pv xs "x # y # ys"] ring_rotate [of nx pv "xs @ [x]" "y # ys"] by simp_all
  from ring_first(1) [OF this(1)] ring_first(2) [OF this(2)] show "nx x = Some y" "pv y = Some x" by simp_all
qed

lemma ring_cong:
  assumes "\<And>x. x \<in> set xs \<Longrightarrow> nx' x = nx x \<and> pv' x = pv x"
  shows "ring nx' pv' xs \<longleftrightarrow> ring nx pv xs"
proof (cases "xs = []")
  case False
  have "chain nx' pv' (xs @ [hd xs]) \<longleftrightarrow> chain nx pv (xs @ [hd xs])"
    by (rule chain_cong) (use assms False in \<open>auto dest: list.set_sel(2)\<close>)
  with False show ?thesis by (simp add: ring_def)
qed simp

lemma ring_single: "nx x = Some x \<Longrightarrow> pv x = Some x \<Longrightarrow> ring nx pv [x]"
  by (simp add: ring_def)

text \<open>A new node between the last and the first.\<close>

lemma ring_add:
  assumes "ring nx pv (h # xs)" and "x \<notin> set (h # xs)" and "distinct (h # xs)" and l: "l = List.last (h # xs)"
  shows "ring (nx(x := Some h, l := Some x)) (pv(x := Some l, h := Some x)) ((h # xs) @ [x])"
proof -
  let ?nx = "nx(x := Some h, l := Some x)" and ?pv = "pv(x := Some l, h := Some x)"
  have lin: "l \<in> set (h # xs)" unfolding l by (rule last_in_set) simp
  have "l \<notin> set (butlast (h # xs))"
    using assms(3) append_butlast_last_id [of "h # xs"] unfolding l by (metis distinct_append list.discI disjoint_insert(1) list.simps(15))
  moreover have "h \<notin> set (tl (h # xs))" using assms(3) by simp
  ultimately have "chain ?nx ?pv (h # xs) \<longleftrightarrow> chain nx pv (h # xs)"
    by (intro chain_cong) (use assms(2) in \<open>auto dest: in_set_butlastD split: if_splits\<close>)
  moreover have "chain nx pv (h # xs)" using assms(1) chain_snoc [of "h # xs" nx pv h] by (simp add: ring_def)
  ultimately have c: "chain ?nx ?pv (h # xs)" by simp
  have xh: "x \<noteq> h" "x \<noteq> l" using assms(2) lin by auto
  have "chain ?nx ?pv ((h # xs) @ [x])" using c chain_snoc [of "h # xs" ?nx ?pv x] xh l by simp
  with chain_snoc [of "(h # xs) @ [x]" ?nx ?pv h] xh show ?thesis by (simp add: ring_def)
qed

text \<open>A node leaves the ring.\<close>

lemma ring_remove_first:
  assumes "ring nx pv (x # ys)" and "distinct (x # ys)" and "ys \<noteq> []" and "nx x = Some n" and "pv x = Some v"
  shows "ring (nx(v := Some n)) (pv(n := Some v)) ys"
proof -
  from ring_first [OF assms(1)] assms(3-5) have nv: "n = hd ys" "v = List.last ys" by simp_all
  have c: "chain nx pv (ys @ [x])" using assms(1) chain_Cons [of nx pv x ys x] by (simp add: ring_def)
  then have "chain nx pv ys" using chain_snoc [OF assms(3)] by blast
  moreover have "chain (nx(v := Some n)) (pv(n := Some v)) ys \<longleftrightarrow> chain nx pv ys"
  proof (rule chain_cong)
    fix z assume "z \<in> set (butlast ys)"
    moreover have "distinct (butlast ys @ [v])" using assms(2,3) nv by simp
    ultimately show "(nx(v := Some n)) z = nx z" by auto
  next
    fix z assume "z \<in> set (tl ys)"
    moreover have "distinct (n # tl ys)" using assms(2,3) nv by (cases ys) auto
    ultimately show "(pv(n := Some v)) z = pv z" by auto
  qed
  ultimately have "chain (nx(v := Some n)) (pv(n := Some v)) (ys @ [n])"
    using chain_snoc [OF assms(3), of "nx(v := Some n)" "pv(n := Some v)" n] nv by simp
  with nv show ?thesis by (simp add: ring_def)
qed

lemma ring_remove:
  assumes "ring nx pv (xs @ x # ys)" and "distinct (xs @ x # ys)" and "xs @ ys \<noteq> []" and "nx x = Some n" and "pv x = Some v"
  shows "ring (nx(v := Some n)) (pv(n := Some v)) (xs @ ys)"
proof -
  have "ring nx pv (x # ys @ xs)" using assms(1) ring_rotate [of nx pv xs "x # ys"] by simp
  from ring_remove_first [OF this _ _ assms(4,5)] assms(2,3) have "ring (nx(v := Some n)) (pv(n := Some v)) (ys @ xs)" by auto
  then show ?thesis using ring_rotate by blast
qed

end
