(* ===== verification/DrrQueue.thy ===== *)
theory DrrQueue
  imports NsQueue RingList "HOL-Library.Signed_Division"
begin

text \<open>
  Deficit round robin, \<open>queue/drr.cc\<close>: one queue per bucket of source addresses, the buckets that
  hold packets linked in a ring. A pointer to a bucket is its index. The ring is shown to be a list,
  the counters to be sums, both loops to end; the discipline is then an instance of \<open>queue_disc\<close>.
\<close>

section \<open>The ring of active buckets\<close>

record 'b drr_flow =
  fl_q :: "'b pkt_queue"
  f_pkts :: int
  f_src :: int
  bcount :: int
  f_prev :: "nat option"
  f_next :: "nat option"
  deficitCounter :: int
  turn :: bool

definition flow_new :: "'b drr_flow" where
  "flow_new =
     \<lparr>fl_q = pq_new, f_pkts = 0, f_src = - 1, bcount = 0, f_prev = None, f_next = None, deficitCounter = 0, turn = False\<rparr>"

text \<open>\<open>upd\<close> changes the bucket that a pointer refers to.\<close>

definition upd :: "nat \<Rightarrow> ('f \<Rightarrow> 'f) \<Rightarrow> 'f list \<Rightarrow> 'f list" where
  "upd b g a = a[b := g (a ! b)]"

definition activate :: "nat \<Rightarrow> nat option \<Rightarrow> 'b drr_flow list \<Rightarrow> (nat option \<times> 'b drr_flow list) res" where
  "activate b head a =
     (case head of
        Some h \<Rightarrow>
          (case f_prev (a ! h) of
             None \<Rightarrow> Inl NullDeref
           | Some l \<Rightarrow>
               Inr (Some h,
                    upd h (f_prev_update (\<lambda>_. Some b))
                      (upd l (f_next_update (\<lambda>_. Some b))
                        (upd b (\<lambda>f. f\<lparr>f_prev := Some l, f_next := Some h\<rparr>) a))))
      | None \<Rightarrow> Inr (Some b, upd b (\<lambda>f. f\<lparr>f_prev := Some b, f_next := Some b\<rparr>) a))"

definition unlink :: "nat \<Rightarrow> 'b drr_flow list \<Rightarrow> 'b drr_flow list res" where
  "unlink b a =
     (case (f_next (a ! b), f_prev (a ! b)) of
        (Some n, Some v) \<Rightarrow> Inr (upd v (f_next_update (\<lambda>_. Some n)) (upd n (f_prev_update (\<lambda>_. Some v)) a))
      | _ \<Rightarrow> Inl NullDeref)"

definition idle :: "nat \<Rightarrow> nat option \<Rightarrow> 'b drr_flow list \<Rightarrow> (nat option \<times> 'b drr_flow list) res" where
  "idle b head a =
     (if head = Some b then
        if f_next (a ! b) = Some b then Inr (None, a)
        else bindR (unlink b a) (\<lambda>a1. Inr (f_next (a1 ! b), a1))
      else bindR (unlink b a) (\<lambda>a1. Inr (head, a1)))"

section \<open>The queue\<close>

text \<open>\<open>drr\<close> is empty as long as the array has not been allocated.\<close>

record 'b drr =
  buckets :: int
  blimit :: int
  quantum :: int
  mask :: bool
  bytecnt :: int
  pktcnt :: int
  flwcnt :: nat
  curr :: "nat option"
  drr_arr :: "'b drr_flow list"

definition drr_new :: "int \<Rightarrow> int \<Rightarrow> int \<Rightarrow> bool \<Rightarrow> 'b drr" where
  "drr_new nb lm qn m =
     \<lparr>buckets = nb, blimit = lm, quantum = qn, mask = m, bytecnt = 0, pktcnt = 0, flwcnt = 0, curr = None, drr_arr = []\<rparr>"

text \<open>Shifts of a signed number round down; \<open>%\<close> rounds towards zero.\<close>

definition drr_hash :: "bool \<Rightarrow> 'b packet \<Rightarrow> int" where
  "drr_hash m p =
     (let i = (if m then sint (saddr p) mod 2 ^ 16 div 16 * 16 else sint (saddr p))
      in ((i + i div 2 ^ 8 + (- (i div 2 ^ 4) - 1)) smod (2 * 2 ^ 23 - 1)) + 1)"

definition drr_bucket :: "'b drr \<Rightarrow> 'b packet \<Rightarrow> int" where
  "drr_bucket d p = drr_hash (mask d) p smod buckets d"

definition getMaxflow :: "nat \<Rightarrow> 'b drr_flow list \<Rightarrow> nat \<Rightarrow> nat res" where
  "getMaxflow n a c =
     bindR (((\<lambda>r. bindR r (\<lambda>(tmp, maxflow).
        case tmp of
          None \<Rightarrow> Inl NullDeref
        | Some t \<Rightarrow> Inr (f_next (a ! t), if bcount (a ! maxflow) < bcount (a ! t) then t else maxflow))) ^^ n)
       (Inr (Some c, c))) (\<lambda>(tmp, maxflow). Inr maxflow)"

text \<open>What \<open>enque\<close> and \<open>deque\<close> have in common: the head of a bucket leaves it, and an empty bucket leaves the ring.\<close>

definition drr_take :: "nat \<Rightarrow> 'b drr \<Rightarrow> ('b packet \<times> 'b drr) res" where
  "drr_take b d =
     (if length (drr_arr d) \<le> b then Inl OutOfBounds
      else case pq_deque (fl_q (drr_arr d ! b)) of
        (None, _) \<Rightarrow> Inl NullDeref
      | (Some p, q1) \<Rightarrow>
          Inr (p, d\<lparr>drr_arr := upd b (\<lambda>f. f\<lparr>fl_q := q1, bcount := bcount f - psize p, f_pkts := f_pkts f - 1\<rparr>) (drr_arr d),
                    bytecnt := bytecnt d - psize p, pktcnt := pktcnt d - 1\<rparr>))"

definition drr_retire :: "nat \<Rightarrow> 'b drr \<Rightarrow> 'b drr res" where
  "drr_retire b d =
     bindR (idle b (curr d) (drr_arr d)) (\<lambda>(c, a). Inr (d\<lparr>curr := c, drr_arr := a, flwcnt := flwcnt d - 1\<rparr>))"

definition drr_drop_one :: "'b drr \<Rightarrow> ('b packet \<times> 'b drr) res" where
  "drr_drop_one d =
     (case curr d of
        None \<Rightarrow> Inl NullDeref
      | Some c \<Rightarrow>
          bindR (getMaxflow (flwcnt d) (drr_arr d) c) (\<lambda>b.
          bindR (drr_take b d) (\<lambda>(p, d1).
            if f_pkts (drr_arr d1 ! b) = 0 then bindR (drr_retire b d1) (\<lambda>d2. Inr (p, d2))
            else Inr (p, d1))))"

definition drr_total :: "'b drr \<Rightarrow> nat" where
  "drr_total d = sum_list (map (\<lambda>f. length (pq_items (fl_q f))) (drr_arr d))"

lemma drr_total_upd:
  "b < length a \<Longrightarrow> sum_list (map g (upd b h a)) + g (a ! b) = sum_list (map g a) + (g (h (a ! b)) :: 'c :: comm_monoid_add)"
  by (induction a arbitrary: b) (auto simp: upd_def nth_Cons ac_simps split: nat.splits)

lemma drr_take_less:
  assumes "drr_take b d = Inr (p, d1)"
  shows "drr_total d1 < drr_total d"
proof -
  obtain q1 where q: "b < length (drr_arr d)" "pq_deque (fl_q (drr_arr d ! b)) = (Some p, q1)"
    "drr_arr d1 = upd b (\<lambda>f. f\<lparr>fl_q := q1, bcount := bcount f - psize p, f_pkts := f_pkts f - 1\<rparr>) (drr_arr d)"
    using assms by (auto simp: drr_take_def split: prod.splits option.splits if_splits)
  from drr_total_upd [OF q(1), of "\<lambda>f. length (pq_items (fl_q f))"
      "\<lambda>f. f\<lparr>fl_q := q1, bcount := bcount f - psize p, f_pkts := f_pkts f - 1\<rparr>"]
  show ?thesis using pq_deque_Some [OF q(2)] by (simp add: drr_total_def q(3))
qed

definition strip :: "'b drr_flow \<Rightarrow> 'b drr_flow" where
  "strip f = f\<lparr>f_prev := None, f_next := None\<rparr>"

lemma upd_strip: "(\<And>f. strip (g f) = strip f) \<Longrightarrow> map strip (upd b g a) = map strip a"
  by (cases "b < length a") (simp_all add: upd_def map_update list_update_same_conv list_update_beyond)

lemma strip_links [simp]:
  "strip (f_prev_update g f) = strip f" "strip (f_next_update g f) = strip f"
  by (simp_all add: strip_def)

lemma strip_upd:
  assumes "\<And>f. strip (g f) = g (strip f)"
  shows "map strip (upd b g x) = upd b g (map strip x)"
  by (cases "b < length x") (simp_all add: upd_def map_update assms list_update_beyond)

lemma unlink_strip: "unlink b a = Inr a' \<Longrightarrow> map strip a' = map strip a"
  by (auto simp: unlink_def upd_strip split: option.splits)

lemma idle_strip: "idle b c a = Inr (c', a') \<Longrightarrow> map strip a' = map strip a"
  by (auto simp: idle_def bindR_eq_Inr dest: unlink_strip split: if_splits)

lemma strip_total: "map strip a = map strip a' \<Longrightarrow> map (\<lambda>f. length (pq_items (fl_q f))) a = map (\<lambda>f. length (pq_items (fl_q f))) a'"
  by (drule arg_cong [of _ _ "map (\<lambda>f. length (pq_items (fl_q f)))"]) (simp add: strip_def comp_def)

lemma drr_drop_one_less:
  assumes "drr_drop_one d = Inr (p, d')"
  shows "drr_total d' < drr_total d"
proof -
  from assms obtain b d1 where t: "drr_take b d = Inr (p, d1)"
    and r: "if f_pkts (drr_arr d1 ! b) = 0 then drr_retire b d1 = Inr d' else d' = d1"
    by (auto simp: drr_drop_one_def bindR_eq_Inr split: option.splits if_splits)
  have "drr_total d' = drr_total d1"
  proof (cases "f_pkts (drr_arr d1 ! b) = 0")
    case True
    with r obtain c a where "idle b (curr d1) (drr_arr d1) = Inr (c, a)" "drr_arr d' = a"
      by (auto simp: drr_retire_def bindR_eq_Inr)
    with strip_total [OF idle_strip] show ?thesis by (metis drr_total_def)
  qed (use r in simp)
  with drr_take_less [OF t] show ?thesis by simp
qed

text \<open>The loop in \<open>enque\<close>: while the limit on all bytes is exceeded, the longest queue loses its head.\<close>

function drr_trim :: "'b drr \<Rightarrow> ('b packet list \<times> 'b drr) res" where
  "drr_trim d =
     (if bytecnt d > blimit d then
        (case drr_drop_one d of
           Inl er \<Rightarrow> Inl er
         | Inr (p, d1) \<Rightarrow> bindR (drr_trim d1) (\<lambda>(ps, d2). Inr (p # ps, d2)))
      else Inr ([], d))"
  by pat_completeness auto
termination by (relation "measure drr_total") (auto dest: drr_drop_one_less)

declare drr_trim.simps [simp del]

definition drr_source :: "'b drr \<Rightarrow> 'b packet \<Rightarrow> int" where
  "drr_source d p = (if mask d then sint (saddr p) mod 2 ^ 16 div 16 * 16 else sint (saddr p))"

text \<open>A collision of two sources only prints a warning.\<close>

definition drr_put :: "nat \<Rightarrow> 'b packet \<Rightarrow> 'b drr \<Rightarrow> 'b drr" where
  "drr_put b p d =
     d\<lparr>drr_arr := upd b (\<lambda>f. f\<lparr>f_src := (if f_src f = - 1 then drr_source d p else f_src f), fl_q := snd (pq_enque p (fl_q f)),
         f_pkts := f_pkts f + 1, bcount := bcount f + psize p\<rparr>) (drr_arr d),
       pktcnt := pktcnt d + 1, bytecnt := bytecnt d + psize p\<rparr>"

definition drr_admit :: "nat \<Rightarrow> 'b drr \<Rightarrow> 'b drr res" where
  "drr_admit b d =
     (if f_pkts (drr_arr d ! b) = 1 then
        bindR (activate b (curr d) (drr_arr d)) (\<lambda>(c, a).
          Inr (d\<lparr>curr := c, drr_arr := upd b (deficitCounter_update (\<lambda>_. 0)) a, flwcnt := flwcnt d + 1\<rparr>))
      else Inr d)"

definition drr_alloc :: "'b drr \<Rightarrow> 'b drr" where
  "drr_alloc d = (if drr_arr d = [] then d\<lparr>drr_arr := replicate (nat (buckets d)) flow_new\<rparr> else d)"

definition drr_enque :: "'b packet \<Rightarrow> 'b drr \<Rightarrow> ('b packet list \<times> 'b drr) res" where
  "drr_enque p d =
     (let d0 = drr_alloc d; w = drr_bucket d0 p
      in if buckets d0 = 0 then Inl Aborted
         else if w < 0 \<or> w \<ge> int (length (drr_arr d0)) then Inl OutOfBounds
         else bindR (drr_admit (nat w) (drr_put (nat w) p d0)) drr_trim)"

text \<open>One round of the loop in \<open>deque\<close>: a packet, or the move to the next bucket.\<close>

definition drr_visit :: "'b drr \<Rightarrow> ('b packet option \<times> 'b drr) res" where
  "drr_visit d =
     (case curr d of
        None \<Rightarrow> Inl NullDeref
      | Some c \<Rightarrow>
          let d1 = (if turn (drr_arr d ! c) then d
                    else d\<lparr>drr_arr := upd c (\<lambda>f. f\<lparr>deficitCounter := deficitCounter f + quantum d, turn := True\<rparr>) (drr_arr d)\<rparr>)
          in case pq_lookup 0 (fl_q (drr_arr d1 ! c)) of
               None \<Rightarrow> Inl NullDeref
             | Some p \<Rightarrow>
                 if deficitCounter (drr_arr d1 ! c) \<ge> psize p then
                   bindR (drr_take c (d1\<lparr>drr_arr := upd c (\<lambda>f. f\<lparr>deficitCounter := deficitCounter f - psize p\<rparr>) (drr_arr d1)\<rparr>))
                     (\<lambda>(p', d2).
                       if f_pkts (drr_arr d2 ! c) = 0 then
                         bindR (drr_retire c (d2\<lparr>drr_arr := upd c (\<lambda>f. f\<lparr>turn := False, deficitCounter := 0\<rparr>) (drr_arr d2)\<rparr>))
                           (\<lambda>d3. Inr (Some p', d3))
                       else Inr (Some p', d2))
                 else
                   Inr (None, d1\<lparr>drr_arr := upd c (turn_update (\<lambda>_. False)) (drr_arr d1), curr := f_next (drr_arr d1 ! c)\<rparr>))"

partial_function (option) drr_loop :: "'b drr \<Rightarrow> ('b packet option \<times> 'b drr) res option" where
  "drr_loop d =
     (case drr_visit d of
        Inl er \<Rightarrow> Some (Inl er)
      | Inr (r, d1) \<Rightarrow> (case r of None \<Rightarrow> drr_loop d1 | Some p \<Rightarrow> Some (Inr (Some p, d1))))"

definition drr_deque :: "'b drr \<Rightarrow> ('b packet option \<times> 'b drr) res" where
  "drr_deque d =
     (if bytecnt d = 0 then Inr (None, d) else case drr_loop d of None \<Rightarrow> Inl Hangs | Some r \<Rightarrow> r)"

text \<open>The commands of the Tcl interface.\<close>

datatype drr_command = Blimit int | Buckets int | Quantum int | Mask bool

definition drr_clear :: "'b drr \<Rightarrow> 'b drr res" where
  "drr_clear d = (if \<exists>f \<in> set (drr_arr d). f_pkts f \<noteq> 0 then Inl Exited else Inr (d\<lparr>drr_arr := []\<rparr>))"

definition drr_do_command :: "drr_command \<Rightarrow> 'b drr \<Rightarrow> 'b drr res" where
  "drr_do_command cmd d =
     (case cmd of
        Blimit n \<Rightarrow> if bytecnt d > n then Inl Exited else Inr (d\<lparr>blimit := n\<rparr>)
      | Buckets n \<Rightarrow> bindR (drr_clear d) (\<lambda>d1. Inr (d1\<lparr>buckets := n\<rparr>))
      | Quantum n \<Rightarrow> Inr (d\<lparr>quantum := n\<rparr>)
      | Mask m \<Rightarrow> Inr (d\<lparr>mask := m\<rparr>))"

section \<open>The ring is a list\<close>

definition ringed :: "'b drr_flow list \<Rightarrow> nat option \<Rightarrow> nat list \<Rightarrow> bool" where
  "ringed a c xs \<longleftrightarrow>
     ring (\<lambda>b. f_next (a ! b)) (\<lambda>b. f_prev (a ! b)) xs \<and> distinct xs \<and> (\<forall>x \<in> set xs. x < length a)
     \<and> c = (if xs = [] then None else Some (hd xs))"

lemma ringedD:
  assumes "ringed a c xs"
  shows "ring (\<lambda>b. f_next (a ! b)) (\<lambda>b. f_prev (a ! b)) xs" "distinct xs" "\<And>x. x \<in> set xs \<Longrightarrow> x < length a"
    "c = (if xs = [] then None else Some (hd xs))"
  using assms by (simp_all add: ringed_def)

lemma length_upd [simp]: "length (upd b g a) = length a"
  by (simp add: upd_def)

lemma nth_upd: "b < length a \<Longrightarrow> upd b g a ! x = (if x = b then g (a ! b) else a ! x)"
  by (simp add: upd_def)

lemma stripD:
  assumes "map strip a = map strip a'"
  shows "length a = length a'" "map (\<lambda>f. h (strip f)) a = map (\<lambda>f. h (strip f)) a'" "\<And>b. b < length a \<Longrightarrow> strip (a ! b) = strip (a' ! b)"
proof -
  show len: "length a = length a'" by (rule map_eq_imp_length_eq [OF assms])
  show "map (\<lambda>f. h (strip f)) a = map (\<lambda>f. h (strip f)) a'" using arg_cong [OF assms, of "map h"] by (simp add: comp_def)
  show "strip (a ! b) = strip (a' ! b)" if "b < length a" for b
    using arg_cong [OF assms, of "\<lambda>l. l ! b"] that len by simp
qed

lemma strip_eqD:
  assumes "strip f = strip g"
  shows "fl_q f = fl_q g" "f_pkts f = f_pkts g" "f_src f = f_src g" "bcount f = bcount g"
    "deficitCounter f = deficitCounter g" "turn f = turn g"
  using arg_cong [OF assms, of fl_q] arg_cong [OF assms, of f_pkts] arg_cong [OF assms, of f_src] arg_cong [OF assms, of bcount]
    arg_cong [OF assms, of deficitCounter] arg_cong [OF assms, of turn] by (simp_all add: strip_def)

lemma ringed_cong:
  assumes "ringed a c xs" and "length a' = length a" and "\<And>x. x \<in> set xs \<Longrightarrow> f_next (a' ! x) = f_next (a ! x) \<and> f_prev (a' ! x) = f_prev (a ! x)"
  shows "ringed a' c xs"
  using assms ring_cong [of xs "\<lambda>b. f_next (a' ! b)" "\<lambda>b. f_next (a ! b)" "\<lambda>b. f_prev (a' ! b)" "\<lambda>b. f_prev (a ! b)"]
  by (simp add: ringed_def)

lemma ringed_upd:
  assumes "ringed a c xs" and "\<And>f. f_next (g f) = f_next f \<and> f_prev (g f) = f_prev f"
  shows "ringed (upd b g a) c xs"
proof (rule ringed_cong [OF assms(1)])
  fix x assume "x \<in> set xs"
  then have "x < length a" using ringedD(3) [OF assms(1)] by blast
  then show "f_next (upd b g a ! x) = f_next (a ! x) \<and> f_prev (upd b g a ! x) = f_prev (a ! x)"
    using assms(2) by (cases "x = b") (simp_all add: upd_def)
qed simp

text \<open>A bucket becomes active at the end of the round, that is just before the current one.\<close>

lemma activate_ringed:
  assumes r: "ringed a c xs" and b: "b \<notin> set xs" "b < length a"
  obtains c' a' where "activate b c a = Inr (c', a')" "ringed a' c' (xs @ [b])" "map strip a' = map strip a"
proof (cases xs)
  case Nil
  have "activate b c a = Inr (Some b, upd b (\<lambda>f. f\<lparr>f_prev := Some b, f_next := Some b\<rparr>) a)"
    using r Nil by (simp add: activate_def ringed_def)
  moreover have "ringed (upd b (\<lambda>f. f\<lparr>f_prev := Some b, f_next := Some b\<rparr>) a) (Some b) [b]"
    using b(2) by (auto simp: ringed_def nth_upd intro!: ring_single)
  moreover have "map strip (upd b (\<lambda>f. f\<lparr>f_prev := Some b, f_next := Some b\<rparr>) a) = map strip a"
    by (rule upd_strip) simp
  ultimately show thesis using that Nil by simp
next
  case (Cons h ys)
  let ?l = "List.last (h # ys)"
  note rd = ringedD [OF r]
  have c: "c = Some h" using rd(4) Cons by simp
  have l: "f_prev (a ! h) = Some ?l" using ring_first(2) [OF rd(1) [unfolded Cons]] .
  have lin: "?l \<in> set (h # ys)" by (rule last_in_set) simp
  have len: "h < length a" "?l < length a" using rd(3) [of h] rd(3) [of ?l] lin Cons by simp_all
  define a' where "a' = upd h (f_prev_update (\<lambda>_. Some b)) (upd ?l (f_next_update (\<lambda>_. Some b))
    (upd b (\<lambda>f. f\<lparr>f_prev := Some ?l, f_next := Some h\<rparr>) a))"
  have n: "(\<lambda>x. f_next (a' ! x)) = (\<lambda>x. f_next (a ! x))(b := Some h, ?l := Some b)"
    "(\<lambda>x. f_prev (a' ! x)) = (\<lambda>x. f_prev (a ! x))(b := Some ?l, h := Some b)"
    using len b(2) by (auto simp: a'_def nth_upd fun_eq_iff)
  have "ring (\<lambda>x. f_next (a' ! x)) (\<lambda>x. f_prev (a' ! x)) ((h # ys) @ [b])"
    unfolding n by (rule ring_add [OF rd(1) [unfolded Cons]]) (use b(1) rd(2) Cons in auto)
  then have "ringed a' (Some h) (xs @ [b])" using rd(2,3) b Cons by (auto simp: ringed_def a'_def)
  moreover have "activate b c a = Inr (Some h, a')" by (simp add: activate_def c l a'_def)
  moreover have "map strip a' = map strip a" unfolding a'_def by (simp add: upd_strip)
  ultimately show thesis using that by blast
qed

lemma unlink_ringed:
  assumes r: "ringed a c (xs @ b # ys)" and ne: "xs @ ys \<noteq> []"
  obtains a' where "unlink b a = Inr a'" "ring (\<lambda>x. f_next (a' ! x)) (\<lambda>x. f_prev (a' ! x)) (xs @ ys)"
    "map strip a' = map strip a" "f_next (a' ! b) = Some (hd (ys @ xs))"
proof -
  note rd = ringedD [OF r]
  have rot: "ring (\<lambda>x. f_next (a ! x)) (\<lambda>x. f_prev (a ! x)) (b # (ys @ xs))"
    using rd(1) ring_rotate [of _ _ xs "b # ys"] by simp
  obtain n where n: "f_next (a ! b) = Some n" "n = hd ((ys @ xs) @ [b])" using ring_first(1) [OF rot] by blast
  obtain v where v: "f_prev (a ! b) = Some v" "v = List.last (b # ys @ xs)" using ring_first(2) [OF rot] by blast
  have "ys @ xs \<noteq> []" using ne by auto
  then have "n \<in> set (ys @ xs)" "v \<in> set (ys @ xs)"
    using n(2) v(2) hd_in_set [of "ys @ xs"] last_in_set [of "ys @ xs"] by (auto simp: hd_append)
  then have len: "n < length a" "v < length a" "v \<noteq> b" using rd(2,3) by auto
  define a' where "a' = upd v (f_next_update (\<lambda>_. Some n)) (upd n (f_prev_update (\<lambda>_. Some v)) a)"
  have e: "(\<lambda>x. f_next (a' ! x)) = (\<lambda>x. f_next (a ! x))(v := Some n)" "(\<lambda>x. f_prev (a' ! x)) = (\<lambda>x. f_prev (a ! x))(n := Some v)"
    using len by (auto simp: a'_def nth_upd fun_eq_iff)
  have "ring (\<lambda>x. f_next (a' ! x)) (\<lambda>x. f_prev (a' ! x)) (xs @ ys)"
    unfolding e by (rule ring_remove [OF rd(1,2) ne n(1) v(1)])
  moreover have "unlink b a = Inr a'" by (simp add: unlink_def n(1) v(1) a'_def)
  moreover have "map strip a' = map strip a" unfolding a'_def by (simp add: upd_strip)
  moreover have "n = hd (ys @ xs)" unfolding n(2) by (rule hd_append2 [OF \<open>ys @ xs \<noteq> []\<close>])
  moreover have "f_next (a' ! b) = f_next (a ! b)" using len by (simp add: a'_def nth_upd)
  ultimately show thesis using that n(1) by metis
qed

lemma idle_ringed:
  assumes r: "ringed a c (xs @ b # ys)"
  obtains c' a' where "idle b c a = Inr (c', a')" "ringed a' c' (xs @ ys)" "map strip a' = map strip a"
proof (cases "xs @ ys = []")
  case True
  with r ring_first(1) [of "\<lambda>b. f_next (a ! b)" "\<lambda>b. f_prev (a ! b)" b "[]"] have "idle b c a = Inr (None, a)"
    by (simp add: idle_def ringed_def)
  with True that show thesis by (simp add: ringed_def)
next
  case False
  note rd = ringedD [OF r]
  obtain a' where a': "unlink b a = Inr a'" "ring (\<lambda>x. f_next (a' ! x)) (\<lambda>x. f_prev (a' ! x)) (xs @ ys)"
    "map strip a' = map strip a" "f_next (a' ! b) = Some (hd (ys @ xs))" by (rule unlink_ringed [OF r False])
  have len: "length a' = length a" by (rule map_eq_imp_length_eq [OF a'(3)])
  have nxt: "f_next (a ! b) \<noteq> Some b"
  proof
    assume "f_next (a ! b) = Some b"
    moreover have "ring (\<lambda>x. f_next (a ! x)) (\<lambda>x. f_prev (a ! x)) (b # (ys @ xs))"
      using rd(1) ring_rotate [of _ _ xs "b # ys"] by simp
    ultimately have "b = hd ((ys @ xs) @ [b])" using ring_first(1) by fastforce
    with False have "b \<in> set (ys @ xs)" by (cases "ys @ xs") auto
    with rd(2) show False by auto
  qed
  define c' where "c' = (if xs = [] then Some (hd ys) else c)"
  have "idle b c a = Inr (c', a')"
  proof (cases xs)
    case Nil
    with rd(4) nxt a'(1,4) show ?thesis by (simp add: idle_def c'_def)
  next
    case (Cons h hs)
    with rd(2,4) have "c \<noteq> Some b" by auto
    with a'(1) Cons show ?thesis by (simp add: idle_def c'_def)
  qed
  moreover have "ringed a' c' (xs @ ys)"
    using a'(2) rd(2,3,4) len False by (cases xs) (auto simp: ringed_def c'_def)
  ultimately show thesis using that a'(3) by blast
qed

section \<open>The invariant\<close>

abbreviation fitems :: "'b drr_flow \<Rightarrow> 'b packet list" where
  "fitems f \<equiv> pq_items (fl_q f)"

definition flow_ok :: "'b drr_flow \<Rightarrow> bool" where
  "flow_ok f \<longleftrightarrow> pq_inv (fl_q f) \<and> f_pkts f = pq_len (fl_q f) \<and> bcount f = pq_bytes (fl_q f)
     \<and> (\<forall>p \<in> set (fitems f). 0 < psize p) \<and> 0 \<le> deficitCounter f"

definition active :: "'b drr_flow list \<Rightarrow> nat set" where
  "active a = {b. b < length a \<and> fitems (a ! b) \<noteq> []}"

definition drr_params :: "'b drr \<Rightarrow> bool" where
  "drr_params d \<longleftrightarrow> 0 < quantum d \<and> 0 \<le> blimit d \<and> 0 < buckets d \<and> (drr_arr d = [] \<or> int (length (drr_arr d)) = buckets d)"

text \<open>\<open>xs\<close> is the round, from the current bucket on.\<close>

definition drr_base :: "'b drr \<Rightarrow> nat list \<Rightarrow> bool" where
  "drr_base d xs \<longleftrightarrow> ringed (drr_arr d) (curr d) xs \<and> (\<forall>f \<in> set (drr_arr d). flow_ok f) \<and> flwcnt d = length xs
     \<and> bytecnt d = sum_list (map bcount (drr_arr d)) \<and> pktcnt d = sum_list (map f_pkts (drr_arr d)) \<and> drr_params d"

definition drr_core :: "'b drr \<Rightarrow> nat list \<Rightarrow> bool" where
  "drr_core d xs \<longleftrightarrow> drr_base d xs \<and> set xs = active (drr_arr d)"

definition drr_inv :: "'b drr \<Rightarrow> bool" where
  "drr_inv d \<longleftrightarrow> (\<exists>xs. drr_core d xs) \<and> bytecnt d \<le> blimit d"

definition drr_held :: "'b drr \<Rightarrow> 'b packet multiset" where
  "drr_held d = sum_list (map (\<lambda>f. mset (fitems f)) (drr_arr d))"

lemma strip_maps:
  assumes "map strip a' = map strip a"
  shows "map bcount a' = map bcount a" "map f_pkts a' = map f_pkts a" "map (\<lambda>f. mset (fitems f)) a' = map (\<lambda>f. mset (fitems f)) a"
    "(\<forall>f \<in> set a'. flow_ok f) \<longleftrightarrow> (\<forall>f \<in> set a. flow_ok f)" "active a' = active a" "length a' = length a"
proof -
  note d = stripD [OF assms]
  have e: "fl_q (a' ! b) = fl_q (a ! b)" "f_pkts (a' ! b) = f_pkts (a ! b)" "bcount (a' ! b) = bcount (a ! b)"
    "deficitCounter (a' ! b) = deficitCounter (a ! b)" if "b < length a" for b
    using strip_eqD [OF d(3) [of b]] that d(1) by simp_all
  show "map bcount a' = map bcount a" "map f_pkts a' = map f_pkts a" "map (\<lambda>f. mset (fitems f)) a' = map (\<lambda>f. mset (fitems f)) a"
    using d(1) e by (auto intro: nth_equalityI)
  show "(\<forall>f \<in> set a'. flow_ok f) \<longleftrightarrow> (\<forall>f \<in> set a. flow_ok f)"
    using d(1) e by (auto simp: all_set_conv_all_nth flow_ok_def)
  show "active a' = active a" using d(1) e by (auto simp: active_def)
  show "length a' = length a" by (rule d(1))
qed

lemma set_upd: "b < length a \<Longrightarrow> \<forall>f \<in> set a. P f \<Longrightarrow> P (g (a ! b)) \<Longrightarrow> \<forall>f \<in> set (upd b g a). P f"
  by (auto simp: upd_def dest: set_update_subset_insert [THEN subsetD])

lemma active_upd: "b < length a \<Longrightarrow> active (upd b g a) = (if fitems (g (a ! b)) = [] then active a - {b} else insert b (active a))"
  by (auto simp: active_def nth_upd)

lemma sum_upd: "b < length a \<Longrightarrow> sum_list (map g (upd b h a)) = sum_list (map g a) + (g (h (a ! b)) - g (a ! b) :: int)"
  using drr_total_upd [of b a g h] by simp

text \<open>A bucket changes, with its counters.\<close>

lemma base_upd:
  assumes "drr_base d xs" and "b < length (drr_arr d)" and "\<And>f. f_next (g f) = f_next f \<and> f_prev (g f) = f_prev f"
    and "flow_ok (drr_arr d ! b) \<Longrightarrow> flow_ok (g (drr_arr d ! b))"
    and "bytecnt d' = bytecnt d + (bcount (g (drr_arr d ! b)) - bcount (drr_arr d ! b))"
    and "pktcnt d' = pktcnt d + (f_pkts (g (drr_arr d ! b)) - f_pkts (drr_arr d ! b))"
    and "drr_arr d' = upd b g (drr_arr d)" "curr d' = curr d" "flwcnt d' = flwcnt d"
    and "quantum d' = quantum d" "blimit d' = blimit d" "buckets d' = buckets d"
  shows "drr_base d' xs"
proof -
  have ok: "\<forall>f \<in> set (drr_arr d). flow_ok f" using assms(1) by (simp add: drr_base_def)
  with assms(2,4) have "\<forall>f \<in> set (upd b g (drr_arr d)). flow_ok f" by (intro set_upd) auto
  moreover have "ringed (upd b g (drr_arr d)) (curr d) xs" by (rule ringed_upd [OF _ assms(3)]) (use assms(1) in \<open>simp add: drr_base_def\<close>)
  moreover have "(upd b g (drr_arr d) = []) = (drr_arr d = [])" by (simp add: upd_def)
  ultimately show ?thesis using assms by (simp add: drr_base_def drr_params_def sum_upd)
qed

lemma base_links:
  assumes "drr_base d xs" and "map strip a' = map strip (drr_arr d)" and "ringed a' c ys" and "length ys = n"
  shows "drr_base (d\<lparr>curr := c, drr_arr := a', flwcnt := n\<rparr>) ys"
proof -
  note m = strip_maps [OF assms(2)]
  have "(a' = []) = (drr_arr d = [])" using m(6) by auto
  with assms m show ?thesis by (simp add: drr_base_def drr_params_def)
qed

lemma base_retire:
  assumes "drr_base d (xs @ b # ys)"
  obtains c a' where "drr_retire b d = Inr (d\<lparr>curr := c, drr_arr := a', flwcnt := flwcnt d - 1\<rparr>)"
    "drr_base (d\<lparr>curr := c, drr_arr := a', flwcnt := flwcnt d - 1\<rparr>) (xs @ ys)" "map strip a' = map strip (drr_arr d)"
proof -
  have r: "ringed (drr_arr d) (curr d) (xs @ b # ys)" "flwcnt d = Suc (length (xs @ ys))" using assms by (simp_all add: drr_base_def)
  obtain c a' where i: "idle b (curr d) (drr_arr d) = Inr (c, a')" "ringed a' c (xs @ ys)" "map strip a' = map strip (drr_arr d)"
    by (rule idle_ringed [OF r(1)])
  from base_links [OF assms i(3,2)] r(2) have "drr_base (d\<lparr>curr := c, drr_arr := a', flwcnt := flwcnt d - 1\<rparr>) (xs @ ys)" by simp
  with that i show thesis by (simp add: drr_retire_def)
qed

text \<open>The head of a bucket leaves it.\<close>

definition behead :: "'b drr_flow \<Rightarrow> 'b drr_flow" where
  "behead f =
     (case pq_deque (fl_q f) of
        (None, _) \<Rightarrow> f
      | (Some p, q1) \<Rightarrow> f\<lparr>fl_q := q1, bcount := bcount f - psize p, f_pkts := f_pkts f - 1\<rparr>)"

lemma behead_simps:
  assumes "fitems f = p # ps"
  shows "fitems (behead f) = ps" "bcount (behead f) = bcount f - psize p" "f_pkts (behead f) = f_pkts f - 1"
    "deficitCounter (behead f) = deficitCounter f" "turn (behead f) = turn f" "f_next (behead f) = f_next f" "f_prev (behead f) = f_prev f"
    "flow_ok f \<Longrightarrow> flow_ok (behead f) \<and> 0 < psize p"
  using assms pq_inv_ops(2) [of "fl_q f"] by (auto simp: behead_def pq_deque_def flow_ok_def)

lemma behead_links: "f_next (behead f) = f_next f \<and> f_prev (behead f) = f_prev f"
  by (simp add: behead_def split: prod.split option.split)

lemma drr_take_base:
  assumes b: "drr_base d xs" "b < length (drr_arr d)" and it: "fitems (drr_arr d ! b) = p # ps"
  obtains d1 where "drr_take b d = Inr (p, d1)" "drr_base d1 xs"
    "d1 = d\<lparr>drr_arr := upd b behead (drr_arr d), bytecnt := bytecnt d - psize p, pktcnt := pktcnt d - 1\<rparr>"
    "active (drr_arr d1) = (if ps = [] then active (drr_arr d) - {b} else active (drr_arr d))"
    "drr_held d = add_mset p (drr_held d1)" "0 < psize p" "f_pkts (drr_arr d1 ! b) = 0 \<longleftrightarrow> ps = []"
proof -
  define f where "f = drr_arr d ! b"
  note bh = behead_simps [OF it [folded f_def]]
  have ok: "flow_ok f" using b by (auto simp: drr_base_def f_def)
  define d1 where "d1 = d\<lparr>drr_arr := upd b behead (drr_arr d), bytecnt := bytecnt d - psize p, pktcnt := pktcnt d - 1\<rparr>"
  obtain q1 where q1: "pq_deque (fl_q f) = (Some p, q1)" using it by (simp add: pq_deque_def f_def)
  have "drr_take b d = Inr (p, d1)" using b(2) q1 by (simp add: drr_take_def d1_def upd_def behead_def flip: f_def)
  moreover have "drr_base d1 xs"
    by (rule base_upd [OF b behead_links]) (use bh ok in \<open>simp_all add: d1_def flip: f_def\<close>)
  moreover have "active (drr_arr d1) = (if ps = [] then active (drr_arr d) - {b} else active (drr_arr d))"
  proof -
    have "b \<in> active (drr_arr d)" using b(2) it by (simp add: active_def)
    with bh(1) show ?thesis by (simp add: d1_def active_upd [OF b(2)] insert_absorb flip: f_def)
  qed
  moreover have "drr_held d1 + mset (fitems f) = drr_held d + mset (fitems (behead f))"
    using drr_total_upd [OF b(2), of "\<lambda>f. mset (fitems f)" behead] by (simp add: drr_held_def d1_def f_def)
  then have "drr_held d = add_mset p (drr_held d1)" using bh(1) it [folded f_def] by simp
  moreover have "f_pkts (drr_arr d1 ! b) = 0 \<longleftrightarrow> ps = []"
    using bh(1,3,8) ok b(2) by (simp add: d1_def nth_upd flow_ok_def pq_inv_def flip: f_def)
  ultimately show thesis using that d1_def bh(8) ok by blast
qed

text \<open>The same for a change of the links: the packets stay.\<close>

lemma drr_held_links:
  assumes "map strip a' = map strip (drr_arr d)"
  shows "drr_held (d\<lparr>curr := c, drr_arr := a', flwcnt := n\<rparr>) = drr_held d"
  by (simp add: drr_held_def strip_maps(3) [OF assms])

text \<open>A bucket loses its head, and its place in the round with the last packet.\<close>

lemma drr_leave_core:
  assumes core: "drr_core d xs" and b: "b \<in> set xs" and it: "fitems (drr_arr d ! b) = p # ps"
  obtains d1 d2 where "drr_take b d = Inr (p, d1)" "f_pkts (drr_arr d1 ! b) = 0 \<longleftrightarrow> ps = []"
    "d1 = d\<lparr>drr_arr := upd b behead (drr_arr d), bytecnt := bytecnt d - psize p, pktcnt := pktcnt d - 1\<rparr>"
    "if ps = [] then drr_retire b d1 = Inr d2 else d2 = d1"
    "drr_core d2 (if ps = [] then remove1 b xs else xs)" "drr_held d = add_mset p (drr_held d2)"
    "map strip (drr_arr d2) = map strip (upd b behead (drr_arr d))" "bytecnt d2 = bytecnt d - psize p"
    "blimit d2 = blimit d" "quantum d2 = quantum d" "mask d2 = mask d" "buckets d2 = buckets d" "0 < psize p"
proof -
  have base: "drr_base d xs" and act: "set xs = active (drr_arr d)" using core by (simp_all add: drr_core_def)
  have bl: "b < length (drr_arr d)" using b act by (simp add: active_def)
  have dist: "distinct xs" using base by (simp add: drr_base_def ringed_def)
  obtain d1 where t: "drr_take b d = Inr (p, d1)" "drr_base d1 xs"
    "d1 = d\<lparr>drr_arr := upd b behead (drr_arr d), bytecnt := bytecnt d - psize p, pktcnt := pktcnt d - 1\<rparr>"
    "active (drr_arr d1) = (if ps = [] then active (drr_arr d) - {b} else active (drr_arr d))"
    "drr_held d = add_mset p (drr_held d1)" "0 < psize p" "f_pkts (drr_arr d1 ! b) = 0 \<longleftrightarrow> ps = []"
    by (rule drr_take_base [OF base bl it])
  show thesis
  proof (cases "ps = []")
    case False
    with t act have "drr_core d1 xs" by (simp add: drr_core_def)
    with False t show thesis by (intro that [of d1 d1]) simp_all
  next
    case True
    obtain us vs where s: "xs = us @ b # vs" "b \<notin> set us" using split_list_first [OF b] by blast
    have rem: "remove1 b xs = us @ vs" using s by (simp add: remove1_append)
    obtain c a' where r: "drr_retire b d1 = Inr (d1\<lparr>curr := c, drr_arr := a', flwcnt := flwcnt d1 - 1\<rparr>)"
      "drr_base (d1\<lparr>curr := c, drr_arr := a', flwcnt := flwcnt d1 - 1\<rparr>) (us @ vs)" "map strip a' = map strip (drr_arr d1)"
      by (rule base_retire [OF t(2) [unfolded s(1)]])
    define d2 where "d2 = d1\<lparr>curr := c, drr_arr := a', flwcnt := flwcnt d1 - 1\<rparr>"
    have "set (us @ vs) = set xs - {b}" using dist s by auto
    then have "drr_core d2 (remove1 b xs)"
      using r(2) strip_maps(5) [OF r(3)] t(4) True act rem by (simp add: drr_core_def d2_def)
    moreover have "drr_held d2 = drr_held d1" unfolding d2_def by (rule drr_held_links [OF r(3)])
    ultimately show thesis using True t r(1,3) by (intro that [of d1 d2]) (simp_all add: d2_def)
  qed
qed

section \<open>Adding a packet\<close>

lemma core_empty:
  assumes "drr_core d xs"
  shows "bytecnt d = 0 \<longleftrightarrow> xs = []" "drr_held d = {#} \<longleftrightarrow> xs = []" "0 \<le> bytecnt d"
proof -
  have ok: "\<forall>f \<in> set (drr_arr d). flow_ok f" and act: "set xs = active (drr_arr d)" and
    bc: "bytecnt d = sum_list (map bcount (drr_arr d))" using assms by (simp_all add: drr_core_def drr_base_def)
  have pos: "0 \<le> bcount f \<and> (bcount f = 0 \<longleftrightarrow> fitems f = [])" if "f \<in> set (drr_arr d)" for f
  proof -
    have b: "bcount f = sum_list (map psize (fitems f))" "\<forall>p \<in> set (fitems f). 0 < psize p"
      using ok that by (auto simp: flow_ok_def pq_inv_def)
    show ?thesis
    proof (cases "fitems f")
      case (Cons p ps)
      have "0 \<le> sum_list (map psize ps)" by (rule sum_list_nonneg) (use b(2) Cons in auto)
      with b Cons show ?thesis by auto
    qed (use b(1) in simp)
  qed
  have nn: "\<forall>x \<in> set (map bcount (drr_arr d)). 0 \<le> x" using pos by auto
  show "0 \<le> bytecnt d" unfolding bc by (rule sum_list_nonneg) (use nn in blast)
  have e: "xs = [] \<longleftrightarrow> (\<forall>f \<in> set (drr_arr d). fitems f = [])"
    using act unfolding active_def all_set_conv_all_nth by (metis (mono_tags, lifting) empty_iff emptyE equals0I list.set(1) mem_Collect_eq set_empty)
  show "bytecnt d = 0 \<longleftrightarrow> xs = []"
  proof -
    have "sum_list (map bcount (drr_arr d)) = 0 \<longleftrightarrow> (\<forall>x \<in> set (map bcount (drr_arr d)). x = 0)"
      by (rule sum_list_nonneg_eq_0_iff) (use nn in blast)
    with pos show ?thesis unfolding e bc by simp
  qed
  have "sum_list (map (\<lambda>f. mset (fitems f)) a) = {#} \<longleftrightarrow> (\<forall>f \<in> set a. fitems f = [])" for a :: "'a drr_flow list"
    by (induction a) auto
  with e show "drr_held d = {#} \<longleftrightarrow> xs = []" by (simp add: drr_held_def)
qed

lemma chain_nth: "chain nx pv l \<Longrightarrow> Suc k < length l \<Longrightarrow> nx (l ! k) = Some (l ! Suc k)"
proof (induction nx pv l arbitrary: k rule: chain.induct)
  case (1 nx pv x y zs)
  then show ?case by (cases k) auto
qed auto

text \<open>\<open>getMaxflow\<close> goes once round the ring and finds the bucket with the most bytes.\<close>

lemma getMaxflow_max:
  assumes r: "ringed a (Some c) xs" and "n = length xs"
  obtains b where "getMaxflow n a c = Inr b" "b \<in> set xs" "\<And>x. x \<in> set xs \<Longrightarrow> bcount (a ! x) \<le> bcount (a ! b)"
proof -
  let ?step = "\<lambda>r. bindR r (\<lambda>(tmp, maxflow).
        case tmp of
          None \<Rightarrow> Inl NullDeref
        | Some t \<Rightarrow> Inr (f_next (a ! t), if bcount (a ! maxflow) < bcount (a ! t) then t else maxflow))"
  from ringedD(4) [OF r] have xs: "xs \<noteq> []" "hd xs = c" by (auto split: if_splits)
  then have ch: "chain (\<lambda>b. f_next (a ! b)) (\<lambda>b. f_prev (a ! b)) (xs @ [c])" using ringedD(1) [OF r] by (simp add: ring_def)
  have walk: "\<exists>b. (?step ^^ k) (Inr (Some c, c)) = Inr (Some ((xs @ [c]) ! k), b) \<and> b \<in> set xs
      \<and> (\<forall>x \<in> set (take k xs). bcount (a ! x) \<le> bcount (a ! b))" if "k \<le> length xs" for k
    using that
  proof (induction k)
    case 0
    from xs show ?case by (cases xs) auto
  next
    case (Suc k)
    then obtain b where b: "(?step ^^ k) (Inr (Some c, c)) = Inr (Some ((xs @ [c]) ! k), b)" "b \<in> set xs"
      "\<forall>x \<in> set (take k xs). bcount (a ! x) \<le> bcount (a ! b)" by auto
    have n: "f_next (a ! ((xs @ [c]) ! k)) = Some ((xs @ [c]) ! Suc k)" using chain_nth [OF ch, of k] Suc.prems by simp
    have k: "(xs @ [c]) ! k = xs ! k" "xs ! k \<in> set xs" using Suc.prems by (simp_all add: nth_append)
    let ?b = "if bcount (a ! b) < bcount (a ! (xs ! k)) then xs ! k else b"
    have "(?step ^^ Suc k) (Inr (Some c, c)) = Inr (Some ((xs @ [c]) ! Suc k), ?b)" using b(1) n k by simp
    moreover have "?b \<in> set xs" using b(2) k(2) by simp
    moreover have "\<forall>x \<in> set (take (Suc k) xs). bcount (a ! x) \<le> bcount (a ! ?b)"
      using b(3) Suc.prems by (auto simp: take_Suc_conv_app_nth)
    ultimately show ?case by blast
  qed
  from walk [of "length xs"] obtain b where "(?step ^^ length xs) (Inr (Some c, c)) = Inr (Some ((xs @ [c]) ! length xs), b)"
    "b \<in> set xs" "\<forall>x \<in> set xs. bcount (a ! x) \<le> bcount (a ! b)" by auto
  with that assms(2) show thesis by (simp add: getMaxflow_def)
qed

text \<open>What a drop does to the buckets and to the round.\<close>

definition drr_drops :: "'b drr \<times> nat list \<Rightarrow> 'b drr \<times> nat list \<Rightarrow> bool" where
  "drr_drops s s' \<longleftrightarrow> (case (s, s') of ((d, xs), (d', xs')) \<Rightarrow>
     drr_core d xs \<and> drr_core d' xs' \<and> quantum d' = quantum d \<and> mask d' = mask d \<and> buckets d' = buckets d \<and> blimit d' = blimit d
     \<and> (\<exists>b \<in> set xs. map strip (drr_arr d') = map strip (upd b behead (drr_arr d))
          \<and> (\<forall>x \<in> set xs. bcount (drr_arr d ! x) \<le> bcount (drr_arr d ! b))
          \<and> xs' = (if tl (fitems (drr_arr d ! b)) = [] then remove1 b xs else xs)))"

lemma drr_drop_one_core:
  assumes core: "drr_core d xs" and ne: "xs \<noteq> []"
  obtains p d' xs' where "drr_drop_one d = Inr (p, d')" "drr_drops (d, xs) (d', xs')"
    "drr_held d = add_mset p (drr_held d')" "bytecnt d' = bytecnt d - psize p"
proof -
  have r: "ringed (drr_arr d) (curr d) xs" "flwcnt d = length xs" and act: "set xs = active (drr_arr d)"
    using core by (simp_all add: drr_core_def drr_base_def)
  have c: "curr d = Some (hd xs)" using ringedD(4) [OF r(1)] ne by simp
  obtain b where b: "getMaxflow (flwcnt d) (drr_arr d) (hd xs) = Inr b" "b \<in> set xs"
    "\<And>x. x \<in> set xs \<Longrightarrow> bcount (drr_arr d ! x) \<le> bcount (drr_arr d ! b)"
    using getMaxflow_max [of "drr_arr d" "hd xs" xs "flwcnt d"] r c by auto
  obtain p ps where it: "fitems (drr_arr d ! b) = p # ps" using b(2) act by (auto simp: active_def neq_Nil_conv)
  obtain d1 d2 where l: "drr_take b d = Inr (p, d1)" "f_pkts (drr_arr d1 ! b) = 0 \<longleftrightarrow> ps = []"
    "if ps = [] then drr_retire b d1 = Inr d2 else d2 = d1"
    "drr_core d2 (if ps = [] then remove1 b xs else xs)" "drr_held d = add_mset p (drr_held d2)"
    "map strip (drr_arr d2) = map strip (upd b behead (drr_arr d))" "bytecnt d2 = bytecnt d - psize p"
    "blimit d2 = blimit d" "quantum d2 = quantum d" "mask d2 = mask d" "buckets d2 = buckets d"
    by (rule drr_leave_core [OF core b(2) it])
  have "drr_drop_one d = Inr (p, d2)" using l(2,3) by (simp add: drr_drop_one_def c b(1) l(1))
  moreover have "drr_drops (d, xs) (d2, if ps = [] then remove1 b xs else xs)"
    unfolding drr_drops_def prod.case using core l(4,6,8-11) b(2,3) it by (intro conjI bexI [of _ b]) simp_all
  ultimately show thesis using that l(5,7) by blast
qed

lemma drr_trim_core:
  assumes "drr_core d xs"
  shows "\<exists>ps d' xs'. drr_trim d = Inr (ps, d') \<and> drr_drops\<^sup>*\<^sup>* (d, xs) (d', xs') \<and> drr_core d' xs'
    \<and> mset ps + drr_held d' = drr_held d \<and> bytecnt d' \<le> blimit d' \<and> blimit d' = blimit d"
  using assms
proof (induction d arbitrary: xs rule: drr_trim.induct)
  case (1 d)
  show ?case
  proof (cases "bytecnt d > blimit d")
    case False
    with 1(2) show ?thesis by (subst drr_trim.simps) auto
  next
    case True
    have "0 \<le> blimit d" using 1(2) by (simp add: drr_core_def drr_base_def drr_params_def)
    with True have "xs \<noteq> []" using core_empty(1) [OF 1(2)] by auto
    then obtain p d1 xs1 where s: "drr_drop_one d = Inr (p, d1)" "drr_drops (d, xs) (d1, xs1)" "drr_held d = add_mset p (drr_held d1)"
      by (rule drr_drop_one_core [OF 1(2)]) blast
    have c1: "drr_core d1 xs1" "blimit d1 = blimit d" using s(2) by (simp_all add: drr_drops_def)
    from 1(1) [OF True s(1) refl c1(1)] obtain ps d2 xs2 where r: "drr_trim d1 = Inr (ps, d2)" "drr_drops\<^sup>*\<^sup>* (d1, xs1) (d2, xs2)"
      "drr_core d2 xs2" "mset ps + drr_held d2 = drr_held d1" "bytecnt d2 \<le> blimit d2" "blimit d2 = blimit d1" by blast
    have "drr_trim d = Inr (p # ps, d2)" using True s(1) r(1) by (subst drr_trim.simps) simp
    moreover have "mset (p # ps) + drr_held d2 = drr_held d" using r(4) s(3) by simp
    ultimately show ?thesis using converse_rtranclp_into_rtranclp [OF s(2) r(2)] r(3,5,6) c1(2) by metis
  qed
qed

lemma drr_put_base:
  assumes "drr_base d xs" and "b < length (drr_arr d)" and "0 < psize p"
  shows "drr_base (drr_put b p d) xs" "active (drr_arr (drr_put b p d)) = insert b (active (drr_arr d))"
    "drr_held (drr_put b p d) = add_mset p (drr_held d)"
    "f_pkts (drr_arr (drr_put b p d) ! b) = 1 \<longleftrightarrow> b \<notin> active (drr_arr d)"
    "length (drr_arr (drr_put b p d)) = length (drr_arr d)" "curr (drr_put b p d) = curr d"
proof -
  let ?g = "\<lambda>f. f\<lparr>f_src := (if f_src f = - 1 then drr_source d p else f_src f), fl_q := snd (pq_enque p (fl_q f)),
         f_pkts := f_pkts f + 1, bcount := bcount f + psize p\<rparr>"
  have a: "drr_arr (drr_put b p d) = upd b ?g (drr_arr d)" by (simp add: drr_put_def)
  have ok: "flow_ok (drr_arr d ! b)" using assms(1,2) by (simp add: drr_base_def)
  have "flow_ok (?g f)" if "flow_ok f" for f
    using that pq_inv_ops(1) [of "fl_q f" p] assms(3) by (auto simp: flow_ok_def pq_enque_def)
  then show "drr_base (drr_put b p d) xs"
    by (intro base_upd [OF assms(1,2), of ?g]) (simp_all add: a drr_put_def)
  show "active (drr_arr (drr_put b p d)) = insert b (active (drr_arr d))" by (simp add: a active_upd [OF assms(2)])
  show "drr_held (drr_put b p d) = add_mset p (drr_held d)"
    using drr_total_upd [OF assms(2), of "\<lambda>f. mset (fitems f)" ?g] by (simp add: drr_held_def a)
  show "f_pkts (drr_arr (drr_put b p d) ! b) = 1 \<longleftrightarrow> b \<notin> active (drr_arr d)"
    using ok assms(2) by (simp add: a nth_upd flow_ok_def pq_inv_def active_def)
qed (simp_all add: drr_put_def)

text \<open>A bucket that was empty joins the round at its end, without credit.\<close>

lemma drr_admit_core:
  assumes core: "drr_core d xs" and b: "b < length (drr_arr d)" and p: "0 < psize p"
  obtains d' where "drr_admit b (drr_put b p d) = Inr d'" "drr_core d' (if b \<in> set xs then xs else xs @ [b])"
    "drr_held d' = add_mset p (drr_held d)" "blimit d' = blimit d" "quantum d' = quantum d" "mask d' = mask d" "buckets d' = buckets d"
    "map strip (drr_arr d') = map strip (upd b (\<lambda>f. if b \<in> set xs then f else f\<lparr>deficitCounter := 0\<rparr>) (drr_arr (drr_put b p d)))"
proof -
  have base: "drr_base d xs" and act: "set xs = active (drr_arr d)" using core by (simp_all add: drr_core_def)
  define d1 where "d1 = drr_put b p d"
  note put = drr_put_base [OF base b p, folded d1_def]
  have same: "blimit d1 = blimit d" "quantum d1 = quantum d" "mask d1 = mask d" "buckets d1 = buckets d" by (simp_all add: d1_def drr_put_def)
  show thesis
  proof (cases "b \<in> set xs")
    case True
    then have "f_pkts (drr_arr d1 ! b) \<noteq> 1" using put(4) act by simp
    then have "drr_admit b d1 = Inr d1" by (simp add: drr_admit_def)
    moreover have "drr_core d1 xs" using put(1,2) act True by (simp add: drr_core_def insert_absorb)
    moreover have "upd b (\<lambda>f. f) (drr_arr d1) = drr_arr d1" by (simp add: upd_def)
    ultimately show thesis using True put(3) same by (intro that [of d1]) (simp_all add: d1_def)
  next
    case False
    then have one: "f_pkts (drr_arr d1 ! b) = 1" using put(4) act by simp
    have r: "ringed (drr_arr d1) (curr d1) xs" using put(1) by (simp add: drr_base_def)
    have bl: "b < length (drr_arr d1)" using b put(5) by simp
    obtain c a where i: "activate b (curr d1) (drr_arr d1) = Inr (c, a)" "ringed a c (xs @ [b])" "map strip a = map strip (drr_arr d1)"
      by (rule activate_ringed [OF r False bl])
    have len: "length a = length (drr_arr d1)" by (rule map_eq_imp_length_eq [OF i(3)])
    let ?n = "flwcnt d1 + 1" and ?g = "deficitCounter_update (\<lambda>_. 0) :: 'a drr_flow \<Rightarrow> 'a drr_flow"
    define d2 where "d2 = d1\<lparr>curr := c, drr_arr := a, flwcnt := ?n\<rparr>"
    have "length (xs @ [b]) = ?n" using put(1) by (simp add: drr_base_def)
    from base_links [OF put(1) i(3,2) this] have b2: "drr_base d2 (xs @ [b])" by (simp add: d2_def)
    define d' where "d' = d2\<lparr>drr_arr := upd b ?g a\<rparr>"
    have "drr_base d' (xs @ [b])"
      by (rule base_upd [OF b2, of b ?g]) (use bl len in \<open>auto simp: d'_def d2_def flow_ok_def\<close>)
    moreover have "active (upd b ?g a) = active a" using active_upd [of b a ?g] bl len by (auto simp: active_def)
    then have "set (xs @ [b]) = active (drr_arr d')" using strip_maps(5) [OF i(3)] put(2) act by (simp add: d'_def)
    ultimately have "drr_core d' (xs @ [b])" by (simp add: drr_core_def)
    moreover have "drr_admit b d1 = Inr d'" using one i(1) by (simp add: drr_admit_def d'_def d2_def)
    moreover have "drr_held d' = drr_held d1"
    proof -
      have "drr_held d' = drr_held d2"
        using drr_total_upd [of b a "\<lambda>f. mset (fitems f)" ?g] bl len by (simp add: drr_held_def d'_def d2_def)
      also have "\<dots> = drr_held d1" unfolding d2_def by (rule drr_held_links [OF i(3)])
      finally show ?thesis .
    qed
    moreover have "map strip (upd b ?g a) = map strip (upd b ?g (drr_arr d1))"
    proof -
      have "strip (?g f) = ?g (strip f)" for f by (cases f) (simp add: strip_def)
      then have "map strip (upd b ?g x) = upd b ?g (map strip x)" for x :: "'a drr_flow list" by (rule strip_upd)
      with i(3) show ?thesis by simp
    qed
    ultimately show thesis using False put(3) same
      by (intro that [of d']) (simp_all add: d'_def d2_def flip: d1_def)
  qed
qed

text \<open>\<open>enque\<close> admits a packet that has a size and a bucket.\<close>

lemma smod_bound: "0 < n \<Longrightarrow> \<bar>(m :: int) smod n\<bar> < n"
  by (simp add: signed_modulo_int_def abs_mult)

lemma smod_nonneg: "0 \<le> (m :: int) \<Longrightarrow> 0 < n \<Longrightarrow> 0 \<le> m smod n"
  by (cases "m = 0") (simp_all add: smod_int_alt_def sgn_if)

lemma drr_hash_nonneg:
  assumes "m \<or> 0 \<le> sint (saddr p)"
  shows "0 \<le> drr_hash m p"
proof -
  define i where "i = (if m then sint (saddr p) mod 2 ^ 16 div 16 * 16 else sint (saddr p))"
  have i: "0 \<le> i" using assms by (auto simp: i_def)
  define j where "j = i + i div 2 ^ 8 + (- (i div 2 ^ 4) - 1)"
  have "- 1 \<le> j" using i by (simp add: j_def)
  then have "- 1 \<le> j smod (2 * 2 ^ 23 - 1)"
  proof (cases "j = - 1")
    case False
    with \<open>- 1 \<le> j\<close> have "0 \<le> j" by simp
    from smod_nonneg [OF this, of "2 * 2 ^ 23 - 1"] show ?thesis by simp
  qed (simp add: smod_int_alt_def)
  then show ?thesis by (simp add: drr_hash_def Let_def i_def j_def)
qed

lemma drr_bucket_range:
  assumes "mask d \<or> 0 \<le> sint (saddr p)" and "0 < buckets d"
  shows "0 \<le> drr_bucket d p" "drr_bucket d p < buckets d"
proof -
  have h: "0 \<le> drr_hash (mask d) p" using drr_hash_nonneg [OF assms(1)] .
  show "0 \<le> drr_bucket d p" using smod_nonneg [OF h assms(2)] by (simp add: drr_bucket_def)
  show "drr_bucket d p < buckets d" using smod_bound [OF assms(2), of "drr_hash (mask d) p"] by (simp add: drr_bucket_def)
qed

definition drr_acceptable :: "'b packet \<Rightarrow> bool" where
  "drr_acceptable p \<longleftrightarrow> 0 < psize p \<and> 0 \<le> sint (saddr p)"

lemma drr_alloc_core:
  assumes "drr_core d xs"
  shows "drr_core (drr_alloc d) xs" "drr_held (drr_alloc d) = drr_held d" "int (length (drr_arr (drr_alloc d))) = buckets d"
    "blimit (drr_alloc d) = blimit d" "quantum (drr_alloc d) = quantum d" "mask (drr_alloc d) = mask d" "buckets (drr_alloc d) = buckets d"
    "bytecnt (drr_alloc d) = bytecnt d"
proof -
  have b: "0 < buckets d" using assms by (simp add: drr_core_def drr_base_def drr_params_def)
  show "blimit (drr_alloc d) = blimit d" "quantum (drr_alloc d) = quantum d" "mask (drr_alloc d) = mask d" "buckets (drr_alloc d) = buckets d"
    "bytecnt (drr_alloc d) = bytecnt d" by (simp_all add: drr_alloc_def)
  have new: "flow_ok (flow_new :: 'a drr_flow)" "bcount (flow_new :: 'a drr_flow) = 0" "f_pkts (flow_new :: 'a drr_flow) = 0"
    "fitems (flow_new :: 'a drr_flow) = []"
    by (simp_all add: flow_new_def flow_ok_def pq_new_def pq_inv_def)
  have "sum_list (replicate n {#}) = ({#} :: 'a packet multiset)" for n by (induction n) simp_all
  then show "drr_held (drr_alloc d) = drr_held d" using new by (simp add: drr_alloc_def drr_held_def)
  show "int (length (drr_arr (drr_alloc d))) = buckets d" using assms b by (auto simp: drr_alloc_def drr_core_def drr_base_def drr_params_def)
  show "drr_core (drr_alloc d) xs"
  proof (cases "drr_arr d = []")
    case True
    with assms have xs: "xs = []" by (simp add: drr_core_def active_def)
    have "active (replicate (nat (buckets d)) (flow_new :: 'a drr_flow)) = {}" using new by (auto simp: active_def)
    then show ?thesis using assms True xs new
      by (simp add: drr_alloc_def drr_core_def drr_base_def ringed_def drr_params_def sum_list_replicate)
  qed (use assms in \<open>simp add: drr_alloc_def\<close>)
qed

lemma drr_enque_core:
  assumes core: "drr_core d xs" and p: "0 < psize p" "mask d \<or> 0 \<le> sint (saddr p)"
  obtains ds d1 d' xs' where "drr_enque p d = Inr (ds, d')" "drr_core d' xs'" "bytecnt d' \<le> blimit d'" "blimit d' = blimit d"
    "mset ds + drr_held d' = add_mset p (drr_held d)"
    "drr_admit (nat (drr_bucket d p)) (drr_put (nat (drr_bucket d p)) p (drr_alloc d)) = Inr d1"
    "drr_drops\<^sup>*\<^sup>* (d1, if nat (drr_bucket d p) \<in> set xs then xs else xs @ [nat (drr_bucket d p)]) (d', xs')"
proof -
  have nb: "0 < buckets d" using core by (simp add: drr_core_def drr_base_def drr_params_def)
  define d0 where "d0 = drr_alloc d"
  note al = drr_alloc_core [OF core, folded d0_def]
  have w: "drr_bucket d0 p = drr_bucket d p" by (simp add: drr_bucket_def al)
  note wr = drr_bucket_range [OF p(2) nb]
  define b where "b = nat (drr_bucket d p)"
  have b: "b < length (drr_arr d0)" using wr al(3) by (simp add: b_def)
  obtain d1 where d1: "drr_admit b (drr_put b p d0) = Inr d1" "drr_core d1 (if b \<in> set xs then xs else xs @ [b])"
    "drr_held d1 = add_mset p (drr_held d0)" "blimit d1 = blimit d0"
    by (rule drr_admit_core [OF al(1) b p(1)]) blast
  from drr_trim_core [OF d1(2)] obtain ps d' xs' where t: "drr_trim d1 = Inr (ps, d')"
    "drr_drops\<^sup>*\<^sup>* (d1, if b \<in> set xs then xs else xs @ [b]) (d', xs')" "drr_core d' xs'"
    "mset ps + drr_held d' = drr_held d1" "bytecnt d' \<le> blimit d'" "blimit d' = blimit d1" by blast
  have "drr_enque p d = Inr (ps, d')"
    using nb wr al(3,7) d1(1) t(1) by (simp add: drr_enque_def Let_def w b_def flip: d0_def)
  with that t d1 al show thesis unfolding b_def d0_def by metis
qed

end
