(* ===== verification/DrrServe.thy ===== *)
theory DrrServe
  imports DrrQueue
begin

text \<open>
  The way out of a deficit round robin queue: what a visit to a bucket does, why \<open>deque\<close> comes to an
  end, the instance of \<open>queue_disc\<close>, and how fair the service is.
\<close>

section \<open>Taking a packet\<close>

text \<open>What a visit does to the current bucket: it gets its quantum; it sends its head or is left.\<close>

definition credit :: "int \<Rightarrow> 'b drr_flow \<Rightarrow> 'b drr_flow" where
  "credit qn f = (if turn f then f else f\<lparr>deficitCounter := deficitCounter f + qn, turn := True\<rparr>)"

definition pay :: "int \<Rightarrow> 'b drr_flow \<Rightarrow> 'b drr_flow" where
  "pay n f = f\<lparr>deficitCounter := deficitCounter f - n\<rparr>"

definition forfeit :: "'b drr_flow \<Rightarrow> 'b drr_flow" where
  "forfeit f = f\<lparr>turn := False, deficitCounter := 0\<rparr>"

definition head_size :: "'b drr_flow \<Rightarrow> int" where
  "head_size f = (case fitems f of [] \<Rightarrow> 0 | p # ps \<Rightarrow> psize p)"

lemma upd_upd [simp]: "upd b g (upd b h a) = upd b (\<lambda>f. g (h f)) a"
  by (cases "b < length a") (simp_all add: upd_def list_update_beyond)

lemma credit_simps [simp]:
  "fitems (credit qn f) = fitems f" "f_next (credit qn f) = f_next f" "f_prev (credit qn f) = f_prev f" "bcount (credit qn f) = bcount f"
  "f_pkts (credit qn f) = f_pkts f" "turn (credit qn f)" "deficitCounter (credit qn f) = deficitCounter f + (if turn f then 0 else qn)"
  "fl_q (credit qn f) = fl_q f"
  by (simp_all add: credit_def)

lemma pay_simps [simp]:
  "fitems (pay n f) = fitems f" "f_next (pay n f) = f_next f" "f_prev (pay n f) = f_prev f" "bcount (pay n f) = bcount f"
  "f_pkts (pay n f) = f_pkts f" "turn (pay n f) = turn f" "deficitCounter (pay n f) = deficitCounter f - n"
  "fl_q (pay n f) = fl_q f"
  by (simp_all add: pay_def)

lemma upd_cong: "g (a ! b) = h (a ! b) \<Longrightarrow> upd b g a = upd b h a"
  by (simp add: upd_def)

text \<open>A change of a bucket that leaves its packets alone.\<close>

lemma core_upd:
  assumes "drr_core d xs" and b: "b < length (drr_arr d)"
    and g: "\<And>f. f_next (g f) = f_next f \<and> f_prev (g f) = f_prev f \<and> fl_q (g f) = fl_q f \<and> bcount (g f) = bcount f \<and> f_pkts (g f) = f_pkts f"
    and "0 \<le> deficitCounter (g (drr_arr d ! b))"
  shows "drr_core (d\<lparr>drr_arr := upd b g (drr_arr d)\<rparr>) xs" "drr_held (d\<lparr>drr_arr := upd b g (drr_arr d)\<rparr>) = drr_held d"
proof -
  have base: "drr_base d xs" and act: "set xs = active (drr_arr d)" using assms(1) by (simp_all add: drr_core_def)
  have ok: "flow_ok (g f)" if "flow_ok f" "0 \<le> deficitCounter (g f)" for f using that g by (simp add: flow_ok_def)
  have "drr_base (d\<lparr>drr_arr := upd b g (drr_arr d)\<rparr>) xs"
    by (rule base_upd [OF base b, of g]) (use g assms(4) ok in simp_all)
  moreover have "active (upd b g (drr_arr d)) = active (drr_arr d)" using active_upd [OF b, of g] g b by (auto simp: active_def)
  ultimately show "drr_core (d\<lparr>drr_arr := upd b g (drr_arr d)\<rparr>) xs" using act by (simp add: drr_core_def)
  show "drr_held (d\<lparr>drr_arr := upd b g (drr_arr d)\<rparr>) = drr_held d"
    using drr_total_upd [OF b, of "\<lambda>f. mset (fitems f)" g] g by (simp add: drr_held_def)
qed

text \<open>The move to the next bucket is the list turned by one.\<close>

lemma ringed_rotate: "ringed a (Some c) (c # ys) \<Longrightarrow> ringed a (f_next (a ! c)) (ys @ [c])"
  using ring_first(1) [of "\<lambda>b. f_next (a ! b)" "\<lambda>b. f_prev (a ! b)" c ys] ring_rotate [of "\<lambda>b. f_next (a ! b)" "\<lambda>b. f_prev (a ! b)" "[c]" ys]
  by (auto simp: ringed_def hd_append)

lemma core_first:
  assumes "drr_core d (c # ys)"
  obtains p ps where "curr d = Some c" "c < length (drr_arr d)" "fitems (drr_arr d ! c) = p # ps" "0 < quantum d"
    "0 \<le> deficitCounter (drr_arr d ! c)"
proof -
  have r: "ringed (drr_arr d) (curr d) (c # ys)" "0 < quantum d" "\<forall>f \<in> set (drr_arr d). flow_ok f"
    using assms by (simp_all add: drr_core_def drr_base_def drr_params_def)
  have "c \<in> active (drr_arr d)" using assms by (auto simp: drr_core_def)
  then obtain p ps where "c < length (drr_arr d)" "fitems (drr_arr d ! c) = p # ps" by (auto simp: active_def neq_Nil_conv)
  with that [of p ps] r ringedD(4) [OF r(1)] show thesis by (simp add: flow_ok_def)
qed

text \<open>\<open>settle\<close> is what sending the head does to the bucket besides.\<close>

definition settle :: "'b drr_flow \<Rightarrow> 'b drr_flow" where
  "settle f = (let g = behead (pay (head_size f) f) in if fitems g = [] then forfeit g else g)"

lemma drr_visit_pass:
  assumes core: "drr_core d (c # ys)" and poor: "deficitCounter (credit (quantum d) (drr_arr d ! c)) < head_size (drr_arr d ! c)"
  obtains d' where "drr_visit d = Inr (None, d')" "drr_core d' (ys @ [c])" "drr_held d' = drr_held d"
    "drr_arr d' = upd c (\<lambda>f. (credit (quantum d) f)\<lparr>turn := False\<rparr>) (drr_arr d)"
    "bytecnt d' = bytecnt d" "blimit d' = blimit d" "quantum d' = quantum d" "mask d' = mask d" "buckets d' = buckets d"
proof -
  let ?g = "\<lambda>f. (credit (quantum d) f)\<lparr>turn := False\<rparr>"
  obtain p ps where f: "curr d = Some c" "c < length (drr_arr d)" "fitems (drr_arr d ! c) = p # ps" "0 < quantum d"
    "0 \<le> deficitCounter (drr_arr d ! c)" by (rule core_first [OF core])
  note c = f(1) and cl = f(2) and it = f(3)
  define d' where "d' = d\<lparr>drr_arr := upd c ?g (drr_arr d), curr := f_next (drr_arr d ! c)\<rparr>"
  have poor': "\<not> psize p \<le> deficitCounter (drr_arr d ! c) + (if turn (drr_arr d ! c) then 0 else quantum d)"
    using poor it by (simp add: head_size_def)
  have "drr_visit d = Inr (None, d')"
  proof (cases "turn (drr_arr d ! c)")
    case True
    have "upd c ?g (drr_arr d) = upd c (turn_update (\<lambda>_. False)) (drr_arr d)"
      by (rule upd_cong) (simp add: credit_def True)
    with True poor' it cl show ?thesis by (simp add: drr_visit_def c pq_lookup_def d'_def Let_def)
  next
    case False
    have "upd c ?g (drr_arr d) = upd c (\<lambda>f. f\<lparr>deficitCounter := deficitCounter f + quantum d, turn := False\<rparr>) (drr_arr d)"
      by (rule upd_cong) (simp add: credit_def False)
    with False poor' it cl show ?thesis by (simp add: drr_visit_def c pq_lookup_def d'_def Let_def nth_upd)
  qed
  moreover have cu: "drr_core (d\<lparr>drr_arr := upd c ?g (drr_arr d)\<rparr>) (c # ys)" "drr_held (d\<lparr>drr_arr := upd c ?g (drr_arr d)\<rparr>) = drr_held d"
    by (rule core_upd [OF core cl]; use f(4,5) in simp)+
  then have "ringed (upd c ?g (drr_arr d)) (Some c) (c # ys)" by (simp add: drr_core_def drr_base_def c)
  from ringed_rotate [OF this] have "ringed (upd c ?g (drr_arr d)) (f_next (drr_arr d ! c)) (ys @ [c])" using cl by (simp add: nth_upd)
  with cu(1) have "drr_core d' (ys @ [c])" by (simp add: drr_core_def drr_base_def d'_def drr_params_def)
  moreover have "drr_held d' = drr_held d" using cu(2) by (simp add: d'_def drr_held_def)
  ultimately show thesis using that by (simp add: d'_def)
qed

lemma forfeit_strip: "strip (forfeit f) = forfeit (strip f)"
  by (cases f) (simp add: strip_def forfeit_def)

lemma drr_visit_send:
  assumes core: "drr_core d (c # ys)" and rich: "head_size (drr_arr d ! c) \<le> deficitCounter (credit (quantum d) (drr_arr d ! c))"
    and it: "fitems (drr_arr d ! c) = p # ps"
  obtains d' where "drr_visit d = Inr (Some p, d')" "drr_core d' (if ps = [] then ys else c # ys)" "drr_held d = add_mset p (drr_held d')"
    "map strip (drr_arr d') = map strip (upd c (\<lambda>f. settle (credit (quantum d) f)) (drr_arr d))"
    "bytecnt d' = bytecnt d - psize p" "blimit d' = blimit d" "quantum d' = quantum d" "mask d' = mask d" "buckets d' = buckets d"
    "0 < psize p"
proof -
  let ?h = "\<lambda>f. pay (psize p) (credit (quantum d) f)"
  obtain f: "curr d = Some c" "c < length (drr_arr d)" "0 < quantum d" "0 \<le> deficitCounter (drr_arr d ! c)"
    by (rule core_first [OF core])
  note cl = f(2)
  have rich': "psize p \<le> deficitCounter (drr_arr d ! c) + (if turn (drr_arr d ! c) then 0 else quantum d)"
    using rich it by (simp add: head_size_def)
  define dp where "dp = d\<lparr>drr_arr := upd c ?h (drr_arr d)\<rparr>"
  have cp: "drr_core dp (c # ys)" "drr_held dp = drr_held d"
    unfolding dp_def by (rule core_upd [OF core cl]; use rich' in simp)+
  have itp: "fitems (drr_arr dp ! c) = p # ps" using it cl by (simp add: dp_def nth_upd)
  obtain d1 d2 where l: "drr_take c dp = Inr (p, d1)" "f_pkts (drr_arr d1 ! c) = 0 \<longleftrightarrow> ps = []"
    "d1 = dp\<lparr>drr_arr := upd c behead (drr_arr dp), bytecnt := bytecnt dp - psize p, pktcnt := pktcnt dp - 1\<rparr>"
    "if ps = [] then drr_retire c d1 = Inr d2 else d2 = d1"
    "drr_core d2 (if ps = [] then remove1 c (c # ys) else c # ys)" "drr_held dp = add_mset p (drr_held d2)"
    "map strip (drr_arr d2) = map strip (upd c behead (drr_arr dp))" "bytecnt d2 = bytecnt dp - psize p"
    "blimit d2 = blimit dp" "quantum d2 = quantum dp" "mask d2 = mask dp" "buckets d2 = buckets dp" "0 < psize p"
    by (rule drr_leave_core [OF cp(1) _ itp]) simp
  have visit: "drr_visit d = bindR (drr_take c dp) (\<lambda>(p', d2).
      if f_pkts (drr_arr d2 ! c) = 0 then
        bindR (drr_retire c (d2\<lparr>drr_arr := upd c (\<lambda>f. f\<lparr>turn := False, deficitCounter := 0\<rparr>) (drr_arr d2)\<rparr>)) (\<lambda>d3. Inr (Some p', d3))
      else Inr (Some p', d2))"
  proof (cases "turn (drr_arr d ! c)")
    case True
    have "upd c ?h (drr_arr d) = upd c (\<lambda>f. f\<lparr>deficitCounter := deficitCounter f - psize p\<rparr>) (drr_arr d)"
      by (rule upd_cong) (simp add: credit_def pay_def True)
    with True rich' it cl show ?thesis by (simp add: drr_visit_def f(1) pq_lookup_def dp_def Let_def)
  next
    case False
    have "upd c ?h (drr_arr d) = upd c (\<lambda>f. f\<lparr>turn := True, deficitCounter := deficitCounter f + quantum d - psize p\<rparr>) (drr_arr d)"
      by (rule upd_cong) (simp add: credit_def pay_def False)
    with False rich' it cl show ?thesis by (simp add: drr_visit_def f(1) pq_lookup_def dp_def Let_def nth_upd)
  qed
  have beh: "fitems (behead (?h (drr_arr d ! c))) = ps" by (rule behead_simps(1)) (simp add: it)
  show thesis
  proof (cases "ps = []")
    case False
    have "upd c behead (drr_arr dp) = upd c (\<lambda>f. settle (credit (quantum d) f)) (drr_arr d)"
      unfolding dp_def by (simp, rule upd_cong) (use beh it False in \<open>simp add: settle_def head_size_def Let_def\<close>)
    with False l cp(2) visit show thesis by (intro that [of d1]) (simp_all add: dp_def)
  next
    case True
    note lt = l(4) [unfolded if_P [OF True]]
    let ?d1 = "d1\<lparr>drr_arr := upd c forfeit (drr_arr d1)\<rparr>"
    have len: "length (drr_arr d1) = length (drr_arr d)" by (simp add: l(3) dp_def)
    have b1: "drr_base d1 (c # ys)" "active (drr_arr d1) = active (drr_arr dp) - {c}"
    proof -
      have "drr_base dp (c # ys)" using cp(1) by (simp add: drr_core_def)
      moreover have "c < length (drr_arr dp)" using cl by (simp add: dp_def)
      ultimately obtain e where e: "drr_take c dp = Inr (p, e)" "drr_base e (c # ys)"
        "active (drr_arr e) = (if ps = [] then active (drr_arr dp) - {c} else active (drr_arr dp))"
        by (rule drr_take_base [OF _ _ itp]) blast
      have "e = d1" using e(1) l(1) by simp
      with e True show "drr_base d1 (c # ys)" "active (drr_arr d1) = active (drr_arr dp) - {c}" by simp_all
    qed
    have "drr_base ?d1 (c # ys)"
      by (rule base_upd [OF b1(1), of c forfeit]) (use cl len in \<open>auto simp: forfeit_def flow_ok_def\<close>)
    then have b2: "drr_base ?d1 ([] @ c # ys)" by simp
    obtain cc a' where r: "drr_retire c ?d1 = Inr (?d1\<lparr>curr := cc, drr_arr := a', flwcnt := flwcnt ?d1 - 1\<rparr>)"
      "drr_base (?d1\<lparr>curr := cc, drr_arr := a', flwcnt := flwcnt ?d1 - 1\<rparr>) ([] @ ys)" "map strip a' = map strip (drr_arr ?d1)"
      by (rule base_retire [OF b2])
    define d' where "d' = ?d1\<lparr>curr := cc, drr_arr := a', flwcnt := flwcnt ?d1 - 1\<rparr>"
    have act: "active (upd c forfeit (drr_arr d1)) = active (drr_arr d1)"
      using active_upd [of c "drr_arr d1" forfeit] cl len by (auto simp: active_def forfeit_def)
    have dist: "distinct (c # ys)" using core by (simp add: drr_core_def drr_base_def ringed_def)
    have "drr_core d' ys"
      using r(2) strip_maps(5) [OF r(3)] act b1(2) cp(1) dist by (auto simp: drr_core_def d'_def)
    moreover have "drr_held d' = drr_held d1"
    proof -
      have "drr_held d' = drr_held ?d1" unfolding d'_def by (rule drr_held_links [OF r(3)])
      also have "\<dots> = drr_held d1"
        using drr_total_upd [of c "drr_arr d1" "\<lambda>f. mset (fitems f)" forfeit] cl len by (simp add: drr_held_def forfeit_def)
      finally show ?thesis .
    qed
    moreover have "drr_held d2 = drr_held d1"
      using strip_maps(3) [OF l(7)] by (simp add: drr_held_def l(3))
    moreover have "upd c forfeit (upd c behead (drr_arr dp)) = upd c (\<lambda>f. settle (credit (quantum d) f)) (drr_arr d)"
      unfolding dp_def by (simp, rule upd_cong) (use beh it True in \<open>simp add: settle_def head_size_def Let_def\<close>)
    then have "map strip (drr_arr d') = map strip (upd c (\<lambda>f. settle (credit (quantum d) f)) (drr_arr d))"
      using r(3) by (simp add: d'_def l(3))
    moreover have "(\<lambda>f. f\<lparr>turn := False, deficitCounter := 0\<rparr>) = (forfeit :: 'a drr_flow \<Rightarrow> 'a drr_flow)"
      by (simp add: forfeit_def fun_eq_iff)
    then have "drr_visit d = Inr (Some p, d')" using visit l(1,2) True r(1) by (simp add: d'_def)
    ultimately show thesis using that [of d'] True l(6,13) cp(2) by (simp add: d'_def l(3) dp_def)
  qed
qed

section \<open>The loop ends\<close>

text \<open>The two kinds of visits, as steps on the queue and its round.\<close>

definition same_params :: "'b drr \<Rightarrow> 'b drr \<Rightarrow> bool" where
  "same_params d d' \<longleftrightarrow> quantum d' = quantum d \<and> mask d' = mask d \<and> buckets d' = buckets d \<and> blimit d' = blimit d"

definition drr_passes :: "'b drr \<times> nat list \<Rightarrow> 'b drr \<times> nat list \<Rightarrow> bool" where
  "drr_passes s s' \<longleftrightarrow> (case (s, s') of ((d, xs), (d', xs')) \<Rightarrow>
     drr_core d xs \<and> drr_core d' xs' \<and> same_params d d' \<and> bytecnt d' = bytecnt d
     \<and> (\<exists>c ys. xs = c # ys \<and> xs' = ys @ [c] \<and> deficitCounter (credit (quantum d) (drr_arr d ! c)) < head_size (drr_arr d ! c)
          \<and> drr_arr d' = upd c (\<lambda>f. (credit (quantum d) f)\<lparr>turn := False\<rparr>) (drr_arr d)))"

definition drr_sends :: "'b packet \<Rightarrow> 'b drr \<times> nat list \<Rightarrow> 'b drr \<times> nat list \<Rightarrow> bool" where
  "drr_sends p s s' \<longleftrightarrow> (case (s, s') of ((d, xs), (d', xs')) \<Rightarrow>
     drr_core d xs \<and> drr_core d' xs' \<and> same_params d d' \<and> bytecnt d' = bytecnt d - psize p
     \<and> (\<exists>c ys ps. xs = c # ys \<and> fitems (drr_arr d ! c) = p # ps \<and> xs' = (if ps = [] then ys else c # ys)
          \<and> psize p \<le> deficitCounter (credit (quantum d) (drr_arr d ! c))
          \<and> map strip (drr_arr d') = map strip (upd c (\<lambda>f. settle (credit (quantum d) f)) (drr_arr d))))"

text \<open>What is missing for the heads of all buckets, and one for each bucket that has had its quantum.\<close>

definition drr_missing :: "'b drr \<Rightarrow> nat" where
  "drr_missing d = sum_list (map (\<lambda>f. nat (head_size f - deficitCounter f) + (if turn f then 1 else 0)) (drr_arr d))"

lemma drr_pass_less:
  assumes "drr_passes (d, xs) (d', xs')"
  shows "drr_missing d' < drr_missing d"
proof -
  from assms obtain c ys where p: "xs = c # ys" "deficitCounter (credit (quantum d) (drr_arr d ! c)) < head_size (drr_arr d ! c)"
    "drr_arr d' = upd c (\<lambda>f. (credit (quantum d) f)\<lparr>turn := False\<rparr>) (drr_arr d)" and core: "drr_core d xs"
    by (auto simp: drr_passes_def)
  from core p(1) have core: "drr_core d (c # ys)" by simp
  obtain f: "c < length (drr_arr d)" "0 < quantum d" by (rule core_first [OF core])
  let ?m = "\<lambda>f. nat (head_size f - deficitCounter f) + (if turn f then 1 else 0)" and ?g = "\<lambda>f. (credit (quantum d) f)\<lparr>turn := False\<rparr>"
  have "?m (?g (drr_arr d ! c)) < ?m (drr_arr d ! c)"
    using p(2) f(2) by (cases "turn (drr_arr d ! c)") (auto simp: head_size_def)
  with drr_total_upd [OF f(1), of ?m ?g] show ?thesis by (simp add: drr_missing_def p(3))
qed

lemma drr_loop_core:
  assumes "drr_core d xs" and "xs \<noteq> []"
  shows "\<exists>p d1 xs1 d2 xs2. drr_loop d = Some (Inr (Some p, d2)) \<and> drr_passes\<^sup>*\<^sup>* (d, xs) (d1, xs1) \<and> drr_sends p (d1, xs1) (d2, xs2)
    \<and> drr_held d = add_mset p (drr_held d2) \<and> bytecnt d2 \<le> bytecnt d \<and> blimit d2 = blimit d"
  using assms
proof (induction "drr_missing d" arbitrary: d xs rule: less_induct)
  case less
  obtain c ys where xs: "xs = c # ys" using less.prems(2) by (auto simp: neq_Nil_conv)
  note core = less.prems(1) [unfolded xs]
  show ?case
  proof (cases "deficitCounter (credit (quantum d) (drr_arr d ! c)) < head_size (drr_arr d ! c)")
    case True
    obtain d' where v: "drr_visit d = Inr (None, d')" "drr_core d' (ys @ [c])" "drr_held d' = drr_held d"
      "drr_arr d' = upd c (\<lambda>f. (credit (quantum d) f)\<lparr>turn := False\<rparr>) (drr_arr d)"
      "bytecnt d' = bytecnt d" "blimit d' = blimit d" "quantum d' = quantum d" "mask d' = mask d" "buckets d' = buckets d"
      by (rule drr_visit_pass [OF core True])
    have p: "drr_passes (d, xs) (d', ys @ [c])"
      unfolding drr_passes_def prod.case same_params_def using core v True xs by simp
    from less.hyps [OF drr_pass_less [OF p] v(2)] obtain q d1 xs1 d2 xs2 where
      "drr_loop d' = Some (Inr (Some q, d2))" "drr_passes\<^sup>*\<^sup>* (d', ys @ [c]) (d1, xs1)" "drr_sends q (d1, xs1) (d2, xs2)"
      "drr_held d' = add_mset q (drr_held d2)" "bytecnt d2 \<le> bytecnt d'" "blimit d2 = blimit d'" by auto
    moreover from this have "drr_loop d = Some (Inr (Some q, d2))" using v(1) by (subst drr_loop.simps) simp
    ultimately show ?thesis using converse_rtranclp_into_rtranclp [where r = drr_passes, OF p] v(3,5,6) by metis
  next
    case False
    obtain p ps where it: "fitems (drr_arr d ! c) = p # ps" by (rule core_first [OF core])
    from False have rich: "head_size (drr_arr d ! c) \<le> deficitCounter (credit (quantum d) (drr_arr d ! c))" by simp
    obtain d' where v: "drr_visit d = Inr (Some p, d')" "drr_core d' (if ps = [] then ys else c # ys)" "drr_held d = add_mset p (drr_held d')"
      "map strip (drr_arr d') = map strip (upd c (\<lambda>f. settle (credit (quantum d) f)) (drr_arr d))"
      "bytecnt d' = bytecnt d - psize p" "blimit d' = blimit d" "quantum d' = quantum d" "mask d' = mask d" "buckets d' = buckets d" "0 < psize p"
      by (rule drr_visit_send [OF core rich it])
    have s: "drr_sends p (d, xs) (d', if ps = [] then ys else c # ys)"
      unfolding drr_sends_def prod.case same_params_def using core v(2,4-9) rich it xs by (simp add: head_size_def)
    have "drr_loop d = Some (Inr (Some p, d'))" using v(1) by (subst drr_loop.simps) simp
    moreover have "bytecnt d' \<le> bytecnt d" using v(5,10) by simp
    ultimately show ?thesis using s v(3,6) rtranclp.rtrancl_refl [of drr_passes "(d, xs)"] by blast
  qed
qed

lemma drr_deque_core:
  assumes core: "drr_core d xs"
  shows "xs = [] \<Longrightarrow> drr_deque d = Inr (None, d)"
    "xs \<noteq> [] \<Longrightarrow> \<exists>p d1 xs1 d2 xs2. drr_deque d = Inr (Some p, d2) \<and> drr_passes\<^sup>*\<^sup>* (d, xs) (d1, xs1) \<and> drr_sends p (d1, xs1) (d2, xs2)
      \<and> drr_core d2 xs2 \<and> drr_held d = add_mset p (drr_held d2) \<and> bytecnt d2 \<le> bytecnt d \<and> blimit d2 = blimit d"
proof -
  show "drr_deque d = Inr (None, d)" if "xs = []" using core_empty(1) [OF core] that by (simp add: drr_deque_def)
  assume ne: "xs \<noteq> []"
  from drr_loop_core [OF core ne] obtain p d1 xs1 d2 xs2 where l: "drr_loop d = Some (Inr (Some p, d2))"
    "drr_passes\<^sup>*\<^sup>* (d, xs) (d1, xs1)" "drr_sends p (d1, xs1) (d2, xs2)" "drr_held d = add_mset p (drr_held d2)"
    "bytecnt d2 \<le> bytecnt d" "blimit d2 = blimit d" by blast
  moreover have "drr_deque d = Inr (Some p, d2)" using l(1) core_empty(1) [OF core] ne by (simp add: drr_deque_def)
  moreover have "drr_core d2 xs2" using l(3) by (simp add: drr_sends_def)
  ultimately show "\<exists>p d1 xs1 d2 xs2. drr_deque d = Inr (Some p, d2) \<and> drr_passes\<^sup>*\<^sup>* (d, xs) (d1, xs1) \<and> drr_sends p (d1, xs1) (d2, xs2)
      \<and> drr_core d2 xs2 \<and> drr_held d = add_mset p (drr_held d2) \<and> bytecnt d2 \<le> bytecnt d \<and> blimit d2 = blimit d" by blast
qed

section \<open>A discipline\<close>

interpretation drr: queue_disc drr_enque drr_deque drr_inv drr_held drr_acceptable
proof (unfold_locales, goal_cases)
  case (1 d p)
  then obtain xs where core: "drr_core d xs" by (auto simp: drr_inv_def)
  from 1(2) have p: "0 < psize p" "mask d \<or> 0 \<le> sint (saddr p)" by (simp_all add: drr_acceptable_def)
  obtain ds d' xs' where "drr_enque p d = Inr (ds, d')" "drr_core d' xs'" "bytecnt d' \<le> blimit d'"
    "mset ds + drr_held d' = add_mset p (drr_held d)" by (rule drr_enque_core [OF core p])
  then show ?case by (auto simp: drr_inv_def)
next
  case (2 d)
  then obtain xs where core: "drr_core d xs" by (auto simp: drr_inv_def)
  with 2 core_empty(2) [OF core] drr_deque_core(1) [OF core] show ?case by auto
next
  case (3 d)
  then obtain xs where core: "drr_core d xs" and lm: "bytecnt d \<le> blimit d" by (auto simp: drr_inv_def)
  from 3 core_empty(2) [OF core] have "xs \<noteq> []" by blast
  from drr_deque_core(2) [OF core this] obtain p d2 xs2 where "drr_deque d = Inr (Some p, d2)" "drr_core d2 xs2"
    "drr_held d = add_mset p (drr_held d2)" "bytecnt d2 \<le> bytecnt d" "blimit d2 = blimit d" by blast
  with lm show ?case by (auto simp: drr_inv_def)
qed

section \<open>Properties\<close>

text \<open>A queue with two buckets, each with one packet of 100 bytes.\<close>

definition demo_flow :: "nat \<Rightarrow> unit packet \<Rightarrow> unit drr_flow" where
  "demo_flow b p =
     \<lparr>fl_q = \<lparr>pq_items = [p], pq_len = 1, pq_bytes = psize p\<rparr>, f_pkts = 1, f_src = 0, bcount = psize p, f_prev = Some b, f_next = Some b,
      deficitCounter = 0, turn = False\<rparr>"

definition demo_packet :: "int \<Rightarrow> nsaddr \<Rightarrow> unit packet" where
  "demo_packet n a = (packet_alloc n ())\<lparr>psize := 100, saddr := a\<rparr>"

definition demo_drr :: "unit drr" where
  "demo_drr =
     \<lparr>buckets = 2, blimit = 1000, quantum = 250, mask = False, bytecnt = 200, pktcnt = 2, flwcnt = 2, curr = Some 0,
      drr_arr = [demo_flow 1 (demo_packet 1 0), demo_flow 0 (demo_packet 2 1)]\<rparr>"

lemma demo_drr_core: "drr_core demo_drr [0, 1]"
  by (auto simp: drr_core_def drr_base_def demo_drr_def ringed_def ring_def demo_flow_def demo_packet_def flow_ok_def pq_inv_def
    drr_params_def active_def less_Suc_eq nth_Cons')

lemma demo_drr_inv: "drr_inv demo_drr"
  unfolding drr_inv_def using demo_drr_core by (auto simp: demo_drr_def)

lemma demo_drr_held: "drr_held demo_drr = {#demo_packet 1 0, demo_packet 2 1#}"
  by (simp add: drr_held_def demo_drr_def demo_flow_def)

lemma demo_acceptable: "drr_acceptable (demo_packet n 0)" "drr_acceptable (demo_packet n 1)"
  by (simp_all add: drr_acceptable_def demo_packet_def)

text \<open>
  C29: \<open>deque\<close> comes to an end: it returns no packet exactly when the queue holds none, and otherwise
  a packet that it held, which it gives up. It needs a positive quantum and packets that have a size.
\<close>

theorem drr_deque_ends:
  assumes "drr_inv d"
  shows "\<exists>r d'. drr_deque d = Inr (r, d') \<and> drr_inv d' \<and> (r = None \<longleftrightarrow> drr_held d = {#})
    \<and> drr_held d = (case r of None \<Rightarrow> {#} | Some p \<Rightarrow> {#p#}) + drr_held d'"
  using drr.deq_none [OF assms] drr.deq_some [OF assms] by (cases "drr_held d = {#}") auto

theorem drr_deque_ends_witness:
  "\<exists>p d'. drr_deque demo_drr = Inr (Some p, d') \<and> drr_held demo_drr = add_mset p (drr_held d')"
  using drr_deque_ends [OF demo_drr_inv] by (auto simp: demo_drr_held)

text \<open>
  \<open>enque\<close> keeps the bytes of all buckets within the limit, by dropping packets, possibly the new
  one; nothing else is lost.
\<close>

theorem drr_enque_limit:
  assumes "drr_inv d" and "drr_acceptable p"
  shows "\<exists>ds d'. drr_enque p d = Inr (ds, d') \<and> drr_inv d' \<and> bytecnt d' \<le> blimit d'
    \<and> mset ds + drr_held d' = add_mset p (drr_held d)"
  using drr.enq_spec [OF assms] by (auto simp: drr_inv_def)

theorem drr_enque_limit_witness:
  "\<exists>ds d'. drr_enque (demo_packet 3 1) demo_drr = Inr (ds, d') \<and> bytecnt d' \<le> blimit d'"
  using drr_enque_limit [OF demo_drr_inv demo_acceptable(2) [of 3]] by blast

text \<open>
  Every packet that comes to a link with deficit round robin is transmitted, dropped or still
  held, exactly once, and the link is idle only when no bucket holds a packet.
\<close>

theorem drr_link:
  assumes "drr_inv (disc q)" and "\<not> blocked q \<longrightarrow> drr_held (disc q) = {#}" and "\<forall>p \<in> set (arrived es). drr_acceptable p"
  shows "\<exists>as q'. link_run drr_enque drr_deque es q = Inr (as, q') \<and> drr_inv (disc q')
    \<and> mset (map link_out as) + drr_held (disc q') = mset (arrived es) + drr_held (disc q)
    \<and> (\<not> blocked q' \<longrightarrow> drr_held (disc q') = {#})"
proof -
  have "drr.link_ok q" using assms(1,2) by (simp add: drr.link_ok_def)
  from drr.link_run_ok [OF this assms(3)] show ?thesis by (auto simp: drr.link_ok_def)
qed

theorem drr_link_witness:
  "\<exists>as q'. link_run drr_enque drr_deque [Arrive 1 (demo_packet 3 1), LinkDone 2]
      \<lparr>disc = demo_drr, blocked = True, unblock_on_resume = True, utl = demo_util\<rparr> = Inr (as, q')
    \<and> mset (map link_out as) + drr_held (disc q') = {#demo_packet 3 1, demo_packet 1 0, demo_packet 2 1#}"
proof -
  let ?q = "\<lparr>disc = demo_drr, blocked = True, unblock_on_resume = True, utl = demo_util\<rparr>"
  have "drr_inv (disc ?q)" "\<not> blocked ?q \<longrightarrow> drr_held (disc ?q) = {#}"
    "\<forall>p \<in> set (arrived [Arrive 1 (demo_packet 3 1), LinkDone 2]). drr_acceptable p"
    by (simp_all add: demo_drr_inv demo_acceptable)
  from drr_link [OF this] show ?thesis by (auto simp: demo_drr_held)
qed

text \<open>
  A bucket that a drop empties keeps its turn, although one that \<open>deque\<close> empties does not: when
  its next packet comes it is passed over once, without a quantum.
\<close>

theorem drr_drop_keeps_turn:
  assumes "drr_core d xs" and "xs \<noteq> []" and "b < length (drr_arr d)"
  shows "\<exists>p d'. drr_drop_one d = Inr (p, d') \<and> turn (drr_arr d' ! b) = turn (drr_arr d ! b)"
proof -
  obtain p d' xs' where s: "drr_drop_one d = Inr (p, d')" "drr_drops (d, xs) (d', xs')" by (rule drr_drop_one_core [OF assms(1,2)])
  then obtain c where c: "c \<in> set xs" "map strip (drr_arr d') = map strip (upd c behead (drr_arr d))" by (auto simp: drr_drops_def)
  obtain q qs where it: "fitems (drr_arr d ! c) = q # qs" "c < length (drr_arr d)"
    using assms(1) c(1) by (auto simp: drr_core_def active_def neq_Nil_conv)
  have "strip (drr_arr d' ! b) = strip (upd c behead (drr_arr d) ! b)" by (rule stripD(3) [OF c(2)]) (use stripD(1) [OF c(2)] assms(3) in simp)
  from strip_eqD(6) [OF this] behead_simps(5) [OF it(1)] it(2) s(1) show ?thesis by (auto simp: nth_upd)
qed

theorem drr_drop_keeps_turn_witness:
  "\<exists>p d'. drr_drop_one demo_drr = Inr (p, d') \<and> turn (drr_arr d' ! 0) = turn (drr_arr demo_drr ! 0)"
  by (rule drr_drop_keeps_turn [OF demo_drr_core]) (simp_all add: demo_drr_def)

text \<open>
  A packet without a size is held and never served: with nothing else in the queue \<open>deque\<close> finds
  no bytes and returns no packet.
\<close>

theorem drr_zero_size_stuck:
  assumes "bytecnt d = 0"
  shows "drr_deque d = Inr (None, d)"
  using assms by (simp add: drr_deque_def)

theorem drr_zero_size_stuck_witness:
  "drr_deque (demo_drr\<lparr>bytecnt := 0, pktcnt := 1, flwcnt := 1,
      drr_arr := [demo_flow 0 (packet_alloc 1 ()), flow_new]\<rparr>)
    = Inr (None, demo_drr\<lparr>bytecnt := 0, pktcnt := 1, flwcnt := 1, drr_arr := [demo_flow 0 (packet_alloc 1 ()), flow_new]\<rparr>)"
  by (rule drr_zero_size_stuck) simp

end
