(* ===== verification/DrrFair.thy ===== *)
theory DrrFair
  imports DrrServe
begin

text \<open>
  Fairness of deficit round robin: two buckets that both stay backlogged are sent nearly the same
  number of bytes, whatever else arrives, leaves or is dropped meanwhile. The proof keeps one number
  that no step changes: the difference of what the two have been sent, corrected by their credit and
  by which of them comes first in the round.
\<close>

section \<open>Runs\<close>

datatype 'b drr_op = Enq "'b packet" | Deq

definition drr_step :: "'b drr_op \<Rightarrow> 'b drr \<Rightarrow> ('b packet option \<times> 'b drr) res" where
  "drr_step e d =
     (case e of Enq p \<Rightarrow> bindR (drr_enque p d) (\<lambda>(ds, d1). Inr (None, d1)) | Deq \<Rightarrow> drr_deque d)"

text \<open>The trace holds what each step sent and the queue after it.\<close>

fun drr_run :: "'b drr_op list \<Rightarrow> 'b drr \<Rightarrow> ('b packet option \<times> 'b drr) list res" where
  "drr_run [] d = Inr []"
| "drr_run (e # es) d = bindR (drr_step e d) (\<lambda>(r, d1). bindR (drr_run es d1) (\<lambda>tr. Inr ((r, d1) # tr)))"

definition paid :: "'b drr \<Rightarrow> nat \<Rightarrow> 'b packet option \<Rightarrow> int" where
  "paid d i r = (case r of None \<Rightarrow> 0 | Some p \<Rightarrow> if drr_bucket d p = int i then psize p else 0)"

definition drr_sent :: "'b drr \<Rightarrow> nat \<Rightarrow> ('b packet option \<times> 'b drr) list \<Rightarrow> int" where
  "drr_sent d i tr = sum_list (map (\<lambda>(r, e). paid d i r) tr)"

definition backlogged :: "nat \<Rightarrow> 'b drr \<Rightarrow> bool" where
  "backlogged i d \<longleftrightarrow> i < length (drr_arr d) \<and> fitems (drr_arr d ! i) \<noteq> []"

lemma core_backlogged: "drr_core d xs \<Longrightarrow> backlogged i d \<longleftrightarrow> i \<in> set xs"
  by (simp add: drr_core_def backlogged_def active_def)

section \<open>Who comes first\<close>

definition before :: "nat \<Rightarrow> nat \<Rightarrow> nat list \<Rightarrow> bool" where
  "before i j xs \<longleftrightarrow> i \<in> set (takeWhile (\<lambda>x. x \<noteq> j) xs)"

lemma before_first: "i \<noteq> j \<Longrightarrow> before i j (i # ys) \<and> \<not> before i j (j # ys)"
  by (simp_all add: before_def)

lemma before_snoc: "j \<in> set xs \<Longrightarrow> before i j (xs @ ys) \<longleftrightarrow> before i j xs"
  by (simp add: before_def)

lemma before_turned:
  assumes "distinct (c # ys)" and "i \<in> set (c # ys)" and "j \<in> set (c # ys)" and "i \<noteq> j"
  shows "before i j (ys @ [c]) \<longleftrightarrow> (if c = i then False else if c = j then True else before i j (c # ys))"
proof -
  have tw: "takeWhile (\<lambda>x. x \<noteq> j) ys = ys" if "j \<notin> set ys" using that by (induction ys) auto
  consider "c = i" "j \<in> set ys" | "c = j" "i \<in> set ys" "j \<notin> set ys" | "c \<noteq> i" "c \<noteq> j" "j \<in> set ys" using assms by auto
  then show ?thesis
  proof cases
    case 1
    with assms(1,4) set_takeWhileD [of i "\<lambda>x. x \<noteq> j" ys] show ?thesis by (auto simp: before_def)
  next
    case 2
    then have "takeWhile (\<lambda>x. x \<noteq> j) (ys @ [j]) = ys" using tw by simp
    with 2 assms(4) show ?thesis by (simp add: before_def)
  next
    case 3
    then show ?thesis by (simp add: before_def)
  qed
qed

lemma before_remove1: "b \<noteq> i \<Longrightarrow> b \<noteq> j \<Longrightarrow> before i j (remove1 b xs) \<longleftrightarrow> before i j xs"
  by (induction xs) (auto simp: before_def)

section \<open>Credits\<close>

definition phase :: "'b drr \<Rightarrow> nat \<Rightarrow> int" where
  "phase d b = (if turn (drr_arr d ! b) then quantum d else 0) - deficitCounter (drr_arr d ! b)"

text \<open>The number that stays.\<close>

definition phi :: "nat \<Rightarrow> nat \<Rightarrow> 'b drr \<times> nat list \<Rightarrow> int" where
  "phi i j s = (case s of (d, xs) \<Rightarrow> phase d j - phase d i - (if before i j xs then 0 else quantum d))"

text \<open>Every packet is in its own bucket and at most \<open>M\<close> bytes long; credit is bounded.\<close>

definition drr_fine :: "int \<Rightarrow> 'b drr \<Rightarrow> bool" where
  "drr_fine M d \<longleftrightarrow> 0 < M \<and>
     (\<forall>b < length (drr_arr d).
        (\<forall>p \<in> set (fitems (drr_arr d ! b)). drr_bucket d p = int b \<and> psize p \<le> M)
        \<and> deficitCounter (drr_arr d ! b) < M + (if turn (drr_arr d ! b) then quantum d else 0))"

lemma drr_fineD:
  assumes "drr_fine M d" and "b < length (drr_arr d)"
  shows "0 < M" "\<And>p. p \<in> set (fitems (drr_arr d ! b)) \<Longrightarrow> drr_bucket d p = int b" "\<And>p. p \<in> set (fitems (drr_arr d ! b)) \<Longrightarrow> psize p \<le> M"
    "deficitCounter (drr_arr d ! b) < M + (if turn (drr_arr d ! b) then quantum d else 0)"
  using assms by (auto simp: drr_fine_def)

lemma drr_bucket_params: "same_params d d' \<Longrightarrow> drr_bucket d' p = drr_bucket d p"
  by (simp add: same_params_def drr_bucket_def)

text \<open>A step that changes one bucket keeps the state fine if it keeps that bucket fine.\<close>

lemma fine_upd:
  assumes fine: "drr_fine M d" and sp: "same_params d d'" and eq: "map strip (drr_arr d') = map strip (upd c g (drr_arr d))"
    and c: "c < length (drr_arr d)"
    and it: "\<forall>p \<in> set (fitems (g (drr_arr d ! c))). drr_bucket d p = int c \<and> psize p \<le> M"
    and cr: "deficitCounter (g (drr_arr d ! c)) < M + (if turn (g (drr_arr d ! c)) then quantum d else 0)"
  shows "drr_fine M d'"
    "\<And>b. b < length (drr_arr d) \<Longrightarrow> phase d' b =
       (if b = c then (if turn (g (drr_arr d ! c)) then quantum d else 0) - deficitCounter (g (drr_arr d ! c)) else phase d b)"
proof -
  note sd = stripD [OF eq]
  have q: "quantum d' = quantum d" using sp by (simp add: same_params_def)
  have len: "length (drr_arr d') = length (drr_arr d)" using sd(1) by simp
  have e: "strip (drr_arr d' ! b) = strip (if b = c then g (drr_arr d ! c) else drr_arr d ! b)" if "b < length (drr_arr d)" for b
    using sd(3) [of b] that len c by (auto simp: nth_upd)
  show "phase d' b = (if b = c then (if turn (g (drr_arr d ! c)) then quantum d else 0) - deficitCounter (g (drr_arr d ! c)) else phase d b)"
    if "b < length (drr_arr d)" for b
    using strip_eqD [OF e [OF that]] q by (simp add: phase_def)
  show "drr_fine M d'"
    unfolding drr_fine_def
  proof (intro conjI allI impI)
    show "0 < M" using fine by (simp add: drr_fine_def)
    fix b assume "b < length (drr_arr d')"
    then have b: "b < length (drr_arr d)" using len by simp
    note se = strip_eqD [OF e [OF b]] and fd = drr_fineD [OF fine b]
    show "\<forall>p \<in> set (fitems (drr_arr d' ! b)). drr_bucket d' p = int b \<and> psize p \<le> M"
      unfolding se(1) drr_bucket_params [OF sp] using it fd(2,3) by (cases "b = c") simp_all
    show "deficitCounter (drr_arr d' ! b) < M + (if turn (drr_arr d' ! b) then quantum d' else 0)"
      unfolding se(5,6) q using cr fd(4) by (cases "b = c") simp_all
  qed
qed

section \<open>What the steps keep\<close>

lemma pass_phi:
  assumes st: "drr_passes (d, xs) (d', xs')" and fine: "drr_fine M d" and ij: "i \<in> set xs" "j \<in> set xs" "i \<noteq> j"
  shows "drr_fine M d'" "phi i j (d', xs') = phi i j (d, xs)" "set xs' = set xs" "same_params d d'"
proof -
  from st obtain c ys where p: "xs = c # ys" "xs' = ys @ [c]" "deficitCounter (credit (quantum d) (drr_arr d ! c)) < head_size (drr_arr d ! c)"
    "drr_arr d' = upd c (\<lambda>f. (credit (quantum d) f)\<lparr>turn := False\<rparr>) (drr_arr d)" and core: "drr_core d xs" and sp: "same_params d d'"
    by (auto simp: drr_passes_def)
  show "same_params d d'" by (rule sp)
  show "set xs' = set xs" using p(1,2) by auto
  obtain q qs where f: "c < length (drr_arr d)" "fitems (drr_arr d ! c) = q # qs" by (rule core_first [OF core [unfolded p(1)]])
  note fd = drr_fineD [OF fine f(1)]
  have eq: "map strip (drr_arr d') = map strip (upd c (\<lambda>f. (credit (quantum d) f)\<lparr>turn := False\<rparr>) (drr_arr d))" using p(4) by simp
  have "head_size (drr_arr d ! c) \<le> M" using fd(3) f(2) by (simp add: head_size_def)
  note up = fine_upd [OF fine sp eq f(1)]
  show "drr_fine M d'" by (rule up(1)) (use fd(2,3) p(3) \<open>head_size (drr_arr d ! c) \<le> M\<close> in auto)
  have ph: "phase d' b = (if b = c then phase d c - quantum d else phase d b)" if "b \<in> set xs" for b
  proof -
    have "b < length (drr_arr d)" using core that by (auto simp: drr_core_def active_def)
    from up(2) [OF _ _ this] fd(2,3) p(3) \<open>head_size (drr_arr d ! c) \<le> M\<close> show ?thesis by (auto simp: phase_def)
  qed
  have "distinct xs" using core by (simp add: drr_core_def drr_base_def ringed_def)
  note bt = before_turned [OF this [unfolded p(1)] ij(1,2) [unfolded p(1)] ij(3)]
  have q: "quantum d' = quantum d" using sp by (simp add: same_params_def)
  show "phi i j (d', xs') = phi i j (d, xs)"
    using ph [OF ij(1)] ph [OF ij(2)] ij(3) bt before_first [OF ij(3), of ys] q by (auto simp: phi_def p(1,2))
qed

lemma send_phi:
  assumes st: "drr_sends p (d, xs) (d', xs')" and fine: "drr_fine M d" and ij: "i \<in> set xs'" "j \<in> set xs'" "i \<noteq> j"
  shows "drr_fine M d'" "paid d i (Some p) - paid d j (Some p) + phi i j (d', xs') = phi i j (d, xs)" "set xs' \<subseteq> set xs" "same_params d d'"
proof -
  from st obtain c ys ps where s: "xs = c # ys" "fitems (drr_arr d ! c) = p # ps" "xs' = (if ps = [] then ys else c # ys)"
    "psize p \<le> deficitCounter (credit (quantum d) (drr_arr d ! c))"
    "map strip (drr_arr d') = map strip (upd c (\<lambda>f. settle (credit (quantum d) f)) (drr_arr d))" and core: "drr_core d xs" and sp: "same_params d d'"
    by (auto simp: drr_sends_def)
  show "same_params d d'" by (rule sp)
  show sub: "set xs' \<subseteq> set xs" using s(1,3) by auto
  obtain f: "c < length (drr_arr d)" by (rule core_first [OF core [unfolded s(1)]])
  note fd = drr_fineD [OF fine f]
  have dist: "distinct xs" using core by (simp add: drr_core_def drr_base_def ringed_def)
  let ?f = "drr_arr d ! c" and ?g = "\<lambda>f. settle (credit (quantum d) f)"
  have hs: "head_size (credit (quantum d) ?f) = psize p" using s(2) by (simp add: head_size_def)
  have itb: "fitems (pay (psize p) (credit (quantum d) ?f)) = p # ps" using s(2) by simp
  note bh = behead_simps [OF itb]
  have g: "fitems (?g ?f) = ps" "turn (?g ?f) \<longleftrightarrow> ps \<noteq> []"
    "deficitCounter (?g ?f) = (if ps = [] then 0 else deficitCounter ?f + (if turn ?f then 0 else quantum d) - psize p)"
    using bh(1,4,5) by (auto simp: settle_def hs Let_def forfeit_def)
  have pos: "0 < psize p" using core f s(2) by (auto simp: drr_core_def drr_base_def flow_ok_def dest: nth_mem)
  have qn: "0 < quantum d" using core by (simp add: drr_core_def drr_base_def drr_params_def)
  have it: "\<forall>q \<in> set (fitems (?g ?f)). drr_bucket d q = int c \<and> psize q \<le> M" using fd(2,3) g(1) s(2) by auto
  have cr: "deficitCounter (?g ?f) < M + (if turn (?g ?f) then quantum d else 0)" using g(2,3) fd(1,4) pos qn by auto
  note up = fine_upd [OF fine sp s(5) f it cr]
  show "drr_fine M d'" by (rule up(1))
  have bkt: "drr_bucket d p = int c" using fd(2) s(2) by simp
  have len: "b < length (drr_arr d)" if "b \<in> set xs" for b using core that by (auto simp: drr_core_def active_def)
  have ph: "phase d' b = phase d b + paid d b (Some p)" if "b \<in> set xs'" for b
  proof (cases "b = c")
    case True
    with that s(1,3) dist have "ps \<noteq> []" by auto
    with True up(2) [OF f] g(2,3) bkt show ?thesis by (auto simp: phase_def paid_def)
  next
    case False
    with up(2) [OF len, of b] that sub bkt show ?thesis by (auto simp: paid_def)
  qed
  have "before i j xs' \<longleftrightarrow> before i j xs"
  proof (cases "ps = []")
    case True
    with ij s(1,3) dist have "c \<noteq> i" "c \<noteq> j" by auto
    with before_remove1 [of c i j xs] s(1,3) True show ?thesis by simp
  qed (use s(1,3) in simp)
  moreover have "quantum d' = quantum d" using sp by (simp add: same_params_def)
  ultimately show "paid d i (Some p) - paid d j (Some p) + phi i j (d', xs') = phi i j (d, xs)"
    using ph [OF ij(1)] ph [OF ij(2)] by (simp add: phi_def)
qed

lemma drop_phi:
  assumes st: "drr_drops (d, xs) (d', xs')" and fine: "drr_fine M d" and ij: "i \<in> set xs'" "j \<in> set xs'" "i \<noteq> j"
  shows "drr_fine M d'" "phi i j (d', xs') = phi i j (d, xs)" "set xs' \<subseteq> set xs" "same_params d d'"
proof -
  from st obtain b where s: "b \<in> set xs" "map strip (drr_arr d') = map strip (upd b behead (drr_arr d))"
    "xs' = (if tl (fitems (drr_arr d ! b)) = [] then remove1 b xs else xs)" and core: "drr_core d xs" and sp: "same_params d d'"
    by (auto simp: drr_drops_def same_params_def)
  show "same_params d d'" by (rule sp)
  have dist: "distinct xs" using core by (simp add: drr_core_def drr_base_def ringed_def)
  show "set xs' \<subseteq> set xs" using s(3) by (auto dest: notin_set_remove1)
  have len: "c < length (drr_arr d)" if "c \<in> set xs" for c using core that by (auto simp: drr_core_def active_def)
  obtain p ps where it: "fitems (drr_arr d ! b) = p # ps" using core s(1) by (auto simp: drr_core_def active_def neq_Nil_conv)
  note bh = behead_simps [OF it] and fd = drr_fineD [OF fine len [OF s(1)]]
  have itb: "\<forall>q \<in> set (fitems (behead (drr_arr d ! b))). drr_bucket d q = int b \<and> psize q \<le> M" using fd(2,3) bh(1) it by auto
  note up = fine_upd [OF fine sp s(2) len [OF s(1)] itb]
  show "drr_fine M d'" by (rule up(1)) (use fd(4) bh(4,5) in auto)
  have ph: "phase d' c = phase d c" if "c \<in> set xs" for c
    using up(2) [OF _ len [OF that]] fd(4) bh(4,5) by (auto simp: phase_def)
  have "before i j xs' \<longleftrightarrow> before i j xs"
  proof (cases "ps = []")
    case True
    with ij s(3) dist it have "b \<noteq> i" "b \<noteq> j" by auto
    with before_remove1 s(3) True it show ?thesis by simp
  qed (use s(3) it in simp)
  moreover have "quantum d' = quantum d" using sp by (simp add: same_params_def)
  ultimately show "phi i j (d', xs') = phi i j (d, xs)"
    using ph [OF subsetD [OF \<open>set xs' \<subseteq> set xs\<close> ij(1)]] ph [OF subsetD [OF \<open>set xs' \<subseteq> set xs\<close> ij(2)]] by (simp add: phi_def)
qed

lemma passes_phi:
  assumes "drr_passes\<^sup>*\<^sup>* (d, xs) (d', xs')" and "drr_fine M d" and "i \<in> set xs'" "j \<in> set xs'" "i \<noteq> j"
  shows "drr_fine M d' \<and> phi i j (d', xs') = phi i j (d, xs) \<and> set xs' = set xs \<and> same_params d d'"
  using assms
proof (induction rule: rtranclp_induct2)
  case refl
  then show ?case by (simp add: same_params_def)
next
  case (step d1 xs1 d2 xs2)
  have eq: "set xs2 = set xs1" using step.hyps(2) by (auto simp: drr_passes_def)
  with step have ih: "drr_fine M d1" "phi i j (d1, xs1) = phi i j (d, xs)" "set xs1 = set xs" "same_params d d1" by auto
  from pass_phi [OF step.hyps(2) ih(1), of i j] step.prems eq ih show ?case by (auto simp: same_params_def)
qed

lemma drops_phi:
  assumes "drr_drops\<^sup>*\<^sup>* (d, xs) (d', xs')" and "drr_fine M d" and "i \<in> set xs'" "j \<in> set xs'" "i \<noteq> j"
  shows "drr_fine M d' \<and> phi i j (d', xs') = phi i j (d, xs) \<and> set xs' \<subseteq> set xs \<and> same_params d d'"
  using assms
proof (induction rule: rtranclp_induct2)
  case refl
  then show ?case by (simp add: same_params_def)
next
  case (step d1 xs1 d2 xs2)
  have sub: "set xs2 \<subseteq> set xs1" using step.hyps(2) by (auto simp: drr_drops_def dest: notin_set_remove1 split: if_splits)
  with step have ih: "drr_fine M d1" "phi i j (d1, xs1) = phi i j (d, xs)" "set xs1 \<subseteq> set xs" "same_params d d1" by auto
  from drop_phi [OF step.hyps(2) ih(1), of i j] step.prems ih show ?case by (auto simp: same_params_def)
qed

text \<open>A new packet joins its bucket, and its bucket the round.\<close>

lemma admit_phi:
  assumes core: "drr_core d xs" and b: "b < length (drr_arr d)" and p: "0 < psize p" "psize p \<le> M" "drr_bucket d p = int b"
    and ad: "drr_admit b (drr_put b p d) = Inr d1" and fine: "drr_fine M d" and ij: "i \<in> set xs" "j \<in> set xs" "i \<noteq> j"
  shows "drr_fine M d1" "phi i j (d1, if b \<in> set xs then xs else xs @ [b]) = phi i j (d, xs)" "same_params d d1"
proof -
  let ?put = "\<lambda>f. f\<lparr>f_src := (if f_src f = - 1 then drr_source d p else f_src f), fl_q := snd (pq_enque p (fl_q f)),
         f_pkts := f_pkts f + 1, bcount := bcount f + psize p\<rparr>"
  let ?g = "\<lambda>f. (if b \<in> set xs then ?put f else (?put f)\<lparr>deficitCounter := 0\<rparr>)"
  obtain d' where d': "drr_admit b (drr_put b p d) = Inr d'" "blimit d' = blimit d" "quantum d' = quantum d" "mask d' = mask d" "buckets d' = buckets d"
    "map strip (drr_arr d') = map strip (upd b (\<lambda>f. if b \<in> set xs then f else f\<lparr>deficitCounter := 0\<rparr>) (drr_arr (drr_put b p d)))"
    by (rule drr_admit_core [OF core b p(1)])
  have sp: "same_params d d1" using d' ad by (simp add: same_params_def)
  then show "same_params d d1" .
  have eq: "map strip (drr_arr d1) = map strip (upd b ?g (drr_arr d))"
  proof -
    have "upd b (\<lambda>f. if b \<in> set xs then f else f\<lparr>deficitCounter := 0\<rparr>) (drr_arr (drr_put b p d)) = upd b ?g (drr_arr d)"
      by (simp add: drr_put_def)
    with d'(1,6) ad show ?thesis by simp
  qed
  note fd = drr_fineD [OF fine b]
  have qn: "0 < quantum d" using core by (simp add: drr_core_def drr_base_def drr_params_def)
  have it: "\<forall>q \<in> set (fitems (?g (drr_arr d ! b))). drr_bucket d q = int b \<and> psize q \<le> M" using fd(2,3) p(2,3) by auto
  have cr: "deficitCounter (?g (drr_arr d ! b)) < M + (if turn (?g (drr_arr d ! b)) then quantum d else 0)" using fd(1,4) qn by auto
  note up = fine_upd [OF fine sp eq b it cr]
  show "drr_fine M d1" by (rule up(1))
  have ph: "phase d1 c = phase d c" if "c \<in> set xs" for c
  proof -
    have "c < length (drr_arr d)" using core that by (auto simp: drr_core_def active_def)
    from up(2) [OF this] that show ?thesis by (auto simp: phase_def)
  qed
  show "phi i j (d1, if b \<in> set xs then xs else xs @ [b]) = phi i j (d, xs)"
    using ph [OF ij(1)] ph [OF ij(2)] before_snoc [OF ij(2)] d'(3) d'(1) ad by (simp add: phi_def)
qed

section \<open>Fairness\<close>

definition drr_op_ok :: "int \<Rightarrow> 'b drr_op \<Rightarrow> bool" where
  "drr_op_ok M e = (case e of Enq p \<Rightarrow> drr_acceptable p \<and> psize p \<le> M | Deq \<Rightarrow> True)"

lemma step_phi:
  assumes core: "drr_core d xs" and ok: "drr_op_ok M e" and st: "drr_step e d = Inr (r, d1)" and fine: "drr_fine M d"
    and b: "backlogged i d" "backlogged j d" and b1: "backlogged i d1" "backlogged j d1" and ne: "i \<noteq> j"
  obtains xs1 where "drr_core d1 xs1" "drr_fine M d1" "same_params d d1" "paid d i r - paid d j r + phi i j (d1, xs1) = phi i j (d, xs)"
proof (cases e)
  case (Enq p)
  from ok Enq have p: "0 < psize p" "mask d \<or> 0 \<le> sint (saddr p)" "psize p \<le> M" by (simp_all add: drr_op_ok_def drr_acceptable_def)
  have nb: "0 < buckets d" using core by (simp add: drr_core_def drr_base_def drr_params_def)
  define w where "w = nat (drr_bucket d p)"
  have "drr_arr d \<noteq> []" using b(1) by (auto simp: backlogged_def)
  then have al: "drr_alloc d = d" by (simp add: drr_alloc_def)
  have w: "drr_bucket d p = int w" "w < length (drr_arr d)"
    using drr_bucket_range [OF p(2) nb] drr_alloc_core(3) [OF core] al by (simp_all add: w_def)
  obtain ds da d' xs' where en: "drr_enque p d = Inr (ds, d')" "drr_core d' xs'" "drr_admit w (drr_put w p d) = Inr da"
    "drr_drops\<^sup>*\<^sup>* (da, if w \<in> set xs then xs else xs @ [w]) (d', xs')"
    by (rule drr_enque_core [OF core p(1,2), unfolded al, folded w_def]) blast
  have e1: "d1 = d'" "r = None" using st Enq en(1) by (simp_all add: drr_step_def)
  have ij: "i \<in> set xs" "j \<in> set xs" "i \<in> set xs'" "j \<in> set xs'"
    using b b1 core_backlogged [OF core] core_backlogged [OF en(2)] e1 by auto
  note ad = admit_phi [OF core w(2) p(1,3) w(1) en(3) fine ij(1,2) ne]
  from drops_phi [OF en(4) ad(1) ij(3,4) ne] ad(2,3) show thesis
    using that [of xs'] en(2) by (auto simp: e1 same_params_def paid_def)
next
  case Deq
  with st have dq: "drr_deque d = Inr (r, d1)" by (simp add: drr_step_def)
  have "xs \<noteq> []" using core_backlogged [OF core] b(1) by auto
  from drr_deque_core(2) [OF core this] dq obtain p da xsa xs' where de: "r = Some p" "drr_passes\<^sup>*\<^sup>* (d, xs) (da, xsa)"
    "drr_sends p (da, xsa) (d1, xs')" "drr_core d1 xs'" by auto
  have ij: "i \<in> set xs'" "j \<in> set xs'" using b1 core_backlogged [OF de(4)] by auto
  have "set xs' \<subseteq> set xsa" using de(3) by (auto simp: drr_sends_def split: if_splits)
  with ij have ija: "i \<in> set xsa" "j \<in> set xsa" by auto
  note ps = passes_phi [OF de(2) fine ija ne]
  have "drr_fine M da" using ps by blast
  note se = send_phi [OF de(3) this ij ne]
  have "paid da k r = paid d k r" for k using ps drr_bucket_params [of d da] by (simp add: paid_def split: option.split)
  with ps se de(1,4) show thesis using that [of xs'] by (auto simp: same_params_def)
qed

lemma phi_bounds:
  assumes "drr_core d xs" and "drr_fine M d" and "backlogged i d" and "backlogged j d"
  shows "- (2 * quantum d + M) < phi i j (d, xs)" "phi i j (d, xs) < quantum d + M"
proof -
  have q: "0 < quantum d" using assms(1) by (simp add: drr_core_def drr_base_def drr_params_def)
  have ph: "- M < phase d b \<and> phase d b \<le> quantum d" if "backlogged b d" for b
  proof -
    have b: "b < length (drr_arr d)" using that by (simp add: backlogged_def)
    have "flow_ok (drr_arr d ! b)" using assms(1) b by (simp add: drr_core_def drr_base_def)
    with drr_fineD(4) [OF assms(2) b] q show ?thesis by (auto simp: phase_def flow_ok_def split: if_splits)
  qed
  show "- (2 * quantum d + M) < phi i j (d, xs)" "phi i j (d, xs) < quantum d + M"
    using ph [OF assms(3)] ph [OF assms(4)] q by (auto simp: phi_def)
qed

lemma drr_step_returns:
  assumes "drr_inv d" and "drr_op_ok M e"
  shows "\<exists>r d1. drr_step e d = Inr (r, d1) \<and> drr_inv d1"
proof (cases e)
  case (Enq p)
  with drr.enq_spec [OF assms(1), of p] assms(2) show ?thesis by (auto simp: drr_step_def drr_op_ok_def)
next
  case Deq
  with drr.deq_none [OF assms(1)] drr.deq_some [OF assms(1)] show ?thesis
    by (cases "drr_held d = {#}") (auto simp: drr_step_def)
qed

lemma drr_run_returns:
  assumes "drr_inv d" and "\<forall>e \<in> set es. drr_op_ok M e"
  shows "\<exists>tr. drr_run es d = Inr tr"
  using assms
proof (induction es arbitrary: d)
  case (Cons e es)
  from drr_step_returns [OF Cons.prems(1), of M e] Cons.prems(2) obtain r d1 where s: "drr_step e d = Inr (r, d1)" "drr_inv d1" by auto
  from Cons.IH [OF s(2)] Cons.prems(2) s(1) show ?case by auto
qed simp

lemma run_phi:
  assumes "drr_core d xs" and "\<forall>e \<in> set es. drr_op_ok M e" and "drr_run es d = Inr tr" and "drr_fine M d"
    and "backlogged i d" "backlogged j d" and "\<forall>(r, d') \<in> set tr. backlogged i d' \<and> backlogged j d'" and "i \<noteq> j"
    and "same_params d0 d"
  shows "\<exists>d' xs'. drr_core d' xs' \<and> drr_fine M d' \<and> same_params d0 d' \<and> backlogged i d' \<and> backlogged j d'
    \<and> drr_sent d0 i tr - drr_sent d0 j tr + phi i j (d', xs') = phi i j (d, xs)"
  using assms
proof (induction es arbitrary: d xs tr)
  case Nil
  then have "drr_sent d0 k tr = 0" for k by (simp add: drr_sent_def)
  with Nil show ?case by (metis add_0 diff_self)
next
  case (Cons e es)
  from Cons.prems(3) obtain r d1 tr1 where s: "drr_step e d = Inr (r, d1)" "drr_run es d1 = Inr tr1" "tr = (r, d1) # tr1"
    by (auto simp: bindR_eq_Inr)
  from Cons.prems(2,7) s(3) have ok: "drr_op_ok M e" "\<forall>e \<in> set es. drr_op_ok M e" and b1: "backlogged i d1" "backlogged j d1"
    and bs: "\<forall>(r, d') \<in> set tr1. backlogged i d' \<and> backlogged j d'" by auto
  obtain xs1 where st: "drr_core d1 xs1" "drr_fine M d1" "same_params d d1" "paid d i r - paid d j r + phi i j (d1, xs1) = phi i j (d, xs)"
    by (rule step_phi [OF Cons.prems(1) ok(1) s(1) Cons.prems(4,5,6) b1 Cons.prems(8)])
  have sp: "same_params d0 d1" using st(3) Cons.prems(9) by (simp add: same_params_def)
  from Cons.IH [OF st(1) ok(2) s(2) st(2) b1 bs Cons.prems(8) sp] obtain d' xs' where
    r: "drr_core d' xs'" "drr_fine M d'" "same_params d0 d'" "backlogged i d'" "backlogged j d'"
    "drr_sent d0 i tr1 - drr_sent d0 j tr1 + phi i j (d', xs') = phi i j (d1, xs1)" by blast
  have "paid d0 k r = paid d k r" for k using drr_bucket_params [OF Cons.prems(9)] by (simp add: paid_def split: option.split)
  then have "drr_sent d0 k tr = paid d k r + drr_sent d0 k tr1" for k by (simp add: drr_sent_def s(3))
  with r st(4) show ?case by (intro exI [of _ d'] exI [of _ xs'] conjI) auto
qed

text \<open>
  C4: Deficit round robin is fair. In any sequence of arrivals and services, in which other buckets
  come and go and packets are dropped, two buckets that stay backlogged are sent numbers of bytes
  that differ by less than three quanta and two packets of the largest size. And the queue serves:
  no step hangs or aborts.
\<close>

theorem drr_fair:
  assumes "drr_inv d" and "drr_fine M d" and "\<forall>e \<in> set es. drr_op_ok M e" and "i \<noteq> j" and "backlogged i d" and "backlogged j d"
  shows "\<exists>tr. drr_run es d = Inr tr \<and>
    ((\<forall>(r, d') \<in> set tr. backlogged i d' \<and> backlogged j d') \<longrightarrow> \<bar>drr_sent d i tr - drr_sent d j tr\<bar> < 3 * quantum d + 2 * M)"
proof -
  obtain xs where core: "drr_core d xs" using assms(1) by (auto simp: drr_inv_def)
  obtain tr where tr: "drr_run es d = Inr tr" using drr_run_returns [OF assms(1,3)] by blast
  have "\<bar>drr_sent d i tr - drr_sent d j tr\<bar> < 3 * quantum d + 2 * M" if bl: "\<forall>(r, d') \<in> set tr. backlogged i d' \<and> backlogged j d'"
  proof -
    have sp: "same_params d d" by (simp add: same_params_def)
    from run_phi [OF core assms(3) tr assms(2,5,6) bl assms(4) sp] obtain d' xs' where
      r: "drr_core d' xs'" "drr_fine M d'" "same_params d d'" "backlogged i d'" "backlogged j d'"
      "drr_sent d i tr - drr_sent d j tr + phi i j (d', xs') = phi i j (d, xs)" by blast
    have "quantum d' = quantum d" using r(3) by (simp add: same_params_def)
    with phi_bounds [OF core assms(2,5,6)] phi_bounds [OF r(1,2,4,5)] r(6) show ?thesis by auto
  qed
  with tr show ?thesis by blast
qed

lemma demo_bucket: "drr_bucket demo_drr (demo_packet n 0) = 0" "drr_bucket demo_drr (demo_packet n 1) = 1"
  by (simp_all add: drr_bucket_def drr_hash_def demo_drr_def demo_packet_def smod_int_alt_def Let_def)

theorem drr_fair_witness:
  "\<exists>tr. drr_run [Enq (demo_packet 3 0), Enq (demo_packet 4 1), Deq] demo_drr = Inr tr \<and>
    ((\<forall>(r, d') \<in> set tr. backlogged 0 d' \<and> backlogged 1 d') \<longrightarrow> \<bar>drr_sent demo_drr 0 tr - drr_sent demo_drr 1 tr\<bar> < 950)"
proof -
  let ?es = "[Enq (demo_packet 3 0), Enq (demo_packet 4 1), Deq]"
  have "drr_fine 100 demo_drr"
    unfolding drr_fine_def
  proof (intro conjI allI impI)
    fix b assume "b < length (drr_arr demo_drr)"
    then have b: "b = 0 \<or> b = 1" by (auto simp: demo_drr_def less_Suc_eq)
    have "fitems (drr_arr demo_drr ! 0) = [demo_packet 1 0]" "fitems (drr_arr demo_drr ! 1) = [demo_packet 2 1]" "psize (demo_packet n a) = 100" for n a
      by (simp_all add: demo_drr_def demo_flow_def demo_packet_def)
    with b demo_bucket show "\<forall>p \<in> set (fitems (drr_arr demo_drr ! b)). drr_bucket demo_drr p = int b \<and> psize p \<le> 100" by auto
    from b show "deficitCounter (drr_arr demo_drr ! b) < 100 + (if turn (drr_arr demo_drr ! b) then quantum demo_drr else 0)"
      by (auto simp: demo_drr_def demo_flow_def)
  qed simp
  moreover have "\<forall>e \<in> set ?es. drr_op_ok 100 e" by (simp add: drr_op_ok_def demo_acceptable) (simp add: demo_packet_def)
  moreover have "backlogged 0 demo_drr" "backlogged 1 demo_drr" by (simp_all add: backlogged_def demo_drr_def demo_flow_def)
  moreover have "quantum demo_drr = 250" by (simp add: demo_drr_def)
  ultimately show ?thesis using drr_fair [OF demo_drr_inv, of 100 ?es 0 1] by simp
qed

end
