(* ===== verification/TcpRtt.thy ===== *)
theory TcpRtt
  imports NsPrelude
begin

text \<open>
  The round trip time estimator and the retransmission timeout of \<open>TcpAgent\<close> in \<open>tcp/tcp.cc\<close>:
  fixed-point averages in 32-bit integers, their bounds while the round trips are short enough for
  them, the back-off, and what becomes of it after 31 timeouts.
\<close>

section \<open>Model\<close>

text \<open>Conversion of an \<open>int\<close> to a \<open>short\<close> and to 32 bits; arithmetic on an \<open>int\<close> wraps around.\<close>

definition short :: "int \<Rightarrow> int" where
  "short i = sint (word_of_int i :: 16 word)"

definition int32 :: "int \<Rightarrow> int" where
  "int32 i = sint (word_of_int i :: 32 word)"

text \<open>The bound variables the estimator reads, and its state; \<open>t_srtt_\<close> and \<open>t_rttvar_\<close> are fixed-point.\<close>

record rtt_cfg =
  tcp_tick :: real
  srtt_init :: int
  rttvar_init :: int
  rtxcur_init :: real
  T_SRTT_BITS :: nat
  T_RTTVAR_BITS :: nat
  rttvar_exp :: nat
  minrto :: real
  maxrto :: real
  rfc2988 :: bool
  ts_option :: bool

record rtt_est =
  t_rtt :: int
  t_srtt :: int
  t_rttvar :: int
  t_backoff :: int
  t_rtxcur :: real
  use_rtt :: bool

definition rtt_init :: "rtt_cfg \<Rightarrow> rtt_est \<Rightarrow> rtt_est" where
  "rtt_init c r =
     r\<lparr>t_rtt := 0, t_srtt := int32 (int32 (c_trunc (of_int (srtt_init c) / tcp_tick c)) * 2 ^ T_SRTT_BITS c),
       t_rttvar := int32 (int32 (c_trunc (of_int (rttvar_init c) / tcp_tick c)) * 2 ^ T_RTTVAR_BITS c),
       t_rtxcur := rtxcur_init c, t_backoff := 1\<rparr>"

definition rtt_timeout :: "rtt_cfg \<Rightarrow> rtt_est \<Rightarrow> (real \<times> rtt_est) res" where
  "rtt_timeout c r =
     (let t1 = (if rfc2988 c then
                  (if t_rtxcur r < minrto c \<and> \<not> use_rtt r then minrto c * of_int (t_backoff r)
                   else t_rtxcur r * of_int (t_backoff r))
                else
                  (let t = t_rtxcur r * of_int (t_backoff r) in if t < minrto c then minrto c else t));
          t2 = (if t1 > maxrto c then maxrto c else t1)
      in if t2 < 2 * tcp_tick c then
           (if t2 < 0 then Inl Exited
            else Inr (if use_rtt r \<and> t2 < tcp_tick c then tcp_tick c else 2 * tcp_tick c, r\<lparr>use_rtt := False\<rparr>))
         else Inr (t2, r\<lparr>use_rtt := False\<rparr>))"

definition rtt_ticks :: "rtt_cfg \<Rightarrow> time \<Rightarrow> real \<Rightarrow> real \<Rightarrow> int" where
  "rtt_ticks c now boot_time tao =
     (if ts_option c then c_trunc (tao / tcp_tick c + 1 / 2)
      else c_trunc ((tao + fmod (now - tao + boot_time) (tcp_tick c)) / tcp_tick c))"

definition rtt_measure :: "rtt_cfg \<Rightarrow> time \<Rightarrow> real \<Rightarrow> real \<Rightarrow> int" where
  "rtt_measure c now boot_time tao = max 1 (int32 (rtt_ticks c now boot_time tao))"

text \<open>\<open>delta\<close> is a \<open>short\<close>; \<open>>>\<close> rounds down.\<close>

definition rtt_smooth :: "rtt_cfg \<Rightarrow> int \<Rightarrow> rtt_est \<Rightarrow> rtt_est" where
  "rtt_smooth c m r =
     (if t_srtt r \<noteq> 0 then
        let delta = short (m - t_srtt r div 2 ^ T_SRTT_BITS c);
            s = int32 (t_srtt r + delta);
            delta1 = (if delta < 0 then short (- delta) else delta);
            delta2 = short (delta1 - t_rttvar r div 2 ^ T_RTTVAR_BITS c);
            v = int32 (t_rttvar r + delta2)
        in r\<lparr>t_rtt := m, t_srtt := (if s \<le> 0 then 1 else s), t_rttvar := (if v \<le> 0 then 1 else v)\<rparr>
      else r\<lparr>t_rtt := m, t_srtt := int32 (m * 2 ^ T_SRTT_BITS c), t_rttvar := int32 (m * 2 ^ (T_RTTVAR_BITS c - 1))\<rparr>)"

definition rtt_update :: "rtt_cfg \<Rightarrow> time \<Rightarrow> real \<Rightarrow> real \<Rightarrow> rtt_est \<Rightarrow> rtt_est" where
  "rtt_update c now boot_time tao r =
     (let r1 = rtt_smooth c (rtt_measure c now boot_time tao) r
      in r1\<lparr>t_rtxcur :=
           of_int (int32 (t_rttvar r1 * 2 ^ (rttvar_exp c + (T_SRTT_BITS c - T_RTTVAR_BITS c)) + t_srtt r1) div 2 ^ T_SRTT_BITS c)
           * tcp_tick c\<rparr>)"

definition rtt_backoff :: "rtt_cfg \<Rightarrow> rtt_est \<Rightarrow> rtt_est" where
  "rtt_backoff c r =
     (let r1 = (if t_backoff r < 64 \<or> rfc2988 c then r\<lparr>t_backoff := int32 (t_backoff r * 2)\<rparr> else r)
      in if t_backoff r1 > 8 then r1\<lparr>t_rttvar := int32 (t_rttvar r1 + t_srtt r1 div 2 ^ T_SRTT_BITS c), t_srtt := 0\<rparr> else r1)"

section \<open>Bounds\<close>

lemma short_id: "- (2 ^ 15) \<le> i \<Longrightarrow> i < 2 ^ 15 \<Longrightarrow> short i = i"
  by (simp add: short_def sint_sbintrunc' signed_take_bit_int_eq_self_iff)

lemma int32_id: "- (2 ^ 31) \<le> i \<Longrightarrow> i < 2 ^ 31 \<Longrightarrow> int32 i = i"
  by (simp add: int32_def sint_sbintrunc' signed_take_bit_int_eq_self_iff)

text \<open>A configuration that makes sense: a clock that ticks, limits in order, enough bits.\<close>

definition rtt_cfg_ok :: "rtt_cfg \<Rightarrow> bool" where
  "rtt_cfg_ok c \<longleftrightarrow> 0 < tcp_tick c \<and> 0 \<le> srtt_init c \<and> 0 \<le> rttvar_init c \<and> 0 \<le> rtxcur_init c \<and> 0 \<le> minrto c
     \<and> 2 * tcp_tick c \<le> maxrto c \<and> T_RTTVAR_BITS c \<le> T_SRTT_BITS c \<and> 0 < T_RTTVAR_BITS c \<and> T_RTTVAR_BITS c \<le> rttvar_exp c"

text \<open>A timeout that has not overflowed.\<close>

definition rtt_ok :: "rtt_cfg \<Rightarrow> rtt_est \<Rightarrow> bool" where
  "rtt_ok c r \<longleftrightarrow> 0 \<le> t_rtxcur r \<and> 1 \<le> t_backoff r"

lemma rtt_okD:
  assumes "rtt_ok c r"
  shows "0 \<le> t_rtxcur r" "1 \<le> t_backoff r"
  using assms by (simp_all add: rtt_ok_def)

lemma rtt_init_ok: "rtt_cfg_ok c \<Longrightarrow> rtt_ok c (rtt_init c r)"
  by (simp add: rtt_ok_def rtt_init_def rtt_cfg_ok_def)

text \<open>
  Round trips of at most \<open>hi\<close> ticks for which the integers have room, and averages within them. After
  a backoff that gives the average up, the deviation holds it too.
\<close>

definition rtt_room :: "rtt_cfg \<Rightarrow> int \<Rightarrow> bool" where
  "rtt_room c hi \<longleftrightarrow> 1 \<le> hi \<and> hi < 2 ^ 15 \<and> hi * 2 ^ (rttvar_exp c + T_SRTT_BITS c) + hi * 2 ^ T_SRTT_BITS c < 2 ^ 31
     \<and> c_trunc (of_int (srtt_init c) / tcp_tick c) \<le> hi \<and> c_trunc (of_int (rttvar_init c) / tcp_tick c) \<le> hi"

definition rtt_fits :: "rtt_cfg \<Rightarrow> int \<Rightarrow> rtt_est \<Rightarrow> bool" where
  "rtt_fits c hi r \<longleftrightarrow> 0 \<le> t_srtt r \<and> t_srtt r \<le> hi * 2 ^ T_SRTT_BITS c \<and> 0 \<le> t_rttvar r
     \<and> t_rttvar r \<le> hi * 2 ^ T_RTTVAR_BITS c + (if t_srtt r = 0 then hi else 0)"

definition short_trip :: "rtt_cfg \<Rightarrow> int \<Rightarrow> time \<Rightarrow> real \<Rightarrow> real \<Rightarrow> bool" where
  "short_trip c hi now boot_time tao \<longleftrightarrow> \<bar>rtt_ticks c now boot_time tao\<bar> \<le> hi"

lemma rtt_timeout_ok:
  assumes "rtt_cfg_ok c" and "rtt_ok c r"
  shows "\<exists>t r'. rtt_timeout c r = Inr (t, r') \<and> rtt_ok c r' \<and> r' = r\<lparr>use_rtt := False\<rparr> \<and> tcp_tick c \<le> t \<and> t \<le> maxrto c
    \<and> (use_rtt r \<or> 2 * tcp_tick c \<le> t)"
proof -
  note cd = assms(1) [unfolded rtt_cfg_ok_def] and rd = rtt_okD [OF assms(2)]
  define t1 where "t1 = (if rfc2988 c then
                  (if t_rtxcur r < minrto c \<and> \<not> use_rtt r then minrto c * of_int (t_backoff r)
                   else t_rtxcur r * of_int (t_backoff r))
                else
                  (let t = t_rtxcur r * of_int (t_backoff r) in if t < minrto c then minrto c else t))"
  define t2 where "t2 = (if t1 > maxrto c then maxrto c else t1)"
  have "0 \<le> t1" using cd rd by (simp add: t1_def Let_def)
  then have t2: "0 \<le> t2" "t2 \<le> maxrto c" using cd by (auto simp: t2_def)
  have e: "rtt_timeout c r = (if t2 < 2 * tcp_tick c then
           (if t2 < 0 then Inl Exited
            else Inr (if use_rtt r \<and> t2 < tcp_tick c then tcp_tick c else 2 * tcp_tick c, r\<lparr>use_rtt := False\<rparr>))
         else Inr (t2, r\<lparr>use_rtt := False\<rparr>))"
    by (simp only: rtt_timeout_def Let_def t1_def t2_def)
  have ok: "rtt_ok c (r\<lparr>use_rtt := False\<rparr>)" using assms(2) by (simp add: rtt_ok_def)
  show ?thesis
  proof (cases "t2 < 2 * tcp_tick c")
    case True
    with e t2(1) have "rtt_timeout c r = Inr (if use_rtt r \<and> t2 < tcp_tick c then tcp_tick c else 2 * tcp_tick c, r\<lparr>use_rtt := False\<rparr>)" by simp
    with ok cd show ?thesis by auto
  next
    case False
    with e have "rtt_timeout c r = Inr (t2, r\<lparr>use_rtt := False\<rparr>)" by simp
    with ok cd False t2(2) show ?thesis by auto
  qed
qed

lemma rtt_measure_pos: "1 \<le> rtt_measure c now b tao"
  by (simp add: rtt_measure_def)

lemma sub_div_mono:
  assumes "(a :: int) \<le> b" and "1 \<le> n"
  shows "a - a div n \<le> b - b div n"
proof -
  have "(b - a) * 1 \<le> (b - a) * n" by (rule mult_left_mono) (use assms in auto)
  then have "b \<le> a + (b - a) * n" by simp
  then have "b div n \<le> (a + (b - a) * n) div n" by (rule zdiv_mono1) (use assms(2) in simp)
  also have "\<dots> = a div n + (b - a)" using assms(2) by simp
  finally show ?thesis by simp
qed

text \<open>One step of the average stays between the measurement and the old value.\<close>

lemma srtt_between:
  assumes "lo * 2 ^ k \<le> s" "s \<le> hi * 2 ^ k" "lo \<le> m" "m \<le> hi"
  shows "lo * 2 ^ k \<le> s + (m - s div 2 ^ k)" "s + (m - s div 2 ^ k) \<le> (hi :: int) * 2 ^ k"
proof -
  have one: "(1 :: int) \<le> 2 ^ k" by simp
  from sub_div_mono [OF assms(1) one] assms(3) show "lo * 2 ^ k \<le> s + (m - s div 2 ^ k)" by simp
  from sub_div_mono [OF assms(2) one] assms(4) show "s + (m - s div 2 ^ k) \<le> hi * 2 ^ k" by simp
qed

lemma rtt_roomD:
  assumes "rtt_cfg_ok c" and "rtt_room c hi"
  shows "hi * 2 ^ T_SRTT_BITS c < 2 ^ 31" "hi * 2 ^ T_RTTVAR_BITS c + hi < 2 ^ 31"
    "hi * 2 ^ (rttvar_exp c + T_SRTT_BITS c) + hi * 2 ^ T_SRTT_BITS c < 2 ^ 31"
    "1 \<le> hi * 2 ^ T_SRTT_BITS c" "1 \<le> hi * 2 ^ T_RTTVAR_BITS c" "1 \<le> hi" "hi < 2 ^ 15"
proof -
  show hi: "1 \<le> hi" "hi < 2 ^ 15" and r: "hi * 2 ^ (rttvar_exp c + T_SRTT_BITS c) + hi * 2 ^ T_SRTT_BITS c < 2 ^ 31"
    using assms(2) by (simp_all add: rtt_room_def)
  have "(2 :: int) ^ T_RTTVAR_BITS c \<le> 2 ^ (rttvar_exp c + T_SRTT_BITS c)"
    by (rule power_increasing) (use assms(1) in \<open>auto simp: rtt_cfg_ok_def\<close>)
  then have "hi * 2 ^ T_RTTVAR_BITS c \<le> hi * 2 ^ (rttvar_exp c + T_SRTT_BITS c)" by (rule mult_left_mono) (use hi in simp)
  moreover have one: "1 \<le> hi * 2 ^ n" and le: "hi \<le> hi * 2 ^ n" for n :: nat
  proof -
    have "hi * 1 \<le> hi * 2 ^ n" by (rule mult_left_mono) (use hi in simp_all)
    then show "hi \<le> hi * 2 ^ n" by simp
    with hi show "1 \<le> hi * 2 ^ n" by linarith
  qed
  moreover have "0 \<le> hi * 2 ^ (rttvar_exp c + T_SRTT_BITS c)" using one [of "rttvar_exp c + T_SRTT_BITS c"] by linarith
  ultimately show "hi * 2 ^ T_SRTT_BITS c < 2 ^ 31" "hi * 2 ^ T_RTTVAR_BITS c + hi < 2 ^ 31"
    using r le [of "T_SRTT_BITS c"] by linarith+
  show "1 \<le> hi * 2 ^ T_SRTT_BITS c" "1 \<le> hi * 2 ^ T_RTTVAR_BITS c" by (rule one)+
qed

lemma int32_nonneg: "0 \<le> i \<Longrightarrow> i < 2 ^ 31 \<Longrightarrow> int32 i = i"
  by (rule int32_id) simp_all

text \<open>A measurement of a short round trip keeps the averages within bounds.\<close>

lemma rtt_smooth_fits:
  assumes c: "rtt_cfg_ok c" "rtt_room c hi" and r: "rtt_fits c hi r" and m: "1 \<le> m" "m \<le> hi"
  shows "1 \<le> t_srtt (rtt_smooth c m r) \<and> t_srtt (rtt_smooth c m r) \<le> hi * 2 ^ T_SRTT_BITS c
    \<and> 1 \<le> t_rttvar (rtt_smooth c m r) \<and> t_rttvar (rtt_smooth c m r) \<le> hi * 2 ^ T_RTTVAR_BITS c
    \<and> t_backoff (rtt_smooth c m r) = t_backoff r \<and> t_rtt (rtt_smooth c m r) = m"
proof (cases "t_srtt r = 0")
  case True
  note room = rtt_roomD [OF c]
  have up: "m * 2 ^ k \<le> hi * 2 ^ k" "1 \<le> m * 2 ^ k" for k :: nat
  proof -
    show "m * 2 ^ k \<le> hi * 2 ^ k" by (rule mult_right_mono) (use m in simp_all)
    have "1 * 1 \<le> m * 2 ^ k" by (rule mult_mono) (use m in simp_all)
    then show "1 \<le> m * 2 ^ k" by simp
  qed
  have "(2 :: int) ^ (T_RTTVAR_BITS c - 1) \<le> 2 ^ T_RTTVAR_BITS c" by (rule power_increasing) simp_all
  then have v: "hi * 2 ^ (T_RTTVAR_BITS c - 1) \<le> hi * 2 ^ T_RTTVAR_BITS c" by (rule mult_left_mono) (use m in simp)
  have "int32 (m * 2 ^ T_SRTT_BITS c) = m * 2 ^ T_SRTT_BITS c"
    by (rule int32_nonneg) (use up [of "T_SRTT_BITS c"] room in linarith)+
  moreover have "int32 (m * 2 ^ (T_RTTVAR_BITS c - 1)) = m * 2 ^ (T_RTTVAR_BITS c - 1)"
    by (rule int32_nonneg) (use up [of "T_RTTVAR_BITS c - 1"] v room in linarith)+
  ultimately show ?thesis
    using True up [of "T_SRTT_BITS c"] up [of "T_RTTVAR_BITS c - 1"] v m order_trans [OF up(1) v]
    by (simp add: rtt_smooth_def)
next
  case False
  note room = rtt_roomD [OF c]
  have s: "0 * 2 ^ T_SRTT_BITS c \<le> t_srtt r" "t_srtt r \<le> hi * 2 ^ T_SRTT_BITS c"
    and v: "0 * 2 ^ T_RTTVAR_BITS c \<le> t_rttvar r" "t_rttvar r \<le> hi * 2 ^ T_RTTVAR_BITS c"
    using r False by (simp_all add: rtt_fits_def)
  define q where "q = t_srtt r div 2 ^ T_SRTT_BITS c"
  define p where "p = t_rttvar r div 2 ^ T_RTTVAR_BITS c"
  define d where "d = \<bar>m - q\<bar>"
  have q: "0 \<le> q" "q \<le> hi" using zdiv_mono1 [OF s(1), of "2 ^ T_SRTT_BITS c"] zdiv_mono1 [OF s(2), of "2 ^ T_SRTT_BITS c"]
    by (simp_all add: q_def)
  have p: "0 \<le> p" "p \<le> hi" using zdiv_mono1 [OF v(1), of "2 ^ T_RTTVAR_BITS c"] zdiv_mono1 [OF v(2), of "2 ^ T_RTTVAR_BITS c"]
    by (simp_all add: p_def)
  have d: "0 \<le> d" "d \<le> hi" using m q by (simp_all add: d_def)
  have sh: "short (m - q) = m - q" "short (- (m - q)) = - (m - q)" "short (d - p) = d - p"
    by (rule short_id; use m q p d room in linarith)+
  have m0: "0 \<le> m" using m by simp
  note bs = srtt_between [OF s m0 m(2), folded q_def] and bv = srtt_between [OF v d, folded p_def]
  have i: "int32 (t_srtt r + (m - q)) = t_srtt r + (m - q)" "int32 (t_rttvar r + (d - p)) = t_rttvar r + (d - p)"
    by (rule int32_nonneg; use bs bv room in linarith)+
  have dd: "(if m - q < 0 then short (- (m - q)) else m - q) = d" using sh(2) by (simp add: d_def)
  have "rtt_smooth c m r = r\<lparr>t_rtt := m, t_srtt := (if t_srtt r + (m - q) \<le> 0 then 1 else t_srtt r + (m - q)),
      t_rttvar := (if t_rttvar r + (d - p) \<le> 0 then 1 else t_rttvar r + (d - p))\<rparr>"
    using False by (simp only: rtt_smooth_def Let_def q_def [symmetric] p_def [symmetric] sh(1) dd sh(3) i) simp
  with bs bv room show ?thesis by simp
qed

lemma rtt_measure_trip:
  assumes "short_trip c hi now b tao" and "1 \<le> hi" and "hi < 2 ^ 15"
  shows "1 \<le> rtt_measure c now b tao" "rtt_measure c now b tao \<le> hi"
proof -
  have "int32 (rtt_ticks c now b tao) = rtt_ticks c now b tao"
    by (rule int32_id) (use assms in \<open>auto simp: short_trip_def\<close>)
  with assms show "1 \<le> rtt_measure c now b tao" "rtt_measure c now b tao \<le> hi"
    by (auto simp: rtt_measure_def short_trip_def)
qed

text \<open>The timeout computed is at least one tick, so it is never taken for zero.\<close>

lemma rtt_update_ok:
  assumes c: "rtt_cfg_ok c" "rtt_room c hi" and r: "rtt_fits c hi r" "1 \<le> t_backoff r" and t: "short_trip c hi now b tao"
  shows "rtt_ok c (rtt_update c now b tao r)" "rtt_fits c hi (rtt_update c now b tao r)"
    "t_backoff (rtt_update c now b tao r) = t_backoff r"
    "tcp_tick c \<le> t_rtxcur (rtt_update c now b tao r)" "1 \<le> t_rtt (rtt_update c now b tao r)"
proof -
  note cd = c(1) [unfolded rtt_cfg_ok_def] and room = rtt_roomD [OF c]
  let ?r = "rtt_smooth c (rtt_measure c now b tao) r"
  note m = rtt_measure_trip [OF t room(6,7)]
  note sm = rtt_smooth_fits [OF c r(1) m]
  let ?e = "rttvar_exp c + (T_SRTT_BITS c - T_RTTVAR_BITS c)"
  let ?x = "t_rttvar ?r * 2 ^ ?e + t_srtt ?r"
  have "T_SRTT_BITS c \<le> ?e" using cd by linarith
  then have "(2 :: int) ^ T_SRTT_BITS c \<le> 2 ^ ?e" by (intro power_increasing) auto
  also have "\<dots> = 1 * 2 ^ ?e" by simp
  also have "\<dots> \<le> t_rttvar ?r * 2 ^ ?e" by (rule mult_right_mono) (use sm in auto)
  also have "\<dots> \<le> ?x" using sm by simp
  finally have x: "2 ^ T_SRTT_BITS c \<le> ?x" .
  have "t_rttvar ?r * 2 ^ ?e \<le> (hi * 2 ^ T_RTTVAR_BITS c) * 2 ^ ?e" by (rule mult_right_mono) (use sm in auto)
  also have "\<dots> = hi * 2 ^ (rttvar_exp c + T_SRTT_BITS c)"
    using cd by (simp add: mult.assoc power_add [symmetric] add.commute add.left_commute)
  finally have "?x \<le> hi * 2 ^ (rttvar_exp c + T_SRTT_BITS c) + hi * 2 ^ T_SRTT_BITS c" using sm by linarith
  then have "?x < 2 ^ 31" using room(3) by linarith
  moreover have "0 \<le> ?x" using x by (rule order_trans [rotated]) simp
  ultimately have i: "int32 ?x = ?x" by (intro int32_nonneg)
  have q: "1 \<le> ?x div 2 ^ T_SRTT_BITS c" using x by (simp add: pos_imp_zdiv_pos_iff int_one_le_iff_zero_less)
  have q': "(1 :: real) \<le> of_int (?x div 2 ^ T_SRTT_BITS c)" by (subst of_int_1_le_iff) (rule q)
  have tk: "tcp_tick c \<le> t_rtxcur (rtt_update c now b tao r)"
  proof -
    have "1 * tcp_tick c \<le> of_int (?x div 2 ^ T_SRTT_BITS c) * tcp_tick c"
      by (rule mult_right_mono) (use q' cd in simp_all)
    then show ?thesis by (simp add: rtt_update_def Let_def i)
  qed
  then show "tcp_tick c \<le> t_rtxcur (rtt_update c now b tao r)" .
  show b: "t_backoff (rtt_update c now b tao r) = t_backoff r" "1 \<le> t_rtt (rtt_update c now b tao r)"
    using sm m by (simp_all add: rtt_update_def Let_def)
  show "rtt_ok c (rtt_update c now b tao r)" using tk cd b r(2) by (simp add: rtt_ok_def)
  show "rtt_fits c hi (rtt_update c now b tao r)" using sm by (simp add: rtt_fits_def rtt_update_def Let_def)
qed

text \<open>A backoff.\<close>

lemma rtt_backoff_fits:
  assumes c: "rtt_cfg_ok c" "rtt_room c hi" and r: "rtt_fits c hi r"
  shows "rtt_fits c hi (rtt_backoff c r)"
proof -
  note room = rtt_roomD [OF c]
  define q where "q = t_srtt r div 2 ^ T_SRTT_BITS c"
  have s: "0 \<le> t_srtt r" "t_srtt r \<le> hi * 2 ^ T_SRTT_BITS c" "0 \<le> t_rttvar r"
    "t_rttvar r \<le> hi * 2 ^ T_RTTVAR_BITS c + (if t_srtt r = 0 then hi else 0)"
    using r by (simp_all add: rtt_fits_def)
  have q: "0 \<le> q" "q \<le> hi" using s(1) zdiv_mono1 [OF s(2), of "2 ^ T_SRTT_BITS c"]
    by (simp_all add: q_def pos_imp_zdiv_nonneg_iff)
  have "t_srtt r = 0 \<Longrightarrow> q = 0" by (simp add: q_def)
  then have v: "t_rttvar r + q \<le> hi * 2 ^ T_RTTVAR_BITS c + hi" using s(4) q(2) by (auto split: if_splits)
  have i: "int32 (t_rttvar r + q) = t_rttvar r + q" by (rule int32_nonneg) (use s q v room in linarith)+
  have "rtt_fits c hi (r1\<lparr>t_rttvar := int32 (t_rttvar r1 + t_srtt r1 div 2 ^ T_SRTT_BITS c), t_srtt := 0\<rparr>)"
    if "t_srtt r1 = t_srtt r" "t_rttvar r1 = t_rttvar r" for r1
    using that i v s q room by (simp add: rtt_fits_def flip: q_def)
  moreover have "rtt_fits c hi (r\<lparr>t_backoff := x\<rparr>)" for x using r by (simp add: rtt_fits_def)
  ultimately show ?thesis using r by (simp add: rtt_backoff_def Let_def)
qed

lemma rtt_fits_frame [simp]:
  "rtt_fits c hi (r\<lparr>t_backoff := x\<rparr>) = rtt_fits c hi r" "rtt_fits c hi (r\<lparr>use_rtt := y\<rparr>) = rtt_fits c hi r"
  by (simp_all add: rtt_fits_def)

lemma rtt_init_fits:
  assumes "rtt_cfg_ok c" and "rtt_room c hi"
  shows "rtt_fits c hi (rtt_init c r)"
proof -
  note room = rtt_roomD [OF assms]
  have d: "0 \<le> i \<Longrightarrow> i \<le> hi \<Longrightarrow> hi * 2 ^ n < 2 ^ 31 \<Longrightarrow> int32 (int32 i * 2 ^ n) = i * 2 ^ n \<and> i * 2 ^ n \<le> hi * 2 ^ n" for i n
  proof -
    assume i: "0 \<le> i" "i \<le> hi" and n: "hi * 2 ^ n < 2 ^ 31"
    have le: "i * 2 ^ n \<le> hi * 2 ^ n" by (rule mult_right_mono) (use i in simp_all)
    have "int32 i = i" by (rule int32_nonneg) (use i room in linarith)+
    moreover have "i * 2 ^ n < 2 ^ 31" using le n by linarith
    then have "int32 (i * 2 ^ n) = i * 2 ^ n" by (rule int32_nonneg [rotated]) (use i in simp)
    ultimately show "int32 (int32 i * 2 ^ n) = i * 2 ^ n \<and> i * 2 ^ n \<le> hi * 2 ^ n" using le by simp
  qed
  have pos: "0 \<le> c_trunc (of_int (srtt_init c) / tcp_tick c)" "0 \<le> c_trunc (of_int (rttvar_init c) / tcp_tick c)"
    using assms(1) by (simp_all add: rtt_cfg_ok_def trunc_nonneg)
  from assms(2) have le: "c_trunc (of_int (srtt_init c) / tcp_tick c) \<le> hi" "c_trunc (of_int (rttvar_init c) / tcp_tick c) \<le> hi"
    by (simp_all add: rtt_room_def)
  have "hi * 2 ^ T_RTTVAR_BITS c < 2 ^ 31" using room by linarith
  note s = d [OF pos(1) le(1) room(1)] and v = d [OF pos(2) le(2) this]
  from v room(6) have "c_trunc (of_int (rttvar_init c) / tcp_tick c) * 2 ^ T_RTTVAR_BITS c \<le> hi * 2 ^ T_RTTVAR_BITS c + hi" by linarith
  with s v pos room(6) show ?thesis by (simp add: rtt_fits_def rtt_init_def)
qed

section \<open>Runs\<close>

text \<open>A round trip measured, a timeout, an ACK that ends the back-off.\<close>

datatype rtt_event = Sample time real real | Backoff | Fresh

definition rtt_do :: "rtt_cfg \<Rightarrow> rtt_event \<Rightarrow> rtt_est \<Rightarrow> rtt_est" where
  "rtt_do c e r =
     (case e of Sample now b tao \<Rightarrow> rtt_update c now b tao r | Backoff \<Rightarrow> rtt_backoff c r | Fresh \<Rightarrow> r\<lparr>t_backoff := 1\<rparr>)"

definition rtt_run :: "rtt_cfg \<Rightarrow> rtt_event list \<Rightarrow> rtt_est \<Rightarrow> rtt_est" where
  "rtt_run c es r = fold (rtt_do c) es r"

text \<open>At most 30 timeouts without an ACK that ends the back-off.\<close>

fun streak_ok :: "nat \<Rightarrow> rtt_event list \<Rightarrow> bool" where
  "streak_ok n [] \<longleftrightarrow> n \<le> 30"
| "streak_ok n (Sample t b tao # es) \<longleftrightarrow> streak_ok n es"
| "streak_ok n (Backoff # es) \<longleftrightarrow> n < 30 \<and> streak_ok (Suc n) es"
| "streak_ok n (Fresh # es) \<longleftrightarrow> streak_ok 0 es"

definition backoff_of :: "rtt_cfg \<Rightarrow> nat \<Rightarrow> int" where
  "backoff_of c n = 2 ^ (if rfc2988 c then n else min n 6)"

lemma two_power_less: "n \<le> 30 \<Longrightarrow> (2 :: int) ^ n < 2 ^ 31"
  by (rule power_strict_increasing) auto

lemma int32_double:
  assumes "k < 30"
  shows "int32 (2 * 2 ^ k) = 2 ^ Suc k"
proof -
  have "- (2 ^ 31) \<le> (2 ^ Suc k :: int)" by (rule order_trans [of _ 0]) simp_all
  with int32_id [OF this] two_power_less [of "Suc k"] assms show ?thesis by simp
qed

lemma rtt_backoff_ok:
  assumes "rtt_ok c r" and "t_backoff r = backoff_of c n" and "n < 30"
  shows "rtt_ok c (rtt_backoff c r)" "t_backoff (rtt_backoff c r) = backoff_of c (Suc n)"
proof -
  have lt: "(2 :: int) ^ k < 64 \<longleftrightarrow> k < 6" for k
    using power_strict_increasing_iff [of "2 :: int" k 6] by simp
  show bo: "t_backoff (rtt_backoff c r) = backoff_of c (Suc n)"
  proof (cases "rfc2988 c")
    case True
    with assms(2) int32_double [OF assms(3)] show ?thesis by (simp add: rtt_backoff_def backoff_of_def Let_def mult.commute)
  next
    case False
    show ?thesis
    proof (cases "n < 6")
      case True
      with False assms(2) int32_double [OF assms(3)] lt [of n] show ?thesis by (simp add: rtt_backoff_def backoff_of_def Let_def mult.commute min_def)
    next
      case six: False
      with False assms(2) show ?thesis by (simp add: rtt_backoff_def backoff_of_def Let_def min_def)
    qed
  qed
  have "1 \<le> backoff_of c (Suc n)" by (simp add: backoff_of_def)
  then show "rtt_ok c (rtt_backoff c r)" using bo rtt_okD [OF assms(1)] by (auto simp: rtt_ok_def rtt_backoff_def Let_def)
qed

definition sample_ok :: "rtt_cfg \<Rightarrow> int \<Rightarrow> rtt_event \<Rightarrow> bool" where
  "sample_ok c hi e = (case e of Sample now b tao \<Rightarrow> short_trip c hi now b tao | _ \<Rightarrow> True)"

lemma rtt_run_ok:
  assumes c: "rtt_cfg_ok c" "rtt_room c hi"
  shows "rtt_fits c hi r \<Longrightarrow> rtt_ok c r \<Longrightarrow> t_backoff r = backoff_of c n \<Longrightarrow> streak_ok n es \<Longrightarrow> \<forall>e \<in> set es. sample_ok c hi e
    \<Longrightarrow> rtt_ok c (rtt_run c es r)"
proof (induction n es arbitrary: r rule: streak_ok.induct)
  case (2 n t b tao es)
  have "1 \<le> t_backoff r" "short_trip c hi t b tao" using 2(3,6) rtt_okD by (auto simp: sample_ok_def)
  note u = rtt_update_ok [OF c 2(2) this]
  with 2 show ?case by (simp add: rtt_run_def rtt_do_def)
next
  case (3 n es)
  with rtt_backoff_ok [OF 3(3,4)] rtt_backoff_fits [OF c 3(2)] show ?case by (simp add: rtt_run_def rtt_do_def)
next
  case (4 n es)
  have "rtt_ok c (r\<lparr>t_backoff := 1\<rparr>)" using 4(3) by (simp add: rtt_ok_def)
  with 4 show ?case by (simp add: rtt_run_def rtt_do_def backoff_of_def)
qed (simp add: rtt_run_def)

definition in_range :: "rtt_cfg \<Rightarrow> int \<Rightarrow> int \<Rightarrow> rtt_event \<Rightarrow> bool" where
  "in_range c lo hi e = (case e of Sample now b tao \<Rightarrow> lo \<le> rtt_measure c now b tao \<and> rtt_measure c now b tao \<le> hi | _ \<Rightarrow> True)"

lemma rtt_do_between:
  assumes "t_srtt r = 0 \<or> (lo * 2 ^ T_SRTT_BITS c \<le> t_srtt r \<and> t_srtt r \<le> hi * 2 ^ T_SRTT_BITS c)"
    and "in_range c lo hi e" and "1 \<le> lo" and "hi < 2 ^ 15" and "hi * 2 ^ T_SRTT_BITS c < 2 ^ 31"
  shows "t_srtt (rtt_do c e r) = 0 \<or> (lo * 2 ^ T_SRTT_BITS c \<le> t_srtt (rtt_do c e r) \<and> t_srtt (rtt_do c e r) \<le> hi * 2 ^ T_SRTT_BITS c)"
proof (cases e)
  case (Sample now b tao)
  define m where "m = rtt_measure c now b tao"
  have m: "lo \<le> m" "m \<le> hi" using assms(2) Sample by (simp_all add: in_range_def m_def)
  have p: "0 < (2 :: int) ^ T_SRTT_BITS c" by simp
  show ?thesis
  proof (cases "t_srtt r = 0")
    case True
    have "m * 2 ^ T_SRTT_BITS c \<le> hi * 2 ^ T_SRTT_BITS c" by (rule mult_right_mono) (use m in simp_all)
    with assms(5) have "m * 2 ^ T_SRTT_BITS c < 2 ^ 31" by linarith
    moreover have "0 \<le> m * 2 ^ T_SRTT_BITS c" using m assms(3) by simp
    ultimately have "int32 (m * 2 ^ T_SRTT_BITS c) = m * 2 ^ T_SRTT_BITS c" by (intro int32_nonneg)
    with True m Sample show ?thesis by (simp add: rtt_do_def rtt_update_def rtt_smooth_def Let_def flip: m_def)
  next
    case False
    with assms(1) have s: "lo * 2 ^ T_SRTT_BITS c \<le> t_srtt r" "t_srtt r \<le> hi * 2 ^ T_SRTT_BITS c" by auto
    define q where "q = t_srtt r div 2 ^ T_SRTT_BITS c"
    have q: "lo \<le> q" "q \<le> hi"
      using zdiv_mono1 [OF s(1) p] zdiv_mono1 [OF s(2) p] by (simp_all add: q_def)
    have sh: "short (m - q) = m - q" by (rule short_id) (use m q assms(3,4) in auto)
    note bt = srtt_between [OF s m]
    have pos: "0 < lo * 2 ^ T_SRTT_BITS c" using assms(3) by simp
    have "int32 (t_srtt r + (m - q)) = t_srtt r + (m - q)"
      by (rule int32_nonneg) (use pos bt assms(5) in \<open>simp_all add: q_def\<close>)
    with pos bt have "t_srtt (rtt_do c e r) = t_srtt r + (m - q)"
      using False sh Sample by (simp add: rtt_do_def rtt_update_def rtt_smooth_def Let_def flip: m_def q_def)
    with bt show ?thesis by (simp add: q_def)
  qed
qed (use assms(1) in \<open>auto simp: rtt_do_def rtt_backoff_def Let_def\<close>)

section \<open>Properties\<close>

text \<open>The defaults of \<open>tcl/lib/ns-default.tcl\<close>.\<close>

definition default_rtt :: rtt_cfg where
  "default_rtt =
     \<lparr>tcp_tick = 1 / 100, srtt_init = 0, rttvar_init = 12, rtxcur_init = 3, T_SRTT_BITS = 3, T_RTTVAR_BITS = 2, rttvar_exp = 2,
      minrto = 1 / 5, maxrto = 60, rfc2988 = True, ts_option = False\<rparr>"

lemma default_rtt_ok: "rtt_cfg_ok default_rtt"
  by (simp add: rtt_cfg_ok_def default_rtt_def)

text \<open>
  C25: Whatever round trips are measured, as long as none is longer than \<open>hi\<close> ticks, for which the
  32-bit averages have room, and there are no more than 30 timeouts in a row, the retransmission timeout
  does not overflow: its computation does not abort, it is at most \<open>maxrto_\<close> and at least two ticks, or
  one tick when \<open>use_rtt_\<close> is set.
\<close>

theorem rto_bounds:
  assumes "rtt_cfg_ok c" and "rtt_room c hi" and "\<forall>e \<in> set es. sample_ok c hi e" and "streak_ok 0 es"
  shows "\<exists>t r'. rtt_timeout c (rtt_run c es (rtt_init c r)) = Inr (t, r') \<and> tcp_tick c \<le> t \<and> t \<le> maxrto c
    \<and> (use_rtt (rtt_run c es (rtt_init c r)) \<or> 2 * tcp_tick c \<le> t)"
proof -
  have "t_backoff (rtt_init c r) = backoff_of c 0" by (simp add: rtt_init_def backoff_of_def)
  from rtt_timeout_ok [OF assms(1) rtt_run_ok [OF assms(1,2) rtt_init_fits [OF assms(1,2), of r] rtt_init_ok [OF assms(1)] this assms(4,3)]]
  show ?thesis by blast
qed

definition demo_est :: rtt_est where
  "demo_est = \<lparr>t_rtt = 0, t_srtt = 0, t_rttvar = 0, t_backoff = 1, t_rtxcur = 3, use_rtt = False\<rparr>"

text \<open>The default configuration has room for round trips of 32767 ticks, over five minutes.\<close>

lemma default_rtt_room: "rtt_room default_rtt 32767"
  by (simp add: rtt_room_def default_rtt_def c_trunc_def)

theorem rto_bounds_witness:
  "\<exists>t r'. rtt_timeout default_rtt (rtt_run default_rtt [Sample 1 0 (1 / 10), Backoff, Backoff] (rtt_init default_rtt demo_est)) = Inr (t, r')
    \<and> t \<le> 60"
proof -
  have "\<forall>e \<in> set [Sample 1 0 (1 / 10), Backoff, Backoff]. sample_ok default_rtt 32767 e"
    by (simp add: sample_ok_def short_trip_def rtt_ticks_def default_rtt_def fmod_def c_trunc_def)
  from rto_bounds [OF default_rtt_ok default_rtt_room this, of demo_est] show ?thesis by (auto simp: default_rtt_def)
qed

text \<open>
  The smoothed round trip time lies between the shortest and the longest measurement, for
  measurements of less than \<open>2 ^ 15\<close> ticks: neither the rounding of the fixed-point average nor the
  16-bit difference takes it out.
\<close>

theorem srtt_in_range:
  assumes "\<forall>e \<in> set es. in_range c lo hi e" and "1 \<le> lo" and "hi < 2 ^ 15" and "hi * 2 ^ T_SRTT_BITS c < 2 ^ 31" and "t_srtt r = 0"
  shows "t_srtt (rtt_run c es r) = 0 \<or>
    (lo * 2 ^ T_SRTT_BITS c \<le> t_srtt (rtt_run c es r) \<and> t_srtt (rtt_run c es r) \<le> hi * 2 ^ T_SRTT_BITS c)"
proof -
  have "t_srtt (fold (rtt_do c) es r) = 0 \<or>
    (lo * 2 ^ T_SRTT_BITS c \<le> t_srtt (fold (rtt_do c) es r) \<and> t_srtt (fold (rtt_do c) es r) \<le> hi * 2 ^ T_SRTT_BITS c)"
    if "t_srtt r = 0 \<or> (lo * 2 ^ T_SRTT_BITS c \<le> t_srtt r \<and> t_srtt r \<le> hi * 2 ^ T_SRTT_BITS c)" for r
    using assms(1) that
  proof (induction es arbitrary: r)
    case (Cons e es)
    have "in_range c lo hi e" using Cons.prems(1) by simp
    from Cons.IH [OF _ rtt_do_between [OF Cons.prems(2) this assms(2-4)]] Cons.prems(1) show ?case by simp
  qed simp
  with assms(5) show ?thesis by (simp add: rtt_run_def)
qed

theorem srtt_in_range_witness:
  "t_srtt (rtt_run default_rtt [Sample 1 0 (1 / 10), Sample 2 0 (1 / 5), Backoff, Sample 3 0 (1 / 4)] demo_est) \<in> {0} \<union> {10 * 8..25 * 8}"
proof -
  let ?es = "[Sample 1 0 (1 / 10), Sample 2 0 (1 / 5), Backoff, Sample 3 0 (1 / 4)]"
  have "\<forall>e \<in> set ?es. in_range default_rtt 10 25 e"
    by (simp add: in_range_def rtt_measure_def rtt_ticks_def default_rtt_def fmod_def c_trunc_def int32_def)
  from srtt_in_range [OF this] show ?thesis by (simp add: demo_est_def default_rtt_def)
qed

text \<open>
  With \<open>rfc2988_\<close>, which is the default, the multiplier doubles without limit: after 31 timeouts
  in a row it has overflowed to \<open>- 2 ^ 31\<close>, the timeout is negative and the simulator exits.
\<close>

theorem rto_overflow:
  assumes "rfc2988 c" and "t_backoff r = 1" and "0 < t_rtxcur r" and "0 < minrto c" and "0 < maxrto c" and "0 < tcp_tick c"
  shows "t_backoff ((rtt_backoff c ^^ 31) r) = - (2 ^ 31) \<and> rtt_timeout c ((rtt_backoff c ^^ 31) r) = Inl Exited"
proof -
  have pow: "t_backoff ((rtt_backoff c ^^ n) r) = 2 ^ n" if "n \<le> 30" for n
    using that
  proof (induction n)
    case (Suc n)
    have "int32 (2 * 2 ^ n) = 2 ^ Suc n" by (rule int32_double) (use Suc.prems in simp)
    with Suc assms(1) show ?case by (simp add: rtt_backoff_def Let_def mult.commute)
  qed (simp add: assms(2))
  have cur: "t_rtxcur ((rtt_backoff c ^^ n) r) = t_rtxcur r" for n by (induction n) (auto simp: rtt_backoff_def Let_def)
  let ?r = "(rtt_backoff c ^^ 31) r"
  have step: "?r = rtt_backoff c ((rtt_backoff c ^^ 30) r)" using funpow.simps(2) [of 30 "rtt_backoff c"] by simp
  have "int32 (2 ^ 30 * 2) = - (2 ^ 31)" by (simp add: int32_def)
  then have b: "t_backoff ?r = - (2 ^ 31)" unfolding step using pow [of 30] assms(1) by (simp add: rtt_backoff_def Let_def)
  have neg: "x * - (2 ^ 31) < (0 :: real)" if "0 < x" for x using that by simp
  have "rtt_timeout c ?r = Inl Exited"
    using neg [OF assms(3)] neg [OF assms(4)] assms b cur [of 31] by (simp add: rtt_timeout_def Let_def)
  with b show ?thesis by simp
qed

theorem rto_overflow_witness:
  "t_backoff ((rtt_backoff default_rtt ^^ 31) demo_est) = - (2 ^ 31)
    \<and> rtt_timeout default_rtt ((rtt_backoff default_rtt ^^ 31) demo_est) = Inl Exited"
  by (rule rto_overflow) (simp_all add: default_rtt_def demo_est_def)

end
