(* ===== verification/TcpSender.thy ===== *)
theory TcpSender
  imports TcpRtt TcpSink NsTimer
begin

text \<open>
  The one-way TCP senders \<open>TcpAgent\<close> (Tahoe) and \<open>RenoTcpAgent\<close>, \<open>tcp/tcp.cc\<close> and
  \<open>tcp/tcp-reno.cc\<close>: sending within the window, the congestion window, the response to ACKs,
  duplicates, congestion marks and timeouts. Quick-Start, \<open>QOption_\<close>, \<open>bugfix_ts_\<close> and the
  high-speed window option are off, as by default; counters kept only for monitoring are left out,
  and the fields \<open>reason_\<close> and \<open>last_rtt_\<close> of a segment, which no receiver here reads.
\<close>

section \<open>State\<close>

text \<open>
  The bound variables; \<open>reno\<close> says which of the two classes the agent is of. \<open>frto_enabled\<close> is
  \<open>frto_enabled_\<close> or \<open>sfrto_enabled_\<close>, which these classes do not tell apart.
\<close>

record tcp_cfg =
  rttc :: rtt_cfg
  reno :: bool
  wnd :: real
  wnd_const :: real
  wnd_th :: real
  wnd_option :: int
  decrease_num :: real
  increase_num :: real
  k_parameter :: real
  l_parameter :: real
  maxcwnd :: int
  max_ssthresh :: int
  numdupacks :: int
  overhead :: real
  maxburst :: int
  aggressive_maxburst :: bool
  singledup :: bool
  noFastRetrans :: bool
  exitFastRetrans :: bool
  bug_fix :: bool
  bugfix_ss :: bool
  ecn_on :: bool
  old_ecn :: bool
  SetCWRonRetransmit :: bool
  eln :: bool
  eln_rxmit_thresh :: int
  syn :: bool
  delay_growth :: bool
  max_connects :: int
  slow_start_restart :: bool
  restart_bugfix :: bool
  precision_reduce :: bool
  control_increase :: bool
  timerfix :: bool
  ts_resetRTO :: bool
  frto_enabled :: bool
  spurious_response :: int
  useHeaders :: bool
  tcpip_base_hdr_size :: int
  ts_option_size :: int
  seg_size :: int
  src_addr :: nsaddr
  src_port :: int
  sink_addr :: nsaddr
  sink_port :: int
  t_fid :: int
  t_defttl :: int

datatype cwnd_action = NO_ACTION | CWND_ACTION_DUPACK | CWND_ACTION_TIMEOUT | CWND_ACTION_ECN | CWND_ACTION_EXITED

datatype tcp_timer = TCP_TIMER_RTX | TCP_TIMER_DELSND | TCP_TIMER_BURSTSND

text \<open>
  Effects in program order: a segment sent, a timer set or cancelled, the application told that
  nothing is left to send or that the transfer is done. A delay is exact or uniform below a bound.
\<close>

datatype delay = Exactly real | Uniform real

datatype tcp_act = SendSeg tcp_packet | SetTimer tcp_timer delay | CancelTimer tcp_timer | AppIdle | AppDone

record tcp =
  rt :: rtt_est
  t_seqno :: int
  dupacks :: int
  curseq :: int
  highest_ack :: int
  maxseq :: int
  last_ack :: int
  recover :: int
  cwnd :: real
  ssthresh :: int
  last_cwnd_action :: cwnd_action
  count :: int
  fcnt :: real
  awnd :: real
  rtt_active :: bool
  rtt_seq :: int
  rtt_ts :: time
  firstsent :: time
  t_lastreset :: time
  boot_time :: time
  ts_peer :: time
  closed :: bool
  wnd_init :: real
  wnd_init_option :: int
  wnd_restart :: real
  syn_connects :: int
  first_decrease :: bool
  cong_action :: bool
  ect_peer :: bool
  ecn_backoff :: bool
  ecn_burst :: bool
  prev_highest_ack :: int
  frto :: int
  pipe_prev :: int
  eln_last_rxmit :: int
  dupwnd :: int
  rtx :: timer_status
  delsnd :: timer_status
  burstsnd :: timer_status
  t_uidcnt :: int
  t_acts :: "tcp_act list"

definition act_out :: "tcp_act \<Rightarrow> tcp \<Rightarrow> tcp" where
  "act_out a s = s\<lparr>t_acts := t_acts s @ [a]\<rparr>"

section \<open>Windows\<close>

definition force_wnd :: "int \<Rightarrow> tcp \<Rightarrow> int" where
  "force_wnd num s = recover s + num - highest_ack s"

definition tcp_window :: "tcp_cfg \<Rightarrow> tcp \<Rightarrow> int" where
  "tcp_window c s =
     (if reno c then
        let w = (if frto s = 2 then force_wnd 2 s else c_trunc (cwnd s) + dupwnd s)
        in if w > c_trunc (wnd c) then c_trunc (wnd c) else w
      else if frto s = 2 then (if of_int (force_wnd 2 s) < wnd c then force_wnd 2 s else c_trunc (wnd c))
      else (if cwnd s < wnd c then c_trunc (cwnd s) else c_trunc (wnd c)))"

definition windowd :: "tcp_cfg \<Rightarrow> tcp \<Rightarrow> real" where
  "windowd c s =
     (if reno c then (let w = cwnd s + of_int (dupwnd s) in if w > wnd c then wnd c else w)
      else (if cwnd s < wnd c then cwnd s else wnd c))"

definition initial_window :: "tcp_cfg \<Rightarrow> tcp \<Rightarrow> real res" where
  "initial_window c s =
     (if wnd_init_option s = 1 then Inr (wnd_init s)
      else if wnd_init_option s = 2 then Inr (if seg_size c \<le> 1095 then 4 else if seg_size c < 2190 then 3 else 2)
      else Inl Aborted)"

definition set_initial_window :: "tcp_cfg \<Rightarrow> tcp \<Rightarrow> tcp res" where
  "set_initial_window c s =
     (if syn c \<and> delay_growth c then Inr (s\<lparr>cwnd := 1, syn_connects := 0\<rparr>)
      else bindR (initial_window c s) (\<lambda>w. Inr (s\<lparr>cwnd := w\<rparr>)))"

definition network_limited :: "tcp_cfg \<Rightarrow> tcp \<Rightarrow> bool" where
  "network_limited c s \<longleftrightarrow> t_seqno s > prev_highest_ack s + tcp_window c s"

definition limited_slow_start :: "real \<Rightarrow> int \<Rightarrow> real \<Rightarrow> real" where
  "limited_slow_start w mx increment =
     (if mx \<le> 0 then increment
      else let round = c_trunc (w / (of_int mx / 2));
               increment1 = (if round > 0 then 1 / of_int round else 0)
           in if increment < increment1 then increment1 else increment)"

text \<open>The window grows by \<open>f\<close> over many ACKs: \<open>fcnt_\<close> keeps the rest.\<close>

definition slow_growth :: "real \<Rightarrow> tcp \<Rightarrow> tcp" where
  "slow_growth f s = (if f + fcnt s > cwnd s then s\<lparr>fcnt := 0, cwnd := cwnd s + 1\<rparr> else s\<lparr>fcnt := f + fcnt s\<rparr>)"

definition opencwnd :: "tcp_cfg \<Rightarrow> tcp \<Rightarrow> tcp res" where
  "opencwnd c s =
     bindR
       (if cwnd s < of_int (ssthresh s) then Inr (s\<lparr>cwnd := cwnd s + 1\<rparr>)
        else let rtt = of_int (t_srtt (rt s) div 2 ^ T_SRTT_BITS (rttc c)) * tcp_tick (rttc c) in
          if wnd_option c = 0 then
            (if of_int (count s + 1) \<ge> cwnd s then Inr (s\<lparr>count := 0, cwnd := cwnd s + 1\<rparr>) else Inr (s\<lparr>count := count s + 1\<rparr>))
          else if wnd_option c = 1 then
            (let inc = increase_num c / cwnd s
             in Inr (s\<lparr>cwnd := cwnd s +
                  (if (last_cwnd_action s = NO_ACTION \<or> last_cwnd_action s = CWND_ACTION_TIMEOUT) \<and> max_ssthresh c > 0
                   then limited_slow_start (cwnd s) (max_ssthresh c) inc else inc)\<rparr>))
          else if wnd_option c = 2 then Inr (slow_growth (rtt * rtt * wnd_const c) s)
          else if wnd_option c = 3 then Inr (slow_growth (awnd s * awnd s * wnd_const c) s)
          else if wnd_option c = 4 then Inr (slow_growth (awnd s * wnd_const c) s)
          else if wnd_option c = 5 then Inr (slow_growth (rtt * wnd_const c) s)
          else if wnd_option c = 6 then Inr (s\<lparr>cwnd := cwnd s + increase_num c / (cwnd s * cwnd s powr k_parameter c)\<rparr>)
          else Inl Aborted)
       (\<lambda>s. Inr (if maxcwnd c \<noteq> 0 \<and> c_trunc (cwnd s) > maxcwnd c then s\<lparr>cwnd := of_int (maxcwnd c)\<rparr> else s))"

text \<open>How \<open>slowdown\<close> shall reduce the window: the bits of its argument.\<close>

datatype close = CLOSE_SSTHRESH_HALF | CLOSE_CWND_HALF | CLOSE_CWND_RESTART | CLOSE_CWND_INIT | CLOSE_CWND_ONE
  | THREE_QUARTER_SSTHRESH | CWND_HALF_WITH_MIN | NO_OUTSTANDING_DATA

definition slowdown :: "tcp_cfg \<Rightarrow> close list \<Rightarrow> tcp \<Rightarrow> tcp" where
  "slowdown c how s =
     (let slowstart = (cwnd s < of_int (ssthresh s));
          halfwin = (if precision_reduce c then windowd c s / 2 else of_int (tcp_window c s sdiv 2));
          decreasewin =
            (if precision_reduce c then
               (if wnd_option c = 6 then windowd c s - (1 - decrease_num c) * windowd c s powr l_parameter c
                else decrease_num c * windowd c s)
             else of_int (c_trunc
               (if wnd_option c = 6 then of_int (tcp_window c s) - (1 - decrease_num c) * of_int (tcp_window c s) powr l_parameter c
                else decrease_num c * of_int (tcp_window c s))));
          ss = (if CLOSE_SSTHRESH_HALF \<in> set how then
                  (if first_decrease s \<or> slowstart \<or> last_cwnd_action s = CWND_ACTION_TIMEOUT then c_trunc halfwin
                   else c_trunc decreasewin)
                else if THREE_QUARTER_SSTHRESH \<in> set how \<and> of_int (ssthresh s) < 3 * cwnd s / 4 then c_trunc (3 * cwnd s / 4)
                else ssthresh s);
          cw = (if CLOSE_CWND_HALF \<in> set how then
                  (if first_decrease s \<or> slowstart \<or> decrease_num c = 1 / 2 then halfwin else decreasewin)
                else if CWND_HALF_WITH_MIN \<in> set how then (if decreasewin < 1 then 1 else decreasewin)
                else if CLOSE_CWND_RESTART \<in> set how then of_int (c_trunc (wnd_restart s))
                else if CLOSE_CWND_INIT \<in> set how then of_int (c_trunc (wnd_init s))
                else if CLOSE_CWND_ONE \<in> set how then 1
                else cwnd s)
      in s\<lparr>ssthresh := (if ss < 2 then 2 else ss), cwnd := cw,
           cong_action := (cong_action s \<or>
             (\<exists>x \<in> set how. x = CLOSE_CWND_HALF \<or> x = CLOSE_CWND_RESTART \<or> x = CLOSE_CWND_INIT \<or> x = CLOSE_CWND_ONE)),
           fcnt := 0, count := 0, first_decrease := False\<rparr>)"

section \<open>Timers\<close>

text \<open>
  A timer of the agent is its status; \<open>resched\<close> and \<open>force_cancel\<close> act on it as the automaton of
  \<open>NsTimer\<close> says.
\<close>

definition timer_of :: "tcp_timer \<Rightarrow> tcp \<Rightarrow> timer_status" where
  "timer_of t s = (case t of TCP_TIMER_RTX \<Rightarrow> rtx s | TCP_TIMER_DELSND \<Rightarrow> delsnd s | TCP_TIMER_BURSTSND \<Rightarrow> burstsnd s)"

definition put_timer :: "tcp_timer \<Rightarrow> timer_status \<Rightarrow> tcp \<Rightarrow> tcp" where
  "put_timer t x s =
     (case t of TCP_TIMER_RTX \<Rightarrow> s\<lparr>rtx := x\<rparr> | TCP_TIMER_DELSND \<Rightarrow> s\<lparr>delsnd := x\<rparr> | TCP_TIMER_BURSTSND \<Rightarrow> s\<lparr>burstsnd := x\<rparr>)"

definition resched :: "tcp_timer \<Rightarrow> delay \<Rightarrow> tcp \<Rightarrow> tcp" where
  "resched t d s = act_out (SetTimer t d) (put_timer t TIMER_PENDING s)"

definition force_cancel :: "tcp_timer \<Rightarrow> tcp \<Rightarrow> tcp" where
  "force_cancel t s = (if timer_of t s = TIMER_PENDING then act_out (CancelTimer t) (put_timer t TIMER_IDLE s) else s)"

definition cancel_timers :: "tcp \<Rightarrow> tcp" where
  "cancel_timers s = force_cancel TCP_TIMER_DELSND (force_cancel TCP_TIMER_BURSTSND (force_cancel TCP_TIMER_RTX s))"

definition set_rtx_timer :: "tcp_cfg \<Rightarrow> tcp \<Rightarrow> tcp res" where
  "set_rtx_timer c s =
     bindR (rtt_timeout (rttc c) (rt s)) (\<lambda>(d, r). Inr (resched TCP_TIMER_RTX (Exactly d) (s\<lparr>rt := r\<rparr>)))"

definition reset_rtx_timer :: "tcp_cfg \<Rightarrow> bool \<Rightarrow> bool \<Rightarrow> tcp \<Rightarrow> tcp res" where
  "reset_rtx_timer c mild backoff s =
     bindR (set_rtx_timer c (if backoff then s\<lparr>rt := rtt_backoff (rttc c) (rt s)\<rparr> else s)) (\<lambda>s1.
       let s2 = (if mild then s1 else s1\<lparr>t_seqno := highest_ack s1 + 1\<rparr>) in Inr (s2\<lparr>rtt_active := False\<rparr>))"

definition newtimer :: "tcp_cfg \<Rightarrow> int \<Rightarrow> tcp \<Rightarrow> tcp res" where
  "newtimer c ackno s =
     (if t_seqno s > ackno \<or> ackno < maxseq s \<or> cwnd s < 1 then set_rtx_timer c s
      else Inr (force_cancel TCP_TIMER_RTX s))"

section \<open>Sending\<close>

definition headersize :: "tcp_cfg \<Rightarrow> int" where
  "headersize c = tcpip_base_hdr_size c + (if ts_option (rttc c) then ts_option_size c else 0)"

definition tcp_allocpkt :: "tcp_cfg \<Rightarrow> time \<Rightarrow> tcp \<Rightarrow> tcp_packet \<times> tcp" where
  "tcp_allocpkt c now s =
     ((packet_alloc (t_uidcnt s) tcp_hdr_zero)
        \<lparr>ptype := PT_TCP, psize := seg_size c, tstamp := now, iface := UNKN_IFACE, direction := NONE,
         perror := 0, saddr := src_addr c, sport := src_port c, daddr := sink_addr c, dport := sink_port c,
         ttl := t_defttl c, body := tcp_hdr_zero\<lparr>flowid := t_fid c\<rparr>\<rparr>,
      s\<lparr>t_uidcnt := t_uidcnt s + 1\<rparr>)"

text \<open>A segment leaves: what is known of it, and the retransmission timer.\<close>

definition record_sent :: "time \<Rightarrow> int \<Rightarrow> tcp \<Rightarrow> tcp" where
  "record_sent now seqno s =
     (if seqno > maxseq s then
        let s1 = s\<lparr>maxseq := seqno\<rparr>
        in if rtt_active s1 then s1
           else if seqno > rtt_seq s1 then s1\<lparr>rtt_active := True, rtt_seq := seqno, rtt_ts := now\<rparr>
           else s1\<lparr>rtt_active := True\<rparr>
      else s)"

text \<open>The segment, and what making it changes: the congestion flag is used up, a SYN is counted.\<close>

definition out_packet :: "tcp_cfg \<Rightarrow> time \<Rightarrow> int \<Rightarrow> tcp \<Rightarrow> tcp_packet \<times> tcp" where
  "out_packet c now seqno s =
     (let (p0, s0) = tcp_allocpkt c now s;
          cwr = (cong_action s0 \<and> (\<not> seqno < maxseq s0 \<or> SetCWRonRetransmit c));
          h = (body p0)\<lparr>th_seqno := seqno, th_ts := now, th_ts_echo := ts_peer s0, f_ect := ecn_on c, f_cong_action := cwr\<rparr>;
          is_syn = (seqno = 0 \<and> syn c)
      in (p0\<lparr>psize := (if is_syn then tcpip_base_hdr_size c
                      else if seqno \<noteq> 0 \<and> useHeaders c then psize p0 + headersize c else psize p0),
             body := (if seqno = 0 \<and> ecn_on c then h\<lparr>f_ecnecho := True, f_ect := False\<rparr> else h)\<rparr>,
          s0\<lparr>cong_action := (cong_action s0 \<and> \<not> cwr), curseq := curseq s0 + (if is_syn then 1 else 0),
             syn_connects := syn_connects s0 + (if is_syn then 1 else 0)\<rparr>))"

definition tcp_output :: "tcp_cfg \<Rightarrow> time \<Rightarrow> int \<Rightarrow> tcp \<Rightarrow> tcp res" where
  "tcp_output c now seqno s =
     (let (p, s2) = out_packet c now seqno s
      in if seqno = 0 \<and> syn c \<and> max_connects c > 0 \<and> syn_connects s2 > max_connects c then
           Inr (resched TCP_TIMER_RTX (Exactly 10000) (s2\<lparr>curseq := 0\<rparr>))
         else
           let force_set_rtx_timer = (highest_ack s2 = maxseq s2);
               s3 = act_out (SendSeg p) s2;
               s4 = (if seqno = curseq s2 \<and> seqno > maxseq s2 then act_out AppIdle s3 else s3);
               s5 = record_sent now seqno s4
           in if rtx s5 \<noteq> TIMER_PENDING \<or> force_set_rtx_timer then set_rtx_timer c s5 else Inr s5)"

text \<open>What \<open>output\<close> leaves alone.\<close>

lemma set_rtx_timer_frame:
  assumes "set_rtx_timer c s = Inr s'"
  shows "\<exists>d r. rtt_timeout (rttc c) (rt s) = Inr (d, r) \<and> s' = resched TCP_TIMER_RTX (Exactly d) (s\<lparr>rt := r\<rparr>)"
  using assms by (auto simp: set_rtx_timer_def bindR_eq_Inr)

lemma resched_simps [simp]:
  "t_seqno (resched t d s) = t_seqno s" "highest_ack (resched t d s) = highest_ack s" "cwnd (resched t d s) = cwnd s"
  "frto (resched t d s) = frto s" "recover (resched t d s) = recover s" "dupwnd (resched t d s) = dupwnd s"
  "maxseq (resched t d s) = maxseq s" "curseq (resched t d s) = curseq s" "last_ack (resched t d s) = last_ack s"
  "ssthresh (resched t d s) = ssthresh s" "rt (resched t d s) = rt s" "dupacks (resched t d s) = dupacks s"
  "t_acts (resched t d s) = t_acts s @ [SetTimer t d]" "t_lastreset (resched t d s) = t_lastreset s"
  by (cases t; simp add: resched_def put_timer_def act_out_def)+

lemma act_out_simps [simp]:
  "t_seqno (act_out a s) = t_seqno s" "highest_ack (act_out a s) = highest_ack s" "cwnd (act_out a s) = cwnd s"
  "frto (act_out a s) = frto s" "recover (act_out a s) = recover s" "dupwnd (act_out a s) = dupwnd s"
  "maxseq (act_out a s) = maxseq s" "curseq (act_out a s) = curseq s" "last_ack (act_out a s) = last_ack s"
  "ssthresh (act_out a s) = ssthresh s" "rt (act_out a s) = rt s" "dupacks (act_out a s) = dupacks s"
  "t_acts (act_out a s) = t_acts s @ [a]" "t_lastreset (act_out a s) = t_lastreset s"
  by (simp_all add: act_out_def)

lemma record_sent_simps [simp]:
  "t_seqno (record_sent now n s) = t_seqno s" "highest_ack (record_sent now n s) = highest_ack s" "cwnd (record_sent now n s) = cwnd s"
  "frto (record_sent now n s) = frto s" "recover (record_sent now n s) = recover s" "dupwnd (record_sent now n s) = dupwnd s"
  "maxseq (record_sent now n s) = max (maxseq s) n" "curseq (record_sent now n s) = curseq s" "last_ack (record_sent now n s) = last_ack s"
  "ssthresh (record_sent now n s) = ssthresh s" "rt (record_sent now n s) = rt s" "dupacks (record_sent now n s) = dupacks s"
  "t_acts (record_sent now n s) = t_acts s" "rtx (record_sent now n s) = rtx s"
  "t_lastreset (record_sent now n s) = t_lastreset s"
  by (simp_all add: record_sent_def Let_def)

lemma out_packet_simps [simp]:
  "t_seqno (snd (out_packet c now n s)) = t_seqno s" "highest_ack (snd (out_packet c now n s)) = highest_ack s"
  "cwnd (snd (out_packet c now n s)) = cwnd s" "frto (snd (out_packet c now n s)) = frto s"
  "recover (snd (out_packet c now n s)) = recover s" "dupwnd (snd (out_packet c now n s)) = dupwnd s"
  "maxseq (snd (out_packet c now n s)) = maxseq s" "last_ack (snd (out_packet c now n s)) = last_ack s"
  "ssthresh (snd (out_packet c now n s)) = ssthresh s" "rt (snd (out_packet c now n s)) = rt s"
  "dupacks (snd (out_packet c now n s)) = dupacks s" "t_acts (snd (out_packet c now n s)) = t_acts s"
  "rtx (snd (out_packet c now n s)) = rtx s" "curseq (snd (out_packet c now n s)) = curseq s + (if n = 0 \<and> syn c then 1 else 0)"
  "th_seqno (body (fst (out_packet c now n s))) = n" "th_ts (body (fst (out_packet c now n s))) = now"
  by (simp_all add: out_packet_def tcp_allocpkt_def Let_def)

text \<open>The two ways out of \<open>output\<close>.\<close>

lemma tcp_output_cases:
  assumes "tcp_output c now n s = Inr s'"
  obtains (abort) s2 where "n = 0" "syn c" "max_connects c > 0" "s2 = snd (out_packet c now n s)" "s' = resched TCP_TIMER_RTX (Exactly 10000) (s2\<lparr>curseq := 0\<rparr>)"
  | (sent) p s2 s4 s5 where "(p, s2) = out_packet c now n s"
      "s4 = (if n = curseq s2 \<and> n > maxseq s2 then act_out AppIdle (act_out (SendSeg p) s2) else act_out (SendSeg p) s2)"
      "s5 = record_sent now n s4"
      "if rtx s5 \<noteq> TIMER_PENDING \<or> highest_ack s2 = maxseq s2 then set_rtx_timer c s5 = Inr s' else s' = s5"
proof (cases "n = 0 \<and> syn c \<and> max_connects c > 0 \<and> syn_connects (snd (out_packet c now n s)) > max_connects c")
  case True
  with assms show thesis by (intro abort) (auto simp: tcp_output_def split: prod.splits)
next
  case False
  obtain p s2 where p: "out_packet c now n s = (p, s2)" by fastforce
  define s4 where "s4 = (if n = curseq s2 \<and> n > maxseq s2 then act_out AppIdle (act_out (SendSeg p) s2) else act_out (SendSeg p) s2)"
  have "tcp_output c now n s = (if rtx (record_sent now n s4) \<noteq> TIMER_PENDING \<or> highest_ack s2 = maxseq s2
      then set_rtx_timer c (record_sent now n s4) else Inr (record_sent now n s4))"
    unfolding tcp_output_def p Let_def prod.case s4_def by (rule if_not_P) (use False p in simp)
  with assms have "if rtx (record_sent now n s4) \<noteq> TIMER_PENDING \<or> highest_ack s2 = maxseq s2
      then set_rtx_timer c (record_sent now n s4) = Inr s' else s' = record_sent now n s4"
    by (cases "rtx (record_sent now n s4) \<noteq> TIMER_PENDING \<or> highest_ack s2 = maxseq s2") auto
  with sent [OF p [symmetric] s4_def refl] show thesis by blast
qed

lemma tcp_output_frame:
  assumes "tcp_output c now n s = Inr s'"
  shows "t_seqno s' = t_seqno s" "highest_ack s' = highest_ack s" "cwnd s' = cwnd s" "frto s' = frto s" "recover s' = recover s"
    "dupwnd s' = dupwnd s" "tcp_window c s' = tcp_window c s" "last_ack s' = last_ack s" "ssthresh s' = ssthresh s" "dupacks s' = dupacks s"
proof -
  have 1: "t_seqno s' = t_seqno s \<and> highest_ack s' = highest_ack s \<and> cwnd s' = cwnd s \<and> frto s' = frto s \<and> recover s' = recover s
    \<and> dupwnd s' = dupwnd s \<and> last_ack s' = last_ack s \<and> ssthresh s' = ssthresh s \<and> dupacks s' = dupacks s"
    using assms
  proof (cases rule: tcp_output_cases)
    case (sent p s2 s4 s5)
    have s2: "s2 = snd (out_packet c now n s)" using sent(1) by (metis snd_conv)
    have s5: "t_seqno s5 = t_seqno s \<and> highest_ack s5 = highest_ack s \<and> cwnd s5 = cwnd s \<and> frto s5 = frto s \<and> recover s5 = recover s
      \<and> dupwnd s5 = dupwnd s \<and> last_ack s5 = last_ack s \<and> ssthresh s5 = ssthresh s \<and> dupacks s5 = dupacks s"
      unfolding sent(2,3) s2 by simp
    show ?thesis
    proof (cases "rtx s5 \<noteq> TIMER_PENDING \<or> highest_ack s2 = maxseq s2")
      case True
      with sent(4) have "set_rtx_timer c s5 = Inr s'" by (simp only: if_P)
      from set_rtx_timer_frame [OF this] s5 show ?thesis by auto
    next
      case False
      with sent(4) have "s' = s5" by (simp only: if_False)
      with s5 show ?thesis by simp
    qed
  qed simp
  then show "t_seqno s' = t_seqno s" "highest_ack s' = highest_ack s" "cwnd s' = cwnd s" "frto s' = frto s" "recover s' = recover s"
    "dupwnd s' = dupwnd s" "last_ack s' = last_ack s" "ssthresh s' = ssthresh s" "dupacks s' = dupacks s" by auto
  then show "tcp_window c s' = tcp_window c s" by (simp add: tcp_window_def force_wnd_def)
qed

text \<open>
  The loop of \<open>send_much\<close>; \<open>n\<close> segments have been sent. With \<open>overhead_\<close> the segment waits for the
  delayed-send timer; were it pending here, the code would go round for ever.
\<close>

function send_loop :: "tcp_cfg \<Rightarrow> time \<Rightarrow> bool \<Rightarrow> int \<Rightarrow> int \<Rightarrow> tcp \<Rightarrow> tcp res" where
  "send_loop c now force mb n s =
     (if t_seqno s \<le> highest_ack s + tcp_window c s \<and> t_seqno s < curseq s then
        if overhead c = 0 \<or> force then
          (case tcp_output c now (t_seqno s) s of
             Inl er \<Rightarrow> Inl er
           | Inr s1 \<Rightarrow>
               let s2 = s1\<lparr>t_seqno := t_seqno s1 + 1\<rparr>
               in if mb \<noteq> 0 \<and> n + 1 = mb then Inr s2 else send_loop c now force mb (n + 1) s2)
        else if delsnd s \<noteq> TIMER_PENDING then Inr (resched TCP_TIMER_DELSND (Uniform (overhead c)) s)
        else Inl Hangs
      else Inr s)"
  by pat_completeness auto
termination
proof (relation "measure (\<lambda>(c, now, force, mb, n, s). nat (highest_ack s + tcp_window c s + 1 - t_seqno s))", goal_cases)
  case (2 c now force mb n s s1 s2)
  have "tcp_window c s2 = tcp_window c s1" using 2(4) by (simp add: tcp_window_def force_wnd_def)
  with 2 tcp_output_frame [OF 2(3)] show ?case by simp
qed simp

declare send_loop.simps [simp del]

definition send_much :: "tcp_cfg \<Rightarrow> time \<Rightarrow> bool \<Rightarrow> int \<Rightarrow> tcp \<Rightarrow> tcp res" where
  "send_much c now force mb s =
     (if \<not> force \<and> delsnd s = TIMER_PENDING then Inr s
      else
        let s1 = (if t_seqno s = 0 then s\<lparr>firstsent := now\<rparr> else s)
        in if burstsnd s1 = TIMER_PENDING then Inr s1 else send_loop c now force mb 0 s1)"

definition sendmsg :: "tcp_cfg \<Rightarrow> time \<Rightarrow> int \<Rightarrow> tcp \<Rightarrow> tcp res" where
  "sendmsg c now nbytes s =
     send_much c now False (maxburst c)
       (if nbytes = - 1 \<and> curseq s \<le> 2 ^ 30 then s\<lparr>curseq := 2 ^ 30\<rparr>
        else s\<lparr>curseq := curseq s + (nbytes sdiv seg_size c + (if nbytes smod seg_size c \<noteq> 0 then 1 else 0))\<rparr>)"

definition advanceby :: "tcp_cfg \<Rightarrow> time \<Rightarrow> int \<Rightarrow> tcp \<Rightarrow> tcp res" where
  "advanceby c now delta s =
     send_much c now False (maxburst c)
       (s\<lparr>curseq := curseq s + delta, closed := (if delta > 0 then False else closed s)\<rparr>)"

definition advance_to :: "tcp_cfg \<Rightarrow> time \<Rightarrow> int \<Rightarrow> tcp \<Rightarrow> tcp res" where
  "advance_to c now newseq s =
     (if newseq > maxseq s then advanceby c now (newseq - curseq s) s else advanceby c now (maxseq s - curseq s) s)"

definition send_one :: "tcp_cfg \<Rightarrow> time \<Rightarrow> tcp \<Rightarrow> tcp res" where
  "send_one c now s =
     (if of_int (t_seqno s) \<le> of_int (highest_ack s) + wnd c \<and> t_seqno s < curseq s
         \<and> of_int (t_seqno s) \<le> of_int (highest_ack s) + cwnd s + of_int (dupacks s)
      then bindR (tcp_output c now (t_seqno s) s) (\<lambda>s1. Inr (s1\<lparr>t_seqno := t_seqno s1 + 1\<rparr>))
      else Inr s)"

section \<open>Acknowledgements\<close>

text \<open>
  \<open>newack\<close>: the numbers; the round trip from the timestamp echoed, or from the segment timed; the
  backoff ends unless the ACK carries a congestion mark in a window of one.
\<close>

definition ack_numbers :: "int \<Rightarrow> tcp \<Rightarrow> tcp" where
  "ack_numbers n s =
     (let s1 = s\<lparr>dupacks := 0, last_ack := n, prev_highest_ack := highest_ack s, highest_ack := n\<rparr>
      in if t_seqno s1 < last_ack s1 + 1 then s1\<lparr>t_seqno := last_ack s1 + 1\<rparr> else s1)"

definition end_backoff :: "tcp_hdr \<Rightarrow> tcp \<Rightarrow> tcp" where
  "end_backoff h s =
     (if \<not> ect_peer s \<or> \<not> ecn_backoff s \<or> \<not> f_ecnecho h then s\<lparr>rt := (rt s)\<lparr>t_backoff := 1\<rparr>, ecn_backoff := False\<rparr> else s)"

definition ack_timestamp :: "tcp_cfg \<Rightarrow> time \<Rightarrow> tcp_hdr \<Rightarrow> tcp \<Rightarrow> tcp" where
  "ack_timestamp c now h s =
     (if ts_option (rttc c) then
        let s1 = s\<lparr>rt := rtt_update (rttc c) now (boot_time s) (now - th_ts_echo h) (rt s)\<rparr>
        in if ts_resetRTO c then end_backoff h s1 else s1
      else s)"

definition ack_sample :: "tcp_cfg \<Rightarrow> time \<Rightarrow> tcp_hdr \<Rightarrow> tcp \<Rightarrow> tcp" where
  "ack_sample c now h s =
     (if rtt_active s \<and> th_seqno h \<ge> rtt_seq s then
        let s1 = (end_backoff h s)\<lparr>rtt_active := False\<rparr>
        in if ts_option (rttc c) then s1
           else s1\<lparr>rt := rtt_update (rttc c) now (boot_time s1) (now - rtt_ts s1) (rt s1)\<rparr>
      else s)"

definition newack :: "tcp_cfg \<Rightarrow> time \<Rightarrow> tcp_hdr \<Rightarrow> tcp \<Rightarrow> tcp res" where
  "newack c now h s =
     bindR (if timerfix c then Inr s else newtimer c (th_seqno h) s) (\<lambda>s1.
       let s2 = ack_numbers (th_seqno h) s1;
           s3 = (if f_no_ts h then s2 else ack_sample c now h (ack_timestamp c now h s2))
       in bindR (if timerfix c then newtimer c (th_seqno h) s3 else Inr s3) (\<lambda>s4.
            Inr (s4\<lparr>awnd := awnd s4 * (1 - wnd_th c) + wnd_th c * cwnd s4\<rparr>)))"

definition ecn :: "tcp_cfg \<Rightarrow> int \<Rightarrow> tcp \<Rightarrow> tcp" where
  "ecn c seqno s =
     (if seqno > recover s \<or> last_cwnd_action s = CWND_ACTION_TIMEOUT then
        let s1 = s\<lparr>recover := maxseq s, last_cwnd_action := CWND_ACTION_ECN\<rparr>;
            s2 = (if cwnd s1 \<le> 1 then
                    (if ecn_backoff s1 then s1\<lparr>rt := rtt_backoff (rttc c) (rt s1)\<rparr> else s1\<lparr>ecn_backoff := True\<rparr>)
                  else s1\<lparr>ecn_backoff := False\<rparr>)
        in slowdown c [CLOSE_CWND_HALF, CLOSE_SSTHRESH_HALF] s2
      else s)"

definition spurious_timeout :: "tcp_cfg \<Rightarrow> tcp \<Rightarrow> tcp" where
  "spurious_timeout c s =
     s\<lparr>frto := 0,
       cwnd := (if spurious_response c = 2 then of_int (ssthresh s) else if spurious_response c = 3 then 1
                else of_int (t_seqno s - prev_highest_ack s)),
       ssthresh := pipe_prev s, recover := highest_ack s - 1\<rparr>"

text \<open>The part of \<open>recv_newack_helper\<close> for F-RTO.\<close>

definition frto_newack :: "tcp_cfg \<Rightarrow> tcp \<Rightarrow> tcp" where
  "frto_newack c s =
     (if frto s = 1 then
        (if of_int (recover s + 1) \<ge> of_int (highest_ack s) + wnd c \<or> recover s + 1 \<ge> curseq s then s\<lparr>frto := 0\<rparr>
         else if highest_ack s = recover s then s\<lparr>frto := 0\<rparr>
         else s\<lparr>t_seqno := recover s + 1, frto := 2\<rparr>)
      else if frto s = 2 then spurious_timeout c s
      else s)"

definition ack_ecn :: "tcp_hdr \<Rightarrow> tcp \<Rightarrow> tcp" where
  "ack_ecn h s =
     (let s1 = (if ect_peer s then s\<lparr>ecn_backoff := (ecn_backoff s \<and> f_ecnecho h), ecn_burst := f_ecnecho h\<rparr> else s)
      in if \<not> ect_peer s1 \<and> f_ecnecho h \<and> \<not> f_cong_action h then s1\<lparr>ect_peer := True\<rparr> else s1)"

definition ack_done :: "tcp \<Rightarrow> tcp" where
  "ack_done s = (if highest_ack s \<ge> curseq s - 1 \<and> \<not> closed s then act_out AppDone (s\<lparr>closed := True\<rparr>) else s)"

definition recv_newack_helper :: "tcp_cfg \<Rightarrow> time \<Rightarrow> tcp_hdr \<Rightarrow> tcp \<Rightarrow> tcp res" where
  "recv_newack_helper c now h s =
     bindR (newack c now h s) (\<lambda>s1.
     bindR (if (\<not> ect_peer s1 \<or> \<not> f_ecnecho h \<or> (old_ecn c \<and> ecn_burst s1)) \<and> (\<not> control_increase c \<or> network_limited c s1)
            then opencwnd c s1 else Inr s1) (\<lambda>s2.
       Inr (frto_newack c (ack_done (ack_ecn h s2)))))"

definition recv_frto_helper :: "tcp_hdr \<Rightarrow> tcp \<Rightarrow> tcp" where
  "recv_frto_helper h s =
     (if th_seqno h = last_ack s \<and> frto s \<noteq> 0 then
        s\<lparr>t_seqno := highest_ack s + 1, cwnd := of_int (frto s), frto := 0, dupacks := - 1\<rparr>
      else s)"

definition tahoe_dupack_action :: "tcp_cfg \<Rightarrow> tcp \<Rightarrow> tcp res" where
  "tahoe_dupack_action c s =
     (let tahoe_action =
        reset_rtx_timer c False False
          (slowdown c [CLOSE_SSTHRESH_HALF, CLOSE_CWND_ONE] (s\<lparr>recover := maxseq s, last_cwnd_action := CWND_ACTION_DUPACK\<rparr>))
      in if highest_ack s > recover s \<or> (\<not> bug_fix c \<and> \<not> ecn_on c) \<or> (bugfix_ss c \<and> highest_ack s = 0) then tahoe_action
         else if ecn_on c \<and> last_cwnd_action s = CWND_ACTION_ECN then
           reset_rtx_timer c False False (slowdown c [CLOSE_CWND_ONE] (s\<lparr>last_cwnd_action := CWND_ACTION_DUPACK\<rparr>))
         else if bug_fix c then Inr s
         else tahoe_action)"

definition reno_dupack_action :: "tcp_cfg \<Rightarrow> time \<Rightarrow> tcp \<Rightarrow> tcp res" where
  "reno_dupack_action c now s =
     (let resend = (\<lambda>s. bindR (reset_rtx_timer c True False s) (\<lambda>s1. bindR (tcp_output c now (last_ack s1 + 1) s1)
             (\<lambda>s2. Inr (s2\<lparr>dupwnd := numdupacks c\<rparr>))));
          reno_action = resend (slowdown c [CLOSE_SSTHRESH_HALF, CLOSE_CWND_HALF]
             (s\<lparr>recover := maxseq s, last_cwnd_action := CWND_ACTION_DUPACK\<rparr>))
      in if highest_ack s > recover s \<or> (\<not> bug_fix c \<and> \<not> ecn_on c) \<or> last_cwnd_action s = CWND_ACTION_DUPACK
            \<or> (bugfix_ss c \<and> highest_ack s = 0) then reno_action
         else if ecn_on c \<and> last_cwnd_action s = CWND_ACTION_ECN then resend (s\<lparr>last_cwnd_action := CWND_ACTION_DUPACK\<rparr>)
         else if bug_fix c then Inr s
         else reno_action)"

definition tcp_eln :: "tcp_cfg \<Rightarrow> time \<Rightarrow> tcp_hdr \<Rightarrow> tcp \<Rightarrow> tcp res" where
  "tcp_eln c now h s =
     (let s1 = s\<lparr>dupacks := dupacks s + 1\<rparr>
      in if dupacks s1 = eln_rxmit_thresh c \<and> th_seqno h > eln_last_rxmit s1 then
           bindR (tcp_output c now (last_ack s1 + 1) s1) (\<lambda>s2. Inr (s2\<lparr>eln_last_rxmit := last_ack s2 + 1\<rparr>))
         else send_much c now False (maxburst c) s1)"

text \<open>What both classes do with an ACK of new data.\<close>

definition recv_new :: "tcp_cfg \<Rightarrow> time \<Rightarrow> tcp_hdr \<Rightarrow> tcp \<Rightarrow> tcp res" where
  "recv_new c now h s =
     bindR (recv_newack_helper c now h s) (\<lambda>s1.
       if last_ack s1 = 0 \<and> delay_growth c then bindR (initial_window c s1) (\<lambda>w. Inr (s1\<lparr>cwnd := w\<rparr>)) else Inr s1)"

text \<open>The end of both: sending more, if the ACK is valid.\<close>

definition recv_end :: "tcp_cfg \<Rightarrow> time \<Rightarrow> tcp_hdr \<Rightarrow> tcp \<Rightarrow> tcp res" where
  "recv_end c now h s =
     (if (th_seqno h \<ge> last_ack s \<or> aggressive_maxburst c) \<and> (\<not> reno c \<or> dupacks s = 0 \<or> dupacks s > numdupacks c - 1)
      then send_much c now False (maxburst c) s else Inr s)"

definition tahoe_dup :: "tcp_cfg \<Rightarrow> time \<Rightarrow> tcp \<Rightarrow> tcp res" where
  "tahoe_dup c now s =
     (let s1 = s\<lparr>dupacks := dupacks s + 1\<rparr>
      in if dupacks s1 = numdupacks c \<and> \<not> noFastRetrans c then tahoe_dupack_action c s1
         else if dupacks s1 < numdupacks c \<and> singledup c then send_one c now s1
         else Inr s1)"

definition reno_dup :: "tcp_cfg \<Rightarrow> time \<Rightarrow> tcp \<Rightarrow> tcp res" where
  "reno_dup c now s =
     (let s1 = s\<lparr>dupacks := dupacks s + 1\<rparr>
      in if dupacks s1 = numdupacks c then
           bindR (reno_dupack_action c now s1) (\<lambda>s2. Inr (if \<not> exitFastRetrans c then s2\<lparr>dupwnd := numdupacks c\<rparr> else s2))
         else if dupacks s1 > numdupacks c \<and> (\<not> exitFastRetrans c \<or> last_cwnd_action s1 = CWND_ACTION_DUPACK) then
           Inr (s1\<lparr>dupwnd := dupwnd s1 + 1\<rparr>)
         else if dupacks s1 < numdupacks c \<and> singledup c then send_one c now s1
         else Inr s1)"

text \<open>\<open>recv\<close>: an ACK of an earlier incarnation is dropped.\<close>

definition tcp_recv :: "tcp_cfg \<Rightarrow> time \<Rightarrow> tcp_hdr \<Rightarrow> tcp \<Rightarrow> tcp res" where
  "tcp_recv c now h s =
     (if th_ts h < t_lastreset s then Inr s
      else
        let s1 = s\<lparr>ts_peer := th_ts h\<rparr>;
            s2 = (if f_ecnecho h \<and> ecn_on c then ecn c (th_seqno h) s1 else s1);
            s3 = recv_frto_helper h s2
        in if th_seqno h > last_ack s3 then
             let s4 = (if reno c then
                         s3\<lparr>last_cwnd_action := (if last_cwnd_action s3 = CWND_ACTION_DUPACK then CWND_ACTION_EXITED else last_cwnd_action s3),
                            dupwnd := 0\<rparr>
                       else s3)
             in bindR (recv_new c now h s4) (recv_end c now h)
           else if th_seqno h = last_ack s3 then
             (if f_eln h \<and> eln c then tcp_eln c now h s3
              else bindR (if reno c then reno_dup c now s3 else tahoe_dup c now s3) (recv_end c now h))
           else recv_end c now h s3)"

section \<open>Timeouts\<close>

definition rtx_slowdown :: "tcp_cfg \<Rightarrow> tcp \<Rightarrow> tcp" where
  "rtx_slowdown c s =
     (let s1 = s\<lparr>recover := maxseq s\<rparr>;
          s2 = (if highest_ack s1 = - 1 \<and> wnd_init_option s1 = 2 then s1\<lparr>wnd_init_option := 1\<rparr>
                else if highest_ack s1 = - 1 \<and> wnd_init_option s1 = 1 \<and> wnd_init s1 > 1 \<and> bugfix_ss c then s1\<lparr>wnd_init := 1\<rparr>
                else s1);
          frto1 = (\<lambda>s. if frto_enabled c then s\<lparr>frto := 1\<rparr> else s)
      in if highest_ack s2 = maxseq s2 \<and> restart_bugfix c then slowdown c [CLOSE_CWND_ONE, NO_OUTSTANDING_DATA] s2
         else if highest_ack s2 < recover s2 \<and> last_cwnd_action s2 = CWND_ACTION_ECN then frto1 (slowdown c [CLOSE_CWND_ONE] s2)
         else frto1 (slowdown c [CLOSE_SSTHRESH_HALF, CLOSE_CWND_RESTART] (s2\<lparr>last_cwnd_action := CWND_ACTION_TIMEOUT\<rparr>)))"

definition rtx_timeout :: "tcp_cfg \<Rightarrow> time \<Rightarrow> tcp \<Rightarrow> tcp res" where
  "rtx_timeout c now s =
     (let s1 = s\<lparr>frto := 0, pipe_prev := (if tcp_window c (s\<lparr>frto := 0\<rparr>) > ssthresh s then tcp_window c (s\<lparr>frto := 0\<rparr>) else ssthresh s)\<rparr>;
          s2 = (if cwnd s1 < 1 then s1\<lparr>cwnd := 1\<rparr> else s1);
          s3 = (if highest_ack s2 = maxseq s2 \<and> \<not> slow_start_restart c then s2 else rtx_slowdown c s2)
      in bindR (reset_rtx_timer c False (\<not> (highest_ack s3 = maxseq s3 \<and> restart_bugfix c)) s3) (\<lambda>s4.
           send_much c now False (maxburst c) (s4\<lparr>last_cwnd_action := CWND_ACTION_TIMEOUT\<rparr>)))"

definition tcp_timeout :: "tcp_cfg \<Rightarrow> time \<Rightarrow> tcp_timer \<Rightarrow> tcp \<Rightarrow> tcp res" where
  "tcp_timeout c now t s =
     (case t of
        TCP_TIMER_RTX \<Rightarrow>
          rtx_timeout c now
            (if reno c then s\<lparr>dupwnd := 0, dupacks := 0, recover := (if bug_fix c then maxseq s else recover s)\<rparr> else s)
      | TCP_TIMER_DELSND \<Rightarrow> send_much c now True (maxburst c) s
      | TCP_TIMER_BURSTSND \<Rightarrow> Inr s)"

text \<open>\<open>TimerHandler::handle\<close> with \<open>expire\<close>.\<close>

definition tcp_expire :: "tcp_cfg \<Rightarrow> time \<Rightarrow> tcp_timer \<Rightarrow> tcp \<Rightarrow> tcp res" where
  "tcp_expire c now t s =
     bindR (tcp_timeout c now t (put_timer t TIMER_HANDLING s)) (\<lambda>s1.
       Inr (if timer_of t s1 = TIMER_HANDLING then put_timer t TIMER_IDLE s1 else s1))"

text \<open>\<open>reset\<close>; \<open>u\<close> is the random start of the clock within a tick.\<close>

definition reset_numbers :: "tcp_cfg \<Rightarrow> time \<Rightarrow> real \<Rightarrow> tcp \<Rightarrow> tcp" where
  "reset_numbers c now u s =
     s\<lparr>t_seqno := 0, maxseq := - 1, last_ack := - 1, highest_ack := - 1,
       ssthresh := (if max_ssthresh c > 0 \<and> max_ssthresh c < c_trunc (wnd c) then max_ssthresh c else c_trunc (wnd c)),
       wnd_restart := 1, awnd := wnd_init s / 2, recover := 0, closed := False, last_cwnd_action := NO_ACTION,
       boot_time := u, first_decrease := True, t_lastreset := now\<rparr>"

definition tcp_reset :: "tcp_cfg \<Rightarrow> time \<Rightarrow> real \<Rightarrow> tcp \<Rightarrow> tcp res" where
  "tcp_reset c now u s =
     bindR (set_initial_window c (s\<lparr>rt := rtt_init (rttc c) (rt s), rtt_seq := - 1, dupacks := 0, curseq := 0\<rparr>)) (\<lambda>s1.
       let s2 = cancel_timers (reset_numbers c now u s1)
       in Inr (if control_increase c then s2\<lparr>prev_highest_ack := highest_ack s2\<rparr> else s2))"

end
