(* ===== verification/TcpSenderInv.thy ===== *)
theory TcpSenderInv
  imports TcpSender
begin

text \<open>
  The invariant of the TCP senders: the order of the sequence numbers, no gap in what has been sent,
  no more outstanding than the receiver's window, a retransmission timer whenever data is
  outstanding. Every operation keeps it, for any configuration within \<open>tcp_cfg_ok\<close>; the only way
  to fail is the exit on a negative timeout.
\<close>

section \<open>Results\<close>

definition okE :: "(tcp \<Rightarrow> bool) \<Rightarrow> tcp res \<Rightarrow> bool" where
  "okE P m \<longleftrightarrow> (case m of Inl er \<Rightarrow> er = Exited | Inr s \<Rightarrow> P s)"

named_theorems okE_intros \<open>rules for results\<close>

lemma okE_Inr [simp, okE_intros]: "okE P (Inr s) \<longleftrightarrow> P s"
  by (simp add: okE_def)

lemma okE_bind: "okE P m \<Longrightarrow> (\<And>s. P s \<Longrightarrow> okE Q (f s)) \<Longrightarrow> okE Q (bindR m f)"
  by (cases m) (simp_all add: okE_def)

lemma okE_mono: "okE P m \<Longrightarrow> (\<And>s. P s \<Longrightarrow> Q s) \<Longrightarrow> okE Q m"
  by (cases m) (simp_all add: okE_def)

lemma okE_conj: "okE P m \<Longrightarrow> okE Q m \<Longrightarrow> okE (\<lambda>s. P s \<and> Q s) m"
  by (cases m) (simp_all add: okE_def)

lemma okE_D: "okE P m \<Longrightarrow> m = Inr s \<Longrightarrow> P s"
  by (simp add: okE_def)

section \<open>The invariant\<close>

text \<open>The segments sent, each with its size; the size depends on the number only.\<close>

definition sent :: "tcp_act list \<Rightarrow> (int \<times> int) set" where
  "sent as = {(th_seqno (body p), psize p) |p. SendSeg p \<in> set as}"

definition seg_bytes :: "tcp_cfg \<Rightarrow> int \<Rightarrow> int" where
  "seg_bytes c n =
     (if n = 0 \<and> syn c then tcpip_base_hdr_size c else if n \<noteq> 0 \<and> useHeaders c then seg_size c + headersize c else seg_size c)"

definition all_sent :: "tcp_cfg \<Rightarrow> int \<Rightarrow> (int \<times> int) set" where
  "all_sent c m = (\<lambda>n. (n, seg_bytes c n)) ` {0..m}"

lemma sent_simps [simp]:
  "sent [] = {}" "sent (as @ bs) = sent as \<union> sent bs" "sent (SendSeg p # as) = insert (th_seqno (body p), psize p) (sent as)"
  "sent (SetTimer t d # as) = sent as" "sent (CancelTimer t # as) = sent as" "sent (AppIdle # as) = sent as" "sent (AppDone # as) = sent as"
  by (auto simp: sent_def)

text \<open>What the invariant depends on, besides the retransmission timer.\<close>

record seqs =
  q_high :: int
  q_max :: int
  q_last :: int
  q_next :: int
  q_rec :: int
  q_frto :: int
  q_sent :: "(int \<times> int) set"
  q_reset :: time

definition seqs_of :: "tcp \<Rightarrow> seqs" where
  "seqs_of s =
     \<lparr>q_high = highest_ack s, q_max = maxseq s, q_last = last_ack s, q_next = t_seqno s, q_rec = recover s, q_frto = frto s,
      q_sent = sent (t_acts s), q_reset = t_lastreset s\<rparr>"

definition seqs_ok :: "tcp_cfg \<Rightarrow> seqs \<Rightarrow> bool" where
  "seqs_ok c q \<longleftrightarrow>
     -1 \<le> q_high q \<and> q_high q \<le> q_max q \<and> q_last q = q_high q \<and> 0 \<le> q_next q \<and> q_next q \<le> q_max q + 1
     \<and> -1 \<le> q_rec q \<and> q_rec q \<le> max 0 (q_max q) \<and> of_int (q_max q) \<le> of_int (q_high q) + wnd c
     \<and> q_sent q = all_sent c (q_max q) \<and> (frto_enabled c \<or> (q_frto q = 0 \<and> q_high q < q_next q))"

definition tcp_base :: "tcp_cfg \<Rightarrow> tcp \<Rightarrow> bool" where
  "tcp_base c s \<longleftrightarrow> seqs_ok c (seqs_of s)"

definition rtx_ok :: "tcp \<Rightarrow> bool" where
  "rtx_ok s \<longleftrightarrow> (highest_ack s < maxseq s \<longrightarrow> rtx s = TIMER_PENDING)"

definition tcp_inv :: "tcp_cfg \<Rightarrow> tcp \<Rightarrow> bool" where
  "tcp_inv c s \<longleftrightarrow> tcp_base c s \<and> rtx_ok s"

text \<open>The receiver's window admits a segment, the options exist, a SYN is repeated without limit.\<close>

definition tcp_cfg_ok :: "tcp_cfg \<Rightarrow> bool" where
  "tcp_cfg_ok c \<longleftrightarrow> 1 \<le> wnd c \<and> wnd_option c \<in> {0..6} \<and> max_connects c \<le> 0"

definition init_ok :: "tcp \<Rightarrow> bool" where
  "init_ok s \<longleftrightarrow> wnd_init_option s = 1 \<or> wnd_init_option s = 2"

lemma tcp_baseD:
  assumes "tcp_base c s"
  shows "-1 \<le> highest_ack s" "highest_ack s \<le> maxseq s" "last_ack s = highest_ack s" "0 \<le> t_seqno s" "t_seqno s \<le> maxseq s + 1"
    "-1 \<le> recover s" "recover s \<le> max 0 (maxseq s)" "of_int (maxseq s) \<le> of_int (highest_ack s) + wnd c"
    "sent (t_acts s) = all_sent c (maxseq s)" "frto_enabled c \<or> (frto s = 0 \<and> highest_ack s < t_seqno s)"
  using assms by (simp_all add: tcp_base_def seqs_ok_def seqs_of_def)

lemma tcp_baseI:
  assumes "-1 \<le> highest_ack s" "highest_ack s \<le> maxseq s" "last_ack s = highest_ack s" "0 \<le> t_seqno s" "t_seqno s \<le> maxseq s + 1"
    "-1 \<le> recover s" "recover s \<le> max 0 (maxseq s)" "of_int (maxseq s) \<le> of_int (highest_ack s) + wnd c"
    "sent (t_acts s) = all_sent c (maxseq s)" "frto_enabled c \<or> (frto s = 0 \<and> highest_ack s < t_seqno s)"
  shows "tcp_base c s"
  using assms by (simp add: tcp_base_def seqs_ok_def seqs_of_def)

lemma tcp_base_cong: "seqs_of s' = seqs_of s \<Longrightarrow> tcp_base c s \<Longrightarrow> tcp_base c s'"
  by (simp add: tcp_base_def)

lemma seqs_of_eqD:
  assumes "seqs_of s' = seqs_of s"
  shows "highest_ack s' = highest_ack s" "maxseq s' = maxseq s" "last_ack s' = last_ack s" "t_seqno s' = t_seqno s"
    "recover s' = recover s" "frto s' = frto s" "t_lastreset s' = t_lastreset s"
  using assms by (simp_all add: seqs_of_def)

text \<open>A change outside.\<close>

definition outside :: "tcp \<Rightarrow> tcp \<Rightarrow> bool" where
  "outside s s' \<longleftrightarrow> seqs_of s' = seqs_of s \<and> rtx s' = rtx s \<and> wnd_init_option s' = wnd_init_option s"

lemma outside_base: "outside s s' \<Longrightarrow> tcp_base c s \<Longrightarrow> tcp_base c s'"
  by (simp add: outside_def tcp_base_def)

lemma outside_rtx:
  assumes "outside s s'"
  shows "rtx_ok s' \<longleftrightarrow> rtx_ok s"
proof -
  have q: "seqs_of s' = seqs_of s" "rtx s' = rtx s" using assms by (simp_all add: outside_def)
  from seqs_of_eqD [OF q(1)] q(2) show ?thesis by (simp add: rtx_ok_def)
qed

lemma outside_inv: "outside s s' \<Longrightarrow> tcp_inv c s \<Longrightarrow> tcp_inv c s'"
  using outside_base outside_rtx by (auto simp: tcp_inv_def)

lemma outside_init: "outside s s' \<Longrightarrow> init_ok s \<Longrightarrow> init_ok s'"
  by (simp add: outside_def init_ok_def)

lemma slowdown_outside: "outside s (slowdown c how s)"
  by (simp add: outside_def slowdown_def Let_def seqs_of_def)

lemma slow_growth_outside: "outside s (slow_growth f s)"
  by (simp add: outside_def slow_growth_def seqs_of_def)

lemma opencwnd_outside:
  assumes "tcp_cfg_ok c"
  shows "okE (outside s) (opencwnd c s)"
proof -
  have o: "wnd_option c \<in> {0, 1, 2, 3, 4, 5, 6}" using assms by (auto simp: tcp_cfg_ok_def)
  have cap: "outside s s1 \<Longrightarrow> outside s (if maxcwnd c \<noteq> 0 \<and> c_trunc (cwnd s1) > maxcwnd c then s1\<lparr>cwnd := of_int (maxcwnd c)\<rparr> else s1)" for s1
    by (simp add: outside_def seqs_of_def)
  have cw: "outside s (s\<lparr>cwnd := x\<rparr>)" "outside s (s\<lparr>count := n, cwnd := x\<rparr>)" "outside s (s\<lparr>count := n\<rparr>)" for x n
    by (simp_all add: outside_def seqs_of_def)
  show ?thesis
    unfolding opencwnd_def
    by (rule okE_bind [where P = "outside s"]) (use o cap cw slow_growth_outside in \<open>auto simp: Let_def\<close>)
qed

section \<open>Sending\<close>

definition armed :: "tcp \<Rightarrow> tcp \<Rightarrow> bool" where
  "armed s s' \<longleftrightarrow> seqs_of s' = seqs_of s \<and> rtx s' = TIMER_PENDING \<and> wnd_init_option s' = wnd_init_option s"

lemma resched_armed: "armed s (resched TCP_TIMER_RTX d s)"
  by (simp add: armed_def seqs_of_def) (simp add: resched_def put_timer_def act_out_def)

lemma resched_outside: "t \<noteq> TCP_TIMER_RTX \<Longrightarrow> outside s (resched t d s)"
  by (cases t) (simp_all add: outside_def seqs_of_def resched_def put_timer_def act_out_def)

lemma armed_inv: "armed s s' \<Longrightarrow> tcp_base c s \<Longrightarrow> tcp_inv c s' \<and> rtx s' = TIMER_PENDING"
  by (simp add: armed_def tcp_inv_def tcp_base_def rtx_ok_def)

lemma set_rtx_timer_armed: "okE (armed s) (set_rtx_timer c s)"
proof -
  have "okE (armed s) (Inr (resched TCP_TIMER_RTX (Exactly d) (s\<lparr>rt := r\<rparr>)))" for d r
    using resched_armed [of "s\<lparr>rt := r\<rparr>" "Exactly d"] by (simp add: armed_def seqs_of_def)
  then show ?thesis
    by (cases "rtt_timeout (rttc c) (rt s)") (auto simp: set_rtx_timer_def okE_def rtt_timeout_def Let_def split: if_splits)
qed

lemma out_packet_outside: "outside s (snd (out_packet c now n s))"
  by (simp add: outside_def seqs_of_def) (simp add: out_packet_def tcp_allocpkt_def Let_def)

text \<open>A segment sent: it is on record, and the timer runs.\<close>

definition put_sent :: "tcp_cfg \<Rightarrow> int \<Rightarrow> seqs \<Rightarrow> seqs" where
  "put_sent c n q = q\<lparr>q_max := max (q_max q) n, q_sent := insert (n, seg_bytes c n) (q_sent q)\<rparr>"

lemma out_packet_size: "psize (fst (out_packet c now n s)) = seg_bytes c n"
  by (simp add: out_packet_def tcp_allocpkt_def Let_def seg_bytes_def)

lemma tcp_output_seqs:
  assumes "max_connects c \<le> 0"
  shows "okE (\<lambda>s'. seqs_of s' = put_sent c n (seqs_of s) \<and> rtx s' = TIMER_PENDING \<and> wnd_init_option s' = wnd_init_option s) (tcp_output c now n s)"
proof -
  obtain p s2 where p: "out_packet c now n s = (p, s2)" by fastforce
  have s2: "s2 = snd (out_packet c now n s)" and pn: "th_seqno (body p) = n" "psize p = seg_bytes c n"
    using p out_packet_simps(15) [of c now n s] out_packet_size [of c now n s] by simp_all
  define s4 where "s4 = (if n = curseq s2 \<and> n > maxseq s2 then act_out AppIdle (act_out (SendSeg p) s2) else act_out (SendSeg p) s2)"
  define s5 where "s5 = record_sent now n s4"
  have e: "tcp_output c now n s = (if rtx s5 \<noteq> TIMER_PENDING \<or> highest_ack s2 = maxseq s2 then set_rtx_timer c s5 else Inr s5)"
    unfolding tcp_output_def p Let_def prod.case s5_def s4_def by (rule if_not_P) (use assms in simp)
  have o: "seqs_of s2 = seqs_of s" "wnd_init_option s2 = wnd_init_option s"
    using out_packet_outside [of s c now n] by (simp_all add: outside_def flip: s2)
  have "seqs_of s5 = put_sent c n (seqs_of s2)"
    using pn by (auto simp: s5_def s4_def put_sent_def seqs_of_def)
  moreover have "wnd_init_option s5 = wnd_init_option s2" by (simp add: s5_def s4_def record_sent_def act_out_def Let_def)
  ultimately have s5: "seqs_of s5 = put_sent c n (seqs_of s)" "wnd_init_option s5 = wnd_init_option s" using o by simp_all
  show ?thesis
  proof (cases "rtx s5 \<noteq> TIMER_PENDING \<or> highest_ack s2 = maxseq s2")
    case True
    then have "tcp_output c now n s = set_rtx_timer c s5" unfolding e by (rule if_P)
    with okE_mono [OF set_rtx_timer_armed [of s5 c]] s5 show ?thesis by (simp add: armed_def)
  next
    case False
    then have "tcp_output c now n s = Inr s5" "rtx s5 = TIMER_PENDING" unfolding e by (auto intro: if_not_P)
    with s5 show ?thesis by simp
  qed
qed

lemma insert_all_sent: "0 \<le> n \<Longrightarrow> n \<le> m + 1 \<Longrightarrow> insert (n, seg_bytes c n) (all_sent c m) = all_sent c (max m n)"
proof -
  assume "0 \<le> n" "n \<le> m + 1"
  then have "{0..max m n} = insert n {0..m}" by auto
  then show ?thesis by (simp add: all_sent_def)
qed

lemma tcp_output_ok:
  assumes cfg: "tcp_cfg_ok c" and base: "tcp_base c s" and n: "0 \<le> n" "n \<le> maxseq s + 1" "of_int n \<le> of_int (highest_ack s) + wnd c"
  shows "okE (\<lambda>s'. tcp_base c s' \<and> rtx s' = TIMER_PENDING \<and> t_seqno s' = t_seqno s \<and> highest_ack s' = highest_ack s
    \<and> maxseq s' = max (maxseq s) n \<and> recover s' = recover s \<and> frto s' = frto s \<and> last_ack s' = last_ack s \<and> t_lastreset s' = t_lastreset s
    \<and> wnd_init_option s' = wnd_init_option s) (tcp_output c now n s)"
proof (rule okE_mono [OF tcp_output_seqs])
  show "max_connects c \<le> 0" using cfg by (simp add: tcp_cfg_ok_def)
  fix s' assume a: "seqs_of s' = put_sent c n (seqs_of s) \<and> rtx s' = TIMER_PENDING \<and> wnd_init_option s' = wnd_init_option s"
  then have q: "highest_ack s' = highest_ack s" "maxseq s' = max (maxseq s) n" "t_seqno s' = t_seqno s" "last_ack s' = last_ack s"
    "recover s' = recover s" "frto s' = frto s" "t_lastreset s' = t_lastreset s" "sent (t_acts s') = insert (n, seg_bytes c n) (sent (t_acts s))"
    by (simp_all add: seqs_of_def put_sent_def)
  note b = tcp_baseD [OF base]
  have "of_int (maxseq s') \<le> of_int (highest_ack s') + wnd c" using q(1,2) b(8) n(3) by (simp add: max_def)
  moreover have "sent (t_acts s') = all_sent c (maxseq s')" using q(2,8) b(9) insert_all_sent [OF n(1,2)] by simp
  ultimately have "tcp_base c s'" by (intro tcp_baseI) (use q b in auto)
  with a q show "tcp_base c s' \<and> rtx s' = TIMER_PENDING \<and> t_seqno s' = t_seqno s \<and> highest_ack s' = highest_ack s
    \<and> maxseq s' = max (maxseq s) n \<and> recover s' = recover s \<and> frto s' = frto s \<and> last_ack s' = last_ack s \<and> t_lastreset s' = t_lastreset s
    \<and> wnd_init_option s' = wnd_init_option s" by simp
qed

text \<open>The window never exceeds the receiver's.\<close>

lemma tcp_window_le:
  assumes "1 \<le> wnd c"
  shows "of_int (tcp_window c s) \<le> wnd c"
proof -
  have t: "of_int (c_trunc (wnd c)) \<le> wnd c" by (rule trunc_le) (use assms in simp)
  have "tcp_window c s \<le> c_trunc (wnd c) \<or> of_int (tcp_window c s) < wnd c"
    using trunc_mono [of "cwnd s" "wnd c"] by (auto simp: tcp_window_def Let_def)
  with t show ?thesis by (auto intro: order_trans [OF iffD2 [OF of_int_le_iff]])
qed

lemma base_next:
  assumes base: "tcp_base c s" and "t_seqno s \<le> maxseq s"
  shows "tcp_base c (s\<lparr>t_seqno := t_seqno s + 1\<rparr>)"
  by (rule tcp_baseI) (use tcp_baseD [OF base] assms(2) in auto)

text \<open>What the operations keep, and what sending leaves as it is.\<close>

definition tcp_good :: "tcp_cfg \<Rightarrow> tcp \<Rightarrow> bool" where
  "tcp_good c s \<longleftrightarrow> tcp_inv c s \<and> init_ok s"

definition same_acks :: "tcp \<Rightarrow> tcp \<Rightarrow> bool" where
  "same_acks s s' \<longleftrightarrow> highest_ack s' = highest_ack s \<and> last_ack s' = last_ack s \<and> maxseq s \<le> maxseq s' \<and> recover s' = recover s
     \<and> frto s' = frto s \<and> t_lastreset s' = t_lastreset s"

lemma same_acks_refl [simp]: "same_acks s s"
  by (simp add: same_acks_def)

lemma same_acks_trans [trans]: "same_acks s1 s2 \<Longrightarrow> same_acks s2 s3 \<Longrightarrow> same_acks s1 s3"
  by (simp add: same_acks_def)

lemma outside_good: "outside s s' \<Longrightarrow> tcp_good c s \<Longrightarrow> tcp_good c s'"
  using outside_inv outside_init by (auto simp: tcp_good_def)

lemma outside_same_acks: "outside s s' \<Longrightarrow> same_acks s s'"
  using seqs_of_eqD [of s' s] by (simp add: outside_def same_acks_def)

lemma armed_good:
  assumes "armed s s'" "tcp_base c s" "init_ok s"
  shows "tcp_good c s' \<and> same_acks s s'"
proof -
  have "seqs_of s' = seqs_of s" using assms(1) by (simp add: armed_def)
  from seqs_of_eqD [OF this] armed_inv [OF assms(1,2)] assms show ?thesis
    by (simp add: tcp_good_def same_acks_def armed_def init_ok_def)
qed

lemma good_next:
  assumes "tcp_good c s" "t_seqno s \<le> maxseq s"
  shows "tcp_good c (s\<lparr>t_seqno := t_seqno s + 1\<rparr>)"
  using base_next [of c s] assms by (simp add: tcp_good_def tcp_inv_def rtx_ok_def init_ok_def)

lemma tcp_output_good:
  assumes cfg: "tcp_cfg_ok c" and base: "tcp_base c s" "init_ok s" and n: "0 \<le> n" "n \<le> maxseq s + 1" "of_int n \<le> of_int (highest_ack s) + wnd c"
  shows "okE (\<lambda>s'. tcp_good c s' \<and> same_acks s s' \<and> t_seqno s' = t_seqno s \<and> n \<le> maxseq s') (tcp_output c now n s)"
proof (rule okE_mono [OF tcp_output_ok [OF cfg base(1) n]])
  fix s' assume "tcp_base c s' \<and> rtx s' = TIMER_PENDING \<and> t_seqno s' = t_seqno s \<and> highest_ack s' = highest_ack s
    \<and> maxseq s' = max (maxseq s) n \<and> recover s' = recover s \<and> frto s' = frto s \<and> last_ack s' = last_ack s \<and> t_lastreset s' = t_lastreset s
    \<and> wnd_init_option s' = wnd_init_option s"
  with base(2) show "tcp_good c s' \<and> same_acks s s' \<and> t_seqno s' = t_seqno s \<and> n \<le> maxseq s'"
    by (simp add: tcp_good_def tcp_inv_def rtx_ok_def same_acks_def init_ok_def)
qed

lemma send_step_good:
  assumes cfg: "tcp_cfg_ok c" and good: "tcp_good c s" and w: "of_int (t_seqno s) \<le> of_int (highest_ack s) + wnd c"
  shows "okE (\<lambda>s'. tcp_good c (s'\<lparr>t_seqno := t_seqno s' + 1\<rparr>) \<and> same_acks s (s'\<lparr>t_seqno := t_seqno s' + 1\<rparr>)) (tcp_output c now (t_seqno s) s)"
proof (rule okE_mono [OF tcp_output_good [OF cfg _ _ _ _ w]])
  show "tcp_base c s" "init_ok s" using good by (simp_all add: tcp_good_def tcp_inv_def)
  from tcp_baseD(4,5) [OF this(1)] show "0 \<le> t_seqno s" "t_seqno s \<le> maxseq s + 1" by simp_all
  fix s' assume a: "tcp_good c s' \<and> same_acks s s' \<and> t_seqno s' = t_seqno s \<and> t_seqno s \<le> maxseq s'"
  from a have "tcp_good c s'" and m: "t_seqno s' \<le> maxseq s'" by (simp_all only:)
  from good_next [OF this] have "tcp_good c (s'\<lparr>t_seqno := t_seqno s' + 1\<rparr>)" .
  moreover from a have "same_acks s (s'\<lparr>t_seqno := t_seqno s' + 1\<rparr>)" unfolding same_acks_def by simp
  ultimately show "tcp_good c (s'\<lparr>t_seqno := t_seqno s' + 1\<rparr>) \<and> same_acks s (s'\<lparr>t_seqno := t_seqno s' + 1\<rparr>)" ..
qed

lemma send_loop_good:
  "tcp_good c s \<Longrightarrow> force \<or> overhead c = 0 \<or> delsnd s \<noteq> TIMER_PENDING \<Longrightarrow> tcp_cfg_ok c
    \<Longrightarrow> okE (\<lambda>s'. tcp_good c s' \<and> same_acks s s') (send_loop c now force mb n s)"
proof (induction c now force mb n s rule: send_loop.induct)
  case (1 c now force mb n s)
  note step = send_loop.simps [of c now force mb n s]
  show ?case
  proof (cases "t_seqno s \<le> highest_ack s + tcp_window c s \<and> t_seqno s < curseq s")
    case go: True
    show ?thesis
    proof (cases "overhead c = 0 \<or> force")
      case free: True
      have "(of_int (t_seqno s) :: real) \<le> of_int (highest_ack s + tcp_window c s)" using go by (simp only: of_int_le_iff)
      then have w: "of_int (t_seqno s) \<le> of_int (highest_ack s) + wnd c" using tcp_window_le [of c s] 1(4) by (simp add: tcp_cfg_ok_def)
      note out = send_step_good [OF 1(4) 1(2) w, of now]
      show ?thesis
      proof (cases "tcp_output c now (t_seqno s) s")
        case (Inl er)
        with out have "er = Exited" by (simp add: okE_def)
        with Inl go free step show ?thesis by (simp add: okE_def)
      next
        case (Inr s1)
        define s2 where "s2 = s1\<lparr>t_seqno := t_seqno s1 + 1\<rparr>"
        have g: "tcp_good c s2" "same_acks s s2" using out Inr by (simp_all add: s2_def)
        have eq: "send_loop c now force mb n s = (if mb \<noteq> 0 \<and> n + 1 = mb then Inr s2 else send_loop c now force mb (n + 1) s2)"
          using step go free Inr by (simp add: s2_def Let_def)
        show ?thesis
        proof (cases "mb \<noteq> 0 \<and> n + 1 = mb")
          case False
          have "okE (\<lambda>s'. tcp_good c s' \<and> same_acks s2 s') (send_loop c now force mb (n + 1) s2)"
            by (rule 1(1)) (use go free Inr s2_def False g(1) 1(4) in auto)
          then have "okE (\<lambda>s'. tcp_good c s' \<and> same_acks s s') (send_loop c now force mb (n + 1) s2)"
            by (rule okE_mono) (use g(2) same_acks_trans in blast)
          with eq False show ?thesis by simp
        qed (use eq g in simp)
      qed
    next
      case False
      with step go 1(3) have "send_loop c now force mb n s = Inr (resched TCP_TIMER_DELSND (Uniform (overhead c)) s)" by simp
      with outside_good [OF resched_outside 1(2)] outside_same_acks [OF resched_outside] show ?thesis by simp
    qed
  next
    case False
    then have "send_loop c now force mb n s = Inr s" unfolding step by (rule if_not_P)
    with 1(2) show ?thesis by simp
  qed
qed

lemma good_other:
  "tcp_good c s \<Longrightarrow> tcp_good c (s\<lparr>firstsent := x\<rparr>)" "tcp_good c s \<Longrightarrow> tcp_good c (s\<lparr>dupacks := n\<rparr>)"
  "tcp_good c s \<Longrightarrow> tcp_good c (s\<lparr>cwnd := x\<rparr>)" "tcp_good c s \<Longrightarrow> tcp_good c (s\<lparr>dupwnd := n\<rparr>)"
  "tcp_good c s \<Longrightarrow> tcp_good c (s\<lparr>ts_peer := x\<rparr>)" "tcp_good c s \<Longrightarrow> tcp_good c (s\<lparr>curseq := n\<rparr>)"
  "tcp_good c s \<Longrightarrow> tcp_good c (s\<lparr>curseq := n, closed := b\<rparr>)" "tcp_good c s \<Longrightarrow> tcp_good c (s\<lparr>eln_last_rxmit := n\<rparr>)"
  "tcp_good c s \<Longrightarrow> tcp_good c (s\<lparr>last_cwnd_action := w\<rparr>)" "tcp_good c s \<Longrightarrow> tcp_good c (s\<lparr>last_cwnd_action := w, dupwnd := n\<rparr>)"
  by (rule outside_good; simp add: outside_def seqs_of_def)+

lemma send_much_good:
  assumes "tcp_cfg_ok c" "tcp_good c s"
  shows "okE (\<lambda>s'. tcp_good c s' \<and> same_acks s s') (send_much c now force mb s)"
proof (cases "\<not> force \<and> delsnd s = TIMER_PENDING")
  case True
  then show ?thesis using assms(2) by (simp add: send_much_def)
next
  case False
  define s1 where "s1 = (if t_seqno s = 0 then s\<lparr>firstsent := now\<rparr> else s)"
  have g: "tcp_good c s1" "same_acks s s1" "delsnd s1 = delsnd s"
    using assms(2) good_other(1) by (auto simp: s1_def same_acks_def)
  have "send_much c now force mb s = (if burstsnd s1 = TIMER_PENDING then Inr s1 else send_loop c now force mb 0 s1)"
    unfolding send_much_def Let_def s1_def by (rule if_not_P) (rule False)
  moreover have "okE (\<lambda>s'. tcp_good c s' \<and> same_acks s s') (send_loop c now force mb 0 s1)"
    by (rule okE_mono [OF send_loop_good]) (use g assms(1) False same_acks_trans in auto)
  ultimately show ?thesis using g by simp
qed

lemma send_one_good:
  assumes "tcp_cfg_ok c" "tcp_good c s"
  shows "okE (\<lambda>s'. tcp_good c s' \<and> same_acks s s') (send_one c now s)"
proof (cases "of_int (t_seqno s) \<le> of_int (highest_ack s) + wnd c \<and> t_seqno s < curseq s
    \<and> of_int (t_seqno s) \<le> of_int (highest_ack s) + cwnd s + of_int (dupacks s)")
  case True
  then have w: "of_int (t_seqno s) \<le> of_int (highest_ack s) + wnd c" by simp
  have "send_one c now s = bindR (tcp_output c now (t_seqno s) s) (\<lambda>s1. Inr (s1\<lparr>t_seqno := t_seqno s1 + 1\<rparr>))"
    unfolding send_one_def by (rule if_P) (rule True)
  with okE_bind [OF send_step_good [OF assms w, of now]] show ?thesis by simp
next
  case False
  then have "send_one c now s = Inr s" unfolding send_one_def by (rule if_not_P)
  with assms(2) show ?thesis by simp
qed

text \<open>A segment is resent, or the segment after the last acknowledged one.\<close>

lemma resend_good:
  assumes "tcp_cfg_ok c" "tcp_base c s" "init_ok s"
  shows "okE (\<lambda>s'. tcp_good c s' \<and> same_acks s s') (tcp_output c now (last_ack s + 1) s)"
proof (rule okE_mono [OF tcp_output_good [OF assms]])
  note b = tcp_baseD [OF assms(2)]
  show "0 \<le> last_ack s + 1" "last_ack s + 1 \<le> maxseq s + 1" using b by simp_all
  show "of_int (last_ack s + 1) \<le> of_int (highest_ack s) + wnd c" using b(3) assms(1) by (simp add: tcp_cfg_ok_def)
qed simp

section \<open>Acknowledgements\<close>

lemma set_rtx_timer_good:
  assumes "tcp_base c s" "init_ok s"
  shows "okE (\<lambda>s'. tcp_good c s' \<and> same_acks s s' \<and> t_seqno s' = t_seqno s) (set_rtx_timer c s)"
proof (rule okE_mono [OF set_rtx_timer_armed])
  fix s' assume a: "armed s s'"
  then have "seqs_of s' = seqs_of s" by (simp add: armed_def)
  from seqs_of_eqD(4) [OF this] armed_good [OF a assms] show "tcp_good c s' \<and> same_acks s s' \<and> t_seqno s' = t_seqno s" by simp
qed

text \<open>All is sent again from the first segment not acknowledged, or stays as it was (\<open>mild\<close>).\<close>

lemma base_rewind:
  assumes "tcp_base c s"
  shows "tcp_base c (s\<lparr>t_seqno := highest_ack s + 1\<rparr>)"
  by (rule tcp_baseI) (use tcp_baseD [OF assms] in auto)

lemma good_rewind: "tcp_good c s \<Longrightarrow> tcp_good c (s\<lparr>t_seqno := highest_ack s + 1\<rparr>)"
  using base_rewind by (simp add: tcp_good_def tcp_inv_def rtx_ok_def init_ok_def)

lemma reset_rtx_timer_good:
  assumes "tcp_base c s" "init_ok s"
  shows "okE (\<lambda>s'. tcp_good c s' \<and> same_acks s s' \<and> t_seqno s' = (if mild then t_seqno s else highest_ack s' + 1)) (reset_rtx_timer c mild bo s)"
  unfolding reset_rtx_timer_def
proof (rule okE_bind [OF set_rtx_timer_good])
  let ?s = "if bo then s\<lparr>rt := rtt_backoff (rttc c) (rt s)\<rparr> else s"
  have o: "outside s ?s" by (simp add: outside_def seqs_of_def)
  show "tcp_base c ?s" "init_ok ?s" using outside_base [OF o] outside_init [OF o] assms by auto
  fix s1 assume a: "tcp_good c s1 \<and> same_acks ?s s1 \<and> t_seqno s1 = t_seqno ?s"
  then have g: "tcp_good c s1" "same_acks s s1" using same_acks_trans [OF outside_same_acks [OF o]] by blast+
  define s2 where "s2 = (if mild then s1 else s1\<lparr>t_seqno := highest_ack s1 + 1\<rparr>)"
  have "tcp_good c s2" using g(1) good_rewind by (simp add: s2_def)
  then have "tcp_good c (s2\<lparr>rtt_active := False\<rparr>)" by (rule outside_good [rotated]) (simp add: outside_def seqs_of_def)
  moreover have "t_seqno s2 = (if mild then t_seqno s else highest_ack s2 + 1)" "same_acks s s2"
    using a g(2) by (auto simp: s2_def same_acks_def)
  ultimately show "okE (\<lambda>s'. tcp_good c s' \<and> same_acks s s' \<and> t_seqno s' = (if mild then t_seqno s else highest_ack s' + 1))
     (let s2 = (if mild then s1 else s1\<lparr>t_seqno := highest_ack s1 + 1\<rparr>) in Inr (s2\<lparr>rtt_active := False\<rparr>))"
    unfolding Let_def s2_def [symmetric] by (simp add: same_acks_def)
qed

text \<open>
  An ACK of new data: the numbers move up to it; the timer runs if data is still outstanding.
\<close>

definition ack_seqs :: "int \<Rightarrow> seqs \<Rightarrow> seqs" where
  "ack_seqs n q = q\<lparr>q_high := n, q_last := n, q_next := max (q_next q) (n + 1)\<rparr>"

definition timed :: "int \<Rightarrow> tcp \<Rightarrow> tcp \<Rightarrow> bool" where
  "timed n s s' \<longleftrightarrow> seqs_of s' = seqs_of s \<and> (n < maxseq s \<longrightarrow> rtx s' = TIMER_PENDING) \<and> wnd_init_option s' = wnd_init_option s"

lemma newtimer_timed: "okE (timed n s) (newtimer c n s)"
proof (cases "t_seqno s > n \<or> n < maxseq s \<or> cwnd s < 1")
  case True
  then have "newtimer c n s = set_rtx_timer c s" unfolding newtimer_def by (rule if_P)
  with okE_mono [OF set_rtx_timer_armed] show ?thesis by (simp add: armed_def timed_def)
next
  case False
  then have "newtimer c n s = Inr (force_cancel TCP_TIMER_RTX s)" unfolding newtimer_def by (rule if_not_P)
  with False show ?thesis by (simp add: timed_def seqs_of_def force_cancel_def put_timer_def act_out_def)
qed

lemma ack_numbers_seqs: "seqs_of (ack_numbers n s) = ack_seqs n (seqs_of s)" "rtx (ack_numbers n s) = rtx s"
  "wnd_init_option (ack_numbers n s) = wnd_init_option s" "maxseq (ack_numbers n s) = maxseq s"
  by (simp_all add: ack_numbers_def ack_seqs_def seqs_of_def Let_def)

lemma end_backoff_outside: "outside s (end_backoff h s)"
  by (simp add: outside_def seqs_of_def end_backoff_def)

lemma outside_trans: "outside s1 s2 \<Longrightarrow> outside s2 s3 \<Longrightarrow> outside s1 s3"
  by (simp add: outside_def)

lemma outside_updates:
  "outside s (s\<lparr>rt := r\<rparr>)" "outside s (s\<lparr>rtt_active := b\<rparr>)" "outside s (s\<lparr>awnd := x\<rparr>)" "outside s (s\<lparr>closed := b\<rparr>)"
  "outside s (s\<lparr>ecn_backoff := b1, ecn_burst := b2\<rparr>)" "outside s (s\<lparr>ect_peer := b\<rparr>)" "outside s (s\<lparr>cwnd := x\<rparr>)" "outside s s"
  by (simp_all add: outside_def seqs_of_def)

lemma ack_timestamp_outside: "outside s (ack_timestamp c now h s)"
  unfolding ack_timestamp_def Let_def
  by (simp add: outside_updates outside_trans [OF outside_updates(1) end_backoff_outside])

lemma ack_sample_outside: "outside s (ack_sample c now h s)"
proof -
  have 1: "outside s ((end_backoff h s)\<lparr>rtt_active := False\<rparr>)" by (rule outside_trans [OF end_backoff_outside outside_updates(2)])
  then have "outside s ((end_backoff h s)\<lparr>rtt_active := False, rt := r\<rparr>)" for r by (simp add: outside_def seqs_of_def)
  with 1 show ?thesis unfolding ack_sample_def Let_def by (simp add: outside_updates)
qed

lemma ack_seqs_ok:
  assumes "tcp_base c s" "highest_ack s < n" "n \<le> maxseq s"
  shows "seqs_ok c (ack_seqs n (seqs_of s))"
  using tcp_baseD [OF assms(1)] assms(2,3) by (auto simp: seqs_ok_def ack_seqs_def seqs_of_def)

definition acked :: "int \<Rightarrow> tcp \<Rightarrow> tcp \<Rightarrow> bool" where
  "acked n s s' \<longleftrightarrow> seqs_of s' = ack_seqs n (seqs_of s) \<and> (n < maxseq s \<longrightarrow> rtx s' = TIMER_PENDING)
     \<and> wnd_init_option s' = wnd_init_option s"

lemma acked_good:
  assumes "acked n s s'" "tcp_base c s" "init_ok s" "highest_ack s < n" "n \<le> maxseq s"
  shows "tcp_good c s'" "highest_ack s' = n" "maxseq s' = maxseq s" "recover s' = recover s"
proof -
  show q: "highest_ack s' = n" "maxseq s' = maxseq s" "recover s' = recover s" using assms(1) by (simp_all add: acked_def ack_seqs_def seqs_of_def)
  show "tcp_good c s'"
    using assms ack_seqs_ok [OF assms(2,4,5)] q by (simp add: acked_def tcp_good_def tcp_inv_def tcp_base_def rtx_ok_def init_ok_def)
qed

lemma newack_acked: "okE (acked (th_seqno h) s) (newack c now h s)"
  unfolding newack_def
proof (rule okE_bind)
  let ?n = "th_seqno h"
  show "okE (\<lambda>s1. if timerfix c then s1 = s else timed ?n s s1) (if timerfix c then Inr s else newtimer c ?n s)"
    using newtimer_timed by simp
  fix s1 assume s1: "if timerfix c then s1 = s else timed ?n s s1"
  define s2 where "s2 = ack_numbers ?n s1"
  define s3 where "s3 = (if f_no_ts h then s2 else ack_sample c now h (ack_timestamp c now h s2))"
  have o: "outside s2 s3" unfolding s3_def using outside_trans [OF ack_timestamp_outside ack_sample_outside] outside_updates(8) by simp
  have q1: "seqs_of s1 = seqs_of s" "wnd_init_option s1 = wnd_init_option s" using s1 by (auto simp: timed_def split: if_splits)
  have q3: "seqs_of s3 = ack_seqs ?n (seqs_of s)" "rtx s3 = rtx s1" "wnd_init_option s3 = wnd_init_option s" "maxseq s3 = maxseq s"
    using o ack_numbers_seqs [of ?n s1] q1 seqs_of_eqD(2) [OF q1(1)] seqs_of_eqD(2) [of s3 s2] by (simp_all add: outside_def flip: s2_def)
  have "okE (acked ?n s) (if timerfix c then newtimer c ?n s3 else Inr s3)"
  proof (cases "timerfix c")
    case True
    have "okE (acked ?n s) (newtimer c ?n s3)"
      by (rule okE_mono [OF newtimer_timed]) (use q3 in \<open>simp add: timed_def acked_def\<close>)
    with True show ?thesis by simp
  qed (use s1 q3 in \<open>simp add: acked_def timed_def\<close>)
  then have "okE (acked ?n s) (bindR (if timerfix c then newtimer c ?n s3 else Inr s3) (\<lambda>s4. Inr (s4\<lparr>awnd := awnd s4 * (1 - wnd_th c) + wnd_th c * cwnd s4\<rparr>)))"
    by (rule okE_bind) (simp add: acked_def seqs_of_def)
  then show "okE (acked ?n s) (let s2 = ack_numbers ?n s1; s3 = (if f_no_ts h then s2 else ack_sample c now h (ack_timestamp c now h s2))
      in bindR (if timerfix c then newtimer c ?n s3 else Inr s3) (\<lambda>s4. Inr (s4\<lparr>awnd := awnd s4 * (1 - wnd_th c) + wnd_th c * cwnd s4\<rparr>)))"
    unfolding Let_def s2_def [symmetric] s3_def [symmetric] .
qed

lemma ack_ecn_outside: "outside s (ack_ecn h s)"
  by (simp add: outside_def seqs_of_def ack_ecn_def Let_def)

lemma ack_done_outside: "outside s (ack_done s)"
  by (simp add: outside_def seqs_of_def ack_done_def act_out_def)

lemma frto_newack_good:
  assumes "tcp_good c s" "0 \<le> highest_ack s"
  shows "tcp_good c (frto_newack c s)" "highest_ack (frto_newack c s) = highest_ack s" "maxseq (frto_newack c s) = maxseq s"
proof -
  have g: "tcp_base c s" "rtx_ok s" "init_ok s" using assms(1) by (simp_all add: tcp_good_def tcp_inv_def)
  note b = tcp_baseD [OF g(1)]
  have "tcp_base c (frto_newack c s)"
    by (rule tcp_baseI) (use b assms(2) in \<open>auto simp: frto_newack_def spurious_timeout_def\<close>)
  with g show "tcp_good c (frto_newack c s)"
    by (simp add: tcp_good_def tcp_inv_def rtx_ok_def init_ok_def frto_newack_def spurious_timeout_def)
qed (simp_all add: frto_newack_def spurious_timeout_def)

lemma recv_newack_helper_good:
  assumes cfg: "tcp_cfg_ok c" and s: "tcp_good c s" and n: "highest_ack s < th_seqno h" "th_seqno h \<le> maxseq s"
  shows "okE (\<lambda>s'. tcp_good c s' \<and> highest_ack s' = th_seqno h \<and> maxseq s' = maxseq s) (recv_newack_helper c now h s)"
  unfolding recv_newack_helper_def
proof (rule okE_bind [OF newack_acked])
  have base: "tcp_base c s" "init_ok s" using s by (simp_all add: tcp_good_def tcp_inv_def)
  fix s1 assume a: "acked (th_seqno h) s s1"
  note s1 = acked_good [OF a base n]
  let ?op = "(\<not> ect_peer s1 \<or> \<not> f_ecnecho h \<or> (old_ecn c \<and> ecn_burst s1)) \<and> (\<not> control_increase c \<or> network_limited c s1)"
  have "okE (outside s1) (if ?op then opencwnd c s1 else Inr s1)"
    using opencwnd_outside [OF cfg] outside_updates(8) by (cases ?op) simp_all
  then show "okE (\<lambda>s'. tcp_good c s' \<and> highest_ack s' = th_seqno h \<and> maxseq s' = maxseq s)
     (bindR (if ?op then opencwnd c s1 else Inr s1) (\<lambda>s2. Inr (frto_newack c (ack_done (ack_ecn h s2)))))"
  proof (rule okE_bind)
    fix s2 assume "outside s1 s2"
    then have o: "outside s1 (ack_done (ack_ecn h s2))" (is "outside _ ?s3")
      using ack_ecn_outside ack_done_outside outside_trans by blast
    then have q: "seqs_of ?s3 = seqs_of s1" by (simp add: outside_def)
    have "0 \<le> highest_ack ?s3" using tcp_baseD(1) [OF base(1)] n(1) s1(2) seqs_of_eqD(1) [OF q] by linarith
    with frto_newack_good [OF outside_good [OF o s1(1)]] s1 seqs_of_eqD(1,2) [OF q]
    show "okE (\<lambda>s'. tcp_good c s' \<and> highest_ack s' = th_seqno h \<and> maxseq s' = maxseq s) (Inr (frto_newack c ?s3))" by simp
  qed
qed

lemma recv_new_good:
  assumes "tcp_cfg_ok c" "tcp_good c s" "highest_ack s < th_seqno h" "th_seqno h \<le> maxseq s"
  shows "okE (\<lambda>s'. tcp_good c s' \<and> highest_ack s' = th_seqno h \<and> maxseq s' = maxseq s) (recv_new c now h s)"
  unfolding recv_new_def
proof (rule okE_bind [OF recv_newack_helper_good [OF assms]])
  fix s1 assume s1: "tcp_good c s1 \<and> highest_ack s1 = th_seqno h \<and> maxseq s1 = maxseq s"
  then have "\<exists>w. initial_window c s1 = Inr w" by (auto simp: tcp_good_def init_ok_def initial_window_def)
  with s1 good_other(3) show "okE (\<lambda>s'. tcp_good c s' \<and> highest_ack s' = th_seqno h \<and> maxseq s' = maxseq s)
      (if last_ack s1 = 0 \<and> delay_growth c then bindR (initial_window c s1) (\<lambda>w. Inr (s1\<lparr>cwnd := w\<rparr>)) else Inr s1)"
    by auto
qed

lemma recv_end_good:
  assumes "tcp_cfg_ok c" "tcp_good c s"
  shows "okE (\<lambda>s'. tcp_good c s' \<and> same_acks s s') (recv_end c now h s)"
  using assms send_much_good [OF assms] by (simp add: recv_end_def)

text \<open>A mark or a timeout notes how far sending had got.\<close>

lemma base_recover:
  assumes "tcp_base c s"
  shows "tcp_base c (s\<lparr>recover := maxseq s\<rparr>)"
  by (rule tcp_baseI) (use tcp_baseD [OF assms] in auto)

lemma good_recover: "tcp_good c s \<Longrightarrow> tcp_good c (s\<lparr>recover := maxseq s\<rparr>)"
  using base_recover by (simp add: tcp_good_def tcp_inv_def rtx_ok_def init_ok_def)

definition noted :: "tcp \<Rightarrow> tcp \<Rightarrow> bool" where
  "noted s s' \<longleftrightarrow> outside s s' \<or> outside (s\<lparr>recover := maxseq s\<rparr>) s'"

lemma noted_good: "noted s s' \<Longrightarrow> tcp_good c s \<Longrightarrow> tcp_good c s'"
  unfolding noted_def using outside_good good_recover by blast

lemma noted_acks:
  assumes "noted s s'"
  shows "highest_ack s' = highest_ack s" "maxseq s' = maxseq s" "last_ack s' = last_ack s" "frto s' = frto s" "t_seqno s' = t_seqno s"
    "t_lastreset s' = t_lastreset s"
  using assms by (auto simp: noted_def outside_def seqs_of_def)

lemma noted_outside: "noted s s' \<Longrightarrow> outside s' s'' \<Longrightarrow> noted s s''"
  unfolding noted_def using outside_trans by blast

lemma ecn_noted: "noted s (ecn c n s)"
proof (cases "n > recover s \<or> last_cwnd_action s = CWND_ACTION_TIMEOUT")
  case True
  define s1 where "s1 = s\<lparr>recover := maxseq s, last_cwnd_action := CWND_ACTION_ECN\<rparr>"
  define s2 where "s2 = (if cwnd s1 \<le> 1 then
      (if ecn_backoff s1 then s1\<lparr>rt := rtt_backoff (rttc c) (rt s1)\<rparr> else s1\<lparr>ecn_backoff := True\<rparr>) else s1\<lparr>ecn_backoff := False\<rparr>)"
  have "outside (s\<lparr>recover := maxseq s\<rparr>) s2" by (simp add: s2_def s1_def outside_def seqs_of_def)
  then have "noted s (slowdown c [CLOSE_CWND_HALF, CLOSE_SSTHRESH_HALF] s2)"
    unfolding noted_def using slowdown_outside outside_trans by blast
  moreover have "ecn c n s = slowdown c [CLOSE_CWND_HALF, CLOSE_SSTHRESH_HALF] s2"
    unfolding ecn_def Let_def s2_def s1_def by (rule if_P) (rule True)
  ultimately show ?thesis by simp
next
  case False
  then have "ecn c n s = s" unfolding ecn_def by (rule if_not_P)
  then show ?thesis by (simp add: noted_def outside_updates)
qed

text \<open>Duplicates: nothing new is acknowledged.\<close>

definition grown :: "tcp \<Rightarrow> tcp \<Rightarrow> bool" where
  "grown s s' \<longleftrightarrow> highest_ack s' = highest_ack s \<and> last_ack s' = last_ack s \<and> maxseq s \<le> maxseq s' \<and> t_lastreset s' = t_lastreset s"

lemma grown_refl [simp]: "grown s s"
  by (simp add: grown_def)

lemma grown_trans: "grown s1 s2 \<Longrightarrow> grown s2 s3 \<Longrightarrow> grown s1 s3"
  by (simp add: grown_def)

lemma grown_acks: "same_acks s s' \<Longrightarrow> grown s s'" "noted s s' \<Longrightarrow> grown s s'" "outside s s' \<Longrightarrow> grown s s'"
  using noted_acks [of s s'] outside_same_acks [of s s'] by (simp_all add: same_acks_def grown_def)

text \<open>What follows a state keeps the invariant and the acknowledgements.\<close>

definition good_from :: "tcp_cfg \<Rightarrow> tcp \<Rightarrow> tcp \<Rightarrow> bool" where
  "good_from c s s' \<longleftrightarrow> tcp_good c s' \<and> grown s s'"

lemma good_from_outside: "good_from c s s1 \<Longrightarrow> outside s1 s2 \<Longrightarrow> good_from c s s2"
  using outside_good grown_acks(3) grown_trans unfolding good_from_def by blast

lemma good_from_noted: "good_from c s s1 \<Longrightarrow> noted s1 s2 \<Longrightarrow> good_from c s s2"
  using noted_good grown_acks(2) grown_trans unfolding good_from_def by blast

lemma good_from_trans: "good_from c s1 s2 \<Longrightarrow> good_from c s2 s3 \<Longrightarrow> good_from c s1 s3"
  unfolding good_from_def using grown_trans by blast

lemma good_from_bind:
  assumes "okE (good_from c s) m" "\<And>s'. tcp_good c s' \<Longrightarrow> okE (good_from c s') (f s')"
  shows "okE (good_from c s) (bindR m f)"
  using assms(1)
proof (rule okE_bind)
  fix s' assume a: "good_from c s s'"
  then have "okE (good_from c s') (f s')" using assms(2) by (simp add: good_from_def)
  then show "okE (good_from c s) (f s')" by (rule okE_mono) (rule good_from_trans [OF a])
qed

lemma good_from_start:
  assumes "okE (good_from c s1) m" "grown s s1"
  shows "okE (good_from c s) m"
  using assms(1)
proof (rule okE_mono)
  fix s' assume "good_from c s1 s'"
  with grown_trans [OF assms(2)] show "good_from c s s'" by (simp add: good_from_def)
qed

lemma sending_good_from:
  assumes "tcp_cfg_ok c" "tcp_good c s"
  shows "okE (good_from c s) (send_much c now force mb s)" "okE (good_from c s) (send_one c now s)" "okE (good_from c s) (recv_end c now h s)"
    "okE (good_from c s) (reset_rtx_timer c mild bo s)" "okE (good_from c s) (tcp_output c now (last_ack s + 1) s)"
proof -
  have g: "tcp_base c s" "init_ok s" using assms(2) by (simp_all add: tcp_good_def tcp_inv_def)
  show "okE (good_from c s) (send_much c now force mb s)"
    by (rule okE_mono [OF send_much_good [OF assms]]) (simp add: good_from_def grown_acks(1))
  show "okE (good_from c s) (send_one c now s)"
    by (rule okE_mono [OF send_one_good [OF assms]]) (simp add: good_from_def grown_acks(1))
  show "okE (good_from c s) (recv_end c now h s)"
    by (rule okE_mono [OF recv_end_good [OF assms]]) (simp add: good_from_def grown_acks(1))
  show "okE (good_from c s) (reset_rtx_timer c mild bo s)"
    by (rule okE_mono [OF reset_rtx_timer_good [OF g]]) (simp add: good_from_def grown_acks(1))
  show "okE (good_from c s) (tcp_output c now (last_ack s + 1) s)"
    by (rule okE_mono [OF resend_good [OF assms(1) g]]) (simp add: good_from_def grown_acks(1))
qed

lemma recv_frto_helper_good:
  assumes "tcp_good c s"
  shows "good_from c s (recv_frto_helper h s)"
proof -
  have g: "tcp_base c s" "rtx_ok s" "init_ok s" using assms(1) by (simp_all add: tcp_good_def tcp_inv_def)
  have "tcp_base c (recv_frto_helper h s)"
    by (rule tcp_baseI) (use tcp_baseD [OF g(1)] in \<open>auto simp: recv_frto_helper_def\<close>)
  with g show ?thesis
    by (simp add: good_from_def tcp_good_def tcp_inv_def rtx_ok_def init_ok_def grown_def recv_frto_helper_def)
qed

lemma noted_dupack:
  "noted s (slowdown c how (s\<lparr>recover := maxseq s, last_cwnd_action := w\<rparr>))" "noted s (slowdown c how (s\<lparr>last_cwnd_action := w\<rparr>))"
  "noted s (s\<lparr>last_cwnd_action := w\<rparr>)"
proof -
  have "outside (s\<lparr>recover := maxseq s\<rparr>) (s\<lparr>recover := maxseq s, last_cwnd_action := w\<rparr>)" "outside s (s\<lparr>last_cwnd_action := w\<rparr>)"
    by (simp_all add: outside_def seqs_of_def)
  then show "noted s (slowdown c how (s\<lparr>recover := maxseq s, last_cwnd_action := w\<rparr>))" "noted s (slowdown c how (s\<lparr>last_cwnd_action := w\<rparr>))"
    "noted s (s\<lparr>last_cwnd_action := w\<rparr>)"
    unfolding noted_def using slowdown_outside outside_trans by blast+
qed

lemma tahoe_dupack_good:
  assumes "tcp_cfg_ok c" "tcp_good c s"
  shows "okE (good_from c s) (tahoe_dupack_action c s)"
proof -
  have reset: "noted s s1 \<Longrightarrow> okE (good_from c s) (reset_rtx_timer c False False s1)" for s1
    using sending_good_from(4) [OF assms(1)] noted_good grown_acks(2) assms(2) good_from_start by blast
  show ?thesis
    unfolding tahoe_dupack_action_def Let_def using reset noted_dupack assms(2) by (simp add: good_from_def)
qed

lemma reno_dupack_good:
  assumes "tcp_cfg_ok c" "tcp_good c s"
  shows "okE (good_from c s) (reno_dupack_action c now s)"
proof -
  have dup: "okE (good_from c s1) (bindR (tcp_output c now (last_ack s1 + 1) s1) (\<lambda>s2. Inr (s2\<lparr>dupwnd := n\<rparr>)))" if "tcp_good c s1" for s1 n
    using sending_good_from(5) [OF assms(1) that, of now] by (rule good_from_bind) (simp add: good_from_def grown_def good_other)
  have resend: "okE (good_from c s) (bindR (reset_rtx_timer c True False s1)
      (\<lambda>s1. bindR (tcp_output c now (last_ack s1 + 1) s1) (\<lambda>s2. Inr (s2\<lparr>dupwnd := n\<rparr>))))" if "noted s s1" for s1 n
  proof (rule good_from_start)
    show "okE (good_from c s1) (bindR (reset_rtx_timer c True False s1) (\<lambda>s1. bindR (tcp_output c now (last_ack s1 + 1) s1) (\<lambda>s2. Inr (s2\<lparr>dupwnd := n\<rparr>))))"
      using sending_good_from(4) [OF assms(1) noted_good [OF that assms(2)]] by (rule good_from_bind) (rule dup)
    show "grown s s1" using that by (rule grown_acks(2))
  qed
  show ?thesis
    unfolding reno_dupack_action_def Let_def using resend noted_dupack assms(2) by (simp add: good_from_def)
qed

lemma dup_good:
  assumes "tcp_cfg_ok c" "tcp_good c s"
  shows "okE (good_from c s) (if reno c then reno_dup c now s else tahoe_dup c now s)"
proof -
  define s1 where "s1 = s\<lparr>dupacks := dupacks s + 1\<rparr>"
  have s1: "tcp_good c s1" "grown s s1" using good_other(2) assms(2) by (simp_all add: s1_def grown_def)
  note start = good_from_start [OF _ s1(2)]
  have one: "okE (good_from c s) (send_one c now s1)" by (rule start [OF sending_good_from(2) [OF assms(1) s1(1)]])
  have t: "okE (good_from c s) (tahoe_dupack_action c s1)" by (rule start [OF tahoe_dupack_good [OF assms(1) s1(1)]])
  have r: "okE (good_from c s) (bindR (reno_dupack_action c now s1) (\<lambda>s2. Inr (if \<not> exitFastRetrans c then s2\<lparr>dupwnd := numdupacks c\<rparr> else s2)))"
    by (rule start, rule good_from_bind [OF reno_dupack_good [OF assms(1) s1(1)]]) (simp add: good_from_def grown_def good_other)
  have s: "good_from c s s1" "good_from c s (s1\<lparr>dupwnd := n\<rparr>)" for n
    using s1 good_other(4) by (auto simp: good_from_def grown_def)
  show ?thesis
    unfolding tahoe_dup_def reno_dup_def Let_def s1_def [symmetric] using one t r s by simp
qed

lemma eln_good:
  assumes "tcp_cfg_ok c" "tcp_good c s"
  shows "okE (good_from c s) (tcp_eln c now h s)"
proof -
  define s1 where "s1 = s\<lparr>dupacks := dupacks s + 1\<rparr>"
  have s1: "tcp_good c s1" "grown s s1" using good_other(2) assms(2) by (simp_all add: s1_def grown_def)
  note start = good_from_start [OF _ s1(2)]
  have "okE (good_from c s) (bindR (tcp_output c now (last_ack s1 + 1) s1) (\<lambda>s2. Inr (s2\<lparr>eln_last_rxmit := last_ack s2 + 1\<rparr>)))"
    by (rule start, rule good_from_bind [OF sending_good_from(5) [OF assms(1) s1(1)]]) (simp add: good_from_def grown_def good_other)
  with start [OF sending_good_from(1) [OF assms(1) s1(1)]] show ?thesis
    unfolding tcp_eln_def Let_def s1_def [symmetric] by simp
qed

end
