(* ===== verification/TcpSenderRuns.thy ===== *)
theory TcpSenderRuns
  imports TcpSenderInv
begin

text \<open>
  The TCP senders at work: every operation keeps the invariant, so it holds in every state that ACKs,
  timeouts and the application can lead to; what a timeout, three duplicate ACKs and the window do.
\<close>

section \<open>Operations\<close>

lemma put_timer_lastreset [simp]: "t_lastreset (put_timer t x s) = t_lastreset s" "rt (put_timer t x s) = rt s" "t_acts (put_timer t x s) = t_acts s"
  by (cases t; simp add: put_timer_def)+

lemma base_put_timer:
  assumes "tcp_base c s"
  shows "tcp_base c (put_timer t x s)"
proof (rule tcp_base_cong [OF _ assms])
  show "seqs_of (put_timer t x s) = seqs_of s" by (cases t) (simp_all add: put_timer_def seqs_of_def)
qed

lemma put_timer_simps [simp]:
  "highest_ack (put_timer t x s) = highest_ack s" "last_ack (put_timer t x s) = last_ack s" "maxseq (put_timer t x s) = maxseq s"
  "wnd_init_option (put_timer t x s) = wnd_init_option s" "init_ok (put_timer t x s) \<longleftrightarrow> init_ok s"
  by (cases t; simp add: put_timer_def init_ok_def)+

text \<open>An ACK, of a segment that has been sent.\<close>

definition new_ack :: "tcp_hdr \<Rightarrow> tcp \<Rightarrow> int" where
  "new_ack h s = (if th_ts h < t_lastreset s then highest_ack s else max (highest_ack s) (th_seqno h))"

lemma tcp_recv_good:
  assumes cfg: "tcp_cfg_ok c" and s: "tcp_good c s" and n: "th_seqno h \<le> maxseq s"
  shows "okE (\<lambda>s'. tcp_good c s' \<and> highest_ack s' = new_ack h s \<and> maxseq s \<le> maxseq s') (tcp_recv c now h s)"
proof (cases "th_ts h < t_lastreset s")
  case True
  then have "tcp_recv c now h s = Inr s" unfolding tcp_recv_def by (rule if_P)
  with True s show ?thesis by (simp add: new_ack_def)
next
  case False
  define s1 where "s1 = s\<lparr>ts_peer := th_ts h\<rparr>"
  define s2 where "s2 = (if f_ecnecho h \<and> ecn_on c then ecn c (th_seqno h) s1 else s1)"
  define s3 where "s3 = recv_frto_helper h s2"
  define s4 where "s4 = (if reno c then
       s3\<lparr>last_cwnd_action := (if last_cwnd_action s3 = CWND_ACTION_DUPACK then CWND_ACTION_EXITED else last_cwnd_action s3), dupwnd := 0\<rparr> else s3)"
  have "good_from c s s1" using s good_other(5) by (simp add: s1_def good_from_def grown_def)
  then have "good_from c s s2" using good_from_noted [OF _ ecn_noted] by (simp add: s2_def)
  then have g3: "good_from c s s3"
    using recv_frto_helper_good good_from_trans by (simp add: s3_def good_from_def) (metis good_from_def good_from_trans)
  have h3: "highest_ack s3 = highest_ack s" "maxseq s \<le> maxseq s3" "tcp_good c s3" using g3 by (simp_all add: good_from_def grown_def)
  have l3: "last_ack s3 = highest_ack s3" using tcp_baseD(3) [of c s3] h3(3) by (simp add: tcp_good_def tcp_inv_def)
  have eq: "tcp_recv c now h s =
     (if th_seqno h > last_ack s3 then bindR (recv_new c now h s4) (recv_end c now h)
      else if th_seqno h = last_ack s3 then
        (if f_eln h \<and> eln c then tcp_eln c now h s3
         else bindR (if reno c then reno_dup c now s3 else tahoe_dup c now s3) (recv_end c now h))
      else recv_end c now h s3)"
    unfolding tcp_recv_def Let_def s1_def [symmetric] s2_def [symmetric] s3_def [symmetric] s4_def [symmetric]
    by (rule if_not_P) (rule False)
  consider (new) "th_seqno h > last_ack s3" | (dup) "th_seqno h = last_ack s3" | (old) "th_seqno h < last_ack s3" by linarith
  then show ?thesis
  proof cases
    case new
    have g4: "tcp_good c s4" "highest_ack s4 = highest_ack s" "maxseq s4 = maxseq s3" using h3 good_other(10) by (simp_all add: s4_def)
    have "okE (\<lambda>s'. tcp_good c s' \<and> highest_ack s' = new_ack h s \<and> maxseq s \<le> maxseq s') (bindR (recv_new c now h s4) (recv_end c now h))"
    proof (rule okE_bind [OF recv_new_good [OF cfg g4(1)]])
      show "highest_ack s4 < th_seqno h" "th_seqno h \<le> maxseq s4" using new l3 h3 g4 n by simp_all
      fix s5 assume a: "tcp_good c s5 \<and> highest_ack s5 = th_seqno h \<and> maxseq s5 = maxseq s4"
      then have "tcp_good c s5" ..
      from sending_good_from(3) [OF cfg this] show "okE (\<lambda>s'. tcp_good c s' \<and> highest_ack s' = new_ack h s \<and> maxseq s \<le> maxseq s') (recv_end c now h s5)"
        by (rule okE_mono) (use a new l3 h3 g4 False in \<open>simp add: good_from_def grown_def new_ack_def\<close>)
    qed
    with eq new show ?thesis by simp
  next
    case dup
    have "okE (good_from c s3) (if f_eln h \<and> eln c then tcp_eln c now h s3
         else bindR (if reno c then reno_dup c now s3 else tahoe_dup c now s3) (recv_end c now h))"
      using eln_good [OF cfg h3(3)] good_from_bind [OF dup_good [OF cfg h3(3)] sending_good_from(3) [OF cfg]] by simp
    then have "okE (good_from c s3) (tcp_recv c now h s)" unfolding eq using dup by simp
    then show ?thesis by (rule okE_mono) (use dup l3 h3 False in \<open>simp add: good_from_def grown_def new_ack_def\<close>)
  next
    case old
    then have "tcp_recv c now h s = recv_end c now h s3" unfolding eq by simp
    with sending_good_from(3) [OF cfg h3(3)] have "okE (good_from c s3) (tcp_recv c now h s)" by simp
    then show ?thesis by (rule okE_mono) (use old l3 h3 False in \<open>simp add: good_from_def grown_def new_ack_def\<close>)
  qed
qed

text \<open>A timeout.\<close>

lemma slowdown_simps [simp]:
  "highest_ack (slowdown c how s) = highest_ack s" "maxseq (slowdown c how s) = maxseq s" "last_ack (slowdown c how s) = last_ack s"
  "t_seqno (slowdown c how s) = t_seqno s" "recover (slowdown c how s) = recover s" "frto (slowdown c how s) = frto s"
  "t_acts (slowdown c how s) = t_acts s" "wnd_init_option (slowdown c how s) = wnd_init_option s" "rtx (slowdown c how s) = rtx s"
  "delsnd (slowdown c how s) = delsnd s" "burstsnd (slowdown c how s) = burstsnd s" "dupwnd (slowdown c how s) = dupwnd s"
  "curseq (slowdown c how s) = curseq s" "t_lastreset (slowdown c how s) = t_lastreset s" "wnd_restart (slowdown c how s) = wnd_restart s" "closed (slowdown c how s) = closed s"
  by (simp_all add: slowdown_def Let_def)

lemma rtx_slowdown_simps [simp]:
  "highest_ack (rtx_slowdown c s) = highest_ack s" "maxseq (rtx_slowdown c s) = maxseq s" "last_ack (rtx_slowdown c s) = last_ack s"
  "t_seqno (rtx_slowdown c s) = t_seqno s" "recover (rtx_slowdown c s) = maxseq s" "t_acts (rtx_slowdown c s) = t_acts s"
  "delsnd (rtx_slowdown c s) = delsnd s" "burstsnd (rtx_slowdown c s) = burstsnd s" "dupwnd (rtx_slowdown c s) = dupwnd s"
  "curseq (rtx_slowdown c s) = curseq s" "t_lastreset (rtx_slowdown c s) = t_lastreset s" "wnd_restart (rtx_slowdown c s) = wnd_restart s" "closed (rtx_slowdown c s) = closed s"
  by (simp_all add: rtx_slowdown_def Let_def)

lemma rtx_slowdown_frto: "\<not> frto_enabled c \<Longrightarrow> frto (rtx_slowdown c s) = frto s"
  by (simp add: rtx_slowdown_def Let_def)

lemma rtx_slowdown_init: "init_ok s \<Longrightarrow> init_ok (rtx_slowdown c s)"
  by (simp add: rtx_slowdown_def Let_def init_ok_def)

lemma rtx_slowdown_base:
  assumes "tcp_base c s"
  shows "tcp_base c (rtx_slowdown c s)"
  by (rule tcp_baseI) (use tcp_baseD [OF assms] in \<open>auto simp: rtx_slowdown_frto\<close>)

definition before_rtx :: "tcp_cfg \<Rightarrow> tcp \<Rightarrow> tcp" where
  "before_rtx c s =
     (let s1 = s\<lparr>frto := 0, pipe_prev := (if tcp_window c (s\<lparr>frto := 0\<rparr>) > ssthresh s then tcp_window c (s\<lparr>frto := 0\<rparr>) else ssthresh s)\<rparr>;
          s2 = (if cwnd s1 < 1 then s1\<lparr>cwnd := 1\<rparr> else s1)
      in if highest_ack s2 = maxseq s2 \<and> \<not> slow_start_restart c then s2 else rtx_slowdown c s2)"

lemma rtx_timeout_eq:
  "rtx_timeout c now s =
     (let s3 = before_rtx c s
      in bindR (reset_rtx_timer c False (\<not> (highest_ack s3 = maxseq s3 \<and> restart_bugfix c)) s3) (\<lambda>s4.
           send_much c now False (maxburst c) (s4\<lparr>last_cwnd_action := CWND_ACTION_TIMEOUT\<rparr>)))"
  by (simp only: rtx_timeout_def before_rtx_def Let_def)

lemma before_rtx_simps [simp]:
  "highest_ack (before_rtx c s) = highest_ack s" "maxseq (before_rtx c s) = maxseq s" "last_ack (before_rtx c s) = last_ack s"
  "t_acts (before_rtx c s) = t_acts s" "delsnd (before_rtx c s) = delsnd s" "burstsnd (before_rtx c s) = burstsnd s"
  "dupwnd (before_rtx c s) = dupwnd s" "t_lastreset (before_rtx c s) = t_lastreset s" "curseq (before_rtx c s) = curseq s"
  by (simp_all add: before_rtx_def Let_def)

lemma before_rtx_base:
  assumes "tcp_base c s" "init_ok s"
  shows "tcp_base c (before_rtx c s)" "init_ok (before_rtx c s)"
proof -
  define s1 where "s1 = s\<lparr>frto := 0, pipe_prev := (if tcp_window c (s\<lparr>frto := 0\<rparr>) > ssthresh s then tcp_window c (s\<lparr>frto := 0\<rparr>) else ssthresh s)\<rparr>"
  define s2 where "s2 = (if cwnd s1 < 1 then s1\<lparr>cwnd := 1\<rparr> else s1)"
  have "tcp_base c s2" by (rule tcp_baseI) (use tcp_baseD [OF assms(1)] in \<open>auto simp: s2_def s1_def\<close>)
  moreover have "init_ok s2" using assms(2) by (simp add: s2_def s1_def init_ok_def)
  moreover have "before_rtx c s = (if highest_ack s2 = maxseq s2 \<and> \<not> slow_start_restart c then s2 else rtx_slowdown c s2)"
    by (simp only: before_rtx_def Let_def s2_def s1_def)
  ultimately show "tcp_base c (before_rtx c s)" "init_ok (before_rtx c s)" using rtx_slowdown_base rtx_slowdown_init by auto
qed

lemma rtx_timeout_good:
  assumes cfg: "tcp_cfg_ok c" and s: "tcp_base c s" "init_ok s"
  shows "okE (\<lambda>s'. tcp_good c s' \<and> grown s s') (rtx_timeout c now s)"
  unfolding rtx_timeout_eq Let_def
proof (rule okE_bind [OF reset_rtx_timer_good [OF before_rtx_base [OF s]]])
  fix s4 assume a: "tcp_good c s4 \<and> same_acks (before_rtx c s) s4 \<and> t_seqno s4 = (if False then t_seqno (before_rtx c s) else highest_ack s4 + 1)"
  then have g: "tcp_good c (s4\<lparr>last_cwnd_action := CWND_ACTION_TIMEOUT\<rparr>)" by (intro good_other(9)) simp
  from sending_good_from(1) [OF cfg g]
  show "okE (\<lambda>s'. tcp_good c s' \<and> grown s s') (send_much c now False (maxburst c) (s4\<lparr>last_cwnd_action := CWND_ACTION_TIMEOUT\<rparr>))"
    by (rule okE_mono) (use a in \<open>simp add: good_from_def grown_def same_acks_def\<close>)
qed

lemma tcp_expire_good:
  assumes cfg: "tcp_cfg_ok c" and s: "tcp_good c s"
  shows "okE (good_from c s) (tcp_expire c now t s)"
proof -
  have b: "tcp_base c s" "init_ok s" using s by (simp_all add: tcp_good_def tcp_inv_def)
  define s0 where "s0 = put_timer t TIMER_HANDLING s"
  have b0: "tcp_base c s0" "init_ok s0" "grown s s0" using base_put_timer [OF b(1)] b(2) by (simp_all add: s0_def grown_def)
  have g0: "tcp_good c s0" if "t \<noteq> TCP_TIMER_RTX"
    using that b0 s by (cases t) (simp_all add: s0_def tcp_good_def tcp_inv_def rtx_ok_def put_timer_def)
  have "okE (\<lambda>s'. tcp_good c s' \<and> grown s s' \<and> (t = TCP_TIMER_RTX \<and> timer_of t s' = TIMER_HANDLING \<longrightarrow> maxseq s' \<le> highest_ack s')) (tcp_timeout c now t s0)"
  proof (cases t)
    case TCP_TIMER_RTX
    define s1 where "s1 = (if reno c then s0\<lparr>dupwnd := 0, dupacks := 0, recover := (if bug_fix c then maxseq s0 else recover s0)\<rparr> else s0)"
    have 1: "tcp_base c s1" by (rule tcp_baseI) (use tcp_baseD [OF b0(1)] in \<open>auto simp: s1_def\<close>)
    have 2: "init_ok s1" using b0(2) by (simp add: s1_def init_ok_def)
    have 3: "grown s s1" using b0(3) by (simp add: s1_def grown_def)
    have "tcp_timeout c now t s0 = rtx_timeout c now s1" using TCP_TIMER_RTX by (simp add: tcp_timeout_def s1_def)
    moreover have "okE (\<lambda>s'. tcp_good c s' \<and> grown s s' \<and> (timer_of t s' = TIMER_HANDLING \<longrightarrow> maxseq s' \<le> highest_ack s')) (rtx_timeout c now s1)"
      by (rule okE_mono [OF rtx_timeout_good [OF cfg 1 2]])
        (use 3 TCP_TIMER_RTX grown_trans in \<open>auto simp: tcp_good_def tcp_inv_def rtx_ok_def timer_of_def\<close>)
    ultimately show ?thesis using TCP_TIMER_RTX by simp
  next
    case TCP_TIMER_DELSND
    then have "tcp_timeout c now t s0 = send_much c now True (maxburst c) s0" by (simp add: tcp_timeout_def)
    with TCP_TIMER_DELSND okE_mono [OF sending_good_from(1) [OF cfg g0]] b0(3) grown_trans show ?thesis
      by (simp add: good_from_def)
  next
    case TCP_TIMER_BURSTSND
    with g0 b0(3) show ?thesis by (simp add: tcp_timeout_def)
  qed
  then show ?thesis unfolding tcp_expire_def s0_def [symmetric]
  proof (rule okE_bind)
    fix s1 assume a: "tcp_good c s1 \<and> grown s s1 \<and> (t = TCP_TIMER_RTX \<and> timer_of t s1 = TIMER_HANDLING \<longrightarrow> maxseq s1 \<le> highest_ack s1)"
    then have "tcp_good c (put_timer t TIMER_IDLE s1)" if "timer_of t s1 = TIMER_HANDLING"
      using that base_put_timer [of c s1 t] by (cases t) (auto simp: tcp_good_def tcp_inv_def rtx_ok_def put_timer_def init_ok_def)
    with a show "okE (good_from c s) (Inr (if timer_of t s1 = TIMER_HANDLING then put_timer t TIMER_IDLE s1 else s1))"
      by (simp add: good_from_def grown_def)
  qed
qed

section \<open>Runs\<close>

datatype tcp_event = AckArrives tcp_hdr | TimerExpires tcp_timer | SendBytes int | AdvanceBy int | AdvanceTo int

definition tcp_step :: "tcp_cfg \<Rightarrow> time \<Rightarrow> tcp_event \<Rightarrow> tcp \<Rightarrow> tcp res" where
  "tcp_step c now ev s =
     (case ev of
        AckArrives h \<Rightarrow> tcp_recv c now h s
      | TimerExpires t \<Rightarrow> if timer_of t s = TIMER_PENDING then tcp_expire c now t s else Inr s
      | SendBytes n \<Rightarrow> sendmsg c now n s
      | AdvanceBy n \<Rightarrow> advanceby c now n s
      | AdvanceTo n \<Rightarrow> advance_to c now n s)"

text \<open>An ACK is of something that has been sent.\<close>

definition event_ok :: "tcp \<Rightarrow> tcp_event \<Rightarrow> bool" where
  "event_ok s ev \<longleftrightarrow> (case ev of AckArrives h \<Rightarrow> th_seqno h \<le> maxseq s | _ \<Rightarrow> True)"

fun tcp_run :: "tcp_cfg \<Rightarrow> (time \<times> tcp_event) list \<Rightarrow> tcp \<Rightarrow> tcp res" where
  "tcp_run c [] s = Inr s"
| "tcp_run c ((now, ev) # evs) s = bindR (tcp_step c now ev s) (tcp_run c evs)"

lemma advanceby_good:
  assumes "tcp_cfg_ok c" "tcp_good c s"
  shows "okE (good_from c s) (advanceby c now n s)"
proof -
  let ?s = "s\<lparr>curseq := curseq s + n, closed := (if n > 0 then False else closed s)\<rparr>"
  have "tcp_good c ?s" "grown s ?s" using good_other(7) [OF assms(2)] by (simp_all add: grown_def)
  then show ?thesis unfolding advanceby_def using good_from_start [OF sending_good_from(1) [OF assms(1)]] by blast
qed

lemma sendmsg_good:
  assumes "tcp_cfg_ok c" "tcp_good c s"
  shows "okE (good_from c s) (sendmsg c now n s)"
proof -
  let ?s = "\<lambda>m. s\<lparr>curseq := m\<rparr>"
  have "tcp_good c (?s m)" "grown s (?s m)" for m using good_other(6) [OF assms(2)] by (simp_all add: grown_def)
  then have "okE (good_from c s) (send_much c now False (maxburst c) (?s m))" for m
    using good_from_start [OF sending_good_from(1) [OF assms(1)]] by blast
  then show ?thesis unfolding sendmsg_def by simp
qed

lemma tcp_step_good:
  assumes "tcp_cfg_ok c" "tcp_good c s" "event_ok s ev"
  shows "okE (\<lambda>s'. tcp_good c s' \<and> highest_ack s \<le> highest_ack s' \<and> maxseq s \<le> maxseq s') (tcp_step c now ev s)"
proof -
  have from_ok: "okE (good_from c s) m \<Longrightarrow> okE (\<lambda>s'. tcp_good c s' \<and> highest_ack s \<le> highest_ack s' \<and> maxseq s \<le> maxseq s') m" for m
    by (erule okE_mono) (simp add: good_from_def grown_def)
  show ?thesis
  proof (cases ev)
    case (AckArrives h)
    with assms(3) okE_mono [OF tcp_recv_good [OF assms(1,2), of h now]] show ?thesis
      by (simp add: tcp_step_def event_ok_def new_ack_def)
  next
    case (TimerExpires t)
    with tcp_expire_good [OF assms(1,2)] assms(2) from_ok show ?thesis by (simp add: tcp_step_def)
  next
    case (SendBytes n)
    with from_ok [OF sendmsg_good [OF assms(1,2)]] show ?thesis by (simp add: tcp_step_def)
  next
    case (AdvanceBy n)
    with from_ok [OF advanceby_good [OF assms(1,2)]] show ?thesis by (simp add: tcp_step_def)
  next
    case (AdvanceTo n)
    with from_ok [OF advanceby_good [OF assms(1,2)]] show ?thesis by (simp add: tcp_step_def advance_to_def)
  qed
qed

text \<open>The events of a run are in order: each ACK is of something sent by then.\<close>

fun events_ok :: "tcp_cfg \<Rightarrow> (time \<times> tcp_event) list \<Rightarrow> tcp \<Rightarrow> bool" where
  "events_ok c [] s \<longleftrightarrow> True"
| "events_ok c ((now, ev) # evs) s \<longleftrightarrow>
     event_ok s ev \<and> (case tcp_step c now ev s of Inl er \<Rightarrow> True | Inr s' \<Rightarrow> events_ok c evs s')"

lemma tcp_run_good:
  assumes "tcp_cfg_ok c"
  shows "tcp_good c s \<Longrightarrow> events_ok c evs s \<Longrightarrow> okE (\<lambda>s'. tcp_good c s' \<and> highest_ack s \<le> highest_ack s') (tcp_run c evs s)"
proof (induction evs arbitrary: s)
  case (Cons tev evs)
  obtain now ev where e: "tev = (now, ev)" by fastforce
  have ok: "event_ok s ev" using Cons.prems(2) e by simp
  note st = tcp_step_good [OF assms Cons.prems(1) ok, of now]
  show ?case
  proof (cases "tcp_step c now ev s")
    case (Inl er)
    with st e show ?thesis by (simp add: okE_def)
  next
    case (Inr s1)
    with st have s1: "tcp_good c s1" "highest_ack s \<le> highest_ack s1" by simp_all
    have "events_ok c evs s1" using Cons.prems(2) e Inr by simp
    from okE_mono [OF Cons.IH [OF s1(1) this]] s1(2) e Inr show ?thesis by simp
  qed
qed simp

text \<open>An agent as its constructor and the bound variables leave it.\<close>

definition fresh_tcp :: "tcp \<Rightarrow> bool" where
  "fresh_tcp s \<longleftrightarrow> t_acts s = [] \<and> frto s = 0 \<and> init_ok s"

lemma force_cancel_simps [simp]:
  "highest_ack (force_cancel t s) = highest_ack s" "maxseq (force_cancel t s) = maxseq s" "last_ack (force_cancel t s) = last_ack s"
  "t_seqno (force_cancel t s) = t_seqno s" "recover (force_cancel t s) = recover s" "frto (force_cancel t s) = frto s"
  "wnd_init_option (force_cancel t s) = wnd_init_option s" "sent (t_acts (force_cancel t s)) = sent (t_acts s)"
  "rt (force_cancel t s) = rt s" "cwnd (force_cancel t s) = cwnd s" "ssthresh (force_cancel t s) = ssthresh s"
  "curseq (force_cancel t s) = curseq s" "wnd_restart (force_cancel t s) = wnd_restart s"
  by (cases t; simp add: force_cancel_def put_timer_def act_out_def)+

lemma set_initial_window_ok:
  assumes "init_ok s"
  shows "\<exists>w n. set_initial_window c s = Inr (s\<lparr>cwnd := w, syn_connects := n\<rparr>)"
proof (cases "syn c \<and> delay_growth c")
  case False
  then have e: "set_initial_window c s = bindR (initial_window c s) (\<lambda>w. Inr (s\<lparr>cwnd := w\<rparr>))"
    unfolding set_initial_window_def by (rule if_not_P)
  from assms obtain w where "initial_window c s = Inr w" by (auto simp: init_ok_def initial_window_def)
  then have "set_initial_window c s = Inr (s\<lparr>cwnd := w, syn_connects := syn_connects s\<rparr>)" unfolding e by simp
  then show ?thesis by blast
qed (auto simp: set_initial_window_def)

lemma tcp_reset_good:
  assumes "tcp_cfg_ok c" "fresh_tcp s"
  shows "\<exists>s'. tcp_reset c now u s = Inr s' \<and> tcp_good c s' \<and> highest_ack s' = -1 \<and> sent (t_acts s') = {} \<and> wnd_restart s' = 1
    \<and> rt s' = rtt_init (rttc c) (rt s)"
proof -
  let ?s = "s\<lparr>rt := rtt_init (rttc c) (rt s), rtt_seq := - 1, dupacks := 0, curseq := 0\<rparr>"
  have f: "t_acts s = []" "frto s = 0" "init_ok ?s" using assms(2) by (simp_all add: fresh_tcp_def init_ok_def)
  from set_initial_window_ok [OF f(3)] obtain w n where w: "set_initial_window c ?s = Inr (?s\<lparr>cwnd := w, syn_connects := n\<rparr>)" by blast
  define s2 where "s2 = cancel_timers (reset_numbers c now u (?s\<lparr>cwnd := w, syn_connects := n\<rparr>))"
  define s' where "s' = (if control_increase c then s2\<lparr>prev_highest_ack := highest_ack s2\<rparr> else s2)"
  have s': "tcp_reset c now u s = Inr s'" unfolding tcp_reset_def w by (simp add: Let_def s'_def s2_def)
  have "highest_ack s2 = -1" "maxseq s2 = -1" "last_ack s2 = -1" "t_seqno s2 = 0" "recover s2 = 0" "frto s2 = 0"
    "sent (t_acts s2) = {}" "wnd_init_option s2 = wnd_init_option s" "wnd_restart s2 = 1" "rt s2 = rtt_init (rttc c) (rt s)"
    using f by (simp_all add: s2_def cancel_timers_def reset_numbers_def)
  then have q: "highest_ack s' = -1" "maxseq s' = -1" "last_ack s' = -1" "t_seqno s' = 0" "recover s' = 0" "frto s' = 0"
    "sent (t_acts s') = {}" "wnd_init_option s' = wnd_init_option s" "wnd_restart s' = 1" "rt s' = rtt_init (rttc c) (rt s)"
    by (simp_all add: s'_def)
  have "tcp_base c s'" by (rule tcp_baseI) (use q assms(1) in \<open>auto simp: tcp_cfg_ok_def all_sent_def\<close>)
  with s' q f(3) show ?thesis by (auto simp: tcp_good_def tcp_inv_def rtx_ok_def init_ok_def)
qed

section \<open>Returning\<close>

text \<open>With a timeout that has not overflowed, sending returns; it adds to the effects.\<close>

definition returns :: "tcp_cfg \<Rightarrow> tcp \<Rightarrow> tcp res \<Rightarrow> bool" where
  "returns c s m \<longleftrightarrow> (\<exists>s' as. m = Inr s' \<and> rtt_ok (rttc c) (rt s') \<and> t_acts s' = t_acts s @ as)"

lemma returns_bind:
  assumes "returns c s m" "\<And>s'. m = Inr s' \<Longrightarrow> rtt_ok (rttc c) (rt s') \<Longrightarrow> returns c s' (f s')"
  shows "returns c s (bindR m f)"
proof -
  from assms(1) obtain s1 as where 1: "m = Inr s1" "rtt_ok (rttc c) (rt s1)" "t_acts s1 = t_acts s @ as" by (auto simp: returns_def)
  from assms(2) [OF 1(1,2)] 1 show ?thesis by (auto simp: returns_def)
qed

lemma returns_Inr: "rtt_ok (rttc c) (rt s') \<Longrightarrow> t_acts s' = t_acts s @ as \<Longrightarrow> returns c s (Inr s')"
  by (simp add: returns_def)

lemma returns_from: "returns c s1 m \<Longrightarrow> t_acts s1 = t_acts s @ as \<Longrightarrow> returns c s m"
  by (auto simp: returns_def)

lemma set_rtx_timer_returns:
  assumes "rtt_cfg_ok (rttc c)" "rtt_ok (rttc c) (rt s)"
  shows "returns c s (set_rtx_timer c s)"
proof -
  from rtt_timeout_ok [OF assms] obtain t r where "rtt_timeout (rttc c) (rt s) = Inr (t, r)" "rtt_ok (rttc c) r" by blast
  then show ?thesis by (simp add: set_rtx_timer_def returns_def)
qed

lemma tcp_output_sends:
  assumes "rtt_cfg_ok (rttc c)" "rtt_ok (rttc c) (rt s)" "max_connects c \<le> 0"
  obtains s' p as where "tcp_output c now n s = Inr s'" "rtt_ok (rttc c) (rt s')" "t_acts s' = t_acts s @ SendSeg p # as"
    "th_seqno (body p) = n" "th_ts (body p) = now"
proof -
  obtain p s2 where p: "out_packet c now n s = (p, s2)" by fastforce
  have s2: "s2 = snd (out_packet c now n s)" and pn: "th_seqno (body p) = n" "th_ts (body p) = now"
    using p out_packet_simps(15,16) [of c now n s] by simp_all
  define s4 where "s4 = (if n = curseq s2 \<and> n > maxseq s2 then act_out AppIdle (act_out (SendSeg p) s2) else act_out (SendSeg p) s2)"
  define s5 where "s5 = record_sent now n s4"
  have e: "tcp_output c now n s = (if rtx s5 \<noteq> TIMER_PENDING \<or> highest_ack s2 = maxseq s2 then set_rtx_timer c s5 else Inr s5)"
    unfolding tcp_output_def p Let_def prod.case s5_def s4_def by (rule if_not_P) (use assms in simp)
  have a: "\<exists>as. t_acts s5 = t_acts s @ SendSeg p # as" "rt s5 = rt s" by (auto simp: s5_def s4_def s2)
  then have "rtt_ok (rttc c) (rt s5)" using assms(2) by simp
  note st = set_rtx_timer_returns [OF assms(1) this]
  show thesis
  proof (cases "rtx s5 \<noteq> TIMER_PENDING \<or> highest_ack s2 = maxseq s2")
    case True
    then have "tcp_output c now n s = set_rtx_timer c s5" unfolding e by (rule if_P)
    with st a pn that show thesis by (auto simp: returns_def)
  next
    case False
    then have "tcp_output c now n s = Inr s5" unfolding e by (rule if_not_P)
    with a pn that assms(2) show thesis by auto
  qed
qed

lemma tcp_output_returns:
  assumes "rtt_cfg_ok (rttc c)" "rtt_ok (rttc c) (rt s)" "max_connects c \<le> 0"
  shows "returns c s (tcp_output c now n s)"
proof -
  from tcp_output_sends [OF assms] obtain s' p as where "tcp_output c now n s = Inr s'" "rtt_ok (rttc c) (rt s')"
    "t_acts s' = t_acts s @ SendSeg p # as" by metis
  then show ?thesis by (simp add: returns_def)
qed

lemma send_loop_returns:
  "rtt_cfg_ok (rttc c) \<Longrightarrow> max_connects c \<le> 0 \<Longrightarrow> rtt_ok (rttc c) (rt s) \<Longrightarrow> force \<or> overhead c = 0 \<or> delsnd s \<noteq> TIMER_PENDING
    \<Longrightarrow> returns c s (send_loop c now force mb n s)"
proof (induction c now force mb n s rule: send_loop.induct)
  case (1 c now force mb n s)
  note step = send_loop.simps [of c now force mb n s]
  show ?case
  proof (cases "t_seqno s \<le> highest_ack s + tcp_window c s \<and> t_seqno s < curseq s")
    case go: True
    show ?thesis
    proof (cases "overhead c = 0 \<or> force")
      case free: True
      from tcp_output_returns [OF 1(2,4,3), of now "t_seqno s"] obtain s1 as where s1: "tcp_output c now (t_seqno s) s = Inr s1"
        "rtt_ok (rttc c) (rt s1)" "t_acts s1 = t_acts s @ as" by (auto simp: returns_def)
      define s2 where "s2 = s1\<lparr>t_seqno := t_seqno s1 + 1\<rparr>"
      have s2: "rtt_ok (rttc c) (rt s2)" "t_acts s2 = t_acts s @ as" using s1 by (simp_all add: s2_def)
      have eq: "send_loop c now force mb n s = (if mb \<noteq> 0 \<and> n + 1 = mb then Inr s2 else send_loop c now force mb (n + 1) s2)"
        using step go free s1 by (simp add: s2_def Let_def)
      have "returns c s2 (send_loop c now force mb (n + 1) s2)" if "\<not> (mb \<noteq> 0 \<and> n + 1 = mb)"
        by (rule 1(1)) (use go free s1 s2_def that s2(1) 1(2,3) in auto)
      with eq s2 returns_from show ?thesis by (cases "mb \<noteq> 0 \<and> n + 1 = mb") (auto simp: returns_def)
    next
      case False
      with step go 1(5) have "send_loop c now force mb n s = Inr (resched TCP_TIMER_DELSND (Uniform (overhead c)) s)" by simp
      with 1(4) show ?thesis by (simp add: returns_def)
    qed
  next
    case False
    then have "send_loop c now force mb n s = Inr s" unfolding step by (rule if_not_P)
    with 1(4) show ?thesis by (simp add: returns_def)
  qed
qed

text \<open>A loop with room in the window sends the segment that is next.\<close>

lemma send_loop_sends:
  assumes "rtt_cfg_ok (rttc c)" "max_connects c \<le> 0" "rtt_ok (rttc c) (rt s)" "overhead c = 0"
    and "t_seqno s \<le> highest_ack s + tcp_window c s" "t_seqno s < curseq s"
  obtains s' p as where "send_loop c now force mb n s = Inr s'" "t_acts s' = t_acts s @ SendSeg p # as"
    "th_seqno (body p) = t_seqno s" "rtt_ok (rttc c) (rt s')" "th_ts (body p) = now"
proof -
  from tcp_output_sends [OF assms(1,3,2)] obtain s1 p as where s1: "tcp_output c now (t_seqno s) s = Inr s1" "rtt_ok (rttc c) (rt s1)"
    "t_acts s1 = t_acts s @ SendSeg p # as" "th_seqno (body p) = t_seqno s" "th_ts (body p) = now" by metis
  define s2 where "s2 = s1\<lparr>t_seqno := t_seqno s1 + 1\<rparr>"
  have s2: "rtt_ok (rttc c) (rt s2)" "t_acts s2 = t_acts s @ SendSeg p # as" using s1 by (simp_all add: s2_def)
  have eq: "send_loop c now force mb n s = (if mb \<noteq> 0 \<and> n + 1 = mb then Inr s2 else send_loop c now force mb (n + 1) s2)"
    using send_loop.simps [of c now force mb n s] assms s1 by (simp add: s2_def Let_def)
  have "returns c s2 (send_loop c now force mb (n + 1) s2)" by (rule send_loop_returns) (use assms s2 in simp_all)
  with that eq s2 s1(4,5) show thesis by (cases "mb \<noteq> 0 \<and> n + 1 = mb") (auto simp: returns_def)
qed

end
