(* ===== verification/TcpSenderProps.thy ===== *)
theory TcpSenderProps
  imports TcpSenderRuns
begin

text \<open>
  What the TCP senders promise: safety of any run, the resend after a timeout, fast retransmit, the
  halving and the growth of the window.
\<close>

section \<open>An agent with the defaults\<close>

definition demo_cfg :: "bool \<Rightarrow> tcp_cfg" where
  "demo_cfg r =
     \<lparr>rttc = default_rtt, reno = r, wnd = 20, wnd_const = 4, wnd_th = 2 / 1000, wnd_option = 1, decrease_num = 1 / 2,
      increase_num = 1, k_parameter = 0, l_parameter = 1, maxcwnd = 0, max_ssthresh = 0, numdupacks = 3, overhead = 0,
      maxburst = 0, aggressive_maxburst = True, singledup = True, noFastRetrans = False, exitFastRetrans = True, bug_fix = True,
      bugfix_ss = True, ecn_on = False, old_ecn = False, SetCWRonRetransmit = True, eln = False, eln_rxmit_thresh = 1, syn = True,
      delay_growth = True, max_connects = -1, slow_start_restart = True, restart_bugfix = True, precision_reduce = True,
      control_increase = False, timerfix = True, ts_resetRTO = False, frto_enabled = False, spurious_response = 1,
      useHeaders = True, tcpip_base_hdr_size = 40, ts_option_size = 10, seg_size = 1000, src_addr = 0, src_port = 0,
      sink_addr = 1, sink_port = 0, t_fid = 0, t_defttl = 32\<rparr>"

definition demo_tcp :: tcp where
  "demo_tcp =
     \<lparr>rt = demo_est, t_seqno = 0, dupacks = 0, curseq = 0, highest_ack = 0, maxseq = 0, last_ack = 0, recover = 0, cwnd = 0,
      ssthresh = 0, last_cwnd_action = NO_ACTION, count = 0, fcnt = 0, awnd = 0, rtt_active = False, rtt_seq = -1, rtt_ts = 0,
      firstsent = 0, t_lastreset = 0, boot_time = 0, ts_peer = 0, closed = False, wnd_init = 2, wnd_init_option = 1,
      wnd_restart = 1, syn_connects = 0, first_decrease = True, cong_action = False, ect_peer = False, ecn_backoff = False,
      ecn_burst = False, prev_highest_ack = 0, frto = 0, pipe_prev = 0, eln_last_rxmit = 0, dupwnd = 0, rtx = TIMER_IDLE,
      delsnd = TIMER_IDLE, burstsnd = TIMER_IDLE, t_uidcnt = 0, t_acts = []\<rparr>"

definition demo_ack :: "int \<Rightarrow> time \<Rightarrow> tcp_hdr" where
  "demo_ack n t = tcp_hdr_zero\<lparr>th_seqno := n, th_ts := t\<rparr>"

lemma demo_cfg_ok: "tcp_cfg_ok (demo_cfg r)"
  by (simp add: tcp_cfg_ok_def demo_cfg_def)

lemma demo_fresh: "fresh_tcp demo_tcp"
  by (simp add: fresh_tcp_def init_ok_def demo_tcp_def)

definition demo_seen :: "tcp res \<Rightarrow> (int list \<times> int list) option" where
  "demo_seen m = (case m of Inl er \<Rightarrow> None
     | Inr s \<Rightarrow> Some ([highest_ack s, maxseq s, t_seqno s, recover s, dupacks s],
          map (\<lambda>a. case a of SendSeg p \<Rightarrow> th_seqno (body p) | _ \<Rightarrow> -9) (t_acts s)))"

definition demo_events :: "(time \<times> tcp_event) list" where
  "demo_events = [(1, SendBytes 9000), (2, AckArrives (demo_ack 0 2)), (3, AckArrives (demo_ack 2 3)),
     (4, AckArrives (demo_ack 2 4)), (5, AckArrives (demo_ack 2 5)), (6, AckArrives (demo_ack 2 6)), (9, TimerExpires TCP_TIMER_RTX)]"

section \<open>Safety\<close>

text \<open>
  C15: A TCP sender, Tahoe or Reno, started afresh, never aborts or hangs, whatever ACKs of segments it
  has sent, timeouts and requests of the application come in whatever order; it can only exit on an
  overflowing timeout. The segments it has sent are those up to the highest, without a gap, each of its size; never is
  more than the receiver's window outstanding; while anything is, the retransmission timer runs.
\<close>

theorem tcp_sender_safe:
  assumes "tcp_cfg_ok c" and "fresh_tcp s0" and "tcp_reset c t0 u s0 = Inr s1" and "events_ok c evs s1"
  shows "case tcp_run c evs s1 of
      Inl er \<Rightarrow> er = Exited
    | Inr s \<Rightarrow> sent (t_acts s) = all_sent c (maxseq s) \<and> highest_ack s \<le> maxseq s \<and> of_int (maxseq s) \<le> of_int (highest_ack s) + wnd c
        \<and> t_seqno s \<le> maxseq s + 1 \<and> (\<not> frto_enabled c \<longrightarrow> highest_ack s < t_seqno s)
        \<and> (highest_ack s < maxseq s \<longrightarrow> rtx s = TIMER_PENDING)"
proof -
  from tcp_reset_good [OF assms(1,2), of t0 u] assms(3) have "tcp_good c s1" by auto
  note r = tcp_run_good [OF assms(1) this assms(4)]
  show ?thesis
  proof (cases "tcp_run c evs s1")
    case (Inr s)
    with r have "tcp_base c s" "rtx_ok s" by (simp_all add: tcp_good_def tcp_inv_def)
    from tcp_baseD [OF this(1)] this(2) Inr show ?thesis by (auto simp: rtx_ok_def)
  qed (use r in \<open>simp add: okE_def\<close>)
qed

theorem tcp_sender_safe_witness:
  "case tcp_reset (demo_cfg True) 0 0 demo_tcp of Inl er \<Rightarrow> False
   | Inr s1 \<Rightarrow> (case tcp_run (demo_cfg True) demo_events s1 of Inl er \<Rightarrow> er = Exited
       | Inr s \<Rightarrow> sent (t_acts s) = all_sent (demo_cfg True) (maxseq s) \<and> (highest_ack s < maxseq s \<longrightarrow> rtx s = TIMER_PENDING))"
proof -
  have e: "case tcp_reset (demo_cfg True) 0 0 demo_tcp of Inl er \<Rightarrow> False | Inr s \<Rightarrow> events_ok (demo_cfg True) demo_events s" by code_simp
  then obtain s1 where s1: "tcp_reset (demo_cfg True) 0 0 demo_tcp = Inr s1" by (cases "tcp_reset (demo_cfg True) 0 0 demo_tcp") auto
  with e have "events_ok (demo_cfg True) demo_events s1" by simp
  from tcp_sender_safe [OF demo_cfg_ok demo_fresh s1 this] s1 show ?thesis by (auto split: sum.splits)
qed

section \<open>A timeout\<close>

lemma window_pos:
  assumes "1 \<le> wnd c" "1 \<le> cwnd s" "frto s \<noteq> 2" "0 \<le> dupwnd s"
  shows "1 \<le> tcp_window c s"
proof -
  have "c_trunc 1 \<le> c_trunc (wnd c)" "c_trunc 1 \<le> c_trunc (cwnd s)" using assms by (simp_all add: trunc_mono)
  then have "1 \<le> c_trunc (wnd c)" "1 \<le> c_trunc (cwnd s)" by (simp_all add: c_trunc_def)
  with assms(3,4) show ?thesis by (auto simp: tcp_window_def Let_def)
qed

lemma before_rtx_window:
  assumes "1 \<le> wnd_restart s"
  shows "1 \<le> cwnd (before_rtx c s)" "frto (before_rtx c s) \<noteq> 2" "rt (before_rtx c s) = rt s"
proof -
  have "(1 :: real) \<le> of_int (c_trunc (wnd_restart s))"
    using of_int_le_iff [THEN iffD2, OF trunc_mono [OF assms]] by (simp add: c_trunc_def)
  then have sd: "1 \<le> cwnd (rtx_slowdown c s1)" if "wnd_restart s1 = wnd_restart s" for s1
    using that by (simp add: rtx_slowdown_def slowdown_def Let_def)
  have fr: "frto s1 = 0 \<Longrightarrow> frto (rtx_slowdown c s1) \<noteq> 2" for s1
    by (simp add: rtx_slowdown_def Let_def)
  have r: "rt (rtx_slowdown c s1) = rt s1" for s1
    by (simp add: rtx_slowdown_def slowdown_def Let_def)
  show "1 \<le> cwnd (before_rtx c s)" "frto (before_rtx c s) \<noteq> 2" "rt (before_rtx c s) = rt s"
    unfolding before_rtx_def Let_def by (simp_all add: sd fr r)
qed

lemma rtt_backoff_bounded:
  assumes "rtt_ok c r" "t_backoff r < 2 ^ 30"
  shows "rtt_ok c (rtt_backoff c r)"
proof -
  have "int32 (t_backoff r * 2) = t_backoff r * 2" by (rule int32_id) (use rtt_okD(2) [OF assms(1)] assms(2) in auto)
  then show ?thesis using rtt_okD [OF assms(1)] by (auto simp: rtt_ok_def rtt_backoff_def Let_def)
qed

lemma reset_rtx_timer_returns:
  assumes "rtt_cfg_ok (rttc c)" "rtt_ok (rttc c) (rt s)" "t_backoff (rt s) < 2 ^ 30"
  obtains s' as where "reset_rtx_timer c False bo s = Inr s'" "rtt_ok (rttc c) (rt s')" "t_acts s' = t_acts s @ as"
    "t_seqno s' = highest_ack s + 1" "highest_ack s' = highest_ack s" "cwnd s' = cwnd s" "frto s' = frto s" "dupwnd s' = dupwnd s"
    "curseq s' = curseq s" "delsnd s' = delsnd s" "burstsnd s' = burstsnd s"
proof -
  let ?s = "if bo then s\<lparr>rt := rtt_backoff (rttc c) (rt s)\<rparr> else s"
  have "rtt_ok (rttc c) (rt ?s)" using assms rtt_backoff_bounded by simp
  from rtt_timeout_ok [OF assms(1) this] obtain t r where r: "rtt_timeout (rttc c) (rt ?s) = Inr (t, r)" "rtt_ok (rttc c) r" by blast
  show thesis
    by (rule that [of "(resched TCP_TIMER_RTX (Exactly t) (?s\<lparr>rt := r\<rparr>))\<lparr>t_seqno := highest_ack s + 1, rtt_active := False\<rparr>" "[SetTimer TCP_TIMER_RTX (Exactly t)]"])
      (use r in \<open>simp_all add: reset_rtx_timer_def set_rtx_timer_def Let_def\<close>, simp_all add: resched_def put_timer_def act_out_def)
qed

definition resent :: "time \<Rightarrow> tcp \<Rightarrow> int \<Rightarrow> tcp \<Rightarrow> bool" where
  "resent now s n s' \<longleftrightarrow> (\<exists>as p bs. t_acts s' = t_acts s @ as @ SendSeg p # bs \<and> th_seqno (body p) = n \<and> th_ts (body p) = now)"

lemma rtx_timeout_resends:
  assumes cfg: "rtt_cfg_ok (rttc c)" "tcp_cfg_ok c" "overhead c = 0"
    and s: "rtt_ok (rttc c) (rt s)" "t_backoff (rt s) < 2 ^ 30" "1 \<le> wnd_restart s" "0 \<le> dupwnd s" "delsnd s \<noteq> TIMER_PENDING" "burstsnd s \<noteq> TIMER_PENDING"
      "highest_ack s + 1 < curseq s"
  shows "\<exists>s'. rtx_timeout c now s = Inr s' \<and> resent now s (highest_ack s + 1) s' \<and> rtt_ok (rttc c) (rt s')"
proof -
  have wnd: "1 \<le> wnd c" "max_connects c \<le> 0" using cfg(2) by (simp_all add: tcp_cfg_ok_def)
  define s3 where "s3 = before_rtx c s"
  define bo where "bo = (\<not> (highest_ack s3 = maxseq s3 \<and> restart_bugfix c))"
  note b3 = before_rtx_window [OF s(3), of c, folded s3_def]
  have "rtt_ok (rttc c) (rt s3)" "t_backoff (rt s3) < 2 ^ 30" using s b3 by simp_all
  from reset_rtx_timer_returns [OF cfg(1) this, of bo] obtain s4 as where s4: "reset_rtx_timer c False bo s3 = Inr s4"
    "rtt_ok (rttc c) (rt s4)" "t_acts s4 = t_acts s3 @ as" "t_seqno s4 = highest_ack s3 + 1" "highest_ack s4 = highest_ack s3"
    "cwnd s4 = cwnd s3" "frto s4 = frto s3" "dupwnd s4 = dupwnd s3" "curseq s4 = curseq s3" "delsnd s4 = delsnd s3" "burstsnd s4 = burstsnd s3"
    by metis
  define s5 where "s5 = (let s = s4\<lparr>last_cwnd_action := CWND_ACTION_TIMEOUT\<rparr> in if t_seqno s = 0 then s\<lparr>firstsent := now\<rparr> else s)"
  have s5: "rtt_ok (rttc c) (rt s5)" "t_acts s5 = t_acts s @ as" "t_seqno s5 = highest_ack s + 1" "highest_ack s5 = highest_ack s"
    "cwnd s5 = cwnd s3" "frto s5 = frto s3" "dupwnd s5 = dupwnd s" "curseq s5 = curseq s" "delsnd s5 = delsnd s" "burstsnd s5 = burstsnd s"
    using s4 by (simp_all add: s5_def s3_def Let_def)
  have "1 \<le> tcp_window c s5" by (rule window_pos) (use s5 b3 wnd s in simp_all)
  with s5 have "t_seqno s5 \<le> highest_ack s5 + tcp_window c s5" "t_seqno s5 < curseq s5" using s by simp_all
  from send_loop_sends [OF cfg(1) wnd(2) s5(1) cfg(3) this, of now False "maxburst c" 0] obtain s' p bs where
    s': "send_loop c now False (maxburst c) 0 s5 = Inr s'" "t_acts s' = t_acts s5 @ SendSeg p # bs" "th_seqno (body p) = t_seqno s5" "rtt_ok (rttc c) (rt s')"
    "th_ts (body p) = now" by metis
  have "send_much c now False (maxburst c) (s4\<lparr>last_cwnd_action := CWND_ACTION_TIMEOUT\<rparr>) = send_loop c now False (maxburst c) 0 s5"
    using s s5(9,10) s4 by (simp add: send_much_def Let_def s5_def s3_def)
  then have "rtx_timeout c now s = Inr s'" unfolding rtx_timeout_eq Let_def using s4(1) s'(1) by (simp add: bo_def s3_def)
  moreover have "resent now s (highest_ack s + 1) s'" using s' s5 by (auto simp: resent_def)
  ultimately show ?thesis using s'(4) by blast
qed

lemma tcp_expire_resends:
  assumes "rtt_cfg_ok (rttc c)" and "tcp_cfg_ok c" and "overhead c = 0"
    and "tcp_good c s" and "rtt_ok (rttc c) (rt s)" and "t_backoff (rt s) < 2 ^ 30" and "1 \<le> wnd_restart s" and "0 \<le> dupwnd s"
    and "delsnd s \<noteq> TIMER_PENDING" and "burstsnd s \<noteq> TIMER_PENDING" and "highest_ack s + 1 < curseq s"
  shows "\<exists>s'. tcp_expire c now TCP_TIMER_RTX s = Inr s' \<and> resent now s (highest_ack s + 1) s' \<and> good_from c s s' \<and> rtt_ok (rttc c) (rt s')"
proof -
  define s0 where "s0 = put_timer TCP_TIMER_RTX TIMER_HANDLING s"
  define s1 where "s1 = (if reno c then s0\<lparr>dupwnd := 0, dupacks := 0, recover := (if bug_fix c then maxseq s0 else recover s0)\<rparr> else s0)"
  have s1: "rtt_ok (rttc c) (rt s1)" "t_backoff (rt s1) < 2 ^ 30" "1 \<le> wnd_restart s1" "0 \<le> dupwnd s1" "delsnd s1 \<noteq> TIMER_PENDING"
    "burstsnd s1 \<noteq> TIMER_PENDING" "highest_ack s1 + 1 < curseq s1"
    using assms by (simp_all add: s1_def s0_def) (simp_all add: put_timer_def)
  have s1': "t_acts s1 = t_acts s" "highest_ack s1 = highest_ack s" by (simp_all add: s1_def s0_def put_timer_def)
  from rtx_timeout_resends [OF assms(1-3) s1] obtain s2 where s2: "rtx_timeout c now s1 = Inr s2" "resent now s1 (highest_ack s1 + 1) s2"
    "rtt_ok (rttc c) (rt s2)" by blast
  define s' where "s' = (if timer_of TCP_TIMER_RTX s2 = TIMER_HANDLING then put_timer TCP_TIMER_RTX TIMER_IDLE s2 else s2)"
  have eq: "tcp_expire c now TCP_TIMER_RTX s = Inr s'"
    using s2(1) by (simp add: tcp_expire_def tcp_timeout_def s'_def flip: s0_def s1_def)
  have "t_acts s' = t_acts s2" "rt s' = rt s2" by (simp_all add: s'_def)
  then have "resent now s (highest_ack s + 1) s'" "rtt_ok (rttc c) (rt s')" using s2 s1' by (simp_all add: resent_def)
  with tcp_expire_good [OF assms(2,4), of now TCP_TIMER_RTX] eq show ?thesis by simp
qed

text \<open>
  C16: When the retransmission timer of a sender expires and the application has data beyond what is
  acknowledged, the first segment not acknowledged is sent again and the timer runs on, whatever the
  state of the window and of the recovery.
\<close>

theorem tcp_timeout_resends:
  assumes "rtt_cfg_ok (rttc c)" and "tcp_cfg_ok c" and "overhead c = 0"
    and "tcp_good c s" and "rtt_ok (rttc c) (rt s)" and "t_backoff (rt s) < 2 ^ 30" and "1 \<le> wnd_restart s" and "0 \<le> dupwnd s"
    and "delsnd s \<noteq> TIMER_PENDING" and "burstsnd s \<noteq> TIMER_PENDING" and "highest_ack s + 1 < curseq s"
  shows "\<exists>s'. tcp_expire c now TCP_TIMER_RTX s = Inr s' \<and> resent now s (highest_ack s + 1) s' \<and> highest_ack s' = highest_ack s
    \<and> (highest_ack s' < maxseq s' \<longrightarrow> rtx s' = TIMER_PENDING)"
  using tcp_expire_resends [OF assms, of now] by (auto simp: good_from_def grown_def tcp_good_def tcp_inv_def rtx_ok_def)

definition demo_state :: "bool \<Rightarrow> nat \<Rightarrow> tcp res" where
  "demo_state r n = bindR (tcp_reset (demo_cfg r) 0 0 demo_tcp) (tcp_run (demo_cfg r) (take n demo_events))"

lemma demo_state_good:
  assumes "demo_state r n = Inr s"
    and "case tcp_reset (demo_cfg r) 0 0 demo_tcp of Inl er \<Rightarrow> False | Inr s1 \<Rightarrow> events_ok (demo_cfg r) (take n demo_events) s1"
  shows "tcp_good (demo_cfg r) s"
proof -
  from tcp_reset_good [OF demo_cfg_ok demo_fresh, of r 0 0] obtain s1 where s1: "tcp_reset (demo_cfg r) 0 0 demo_tcp = Inr s1" "tcp_good (demo_cfg r) s1"
    by auto
  with assms tcp_run_good [OF demo_cfg_ok s1(2), of "take n demo_events"] show ?thesis by (simp add: demo_state_def)
qed

theorem tcp_timeout_resends_witness:
  "case demo_state True 5 of Inl er \<Rightarrow> False
   | Inr s \<Rightarrow> \<exists>s'. tcp_expire (demo_cfg True) 9 TCP_TIMER_RTX s = Inr s' \<and> resent 9 s 3 s'"
proof -
  let ?c = "demo_cfg True"
  have e: "case tcp_reset ?c 0 0 demo_tcp of Inl er \<Rightarrow> False | Inr s1 \<Rightarrow> events_ok ?c (take 5 demo_events) s1" by code_simp
  have f: "case demo_state True 5 of Inl er \<Rightarrow> False | Inr s \<Rightarrow> rtt_ok (rttc ?c) (rt s) \<and> t_backoff (rt s) < 2 ^ 30 \<and> 1 \<le> wnd_restart s
      \<and> 0 \<le> dupwnd s \<and> delsnd s = TIMER_IDLE \<and> burstsnd s = TIMER_IDLE \<and> highest_ack s = 2 \<and> 3 < curseq s" by code_simp
  then obtain s where s: "demo_state True 5 = Inr s" by (cases "demo_state True 5") auto
  have c: "rtt_cfg_ok (rttc ?c)" "overhead ?c = 0" using default_rtt_ok by (simp_all add: demo_cfg_def)
  have "\<exists>s'. tcp_expire ?c 9 TCP_TIMER_RTX s = Inr s' \<and> resent 9 s (highest_ack s + 1) s' \<and> highest_ack s' = highest_ack s
    \<and> (highest_ack s' < maxseq s' \<longrightarrow> rtx s' = TIMER_PENDING)"
    by (rule tcp_timeout_resends [OF c(1) demo_cfg_ok c(2) demo_state_good [OF s e]]) (use f s in simp_all)
  with f s show ?thesis by auto
qed

section \<open>Duplicate ACKs\<close>

definition steady :: "tcp \<Rightarrow> tcp \<Rightarrow> bool" where
  "steady s s' \<longleftrightarrow> cwnd s' = cwnd s \<and> ssthresh s' = ssthresh s \<and> recover s' = recover s \<and> dupwnd s' = dupwnd s
     \<and> highest_ack s' = highest_ack s \<and> last_ack s' = last_ack s \<and> dupacks s' = dupacks s"

lemma steady_output: "tcp_output c now n s = Inr s' \<Longrightarrow> steady s s'"
  using tcp_output_frame [of c now n s s'] by (simp add: steady_def)

text \<open>What sending one segment keeps, the loop keeps.\<close>

lemma send_loop_keeps:
  assumes refl: "\<And>s. R s s" and trans: "\<And>s1 s2 s3. R s1 s2 \<Longrightarrow> R s2 s3 \<Longrightarrow> R s1 s3"
    and out: "\<And>n s s'. tcp_output c now n s = Inr s' \<Longrightarrow> R s (s'\<lparr>t_seqno := t_seqno s' + 1\<rparr>)"
    and del: "\<And>d s. R s (resched TCP_TIMER_DELSND d s)"
  shows "send_loop c now force mb n s = Inr s' \<Longrightarrow> R s s'"
  using out
proof (induction c now force mb n s rule: send_loop.induct)
  case (1 c now force mb n s)
  note step = send_loop.simps [of c now force mb n s]
  show ?case
  proof (cases "t_seqno s \<le> highest_ack s + tcp_window c s \<and> t_seqno s < curseq s")
    case go: True
    show ?thesis
    proof (cases "overhead c = 0 \<or> force")
      case free: True
      from 1(2) go free step obtain s1 where s1: "tcp_output c now (t_seqno s) s = Inr s1" by (cases "tcp_output c now (t_seqno s) s") auto
      define s2 where "s2 = s1\<lparr>t_seqno := t_seqno s1 + 1\<rparr>"
      have st: "R s s2" using 1(3) [OF s1] by (simp add: s2_def)
      have "send_loop c now force mb n s = (if mb \<noteq> 0 \<and> n + 1 = mb then Inr s2 else send_loop c now force mb (n + 1) s2)"
        using step go free s1 by (simp add: s2_def Let_def)
      with 1(2) have "(mb \<noteq> 0 \<and> n + 1 = mb) \<and> s' = s2 \<or> \<not> (mb \<noteq> 0 \<and> n + 1 = mb) \<and> send_loop c now force mb (n + 1) s2 = Inr s'"
        by (auto split: if_splits)
      then show ?thesis
      proof
        assume a: "\<not> (mb \<noteq> 0 \<and> n + 1 = mb) \<and> send_loop c now force mb (n + 1) s2 = Inr s'"
        have "R s2 s'" by (rule 1(1) [OF go free s1 s2_def conjunct1 [OF a] conjunct2 [OF a]]) (rule 1(3))
        with st show ?thesis by (rule trans)
      qed (use st in simp)
    next
      case False
      with step go 1(2) have "s' = resched TCP_TIMER_DELSND (Uniform (overhead c)) s" by (simp split: if_splits)
      then show ?thesis by (simp add: del)
    qed
  next
    case False
    then have "send_loop c now force mb n s = Inr s" unfolding step by (rule if_not_P)
    with 1(2) show ?thesis by (simp add: refl)
  qed
qed

lemma send_loop_steady: "send_loop c now force mb n s = Inr s' \<Longrightarrow> steady s s'"
  by (erule send_loop_keeps [rotated -1]) (auto simp: steady_def dest: steady_output)

lemma send_much_steady: "send_much c now force mb s = Inr s' \<Longrightarrow> steady s s'"
  using send_loop_steady [of c now force mb 0 "if t_seqno s = 0 then s\<lparr>firstsent := now\<rparr> else s" s']
  by (auto simp: send_much_def Let_def steady_def split: if_splits)

lemma send_much_returns:
  assumes "rtt_cfg_ok (rttc c)" "max_connects c \<le> 0" "rtt_ok (rttc c) (rt s)"
  shows "returns c s (send_much c now force mb s)"
proof (cases "\<not> force \<and> delsnd s = TIMER_PENDING")
  case True
  then show ?thesis using assms(3) by (simp add: send_much_def returns_def)
next
  case False
  define s1 where "s1 = (if t_seqno s = 0 then s\<lparr>firstsent := now\<rparr> else s)"
  have g: "rtt_ok (rttc c) (rt s1)" "delsnd s1 = delsnd s" "t_acts s1 = t_acts s" using assms(3) by (simp_all add: s1_def)
  have e: "send_much c now force mb s = (if burstsnd s1 = TIMER_PENDING then Inr s1 else send_loop c now force mb 0 s1)"
    unfolding send_much_def Let_def s1_def by (rule if_not_P) (rule False)
  have "returns c s1 (send_loop c now force mb 0 s1)" by (rule send_loop_returns) (use assms g False in auto)
  with e g show ?thesis by (auto simp: returns_def)
qed

text \<open>
  C17: The third duplicate ACK of a window makes a Reno sender resend the first segment not
  acknowledged at once and halve its window; it notes the highest segment sent, so that the window
  is halved once for all losses among those.
\<close>

theorem reno_fast_retransmit:
  assumes "rtt_cfg_ok (rttc c)" and "tcp_cfg_ok c" and "reno c" and "precision_reduce c" and "decrease_num c = 1 / 2" and "wnd_option c \<noteq> 6"
    and "tcp_good c s" and "rtt_ok (rttc c) (rt s)" and "t_lastreset s \<le> th_ts h" and "frto s = 0"
    and "th_seqno h = highest_ack s" and "dupacks s + 1 = numdupacks c" and "recover s < highest_ack s"
    and "\<not> f_ecnecho h" and "\<not> f_eln h"
  shows "\<exists>s'. tcp_recv c now h s = Inr s' \<and> resent now s (highest_ack s + 1) s' \<and> cwnd s' = windowd c s / 2
    \<and> ssthresh s' = max 2 (c_trunc (windowd c s / 2)) \<and> recover s' = maxseq s \<and> dupwnd s' = numdupacks c"
proof -
  have mc: "max_connects c \<le> 0" using assms(2) by (simp add: tcp_cfg_ok_def)
  have la: "last_ack s = highest_ack s" using tcp_baseD(3) [of c s] assms(7) by (simp add: tcp_good_def tcp_inv_def)
  define s1 where "s1 = s\<lparr>ts_peer := th_ts h, dupacks := dupacks s + 1\<rparr>"
  define s2 where "s2 = slowdown c [CLOSE_SSTHRESH_HALF, CLOSE_CWND_HALF] (s1\<lparr>recover := maxseq s1, last_cwnd_action := CWND_ACTION_DUPACK\<rparr>)"
  have w: "windowd c s1 = windowd c s" by (simp add: windowd_def s1_def Let_def)
  have w': "windowd c (s1\<lparr>recover := maxseq s1, last_cwnd_action := CWND_ACTION_DUPACK\<rparr>) = windowd c s"
    by (simp add: windowd_def s1_def Let_def)
  have s2: "cwnd s2 = windowd c s / 2" "ssthresh s2 = max 2 (c_trunc (windowd c s / 2))" "recover s2 = maxseq s" "highest_ack s2 = highest_ack s"
    "last_ack s2 = highest_ack s" "t_acts s2 = t_acts s" "rt s2 = rt s" "dupacks s2 = numdupacks c"
    using w' assms(4,6,12) la by (simp_all add: assms(5) s2_def slowdown_def Let_def s1_def max_def)
  have rt2: "rtt_ok (rttc c) (rt s2)" using s2 assms by simp
  from rtt_timeout_ok [OF assms(1) rt2] obtain t r where r: "rtt_timeout (rttc c) (rt s2) = Inr (t, r)" "rtt_ok (rttc c) r" by blast
  define s3 where "s3 = (resched TCP_TIMER_RTX (Exactly t) (s2\<lparr>rt := r\<rparr>))\<lparr>rtt_active := False\<rparr>"
  have e3: "reset_rtx_timer c True False s2 = Inr s3" using r by (simp add: reset_rtx_timer_def set_rtx_timer_def Let_def s3_def)
  have s3: "steady s2 s3" "rtt_ok (rttc c) (rt s3)" "t_acts s3 = t_acts s @ [SetTimer TCP_TIMER_RTX (Exactly t)]"
    using r s2 by (simp_all add: s3_def steady_def)
  from tcp_output_sends [OF assms(1) s3(2) mc, of now "last_ack s3 + 1"] obtain s4 p as where s4: "tcp_output c now (last_ack s3 + 1) s3 = Inr s4"
    "rtt_ok (rttc c) (rt s4)" "t_acts s4 = t_acts s3 @ SendSeg p # as" "th_seqno (body p) = last_ack s3 + 1" "th_ts (body p) = now" by metis
  define s5 where "s5 = s4\<lparr>dupwnd := numdupacks c\<rparr>"
  have a: "reno_dupack_action c now s1 = bindR (reset_rtx_timer c True False s2) (\<lambda>s1. bindR (tcp_output c now (last_ack s1 + 1) s1)
      (\<lambda>s2. Inr (s2\<lparr>dupwnd := numdupacks c\<rparr>)))"
    unfolding reno_dupack_action_def Let_def s2_def by (rule if_P) (use assms(13) in \<open>simp add: s1_def\<close>)
  have "reno_dup c now (s\<lparr>ts_peer := th_ts h\<rparr>) =
      bindR (reno_dupack_action c now s1) (\<lambda>s2. Inr (if \<not> exitFastRetrans c then s2\<lparr>dupwnd := numdupacks c\<rparr> else s2))"
    using assms(12) by (simp add: reno_dup_def Let_def s1_def)
  then have e5: "reno_dup c now (s\<lparr>ts_peer := th_ts h\<rparr>) = Inr s5" unfolding a e3 using s4(1) by (simp add: s5_def)
  have l3: "last_ack s3 = highest_ack s" using s3(1) s2 by (simp add: steady_def)
  have s5: "cwnd s5 = windowd c s / 2" "ssthresh s5 = max 2 (c_trunc (windowd c s / 2))" "recover s5 = maxseq s" "dupwnd s5 = numdupacks c"
    "dupacks s5 = numdupacks c" "rtt_ok (rttc c) (rt s5)" "last_ack s5 = highest_ack s"
    "t_acts s5 = t_acts s @ SetTimer TCP_TIMER_RTX (Exactly t) # SendSeg p # as" "th_seqno (body p) = highest_ack s + 1" "th_ts (body p) = now"
    using steady_output [OF s4(1)] s3 s2 s4 l3 by (simp_all add: steady_def s5_def)
  have "recv_end c now h s5 = send_much c now False (maxburst c) s5" using assms(11) s5 by (simp add: recv_end_def)
  with send_much_returns [OF assms(1) mc s5(6), of now False "maxburst c"] obtain s' bs where s': "recv_end c now h s5 = Inr s'"
    "t_acts s' = t_acts s5 @ bs" by (auto simp: returns_def)
  have "steady s5 s'" using send_much_steady s' \<open>recv_end c now h s5 = send_much c now False (maxburst c) s5\<close> by simp
  then have f: "cwnd s' = windowd c s / 2" "ssthresh s' = max 2 (c_trunc (windowd c s / 2))" "recover s' = maxseq s" "dupwnd s' = numdupacks c"
    using s5 by (simp_all add: steady_def)
  have "resent now s (highest_ack s + 1) s'"
    unfolding resent_def by (intro exI [of _ "[SetTimer TCP_TIMER_RTX (Exactly t)]"] exI [of _ p] exI [of _ "as @ bs"]) (use s' s5 in simp)
  moreover have "tcp_recv c now h s = Inr s'"
    using assms(3,9-11,14,15) la e5 s'(1) by (simp add: tcp_recv_def recv_frto_helper_def Let_def)
  ultimately show ?thesis using f by blast
qed

theorem reno_fast_retransmit_witness:
  "case demo_state True 5 of Inl er \<Rightarrow> False
   | Inr s \<Rightarrow> \<exists>s'. tcp_recv (demo_cfg True) 6 (demo_ack 2 6) s = Inr s' \<and> resent 6 s 3 s' \<and> cwnd s' = cwnd s / 2 \<and> recover s' = maxseq s"
proof -
  let ?c = "demo_cfg True"
  have e: "case tcp_reset ?c 0 0 demo_tcp of Inl er \<Rightarrow> False | Inr s1 \<Rightarrow> events_ok ?c (take 5 demo_events) s1" by code_simp
  have f: "case demo_state True 5 of Inl er \<Rightarrow> False | Inr s \<Rightarrow> rtt_ok (rttc ?c) (rt s) \<and> t_lastreset s \<le> 6 \<and> frto s = 0
      \<and> highest_ack s = 2 \<and> dupacks s = 2 \<and> recover s = 0 \<and> windowd ?c s = cwnd s" by code_simp
  then obtain s where s: "demo_state True 5 = Inr s" by (cases "demo_state True 5") auto
  have c: "rtt_cfg_ok (rttc ?c)" "reno ?c" "precision_reduce ?c" "decrease_num ?c = 1 / 2" "wnd_option ?c \<noteq> 6" "numdupacks ?c = 3"
    using default_rtt_ok by (simp_all add: demo_cfg_def)
  have h: "th_ts (demo_ack 2 6) = 6" "th_seqno (demo_ack 2 6) = 2" "\<not> f_ecnecho (demo_ack 2 6)" "\<not> f_eln (demo_ack 2 6)"
    by (simp_all add: demo_ack_def tcp_hdr_zero_def)
  have "\<exists>s'. tcp_recv ?c 6 (demo_ack 2 6) s = Inr s' \<and> resent 6 s (highest_ack s + 1) s' \<and> cwnd s' = windowd ?c s / 2
    \<and> ssthresh s' = max 2 (c_trunc (windowd ?c s / 2)) \<and> recover s' = maxseq s \<and> dupwnd s' = numdupacks ?c"
    by (rule reno_fast_retransmit [OF c(1) demo_cfg_ok c(2-5) demo_state_good [OF s e]]) (use f s c h in simp_all)
  with f s show ?thesis by auto
qed

text \<open>
  A Reno sender counts an ACK as a duplicate even when nothing is outstanding. When the only
  segment of data is acknowledged and that ACK is delivered three times more, the sender of the
  witness sends segment 2, although the application has supplied nothing beyond segment 1.
\<close>

definition beyond_events :: "(time \<times> tcp_event) list" where
  "beyond_events = [(1, SendBytes 1000), (2, AckArrives (demo_ack 0 2)), (3, AckArrives (demo_ack 1 3)),
     (4, AckArrives (demo_ack 1 3)), (5, AckArrives (demo_ack 1 3))]"

theorem reno_sends_beyond_data:
  "case bindR (tcp_reset (demo_cfg True) 0 0 demo_tcp) (tcp_run (demo_cfg True) beyond_events) of Inl er \<Rightarrow> False
   | Inr s \<Rightarrow> curseq s = 2 \<and> closed s \<and> highest_ack s = 1 \<and> maxseq s = 1
      \<and> (case tcp_recv (demo_cfg True) 6 (demo_ack 1 3) s of Inl er \<Rightarrow> False
         | Inr s' \<Rightarrow> curseq s' = 2 \<and> maxseq s' = 2
            \<and> list_ex (\<lambda>a. case a of SendSeg p \<Rightarrow> th_seqno (body p) = 2 | _ \<Rightarrow> False) (t_acts s'))"
  by code_simp

section \<open>Growth\<close>

text \<open>The window over \<open>n\<close> ACKs of new data.\<close>

fun open_acks :: "tcp_cfg \<Rightarrow> nat \<Rightarrow> tcp \<Rightarrow> tcp res" where
  "open_acks c 0 s = Inr s"
| "open_acks c (Suc n) s = bindR (opencwnd c s) (open_acks c n)"

definition standard_increase :: "tcp_cfg \<Rightarrow> bool" where
  "standard_increase c \<longleftrightarrow> wnd_option c = 1 \<and> increase_num c = 1 \<and> maxcwnd c = 0 \<and> max_ssthresh c = 0"

lemma opencwnd_avoid:
  assumes "standard_increase c" "of_int (ssthresh s) \<le> cwnd s"
  shows "opencwnd c s = Inr (s\<lparr>cwnd := cwnd s + 1 / cwnd s\<rparr>)"
  using assms by (simp add: opencwnd_def standard_increase_def Let_def)

lemma opencwnd_start:
  assumes "standard_increase c" "cwnd s < of_int (ssthresh s)"
  shows "opencwnd c s = Inr (s\<lparr>cwnd := cwnd s + 1\<rparr>)"
  using assms by (simp add: opencwnd_def standard_increase_def Let_def)

lemma open_acks_avoid:
  assumes "standard_increase c" "1 \<le> w"
  shows "of_int (ssthresh s) \<le> cwnd s \<Longrightarrow> w \<le> cwnd s \<Longrightarrow> cwnd s + of_nat n / w \<le> w + 1
    \<Longrightarrow> \<exists>s'. open_acks c n s = Inr s' \<and> cwnd s + of_nat n / (w + 1) \<le> cwnd s' \<and> cwnd s' \<le> cwnd s + of_nat n / w"
proof (induction n arbitrary: s)
  case (Suc n)
  let ?s = "s\<lparr>cwnd := cwnd s + 1 / cwnd s\<rparr>"
  have n: "cwnd s + 1 / w + of_nat n / w \<le> w + 1" using Suc.prems(3) by (simp add: add_divide_distrib)
  have up: "1 / cwnd s \<le> 1 / w" using Suc.prems(2) assms(2) by (intro divide_left_mono) auto
  have "0 \<le> of_nat n / w + 1 / w" using assms(2) by simp
  then have "cwnd s \<le> w + 1" using n by linarith
  then have lo: "1 / (w + 1) \<le> 1 / cwnd s" using Suc.prems(2) assms(2) by (intro divide_left_mono) auto
  have pos: "0 \<le> 1 / cwnd s" using Suc.prems(2) assms(2) by simp
  have grow: "of_int (ssthresh s) \<le> cwnd s + 1 / cwnd s" "w \<le> cwnd s + 1 / cwnd s" using Suc.prems(1,2) pos by linarith+
  have "\<exists>s'. open_acks c n ?s = Inr s' \<and> cwnd ?s + of_nat n / (w + 1) \<le> cwnd s' \<and> cwnd s' \<le> cwnd ?s + of_nat n / w"
    by (rule Suc.IH) (use grow n up in auto)
  then obtain s' where s': "open_acks c n ?s = Inr s'" "cwnd s + 1 / cwnd s + of_nat n / (w + 1) \<le> cwnd s'"
    "cwnd s' \<le> cwnd s + 1 / cwnd s + of_nat n / w" by auto
  have "cwnd s + of_nat (Suc n) / (w + 1) \<le> cwnd s'" "cwnd s' \<le> cwnd s + of_nat (Suc n) / w"
    using s'(2,3) lo up by (simp_all add: add_divide_distrib)
  with s'(1) opencwnd_avoid [OF assms(1) Suc.prems(1)] show ?case by auto
qed simp

text \<open>
  In congestion avoidance the window grows by about one segment per round trip: the ACKs of one
  window of \<open>w\<close> segments add no more than 1, and no less than \<open>n / (w + 1)\<close>, \<open>n\<close> being the whole
  segments of \<open>w\<close>.
\<close>

theorem additive_increase:
  assumes "standard_increase c" and "of_int (ssthresh s) \<le> cwnd s" and "1 \<le> cwnd s" and "n = nat (c_trunc (cwnd s))"
  shows "\<exists>s'. open_acks c n s = Inr s' \<and> cwnd s + of_nat n / (cwnd s + 1) \<le> cwnd s' \<and> cwnd s' \<le> cwnd s + 1"
proof -
  have t: "0 \<le> c_trunc (cwnd s)" "of_int (c_trunc (cwnd s)) \<le> cwnd s" using assms(3) trunc_nonneg [of "cwnd s"] trunc_le [of "cwnd s"] by simp_all
  then have "of_nat n \<le> cwnd s" by (simp add: assms(4))
  then have n: "of_nat n / cwnd s \<le> 1" using assms(3) by simp
  from open_acks_avoid [OF assms(1,3,2) order_refl, of n] n show ?thesis by auto
qed

theorem additive_increase_witness:
  "\<exists>s'. open_acks (demo_cfg True) 3 (demo_tcp\<lparr>cwnd := 7 / 2, ssthresh := 2\<rparr>) = Inr s' \<and> 7 / 2 + 3 / (9 / 2) \<le> cwnd s' \<and> cwnd s' \<le> 9 / 2"
proof -
  have "floor (7 / 2 :: real) = 3" by (simp add: floor_unique)
  then have n: "(3 :: nat) = nat (c_trunc (cwnd (demo_tcp\<lparr>cwnd := 7 / 2, ssthresh := 2\<rparr>)))" by (simp add: c_trunc_def)
  have c: "standard_increase (demo_cfg True)" by (simp add: standard_increase_def demo_cfg_def)
  from additive_increase [OF c _ _ n] show ?thesis by (simp add: add.commute)
qed

end
