(* ===== verification/TcpConnection.thy ===== *)
theory TcpConnection
  imports TcpSenderProps
begin

text \<open>
  A connection: a TCP sender, Tahoe or Reno, and a TCP sink, with or without selective
  acknowledgements, over a network that loses, repeats, reorders and marks packets. What the sender
  takes for acknowledged the application at the sink has got, once; a lost segment is resent and, when
  the copy and its ACK get through, the connection moves on.
\<close>

section \<open>The network\<close>

text \<open>
  The segments in the network are all those the sender has sent, the ACKs all those the sink has
  sent: a packet that is never delivered is lost, one delivered twice is repeated. A router may mark
  a segment that allows it. \<open>c_got\<close> counts the bytes the application at the sink has got.
\<close>

record connection =
  c_snd :: tcp
  c_rcv :: tcp_sink
  c_acks :: "tcp_packet list"
  c_got :: int

datatype conn_event = Local tcp_event | Deliver nat bool | AckBack nat

definition segs_out :: "tcp_act list \<Rightarrow> tcp_packet list" where
  "segs_out as = concat (map (\<lambda>a. case a of SendSeg p \<Rightarrow> [p] | _ \<Rightarrow> []) as)"

definition ce_mark :: "bool \<Rightarrow> tcp_packet \<Rightarrow> tcp_packet" where
  "ce_mark m p = (if m \<and> f_ect (body p) then p\<lparr>body := (body p)\<lparr>f_ce := True\<rparr>\<rparr> else p)"

definition conn_step :: "tcp_cfg \<Rightarrow> time \<Rightarrow> conn_event \<Rightarrow> connection \<Rightarrow> connection res" where
  "conn_step c now ev k =
     (case ev of
        Local e \<Rightarrow>
          (case e of AckArrives h \<Rightarrow> Inr k | _ \<Rightarrow> bindR (tcp_step c now e (c_snd k)) (\<lambda>s. Inr (k\<lparr>c_snd := s\<rparr>)))
      | Deliver i m \<Rightarrow>
          (let ps = segs_out (t_acts (c_snd k))
           in if i < length ps then
                bindR (sink_recv now (ce_mark m (ps ! i)) (c_rcv k)) (\<lambda>(as, r).
                  Inr (k\<lparr>c_rcv := r, c_acks := c_acks k @ acks as, c_got := c_got k + delivered as\<rparr>))
              else Inr k)
      | AckBack i \<Rightarrow>
          if i < length (c_acks k) then
            bindR (tcp_step c now (AckArrives (body (c_acks k ! i))) (c_snd k)) (\<lambda>s. Inr (k\<lparr>c_snd := s\<rparr>))
          else Inr k)"

fun conn_run :: "tcp_cfg \<Rightarrow> (time \<times> conn_event) list \<Rightarrow> connection \<Rightarrow> connection res" where
  "conn_run c [] k = Inr k"
| "conn_run c ((now, ev) # evs) k = bindR (conn_step c now ev k) (conn_run c evs)"

section \<open>The invariant\<close>

definition sizes_ok :: "tcp_cfg \<Rightarrow> bool" where
  "sizes_ok c \<longleftrightarrow> 0 < tcpip_base_hdr_size c \<and> 0 < seg_size c \<and> 0 \<le> ts_option_size c"

lemma seg_bytes_pos: "sizes_ok c \<Longrightarrow> 0 < seg_bytes c n"
  by (simp add: sizes_ok_def seg_bytes_def headersize_def)

text \<open>\<open>S\<close> holds the segments that have reached the sink.\<close>

definition conn_with :: "tcp_cfg \<Rightarrow> int set \<Rightarrow> connection \<Rightarrow> bool" where
  "conn_with c S k \<longleftrightarrow>
     tcp_good c (c_snd k) \<and> receiver_ok S (seg_bytes c) (k_acker (c_rcv k)) \<and> S \<subseteq> {0..maxseq (c_snd k)}
     \<and> {0..highest_ack (c_snd k)} \<subseteq> S \<and> (\<forall>q \<in> set (c_acks k). {0..th_seqno (body q)} \<subseteq> S)
     \<and> c_got k = (\<Sum>i\<in>{0..<nxt (acker_of (k_acker (c_rcv k)))}. seg_bytes c i)"

text \<open>The segment an event brings to the sink, unless it is of an earlier incarnation; those of a run.\<close>

definition arrives :: "conn_event \<Rightarrow> connection \<Rightarrow> int set" where
  "arrives ev k =
     (case ev of
        Deliver i m \<Rightarrow>
          (let ps = segs_out (t_acts (c_snd k))
           in if i < length ps \<and> lastreset (c_rcv k) \<le> th_ts (body (ps ! i)) then {th_seqno (body (ps ! i))} else {})
      | _ \<Rightarrow> {})"

fun arrived :: "tcp_cfg \<Rightarrow> (time \<times> conn_event) list \<Rightarrow> connection \<Rightarrow> int set" where
  "arrived c [] k = {}"
| "arrived c ((now, ev) # evs) k =
     arrives ev k \<union> (case conn_step c now ev k of Inl er \<Rightarrow> {} | Inr k' \<Rightarrow> arrived c evs k')"

definition conn_ok :: "tcp_cfg \<Rightarrow> connection \<Rightarrow> bool" where
  "conn_ok c k \<longleftrightarrow> (\<exists>S. conn_with c S k)"

definition okC :: "(connection \<Rightarrow> bool) \<Rightarrow> connection res \<Rightarrow> bool" where
  "okC P m \<longleftrightarrow> (case m of Inl er \<Rightarrow> er = Exited | Inr k \<Rightarrow> P k)"

lemma segs_out_sent: "p \<in> set (segs_out as) \<longleftrightarrow> SendSeg p \<in> set as"
  by (force simp: segs_out_def split: tcp_act.splits)

lemma segs_out_append [simp]: "segs_out (as @ bs) = segs_out as @ segs_out bs"
  by (simp add: segs_out_def)

lemma ce_mark_simps [simp]: "psize (ce_mark m p) = psize p" "th_seqno (body (ce_mark m p)) = th_seqno (body p)"
  "th_ts (body (ce_mark m p)) = th_ts (body p)"
  by (simp_all add: ce_mark_def)

text \<open>A segment in the network is one of those sent, of the size it shall have.\<close>

lemma segs_out_ok:
  assumes "tcp_good c s" "p \<in> set (segs_out (t_acts s))" "sizes_ok c"
  shows "th_seqno (body p) \<in> {0..maxseq s}" "packet_ok (seg_bytes c) (ce_mark m p)"
proof -
  have "sent (t_acts s) = all_sent c (maxseq s)" using tcp_baseD(9) [of c s] assms(1) by (simp add: tcp_good_def tcp_inv_def)
  moreover have "(th_seqno (body p), psize p) \<in> sent (t_acts s)" using assms(2) by (auto simp: sent_def segs_out_sent)
  ultimately have "(th_seqno (body p), psize p) \<in> all_sent c (maxseq s)" by simp
  then have "th_seqno (body p) \<in> {0..maxseq s} \<and> psize p = seg_bytes c (th_seqno (body p))" by (auto simp: all_sent_def)
  then show "th_seqno (body p) \<in> {0..maxseq s}" "packet_ok (seg_bytes c) (ce_mark m p)"
    using seg_bytes_pos [OF assms(3)] by (simp_all add: packet_ok_def)
qed

lemma follows_nxt: "follows a S sz \<Longrightarrow> 0 \<le> nxt a \<and> {0..<nxt a} \<subseteq> S \<and> nxt a \<notin> S"
  by (auto simp: follows_def acker_inv_def)

lemma sum_split: "0 \<le> m \<Longrightarrow> m \<le> n \<Longrightarrow> (\<Sum>i\<in>{0..<n}. f i) = (\<Sum>i\<in>{0..<m}. f i) + (\<Sum>i\<in>{m..<n}. (f i :: int))" for m n :: int
  by (subst sum.union_disjoint [symmetric]) (auto intro: sum.cong)

text \<open>Each step keeps the invariant.\<close>

lemma deliver_ok:
  assumes sz: "sizes_ok c" and k: "conn_with c S k" and i: "i < length (segs_out (t_acts (c_snd k)))"
  shows "\<exists>k'. conn_step c now (Deliver i m) k = Inr k' \<and> conn_with c (insert (th_seqno (body (segs_out (t_acts (c_snd k)) ! i))) S) k'
    \<and> c_snd k' = c_snd k \<and> lastreset (c_rcv k) \<le> th_ts (body (segs_out (t_acts (c_snd k)) ! i))
    \<or> conn_step c now (Deliver i m) k = Inr k \<and> th_ts (body (segs_out (t_acts (c_snd k)) ! i)) < lastreset (c_rcv k)"
proof -
  define p where "p = segs_out (t_acts (c_snd k)) ! i"
  have p: "p \<in> set (segs_out (t_acts (c_snd k)))" using i by (simp add: p_def)
  have g: "tcp_good c (c_snd k)" "receiver_ok S (seg_bytes c) (k_acker (c_rcv k))" using k by (simp_all add: conn_with_def)
  note pk = segs_out_ok(1) [OF g(1) p sz] segs_out_ok(2) [OF g(1) p sz, of m]
  have step: "conn_step c now (Deliver i m) k = bindR (sink_recv now (ce_mark m p) (c_rcv k)) (\<lambda>(as, r).
      Inr (k\<lparr>c_rcv := r, c_acks := c_acks k @ acks as, c_got := c_got k + delivered as\<rparr>))"
    using i by (simp add: conn_step_def p_def Let_def)
  show ?thesis
  proof (cases "th_ts (body p) < lastreset (c_rcv k)")
    case True
    then have "sink_recv now (ce_mark m p) (c_rcv k) = Inr ([FreePkt (ce_mark m p)], c_rcv k)" by (simp add: sink_recv_def)
    then have "conn_step c now (Deliver i m) k = Inr k" unfolding step by simp
    with True show ?thesis by (simp add: p_def)
  next
    case False
    let ?S = "insert (th_seqno (body p)) S" and ?n = "nxt (acker_of (k_acker (c_rcv k)))"
    from sink_recv_ok [OF g(2) pk(2), of now] False obtain as npkt r where
      r: "sink_recv now (ce_mark m p) (c_rcv k) = Inr (as, r)" "acks as = [npkt]" "receiver_ok ?S (seg_bytes c) (k_acker r)"
        "ack_ok ?S npkt" "?n \<le> nxt (acker_of (k_acker r))" "delivered as = (\<Sum>i\<in>{?n..<nxt (acker_of (k_acker r))}. seg_bytes c i)"
      by (metis ce_mark_simps(2,3) linorder_not_less)
    let ?k = "k\<lparr>c_rcv := r, c_acks := c_acks k @ [npkt], c_got := c_got k + delivered as\<rparr>"
    have eq: "conn_step c now (Deliver i m) k = Inr ?k" unfolding step r(1) by (simp add: r(2))
    have "0 \<le> ?n" using follows_nxt receiver_ok_follows [OF g(2)] by blast
    from sum_split [OF this r(5), of "seg_bytes c"] k r(6)
    have "c_got k + delivered as = (\<Sum>i\<in>{0..<nxt (acker_of (k_acker r))}. seg_bytes c i)" by (simp add: conn_with_def)
    moreover have "{0..th_seqno (body npkt)} \<subseteq> ?S" using r(4) by (simp add: ack_ok_def)
    moreover have "?S \<subseteq> {0..maxseq (c_snd k)}" using k pk(1) by (simp add: conn_with_def)
    ultimately have "conn_with c ?S ?k" using k r(3) by (auto simp: conn_with_def)
    with eq False show ?thesis by (auto simp: p_def)
  qed
qed

text \<open>An ACK in the network covers only what has arrived, hence what has been sent.\<close>

lemma ack_covered:
  assumes "conn_with c S k" "q \<in> set (c_acks k)"
  shows "th_seqno (body q) \<le> maxseq (c_snd k)"
proof (cases "0 \<le> th_seqno (body q)")
  case True
  then have "th_seqno (body q) \<in> {0..th_seqno (body q)}" by simp
  moreover have "{0..th_seqno (body q)} \<subseteq> S" "S \<subseteq> {0..maxseq (c_snd k)}" using assms by (auto simp: conn_with_def)
  ultimately have "th_seqno (body q) \<in> {0..maxseq (c_snd k)}" by blast
  then show ?thesis by simp
next
  case False
  with tcp_baseD(1,2) [of c "c_snd k"] assms(1) show ?thesis by (simp add: conn_with_def tcp_good_def tcp_inv_def)
qed

lemma local_ok:
  assumes cfg: "tcp_cfg_ok c" and k: "conn_with c S k"
  shows "okC (conn_with c S) (conn_step c now (Local e) k)"
proof (cases "\<exists>h. e = AckArrives h")
  case True
  with k show ?thesis by (auto simp: conn_step_def okC_def)
next
  case False
  then have step: "conn_step c now (Local e) k = bindR (tcp_step c now e (c_snd k)) (\<lambda>s. Inr (k\<lparr>c_snd := s\<rparr>))"
    by (simp add: conn_step_def split: tcp_event.splits)
  have g: "tcp_good c (c_snd k)" using k by (simp add: conn_with_def)
  have same: "okE (\<lambda>s. highest_ack s = highest_ack (c_snd k) \<and> tcp_good c s \<and> maxseq (c_snd k) \<le> maxseq s) (tcp_step c now e (c_snd k))"
    using False
  proof (cases e)
    case (TimerExpires t)
    with okE_mono [OF tcp_expire_good [OF cfg g]] g show ?thesis by (simp add: tcp_step_def good_from_def grown_def)
  next
    case (SendBytes n)
    with okE_mono [OF sendmsg_good [OF cfg g]] show ?thesis by (simp add: tcp_step_def good_from_def grown_def)
  next
    case (AdvanceBy n)
    with okE_mono [OF advanceby_good [OF cfg g]] show ?thesis by (simp add: tcp_step_def good_from_def grown_def)
  next
    case (AdvanceTo n)
    with okE_mono [OF advanceby_good [OF cfg g]] show ?thesis by (simp add: tcp_step_def advance_to_def good_from_def grown_def)
  qed simp
  show ?thesis
  proof (cases "tcp_step c now e (c_snd k)")
    case (Inl er)
    with same step show ?thesis by (simp add: okC_def okE_def)
  next
    case (Inr s)
    with same have s: "highest_ack s = highest_ack (c_snd k)" "tcp_good c s" "maxseq (c_snd k) \<le> maxseq s" by simp_all
    then have "conn_with c S (k\<lparr>c_snd := s\<rparr>)" using k by (auto simp: conn_with_def)
    with Inr step show ?thesis by (auto simp: okC_def)
  qed
qed

lemma ack_back_with:
  assumes cfg: "tcp_cfg_ok c" and k: "conn_with c S k" and i: "i < length (c_acks k)"
    and s: "tcp_step c now (AckArrives (body (c_acks k ! i))) (c_snd k) = Inr s"
  shows "conn_with c S (k\<lparr>c_snd := s\<rparr>)" "highest_ack s = new_ack (body (c_acks k ! i)) (c_snd k)"
proof -
  have g: "tcp_good c (c_snd k)" using k by (simp add: conn_with_def)
  have q: "c_acks k ! i \<in> set (c_acks k)" using i by simp
  from tcp_recv_good [OF cfg g ack_covered [OF k q], of now] s
  have r: "tcp_good c s" "highest_ack s = new_ack (body (c_acks k ! i)) (c_snd k)" "maxseq (c_snd k) \<le> maxseq s" by (simp_all add: tcp_step_def)
  have "{0..th_seqno (body (c_acks k ! i))} \<subseteq> S" "{0..highest_ack (c_snd k)} \<subseteq> S" using k q by (auto simp: conn_with_def)
  then have "{0..highest_ack s} \<subseteq> S" unfolding r(2) new_ack_def max_def by simp
  with k r show "conn_with c S (k\<lparr>c_snd := s\<rparr>)" by (auto simp: conn_with_def)
  show "highest_ack s = new_ack (body (c_acks k ! i)) (c_snd k)" by (rule r(2))
qed

lemma conn_step_ok:
  assumes "tcp_cfg_ok c" "sizes_ok c" and k: "conn_with c S k"
  shows "okC (conn_with c (S \<union> arrives ev k)) (conn_step c now ev k)"
proof (cases ev)
  case (Local e)
  with local_ok [OF assms(1) k] show ?thesis by (simp add: arrives_def)
next
  case (Deliver i m)
  show ?thesis
  proof (cases "i < length (segs_out (t_acts (c_snd k)))")
    case True
    from deliver_ok [OF assms(2) k this, of now m] Deliver True k show ?thesis by (auto simp: okC_def arrives_def Let_def)
  qed (use Deliver k in \<open>simp add: conn_step_def okC_def arrives_def Let_def\<close>)
next
  case (AckBack i)
  show ?thesis
  proof (cases "i < length (c_acks k)")
    case True
    have g: "tcp_good c (c_snd k)" using k by (simp add: conn_with_def)
    have "event_ok (c_snd k) (AckArrives (body (c_acks k ! i)))" using ack_covered [OF k] True by (simp add: event_ok_def)
    from tcp_step_good [OF assms(1) g this, of now] show ?thesis
      using ack_back_with [OF assms(1) k True] AckBack True
      by (cases "tcp_step c now (AckArrives (body (c_acks k ! i))) (c_snd k)") (auto simp: conn_step_def okC_def okE_def arrives_def)
  qed (use AckBack k in \<open>simp add: conn_step_def okC_def arrives_def\<close>)
qed

lemma conn_run_ok:
  assumes "tcp_cfg_ok c" "sizes_ok c"
  shows "conn_with c S k \<Longrightarrow> okC (conn_with c (S \<union> arrived c evs k)) (conn_run c evs k)"
proof (induction evs arbitrary: k S)
  case (Cons tev evs)
  obtain now ev where e: "tev = (now, ev)" by fastforce
  from conn_step_ok [OF assms Cons.prems, of ev now] show ?case
  proof (cases "conn_step c now ev k")
    case (Inr k')
    with conn_step_ok [OF assms Cons.prems, of ev now] have "conn_with c (S \<union> arrives ev k) k'" by (simp add: okC_def)
    from Cons.IH [OF this] Inr e show ?thesis by (simp add: Un_assoc)
  qed (use e in \<open>simp add: okC_def\<close>)
qed (simp add: okC_def)

section \<open>Safety\<close>

definition conn_start :: "tcp \<Rightarrow> tcp_sink \<Rightarrow> connection" where
  "conn_start s r = \<lparr>c_snd = s, c_rcv = r, c_acks = [], c_got = 0\<rparr>"

lemma conn_start_ok:
  assumes "tcp_good c s" "highest_ack s = -1" "fresh_sink r"
  shows "conn_with c {} (conn_start s r)"
proof -
  from fresh_sink_ok [OF assms(3), of "seg_bytes c"] have "receiver_ok {} (seg_bytes c) (k_acker r)" "nxt (acker_of (k_acker r)) = 0"
    by (simp_all add: acker_new_def)
  with assms show ?thesis by (simp add: conn_with_def conn_start_def)
qed

text \<open>
  C5: A TCP connection is reliable. A Tahoe or Reno sender and a sink, with or without SACK, run over a
  network that loses, repeats, reorders and marks packets, with timeouts at any time. Neither end
  aborts or hangs; the sender can only exit on an overflowing timeout. Otherwise the acknowledgement
  number of the sink is the last segment before the first that has never arrived, whatever the order
  of arrival; the application has got the bytes of the segments up to there, each once; and the sender
  takes no segment for acknowledged that lies beyond it.
\<close>

theorem tcp_connection_reliable:
  assumes "tcp_cfg_ok c" and "sizes_ok c" and "fresh_tcp s0" and "tcp_reset c t0 u s0 = Inr s1" and "fresh_sink r"
  shows "case conn_run c evs (conn_start s1 r) of
      Inl er \<Rightarrow> er = Exited
    | Inr k \<Rightarrow>
        (let n = Seqno (acker_of (k_acker (c_rcv k))); A = arrived c evs (conn_start s1 r)
         in {0..n} \<subseteq> A \<and> n + 1 \<notin> A \<and> -1 \<le> n \<and> c_got k = (\<Sum>i\<in>{0..n}. seg_bytes c i)
           \<and> highest_ack (c_snd k) \<le> n \<and> n \<le> maxseq (c_snd k) \<and> A \<subseteq> {0..maxseq (c_snd k)})"
proof -
  let ?A = "arrived c evs (conn_start s1 r)"
  from tcp_reset_good [OF assms(1,3), of t0 u] assms(4) have "tcp_good c s1" "highest_ack s1 = -1" by auto
  from conn_run_ok [OF assms(1,2) conn_start_ok [OF this assms(5)], of evs]
  have r: "okC (conn_with c ?A) (conn_run c evs (conn_start s1 r))" by simp
  show ?thesis
  proof (cases "conn_run c evs (conn_start s1 r)")
    case (Inr k)
    with r have k: "conn_with c ?A k" by (simp add: okC_def)
    let ?n = "nxt (acker_of (k_acker (c_rcv k)))"
    have "follows (acker_of (k_acker (c_rcv k))) ?A (seg_bytes c)" using receiver_ok_follows k unfolding conn_with_def by blast
    from follows_nxt [OF this] have n: "0 \<le> ?n" "{0..<?n} \<subseteq> ?A" "?n \<notin> ?A" by auto
    have s: "?A \<subseteq> {0..maxseq (c_snd k)}" "{0..highest_ack (c_snd k)} \<subseteq> ?A" "-1 \<le> maxseq (c_snd k)"
      using k tcp_baseD(1,2) [of c "c_snd k"] by (auto simp: conn_with_def tcp_good_def tcp_inv_def)
    have "highest_ack (c_snd k) < ?n" using n(1,3) s(2) by (meson atLeastAtMost_iff linorder_not_less subsetD)
    moreover have "?n \<le> maxseq (c_snd k) + 1"
    proof (cases "?n = 0")
      case False
      then have "?n - 1 \<in> {0..<?n}" using n(1) by auto
      with n(2) s(1) have "?n - 1 \<in> {0..maxseq (c_snd k)}" by blast
      then show ?thesis by simp
    qed (use s(3) in simp)
    moreover have "{0..<?n} = {0..?n - 1}" by auto
    ultimately show ?thesis using Inr k n s(1) by (simp add: Seqno_def conn_with_def Let_def)
  qed (use r in \<open>simp add: okC_def\<close>)
qed

text \<open>Segment 2 is lost at first; three segments, two ACKs and a duplicate get through.\<close>

definition demo_losses :: "(time \<times> conn_event) list" where
  "demo_losses =
     [(1, Local (SendBytes 9000)), (2, Deliver 0 False), (3, AckBack 0), (4, Deliver 1 False), (5, AckBack 1),
      (6, Deliver 3 False), (7, Deliver 3 False), (8, AckBack 2)]"

lemma demo_sizes: "sizes_ok (demo_cfg r)"
  by (simp add: sizes_ok_def demo_cfg_def)

definition demo_conn :: "bool \<Rightarrow> connection res" where
  "demo_conn r = bindR (tcp_reset (demo_cfg r) 0 0 demo_tcp) (\<lambda>s. conn_run (demo_cfg r) demo_losses (conn_start s demo_sink))"

theorem tcp_connection_reliable_witness:
  "\<exists>s k. tcp_reset (demo_cfg True) 0 0 demo_tcp = Inr s \<and> demo_conn True = Inr k \<and> highest_ack (c_snd k) = 1
    \<and> (let n = Seqno (acker_of (k_acker (c_rcv k))); A = arrived (demo_cfg True) demo_losses (conn_start s demo_sink)
       in {0..n} \<subseteq> A \<and> n + 1 \<notin> A \<and> c_got k = (\<Sum>i\<in>{0..n}. seg_bytes (demo_cfg True) i) \<and> 1 \<le> n)"
proof -
  have e: "case demo_conn True of Inl er \<Rightarrow> False | Inr k \<Rightarrow> highest_ack (c_snd k) = 1" by code_simp
  then obtain k where k: "demo_conn True = Inr k" "highest_ack (c_snd k) = 1" by (cases "demo_conn True") auto
  then obtain s1 where s1: "tcp_reset (demo_cfg True) 0 0 demo_tcp = Inr s1" "conn_run (demo_cfg True) demo_losses (conn_start s1 demo_sink) = Inr k"
    by (auto simp: demo_conn_def bindR_eq_Inr)
  from tcp_connection_reliable [OF demo_cfg_ok demo_sizes demo_fresh s1(1) demo_sink_fresh, of demo_losses] s1 k show ?thesis
    by (auto simp: Let_def)
qed

section \<open>Progress\<close>

text \<open>
  What the estimator goes by is kept until an ACK comes: averages that fit stay so, and the segment
  timed is the one of before or one sent now.
\<close>

definition clocked :: "tcp_cfg \<Rightarrow> int \<Rightarrow> time \<Rightarrow> tcp \<Rightarrow> tcp \<Rightarrow> bool" where
  "clocked c hi now s s' \<longleftrightarrow>
     (rtt_fits (rttc c) hi (rt s) \<longrightarrow> rtt_fits (rttc c) hi (rt s')) \<and> boot_time s' = boot_time s \<and> rtt_ts s' \<in> {rtt_ts s, now}"

lemma clocked_refl: "clocked c hi now s s"
  by (simp add: clocked_def)

lemma clocked_trans: "clocked c hi now s1 s2 \<Longrightarrow> clocked c hi now s2 s3 \<Longrightarrow> clocked c hi now s1 s3"
  by (auto simp: clocked_def)

lemma clocked_timer [simp]:
  "boot_time (put_timer t x s) = boot_time s" "rtt_ts (put_timer t x s) = rtt_ts s"
  "boot_time (resched t d s) = boot_time s" "rtt_ts (resched t d s) = rtt_ts s"
  "boot_time (act_out a s) = boot_time s" "rtt_ts (act_out a s) = rtt_ts s"
  "boot_time (force_cancel t s) = boot_time s" "rtt_ts (force_cancel t s) = rtt_ts s"
  by (cases t; simp add: put_timer_def resched_def act_out_def force_cancel_def)+

lemma rtt_timeout_frame: "rtt_timeout c r = Inr (d, r') \<Longrightarrow> r' = r\<lparr>use_rtt := False\<rparr>"
  by (auto simp: rtt_timeout_def Let_def split: if_splits)

lemma clocked_set_rtx_timer: "set_rtx_timer c s = Inr s' \<Longrightarrow> clocked c hi now s s'"
  by (auto simp: clocked_def dest!: set_rtx_timer_frame rtt_timeout_frame)

lemma clocked_output:
  assumes "tcp_output c now n s = Inr s'"
  shows "clocked c hi now s (s'\<lparr>t_seqno := k\<rparr>)"
  using assms
proof (cases rule: tcp_output_cases)
  case abort
  then show ?thesis by (simp add: clocked_def out_packet_def tcp_allocpkt_def Let_def)
next
  case (sent p s2 s4 s5)
  have s2: "s2 = snd (out_packet c now n s)" using sent(1) by (metis snd_conv)
  have "clocked c hi now s s2" unfolding s2 by (simp add: clocked_def out_packet_def tcp_allocpkt_def Let_def)
  moreover have "clocked c hi now s2 s4" unfolding sent(2) by (simp add: clocked_def)
  moreover have "clocked c hi now s4 s5" unfolding sent(3) by (simp add: clocked_def record_sent_def Let_def)
  moreover have "clocked c hi now s5 s'" using sent(4) clocked_set_rtx_timer clocked_refl by (auto split: if_splits)
  ultimately have "clocked c hi now s s'" using clocked_trans by blast
  then show ?thesis by (simp add: clocked_def)
qed

lemma clocked_send_much:
  assumes "send_much c now force mb s = Inr s'"
  shows "clocked c hi now s s'"
proof -
  have loop: "send_loop c now force mb 0 s1 = Inr s' \<Longrightarrow> clocked c hi now s1 s'" for s1
    by (rule send_loop_keeps [of "clocked c hi now", OF clocked_refl clocked_trans clocked_output]) (auto simp: clocked_def)
  with assms show ?thesis
    using loop [of s] loop [of "s\<lparr>firstsent := now\<rparr>"]
    by (auto simp: send_much_def Let_def clocked_def split: if_splits)
qed

lemma clocked_reset:
  assumes c: "rtt_cfg_ok (rttc c)" "rtt_room (rttc c) hi" and s: "reset_rtx_timer c mild bo s = Inr s'"
  shows "clocked c hi now s s'"
proof -
  define s0 where "s0 = (if bo then s\<lparr>rt := rtt_backoff (rttc c) (rt s)\<rparr> else s)"
  from s obtain s1 where s1: "set_rtx_timer c s0 = Inr s1"
    "s' = (let s2 = (if mild then s1 else s1\<lparr>t_seqno := highest_ack s1 + 1\<rparr>) in s2\<lparr>rtt_active := False\<rparr>)"
    by (auto simp: reset_rtx_timer_def bindR_eq_Inr s0_def)
  have "clocked c hi now s s0" using rtt_backoff_fits [OF c] by (simp add: clocked_def s0_def)
  moreover have "clocked c hi now s0 s1" by (rule clocked_set_rtx_timer [OF s1(1)])
  moreover have "clocked c hi now s1 s'" unfolding s1(2) by (simp add: clocked_def Let_def)
  ultimately show ?thesis using clocked_trans by blast
qed

lemma clocked_before_rtx: "clocked c hi now s (before_rtx c s)"
proof -
  have "rt (rtx_slowdown c s1) = rt s1" "boot_time (rtx_slowdown c s1) = boot_time s1" "rtt_ts (rtx_slowdown c s1) = rtt_ts s1" for s1
    by (simp_all add: rtx_slowdown_def slowdown_def Let_def)
  then have "rt (before_rtx c s) = rt s" "boot_time (before_rtx c s) = boot_time s" "rtt_ts (before_rtx c s) = rtt_ts s"
    by (simp_all add: before_rtx_def Let_def)
  then show ?thesis by (simp add: clocked_def)
qed

lemma clocked_expire:
  assumes c: "rtt_cfg_ok (rttc c)" "rtt_room (rttc c) hi" and s: "tcp_expire c now TCP_TIMER_RTX s = Inr s'"
  shows "clocked c hi now s s'"
proof -
  define s0 where "s0 = put_timer TCP_TIMER_RTX TIMER_HANDLING s"
  define s1 where "s1 = (if reno c then s0\<lparr>dupwnd := 0, dupacks := 0, recover := (if bug_fix c then maxseq s0 else recover s0)\<rparr> else s0)"
  have "clocked c hi now s s1" by (simp add: clocked_def s1_def s0_def)
  from s obtain s2 where s2: "rtx_timeout c now s1 = Inr s2"
    "s' = (if timer_of TCP_TIMER_RTX s2 = TIMER_HANDLING then put_timer TCP_TIMER_RTX TIMER_IDLE s2 else s2)"
    unfolding tcp_expire_def tcp_timeout_def s0_def [symmetric] by (auto simp: bindR_eq_Inr simp flip: s1_def)
  then obtain s4 where s4: "reset_rtx_timer c False (\<not> (highest_ack (before_rtx c s1) = maxseq (before_rtx c s1) \<and> restart_bugfix c)) (before_rtx c s1) = Inr s4"
    "send_much c now False (maxburst c) (s4\<lparr>last_cwnd_action := CWND_ACTION_TIMEOUT\<rparr>) = Inr s2"
    by (auto simp: rtx_timeout_eq Let_def bindR_eq_Inr)
  note \<open>clocked c hi now s s1\<close> and clocked_before_rtx [of c hi now s1] and clocked_reset [OF c s4(1), of now]
  moreover have "clocked c hi now s4 (s4\<lparr>last_cwnd_action := CWND_ACTION_TIMEOUT\<rparr>)" by (simp add: clocked_def)
  moreover note clocked_send_much [OF s4(2), of hi]
  moreover have "clocked c hi now s2 s'" unfolding s2(2) by (simp add: clocked_def)
  ultimately show ?thesis using clocked_trans by blast
qed

text \<open>With timeouts that have not overflowed, an ACK of new data is processed to the end.\<close>

definition alive :: "tcp_cfg \<Rightarrow> tcp res \<Rightarrow> bool" where
  "alive c m \<longleftrightarrow> (\<exists>s. m = Inr s \<and> rtt_ok (rttc c) (rt s))"

lemma alive_Inr [simp]: "alive c (Inr s) \<longleftrightarrow> rtt_ok (rttc c) (rt s)"
  by (simp add: alive_def)

lemma alive_returns: "returns c s m \<Longrightarrow> alive c m"
  by (auto simp: returns_def alive_def)

lemma alive_bind: "alive c m \<Longrightarrow> (\<And>s. rtt_ok (rttc c) (rt s) \<Longrightarrow> alive c (f s)) \<Longrightarrow> alive c (bindR m f)"
  by (auto simp: alive_def)

lemma newtimer_alive:
  assumes "rtt_cfg_ok (rttc c)" "rtt_ok (rttc c) (rt s)"
  shows "alive c (newtimer c n s)"
proof (cases "t_seqno s > n \<or> n < maxseq s \<or> cwnd s < 1")
  case True
  then have "newtimer c n s = set_rtx_timer c s" unfolding newtimer_def by (rule if_P)
  with alive_returns [OF set_rtx_timer_returns [OF assms]] show ?thesis by simp
next
  case False
  then have "newtimer c n s = Inr (force_cancel TCP_TIMER_RTX s)" unfolding newtimer_def by (rule if_not_P)
  with assms(2) show ?thesis by simp
qed

lemma end_backoff_rtt: "rtt_ok c (rt s) \<Longrightarrow> rtt_ok c (rt (end_backoff h s))"
  by (simp add: end_backoff_def rtt_ok_def)

text \<open>The round trips an ACK may be taken to measure are short.\<close>

definition trips_ok :: "tcp_cfg \<Rightarrow> int \<Rightarrow> time \<Rightarrow> time set \<Rightarrow> tcp \<Rightarrow> bool" where
  "trips_ok c hi now T s \<longleftrightarrow> (\<forall>\<tau> \<in> T. short_trip (rttc c) hi now (boot_time s) (now - \<tau>))"

lemma ack_rtt_ok:
  assumes c: "rtt_cfg_ok (rttc c)" "rtt_room (rttc c) hi" and s: "rtt_ok (rttc c) (rt s)" "rtt_fits (rttc c) hi (rt s)"
    and t: "trips_ok c hi now {th_ts_echo h, rtt_ts s} s"
  shows "rtt_ok (rttc c) (rt (ack_sample c now h (ack_timestamp c now h s)))"
proof (cases "ts_option (rttc c)")
  case True
  have "short_trip (rttc c) hi now (boot_time s) (now - th_ts_echo h)" using t by (simp add: trips_ok_def)
  note u = rtt_update_ok(1) [OF c s(2) rtt_okD(2) [OF s(1)] this]
  then have "rtt_ok (rttc c) (rt (ack_timestamp c now h s))" using True by (simp add: ack_timestamp_def Let_def end_backoff_rtt)
  with True show ?thesis by (simp add: ack_sample_def Let_def end_backoff_rtt)
next
  case False
  then have e: "ack_timestamp c now h s = s" by (simp add: ack_timestamp_def)
  define s1 where "s1 = (end_backoff h s)\<lparr>rtt_active := False\<rparr>"
  have s1: "rtt_fits (rttc c) hi (rt s1)" "1 \<le> t_backoff (rt s1)" "boot_time s1 = boot_time s" "rtt_ts s1 = rtt_ts s"
    using s rtt_okD(2) by (simp_all add: s1_def end_backoff_def)
  have "short_trip (rttc c) hi now (boot_time s1) (now - rtt_ts s1)" using t s1 by (simp add: trips_ok_def)
  note u = rtt_update_ok(1) [OF c s1(1,2) this]
  with False s(1) show ?thesis unfolding e by (simp add: ack_sample_def Let_def flip: s1_def)
qed

lemma newtimer_clocked:
  assumes "newtimer c n s = Inr s'"
  shows "clocked c hi now s s' \<and> rtt_ts s' = rtt_ts s"
proof (cases "t_seqno s > n \<or> n < maxseq s \<or> cwnd s < 1")
  case True
  then have "newtimer c n s = set_rtx_timer c s" unfolding newtimer_def by (rule if_P)
  with assms show ?thesis by (auto simp: clocked_def dest!: set_rtx_timer_frame rtt_timeout_frame)
next
  case False
  then have "newtimer c n s = Inr (force_cancel TCP_TIMER_RTX s)" unfolding newtimer_def by (rule if_not_P)
  with assms show ?thesis by (auto simp: clocked_def)
qed

lemma newack_alive:
  assumes c: "rtt_cfg_ok (rttc c)" "rtt_room (rttc c) hi" and s: "rtt_ok (rttc c) (rt s)" "rtt_fits (rttc c) hi (rt s)"
    and t: "trips_ok c hi now {th_ts_echo h, rtt_ts s} s"
  shows "alive c (newack c now h s)"
proof -
  have "alive c (if timerfix c then Inr s else newtimer c (th_seqno h) s)" using c s newtimer_alive by simp
  then obtain s1 where s1: "(if timerfix c then Inr s else newtimer c (th_seqno h) s) = Inr s1" "rtt_ok (rttc c) (rt s1)"
    by (auto simp: alive_def)
  then have "clocked c hi now s s1 \<and> rtt_ts s1 = rtt_ts s"
    using newtimer_clocked [of c "th_seqno h" s s1] clocked_refl by (cases "timerfix c") auto
  then have k: "rtt_fits (rttc c) hi (rt s1)" "boot_time s1 = boot_time s" "rtt_ts s1 = rtt_ts s" using s(2) by (simp_all add: clocked_def)
  define s2 where "s2 = ack_numbers (th_seqno h) s1"
  have s2: "rt s2 = rt s1" "boot_time s2 = boot_time s1" "rtt_ts s2 = rtt_ts s1" by (simp_all add: s2_def ack_numbers_def Let_def)
  have "rtt_ok (rttc c) (rt (ack_sample c now h (ack_timestamp c now h s2)))"
    by (rule ack_rtt_ok [OF c]) (use s1 k s2 t in \<open>simp_all add: trips_ok_def\<close>)
  with s1(2) s2 have "rtt_ok (rttc c) (rt (if f_no_ts h then s2 else ack_sample c now h (ack_timestamp c now h s2)))" (is "rtt_ok _ (rt ?s3)") by simp
  then have "alive c (if timerfix c then newtimer c (th_seqno h) ?s3 else Inr ?s3)" using newtimer_alive [OF c(1)] by simp
  then have "alive c (bindR (if timerfix c then newtimer c (th_seqno h) ?s3 else Inr ?s3)
      (\<lambda>s4. Inr (s4\<lparr>awnd := awnd s4 * (1 - wnd_th c) + wnd_th c * cwnd s4\<rparr>)))"
    by (rule alive_bind) simp
  then show ?thesis unfolding newack_def s1(1) Let_def bindR_Inr s2_def .
qed

lemma opencwnd_alive:
  assumes "tcp_cfg_ok c" "rtt_ok (rttc c) (rt s)"
  shows "alive c (opencwnd c s)"
proof -
  have o: "wnd_option c \<in> {0, 1, 2, 3, 4, 5, 6}" using assms by (auto simp: tcp_cfg_ok_def)
  have g: "rt (slow_growth f s) = rt s" for f by (simp add: slow_growth_def)
  show ?thesis unfolding opencwnd_def
    by (rule alive_bind) (use o g assms(2) in \<open>auto simp: Let_def\<close>)
qed

lemma recv_new_alive:
  assumes cfg: "rtt_cfg_ok (rttc c)" "tcp_cfg_ok c" "rtt_room (rttc c) hi"
    and s: "tcp_good c s" "rtt_ok (rttc c) (rt s)" "highest_ack s < th_seqno h" "th_seqno h \<le> maxseq s"
    and r: "rtt_fits (rttc c) hi (rt s)" "trips_ok c hi now {th_ts_echo h, rtt_ts s} s"
  shows "alive c (recv_new c now h s)"
proof -
  have tail: "rt (frto_newack c (ack_done (ack_ecn h s))) = rt s" for s
    by (simp add: frto_newack_def spurious_timeout_def ack_done_def ack_ecn_def act_out_def Let_def)
  have a: "alive c (recv_newack_helper c now h s)" unfolding recv_newack_helper_def
  proof (rule alive_bind [OF newack_alive [OF cfg(1,3) s(2) r]])
    fix s1 :: tcp assume r: "rtt_ok (rttc c) (rt s1)"
    show "alive c (bindR (if (\<not> ect_peer s1 \<or> \<not> f_ecnecho h \<or> (old_ecn c \<and> ecn_burst s1)) \<and> (\<not> control_increase c \<or> network_limited c s1)
            then opencwnd c s1 else Inr s1) (\<lambda>s2. Inr (frto_newack c (ack_done (ack_ecn h s2)))))"
      by (rule alive_bind) (use r opencwnd_alive [OF cfg(2)] tail in simp_all)
  qed
  then obtain s1 where s1: "recv_newack_helper c now h s = Inr s1" "rtt_ok (rttc c) (rt s1)" by (auto simp: alive_def)
  with recv_newack_helper_good [OF cfg(2) s(1,3,4), of now] have "init_ok s1" by (simp add: tcp_good_def)
  then obtain w where "initial_window c s1 = Inr w" by (auto simp: init_ok_def initial_window_def)
  with s1 show ?thesis by (simp add: recv_new_def)
qed

lemma tcp_recv_alive:
  assumes cfg: "rtt_cfg_ok (rttc c)" "tcp_cfg_ok c" "\<not> ecn_on c"
    and s: "tcp_good c s" "rtt_ok (rttc c) (rt s)" "highest_ack s < th_seqno h" "th_seqno h \<le> maxseq s" "t_lastreset s \<le> th_ts h"
    and r: "rtt_room (rttc c) hi" "rtt_fits (rttc c) hi (rt s)" "trips_ok c hi now {th_ts_echo h, rtt_ts s} s"
  shows "alive c (tcp_recv c now h s)"
proof -
  have mc: "max_connects c \<le> 0" using cfg(2) by (simp add: tcp_cfg_ok_def)
  have la: "last_ack s = highest_ack s" using tcp_baseD(3) [of c s] s(1) by (simp add: tcp_good_def tcp_inv_def)
  define s1 where "s1 = s\<lparr>ts_peer := th_ts h\<rparr>"
  define s4 where "s4 = (if reno c then
       s1\<lparr>last_cwnd_action := (if last_cwnd_action s1 = CWND_ACTION_DUPACK then CWND_ACTION_EXITED else last_cwnd_action s1), dupwnd := 0\<rparr> else s1)"
  have g: "tcp_good c s1" using s(1) good_other(5) by (simp add: s1_def)
  have g4: "tcp_good c s4" "rtt_ok (rttc c) (rt s4)" "highest_ack s4 < th_seqno h" "th_seqno h \<le> maxseq s4"
    using g s good_other(10) by (simp_all add: s4_def) (simp_all add: s1_def)
  have r4: "rtt_fits (rttc c) hi (rt s4)" "trips_ok c hi now {th_ts_echo h, rtt_ts s4} s4"
    using r by (simp_all add: s4_def s1_def trips_ok_def)
  have f: "recv_frto_helper h s1 = s1" using s(3) la by (simp add: recv_frto_helper_def s1_def)
  have "tcp_recv c now h s = bindR (recv_new c now h s4) (recv_end c now h)"
    unfolding tcp_recv_def Let_def s1_def [symmetric] using s la cfg(3) f by (simp add: s4_def) (simp add: s1_def)
  moreover have "alive c (recv_end c now h s5)" if "rtt_ok (rttc c) (rt s5)" for s5
    using that alive_returns [OF send_much_returns [OF cfg(1) mc that]] by (simp add: recv_end_def)
  ultimately show ?thesis using alive_bind [OF recv_new_alive [OF cfg(1,2) r(1) g4 r4]] by simp
qed

lemma append_ack_ts: "append_ack old p r = Inr (p', r') \<Longrightarrow> th_ts (body p') = th_ts (body p)"
  by (cases r) (auto simp: bindR_eq_Inr)

lemma sink_recv_ts:
  assumes "sink_recv now p r = Inr (as, r')" "q \<in> set (acks as)"
  shows "th_ts (body q) = now"
proof -
  have ack: "th_ts (body npkt) = now" if "sink_ack now p k = Inr (npkt, k')" for k npkt k'
  proof -
    have e: "th_ts (ecn_flags b h sv u (n\<lparr>th_seqno := i, th_ts := t, th_ts_echo := e, flowid := f\<rparr>)) = t" for b h sv u n i t e f
      by (simp add: ecn_flags_def Let_def)
    from that show ?thesis
      by (auto simp: sink_ack_def Let_def bindR_eq_Inr e split: prod.splits dest!: append_ack_ts)
  qed
  show ?thesis
  proof (cases "th_ts (body p) < lastreset r")
    case True
    with assms show ?thesis by (auto simp: sink_recv_def)
  next
    case False
    with assms(1) obtain bs k1 npkt k2 where b: "sink_accept p r = Inr (bs, k1)" "sink_ack now p k1 = Inr (npkt, k2)" "as = bs @ [SendAck npkt, FreePkt p]"
      by (auto simp: sink_recv_def bindR_eq_Inr)
    have "acks bs = []" using b(1) by (auto simp: sink_accept_def Let_def split: option.splits if_splits)
    with b(3) assms(2) ack [OF b(2)] show ?thesis by simp
  qed
qed

text \<open>The timestamp echoed is that of this segment or of one before.\<close>

lemma sink_recv_echo:
  assumes r: "receiver_ok S sz (k_acker k)" and p: "packet_ok sz p" and k: "sink_recv now p k = Inr (as, k')" and q: "q \<in> set (acks as)"
  shows "th_ts_echo (body q) \<in> {ts_to_echo (acker_of (k_acker k)), th_ts (body p)}"
proof (cases "th_ts (body p) < lastreset k")
  case True
  with k q show ?thesis by (auto simp: sink_recv_def)
next
  case False
  let ?u = "update_ts (th_seqno (body p)) (th_ts (body p)) (ts_echo_rfc1323 k) (acker_of (k_acker k))"
  from False k obtain bs k1 npkt k2 where b: "sink_accept p k = Inr (bs, k1)" "sink_ack now p k1 = Inr (npkt, k2)" "as = bs @ [SendAck npkt, FreePkt p]"
    by (auto simp: sink_recv_def bindR_eq_Inr)
  have f: "follows ?u S sz" using receiver_ok_follows [OF r] by (simp add: follows_fields [of ?u "acker_of (k_acker k)"])
  have "\<forall>i \<in> insert (th_seqno (body p)) S. 0 < sz i" using receiver_ok_follows [OF r] p by (auto simp: packet_ok_def)
  from acker_update_follows [OF f this] p obtain d a' where "acker_update (th_seqno (body p)) (psize p) ?u = Some (d, a')" "ts_to_echo a' = ts_to_echo ?u"
    by (metis packet_ok_def)
  with b(1) have k1: "ts_to_echo (acker_of (k_acker k1)) = ts_to_echo ?u" "acks bs = []"
    by (auto simp: sink_accept_def Let_def split: if_splits)
  have ack: "th_ts_echo (body p') = th_ts_echo (body p0)" if "append_ack old p0 r = Inr (p', r')" for old p0 r p' r'
    using that by (cases r) (auto simp: bindR_eq_Inr)
  have e: "th_ts_echo (ecn_flags b h sv u n) = th_ts_echo n" for b h sv u n
    by (simp add: ecn_flags_def Let_def)
  have "th_ts_echo (body npkt) \<in> {ts_to_echo (acker_of (k_acker k1)), th_ts (body p)}"
    using b(2) by (auto simp: sink_ack_def agent_allocpkt_def Let_def bindR_eq_Inr e split: prod.splits dest!: ack)
  with k1 b(3) q show ?thesis by (auto simp: update_ts_def split: if_splits)
qed

lemma deliver_acks:
  assumes "conn_step c now (Deliver i m) k = Inr k'" "i < length (segs_out (t_acts (c_snd k)))"
    "lastreset (c_rcv k) \<le> th_ts (body (segs_out (t_acts (c_snd k)) ! i))" "conn_with c S k" "sizes_ok c"
    and h: "th_seqno (body (segs_out (t_acts (c_snd k)) ! i)) = highest_ack (c_snd k) + 1"
  shows "\<exists>q. c_acks k' = c_acks k @ [q] \<and> th_ts (body q) = now \<and> highest_ack (c_snd k) < th_seqno (body q) \<and> c_snd k' = c_snd k
    \<and> th_ts_echo (body q) \<in> {ts_to_echo (acker_of (k_acker (c_rcv k))), th_ts (body (segs_out (t_acts (c_snd k)) ! i))}"
proof -
  define p where "p = segs_out (t_acts (c_snd k)) ! i"
  have p: "p \<in> set (segs_out (t_acts (c_snd k)))" using assms(2) by (simp add: p_def)
  have g: "tcp_good c (c_snd k)" "receiver_ok S (seg_bytes c) (k_acker (c_rcv k))" using assms(4) by (simp_all add: conn_with_def)
  note pk = segs_out_ok(2) [OF g(1) p assms(5), of m]
  have ts: "lastreset (c_rcv k) \<le> th_ts (body (ce_mark m p))" using assms(3) by (simp add: p_def)
  from sink_recv_ok [OF g(2) pk ts, of now] obtain as npkt r where
    r: "sink_recv now (ce_mark m p) (c_rcv k) = Inr (as, r)" "acks as = [npkt]" "ack_ok (insert (th_seqno (body (ce_mark m p))) S) npkt"
    by metis
  have k': "k' = k\<lparr>c_rcv := r, c_acks := c_acks k @ [npkt], c_got := c_got k + delivered as\<rparr>"
    using assms(1,2) r by (simp add: conn_step_def Let_def flip: p_def)
  let ?h = "highest_ack (c_snd k)"
  have "{0..?h} \<subseteq> S" "-1 \<le> ?h" using assms(4) tcp_baseD(1) [of c "c_snd k"] by (simp_all add: conn_with_def tcp_good_def tcp_inv_def)
  then have "{0..?h + 1} \<subseteq> insert (?h + 1) S" by force
  moreover have "th_seqno (body npkt) + 1 \<notin> insert (?h + 1) S" "-1 \<le> th_seqno (body npkt)"
    using r(3) h by (simp_all add: ack_ok_def flip: p_def)
  ultimately have "th_seqno (body npkt) + 1 \<notin> {0..?h + 1}" by blast
  then have "?h < th_seqno (body npkt)" using \<open>-1 \<le> th_seqno (body npkt)\<close> by simp
  moreover have "th_ts (body npkt) = now" using sink_recv_ts [OF r(1)] r(2) by simp
  moreover have "th_ts_echo (body npkt) \<in> {ts_to_echo (acker_of (k_acker (c_rcv k))), th_ts (body p)}"
    using sink_recv_echo [OF g(2) pk r(1), of npkt] r(2) by simp
  ultimately show ?thesis using k' by (simp add: p_def)
qed

text \<open>
  C6: A connection gets over any loss. Whenever segments are outstanding and the retransmission timer
  expires, the sender sends the first segment not acknowledged once more; the network need only let
  this copy and the ACK of it through for more to be acknowledged than before, whatever was lost,
  repeated or reordered until then. The round trips the ACK may be taken to measure, from the timeout,
  from the segment timed or from the one the sink echoes, are such as the estimator has room for.
\<close>

theorem tcp_connection_progress:
  assumes cfg: "tcp_cfg_ok c" "sizes_ok c" "rtt_cfg_ok (rttc c)" "overhead c = 0" "\<not> ecn_on c" "rtt_room (rttc c) hi"
    and k: "conn_ok c k" and rtt: "rtt_ok (rttc c) (rt (c_snd k))" "t_backoff (rt (c_snd k)) < 2 ^ 30"
    and fits: "rtt_fits (rttc c) hi (rt (c_snd k))"
    and s: "1 \<le> wnd_restart (c_snd k)" "0 \<le> dupwnd (c_snd k)" "delsnd (c_snd k) \<noteq> TIMER_PENDING" "burstsnd (c_snd k) \<noteq> TIMER_PENDING"
      "highest_ack (c_snd k) < maxseq (c_snd k)" "maxseq (c_snd k) < curseq (c_snd k)"
    and t: "lastreset (c_rcv k) \<le> t1" "t_lastreset (c_snd k) \<le> t2"
    and trips: "trips_ok c hi t3 {t1, rtt_ts (c_snd k), ts_to_echo (acker_of (k_acker (c_rcv k)))} (c_snd k)"
  shows "\<exists>k1 i k'. conn_run c [(t1, Local (TimerExpires TCP_TIMER_RTX))] k = Inr k1
    \<and> length (segs_out (t_acts (c_snd k))) \<le> i \<and> i < length (segs_out (t_acts (c_snd k1)))
    \<and> th_seqno (body (segs_out (t_acts (c_snd k1)) ! i)) = highest_ack (c_snd k) + 1
    \<and> conn_run c [(t2, Deliver i m), (t3, AckBack (length (c_acks k)))] k1 = Inr k' \<and> highest_ack (c_snd k) < highest_ack (c_snd k')"
proof -
  let ?s = "c_snd k"
  from k obtain S where w: "conn_with c S k" by (auto simp: conn_ok_def)
  then have g: "tcp_good c ?s" by (simp add: conn_with_def)
  then have pending: "rtx ?s = TIMER_PENDING" using s(5) by (simp add: tcp_good_def tcp_inv_def rtx_ok_def)
  from tcp_expire_resends [OF cfg(3,1,4) g rtt s(1-4), of t1] s(5,6) obtain s1 where s1: "tcp_expire c t1 TCP_TIMER_RTX ?s = Inr s1"
    "resent t1 ?s (highest_ack ?s + 1) s1" "good_from c ?s s1" "rtt_ok (rttc c) (rt s1)" by auto
  define k1 where "k1 = k\<lparr>c_snd := s1\<rparr>"
  have st1: "conn_step c t1 (Local (TimerExpires TCP_TIMER_RTX)) k = Inr k1"
    using s1(1) pending by (simp add: conn_step_def tcp_step_def timer_of_def k1_def)
  have g1: "tcp_good c s1" "highest_ack s1 = highest_ack ?s" "maxseq ?s \<le> maxseq s1" "t_lastreset s1 = t_lastreset ?s"
    using s1(3) by (simp_all add: good_from_def grown_def)
  have w1: "conn_with c S k1" using w g1 by (auto simp: k1_def conn_with_def)
  from s1(2) obtain as p bs where p: "t_acts s1 = t_acts ?s @ as @ SendSeg p # bs" "th_seqno (body p) = highest_ack ?s + 1" "th_ts (body p) = t1"
    by (auto simp: resent_def)
  let ?i = "length (segs_out (t_acts ?s @ as))"
  have i: "?i < length (segs_out (t_acts (c_snd k1)))" "segs_out (t_acts (c_snd k1)) ! ?i = p"
    using p(1) by (simp_all add: k1_def segs_out_def nth_append)
  have fresh: "lastreset (c_rcv k1) \<le> th_ts (body p)" using t(1) p(3) by (simp add: k1_def)
  from deliver_ok [OF cfg(2) w1 i(1), of t2 m] fresh i(2) obtain k2 where
    k2: "conn_step c t2 (Deliver ?i m) k1 = Inr k2" "conn_with c (insert (th_seqno (body p)) S) k2" "c_snd k2 = c_snd k1" by auto
  from deliver_acks [OF k2(1) i(1) _ w1 cfg(2)] fresh i(2) p(2) g1(2) obtain q where
    q: "c_acks k2 = c_acks k1 @ [q]" "th_ts (body q) = t2" "highest_ack s1 < th_seqno (body q)"
      "th_ts_echo (body q) \<in> {ts_to_echo (acker_of (k_acker (c_rcv k1))), th_ts (body p)}" by (auto simp: k1_def)
  have n: "length (c_acks k) < length (c_acks k2)" "c_acks k2 ! length (c_acks k) = q" using q(1) by (simp_all add: k1_def)
  have snd2: "c_snd k2 = s1" using k2(3) by (simp add: k1_def)
  have m: "th_seqno (body q) \<le> maxseq s1" using ack_covered [OF k2(2), of q] q(1) snd2 by simp
  from clocked_expire [OF cfg(3,6) s1(1)] have ck: "rtt_fits (rttc c) hi (rt s1)" "boot_time s1 = boot_time ?s" "rtt_ts s1 \<in> {rtt_ts ?s, t1}"
    using fits by (auto simp: clocked_def)
  have "trips_ok c hi t3 {th_ts_echo (body q), rtt_ts s1} s1"
    using trips ck q(4) p(3) by (auto simp: trips_ok_def k1_def)
  with tcp_recv_alive [OF cfg(3,1,5) g1(1) s1(4) q(3) m _ cfg(6) ck(1)] q(2) t(2) g1(4)
  obtain s3 where s3: "tcp_recv c t3 (body q) s1 = Inr s3" by (auto simp: alive_def)
  have st3: "conn_step c t3 (AckBack (length (c_acks k))) k2 = Inr (k2\<lparr>c_snd := s3\<rparr>)"
    using n snd2 s3 by (simp add: conn_step_def tcp_step_def)
  have "highest_ack s3 = new_ack (body q) s1"
    using ack_back_with(2) [OF cfg(1) k2(2) n(1)] s3 n(2) snd2 by (simp add: tcp_step_def)
  then have "highest_ack ?s < highest_ack s3" using q(2,3) t(2) g1(2,4) by (simp add: new_ack_def)
  then show ?thesis
    by (intro exI [of _ k1] exI [of _ ?i] exI [of _ "k2\<lparr>c_snd := s3\<rparr>"] conjI)
      (use st1 k2(1) st3 i p(2) in simp_all)
qed

theorem tcp_connection_progress_witness:
  "\<exists>k k1 i k'. demo_conn True = Inr k \<and> conn_run (demo_cfg True) [(12, Local (TimerExpires TCP_TIMER_RTX))] k = Inr k1
    \<and> length (segs_out (t_acts (c_snd k))) \<le> i \<and> i < length (segs_out (t_acts (c_snd k1)))
    \<and> conn_run (demo_cfg True) [(13, Deliver i False), (14, AckBack (length (c_acks k)))] k1 = Inr k'
    \<and> highest_ack (c_snd k) < highest_ack (c_snd k')"
proof -
  let ?c = "demo_cfg True"
  have f: "case demo_conn True of Inl er \<Rightarrow> False
    | Inr k \<Rightarrow> let s = c_snd k in rtt_ok (rttc ?c) (rt s) \<and> t_backoff (rt s) < 2 ^ 30 \<and> 1 \<le> wnd_restart s
      \<and> 0 \<le> dupwnd s \<and> delsnd s = TIMER_IDLE \<and> burstsnd s = TIMER_IDLE \<and> highest_ack s < maxseq s \<and> maxseq s < curseq s
      \<and> lastreset (c_rcv k) \<le> 12 \<and> t_lastreset s \<le> 13 \<and> rtt_fits (rttc ?c) 32767 (rt s)
      \<and> trips_ok ?c 32767 14 {12, rtt_ts s, ts_to_echo (acker_of (k_acker (c_rcv k)))} s" by code_simp
  then obtain k where k: "demo_conn True = Inr k" by (cases "demo_conn True") auto
  then obtain s1 where s1: "tcp_reset ?c 0 0 demo_tcp = Inr s1" "conn_run ?c demo_losses (conn_start s1 demo_sink) = Inr k"
    by (auto simp: demo_conn_def bindR_eq_Inr)
  from tcp_reset_good [OF demo_cfg_ok demo_fresh, of True 0 0] s1(1) have "tcp_good ?c s1" "highest_ack s1 = -1" by auto
  from conn_run_ok [OF demo_cfg_ok demo_sizes conn_start_ok [OF this demo_sink_fresh], of demo_losses] s1(2) have ok: "conn_ok ?c k"
    by (auto simp: okC_def conn_ok_def)
  have c: "rtt_cfg_ok (rttc ?c)" "overhead ?c = 0" "\<not> ecn_on ?c" "rtt_room (rttc ?c) 32767"
    using default_rtt_ok default_rtt_room by (simp_all add: demo_cfg_def)
  have "\<exists>k1 i k'. conn_run ?c [(12, Local (TimerExpires TCP_TIMER_RTX))] k = Inr k1
    \<and> length (segs_out (t_acts (c_snd k))) \<le> i \<and> i < length (segs_out (t_acts (c_snd k1)))
    \<and> th_seqno (body (segs_out (t_acts (c_snd k1)) ! i)) = highest_ack (c_snd k) + 1
    \<and> conn_run ?c [(13, Deliver i False), (14, AckBack (length (c_acks k)))] k1 = Inr k' \<and> highest_ack (c_snd k) < highest_ack (c_snd k')"
    by (rule tcp_connection_progress [OF demo_cfg_ok demo_sizes c ok]) (use f k in \<open>simp_all add: Let_def\<close>)
  with k show ?thesis by blast
qed

end
