(* ===== verification/TcpReass.thy ===== *)
theory TcpReass
  imports NsPrelude
begin

text \<open>
  Class \<open>ReassemblyQueue\<close> of \<open>tcp/rq.cc\<close>, which the two-way TCP receivers and the sender's score board
  keep their blocks of sequence numbers in: a list in the order of the numbers (FIFO) and a stack in
  the order of insertion (LIFO) over the same nodes.
\<close>

unbundle bit_operations_syntax

section \<open>State\<close>

text \<open>
  A node is named by its key, which stands for its address; the FIFO holds the nodes, the LIFO their
  keys. \<open>rcv_nxt_\<close> is a reference to a variable of the agent. The cache of free nodes and \<open>hint_\<close>,
  which is written but never read, are left out.
\<close>

record seginfo =
  sid :: nat
  startseq :: int
  endseq :: int
  pflags :: int
  rqflags :: int
  seg_cnt :: int

record rq =
  fifo :: "seginfo list"
  lifo :: "nat list"
  rq_total :: int
  rcv_nxt :: int
  rq_fresh :: nat

definition rq_new :: "int \<Rightarrow> rq" where
  "rq_new n = \<lparr>fifo = [], lifo = [], rq_total = 0, rcv_nxt = n, rq_fresh = 0\<rparr>"

definition rq_empty :: "rq \<Rightarrow> bool" where
  "rq_empty Q \<longleftrightarrow> fifo Q = []"

definition rq_maxseq :: "rq \<Rightarrow> int" where
  "rq_maxseq Q = (if fifo Q = [] then - 1 else endseq (last (fifo Q)))"

definition rq_minseq :: "rq \<Rightarrow> int" where
  "rq_minseq Q = (if fifo Q = [] then - 1 else startseq (hd (fifo Q)))"

section \<open>Nodes\<close>

definition fremove :: "nat \<Rightarrow> rq \<Rightarrow> rq" where
  "fremove k Q = Q\<lparr>fifo := filter (\<lambda>b. sid b \<noteq> k) (fifo Q)\<rparr>"

definition sremove :: "nat \<Rightarrow> rq \<Rightarrow> rq" where
  "sremove k Q = Q\<lparr>lifo := filter (\<lambda>j. j \<noteq> k) (lifo Q)\<rparr>"

definition push :: "nat \<Rightarrow> rq \<Rightarrow> rq" where
  "push k Q = Q\<lparr>lifo := k # lifo Q\<rparr>"

definition seg_update :: "nat \<Rightarrow> (seginfo \<Rightarrow> seginfo) \<Rightarrow> rq \<Rightarrow> rq" where
  "seg_update k f Q = Q\<lparr>fifo := map (\<lambda>b. if sid b = k then f b else b) (fifo Q)\<rparr>"

definition unlink_both :: "nat \<Rightarrow> rq \<Rightarrow> rq" where
  "unlink_both k Q = fremove k (sremove k Q)"

definition block_len :: "seginfo \<Rightarrow> int" where
  "block_len b = endseq b - startseq b"

definition rq_cnts :: "seginfo list \<Rightarrow> int \<times> int" where
  "rq_cnts bs = (int (length bs), sum_list (map block_len bs))"

definition rq_clear :: "rq \<Rightarrow> rq" where
  "rq_clear Q = Q\<lparr>fifo := [], lifo := [], rq_total := 0\<rparr>"

definition rq_init :: "int \<Rightarrow> rq \<Rightarrow> rq" where
  "rq_init n Q = rq_clear (Q\<lparr>rcv_nxt := n\<rparr>)"

section \<open>Taking out\<close>

text \<open>\<open>clearto\<close>: blocks that end by \<open>seq\<close> go, one that reaches beyond it is trimmed.\<close>

fun clear_loop :: "int \<Rightarrow> int \<Rightarrow> seginfo list \<Rightarrow> rq \<Rightarrow> int \<times> rq" where
  "clear_loop seq flag [] Q = (flag, Q)"
| "clear_loop seq flag (p # ps) Q =
     (if endseq p \<le> seq then
        clear_loop seq (flag OR pflags p) ps (unlink_both (sid p) (Q\<lparr>rq_total := rq_total Q - block_len p\<rparr>))
      else if startseq p \<le> seq then
        (flag OR pflags p,
         seg_update (sid p) (\<lambda>b. b\<lparr>startseq := seq\<rparr>) (Q\<lparr>rq_total := rq_total Q - (seq - startseq p)\<rparr>))
      else (flag, Q))"

definition clearto :: "int \<Rightarrow> rq \<Rightarrow> int \<times> rq" where
  "clearto seq Q = clear_loop seq 0 (fifo Q) Q"

definition cleartonxt :: "rq \<Rightarrow> int \<times> rq" where
  "cleartonxt Q = clearto (rcv_nxt Q) Q"

text \<open>The blocks for a selective acknowledgement, in the order of the stack.\<close>

definition seg_of :: "nat \<Rightarrow> rq \<Rightarrow> seginfo option" where
  "seg_of k Q = find (\<lambda>b. sid b = k) (fifo Q)"

definition gensack :: "nat \<Rightarrow> rq \<Rightarrow> (int \<times> int) list" where
  "gensack maxsblock Q =
     map (\<lambda>k. case seg_of k Q of None \<Rightarrow> (0, 0) | Some b \<Rightarrow> (startseq b, endseq b)) (take maxsblock (lifo Q))"

fun hole_loop :: "int \<Rightarrow> seginfo list \<Rightarrow> int \<times> int \<times> int" where
  "hole_loop seq [] = (- 1, - 1, - 1)"
| "hole_loop seq (p # ps) =
     (if startseq p > seq then (seq, rq_cnts (p # ps))
      else if endseq p \<ge> seq then (endseq p, if ps \<noteq> [] then rq_cnts ps else (- 1, - 1))
      else hole_loop seq ps)"

definition nexthole :: "int \<Rightarrow> rq \<Rightarrow> int \<times> int \<times> int" where
  "nexthole seq Q = hole_loop seq (fifo Q)"

section \<open>Adding\<close>

text \<open>\<open>coalesce\<close>: the new block \<open>n\<close> joins the one before, the one after, or both.\<close>

definition coalesce :: "seginfo option \<Rightarrow> seginfo \<Rightarrow> seginfo option \<Rightarrow> rq \<Rightarrow> (int \<times> rq) res" where
  "coalesce p n q Q =
     (let before = (case p of None \<Rightarrow> False | Some b \<Rightarrow> endseq b = startseq n);
          after = (case q of None \<Rightarrow> False | Some b \<Rightarrow> endseq n = startseq b);
          advance = (\<lambda>s e fl Q. Inr (fl, if rcv_nxt Q \<ge> s then Q\<lparr>rcv_nxt := e\<rparr> else Q))
      in case (p, q) of
           (Some b, Some d) \<Rightarrow>
             if before \<and> after then
               advance (startseq b) (endseq d) (pflags b OR pflags n)
                 (seg_update (sid b) (\<lambda>x. x\<lparr>endseq := endseq d, pflags := pflags b OR pflags n, seg_cnt := seg_cnt b + (seg_cnt n + seg_cnt d)\<rparr>)
                   (unlink_both (sid d) (unlink_both (sid n) Q)))
             else if before then
               advance (startseq b) (endseq n) (pflags b OR pflags n)
                 (seg_update (sid b) (\<lambda>x. x\<lparr>endseq := endseq n, pflags := pflags b OR pflags n, seg_cnt := seg_cnt b + seg_cnt n\<rparr>)
                   (unlink_both (sid n) Q))
             else if after then
               advance (startseq n) (endseq d) (pflags d OR pflags n)
                 (seg_update (sid d) (\<lambda>x. x\<lparr>startseq := startseq n, pflags := pflags d OR pflags n, seg_cnt := seg_cnt d + seg_cnt n\<rparr>)
                   (unlink_both (sid n) Q))
             else advance (startseq b) (endseq b) 0 Q
         | (Some b, None) \<Rightarrow>
             if before then
               advance (startseq b) (endseq n) (pflags b OR pflags n)
                 (seg_update (sid b) (\<lambda>x. x\<lparr>endseq := endseq n, pflags := pflags b OR pflags n, seg_cnt := seg_cnt b + seg_cnt n\<rparr>)
                   (unlink_both (sid n) Q))
             else advance (startseq b) (endseq b) 0 Q
         | (None, Some d) \<Rightarrow>
             if after then
               advance (startseq n) (endseq d) (pflags d OR pflags n)
                 (seg_update (sid d) (\<lambda>x. x\<lparr>startseq := startseq n, pflags := pflags d OR pflags n, seg_cnt := seg_cnt d + seg_cnt n\<rparr>)
                   (unlink_both (sid n) Q))
             else Inl NullDeref
         | (None, None) \<Rightarrow> Inl NullDeref)"

text \<open>
  \<open>endfast\<close>: the new block goes between the first \<open>i\<close> nodes, of which \<open>p\<close> is the last, and the node
  \<open>q\<close> at index \<open>j\<close>.
\<close>

definition endfast :: "nat \<Rightarrow> nat \<Rightarrow> int \<Rightarrow> int \<Rightarrow> int \<Rightarrow> int \<Rightarrow> int \<Rightarrow> bool \<Rightarrow> rq \<Rightarrow> (int \<times> rq) res" where
  "endfast i j start en tiflags rqfl initcnt needmerge Q =
     (let xs = fifo Q;
          n = \<lparr>sid = rq_fresh Q, startseq = start, endseq = en, pflags = tiflags, rqflags = rqfl, seg_cnt = initcnt\<rparr>;
          Q1 = push (sid n) (Q\<lparr>fifo := take i xs @ n # drop j xs, rq_total := rq_total Q + (en - start), rq_fresh := rq_fresh Q + 1\<rparr>)
      in if needmerge then coalesce (if i = 0 then None else Some (xs ! (i - 1))) n (if j < length xs then Some (xs ! j) else None) Q1
         else Inr (tiflags, if rcv_nxt Q1 \<ge> start then Q1\<lparr>rcv_nxt := en\<rparr> else Q1))"

text \<open>
  The loop over the blocks between \<open>p\<close> and \<open>q\<close>: those that the new block covers are taken out. A
  block that equals the new one ends the call, with its flags as the result.
\<close>

fun kill_loop :: "int \<Rightarrow> int \<Rightarrow> seginfo list \<Rightarrow> int \<Rightarrow> int \<Rightarrow> bool \<Rightarrow> rq \<Rightarrow> (int \<times> int \<times> bool \<times> rq) + (int \<times> rq)" where
  "kill_loop start en [] tiflags initcnt altered Q = Inl (tiflags, initcnt, altered, Q)"
| "kill_loop start en (r # rs) tiflags initcnt altered Q =
     (if start = startseq r \<and> en = endseq r then
        Inr (pflags r OR tiflags, seg_update (sid r) (\<lambda>b. b\<lparr>pflags := pflags r OR tiflags\<rparr>) Q)
      else if start \<le> startseq r \<and> en \<ge> endseq r then
        kill_loop start en rs (tiflags OR pflags r) (initcnt + seg_cnt r) True
          (unlink_both (sid r) (Q\<lparr>rq_total := rq_total Q - block_len r\<rparr>))
      else kill_loop start en rs tiflags initcnt altered Q)"

text \<open>
  The merges with the block \<open>xs ! i\<close> on the left and \<open>xs ! (j - 1)\<close> on the right, \<open>i\<close> counting the
  blocks that end by \<open>start\<close> and \<open>j\<close> those that start before \<open>en\<close>.
\<close>

definition left_merge :: "nat \<Rightarrow> int \<Rightarrow> int \<Rightarrow> rq \<Rightarrow> rq" where
  "left_merge i start tiflags Q =
     (let b = fifo Q ! i
      in seg_update (sid b) (\<lambda>x. x\<lparr>startseq := min start (startseq b), pflags := pflags b OR tiflags, seg_cnt := seg_cnt b + 1\<rparr>)
           (Q\<lparr>rq_total := rq_total Q + (if start < startseq b then startseq b - start else 0)\<rparr>))"

definition right_merge :: "nat \<Rightarrow> int \<Rightarrow> int \<Rightarrow> rq \<Rightarrow> rq" where
  "right_merge k en tiflags Q =
     (let b = fifo Q ! k
      in seg_update (sid b) (\<lambda>x. x\<lparr>endseq := max en (endseq b), pflags := pflags b OR tiflags\<rparr>)
           (Q\<lparr>rq_total := rq_total Q + (if en > endseq b then en - endseq b else 0)\<rparr>))"

definition add_merge :: "nat \<Rightarrow> nat \<Rightarrow> int \<Rightarrow> int \<Rightarrow> int \<Rightarrow> int \<Rightarrow> int \<Rightarrow> rq \<Rightarrow> (int \<times> rq) res" where
  "add_merge i j start en tiflags rqfl initcnt Q =
     (let left = (i = 0 \<or> startseq (fifo Q ! i) < start);
          Q1 = (if left then left_merge i start tiflags Q else Q);
          start1 = (if left then endseq (fifo Q ! i) else start);
          initcnt1 = (if left then initcnt - 1 else initcnt);
          i1 = (if left then i + 1 else i);
          right = (j = length (fifo Q) \<or> endseq (fifo Q1 ! (j - 1)) > en);
          Q2 = (if right then right_merge (j - 1) en tiflags Q1 else Q1);
          en1 = (if right then startseq (fifo Q1 ! (j - 1)) else en);
          j1 = (if right then j - 1 else j)
      in if en1 \<le> start1 then
           Inr (tiflags, if rcv_nxt Q2 \<ge> startseq (hd (fifo Q2)) then Q2\<lparr>rcv_nxt := endseq (hd (fifo Q2))\<rparr> else Q2)
         else
           let b = fifo Q2 ! (i1 - 1); d = fifo Q2 ! j1;
               easy = (\<not> left \<and> \<not> right \<and> i1 = j1 \<and> endseq b \<le> start1 \<and> startseq d \<ge> en1 \<and> (endseq b = start1 \<or> startseq d = en1))
           in endfast i1 j1 start1 en1 tiflags rqfl initcnt1 (left \<or> right \<or> easy) Q2)"

text \<open>The loop at \<open>again2\<close> goes round only when a block has been taken out.\<close>

lemma length_kill_loop:
  "kill_loop start en rs fl n alt Q = Inl (fl', n', alt', Q') \<Longrightarrow>
    length (fifo Q') \<le> length (fifo Q) \<and> (set rs \<subseteq> set (fifo Q) \<and> alt' \<and> \<not> alt \<longrightarrow> length (fifo Q') < length (fifo Q))"
proof (induction start en rs fl n alt Q rule: kill_loop.induct)
  case (2 start en r rs fl n alt Q)
  let ?Q = "unlink_both (sid r) (Q\<lparr>rq_total := rq_total Q - block_len r\<rparr>)"
  have f: "fifo ?Q = filter (\<lambda>b. sid b \<noteq> sid r) (fifo Q)" by (simp add: unlink_both_def fremove_def sremove_def)
  have le: "length (fifo ?Q) \<le> length (fifo Q)" by (simp add: f)
  have less: "r \<in> set (fifo Q) \<Longrightarrow> length (fifo ?Q) < length (fifo Q)" unfolding f by (rule length_filter_less) auto
  show ?case
  proof (cases "start \<le> startseq r \<and> en \<ge> endseq r")
    case True
    with 2 have "length (fifo Q') \<le> length (fifo ?Q)" by (auto split: if_splits)
    with le less show ?thesis by auto
  next
    case False
    with 2 show ?thesis by (auto split: if_splits)
  qed
qed simp

definition before_count :: "int \<Rightarrow> seginfo list \<Rightarrow> nat" where
  "before_count start xs = length xs - length (takeWhile (\<lambda>b. endseq b > start) (rev xs))"

definition until_count :: "int \<Rightarrow> seginfo list \<Rightarrow> nat" where
  "until_count en xs = length (takeWhile (\<lambda>b. startseq b < en) xs)"

text \<open>
  When every block is taken out, \<open>p\<close> must have been null: otherwise it points to a node given back.
\<close>

function add_loop :: "int \<Rightarrow> int \<Rightarrow> int \<Rightarrow> int \<Rightarrow> int \<Rightarrow> rq \<Rightarrow> (int \<times> rq) res" where
  "add_loop start en tiflags rqfl initcnt Q =
     (let xs = fifo Q
      in if xs = [] then Inl NullDeref
         else if start \<ge> endseq (last xs) then
           endfast (length xs) (length xs) start en tiflags rqfl initcnt (start = endseq (last xs)) Q
         else if en \<le> startseq (hd xs) then endfast 0 0 start en tiflags rqfl initcnt (en = startseq (hd xs)) Q
         else
           (case kill_loop start en (drop (before_count start xs - 1) (take (until_count en xs) xs)) tiflags initcnt False Q of
              Inr result \<Rightarrow> Inr result
            | Inl (tiflags1, initcnt1, altered, Q1) \<Rightarrow>
                if fifo Q1 = [] then
                  (if before_count start xs = 0 then endfast 0 0 start en tiflags1 rqfl initcnt1 False Q1 else Inl UseAfterFree)
                else if altered then add_loop start en tiflags1 rqfl initcnt1 Q1
                else add_merge (before_count start xs) (until_count en xs) start en tiflags1 rqfl initcnt1 Q1))"
  by pat_completeness auto
termination
proof (relation "measure (\<lambda>(start, en, tiflags, rqfl, initcnt, Q). length (fifo Q))", goal_cases)
  case (2 start en tiflags rqfl initcnt Q xs a fl1 y n1 ya alt Q1)
  have "set (drop (before_count start xs - 1) (take (until_count en xs) xs)) \<subseteq> set (fifo Q)"
    using set_drop_subset set_take_subset 2(1) by fast
  with 2 length_kill_loop [of start en "drop (before_count start xs - 1) (take (until_count en xs) xs)" tiflags initcnt False Q fl1 n1 True Q1]
  show ?case by auto
qed simp

declare add_loop.simps [simp del]

definition rq_add :: "int \<Rightarrow> int \<Rightarrow> int \<Rightarrow> int \<Rightarrow> rq \<Rightarrow> (int \<times> rq) res" where
  "rq_add start en tiflags rqfl Q =
     (if en < start then Inl Aborted
      else if fifo Q = [] then
        (if lifo Q \<noteq> [] then Inl Aborted
         else
           let n = \<lparr>sid = rq_fresh Q, startseq = start, endseq = en, pflags = tiflags, rqflags = rqfl, seg_cnt = 1\<rparr>
           in Inr (tiflags, Q\<lparr>fifo := [n], lifo := [rq_fresh Q], rq_total := en - start, rq_fresh := rq_fresh Q + 1,
                              rcv_nxt := (if rcv_nxt Q \<ge> start then en else rcv_nxt Q)\<rparr>))
      else add_loop start en tiflags rqfl 1 Q)"

end
