(* ===== verification/TcpReassInv.thy ===== *)
theory TcpReassInv
  imports TcpReass
begin

text \<open>
  The blocks of the reassembly queue are the maximal runs of the numbers received: the invariant, and
  that every addition keeps it and adds just the numbers of the segment.
\<close>

section \<open>The invariant\<close>

definition ordered :: "seginfo list \<Rightarrow> bool" where
  "ordered xs \<longleftrightarrow> sorted_wrt (\<lambda>a b. endseq a < startseq b) xs \<and> (\<forall>b \<in> set xs. startseq b < endseq b)"

definition covered :: "seginfo list \<Rightarrow> int set" where
  "covered xs = (\<Union>b \<in> set xs. {startseq b..<endseq b})"

definition keys_ok :: "rq \<Rightarrow> bool" where
  "keys_ok Q \<longleftrightarrow> distinct (map sid (fifo Q)) \<and> distinct (lifo Q) \<and> set (lifo Q) = sid ` set (fifo Q) \<and> (\<forall>k \<in> set (lifo Q). k < rq_fresh Q)"

text \<open>What has been received in order ends at \<open>rcv_nxt_\<close>.\<close>

definition next_ok :: "rq \<Rightarrow> bool" where
  "next_ok Q \<longleftrightarrow> (\<forall>b \<in> set (fifo Q). startseq b \<le> rcv_nxt Q \<longrightarrow> endseq b = rcv_nxt Q)"

definition rq_base :: "rq \<Rightarrow> bool" where
  "rq_base Q \<longleftrightarrow> ordered (fifo Q) \<and> keys_ok Q \<and> rq_total Q = sum_list (map block_len (fifo Q))"

definition rq_ok :: "rq \<Rightarrow> bool" where
  "rq_ok Q \<longleftrightarrow> rq_base Q \<and> next_ok Q"

text \<open>The effect of adding \<open>s..<e\<close>.\<close>

definition added :: "int \<Rightarrow> int \<Rightarrow> rq \<Rightarrow> rq \<Rightarrow> bool" where
  "added s e Q Q' \<longleftrightarrow>
     rq_ok Q' \<and> covered (fifo Q') = covered (fifo Q) \<union> {s..<e} \<and> rcv_nxt Q \<le> rcv_nxt Q'
     \<and> {rcv_nxt Q..<rcv_nxt Q'} \<subseteq> covered (fifo Q')"

lemma ordered_simps [simp]: "ordered []" "ordered [b] \<longleftrightarrow> startseq b < endseq b"
  by (simp_all add: ordered_def)

lemma ordered_Cons: "ordered (b # xs) \<longleftrightarrow> startseq b < endseq b \<and> (\<forall>d \<in> set xs. endseq b < startseq d) \<and> ordered xs"
  by (auto simp: ordered_def)

lemma ordered_append: "ordered (xs @ ys) \<longleftrightarrow> ordered xs \<and> ordered ys \<and> (\<forall>a \<in> set xs. \<forall>b \<in> set ys. endseq a < startseq b)"
  by (auto simp: ordered_def sorted_wrt_append)

lemma ordered_block: "ordered xs \<Longrightarrow> b \<in> set xs \<Longrightarrow> startseq b < endseq b"
  by (simp add: ordered_def)

lemma covered_simps [simp]: "covered [] = {}" "covered (b # xs) = {startseq b..<endseq b} \<union> covered xs" "covered (xs @ ys) = covered xs \<union> covered ys"
  by (auto simp: covered_def)

text \<open>Updates of a node with a key of its own.\<close>

lemma keys_out: "distinct (map sid (A @ b # C)) \<Longrightarrow> k = sid b \<Longrightarrow> (\<forall>a \<in> set A \<union> set C. sid a \<noteq> k)"
  by (auto simp: image_iff)

lemma filter_keys: "\<forall>a \<in> set A. sid a \<noteq> k \<Longrightarrow> filter (\<lambda>b. sid b \<noteq> k) A = A"
  by simp

lemma map_keys: "\<forall>a \<in> set A. sid a \<noteq> k \<Longrightarrow> map (\<lambda>b. if sid b = k then f b else b) A = A"
  by (induction A) auto

lemma seg_update_at:
  assumes "fifo Q = A @ b # C" "distinct (map sid (fifo Q))"
  shows "seg_update (sid b) f Q = Q\<lparr>fifo := A @ f b # C\<rparr>"
  using keys_out [of A b C] assms by (simp add: seg_update_def map_keys)

lemma unlink_at:
  assumes "fifo Q = A @ b # C" "distinct (map sid (fifo Q))"
  shows "unlink_both (sid b) Q = Q\<lparr>fifo := A @ C, lifo := filter (\<lambda>j. j \<noteq> sid b) (lifo Q)\<rparr>"
  using keys_out [of A b C] assms by (simp add: unlink_both_def fremove_def sremove_def filter_keys)

section \<open>Finding the place\<close>

text \<open>The blocks split into those before the segment, those that meet it and those after it.\<close>

lemma place:
  assumes "ordered xs" "s < e"
  obtains A B C where "xs = A @ B @ C" "before_count s xs = length A" "until_count e xs = length (A @ B)"
    "\<forall>b \<in> set A. endseq b \<le> s" "\<forall>b \<in> set B. s < endseq b \<and> startseq b < e" "\<forall>b \<in> set C. e \<le> startseq b"
proof -
  define D where "D = takeWhile (\<lambda>b. startseq b < e) xs"
  define C where "C = dropWhile (\<lambda>b. startseq b < e) xs"
  define A where "A = takeWhile (\<lambda>b. endseq b \<le> s) D"
  define B where "B = dropWhile (\<lambda>b. endseq b \<le> s) D"
  have xs: "xs = A @ B @ C" unfolding append_assoc [symmetric] A_def B_def takeWhile_dropWhile_id C_def D_def ..
  have A: "\<forall>b \<in> set A. endseq b \<le> s" using set_takeWhileD unfolding A_def by fast
  have D: "\<forall>b \<in> set (A @ B). startseq b < e" using set_takeWhileD unfolding A_def B_def D_def by fastforce
  have C: "\<forall>b \<in> set C. e \<le> startseq b"
  proof (cases C)
    case (Cons y ys)
    then have "e \<le> startseq y" using hd_dropWhile [of "\<lambda>b. startseq b < e" xs] unfolding C_def by fastforce
    moreover have "ordered (y # ys)" using assms(1) xs Cons by (simp add: ordered_append)
    ultimately show ?thesis using Cons by (auto simp: ordered_Cons)
  qed simp
  have B: "\<forall>b \<in> set B. s < endseq b"
  proof (cases B)
    case (Cons y ys)
    then have "s < endseq y" using hd_dropWhile [of "\<lambda>b. endseq b \<le> s" D] unfolding B_def by fastforce
    moreover have "ordered B" using assms(1) unfolding xs by (simp only: ordered_append)
    ultimately show ?thesis using Cons ordered_block by (fastforce simp: ordered_Cons)
  qed simp
  have BC: "\<forall>b \<in> set (B @ C). s < endseq b" using B C assms ordered_block [OF assms(1)] xs by fastforce
  have "takeWhile (\<lambda>b. s < endseq b) (rev xs) = rev (B @ C)"
  proof -
    have "takeWhile (\<lambda>b. s < endseq b) (rev (B @ C) @ rev A) = rev (B @ C) @ takeWhile (\<lambda>b. s < endseq b) (rev A)"
      by (rule takeWhile_append2) (use BC in auto)
    moreover have "takeWhile (\<lambda>b. s < endseq b) (rev A) = []" using A by (cases "rev A") (auto simp: takeWhile_eq_Nil_iff)
    ultimately show ?thesis using xs by simp
  qed
  then have "before_count s xs = length A" using xs by (simp add: before_count_def)
  moreover have "until_count e xs = length (A @ B)"
    unfolding until_count_def D_def [symmetric] using A_def B_def by (metis takeWhile_dropWhile_id)
  ultimately show thesis using that xs A B C D by auto
qed

text \<open>What meets the segment without being covered by it is at its ends.\<close>

lemma middle_ends:
  assumes "ordered B" "\<forall>b \<in> set B. s < endseq b \<and> startseq b < e" "\<forall>b \<in> set B. \<not> (s \<le> startseq b \<and> endseq b \<le> e)"
  shows "B = [] \<or> (\<exists>b. B = [b]) \<or> (\<exists>b d. B = [b, d] \<and> startseq b < s \<and> endseq b \<le> e \<and> s \<le> startseq d \<and> e < endseq d)"
proof (cases B)
  case (Cons b B1)
  show ?thesis
  proof (cases B1)
    case (Cons d B2)
    have o: "endseq b < startseq d" "startseq b < endseq b" "startseq d < endseq d" "\<forall>x \<in> set B2. endseq d < startseq x" 
      using assms(1) \<open>B = b # B1\<close> Cons by (auto simp: ordered_Cons)
    have m: "s < endseq b" "startseq d < e" using assms(2) \<open>B = b # B1\<close> Cons by auto
    have d: "e < endseq d" using assms(3) \<open>B = b # B1\<close> Cons o m by force
    have b: "startseq b < s" using assms(3) \<open>B = b # B1\<close> Cons o m by force
    have "B2 = []"
    proof (rule ccontr)
      assume "B2 \<noteq> []"
      then obtain x where "x \<in> set B2" by (cases B2) auto
      with assms(2) \<open>B = b # B1\<close> Cons o(4) d show False by fastforce
    qed
    with Cons \<open>B = b # B1\<close> b d o m show ?thesis by auto
  qed (use Cons in simp)
qed simp

section \<open>Taking out what the segment covers\<close>

definition covers :: "int \<Rightarrow> int \<Rightarrow> seginfo \<Rightarrow> bool" where
  "covers s e b \<longleftrightarrow> s \<le> startseq b \<and> endseq b \<le> e"

lemma rq_okD:
  assumes "rq_ok Q"
  shows "ordered (fifo Q)" "distinct (map sid (fifo Q))" "distinct (lifo Q)" "set (lifo Q) = sid ` set (fifo Q)"
    "\<forall>k \<in> set (lifo Q). k < rq_fresh Q" "rq_total Q = sum_list (map block_len (fifo Q))"
    "\<forall>b \<in> set (fifo Q). startseq b \<le> rcv_nxt Q \<longrightarrow> endseq b = rcv_nxt Q"
  using assms by (auto simp: rq_ok_def rq_base_def keys_ok_def next_ok_def)

lemma rq_okI:
  assumes "ordered (fifo Q)" "distinct (map sid (fifo Q))" "distinct (lifo Q)" "set (lifo Q) = sid ` set (fifo Q)"
    "\<forall>k \<in> set (lifo Q). k < rq_fresh Q" "rq_total Q = sum_list (map block_len (fifo Q))"
    "\<forall>b \<in> set (fifo Q). startseq b \<le> rcv_nxt Q \<longrightarrow> endseq b = rcv_nxt Q"
  shows "rq_ok Q"
  using assms by (simp add: rq_ok_def rq_base_def keys_ok_def next_ok_def)

lemma unlink_ok:
  assumes "rq_ok Q" "r \<in> set (fifo Q)"
  defines "Q' \<equiv> unlink_both (sid r) (Q\<lparr>rq_total := rq_total Q - block_len r\<rparr>)"
  shows "rq_ok Q'" "rcv_nxt Q' = rcv_nxt Q" "set (fifo Q') = set (fifo Q) - {r}" "covered (fifo Q) = covered (fifo Q') \<union> {startseq r..<endseq r}"
proof -
  obtain A C where f: "fifo Q = A @ r # C" using split_list [OF assms(2)] by blast
  have Q': "Q' = Q\<lparr>rq_total := rq_total Q - block_len r, fifo := A @ C, lifo := filter (\<lambda>j. j \<noteq> sid r) (lifo Q)\<rparr>"
    using unlink_at [of "Q\<lparr>rq_total := rq_total Q - block_len r\<rparr>" A r C] f rq_okD(2) [OF assms(1)] by (simp add: Q'_def)
  have d: "\<forall>a \<in> set A \<union> set C. sid a \<noteq> sid r" by (rule keys_out [OF _ refl]) (use f rq_okD(2) [OF assms(1)] in simp)
  then have r: "r \<notin> set A \<union> set C" by blast
  show "rq_ok Q'"
    by (rule rq_okI) (use rq_okD [OF assms(1)] d in \<open>auto simp: Q' f ordered_append ordered_Cons image_iff\<close>)
  show "rcv_nxt Q' = rcv_nxt Q" by (simp add: Q')
  show "set (fifo Q') = set (fifo Q) - {r}" using r by (auto simp: Q' f)
  show "covered (fifo Q) = covered (fifo Q') \<union> {startseq r..<endseq r}" by (auto simp: Q' f)
qed

text \<open>A block whose bounds and key stay changes nothing that matters.\<close>

lemma flags_ok:
  assumes "rq_ok Q" "fifo Q = A @ b # C" "fifo Q' = A @ b' # C" "sid b' = sid b" "startseq b' = startseq b" "endseq b' = endseq b"
    "lifo Q' = lifo Q" "rq_total Q' = rq_total Q" "rcv_nxt Q' = rcv_nxt Q" "rq_fresh Q' = rq_fresh Q"
  shows "rq_ok Q'" "covered (fifo Q') = covered (fifo Q)"
proof -
  show "rq_ok Q'"
    by (rule rq_okI) (use rq_okD [OF assms(1)] assms in \<open>auto simp: ordered_append ordered_Cons block_len_def\<close>)
  show "covered (fifo Q') = covered (fifo Q)" using assms by simp
qed

lemma flags_update_ok:
  assumes "rq_ok Q" "b \<in> set (fifo Q)" "sid (f b) = sid b" "startseq (f b) = startseq b" "endseq (f b) = endseq b"
  shows "rq_ok (seg_update (sid b) f Q)" "covered (fifo (seg_update (sid b) f Q)) = covered (fifo Q)"
proof -
  obtain A C where f: "fifo Q = A @ b # C" using split_list [OF assms(2)] by blast
  have "seg_update (sid b) f Q = Q\<lparr>fifo := A @ f b # C\<rparr>" by (rule seg_update_at [OF f rq_okD(2) [OF assms(1)]])
  with flags_ok [OF assms(1) f, of "seg_update (sid b) f Q" "f b"] assms(3-)
  show "rq_ok (seg_update (sid b) f Q)" "covered (fifo (seg_update (sid b) f Q)) = covered (fifo Q)" by simp_all
qed

lemma seg_update_frame [simp]: "rcv_nxt (seg_update k f Q) = rcv_nxt Q" "lifo (seg_update k f Q) = lifo Q"
  by (simp_all add: seg_update_def)

lemma kill_loop_ok:
  assumes "rq_ok Q" "set rs \<subseteq> set (fifo Q)" "distinct rs"
  shows "case kill_loop s e rs fl n alt Q of
      Inr (fl', Q') \<Rightarrow> added s e Q Q'
    | Inl (fl', n', alt', Q') \<Rightarrow> rq_ok Q' \<and> rcv_nxt Q' = rcv_nxt Q \<and> covered (fifo Q') \<union> {s..<e} = covered (fifo Q) \<union> {s..<e} \<and>
        (\<forall>b \<in> set (fifo Q). \<not> covers s e b \<longrightarrow> b \<in> set (fifo Q')) \<and> (alt' \<or> (\<not> alt \<and> Q' = Q \<and> (\<forall>r \<in> set rs. \<not> covers s e r)))"
  using assms
proof (induction rs arbitrary: fl n alt Q)
  case Nil
  then show ?case by simp
next
  case (Cons r rs)
  let ?Q = "unlink_both (sid r) (Q\<lparr>rq_total := rq_total Q - block_len r\<rparr>)"
  have r: "r \<in> set (fifo Q)" using Cons.prems by simp
  consider (same) "s = startseq r \<and> e = endseq r" | (inside) "\<not> (s = startseq r \<and> e = endseq r)" "s \<le> startseq r \<and> endseq r \<le> e"
    | (other) "\<not> (s = startseq r \<and> e = endseq r)" "\<not> (s \<le> startseq r \<and> endseq r \<le> e)" by blast
  then show ?case
  proof cases
    case same
    have u: "rq_ok (seg_update (sid r) (\<lambda>b. b\<lparr>pflags := pflags r OR fl\<rparr>) Q)"
      "covered (fifo (seg_update (sid r) (\<lambda>b. b\<lparr>pflags := pflags r OR fl\<rparr>) Q)) = covered (fifo Q)"
      by (rule flags_update_ok [OF Cons.prems(1) r]; simp)+
    have "{s..<e} \<subseteq> covered (fifo Q)" using r same by (auto simp: covered_def)
    with u same show ?thesis by (auto simp: added_def)
  next
    case inside
    note k = unlink_ok [OF Cons.prems(1) r]
    have c: "covered (fifo ?Q) \<union> {s..<e} = covered (fifo Q) \<union> {s..<e}" unfolding k(4) using inside by auto
    have "set rs \<subseteq> set (fifo ?Q)" using Cons.prems k(3) by auto
    with Cons.IH [OF k(1), where fl = "fl OR pflags r" and n = "n + seg_cnt r" and alt = True] Cons.prems(3)
    have IH: "case kill_loop s e rs (fl OR pflags r) (n + seg_cnt r) True ?Q of
        Inr (fl', Q') \<Rightarrow> added s e ?Q Q'
      | Inl (fl', n', alt', Q') \<Rightarrow> rq_ok Q' \<and> rcv_nxt Q' = rcv_nxt ?Q \<and> covered (fifo Q') \<union> {s..<e} = covered (fifo ?Q) \<union> {s..<e} \<and>
        (\<forall>b \<in> set (fifo ?Q). \<not> covers s e b \<longrightarrow> b \<in> set (fifo Q')) \<and> alt'" by (auto split: sum.splits prod.splits)
    have st: "kill_loop s e (r # rs) fl n alt Q = kill_loop s e rs (fl OR pflags r) (n + seg_cnt r) True ?Q" using inside by auto
    have "covers s e r" using inside by (simp add: covers_def)
    with IH c k(2,3) show ?thesis unfolding st by (auto simp: added_def split: sum.splits prod.splits)
  next
    case other
    have st: "kill_loop s e (r # rs) fl n alt Q = kill_loop s e rs fl n alt Q" using other by auto
    have "\<not> covers s e r" using other by (simp add: covers_def)
    with Cons.IH [OF Cons.prems(1), where fl = fl and n = n and alt = alt] Cons.prems show ?thesis unfolding st by (auto split: sum.splits prod.splits)
  qed
qed

section \<open>Putting the block in\<close>

definition moved :: "seginfo \<Rightarrow> int \<Rightarrow> int" where
  "moved n r = (if r \<ge> startseq n then endseq n else r)"

lemma moved_next:
  assumes "rq_ok Q" "fifo Q = A @ B @ C" "s < e" "covered B \<union> {s..<e} = {startseq n..<endseq n}" "rcv_nxt Q \<le> e"
    "ordered (A @ n # C)"
  shows "\<forall>b \<in> set (A @ n # C). startseq b \<le> moved n (rcv_nxt Q) \<longrightarrow> endseq b = moved n (rcv_nxt Q)"
    "rcv_nxt Q \<le> moved n (rcv_nxt Q)" "{rcv_nxt Q..<moved n (rcv_nxt Q)} \<subseteq> {startseq n..<endseq n}"
proof -
  have se: "startseq n < endseq n" "\<forall>a \<in> set A. startseq a < endseq a \<and> endseq a < startseq n" "\<forall>c \<in> set C. endseq n < startseq c"
    using assms(6) ordered_block by (auto simp: ordered_append ordered_Cons)
  have "e - 1 \<in> covered B \<union> {s..<e}" using assms(3) by simp
  then have e: "e \<le> endseq n" unfolding assms(4) by simp
  have old: "\<forall>b \<in> set (A @ C). startseq b \<le> rcv_nxt Q \<longrightarrow> endseq b = rcv_nxt Q" using rq_okD(7) [OF assms(1)] assms(2) by auto
  show "\<forall>b \<in> set (A @ n # C). startseq b \<le> moved n (rcv_nxt Q) \<longrightarrow> endseq b = moved n (rcv_nxt Q)"
  proof (cases "startseq n \<le> rcv_nxt Q")
    case True
    have "a \<notin> set A" for a
    proof
      assume a: "a \<in> set A"
      with se(2) have "startseq a < endseq a" "endseq a < startseq n" by simp_all
      moreover from this a old True have "endseq a = rcv_nxt Q" by simp
      ultimately show False using True by simp
    qed
    then have "A = []" by (cases A) auto
    with True se(3) show ?thesis by (auto simp: moved_def)
  next
    case False
    with old show ?thesis by (auto simp: moved_def)
  qed
  show "rcv_nxt Q \<le> moved n (rcv_nxt Q)" using e assms(5) by (simp add: moved_def)
  show "{rcv_nxt Q..<moved n (rcv_nxt Q)} \<subseteq> {startseq n..<endseq n}" by (auto simp: moved_def)
qed

lemma block_added:
  assumes Q: "rq_ok Q" and f: "fifo Q = A @ B @ C" "fifo Q' = A @ n # C" and se: "s < e" and o: "ordered (A @ n # C)"
    and c: "covered B \<union> {s..<e} = {startseq n..<endseq n}" and r: "rcv_nxt Q \<le> e" "rcv_nxt Q' = moved n (rcv_nxt Q)"
    and k: "distinct (map sid (fifo Q'))" "distinct (lifo Q')" "set (lifo Q') = sid ` set (fifo Q')" "\<forall>k \<in> set (lifo Q'). k < rq_fresh Q'"
    and t: "rq_total Q' = sum_list (map block_len (fifo Q'))"
  shows "added s e Q Q'"
proof -
  note m = moved_next [OF Q f(1) se c r(1) o]
  have "rq_ok Q'" using rq_okI [OF _ k t] o m(1) unfolding f(2) r(2) by blast
  moreover have "covered (fifo Q') = covered (fifo Q) \<union> {s..<e}" using c unfolding f by auto
  moreover have "rcv_nxt Q \<le> rcv_nxt Q'" using m(2) r(2) by simp
  moreover have "{rcv_nxt Q..<rcv_nxt Q'} \<subseteq> covered (fifo Q')" using m(3) unfolding r(2) f(2) by auto
  ultimately show ?thesis by (simp add: added_def)
qed

text \<open>The new block between the two halves of the list, and its merge with a neighbour that it touches.\<close>

definition fresh_block :: "int \<Rightarrow> int \<Rightarrow> int \<Rightarrow> int \<Rightarrow> int \<Rightarrow> rq \<Rightarrow> seginfo" where
  "fresh_block s e fl rf cnt Q = \<lparr>sid = rq_fresh Q, startseq = s, endseq = e, pflags = fl, rqflags = rf, seg_cnt = cnt\<rparr>"

definition with_block :: "seginfo list \<Rightarrow> seginfo \<Rightarrow> seginfo list \<Rightarrow> rq \<Rightarrow> rq" where
  "with_block A n C Q = Q\<lparr>fifo := A @ n # C, lifo := sid n # lifo Q, rq_total := rq_total Q + block_len n, rq_fresh := rq_fresh Q + 1\<rparr>"

lemma with_block_simps [simp]:
  "fifo (with_block A n C Q) = A @ n # C" "lifo (with_block A n C Q) = sid n # lifo Q"
  "rq_total (with_block A n C Q) = rq_total Q + block_len n" "rcv_nxt (with_block A n C Q) = rcv_nxt Q"
  "rq_fresh (with_block A n C Q) = rq_fresh Q + 1"
  by (simp_all add: with_block_def)

lemma fresh_block_simps [simp]:
  "sid (fresh_block s e fl rf cnt Q) = rq_fresh Q" "startseq (fresh_block s e fl rf cnt Q) = s" "endseq (fresh_block s e fl rf cnt Q) = e"
  "pflags (fresh_block s e fl rf cnt Q) = fl"
  by (simp_all add: fresh_block_def)

lemma endfast_eq:
  assumes "fifo Q = A @ C" "i = length A" "j = length A" "n = fresh_block s e fl rf cnt Q"
  shows "endfast i j s e fl rf cnt m Q =
    (if m then coalesce (if A = [] then None else Some (last A)) n (if C = [] then None else Some (hd C)) (with_block A n C Q)
     else Inr (fl, (with_block A n C Q)\<lparr>rcv_nxt := moved n (rcv_nxt Q)\<rparr>))"
proof -
  have w: "push (sid n) (Q\<lparr>fifo := take i (fifo Q) @ n # drop j (fifo Q), rq_total := rq_total Q + (e - s), rq_fresh := rq_fresh Q + 1\<rparr>) = with_block A n C Q"
    by (simp add: push_def with_block_def assms block_len_def)
  have p: "(if i = 0 then None else Some (fifo Q ! (i - 1))) = (if A = [] then None else Some (last A))"
    using assms by (auto simp: nth_append last_conv_nth)
  have q: "(if j < length (fifo Q) then Some (fifo Q ! j) else None) = (if C = [] then None else Some (hd C))"
    using assms by (auto simp: nth_append hd_conv_nth)
  show ?thesis unfolding endfast_def Let_def p q assms(4) [unfolded fresh_block_def, symmetric] w
    by (simp add: moved_def assms(4))
qed

lemma with_block_keys:
  assumes "rq_ok Q" "fifo Q = A @ C" "sid n = rq_fresh Q"
  shows "distinct (map sid (A @ n # C))" "rq_fresh Q \<notin> set (lifo Q)" "filter (\<lambda>j. j \<noteq> rq_fresh Q) (lifo Q) = lifo Q"
    "\<forall>k \<in> set (lifo Q). k < rq_fresh Q + 1"
proof -
  have "\<forall>b \<in> set A \<union> set C. sid b < rq_fresh Q" using rq_okD(4,5) [OF assms(1)] assms(2) by auto
  then have "\<forall>b \<in> set A \<union> set C. sid b \<noteq> rq_fresh Q" using less_imp_neq by blast
  then show "distinct (map sid (A @ n # C))" using rq_okD(2) [OF assms(1)] assms(2,3) by (auto simp: image_iff)
  show l: "rq_fresh Q \<notin> set (lifo Q)" using rq_okD(5) [OF assms(1)] by blast
  show "filter (\<lambda>j. j \<noteq> rq_fresh Q) (lifo Q) = lifo Q" using l by (auto simp: filter_id_conv)
  show "\<forall>k \<in> set (lifo Q). k < rq_fresh Q + 1" using rq_okD(5) [OF assms(1)] by auto
qed

lemma coalesce_none:
  assumes "rq_ok Q" "fifo Q = A @ C" "s < e" "\<forall>a \<in> set A. endseq a < s" "\<forall>c \<in> set C. e < startseq c" "rcv_nxt Q \<le> e"
    "n = fresh_block s e fl rf cnt Q"
  shows "added s e Q ((with_block A n C Q)\<lparr>rcv_nxt := moved n (rcv_nxt Q)\<rparr>)"
proof (rule block_added [OF assms(1)])
  show "fifo Q = A @ [] @ C" using assms(2) by simp
  show "ordered (A @ n # C)" using rq_okD(1) [OF assms(1)] assms by (auto simp: ordered_append ordered_Cons)
  show "distinct (map sid (fifo ((with_block A n C Q)\<lparr>rcv_nxt := moved n (rcv_nxt Q)\<rparr>)))"
    using with_block_keys(1) [OF assms(1,2), of n] assms(7) by simp
qed (use assms(3,6) rq_okD(3,4,6) [OF assms(1)] with_block_keys(2,4) [OF assms(1,2), of n] in \<open>auto simp: assms(7,2) block_len_def\<close>)

lemma coalesce_before:
  assumes "rq_ok Q" "fifo Q = (A @ [b]) @ C" "s < e" "\<forall>c \<in> set C. e < startseq c" "rcv_nxt Q \<le> e" "endseq b = s"
    "n = fresh_block s e fl rf cnt Q" "sid b' = sid b" "startseq b' = startseq b" "endseq b' = e"
    "Q1 = unlink_both (sid n) (with_block (A @ [b]) n C Q)"
  shows "fifo Q1 = A @ b # C" "distinct (map sid (fifo Q1))" "rcv_nxt Q1 = rcv_nxt Q"
    "added s e Q (Q1\<lparr>fifo := A @ b' # C, rcv_nxt := moved b' (rcv_nxt Q)\<rparr>)"
proof -
  note k = with_block_keys [OF assms(1,2), of n]
  have u: "Q1 = (with_block (A @ [b]) n C Q)\<lparr>fifo := A @ b # C, lifo := lifo Q\<rparr>"
    using k unlink_at [of "with_block (A @ [b]) n C Q" "A @ [b]" n C] by (simp add: assms(7,11) filter_id_conv)
  show "fifo Q1 = A @ b # C" "rcv_nxt Q1 = rcv_nxt Q" by (simp_all add: u)
  show "distinct (map sid (fifo Q1))" using rq_okD(2) [OF assms(1)] assms(2) by (simp add: u)
  have o: "ordered (A @ b # C)" using rq_okD(1) [OF assms(1)] assms(2) by simp
  show "added s e Q (Q1\<lparr>fifo := A @ b' # C, rcv_nxt := moved b' (rcv_nxt Q)\<rparr>)"
  proof (rule block_added [OF assms(1)])
    show "fifo Q = A @ [b] @ C" using assms(2) by simp
    show "ordered (A @ b' # C)" using o assms by (auto simp: ordered_append ordered_Cons)
    show "covered [b] \<union> {s..<e} = {startseq b'..<endseq b'}" using o assms(3,6,9,10) by (auto simp: ordered_append ordered_Cons)
    show "\<forall>k\<in>set (lifo (Q1\<lparr>fifo := A @ b' # C, rcv_nxt := moved b' (rcv_nxt Q)\<rparr>)). k < rq_fresh (Q1\<lparr>fifo := A @ b' # C, rcv_nxt := moved b' (rcv_nxt Q)\<rparr>)"
      using rq_okD(5) [OF assms(1)] by (auto simp: u)
  qed (use assms(1-10) rq_okD [OF assms(1)] in \<open>auto simp: u block_len_def\<close>)
qed

lemma coalesce_after:
  assumes "rq_ok Q" "fifo Q = A @ d # C" "s < e" "\<forall>a \<in> set A. endseq a < s" "rcv_nxt Q \<le> e" "startseq d = e"
    "n = fresh_block s e fl rf cnt Q" "sid d' = sid d" "startseq d' = s" "endseq d' = endseq d"
    "Q1 = unlink_both (sid n) (with_block A n (d # C) Q)"
  shows "fifo Q1 = A @ d # C" "distinct (map sid (fifo Q1))" "rcv_nxt Q1 = rcv_nxt Q"
    "added s e Q (Q1\<lparr>fifo := A @ d' # C, rcv_nxt := moved d' (rcv_nxt Q)\<rparr>)"
proof -
  note k = with_block_keys [OF assms(1,2), of n]
  have u: "Q1 = (with_block A n (d # C) Q)\<lparr>fifo := A @ d # C, lifo := lifo Q\<rparr>"
    using k unlink_at [of "with_block A n (d # C) Q" A n "d # C"] by (simp add: assms(7,11) filter_id_conv)
  show "fifo Q1 = A @ d # C" "rcv_nxt Q1 = rcv_nxt Q" by (simp_all add: u)
  show "distinct (map sid (fifo Q1))" using rq_okD(2) [OF assms(1)] assms(2) by (simp add: u)
  have o: "ordered (A @ d # C)" using rq_okD(1) [OF assms(1)] assms(2) by simp
  show "added s e Q (Q1\<lparr>fifo := A @ d' # C, rcv_nxt := moved d' (rcv_nxt Q)\<rparr>)"
  proof (rule block_added [OF assms(1)])
    show "fifo Q = A @ [d] @ C" using assms(2) by simp
    show "ordered (A @ d' # C)" using o assms by (auto simp: ordered_append ordered_Cons)
    show "covered [d] \<union> {s..<e} = {startseq d'..<endseq d'}" using o assms(3,6,9,10) by (auto simp: ordered_append ordered_Cons)
    show "\<forall>k\<in>set (lifo (Q1\<lparr>fifo := A @ d' # C, rcv_nxt := moved d' (rcv_nxt Q)\<rparr>)). k < rq_fresh (Q1\<lparr>fifo := A @ d' # C, rcv_nxt := moved d' (rcv_nxt Q)\<rparr>)"
      using rq_okD(5) [OF assms(1)] by (auto simp: u)
  qed (use assms(1-10) rq_okD [OF assms(1)] in \<open>auto simp: u block_len_def\<close>)
qed

lemma coalesce_both:
  assumes "rq_ok Q" "fifo Q = (A @ [b]) @ d # C" "s < e" "rcv_nxt Q \<le> e" "endseq b = s" "startseq d = e"
    "n = fresh_block s e fl rf cnt Q" "sid b' = sid b" "startseq b' = startseq b" "endseq b' = endseq d"
    "Q1 = unlink_both (sid d) (unlink_both (sid n) (with_block (A @ [b]) n (d # C) Q))"
  shows "fifo Q1 = A @ b # C" "distinct (map sid (fifo Q1))" "rcv_nxt Q1 = rcv_nxt Q"
    "added s e Q (Q1\<lparr>fifo := A @ b' # C, rcv_nxt := moved b' (rcv_nxt Q)\<rparr>)"
proof -
  note k = with_block_keys [OF assms(1,2), of n]
  have o: "ordered (A @ b # d # C)" and ds: "distinct (map sid (A @ b # d # C))" using rq_okD(1,2) [OF assms(1)] assms(2) by simp_all
  have u1: "unlink_both (sid n) (with_block (A @ [b]) n (d # C) Q) = (with_block (A @ [b]) n (d # C) Q)\<lparr>fifo := (A @ [b]) @ d # C, lifo := lifo Q\<rparr>"
    using k unlink_at [of "with_block (A @ [b]) n (d # C) Q" "A @ [b]" n "d # C"] by (simp add: assms(7) filter_id_conv)
  have u: "Q1 = (with_block (A @ [b]) n (d # C) Q)\<lparr>fifo := A @ b # C, lifo := filter (\<lambda>j. j \<noteq> sid d) (lifo Q)\<rparr>"
    unfolding assms(11) u1
    using ds unlink_at [of "(with_block (A @ [b]) n (d # C) Q)\<lparr>fifo := (A @ [b]) @ d # C, lifo := lifo Q\<rparr>" "A @ [b]" d C] by simp
  show "fifo Q1 = A @ b # C" "rcv_nxt Q1 = rcv_nxt Q" by (simp_all add: u)
  show "distinct (map sid (fifo Q1))" using ds by (simp add: u)
  have out: "\<forall>x \<in> set A \<union> set C. sid x \<noteq> sid d" "sid b \<noteq> sid d" using ds by (auto simp: image_iff)
  show "added s e Q (Q1\<lparr>fifo := A @ b' # C, rcv_nxt := moved b' (rcv_nxt Q)\<rparr>)"
  proof (rule block_added [OF assms(1)])
    show "fifo Q = A @ [b, d] @ C" using assms(2) by simp
    show "ordered (A @ b' # C)" using o assms by (auto simp: ordered_append ordered_Cons)
    show "covered [b, d] \<union> {s..<e} = {startseq b'..<endseq b'}" using o assms(3,5,6,9,10) by (auto simp: ordered_append ordered_Cons)
    show "\<forall>k\<in>set (lifo (Q1\<lparr>fifo := A @ b' # C, rcv_nxt := moved b' (rcv_nxt Q)\<rparr>)). k < rq_fresh (Q1\<lparr>fifo := A @ b' # C, rcv_nxt := moved b' (rcv_nxt Q)\<rparr>)"
      using rq_okD(5) [OF assms(1)] by (auto simp: u)
    show "set (lifo (Q1\<lparr>fifo := A @ b' # C, rcv_nxt := moved b' (rcv_nxt Q)\<rparr>)) = sid ` set (fifo (Q1\<lparr>fifo := A @ b' # C, rcv_nxt := moved b' (rcv_nxt Q)\<rparr>))"
      using rq_okD(4) [OF assms(1)] assms(2,8) out by (auto simp: u image_iff)
    show "distinct (map sid (fifo (Q1\<lparr>fifo := A @ b' # C, rcv_nxt := moved b' (rcv_nxt Q)\<rparr>)))" using ds assms(8) by simp
  qed (use assms(1-10) rq_okD [OF assms(1)] in \<open>auto simp: u block_len_def\<close>)
qed

lemma advance_eq: "(if rcv_nxt Q \<ge> startseq n then Q\<lparr>rcv_nxt := endseq n\<rparr> else Q) = Q\<lparr>rcv_nxt := moved n (rcv_nxt Q)\<rparr>"
  by (simp add: moved_def)

lemma seg_update_advance:
  assumes "fifo Q = A @ b # C" "distinct (map sid (fifo Q))" "startseq (f b) = s" "endseq (f b) = e"
  shows "(if rcv_nxt (seg_update (sid b) f Q) \<ge> s then seg_update (sid b) f Q\<lparr>rcv_nxt := e\<rparr> else seg_update (sid b) f Q) =
    Q\<lparr>fifo := A @ f b # C, rcv_nxt := moved (f b) (rcv_nxt Q)\<rparr>"
  using assms(3,4) by (simp add: seg_update_at [OF assms(1,2)] moved_def)

lemma strictly_before:
  assumes "ordered A" "\<forall>a \<in> set A. endseq a \<le> s" "A = [] \<or> endseq (last A) \<noteq> s" "a \<in> set A"
  shows "endseq a < s"
proof (cases A rule: rev_cases)
  case (snoc A0 b)
  then have b: "endseq b < s" "startseq b < endseq b" "a \<in> set A0 \<Longrightarrow> endseq a < startseq b" using assms by (auto simp: ordered_append)
  show ?thesis using b assms(4) snoc by auto
qed (use assms in simp)

lemma strictly_after:
  assumes "ordered C" "\<forall>c \<in> set C. e \<le> startseq c" "C = [] \<or> startseq (hd C) \<noteq> e" "c \<in> set C"
  shows "e < startseq c"
proof (cases C)
  case (Cons d C0)
  then have d: "e < startseq d" "startseq d < endseq d" "c \<in> set C0 \<Longrightarrow> endseq d < startseq c" using assms by (auto simp: ordered_Cons)
  show ?thesis using d assms(4) Cons by auto
qed (use assms in simp)

lemma endfast_touching:
  assumes "rq_ok Q" "fifo Q = A @ C" "s < e" "\<forall>a \<in> set A. endseq a \<le> s" "\<forall>c \<in> set C. e \<le> startseq c" "rcv_nxt Q \<le> e"
    "n = fresh_block s e fl rf cnt Q" "(A \<noteq> [] \<and> endseq (last A) = s) \<or> (C \<noteq> [] \<and> startseq (hd C) = e)"
  shows "\<exists>fl' Q'. coalesce (if A = [] then None else Some (last A)) n (if C = [] then None else Some (hd C)) (with_block A n C Q) = Inr (fl', Q') \<and> added s e Q Q'"
proof -
  have o: "ordered (A @ C)" using rq_okD(1) [OF assms(1)] assms(2) by simp
  have oA: "ordered A" and oC: "ordered C" using o by (simp_all add: ordered_append)
  note outA = strictly_before [OF oA assms(4)] and outC = strictly_after [OF oC assms(5)]
  have n: "startseq n = s" "endseq n = e" by (simp_all add: assms(7))
  consider (both) A0 b C0 d where "A = A0 @ [b]" "endseq b = s" "C = d # C0" "startseq d = e"
    | (before) A0 b where "A = A0 @ [b]" "endseq b = s" "C = [] \<or> startseq (hd C) \<noteq> e"
    | (after) C0 d where "C = d # C0" "startseq d = e" "A = [] \<or> endseq (last A) \<noteq> s"
    using assms(8) by (cases A rule: rev_cases; cases C; fastforce)
  then show ?thesis
  proof cases
    case both
    define F :: "seginfo \<Rightarrow> seginfo" where "F = (\<lambda>x. x\<lparr>endseq := endseq d, pflags := pflags b OR pflags n, seg_cnt := seg_cnt b + (seg_cnt n + seg_cnt d)\<rparr>)"
    define Q1 where "Q1 = unlink_both (sid d) (unlink_both (sid n) (with_block (A0 @ [b]) n (d # C0) Q))"
    have F: "sid (F b) = sid b" "startseq (F b) = startseq b" "endseq (F b) = endseq d" by (simp_all add: F_def)
    have f: "fifo Q = (A0 @ [b]) @ d # C0" using assms(2) both by simp
    note k = coalesce_both [OF assms(1) f assms(3,6) both(2,4) assms(7) F Q1_def]
    have "coalesce (Some b) n (Some d) (with_block (A0 @ [b]) n (d # C0) Q) =
      Inr (pflags b OR pflags n, if rcv_nxt (seg_update (sid b) F Q1) \<ge> startseq b then (seg_update (sid b) F Q1)\<lparr>rcv_nxt := endseq d\<rparr> else seg_update (sid b) F Q1)"
      by (simp add: coalesce_def both n F_def Q1_def)
    then show ?thesis using k(4) seg_update_advance [where f = F, OF k(1,2) F(2,3)] both by (simp add: k(3))
  next
    case before
    define F :: "seginfo \<Rightarrow> seginfo" where "F = (\<lambda>x. x\<lparr>endseq := endseq n, pflags := pflags b OR pflags n, seg_cnt := seg_cnt b + seg_cnt n\<rparr>)"
    define Q1 where "Q1 = unlink_both (sid n) (with_block (A0 @ [b]) n C Q)"
    have F: "sid (F b) = sid b" "startseq (F b) = startseq b" "endseq (F b) = e" by (simp_all add: F_def n)
    have f: "fifo Q = (A0 @ [b]) @ C" using assms(2) before by simp
    note k = coalesce_before [OF assms(1) f assms(3) ballI [OF outC [OF before(3)]] assms(6) before(2) assms(7) F Q1_def]
    have "coalesce (Some b) n (if C = [] then None else Some (hd C)) (with_block (A0 @ [b]) n C Q) =
      Inr (pflags b OR pflags n, if rcv_nxt (seg_update (sid b) F Q1) \<ge> startseq b then (seg_update (sid b) F Q1)\<lparr>rcv_nxt := e\<rparr> else seg_update (sid b) F Q1)"
      using before by (auto simp: coalesce_def n F_def Q1_def)
    then show ?thesis using k(4) seg_update_advance [where f = F, OF k(1,2) F(2,3)] before by (simp add: k(3))
  next
    case after
    define F :: "seginfo \<Rightarrow> seginfo" where "F = (\<lambda>x. x\<lparr>startseq := startseq n, pflags := pflags d OR pflags n, seg_cnt := seg_cnt d + seg_cnt n\<rparr>)"
    define Q1 where "Q1 = unlink_both (sid n) (with_block A n (d # C0) Q)"
    have F: "sid (F d) = sid d" "startseq (F d) = s" "endseq (F d) = endseq d" by (simp_all add: F_def n)
    have f: "fifo Q = A @ d # C0" using assms(2) after by simp
    note k = coalesce_after [OF assms(1) f assms(3) ballI [OF outA [OF after(3)]] assms(6) after(2) assms(7) F Q1_def]
    have "coalesce (if A = [] then None else Some (last A)) n (Some d) (with_block A n (d # C0) Q) =
      Inr (pflags d OR pflags n, if rcv_nxt (seg_update (sid d) F Q1) \<ge> s then (seg_update (sid d) F Q1)\<lparr>rcv_nxt := endseq d\<rparr> else seg_update (sid d) F Q1)"
      using after by (auto simp: coalesce_def n F_def Q1_def)
    then show ?thesis using k(4) seg_update_advance [where f = F, OF k(1,2) F(2,3)] after by (simp add: k(3))
  qed
qed

lemma endfast_added:
  assumes "rq_ok Q" "fifo Q = A @ C" "s < e" "\<forall>a \<in> set A. endseq a \<le> s" "\<forall>c \<in> set C. e \<le> startseq c" "rcv_nxt Q \<le> e"
    "i = length A" "j = length A" "m \<longleftrightarrow> (A \<noteq> [] \<and> endseq (last A) = s) \<or> (C \<noteq> [] \<and> startseq (hd C) = e)"
  shows "\<exists>fl' Q'. endfast i j s e fl rf cnt m Q = Inr (fl', Q') \<and> added s e Q Q'"
proof (cases m)
  case True
  then show ?thesis using endfast_touching [OF assms(1-6) refl] assms(9) endfast_eq [OF assms(2,7,8) refl] by simp
next
  case False
  have o: "ordered (A @ C)" using rq_okD(1) [OF assms(1)] assms(2) by simp
  have A: "\<forall>a \<in> set A. endseq a < s" using strictly_before [OF _ assms(4)] o False assms(9) by (auto simp: ordered_append)
  have C: "\<forall>c \<in> set C. e < startseq c" using strictly_after [OF _ assms(5)] o False assms(9) by (auto simp: ordered_append)
  show ?thesis using False coalesce_none [OF assms(1-3) A C assms(6) refl] endfast_eq [OF assms(2,7,8) refl] by simp
qed

section \<open>Merging with the blocks at the ends\<close>

lemma head_advance:
  assumes "rq_ok Q" "fifo Q = A @ B @ C" "fifo Q2 = A @ n # C" "rcv_nxt Q2 = rcv_nxt Q" "ordered (A @ n # C)"
  shows "(if rcv_nxt Q2 \<ge> startseq (hd (fifo Q2)) then Q2\<lparr>rcv_nxt := endseq (hd (fifo Q2))\<rparr> else Q2) = Q2\<lparr>rcv_nxt := moved n (rcv_nxt Q)\<rparr>"
proof (cases A)
  case Nil
  then show ?thesis using assms(3,4) by (simp add: moved_def)
next
  case (Cons a A0)
  have "startseq a < endseq a" "endseq a < startseq n" using assms(5) Cons by (auto simp: ordered_Cons)
  moreover have "startseq a \<le> rcv_nxt Q \<longrightarrow> endseq a = rcv_nxt Q" using rq_okD(7) [OF assms(1)] assms(2) Cons by simp
  ultimately show ?thesis using assms(3,4) Cons by (auto simp: moved_def)
qed

lemma left_merge_at:
  assumes "distinct (map sid (fifo Q))" "fifo Q = A @ b # C" "i = length A"
  obtains b' where "left_merge i s fl Q = Q\<lparr>fifo := A @ b' # C, rq_total := rq_total Q + (if s < startseq b then startseq b - s else 0)\<rparr>"
    "sid b' = sid b" "startseq b' = min s (startseq b)" "endseq b' = endseq b"
proof
  show "left_merge i s fl Q = Q\<lparr>fifo := A @ b\<lparr>startseq := min s (startseq b), pflags := pflags b OR fl, seg_cnt := seg_cnt b + 1\<rparr> # C,
      rq_total := rq_total Q + (if s < startseq b then startseq b - s else 0)\<rparr>"
    using seg_update_at [of "Q\<lparr>rq_total := rq_total Q + (if s < startseq b then startseq b - s else 0)\<rparr>" A b C] assms
    by (simp add: left_merge_def Let_def)
qed simp_all

lemma right_merge_at:
  assumes "distinct (map sid (fifo Q))" "fifo Q = A @ b # C" "k = length A"
  obtains b' where "right_merge k e fl Q = Q\<lparr>fifo := A @ b' # C, rq_total := rq_total Q + (if e > endseq b then e - endseq b else 0)\<rparr>"
    "sid b' = sid b" "endseq b' = max e (endseq b)" "startseq b' = startseq b"
proof
  show "right_merge k e fl Q = Q\<lparr>fifo := A @ b\<lparr>endseq := max e (endseq b), pflags := pflags b OR fl\<rparr> # C,
      rq_total := rq_total Q + (if e > endseq b then e - endseq b else 0)\<rparr>"
    using seg_update_at [of "Q\<lparr>rq_total := rq_total Q + (if e > endseq b then e - endseq b else 0)\<rparr>" A b C] assms
    by (simp add: right_merge_def Let_def)
qed simp_all

lemma added_within:
  assumes "added s1 e1 Q2 Q'" "covered (fifo Q2) = covered (fifo Q)" "rcv_nxt Q2 = rcv_nxt Q" "{s..<e} \<subseteq> covered (fifo Q) \<union> {s1..<e1}"
    "{s1..<e1} \<subseteq> {s..<e}"
  shows "added s e Q Q'"
  using assms by (auto simp: added_def)

lemma add_merge_none:
  assumes "rq_ok Q" "fifo Q = A @ C" "A \<noteq> []" "C \<noteq> []" "s < e" "\<forall>a \<in> set A. endseq a \<le> s" "\<forall>c \<in> set C. e \<le> startseq c" "rcv_nxt Q \<le> e"
  shows "\<exists>fl' Q'. add_merge (length A) (length A) s e fl rf cnt Q = Inr (fl', Q') \<and> added s e Q Q'"
proof -
  have n: "fifo Q ! length A = hd C" "fifo Q ! (length A - 1) = last A"
    using assms(2-4) by (simp_all add: nth_append hd_conv_nth last_conv_nth)
  have h: "endseq (last A) \<le> s" "e \<le> startseq (hd C)" using assms(3,4,6,7) by simp_all
  have L: "(length A = 0 \<or> startseq (fifo Q ! length A) < s) = False"
    and R: "(length A = length (fifo Q) \<or> endseq (fifo Q ! (length A - 1)) > e) = False"
    using h assms(2-5) unfolding n by auto
  have "add_merge (length A) (length A) s e fl rf cnt Q =
      endfast (length A) (length A) s e fl rf cnt (endseq (last A) = s \<or> startseq (hd C) = e) Q"
    unfolding add_merge_def Let_def unfolding L if_False unfolding R if_False unfolding n using h assms(5) by simp
  with endfast_added [OF assms(1,2,5,6,7,8) refl refl, of "endseq (last A) = s \<or> startseq (hd C) = e"] assms(3,4) show ?thesis by simp
qed

lemma add_merge_eq:
  assumes "(i = 0 \<or> startseq (fifo Q ! i) < s) = L" "(if L then left_merge i s fl Q else Q) = Q1" "(if L then endseq (fifo Q ! i) else s) = s1"
    "(j = length (fifo Q) \<or> endseq (fifo Q1 ! (j - 1)) > e) = R" "(if R then right_merge (j - 1) e fl Q1 else Q1) = Q2"
    "(if R then startseq (fifo Q1 ! (j - 1)) else e) = e1" "L \<or> R"
  shows "add_merge i j s e fl rf cnt Q =
    (if e1 \<le> s1 then Inr (fl, if rcv_nxt Q2 \<ge> startseq (hd (fifo Q2)) then Q2\<lparr>rcv_nxt := endseq (hd (fifo Q2))\<rparr> else Q2)
     else endfast (if L then i + 1 else i) (if R then j - 1 else j) s1 e1 fl rf (if L then cnt - 1 else cnt) True Q2)"
proof -
  have m: "(L \<or> R \<or> X) = True" for X using assms(7) by blast
  show ?thesis unfolding add_merge_def Let_def assms(1-6) m ..
qed

lemma add_merge_two:
  assumes "rq_ok Q" "fifo Q = A @ b # d # C" "s < e" "startseq b < s" "s < endseq b" "startseq d < e" "e < endseq d" "rcv_nxt Q \<le> e"
  shows "\<exists>fl' Q'. add_merge (length A) (length A + 2) s e fl rf cnt Q = Inr (fl', Q') \<and> added s e Q Q'"
proof -
  have ds: "distinct (map sid (fifo Q))" by (rule rq_okD(2) [OF assms(1)])
  obtain b' where b': "left_merge (length A) s fl Q = Q\<lparr>fifo := A @ b' # d # C\<rparr>" "sid b' = sid b" "startseq b' = startseq b" "endseq b' = endseq b"
    using left_merge_at [OF ds assms(2) refl, of s fl] assms(4) by (auto simp: min_def)
  let ?Q1 = "Q\<lparr>fifo := A @ b' # d # C\<rparr>"
  have ds1: "distinct (map sid (fifo ?Q1))" using ds assms(2) b' by simp
  have f1: "fifo ?Q1 = (A @ [b']) @ d # C" by simp
  obtain d' where d': "right_merge (length A + 1) e fl ?Q1 = ?Q1\<lparr>fifo := (A @ [b']) @ d' # C\<rparr>" "sid d' = sid d" "startseq d' = startseq d" "endseq d' = endseq d"
    using right_merge_at [OF ds1 f1, of "length A + 1" e fl] assms(7) by (auto simp: max_def)
  let ?Q2 = "?Q1\<lparr>fifo := (A @ [b']) @ d' # C\<rparr>"
  have k1: "rq_ok ?Q1" "covered (fifo ?Q1) = covered (fifo Q)" by (rule flags_ok [OF assms(1,2) _ b'(2-)]; simp)+
  have k2: "rq_ok ?Q2" "covered (fifo ?Q2) = covered (fifo ?Q1)" by (rule flags_ok [OF k1(1) f1 _ d'(2-)]; simp)+
  have o: "ordered (A @ b # d # C)" using rq_okD(1) [OF assms(1)] assms(2) by simp
  have bd: "endseq b < startseq d" using o by (simp add: ordered_append ordered_Cons)
  have n: "fifo Q ! length A = b" "fifo ?Q1 ! (length A + 1) = d" using assms(2) by (simp_all add: nth_append)
  have d2: "length A + 2 - 1 = length A + 1" by simp
  have st: "add_merge (length A) (length A + 2) s e fl rf cnt Q =
      endfast (length A + 1) (length A + 1) (endseq b) (startseq d) fl rf (cnt - 1) True ?Q2"
    using bd add_merge_eq [of "length A" Q s True fl ?Q1 "endseq b" "length A + 2" e True ?Q2 "startseq d" rf cnt]
    unfolding n d2 b'(1) d'(1) using assms(4,7) by simp
  have "\<exists>fl' Q'. endfast (length A + 1) (length A + 1) (endseq b) (startseq d) fl rf (cnt - 1) True ?Q2 = Inr (fl', Q') \<and> added (endseq b) (startseq d) ?Q2 Q'"
  proof (rule endfast_added [OF k2(1)])
    show "fifo ?Q2 = (A @ [b']) @ d' # C" by simp
    show "\<forall>a\<in>set (A @ [b']). endseq a \<le> endseq b" using o b'(4) by (fastforce simp: ordered_append ordered_Cons)
    show "\<forall>c\<in>set (d' # C). startseq d \<le> startseq c" using o d'(3) by (fastforce simp: ordered_append ordered_Cons)
    show "rcv_nxt ?Q2 \<le> startseq d" using rq_okD(7) [OF assms(1)] assms(2,7,8) by force
  qed (use bd b' d' in simp_all)
  then obtain fl' Q' where q: "add_merge (length A) (length A + 2) s e fl rf cnt Q = Inr (fl', Q')" "added (endseq b) (startseq d) ?Q2 Q'"
    using st by auto
  have "added s e Q Q'"
  proof (rule added_within [OF q(2)])
    show "{s..<e} \<subseteq> covered (fifo Q) \<union> {endseq b..<startseq d}" using assms(2,4,7) by auto
    show "{endseq b..<startseq d} \<subseteq> {s..<e}" using assms(5,6) by auto
  qed (use k1(2) k2(2) in simp_all)
  with q(1) show ?thesis by blast
qed

text \<open>One block meets the segment: it is extended, or cuts the segment short on the left or on the right.\<close>

lemma inr_exI: "R = Inr (fl, Q') \<Longrightarrow> P Q' \<Longrightarrow> \<exists>fl Q'. R = Inr (fl, Q') \<and> P Q'"
  by blast

lemma block_stays:
  assumes "rq_ok Q1" "covered (fifo Q1) = covered (fifo Q)" "rcv_nxt Q1 = rcv_nxt Q" "b \<in> set (fifo Q1)" "startseq b \<le> s" "e \<le> endseq b"
  shows "added s e Q (if rcv_nxt Q1 \<ge> startseq (hd (fifo Q1)) then Q1\<lparr>rcv_nxt := endseq (hd (fifo Q1))\<rparr> else Q1)"
proof -
  have "hd (fifo Q1) \<in> set (fifo Q1)" using assms(4) by (cases "fifo Q1") auto
  then have h: "(if rcv_nxt Q1 \<ge> startseq (hd (fifo Q1)) then Q1\<lparr>rcv_nxt := endseq (hd (fifo Q1))\<rparr> else Q1) = Q1"
    using rq_okD(7) [OF assms(1)] by auto
  have "{s..<e} \<subseteq> covered (fifo Q1)" unfolding covered_def by (rule subset_trans [OF _ UN_upper [OF assms(4)]]) (use assms(5,6) in auto)
  then show ?thesis unfolding h added_def using assms(1-3) by auto
qed

lemma add_merge_left:
  assumes "rq_ok Q" "fifo Q = A @ b # C" "s < e" "startseq b < s" "s < endseq b" "endseq b \<le> e" "C \<noteq> []" "\<forall>c \<in> set C. e \<le> startseq c" "rcv_nxt Q \<le> e"
  shows "\<exists>fl' Q'. add_merge (length A) (length A + 1) s e fl rf cnt Q = Inr (fl', Q') \<and> added s e Q Q'"
proof -
  have ds: "distinct (map sid (fifo Q))" by (rule rq_okD(2) [OF assms(1)])
  have o: "ordered (A @ b # C)" using rq_okD(1) [OF assms(1)] assms(2) by simp
  obtain b' where b': "left_merge (length A) s fl Q = Q\<lparr>fifo := A @ b' # C\<rparr>" "sid b' = sid b" "startseq b' = startseq b" "endseq b' = endseq b"
    using left_merge_at [OF ds assms(2) refl, of s fl] assms(4) by (auto simp: min_def)
  let ?Q1 = "Q\<lparr>fifo := A @ b' # C\<rparr>"
  have k1: "rq_ok ?Q1" "covered (fifo ?Q1) = covered (fifo Q)" by (rule flags_ok [OF assms(1,2) _ b'(2-)]; simp)+
  have n: "fifo Q ! length A = b" "fifo ?Q1 ! (length A + 1 - 1) = b'" using assms(2) by (simp_all add: nth_append)
  have R: "(length A + 1 = length (fifo Q) \<or> endseq (fifo ?Q1 ! (length A + 1 - 1)) > e) = False"
    unfolding n using assms(2,6,7) b' by simp
  have "(length A = 0 \<or> startseq (fifo Q ! length A) < s) = True" unfolding n using assms(4) by simp
  from add_merge_eq [OF this _ _ R, of fl "endseq b" ?Q1 e rf cnt]
  have st: "add_merge (length A) (length A + 1) s e fl rf cnt Q =
    (if e \<le> endseq b then Inr (fl, if rcv_nxt ?Q1 \<ge> startseq (hd (fifo ?Q1)) then ?Q1\<lparr>rcv_nxt := endseq (hd (fifo ?Q1))\<rparr> else ?Q1)
     else endfast (length A + 1) (length A + 1) (endseq b) e fl rf (cnt - 1) True ?Q1)"
    unfolding n b'(1) by simp
  show ?thesis
  proof (cases "e \<le> endseq b")
    case True
    have "b' \<in> set (fifo ?Q1)" by simp
    from block_stays [OF k1 _ this, of s e] True assms(4) b'
    show ?thesis unfolding st if_P [OF True] by (intro inr_exI [OF refl]) simp
  next
    case False
    have "\<exists>fl' Q'. endfast (length A + 1) (length A + 1) (endseq b) e fl rf (cnt - 1) True ?Q1 = Inr (fl', Q') \<and> added (endseq b) e ?Q1 Q'"
    proof (rule endfast_added [OF k1(1)])
      show "fifo ?Q1 = (A @ [b']) @ C" by simp
      show "\<forall>a\<in>set (A @ [b']). endseq a \<le> endseq b" using o b'(4) by (fastforce simp: ordered_append ordered_Cons)
    qed (use assms False b' in simp_all)
    then obtain fl' Q' where q: "endfast (length A + 1) (length A + 1) (endseq b) e fl rf (cnt - 1) True ?Q1 = Inr (fl', Q')" "added (endseq b) e ?Q1 Q'"
      by blast
    have "added s e Q Q'" by (rule added_within [OF q(2) k1(2)]) (use assms in auto)
    then show ?thesis unfolding st if_not_P [OF False] using q(1) by blast
  qed
qed

lemma add_merge_right:
  assumes "rq_ok Q" "fifo Q = A @ b # C" "s < e" "s \<le> startseq b" "startseq b < e" "e < endseq b" "A \<noteq> []" "\<forall>a \<in> set A. endseq a \<le> s" "rcv_nxt Q \<le> e"
  shows "\<exists>fl' Q'. add_merge (length A) (length A + 1) s e fl rf cnt Q = Inr (fl', Q') \<and> added s e Q Q'"
proof -
  have ds: "distinct (map sid (fifo Q))" by (rule rq_okD(2) [OF assms(1)])
  have o: "ordered (A @ b # C)" using rq_okD(1) [OF assms(1)] assms(2) by simp
  obtain b' where b': "right_merge (length A) e fl Q = Q\<lparr>fifo := A @ b' # C\<rparr>" "sid b' = sid b" "startseq b' = startseq b" "endseq b' = endseq b"
    using right_merge_at [OF ds assms(2) refl, of e fl] assms(6) by (auto simp: max_def)
  let ?Q1 = "Q\<lparr>fifo := A @ b' # C\<rparr>"
  have k1: "rq_ok ?Q1" "covered (fifo ?Q1) = covered (fifo Q)" by (rule flags_ok [OF assms(1,2) _ b'(2-)]; simp)+
  have n: "fifo Q ! length A = b" "length A + 1 - 1 = length A" using assms(2) by (simp_all add: nth_append)
  have L: "(length A = 0 \<or> startseq (fifo Q ! length A) < s) = False" unfolding n using assms(4,7) by simp
  have R: "(length A + 1 = length (fifo Q) \<or> endseq (fifo Q ! (length A + 1 - 1)) > e) = True" unfolding n using assms(6) by simp
  from add_merge_eq [OF L _ _ _, of fl Q s "length A + 1" e True ?Q1 "startseq b" rf cnt]
  have st: "add_merge (length A) (length A + 1) s e fl rf cnt Q =
    (if startseq b \<le> s then Inr (fl, if rcv_nxt ?Q1 \<ge> startseq (hd (fifo ?Q1)) then ?Q1\<lparr>rcv_nxt := endseq (hd (fifo ?Q1))\<rparr> else ?Q1)
     else endfast (length A) (length A) s (startseq b) fl rf cnt True ?Q1)"
    unfolding n b'(1) using assms(6) by simp
  show ?thesis
  proof (cases "startseq b \<le> s")
    case True
    have "b' \<in> set (fifo ?Q1)" by simp
    from block_stays [OF k1 _ this, of s e] True assms(6) b'
    show ?thesis unfolding st if_P [OF True] by (intro inr_exI [OF refl]) simp
  next
    case False
    have "\<exists>fl' Q'. endfast (length A) (length A) s (startseq b) fl rf cnt True ?Q1 = Inr (fl', Q') \<and> added s (startseq b) ?Q1 Q'"
    proof (rule endfast_added [OF k1(1)])
      show "fifo ?Q1 = A @ b' # C" by simp
      show "\<forall>c\<in>set (b' # C). startseq b \<le> startseq c" using o b'(3) by (fastforce simp: ordered_append ordered_Cons)
      show "rcv_nxt ?Q1 \<le> startseq b" using rq_okD(7) [OF assms(1)] assms(2,6,9) by force
    qed (use assms False b' in simp_all)
    then obtain fl' Q' where q: "endfast (length A) (length A) s (startseq b) fl rf cnt True ?Q1 = Inr (fl', Q')" "added s (startseq b) ?Q1 Q'"
      by blast
    have "added s e Q Q'" by (rule added_within [OF q(2) k1(2)]) (use assms in auto)
    then show ?thesis unfolding st if_not_P [OF False] using q(1) by blast
  qed
qed

lemma add_merge_extend:
  assumes "rq_ok Q" "fifo Q = A @ b # C" "s < e" "s < endseq b" "startseq b < e" "A = [] \<or> startseq b < s" "C = [] \<or> e < endseq b"
    "\<not> covers s e b" "\<forall>a \<in> set A. endseq a \<le> s" "\<forall>c \<in> set C. e \<le> startseq c" "rcv_nxt Q \<le> e"
  shows "\<exists>fl' Q'. add_merge (length A) (length A + 1) s e fl rf cnt Q = Inr (fl', Q') \<and> added s e Q Q'"
proof -
  have ds: "distinct (map sid (fifo Q))" by (rule rq_okD(2) [OF assms(1)])
  have o: "ordered (A @ b # C)" using rq_okD(1) [OF assms(1)] assms(2) by simp
  obtain b' where b': "left_merge (length A) s fl Q = Q\<lparr>fifo := A @ b' # C, rq_total := rq_total Q + (if s < startseq b then startseq b - s else 0)\<rparr>"
      "sid b' = sid b" "startseq b' = min s (startseq b)" "endseq b' = endseq b"
    using left_merge_at [OF ds assms(2) refl, of s fl] by blast
  let ?Q1 = "Q\<lparr>fifo := A @ b' # C, rq_total := rq_total Q + (if s < startseq b then startseq b - s else 0)\<rparr>"
  have ds1: "distinct (map sid (fifo ?Q1))" using ds assms(2) b' by simp
  have f1: "fifo ?Q1 = A @ b' # C" by simp
  obtain b2 where b2: "right_merge (length A) e fl ?Q1 = ?Q1\<lparr>fifo := A @ b2 # C, rq_total := rq_total ?Q1 + (if e > endseq b' then e - endseq b' else 0)\<rparr>"
      "sid b2 = sid b'" "endseq b2 = max e (endseq b')" "startseq b2 = startseq b'"
    using right_merge_at [OF ds1 f1 refl, of e fl] by blast
  let ?Q2 = "?Q1\<lparr>fifo := A @ b2 # C, rq_total := rq_total ?Q1 + (if e > endseq b' then e - endseq b' else 0)\<rparr>"
  have n: "fifo Q ! length A = b" "fifo ?Q1 ! length A = b'" "length A + 1 - 1 = length A" using assms(2) by (simp_all add: nth_append)
  have L: "(length A = 0 \<or> startseq (fifo Q ! length A) < s) = True" unfolding n using assms(6) by auto
  have R: "(length A + 1 = length (fifo Q) \<or> endseq (fifo ?Q1 ! (length A + 1 - 1)) > e) = True" unfolding n using assms(2,7) b' by auto
  have bl: "startseq b < endseq b" using o by (simp add: ordered_append ordered_Cons)
  from add_merge_eq [OF L _ _ R, of fl "endseq b" ?Q2 "min s (startseq b)" rf cnt]
  have st: "add_merge (length A) (length A + 1) s e fl rf cnt Q =
      Inr (fl, if rcv_nxt ?Q2 \<ge> startseq (hd (fifo ?Q2)) then ?Q2\<lparr>rcv_nxt := endseq (hd (fifo ?Q2))\<rparr> else ?Q2)"
    unfolding n b'(1) b2(1) using b'(3) bl assms(4) by (simp add: min_def)
  have f: "fifo Q = A @ [b] @ C" "fifo ?Q2 = A @ b2 # C" using assms(2) by simp_all
  have bounds: "startseq b2 = min s (startseq b)" "endseq b2 = max e (endseq b)" using b' b2 by simp_all
  have o': "ordered (A @ b2 # C)"
  proof -
    have "endseq a < startseq b2" if "a \<in> set A" for a
      using that o assms(6) bounds by (cases "A = []") (auto simp: ordered_append)
    moreover have "endseq b2 < startseq c" if "c \<in> set C" for c
      using that o assms(7) bounds by (cases "C = []") (auto simp: ordered_append ordered_Cons)
    ultimately show ?thesis using o bounds bl by (auto simp: ordered_append ordered_Cons)
  qed
  have "added s e Q (?Q2\<lparr>rcv_nxt := moved b2 (rcv_nxt Q)\<rparr>)"
  proof (rule block_added [OF assms(1) f(1) _ assms(3) o'])
    show "covered [b] \<union> {s..<e} = {startseq b2..<endseq b2}" using bounds assms(4,5) by auto
    show "rq_total (?Q2\<lparr>rcv_nxt := moved b2 (rcv_nxt Q)\<rparr>) = sum_list (map block_len (fifo (?Q2\<lparr>rcv_nxt := moved b2 (rcv_nxt Q)\<rparr>)))"
      using rq_okD(6) [OF assms(1)] assms(2) bounds b'(4) by (simp add: block_len_def)
  qed (use assms(2,11) b' b2 rq_okD [OF assms(1)] in auto)
  moreover have "rcv_nxt ?Q2 = rcv_nxt Q" by simp
  ultimately show ?thesis unfolding st head_advance [OF assms(1) f \<open>rcv_nxt ?Q2 = rcv_nxt Q\<close> o'] by (intro inr_exI [OF refl])
qed

section \<open>The whole addition\<close>

lemma add_merge_added:
  assumes "rq_ok Q" "fifo Q = A @ B @ C" "s < e" "A @ B \<noteq> []" "B @ C \<noteq> []" "\<forall>b \<in> set A. endseq b \<le> s"
    "\<forall>b \<in> set B. s < endseq b \<and> startseq b < e" "\<forall>b \<in> set B. \<not> covers s e b" "\<forall>b \<in> set C. e \<le> startseq b" "rcv_nxt Q \<le> e"
  shows "\<exists>fl' Q'. add_merge (length A) (length (A @ B)) s e fl rf cnt Q = Inr (fl', Q') \<and> added s e Q Q'"
proof -
  have o: "ordered (A @ B @ C)" using rq_okD(1) [OF assms(1)] assms(2) by simp
  then have "ordered B" by (simp add: ordered_append)
  from middle_ends [OF this assms(7)] assms(8)
  consider "B = []" | b where "B = [b]" | b d where "B = [b, d]" "startseq b < s" "endseq b \<le> e" "s \<le> startseq d" "e < endseq d"
    by (auto simp: covers_def)
  then show ?thesis
  proof cases
    case 1
    with add_merge_none [OF assms(1), of A C s e] assms show ?thesis by simp
  next
    case 2
    have q: "fifo Q = A @ b # C" and b: "s < endseq b" "startseq b < e" "\<not> covers s e b" using assms 2 by simp_all
    show ?thesis
    proof (cases "A = [] \<or> startseq b < s")
      case False
      then have "e < endseq b" using b(3) by (simp add: covers_def)
      with add_merge_right [OF assms(1) q assms(3)] False b assms(6,10) 2 show ?thesis by simp
    next
      case L: True
      show ?thesis
      proof (cases "C = [] \<or> e < endseq b")
        case True
        with add_merge_extend [OF assms(1) q assms(3) b(1,2) L True b(3) assms(6,9,10)] 2 show ?thesis by simp
      next
        case False
        then have "startseq b < s" using b(3) by (auto simp: covers_def)
        with add_merge_left [OF assms(1) q assms(3)] False b assms(9,10) 2 show ?thesis by simp
      qed
    qed
  next
    case 3
    then have "fifo Q = A @ b # d # C" "s < endseq b" "startseq d < e" using assms by simp_all
    with add_merge_two [OF assms(1) _ assms(3)] 3 assms(10) show ?thesis by simp
  qed
qed

lemma added_more:
  assumes "added s e Q1 Q'" "covered (fifo Q1) \<union> {s..<e} = covered (fifo Q) \<union> {s..<e}" "rcv_nxt Q1 = rcv_nxt Q"
  shows "added s e Q Q'"
proof -
  have "covered (fifo Q') = covered (fifo Q) \<union> {s..<e}" using assms(1,2) by (simp add: added_def)
  with assms(1) show ?thesis unfolding added_def assms(3) by blast
qed

lemma add_loop_added:
  assumes "rq_ok Q" "s < e" "rcv_nxt Q \<le> e" "fifo Q \<noteq> []"
  shows "\<exists>fl' Q'. add_loop s e fl rf cnt Q = Inr (fl', Q') \<and> added s e Q Q'"
  using assms
proof (induction "length (fifo Q)" arbitrary: Q fl cnt rule: less_induct)
  case less
  have o: "ordered (fifo Q)" by (rule rq_okD(1) [OF less.prems(1)])
  from less.prems(4) have ends: "last (fifo Q) \<in> set (fifo Q)" "hd (fifo Q) \<in> set (fifo Q)" by simp_all
  show ?case
  proof (cases "s \<ge> endseq (last (fifo Q))")
    case True
    have "a \<in> set (fifo Q) \<Longrightarrow> endseq a \<le> endseq (last (fifo Q))" for a
      using o by (cases "fifo Q" rule: rev_cases) (auto simp: ordered_append intro: less_imp_le)
    with True have "\<forall>a \<in> set (fifo Q). endseq a \<le> s" by force
    with endfast_added [OF less.prems(1) append_Nil2 [symmetric] less.prems(2) _ _ less.prems(3) refl refl, of "s = endseq (last (fifo Q))"]
    show ?thesis unfolding add_loop.simps [of s e _ _ _ Q] Let_def if_not_P [OF less.prems(4)] if_P [OF True] using less.prems(4) by (auto simp: eq_commute [of s])
  next
    case nT: False
    show ?thesis
    proof (cases "e \<le> startseq (hd (fifo Q))")
      case True
      have "c \<in> set (fifo Q) \<Longrightarrow> startseq (hd (fifo Q)) \<le> startseq c" for c
        using o by (cases "fifo Q") (auto simp: ordered_Cons intro: less_imp_le)
      with True have "\<forall>c \<in> set (fifo Q). e \<le> startseq c" by force
      with endfast_added [OF less.prems(1) append_Nil [symmetric] less.prems(2) _ _ less.prems(3), of 0 0 "e = startseq (hd (fifo Q))"]
      show ?thesis unfolding add_loop.simps [of s e _ _ _ Q] Let_def if_not_P [OF less.prems(4)] if_not_P [OF nT] if_P [OF True] using less.prems(4) by (auto simp: eq_commute [of e])
    next
      case nH: False
      obtain A B C where p: "fifo Q = A @ B @ C" "before_count s (fifo Q) = length A" "until_count e (fifo Q) = length (A @ B)"
        "\<forall>b \<in> set A. endseq b \<le> s" "\<forall>b \<in> set B. s < endseq b \<and> startseq b < e" "\<forall>b \<in> set C. e \<le> startseq b"
        using place [OF o less.prems(2)] by blast
      have BC: "B @ C \<noteq> []" using p(1,4) nT ends(1) by (cases "B @ C = []") auto
      have AB: "A @ B \<noteq> []" using p(1,6) nH ends(2) by (cases "A @ B = []") auto
      let ?rs = "drop (length A - 1) (take (length (A @ B)) (fifo Q))"
      have dist: "distinct (fifo Q)" using rq_okD(2) [OF less.prems(1)] by (simp add: distinct_map)
      have rs: "set ?rs \<subseteq> set (fifo Q)" "distinct ?rs" "set B \<subseteq> set ?rs"
      proof -
        show "set ?rs \<subseteq> set (fifo Q)" by (meson set_drop_subset set_take_subset subset_trans)
        show "distinct ?rs" using dist by simp
        have "?rs = drop (length A - 1) A @ B" using p(1) by simp
        then show "set B \<subseteq> set ?rs" by simp
      qed
      note K = kill_loop_ok [OF less.prems(1) rs(1,2), where s = s and e = e and fl = fl and n = cnt and alt = False]
      have st: "add_loop s e fl rf cnt Q =
        (case kill_loop s e ?rs fl cnt False Q of
              Inr result \<Rightarrow> Inr result
            | Inl (tiflags1, initcnt1, altered, Q1) \<Rightarrow>
                if fifo Q1 = [] then
                  (if length A = 0 then endfast 0 0 s e tiflags1 rf initcnt1 False Q1 else Inl UseAfterFree)
                else if altered then add_loop s e tiflags1 rf initcnt1 Q1
                else add_merge (length A) (length (A @ B)) s e tiflags1 rf initcnt1 Q1)"
        unfolding add_loop.simps [of s e _ _ _ Q] Let_def if_not_P [OF less.prems(4)] if_not_P [OF nT] if_not_P [OF nH] p(2,3) ..
      show ?thesis
      proof (cases "kill_loop s e ?rs fl cnt False Q")
        case (Inr r)
        with K show ?thesis unfolding st Inr by (cases r) auto
      next
        case (Inl r)
        obtain fl1 cnt1 alt Q1 where r: "r = (fl1, cnt1, alt, Q1)" by (cases r)
        have k: "rq_ok Q1" "rcv_nxt Q1 = rcv_nxt Q" "covered (fifo Q1) \<union> {s..<e} = covered (fifo Q) \<union> {s..<e}"
          "\<forall>b \<in> set (fifo Q). \<not> covers s e b \<longrightarrow> b \<in> set (fifo Q1)" "alt \<or> (Q1 = Q \<and> (\<forall>r \<in> set ?rs. \<not> covers s e r))"
          using K unfolding Inl r by simp_all
        have st1: "add_loop s e fl rf cnt Q =
           (if fifo Q1 = [] then (if length A = 0 then endfast 0 0 s e fl1 rf cnt1 False Q1 else Inl UseAfterFree)
            else if alt then add_loop s e fl1 rf cnt1 Q1 else add_merge (length A) (length (A @ B)) s e fl1 rf cnt1 Q1)"
          unfolding st Inl r by simp
        have r1: "rcv_nxt Q1 \<le> e" using k(2) less.prems(3) by simp
        consider "fifo Q1 = []" | "fifo Q1 \<noteq> []" "alt" | "fifo Q1 \<noteq> []" "\<not> alt" by blast
        then show ?thesis
        proof cases
          case 1
          have "A = []"
          proof (rule ccontr)
            assume "A \<noteq> []"
            then obtain a where a: "a \<in> set A" by (cases A) auto
            then have "startseq a < endseq a" "endseq a \<le> s" using ordered_block [OF o, of a] p(1,4) by auto
            then have "\<not> covers s e a" by (simp add: covers_def)
            with k(4) a p(1) 1 show False by auto
          qed
          with endfast_added [OF k(1), of "[]" "[]" s e 0 0 False] 1 r1 less.prems(2)
          obtain fl' Q' where "add_loop s e fl rf cnt Q = Inr (fl', Q')" "added s e Q1 Q'" unfolding st1 by simp blast
          with added_more [OF _ k(3,2)] show ?thesis by blast
        next
          case 2
          have "length (fifo Q1) < length (fifo Q)" using length_kill_loop [OF Inl [unfolded r]] rs(1) 2(2) by simp
          from less.hyps [OF this k(1) less.prems(2) r1 2(1)]
          obtain fl' Q' where "add_loop s e fl rf cnt Q = Inr (fl', Q')" "added s e Q1 Q'" unfolding st1 using 2 by simp blast
          with added_more [OF _ k(3,2)] show ?thesis by blast
        next
          case 3
          then have "Q1 = Q" "\<forall>b \<in> set B. \<not> covers s e b" using k(5) rs(3) by auto
          with add_merge_added [OF less.prems(1) p(1) less.prems(2) AB BC p(4,5) _ p(6) less.prems(3)] 3
          show ?thesis unfolding st1 by simp
        qed
      qed
    qed
  qed
qed

theorem rq_add_added:
  assumes "rq_ok Q" "s < e" "rcv_nxt Q \<le> e"
  shows "\<exists>fl' Q'. rq_add s e fl rf Q = Inr (fl', Q') \<and> added s e Q Q'"
proof (cases "fifo Q = []")
  case True
  then have l: "lifo Q = []" using rq_okD(4) [OF assms(1)] by simp
  let ?n = "\<lparr>sid = rq_fresh Q, startseq = s, endseq = e, pflags = fl, rqflags = rf, seg_cnt = 1\<rparr>"
  have "added s e Q (Q\<lparr>fifo := [?n], lifo := [rq_fresh Q], rq_total := e - s, rq_fresh := rq_fresh Q + 1,
      rcv_nxt := (if rcv_nxt Q \<ge> s then e else rcv_nxt Q)\<rparr>)"
    using True assms by (auto simp: added_def rq_ok_def rq_base_def keys_ok_def next_ok_def block_len_def)
  then show ?thesis using True l assms(2) by (simp add: rq_add_def Let_def)
next
  case False
  with add_loop_added [OF assms False] assms(2) show ?thesis by (simp add: rq_add_def)
qed

end
