(* ===== verification/TcpReassRuns.thy ===== *)
theory TcpReassRuns
  imports TcpReassInv
begin

text \<open>
  The receiving side of the two-way TCP (\<open>FullTcpAgent\<close> of \<open>tcp/tcp-full.cc\<close>) over the reassembly queue:
  the trimming of data received before, the call of \<open>add\<close> in \<open>reass\<close>, and what goes to the application.
\<close>

unbundle bit_operations_syntax

section \<open>Clearing what has been passed on\<close>

lemma clear_loop_ordered:
  assumes "rq_ok Q" "fifo Q = ps"
  shows "\<exists>fl'. clear_loop (rcv_nxt Q) fl ps Q =
    (fl', Q\<lparr>fifo := filter (\<lambda>b. rcv_nxt Q < endseq b) ps,
            lifo := filter (\<lambda>k. \<forall>b \<in> set ps. sid b = k \<longrightarrow> rcv_nxt Q < endseq b) (lifo Q),
            rq_total := sum_list (map block_len (filter (\<lambda>b. rcv_nxt Q < endseq b) ps))\<rparr>)"
  using assms
proof (induction ps arbitrary: Q fl)
  case Nil
  then have "rq_total Q = 0" "fifo Q = []" using rq_okD(6) [OF Nil(1)] by simp_all
  then show ?case by simp
next
  case (Cons p ps)
  have o: "ordered (p # ps)" using rq_okD(1) [OF Cons.prems(1)] Cons.prems(2) by simp
  have p: "startseq p \<le> rcv_nxt Q \<longrightarrow> endseq p = rcv_nxt Q" using rq_okD(7) [OF Cons.prems(1)] Cons.prems(2) by simp
  show ?case
  proof (cases "endseq p \<le> rcv_nxt Q")
    case True
    let ?Q = "unlink_both (sid p) (Q\<lparr>rq_total := rq_total Q - block_len p\<rparr>)"
    have u: "?Q = Q\<lparr>rq_total := rq_total Q - block_len p, fifo := ps, lifo := filter (\<lambda>j. j \<noteq> sid p) (lifo Q)\<rparr>"
      using unlink_at [of "Q\<lparr>rq_total := rq_total Q - block_len p\<rparr>" "[]" p ps] Cons.prems(2) rq_okD(2) [OF Cons.prems(1)] by simp
    have k: "rq_ok ?Q" "rcv_nxt ?Q = rcv_nxt Q" using unlink_ok(1,2) [OF Cons.prems(1), of p] Cons.prems(2) by simp_all
    have "fifo ?Q = ps" unfolding u by simp
    from Cons.IH [OF k(1) this, of "fl OR pflags p"] obtain fl' where
      "clear_loop (rcv_nxt Q) (fl OR pflags p) ps ?Q = (fl', ?Q\<lparr>fifo := filter (\<lambda>b. rcv_nxt Q < endseq b) ps,
        lifo := filter (\<lambda>k. \<forall>b\<in>set ps. sid b = k \<longrightarrow> rcv_nxt Q < endseq b) (lifo ?Q),
        rq_total := sum_list (map block_len (filter (\<lambda>b. rcv_nxt Q < endseq b) ps))\<rparr>)"
      unfolding k(2) by blast
    moreover have "filter (\<lambda>k. \<forall>b\<in>set ps. sid b = k \<longrightarrow> rcv_nxt Q < endseq b) (filter (\<lambda>j. j \<noteq> sid p) (lifo Q)) =
        filter (\<lambda>k. \<forall>b\<in>set (p # ps). sid b = k \<longrightarrow> rcv_nxt Q < endseq b) (lifo Q)"
      using True by (auto intro!: filter_cong)
    ultimately show ?thesis using True by (simp add: u)
  next
    case False
    with p have s: "rcv_nxt Q < startseq p" by auto
    have all: "\<forall>b \<in> set (p # ps). rcv_nxt Q < endseq b" using s o ordered_block [OF o] by (fastforce simp: ordered_Cons)
    then have f: "filter (\<lambda>b. rcv_nxt Q < endseq b) (p # ps) = p # ps" by simp
    have l: "filter (\<lambda>k. \<forall>b\<in>set (p # ps). sid b = k \<longrightarrow> rcv_nxt Q < endseq b) (lifo Q) = lifo Q"
      using all by (intro filter_True) blast
    have t: "rq_total Q = sum_list (map block_len (p # ps))" using rq_okD(6) [OF Cons.prems(1)] Cons.prems(2) by simp
    show ?thesis unfolding f l t [symmetric] using False s Cons.prems(2) by (intro exI [of _ fl]) simp
  qed
qed

text \<open>What is left lies beyond \<open>rcv_nxt_\<close>.\<close>

lemma cleartonxt_ok:
  assumes "rq_ok Q"
  obtains fl Q' where "cleartonxt Q = (fl, Q')" "rq_ok Q'" "rcv_nxt Q' = rcv_nxt Q" "\<forall>b \<in> set (fifo Q'). rcv_nxt Q < startseq b"
    "covered (fifo Q') = {k \<in> covered (fifo Q). rcv_nxt Q \<le> k}"
proof -
  let ?P = "\<lambda>b. rcv_nxt Q < endseq b"
  obtain fl where c: "cleartonxt Q = (fl, Q\<lparr>fifo := filter ?P (fifo Q),
      lifo := filter (\<lambda>k. \<forall>b \<in> set (fifo Q). sid b = k \<longrightarrow> ?P b) (lifo Q), rq_total := sum_list (map block_len (filter ?P (fifo Q)))\<rparr>)"
    (is "_ = (_, ?Q)") using clear_loop_ordered [OF assms refl, of 0] unfolding cleartonxt_def clearto_def by blast
  note ok = rq_okD [OF assms]
  have start: "rcv_nxt Q < startseq b" if "b \<in> set (fifo Q)" "?P b" for b using ok(7) that by force
  have o: "ordered (filter ?P (fifo Q))" using ok(1) by (auto simp: ordered_def sorted_wrt_filter)
  have inj: "sid b = sid d \<longleftrightarrow> b = d" if "b \<in> set (fifo Q)" "d \<in> set (fifo Q)" for b d
    using ok(2) that by (auto simp: distinct_map inj_on_def)
  have "rq_ok ?Q"
  proof (rule rq_okI)
    show "distinct (map sid (fifo ?Q))" using ok(2) by (auto simp: distinct_map intro: inj_on_subset)
    show "set (lifo ?Q) = sid ` set (fifo ?Q)" using ok(4) inj by auto
  qed (use o ok start in auto)
  moreover have "covered (fifo ?Q) = {k \<in> covered (fifo Q). rcv_nxt Q \<le> k}"
    using start ok(7) by (fastforce simp: covered_def)
  ultimately show thesis using that [OF c] start by simp
qed

section \<open>The receiver\<close>

record ftcp =
  ft_rq :: rq
  ft_bytes :: int

definition ft_new :: "int \<Rightarrow> ftcp" where
  "ft_new r = \<lparr>ft_rq = rq_new r, ft_bytes = 0\<rparr>"

definition TH_FIN :: int where
  "TH_FIN = 1"

definition TH_SYN :: int where
  "TH_SYN = 2"

definition TCPS_SYN_RECEIVED :: int where
  "TCPS_SYN_RECEIVED = 3"

definition TCPS_ESTABLISHED :: int where
  "TCPS_ESTABLISHED = 4"

text \<open>\<open>reass\<close>: the flags of the packet are \<open>tiflags\<close>.\<close>

definition ft_reass :: "int \<Rightarrow> int \<Rightarrow> int \<Rightarrow> int \<Rightarrow> rq \<Rightarrow> (int \<times> rq) res" where
  "ft_reass state start en tiflags Q =
     (if start = en \<and> tiflags AND TH_FIN = 0 then Inl Aborted
      else case rq_add start en tiflags 0 Q of
          Inl x \<Rightarrow> Inl x
        | Inr (fl, Q1) \<Rightarrow>
            if \<not> state \<ge> TCPS_SYN_RECEIVED \<or> start \<noteq> rcv_nxt Q then Inr (0, Q1)
            else if state = TCPS_SYN_RECEIVED \<and> en > start then Inr (0, Q1)
            else let (fl2, Q2) = cleartonxt Q1 in Inr (fl OR fl2, Q2))"

text \<open>The overlap with what has been received: the number, the length and the flags after it.\<close>

definition trim_dup :: "int \<Rightarrow> int \<Rightarrow> int \<Rightarrow> int \<Rightarrow> int \<times> int \<times> int" where
  "trim_dup rcvnxt seqno datalen tiflags =
     (let todrop = rcvnxt - seqno in
      if todrop > 0 \<and> (tiflags AND TH_SYN \<noteq> 0 \<or> datalen > 0) then
        let (fl1, seqno1, todrop1) = (if tiflags AND TH_SYN \<noteq> 0 then (tiflags AND NOT TH_SYN, seqno + 1, todrop - 1) else (tiflags, seqno, todrop));
            (fl2, todrop2) = (if todrop1 > datalen \<or> (todrop1 = datalen \<and> fl1 AND TH_FIN = 0) then (fl1 AND NOT TH_FIN, datalen) else (fl1, todrop1))
        in (seqno1 + todrop2, datalen - todrop2, fl2)
      else (seqno, datalen, tiflags))"

text \<open>The part of \<open>recv\<close> after \<open>dodata\<close>, \<open>pflags\<close> being the flags in the packet.\<close>

definition ft_dodata :: "int \<Rightarrow> int \<Rightarrow> int \<Rightarrow> int \<Rightarrow> int \<Rightarrow> ftcp \<Rightarrow> (int \<times> ftcp) res" where
  "ft_dodata state seqno datalen tiflags pktflags F =
     (if datalen > 0 \<or> tiflags AND TH_FIN \<noteq> 0 then
        if seqno = rcv_nxt (ft_rq F) \<and> rq_empty (ft_rq F) then
          Inr (pktflags AND TH_FIN, F\<lparr>ft_rq := (ft_rq F)\<lparr>rcv_nxt := rcv_nxt (ft_rq F) + datalen\<rparr>, ft_bytes := ft_bytes F + datalen\<rparr>)
        else case ft_reass state seqno (seqno + datalen) pktflags (ft_rq F) of
            Inl x \<Rightarrow> Inl x
          | Inr (fl, Q) \<Rightarrow> Inr (fl, F\<lparr>ft_rq := Q, ft_bytes := ft_bytes F + (if rcv_nxt Q > rcv_nxt (ft_rq F) then rcv_nxt Q - rcv_nxt (ft_rq F) else 0)\<rparr>)
      else Inr (tiflags AND NOT TH_FIN, F))"

text \<open>A segment of data in an established connection.\<close>

definition ft_recv :: "int \<Rightarrow> int \<Rightarrow> ftcp \<Rightarrow> ftcp res" where
  "ft_recv seqno datalen F =
     (let (seqno1, datalen1, fl) = trim_dup (rcv_nxt (ft_rq F)) seqno datalen 0
      in case ft_dodata TCPS_ESTABLISHED seqno1 datalen1 fl 0 F of Inl x \<Rightarrow> Inl x | Inr (fl2, F2) \<Rightarrow> Inr F2)"

fun ft_run :: "(int \<times> int) list \<Rightarrow> ftcp \<Rightarrow> ftcp res" where
  "ft_run [] F = Inr F"
| "ft_run ((s, n) # segs) F = (case ft_recv s n F of Inl x \<Rightarrow> Inl x | Inr F1 \<Rightarrow> ft_run segs F1)"

definition numbers :: "(int \<times> int) list \<Rightarrow> int set" where
  "numbers segs = (\<Union>(s, n) \<in> set segs. {s..<s + n})"

definition ft_inv :: "int \<Rightarrow> int set \<Rightarrow> ftcp \<Rightarrow> bool" where
  "ft_inv r R F \<longleftrightarrow> (let Q = ft_rq F in rq_ok Q \<and> r \<le> rcv_nxt Q \<and> ft_bytes F = rcv_nxt Q - r \<and>
     (\<forall>b \<in> set (fifo Q). rcv_nxt Q < startseq b) \<and> covered (fifo Q) = {k \<in> R. rcv_nxt Q \<le> k} \<and> {r..<rcv_nxt Q} \<subseteq> R)"

lemma ft_invD:
  assumes "ft_inv r R F"
  shows "rq_ok (ft_rq F)" "r \<le> rcv_nxt (ft_rq F)" "ft_bytes F = rcv_nxt (ft_rq F) - r" "\<forall>b \<in> set (fifo (ft_rq F)). rcv_nxt (ft_rq F) < startseq b"
    "covered (fifo (ft_rq F)) = {k \<in> R. rcv_nxt (ft_rq F) \<le> k}" "{r..<rcv_nxt (ft_rq F)} \<subseteq> R"
  using assms by (simp_all add: ft_inv_def Let_def)

text \<open>Adding ahead of \<open>rcv_nxt_\<close> leaves it alone; adding at it moves it over all that follows.\<close>

lemma added_ahead:
  assumes "ft_inv r R F" "added s e (ft_rq F) Q'" "rcv_nxt (ft_rq F) < s" "s < e"
  shows "rcv_nxt Q' = rcv_nxt (ft_rq F)" "\<forall>b \<in> set (fifo Q'). rcv_nxt Q' < startseq b"
proof -
  let ?r = "rcv_nxt (ft_rq F)"
  note i = ft_invD [OF assms(1)]
  have a: "rq_ok Q'" "covered (fifo Q') = covered (fifo (ft_rq F)) \<union> {s..<e}" "?r \<le> rcv_nxt Q'" "{?r..<rcv_nxt Q'} \<subseteq> covered (fifo Q')"
    using assms(2) unfolding added_def by blast+
  have "?r \<notin> covered (fifo (ft_rq F))" using i(4) by (force simp: covered_def)
  then have out: "?r \<notin> covered (fifo Q')" using a(2) assms(3) by simp
  show eq: "rcv_nxt Q' = ?r"
  proof (rule ccontr)
    assume "rcv_nxt Q' \<noteq> ?r"
    with a(3) have "?r \<in> {?r..<rcv_nxt Q'}" by simp
    with a(4) out show False by blast
  qed
  show "\<forall>b \<in> set (fifo Q'). rcv_nxt Q' < startseq b"
  proof
    fix b assume b: "b \<in> set (fifo Q')"
    show "rcv_nxt Q' < startseq b"
    proof (rule ccontr)
      assume "\<not> rcv_nxt Q' < startseq b"
      with b rq_okD(7) [OF a(1)] have e: "endseq b = ?r" "startseq b \<le> ?r" using eq by auto
      have "startseq b < endseq b" by (rule ordered_block [OF rq_okD(1) [OF a(1)] b])
      then have "endseq b - 1 \<in> covered (fifo Q')" using b by (fastforce simp: covered_def)
      then have "?r - 1 \<in> covered (fifo (ft_rq F)) \<or> ?r - 1 \<in> {s..<e}" using a(2) e by auto
      then show False using i(5) assms(3) by auto
    qed
  qed
qed

text \<open>The segment at \<open>rcv_nxt_\<close> joins the queue and is cleared out of it.\<close>

lemma ft_reass_hole:
  assumes "ft_inv r R F" "s = rcv_nxt (ft_rq F)" "s < e"
  shows "\<exists>fl Q. ft_reass TCPS_ESTABLISHED s e 0 (ft_rq F) = Inr (fl, Q) \<and> rq_ok Q \<and> s \<le> rcv_nxt Q \<and> (\<forall>b \<in> set (fifo Q). rcv_nxt Q < startseq b) \<and>
    covered (fifo Q) = {k \<in> R \<union> {s..<e}. rcv_nxt Q \<le> k} \<and> {s..<rcv_nxt Q} \<subseteq> R \<union> {s..<e}"
proof -
  note i = ft_invD [OF assms(1)]
  have "rcv_nxt (ft_rq F) \<le> e" using assms by simp
  from rq_add_added [OF i(1) assms(3) this, of 0 0] obtain fl Q1 where add: "rq_add s e 0 0 (ft_rq F) = Inr (fl, Q1)" "added s e (ft_rq F) Q1"
    by blast
  then have a: "rq_ok Q1" "covered (fifo Q1) = covered (fifo (ft_rq F)) \<union> {s..<e}" "s \<le> rcv_nxt Q1" "{s..<rcv_nxt Q1} \<subseteq> covered (fifo Q1)"
    unfolding added_def assms(2) by blast+
  obtain fl2 Q2 where c: "cleartonxt Q1 = (fl2, Q2)" "rq_ok Q2" "rcv_nxt Q2 = rcv_nxt Q1" "\<forall>b \<in> set (fifo Q2). rcv_nxt Q1 < startseq b"
    "covered (fifo Q2) = {k \<in> covered (fifo Q1). rcv_nxt Q1 \<le> k}" using cleartonxt_ok [OF a(1)] by metis
  have "ft_reass TCPS_ESTABLISHED s e 0 (ft_rq F) = Inr (fl OR fl2, Q2)"
    using add(1) c(1) assms(2,3) by (simp add: ft_reass_def TCPS_ESTABLISHED_def TCPS_SYN_RECEIVED_def)
  moreover have "covered (fifo Q2) = {k \<in> R \<union> {s..<e}. rcv_nxt Q2 \<le> k}" using a(2,3) c(3,5) i(5) assms(2) by auto
  moreover have "{s..<rcv_nxt Q2} \<subseteq> R \<union> {s..<e}" using a(2,4) c(3) i(5) by auto
  ultimately show ?thesis using a(3) c(2-4) by (intro exI [of _ "fl OR fl2"] exI [of _ Q2]) auto
qed

lemma ft_reass_ahead:
  assumes "ft_inv r R F" "rcv_nxt (ft_rq F) < s" "s < e"
  shows "\<exists>fl Q. ft_reass TCPS_ESTABLISHED s e 0 (ft_rq F) = Inr (fl, Q) \<and> rcv_nxt Q = rcv_nxt (ft_rq F) \<and> ft_inv r (R \<union> {s..<e}) (F\<lparr>ft_rq := Q\<rparr>)"
proof -
  note i = ft_invD [OF assms(1)]
  have "rcv_nxt (ft_rq F) \<le> e" using assms by simp
  from rq_add_added [OF i(1) assms(3) this, of 0 0] obtain fl Q1 where add: "rq_add s e 0 0 (ft_rq F) = Inr (fl, Q1)" "added s e (ft_rq F) Q1"
    by blast
  note n = added_ahead [OF assms(1) add(2) assms(2,3)]
  have "ft_reass TCPS_ESTABLISHED s e 0 (ft_rq F) = Inr (0, Q1)" using add(1) assms(2,3) by (simp add: ft_reass_def)
  moreover have a: "rq_ok Q1" "covered (fifo Q1) = covered (fifo (ft_rq F)) \<union> {s..<e}" using add(2) unfolding added_def by blast+
  have "covered (fifo Q1) = {k \<in> R \<union> {s..<e}. rcv_nxt Q1 \<le> k}" using a(2) i(5) n(1) assms(2) by auto
  then have "ft_inv r (R \<union> {s..<e}) (F\<lparr>ft_rq := Q1\<rparr>)" using i a(1) n by (auto simp: ft_inv_def Let_def)
  ultimately show ?thesis using n(1) by blast
qed

section \<open>One segment\<close>

lemma trim_data:
  assumes "0 < n"
  shows "trim_dup r s n 0 = (if r \<le> s then (s, n, 0) else if s + n \<le> r then (s + n, 0, 0) else (r, s + n - r, 0))"
  using assms by (auto simp: trim_dup_def Let_def)

lemma ft_dodata_ok:
  assumes "ft_inv r R F" "rcv_nxt (ft_rq F) \<le> s" "0 < n"
  shows "\<exists>fl F'. ft_dodata TCPS_ESTABLISHED s n 0 0 F = Inr (fl, F') \<and> ft_inv r (R \<union> {s..<s + n}) F' \<and> rcv_nxt (ft_rq F) \<le> rcv_nxt (ft_rq F')"
proof -
  note i = ft_invD [OF assms(1)]
  consider "s = rcv_nxt (ft_rq F)" "rq_empty (ft_rq F)" | "s = rcv_nxt (ft_rq F)" "\<not> rq_empty (ft_rq F)" | "rcv_nxt (ft_rq F) < s"
    using assms(2) by fastforce
  then show ?thesis
  proof cases
    case 1
    let ?F = "F\<lparr>ft_rq := (ft_rq F)\<lparr>rcv_nxt := rcv_nxt (ft_rq F) + n\<rparr>, ft_bytes := ft_bytes F + n\<rparr>"
    have e: "fifo (ft_rq F) = []" using 1 by (simp add: rq_empty_def)
    have "rq_ok ((ft_rq F)\<lparr>rcv_nxt := rcv_nxt (ft_rq F) + n\<rparr>)" by (rule rq_okI) (use rq_okD [OF i(1)] e in auto)
    moreover have "{k \<in> R \<union> {s..<s + n}. s + n \<le> k} = {}"
    proof -
      have "\<not> (k \<in> R \<and> s + n \<le> k)" for k using i(5) e 1(1) assms(3) by force
      then show ?thesis by auto
    qed
    moreover have "{r..<s + n} \<subseteq> R \<union> {s..<s + n}" using i(6) 1(1) by auto
    ultimately have "ft_inv r (R \<union> {s..<s + n}) ?F" using i(2,3) e 1(1) assms(3) by (simp add: ft_inv_def Let_def)
    then show ?thesis using 1 assms(3) by (simp add: ft_dodata_def)
  next
    case 2
    from ft_reass_hole [OF assms(1) 2(1), of "s + n"] assms(3) obtain fl Q where
      q: "ft_reass TCPS_ESTABLISHED s (s + n) 0 (ft_rq F) = Inr (fl, Q)" "rq_ok Q" "s \<le> rcv_nxt Q" "\<forall>b \<in> set (fifo Q). rcv_nxt Q < startseq b"
      "covered (fifo Q) = {k \<in> R \<union> {s..<s + n}. rcv_nxt Q \<le> k}" "{s..<rcv_nxt Q} \<subseteq> R \<union> {s..<s + n}" by auto
    have "{r..<rcv_nxt Q} \<subseteq> {r..<s} \<union> {s..<rcv_nxt Q}" by auto
    then have "{r..<rcv_nxt Q} \<subseteq> R \<union> {s..<s + n}" using q(6) i(6) 2(1) by blast
    with q i(2,3) 2(1) have "ft_inv r (R \<union> {s..<s + n}) (F\<lparr>ft_rq := Q, ft_bytes := ft_bytes F + (if rcv_nxt Q > rcv_nxt (ft_rq F) then rcv_nxt Q - rcv_nxt (ft_rq F) else 0)\<rparr>)"
      by (simp add: ft_inv_def Let_def)
    then show ?thesis using 2 q(1,3) assms(3) by (simp add: ft_dodata_def)
  next
    case 3
    from ft_reass_ahead [OF assms(1) 3, of "s + n"] assms(3) obtain fl Q where
      "ft_reass TCPS_ESTABLISHED s (s + n) 0 (ft_rq F) = Inr (fl, Q)" "rcv_nxt Q = rcv_nxt (ft_rq F)" "ft_inv r (R \<union> {s..<s + n}) (F\<lparr>ft_rq := Q\<rparr>)"
      by auto
    moreover from this have "ft_inv r (R \<union> {s..<s + n}) (F\<lparr>ft_rq := Q, ft_bytes := ft_bytes F + 0\<rparr>)" by (simp add: ft_inv_def)
    ultimately show ?thesis using 3 assms(3) by (simp add: ft_dodata_def)
  qed
qed

lemma ft_recv_ok:
  assumes "ft_inv r R F" "0 < n" "r \<le> s"
  shows "\<exists>F'. ft_recv s n F = Inr F' \<and> ft_inv r (R \<union> {s..<s + n}) F'"
proof -
  let ?r = "rcv_nxt (ft_rq F)"
  note i = ft_invD [OF assms(1)]
  consider "?r \<le> s" | "s < ?r" "s + n \<le> ?r" | "s < ?r" "?r < s + n" by linarith
  then show ?thesis
  proof cases
    case 1
    then show ?thesis using ft_dodata_ok [OF assms(1) 1 assms(2)] trim_data [OF assms(2), of ?r s] by (auto simp: ft_recv_def)
  next
    case 2
    then have "{s..<s + n} \<subseteq> R" using i(6) assms(3) by auto
    then have "R \<union> {s..<s + n} = R" by blast
    then show ?thesis using 2 assms trim_data [OF assms(2), of ?r s] by (simp add: ft_recv_def ft_dodata_def)
  next
    case 3
    have "R \<union> {?r..<?r + (s + n - ?r)} = R \<union> {s..<s + n}"
    proof -
      have "{s..<?r} \<subseteq> R" using i(6) assms(3) by auto
      moreover have "{s..<s + n} = {s..<?r} \<union> {?r..<s + n}" using 3 by auto
      ultimately show ?thesis by auto
    qed
    with ft_dodata_ok [OF assms(1) order_refl, of "s + n - ?r"] 3 trim_data [OF assms(2), of ?r s]
    show ?thesis by (auto simp: ft_recv_def)
  qed
qed

lemma ft_run_ok:
  assumes "ft_inv r R F" "\<forall>(s, n) \<in> set segs. r \<le> s \<and> 0 < n"
  shows "\<exists>F'. ft_run segs F = Inr F' \<and> ft_inv r (R \<union> numbers segs) F'"
  using assms
proof (induction segs F arbitrary: R rule: ft_run.induct)
  case (1 F)
  then show ?case by (simp add: numbers_def)
next
  case (2 s n segs F)
  from ft_recv_ok [OF 2(2), of n s] 2(3) obtain F1 where f: "ft_recv s n F = Inr F1" "ft_inv r (R \<union> {s..<s + n}) F1" by auto
  moreover have "R \<union> numbers ((s, n) # segs) = R \<union> {s..<s + n} \<union> numbers segs" by (auto simp: numbers_def)
  ultimately show ?case using 2(1) [OF f(1) f(2)] 2(3) by simp
qed

lemma ft_new_inv: "ft_inv r {} (ft_new r)"
  by (simp add: ft_inv_def Let_def ft_new_def rq_new_def rq_ok_def rq_base_def keys_ok_def next_ok_def)

end
