(* ===== verification/TcpReassProps.thy ===== *)
theory TcpReassProps
  imports TcpReassRuns
begin

text \<open>The properties of the reassembly queue and of the receiver that keeps it.\<close>

section \<open>One list of blocks for each set of numbers\<close>

definition bounds :: "seginfo list \<Rightarrow> (int \<times> int) list" where
  "bounds xs = map (\<lambda>b. (startseq b, endseq b)) xs"

lemma ordered_gap:
  assumes "ordered (x # xs)"
  shows "endseq x \<notin> covered (x # xs)" "\<forall>k \<in> covered (x # xs). startseq x \<le> k" "covered xs = covered (x # xs) - {startseq x..<endseq x}"
    "startseq x \<in> covered (x # xs)"
proof -
  have o: "startseq x < endseq x" "\<forall>d \<in> set xs. endseq x < startseq d" using assms by (simp_all add: ordered_Cons)
  then have c: "endseq x < k" if "k \<in> covered xs" for k using that by (fastforce simp: covered_def)
  show "endseq x \<notin> covered (x # xs)" using c [of "endseq x"] by auto
  show "\<forall>k \<in> covered (x # xs). startseq x \<le> k" using c o(1) by fastforce
  show "covered xs = covered (x # xs) - {startseq x..<endseq x}" using c by fastforce
  show "startseq x \<in> covered (x # xs)" using o(1) by simp
qed

lemma ordered_end_le:
  assumes "ordered (x # xs)" "ordered (y # ys)" "covered (x # xs) = covered (y # ys)" "startseq x = startseq y"
  shows "endseq x \<le> endseq y"
proof (rule ccontr)
  assume "\<not> endseq x \<le> endseq y"
  moreover have "startseq y < endseq y" using assms(2) by (simp add: ordered_Cons)
  ultimately have "endseq y \<in> covered (x # xs)" using assms(4) by simp
  with ordered_gap(1) [OF assms(2)] assms(3) show False by simp
qed

lemma ordered_unique:
  assumes "ordered xs" "ordered ys" "covered xs = covered ys"
  shows "bounds xs = bounds ys"
  using assms
proof (induction xs arbitrary: ys)
  case Nil
  then show ?case using ordered_gap(4) by (cases ys) (auto simp: bounds_def)
next
  case (Cons x xs)
  then obtain y ys' where ys: "ys = y # ys'" using ordered_gap(4) [OF Cons.prems(1)] by (cases ys) auto
  note ox = ordered_gap [OF Cons.prems(1)] and oy = ordered_gap [OF Cons.prems(2) [unfolded ys]]
  have c: "covered (x # xs) = covered (y # ys')" using Cons.prems(3) unfolding ys .
  have "startseq y \<in> covered (x # xs)" unfolding c by (rule oy(4))
  with ox(2) have "startseq x \<le> startseq y" by (rule bspec)
  moreover have "startseq x \<in> covered (y # ys')" unfolding c [symmetric] by (rule ox(4))
  with oy(2) have "startseq y \<le> startseq x" by (rule bspec)
  ultimately have s: "startseq x = startseq y" by simp
  have e: "endseq x = endseq y"
    using ordered_end_le [OF Cons.prems(1) Cons.prems(2) [unfolded ys] c s] ordered_end_le [OF Cons.prems(2) [unfolded ys] Cons.prems(1) c [symmetric] s [symmetric]]
    by (rule order_antisym)
  have "covered xs = covered ys'" unfolding ox(3) oy(3) c s e ..
  with Cons.IH [of ys'] Cons.prems(1,2) s e show ?case by (simp add: ys ordered_Cons bounds_def)
qed

lemma front_unique:
  fixes a b :: int
  assumes "{r..<a} \<subseteq> R" "a \<notin> R" "{r..<b} \<subseteq> R" "b \<notin> R" "r \<le> a" "r \<le> b"
  shows "a = b"
proof (rule ccontr)
  assume "a \<noteq> b"
  then have "a \<in> {r..<b} \<or> b \<in> {r..<a}" using assms(5,6) by auto
  with assms(1-4) show False by blast
qed

lemma ft_inv_next:
  assumes "ft_inv r R F"
  shows "rcv_nxt (ft_rq F) \<notin> R"
proof
  assume "rcv_nxt (ft_rq F) \<in> R"
  with ft_invD(5) [OF assms] have "rcv_nxt (ft_rq F) \<in> covered (fifo (ft_rq F))" by simp
  with ft_invD(4) [OF assms] show False by (force simp: covered_def)
qed

section \<open>The receiver\<close>

text \<open>
  C7: Whatever segments of data an established two-way TCP connection receives, in any order, with
  repetitions and overlaps, nothing fails; \<open>rcv_nxt_\<close> is the first number not received, the application has
  been told of just the bytes before it, and the reassembly queue holds just what lies beyond it, as blocks
  that neither touch nor overlap.
\<close>

theorem full_tcp_reassembles:
  assumes "\<forall>(s, n) \<in> set segs. r \<le> s \<and> 0 < n"
  shows "\<exists>F. ft_run segs (ft_new r) = Inr F \<and> {r..<rcv_nxt (ft_rq F)} \<subseteq> numbers segs \<and> rcv_nxt (ft_rq F) \<notin> numbers segs
    \<and> ft_bytes F = rcv_nxt (ft_rq F) - r \<and> r \<le> rcv_nxt (ft_rq F)
    \<and> covered (fifo (ft_rq F)) = {k \<in> numbers segs. rcv_nxt (ft_rq F) \<le> k} \<and> ordered (fifo (ft_rq F))"
proof -
  from ft_run_ok [OF ft_new_inv assms] obtain F where f: "ft_run segs (ft_new r) = Inr F" "ft_inv r (numbers segs) F" by auto
  with ft_invD [OF f(2)] ft_inv_next [OF f(2)] rq_okD(1) show ?thesis by blast
qed

theorem full_tcp_reassembles_witness:
  "\<exists>F. ft_run [(30, 10), (10, 5), (0, 12), (35, 10), (30, 10)] (ft_new 0) = Inr F \<and> {0..<rcv_nxt (ft_rq F)} \<subseteq> numbers [(30, 10), (10, 5), (0, 12), (35, 10), (30, 10)]
    \<and> rcv_nxt (ft_rq F) \<notin> numbers [(30, 10), (10, 5), (0, 12), (35, 10), (30, 10)]
    \<and> ft_bytes F = rcv_nxt (ft_rq F) - 0 \<and> 0 \<le> rcv_nxt (ft_rq F)
    \<and> covered (fifo (ft_rq F)) = {k \<in> numbers [(30, 10), (10, 5), (0, 12), (35, 10), (30, 10)]. rcv_nxt (ft_rq F) \<le> k} \<and> ordered (fifo (ft_rq F))"
  by (rule full_tcp_reassembles) simp

text \<open>
  C27: What the receiver makes of the segments depends only on the numbers in them: two sequences that carry
  the same numbers leave the same blocks, the same \<open>rcv_nxt_\<close> and the same count of bytes passed on, however
  they are cut, ordered and repeated.
\<close>

theorem full_tcp_order_irrelevant:
  assumes "\<forall>(s, n) \<in> set segs \<union> set segs'. r \<le> s \<and> 0 < n" "numbers segs = numbers segs'"
  shows "\<exists>F F'. ft_run segs (ft_new r) = Inr F \<and> ft_run segs' (ft_new r) = Inr F' \<and> rcv_nxt (ft_rq F) = rcv_nxt (ft_rq F')
    \<and> ft_bytes F = ft_bytes F' \<and> bounds (fifo (ft_rq F)) = bounds (fifo (ft_rq F'))"
proof -
  from ft_run_ok [OF ft_new_inv, of segs r] assms(1) obtain F where f: "ft_run segs (ft_new r) = Inr F" "ft_inv r (numbers segs) F" by auto
  from ft_run_ok [OF ft_new_inv, of segs' r] assms(1) obtain F' where g: "ft_run segs' (ft_new r) = Inr F'" "ft_inv r (numbers segs) F'"
    by (auto simp: assms(2))
  note i = ft_invD [OF f(2)] and j = ft_invD [OF g(2)]
  have n: "rcv_nxt (ft_rq F) = rcv_nxt (ft_rq F')"
    by (rule front_unique [OF i(6) ft_inv_next [OF f(2)] j(6) ft_inv_next [OF g(2)] i(2) j(2)])
  have "bounds (fifo (ft_rq F)) = bounds (fifo (ft_rq F'))"
    by (rule ordered_unique [OF rq_okD(1) [OF i(1)] rq_okD(1) [OF j(1)]]) (use i(5) j(5) n in simp)
  with f(1) g(1) n i(3) j(3) show ?thesis by auto
qed

theorem full_tcp_order_irrelevant_witness:
  "\<exists>F F'. ft_run [(0, 3), (5, 5)] (ft_new 0) = Inr F \<and> ft_run [(7, 3), (5, 3), (1, 2), (0, 2)] (ft_new 0) = Inr F' \<and> rcv_nxt (ft_rq F) = rcv_nxt (ft_rq F')
    \<and> ft_bytes F = ft_bytes F' \<and> bounds (fifo (ft_rq F)) = bounds (fifo (ft_rq F'))"
  by (rule full_tcp_order_irrelevant) (simp, force simp: numbers_def)

section \<open>Selective acknowledgements\<close>

lemma seg_of_key:
  assumes "rq_ok Q" "k \<in> set (lifo Q)"
  obtains b where "seg_of k Q = Some b" "b \<in> set (fifo Q)" "sid b = k"
proof -
  from assms rq_okD(4) obtain d where "d \<in> set (fifo Q)" "sid d = k" by (metis imageE)
  then have "find (\<lambda>b. sid b = k) (fifo Q) \<noteq> None" by (auto simp: find_None_iff)
  then obtain b where "find (\<lambda>b. sid b = k) (fifo Q) = Some b" by blast
  with that show thesis by (auto simp: seg_of_def find_Some_iff)
qed

lemma block_maximal:
  assumes "ordered xs" "b \<in> set xs"
  shows "startseq b < endseq b" "{startseq b..<endseq b} \<subseteq> covered xs" "startseq b - 1 \<notin> covered xs" "endseq b \<notin> covered xs"
proof -
  obtain A C where xs: "xs = A @ b # C" using split_list [OF assms(2)] by blast
  then have o: "\<forall>a \<in> set A. endseq a < startseq b" "\<forall>c \<in> set C. endseq b < startseq c" "startseq b < endseq b" "\<forall>c \<in> set C. startseq c < endseq c"
    using assms(1) ordered_block [OF assms(1)] by (auto simp: ordered_append ordered_Cons)
  show "startseq b < endseq b" by (rule o(3))
  show "{startseq b..<endseq b} \<subseteq> covered xs" using assms(2) by (auto simp: covered_def)
  show "startseq b - 1 \<notin> covered xs" using o by (fastforce simp: xs covered_def)
  show "endseq b \<notin> covered xs" using o by (fastforce simp: xs covered_def)
qed

text \<open>
  Every block of a selective acknowledgement is a maximal run of numbers held in the queue: all of it
  has been received, and neither the number before it nor the one after it is in the queue.
\<close>

theorem gensack_blocks:
  assumes "rq_ok Q" "(s, e) \<in> set (gensack m Q)"
  shows "s < e \<and> {s..<e} \<subseteq> covered (fifo Q) \<and> s - 1 \<notin> covered (fifo Q) \<and> e \<notin> covered (fifo Q)"
proof -
  from assms(2) obtain k where k: "k \<in> set (lifo Q)" "(s, e) = (case seg_of k Q of None \<Rightarrow> (0, 0) | Some b \<Rightarrow> (startseq b, endseq b))"
    by (auto simp: gensack_def dest: in_set_takeD)
  obtain b where "seg_of k Q = Some b" "b \<in> set (fifo Q)" by (rule seg_of_key [OF assms(1) k(1)])
  with k(2) have "b \<in> set (fifo Q)" "s = startseq b" "e = endseq b" by simp_all
  with block_maximal [OF rq_okD(1) [OF assms(1)]] show ?thesis by simp
qed

definition demo_rq :: rq where
  "demo_rq = (case rq_add 20 30 0 0 (rq_new 1) of Inr (_, Q) \<Rightarrow> (case rq_add 3 5 0 0 Q of Inr (_, Q) \<Rightarrow> Q | Inl _ \<Rightarrow> rq_new 1) | Inl _ \<Rightarrow> rq_new 1)"

lemma demo_rq_ok: "rq_ok demo_rq"
  by code_simp

theorem gensack_blocks_witness:
  "(20::int) < 30 \<and> {20..<30} \<subseteq> covered (fifo demo_rq) \<and> 20 - 1 \<notin> covered (fifo demo_rq) \<and> 30 \<notin> covered (fifo demo_rq)"
  by (rule gensack_blocks [OF demo_rq_ok, of 20 30 3]) code_simp

section \<open>Holes\<close>

lemma hole_loop_spec:
  assumes "ordered xs"
  shows "case hole_loop seq xs of (h, cnt, bytes) \<Rightarrow>
    if \<forall>b \<in> set xs. endseq b < seq then h = - 1 \<and> cnt = - 1 \<and> bytes = - 1
    else seq \<le> h \<and> h \<notin> covered xs \<and> {seq..<h} \<subseteq> covered xs \<and>
      (cnt, bytes) = (let above = filter (\<lambda>b. h < startseq b) xs in if above = [] then (- 1, - 1) else rq_cnts above)"
  using assms
proof (induction xs)
  case Nil
  then show ?case by simp
next
  case (Cons p ps)
  have o: "startseq p < endseq p" "\<forall>d \<in> set ps. endseq p < startseq d" "ordered ps" using Cons.prems by (simp_all add: ordered_Cons)
  have all: "filter (\<lambda>b. h < startseq b) ps = ps" if "h \<le> endseq p" for h using o(2) that by (intro filter_True) force
  have out: "h \<notin> covered ps" if "h \<le> endseq p" for h using o(2) that by (fastforce simp: covered_def)
  consider (before) "seq < startseq p" | (inside) "startseq p \<le> seq" "seq \<le> endseq p" | (beyond) "endseq p < seq" by linarith
  then show ?case
  proof cases
    case before
    then have "\<not> (\<forall>b \<in> set (p # ps). endseq b < seq)" using o(1) by auto
    then show ?thesis using before o(1) out [of seq] all [of seq] by (simp add: Let_def)
  next
    case inside
    then have n: "\<not> (\<forall>b \<in> set (p # ps). endseq b < seq)" by auto
    have "{seq..<endseq p} \<subseteq> covered (p # ps)" using inside by auto
    then show ?thesis using n inside o(1) out [of "endseq p"] all [of "endseq p"] by (simp add: Let_def)
  next
    case beyond
    have h: "hole_loop seq (p # ps) = hole_loop seq ps" using beyond o(1) by simp
    show ?thesis
    proof (cases "\<forall>b \<in> set ps. endseq b < seq")
      case True
      then show ?thesis using Cons.IH [OF o(3)] beyond unfolding h by (auto split: prod.splits)
    next
      case False
      then have F: "(\<forall>b \<in> set ps. endseq b < seq) = False" "(\<forall>b \<in> set (p # ps). endseq b < seq) = False" by auto
      obtain hh cnt bytes where r: "hole_loop seq ps = (hh, cnt, bytes)" by (cases "hole_loop seq ps") auto
      have IH: "seq \<le> hh" "hh \<notin> covered ps" "{seq..<hh} \<subseteq> covered ps"
        "(cnt, bytes) = (let above = filter (\<lambda>b. hh < startseq b) ps in if above = [] then (- 1, - 1) else rq_cnts above)"
        using Cons.IH [OF o(3)] unfolding r F by simp_all
      have "\<not> hh < startseq p" "hh \<notin> {startseq p..<endseq p}" using IH(1) beyond o(1) by auto
      then show ?thesis using IH unfolding h r F by auto
    qed
  qed
qed

text \<open>
  \<open>nexthole\<close> returns the first number from \<open>seq\<close> on that is not in the queue, with the number and the
  size of the blocks above it (-1 when there are none), and -1 when every block ends before \<open>seq\<close>.
\<close>

theorem nexthole_first:
  assumes "rq_ok Q"
  shows "case nexthole seq Q of (h, cnt, bytes) \<Rightarrow>
    if \<forall>b \<in> set (fifo Q). endseq b < seq then h = - 1 \<and> cnt = - 1 \<and> bytes = - 1
    else seq \<le> h \<and> h \<notin> covered (fifo Q) \<and> {seq..<h} \<subseteq> covered (fifo Q) \<and>
      (cnt, bytes) = (let above = filter (\<lambda>b. h < startseq b) (fifo Q) in if above = [] then (- 1, - 1) else rq_cnts above)"
  unfolding nexthole_def by (rule hole_loop_spec [OF rq_okD(1) [OF assms]])

theorem nexthole_first_witness:
  "case nexthole 4 demo_rq of (h, cnt, bytes) \<Rightarrow>
    if \<forall>b \<in> set (fifo demo_rq). endseq b < 4 then h = - 1 \<and> cnt = - 1 \<and> bytes = - 1
    else 4 \<le> h \<and> h \<notin> covered (fifo demo_rq) \<and> {4..<h} \<subseteq> covered (fifo demo_rq) \<and>
      (cnt, bytes) = (let above = filter (\<lambda>b. h < startseq b) (fifo demo_rq) in if above = [] then (- 1, - 1) else rq_cnts above)"
  by (rule nexthole_first [OF demo_rq_ok])

section \<open>Where the queue errs\<close>

fun rq_adds :: "(int \<times> int) list \<Rightarrow> rq \<Rightarrow> rq res" where
  "rq_adds [] Q = Inr Q"
| "rq_adds ((s, e) # segs) Q = (case rq_add s e 0 0 Q of Inl x \<Rightarrow> Inl x | Inr (fl, Q1) \<Rightarrow> rq_adds segs Q1)"

text \<open>
  The first block of a selective acknowledgement need not be the one with the segment that triggers it,
  as RFC 2018 asks: a segment that overlaps the end of a block extends it in place, and the block stays
  where it was in the stack.
\<close>

theorem sack_first_block_stale:
  "(case rq_adds [(3, 5), (10, 12), (20, 30), (4, 8)] (rq_new 1) of Inl x \<Rightarrow> [] | Inr Q \<Rightarrow> gensack 3 Q) = [(20, 30), (10, 12), (3, 8)]"
  by code_simp

text \<open>
  Segments without data, which \<open>reass\<close> lets in with a FIN, break the queue: when a later segment covers
  one at its start and all else that is queued, the pointer to the block before it is used after that block has been given back.
\<close>

theorem rq_add_dangling:
  "rq_adds [(10, 10), (12, 13), (10, 15)] (rq_new 1) = Inl UseAfterFree"
  by code_simp

text \<open>A segment of numbers passed on already, added to an empty queue, takes \<open>rcv_nxt_\<close> back.\<close>

theorem rq_add_goes_back:
  "s \<le> e \<Longrightarrow> s \<le> rcv_nxt Q \<Longrightarrow> fifo Q = [] \<Longrightarrow> lifo Q = [] \<Longrightarrow> \<exists>Q'. rq_add s e fl rf Q = Inr (fl, Q') \<and> rcv_nxt Q' = e"
  by (simp add: rq_add_def Let_def)

end
