(* ===== verification/RngArith.thy ===== *)
theory RngArith
  imports NsPrelude
begin

text \<open>
  The arithmetic of the random number generator, \<open>tools/rng.cc\<close>: whole numbers kept in C++ \<open>double\<close>s,
  multiplied modulo \<open>m\<close> without a rounding error, and 3 by 3 matrices of them.
\<close>

section \<open>Whole numbers in doubles\<close>

text \<open>
  Up to \<open>2 ^ 53\<close> in size a \<open>double\<close> holds them exactly. A result beyond that may have been rounded, which is
  None here.
\<close>

definition dbl :: "int \<Rightarrow> int option" where
  "dbl x = (if \<bar>x\<bar> \<le> 2 ^ 53 then Some x else None)"

text \<open>The division of doubles, cast to \<open>long\<close>.\<close>

definition quot :: "int \<Rightarrow> int \<Rightarrow> int" where
  "quot v m = (if v < 0 then - ((- v) div m) else v div m)"

text \<open>
  The comparison of \<open>a * s + c\<close> with \<open>2 ^ 53\<close>. When the product is rounded it is at least that large, and a
  summand of the same sign does not make it smaller.
\<close>

definition beyond53 :: "int \<Rightarrow> int \<Rightarrow> int \<Rightarrow> bool option" where
  "beyond53 a s c = (if \<bar>a * s\<bar> \<le> 2 ^ 53 then Some (\<bar>a * s + c\<bar> \<ge> 2 ^ 53) else if 0 \<le> a * s * c then Some True else None)"

definition last_step :: "(int \<Rightarrow> int \<Rightarrow> int) \<Rightarrow> int \<Rightarrow> int \<Rightarrow> int" where
  "last_step dv v m = (let r = v - dv v m * m in if r < 0 then r + m else r)"

definition MultModM_by :: "(int \<Rightarrow> int \<Rightarrow> int) \<Rightarrow> int \<Rightarrow> int \<Rightarrow> int \<Rightarrow> int \<Rightarrow> int option" where
  "MultModM_by dv a s c m =
     Option.bind (beyond53 a s c) (\<lambda>big.
       if big then
         let a1 = quot a (2 ^ 17); a2 = a - a1 * 2 ^ 17
         in Option.bind (dbl (a1 * s)) (\<lambda>v.
            let k = dv v m; v = v - k * m
            in Option.bind (dbl (v * 2 ^ 17)) (\<lambda>x. Option.bind (dbl (a2 * s)) (\<lambda>y. Option.bind (dbl (x + y)) (\<lambda>z.
               Option.bind (dbl (z + c)) (\<lambda>v. Some (last_step dv v m))))))
       else Option.bind (dbl (a * s)) (\<lambda>x. Option.bind (dbl (x + c)) (\<lambda>v. Some (last_step dv v m))))"

definition MultModM :: "int \<Rightarrow> int \<Rightarrow> int \<Rightarrow> int \<Rightarrow> int option" where
  "MultModM = MultModM_by quot"

text \<open>A quotient that may have been rounded up to the next whole number.\<close>

definition near_quot :: "(int \<Rightarrow> int \<Rightarrow> int) \<Rightarrow> bool" where
  "near_quot dv \<longleftrightarrow> (\<forall>v m. 0 < m \<longrightarrow> dv v m = quot v m \<or> v mod m \<noteq> 0 \<and> dv v m = quot v m + sgn v)"

lemma near_quot_quot: "near_quot quot"
  by (simp add: near_quot_def)

lemma quot_rem:
  assumes "0 < m"
  shows "0 \<le> v \<Longrightarrow> v - quot v m * m = v mod m" "v < 0 \<Longrightarrow> v - quot v m * m = - ((- v) mod m)"
  using minus_div_mult_eq_mod [of v m] minus_div_mult_eq_mod [of "- v" m] by (auto simp: quot_def)

lemma near_rem:
  assumes "near_quot dv" "0 < m"
  shows "- m < v - dv v m * m" "v - dv v m * m < m" "(v - dv v m * m) mod m = v mod m"
proof -
  have p: "0 \<le> v mod m" "v mod m < m" "0 \<le> (- v) mod m" "(- v) mod m < m" using assms(2) by simp_all
  have q: "dv v m = quot v m \<or> v mod m \<noteq> 0 \<and> dv v m = quot v m + sgn v"
    by (rule assms(1) [unfolded near_quot_def, rule_format, OF assms(2)])
  have *: "- m < v - dv v m * m \<and> v - dv v m * m < m"
  proof (cases "v < 0")
    case True
    have z: "((- v) mod m = 0) = (v mod m = 0)" by (simp add: mod_eq_0_iff_dvd)
    from True have "sgn v = - 1" by simp
    with q have "dv v m = quot v m \<or> v mod m \<noteq> 0 \<and> dv v m = quot v m - 1" by (metis add_uminus_conv_diff)
    then have "dv v m * m = quot v m * m \<or> v mod m \<noteq> 0 \<and> dv v m * m = quot v m * m - m"
      by (auto simp: left_diff_distrib)
    then show ?thesis
    proof
      assume "dv v m * m = quot v m * m"
      with quot_rem(2) [OF assms(2) True] p(3,4) assms(2) True show ?thesis by linarith
    next
      assume d: "v mod m \<noteq> 0 \<and> dv v m * m = quot v m * m - m"
      with z p(3) have "0 < (- v) mod m" by linarith
      with d quot_rem(2) [OF assms(2) True] p(4) True show ?thesis by linarith
    qed
  next
    case False
    from q False have "dv v m * m = quot v m * m \<or> v mod m \<noteq> 0 \<and> dv v m * m = quot v m * m + m" by (auto simp: algebra_simps sgn_if)
    then show ?thesis
    proof
      assume d: "v mod m \<noteq> 0 \<and> dv v m * m = quot v m * m + m"
      with p(1) have "0 < v mod m" by linarith
      with d quot_rem(1) [OF assms(2), of v] p(2) False show ?thesis by linarith
    qed (use quot_rem(1) [OF assms(2), of v] False p(1,2) assms(2) in linarith)
  qed
  show "(v - dv v m * m) mod m = v mod m" by (simp add: mod_diff_eq [symmetric])
  from * show "- m < v - dv v m * m" "v - dv v m * m < m" by auto
qed

lemma last_step_mod:
  assumes "near_quot dv" "0 < m"
  shows "last_step dv v m = v mod m"
proof -
  let ?r = "v - dv v m * m"
  note n = near_rem [OF assms(1,2), of v]
  show ?thesis
  proof (cases "?r < 0")
    case True
    have "v mod m = (?r + m) mod m" using n(3) by simp
    also have "(?r + m) mod m = ?r + m" by (rule mod_pos_pos_trivial) (use True n(1) in simp_all)
    finally show ?thesis using True by (simp add: last_step_def Let_def)
  next
    case False
    then have "?r mod m = ?r" using n(2) by simp
    then show ?thesis using False n(3) by (simp add: last_step_def Let_def)
  qed
qed

text \<open>
  Within the bounds in the comment of the code nothing is rounded, and the result is the residue.
\<close>

lemma MultModM_small:
  assumes "near_quot dv" "0 < m" "0 \<le> c" "- (2 ^ 53) < a * s" "a * s + c < 2 ^ 53"
  shows "MultModM_by dv a s c m = Some ((a * s + c) mod m)"
proof -
  have "\<bar>a * s\<bar> \<le> 2 ^ 53" "\<not> \<bar>a * s + c\<bar> \<ge> 2 ^ 53" "\<bar>a * s + c\<bar> \<le> 2 ^ 53" using assms by auto
  then have "beyond53 a s c = Some False" "dbl (a * s) = Some (a * s)" "dbl (a * s + c) = Some (a * s + c)"
    unfolding beyond53_def dbl_def by auto
  then show ?thesis using last_step_mod [OF assms(1,2)] by (simp add: MultModM_by_def)
qed

lemma MultModM_big:
  assumes "near_quot dv" "0 < m" "m < 2 ^ 35" "0 \<le> s" "s < 2 ^ 35" "0 \<le> c" "c < 2 ^ 35" "0 \<le> a" "a < 2 ^ 35" "2 ^ 53 \<le> a * s + c"
  shows "MultModM_by dv a s c m = Some ((a * s + c) mod m)"
proof -
  define a1 where "a1 = a div 2 ^ 17"
  define a2 where "a2 = a mod 2 ^ 17"
  have a: "a = a1 * 2 ^ 17 + a2" by (simp add: a1_def a2_def)
  have a1: "0 \<le> a1" "a1 \<le> 2 ^ 18 - 1" using assms(8,9) by (auto simp: a1_def)
  have a2: "0 \<le> a2" "a2 \<le> 2 ^ 17 - 1" by (simp_all add: a2_def)
  have "a1 * s \<le> (2 ^ 18 - 1) * (2 ^ 35 - 1)" by (rule mult_mono) (use a1 assms(4,5) in auto)
  then have v: "0 \<le> a1 * s" "a1 * s \<le> 2 ^ 53" using a1 assms(4) by simp_all
  let ?r = "a1 * s - dv (a1 * s) m * m"
  note r = near_rem [OF assms(1,2), of "a1 * s"]
  have "a2 * s \<le> (2 ^ 17 - 1) * (2 ^ 35 - 1)" by (rule mult_mono) (use a2 assms(4,5) in auto)
  then have y: "0 \<le> a2 * s" "a2 * s \<le> (2 ^ 17 - 1) * (2 ^ 35 - 1)" using a2 assms(4) by simp_all
  have exact: "\<bar>a1 * s\<bar> \<le> 2 ^ 53" "\<bar>?r * 2 ^ 17\<bar> \<le> 2 ^ 53" "\<bar>a2 * s\<bar> \<le> 2 ^ 53" "\<bar>?r * 2 ^ 17 + a2 * s\<bar> \<le> 2 ^ 53" "\<bar>?r * 2 ^ 17 + a2 * s + c\<bar> \<le> 2 ^ 53"
  proof -
    define R where "R = ?r"
    define Y where "Y = a2 * s"
    have R: "- 34359738368 < R" "R < 34359738368" using r(1,2) assms(3) unfolding R_def by auto
    have Y: "0 \<le> Y" "Y \<le> 4503565267501057" using y unfolding Y_def by simp_all
    have c: "0 \<le> c" "c < 34359738368" using assms(6,7) by simp_all
    show "\<bar>a1 * s\<bar> \<le> 2 ^ 53" using v by simp
    show "\<bar>?r * 2 ^ 17\<bar> \<le> 2 ^ 53" "\<bar>a2 * s\<bar> \<le> 2 ^ 53" "\<bar>?r * 2 ^ 17 + a2 * s\<bar> \<le> 2 ^ 53" "\<bar>?r * 2 ^ 17 + a2 * s + c\<bar> \<le> 2 ^ 53"
      unfolding R_def [symmetric] Y_def [symmetric] abs_le_iff using R Y c by simp_all
  qed
  have as: "0 \<le> a * s" using assms(4,8) by simp
  then have "beyond53 a s c = Some True" using assms(6,10) by (auto simp: beyond53_def)
  moreover have "quot a (2 ^ 17) = a1" "a - a1 * 2 ^ 17 = a2" using assms(8) by (simp_all add: quot_def a1_def a2_def minus_div_mult_eq_mod)
  ultimately have "MultModM_by dv a s c m = Some (last_step dv (?r * 2 ^ 17 + a2 * s + c) m)"
    using exact by (simp add: MultModM_by_def dbl_def Let_def)
  moreover have "(?r * 2 ^ 17 + a2 * s + c) mod m = (a * s + c) mod m"
  proof -
    have "(?r * 2 ^ 17 + a2 * s + c) mod m = ((?r mod m) * 2 ^ 17 + a2 * s + c) mod m"
      by (intro mod_add_cong mod_mult_cong) simp_all
    also have "\<dots> = (a1 * s * 2 ^ 17 + a2 * s + c) mod m" unfolding r(3) by (intro mod_add_cong mod_mult_cong) simp_all
    also have "a1 * s * 2 ^ 17 + a2 * s + c = a * s + c" using arg_cong [OF a, of "\<lambda>x. x * s"] by (simp add: algebra_simps)
    finally show ?thesis .
  qed
  ultimately show ?thesis by (simp add: last_step_mod [OF assms(1,2)])
qed

lemma nonneg_factor: "0 < a * s \<Longrightarrow> 0 \<le> s \<Longrightarrow> 0 \<le> (a :: int)"
  by (auto simp: zero_less_mult_iff)

text \<open>
  C33: Within the bounds that the comment of MultModM asks for, no intermediate result is rounded and the value
  is the residue of \<open>a * s + c\<close>, also when the quotients come out of the division rounded up.
\<close>

theorem MultModM_exact:
  assumes "near_quot dv" "0 < m" "m < 2 ^ 35" "0 \<le> s" "s < 2 ^ 35" "0 \<le> c" "c < 2 ^ 35" "a < 2 ^ 35" "- (2 ^ 53) < a * s"
  shows "MultModM_by dv a s c m = Some ((a * s + c) mod m)"
proof (cases "2 ^ 53 \<le> a * s + c")
  case True
  have "0 \<le> a" by (rule nonneg_factor [OF _ assms(4)]) (use True assms(7) in simp)
  with True show ?thesis using MultModM_big [OF assms(1-7)] assms(8) by simp
next
  case False
  then show ?thesis using MultModM_small [OF assms(1,2,6,9)] by simp
qed

theorem MultModM_exact_witness:
  "MultModM_by quot 4292754251 4294944442 1610795712 4294944443 = Some ((4292754251 * 4294944442 + 1610795712) mod 4294944443)"
  by (rule MultModM_exact [OF near_quot_quot]) simp_all

lemma MultModM_by_mod:
  assumes "near_quot dv" "0 < m" "m < 2 ^ 35" "0 \<le> s" "s < 2 ^ 35" "0 \<le> c" "c < 2 ^ 35" "a < 2 ^ 35" "- (2 ^ 53) < a * s"
  shows "MultModM_by dv a s c m = Some ((a * s + c) mod m)"
proof (cases "2 ^ 53 \<le> a * s + c")
  case True
  have "0 \<le> a" by (rule nonneg_factor [OF _ assms(4)]) (use True assms(7) in simp)
  with True show ?thesis using MultModM_big [OF assms(1-7)] assms(8) by simp
next
  case False
  then show ?thesis using MultModM_small [OF assms(1,2,6,9)] by simp
qed

lemma MultModM_mod:
  assumes "0 < m" "m < 2 ^ 35" "0 \<le> s" "s < 2 ^ 35" "0 \<le> c" "c < 2 ^ 35" "a < 2 ^ 35" "- (2 ^ 53) < a * s"
  shows "MultModM a s c m = Some ((a * s + c) mod m)"
  unfolding MultModM_def by (rule MultModM_by_mod [OF near_quot_quot assms])

section \<open>Vectors and matrices\<close>

type_synonym vec3 = "int \<times> int \<times> int"
type_synonym mat3 = "vec3 \<times> vec3 \<times> vec3"

fun row_times :: "vec3 \<Rightarrow> vec3 \<Rightarrow> int \<Rightarrow> int option" where
  "row_times (a, b, c) (x, y, z) m =
     Option.bind (MultModM a x 0 m) (\<lambda>t. Option.bind (MultModM b y t m) (\<lambda>t. MultModM c z t m))"

fun MatVecModM :: "mat3 \<Rightarrow> vec3 \<Rightarrow> int \<Rightarrow> vec3 option" where
  "MatVecModM (r1, r2, r3) s m =
     Option.bind (row_times r1 s m) (\<lambda>x. Option.bind (row_times r2 s m) (\<lambda>y. Option.bind (row_times r3 s m) (\<lambda>z. Some (x, y, z))))"

fun transpose3 :: "mat3 \<Rightarrow> mat3" where
  "transpose3 ((a, b, c), (d, e, f), (g, h, i)) = ((a, d, g), (b, e, h), (c, f, i))"

fun columns_times :: "mat3 \<Rightarrow> mat3 \<Rightarrow> int \<Rightarrow> mat3 option" where
  "columns_times A (c1, c2, c3) m =
     Option.bind (MatVecModM A c1 m) (\<lambda>x. Option.bind (MatVecModM A c2 m) (\<lambda>y. Option.bind (MatVecModM A c3 m) (\<lambda>z. Some (x, y, z))))"

definition MatMatModM :: "mat3 \<Rightarrow> mat3 \<Rightarrow> int \<Rightarrow> mat3 option" where
  "MatMatModM A B m = map_option transpose3 (columns_times A (transpose3 B) m)"

fun MatTwoPowModM :: "mat3 \<Rightarrow> int \<Rightarrow> nat \<Rightarrow> mat3 option" where
  "MatTwoPowModM A m 0 = Some A"
| "MatTwoPowModM A m (Suc e) = Option.bind (MatTwoPowModM A m e) (\<lambda>B. MatMatModM B B m)"

definition mat_one :: mat3 where
  "mat_one = ((1, 0, 0), (0, 1, 0), (0, 0, 1))"

function pow_loop :: "mat3 \<Rightarrow> mat3 \<Rightarrow> int \<Rightarrow> nat \<Rightarrow> mat3 option" where
  "pow_loop W B m n =
     (if n = 0 then Some B
      else Option.bind (if n mod 2 = 1 then MatMatModM W B m else Some B) (\<lambda>B1.
           Option.bind (MatMatModM W W m) (\<lambda>W1. pow_loop W1 B1 m (n div 2))))"
  by pat_completeness auto
termination by (relation "measure (\<lambda>(W, B, m, n). n)") auto

declare pow_loop.simps [simp del]

definition MatPowModM :: "mat3 \<Rightarrow> int \<Rightarrow> nat \<Rightarrow> mat3 option" where
  "MatPowModM A m n = pow_loop A mat_one m n"

section \<open>What they compute\<close>

fun dot :: "vec3 \<Rightarrow> vec3 \<Rightarrow> int" where
  "dot (a, b, c) (x, y, z) = a * x + b * y + c * z"

fun act :: "int \<Rightarrow> mat3 \<Rightarrow> vec3 \<Rightarrow> vec3" where
  "act m (r1, r2, r3) v = (dot r1 v mod m, dot r2 v mod m, dot r3 v mod m)"

fun mat_mul :: "int \<Rightarrow> mat3 \<Rightarrow> mat3 \<Rightarrow> mat3" where
  "mat_mul m A B = (case transpose3 B of (c1, c2, c3) \<Rightarrow> transpose3 (act m A c1, act m A c2, act m A c3))"

text \<open>Residues, and entries whose products with residues a double holds.\<close>

fun vec_in :: "int \<Rightarrow> vec3 \<Rightarrow> bool" where
  "vec_in m (x, y, z) \<longleftrightarrow> 0 \<le> x \<and> x < m \<and> 0 \<le> y \<and> y < m \<and> 0 \<le> z \<and> z < m"

definition entry_ok :: "int \<Rightarrow> int \<Rightarrow> bool" where
  "entry_ok m a \<longleftrightarrow> a < 2 ^ 35 \<and> - (2 ^ 53) < a * m \<and> (- (2 ^ 53) < a)"

fun row_ok :: "int \<Rightarrow> vec3 \<Rightarrow> bool" where
  "row_ok m (a, b, c) \<longleftrightarrow> entry_ok m a \<and> entry_ok m b \<and> entry_ok m c"

fun mat_ok :: "int \<Rightarrow> mat3 \<Rightarrow> bool" where
  "mat_ok m (r1, r2, r3) \<longleftrightarrow> row_ok m r1 \<and> row_ok m r2 \<and> row_ok m r3"

fun mat_in :: "int \<Rightarrow> mat3 \<Rightarrow> bool" where
  "mat_in m (r1, r2, r3) \<longleftrightarrow> vec_in m r1 \<and> vec_in m r2 \<and> vec_in m r3"

lemma entry_product:
  assumes "entry_ok m a" "0 \<le> x" "x < m"
  shows "a < 2 ^ 35" "- (2 ^ 53) < a * x"
proof -
  show "a < 2 ^ 35" using assms by (simp add: entry_ok_def)
  show "- (2 ^ 53) < a * x"
  proof (cases "0 \<le> a")
    case True
    then have "0 \<le> a * x" using assms by simp
    then show ?thesis by simp
  next
    case False
    then have "a * m \<le> a * x" using assms by (simp add: mult_left_mono_neg)
    then show ?thesis using assms by (simp add: entry_ok_def)
  qed
qed

text \<open>Entries so small that nothing in a product comes near \<open>2 ^ 53\<close>; they may be negative.\<close>

fun vec_small :: "vec3 \<Rightarrow> bool" where
  "vec_small (x, y, z) \<longleftrightarrow> \<bar>x\<bar> < 2 ^ 22 \<and> \<bar>y\<bar> < 2 ^ 22 \<and> \<bar>z\<bar> < 2 ^ 22"

fun mat_small :: "mat3 \<Rightarrow> bool" where
  "mat_small (r1, r2, r3) \<longleftrightarrow> vec_small r1 \<and> vec_small r2 \<and> vec_small r3"

lemma small_product: "\<bar>a\<bar> < 2 ^ 22 \<Longrightarrow> \<bar>x\<bar> < 2 ^ 22 \<Longrightarrow> \<bar>a * x\<bar> < (2 :: int) ^ 44"
  unfolding abs_mult using mult_strict_mono [of "\<bar>a\<bar>" "2 ^ 22" "\<bar>x\<bar>" "2 ^ 22"] by simp

lemma MultModM_tiny:
  assumes "0 < m" "0 \<le> c" "c < 2 ^ 35" "\<bar>a * s\<bar> < 2 ^ 44"
  shows "MultModM a s c m = Some ((a * s + c) mod m)"
  unfolding MultModM_def by (rule MultModM_small [OF near_quot_quot]) (use assms in \<open>auto simp: abs_less_iff\<close>)

lemma mod_acc: "(c + (b + a mod m) mod m) mod m = (a + b + c) mod (m :: int)"
  by (simp add: mod_simps ac_simps)

lemma residue_bound:
  assumes "0 < m" "m < 2 ^ 35"
  shows "0 \<le> k mod m" "k mod m < (2 :: int) ^ 35"
proof -
  show "0 \<le> k mod m" using assms(1) by simp
  have "k mod m < m" using assms(1) by simp
  then show "k mod m < 2 ^ 35" using assms(2) by simp
qed

lemma row_times_small:
  assumes "0 < m" "m < 2 ^ 35" "vec_small r" "vec_small v"
  shows "row_times r v m = Some (dot r v mod m)"
proof -
  obtain a b c x y z where rv: "r = (a, b, c)" "v = (x, y, z)" by (cases r; cases v)
  have s: "\<bar>a\<bar> < 2 ^ 22" "\<bar>b\<bar> < 2 ^ 22" "\<bar>c\<bar> < 2 ^ 22" "\<bar>x\<bar> < 2 ^ 22" "\<bar>y\<bar> < 2 ^ 22" "\<bar>z\<bar> < 2 ^ 22"
    using assms(3,4) by (simp_all only: rv vec_small.simps)
  note p = small_product [OF s(1,4)] small_product [OF s(2,5)] small_product [OF s(3,6)]
  have "MultModM a x 0 m = Some (a * x mod m)" using MultModM_tiny [OF assms(1) order_refl _ p(1)] by simp
  moreover have "MultModM b y (a * x mod m) m = Some ((b * y + a * x mod m) mod m)"
    by (rule MultModM_tiny [OF assms(1) residue_bound [OF assms(1,2)] p(2)])
  moreover have "MultModM c z ((b * y + a * x mod m) mod m) m = Some ((c * z + (b * y + a * x mod m) mod m) mod m)"
    by (rule MultModM_tiny [OF assms(1) residue_bound [OF assms(1,2)] p(3)])
  ultimately show ?thesis unfolding rv by (simp add: mod_acc)
qed

lemma row_times_dot:
  assumes "0 < m" "m < 2 ^ 35" "row_ok m r" "vec_in m v"
  shows "row_times r v m = Some (dot r v mod m)"
proof -
  obtain a b c x y z where rv: "r = (a, b, c)" "v = (x, y, z)" by (cases r; cases v)
  have e: "entry_ok m a" "entry_ok m b" "entry_ok m c" "0 \<le> x" "x < m" "0 \<le> y" "y < m" "0 \<le> z" "z < m" using assms rv by simp_all
  have s: "x < 2 ^ 35" "y < 2 ^ 35" "z < 2 ^ 35" using e assms by simp_all
  note t = residue_bound [OF assms(1,2)]
  have "MultModM a x 0 m = Some (a * x mod m)"
    using MultModM_mod [OF assms(1,2) e(4) s(1) order_refl _ entry_product [OF e(1,4,5)]] by simp
  moreover have "MultModM b y (a * x mod m) m = Some ((b * y + a * x mod m) mod m)"
    by (rule MultModM_mod [OF assms(1,2) e(6) s(2) t entry_product [OF e(2,6,7)]])
  moreover have "MultModM c z ((b * y + a * x mod m) mod m) m = Some ((c * z + (b * y + a * x mod m) mod m) mod m)"
    by (rule MultModM_mod [OF assms(1,2) e(8) s(3) t entry_product [OF e(3,8,9)]])
  ultimately show ?thesis unfolding rv by (simp add: mod_acc)
qed

lemma MatVecModM_act:
  assumes "0 < m" "m < 2 ^ 35" "mat_ok m A \<and> vec_in m v \<or> mat_small A \<and> vec_small v"
  shows "MatVecModM A v m = Some (act m A v)"
proof -
  obtain r1 r2 r3 where A: "A = (r1, r2, r3)" by (cases A)
  have "row_times r v m = Some (dot r v mod m)" if "r \<in> {r1, r2, r3}" for r
  proof -
    have "row_ok m r \<and> vec_in m v \<or> vec_small r \<and> vec_small v" using assms(3) that unfolding A by auto
    then show ?thesis using row_times_dot [OF assms(1,2)] row_times_small [OF assms(1,2)] by blast
  qed
  then show ?thesis by (simp add: A)
qed

lemma act_in:
  assumes "0 < m"
  shows "vec_in m (act m A v)"
  using assms by (cases A) auto

lemma MatMatModM_mul:
  assumes "0 < m" "m < 2 ^ 35" "mat_ok m A \<and> mat_in m B \<or> mat_small A \<and> mat_small B"
  shows "MatMatModM A B m = Some (mat_mul m A B)"
proof -
  obtain a b c d e f g h i where B: "B = ((a, b, c), (d, e, f), (g, h, i))" by (cases B) auto
  have "mat_in m B \<Longrightarrow> vec_in m (a, d, g) \<and> vec_in m (b, e, h) \<and> vec_in m (c, f, i)"
    "mat_small B \<Longrightarrow> vec_small (a, d, g) \<and> vec_small (b, e, h) \<and> vec_small (c, f, i)" by (simp_all add: B)
  then have "MatVecModM A (a, d, g) m = Some (act m A (a, d, g))" "MatVecModM A (b, e, h) m = Some (act m A (b, e, h))"
    "MatVecModM A (c, f, i) m = Some (act m A (c, f, i))"
    using MatVecModM_act [OF assms(1,2)] assms(3) by blast+
  then show ?thesis unfolding MatMatModM_def B transpose3.simps columns_times.simps mat_mul.simps by simp
qed

lemma mat_in_ok:
  assumes "mat_in m A" "m < 2 ^ 35"
  shows "mat_ok m A"
proof -
  have "entry_ok m a" if "0 \<le> a" "a < m" for a
  proof -
    have "0 \<le> a * m" using that by simp
    then have "- (2 ^ 53) < a * m" by (rule less_le_trans [rotated]) simp
    then show ?thesis using that assms(2) by (simp add: entry_ok_def)
  qed
  then show ?thesis using assms(1) by (cases A) auto
qed

lemma mat_mul_in:
  assumes "0 < m"
  shows "mat_in m (mat_mul m A B)"
proof -
  obtain a b c d e f g h i where B: "B = ((a, b, c), (d, e, f), (g, h, i))" by (cases B) auto
  obtain a' b' c' d' e' f' g' h' i' where A: "A = ((a', b', c'), (d', e', f'), (g', h', i'))" by (cases A) auto
  show ?thesis using assms by (simp add: A B)
qed

lemma mod_sum3:
  "(a * (p mod m) + b * (q mod m) + c * (r mod m)) mod m = (a * p + b * q + c * r) mod (m :: int)"
  "((p mod m) * a + (q mod m) * b + (r mod m) * c) mod m = (p * a + q * b + r * c) mod (m :: int)"
  by (intro mod_add_cong mod_mult_cong; simp)+

lemma act_mat_mul: "act m (mat_mul m A B) v = act m A (act m B v)"
proof -
  obtain a b c d e f g h i where B: "B = ((a, b, c), (d, e, f), (g, h, i))" by (cases B) auto
  obtain a' b' c' d' e' f' g' h' i' where A: "A = ((a', b', c'), (d', e', f'), (g', h', i'))" by (cases A) auto
  obtain x y z where v: "v = (x, y, z)" by (cases v)
  show ?thesis by (simp add: A B v mod_sum3) (simp add: algebra_simps)
qed

declare mat_mul.simps [simp del]

section \<open>Powers\<close>

lemma MatTwoPowModM_pow:
  assumes "0 < m" "m < 2 ^ 35" "mat_in m A \<or> mat_small A"
  shows "\<exists>B. MatTwoPowModM A m e = Some B \<and> act m B = act m A ^^ (2 ^ e) \<and> (mat_in m B \<or> e = 0 \<and> B = A)"
proof (induction e)
  case 0
  then show ?case by simp
next
  case (Suc e)
  then obtain B where B: "MatTwoPowModM A m e = Some B" "act m B = act m A ^^ (2 ^ e)" "mat_in m B \<or> e = 0 \<and> B = A" by blast
  then have "mat_ok m B \<and> mat_in m B \<or> mat_small B \<and> mat_small B" using assms(3) mat_in_ok [OF _ assms(2)] by blast
  then have "MatTwoPowModM A m (Suc e) = Some (mat_mul m B B)" using MatMatModM_mul [OF assms(1,2)] B(1) by simp
  moreover have "act m (mat_mul m B B) = act m A ^^ (2 ^ Suc e)"
  proof -
    have "act m (mat_mul m B B) = act m B \<circ> act m B" by (rule ext) (simp add: act_mat_mul)
    then show ?thesis using B(2) by (simp add: funpow_add [symmetric] mult_2)
  qed
  ultimately show ?case using mat_mul_in [OF assms(1)] by blast
qed

lemma act_one: "vec_in m v \<Longrightarrow> act m mat_one v = v"
  by (cases v) (simp add: mat_one_def)

lemma act_mul_comp: "act m (mat_mul m A B) = act m A \<circ> act m B"
  by (rule ext) (simp add: act_mat_mul)

lemma funpow_twice: "(f \<circ> f) ^^ k = f ^^ (2 * k)"
proof -
  have "(f \<circ> f) ^^ k = (f ^^ 2) ^^ k" by (simp add: numeral_2_eq_2)
  then show ?thesis by (simp add: funpow_mult)
qed

lemma funpow_half: "((f \<circ> f) ^^ (n div 2)) \<circ> (f ^^ (n mod 2)) = f ^^ n"
  unfolding funpow_twice by (simp add: funpow_add [symmetric])

lemma pow_loop_pow:
  assumes "1 < m" "m < 2 ^ 35" "mat_in m W \<or> mat_small W \<and> B = mat_one" "mat_in m B"
  shows "\<exists>C. pow_loop W B m n = Some C \<and> mat_in m C \<and> act m C = (act m W ^^ n) \<circ> act m B"
  using assms(3,4)
proof (induction n arbitrary: W B rule: less_induct)
  case (less n)
  have m0: "0 < m" using assms(1) by simp
  show ?case
  proof (cases "n = 0")
    case True
    then show ?thesis using less.prems by (simp add: pow_loop.simps)
  next
    case False
    have one: "mat_small mat_one" by (simp add: mat_one_def)
    define B1 where "B1 = (if n mod 2 = 1 then mat_mul m W B else B)"
    have "mat_ok m W \<and> mat_in m B \<or> mat_small W \<and> mat_small B" using less.prems mat_in_ok [OF _ assms(2), of W] one by blast
    then have b: "(if n mod 2 = 1 then MatMatModM W B m else Some B) = Some B1"
      unfolding B1_def using MatMatModM_mul [OF m0 assms(2), of W B] by (cases "n mod 2 = 1") simp_all
    have B1: "mat_in m B1" "act m B1 = (act m W ^^ (n mod 2)) \<circ> act m B"
      unfolding B1_def using less.prems(2) mat_mul_in [OF m0] by (cases "n mod 2 = 1"; simp add: act_mul_comp)+
    have "mat_ok m W \<and> mat_in m W \<or> mat_small W \<and> mat_small W" using less.prems(1) mat_in_ok [OF _ assms(2), of W] by blast
    then have w: "MatMatModM W W m = Some (mat_mul m W W)" by (rule MatMatModM_mul [OF m0 assms(2)])
    have "n div 2 < n" using False by simp
    from less.IH [OF this, of "mat_mul m W W" B1] mat_mul_in [OF m0] B1(1) obtain C where
      C: "pow_loop (mat_mul m W W) B1 m (n div 2) = Some C" "mat_in m C" "act m C = (act m (mat_mul m W W) ^^ (n div 2)) \<circ> act m B1" by blast
    have "pow_loop W B m n = Some C" unfolding pow_loop.simps [of W B m n] using False b w C(1) by simp
    moreover have "act m C = (act m W ^^ n) \<circ> act m B"
      unfolding C(3) B1(2) act_mul_comp using funpow_half [where f = "act m W" and n = n] by (simp add: o_assoc)
    ultimately show ?thesis using C(2) by blast
  qed
qed

lemma MatPowModM_pow:
  assumes "1 < m" "m < 2 ^ 35" "mat_in m A \<or> mat_small A"
  shows "\<exists>C. MatPowModM A m n = Some C \<and> mat_in m C \<and> (\<forall>v. vec_in m v \<longrightarrow> act m C v = (act m A ^^ n) v)"
proof -
  have "mat_in m mat_one" using assms(1) by (simp add: mat_one_def)
  with pow_loop_pow [OF assms(1,2), of A mat_one n] assms(3) obtain C where
    "MatPowModM A m n = Some C" "mat_in m C" "act m C = (act m A ^^ n) \<circ> act m mat_one" by (auto simp: MatPowModM_def)
  then show ?thesis by (auto simp: act_one)
qed

end
