(* ===== verification/RngStream.thy ===== *)
theory RngStream
  imports RngArith
begin

text \<open>
  The random number generator, \<open>tools/rng.cc\<close>: two recurrences of order three, whose states are combined,
  and the streams and substreams cut out of their cycle. The generator used before it is at the end.
\<close>

unbundle bit_operations_syntax

section \<open>Constants\<close>

definition rng_m1 :: int where "rng_m1 = 4294967087"
definition rng_m2 :: int where "rng_m2 = 4294944443"
definition a12 :: int where "a12 = 1403580"
definition a13n :: int where "a13n = 810728"
definition a21 :: int where "a21 = 527612"
definition a23n :: int where "a23n = 1370589"

definition rng_norm :: real where
  "rng_norm = 1 / (of_int rng_m1 + 1)"

definition InvA1 :: mat3 where
  "InvA1 = ((184888585, 0, 1945170933), (1, 0, 0), (0, 1, 0))"

definition InvA2 :: mat3 where
  "InvA2 = ((0, 360363334, 4225571728), (1, 0, 0), (0, 1, 0))"

definition A1p0 :: mat3 where
  "A1p0 = ((0, 1, 0), (0, 0, 1), (- 810728, 1403580, 0))"

definition A2p0 :: mat3 where
  "A2p0 = ((0, 1, 0), (0, 0, 1), (- 1370589, 0, 527612))"

definition A1p76 :: mat3 where
  "A1p76 = ((82758667, 1871391091, 4127413238), (3672831523, 69195019, 1871391091), (3672091415, 3528743235, 69195019))"

definition A2p76 :: mat3 where
  "A2p76 = ((1511326704, 3759209742, 1610795712), (4292754251, 1511326704, 3889917532), (3859662829, 4292754251, 3708466080))"

definition A1p127 :: mat3 where
  "A1p127 = ((2427906178, 3580155704, 949770784), (226153695, 1230515664, 3580155704), (1988835001, 986791581, 1230515664))"

definition A2p127 :: mat3 where
  "A2p127 = ((1464411153, 277697599, 1610723613), (32183930, 1464411153, 1022607788), (2824425944, 32183930, 2093834863))"

section \<open>Streams\<close>

text \<open>
  \<open>Cg_\<close>, \<open>Bg_\<close> and \<open>Ig_\<close> have the state of the first recurrence in the first three cells, that of the second
  in the others. \<open>next_seed_\<close> is static: it is passed around.
\<close>

record rng =
  Cg1 :: vec3
  Cg2 :: vec3
  Bg1 :: vec3
  Bg2 :: vec3
  Ig1 :: vec3
  Ig2 :: vec3
  anti :: bool
  inc_prec :: bool

type_synonym seeds = "vec3 \<times> vec3"

text \<open>Every operation below is None if a \<open>double\<close> would be rounded that stands for a whole number.\<close>

definition recur1 :: "vec3 \<Rightarrow> vec3 option" where
  "recur1 v = (case v of (x, y, z) \<Rightarrow>
     Option.bind (dbl (a12 * y)) (\<lambda>s. Option.bind (dbl (a13n * x)) (\<lambda>t. Option.bind (dbl (s - t)) (\<lambda>p.
       Some (y, z, last_step quot p rng_m1)))))"

definition recur2 :: "vec3 \<Rightarrow> vec3 option" where
  "recur2 v = (case v of (x, y, z) \<Rightarrow>
     Option.bind (dbl (a21 * z)) (\<lambda>s. Option.bind (dbl (a23n * x)) (\<lambda>t. Option.bind (dbl (s - t)) (\<lambda>p.
       Some (y, z, last_step quot p rng_m2)))))"

definition combine :: "vec3 \<Rightarrow> vec3 \<Rightarrow> real" where
  "combine v w = (case v of (_, _, p1) \<Rightarrow> case w of (_, _, p2) \<Rightarrow>
     if p1 > p2 then of_int (p1 - p2) * rng_norm else of_int (p1 - p2 + rng_m1) * rng_norm)"

definition U01 :: "rng \<Rightarrow> (real \<times> rng) option" where
  "U01 r = Option.bind (recur1 (Cg1 r)) (\<lambda>v. Option.bind (recur2 (Cg2 r)) (\<lambda>w.
     let u = combine v w in Some (if \<not> anti r then u else 1 - u, r\<lparr>Cg1 := v, Cg2 := w\<rparr>)))"

definition rng_fact :: real where
  "rng_fact = 1 / 2 ^ 24"

definition U01d :: "rng \<Rightarrow> (real \<times> rng) option" where
  "U01d r = Option.bind (U01 r) (\<lambda>(u, r1). Option.bind (U01 r1) (\<lambda>(u2, r2).
     if anti r2 then let v = u + (u2 - 1) * rng_fact in Some (if v < 0 then v + 1 else v, r2)
     else let v = u + u2 * rng_fact in Some (if v < 1 then v else v - 1, r2)))"

definition rand_u01 :: "rng \<Rightarrow> (real \<times> rng) option" where
  "rand_u01 r = (if inc_prec r then U01d r else U01 r)"

text \<open>\<open>long\<close> has 64 bits.\<close>

definition rand_int :: "int \<Rightarrow> int \<Rightarrow> rng \<Rightarrow> (int \<times> rng) option" where
  "rand_int low high r = map_option (\<lambda>(u, r1). (low + \<lfloor>of_int ((high - low + 1) mod 2 ^ 64) * u\<rfloor>, r1)) (rand_u01 r)"

definition MAXINT :: int where
  "MAXINT = 2147483647"

definition rng_next :: "rng \<Rightarrow> (int \<times> rng) option" where
  "rng_next = rand_int 0 MAXINT"

definition reset_start_stream :: "rng \<Rightarrow> rng" where
  "reset_start_stream r = r\<lparr>Cg1 := Ig1 r, Cg2 := Ig2 r, Bg1 := Ig1 r, Bg2 := Ig2 r\<rparr>"

definition reset_start_substream :: "rng \<Rightarrow> rng" where
  "reset_start_substream r = r\<lparr>Cg1 := Bg1 r, Cg2 := Bg2 r\<rparr>"

definition reset_next_substream :: "rng \<Rightarrow> rng option" where
  "reset_next_substream r = Option.bind (MatVecModM A1p76 (Bg1 r) rng_m1) (\<lambda>v. Option.bind (MatVecModM A2p76 (Bg2 r) rng_m2) (\<lambda>w.
     Some (r\<lparr>Bg1 := v, Bg2 := w, Cg1 := v, Cg2 := w\<rparr>)))"

definition set_antithetic :: "bool \<Rightarrow> rng \<Rightarrow> rng" where
  "set_antithetic a r = r\<lparr>anti := a\<rparr>"

definition increased_precis :: "bool \<Rightarrow> rng \<Rightarrow> rng" where
  "increased_precis b r = r\<lparr>inc_prec := b\<rparr>"

text \<open>\<open>2 ^ e + c\<close> steps, with \<open>-2 ^ -e\<close> for a negative \<open>e\<close> and nothing for 0.\<close>

definition jump :: "mat3 \<Rightarrow> mat3 \<Rightarrow> int \<Rightarrow> int \<Rightarrow> int \<Rightarrow> vec3 \<Rightarrow> vec3 option" where
  "jump A InvA m e c v =
     Option.bind (if c \<ge> 0 then MatPowModM A m (nat c) else MatPowModM InvA m (nat (- c))) (\<lambda>C.
     Option.bind (if e > 0 then Option.bind (MatTwoPowModM A m (nat e)) (\<lambda>B. MatMatModM B C m)
                  else if e < 0 then Option.bind (MatTwoPowModM InvA m (nat (- e))) (\<lambda>B. MatMatModM B C m)
                  else Some C) (\<lambda>C. MatVecModM C v m))"

definition advance_state :: "int \<Rightarrow> int \<Rightarrow> rng \<Rightarrow> rng option" where
  "advance_state e c r = Option.bind (jump A1p0 InvA1 rng_m1 e c (Cg1 r)) (\<lambda>v. Option.bind (jump A2p0 InvA2 rng_m2 e c (Cg2 r)) (\<lambda>w.
     Some (r\<lparr>Cg1 := v, Cg2 := w\<rparr>)))"

section \<open>Seeds\<close>

fun check_seed :: "seeds \<Rightarrow> bool" where
  "check_seed ((a, b, c), (d, e, f)) \<longleftrightarrow>
     \<not> (a \<ge> rng_m1 \<or> b \<ge> rng_m1 \<or> c \<ge> rng_m1) \<and> \<not> (d \<ge> rng_m2 \<or> e \<ge> rng_m2 \<or> f \<ge> rng_m2)
     \<and> \<not> (a = 0 \<and> b = 0 \<and> c = 0) \<and> \<not> (d = 0 \<and> e = 0 \<and> f = 0)"

definition set_package_seed :: "seeds \<Rightarrow> seeds res" where
  "set_package_seed s = (if check_seed s then Inr s else Inl Aborted)"

definition set_seed6 :: "seeds \<Rightarrow> rng \<Rightarrow> rng res" where
  "set_seed6 s r = (if check_seed s then Inr (r\<lparr>Cg1 := fst s, Cg2 := snd s, Bg1 := fst s, Bg2 := snd s, Ig1 := fst s, Ig2 := snd s\<rparr>) else Inl Aborted)"

text \<open>\<open>init\<close>: the stream starts at \<open>next_seed_\<close>, which moves on.\<close>

definition rng_init :: "seeds \<Rightarrow> (rng \<times> seeds) option" where
  "rng_init s = Option.bind (MatVecModM A1p127 (fst s) rng_m1) (\<lambda>v. Option.bind (MatVecModM A2p127 (snd s) rng_m2) (\<lambda>w.
     Some (\<lparr>Cg1 = fst s, Cg2 = snd s, Bg1 = fst s, Bg2 = snd s, Ig1 = fst s, Ig2 = snd s, anti = False, inc_prec = False\<rparr>, (v, w))))"

definition default_seed :: seeds where
  "default_seed = ((12345, 12345, 12345), (12345, 12345, 12345))"

text \<open>The constructor; \<open>name_\<close> has 100 cells.\<close>

definition rng_new :: "string \<Rightarrow> seeds \<Rightarrow> ((rng \<times> seeds) option) res" where
  "rng_new name s = (if length name > 99 then Inl OutOfBounds else Inr (rng_init s))"

definition get_state :: "rng \<Rightarrow> seeds" where
  "get_state r = (Cg1 r, Cg2 r)"

definition rng_seed :: "rng \<Rightarrow> int" where
  "rng_seed r = (case get_state r of ((a, _, _), _) \<Rightarrow> a)"

text \<open>
  \<open>set_seed\<close> with one number, read as \<open>unsigned long\<close>; 0 stands for a seed made from the time of day, which is
  the argument \<open>heur\<close>.
\<close>

definition set_seed_long :: "((rng \<times> seeds) option) res \<Rightarrow> int \<Rightarrow> ((rng \<times> seeds) option) res" where
  "set_seed_long heur seed =
     (if seed = 0 then heur
      else let k = seed mod 2 ^ 64 in case set_package_seed ((k, k, k), (k, k, k)) of Inl x \<Rightarrow> Inl x | Inr s \<Rightarrow> Inr (rng_init s))"

section \<open>The generator before\<close>

definition old_next :: "int \<Rightarrow> int" where
  "old_next seed =
     (let L = 16807 * (seed AND 0xffff); H = 16807 * drop_bit 16 seed;
          s = push_bit 16 (H AND 0x7fff) + L - 0x7fffffff + drop_bit 15 H
      in if s \<le> 0 then s + 0x7fffffff else s)"

end
