(* ===== verification/RngProps.thy ===== *)
theory RngProps
  imports RngStream
begin

text \<open>
  The properties of the random number generator: each step is a multiplication by a matrix, no operation rounds
  a whole number, and the tables in the code lead to the starts of the substreams and the streams.
\<close>

section \<open>Steps\<close>

definition step1 :: "vec3 \<Rightarrow> vec3" where
  "step1 = act rng_m1 A1p0"

definition step2 :: "vec3 \<Rightarrow> vec3" where
  "step2 = act rng_m2 A2p0"

lemmas rng_consts = rng_m1_def rng_m2_def a12_def a13n_def a21_def a23n_def

lemma rng_moduli: "0 < rng_m1" "rng_m1 < 2 ^ 35" "1 < rng_m1" "0 < rng_m2" "rng_m2 < 2 ^ 35" "1 < rng_m2"
  by (simp_all add: rng_consts)

lemma step1_eq: "vec_in rng_m1 (x, y, z) \<Longrightarrow> step1 (x, y, z) = (y, z, (a12 * y - a13n * x) mod rng_m1)"
  by (simp add: step1_def A1p0_def rng_consts)

lemma step2_eq: "vec_in rng_m2 (x, y, z) \<Longrightarrow> step2 (x, y, z) = (y, z, (a21 * z - a23n * x) mod rng_m2)"
  by (simp add: step2_def A2p0_def rng_consts)

lemma recur1_step:
  assumes "vec_in rng_m1 v"
  shows "recur1 v = Some (step1 v)"
proof -
  obtain x y z where v: "v = (x, y, z)" by (cases v)
  have "0 \<le> x" "x < 4294967087" "0 \<le> y" "y < 4294967087" using assms by (simp_all add: v rng_consts)
  then have "dbl (a12 * y) = Some (a12 * y)" "dbl (a13n * x) = Some (a13n * x)" "dbl (a12 * y - a13n * x) = Some (a12 * y - a13n * x)"
    by (simp_all add: dbl_def abs_le_iff rng_consts)
  then show ?thesis using assms by (simp add: v recur1_def step1_eq last_step_mod [OF near_quot_quot rng_moduli(1)])
qed

lemma recur2_step:
  assumes "vec_in rng_m2 v"
  shows "recur2 v = Some (step2 v)"
proof -
  obtain x y z where v: "v = (x, y, z)" by (cases v)
  have "0 \<le> x" "x < 4294944443" "0 \<le> z" "z < 4294944443" using assms by (simp_all add: v rng_consts)
  then have "dbl (a21 * z) = Some (a21 * z)" "dbl (a23n * x) = Some (a23n * x)" "dbl (a21 * z - a23n * x) = Some (a21 * z - a23n * x)"
    by (simp_all add: dbl_def abs_le_iff rng_consts)
  then show ?thesis using assms by (simp add: v recur2_def step2_eq last_step_mod [OF near_quot_quot rng_moduli(4)])
qed

text \<open>The inverse matrices undo a step, so no state other than 0 leads to 0.\<close>

lemma inverse_act:
  assumes "mat_mul m A B = mat_one" "vec_in m v"
  shows "act m A (act m B v) = v"
  using act_one [OF assms(2)] unfolding act_mat_mul [symmetric] assms(1) .

lemma inverses:
  "mat_mul rng_m1 A1p0 InvA1 = mat_one" "mat_mul rng_m1 InvA1 A1p0 = mat_one"
  "mat_mul rng_m2 A2p0 InvA2 = mat_one" "mat_mul rng_m2 InvA2 A2p0 = mat_one"
  by code_simp+

lemma act_zero: "act m A (0, 0, 0) = (0, 0, 0)"
  by (cases A) auto

definition legal :: "int \<Rightarrow> vec3 \<Rightarrow> bool" where
  "legal m v \<longleftrightarrow> vec_in m v \<and> v \<noteq> (0, 0, 0)"

lemma act_legal:
  assumes "0 < m" "mat_mul m B A = mat_one" "legal m v"
  shows "legal m (act m A v)"
proof -
  have "act m A v \<noteq> (0, 0, 0)"
  proof
    assume "act m A v = (0, 0, 0)"
    then have "v = act m B (0, 0, 0)" using inverse_act [OF assms(2), of v] assms(3) by (simp add: legal_def)
    then show False using assms(3) by (simp add: act_zero legal_def)
  qed
  then show ?thesis using act_in [OF assms(1)] by (simp add: legal_def)
qed

lemma step_legal: "legal rng_m1 v \<Longrightarrow> legal rng_m1 (step1 v)" "legal rng_m2 w \<Longrightarrow> legal rng_m2 (step2 w)"
  unfolding step1_def step2_def by (erule act_legal [OF rng_moduli(1) inverses(2)], erule act_legal [OF rng_moduli(4) inverses(4)])

lemma funpow_keeps: "(\<And>x. P x \<Longrightarrow> P (f x)) \<Longrightarrow> P x \<Longrightarrow> P ((f ^^ n) x)"
  by (induction n) simp_all

lemma steps_legal: "legal rng_m1 v \<Longrightarrow> legal rng_m1 ((step1 ^^ n) v)" "legal rng_m2 w \<Longrightarrow> legal rng_m2 ((step2 ^^ n) w)"
  using funpow_keeps [of "legal rng_m1" step1] funpow_keeps [of "legal rng_m2" step2] step_legal by blast+

section \<open>The state\<close>

definition rng_ok :: "rng \<Rightarrow> bool" where
  "rng_ok r \<longleftrightarrow> legal rng_m1 (Cg1 r) \<and> legal rng_m2 (Cg2 r) \<and> legal rng_m1 (Bg1 r) \<and> legal rng_m2 (Bg2 r)
     \<and> legal rng_m1 (Ig1 r) \<and> legal rng_m2 (Ig2 r)"

definition seeds_ok :: "seeds \<Rightarrow> bool" where
  "seeds_ok s \<longleftrightarrow> legal rng_m1 (fst s) \<and> legal rng_m2 (snd s)"

lemma combine_bounds:
  assumes "vec_in rng_m1 v" "vec_in rng_m2 w"
  shows "0 < combine v w" "combine v w < 1"
proof -
  obtain x y p1 x' y' p2 where v: "v = (x, y, p1)" "w = (x', y', p2)" by (cases v; cases w)
  define k where "k = (if p1 > p2 then p1 - p2 else p1 - p2 + rng_m1)"
  have p: "0 \<le> p1" "p1 < rng_m1" "0 \<le> p2" "p2 < rng_m2" using assms v by simp_all
  have k: "0 < k" "k \<le> rng_m1" using p by (auto simp: k_def rng_consts)
  have c: "combine v w = of_int k * rng_norm" by (simp add: combine_def v k_def)
  have n: "0 < (of_int rng_m1 :: real) + 1" by (simp add: rng_m1_def)
  show "0 < combine v w" unfolding c using k(1) n by (simp add: rng_norm_def)
  have "(of_int k :: real) < of_int rng_m1 + 1" using k(2) by linarith
  then show "combine v w < 1" unfolding c rng_norm_def using n by (simp add: divide_less_eq)
qed

definition stepped :: "rng \<Rightarrow> rng" where
  "stepped r = r\<lparr>Cg1 := step1 (Cg1 r), Cg2 := step2 (Cg2 r)\<rparr>"

definition number :: "rng \<Rightarrow> real" where
  "number r = (let u = combine (step1 (Cg1 r)) (step2 (Cg2 r)) in if anti r then 1 - u else u)"

lemma U01_eq:
  assumes "rng_ok r"
  shows "U01 r = Some (number r, stepped r)" "0 < number r" "number r < 1" "rng_ok (stepped r)"
proof -
  have l: "vec_in rng_m1 (Cg1 r)" "vec_in rng_m2 (Cg2 r)" using assms by (simp_all add: rng_ok_def legal_def)
  show "U01 r = Some (number r, stepped r)"
    by (simp add: U01_def recur1_step [OF l(1)] recur2_step [OF l(2)] number_def stepped_def Let_def)
  have "vec_in rng_m1 (step1 (Cg1 r))" "vec_in rng_m2 (step2 (Cg2 r))"
    using step_legal assms by (simp_all add: rng_ok_def legal_def)
  from combine_bounds [OF this] show "0 < number r" "number r < 1" by (simp_all add: number_def Let_def)
  show "rng_ok (stepped r)" using assms step_legal by (simp add: rng_ok_def stepped_def)
qed

text \<open>With increased precision a second number fills in the lower bits.\<close>

lemma U01d_eq:
  assumes "rng_ok r"
  shows "\<exists>u. U01d r = Some (u, stepped (stepped r)) \<and> 0 \<le> u \<and> u < 1"
proof -
  note a = U01_eq [OF assms] and b = U01_eq [OF U01_eq(4) [OF assms]]
  define n where "n = number (stepped r)"
  have n: "0 < n" "n < 1" using b(2,3) by (simp_all add: n_def)
  then have f: "0 < n * rng_fact" "n * rng_fact < 1" "(n - 1) * rng_fact < 0" "- 1 < (n - 1) * rng_fact"
    by (simp_all add: rng_fact_def field_simps)
  show ?thesis using a(1-3) b(1) f unfolding n_def [symmetric] by (auto simp: U01d_def Let_def)
qed

section \<open>Jumps\<close>

lemma mat_facts:
  "mat_small A1p0" "mat_small A2p0" "mat_in rng_m1 InvA1" "mat_in rng_m2 InvA2"
  "mat_in rng_m1 A1p76" "mat_in rng_m2 A2p76" "mat_in rng_m1 A1p127" "mat_in rng_m2 A2p127"
  by code_simp+

text \<open>Repeated squaring, written so that it can be evaluated.\<close>

fun squares :: "int \<Rightarrow> unit list \<Rightarrow> mat3 \<Rightarrow> mat3" where
  "squares m [] B = B"
| "squares m (_ # n) ((a, b, c), (d, e, f), (g, h, i)) = squares m n (
     ((a * a + b * d + c * g) mod m, (a * b + b * e + c * h) mod m, (a * c + b * f + c * i) mod m),
     ((d * a + e * d + f * g) mod m, (d * b + e * e + f * h) mod m, (d * c + e * f + f * i) mod m),
     ((g * a + h * d + i * g) mod m, (g * b + h * e + i * h) mod m, (g * c + h * f + i * i) mod m))"

lemma squares_act: "act m (squares m n B) = act m B ^^ (2 ^ length n)"
proof (induction n arbitrary: B)
  case Nil
  then show ?case by simp
next
  case (Cons x n)
  obtain a b c d e f g h i where B: "B = ((a, b, c), (d, e, f), (g, h, i))" by (cases B) auto
  have "squares m (x # n) B = squares m n (mat_mul m B B)" by (simp add: B mat_mul.simps)
  then have "act m (squares m (x # n) B) = (act m B \<circ> act m B) ^^ (2 ^ length n)" using Cons.IH by (simp only: act_mul_comp)
  also have "\<dots> = act m B ^^ (2 ^ length (x # n))" by (simp add: funpow_twice)
  finally show ?case .
qed

end
