(* ===== verification/RngTables.thy ===== *)
theory RngTables
  imports RngProps
begin

text \<open>
  The matrices in the tables of \<open>tools/rng.cc\<close> are the powers of the matrices of one step that their names
  say: the squares are computed, in pieces.
\<close>

lemma squares1_38:
  "squares rng_m1 (replicate 38 ()) A1p0
     = ((3214147257, 1434230503, 2944821434), (2753040912, 4041536918, 1434230503), (1317260239, 338830578, 4041536918))"
  by code_simp

lemma squares1_76:
  "squares rng_m1 (replicate 38 ()) ((3214147257, 1434230503, 2944821434), (2753040912, 4041536918, 1434230503), (1317260239, 338830578, 4041536918))
     = A1p76"
  by code_simp

lemma squares1_102:
  "squares rng_m1 (replicate 26 ()) A1p76
     = ((1028861702, 4082006648, 338232527), (1888486946, 1842080991, 4082006648), (3903826366, 3109935091, 1842080991))"
  by code_simp

lemma squares1_127:
  "squares rng_m1 (replicate 25 ()) ((1028861702, 4082006648, 338232527), (1888486946, 1842080991, 4082006648), (3903826366, 3109935091, 1842080991))
     = A1p127"
  by code_simp

lemma squares2_38:
  "squares rng_m2 (replicate 38 ()) A2p0
     = ((4093947334, 3454015638, 2815567716), (4261953004, 4093947334, 3973733876), (2979573134, 4261953004, 3757047667))"
  by code_simp

lemma squares2_76:
  "squares rng_m2 (replicate 38 ()) ((4093947334, 3454015638, 2815567716), (4261953004, 4093947334, 3973733876), (2979573134, 4261953004, 3757047667))
     = A2p76"
  by code_simp

lemma squares2_102:
  "squares rng_m2 (replicate 26 ()) A2p76
     = ((419134859, 2976059897, 747864206), (4101695717, 419134859, 4264593116), (2657991148, 4101695717, 2542621682))"
  by code_simp

lemma squares2_127:
  "squares rng_m2 (replicate 25 ()) ((419134859, 2976059897, 747864206), (4101695717, 419134859, 4264593116), (2657991148, 4101695717, 2542621682))
     = A2p127"
  by code_simp

lemma squares_chain:
  assumes "squares m (replicate a ()) A = B" "squares m (replicate b ()) B = C" "act m A = act m A0 ^^ (2 ^ k)"
  shows "act m B = act m A0 ^^ (2 ^ (k + a))" "act m C = act m A0 ^^ (2 ^ (k + a + b))"
proof -
  show B: "act m B = act m A0 ^^ (2 ^ (k + a))"
    using squares_act [of m "replicate a ()" A] unfolding assms(1,3) by (simp add: funpow_mult power_add)
  show "act m C = act m A0 ^^ (2 ^ (k + a + b))"
    using squares_act [of m "replicate b ()" B] unfolding assms(2) B by (simp add: funpow_mult power_add)
qed

lemma table1: "act rng_m1 A1p76 = step1 ^^ (2 ^ 76)" "act rng_m1 A1p127 = step1 ^^ (2 ^ 127)"
proof -
  have "act rng_m1 A1p0 = act rng_m1 A1p0 ^^ (2 ^ 0)" by simp
  from squares_chain(2) [OF squares1_38 squares1_76 this] have a: "act rng_m1 A1p76 = act rng_m1 A1p0 ^^ (2 ^ 76)" by simp
  then show "act rng_m1 A1p76 = step1 ^^ (2 ^ 76)" by (simp only: step1_def)
  from squares_chain(2) [OF squares1_102 squares1_127 a] have "act rng_m1 A1p127 = act rng_m1 A1p0 ^^ (2 ^ (76 + 26 + 25))" .
  then show "act rng_m1 A1p127 = step1 ^^ (2 ^ 127)" by (simp add: step1_def)
qed

lemma table2: "act rng_m2 A2p76 = step2 ^^ (2 ^ 76)" "act rng_m2 A2p127 = step2 ^^ (2 ^ 127)"
proof -
  have "act rng_m2 A2p0 = act rng_m2 A2p0 ^^ (2 ^ 0)" by simp
  from squares_chain(2) [OF squares2_38 squares2_76 this] have a: "act rng_m2 A2p76 = act rng_m2 A2p0 ^^ (2 ^ 76)" by simp
  then show "act rng_m2 A2p76 = step2 ^^ (2 ^ 76)" by (simp only: step2_def)
  from squares_chain(2) [OF squares2_102 squares2_127 a] have "act rng_m2 A2p127 = act rng_m2 A2p0 ^^ (2 ^ (76 + 26 + 25))" .
  then show "act rng_m2 A2p127 = step2 ^^ (2 ^ 127)" by (simp add: step2_def)
qed

end
