(* ===== verification/RngRuns.thy ===== *)
theory RngRuns
  imports RngTables
begin

text \<open>What the streams of the random number generator promise.\<close>

unbundle bit_operations_syntax

section \<open>Steps forwards and backwards\<close>

definition spow :: "('a \<Rightarrow> 'a) \<Rightarrow> ('a \<Rightarrow> 'a) \<Rightarrow> int \<Rightarrow> 'a \<Rightarrow> 'a" where
  "spow f g n = (if n \<ge> 0 then f ^^ nat n else g ^^ nat (- n))"

lemma cancel_powers:
  assumes "\<And>x. P x \<Longrightarrow> f (g x) = x" "\<And>x. P x \<Longrightarrow> P (g x)" "P v"
  shows "(f ^^ i) ((g ^^ j) v) = (if j \<le> i then (f ^^ (i - j)) v else (g ^^ (j - i)) v)"
proof (induction j arbitrary: i)
  case 0
  then show ?case by simp
next
  case (Suc j)
  show ?case
  proof (cases i)
    case (Suc i')
    have "P ((g ^^ j) v)" using funpow_keeps [of P g] assms(2,3) by blast
    have "(f ^^ i) ((g ^^ Suc j) v) = (f ^^ i') (f (g ((g ^^ j) v)))" unfolding Suc by (simp add: funpow_swap1)
    with assms(1) [OF \<open>P ((g ^^ j) v)\<close>] have "(f ^^ i) ((g ^^ Suc j) v) = (f ^^ i') ((g ^^ j) v)" by simp
    then show ?thesis using Suc.IH [of i'] Suc by simp
  qed simp
qed

lemma spow_add:
  assumes fg: "\<And>x. P x \<Longrightarrow> f (g x) = x" "\<And>x. P x \<Longrightarrow> g (f x) = x" "\<And>x. P x \<Longrightarrow> P (f x)" "\<And>x. P x \<Longrightarrow> P (g x)" and v: "P v"
  shows "spow f g a (spow f g b v) = spow f g (a + b) v"
proof -
  have add: "(h ^^ i) ((h ^^ j) v) = (h ^^ (i + j)) v" for h :: "'a \<Rightarrow> 'a" and i j by (simp add: funpow_add)
  note c = cancel_powers [of P f g, OF fg(1,4) v] cancel_powers [of P g f, OF fg(2,3) v]
  consider "a \<ge> 0" "b \<ge> 0" | "a \<ge> 0" "b < 0" | "a < 0" "b \<ge> 0" | "a < 0" "b < 0" by linarith
  then show ?thesis
  proof cases
    case 1
    then show ?thesis by (simp add: spow_def add nat_add_distrib)
  next
    case 2
    have "nat (- b) \<le> nat a \<longleftrightarrow> 0 \<le> a + b" "nat a - nat (- b) = nat (a + b)" "nat (- b) - nat a = nat (- (a + b))" using 2 by auto
    then show ?thesis using 2 c(1) [of "nat a" "nat (- b)"] by (simp add: spow_def)
  next
    case 3
    have "nat b \<le> nat (- a) \<longleftrightarrow> a + b \<le> 0" "nat (- a) - nat b = nat (- (a + b))" "nat b - nat (- a) = nat (a + b)" using 3 by auto
    then show ?thesis using 3 c(2) [of "nat (- a)" "nat b"] by (cases "a + b = 0") (auto simp: spow_def)
  next
    case 4
    then have "nat (- a) + nat (- b) = nat (- (a + b))" by simp
    then show ?thesis using 4 by (simp add: spow_def add)
  qed
qed

definition big_jump :: "int \<Rightarrow> int" where
  "big_jump e = (if e > 0 then 2 ^ nat e else if e < 0 then - (2 ^ nat (- e)) else 0)"

lemma jump_spow:
  assumes m: "1 < m" "m < 2 ^ 35" and A: "mat_small A" "mat_in m InvA" "mat_mul m A InvA = mat_one" "mat_mul m InvA A = mat_one" and v: "vec_in m v"
  shows "jump A InvA m e c v = Some (spow (act m A) (act m InvA) (big_jump e + c) v)"
proof -
  have m0: "0 < m" using m by simp
  let ?s = "spow (act m A) (act m InvA)"
  obtain C where C: "(if c \<ge> 0 then MatPowModM A m (nat c) else MatPowModM InvA m (nat (- c))) = Some C" "mat_in m C" "act m C v = ?s c v"
  proof (cases "c \<ge> 0")
    case True
    from MatPowModM_pow [OF m, of A "nat c"] A(1) obtain C where "MatPowModM A m (nat c) = Some C" "mat_in m C" "act m C v = (act m A ^^ nat c) v"
      using v by blast
    then show thesis using that True by (simp add: spow_def)
  next
    case False
    from MatPowModM_pow [OF m, of InvA "nat (- c)"] A(2) obtain C where
      "MatPowModM InvA m (nat (- c)) = Some C" "mat_in m C" "act m C v = (act m InvA ^^ nat (- c)) v" using v by blast
    then show thesis using that False by (simp add: spow_def)
  qed
  have w: "vec_in m (act m M u)" for M u by (rule act_in [OF m0])
  have mv: "MatVecModM M v m = Some (act m M v)" if "mat_in m M" for M
    by (rule MatVecModM_act [OF m0 m(2)]) (use mat_in_ok [OF that m(2)] v in simp)
  have mm: "MatMatModM M C m = Some (mat_mul m M C)" if "mat_in m M" for M
    by (rule MatMatModM_mul [OF m0 m(2)]) (use mat_in_ok [OF that m(2)] C(2) in simp)
  have add: "?s a (?s b v) = ?s (a + b) v" for a b
    by (rule spow_add [where P = "vec_in m"]) (use inverse_act A(3,4) w v in auto)
  have two: "\<exists>B. MatTwoPowModM M m k = Some B \<and> act m B = act m M ^^ (2 ^ k) \<and> mat_in m B" if "M \<in> {A, InvA}" "0 < k" for M k
    using MatTwoPowModM_pow [OF m0 m(2), of M k] that A(1,2) by auto
  consider "e > 0" | "e < 0" | "e = 0" by linarith
  then show ?thesis
  proof cases
    case 1
    from two [of A "nat e"] 1 obtain B where B: "MatTwoPowModM A m (nat e) = Some B" "act m B = act m A ^^ (2 ^ nat e)" "mat_in m B" by auto
    have "act m (mat_mul m B C) v = ?s (big_jump e) (?s c v)" unfolding act_mat_mul C(3) B(2) using 1 by (simp add: spow_def big_jump_def nat_power_eq)
    then show ?thesis using 1 C(1) B(1) mm [OF B(3)] mv [OF mat_mul_in [OF m0]] by (simp add: jump_def add)
  next
    case 2
    from two [of InvA "nat (- e)"] 2 obtain B where B: "MatTwoPowModM InvA m (nat (- e)) = Some B" "act m B = act m InvA ^^ (2 ^ nat (- e))" "mat_in m B" by auto
    have "act m (mat_mul m B C) v = ?s (big_jump e) (?s c v)" unfolding act_mat_mul C(3) B(2) using 2 by (simp add: spow_def big_jump_def nat_power_eq)
    then show ?thesis using 2 C(1) B(1) mm [OF B(3)] mv [OF mat_mul_in [OF m0]] by (simp add: jump_def add)
  next
    case 3
    then show ?thesis using C mv [OF C(2)] by (simp add: jump_def big_jump_def)
  qed
qed

lemma spow_back:
  assumes "\<And>x. P x \<Longrightarrow> f (g x) = x" "\<And>x. P x \<Longrightarrow> P (g x)" "P v" "n < 0"
  shows "(f ^^ nat (- n)) (spow f g n v) = v"
  using cancel_powers [of P f g, OF assms(1-3), of "nat (- n)" "nat (- n)"] assms(4) by (simp add: spow_def)

section \<open>Draws\<close>

lemma rand_u01_ok:
  assumes "rng_ok r"
  shows "\<exists>u r'. rand_u01 r = Some (u, r') \<and> 0 \<le> u \<and> u < 1 \<and> rng_ok r'"
proof (cases "inc_prec r")
  case True
  then show ?thesis using U01d_eq [OF assms] U01_eq(4) [OF U01_eq(4) [OF assms]] by (auto simp: rand_u01_def)
next
  case False
  then show ?thesis using U01_eq [OF assms] by (auto simp: rand_u01_def intro: less_imp_le)
qed

text \<open>Any number of draws: \<open>U01\<close> moves both halves of the state on by one step, and nothing else.\<close>

fun drawn :: "nat \<Rightarrow> rng \<Rightarrow> rng option" where
  "drawn 0 r = Some r"
| "drawn (Suc n) r = Option.bind (U01 r) (\<lambda>(u, r1). drawn n r1)"

lemma drawn_eq:
  assumes "rng_ok r"
  shows "drawn n r = Some (r\<lparr>Cg1 := (step1 ^^ n) (Cg1 r), Cg2 := (step2 ^^ n) (Cg2 r)\<rparr>)"
  using assms
proof (induction n arbitrary: r)
  case (Suc n)
  from Suc.IH [OF U01_eq(4) [OF Suc.prems]] U01_eq(1) [OF Suc.prems] show ?case
    by (simp add: stepped_def funpow_Suc_right del: funpow.simps)
qed simp

text \<open>
  A number drawn between two bounds lies between them, with and without antithetic numbers and increased
  precision, and the state stays legal.
\<close>

theorem rand_int_range:
  assumes "rng_ok r" "low \<le> high" "high - low + 1 < 2 ^ 64"
  shows "\<exists>k r'. rand_int low high r = Some (k, r') \<and> low \<le> k \<and> k \<le> high \<and> rng_ok r'"
proof -
  obtain u r' where u: "rand_u01 r = Some (u, r')" "0 \<le> u" "u < 1" "rng_ok r'" using rand_u01_ok [OF assms(1)] by blast
  define n where "n = high - low + 1"
  have n: "(high - low + 1) mod 2 ^ 64 = n" "0 < n" using assms(2,3) by (simp_all add: n_def)
  have "0 \<le> of_int n * u" using n(2) u(2) by simp
  then have "0 \<le> \<lfloor>of_int n * u\<rfloor>" by simp
  moreover have "of_int n * u < of_int n" using n(2) u(3) by simp
  then have "\<lfloor>of_int n * u\<rfloor> < n" by (simp add: floor_less_iff)
  ultimately show ?thesis using u(1,4) n(1) unfolding rand_int_def by (simp add: n_def)
qed

definition demo_rng :: rng where
  "demo_rng = \<lparr>Cg1 = (12345, 12345, 12345), Cg2 = (12345, 12345, 12345), Bg1 = (12345, 12345, 12345), Bg2 = (12345, 12345, 12345),
     Ig1 = (12345, 12345, 12345), Ig2 = (12345, 12345, 12345), anti = False, inc_prec = True\<rparr>"

lemma demo_rng_ok: "rng_ok demo_rng"
  by (simp add: demo_rng_def rng_ok_def legal_def rng_consts)

theorem rand_int_range_witness:
  "\<exists>k r'. rand_int (- 5) 5 demo_rng = Some (k, r') \<and> - 5 \<le> k \<and> k \<le> 5 \<and> rng_ok r'"
  by (rule rand_int_range [OF demo_rng_ok]) simp_all

section \<open>Streams and substreams\<close>

lemma table_step:
  assumes "vec_in rng_m1 v" "vec_in rng_m2 w"
  shows "MatVecModM A1p76 v rng_m1 = Some ((step1 ^^ (2 ^ 76)) v)" "MatVecModM A2p76 w rng_m2 = Some ((step2 ^^ (2 ^ 76)) w)"
    "MatVecModM A1p127 v rng_m1 = Some ((step1 ^^ (2 ^ 127)) v)" "MatVecModM A2p127 w rng_m2 = Some ((step2 ^^ (2 ^ 127)) w)"
proof -
  have "MatVecModM M v rng_m1 = Some (act rng_m1 M v)" if "mat_in rng_m1 M" for M
    by (rule MatVecModM_act [OF rng_moduli(1,2)]) (use mat_in_ok [OF that rng_moduli(2)] assms in simp)
  then show "MatVecModM A1p76 v rng_m1 = Some ((step1 ^^ (2 ^ 76)) v)" "MatVecModM A1p127 v rng_m1 = Some ((step1 ^^ (2 ^ 127)) v)"
    by (simp_all only: mat_facts table1)
  have "MatVecModM M w rng_m2 = Some (act rng_m2 M w)" if "mat_in rng_m2 M" for M
    by (rule MatVecModM_act [OF rng_moduli(4,5)]) (use mat_in_ok [OF that rng_moduli(5)] assms in simp)
  then show "MatVecModM A2p76 w rng_m2 = Some ((step2 ^^ (2 ^ 76)) w)" "MatVecModM A2p127 w rng_m2 = Some ((step2 ^^ (2 ^ 127)) w)"
    by (simp_all only: mat_facts table2)
qed

definition far :: "nat \<Rightarrow> seeds \<Rightarrow> seeds" where
  "far n s = ((step1 ^^ n) (fst s), (step2 ^^ n) (snd s))"

lemma far_add: "far a (far b s) = far (a + b) s"
  by (simp add: far_def funpow_add)

lemma far_zero [simp]: "far 0 s = s"
  by (simp add: far_def)

lemma far_ok: "seeds_ok s \<Longrightarrow> seeds_ok (far n s)"
  using steps_legal by (simp add: seeds_ok_def far_def)

definition at_substream :: "rng \<Rightarrow> seeds" where
  "at_substream r = (Bg1 r, Bg2 r)"

definition at_stream :: "rng \<Rightarrow> seeds" where
  "at_stream r = (Ig1 r, Ig2 r)"

lemma rng_ok_seeds: "rng_ok r \<longleftrightarrow> seeds_ok (get_state r) \<and> seeds_ok (at_substream r) \<and> seeds_ok (at_stream r)"
  by (auto simp: rng_ok_def seeds_ok_def get_state_def at_substream_def at_stream_def)

lemma reset_next_substream_eq:
  assumes "rng_ok r"
  obtains r' where "reset_next_substream r = Some r'" "at_substream r' = far (2 ^ 76) (at_substream r)" "get_state r' = at_substream r'"
    "at_stream r' = at_stream r" "rng_ok r'"
proof -
  have "vec_in rng_m1 (Bg1 r)" "vec_in rng_m2 (Bg2 r)" using assms by (simp_all add: rng_ok_def legal_def)
  note t = table_step [OF this]
  define v where "v = (step1 ^^ (2 ^ 76)) (Bg1 r)"
  define w where "w = (step2 ^^ (2 ^ 76)) (Bg2 r)"
  let ?r = "r\<lparr>Bg1 := v, Bg2 := w, Cg1 := v, Cg2 := w\<rparr>"
  have "reset_next_substream r = Some ?r" unfolding reset_next_substream_def t(1,2) v_def [symmetric] w_def [symmetric] by simp
  moreover have "at_substream ?r = far (2 ^ 76) (at_substream r)"
    unfolding far_def at_substream_def fst_conv snd_conv v_def [symmetric] w_def [symmetric] by simp
  moreover have "get_state ?r = at_substream ?r" "at_stream ?r = at_stream r" by (simp_all add: get_state_def at_substream_def at_stream_def)
  moreover from this have "rng_ok ?r" using assms far_ok [of "at_substream r" "2 ^ 76"] calculation(2) by (simp only: rng_ok_seeds)
  ultimately show thesis by (rule that)
qed

fun next_substreams :: "nat \<Rightarrow> rng \<Rightarrow> rng option" where
  "next_substreams 0 r = Some r"
| "next_substreams (Suc k) r = Option.bind (next_substreams k r) reset_next_substream"

lemma next_substreams_far:
  assumes "rng_ok r"
  shows "\<exists>r'. next_substreams k (reset_start_stream r) = Some r' \<and> get_state r' = far (k * 2 ^ 76) (at_stream r) \<and> at_substream r' = get_state r'
    \<and> at_stream r' = at_stream r \<and> rng_ok r' \<and> anti r' = anti r \<and> inc_prec r' = inc_prec r"
proof (induction k)
  case 0
  have "get_state (reset_start_stream r) = at_stream r" "at_substream (reset_start_stream r) = at_stream r" "at_stream (reset_start_stream r) = at_stream r"
    "anti (reset_start_stream r) = anti r" "inc_prec (reset_start_stream r) = inc_prec r"
    by (simp_all add: reset_start_stream_def get_state_def at_substream_def at_stream_def)
  then show ?case using assms by (simp add: rng_ok_seeds)
next
  case (Suc k)
  then obtain r1 where r1: "next_substreams k (reset_start_stream r) = Some r1" "get_state r1 = far (k * 2 ^ 76) (at_stream r)"
    "at_substream r1 = get_state r1" "at_stream r1 = at_stream r" "rng_ok r1" "anti r1 = anti r" "inc_prec r1 = inc_prec r" by blast
  obtain r2 where r2: "reset_next_substream r1 = Some r2" "at_substream r2 = far (2 ^ 76) (at_substream r1)" "get_state r2 = at_substream r2"
    "at_stream r2 = at_stream r1" "rng_ok r2" by (rule reset_next_substream_eq [OF r1(5)])
  have keep: "anti r2 = anti r1" "inc_prec r2 = inc_prec r1"
    using r2(1) by (auto simp: reset_next_substream_def bind_eq_Some_conv)
  have "get_state r2 = far (Suc k * 2 ^ 76) (at_stream r)" unfolding r2(2,3) r1(2,3) far_add mult_Suc ..
  moreover have "next_substreams (Suc k) (reset_start_stream r) = Some r2" using r1(1) r2(1) by simp
  ultimately show ?case using r2(3,4,5) r1(4,6,7) keep by (intro exI [of _ r2]) simp
qed

text \<open>
  C14: The substreams of a stream start \<open>2 ^ 76\<close> draws apart: moved on k times from its start, a stream is where \<open>k * 2 ^ 76\<close>
  calls of \<open>U01\<close> from there would have taken it, and a new substream begins there; all else is as it was.
\<close>

theorem substreams_apart:
  assumes "rng_ok r"
  shows "\<exists>d. drawn (k * 2 ^ 76) (reset_start_stream r) = Some d \<and> rng_ok d
    \<and> next_substreams k (reset_start_stream r) = Some (d\<lparr>Bg1 := Cg1 d, Bg2 := Cg2 d\<rparr>)"
proof -
  define N :: nat where "N = k * 2 ^ 76"
  define d where "d = (reset_start_stream r)\<lparr>Cg1 := (step1 ^^ N) (Ig1 r), Cg2 := (step2 ^^ N) (Ig2 r)\<rparr>"
  have ok: "rng_ok (reset_start_stream r)" using assms by (simp add: rng_ok_def reset_start_stream_def)
  have "drawn N (reset_start_stream r) = Some d" unfolding drawn_eq [OF ok] d_def by (simp add: reset_start_stream_def)
  moreover have "rng_ok d" using ok assms steps_legal by (simp add: d_def rng_ok_def reset_start_stream_def)
  moreover from next_substreams_far [OF assms, of k] obtain r' where r': "next_substreams k (reset_start_stream r) = Some r'"
    "get_state r' = far N (at_stream r)" "at_substream r' = get_state r'" "at_stream r' = at_stream r" "anti r' = anti r" "inc_prec r' = inc_prec r"
    unfolding N_def by blast
  then have "r' = d\<lparr>Bg1 := Cg1 d, Bg2 := Cg2 d\<rparr>"
    by (cases r') (simp add: d_def reset_start_stream_def get_state_def at_substream_def at_stream_def far_def)
  ultimately show ?thesis using r'(1) unfolding N_def by blast
qed

fun new_streams :: "nat \<Rightarrow> seeds \<Rightarrow> (rng list \<times> seeds) option" where
  "new_streams 0 s = Some ([], s)"
| "new_streams (Suc k) s = Option.bind (rng_init s) (\<lambda>(r, s1). map_option (\<lambda>(rs, s2). (r # rs, s2)) (new_streams k s1))"

lemma rng_init_eq:
  assumes "seeds_ok s"
  obtains r where "rng_init s = Some (r, far (2 ^ 127) s)" "get_state r = s" "at_substream r = s" "at_stream r = s" "rng_ok r"
proof -
  have "vec_in rng_m1 (fst s)" "vec_in rng_m2 (snd s)" using assms by (simp_all add: seeds_ok_def legal_def)
  note t = table_step [OF this]
  let ?r = "\<lparr>Cg1 = fst s, Cg2 = snd s, Bg1 = fst s, Bg2 = snd s, Ig1 = fst s, Ig2 = snd s, anti = False, inc_prec = False\<rparr>"
  have "rng_init s = Some (?r, far (2 ^ 127) s)" unfolding rng_init_def t(3,4) far_def by (simp only: bind.simps)
  moreover have "get_state ?r = s" "at_substream ?r = s" "at_stream ?r = s" by (simp_all add: get_state_def at_substream_def at_stream_def)
  moreover from this have "rng_ok ?r" using assms by (simp only: rng_ok_seeds)
  ultimately show thesis by (rule that)
qed

text \<open>
  The streams created one after the other start \<open>2 ^ 127\<close> steps apart.
\<close>

theorem streams_apart:
  assumes "seeds_ok s"
  shows "\<exists>rs. new_streams k s = Some (rs, far (k * 2 ^ 127) s) \<and> length rs = k \<and> (\<forall>i < k. get_state (rs ! i) = far (i * 2 ^ 127) s \<and> rng_ok (rs ! i))"
  using assms
proof (induction k arbitrary: s)
  case 0
  then show ?case by simp
next
  case (Suc k)
  define d :: nat where "d = 2 ^ 127"
  obtain r where r: "rng_init s = Some (r, far d s)" "get_state r = s" "rng_ok r" unfolding d_def using rng_init_eq [OF Suc.prems] by metis
  from Suc.IH [OF far_ok [OF Suc.prems], of d] obtain rs where
    rs: "new_streams k (far d s) = Some (rs, far (k * d) (far d s))" "length rs = k" "\<forall>i<k. get_state (rs ! i) = far (i * d) (far d s) \<and> rng_ok (rs ! i)"
    unfolding d_def [symmetric] by blast
  have "new_streams (Suc k) s = Some (r # rs, far (Suc k * d) s)" using r(1) rs(1) by (simp add: far_add add.commute)
  moreover have "get_state ((r # rs) ! i) = far (i * d) s \<and> rng_ok ((r # rs) ! i)" if "i < Suc k" for i
    using that r(2,3) rs(3) by (cases i) (auto simp: far_add add.commute)
  ultimately show ?case unfolding d_def [symmetric] using rs(2) by (intro exI [of _ "r # rs"]) simp
qed

lemma default_seed_ok: "seeds_ok default_seed"
  by (simp add: default_seed_def seeds_ok_def legal_def rng_consts)

theorem streams_apart_witness:
  "\<exists>rs. new_streams 3 default_seed = Some (rs, far (3 * 2 ^ 127) default_seed) \<and> length rs = 3
    \<and> (\<forall>i < 3. get_state (rs ! i) = far (i * 2 ^ 127) default_seed \<and> rng_ok (rs ! i))"
  by (rule streams_apart [OF default_seed_ok])

section \<open>Jumps\<close>

lemma inverse_steps:
  assumes "vec_in rng_m1 v" "vec_in rng_m2 w"
  shows "act rng_m1 A1p0 (act rng_m1 InvA1 v) = v" "act rng_m1 InvA1 (act rng_m1 A1p0 v) = v"
    "act rng_m2 A2p0 (act rng_m2 InvA2 w) = w" "act rng_m2 InvA2 (act rng_m2 A2p0 w) = w"
  by (rule inverse_act [OF inverses(1) assms(1)], rule inverse_act [OF inverses(2) assms(1)],
      rule inverse_act [OF inverses(3) assms(2)], rule inverse_act [OF inverses(4) assms(2)])

lemma spow_legal:
  assumes "legal rng_m1 v" "legal rng_m2 w"
  shows "legal rng_m1 (spow (act rng_m1 A1p0) (act rng_m1 InvA1) n v)" "legal rng_m2 (spow (act rng_m2 A2p0) (act rng_m2 InvA2) n w)"
  using funpow_keeps [where P = "legal rng_m1", OF act_legal [OF rng_moduli(1) inverses(1)] assms(1)]
    funpow_keeps [where P = "legal rng_m1", OF act_legal [OF rng_moduli(1) inverses(2)] assms(1)]
    funpow_keeps [where P = "legal rng_m2", OF act_legal [OF rng_moduli(4) inverses(3)] assms(2)]
    funpow_keeps [where P = "legal rng_m2", OF act_legal [OF rng_moduli(4) inverses(4)] assms(2)]
  by (simp_all add: spow_def)

text \<open>
  C12: \<open>advance_state\<close> leaves a stream as so many calls of \<open>U01\<close> would: \<open>2 ^ e + c\<close>, or \<open>c - 2 ^ - e\<close> for negative \<open>e\<close>
  and \<open>c\<close> for \<open>e = 0\<close>. When the number is negative it takes them back: as many draws then lead to where the stream was.
  Nothing is rounded and the state stays legal.
\<close>

theorem advance_state_jumps:
  assumes "rng_ok r"
  shows "\<exists>r'. advance_state e c r = Some r' \<and> rng_ok r' \<and>
    (let n = (if e > 0 then 2 ^ nat e else if e < 0 then - (2 ^ nat (- e)) else 0) + c
     in if n \<ge> 0 then drawn (nat n) r = Some r' else drawn (nat (- n)) r' = Some r)"
proof -
  define n where "n = big_jump e + c"
  have l: "legal rng_m1 (Cg1 r)" "legal rng_m2 (Cg2 r)" and v: "vec_in rng_m1 (Cg1 r)" "vec_in rng_m2 (Cg2 r)"
    using assms by (simp_all add: rng_ok_def legal_def)
  let ?s1 = "spow (act rng_m1 A1p0) (act rng_m1 InvA1) n (Cg1 r)" and ?s2 = "spow (act rng_m2 A2p0) (act rng_m2 InvA2) n (Cg2 r)"
  let ?r = "r\<lparr>Cg1 := ?s1, Cg2 := ?s2\<rparr>"
  have "advance_state e c r = Some ?r"
    using jump_spow [OF rng_moduli(3,2) mat_facts(1,3) inverses(1,2) v(1), of e c] jump_spow [OF rng_moduli(6,5) mat_facts(2,4) inverses(3,4) v(2), of e c]
    unfolding n_def by (simp add: advance_state_def)
  moreover have "rng_ok ?r" using assms spow_legal [OF l, of n] by (simp add: rng_ok_def)
  moreover have "drawn (nat n) r = Some ?r" if "n \<ge> 0"
    using that by (simp add: drawn_eq [OF assms] spow_def step1_def step2_def)
  moreover have "drawn (nat (- n)) ?r = Some r" if "\<not> n \<ge> 0"
  proof -
    have "n < 0" using that by simp
    have "(act rng_m1 A1p0 ^^ nat (- n)) ?s1 = Cg1 r"
      by (rule spow_back [where P = "vec_in rng_m1"]) (use inverse_steps v act_in [OF rng_moduli(1)] \<open>n < 0\<close> in auto)
    moreover have "(act rng_m2 A2p0 ^^ nat (- n)) ?s2 = Cg2 r"
      by (rule spow_back [where P = "vec_in rng_m2"]) (use inverse_steps v act_in [OF rng_moduli(4)] \<open>n < 0\<close> in auto)
    moreover have "rng_ok ?r" using assms spow_legal [OF l, of n] by (simp add: rng_ok_def)
    ultimately show ?thesis by (simp add: drawn_eq flip: step1_def step2_def)
  qed
  ultimately have "advance_state e c r = Some ?r \<and> rng_ok ?r \<and>
    (if n \<ge> 0 then drawn (nat n) r = Some ?r else drawn (nat (- n)) ?r = Some r)" by auto
  then show ?thesis unfolding n_def big_jump_def Let_def by blast
qed

theorem advance_state_jumps_witness:
  "\<exists>r'. advance_state (- 40) 1000 demo_rng = Some r' \<and> rng_ok r' \<and> drawn (2 ^ 40 - 1000) r' = Some demo_rng"
proof -
  have "(- (2 ^ 40) + 1000 :: int) < 0" "nat (- (- (2 ^ 40) + 1000)) = 2 ^ 40 - 1000" by simp_all
  with advance_state_jumps [OF demo_rng_ok, of "- 40" 1000] show ?thesis by (simp only: Let_def) simp
qed

theorem substreams_apart_witness:
  "\<exists>d. drawn (5 * 2 ^ 76) (reset_start_stream demo_rng) = Some d \<and> rng_ok d
    \<and> next_substreams 5 (reset_start_stream demo_rng) = Some (d\<lparr>Bg1 := Cg1 d, Bg2 := Cg2 d\<rparr>)"
  by (rule substreams_apart [OF demo_rng_ok])

section \<open>Any sequence of operations\<close>

datatype rng_op = Draw | StartStream | StartSubstream | NextSubstream | Antithetic bool | Precision bool | Advance int int

fun rng_apply :: "rng_op \<Rightarrow> rng \<Rightarrow> rng option" where
  "rng_apply Draw r = map_option snd (rand_u01 r)"
| "rng_apply StartStream r = Some (reset_start_stream r)"
| "rng_apply StartSubstream r = Some (reset_start_substream r)"
| "rng_apply NextSubstream r = reset_next_substream r"
| "rng_apply (Antithetic b) r = Some (set_antithetic b r)"
| "rng_apply (Precision b) r = Some (increased_precis b r)"
| "rng_apply (Advance e c) r = advance_state e c r"

fun rng_run :: "rng_op list \<Rightarrow> rng \<Rightarrow> rng option" where
  "rng_run [] r = Some r"
| "rng_run (x # xs) r = Option.bind (rng_apply x r) (rng_run xs)"

lemma advance_state_some:
  assumes "rng_ok r"
  obtains r' where "advance_state e c r = Some r'" "rng_ok r'"
proof -
  have l: "legal rng_m1 (Cg1 r)" "legal rng_m2 (Cg2 r)" and v: "vec_in rng_m1 (Cg1 r)" "vec_in rng_m2 (Cg2 r)"
    using assms by (simp_all add: rng_ok_def legal_def)
  have "advance_state e c r = Some (r\<lparr>Cg1 := spow (act rng_m1 A1p0) (act rng_m1 InvA1) (big_jump e + c) (Cg1 r),
      Cg2 := spow (act rng_m2 A2p0) (act rng_m2 InvA2) (big_jump e + c) (Cg2 r)\<rparr>)"
    using jump_spow [OF rng_moduli(3,2) mat_facts(1,3) inverses(1,2) v(1), of e c] jump_spow [OF rng_moduli(6,5) mat_facts(2,4) inverses(3,4) v(2), of e c]
    by (simp add: advance_state_def)
  then show thesis using that assms spow_legal [OF l, of "big_jump e + c"] by (simp add: rng_ok_def)
qed

lemma rng_apply_ok:
  assumes "rng_ok r"
  obtains r' where "rng_apply x r = Some r'" "rng_ok r'"
proof (cases x)
  case Draw
  then show thesis using that rand_u01_ok [OF assms] by auto
next
  case NextSubstream
  then show thesis using that reset_next_substream_eq [OF assms] by (metis rng_apply.simps(4))
next
  case (Advance e c)
  then show thesis using that advance_state_some [OF assms, of e c] by (metis rng_apply.simps(7))
qed (use that assms in \<open>auto simp: rng_ok_def reset_start_stream_def reset_start_substream_def set_antithetic_def increased_precis_def\<close>)

text \<open>
  C13: Whatever is done with a stream, its six numbers stay below the moduli, neither half becomes 0, and no whole
  number is ever rounded in a \<open>double\<close>.
\<close>

theorem rng_stays_legal:
  assumes "rng_ok r"
  shows "\<exists>r'. rng_run ops r = Some r' \<and> rng_ok r'"
  using assms
proof (induction ops arbitrary: r)
  case (Cons x xs)
  obtain r1 where "rng_apply x r = Some r1" "rng_ok r1" by (rule rng_apply_ok [OF Cons.prems])
  with Cons.IH [of r1] show ?case by simp
qed simp

theorem rng_stays_legal_witness:
  "\<exists>r'. rng_run [Draw, NextSubstream, Antithetic True, Draw, Advance 100 (- 7), StartStream] demo_rng = Some r' \<and> rng_ok r'"
  by (rule rng_stays_legal [OF demo_rng_ok])

section \<open>Seeds\<close>

text \<open>
  C34: A stream seeded with a number below the second modulus starts from it, and \<open>seed\<close> gives it back; a number that is
  negative or beyond the modulus ends the simulator.
\<close>

theorem set_seed_roundtrip:
  assumes "s \<noteq> 0" "- (2 ^ 63) \<le> s" "s < 2 ^ 63"
  shows "if 0 < s \<and> s < rng_m2 then \<exists>r t. set_seed_long heur s = Inr (Some (r, t)) \<and> rng_seed r = s \<and> rng_ok r \<and> seeds_ok t
    else set_seed_long heur s = Inl Aborted"
proof (cases "0 < s \<and> s < rng_m2")
  case True
  then have k: "s mod 2 ^ 64 = s" by (simp add: rng_consts)
  have ok: "check_seed ((s, s, s), (s, s, s))" "seeds_ok ((s, s, s), (s, s, s))" using True by (auto simp: seeds_ok_def legal_def rng_consts)
  obtain r where r: "rng_init ((s, s, s), (s, s, s)) = Some (r, far (2 ^ 127) ((s, s, s), (s, s, s)))" "get_state r = ((s, s, s), (s, s, s))" "rng_ok r"
    using rng_init_eq [OF ok(2)] by metis
  have "set_seed_long heur s = Inr (Some (r, far (2 ^ 127) ((s, s, s), (s, s, s))))"
    unfolding set_seed_long_def if_not_P [OF assms(1)] Let_def k set_package_seed_def if_P [OF ok(1)] r(1) [symmetric] by (simp only: sum.case)
  moreover have "rng_seed r = s" by (simp add: rng_seed_def r(2))
  ultimately show ?thesis using True r(3) far_ok [OF ok(2)] by (simp only: simp_thms if_True) blast
next
  case False
  have "rng_m2 \<le> s mod 2 ^ 64"
  proof (cases "s < 0")
    case True
    then have "s mod 2 ^ 64 = s + 2 ^ 64" using assms(2) by (subst mod_add_self2 [symmetric], subst mod_pos_pos_trivial) auto
    then show ?thesis using assms(2) by (simp add: rng_consts)
  next
    case nn: False
    then have "s mod 2 ^ 64 = s" using assms(3) by simp
    then show ?thesis using False nn assms(1) by simp
  qed
  then have "set_seed_long heur s = Inl Aborted" using assms(1) by (simp add: set_seed_long_def Let_def set_package_seed_def)
  then show ?thesis using False by auto
qed

theorem set_seed_roundtrip_witness:
  "if (0::int) < 12345 \<and> 12345 < rng_m2 then \<exists>r t. set_seed_long (Inl Exited) 12345 = Inr (Some (r, t)) \<and> rng_seed r = 12345 \<and> rng_ok r \<and> seeds_ok t
    else set_seed_long (Inl Exited) 12345 = Inl Aborted"
  by (rule set_seed_roundtrip) simp_all

text \<open>The constructor writes beyond \<open>name_\<close> when the name has more than 99 characters.\<close>

theorem rng_new_long_name: "length name > 99 \<Longrightarrow> rng_new name s = Inl OutOfBounds"
  by (simp add: rng_new_def)

section \<open>The generator before\<close>

lemma and_masks: "x AND 0xffff = x mod 2 ^ 16" "x AND 0x7fff = x mod (2 :: int) ^ 15"
  using take_bit_eq_mask [of 16 x] take_bit_eq_mask [of 15 x] by (simp_all add: take_bit_eq_mod mask_eq_exp_minus_1)

lemma multiple_of_modulus:
  assumes "0 < s" "s < 2 ^ 31 - 1"
  shows "16807 * s mod (2 ^ 31 - 1) \<noteq> (0 :: int)"
proof
  assume "16807 * s mod (2 ^ 31 - 1) = 0"
  then have "(2 ^ 31 - 1) dvd 16807 * s" by (simp add: dvd_eq_mod_eq_0)
  moreover have "coprime (2 ^ 31 - 1) (16807 :: int)" by code_simp
  ultimately have "(2 ^ 31 - 1) dvd s" by (simp add: coprime_dvd_mult_right_iff)
  then have "2 ^ 31 - 1 \<le> s" using assms(1) by (rule zdvd_imp_le)
  with assms(2) show False by simp
qed

text \<open>
  The generator that was used before multiplies its seed by 16807 modulo \<open>2 ^ 31 - 1\<close>, with
  shifts and masks in place of the division.
\<close>

theorem old_next_minimal_standard:
  assumes "0 < s" "s < 2 ^ 31 - 1"
  shows "old_next s = 16807 * s mod (2 ^ 31 - 1) \<and> 0 < old_next s"
proof -
  define lo where "lo = s mod 2 ^ 16"
  define hi where "hi = s div 2 ^ 16"
  define h0 where "h0 = 16807 * hi mod 2 ^ 15"
  define h1 where "h1 = 16807 * hi div 2 ^ 15"
  define x where "x = h0 * 65536 + 16807 * lo + h1"
  have s: "s = hi * 65536 + lo" by (simp add: hi_def lo_def)
  have hi: "0 \<le> hi" "hi \<le> 32767" using assms by (auto simp: hi_def)
  then have "0 \<le> h1" "h1 \<le> 16806" by (auto simp: h1_def)
  with hi have b: "0 \<le> lo" "lo \<le> 65535" "0 \<le> hi" "hi \<le> 32767" "0 \<le> h0" "h0 \<le> 32767" "0 \<le> h1" "h1 \<le> 16806"
    by (auto simp: lo_def h0_def)
  have h: "16807 * hi = h1 * 32768 + h0" by (simp add: h0_def h1_def)
  have "16807 * s = x + h1 * (2 ^ 31 - 1)" unfolding s x_def using h by (simp add: algebra_simps)
  then have m: "16807 * s mod (2 ^ 31 - 1) = x mod (2 ^ 31 - 1)" by simp
  have x: "0 \<le> x" "x < 2 * (2 ^ 31 - 1)" using b by (simp_all add: x_def)
  have nz: "x mod (2 ^ 31 - 1) \<noteq> 0" using multiple_of_modulus [OF assms] m by simp
  have st: "old_next s = (if x - (2 ^ 31 - 1) \<le> 0 then x - (2 ^ 31 - 1) + (2 ^ 31 - 1) else x - (2 ^ 31 - 1))"
    unfolding old_next_def Let_def and_masks drop_bit_eq_div push_bit_eq_mult lo_def [symmetric] hi_def [symmetric] h0_def [symmetric] h1_def [symmetric]
    by (simp add: x_def)
  show ?thesis
  proof (cases "x \<le> 2 ^ 31 - 1")
    case True
    then have "x \<noteq> 2 ^ 31 - 1" "x \<noteq> 0" using nz by auto
    then show ?thesis using True x(1) st m by simp
  next
    case False
    have "(x - (2 ^ 31 - 1)) mod (2 ^ 31 - 1) = x - (2 ^ 31 - 1)" by (rule mod_pos_pos_trivial) (use False x(2) in simp_all)
    then have "x mod (2 ^ 31 - 1) = x - (2 ^ 31 - 1)" by (simp only: minus_mod_self2)
    then show ?thesis using False st m by simp
  qed
qed

theorem old_next_minimal_standard_witness:
  "old_next 1973272912 = 16807 * 1973272912 mod (2 ^ 31 - 1) \<and> 0 < old_next 1973272912"
  by (rule old_next_minimal_standard) simp_all

text \<open>The first numbers in the comment of the code.\<close>

lemma old_next_first: "old_next 1 = 16807" "old_next 16807 = 282475249" "old_next 282475249 = 1622650073"
    "old_next 1973272912 = 1207871363"
  by code_simp+

end
