(* ===== verification/DsPolicy.thy ===== *)
theory DsPolicy
  imports NsPrelude
begin

text \<open>
  The policies of differentiated services, \<open>diffserv/dsPolicy.cc\<close>: the meters and policers, and the
  classifier that finds the policy of a packet and marks it. The EW and DEWP policies have files of their own and are left out.
\<close>

section \<open>Tables\<close>

datatype policy_kind = NullPolicy | TSW2CM | TSW3CM | TB | SRTCM | TRTCM | SFD

text \<open>\<open>policyTableEntry\<close>: the kind stands for \<open>policy_index\<close>, \<open>policer\<close> and \<open>meter\<close>, which are set together.\<close>

record policyEntry =
  sourceNode :: int
  destNode :: int
  policy_index :: policy_kind
  codePt :: int
  cir :: real
  cbs :: real
  cBucket :: real
  ebs :: real
  eBucket :: real
  pir :: real
  pbs :: real
  pBucket :: real
  arrivalTime :: real
  avgRate :: real
  winLen :: real

record policerEntry =
  pc_index :: policy_kind
  initialCodePt :: int
  downgrade1 :: int
  downgrade2 :: int

record flow_entry =
  fl_fid :: int
  fl_src :: int
  fl_dst :: int
  last_update :: real
  bytes_sent :: "32 word"
  fl_count :: int

record ds_pkt =
  ds_saddr :: int
  ds_daddr :: int
  ds_fid :: int
  ds_size :: int

text \<open>What a policer returns: the code point at first, or one of those it is downgraded to.\<close>

datatype colour = Initial | Down1 | Down2

definition code_point :: "policerEntry \<Rightarrow> colour \<Rightarrow> int" where
  "code_point p c = (case c of Initial \<Rightarrow> initialCodePt p | Down1 \<Rightarrow> downgrade1 p | Down2 \<Rightarrow> downgrade2 p)"

section \<open>Meters and policers\<close>

text \<open>\<open>now\<close> is the clock; a number drawn by \<open>Random::uniform\<close> is the argument \<open>u\<close>.\<close>

definition null_meter :: "real \<Rightarrow> policyEntry \<Rightarrow> policyEntry" where
  "null_meter now e = e\<lparr>arrivalTime := now\<rparr>"

definition tsw_meter :: "real \<Rightarrow> real \<Rightarrow> policyEntry \<Rightarrow> policyEntry" where
  "tsw_meter now sz e =
     (let bytesInTSW = avgRate e * winLen e; newBytes = bytesInTSW + sz
      in e\<lparr>avgRate := newBytes / (now - arrivalTime e + winLen e), arrivalTime := now\<rparr>)"

definition tsw2cm_policer :: "real \<Rightarrow> policyEntry \<Rightarrow> colour" where
  "tsw2cm_policer u e = (if avgRate e > cir e \<and> u \<le> 1 - cir e / avgRate e then Down1 else Initial)"

definition tsw3cm_policer :: "real \<Rightarrow> policyEntry \<Rightarrow> colour" where
  "tsw3cm_policer u e = (let rand = avgRate e * (1 - u) in if rand > pir e then Down2 else if rand > cir e then Down1 else Initial)"

definition tb_meter :: "real \<Rightarrow> policyEntry \<Rightarrow> policyEntry" where
  "tb_meter now e =
     (let tokenBytes = cir e * (now - arrivalTime e)
      in e\<lparr>cBucket := (if cBucket e + tokenBytes \<le> cbs e then cBucket e + tokenBytes else cbs e), arrivalTime := now\<rparr>)"

definition tb_policer :: "real \<Rightarrow> policyEntry \<Rightarrow> colour \<times> policyEntry" where
  "tb_policer sz e = (if cBucket e - sz \<ge> 0 then (Initial, e\<lparr>cBucket := cBucket e - sz\<rparr>) else (Down1, e))"

definition srtcm_meter :: "real \<Rightarrow> policyEntry \<Rightarrow> policyEntry" where
  "srtcm_meter now e =
     (let tokenBytes = cir e * (now - arrivalTime e)
      in if cBucket e + tokenBytes \<le> cbs e then e\<lparr>cBucket := cBucket e + tokenBytes, arrivalTime := now\<rparr>
         else let rest = tokenBytes - (cbs e - cBucket e)
              in e\<lparr>cBucket := cbs e, eBucket := (if eBucket e + rest \<le> ebs e then eBucket e + rest else ebs e), arrivalTime := now\<rparr>)"

definition srtcm_policer :: "real \<Rightarrow> policyEntry \<Rightarrow> colour \<times> policyEntry" where
  "srtcm_policer sz e =
     (if cBucket e - sz \<ge> 0 then (Initial, e\<lparr>cBucket := cBucket e - sz\<rparr>)
      else if eBucket e - sz \<ge> 0 then (Down1, e\<lparr>eBucket := eBucket e - sz\<rparr>)
      else (Down2, e))"

definition trtcm_meter :: "real \<Rightarrow> policyEntry \<Rightarrow> policyEntry" where
  "trtcm_meter now e =
     (let tokenBytes = cir e * (now - arrivalTime e);
          e1 = e\<lparr>cBucket := (if cBucket e + tokenBytes \<le> cbs e then cBucket e + tokenBytes else cbs e)\<rparr>;
          tokenBytes = pir e1 * (now - arrivalTime e1)
      in e1\<lparr>pBucket := (if pBucket e1 + tokenBytes \<le> pbs e1 then pBucket e1 + tokenBytes else pbs e1), arrivalTime := now\<rparr>)"

definition trtcm_policer :: "real \<Rightarrow> policyEntry \<Rightarrow> colour \<times> policyEntry" where
  "trtcm_policer sz e =
     (if pBucket e - sz < 0 then (Down2, e)
      else if cBucket e - sz < 0 then (Down1, e\<lparr>pBucket := pBucket e - sz\<rparr>)
      else (Initial, e\<lparr>cBucket := cBucket e - sz, pBucket := pBucket e - sz\<rparr>))"

text \<open>
  SFD counts the bytes of each flow. The loop looks for the flow and takes out the flows that have timed out on its way;
  the pair says whether it found it.
\<close>

definition FLOW_TIME_OUT :: real where
  "FLOW_TIME_OUT = 5"

fun sfd_scan :: "real \<Rightarrow> int \<Rightarrow> int \<Rightarrow> flow_entry list \<Rightarrow> bool \<times> flow_entry list" where
  "sfd_scan now fid sz [] = (False, [])"
| "sfd_scan now fid sz (p # ps) =
     (if fl_fid p = fid then (True, p\<lparr>last_update := now, bytes_sent := bytes_sent p + of_int sz\<rparr> # ps)
      else if last_update p + FLOW_TIME_OUT < now then sfd_scan now fid sz ps
      else let (found, qs) = sfd_scan now fid sz ps in (found, p # qs))"

definition sfd_meter :: "real \<Rightarrow> ds_pkt \<Rightarrow> flow_entry list \<Rightarrow> flow_entry list" where
  "sfd_meter now p fs =
     (let (found, qs) = sfd_scan now (ds_fid p) (ds_size p) fs
      in if found then qs
         else qs @ [\<lparr>fl_fid = ds_fid p, fl_src = ds_saddr p, fl_dst = ds_daddr p, last_update = now, bytes_sent = of_int (ds_size p), fl_count = 0\<rparr>])"

fun sfd_policer :: "real \<Rightarrow> real \<Rightarrow> int \<Rightarrow> int \<Rightarrow> flow_entry list \<Rightarrow> colour \<times> flow_entry list" where
  "sfd_policer u limit mode fid [] = (Initial, [])"
| "sfd_policer u limit mode fid (p # ps) =
     (if fl_fid p = fid then
        if of_int (sint (bytes_sent p)) > limit then
          if mode = 0 then (Down1, p # ps)
          else if mode = 1 then (if u > 1 - limit / of_int (sint (bytes_sent p)) then (Initial, p # ps) else (Down1, p # ps))
          else if fl_count p = 5 then (Initial, p\<lparr>fl_count := 0\<rparr> # ps)
          else (Down1, p\<lparr>fl_count := fl_count p + 1\<rparr> # ps)
        else (Initial, p # ps)
      else let (c, qs) = sfd_policer u limit mode fid ps in (c, p # qs))"

text \<open>\<open>applyMeter\<close> and \<open>applyPolicer\<close> of the policy of an entry.\<close>

fun apply_policy :: "policy_kind \<Rightarrow> real \<Rightarrow> real \<Rightarrow> ds_pkt \<Rightarrow> int \<Rightarrow> policyEntry \<Rightarrow> flow_entry list \<Rightarrow> colour \<times> policyEntry \<times> flow_entry list" where
  "apply_policy NullPolicy now u p mode e fs = (Initial, null_meter now e, fs)"
| "apply_policy TSW2CM now u p mode e fs = (let e1 = tsw_meter now (of_int (ds_size p)) e in (tsw2cm_policer u e1, e1, fs))"
| "apply_policy TSW3CM now u p mode e fs = (let e1 = tsw_meter now (of_int (ds_size p)) e in (tsw3cm_policer u e1, e1, fs))"
| "apply_policy TB now u p mode e fs = (let (c, e1) = tb_policer (of_int (ds_size p)) (tb_meter now e) in (c, e1, fs))"
| "apply_policy SRTCM now u p mode e fs = (let (c, e1) = srtcm_policer (of_int (ds_size p)) (srtcm_meter now e) in (c, e1, fs))"
| "apply_policy TRTCM now u p mode e fs = (let (c, e1) = trtcm_policer (of_int (ds_size p)) (trtcm_meter now e) in (c, e1, fs))"
| "apply_policy SFD now u p mode e fs = (let (c, fs1) = sfd_policer u (cir e) mode (ds_fid p) (sfd_meter now p fs) in (c, e, fs1))"

section \<open>The classifier\<close>

text \<open>
  \<open>policyTable\<close> and \<open>policerTable\<close> are arrays; the cells from the size on hold what happens to be there. \<open>pool\<close> tells
  which policy objects exist, \<open>flows\<close> is the table of the SFD policy.
\<close>

definition MAX_POLICIES :: nat where "MAX_POLICIES = 20"
definition MAX_CP :: nat where "MAX_CP = 40"
definition ANY_HOST :: int where "ANY_HOST = - 1"

record classifier =
  policyTable :: "policyEntry list"
  policyTableSize :: nat
  policerTable :: "policerEntry list"
  policerTableSize :: nat
  pool :: "policy_kind set"
  flows :: "flow_entry list"

definition entry_matches :: "int \<Rightarrow> int \<Rightarrow> policyEntry \<Rightarrow> bool" where
  "entry_matches src dst e \<longleftrightarrow> (sourceNode e = src \<or> sourceNode e = ANY_HOST) \<and> (destNode e = dst \<or> destNode e = ANY_HOST)"

text \<open>The loop runs while \<open>i \<le> policyTableSize\<close>, one cell too far.\<close>

fun find_policy :: "int \<Rightarrow> int \<Rightarrow> nat \<Rightarrow> nat \<Rightarrow> policyEntry list \<Rightarrow> nat option res" where
  "find_policy src dst i 0 es = Inr None"
| "find_policy src dst i (Suc k) es =
     (case es of [] \<Rightarrow> Inl OutOfBounds
      | e # es1 \<Rightarrow> if entry_matches src dst e then Inr (Some i) else find_policy src dst (Suc i) k es1)"

definition getPolicyTableEntry :: "int \<Rightarrow> int \<Rightarrow> classifier \<Rightarrow> nat option res" where
  "getPolicyTableEntry src dst C = find_policy src dst 0 (policyTableSize C + 1) (policyTable C)"

definition getPolicerTableEntry :: "policy_kind \<Rightarrow> int \<Rightarrow> classifier \<Rightarrow> policerEntry option" where
  "getPolicerTableEntry k cp C = find (\<lambda>p. pc_index p = k \<and> initialCodePt p = cp) (take (policerTableSize C) (policerTable C))"

text \<open>\<open>mark\<close>: the index of the entry found, the colour given and the code point, with the classifier after it.\<close>

definition mark :: "real \<Rightarrow> real \<Rightarrow> ds_pkt \<Rightarrow> classifier \<Rightarrow> ((nat \<times> colour \<times> int) \<times> classifier) res" where
  "mark now u p C =
     bindR (getPolicyTableEntry (ds_saddr p) (ds_daddr p) C) (\<lambda>found.
       case found of None \<Rightarrow> Inl Exited
       | Some i \<Rightarrow>
           let e = policyTable C ! i
           in if policy_index e \<in> pool C then
                (case getPolicerTableEntry (policy_index e) (codePt e) C of None \<Rightarrow> Inl NullDeref
                 | Some pc \<Rightarrow>
                     let (c, e1, fs) = apply_policy (policy_index e) now u p (downgrade2 pc) e (flows C)
                     in Inr ((i, c, code_point pc c), C\<lparr>policyTable := (policyTable C)[i := e1], flows := fs\<rparr>))
              else Inr ((i, Initial, codePt e), C))"

text \<open>
  \<open>addPolicyEntry\<close> with the numbers after the code point; a missing one is a null pointer for \<open>atof\<close>. A full
  table is reported and left as it is.
\<close>

definition arg :: "real list \<Rightarrow> nat \<Rightarrow> real res" where
  "arg as i = (if i < length as then Inr (as ! i) else Inl NullDeref)"

definition policy_args :: "policy_kind \<Rightarrow> real list \<Rightarrow> policyEntry \<Rightarrow> policyEntry res" where
  "policy_args k as e = (case k of
     NullPolicy \<Rightarrow> Inr e
   | TSW2CM \<Rightarrow> bindR (arg as 0) (\<lambda>r. let e1 = e\<lparr>cir := r / 8, avgRate := r / 8\<rparr> in Inr (if length as = 2 then e1\<lparr>winLen := as ! 1\<rparr> else e1))
   | TSW3CM \<Rightarrow> bindR (arg as 0) (\<lambda>r. bindR (arg as 1) (\<lambda>s. Inr (e\<lparr>cir := r / 8, avgRate := r / 8, pir := s / 8\<rparr>)))
   | TB \<Rightarrow> bindR (arg as 0) (\<lambda>r. bindR (arg as 1) (\<lambda>b. Inr (e\<lparr>cir := r / 8, avgRate := r / 8, cbs := b, cBucket := b\<rparr>)))
   | SRTCM \<Rightarrow> bindR (arg as 0) (\<lambda>r. bindR (arg as 1) (\<lambda>b. bindR (arg as 2) (\<lambda>x.
       Inr (e\<lparr>cir := r / 8, avgRate := r / 8, cbs := b, cBucket := b, ebs := x, eBucket := x\<rparr>))))
   | TRTCM \<Rightarrow> bindR (arg as 0) (\<lambda>r. bindR (arg as 1) (\<lambda>b. bindR (arg as 2) (\<lambda>s. bindR (arg as 3) (\<lambda>x.
       Inr (e\<lparr>cir := r / 8, avgRate := r / 8, cbs := b, cBucket := b, pir := s / 8, pbs := x, pBucket := x\<rparr>)))))
   | SFD \<Rightarrow> bindR (arg as 0) (\<lambda>r. Inr (e\<lparr>cir := of_int (c_trunc r)\<rparr>)))"

definition addPolicyEntry :: "int \<Rightarrow> int \<Rightarrow> policy_kind \<Rightarrow> int \<Rightarrow> real list \<Rightarrow> classifier \<Rightarrow> classifier res" where
  "addPolicyEntry src dst k cp as C =
     (if policyTableSize C = MAX_POLICIES then Inr C
      else bindR (policy_args k as ((policyTable C ! policyTableSize C)\<lparr>sourceNode := src, destNode := dst, codePt := cp, arrivalTime := 0, winLen := 1, policy_index := k\<rparr>))
             (\<lambda>e. Inr (C\<lparr>policyTable := (policyTable C)[policyTableSize C := e], policyTableSize := policyTableSize C + 1, pool := insert k (pool C)\<rparr>)))"

text \<open>
  \<open>addPolicerEntry\<close> with the code points. A full table is reported, and the entry beyond it written all the same.
\<close>

definition addPolicerEntry :: "policy_kind \<Rightarrow> int list \<Rightarrow> classifier \<Rightarrow> classifier res" where
  "addPolicerEntry k cps C =
     (if policerTableSize C \<ge> MAX_CP then Inl OutOfBounds
      else if cps = [] \<or> k \<noteq> NullPolicy \<and> length cps < 2 then Inl NullDeref
      else let old = policerTable C ! policerTableSize C;
               p = old\<lparr>pc_index := k, initialCodePt := cps ! 0, downgrade1 := (if k = NullPolicy then cps ! 0 else cps ! 1),
                       downgrade2 := (if length cps = 3 then cps ! 2 else downgrade2 old)\<rparr>
           in Inr (C\<lparr>policerTable := (policerTable C)[policerTableSize C := p], policerTableSize := policerTableSize C + 1, pool := insert k (pool C)\<rparr>))"

definition updatePolicyRTT :: "int \<Rightarrow> int \<Rightarrow> real \<Rightarrow> classifier \<Rightarrow> classifier res" where
  "updatePolicyRTT src dst w C =
     bindR (getPolicyTableEntry src dst C) (\<lambda>found. case found of None \<Rightarrow> Inr C
       | Some i \<Rightarrow> Inr (C\<lparr>policyTable := (policyTable C)[i := (policyTable C ! i)\<lparr>winLen := w\<rparr>]\<rparr>))"

definition getCBucket :: "int \<Rightarrow> int \<Rightarrow> classifier \<Rightarrow> real res" where
  "getCBucket src dst C =
     bindR (getPolicyTableEntry src dst C) (\<lambda>found. case found of None \<Rightarrow> Inr (- 1)
       | Some i \<Rightarrow> Inr (if policy_index (policyTable C ! i) \<in> {TB, SRTCM, TRTCM} then cBucket (policyTable C ! i) else - 1))"

end
