(* ===== verification/DsMeters.thy ===== *)
theory DsMeters
  imports DsPolicy
begin

text \<open>
  Conformance of what the policies of differentiated services mark: the tokens in a bucket are a potential, which a
  marked packet uses up and the time that passes fills.
\<close>

section \<open>The interface of a token meter\<close>

text \<open>
  \<open>level\<close> is the content of the bucket, filled at \<open>rate\<close>; \<open>counts\<close> tells which colours take tokens out of it.
\<close>

locale token_meter =
  fixes kind :: policy_kind and level rate :: "policyEntry \<Rightarrow> real" and counts :: "colour \<Rightarrow> bool" and good :: "policyEntry \<Rightarrow> bool"
  assumes nonneg: "good e \<Longrightarrow> 0 \<le> level e"
    and step: "good e \<Longrightarrow> arrivalTime e \<le> now \<Longrightarrow> 0 \<le> ds_size p \<Longrightarrow> apply_policy kind now u p mode e fs = (c, e', fs') \<Longrightarrow>
      good e' \<and> rate e' = rate e \<and> arrivalTime e' = now
      \<and> level e' + (if counts c then of_int (ds_size p) else 0) \<le> level e + rate e * (now - arrivalTime e)"

section \<open>Runs of the classifier\<close>

text \<open>A packet comes with its time and the number drawn for it.\<close>

type_synonym arrival = "real \<times> real \<times> ds_pkt"

fun ds_run :: "arrival list \<Rightarrow> classifier \<Rightarrow> ((nat \<times> colour \<times> int) list \<times> classifier) res" where
  "ds_run [] C = Inr ([], C)"
| "ds_run ((now, u, p) # xs) C = bindR (mark now u p C) (\<lambda>(m, C1). bindR (ds_run xs C1) (\<lambda>(ms, C2). Inr (m # ms, C2)))"

text \<open>The bytes of the packets that entry \<open>i\<close> gave a colour that counts.\<close>

fun bytes_marked :: "(colour \<Rightarrow> bool) \<Rightarrow> nat \<Rightarrow> arrival list \<Rightarrow> (nat \<times> colour \<times> int) list \<Rightarrow> real" where
  "bytes_marked counts i ((now, u, p) # xs) ((j, c, cp) # ms) = (if j = i \<and> counts c then of_int (ds_size p) else 0) + bytes_marked counts i xs ms"
| "bytes_marked counts i _ _ = 0"

fun arrivals_ok :: "real \<Rightarrow> arrival list \<Rightarrow> bool" where
  "arrivals_ok t [] \<longleftrightarrow> True"
| "arrivals_ok t ((now, u, p) # xs) \<longleftrightarrow> t \<le> now \<and> 0 \<le> ds_size p \<and> arrivals_ok now xs"

lemma arrivals_later: "arrivals_ok t xs \<Longrightarrow> s \<le> t \<Longrightarrow> arrivals_ok s xs"
  by (cases xs) auto

lemma find_policy_range:
  "find_policy src dst i k es = Inr (Some j) \<Longrightarrow> i \<le> j \<and> j < i + length es"
  by (induction src dst i k es rule: find_policy.induct) (fastforce split: list.splits if_splits)+

lemma apply_policy_index:
  "apply_policy k now u p mode e fs = (c, e', fs') \<Longrightarrow> policy_index e' = policy_index e"
  by (cases k) (auto simp: Let_def null_meter_def tsw_meter_def tb_meter_def tb_policer_def srtcm_meter_def srtcm_policer_def trtcm_meter_def
      trtcm_policer_def split: if_splits prod.splits)

text \<open>Marking a packet changes one entry at most, by its own policy.\<close>

lemma mark_entry:
  assumes "mark now u p C = Inr ((j, c, cp), C')" "policy_index (policyTable C ! j) \<in> pool C"
  obtains mode fs e' where "j < length (policyTable C)" "apply_policy (policy_index (policyTable C ! j)) now u p mode (policyTable C ! j) (flows C) = (c, e', fs)"
    "C' = C\<lparr>policyTable := (policyTable C)[j := e'], flows := fs\<rparr>"
proof -
  from assms(1) obtain found where f: "getPolicyTableEntry (ds_saddr p) (ds_daddr p) C = Inr found"
    by (cases "getPolicyTableEntry (ds_saddr p) (ds_daddr p) C") (auto simp: mark_def)
  with assms(1) obtain i where i: "found = Some i" by (cases found) (auto simp: mark_def)
  have j: "j = i" using assms(1) f i by (auto simp: mark_def Let_def split: if_splits option.splits prod.splits)
  have len: "j < length (policyTable C)" using find_policy_range f i j unfolding getPolicyTableEntry_def by fastforce
  from assms f i j obtain pc where "getPolicerTableEntry (policy_index (policyTable C ! j)) (codePt (policyTable C ! j)) C = Some pc"
    by (auto simp: mark_def Let_def split: option.splits)
  then obtain e' fs where "apply_policy (policy_index (policyTable C ! j)) now u p (downgrade2 pc) (policyTable C ! j) (flows C) = (c, e', fs)"
    "C' = C\<lparr>policyTable := (policyTable C)[j := e'], flows := fs\<rparr>"
    using assms f i j by (auto simp: mark_def Let_def split: prod.splits)
  with len show thesis by (rule that)
qed

text \<open>Without its policy object an entry leaves the packet alone.\<close>

lemma mark_other:
  assumes "mark now u p C = Inr ((j, c, cp), C')" "policy_index (policyTable C ! j) \<notin> pool C"
  shows "C' = C"
  using assms by (auto simp: mark_def bindR_def Let_def split: sum.splits option.splits if_splits prod.splits)

lemma mark_pool: "mark now u p C = Inr (m, C') \<Longrightarrow> pool C' = pool C \<and> length (policyTable C') = length (policyTable C)"
  by (auto simp: mark_def bindR_def Let_def split: sum.splits option.splits if_splits prod.splits)

context token_meter
begin

definition potential :: "real \<Rightarrow> policyEntry \<Rightarrow> real" where
  "potential T e = level e + rate e * (T - arrivalTime e)"

lemma mark_step:
  assumes "mark now u p C = Inr ((j, c, cp), C')" "i < length (policyTable C)" "policy_index (policyTable C ! i) = kind" "kind \<in> pool C"
    "good (policyTable C ! i)" "arrivalTime (policyTable C ! i) \<le> now" "0 \<le> ds_size p"
  shows "good (policyTable C' ! i) \<and> policy_index (policyTable C' ! i) = kind \<and> arrivalTime (policyTable C' ! i) \<le> now \<and>
    potential T (policyTable C' ! i) + (if j = i \<and> counts c then of_int (ds_size p) else 0) \<le> potential T (policyTable C ! i)"
proof (cases "j = i")
  case False
  have "policyTable C' ! i = policyTable C ! i"
  proof (cases "policy_index (policyTable C ! j) \<in> pool C")
    case True
    obtain mode fs e' where "C' = C\<lparr>policyTable := (policyTable C)[j := e'], flows := fs\<rparr>" by (rule mark_entry [OF assms(1) True])
    then show ?thesis using False by simp
  next
    case F: False
    show ?thesis using mark_other [OF assms(1) F] by simp
  qed
  then show ?thesis using False assms(3,5,6) by simp
next
  case True
  have "policy_index (policyTable C ! j) \<in> pool C" using True assms(3,4) by simp
  then obtain mode fs e' where m: "apply_policy kind now u p mode (policyTable C ! i) (flows C) = (c, e', fs)"
    "C' = C\<lparr>policyTable := (policyTable C)[i := e'], flows := fs\<rparr>"
    using mark_entry [OF assms(1)] True assms(3) by metis
  from step [OF assms(5-7) m(1)] have s: "good e'" "rate e' = rate (policyTable C ! i)" "arrivalTime e' = now"
    "level e' + (if counts c then of_int (ds_size p) else 0) \<le> level (policyTable C ! i) + rate (policyTable C ! i) * (now - arrivalTime (policyTable C ! i))"
    by simp_all
  have "policyTable C' ! i = e'" using m(2) assms(2) by simp
  moreover have "policy_index e' = kind" using apply_policy_index [OF m(1)] assms(3) by simp
  ultimately show ?thesis using s True by (simp add: potential_def right_diff_distrib)
qed

lemma run_bound:
  assumes "ds_run xs C = Inr (ms, C')" "i < length (policyTable C)" "policy_index (policyTable C ! i) = kind" "kind \<in> pool C"
    "good (policyTable C ! i)" "arrivals_ok (arrivalTime (policyTable C ! i)) xs" "\<forall>(now, u, p) \<in> set xs. now \<le> T" "arrivalTime (policyTable C ! i) \<le> T" "\<And>e. good e \<Longrightarrow> 0 \<le> rate e"
  shows "bytes_marked counts i xs ms \<le> potential T (policyTable C ! i)"
  using assms(1-8)
proof (induction xs arbitrary: C ms)
  case Nil
  have "0 \<le> rate (policyTable C ! i) * (T - arrivalTime (policyTable C ! i))" using assms(9) [OF Nil.prems(5)] Nil.prems(8) by simp
  then show ?case using nonneg [OF Nil.prems(5)] Nil.prems(1) by (simp add: potential_def)
next
  case (Cons x xs)
  obtain now u p where x: "x = (now, u, p)" by (cases x)
  from Cons.prems(1) obtain m C1 ms1 where r: "mark now u p C = Inr (m, C1)" "ds_run xs C1 = Inr (ms1, C')" "ms = m # ms1"
    unfolding x by (auto simp: bindR_def split: sum.splits prod.splits)
  obtain j c cp where m: "m = (j, c, cp)" by (cases m)
  have a: "arrivalTime (policyTable C ! i) \<le> now" "0 \<le> ds_size p" "arrivals_ok now xs" "now \<le> T" using Cons.prems(6,7) by (simp_all add: x)
  from mark_step [OF r(1) [unfolded m] Cons.prems(2-5) a(1,2), of T] have s: "good (policyTable C1 ! i)" "policy_index (policyTable C1 ! i) = kind"
    "arrivalTime (policyTable C1 ! i) \<le> now"
    "potential T (policyTable C1 ! i) + (if j = i \<and> counts c then of_int (ds_size p) else 0) \<le> potential T (policyTable C ! i)" by simp_all
  have "bytes_marked counts i xs ms1 \<le> potential T (policyTable C1 ! i)"
    by (rule Cons.IH [OF r(2) _ s(2) _ s(1) arrivals_later [OF a(3) s(3)]]) (use mark_pool [OF r(1)] Cons.prems(2,4,7) s(3) a(4) in \<open>auto simp: x\<close>)
  then show ?case using s(4) by (simp add: x m r(3))
qed

end

section \<open>The meters\<close>

definition tb_good :: "policyEntry \<Rightarrow> bool" where
  "tb_good e \<longleftrightarrow> 0 \<le> cBucket e \<and> 0 \<le> cir e \<and> cBucket e \<le> cbs e"

definition srtcm_good :: "policyEntry \<Rightarrow> bool" where
  "srtcm_good e \<longleftrightarrow> 0 \<le> cBucket e \<and> cBucket e \<le> cbs e \<and> 0 \<le> eBucket e \<and> eBucket e \<le> ebs e \<and> 0 \<le> cir e"

definition trtcm_good :: "policyEntry \<Rightarrow> bool" where
  "trtcm_good e \<longleftrightarrow> 0 \<le> cBucket e \<and> cBucket e \<le> cbs e \<and> 0 \<le> pBucket e \<and> pBucket e \<le> pbs e \<and> 0 \<le> cir e \<and> 0 \<le> pir e"

lemmas meter_defs = tb_meter_def tb_policer_def srtcm_meter_def srtcm_policer_def trtcm_meter_def trtcm_policer_def

lemma earned: "(0::real) \<le> r \<Longrightarrow> a \<le> now \<Longrightarrow> 0 \<le> r * (now - a)"
  by simp

interpretation tb: token_meter TB cBucket cir "\<lambda>c. c = Initial" tb_good
proof
  fix e now u p mode fs c e' fs'
  assume g: "tb_good e" "arrivalTime e \<le> now" "0 \<le> ds_size p" "apply_policy TB now u p mode e fs = (c, e', fs')"
  have "0 \<le> cir e * (now - arrivalTime e)" using g(1,2) by (simp add: tb_good_def)
  then show "tb_good e' \<and> cir e' = cir e \<and> arrivalTime e' = now \<and>
      cBucket e' + (if c = Initial then of_int (ds_size p) else 0) \<le> cBucket e + cir e * (now - arrivalTime e)"
    using g by (auto simp: meter_defs tb_good_def Let_def split: if_splits)
qed (simp add: tb_good_def)

interpretation srtcm: token_meter SRTCM cBucket cir "\<lambda>c. c = Initial" srtcm_good
proof
  fix e now u p mode fs c e' fs'
  assume g: "srtcm_good e" "arrivalTime e \<le> now" "0 \<le> ds_size p" "apply_policy SRTCM now u p mode e fs = (c, e', fs')"
  have "0 \<le> cir e * (now - arrivalTime e)" using g(1,2) by (simp add: srtcm_good_def)
  then show "srtcm_good e' \<and> cir e' = cir e \<and> arrivalTime e' = now \<and>
      cBucket e' + (if c = Initial then of_int (ds_size p) else 0) \<le> cBucket e + cir e * (now - arrivalTime e)"
    using g by (auto simp: meter_defs srtcm_good_def Let_def split: if_splits)
qed (simp add: srtcm_good_def)

interpretation srtcm_excess: token_meter SRTCM "\<lambda>e. cBucket e + eBucket e" cir "\<lambda>c. c \<noteq> Down2" srtcm_good
proof
  fix e now u p mode fs c e' fs'
  assume g: "srtcm_good e" "arrivalTime e \<le> now" "0 \<le> ds_size p" "apply_policy SRTCM now u p mode e fs = (c, e', fs')"
  have "0 \<le> cir e * (now - arrivalTime e)" using g(1,2) by (simp add: srtcm_good_def)
  then show "srtcm_good e' \<and> cir e' = cir e \<and> arrivalTime e' = now \<and>
      cBucket e' + eBucket e' + (if c \<noteq> Down2 then of_int (ds_size p) else 0) \<le> cBucket e + eBucket e + cir e * (now - arrivalTime e)"
    using g by (auto simp: meter_defs srtcm_good_def Let_def split: if_splits)
qed (simp add: srtcm_good_def)

interpretation trtcm: token_meter TRTCM cBucket cir "\<lambda>c. c = Initial" trtcm_good
proof
  fix e now u p mode fs c e' fs'
  assume g: "trtcm_good e" "arrivalTime e \<le> now" "0 \<le> ds_size p" "apply_policy TRTCM now u p mode e fs = (c, e', fs')"
  have "0 \<le> cir e * (now - arrivalTime e)" "0 \<le> pir e * (now - arrivalTime e)" using g(1,2) by (simp_all add: trtcm_good_def)
  then show "trtcm_good e' \<and> cir e' = cir e \<and> arrivalTime e' = now \<and>
      cBucket e' + (if c = Initial then of_int (ds_size p) else 0) \<le> cBucket e + cir e * (now - arrivalTime e)"
    using g by (auto simp: meter_defs trtcm_good_def Let_def split: if_splits)
qed (simp add: trtcm_good_def)

interpretation trtcm_peak: token_meter TRTCM pBucket pir "\<lambda>c. c \<noteq> Down2" trtcm_good
proof
  fix e now u p mode fs c e' fs'
  assume g: "trtcm_good e" "arrivalTime e \<le> now" "0 \<le> ds_size p" "apply_policy TRTCM now u p mode e fs = (c, e', fs')"
  have "0 \<le> cir e * (now - arrivalTime e)" "0 \<le> pir e * (now - arrivalTime e)" using g(1,2) by (simp_all add: trtcm_good_def)
  then show "trtcm_good e' \<and> pir e' = pir e \<and> arrivalTime e' = now \<and>
      pBucket e' + (if c \<noteq> Down2 then of_int (ds_size p) else 0) \<le> pBucket e + pir e * (now - arrivalTime e)"
    using g by (auto simp: meter_defs trtcm_good_def Let_def split: if_splits)
qed (simp add: trtcm_good_def)

end
