(* ===== verification/DsProps.thy ===== *)
theory DsProps
  imports DsMeters
begin

text \<open>
  The properties of the policies of differentiated services: what a policy lets pass as conforming is bounded by its
  profile, what conforms to the profile is let pass, and a classifier without an entry for a packet looks too far.
\<close>

section \<open>A classifier to try\<close>

definition blank_policy :: policyEntry where
  "blank_policy = \<lparr>sourceNode = 0, destNode = 0, policy_index = NullPolicy, codePt = 0, cir = 0, cbs = 0, cBucket = 0, ebs = 0, eBucket = 0,
     pir = 0, pbs = 0, pBucket = 0, arrivalTime = 0, avgRate = 0, winLen = 0\<rparr>"

definition blank_policer :: policerEntry where
  "blank_policer = \<lparr>pc_index = NullPolicy, initialCodePt = 0, downgrade1 = 0, downgrade2 = 0\<rparr>"

definition demo_classifier :: "policy_kind \<Rightarrow> real list \<Rightarrow> classifier res" where
  "demo_classifier k as =
     bindR (addPolicyEntry 1 2 k 10 as \<lparr>policyTable = replicate MAX_POLICIES blank_policy, policyTableSize = 0,
         policerTable = replicate MAX_CP blank_policer, policerTableSize = 0, pool = {}, flows = []\<rparr>)
       (addPolicerEntry k [10, 11, 12])"

definition demo_packets :: "arrival list" where
  "demo_packets = [(1, 0, \<lparr>ds_saddr = 1, ds_daddr = 2, ds_fid = 0, ds_size = 1000\<rparr>),
     (2, 0, \<lparr>ds_saddr = 1, ds_daddr = 2, ds_fid = 0, ds_size = 1000\<rparr>), (3, 0, \<lparr>ds_saddr = 1, ds_daddr = 2, ds_fid = 0, ds_size = 1000\<rparr>)]"

lemmas demo_simps = demo_classifier_def demo_packets_def blank_policy_def blank_policer_def addPolicyEntry_def policy_args_def arg_def addPolicerEntry_def
  MAX_POLICIES_def MAX_CP_def mark_def getPolicyTableEntry_def entry_matches_def getPolicerTableEntry_def code_point_def meter_defs
  numeral_eq_Suc

section \<open>What is marked conforms\<close>

text \<open>
  C24: A token bucket marks no more than its profile allows: over any run of the classifier up to a time T, with packets
  of other entries in between, the bytes that keep their code point are at most the tokens there at first and those
  earned since.
\<close>

theorem tb_conforms:
  assumes "ds_run xs C = Inr (ms, C')" "i < length (policyTable C)" "policy_index (policyTable C ! i) = TB" "TB \<in> pool C"
    "tb_good (policyTable C ! i)" "arrivals_ok (arrivalTime (policyTable C ! i)) xs" "\<forall>(now, u, p) \<in> set xs. now \<le> T"
    "arrivalTime (policyTable C ! i) \<le> T"
  shows "bytes_marked (\<lambda>c. c = Initial) i xs ms
    \<le> cBucket (policyTable C ! i) + cir (policyTable C ! i) * (T - arrivalTime (policyTable C ! i))"
  using tb.run_bound [OF assms] unfolding tb.potential_def by (simp add: tb_good_def)

text \<open>
  A two rate marker lets no burst beyond the peak profile through: the bytes marked green or yellow over a run are
  at most the peak bucket and what it has earned at the peak rate.
\<close>

theorem trtcm_conforms:
  assumes "ds_run xs C = Inr (ms, C')" "i < length (policyTable C)" "policy_index (policyTable C ! i) = TRTCM" "TRTCM \<in> pool C"
    "trtcm_good (policyTable C ! i)" "arrivals_ok (arrivalTime (policyTable C ! i)) xs" "\<forall>(now, u, p) \<in> set xs. now \<le> T"
    "arrivalTime (policyTable C ! i) \<le> T"
  shows "bytes_marked (\<lambda>c. c \<noteq> Down2) i xs ms
    \<le> pBucket (policyTable C ! i) + pir (policyTable C ! i) * (T - arrivalTime (policyTable C ! i))"
  using trtcm_peak.run_bound [OF assms] unfolding trtcm_peak.potential_def by (simp add: trtcm_good_def)

text \<open>What the two theorems ask of a run.\<close>

definition metered :: "policy_kind \<Rightarrow> (policyEntry \<Rightarrow> bool) \<Rightarrow> nat \<Rightarrow> arrival list \<Rightarrow> real \<Rightarrow> classifier \<Rightarrow> bool" where
  "metered k good i xs T C \<longleftrightarrow> i < length (policyTable C) \<and> policy_index (policyTable C ! i) = k \<and> k \<in> pool C \<and> good (policyTable C ! i)
     \<and> arrivals_ok (arrivalTime (policyTable C ! i)) xs \<and> (\<forall>(now, u, p) \<in> set xs. now \<le> T) \<and> arrivalTime (policyTable C ! i) \<le> T"

lemma demo_tb: "\<exists>C C'. demo_classifier TB [4000, 1500] = Inr C \<and> metered TB tb_good 0 demo_packets 3 C
    \<and> ds_run demo_packets C = Inr ([(0, Initial, 10), (0, Initial, 10), (0, Down1, 11)], C')"
  by (simp add: demo_simps metered_def tb_good_def)

lemma demo_trtcm: "\<exists>C C'. demo_classifier TRTCM [4000, 1500, 8000, 1500] = Inr C \<and> metered TRTCM trtcm_good 0 demo_packets 3 C
    \<and> ds_run demo_packets C = Inr ([(0, Initial, 10), (0, Initial, 10), (0, Down1, 11)], C')"
  by (simp add: demo_simps metered_def trtcm_good_def)

theorem tb_conforms_witness:
  "\<exists>C ms C'. demo_classifier TB [4000, 1500] = Inr C \<and> ds_run demo_packets C = Inr (ms, C') \<and> length ms = 3
     \<and> bytes_marked (\<lambda>c. c = Initial) 0 demo_packets ms \<le> cBucket (policyTable C ! 0) + cir (policyTable C ! 0) * (3 - arrivalTime (policyTable C ! 0))"
proof -
  from demo_tb obtain C C' where d: "demo_classifier TB [4000, 1500] = Inr C" "metered TB tb_good 0 demo_packets 3 C"
    "ds_run demo_packets C = Inr ([(0, Initial, 10), (0, Initial, 10), (0, Down1, 11)], C')" by blast
  from tb_conforms [OF d(3)] d(2) have "bytes_marked (\<lambda>c. c = Initial) 0 demo_packets [(0, Initial, 10), (0, Initial, 10), (0, Down1, 11)]
      \<le> cBucket (policyTable C ! 0) + cir (policyTable C ! 0) * (3 - arrivalTime (policyTable C ! 0))"
    unfolding metered_def by blast
  with d show ?thesis by force
qed

theorem trtcm_conforms_witness:
  "\<exists>C ms C'. demo_classifier TRTCM [4000, 1500, 8000, 1500] = Inr C \<and> ds_run demo_packets C = Inr (ms, C') \<and> length ms = 3
     \<and> bytes_marked (\<lambda>c. c \<noteq> Down2) 0 demo_packets ms \<le> pBucket (policyTable C ! 0) + pir (policyTable C ! 0) * (3 - arrivalTime (policyTable C ! 0))"
proof -
  from demo_trtcm obtain C C' where d: "demo_classifier TRTCM [4000, 1500, 8000, 1500] = Inr C" "metered TRTCM trtcm_good 0 demo_packets 3 C"
    "ds_run demo_packets C = Inr ([(0, Initial, 10), (0, Initial, 10), (0, Down1, 11)], C')" by blast
  from trtcm_conforms [OF d(3)] d(2) have "bytes_marked (\<lambda>c. c \<noteq> Down2) 0 demo_packets [(0, Initial, 10), (0, Initial, 10), (0, Down1, 11)]
      \<le> pBucket (policyTable C ! 0) + pir (policyTable C ! 0) * (3 - arrivalTime (policyTable C ! 0))"
    unfolding metered_def by blast
  with d show ?thesis by force
qed

section \<open>What conforms is not marked down\<close>

text \<open>
  A sequence of packets conforms to burst b and rate r when every window of it holds at most b bytes and those that its
  length in time allows.
\<close>

fun window_ok :: "real \<Rightarrow> real \<Rightarrow> real \<Rightarrow> real \<Rightarrow> (real \<times> real) list \<Rightarrow> bool" where
  "window_ok b r t0 acc [] \<longleftrightarrow> True"
| "window_ok b r t0 acc ((t, s) # zs) \<longleftrightarrow> acc + s \<le> b + r * (t - t0) \<and> window_ok b r t0 (acc + s) zs"

fun conforming :: "real \<Rightarrow> real \<Rightarrow> (real \<times> real) list \<Rightarrow> bool" where
  "conforming b r [] \<longleftrightarrow> True"
| "conforming b r ((t, s) # zs) \<longleftrightarrow> window_ok b r t 0 ((t, s) # zs) \<and> conforming b r zs"

text \<open>The packets of entry \<open>i\<close>, with time and size.\<close>

fun packets_of :: "nat \<Rightarrow> arrival list \<Rightarrow> (nat \<times> colour \<times> int) list \<Rightarrow> (real \<times> real) list" where
  "packets_of i ((now, u, p) # xs) ((j, c, cp) # ms) = (if j = i then [(now, of_int (ds_size p))] else []) @ packets_of i xs ms"
| "packets_of i _ _ = []"

lemma window_append:
  "window_ok b r t0 acc (ys @ [(t, s)]) \<Longrightarrow> acc + sum_list (map snd ys) + s \<le> b + r * (t - t0)"
  by (induction b r t0 acc ys rule: window_ok.induct) auto

lemma window_prefix: "window_ok b r t0 acc (ys @ zs) \<Longrightarrow> window_ok b r t0 acc ys"
  by (induction b r t0 acc ys rule: window_ok.induct) auto

lemma conforming_suffix: "conforming b r (us @ vs) \<Longrightarrow> conforming b r vs"
  by (induction us) auto

lemma conforming_prefix: "conforming b r (us @ vs) \<Longrightarrow> conforming b r us"
  by (induction us) (auto simp: window_prefix)

text \<open>The bucket has been full when some window began, and holds what the window has left of it.\<close>

definition since_full :: "(real \<times> real) list \<Rightarrow> policyEntry \<Rightarrow> real" where
  "since_full vs e = (case vs of [] \<Rightarrow> 0 | (t0, s0) # _ \<Rightarrow> cir e * (arrivalTime e - t0) - sum_list (map snd vs))"

definition filled :: "(real \<times> real) list \<Rightarrow> policyEntry \<Rightarrow> bool" where
  "filled zs e \<longleftrightarrow> (\<exists>us vs. zs = us @ vs \<and> cBucket e = cbs e + since_full vs e)"

lemma tb_keeps_filled:
  assumes "filled zs e" "conforming (cbs e) (cir e) (zs @ [(now, sz)])" "arrivalTime e \<le> now" "0 \<le> cir e" "tb_policer sz (tb_meter now e) = (c, e')"
  shows "c = Initial \<and> filled (zs @ [(now, sz)]) e'"
proof -
  from assms(1) obtain us vs where z: "zs = us @ vs" "cBucket e = cbs e + since_full vs e" unfolding filled_def by blast
  have pos: "0 \<le> cir e * (now - arrivalTime e)" using assms(3,4) by simp
  have one: "sz \<le> cbs e" using conforming_suffix [OF assms(2)] by simp
  have "\<exists>us vs. zs = us @ vs \<and> cBucket (tb_meter now e) = cbs e + since_full vs (tb_meter now e)"
  proof (cases "cBucket e + cir e * (now - arrivalTime e) \<le> cbs e \<and> vs \<noteq> []")
    case True
    then obtain t0 s0 ws where "vs = (t0, s0) # ws" by (cases vs) auto
    then have "cBucket (tb_meter now e) = cbs e + since_full vs (tb_meter now e)"
      using z(2) True by (simp add: tb_meter_def since_full_def algebra_simps)
    with z(1) show ?thesis by blast
  next
    case False
    then have "cBucket (tb_meter now e) = cbs e" using z(2) pos by (auto simp: tb_meter_def since_full_def)
    then show ?thesis by (intro exI [of _ zs] exI [of _ "[]"]) (simp add: since_full_def)
  qed
  then obtain us vs where m: "zs = us @ vs" "cBucket (tb_meter now e) = cbs e + since_full vs (tb_meter now e)" by blast
  define e1 where "e1 = tb_meter now e"
  have e1: "cir e1 = cir e" "cbs e1 = cbs e" "arrivalTime e1 = now" by (simp_all add: e1_def tb_meter_def Let_def)
  have left: "cBucket e1 - sz = cbs e1 + since_full (vs @ [(now, sz)]) e1"
    using m(2) e1 by (cases vs) (auto simp: since_full_def e1_def [symmetric])
  have "conforming (cbs e) (cir e) (vs @ [(now, sz)])" using assms(2) m(1) conforming_suffix by fastforce
  then have "0 \<le> cBucket e1 - sz"
  proof (cases vs)
    case Nil
    then show ?thesis using m(2) one by (simp add: since_full_def e1_def)
  next
    case (Cons v ws)
    obtain t0 s0 where v: "v = (t0, s0)" by (cases v)
    from \<open>conforming (cbs e) (cir e) (vs @ [(now, sz)])\<close> have "window_ok (cbs e) (cir e) t0 0 (vs @ [(now, sz)])"
      by (simp add: Cons v)
    from window_append [OF this] show ?thesis using left e1 by (simp add: Cons v since_full_def)
  qed
  then have c: "c = Initial" "e' = e1\<lparr>cBucket := cBucket e1 - sz\<rparr>" using assms(5) unfolding tb_policer_def e1_def [symmetric] by auto
  have "since_full ws e' = since_full ws e1" "cbs e' = cbs e1" "cBucket e' = cBucket e1 - sz" for ws by (auto simp: since_full_def c(2) split: list.split)
  then have "zs @ [(now, sz)] = us @ (vs @ [(now, sz)]) \<and> cBucket e' = cbs e' + since_full (vs @ [(now, sz)]) e'" using left m(1) by simp
  then show ?thesis using c(1) unfolding filled_def by blast
qed

text \<open>The rates of an entry stay what they are.\<close>

lemma tb_keeps_profile: "tb_policer sz (tb_meter now e) = (c, e') \<Longrightarrow> cir e' = cir e \<and> cbs e' = cbs e \<and> arrivalTime e' = now \<and> policy_index e' = policy_index e"
  by (auto simp: tb_policer_def tb_meter_def Let_def split: if_splits)

lemma run_keeps_filled:
  assumes "ds_run xs C = Inr (ms, C')" "i < length (policyTable C)" "policy_index (policyTable C ! i) = TB" "TB \<in> pool C" "0 \<le> cir (policyTable C ! i)"
    "arrivals_ok (arrivalTime (policyTable C ! i)) xs" "filled zs (policyTable C ! i)"
    "conforming (cbs (policyTable C ! i)) (cir (policyTable C ! i)) (zs @ packets_of i xs ms)" "(i, c, cp) \<in> set ms"
  shows "c = Initial"
  using assms
proof (induction xs arbitrary: C ms zs)
  case (Cons x xs)
  let ?e = "policyTable C ! i"
  obtain now u p where x: "x = (now, u, p)" by (cases x)
  from Cons.prems(1) obtain m C1 ms1 where r: "mark now u p C = Inr (m, C1)" "ds_run xs C1 = Inr (ms1, C')" "ms = m # ms1"
    unfolding x by (auto simp: bindR_def split: sum.splits prod.splits)
  obtain j d dp where m: "m = (j, d, dp)" by (cases m)
  have a: "arrivalTime ?e \<le> now" "0 \<le> ds_size p" "arrivals_ok now xs" using Cons.prems(6) by (simp_all add: x)
  have keep: "pool C1 = pool C" "i < length (policyTable C1)" using mark_pool [OF r(1)] Cons.prems(2) by simp_all
  show ?case
  proof (cases "j = i")
    case False
    have "policyTable C1 ! i = ?e"
    proof (cases "policy_index (policyTable C ! j) \<in> pool C")
      case True
      show ?thesis by (rule mark_entry [OF r(1) [unfolded m] True]) (use False in simp)
    next
      case F: False
      show ?thesis using mark_other [OF r(1) [unfolded m] F] by simp
    qed
    then show ?thesis
      by (intro Cons.IH [OF r(2) keep(2)]) (use Cons.prems arrivals_later [OF a(3,1)] False keep(1) in \<open>auto simp: x m r(3)\<close>)
  next
    case True
    have "policy_index (policyTable C ! j) \<in> pool C" using True Cons.prems(3,4) by simp
    then obtain mode fs e' where e': "apply_policy TB now u p mode ?e (flows C) = (d, e', fs)" "C1 = C\<lparr>policyTable := (policyTable C)[i := e'], flows := fs\<rparr>"
      using mark_entry [OF r(1) [unfolded m]] True Cons.prems(3) by metis
    have t: "tb_policer (of_int (ds_size p)) (tb_meter now ?e) = (d, e')" using e'(1) by (auto split: prod.splits)
    have rest: "conforming (cbs ?e) (cir ?e) ((zs @ [(now, of_int (ds_size p))]) @ packets_of i xs ms1)"
      using Cons.prems(8) True by (simp add: x m r(3))
    have f: "d = Initial" "filled (zs @ [(now, of_int (ds_size p))]) e'"
      using tb_keeps_filled [OF Cons.prems(7) conforming_prefix [OF rest] a(1) Cons.prems(5) t] by simp_all
    have e1: "policyTable C1 ! i = e'" using e'(2) Cons.prems(2) by simp
    note k = tb_keeps_profile [OF t]
    show ?thesis
    proof (cases "(i, c, cp) = m")
      case F: False
      then have "(i, c, cp) \<in> set ms1" using Cons.prems(9) r(3) by simp
      then show ?thesis
        by (intro Cons.IH [OF r(2) keep(2), of "zs @ [(now, of_int (ds_size p))]"]) (use Cons.prems(3-5) a(3) f(2) rest k keep(1) in \<open>simp_all add: e1\<close>)
    qed (use f(1) m in simp)
  qed
qed simp

text \<open>
  C23: Traffic that conforms to its profile is never marked down: when every window of the packets of an entry holds at
  most the burst size and what the rate allows for its length, a token bucket that is full at first gives each of them
  its initial code point, whatever packets of other entries come in between.
\<close>

theorem tb_conforming_untouched:
  assumes "ds_run xs C = Inr (ms, C')" "i < length (policyTable C)" "policy_index (policyTable C ! i) = TB" "TB \<in> pool C" "0 \<le> cir (policyTable C ! i)"
    "arrivals_ok (arrivalTime (policyTable C ! i)) xs" "cBucket (policyTable C ! i) = cbs (policyTable C ! i)"
    "conforming (cbs (policyTable C ! i)) (cir (policyTable C ! i)) (packets_of i xs ms)" "(i, c, cp) \<in> set ms"
  shows "c = Initial"
  by (rule run_keeps_filled [OF assms(1-6), of "[]"]) (use assms(7-9) in \<open>simp_all add: filled_def since_full_def\<close>)

definition slow_packets :: "arrival list" where
  "slow_packets = [(1, 0, \<lparr>ds_saddr = 1, ds_daddr = 2, ds_fid = 0, ds_size = 1000\<rparr>), (2, 0, \<lparr>ds_saddr = 1, ds_daddr = 2, ds_fid = 0, ds_size = 500\<rparr>),
     (4, 0, \<lparr>ds_saddr = 1, ds_daddr = 2, ds_fid = 0, ds_size = 1000\<rparr>)]"

lemma demo_slow: "\<exists>C C'. demo_classifier TB [4000, 1500] = Inr C \<and> metered TB tb_good 0 slow_packets 4 C \<and> cBucket (policyTable C ! 0) = cbs (policyTable C ! 0)
    \<and> ds_run slow_packets C = Inr ([(0, Initial, 10), (0, Initial, 10), (0, Initial, 10)], C')
    \<and> conforming (cbs (policyTable C ! 0)) (cir (policyTable C ! 0)) (packets_of 0 slow_packets [(0, Initial, 10), (0, Initial, 10), (0, Initial, 10)])"
  by (simp add: demo_simps slow_packets_def metered_def tb_good_def)

theorem tb_conforming_untouched_witness:
  "\<exists>C ms C'. demo_classifier TB [4000, 1500] = Inr C \<and> ds_run slow_packets C = Inr (ms, C') \<and> length ms = 3 \<and> (\<forall>(j, c, cp) \<in> set ms. c = Initial)"
proof -
  from demo_slow obtain C C' where d: "demo_classifier TB [4000, 1500] = Inr C" "metered TB tb_good 0 slow_packets 4 C" "cBucket (policyTable C ! 0) = cbs (policyTable C ! 0)"
    "ds_run slow_packets C = Inr ([(0, Initial, 10), (0, Initial, 10), (0, Initial, 10)], C')"
    "conforming (cbs (policyTable C ! 0)) (cir (policyTable C ! 0)) (packets_of 0 slow_packets [(0, Initial, 10), (0, Initial, 10), (0, Initial, 10)])" by blast
  have "c = Initial" if "(0, c, cp) \<in> set [(0::nat, Initial, 10::int), (0, Initial, 10), (0, Initial, 10)]" for c cp
    by (rule tb_conforming_untouched [OF d(4) _ _ _ _ _ d(3,5) that]) (use d(2) in \<open>simp_all add: metered_def tb_good_def\<close>)
  with d(1,4) show ?thesis by force
qed

section \<open>Packets without an entry\<close>

lemma find_policy_none:
  "\<forall>e \<in> set es. \<not> entry_matches src dst e \<Longrightarrow> k > length es \<Longrightarrow> find_policy src dst i k es = Inl OutOfBounds"
  by (induction src dst i k es rule: find_policy.induct) (auto split: list.splits)

text \<open>
  The search for the entry of a packet goes one cell beyond the entries there are: with a full table, a packet that
  matches none of them makes it read beyond the array.
\<close>

theorem unmatched_reads_beyond:
  assumes "policyTableSize C = length (policyTable C)" "\<forall>e \<in> set (policyTable C). \<not> entry_matches (ds_saddr p) (ds_daddr p) e"
  shows "mark now u p C = Inl OutOfBounds"
  using find_policy_none [OF assms(2), of "policyTableSize C + 1" 0] assms(1) by (simp add: mark_def getPolicyTableEntry_def)

theorem unmatched_reads_beyond_witness:
  "mark 1 0 \<lparr>ds_saddr = 3, ds_daddr = 4, ds_fid = 0, ds_size = 1000\<rparr>
     \<lparr>policyTable = replicate MAX_POLICIES (blank_policy\<lparr>sourceNode := 1, destNode := 2\<rparr>), policyTableSize = MAX_POLICIES, policerTable = [], policerTableSize = 0,
       pool = {NullPolicy}, flows = []\<rparr> = Inl OutOfBounds"
  by (rule unmatched_reads_beyond) (simp_all add: blank_policy_def entry_matches_def ANY_HOST_def)

text \<open>With room left in the table, the search reads a cell that no entry has been put in; here it passes for one.\<close>

lemma stale_entry_found:
  "mark 1 0 \<lparr>ds_saddr = 0, ds_daddr = 0, ds_fid = 0, ds_size = 1000\<rparr>
     \<lparr>policyTable = [blank_policy\<lparr>sourceNode := 1, destNode := 2\<rparr>, blank_policy], policyTableSize = 1, policerTable = [], policerTableSize = 0, pool = {}, flows = []\<rparr>
   = Inr ((1, Initial, 0), \<lparr>policyTable = [blank_policy\<lparr>sourceNode := 1, destNode := 2\<rparr>, blank_policy], policyTableSize = 1, policerTable = [], policerTableSize = 0, pool = {}, flows = []\<rparr>)"
  by (simp add: mark_def getPolicyTableEntry_def entry_matches_def ANY_HOST_def blank_policy_def)

section \<open>Short flow differentiation\<close>

text \<open>
  A flow above the threshold that is policed in turns is marked down five times and then let pass once: five of six
  packets, where the comment says four of five.
\<close>

lemma sfd_five_of_six:
  assumes "limit < of_int (sint b)" "mode \<noteq> 0" "mode \<noteq> 1"
  shows "sfd_policer u limit mode fid [p\<lparr>fl_fid := fid, bytes_sent := b, fl_count := n\<rparr>]
    = (if n = 5 then Initial else Down1, [p\<lparr>fl_fid := fid, bytes_sent := b, fl_count := (if n = 5 then 0 else n + 1)\<rparr>])"
  using assms by simp

text \<open>The bytes of a flow are an int: beyond two gigabytes it counts as a short one again.\<close>

lemma sfd_overflow:
  assumes "fl_fid p = fid" "sint (bytes_sent p) = 2 ^ 31 - 1" "0 \<le> limit"
  shows "fst (sfd_policer u limit mode fid (snd (sfd_scan now fid 1 [p]))) = Initial"
proof -
  have "bytes_sent p = word_of_int (2 ^ 31 - 1)" unfolding assms(2) [symmetric] by simp
  then have "sint (bytes_sent p + 1) = - (2 ^ 31)" by simp
  then show ?thesis using assms(1,3) by simp
qed

end
