(* ===== verification/DsRed.thy ===== *)
theory DsRed
  imports NsQueue
begin

text \<open>
  The queues of a differentiated services router: \<open>diffserv/dsredq.cc\<close>, one physical queue with a virtual queue for each
  drop precedence and random early detection on them, and \<open>diffserv/dsred.cc\<close>, the physical queues behind a link with the
  table that sends a code point to its queue and the four ways to choose the queue to serve.
\<close>

section \<open>Packets and parameters\<close>

text \<open>What the queue looks at: the code point, set by an edge router, and the bit that says the ends react to marks.\<close>

record ds_hdr =
  prio :: int
  ect :: bool
  flowid :: int

type_synonym ds_packet = "ds_hdr packet"

definition MAX_QUEUES :: nat where "MAX_QUEUES = 8"
definition MAX_PREC :: nat where "MAX_PREC = 3"
definition PHB_SIZE :: nat where "PHB_SIZE = 40"

datatype mred = RioC | RioD | Wred | DropMode

text \<open>\<open>qParam\<close> with the fields of \<open>edp_\<close> and \<open>edv_\<close> that are used.\<close>

record qparam =
  qlen :: int
  idletime :: real
  idle :: bool
  th_min :: real
  th_max :: real
  max_p_inv :: real
  q_w :: real
  mean_pkt :: int
  ptc :: real
  v_ave :: real
  v_prob :: real
  early_count :: int

record red_queue =
  numPrec :: nat
  redlim :: int
  mredMode :: mred
  fifo_q :: "ds_hdr pkt_queue"
  qParam :: "qparam list"

datatype red_outcome = PKT_DROPPED | PKT_ENQUEUED | PKT_EDROPPED | PKT_MARKED

text \<open>A loop over the indices from \<open>a\<close> up to \<open>b\<close> that changes each cell.\<close>

definition upd_range :: "nat \<Rightarrow> nat \<Rightarrow> ('a \<Rightarrow> 'a) \<Rightarrow> 'a list \<Rightarrow> 'a list" where
  "upd_range a b f xs = map (\<lambda>i. if a \<le> i \<and> i < b then f (xs ! i) else xs ! i) [0..<length xs]"

lemma length_upd_range [simp]: "length (upd_range a b f xs) = length xs"
  by (simp add: upd_range_def)

lemma nth_upd_range [simp]: "i < length xs \<Longrightarrow> upd_range a b f xs ! i = (if a \<le> i \<and> i < b then f (xs ! i) else xs ! i)"
  by (simp add: upd_range_def)

section \<open>One physical queue\<close>

definition red_config :: "real \<Rightarrow> nat \<Rightarrow> int \<Rightarrow> int \<Rightarrow> real \<Rightarrow> real option \<Rightarrow> red_queue \<Rightarrow> red_queue" where
  "red_config now prec tmin tmax maxp qw R =
     R\<lparr>qParam := (qParam R)[prec := (qParam R ! prec)\<lparr>qlen := 0, th_min := of_int tmin, th_max := of_int tmax, max_p_inv := 1 / maxp,
         q_w := (case qw of None \<Rightarrow> 0.002 | Some w \<Rightarrow> w), v_ave := 0, idle := True, idletime := now\<rparr>]\<rparr>"

definition initREDStateVar :: "real \<Rightarrow> red_queue \<Rightarrow> red_queue" where
  "initREDStateVar now R = R\<lparr>qParam := upd_range 0 (numPrec R) (\<lambda>q. q\<lparr>idle := True, idletime := now\<rparr>) (qParam R)\<rparr>"

definition updateVREDLen :: "nat \<Rightarrow> red_queue \<Rightarrow> red_queue" where
  "updateVREDLen prec R = R\<lparr>qParam := (qParam R)[prec := (qParam R ! prec)\<lparr>qlen := qlen (qParam R ! prec) - 1\<rparr>]\<rparr>"

definition updateIdleFlag :: "nat \<Rightarrow> red_queue \<Rightarrow> red_queue" where
  "updateIdleFlag prec R = R\<lparr>qParam :=
     (case mredMode R of
        RioC \<Rightarrow> upd_range prec (numPrec R) (\<lambda>q. q\<lparr>idle := False\<rparr>) (qParam R)
      | RioD \<Rightarrow> (qParam R)[prec := (qParam R ! prec)\<lparr>idle := False\<rparr>]
      | _ \<Rightarrow> (qParam R)[0 := (qParam R ! 0)\<lparr>idle := False\<rparr>])\<rparr>"

text \<open>The inner loop of \<open>updateREDStateVar\<close>: virtual queues are idle up to the first that is not empty.\<close>

fun idle_from :: "real \<Rightarrow> nat \<Rightarrow> nat \<Rightarrow> qparam list \<Rightarrow> qparam list" where
  "idle_from now i 0 qs = qs"
| "idle_from now i (Suc k) qs =
     (if qlen (qs ! i) = 0 then idle_from now (Suc i) k (qs[i := (qs ! i)\<lparr>idle := True, idletime := now\<rparr>]) else qs)"

definition updateREDStateVar :: "real \<Rightarrow> nat \<Rightarrow> red_queue \<Rightarrow> red_queue" where
  "updateREDStateVar now prec R =
     (if qlen (qParam R ! prec) = 0 then
        case mredMode R of
          RioC \<Rightarrow> if \<forall>i \<in> set [0..<prec]. qlen (qParam R ! i) = 0 then R\<lparr>qParam := idle_from now prec (numPrec R - prec) (qParam R)\<rparr> else R
        | RioD \<Rightarrow> R\<lparr>qParam := (qParam R)[prec := (qParam R ! prec)\<lparr>idle := True, idletime := now\<rparr>]\<rparr>
        | Wred \<Rightarrow> R\<lparr>qParam := (qParam R)[0 := (qParam R ! 0)\<lparr>idle := True, idletime := now\<rparr>]\<rparr>
        | DropMode \<Rightarrow> R
      else R)"

text \<open>The average; \<open>m\<close> is how many packets could have left while the queue was idle, and one.\<close>

fun decay_loop :: "real \<Rightarrow> nat \<Rightarrow> real \<Rightarrow> real" where
  "decay_loop w 0 f = f"
| "decay_loop w (Suc k) f = decay_loop w k (f * (1 - w))"

definition calcAvg :: "nat \<Rightarrow> int \<Rightarrow> red_queue \<Rightarrow> red_queue" where
  "calcAvg prec m R =
     (let q = qParam R ! prec;
          f = decay_loop (q_w q) (nat (m - 1)) (v_ave q) * (1 - q_w q);
          f = (case mredMode R of
                 RioC \<Rightarrow> f + sum_list (map (\<lambda>i. q_w (qParam R ! i) * of_int (qlen (qParam R ! i))) [0..<Suc prec])
               | RioD \<Rightarrow> f + q_w q * of_int (qlen q)
               | _ \<Rightarrow> f + q_w q * of_int (pq_len (fifo_q R)))
      in R\<lparr>qParam := (if mredMode R = Wred then upd_range 0 (numPrec R) (\<lambda>q. q\<lparr>v_ave := f\<rparr>) (qParam R)
                       else (qParam R)[prec := q\<lparr>v_ave := f\<rparr>])\<rparr>)"

definition idle_packets :: "real \<Rightarrow> qparam \<Rightarrow> int" where
  "idle_packets now q = (if idle q then c_trunc (ptc q * (now - idletime q)) else 0)"

definition measure_at :: "real \<Rightarrow> nat \<Rightarrow> red_queue \<Rightarrow> red_queue" where
  "measure_at now i R = calcAvg i (idle_packets now (qParam R ! i) + 1) R"

definition red_measure :: "real \<Rightarrow> nat \<Rightarrow> red_queue \<Rightarrow> red_queue" where
  "red_measure now prec R =
     (case mredMode R of
        DropMode \<Rightarrow> R
      | RioC \<Rightarrow> fold (measure_at now) [prec..<numPrec R] R
      | RioD \<Rightarrow> measure_at now prec R
      | Wred \<Rightarrow> measure_at now 0 R)"

text \<open>
  The decision on a packet, with the number drawn. A division by zero gives infinity in the code, and the packet is
  dropped.
\<close>

datatype verdict = Keep | Early | Forced

definition drop_hit :: "real \<Rightarrow> real \<Rightarrow> int \<Rightarrow> bool" where
  "drop_hit u pb n = (let d = 1 - of_int n * pb in if d = 0 then 0 < pb else u \<le> pb / d)"

definition red_judge :: "real \<Rightarrow> qparam \<Rightarrow> verdict \<times> qparam" where
  "red_judge u q =
     (if v_ave q > th_min q then
        if v_ave q \<le> th_max q then
          let pb = (1 / max_p_inv q) * (v_ave q - th_min q) / (th_max q - th_min q);
              q1 = q\<lparr>early_count := early_count q + 1, v_prob := pb\<rparr>
          in if drop_hit u pb (early_count q1) then (Early, q1\<lparr>early_count := 0\<rparr>) else (Keep, q1)
        else (Forced, q\<lparr>early_count := 0\<rparr>)
      else (Keep, q\<lparr>early_count := - 1\<rparr>))"

text \<open>The packet joins the physical queue and is counted in its virtual queue.\<close>

definition red_put :: "ds_packet \<Rightarrow> nat \<Rightarrow> red_queue \<Rightarrow> red_queue" where
  "red_put p prec R = R\<lparr>fifo_q := snd (pq_enque p (fifo_q R)),
     qParam := (qParam R)[prec := (qParam R ! prec)\<lparr>qlen := qlen (qParam R ! prec) + 1\<rparr>]\<rparr>"

definition red_enque :: "real \<Rightarrow> real \<Rightarrow> ds_packet \<Rightarrow> nat \<Rightarrow> bool \<Rightarrow> red_queue \<Rightarrow> red_outcome \<times> red_queue" where
  "red_enque now u p prec ecn R =
     (if pq_len (fifo_q R) > redlim R - 1 then (PKT_DROPPED, R)
      else if mredMode R = DropMode \<and> of_int (qlen (qParam R ! prec)) \<ge> th_min (qParam R ! prec) then (PKT_DROPPED, R)
      else
        let R1 = red_measure now prec R;
            R2 = (if ecn then red_put p prec R1 else R1);
            (v, q) = red_judge u (qParam R2 ! prec);
            R3 = R2\<lparr>qParam := (qParam R2)[prec := q]\<rparr>
        in if v = Keep then (PKT_ENQUEUED, updateIdleFlag prec (if ecn then R3 else red_put p prec R3))
           else if ecn then (PKT_MARKED, updateIdleFlag prec R3)
           else (if v = Early then PKT_EDROPPED else PKT_DROPPED, R3))"

definition getWeightedLength :: "red_queue \<Rightarrow> real" where
  "getWeightedLength R =
     (if mredMode R = RioC then v_ave (qParam R ! (numPrec R - 1)) else sum_list (map v_ave (take (numPrec R) (qParam R))))"

definition getRealLength :: "red_queue \<Rightarrow> int" where
  "getRealLength R = pq_len (fifo_q R)"

definition setPTC :: "real \<Rightarrow> red_queue \<Rightarrow> red_queue" where
  "setPTC bw R = R\<lparr>qParam := upd_range 0 (numPrec R) (\<lambda>q. q\<lparr>ptc := bw / (8 * of_int (mean_pkt q))\<rparr>) (qParam R)\<rparr>"

definition setMPS :: "int \<Rightarrow> red_queue \<Rightarrow> red_queue" where
  "setMPS mps R = R\<lparr>qParam := upd_range 0 (numPrec R) (\<lambda>q. q\<lparr>mean_pkt := mps\<rparr>) (qParam R)\<rparr>"

section \<open>The router\<close>

datatype sched_mode = RR | WRR | WIRR | PRI

record ds_queue =
  redq :: "red_queue list"
  qToDq :: nat
  numQueues :: nat
  phb :: "(int \<times> nat \<times> nat) list"
  schedMode :: sched_mode
  queueWeight :: "int list"
  queueMaxRate :: "real list"
  queueAvgRate :: "real list"
  queueArrTime :: "real list"
  pktcount :: "int list"
  wirrTemp :: "int list"
  wirrqDone :: "bool list"
  queuesDone :: int
  ecn_on :: bool
  st_pkts :: int
  st_drops :: int
  st_edrops :: int
  pkts_CP :: "int list"
  drops_CP :: "int list"
  edrops_CP :: "int list"

definition queue_length :: "ds_queue \<Rightarrow> nat \<Rightarrow> int" where
  "queue_length D i = getRealLength (redq D ! i)"

text \<open>
  The constructor and \<open>reset\<close>, but for the packets that \<open>Queue::reset\<close> drops; \<open>n\<close> is the bound \<open>numQueues_\<close>. Members
  the code does not set are 0 here. The indices a script passes to the commands are not checked in the code; the model
  takes them within the arrays.
\<close>

definition red_new :: red_queue where
  "red_new = \<lparr>numPrec = MAX_PREC, redlim = 0, mredMode = RioC, fifo_q = pq_new,
     qParam = replicate MAX_PREC \<lparr>qlen = 0, idletime = 0, idle = False, th_min = 0, th_max = 0, max_p_inv = 0, q_w = 0, mean_pkt = 0, ptc = 0,
       v_ave = 0, v_prob = 0, early_count = 0\<rparr>\<rparr>"

definition ds_reset :: "int \<Rightarrow> real option \<Rightarrow> ds_queue \<Rightarrow> ds_queue" where
  "ds_reset qlimit bw D =
     D\<lparr>qToDq := 0, queueAvgRate := replicate MAX_QUEUES 0, queueArrTime := replicate MAX_QUEUES 0, pktcount := replicate MAX_QUEUES 0,
       wirrTemp := replicate MAX_QUEUES 0, wirrqDone := replicate MAX_QUEUES False, st_pkts := 0, st_drops := 0, st_edrops := 0,
       pkts_CP := replicate PHB_SIZE 0, drops_CP := replicate PHB_SIZE 0, edrops_CP := replicate PHB_SIZE 0,
       redq := map (\<lambda>R. (case bw of None \<Rightarrow> R\<lparr>redlim := qlimit\<rparr> | Some b \<Rightarrow> setPTC b (R\<lparr>redlim := qlimit\<rparr>))) (redq D)\<rparr>"

definition ds_new :: "nat \<Rightarrow> bool \<Rightarrow> int \<Rightarrow> ds_queue" where
  "ds_new n ecn qlimit = ds_reset qlimit None
     \<lparr>redq = replicate MAX_QUEUES red_new, qToDq = 0, numQueues = n, phb = [], schedMode = RR, queueWeight = replicate MAX_QUEUES 1,
      queueMaxRate = replicate MAX_QUEUES 0, queueAvgRate = [], queueArrTime = [], pktcount = [], wirrTemp = [], wirrqDone = [],
      queuesDone = int MAX_QUEUES, ecn_on = ecn, st_pkts = 0, st_drops = 0, st_edrops = 0, pkts_CP = [], drops_CP = [], edrops_CP = []\<rparr>"

definition applyTSWMeter :: "real \<Rightarrow> nat \<Rightarrow> int \<Rightarrow> ds_queue \<Rightarrow> ds_queue" where
  "applyTSWMeter now i sz D =
     (let winLen = 1; bytesInTSW = queueAvgRate D ! i * winLen; newBytes = bytesInTSW + of_int sz
      in D\<lparr>queueAvgRate := (queueAvgRate D)[i := newBytes / (now - queueArrTime D ! i + winLen)], queueArrTime := (queueArrTime D)[i := now]\<rparr>)"

text \<open>A code point that is not in the table is a failed assertion.\<close>

definition lookupPHBTable :: "int \<Rightarrow> ds_queue \<Rightarrow> (nat \<times> nat) res" where
  "lookupPHBTable cp D = (case find (\<lambda>(c, q, prec). c = cp) (phb D) of None \<Rightarrow> Inl AssertFail | Some (c, q, prec) \<Rightarrow> Inr (q, prec))"

text \<open>A full table is reported. \<open>valid_CP\<close>, which nothing reads, is written at the code point.\<close>

definition addPHBEntry :: "int \<Rightarrow> nat \<Rightarrow> nat \<Rightarrow> ds_queue \<Rightarrow> ds_queue res" where
  "addPHBEntry cp q prec D =
     (if length (phb D) = PHB_SIZE then Inr D
      else if cp < 0 \<or> cp \<ge> int PHB_SIZE then Inl OutOfBounds
      else Inr (D\<lparr>phb := phb D @ [(cp, q, prec)]\<rparr>))"

definition setNumPrec :: "nat \<Rightarrow> ds_queue \<Rightarrow> ds_queue" where
  "setNumPrec n D = (if n > MAX_PREC then D else D\<lparr>redq := map (\<lambda>R. R\<lparr>numPrec := n\<rparr>) (redq D)\<rparr>)"

definition setMREDMode :: "mred \<Rightarrow> nat option \<Rightarrow> ds_queue \<Rightarrow> ds_queue" where
  "setMREDMode m q D = (case q of
     None \<Rightarrow> D\<lparr>redq := map (\<lambda>R. R\<lparr>mredMode := m\<rparr>) (redq D)\<rparr>
   | Some i \<Rightarrow> D\<lparr>redq := (redq D)[i := (redq D ! i)\<lparr>mredMode := m\<rparr>]\<rparr>)"

definition setSchedularMode :: "sched_mode \<Rightarrow> ds_queue \<Rightarrow> ds_queue" where
  "setSchedularMode m D = D\<lparr>schedMode := m\<rparr>"

definition addQueueWeights :: "nat \<Rightarrow> int \<Rightarrow> ds_queue \<Rightarrow> ds_queue" where
  "addQueueWeights q w D = (if q < MAX_QUEUES then D\<lparr>queueWeight := (queueWeight D)[q := w]\<rparr> else D)"

definition addQueueRate :: "nat \<Rightarrow> int \<Rightarrow> ds_queue \<Rightarrow> ds_queue" where
  "addQueueRate q r D = (if q < MAX_QUEUES then D\<lparr>queueMaxRate := (queueMaxRate D)[q := of_int r / 8]\<rparr> else D)"

definition configQ :: "real \<Rightarrow> nat \<Rightarrow> nat \<Rightarrow> int \<Rightarrow> int \<Rightarrow> real \<Rightarrow> real option \<Rightarrow> ds_queue \<Rightarrow> ds_queue" where
  "configQ now q prec tmin tmax maxp qw D = D\<lparr>redq := (redq D)[q := red_config now prec tmin tmax maxp qw (redq D ! q)]\<rparr>"

section \<open>Arrival\<close>

text \<open>
  The arrays of statistics are indexed by the code point, \<open>redq_\<close> by the queue and \<open>qParam_\<close> by the precedence of the
  table, none of them checked. The outcome stands for what is done with the packet: dropped, dropped early or marked.
\<close>

definition count_outcome :: "red_outcome \<Rightarrow> int \<Rightarrow> ds_queue \<Rightarrow> ds_queue" where
  "count_outcome o' cp D =
     (case o' of
        PKT_DROPPED \<Rightarrow> D\<lparr>drops_CP := (drops_CP D)[nat cp := drops_CP D ! nat cp + 1], st_drops := st_drops D + 1\<rparr>
      | PKT_EDROPPED \<Rightarrow> D\<lparr>edrops_CP := (edrops_CP D)[nat cp := edrops_CP D ! nat cp + 1], st_edrops := st_edrops D + 1\<rparr>
      | _ \<Rightarrow> D)"

definition ds_enque :: "real \<Rightarrow> real \<Rightarrow> ds_packet \<Rightarrow> ds_queue \<Rightarrow> (red_outcome \<times> ds_queue) res" where
  "ds_enque now u p D =
     (let cp = prio (body p) in
      bindR (lookupPHBTable cp D) (\<lambda>(q, prec).
        if cp < 0 \<or> cp \<ge> int PHB_SIZE \<or> q \<ge> MAX_QUEUES \<or> prec \<ge> MAX_PREC then Inl OutOfBounds
        else
          let D1 = D\<lparr>pkts_CP := (pkts_CP D)[nat cp := pkts_CP D ! nat cp + 1], st_pkts := st_pkts D + 1\<rparr>;
              (o', R) = red_enque now u p prec (ecn_on D \<and> ect (body p)) (redq D ! q)
          in Inr (o', count_outcome o' cp (D1\<lparr>redq := (redq D)[q := R]\<rparr>))))"

section \<open>The choice of the queue to serve\<close>

text \<open>\<open>len\<close> is the length of each queue, \<open>n\<close> the number of queues; \<open>k\<close> counts the rounds left.\<close>

fun rr_loop :: "(nat \<Rightarrow> int) \<Rightarrow> nat \<Rightarrow> nat \<Rightarrow> nat \<Rightarrow> nat" where
  "rr_loop len n 0 q = q"
| "rr_loop len n (Suc k) q = (if len q = 0 then rr_loop len n k ((q + 1) mod n) else q)"

fun wrr_loop :: "(nat \<Rightarrow> int) \<Rightarrow> int list \<Rightarrow> nat \<Rightarrow> nat \<Rightarrow> nat \<Rightarrow> int list \<Rightarrow> nat \<times> int list" where
  "wrr_loop len w n 0 q ts = (q, ts)"
| "wrr_loop len w n (Suc k) q ts =
     (if len q = 0 then let ts1 = ts[q := 0]; q1 = (q + 1) mod n in wrr_loop len w n k q1 (ts1[q1 := w ! q1 - 1])
      else (q, ts))"

fun wirr_loop :: "(nat \<Rightarrow> int) \<Rightarrow> nat \<Rightarrow> nat \<Rightarrow> nat \<Rightarrow> bool list \<Rightarrow> int \<Rightarrow> nat \<times> bool list \<times> int" where
  "wirr_loop len n 0 q ds d = (q, ds, d)"
| "wirr_loop len n (Suc k) q ds d =
     (if len q = 0 \<or> ds ! q then
        let (ds1, d1) = (if \<not> ds ! q then (ds[q := True], d + 1) else (ds, d)) in wirr_loop len n k ((q + 1) mod n) ds1 d1
      else (q, ds, d))"

fun pri_scan :: "(nat \<Rightarrow> bool) \<Rightarrow> nat \<Rightarrow> nat \<Rightarrow> nat" where
  "pri_scan skip i 0 = i"
| "pri_scan skip i (Suc k) = (if skip i then pri_scan skip (Suc i) k else i)"

definition over_rate :: "ds_queue \<Rightarrow> nat \<Rightarrow> bool" where
  "over_rate D i \<longleftrightarrow> queueMaxRate D ! i \<noteq> 0 \<and> queueAvgRate D ! i > queueMaxRate D ! i"

definition selectQueueToDeque :: "ds_queue \<Rightarrow> ds_queue" where
  "selectQueueToDeque D =
     (let n = numQueues D; len = queue_length D in
      case schedMode D of
        RR \<Rightarrow> D\<lparr>qToDq := rr_loop len n n ((qToDq D + 1) mod n)\<rparr>
      | WRR \<Rightarrow>
          let (q, ts) = (if wirrTemp D ! qToDq D \<le> 0
                         then let q = (qToDq D + 1) mod n in (q, (wirrTemp D)[q := queueWeight D ! q - 1])
                         else (qToDq D, (wirrTemp D)[qToDq D := wirrTemp D ! qToDq D - 1]));
              (q, ts) = wrr_loop len (queueWeight D) n n q ts
          in D\<lparr>qToDq := q, wirrTemp := ts\<rparr>
      | WIRR \<Rightarrow>
          let (q, ds, d) = wirr_loop len n n ((qToDq D + 1) mod n) (wirrqDone D) (queuesDone D);
              (ds, d) = (if wirrTemp D ! q = 1 then (ds[q := True], d + 1) else (ds, d));
              D1 = D\<lparr>qToDq := q, wirrTemp := (wirrTemp D)[q := wirrTemp D ! q - 1], wirrqDone := ds, queuesDone := d\<rparr>
          in if d \<ge> int n then D1\<lparr>queuesDone := 0, wirrTemp := take n (queueWeight D) @ drop n (wirrTemp D1), wirrqDone := replicate n False @ drop n ds\<rparr>
             else D1
      | PRI \<Rightarrow>
          let i = pri_scan (\<lambda>i. len i = 0 \<or> over_rate D i) 0 n
          in D\<lparr>qToDq := (if i = n then rr_loop len n n 0 else i)\<rparr>)"

section \<open>Departure\<close>

definition meter_queues :: "real \<Rightarrow> nat \<Rightarrow> int \<Rightarrow> ds_queue \<Rightarrow> ds_queue" where
  "meter_queues now dq sz D =
     fold (\<lambda>i D. if queueMaxRate D ! i \<noteq> 0 then applyTSWMeter now i (if i = dq then sz else 0) D else D) [0..<numQueues D] D"

definition ds_deque :: "real \<Rightarrow> ds_queue \<Rightarrow> (ds_packet option \<times> ds_queue) res" where
  "ds_deque now D =
     (let D1 = selectQueueToDeque D; dq = qToDq D1 in
      if \<not> dq < numQueues D then Inr (None, D1)
      else
        let (r, Q) = pq_deque (fifo_q (redq D1 ! dq)) in
        case r of
          None \<Rightarrow> Inr (None, D1)
        | Some p \<Rightarrow>
            let D2 = D1\<lparr>redq := (redq D1)[dq := (redq D1 ! dq)\<lparr>fifo_q := Q\<rparr>], pktcount := (pktcount D1)[dq := pktcount D1 ! dq + 1]\<rparr>;
                D3 = (if schedMode D = PRI then meter_queues now dq (psize p) D2 else D2)
            in bindR (lookupPHBTable (prio (body p)) D3) (\<lambda>(q, prec).
                 if prec \<ge> MAX_PREC then Inl OutOfBounds
                 else Inr (Some p, D3\<lparr>redq := (redq D3)[dq := updateREDStateVar now prec (updateVREDLen prec (redq D3 ! dq))]\<rparr>)))"

end
