(* ===== verification/DsRouter.thy ===== *)
theory DsRouter
  imports DsRed
begin

text \<open>
  The invariant of a differentiated services router: each packet waits in the queue of its code point and is counted in
  the virtual queue of its precedence; what arrivals and departures do to it.
\<close>

section \<open>What an operation on a physical queue leaves alone\<close>

lemma map_update_same: "f y = f (xs ! i) \<Longrightarrow> map f (xs[i := y]) = map f xs"
  by (cases "i < length xs") (auto simp: nth_list_update intro!: nth_equalityI)

lemma map_upd_range_same: "(\<And>x. f (g x) = f x) \<Longrightarrow> map f (upd_range a b g xs) = map f xs"
  by (rule nth_equalityI) auto

text \<open>All but averages and idle times.\<close>

definition red_view :: "red_queue \<Rightarrow> ds_hdr pkt_queue \<times> int list \<times> nat \<times> int \<times> mred" where
  "red_view R = (fifo_q R, map qlen (qParam R), numPrec R, redlim R, mredMode R)"

named_theorems red_frame \<open>operations that leave the view of a queue alone\<close>

lemma view_idle_flag [red_frame]: "red_view (updateIdleFlag prec R) = red_view R"
  by (simp add: red_view_def updateIdleFlag_def map_update_same map_upd_range_same split: mred.split)

lemma idle_from_qlen: "map qlen (idle_from now i k qs) = map qlen qs"
  by (induction now i k qs rule: idle_from.induct) (simp_all add: map_update_same)

lemma view_state_var [red_frame]: "red_view (updateREDStateVar now prec R) = red_view R"
  by (simp add: red_view_def updateREDStateVar_def idle_from_qlen map_update_same split: mred.split)

lemma view_calcAvg [red_frame]: "red_view (calcAvg prec m R) = red_view R"
  by (simp add: red_view_def calcAvg_def Let_def map_update_same map_upd_range_same)

lemma view_fold: "red_view (fold (measure_at now) is R) = red_view R"
  by (induction "is" arbitrary: R) (simp_all add: measure_at_def red_frame)

lemma view_measure [red_frame]: "red_view (red_measure now prec R) = red_view R"
  by (simp add: red_measure_def view_fold measure_at_def red_frame split: mred.split)

lemma judge_qlen: "red_judge u q = (v, q') \<Longrightarrow> qlen q' = qlen q"
  by (auto simp: red_judge_def Let_def split: if_splits)

lemma view_judge: "red_judge u (qParam R ! prec) = (v, q) \<Longrightarrow> red_view (R\<lparr>qParam := (qParam R)[prec := q]\<rparr>) = red_view R"
  by (simp add: red_view_def map_update_same judge_qlen)

lemma view_put:
  assumes "red_view R = (Q, ls, n, l, m)" "prec < length (qParam R)"
  shows "red_view (red_put p prec R) = (snd (pq_enque p Q), ls[prec := ls ! prec + 1], n, l, m)"
  using assms by (auto simp: red_view_def red_put_def map_update)

lemma view_length: "red_view R = (Q, ls, r) \<Longrightarrow> length (qParam R) = length ls"
  by (auto simp: red_view_def)

definition accepted :: "red_outcome \<Rightarrow> bool" where
  "accepted o' \<longleftrightarrow> o' = PKT_ENQUEUED \<or> o' = PKT_MARKED"

text \<open>A packet is put into its queue or leaves it as it was.\<close>

lemma red_enque_view:
  assumes "red_enque now u p prec ecn R = (o', R')" "red_view R = (Q, ls, n, l, m)" "prec < length ls"
  shows "red_view R' = (if accepted o' then (snd (pq_enque p Q), ls[prec := ls ! prec + 1], n, l, m) else (Q, ls, n, l, m))
    \<and> (accepted o' \<longrightarrow> pq_len Q < l)"
proof (cases "pq_len (fifo_q R) > redlim R - 1 \<or> mredMode R = DropMode \<and> of_int (qlen (qParam R ! prec)) \<ge> th_min (qParam R ! prec)")
  case True
  then have "red_enque now u p prec ecn R = (PKT_DROPPED, R)" unfolding red_enque_def by (elim disjE) simp_all
  then have "o' = PKT_DROPPED" "R' = R" using assms(1) by simp_all
  then show ?thesis using assms(2) by (simp add: accepted_def)
next
  case False
  define R1 where "R1 = red_measure now prec R"
  have v1: "red_view R1 = (Q, ls, n, l, m)" by (simp add: R1_def red_frame assms(2))
  have lim: "pq_len Q < l" using False assms(2) by (auto simp: red_view_def)
  define R2 where "R2 = (if ecn then red_put p prec R1 else R1)"
  obtain v q where j: "red_judge u (qParam R2 ! prec) = (v, q)" by fastforce
  define R3 where "R3 = R2\<lparr>qParam := (qParam R2)[prec := q]\<rparr>"
  have len1: "prec < length (qParam R1)" using view_length [OF v1] assms(3) by simp
  have v3: "red_view R3 = red_view R2" unfolding R3_def by (rule view_judge [OF j])
  have e: "(o', R') = (if v = Keep then (PKT_ENQUEUED, updateIdleFlag prec (if ecn then R3 else red_put p prec R3))
           else if ecn then (PKT_MARKED, updateIdleFlag prec R3) else (if v = Early then PKT_EDROPPED else PKT_DROPPED, R3))"
  proof -
    have n: "\<not> pq_len (fifo_q R) > redlim R - 1" "\<not> (mredMode R = DropMode \<and> of_int (qlen (qParam R ! prec)) \<ge> th_min (qParam R ! prec))"
      using False by auto
    show ?thesis
      unfolding assms(1) [symmetric] red_enque_def if_not_P [OF n(1)] if_not_P [OF n(2)] Let_def R1_def [symmetric] R2_def [symmetric] j prod.case
        R3_def [symmetric] ..
  qed
  have put: "red_view R2 = (snd (pq_enque p Q), ls[prec := ls ! prec + 1], n, l, m)" if ecn
    using view_put [OF v1 len1] that by (simp add: R2_def)
  show ?thesis
  proof (cases ecn)
    case True
    then show ?thesis using e put v3 lim by (auto simp: accepted_def red_frame split: if_splits)
  next
    case F: False
    then have r3: "red_view R3 = (Q, ls, n, l, m)" using v3 v1 by (simp add: R2_def)
    have "prec < length (qParam R3)" using view_length [OF r3] assms(3) by simp
    from view_put [OF r3 this] show ?thesis using e r3 F lim by (auto simp: accepted_def red_frame split: if_splits)
  qed
qed

section \<open>The invariant of a physical queue\<close>

definition red_items :: "red_queue \<Rightarrow> ds_packet list" where
  "red_items R = pq_items (fifo_q R)"

definition red_ok :: "(ds_packet \<Rightarrow> nat) \<Rightarrow> red_queue \<Rightarrow> bool" where
  "red_ok pr R \<longleftrightarrow> pq_inv (fifo_q R) \<and> length (qParam R) = MAX_PREC \<and> numPrec R \<le> MAX_PREC \<and> (\<forall>p \<in> set (red_items R). pr p < MAX_PREC)
     \<and> (\<forall>i < MAX_PREC. qlen (qParam R ! i) = int (length (filter (\<lambda>p. pr p = i) (red_items R))))"

lemma red_ok_view:
  assumes "red_view R = (Q, ls, n, l, m)"
  shows "red_ok pr R \<longleftrightarrow> pq_inv Q \<and> length ls = MAX_PREC \<and> n \<le> MAX_PREC \<and> (\<forall>p \<in> set (pq_items Q). pr p < MAX_PREC)
     \<and> (\<forall>i < MAX_PREC. ls ! i = int (length (filter (\<lambda>p. pr p = i) (pq_items Q))))"
  using assms by (auto simp: red_ok_def red_view_def red_items_def)

lemma red_enque_ok:
  assumes "red_ok pr R" "red_enque now u p prec ecn R = (o', R')" "pr p = prec" "prec < MAX_PREC"
  shows "red_ok pr R' \<and> red_items R' = red_items R @ (if accepted o' then [p] else []) \<and> redlim R' = redlim R
    \<and> (accepted o' \<longrightarrow> int (length (red_items R)) < redlim R)"
proof -
  obtain Q ls n l m where v: "red_view R = (Q, ls, n, l, m)" by (cases "red_view R") auto
  note ok = assms(1) [unfolded red_ok_view [OF v]]
  have e: "red_view R' = (if accepted o' then (snd (pq_enque p Q), ls[prec := ls ! prec + 1], n, l, m) else (Q, ls, n, l, m))"
    "accepted o' \<longrightarrow> pq_len Q < l"
    using red_enque_view [OF assms(2) v] ok assms(4) by simp_all
  have r: "red_items R = pq_items Q" "redlim R = l" using v by (auto simp: red_view_def red_items_def)
  have len: "pq_len Q = int (length (pq_items Q))" using ok by (simp add: pq_inv_def)
  show ?thesis
  proof (cases "accepted o'")
    case True
    then have v': "red_view R' = (snd (pq_enque p Q), ls[prec := ls ! prec + 1], n, l, m)" using e(1) by simp
    have i: "pq_items (snd (pq_enque p Q)) = pq_items Q @ [p]" by (simp add: pq_enque_def)
    have "red_ok pr R'"
      unfolding red_ok_view [OF v'] i using ok assms(3,4) pq_inv_ops(1) [of Q p] by (auto simp: nth_list_update)
    moreover have "red_items R' = red_items R @ [p]" "redlim R' = redlim R" using v' i r by (auto simp: red_view_def red_items_def)
    ultimately show ?thesis using True e(2) r len by simp
  next
    case False
    then have v': "red_view R' = (Q, ls, n, l, m)" using e(1) by simp
    then show ?thesis using ok r False by (auto simp: red_ok_view [OF v'] red_view_def red_items_def)
  qed
qed

lemma red_deque_ok:
  fixes now :: real
  assumes "red_ok pr R" "red_items R = p # ps" "pq_deque (fifo_q R) = (Some p, Q')" "prec = pr p"
  defines "R' \<equiv> updateREDStateVar now prec (updateVREDLen prec (R\<lparr>fifo_q := Q'\<rparr>))"
  shows "red_ok pr R' \<and> red_items R' = ps \<and> redlim R' = redlim R"
proof -
  obtain Q ls n l m where v: "red_view R = (Q, ls, n, l, m)" by (cases "red_view R") auto
  note ok = assms(1) [unfolded red_ok_view [OF v]]
  have r: "pq_items Q = p # ps" "redlim R = l" "fifo_q R = Q" using v assms(2) by (auto simp: red_view_def red_items_def)
  then have Q': "pq_items Q' = ps" "pq_inv Q'" using assms(3) pq_inv_ops(2) [of Q] ok by (auto simp: pq_deque_def)
  have prec: "prec < MAX_PREC" using ok r(1) assms(4) by simp
  have v': "red_view R' = (Q', ls[prec := ls ! prec - 1], n, l, m)"
    using v ok prec by (auto simp: R'_def red_frame) (auto simp: red_view_def updateVREDLen_def map_update)
  have "red_ok pr R'" unfolding red_ok_view [OF v'] Q'(1) using ok Q'(2) r(1) assms(4) prec by (auto simp: nth_list_update)
  with v' r(2) Q'(1) show ?thesis by (auto simp: red_view_def red_items_def)
qed

section \<open>The invariant of the router\<close>

definition items_of :: "ds_queue \<Rightarrow> nat \<Rightarrow> ds_packet list" where
  "items_of D q = red_items (redq D ! q)"

definition code_prec :: "ds_queue \<Rightarrow> ds_packet \<Rightarrow> nat" where
  "code_prec D p = (case lookupPHBTable (prio (body p)) D of Inl e \<Rightarrow> 0 | Inr (q, prec) \<Rightarrow> prec)"

definition goes_to :: "ds_queue \<Rightarrow> ds_packet \<Rightarrow> nat \<Rightarrow> bool" where
  "goes_to D p q \<longleftrightarrow> (\<exists>prec. lookupPHBTable (prio (body p)) D = Inr (q, prec))"

definition phb_ok :: "ds_queue \<Rightarrow> bool" where
  "phb_ok D \<longleftrightarrow> (\<forall>(c, q, prec) \<in> set (phb D). 0 \<le> c \<and> c < int PHB_SIZE \<and> q < numQueues D \<and> prec < MAX_PREC)"

definition ds_ok :: "ds_queue \<Rightarrow> bool" where
  "ds_ok D \<longleftrightarrow> length (redq D) = MAX_QUEUES \<and> 0 < numQueues D \<and> numQueues D \<le> MAX_QUEUES \<and> qToDq D < numQueues D \<and> phb_ok D
     \<and> (\<forall>q < MAX_QUEUES. red_ok (code_prec D) (redq D ! q) \<and> (\<forall>p \<in> set (items_of D q). goes_to D p q))"

lemma lookup_ok:
  assumes "phb_ok D" "lookupPHBTable cp D = Inr (q, prec)"
  shows "0 \<le> cp \<and> cp < int PHB_SIZE \<and> q < numQueues D \<and> prec < MAX_PREC"
proof -
  from assms(2) have "(cp, q, prec) \<in> set (phb D)" by (auto simp: lookupPHBTable_def dest!: find_SomeD split: option.splits)
  with assms(1) show ?thesis by (auto simp: phb_ok_def)
qed

text \<open>The parts of the state the table and the invariant do not look at.\<close>

lemma same_table:
  assumes "phb D' = phb D"
  shows "lookupPHBTable cp D' = lookupPHBTable cp D" "code_prec D' = code_prec D" "goes_to D' = goes_to D"
  using assms by (auto simp: lookupPHBTable_def code_prec_def goes_to_def fun_eq_iff)

lemma ds_ok_same:
  assumes "phb D' = phb D" "redq D' = redq D" "numQueues D' = numQueues D" "qToDq D' < numQueues D"
  shows "ds_ok D \<Longrightarrow> ds_ok D'"
  using assms by (simp add: ds_ok_def phb_ok_def items_of_def same_table [OF assms(1)])

lemma ds_ok_update:
  assumes "ds_ok D" "phb D' = phb D" "redq D' = (redq D)[q := R]" "numQueues D' = numQueues D" "qToDq D' < numQueues D"
    "red_ok (code_prec D) R" "\<And>p. p \<in> set (red_items R) \<Longrightarrow> goes_to D p q" "q < MAX_QUEUES"
  shows "ds_ok D'"
  using assms by (auto simp: ds_ok_def phb_ok_def items_of_def same_table [OF assms(2)] nth_list_update)

lemma items_update: "q < length (redq D) \<Longrightarrow> redq D' = (redq D)[q := R] \<Longrightarrow> items_of D' i = (if i = q then red_items R else items_of D i)"
  by (auto simp: items_of_def nth_list_update)

lemma count_outcome_same:
  "redq (count_outcome o' cp D) = redq D" "phb (count_outcome o' cp D) = phb D" "numQueues (count_outcome o' cp D) = numQueues D"
  "qToDq (count_outcome o' cp D) = qToDq D" "schedMode (count_outcome o' cp D) = schedMode D"
  by (simp_all add: count_outcome_def split: red_outcome.split)

lemma ds_enque_ok:
  assumes "ds_ok D" "goes_to D p q"
  obtains o' D' where "ds_enque now u p D = Inr (o', D')" "ds_ok D'"
    "\<And>i. items_of D' i = (if i = q \<and> accepted o' then items_of D i @ [p] else items_of D i)"
    "accepted o' \<Longrightarrow> int (length (items_of D q)) < redlim (redq D ! q)"
    "phb D' = phb D" "numQueues D' = numQueues D" "schedMode D' = schedMode D" "qToDq D' = qToDq D" "\<And>i. redlim (redq D' ! i) = redlim (redq D ! i)"
proof -
  from assms(2) obtain prec where look: "lookupPHBTable (prio (body p)) D = Inr (q, prec)" by (auto simp: goes_to_def)
  have phb: "phb_ok D" using assms(1) by (simp add: ds_ok_def)
  note b = lookup_ok [OF phb look]
  have q: "q < MAX_QUEUES" "q < length (redq D)" using b assms(1) by (auto simp: ds_ok_def)
  have R: "red_ok (code_prec D) (redq D ! q)" using assms(1) q by (simp add: ds_ok_def)
  obtain o' R' where e: "red_enque now u p prec (ecn_on D \<and> ect (body p)) (redq D ! q) = (o', R')" by fastforce
  have "code_prec D p = prec" by (simp add: code_prec_def look)
  note r = red_enque_ok [OF R e this] b
  define D' where "D' = count_outcome o' (prio (body p)) (D\<lparr>pkts_CP := (pkts_CP D)[nat (prio (body p)) := pkts_CP D ! nat (prio (body p)) + 1],
      st_pkts := st_pkts D + 1, redq := (redq D)[q := R']\<rparr>)"
  have D': "ds_enque now u p D = Inr (o', D')" using b q by (simp add: ds_enque_def Let_def look e D'_def)
  have u: "redq D' = (redq D)[q := R']" "phb D' = phb D" "numQueues D' = numQueues D" "qToDq D' = qToDq D" "schedMode D' = schedMode D"
    by (simp_all add: D'_def count_outcome_same)
  have "ds_ok D'"
    by (rule ds_ok_update [OF assms(1) u(2,1,3)]) (use r assms q u(4) in \<open>auto simp: ds_ok_def items_of_def split: if_splits\<close>)
  moreover have "items_of D' i = (if i = q \<and> accepted o' then items_of D i @ [p] else items_of D i)" for i
    using items_update [OF q(2) u(1), of i] r by (simp add: items_of_def)
  moreover have "accepted o' \<Longrightarrow> int (length (items_of D q)) < redlim (redq D ! q)" using r by (simp add: items_of_def)
  moreover have "redlim (redq D' ! i) = redlim (redq D ! i)" for i using u(1) r q by (auto simp: nth_list_update)
  ultimately show thesis using that D' u by blast
qed

section \<open>The queue that is served\<close>

text \<open>Over all queues the loop finds one that is not empty, if there is one.\<close>

lemma rr_loop_less: "0 < n \<Longrightarrow> q < n \<Longrightarrow> rr_loop len n k q < n"
  by (induction len n k q rule: rr_loop.induct) auto

lemma rr_loop_finds:
  assumes "0 < n" "q < n" "j < k" "len ((q + j) mod n) \<noteq> 0"
  shows "\<exists>j' \<le> j. rr_loop len n k q = (q + j') mod n \<and> len ((q + j') mod n) \<noteq> 0 \<and> (\<forall>i < j'. len ((q + i) mod n) = 0)"
  using assms(2-4)
proof (induction k arbitrary: q j)
  case (Suc k)
  show ?case
  proof (cases "len q = 0")
    case True
    then have "j \<noteq> 0" using Suc.prems(1,3) by (cases j) auto
    then obtain m where m: "j = Suc m" by (cases j) auto
    have s: "((q + 1) mod n + i) mod n = (q + Suc i) mod n" for i by (simp add: mod_add_left_eq)
    have "len (((q + 1) mod n + m) mod n) \<noteq> 0" using Suc.prems(3) m s by simp
    from Suc.IH [OF _ _ this] m Suc.prems(2) assms(1) obtain j' where
      j: "j' \<le> m" "rr_loop len n k ((q + 1) mod n) = (q + Suc j') mod n" "len ((q + Suc j') mod n) \<noteq> 0" "\<forall>i < j'. len ((q + Suc i) mod n) = 0"
      unfolding s by auto
    have "len ((q + i) mod n) = 0" if "i < Suc j'" for i using that j(4) True Suc.prems(1) by (cases i) auto
    then show ?thesis using j m True by (intro exI [of _ "Suc j'"]) auto
  next
    case False
    then show ?thesis using Suc.prems(1) by (intro exI [of _ 0]) simp
  qed
qed simp

lemma wrr_loop_rr: "fst (wrr_loop len w n k q ts) = rr_loop len n k q"
  by (induction len w n k q ts rule: wrr_loop.induct) (simp_all add: Let_def)

lemma wrr_fst: "wrr_loop len w n k q ts = (x, ts') \<Longrightarrow> x = rr_loop len n k q"
  by (metis fst_conv wrr_loop_rr)

lemma wirr_loop_less: "0 < n \<Longrightarrow> q < n \<Longrightarrow> fst (wirr_loop len n k q ds d) < n"
  by (induction len n k q ds d rule: wirr_loop.induct) auto

lemma pri_scan_le: "pri_scan skip i k \<le> i + k"
  by (induction skip i k rule: pri_scan.induct) auto

lemma pri_scan_stops: "pri_scan skip i k < i + k \<Longrightarrow> \<not> skip (pri_scan skip i k)"
  by (induction skip i k rule: pri_scan.induct) (auto split: if_splits)

lemma pri_scan_skips: "i \<le> j \<Longrightarrow> j < pri_scan skip i k \<Longrightarrow> skip j"
proof (induction skip i k rule: pri_scan.induct)
  case (2 skip i k)
  show ?case
  proof (cases "skip i")
    case True
    then show ?thesis using 2 by (cases "j = i") auto
  qed (use 2 in simp)
qed simp

lemma pri_scan_all: "pri_scan skip i k = i + k \<Longrightarrow> i \<le> j \<Longrightarrow> j < i + k \<Longrightarrow> skip j"
proof (induction skip i k rule: pri_scan.induct)
  case (2 skip i k)
  show ?case
  proof (cases "skip i")
    case True
    then show ?thesis using 2 by (cases "j = i") auto
  qed (use 2 in simp)
qed simp

lemma every_index: "0 < n \<Longrightarrow> q < n \<Longrightarrow> i < n \<Longrightarrow> \<exists>j < n. (q + j) mod n = (i :: nat)"
  by (rule exI [of _ "(if q \<le> i then i - q else n - q + i)"]) auto

lemma rr_loop_all:
  assumes "0 < n" "q < n" "i < n" "len i \<noteq> 0"
  shows "len (rr_loop len n n q) \<noteq> 0"
proof -
  obtain j where "j < n" "(q + j) mod n = i" using every_index [OF assms(1-3)] by blast
  then show ?thesis using rr_loop_finds [OF assms(1,2), of j n len] assms(4) by auto
qed

lemma select_queue:
  shows "schedMode D = RR \<Longrightarrow> qToDq (selectQueueToDeque D) = rr_loop (queue_length D) (numQueues D) (numQueues D) ((qToDq D + 1) mod numQueues D)"
    and "schedMode D = WRR \<Longrightarrow> qToDq (selectQueueToDeque D) = rr_loop (queue_length D) (numQueues D) (numQueues D)
      (if wirrTemp D ! qToDq D \<le> 0 then (qToDq D + 1) mod numQueues D else qToDq D)"
    and "schedMode D = WIRR \<Longrightarrow> qToDq (selectQueueToDeque D)
      = fst (wirr_loop (queue_length D) (numQueues D) (numQueues D) ((qToDq D + 1) mod numQueues D) (wirrqDone D) (queuesDone D))"
    and "schedMode D = PRI \<Longrightarrow> qToDq (selectQueueToDeque D)
      = (let i = pri_scan (\<lambda>i. queue_length D i = 0 \<or> over_rate D i) 0 (numQueues D)
         in if i = numQueues D then rr_loop (queue_length D) (numQueues D) (numQueues D) 0 else i)"
  by (auto simp: selectQueueToDeque_def Let_def split: prod.split dest: wrr_fst)

lemma select_same:
  "redq (selectQueueToDeque D) = redq D" "phb (selectQueueToDeque D) = phb D" "numQueues (selectQueueToDeque D) = numQueues D"
  "schedMode (selectQueueToDeque D) = schedMode D" "queueMaxRate (selectQueueToDeque D) = queueMaxRate D"
  "queueAvgRate (selectQueueToDeque D) = queueAvgRate D"
  by (auto simp: selectQueueToDeque_def Let_def split: sched_mode.split prod.split)

lemma select_less:
  assumes "0 < numQueues D" "qToDq D < numQueues D"
  shows "qToDq (selectQueueToDeque D) < numQueues D"
proof (cases "schedMode D")
  case PRI
  show ?thesis
    using rr_loop_less [OF assms(1) assms(1)] pri_scan_le [of _ 0 "numQueues D"] by (auto simp: select_queue(4) [OF PRI] Let_def le_less)
qed (use assms rr_loop_less [OF assms(1)] wirr_loop_less [OF assms(1)] in \<open>simp_all add: select_queue(1-3)\<close>)

text \<open>But for the interleaved weights, an empty queue is chosen only when all are.\<close>

lemma select_busy:
  assumes "0 < numQueues D" "qToDq D < numQueues D" "schedMode D \<noteq> WIRR" "i < numQueues D" "queue_length D i \<noteq> 0"
  shows "queue_length D (qToDq (selectQueueToDeque D)) \<noteq> 0"
proof (cases "schedMode D")
  case PRI
  let ?skip = "\<lambda>i. queue_length D i = 0 \<or> over_rate D i"
  have "\<not> ?skip (pri_scan ?skip 0 (numQueues D))" if "pri_scan ?skip 0 (numQueues D) \<noteq> numQueues D"
    using pri_scan_le [of ?skip 0 "numQueues D"] that by (intro pri_scan_stops) simp
  then show ?thesis using rr_loop_all [OF assms(1) assms(1,4), of "queue_length D"] assms(5) by (auto simp: select_queue(4) [OF PRI] Let_def)
qed (use assms rr_loop_all [OF assms(1) _ assms(4), of _ "queue_length D"] in \<open>simp_all add: select_queue(1-2)\<close>)

section \<open>Departures\<close>

lemma meter_same:
  "redq (meter_queues now dq sz D) = redq D" "phb (meter_queues now dq sz D) = phb D" "numQueues (meter_queues now dq sz D) = numQueues D"
  "qToDq (meter_queues now dq sz D) = qToDq D" "schedMode (meter_queues now dq sz D) = schedMode D"
proof -
  have "redq (fold (\<lambda>i D. if queueMaxRate D ! i \<noteq> 0 then applyTSWMeter now i (if i = dq then sz else 0) D else D) is D) = redq D \<and>
    phb (fold (\<lambda>i D. if queueMaxRate D ! i \<noteq> 0 then applyTSWMeter now i (if i = dq then sz else 0) D else D) is D) = phb D \<and>
    numQueues (fold (\<lambda>i D. if queueMaxRate D ! i \<noteq> 0 then applyTSWMeter now i (if i = dq then sz else 0) D else D) is D) = numQueues D \<and>
    qToDq (fold (\<lambda>i D. if queueMaxRate D ! i \<noteq> 0 then applyTSWMeter now i (if i = dq then sz else 0) D else D) is D) = qToDq D \<and>
    schedMode (fold (\<lambda>i D. if queueMaxRate D ! i \<noteq> 0 then applyTSWMeter now i (if i = dq then sz else 0) D else D) is D) = schedMode D" for "is" D
    by (induction "is" arbitrary: D) (simp_all add: applyTSWMeter_def)
  then show "redq (meter_queues now dq sz D) = redq D" "phb (meter_queues now dq sz D) = phb D" "numQueues (meter_queues now dq sz D) = numQueues D"
    "qToDq (meter_queues now dq sz D) = qToDq D" "schedMode (meter_queues now dq sz D) = schedMode D"
    by (simp_all add: meter_queues_def)
qed

lemma items_length: "ds_ok D \<Longrightarrow> q < MAX_QUEUES \<Longrightarrow> queue_length D q = int (length (items_of D q))"
  by (simp add: ds_ok_def red_ok_def pq_inv_def queue_length_def getRealLength_def items_of_def red_items_def)

lemma ds_deque_ok:
  assumes "ds_ok D"
  defines "q \<equiv> qToDq (selectQueueToDeque D)"
  obtains r D' where "ds_deque now D = Inr (r, D')" "ds_ok D'" "q < numQueues D" "qToDq D' = q"
    "items_of D q = (case r of None \<Rightarrow> [] | Some p \<Rightarrow> p # items_of D' q)" "\<And>i. i \<noteq> q \<Longrightarrow> items_of D' i = items_of D i"
    "r = None \<Longrightarrow> items_of D' q = []" "phb D' = phb D" "numQueues D' = numQueues D" "schedMode D' = schedMode D" "\<And>i. redlim (redq D' ! i) = redlim (redq D ! i)"
proof -
  have n: "0 < numQueues D" "qToDq D < numQueues D" "phb_ok D" using assms(1) by (simp_all add: ds_ok_def)
  define D1 where "D1 = selectQueueToDeque D"
  have s: "redq D1 = redq D" "phb D1 = phb D" "numQueues D1 = numQueues D" "schedMode D1 = schedMode D" "qToDq D1 = q" "q < numQueues D"
    using select_less [OF n(1,2)] by (simp_all add: D1_def select_same q_def)
  have ok1: "ds_ok D1" by (rule ds_ok_same [OF s(2,1,3) _ assms(1)]) (use s(5,6) in simp)
  have q: "q < MAX_QUEUES" "q < length (redq D)" using s(6) assms(1) by (auto simp: ds_ok_def)
  have R: "red_ok (code_prec D) (redq D ! q)" "\<forall>p \<in> set (items_of D q). goes_to D p q" using assms(1) q by (simp_all add: ds_ok_def)
  show thesis
  proof (cases "items_of D q")
    case Nil
    then have "ds_deque now D = Inr (None, D1)"
      using s q unfolding ds_deque_def D1_def [symmetric] by (simp add: Let_def pq_deque_def items_of_def red_items_def)
    then show thesis using Nil s ok1 by (intro that [of None D1]) (simp_all add: items_of_def)
  next
    case (Cons p ps)
    obtain Q where Q: "pq_deque (fifo_q (redq D ! q)) = (Some p, Q)" using Cons by (auto simp: pq_deque_def items_of_def red_items_def)
    obtain prec where look: "lookupPHBTable (prio (body p)) D = Inr (q, prec)" using R(2) Cons by (auto simp: goes_to_def)
    have prec: "prec < MAX_PREC" "code_prec D p = prec" using lookup_ok [OF n(3) look] look by (auto simp: code_prec_def)
    define D2 where "D2 = D1\<lparr>redq := (redq D1)[q := (redq D1 ! q)\<lparr>fifo_q := Q\<rparr>], pktcount := (pktcount D1)[q := pktcount D1 ! q + 1]\<rparr>"
    define D3 where "D3 = (if schedMode D = PRI then meter_queues now q (psize p) D2 else D2)"
    define R' where "R' = updateREDStateVar now prec (updateVREDLen prec ((redq D ! q)\<lparr>fifo_q := Q\<rparr>))"
    define D' where "D' = D3\<lparr>redq := (redq D3)[q := updateREDStateVar now prec (updateVREDLen prec (redq D3 ! q))]\<rparr>"
    have d3: "redq D3 = (redq D)[q := (redq D ! q)\<lparr>fifo_q := Q\<rparr>]" "phb D3 = phb D" "numQueues D3 = numQueues D" "qToDq D3 = q" "schedMode D3 = schedMode D"
      using s by (simp_all add: D3_def D2_def meter_same)
    have "ds_deque now D = bindR (lookupPHBTable (prio (body p)) D3) (\<lambda>(qa, prec). if prec \<ge> MAX_PREC then Inl OutOfBounds
        else Inr (Some p, D3\<lparr>redq := (redq D3)[q := updateREDStateVar now prec (updateVREDLen prec (redq D3 ! q))]\<rparr>))"
      unfolding ds_deque_def Let_def D1_def [symmetric] by (simp only: s(1,3,5,6) simp_thms if_False Q prod.case option.case D3_def D2_def)
    then have "ds_deque now D = Inr (Some p, D')" using prec(1) by (simp add: same_table(1) [OF d3(2)] look D'_def)
    moreover have r: "red_ok (code_prec D) R' \<and> red_items R' = ps \<and> redlim R' = redlim (redq D ! q)"
      unfolding R'_def by (rule red_deque_ok [OF R(1) _ Q]) (use Cons prec in \<open>simp_all add: items_of_def\<close>)
    have u: "redq D' = (redq D)[q := R']" "phb D' = phb D" "numQueues D' = numQueues D" "qToDq D' = q" "schedMode D' = schedMode D"
      using d3 q(2) by (simp_all add: D'_def R'_def)
    moreover have "ds_ok D'" by (rule ds_ok_update [OF assms(1) u(2,1,3)]) (use u(4) s(6) r R(2) Cons q in auto)
    moreover have "items_of D' i = (if i = q then ps else items_of D i)" for i using items_update [OF q(2) u(1), of i] r by simp
    moreover have "redlim (redq D' ! i) = redlim (redq D ! i)" for i using u(1) r q by (auto simp: nth_list_update)
    ultimately show thesis using Cons s(6) by (intro that [of "Some p" D']) simp_all
  qed
qed

section \<open>Setting up a router\<close>

text \<open>A router that no packet has reached, in whatever order it is set up, meets the invariant.\<close>

definition red_blank :: "red_queue \<Rightarrow> bool" where
  "red_blank R \<longleftrightarrow> fifo_q R = pq_new \<and> length (qParam R) = MAX_PREC \<and> numPrec R \<le> MAX_PREC \<and> (\<forall>i < MAX_PREC. qlen (qParam R ! i) = 0)"

definition ds_ready :: "ds_queue \<Rightarrow> bool" where
  "ds_ready D \<longleftrightarrow> length (redq D) = MAX_QUEUES \<and> 0 < numQueues D \<and> numQueues D \<le> MAX_QUEUES \<and> qToDq D < numQueues D \<and> phb_ok D
     \<and> (\<forall>R \<in> set (redq D). red_blank R)"

lemma ds_ready_ok:
  assumes "ds_ready D"
  shows "ds_ok D \<and> (\<forall>q < MAX_QUEUES. items_of D q = [])"
proof -
  have b: "red_blank (redq D ! q)" if "q < MAX_QUEUES" for q using assms that by (simp add: ds_ready_def)
  have "red_ok pr (redq D ! q) \<and> items_of D q = []" if "q < MAX_QUEUES" for q pr
    using b [OF that] by (simp add: red_blank_def red_ok_def red_items_def items_of_def pq_new_def pq_inv_def)
  then show ?thesis using assms by (simp add: ds_ok_def ds_ready_def)
qed

lemma ready_redq:
  assumes "ds_ready D" "\<And>R. red_blank R \<Longrightarrow> red_blank (f R)"
  shows "ds_ready (D\<lparr>redq := map f (redq D)\<rparr>)" "ds_ready (D\<lparr>redq := (redq D)[q := f (redq D ! q)]\<rparr>)"
proof -
  show "ds_ready (D\<lparr>redq := map f (redq D)\<rparr>)" using assms by (auto simp: ds_ready_def phb_ok_def)
  have "set ((redq D)[q := f (redq D ! q)]) \<subseteq> set (redq D) \<union> f ` set (redq D)"
    by (cases "q < length (redq D)") (auto simp: list_update_beyond dest: set_update_subset_insert [THEN subsetD])
  then show "ds_ready (D\<lparr>redq := (redq D)[q := f (redq D ! q)]\<rparr>)" using assms by (auto simp: ds_ready_def phb_ok_def)
qed

lemma blank_new: "red_blank red_new"
  by (simp add: red_blank_def red_new_def)

lemma blank_ops:
  assumes "red_blank R"
  shows "red_blank (red_config now prec tmin tmax maxp qw R)" "red_blank (setPTC bw R)" "red_blank (setMPS mps R)"
    "red_blank (R\<lparr>mredMode := m\<rparr>)" "n \<le> MAX_PREC \<Longrightarrow> red_blank (R\<lparr>numPrec := n\<rparr>)" "red_blank (R\<lparr>redlim := lm\<rparr>)"
proof -
  have m: "map qlen (qParam (red_config now prec tmin tmax maxp qw R)) = (map qlen (qParam R))[prec := 0]" by (simp add: red_config_def map_update)
  have "qlen (qParam (red_config now prec tmin tmax maxp qw R) ! i) = 0" if "i < MAX_PREC" for i
  proof -
    have "qlen (qParam (red_config now prec tmin tmax maxp qw R) ! i) = map qlen (qParam (red_config now prec tmin tmax maxp qw R)) ! i"
      using assms that by (simp add: red_blank_def red_config_def)
    also have "\<dots> = 0" unfolding m using assms that by (cases "i = prec") (simp_all add: red_blank_def)
    finally show ?thesis .
  qed
  then show "red_blank (red_config now prec tmin tmax maxp qw R)" using assms by (simp add: red_blank_def red_config_def)
qed (use assms in \<open>auto simp: red_blank_def setPTC_def setMPS_def\<close>)

lemma ready_new: "0 < n \<Longrightarrow> n \<le> MAX_QUEUES \<Longrightarrow> ds_ready (ds_new n ecn l)"
  using blank_new blank_ops(6) [OF blank_new] by (auto simp: ds_ready_def ds_new_def ds_reset_def phb_ok_def)

lemma ready_ops:
  assumes "ds_ready D"
  shows "ds_ready (configQ now q prec tmin tmax maxp qw D)" "ds_ready (setNumPrec n D)" "ds_ready (setMREDMode m qo D)" "ds_ready (setSchedularMode sm D)"
    "ds_ready (addQueueWeights q w D)" "ds_ready (addQueueRate q rt D)" "ds_ready (ds_reset l bw D)"
proof -
  show "ds_ready (configQ now q prec tmin tmax maxp qw D)" unfolding configQ_def by (rule ready_redq(2) [OF assms blank_ops(1)])
  show "ds_ready (setNumPrec n D)" unfolding setNumPrec_def using ready_redq(1) [OF assms blank_ops(5)] assms by simp
  show "ds_ready (setMREDMode m qo D)" unfolding setMREDMode_def
    using ready_redq(1) [where f = "\<lambda>R. R\<lparr>mredMode := m\<rparr>", OF assms blank_ops(4)] ready_redq(2) [where f = "\<lambda>R. R\<lparr>mredMode := m\<rparr>", OF assms blank_ops(4)]
    by (auto split: option.split)
  show "ds_ready (setSchedularMode sm D)" "ds_ready (addQueueWeights q w D)" "ds_ready (addQueueRate q rt D)"
    using assms by (simp_all add: ds_ready_def phb_ok_def setSchedularMode_def addQueueWeights_def addQueueRate_def)
  have "red_blank (case bw of None \<Rightarrow> R\<lparr>redlim := l\<rparr> | Some b \<Rightarrow> setPTC b (R\<lparr>redlim := l\<rparr>))" if "red_blank R" for R
    using blank_ops(6) [OF that] blank_ops(2) by (auto split: option.split)
  then show "ds_ready (ds_reset l bw D)" using assms by (simp add: ds_ready_def ds_reset_def phb_ok_def)
qed

lemma ready_phb:
  "ds_ready D \<Longrightarrow> q < numQueues D \<Longrightarrow> prec < MAX_PREC \<Longrightarrow> addPHBEntry cp q prec D = Inr D' \<Longrightarrow> ds_ready D'"
  by (auto simp: addPHBEntry_def ds_ready_def phb_ok_def split: if_splits)

end
