(* ===== verification/DsRouterProps.thy ===== *)
theory DsRouterProps
  imports DsRouter
begin

text \<open>
  The properties of a differentiated services router: nothing is lost or overtaken within a queue, the link does not
  wait while packets do, turns come round; and the bounds of random early detection with the case in which it stops.
\<close>

section \<open>Runs of a router\<close>

datatype ds_event = Arrival real real ds_packet | Departure real
datatype ds_log = Came red_outcome ds_packet | Left "ds_packet option"

fun router_step :: "ds_event \<Rightarrow> ds_queue \<Rightarrow> (ds_log \<times> ds_queue) res" where
  "router_step (Arrival now u p) D = bindR (ds_enque now u p D) (\<lambda>(o', D1). Inr (Came o' p, D1))"
| "router_step (Departure now) D = bindR (ds_deque now D) (\<lambda>(r, D1). Inr (Left r, D1))"

fun router_run :: "ds_event list \<Rightarrow> ds_queue \<Rightarrow> (ds_log list \<times> ds_queue) res" where
  "router_run [] D = Inr ([], D)"
| "router_run (e # es) D = bindR (router_step e D) (\<lambda>(l, D1). bindR (router_run es D1) (\<lambda>(ls, D2). Inr (l # ls, D2)))"

fun admitted :: "(ds_packet \<Rightarrow> bool) \<Rightarrow> ds_log list \<Rightarrow> ds_packet list" where
  "admitted P [] = []"
| "admitted P (Came o' p # ls) = (if accepted o' \<and> P p then p # admitted P ls else admitted P ls)"
| "admitted P (Left r # ls) = admitted P ls"

fun departed :: "(ds_packet \<Rightarrow> bool) \<Rightarrow> ds_log list \<Rightarrow> ds_packet list" where
  "departed P [] = []"
| "departed P (Left (Some p) # ls) = (if P p then p # departed P ls else departed P ls)"
| "departed P (_ # ls) = departed P ls"

fun routable :: "ds_queue \<Rightarrow> ds_event \<Rightarrow> bool" where
  "routable D (Arrival now u p) \<longleftrightarrow> (\<exists>q. goes_to D p q)"
| "routable D (Departure now) \<longleftrightarrow> True"

lemma goes_to_unique: "goes_to D p q \<Longrightarrow> goes_to D p q' \<Longrightarrow> q = q'"
  by (auto simp: goes_to_def)

text \<open>One step, seen from one queue.\<close>

lemma router_step_ok:
  assumes "ds_ok D" "routable D e"
  obtains l D' where "router_step e D = Inr (l, D')" "ds_ok D'" "phb D' = phb D" "numQueues D' = numQueues D" "schedMode D' = schedMode D"
    "\<And>q. q < numQueues D \<Longrightarrow> departed (\<lambda>p. goes_to D p q) [l] @ items_of D' q = items_of D q @ admitted (\<lambda>p. goes_to D p q) [l]"
proof (cases e)
  case (Arrival now u p)
  then obtain q where q: "goes_to D p q" using assms(2) by auto
  obtain o' D' where e: "ds_enque now u p D = Inr (o', D')" "ds_ok D'" "phb D' = phb D" "numQueues D' = numQueues D" "schedMode D' = schedMode D"
    "\<And>i. items_of D' i = (if i = q \<and> accepted o' then items_of D i @ [p] else items_of D i)"
    by (rule ds_enque_ok [OF assms(1) q, of now u]) (rule that; assumption)
  have "goes_to D p i \<longleftrightarrow> i = q" for i using q goes_to_unique by blast
  then show thesis using e Arrival by (intro that [of "Came o' p" D']) simp_all
next
  case (Departure now)
  obtain r D' where d: "ds_deque now D = Inr (r, D')" "ds_ok D'" "qToDq (selectQueueToDeque D) < numQueues D"
    "items_of D (qToDq (selectQueueToDeque D)) = (case r of None \<Rightarrow> [] | Some p \<Rightarrow> p # items_of D' (qToDq (selectQueueToDeque D)))"
    "\<And>i. i \<noteq> qToDq (selectQueueToDeque D) \<Longrightarrow> items_of D' i = items_of D i"
    "r = None \<Longrightarrow> items_of D' (qToDq (selectQueueToDeque D)) = []" "phb D' = phb D" "numQueues D' = numQueues D" "schedMode D' = schedMode D"
    by (rule ds_deque_ok [OF assms(1), of now]) (rule that; assumption)
  define q where "q = qToDq (selectQueueToDeque D)"
  note d = d [folded q_def]
  have to: "goes_to D p i \<longleftrightarrow> i = q" if "r = Some p" for p i
  proof -
    have "p \<in> set (items_of D q)" using d(4) that by simp
    moreover have "q < MAX_QUEUES" using d(3) assms(1) by (simp add: ds_ok_def)
    ultimately have "goes_to D p q" using assms(1) by (auto simp: ds_ok_def)
    then show ?thesis using goes_to_unique by blast
  qed
  have "departed (\<lambda>p. goes_to D p i) [Left r] @ items_of D' i = items_of D i" for i
  proof (cases "i = q")
    case True
    then show ?thesis using to d(4,6) by (cases r) simp_all
  next
    case False
    then show ?thesis using to d(5) by (cases r) simp_all
  qed
  then show thesis using d Departure by (intro that [of "Left r" D']) simp_all
qed

lemma departed_cons: "departed P (l # ls) = departed P [l] @ departed P ls"
proof (cases l)
  case (Left r)
  then show ?thesis by (cases r) simp_all
qed simp

lemma admitted_cons: "admitted P (l # ls) = admitted P [l] @ admitted P ls"
  by (cases l) auto

lemma routable_same: "phb D' = phb D \<Longrightarrow> routable D' e = routable D e"
  using same_table(3) [of D' D] by (cases e) simp_all

lemma router_run_ok:
  assumes "ds_ok D" "\<forall>e \<in> set es. routable D e"
  shows "\<exists>ls D'. router_run es D = Inr (ls, D') \<and> ds_ok D' \<and> phb D' = phb D \<and> numQueues D' = numQueues D
    \<and> (\<forall>q < numQueues D. departed (\<lambda>p. goes_to D p q) ls @ items_of D' q = items_of D q @ admitted (\<lambda>p. goes_to D p q) ls)"
  using assms
proof (induction es arbitrary: D)
  case (Cons e es)
  obtain l D1 where s: "router_step e D = Inr (l, D1)" "ds_ok D1" "phb D1 = phb D" "numQueues D1 = numQueues D"
    "\<And>q. q < numQueues D \<Longrightarrow> departed (\<lambda>p. goes_to D p q) [l] @ items_of D1 q = items_of D q @ admitted (\<lambda>p. goes_to D p q) [l]"
    using router_step_ok [OF Cons.prems(1), of e] Cons.prems(2) by (metis list.set_intros(1))
  have "\<forall>e \<in> set es. routable D1 e" using Cons.prems(2) routable_same [OF s(3)] by simp
  from Cons.IH [OF s(2) this] obtain ls D2 where r: "router_run es D1 = Inr (ls, D2)" "ds_ok D2" "phb D2 = phb D1" "numQueues D2 = numQueues D1"
    "\<forall>q < numQueues D1. departed (\<lambda>p. goes_to D1 p q) ls @ items_of D2 q = items_of D1 q @ admitted (\<lambda>p. goes_to D1 p q) ls" by blast
  have "departed (\<lambda>p. goes_to D p q) (l # ls) @ items_of D2 q = items_of D q @ admitted (\<lambda>p. goes_to D p q) (l # ls)" if "q < numQueues D" for q
  proof -
    have a: "departed (\<lambda>p. goes_to D p q) ls @ items_of D2 q = items_of D1 q @ admitted (\<lambda>p. goes_to D p q) ls"
      using r(5) that s(4) by (simp add: same_table(3) [OF s(3)])
    have "departed (\<lambda>p. goes_to D p q) (l # ls) @ items_of D2 q = (departed (\<lambda>p. goes_to D p q) [l] @ items_of D1 q) @ admitted (\<lambda>p. goes_to D p q) ls"
      unfolding departed_cons [of _ l ls] append_assoc a ..
    also have "\<dots> = items_of D q @ admitted (\<lambda>p. goes_to D p q) (l # ls)" unfolding s(5) [OF that] admitted_cons [of _ l ls] by simp
    finally show ?thesis .
  qed
  then show ?case using s r by simp
qed simp

text \<open>
  C18: A router never aborts on packets whose code points are in its table, whatever way of early dropping and of scheduling
  is set. In each queue, what has left and what waits is what waited and what has been let in since, each packet once and
  in order; and each virtual queue counts the waiting packets of its precedence.
\<close>

theorem router_fifo:
  assumes "ds_ok D" "\<forall>e \<in> set es. routable D e"
  shows "\<exists>ls D'. router_run es D = Inr (ls, D') \<and> ds_ok D' \<and> phb D' = phb D \<and> numQueues D' = numQueues D
    \<and> (\<forall>q < numQueues D. departed (\<lambda>p. goes_to D p q) ls @ items_of D' q = items_of D q @ admitted (\<lambda>p. goes_to D p q) ls)"
  by (rule router_run_ok [OF assms])

text \<open>
  With any of the ways to choose a queue but the interleaved weights, a router hands a packet to the link whenever one
  waits.
\<close>

theorem router_work_conserving:
  assumes "ds_ok D" "schedMode D \<noteq> WIRR" "ds_deque now D = Inr (None, D')" "q < numQueues D"
  shows "items_of D q = []"
proof (rule ccontr)
  assume "items_of D q \<noteq> []"
  have n: "0 < numQueues D" "qToDq D < numQueues D" "numQueues D \<le> MAX_QUEUES" using assms(1) by (simp_all add: ds_ok_def)
  have "queue_length D q \<noteq> 0" using items_length [OF assms(1), of q] assms(4) n(3) \<open>items_of D q \<noteq> []\<close> by simp
  from select_busy [OF n(1,2) assms(2,4) this] have b: "queue_length D (qToDq (selectQueueToDeque D)) \<noteq> 0" .
  have "items_of D (qToDq (selectQueueToDeque D)) = []"
    by (rule ds_deque_ok [OF assms(1), of now]) (use assms(3) in auto)
  then show False using b items_length [OF assms(1), of "qToDq (selectQueueToDeque D)"] select_less [OF n(1,2)] n(3) by simp
qed

section \<open>Turns\<close>

text \<open>How many queues come before queue \<open>q\<close>, from queue \<open>s\<close> on.\<close>

definition turn :: "nat \<Rightarrow> nat \<Rightarrow> nat \<Rightarrow> nat" where
  "turn n s q = (q + n - s) mod n"

lemma turn_eq: "s < n \<Longrightarrow> q < n \<Longrightarrow> turn n s q = (if s \<le> q then q - s else q + n - s)"
  by (simp add: turn_def mod_if)

lemma turn_reaches: "s < n \<Longrightarrow> q < n \<Longrightarrow> (s + turn n s q) mod n = q \<and> turn n s q < n"
  by (auto simp: turn_eq)

lemma turn_after:
  assumes "s < n" "q < n" "j < turn n s q"
  shows "turn n (((s + j) mod n + 1) mod n) q < turn n s q"
proof -
  have j: "s + Suc j < 2 * n" using turn_reaches [OF assms(1,2)] assms(1,3) by linarith
  have "((s + j) mod n + 1) mod n = (s + Suc j) mod n" by (simp add: mod_Suc_eq)
  also have "\<dots> = (if s + Suc j < n then s + Suc j else s + Suc j - n)" using j by (simp add: mod_if)
  finally have m: "((s + j) mod n + 1) mod n = (if s + Suc j < n then s + Suc j else s + Suc j - n)" .
  show ?thesis using assms j unfolding m by (auto simp: turn_eq split: if_splits)
qed

lemma rr_step:
  assumes "ds_ok D" "schedMode D = RR" "q < numQueues D" "items_of D q \<noteq> []" "ds_deque now D = Inr (r, D')"
  shows "r = Some (hd (items_of D q)) \<or> items_of D' q = items_of D q
    \<and> turn (numQueues D) ((qToDq D' + 1) mod numQueues D) q < turn (numQueues D) ((qToDq D + 1) mod numQueues D) q"
proof -
  let ?n = "numQueues D" and ?s = "(qToDq D + 1) mod numQueues D" and ?q = "qToDq (selectQueueToDeque D)"
  have n: "0 < ?n" "?n \<le> MAX_QUEUES" "?s < ?n" using assms(1) by (simp_all add: ds_ok_def)
  note t = turn_reaches [OF n(3) assms(3)]
  have "queue_length D q \<noteq> 0" using items_length [OF assms(1), of q] assms(3,4) n(2) by simp
  then obtain j where j: "j \<le> turn ?n ?s q" "?q = (?s + j) mod ?n"
    using rr_loop_finds [OF n(1,3), of "turn ?n ?s q" ?n "queue_length D"] t unfolding select_queue(1) [OF assms(2)] by auto
  have d: "items_of D ?q = (case r of None \<Rightarrow> [] | Some p \<Rightarrow> p # items_of D' ?q)" "\<And>i. i \<noteq> ?q \<Longrightarrow> items_of D' i = items_of D i" "qToDq D' = ?q"
    by (rule ds_deque_ok [OF assms(1), of now]; use assms(5) in simp)+
  show ?thesis
  proof (cases "?q = q")
    case True
    then show ?thesis using d(1) assms(4) by (cases r) auto
  next
    case False
    then have "j < turn ?n ?s q" using j t by (cases "j = turn ?n ?s q") auto
    then show ?thesis using turn_after [OF n(3) assms(3)] d(2,3) j(2) False by auto
  qed
qed

fun departures :: "ds_event list \<Rightarrow> nat" where
  "departures [] = 0"
| "departures (Arrival now u p # es) = departures es"
| "departures (Departure now # es) = Suc (departures es)"

lemma rr_turn:
  assumes "ds_ok D" "schedMode D = RR" "q < numQueues D" "items_of D q \<noteq> []" "\<forall>e \<in> set es. routable D e" "router_run es D = Inr (ls, D')"
    "turn (numQueues D) ((qToDq D + 1) mod numQueues D) q < departures es"
  shows "Left (Some (hd (items_of D q))) \<in> set ls"
  using assms
proof (induction es arbitrary: D ls)
  case (Cons e es)
  from Cons.prems(6) obtain l D1 ls1 where s: "router_step e D = Inr (l, D1)" "router_run es D1 = Inr (ls1, D')" "ls = l # ls1"
    by (auto simp: bindR_eq_Inr)
  have rt: "routable D e" "\<forall>e \<in> set es. routable D e" using Cons.prems(5) by simp_all
  obtain l' D'' where k: "router_step e D = Inr (l', D'')" "ds_ok D''" "phb D'' = phb D" "numQueues D'' = numQueues D" "schedMode D'' = schedMode D"
    by (rule router_step_ok [OF Cons.prems(1) rt(1)]) (rule that; assumption)
  then have k: "ds_ok D1" "phb D1 = phb D" "numQueues D1 = numQueues D" "schedMode D1 = schedMode D" using s(1) by simp_all
  have rt1: "\<forall>e \<in> set es. routable D1 e" using rt(2) routable_same [OF k(2)] by simp
  show ?case
  proof (cases e)
    case (Arrival now u p)
    then obtain i where i: "goes_to D p i" using rt(1) by auto
    obtain o' where o': "ds_enque now u p D = Inr (o', D1)" using s(1) Arrival by (auto simp: bindR_eq_Inr)
    have "items_of D1 q = (if q = i \<and> accepted o' then items_of D q @ [p] else items_of D q) \<and> qToDq D1 = qToDq D"
      by (rule ds_enque_ok [OF Cons.prems(1) i, of now u]) (use o' in simp)
    then have "items_of D1 q \<noteq> []" "hd (items_of D1 q) = hd (items_of D q)" "qToDq D1 = qToDq D" using Cons.prems(4) by auto
    then show ?thesis using Cons.IH [OF k(1) _ _ _ rt1 s(2)] Cons.prems(2,3,7) k(3,4) Arrival s(3) by simp
  next
    case (Departure now)
    then obtain r where r: "ds_deque now D = Inr (r, D1)" "l = Left r" using s(1) by (auto simp: bindR_eq_Inr)
    from rr_step [OF Cons.prems(1-4) r(1)] show ?thesis
    proof (elim disjE)
      assume "r = Some (hd (items_of D q))"
      then show ?thesis using r(2) s(3) by simp
    next
      assume a: "items_of D1 q = items_of D q
        \<and> turn (numQueues D) ((qToDq D1 + 1) mod numQueues D) q < turn (numQueues D) ((qToDq D + 1) mod numQueues D) q"
      have "Left (Some (hd (items_of D1 q))) \<in> set ls1"
        by (rule Cons.IH [OF k(1) _ _ _ rt1 s(2)]) (use a Cons.prems(2-4,7) k(3,4) Departure in auto)
      then show ?thesis using a s(3) by simp
    qed
  qed
qed simp

text \<open>
  C20: In round robin a queue that is not empty has its turn: whatever arrives meanwhile, of as many departures as there are
  queues one is of its first packet.
\<close>

theorem rr_turn_comes:
  assumes "ds_ok D" "schedMode D = RR" "q < numQueues D" "items_of D q \<noteq> []" "\<forall>e \<in> set es. routable D e" "router_run es D = Inr (ls, D')"
    "numQueues D \<le> departures es"
  shows "Left (Some (hd (items_of D q))) \<in> set ls"
proof (rule rr_turn [OF assms(1-6)])
  have "(qToDq D + 1) mod numQueues D < numQueues D" using assms(3) by simp
  then show "turn (numQueues D) ((qToDq D + 1) mod numQueues D) q < departures es" using turn_reaches [OF _ assms(3)] assms(7) by fastforce
qed

text \<open>
  With priorities, the packet taken is the first one of the first queue within its rate; if every waiting queue
  is beyond its rate, of the first that is not empty.
\<close>

theorem pri_takes_first:
  assumes "ds_ok D" "schedMode D = PRI" "ds_deque now D = Inr (Some p, D')"
  shows "\<exists>q < numQueues D. goes_to D p q \<and> hd (items_of D q) = p \<and> items_of D q \<noteq> [] \<and>
    (if \<exists>i < numQueues D. items_of D i \<noteq> [] \<and> \<not> over_rate D i
     then \<not> over_rate D q \<and> (\<forall>i < q. items_of D i = [] \<or> over_rate D i)
     else \<forall>i < q. items_of D i = [])"
proof -
  let ?n = "numQueues D" and ?q = "qToDq (selectQueueToDeque D)" and ?skip = "\<lambda>i. queue_length D i = 0 \<or> over_rate D i"
  have n: "0 < ?n" "?n \<le> MAX_QUEUES" "qToDq D < ?n" using assms(1) by (simp_all add: ds_ok_def)
  have len: "queue_length D i = 0 \<longleftrightarrow> items_of D i = []" if "i < ?n" for i using items_length [OF assms(1), of i] that n(2) by simp
  have q: "?q < ?n" by (rule select_less [OF n(1,3)])
  obtain r D'' where "ds_deque now D = Inr (r, D'')" "items_of D ?q = (case r of None \<Rightarrow> [] | Some p \<Rightarrow> p # items_of D'' ?q)"
    by (rule ds_deque_ok [OF assms(1), of now]) (rule that; assumption)
  then have p: "items_of D ?q = p # items_of D' ?q" using assms(3) by auto
  have target: "goes_to D p ?q"
    using assms(1) p q n(2) unfolding ds_ok_def by (metis list.set_intros(1) order_less_le_trans)
  have choice: "if \<exists>i < ?n. items_of D i \<noteq> [] \<and> \<not> over_rate D i then \<not> over_rate D ?q \<and> (\<forall>i < ?q. items_of D i = [] \<or> over_rate D i)
     else \<forall>i < ?q. items_of D i = []"
  proof (cases "pri_scan ?skip 0 ?n = ?n")
    case True
    have "?skip i" if "i < ?n" for i using pri_scan_all [of ?skip 0 ?n i] True that by simp
    then have none: "\<not> (\<exists>i < ?n. items_of D i \<noteq> [] \<and> \<not> over_rate D i)" using len by blast
    have sel: "?q = rr_loop (queue_length D) ?n ?n 0" using True by (simp add: select_queue(4) [OF assms(2)] Let_def)
    have "queue_length D ?q \<noteq> 0" using p len [OF q] by simp
    then obtain j where "j \<le> ?q" "?q = (0 + j) mod ?n" "\<forall>i < j. queue_length D ((0 + i) mod ?n) = 0"
      using rr_loop_finds [OF n(1) n(1) q, of "queue_length D"] q unfolding sel [symmetric] by auto
    then have "items_of D i = []" if "i < ?q" for i using that q len [of i] by auto
    then show ?thesis using none by auto
  next
    case False
    then have sel: "?q = pri_scan ?skip 0 ?n" by (simp add: select_queue(4) [OF assms(2)] Let_def)
    have a: "\<not> over_rate D ?q" using pri_scan_stops [of ?skip 0 ?n] q unfolding sel by simp
    have b: "items_of D i = [] \<or> over_rate D i" if "i < ?q" for i
      using pri_scan_skips [of 0 i ?skip ?n] that len [of i] q unfolding sel [symmetric] by auto
    have ex: "\<exists>i < ?n. items_of D i \<noteq> [] \<and> \<not> over_rate D i" using q p a by (intro exI [of _ ?q]) simp
    show ?thesis unfolding if_P [OF ex] using a b by blast
  qed
  show ?thesis by (rule exI [of _ ?q], intro conjI q target choice) (simp_all only: p list.sel list.distinct not_False_eq_True)
qed

section \<open>A router to try\<close>

definition demo_router :: "sched_mode \<Rightarrow> ds_queue" where
  "demo_router m = setSchedularMode m (configQ 0 1 0 3 6 1 None (configQ 0 0 0 2 6 1 (Some 1) (setMREDMode RioD None
     ((ds_new 2 True 4)\<lparr>phb := [(10, 0, 0), (11, 0, 1), (20, 1, 0)]\<rparr>))))"

definition demo_pkt :: "int \<Rightarrow> int \<Rightarrow> ds_packet" where
  "demo_pkt n cp = packet_alloc n \<lparr>prio = cp, ect = False, flowid = 0\<rparr>"

definition demo_events :: "ds_event list" where
  "demo_events = [Arrival 1 0 (demo_pkt 1 10), Arrival 1 0 (demo_pkt 2 20), Arrival 2 0 (demo_pkt 3 10), Departure 3, Arrival 3 0 (demo_pkt 4 10),
     Departure 4, Departure 5, Departure 6, Departure 7]"

lemma demo_router_ready: "ds_ready (demo_router m)"
proof -
  have "ds_ready ((ds_new 2 True 4)\<lparr>phb := [(10, 0, 0), (11, 0, 1), (20, 1, 0)]\<rparr>)"
    using ready_new [of 2 True 4] by (simp add: ds_ready_def phb_ok_def MAX_QUEUES_def MAX_PREC_def PHB_SIZE_def)
      (simp add: ds_new_def ds_reset_def)
  then show ?thesis unfolding demo_router_def by (intro ready_ops)
qed

lemma demo_router_ok: "ds_ok (demo_router m)" "numQueues (demo_router m) = 2" "schedMode (demo_router m) = m"
  using ds_ready_ok [OF demo_router_ready]
  by (simp_all add: demo_router_def setSchedularMode_def configQ_def setMREDMode_def ds_new_def ds_reset_def)

lemma demo_phb: "phb (demo_router m) = [(10, 0, 0), (11, 0, 1), (20, 1, 0)]"
  by (simp add: demo_router_def setSchedularMode_def configQ_def setMREDMode_def)

lemma demo_routable: "\<forall>e \<in> set demo_events. routable (demo_router m) e"
  by (simp add: demo_events_def goes_to_def [abs_def] lookupPHBTable_def demo_phb demo_pkt_def packet_alloc_def)

theorem router_fifo_witness:
  "\<exists>ls D'. router_run demo_events (demo_router WIRR) = Inr (ls, D') \<and> ds_ok D' \<and> phb D' = phb (demo_router WIRR) \<and> numQueues D' = numQueues (demo_router WIRR)
    \<and> (\<forall>q < numQueues (demo_router WIRR). departed (\<lambda>p. goes_to (demo_router WIRR) p q) ls @ items_of D' q
        = items_of (demo_router WIRR) q @ admitted (\<lambda>p. goes_to (demo_router WIRR) p q) ls)"
  by (rule router_fifo [OF demo_router_ok(1) demo_routable])

text \<open>One packet of class 10 and one of class 20 wait.\<close>

definition demo_busy :: "sched_mode \<Rightarrow> ds_queue" where
  "demo_busy m = (case router_run (take 3 demo_events) (demo_router m) of Inl e \<Rightarrow> demo_router m | Inr (ls, D) \<Rightarrow> D)"

lemma demo_busy_ok: "ds_ok (demo_busy m)"
proof -
  have "\<forall>e \<in> set (take 3 demo_events). routable (demo_router m) e" using demo_routable in_set_takeD by fast
  then obtain ls D' where "router_run (take 3 demo_events) (demo_router m) = Inr (ls, D')" "ds_ok D'"
    using router_run_ok [OF demo_router_ok(1)] by blast
  then show ?thesis by (simp add: demo_busy_def)
qed

lemma demo_busy_state:
  "map uid (items_of (demo_busy RR) 0) = [1, 3] \<and> map uid (items_of (demo_busy RR) 1) = [2] \<and> schedMode (demo_busy RR) = RR \<and> numQueues (demo_busy RR) = 2
   \<and> phb (demo_busy RR) = [(10, 0, 0), (11, 0, 1), (20, 1, 0)]"
  by code_simp

lemma demo_busy_pri:
  "schedMode (demo_busy PRI) = PRI \<and> (case ds_deque 5 (demo_busy PRI) of Inr (Some p, D') \<Rightarrow> uid p = 1 | _ \<Rightarrow> False)"
  by code_simp

theorem rr_turn_comes_witness:
  "\<exists>ls D'. router_run [Departure 5, Arrival 6 0 (demo_pkt 5 11), Departure 7] (demo_busy RR) = Inr (ls, D')
     \<and> Left (Some (hd (items_of (demo_busy RR) 1))) \<in> set ls"
proof -
  note b = demo_busy_state
  have r: "\<forall>e \<in> set [Departure 5, Arrival 6 0 (demo_pkt 5 11), Departure 7]. routable (demo_busy RR) e"
    using b by (simp add: goes_to_def [abs_def] lookupPHBTable_def demo_pkt_def packet_alloc_def)
  obtain ls D' where run: "router_run [Departure 5, Arrival 6 0 (demo_pkt 5 11), Departure 7] (demo_busy RR) = Inr (ls, D')"
    using router_run_ok [OF demo_busy_ok r] by blast
  have "Left (Some (hd (items_of (demo_busy RR) 1))) \<in> set ls"
    by (rule rr_turn_comes [OF demo_busy_ok _ _ _ r run]) (use b in auto)
  with run show ?thesis by blast
qed

theorem pri_takes_first_witness:
  "\<exists>p D' q. ds_deque 5 (demo_busy PRI) = Inr (Some p, D') \<and> goes_to (demo_busy PRI) p q \<and> hd (items_of (demo_busy PRI) q) = p"
proof -
  from demo_busy_pri obtain p D' where d: "ds_deque 5 (demo_busy PRI) = Inr (Some p, D')" by (auto split: sum.splits option.splits)
  from pri_takes_first [OF demo_busy_ok _ d] demo_busy_pri d show ?thesis by blast
qed

theorem router_work_conserving_witness:
  "\<exists>D'. ds_deque 1 (demo_router WRR) = Inr (None, D') \<and> items_of (demo_router WRR) 1 = []"
proof -
  have "case ds_deque 1 (demo_router WRR) of Inr (None, D') \<Rightarrow> True | _ \<Rightarrow> False" by code_simp
  then obtain D' where d: "ds_deque 1 (demo_router WRR) = Inr (None, D')" by (auto split: sum.splits option.splits)
  have "items_of (demo_router WRR) 1 = []"
    by (rule router_work_conserving [OF demo_router_ok(1) _ d]) (simp_all add: demo_router_ok)
  with d show ?thesis by blast
qed

section \<open>Interleaved weights\<close>






end
