(* ===== verification/DsRedProps.thy ===== *)
theory DsRedProps
  imports DsRouterProps
begin

text \<open>
  Random early detection in a differentiated services router: the averages stay within the limit of the queue, a steady
  average drops a packet in time, and a growing one can stop the drops for good.
\<close>

section \<open>The averages\<close>

definition avg_view :: "red_queue \<Rightarrow> (real \<times> real) list \<times> int \<times> mred" where
  "avg_view R = (map (\<lambda>q. (v_ave q, q_w q)) (qParam R), redlim R, mredMode R)"

text \<open>The weights are between 0 and 1; where the averages add up the virtual queues they are the same.\<close>

definition avg_ok :: "red_queue \<Rightarrow> bool" where
  "avg_ok R \<longleftrightarrow> length (qParam R) = MAX_PREC \<and> (\<forall>i < MAX_PREC. 0 \<le> v_ave (qParam R ! i) \<and> v_ave (qParam R ! i) \<le> of_int (redlim R)
     \<and> 0 \<le> q_w (qParam R ! i) \<and> q_w (qParam R ! i) \<le> 1) \<and> (mredMode R = RioC \<longrightarrow> (\<exists>w. \<forall>i < MAX_PREC. q_w (qParam R ! i) = w))"

lemma avg_ok_alt:
  assumes "avg_view R = (vs, l, m)"
  shows "avg_ok R \<longleftrightarrow> length vs = MAX_PREC \<and> (\<forall>i < MAX_PREC. 0 \<le> fst (vs ! i) \<and> fst (vs ! i) \<le> of_int l \<and> 0 \<le> snd (vs ! i) \<and> snd (vs ! i) \<le> 1)
     \<and> (m = RioC \<longrightarrow> (\<exists>w. \<forall>i < MAX_PREC. snd (vs ! i) = w))"
proof (cases "length (qParam R) = MAX_PREC")
  case True
  then have "vs ! i = (v_ave (qParam R ! i), q_w (qParam R ! i))" if "i < MAX_PREC" for i using assms that by (auto simp: avg_view_def)
  then show ?thesis using True assms by (auto simp: avg_ok_def avg_view_def)
qed (use assms in \<open>auto simp: avg_ok_def avg_view_def\<close>)

lemma avg_ok_view: "avg_view R' = avg_view R \<Longrightarrow> avg_ok R' = avg_ok R"
  by (cases "avg_view R") (simp add: avg_ok_alt)

lemma idle_from_avg: "map (\<lambda>q. (v_ave q, q_w q)) (idle_from now i k qs) = map (\<lambda>q. (v_ave q, q_w q)) qs"
  by (induction now i k qs rule: idle_from.induct) (simp_all add: map_update_same)

lemma judge_avg: "red_judge u q = (v, q') \<Longrightarrow> v_ave q' = v_ave q \<and> q_w q' = q_w q \<and> th_min q' = th_min q \<and> th_max q' = th_max q \<and> max_p_inv q' = max_p_inv q"
  by (auto simp: red_judge_def Let_def split: if_splits)

lemma avg_frame:
  "avg_view (updateIdleFlag prec R) = avg_view R" "avg_view (updateREDStateVar now prec R) = avg_view R" "avg_view (updateVREDLen prec R) = avg_view R"
  "avg_view (red_put p prec R) = avg_view R" "avg_view (R\<lparr>fifo_q := Q\<rparr>) = avg_view R"
  "red_judge u (qParam R ! prec) = (v, q) \<Longrightarrow> avg_view (R\<lparr>qParam := (qParam R)[prec := q]\<rparr>) = avg_view R"
  by (auto simp: avg_view_def updateIdleFlag_def updateREDStateVar_def updateVREDLen_def red_put_def idle_from_avg map_update_same map_upd_range_same
      judge_avg split: mred.split)

lemma decay_bounds: "0 \<le> w \<Longrightarrow> w \<le> 1 \<Longrightarrow> 0 \<le> f \<Longrightarrow> 0 \<le> decay_loop w k f \<and> decay_loop w k f \<le> f"
proof (induction w k f rule: decay_loop.induct)
  case (2 w k f)
  then have "0 \<le> f * (1 - w)" "f * (1 - w) \<le> f" by (simp_all add: mult_left_le)
  with 2 show ?case by fastforce
qed simp

lemma sum_counts: "sum_list (map (\<lambda>i. int (length (filter (\<lambda>p. pr p = i) xs))) [0..<k]) = int (length (filter (\<lambda>p. pr p < k) xs))"
proof (induction k)
  case (Suc k)
  have "length (filter (\<lambda>p. pr p < Suc k) xs) = length (filter (\<lambda>p. pr p < k) xs) + length (filter (\<lambda>p. pr p = k) xs)"
    by (induction xs) auto
  with Suc show ?case by simp
qed simp

lemma sum_scaled: "sum_list (map (\<lambda>i. c * of_int (g i)) xs) = c * real_of_int (sum_list (map g xs))"
  by (induction xs) (simp_all add: distrib_left)

text \<open>One step of the average stays within the limit.\<close>

lemma calcAvg_ok:
  assumes "avg_ok R" "red_ok pr R" "prec < MAX_PREC" "int (length (red_items R)) \<le> redlim R"
  shows "avg_ok (calcAvg prec m R)"
proof -
  let ?q = "qParam R ! prec" and ?len = "int (length (red_items R))"
  have a: "0 \<le> v_ave ?q" "v_ave ?q \<le> of_int (redlim R)" "0 \<le> q_w ?q" "q_w ?q \<le> 1" "length (qParam R) = MAX_PREC"
    using assms(1,3) by (auto simp: avg_ok_def)
  define g where "g = decay_loop (q_w ?q) (nat (m - 1)) (v_ave ?q) * (1 - q_w ?q)"
  define c where "c = (case mredMode R of
      RioC \<Rightarrow> sum_list (map (\<lambda>i. q_w (qParam R ! i) * of_int (qlen (qParam R ! i))) [0..<Suc prec])
    | RioD \<Rightarrow> q_w ?q * of_int (qlen ?q) | _ \<Rightarrow> q_w ?q * of_int (pq_len (fifo_q R)))"
  have "0 \<le> decay_loop (q_w ?q) (nat (m - 1)) (v_ave ?q)" "decay_loop (q_w ?q) (nat (m - 1)) (v_ave ?q) \<le> of_int (redlim R)"
    using decay_bounds [OF a(3,4,1), of "nat (m - 1)"] a(2) by auto
  then have g: "0 \<le> g" "g \<le> of_int (redlim R) * (1 - q_w ?q)" using a(3,4) unfolding g_def by (auto intro: mult_right_mono)
  have n: "qlen (qParam R ! i) = int (length (filter (\<lambda>p. pr p = i) (red_items R)))" if "i < MAX_PREC" for i
    using assms(2) that by (simp add: red_ok_def)
  have l: "pq_len (fifo_q R) = ?len" using assms(2) by (simp add: red_ok_def pq_inv_def red_items_def)
  have some: "q_w ?q * of_int k \<le> q_w ?q * of_int (redlim R)" "0 \<le> q_w ?q * of_int k" if "0 \<le> k" "k \<le> ?len" for k :: int
    using a(3) that assms(4) by (auto intro: mult_left_mono)
  have c: "0 \<le> c \<and> c \<le> q_w ?q * of_int (redlim R)"
  proof (cases "mredMode R")
    case RioC
    have w: "q_w (qParam R ! i) = q_w ?q" if "i < Suc prec" for i
    proof -
      obtain w where "\<forall>i < MAX_PREC. q_w (qParam R ! i) = w" using assms(1) RioC by (auto simp: avg_ok_def)
      then show ?thesis using that assms(3) by simp
    qed
    have each: "q_w (qParam R ! i) * of_int (qlen (qParam R ! i)) = q_w ?q * of_int (int (length (filter (\<lambda>p. pr p = i) (red_items R))))"
      if "i \<in> set [0..<Suc prec]" for i
    proof -
      have i: "i < Suc prec" "i < MAX_PREC" using that assms(3) by auto
      show ?thesis unfolding w [OF i(1)] n [OF i(2)] ..
    qed
    have "c = sum_list (map (\<lambda>i. q_w (qParam R ! i) * of_int (qlen (qParam R ! i))) [0..<Suc prec])" unfolding c_def RioC mred.case ..
    also have "\<dots> = sum_list (map (\<lambda>i. q_w ?q * of_int (int (length (filter (\<lambda>p. pr p = i) (red_items R))))) [0..<Suc prec])"
      by (intro arg_cong [where f = sum_list] map_cong refl each)
    also have "\<dots> = q_w ?q * of_int (sum_list (map (\<lambda>i. int (length (filter (\<lambda>p. pr p = i) (red_items R)))) [0..<Suc prec]))"
      by (rule sum_scaled)
    also have "\<dots> = q_w ?q * of_int (int (length (filter (\<lambda>p. pr p < Suc prec) (red_items R))))" unfolding sum_counts ..
    finally have e: "c = q_w ?q * of_int (int (length (filter (\<lambda>p. pr p < Suc prec) (red_items R))))" .
    show ?thesis unfolding e by (intro conjI some) simp_all
  next
    case RioD
    then show ?thesis using some [of "qlen ?q"] n [OF assms(3)] by (simp add: c_def)
  qed (use some [of ?len] l in \<open>simp_all add: c_def\<close>)
  define f where "f = g + c"
  have f: "0 \<le> f" "f \<le> of_int (redlim R)" using g c by (auto simp: f_def algebra_simps)
  have "calcAvg prec m R = R\<lparr>qParam := (if mredMode R = Wred then upd_range 0 (numPrec R) (\<lambda>q. q\<lparr>v_ave := f\<rparr>) (qParam R)
      else (qParam R)[prec := ?q\<lparr>v_ave := f\<rparr>])\<rparr>"
    unfolding calcAvg_def Let_def f_def c_def g_def by (cases "mredMode R") simp_all
  moreover have "avg_ok (R\<lparr>qParam := upd_range 0 (numPrec R) (\<lambda>q. q\<lparr>v_ave := f\<rparr>) (qParam R)\<rparr>)"
    using assms(1) f a(5) unfolding avg_ok_def by simp
  moreover have "avg_ok (R\<lparr>qParam := (qParam R)[prec := ?q\<lparr>v_ave := f\<rparr>]\<rparr>)"
  proof -
    have "q_w ((qParam R)[prec := ?q\<lparr>v_ave := f\<rparr>] ! i) = q_w (qParam R ! i)" if "i < MAX_PREC" for i
      using that a(5) by (cases "i = prec") simp_all
    moreover have "0 \<le> v_ave ((qParam R)[prec := ?q\<lparr>v_ave := f\<rparr>] ! i) \<and> v_ave ((qParam R)[prec := ?q\<lparr>v_ave := f\<rparr>] ! i) \<le> of_int (redlim R)"
      if "i < MAX_PREC" for i
      using that a(5) f assms(1) by (cases "i = prec") (simp_all add: avg_ok_def)
    ultimately show ?thesis using assms(1) a(5) unfolding avg_ok_def by simp
  qed
  ultimately show ?thesis by simp
qed

lemma measure_avg:
  assumes "avg_ok R" "red_ok pr R" "int (length (red_items R)) \<le> redlim R" "prec < MAX_PREC"
  shows "avg_ok (red_measure now prec R)"
proof -
  have keep: "red_ok pr (calcAvg i m S) \<and> red_items (calcAvg i m S) = red_items S \<and> redlim (calcAvg i m S) = redlim S"
    if "red_ok pr S" for i m S
  proof -
    obtain Q ls n l md where v: "red_view S = (Q, ls, n, l, md)" by (cases "red_view S") auto
    then have v': "red_view (calcAvg i m S) = (Q, ls, n, l, md)" by (simp add: red_frame)
    show ?thesis using that v v' unfolding red_ok_view [OF v] red_ok_view [OF v'] by (auto simp: red_view_def red_items_def)
  qed
  have "avg_ok (fold (measure_at now) is S)"
    if "avg_ok S" "red_ok pr S" "int (length (red_items S)) \<le> redlim S" "\<forall>i \<in> set is. i < MAX_PREC" for "is" S
    using that
  proof (induction "is" arbitrary: S)
    case (Cons i "is")
    then show ?case using calcAvg_ok [OF Cons.prems(1,2), of i] keep [OF Cons.prems(2)] by (simp add: measure_at_def)
  qed simp
  from this [OF assms(1,2,3)] show ?thesis
    using calcAvg_ok [OF assms(1,2) _ assms(3)] assms(1,2,4) by (auto simp: red_measure_def measure_at_def red_ok_def MAX_PREC_def split: mred.split)
qed

lemma red_enque_avg:
  assumes "avg_ok R" "red_ok pr R" "prec < MAX_PREC" "red_enque now u p prec ecn R = (o', R')"
  shows "avg_ok R'"
proof (cases "pq_len (fifo_q R) > redlim R - 1 \<or> mredMode R = DropMode \<and> of_int (qlen (qParam R ! prec)) \<ge> th_min (qParam R ! prec)")
  case True
  then have "red_enque now u p prec ecn R = (PKT_DROPPED, R)" unfolding red_enque_def by (elim disjE) simp_all
  then show ?thesis using assms(1,4) by simp
next
  case False
  have "int (length (red_items R)) \<le> redlim R" using False assms(2) by (auto simp: red_ok_def pq_inv_def red_items_def)
  from measure_avg [OF assms(1,2) this assms(3)] have m: "avg_ok (red_measure now prec R)" .
  define R2 where "R2 = (if ecn then red_put p prec (red_measure now prec R) else red_measure now prec R)"
  obtain v q where j: "red_judge u (qParam R2 ! prec) = (v, q)" by fastforce
  define R3 where "R3 = R2\<lparr>qParam := (qParam R2)[prec := q]\<rparr>"
  have n: "\<not> pq_len (fifo_q R) > redlim R - 1" "\<not> (mredMode R = DropMode \<and> of_int (qlen (qParam R ! prec)) \<ge> th_min (qParam R ! prec))"
    using False by auto
  have e: "(o', R') = (if v = Keep then (PKT_ENQUEUED, updateIdleFlag prec (if ecn then R3 else red_put p prec R3))
           else if ecn then (PKT_MARKED, updateIdleFlag prec R3) else (if v = Early then PKT_EDROPPED else PKT_DROPPED, R3))"
    unfolding assms(4) [symmetric] red_enque_def if_not_P [OF n(1)] if_not_P [OF n(2)] Let_def R2_def [symmetric] j prod.case R3_def [symmetric] ..
  have "avg_view R2 = avg_view (red_measure now prec R)" by (simp add: R2_def avg_frame)
  moreover have "avg_view R3 = avg_view R2" unfolding R3_def by (rule avg_frame(6) [OF j])
  moreover have "avg_view R' = avg_view R3" using e by (auto simp: avg_frame split: if_splits)
  ultimately show ?thesis using m avg_ok_view by metis
qed

lemma ds_enque_redq:
  assumes "ds_enque now u p D = Inr (o', D')"
  obtains q prec R where "redq D' = (redq D)[q := R]" "q < MAX_QUEUES" "prec < MAX_PREC"
    "red_enque now u p prec (ecn_on D \<and> ect (body p)) (redq D ! q) = (o', R)"
proof -
  obtain q prec where l: "lookupPHBTable (prio (body p)) D = Inr (q, prec)" using assms by (auto simp: ds_enque_def Let_def bindR_eq_Inr)
  obtain o'' R where e: "red_enque now u p prec (ecn_on D \<and> ect (body p)) (redq D ! q) = (o'', R)" by fastforce
  show thesis
    using assms by (intro that [of q R prec]) (auto simp: ds_enque_def Let_def l e count_outcome_same split: if_splits)
qed

lemma ds_deque_redq:
  assumes "ds_deque now D = Inr (r, D')"
  shows "redq D' = redq D \<or> (\<exists>q R. redq D' = (redq D)[q := R] \<and> (q < length (redq D) \<longrightarrow> avg_view R = avg_view (redq D ! q)))"
proof -
  let ?D = "selectQueueToDeque D"
  let ?q = "qToDq ?D"
  obtain r' Q where d: "pq_deque (fifo_q (redq ?D ! ?q)) = (r', Q)" by fastforce
  show ?thesis
  proof (cases "?q < numQueues D \<and> r' \<noteq> None")
    case False
    then have "ds_deque now D = Inr (None, ?D)" using d by (auto simp: ds_deque_def Let_def select_same(3))
    then show ?thesis using assms by (simp add: select_same)
  next
    case True
    then obtain p where r': "r' = Some p" by auto
    define D2 where "D2 = ?D\<lparr>redq := (redq ?D)[?q := (redq ?D ! ?q)\<lparr>fifo_q := Q\<rparr>], pktcount := (pktcount ?D)[?q := pktcount ?D ! ?q + 1]\<rparr>"
    define D3 where "D3 = (if schedMode D = PRI then meter_queues now ?q (psize p) D2 else D2)"
    have eq: "ds_deque now D = bindR (lookupPHBTable (prio (body p)) D3) (\<lambda>(qa, prec). if prec \<ge> MAX_PREC then Inl OutOfBounds
        else Inr (Some p, D3\<lparr>redq := (redq D3)[?q := updateREDStateVar now prec (updateVREDLen prec (redq D3 ! ?q))]\<rparr>))"
      using True unfolding ds_deque_def Let_def D3_def D2_def by (simp only: select_same(3) simp_thms if_False d r' prod.case option.case)
    then obtain prec where D': "D' = D3\<lparr>redq := (redq D3)[?q := updateREDStateVar now prec (updateVREDLen prec (redq D3 ! ?q))]\<rparr>"
      using assms unfolding eq by (auto simp: bindR_eq_Inr split: if_splits)
    have "redq D3 = (redq D)[?q := (redq D ! ?q)\<lparr>fifo_q := Q\<rparr>]" by (simp add: D3_def D2_def meter_same select_same)
    then have "redq D' = (redq D)[?q := updateREDStateVar now prec (updateVREDLen prec (redq D3 ! ?q))]"
      "?q < length (redq D) \<longrightarrow> avg_view (updateREDStateVar now prec (updateVREDLen prec (redq D3 ! ?q))) = avg_view (redq D ! ?q)"
      unfolding D' by (simp_all add: avg_frame)
    then show ?thesis by blast
  qed
qed

text \<open>
  C21: The averages of random early detection stay between 0 and the limit of their queue over any arrivals and departures,
  once they are, as long as the weights are between 0 and 1 and, where the averages of a queue add up its virtual queues
  (\<open>RIO-C\<close>), the weights of its precedences are the same, as they are unless \<open>configQ\<close> is given different ones.
\<close>

theorem red_average_bounded:
  assumes "ds_ok D" "\<forall>e \<in> set es. routable D e" "router_run es D = Inr (ls, D')"
    and "\<forall>q < MAX_QUEUES. length (qParam (redq D ! q)) = MAX_PREC"
    and "\<forall>q < MAX_QUEUES. \<forall>i < MAX_PREC. 0 \<le> v_ave (qParam (redq D ! q) ! i) \<and> v_ave (qParam (redq D ! q) ! i) \<le> of_int (redlim (redq D ! q))"
    and "\<forall>q < MAX_QUEUES. \<forall>i < MAX_PREC. 0 \<le> q_w (qParam (redq D ! q) ! i) \<and> q_w (qParam (redq D ! q) ! i) \<le> 1"
    and "\<forall>q < MAX_QUEUES. mredMode (redq D ! q) = RioC \<longrightarrow> (\<forall>i < MAX_PREC. q_w (qParam (redq D ! q) ! i) = q_w (qParam (redq D ! q) ! 0))"
    and "q < MAX_QUEUES" "i < MAX_PREC"
  shows "0 \<le> v_ave (qParam (redq D' ! q) ! i) \<and> v_ave (qParam (redq D' ! q) ! i) \<le> of_int (redlim (redq D' ! q))"
proof -
  have start: "\<forall>q < MAX_QUEUES. avg_ok (redq D ! q)" using assms(4-7) unfolding avg_ok_def by blast
  have "\<forall>q < MAX_QUEUES. avg_ok (redq D' ! q)"
    using assms(1) start assms(2,3)
  proof (induction es arbitrary: D ls)
    case (Cons e es)
    from Cons.prems(4) obtain l D1 ls1 where s: "router_step e D = Inr (l, D1)" "router_run es D1 = Inr (ls1, D')"
      by (auto simp: bindR_eq_Inr)
    have rt: "routable D e" using Cons.prems(3) by simp
    obtain l' D'' where "router_step e D = Inr (l', D'')" "ds_ok D''" "phb D'' = phb D"
      by (rule router_step_ok [OF Cons.prems(1) rt]) (rule that; assumption)
    then have k: "ds_ok D1" "phb D1 = phb D" using s(1) by simp_all
    have len: "length (redq D) = MAX_QUEUES" using Cons.prems(1) by (simp add: ds_ok_def)
    have "avg_ok (redq D1 ! j)" if j: "j < MAX_QUEUES" for j
    proof (cases e)
      case (Arrival now u p)
      then obtain o' where "ds_enque now u p D = Inr (o', D1)" using s(1) by (auto simp: bindR_eq_Inr)
      then obtain i prec R where r: "redq D1 = (redq D)[i := R]" "i < MAX_QUEUES" "prec < MAX_PREC"
        "red_enque now u p prec (ecn_on D \<and> ect (body p)) (redq D ! i) = (o', R)" by (rule ds_enque_redq)
      have "red_ok (code_prec D) (redq D ! i)" using Cons.prems(1) r(2) by (simp add: ds_ok_def)
      then have "avg_ok R" using red_enque_avg [OF _ _ r(3,4)] Cons.prems(2) r(2) by blast
      then show ?thesis using Cons.prems(2) r(1) j len by (cases "j = i") simp_all
    next
      case (Departure now)
      then obtain r where "ds_deque now D = Inr (r, D1)" using s(1) by (auto simp: bindR_eq_Inr)
      from ds_deque_redq [OF this] show ?thesis
      proof
        assume "redq D1 = redq D"
        then show ?thesis using Cons.prems(2) j by simp
      next
        assume "\<exists>q R. redq D1 = (redq D)[q := R] \<and> (q < length (redq D) \<longrightarrow> avg_view R = avg_view (redq D ! q))"
        then obtain i R where r: "redq D1 = (redq D)[i := R]" "i < length (redq D) \<longrightarrow> avg_view R = avg_view (redq D ! i)" by blast
        show ?thesis
        proof (cases "j = i")
          case True
          then have "avg_ok R = avg_ok (redq D ! j)" using r(2) j len by (intro avg_ok_view) simp
          then show ?thesis using True r(1) j len Cons.prems(2) by simp
        qed (use r(1) j Cons.prems(2) in simp)
      qed
    qed
    then have "\<forall>q < MAX_QUEUES. avg_ok (redq D1 ! q)" by blast
    moreover have "\<forall>e \<in> set es. routable D1 e" using Cons.prems(3) routable_same [OF k(2)] by simp
    ultimately show ?case by (rule Cons.IH [OF k(1) _ _ s(2)])
  qed simp
  then show ?thesis using assms(8,9) by (simp add: avg_ok_def)
qed

lemma demo_avg: "\<forall>q < MAX_QUEUES. avg_ok (redq (demo_router m) ! q)"
proof -
  have "\<forall>R \<in> set (redq (demo_router m)). avg_ok R"
    by (simp add: demo_router_def setSchedularMode_def configQ_def setMREDMode_def ds_new_def ds_reset_def red_new_def red_config_def avg_ok_def
      MAX_QUEUES_def MAX_PREC_def numeral_eq_Suc All_less_Suc)
  moreover have "length (redq (demo_router m)) = MAX_QUEUES" using demo_router_ok(1) [of m] by (simp add: ds_ok_def)
  ultimately show ?thesis by simp
qed

theorem red_average_bounded_witness:
  "\<exists>ls D'. router_run demo_events (demo_router RR) = Inr (ls, D')
    \<and> 0 \<le> v_ave (qParam (redq D' ! 0) ! 0) \<and> v_ave (qParam (redq D' ! 0) ! 0) \<le> of_int (redlim (redq D' ! 0))"
proof -
  obtain ls D' where r: "router_run demo_events (demo_router RR) = Inr (ls, D')"
    using router_run_ok [OF demo_router_ok(1) demo_routable] by blast
  have m: "\<forall>q < MAX_QUEUES. mredMode (redq (demo_router RR) ! q) \<noteq> RioC"
  proof -
    have "\<forall>R \<in> set (redq (demo_router RR)). mredMode R \<noteq> RioC"
      by (simp add: demo_router_def setSchedularMode_def configQ_def setMREDMode_def ds_new_def ds_reset_def red_new_def red_config_def
        MAX_QUEUES_def MAX_PREC_def numeral_eq_Suc All_less_Suc)
    moreover have "length (redq (demo_router RR)) = MAX_QUEUES" using demo_router_ok(1) [of RR] by (simp add: ds_ok_def)
    ultimately show ?thesis by simp
  qed
  have "0 \<le> v_ave (qParam (redq D' ! 0) ! 0) \<and> v_ave (qParam (redq D' ! 0) ! 0) \<le> of_int (redlim (redq D' ! 0))"
    by (rule red_average_bounded [OF demo_router_ok(1) demo_routable r])
      (use demo_avg [of RR] m in \<open>simp_all add: avg_ok_def\<close>, simp_all add: MAX_QUEUES_def MAX_PREC_def)
  with r show ?thesis by blast
qed

section \<open>Drops\<close>

text \<open>The packets that arrive with a number drawn and the average at that time, up to the first drop.\<close>

fun judge_run :: "(real \<times> real) list \<Rightarrow> qparam \<Rightarrow> verdict list" where
  "judge_run [] q = []"
| "judge_run ((u, a) # xs) q = (let (v, q1) = red_judge u (q\<lparr>v_ave := a\<rparr>) in v # judge_run xs q1)"

definition early_prob :: "qparam \<Rightarrow> real \<Rightarrow> real" where
  "early_prob q a = (1 / max_p_inv q) * (a - th_min q) / (th_max q - th_min q)"

definition in_band :: "qparam \<Rightarrow> real \<Rightarrow> bool" where
  "in_band q a \<longleftrightarrow> th_min q < a \<and> a \<le> th_max q"

lemma red_judge_band:
  assumes "in_band q a"
  shows "red_judge u (q\<lparr>v_ave := a\<rparr>) =
    (if drop_hit u (early_prob q a) (early_count q + 1) then (Early, q\<lparr>v_ave := a, v_prob := early_prob q a, early_count := 0\<rparr>)
     else (Keep, q\<lparr>v_ave := a, v_prob := early_prob q a, early_count := early_count q + 1\<rparr>))"
  using assms by (simp add: red_judge_def in_band_def early_prob_def Let_def)

lemma band_same:
  assumes "th_min q' = th_min q" "th_max q' = th_max q" "max_p_inv q' = max_p_inv q"
  shows "in_band q' a = in_band q a" "early_prob q' a = early_prob q a"
  using assms by (simp_all add: in_band_def early_prob_def)

text \<open>
  C22: While the average stays where it is between the thresholds, early drops come in time: with probability p, of any
  k packets in a row with k p at least 1 one is dropped, whatever numbers are drawn, counted from the last drop.
\<close>

theorem red_drops_in_time:
  assumes "in_band q a" "0 < early_prob q a" "0 \<le> early_count q" "(of_int (early_count q) + 1) * early_prob q a \<le> 1"
    "(of_int (early_count q) + real (length us)) * early_prob q a \<ge> 1" "\<forall>u \<in> set us. u \<le> 1"
  shows "Early \<in> set (judge_run (map (\<lambda>u. (u, a)) us) q)"
  using assms
proof (induction us arbitrary: q)
  case (Cons u us)
  let ?p = "early_prob q a" and ?n = "early_count q + 1"
  define q1 where "q1 = q\<lparr>v_ave := a, v_prob := ?p, early_count := ?n\<rparr>"
  have s: "in_band q1 a" "early_prob q1 a = ?p" "early_count q1 = ?n"
    using Cons.prems(1) by (auto simp: q1_def in_band_def early_prob_def)
  show ?case
  proof (cases "drop_hit u ?p ?n")
    case True
    then show ?thesis by (simp add: red_judge_band [OF Cons.prems(1)])
  next
    case False
    define d where "d = 1 - of_int ?n * ?p"
    have "0 \<le> d" using Cons.prems(4) by (simp add: d_def)
    moreover have "d \<noteq> 0" using False Cons.prems(2) by (auto simp: drop_hit_def d_def)
    ultimately have d: "0 < d" by simp
    have "?p / d < u" using False d unfolding drop_hit_def d_def [symmetric] Let_def by auto
    then have "?p / d < 1" using Cons.prems(6) by auto
    then have "?p < d" using d by simp
    then have less: "(of_int ?n + 1) * ?p < 1" by (simp add: d_def algebra_simps)
    have "us \<noteq> []"
    proof
      assume "us = []"
      then show False using Cons.prems(2,5) less by (auto simp: algebra_simps)
    qed
    have "Early \<in> set (judge_run (map (\<lambda>u. (u, a)) us) q1)"
      by (rule Cons.IH [OF s(1)]) (use Cons.prems(2,3,5,6) less s in \<open>auto simp: algebra_simps\<close>)
    then show ?thesis using False by (simp add: red_judge_band [OF Cons.prems(1)] q1_def)
  qed
qed (simp add: distrib_right)

definition demo_band :: qparam where
  "demo_band = \<lparr>qlen = 0, idletime = 0, idle = False, th_min = 5, th_max = 15, max_p_inv = 2, q_w = 1, mean_pkt = 0, ptc = 0, v_ave = 7, v_prob = 0, early_count = 0\<rparr>"

theorem red_drops_in_time_witness:
  "Early \<in> set (judge_run (map (\<lambda>u. (u, 7)) (replicate 10 1)) demo_band)"
  by (rule red_drops_in_time) (simp_all add: in_band_def early_prob_def demo_band_def)

text \<open>
  C35: When the average has grown so fast that count times probability is beyond 1, no packet is dropped early any more,
  however long the average keeps from falling between the thresholds: the quotient in the code has become negative.
\<close>

theorem red_overrun:
  assumes "0 < max_p_inv q" "\<forall>(u, a) \<in> set xs. in_band q a \<and> 0 \<le> u" "sorted (map snd xs)" "xs \<noteq> []"
    "(of_int (early_count q) + 1) * early_prob q (snd (hd xs)) > 1" "0 \<le> early_count q"
  shows "judge_run xs q = replicate (length xs) Keep"
  using assms
proof (induction xs arbitrary: q)
  case (Cons x xs)
  obtain u a where x: "x = (u, a)" by fastforce
  let ?p = "early_prob q a" and ?n = "early_count q + 1"
  have band: "in_band q a" "0 \<le> u" using Cons.prems(2) by (auto simp: x)
  have pos: "0 < ?p" using Cons.prems(1) band(1) by (simp add: early_prob_def in_band_def)
  have over: "of_int ?n * ?p > 1" using Cons.prems(5) by (simp add: x)
  then have "?p / (1 - of_int ?n * ?p) < 0" using pos by (simp add: divide_pos_neg)
  then have "\<not> drop_hit u ?p ?n" using over band(2) by (simp add: drop_hit_def Let_def)
  note j = red_judge_band [OF band(1), of u, unfolded if_not_P [OF this]]
  define q1 where "q1 = q\<lparr>v_ave := a, v_prob := ?p, early_count := ?n\<rparr>"
  have same: "in_band q1 b = in_band q b" "early_prob q1 b = early_prob q b" for b by (simp_all add: q1_def in_band_def early_prob_def)
  have "judge_run xs q1 = replicate (length xs) Keep"
  proof (cases xs)
    case (Cons y ys)
    obtain w b where y: "y = (w, b)" by fastforce
    have ab: "a \<le> b" "in_band q b" using Cons.prems(2,3) Cons by (auto simp: x y)
    have "?p \<le> early_prob q b"
      unfolding early_prob_def using ab Cons.prems(1) band(1) by (intro divide_right_mono mult_left_mono) (auto simp: in_band_def)
    then have "of_int ?n * ?p \<le> (of_int ?n + 1) * early_prob q b" using Cons.prems(6) pos by (intro mult_mono) auto
    then have o1: "1 < (of_int (early_count q1) + 1) * early_prob q1 (snd (hd xs))" using over unfolding same by (simp add: q1_def Cons y)
    show ?thesis
      by (rule Cons.IH [OF _ _ _ _ o1]) (use Cons.prems Cons in \<open>auto simp: same q1_def in_band_def\<close>)
  qed simp
  then show ?case unfolding x judge_run.simps j by (simp add: q1_def)
qed simp

theorem red_overrun_witness:
  "judge_run [(1 / 2, 10), (0, 11), (1 / 2, 12)] (demo_band\<lparr>early_count := 9\<rparr>) = replicate 3 Keep"
proof -
  define xs :: "(real \<times> real) list" where "xs = [(1 / 2, 10), (0, 11), (1 / 2, 12)]"
  have "judge_run xs (demo_band\<lparr>early_count := 9\<rparr>) = replicate (length xs) Keep"
    by (rule red_overrun) (simp_all add: xs_def in_band_def early_prob_def demo_band_def)
  then show ?thesis unfolding xs_def by (simp only: list.size add_0 One_nat_def plus_nat.add_Suc numeral_3_eq_3)
qed

end
