(* ===== verification/DsEdge.thy ===== *)
theory DsEdge
  imports DsProps DsRedProps
begin

text \<open>
  An edge router, \<open>diffserv/dsEdge.cc\<close>: the classifier marks a packet, the queues of the router take it in by its mark.
  The log of a run has the packets as they arrive and what the classifier says of them.
\<close>

section \<open>Arrival at an edge router\<close>

definition ds_view :: "ds_packet \<Rightarrow> ds_pkt" where
  "ds_view p = \<lparr>ds_saddr = sint (saddr p), ds_daddr = sint (daddr p), ds_fid = flowid (body p), ds_size = psize p\<rparr>"

definition set_prio :: "int \<Rightarrow> ds_packet \<Rightarrow> ds_packet" where
  "set_prio cp p = p\<lparr>body := (body p)\<lparr>prio := cp\<rparr>\<rparr>"

definition edge_enque ::
  "real \<Rightarrow> real \<Rightarrow> real \<Rightarrow> ds_packet \<Rightarrow> classifier \<times> ds_queue \<Rightarrow> (((nat \<times> colour \<times> int) \<times> red_outcome) \<times> classifier \<times> ds_queue) res"
where
  "edge_enque now u1 u2 p S =
     (case S of (C, D) \<Rightarrow>
        bindR (mark now u1 (ds_view p) C) (\<lambda>((i, c, cp), C1).
          bindR (ds_enque now u2 (set_prio cp p) D) (\<lambda>(o', D1). Inr (((i, c, cp), o'), C1, D1))))"

datatype edge_event = EArrival real real real ds_packet | EDeparture real
datatype edge_log = EMarked nat colour int red_outcome ds_packet | ELeft "ds_packet option"

fun edge_step :: "edge_event \<Rightarrow> classifier \<times> ds_queue \<Rightarrow> (edge_log \<times> classifier \<times> ds_queue) res" where
  "edge_step (EArrival now u1 u2 p) S = bindR (edge_enque now u1 u2 p S) (\<lambda>(((i, c, cp), o'), S1). Inr (EMarked i c cp o' p, S1))"
| "edge_step (EDeparture now) S = (case S of (C, D) \<Rightarrow> bindR (ds_deque now D) (\<lambda>(r, D1). Inr (ELeft r, C, D1)))"

fun edge_run :: "edge_event list \<Rightarrow> classifier \<times> ds_queue \<Rightarrow> (edge_log list \<times> classifier \<times> ds_queue) res" where
  "edge_run [] S = Inr ([], S)"
| "edge_run (e # es) S = bindR (edge_step e S) (\<lambda>(l, S1). bindR (edge_run es S1) (\<lambda>(ls, S2). Inr (l # ls, S2)))"

section \<open>What the classifier sees of a run\<close>

fun arrivals_of :: "edge_event list \<Rightarrow> arrival list" where
  "arrivals_of [] = []"
| "arrivals_of (EArrival now u1 u2 p # es) = (now, u1, ds_view p) # arrivals_of es"
| "arrivals_of (EDeparture now # es) = arrivals_of es"

fun marks_of :: "edge_log list \<Rightarrow> (nat \<times> colour \<times> int) list" where
  "marks_of [] = []"
| "marks_of (EMarked i c cp o' p # ls) = (i, c, cp) # marks_of ls"
| "marks_of (ELeft r # ls) = marks_of ls"

lemma edge_run_marks: "edge_run es (C, D) = Inr (ls, C', D') \<Longrightarrow> ds_run (arrivals_of es) C = Inr (marks_of ls, C')"
proof (induction es arbitrary: C D ls)
  case (Cons e es)
  from Cons.prems obtain l C1 D1 ls1 where s: "edge_step e (C, D) = Inr (l, C1, D1)" "edge_run es (C1, D1) = Inr (ls1, C', D')" "ls = l # ls1"
    by (auto simp: bindR_eq_Inr)
  note IH = Cons.IH [OF s(2)]
  show ?case
  proof (cases e)
    case (EArrival now u1 u2 p)
    with s(1) obtain i c cp o' where "mark now u1 (ds_view p) C = Inr ((i, c, cp), C1)" "l = EMarked i c cp o' p"
      by (auto simp: edge_enque_def bindR_eq_Inr)
    then show ?thesis using IH EArrival s(3) by simp
  next
    case (EDeparture now)
    then show ?thesis using IH s by (auto simp: bindR_eq_Inr)
  qed
qed simp

section \<open>What the queues see of a run\<close>

text \<open>The packets the queues let in, by what the classifier says of them, and those that leave.\<close>

fun let_in :: "ds_queue \<Rightarrow> nat \<Rightarrow> edge_log list \<Rightarrow> ds_packet list" where
  "let_in D q [] = []"
| "let_in D q (EMarked i c cp o' p # ls) =
     (if accepted o' \<and> goes_to D (set_prio cp p) q then set_prio cp p # let_in D q ls else let_in D q ls)"
| "let_in D q (ELeft r # ls) = let_in D q ls"

fun gone :: "ds_queue \<Rightarrow> nat \<Rightarrow> edge_log list \<Rightarrow> ds_packet list" where
  "gone D q [] = []"
| "gone D q (EMarked i c cp o' p # ls) = gone D q ls"
| "gone D q (ELeft r # ls) = (case r of None \<Rightarrow> gone D q ls | Some p \<Rightarrow> if goes_to D p q then p # gone D q ls else gone D q ls)"

fun queue_log :: "edge_log \<Rightarrow> ds_log" where
  "queue_log (EMarked i c cp o' p) = Came o' (set_prio cp p)"
| "queue_log (ELeft r) = Left r"

lemma queue_log_lists:
  "admitted (\<lambda>p. goes_to D p q) (map queue_log ls) = let_in D q ls" "departed (\<lambda>p. goes_to D p q) (map queue_log ls) = gone D q ls"
  by (induction D q ls rule: let_in.induct) (auto split: option.splits)

lemma ds_enque_routed: "ds_enque now u p D = Inr x \<Longrightarrow> \<exists>q. goes_to D p q"
  by (cases "lookupPHBTable (prio (body p)) D") (auto simp: ds_enque_def goes_to_def Let_def)

text \<open>A run of the edge router is a run of its queues on the marked packets.\<close>

lemma edge_run_queues:
  "edge_run es (C, D) = Inr (ls, C', D') \<Longrightarrow> ds_ok D
   \<Longrightarrow> \<exists>xs. router_run xs D = Inr (map queue_log ls, D') \<and> (\<forall>e \<in> set xs. routable D e)"
proof (induction es arbitrary: C D ls)
  case (Cons e es)
  from Cons.prems(1) obtain l C1 D1 ls1 where s: "edge_step e (C, D) = Inr (l, C1, D1)" "edge_run es (C1, D1) = Inr (ls1, C', D')" "ls = l # ls1"
    by (auto simp: bindR_eq_Inr)
  have "\<exists>x. router_step x D = Inr (queue_log l, D1) \<and> routable D x"
  proof (cases e)
    case (EArrival now u1 u2 p)
    with s(1) obtain i c cp o' where d: "ds_enque now u2 (set_prio cp p) D = Inr (o', D1)" "l = EMarked i c cp o' p"
      by (auto simp: edge_enque_def bindR_eq_Inr)
    then show ?thesis using ds_enque_routed [OF d(1)] by (intro exI [of _ "Arrival now u2 (set_prio cp p)"]) simp
  next
    case (EDeparture now)
    with s(1) show ?thesis by (intro exI [of _ "Departure now"]) (auto simp: bindR_eq_Inr)
  qed
  then obtain x where x: "router_step x D = Inr (queue_log l, D1)" "routable D x" by blast
  obtain l' D'' where "router_step x D = Inr (l', D'')" "ds_ok D''" "phb D'' = phb D"
    by (rule router_step_ok [OF Cons.prems(2) x(2)]) (rule that; assumption)
  with x(1) have k: "ds_ok D1" "phb D1 = phb D" by simp_all
  from Cons.IH [OF s(2) k(1)] obtain xs where xs: "router_run xs D1 = Inr (map queue_log ls1, D')" "\<forall>e \<in> set xs. routable D1 e" by blast
  with x s(3) routable_same [OF k(2)] show ?case by (intro exI [of _ "x # xs"]) simp
qed (auto intro!: exI [of _ "[]"])

section \<open>The class of a packet\<close>

text \<open>A packet that is not marked down has the code point of its entry, which no policy changes.\<close>

lemma policy_keeps_code:
  "apply_policy k now u p mode e fs = (c, e', fs') \<Longrightarrow> codePt e' = codePt e"
  by (cases k) (auto simp: Let_def null_meter_def tsw_meter_def meter_defs split: if_splits prod.splits)

lemma mark_code:
  assumes "mark now u p C = Inr ((i, Initial, cp), C')"
  shows "cp = codePt (policyTable C ! i)"
proof -
  from assms obtain found where f: "getPolicyTableEntry (ds_saddr p) (ds_daddr p) C = Inr found"
    by (cases "getPolicyTableEntry (ds_saddr p) (ds_daddr p) C") (auto simp: mark_def)
  with assms obtain j where j: "found = Some j" by (cases found) (auto simp: mark_def)
  have "\<And>k cp pc. getPolicerTableEntry k cp C = Some pc \<Longrightarrow> initialCodePt pc = cp"
    by (auto simp: getPolicerTableEntry_def dest!: find_SomeD)
  then show ?thesis using assms f j by (auto simp: mark_def Let_def code_point_def split: if_splits option.splits prod.splits)
qed

lemma mark_keeps_code:
  assumes "mark now u p C = Inr ((j, c, cp), C')"
  shows "codePt (policyTable C' ! i) = codePt (policyTable C ! i)"
proof (cases "policy_index (policyTable C ! j) \<in> pool C")
  case True
  obtain mode fs e' where m: "j < length (policyTable C)"
    "apply_policy (policy_index (policyTable C ! j)) now u p mode (policyTable C ! j) (flows C) = (c, e', fs)"
    "C' = C\<lparr>policyTable := (policyTable C)[j := e'], flows := fs\<rparr>" by (rule mark_entry [OF assms True])
  then show ?thesis using policy_keeps_code [OF m(2)] by (cases "i = j") simp_all
next
  case False
  show ?thesis using mark_other [OF assms False] by simp
qed

lemma run_codes: "ds_run xs C = Inr (ms, C') \<Longrightarrow> (i, Initial, cp) \<in> set ms \<Longrightarrow> cp = codePt (policyTable C ! i)"
proof (induction xs arbitrary: C ms)
  case (Cons x xs)
  obtain now u p where x: "x = (now, u, p)" by (cases x)
  from Cons.prems(1) obtain m C1 ms1 where r: "mark now u p C = Inr (m, C1)" "ds_run xs C1 = Inr (ms1, C')" "ms = m # ms1"
    unfolding x by (auto simp: bindR_eq_Inr)
  obtain j c cp' where m: "m = (j, c, cp')" by (cases m)
  show ?case
  proof (cases "(i, Initial, cp) = m")
    case True
    then show ?thesis using mark_code r(1) by simp
  next
    case False
    then have "cp = codePt (policyTable C1 ! i)" using Cons.IH [OF r(2)] Cons.prems(2) r(3) by simp
    then show ?thesis using mark_keeps_code [OF r(1) [unfolded m]] by simp
  qed
qed simp

text \<open>
  C19: At an edge router, traffic that conforms to its profile keeps its class: with a token bucket that is full at first,
  every packet of the entry is given the code point of the entry, whatever else arrives and leaves. And each packet enters the
  queues, waits in them and leaves them with the code point it was given: in each queue, what has left and what waits is what
  waited at first and the packets let in since, each under its new code point and in the queue for it, in order.
\<close>

theorem edge_conforming_class:
  assumes "edge_run es (C, D) = Inr (ls, C', D')" "i < length (policyTable C)" "policy_index (policyTable C ! i) = TB" "TB \<in> pool C"
    "0 \<le> cir (policyTable C ! i)" "cBucket (policyTable C ! i) = cbs (policyTable C ! i)" "arrivals_ok (arrivalTime (policyTable C ! i)) (arrivals_of es)"
    "conforming (cbs (policyTable C ! i)) (cir (policyTable C ! i)) (packets_of i (arrivals_of es) (marks_of ls))" "ds_ok D"
  shows "(\<forall>c cp o' p. EMarked i c cp o' p \<in> set ls \<longrightarrow> cp = codePt (policyTable C ! i))
    \<and> (\<forall>q < numQueues D. gone D q ls @ items_of D' q = items_of D q @ let_in D q ls)"
proof (intro conjI allI impI)
  note run = edge_run_marks [OF assms(1)]
  fix c cp o' p assume "EMarked i c cp o' p \<in> set ls"
  then have m: "(i, c, cp) \<in> set (marks_of ls)" by (induction ls rule: marks_of.induct) auto
  have "c = Initial"
    by (rule run_keeps_filled [OF run assms(2-5,7), of "[]", OF _ _ m]) (use assms(6,8) in \<open>simp_all add: filled_def since_full_def\<close>)
  with m show "cp = codePt (policyTable C ! i)" using run_codes [OF run] by simp
next
  from edge_run_queues [OF assms(1,9)] obtain xs where "router_run xs D = Inr (map queue_log ls, D')" "\<forall>e \<in> set xs. routable D e" by blast
  with router_run_ok [OF assms(9) this(2)] show "\<And>q. q < numQueues D \<Longrightarrow> gone D q ls @ items_of D' q = items_of D q @ let_in D q ls"
    by (auto simp: queue_log_lists)
qed

definition edge_pkt :: "int \<Rightarrow> int \<Rightarrow> ds_packet" where
  "edge_pkt n sz = (packet_alloc n \<lparr>prio = 0, ect = False, flowid = 0\<rparr>)\<lparr>saddr := 1, daddr := 2, psize := sz\<rparr>"

definition edge_events :: "edge_event list" where
  "edge_events = [EArrival 1 0 0 (edge_pkt 1 1000), EArrival 2 0 0 (edge_pkt 2 500), EDeparture 3, EArrival 4 0 0 (edge_pkt 3 1000)]"

lemma demo_edge:
  "\<exists>C. demo_classifier TB [4000, 1500] = Inr C \<and> metered TB tb_good 0 (arrivals_of edge_events) 4 C \<and> cBucket (policyTable C ! 0) = cbs (policyTable C ! 0)
     \<and> codePt (policyTable C ! 0) = 10
     \<and> (\<exists>C'. ds_run (arrivals_of edge_events) C = Inr ([(0, Initial, 10), (0, Initial, 10), (0, Initial, 10)], C'))
     \<and> conforming (cbs (policyTable C ! 0)) (cir (policyTable C ! 0)) (packets_of 0 (arrivals_of edge_events) [(0, Initial, 10), (0, Initial, 10), (0, Initial, 10)])"
  by (simp add: demo_simps edge_events_def edge_pkt_def ds_view_def packet_alloc_def metered_def tb_good_def)

text \<open>The queues take in whatever the classifier marks with code points of their table.\<close>

lemma edge_run_ok:
  assumes "ds_ok D" "ds_run (arrivals_of es) C = Inr (ms, C')" "\<forall>(i, c, cp) \<in> set ms. cp \<in> fst ` set (phb D)"
  shows "\<exists>ls D'. edge_run es (C, D) = Inr (ls, C', D') \<and> ds_ok D' \<and> marks_of ls = ms"
  using assms
proof (induction es arbitrary: C D ms)
  case (Cons e es)
  show ?case
  proof (cases e)
    case (EArrival now u1 u2 p)
    with Cons.prems(2) obtain i c cp C1 ms1 where m: "mark now u1 (ds_view p) C = Inr ((i, c, cp), C1)" "ds_run (arrivals_of es) C1 = Inr (ms1, C')"
      "ms = (i, c, cp) # ms1" by (auto simp: bindR_eq_Inr)
    have "cp \<in> fst ` set (phb D)" using Cons.prems(3) m(3) by simp
    then have "find (\<lambda>(c, q, prec). c = cp) (phb D) \<noteq> None" by (auto simp: find_None_iff) blast
    then obtain q where q: "goes_to D (set_prio cp p) q" by (auto simp: goes_to_def lookupPHBTable_def set_prio_def)
    obtain o' D1 where d: "ds_enque now u2 (set_prio cp p) D = Inr (o', D1)" "ds_ok D1" "phb D1 = phb D"
      by (rule ds_enque_ok [OF Cons.prems(1) q, of now u2]) (rule that; assumption)
    have "\<forall>(i, c, cp) \<in> set ms1. cp \<in> fst ` set (phb D1)" using Cons.prems(3) m(3) d(3) by simp
    from Cons.IH [OF d(2) m(2) this] m d(1) show ?thesis by (auto simp: EArrival edge_enque_def set_prio_def)
  next
    case (EDeparture now)
    obtain r D1 where d: "ds_deque now D = Inr (r, D1)" "ds_ok D1" "phb D1 = phb D"
      by (rule ds_deque_ok [OF Cons.prems(1), of now]) (rule that; assumption)
    have "\<forall>(i, c, cp) \<in> set ms. cp \<in> fst ` set (phb D1)" using Cons.prems(3) d(3) by simp
    have "ds_run (arrivals_of es) C = Inr (ms, C')" using Cons.prems(2) by (simp add: EDeparture)
    from Cons.IH [OF d(2) this \<open>\<forall>(i, c, cp) \<in> set ms. cp \<in> fst ` set (phb D1)\<close>] obtain ls D' where
      "edge_run es (C, D1) = Inr (ls, C', D')" "ds_ok D'" "marks_of ls = ms" by blast
    then show ?thesis using d(1) by (simp add: EDeparture)
  qed
qed simp

theorem edge_conforming_class_witness:
  "\<exists>C ls C' D'. demo_classifier TB [4000, 1500] = Inr C \<and> edge_run edge_events (C, demo_router RR) = Inr (ls, C', D') \<and> length (marks_of ls) = 3
     \<and> (\<forall>c cp o' p. EMarked 0 c cp o' p \<in> set ls \<longrightarrow> cp = 10)
     \<and> (\<forall>q < numQueues (demo_router RR). gone (demo_router RR) q ls @ items_of D' q = items_of (demo_router RR) q @ let_in (demo_router RR) q ls)"
proof -
  let ?ms = "[(0::nat, Initial, 10::int), (0, Initial, 10), (0, Initial, 10)]"
  from demo_edge obtain C C' where d: "demo_classifier TB [4000, 1500] = Inr C" "metered TB tb_good 0 (arrivals_of edge_events) 4 C"
    "cBucket (policyTable C ! 0) = cbs (policyTable C ! 0)" "codePt (policyTable C ! 0) = 10"
    "ds_run (arrivals_of edge_events) C = Inr (?ms, C')"
    "conforming (cbs (policyTable C ! 0)) (cir (policyTable C ! 0)) (packets_of 0 (arrivals_of edge_events) ?ms)" by blast
  obtain ls D' where r: "edge_run edge_events (C, demo_router RR) = Inr (ls, C', D')" "marks_of ls = ?ms"
    using edge_run_ok [OF demo_router_ok(1) [of RR] d(5)] by (auto simp: demo_phb)
  have "(\<forall>c cp o' p. EMarked 0 c cp o' p \<in> set ls \<longrightarrow> cp = codePt (policyTable C ! 0))
     \<and> (\<forall>q < numQueues (demo_router RR). gone (demo_router RR) q ls @ items_of D' q = items_of (demo_router RR) q @ let_in (demo_router RR) q ls)"
    by (rule edge_conforming_class [OF r(1) _ _ _ _ d(3) _ _ demo_router_ok(1)]) (use d(2,6) r(2) in \<open>simp_all add: metered_def tb_good_def\<close>)
  with d(1,4) r show ?thesis by (intro exI [of _ C] exI [of _ ls] exI [of _ C'] exI [of _ D']) simp
qed

end
