(* ===== verification/Spec2Isabelle.thy ===== *)
theory Spec2Isabelle
  imports SchedRuns MobileNode VanetsProps WfrpNode WfrpNet AodvProps TcpDelAck RoutePaths DrrFair TcpConnection TcpReassProps RngRuns DsEdge
begin

text \<open>
  A model of parts of the network simulator ns-2.34 with the routing protocols this repository adds
  to it. Paths below are relative to \<open>src/src/ns-2.34/\<close>. Every function of a theory carries the
  name of the C++ function it models where Isabelle allows it; records have the fields of the
  classes, prefixed where two classes share a field name.

  \<^bold>\<open>The program.\<close> The simulator is single threaded: a scheduler keeps a queue of events, takes the
  earliest one, sets the clock and calls the handler of the event. Handlers are protocol agents and
  their timers; they schedule further events, cancel queued ones and hand packets to their
  neighbours in the same way. The parts meet in three places: the queue disciplines behind the
  scheduler (locale \<open>event_queue\<close>), the tables with one entry per key behind the routing agents
  (locale \<open>keyed_table\<close>), and the requests an agent makes of the scheduler (\<open>request\<close>).

  \<^bold>\<open>Theories and code.\<close>
  \<^item> \<open>NsPrelude\<close>: integer types, the result type \<open>res\<close> of code that can abort (a failed
    assertion, \<open>abort()\<close>, \<open>exit(1)\<close>, a null dereference, a write beyond an array), the lemmas on
    chaining such code, the list operations behind the BSD list macros.
  \<^item> \<open>Sched\<close>: \<open>common/scheduler.cc\<close>, the operations all disciplines share and the interface
    \<open>event_queue\<close>, which says that the queue refines a list in dispatch order. Within it: a run of
    a scheduler in good order never aborts, goes forward in time and ends only when it should.
  \<^item> \<open>SchedList\<close>, \<open>SchedHeap\<close>, \<open>SchedSplay\<close>, \<open>SchedCalendar\<close>: the four disciplines
    \<open>ListScheduler\<close>, \<open>HeapScheduler\<close> with its \<open>Heap\<close> (\<open>common/heap.h\<close>),
    \<open>SplayScheduler\<close> (\<open>common/splay-scheduler.cc\<close>) and \<open>CalendarScheduler\<close>, each with its
    invariant, its abstraction to the list and its interpretation (\<open>lq\<close>, \<open>hq\<close>, \<open>sq\<close>,
    \<open>cq\<close>) of the interface.
  \<^item> \<open>SchedRuns\<close>: what the interface gives for runs of the disciplines.
  \<^item> \<open>NsTimer\<close>: \<open>common/timer-handler.cc\<close>, the timers of the agents on a scheduler.
  \<^item> \<open>NsPacket\<close>: the header fields of \<open>common/packet.h\<close> and \<open>common/ip.h\<close> the agents use.
  \<^item> \<open>KeyedTable\<close>: the interface of the routing and neighbour tables.
  \<^item> \<open>WfrpAgent\<close>, \<open>WfrpProps\<close>, \<open>WfrpNet\<close>: the sink-rooted protocol of \<open>wfrp/\<close>: the
    agent, the effect of each packet, and a network of such nodes over an arbitrary medium, in which
    next hops never form a loop. \<open>WfrpNode\<close>: such a node on a scheduler, whose two timers re-arm
    themselves, so that \<open>turns\<close> looks at the first turns of the scheduler's loop instead of a run that ends.
  \<^item> \<open>MobileNode\<close>: movement in \<open>common/mobilenode.cc\<close> and the car routes of this repository. A node
    has a topography once it moves: \<open>set_destination\<close> asserts it.
  \<^item> \<open>VanetsTables\<close>, \<open>VanetsAgent\<close>, \<open>VanetsProps\<close>: the containers and the agent of
    \<open>avanets/\<close>. A forward packet carries a packet in a header registered without room for one: the model
    aborts when the headers end too early, and otherwise leaves out that other headers share the place.
  \<^item> \<open>AodvTable\<close>, \<open>AodvQueue\<close>, \<open>AodvAgent\<close>: the tables, the packet queue and the agent
    of \<open>aodv/\<close>. A new agent has no target, classifier or interface queue, and using one of the latter two
    before it is attached, or a write beyond an array of the agent, aborts. \<open>AodvSafety\<close>, \<open>AodvLinks\<close> and \<open>AodvFrame\<close> hold the invariant of the tables,
    that no event within the assumptions breaks an assertion, and what each operation leaves alone;
    \<open>AodvProps\<close> the properties.
  \<^item> \<open>TcpAcker\<close>, \<open>TcpSack\<close>, \<open>TcpSink\<close>, \<open>TcpDelAck\<close>: the receivers of
    \<open>tcp/tcp-sink.cc\<close>: the receive window, the blocks of selective acknowledgements, the sink that
    acknowledges every segment and, on a timer and a scheduler, the one that delays ACKs.
  \<^item> \<open>TcpRtt\<close>, \<open>TcpSender\<close>: the senders \<open>TcpAgent\<close> and \<open>RenoTcpAgent\<close> of \<open>tcp/tcp.cc\<close> and
    \<open>tcp/tcp-reno.cc\<close>: the round trip estimate in fixed point, its integers of 16 and 32 bits wrapping around, with the
    retransmission timeout, and the agent; a timer is its status, what the agent sends and sets is a list of effects.
    \<open>TcpSenderInv\<close> and \<open>TcpSenderRuns\<close> hold the invariant, that every operation keeps it, and
    that sending returns; \<open>TcpSenderProps\<close> the properties.
  \<^item> \<open>TcpConnection\<close>: a sender and a sink over a network that loses, repeats, reorders and marks
    packets: reliability, measured against the segments that have arrived, and progress.
  \<^item> \<open>TcpReass\<close>: the reassembly queue of \<open>tcp/rq.cc\<close>, and \<open>TcpReassInv\<close>: its blocks are the maximal runs of
    the numbers received, which \<open>rq_add\<close> keeps. \<open>TcpReassRuns\<close>: the data path of the two-way TCP receiver in
    \<open>tcp/tcp-full.cc\<close> over it; \<open>TcpReassProps\<close>: the properties.
  \<^item> \<open>RouteLogic\<close>, \<open>RoutePaths\<close>: the routes of static routing, \<open>routing/route.cc\<close>, and that
    they are shortest paths.
  \<^item> \<open>NsQueue\<close>: the queues of links, \<open>queue/queue.cc\<close> and \<open>queue/drop-tail.cc\<close>: the packet
    queue, the base class with its statistics, the interfaces \<open>queue_disc\<close> of a discipline and
    \<open>fifo_disc\<close> of one that keeps the order, \<open>DropTail\<close> with its interpretation \<open>dt\<close>.
  \<^item> \<open>RingList\<close>, \<open>DrrQueue\<close>, \<open>DrrServe\<close>, \<open>DrrFair\<close>: deficit round robin, \<open>queue/drr.cc\<close>:
    rings of pointers as lists, the model and its invariant, the end of the service loop and the
    interpretation \<open>drr\<close> of \<open>queue_disc\<close>, fairness.
  \<^item> \<open>RngArith\<close>, \<open>RngStream\<close>: the random number generator of \<open>tools/rng.cc\<close>: whole numbers in
    doubles, which is None where one would be rounded, matrices, streams, seeds. \<open>RngProps\<close>: legal states
    and the recurrence as a step; \<open>RngTables\<close>: the tables of the code are the powers they stand for;
    \<open>RngRuns\<close>: the properties.
  \<^item> \<open>DsPolicy\<close>: the policies of differentiated services, \<open>diffserv/dsPolicy.cc\<close>; \<open>DsMeters\<close>: the interface
    \<open>token_meter\<close> of what fills a bucket with time and takes packets out of it, with an interpretation for each
    bucket; \<open>DsProps\<close>: the properties.
  \<^item> \<open>DsRed\<close>: the queues of a differentiated services router, \<open>diffserv/dsredq.cc\<close> and \<open>diffserv/dsred.cc\<close>.
    \<open>DsRouter\<close>: their invariant and what arrivals and departures do; \<open>DsRouterProps\<close>: order, turns and
    work conservation; \<open>DsRedProps\<close>: early detection; \<open>DsEdge\<close>: an edge router, which puts the classifier of
    \<open>DsPolicy\<close> before the queues.
  \<^item> this theory: a WFRP node driven by the heap scheduler.

  \<^bold>\<open>Modelling choices.\<close> Fields of fixed width are words where the code can overflow them
  (hop counts, sequence numbers, counters); times are real numbers for the C++ \<open>double\<close>, so rounding
  is not modelled. Counters the code keeps in an \<open>int\<close> and that grow with the number of events or bytes
  held (\<open>nbuckets_\<close> and \<open>qsize_\<close> of the calendar, deficits and byte counts of the queues) are unbounded
  integers: the model is of runs in which they stay below \<open>2 ^ 31\<close>. Linked lists are lists, pointers into them are the keys that find the entry. Code
  that can abort returns \<open>res\<close>; what an agent sends is a list of actions in program order. Random
  numbers, the medium and other code outside the model are arguments.

  \<^bold>\<open>Bounds and fuel.\<close> \<open>run\<close> need not end, so it has fuel; with \<open>n\<close> rounds of fuel the theorems
  ask for room for \<open>n * k\<close> events, \<open>k\<close> being the requests a handler may make; \<open>run_drains\<close> shows
  that a queue of \<open>n\<close> events is drained with fuel \<open>n\<close>. Room means: the 64-bit uid and, for the
  heap, the 32-bit secondary key do not wrap round; what happens when they do is proved as well. \<open>turns\<close>
  counts turns of the same loop and yields the state reached, so it needs no bound.
  \<open>delack_run\<close> has fuel of the same kind; two events per segment are enough. \<open>take_in_order\<close>, the loop
  of \<open>Acker::update\<close>, has the size of the ring as fuel: the cells do not change in it, so beyond
  that the code would go round for ever, which is the value \<open>Hangs\<close>; it never happens.
  \<open>drr_loop\<close> is a partial function, as a quantum of 0 makes the code loop for ever; \<open>drr_deque_ends\<close>
  shows that it is defined. All other loops of the model are total functions.

  \<^bold>\<open>Not modelled.\<close> The Tcl interface, tracing and printing; \<open>RealTimeScheduler\<close>, which reads the
  wall clock; memory management and reference counts; the physical layer, the MAC protocols, the
  other TCP agents and transport protocols and the third-party routing protocols, which the manifest lists.
\<close>

section \<open>A WFRP node on the heap scheduler\<close>

text \<open>
  C38: A WFRP sink on the heap scheduler keeps time. With its purge timer armed for time a and its
  beacon timer for b, the first n turns of the scheduler's loop, for any n, never abort and dispatch n
  events in the order of their times; among them are purges at a, a + 2, a + 4 and so on and beacons
  at b, b + 10 and so on, none of which the clock has passed by at the end; the target gets the
  beacons, or has them waiting, at these times and numbered one after the other from the sink's
  sequence number, modulo \<open>2 ^ 32\<close>. The routes of the sink stay as they are except that exactly those whose time was
  over at one of these purges are marked as expired; its address and the invariant of its cache are
  kept.
\<close>

theorem wfrp_node_on_heap:
  assumes "sched_ok heap_inv heap_room heap_abs (n * 2) s" and "\<not> halted s" and "wfrp_inv w"
    and "mset (map (\<lambda>e. (ev_handler e, ev_time e)) (heap_abs (queue s))) = {#(RtcTimer, a), (BcnTimer, b)#}"
  shows "\<exists>tr w' s'. heap_turns wfrp_handle n [] w s = Inr (tr, w', s') \<and> length tr = n \<and> trace_ok (clock s') tr
    \<and> wfrp_inv w' \<and> w_index w' = w_index w
    \<and> rthead w' = map (\<lambda>r. if \<exists>t \<in> set (ticks RtcTimer tr). rt_expire r \<le> t then r\<lparr>rt_state := ROUTE_EXPIRED\<rparr> else r) (rthead w)
    \<and> (let k = length (ticks RtcTimer tr); l = length (ticks BcnTimer tr) in
        ticks RtcTimer (rev tr) = map (\<lambda>j. a + 2 * real j) [0..<k] \<and> clock s' \<le> a + 2 * real k
        \<and> ticks BcnTimer (rev tr) = map (\<lambda>j. b + 10 * real j) [0..<l] \<and> clock s' \<le> b + 10 * real l
        \<and> beacons (rev tr) @ beacons (heap_abs (queue s')) = map (\<lambda>j. (b + 10 * real j, w_seqno w + of_nat j)) [0..<l]
        \<and> w_seqno w' = w_seqno w + of_nat l)"
proof -
  have "trace_ok (clock s) []" by (simp add: trace_ok_def)
  from node_turns [OF assms(1,2) sink_at_start [OF assms(3,4)] this] obtain tr w' s' k l where
    r: "heap_turns wfrp_handle n [] w s = Inr (tr, w', s')" "length tr = n" "hq.ok 0 s'" "trace_ok (clock s') tr"
      "sink_at a b (w_seqno w) (w_index w) (rthead w) k l tr w' (heap_abs (queue s'))" by auto
  note J = r(5) [unfolded sink_at_def purged_def]
  have "length (ticks RtcTimer (rev tr)) = k" "length (ticks BcnTimer (rev tr)) = l" using J by simp_all
  then have n: "length (ticks RtcTimer tr) = k" "length (ticks BcnTimer tr) = l" by (simp_all add: ticks_rev)
  have late: "clock s' \<le> t" if "t \<in> set (ticks h (heap_abs (queue s')))" for t h
    using that r(3) by (auto simp: sched_ok_def ticks_def)
  have "clock s' \<le> a + 2 * real k" "clock s' \<le> b + 10 * real l"
    using late [of _ RtcTimer] late [of _ BcnTimer] J by simp_all
  then show ?thesis
    by (intro exI [of _ tr] exI [of _ w'] exI [of _ s']) (use r(1,2,4) J in \<open>simp add: n\<close>)
qed

definition demo_armed :: "wfrp_handler event list" where
  "demo_armed = [\<lparr>ev_time = 2, ev_uid = 1, ev_handler = RtcTimer\<rparr>, \<lparr>ev_time = 10, ev_uid = 2, ev_handler = BcnTimer\<rparr>]"

definition demo_started :: "(wfrp_handler, wfrp_handler event heap) sched" where
  "demo_started = (sched_init (fold (\<lambda>e h. hs_insert h e) demo_armed (heap_new 4)))\<lparr>next_uid := 3\<rparr>"

lemma demo_started_ok:
  "sched_ok heap_inv heap_room heap_abs 16 demo_started \<and> heap_abs (queue demo_started) = demo_armed"
proof -
  let ?e = "demo_armed ! 0" and ?f = "demo_armed ! 1"
  from hq.ins_spec [OF heap_inv_new, of 4 17 ?e] obtain q1 where q1: "hs_insert (heap_new 4) ?e = q1" "heap_inv q1" "heap_room q1 17" "heap_abs q1 = [?e]"
    by (auto simp: heap_room_new heap_abs_new demo_armed_def)
  from hq.ins_spec [OF q1(2), of 16 ?f] q1(3,4) obtain q2 where "hs_insert q1 ?f = q2" "heap_inv q2" "heap_room q2 16" "heap_abs q2 = [?e, ?f]"
    by (auto simp: demo_armed_def)
  with q1(1) show ?thesis by (simp add: sched_ok_def demo_started_def sched_init_def demo_armed_def uid_max_def)
qed

theorem wfrp_node_on_heap_witness:
  "\<exists>tr w' s'. heap_turns wfrp_handle 8 [] (wfrp_new 7) demo_started = Inr (tr, w', s') \<and> length tr = 8
    \<and> wfrp_inv w' \<and> w_index w' = 7 \<and> ticks RtcTimer (rev tr) = [2, 4, 6, 8, 10, 12] \<and> ticks BcnTimer (rev tr) = [10]
    \<and> beacons (rev tr) @ beacons (heap_abs (queue s')) = [(10, 1)]"
proof -
  have m: "mset (map (\<lambda>e. (ev_handler e, ev_time e)) (heap_abs (queue demo_started))) = {#(RtcTimer, 2), (BcnTimer, 10)#}"
    by (simp add: demo_started_ok demo_armed_def)
  have h: "\<not> halted demo_started" by (simp add: demo_started_def sched_init_def)
  have ok: "sched_ok heap_inv heap_room heap_abs (8 * 2) demo_started" using demo_started_ok by simp
  from wfrp_node_on_heap [OF ok h wfrp_inv_new m, of 7] obtain tr w' s' where r: "heap_turns wfrp_handle 8 [] (wfrp_new 7) demo_started = Inr (tr, w', s')"
    "length tr = 8" "wfrp_inv w'" "w_index w' = 7" by (auto simp: wfrp_new_def)
  have "case heap_turns wfrp_handle 8 [] (wfrp_new 7) demo_started of Inl er \<Rightarrow> False
    | Inr (tr, w', s') \<Rightarrow> ticks RtcTimer (rev tr) = [2, 4, 6, 8, 10, 12] \<and> ticks BcnTimer (rev tr) = [10]
        \<and> beacons (rev tr) @ beacons (heap_abs (queue s')) = [(10, 1)]" by code_simp
  with r show ?thesis by simp
qed

end
